(* ===== verification/Prelude.thy ===== *)
theory Prelude
  imports Main "HOL-Library.Word"
begin

text \<open>
  Shared ground of the development: the names of the machine types the sources use, the theorem
  collections the components add to, and the generic facts on words, bits and lists that more
  than one component needs.
\<close>

unbundle bit_operations_syntax

section \<open>Machine types\<close>

text \<open>
  A \<open>char\<close> or \<open>uint8_t\<close> of the sources is a \<open>byte\<close>; a \<open>std::string\<close>, a \<open>Slice\<close> and a
  \<open>const char*\<close> with its limit are lists of bytes (a pointer is the list of the bytes from the
  pointer to the limit). \<open>uint32_t\<close> and \<open>uint64_t\<close> keep their width.
\<close>

type_synonym byte = "8 word"
type_synonym u32 = "32 word"
type_synonym u64 = "64 word"
type_synonym bytes = "byte list"

section \<open>Theorem collections\<close>

named_theorems coding_rt \<open>decoding what was just encoded\<close>
named_theorems bits32 \<open>bit-level evaluation of 32-bit expressions\<close>

section \<open>Words and bits\<close>

lemma byte_bit_less: "bit (b :: byte) n \<Longrightarrow> n < 8"
  using bit_imp_le_length by fastforce

lemma byte_bit_ge [simp]: "8 \<le> n \<Longrightarrow> \<not> bit (b :: byte) n"
  using byte_bit_less linorder_not_less by blast

lemma bit_mask_int [simp]:
  "bit (127 :: int) n \<longleftrightarrow> n < 7" "bit (255 :: int) n \<longleftrightarrow> n < 8"
proof -
  have "(127 :: int) = mask 7" "(255 :: int) = mask 8" by (simp_all add: mask_eq_exp_minus_1)
  then show "bit (127 :: int) n \<longleftrightarrow> n < 7" "bit (255 :: int) n \<longleftrightarrow> n < 8"
    by (simp_all only: bit_mask_iff possible_bit_int simp_thms)
qed

lemma bit_128_int [simp]: "bit (128 :: int) n \<longleftrightarrow> n = 7"
proof -
  have "(128 :: int) = 2 ^ 7" by simp
  then show ?thesis by (auto simp only: bit_exp_iff possible_bit_int)
qed

lemma push_take_drop_bit:
  "push_bit s (take_bit 7 v) OR push_bit (s + 7) (drop_bit 7 v) = push_bit s v"
  for v :: "'a :: len word"
proof (rule bit_word_eqI)
  fix n assume "n < LENGTH('a)"
  then show "bit (push_bit s (take_bit 7 v) OR push_bit (s + 7) (drop_bit 7 v)) n
    = bit (push_bit s v) n"
    by (cases "s + 7 \<le> n") (auto simp: bit_simps)
qed

lemma bit_bounded_less:
  assumes "unat v < 2 ^ k" "bit v n"
  shows "n < k"
proof -
  have "bit (unat v) n"
    using assms(2) by (simp add: bit_unsigned_iff)
  then have "bit (take_bit k (unat v)) n"
    using assms(1) by (simp add: take_bit_nat_eq_self)
  then show ?thesis
    by (simp add: bit_take_bit_iff)
qed

lemma unat_ucast_up [simp]:
  "unat (ucast (v :: u32) :: u64) = unat v"
  "unat (ucast (b :: byte) :: u32) = unat b"
  "unat (ucast (b :: byte) :: u64) = unat b"
  by (simp_all add: unsigned_ucast_eq take_bit_nat_eq_self
      order.strict_trans [OF unsigned_less])

lemma ucast_u32_u64_u32 [simp]: "(ucast (ucast (v :: u32) :: u64) :: u32) = v"
  by (rule bit_word_eqI) (auto simp: bit_simps)

lemma ucast_byte_u32_bit: "bit (ucast (b :: byte) :: u32) n \<longleftrightarrow> n < 8 \<and> bit b n"
  by (auto simp: bit_simps dest: bit_imp_le_length)

lemma ucast_byte_u64_bit: "bit (ucast (b :: byte) :: u64) n \<longleftrightarrow> n < 8 \<and> bit b n"
  by (auto simp: bit_simps dest: bit_imp_le_length)

end
