(* ===== verification/Coding.thy ===== *)
theory Coding
  imports Prelude
begin

text \<open>
  \<open>util/coding.h\<close> and \<open>util/coding.cc\<close>: the little-endian fixed-width encodings, the
  base-128 varints and the length-prefixed slices every on-disk format of the store is made of.
  The \<open>Put\<close> routines append to a string; the \<open>Get\<close> routines take the bytes that are left
  and return \<open>None\<close> where the source returns \<open>false\<close> or \<open>nullptr\<close>, and the value with the
  advanced input otherwise.
\<close>

section \<open>Fixed-width integers\<close>

definition EncodeFixed32 :: "u32 \<Rightarrow> bytes" where
  "EncodeFixed32 v =
     [ucast v, ucast (drop_bit 8 v), ucast (drop_bit 16 v), ucast (drop_bit 24 v)]"

definition EncodeFixed64 :: "u64 \<Rightarrow> bytes" where
  "EncodeFixed64 v =
     [ucast v, ucast (drop_bit 8 v), ucast (drop_bit 16 v), ucast (drop_bit 24 v),
      ucast (drop_bit 32 v), ucast (drop_bit 40 v), ucast (drop_bit 48 v), ucast (drop_bit 56 v)]"

text \<open>
  The decoders read four and eight bytes at a pointer without a bounds check; the value is
  specified where that many bytes are there.
\<close>

definition DecodeFixed32 :: "bytes \<Rightarrow> u32" where
  "DecodeFixed32 p =
     ucast (p ! 0) OR push_bit 8 (ucast (p ! 1)) OR
     push_bit 16 (ucast (p ! 2)) OR push_bit 24 (ucast (p ! 3))"

definition DecodeFixed64 :: "bytes \<Rightarrow> u64" where
  "DecodeFixed64 p =
     ucast (p ! 0) OR push_bit 8 (ucast (p ! 1)) OR
     push_bit 16 (ucast (p ! 2)) OR push_bit 24 (ucast (p ! 3)) OR
     push_bit 32 (ucast (p ! 4)) OR push_bit 40 (ucast (p ! 5)) OR
     push_bit 48 (ucast (p ! 6)) OR push_bit 56 (ucast (p ! 7))"

definition PutFixed32 :: "bytes \<Rightarrow> u32 \<Rightarrow> bytes" where
  "PutFixed32 dst v = dst @ EncodeFixed32 v"

definition PutFixed64 :: "bytes \<Rightarrow> u64 \<Rightarrow> bytes" where
  "PutFixed64 dst v = dst @ EncodeFixed64 v"

section \<open>Varints\<close>

text \<open>\<open>EncodeVarint32\<close> is unrolled by the number of 7-bit groups.\<close>

definition EncodeVarint32 :: "u32 \<Rightarrow> bytes" where
  "EncodeVarint32 v =
     (if v < 2 ^ 7 then [ucast v]
      else if v < 2 ^ 14 then [ucast (v OR 128), ucast (drop_bit 7 v)]
      else if v < 2 ^ 21 then
        [ucast (v OR 128), ucast (drop_bit 7 v OR 128), ucast (drop_bit 14 v)]
      else if v < 2 ^ 28 then
        [ucast (v OR 128), ucast (drop_bit 7 v OR 128), ucast (drop_bit 14 v OR 128),
         ucast (drop_bit 21 v)]
      else
        [ucast (v OR 128), ucast (drop_bit 7 v OR 128), ucast (drop_bit 14 v OR 128),
         ucast (drop_bit 21 v OR 128), ucast (drop_bit 28 v)])"

definition PutVarint32 :: "bytes \<Rightarrow> u32 \<Rightarrow> bytes" where
  "PutVarint32 dst v = dst @ EncodeVarint32 v"

lemma drop_bit_7_less: "128 \<le> v \<Longrightarrow> unat (drop_bit 7 v) < unat v" for v :: u64
  unfolding unat_drop_bit_eq unfolding drop_bit_eq_div by (simp add: word_le_nat_alt)

function EncodeVarint64 :: "u64 \<Rightarrow> bytes" where
  "EncodeVarint64 v =
     (if v \<ge> 128 then ucast (v OR 128) # EncodeVarint64 (drop_bit 7 v) else [ucast v])"
  by pat_completeness auto
termination
  by (relation "measure unat") (auto intro: drop_bit_7_less)

declare EncodeVarint64.simps [simp del]

definition PutVarint64 :: "bytes \<Rightarrow> u64 \<Rightarrow> bytes" where
  "PutVarint64 dst v = dst @ EncodeVarint64 v"

definition PutLengthPrefixedSlice :: "bytes \<Rightarrow> bytes \<Rightarrow> bytes" where
  "PutLengthPrefixedSlice dst value = PutVarint32 dst (of_nat (length value)) @ value"

function VarintLength_loop :: "u64 \<Rightarrow> nat \<Rightarrow> nat" where
  "VarintLength_loop v len =
     (if v \<ge> 128 then VarintLength_loop (drop_bit 7 v) (len + 1) else len)"
  by pat_completeness auto
termination
  by (relation "measure (\<lambda>(v, len). unat v)") (auto intro: drop_bit_7_less)

declare VarintLength_loop.simps [simp del]

definition VarintLength :: "u64 \<Rightarrow> nat" where
  "VarintLength v = VarintLength_loop v 1"

text \<open>
  The decoding loops: \<open>shift\<close> advances by 7 up to its bound (28 or 63), and the loop also ends at
  the limit of the input.
\<close>

function GetVarint32_loop :: "nat \<Rightarrow> u32 \<Rightarrow> bytes \<Rightarrow> (u32 \<times> bytes) option" where
  "GetVarint32_loop shift result p =
     (if shift \<le> 28 \<and> p \<noteq> [] then
        let byte = ucast (hd p) :: u32 in
        if byte AND 128 \<noteq> 0
        then GetVarint32_loop (shift + 7) (result OR push_bit shift (byte AND 127)) (tl p)
        else Some (result OR push_bit shift byte, tl p)
      else None)"
  by pat_completeness auto
termination
  by (relation "measure (\<lambda>(shift, result, p). length p)") auto

declare GetVarint32_loop.simps [simp del]

definition GetVarint32PtrFallback :: "bytes \<Rightarrow> (u32 \<times> bytes) option" where
  "GetVarint32PtrFallback p = GetVarint32_loop 0 0 p"

definition GetVarint32Ptr :: "bytes \<Rightarrow> (u32 \<times> bytes) option" where
  "GetVarint32Ptr p =
     (if p \<noteq> [] \<and> (ucast (hd p) :: u32) AND 128 = 0 then Some (ucast (hd p), tl p)
      else GetVarint32PtrFallback p)"

definition GetVarint32 :: "bytes \<Rightarrow> (u32 \<times> bytes) option" where
  "GetVarint32 input =
     (case GetVarint32Ptr input of None \<Rightarrow> None | Some (value, q) \<Rightarrow> Some (value, q))"

function GetVarint64_loop :: "nat \<Rightarrow> u64 \<Rightarrow> bytes \<Rightarrow> (u64 \<times> bytes) option" where
  "GetVarint64_loop shift result p =
     (if shift \<le> 63 \<and> p \<noteq> [] then
        let byte = ucast (hd p) :: u64 in
        if byte AND 128 \<noteq> 0
        then GetVarint64_loop (shift + 7) (result OR push_bit shift (byte AND 127)) (tl p)
        else Some (result OR push_bit shift byte, tl p)
      else None)"
  by pat_completeness auto
termination
  by (relation "measure (\<lambda>(shift, result, p). length p)") auto

declare GetVarint64_loop.simps [simp del]

definition GetVarint64Ptr :: "bytes \<Rightarrow> (u64 \<times> bytes) option" where
  "GetVarint64Ptr p = GetVarint64_loop 0 0 p"

definition GetVarint64 :: "bytes \<Rightarrow> (u64 \<times> bytes) option" where
  "GetVarint64 input =
     (case GetVarint64Ptr input of None \<Rightarrow> None | Some (value, q) \<Rightarrow> Some (value, q))"

definition GetLengthPrefixedSlice :: "bytes \<Rightarrow> (bytes \<times> bytes) option" where
  "GetLengthPrefixedSlice input =
     (case GetVarint32 input of
        None \<Rightarrow> None
      | Some (len, rest) \<Rightarrow>
          if length rest \<ge> unat len then Some (take (unat len) rest, drop (unat len) rest)
          else None)"

section \<open>Facts on the fixed-width encodings\<close>

lemma length_EncodeFixed [simp]:
  "length (EncodeFixed32 v) = 4" "length (EncodeFixed64 w) = 8"
  by (simp_all add: EncodeFixed32_def EncodeFixed64_def)

lemma DecodeFixed32_EncodeFixed32 [simp, coding_rt]: "DecodeFixed32 (EncodeFixed32 v @ r) = v"
proof (rule bit_word_eqI)
  fix n assume "n < LENGTH(32)"
  then have "n < 8 \<or> 8 \<le> n \<and> n < 16 \<or> 16 \<le> n \<and> n < 24 \<or> 24 \<le> n \<and> n < 32"
    by auto
  then show "bit (DecodeFixed32 (EncodeFixed32 v @ r)) n = bit v n"
    by (elim disjE conjE)
      (simp_all add: DecodeFixed32_def EncodeFixed32_def bit_simps less_diff_conv2)
qed

lemma DecodeFixed64_EncodeFixed64 [simp, coding_rt]: "DecodeFixed64 (EncodeFixed64 v @ r) = v"
proof (rule bit_word_eqI)
  fix n assume "n < LENGTH(64)"
  then have "n < 8 \<or> 8 \<le> n \<and> n < 16 \<or> 16 \<le> n \<and> n < 24 \<or> 24 \<le> n \<and> n < 32
    \<or> 32 \<le> n \<and> n < 40 \<or> 40 \<le> n \<and> n < 48 \<or> 48 \<le> n \<and> n < 56 \<or> 56 \<le> n \<and> n < 64"
    by auto
  then show "bit (DecodeFixed64 (EncodeFixed64 v @ r)) n = bit v n"
    by (elim disjE conjE)
      (simp_all add: DecodeFixed64_def EncodeFixed64_def bit_simps less_diff_conv2)
qed

lemma EncodeFixed32_DecodeFixed32:
  assumes "4 \<le> length p"
  shows "EncodeFixed32 (DecodeFixed32 p) = take 4 p"
proof -
  have "take 4 p = [p ! 0, p ! 1, p ! 2, p ! 3]"
    using assms by (intro nth_equalityI) (auto simp: nth_Cons' less_Suc_eq numeral_eq_Suc)
  moreover have "EncodeFixed32 (DecodeFixed32 p) = [p ! 0, p ! 1, p ! 2, p ! 3]"
    by (auto simp: EncodeFixed32_def DecodeFixed32_def bit_simps intro!: bit_word_eqI
        dest: byte_bit_less)
  ultimately show ?thesis by simp
qed

lemma EncodeFixed64_DecodeFixed64:
  assumes "8 \<le> length p"
  shows "EncodeFixed64 (DecodeFixed64 p) = take 8 p"
proof -
  have "take 8 p = [p ! 0, p ! 1, p ! 2, p ! 3, p ! 4, p ! 5, p ! 6, p ! 7]"
    using assms by (intro nth_equalityI) (auto simp: nth_Cons' less_Suc_eq numeral_eq_Suc)
  moreover have "EncodeFixed64 (DecodeFixed64 p) =
      [p ! 0, p ! 1, p ! 2, p ! 3, p ! 4, p ! 5, p ! 6, p ! 7]"
    by (auto simp: EncodeFixed64_def DecodeFixed64_def bit_simps intro!: bit_word_eqI
        dest: byte_bit_less)
  ultimately show ?thesis by simp
qed

section \<open>Facts on varints\<close>

lemma EncodeVarint64_more:
  "128 \<le> v \<Longrightarrow> EncodeVarint64 v = ucast (v OR 128) # EncodeVarint64 (drop_bit 7 v)"
  by (subst EncodeVarint64.simps) simp

lemma EncodeVarint64_last: "v < 128 \<Longrightarrow> EncodeVarint64 v = [ucast v]"
  by (subst EncodeVarint64.simps) (auto simp: not_le [symmetric])

lemma more_byte_u64: "(ucast (ucast (v OR 128 :: u64) :: byte) :: u64) AND 128 \<noteq> 0"
proof -
  have "bit ((ucast (ucast (v OR 128 :: u64) :: byte) :: u64) AND 128) 7"
    by (simp add: bit_simps)
  then show ?thesis by auto
qed

lemma more_byte_u32: "(ucast (ucast (v OR 128 :: u64) :: byte) :: u32) AND 128 \<noteq> 0"
proof -
  have "bit ((ucast (ucast (v OR 128 :: u64) :: byte) :: u32) AND 128) 7"
    by (simp add: bit_simps)
  then show ?thesis by auto
qed

lemma payload_byte_u64:
  "(ucast (ucast (v OR 128 :: u64) :: byte) :: u64) AND 127 = take_bit 7 v"
  by (rule bit_word_eqI) (auto simp: bit_simps)

lemma payload_byte_u32:
  "(ucast (ucast (v OR 128 :: u64) :: byte) :: u32) AND 127 = take_bit 7 (ucast v)"
  by (rule bit_word_eqI) (auto simp: bit_simps)

lemma small_u64_bit: "v < 128 \<Longrightarrow> bit v n \<Longrightarrow> n < 7" for v :: u64
  by (rule bit_bounded_less) (simp_all add: word_less_nat_alt)

lemma last_byte_u64: "v < 128 \<Longrightarrow> (ucast (ucast v :: byte) :: u64) = v" for v :: u64
  by (rule bit_word_eqI) (auto simp: bit_simps dest: small_u64_bit)

lemma last_byte_u32: "v < 128 \<Longrightarrow> (ucast (ucast v :: byte) :: u32) = ucast v" for v :: u64
  by (rule bit_word_eqI) (auto simp: bit_simps dest: small_u64_bit)

lemma last_byte_no_more_u64: "v < 128 \<Longrightarrow> v AND 128 = 0" for v :: u64
  by (rule bit_word_eqI) (auto simp: bit_simps dest: small_u64_bit)

lemma last_byte_no_more_u32: "v < 128 \<Longrightarrow> (ucast v :: u32) AND 128 = 0" for v :: u64
  by (rule bit_word_eqI) (auto simp: bit_simps dest: small_u64_bit)

lemma unat_drop_7_less:
  assumes "unat v < 2 ^ k" "7 \<le> k" "m = k - 7"
  shows "unat (drop_bit 7 v) < 2 ^ m"
proof -
  have "(2::nat) ^ k = 2 ^ m * 128"
    using assms(2,3) power_add [of "2::nat" m 7] by simp
  then show ?thesis
    unfolding unat_drop_bit_eq unfolding drop_bit_eq_div
    using assms(1) by (intro less_mult_imp_div_less) simp
qed

lemma GetVarint64_loop_EncodeVarint64:
  "unat v < 2 ^ (64 - s) \<Longrightarrow> s \<le> 63 \<Longrightarrow>
   GetVarint64_loop s r (EncodeVarint64 v @ rest) = Some (r OR push_bit s v, rest)"
proof (induction v arbitrary: s r rule: EncodeVarint64.induct)
  case (1 v)
  show ?case
  proof (cases "v \<ge> 128")
    case True
    have ge: "2 ^ 7 \<le> unat v"
      using True by (simp add: word_le_nat_alt)
    have "(2::nat) ^ 7 < 2 ^ (64 - s)"
      using ge "1.prems"(1) by linarith
    then have s: "7 < 64 - s"
      by (simp only: power_strict_increasing_iff)
    have "unat (drop_bit 7 v) < 2 ^ (64 - (s + 7))"
      using "1.prems"(1) s by (intro unat_drop_7_less [where k = "64 - s"]) linarith+
    moreover have "s + 7 \<le> 63"
      using s by simp
    ultimately have "GetVarint64_loop (s + 7) (r OR push_bit s (take_bit 7 v))
        (EncodeVarint64 (drop_bit 7 v) @ rest)
      = Some ((r OR push_bit s (take_bit 7 v)) OR push_bit (s + 7) (drop_bit 7 v), rest)"
      by (rule "1.IH" [OF True])
    then show ?thesis
      using True "1.prems"(2)
      by (simp add: EncodeVarint64_more GetVarint64_loop.simps [of s] Let_def
          more_byte_u64 payload_byte_u64 or.assoc push_take_drop_bit)
  next
    case False
    then show ?thesis
      using "1.prems"(2)
      by (simp add: EncodeVarint64_last GetVarint64_loop.simps [of s] Let_def
          last_byte_u64 last_byte_no_more_u64 not_le)
  qed
qed


lemma GetVarint32_loop_EncodeVarint64:
  "unat v < 2 ^ (32 - s) \<Longrightarrow> 7 dvd s \<Longrightarrow> s \<le> 28 \<Longrightarrow>
   GetVarint32_loop s r (EncodeVarint64 v @ rest) = Some (r OR push_bit s (ucast v), rest)"
proof (induction v arbitrary: s r rule: EncodeVarint64.induct)
  case (1 v)
  show ?case
  proof (cases "v \<ge> 128")
    case True
    have ge: "2 ^ 7 \<le> unat v"
      using True by (simp add: word_le_nat_alt)
    have "(2::nat) ^ 7 < 2 ^ (32 - s)"
      using ge "1.prems"(1) by linarith
    then have s: "7 < 32 - s"
      by (simp only: power_strict_increasing_iff)
    have "unat (drop_bit 7 v) < 2 ^ (32 - (s + 7))"
      using "1.prems"(1) s by (intro unat_drop_7_less [where k = "32 - s"]) linarith+
    moreover have "s + 7 \<le> 28" "7 dvd s + 7"
      using s "1.prems"(2) by presburger+
    ultimately have "GetVarint32_loop (s + 7) (r OR push_bit s (take_bit 7 (ucast v)))
        (EncodeVarint64 (drop_bit 7 v) @ rest)
      = Some ((r OR push_bit s (take_bit 7 (ucast v))) OR push_bit (s + 7) (ucast (drop_bit 7 v)),
              rest)"
      by (intro "1.IH" [OF True])
    moreover have "(ucast (drop_bit 7 v) :: u32) = drop_bit 7 (ucast v)"
      using "1.prems"(1) by (intro bit_word_eqI) (auto simp: bit_simps dest: bit_bounded_less)
    ultimately show ?thesis
      using True "1.prems"(3)
      by (simp add: EncodeVarint64_more GetVarint32_loop.simps [of s] Let_def
          more_byte_u32 payload_byte_u32 or.assoc push_take_drop_bit)
  next
    case False
    then show ?thesis
      using "1.prems"(3)
      by (simp add: EncodeVarint64_last GetVarint32_loop.simps [of s] Let_def
          last_byte_u32 last_byte_no_more_u32 not_le)
  qed
qed

lemma ucast_u32_u64_drop: "drop_bit k (ucast (v :: u32) :: u64) = ucast (drop_bit k v)"
  by (rule bit_word_eqI) (auto simp: bit_simps dest: bit_imp_le_length)

lemma ucast_u32_u64_byte:
  "(ucast (ucast (v :: u32) :: u64) :: byte) = ucast v"
  "(ucast ((ucast (v :: u32) :: u64) OR 128) :: byte) = ucast (v OR 128)"
  by (auto intro!: bit_word_eqI simp: bit_simps)

lemma varint_group_ge:
  "128 \<le> unat (drop_bit 7 v) \<longleftrightarrow> 2 ^ 14 \<le> unat v"
  "128 \<le> unat (drop_bit 14 v) \<longleftrightarrow> 2 ^ 21 \<le> unat v"
  "128 \<le> unat (drop_bit 21 v) \<longleftrightarrow> 2 ^ 28 \<le> unat v"
  "\<not> 128 \<le> unat (drop_bit 28 v)" for v :: u32
  unfolding unat_drop_bit_eq unfolding drop_bit_eq_div using unsigned_less [of v, where 'a = nat]
  by auto

lemma EncodeVarint32_eq: "EncodeVarint32 v = EncodeVarint64 (ucast v)"
proof -
  note group = EncodeVarint64.simps [of "ucast (_ :: u32)"] ucast_u32_u64_drop
    ucast_u32_u64_byte varint_group_ge EncodeVarint32_def
  consider "unat v < 2 ^ 7" | "2 ^ 7 \<le> unat v" "unat v < 2 ^ 14"
    | "2 ^ 14 \<le> unat v" "unat v < 2 ^ 21" | "2 ^ 21 \<le> unat v" "unat v < 2 ^ 28"
    | "2 ^ 28 \<le> unat v"
    by linarith
  then show ?thesis
    by cases (simp_all add: group word_le_nat_alt word_less_nat_alt)
qed


lemma GetVarint64_PutVarint64 [simp, coding_rt]:
  "GetVarint64 (EncodeVarint64 v @ rest) = Some (v, rest)"
proof -
  have "unat v < 2 ^ (64 - 0)" using unsigned_less [of v, where 'a = nat] by simp
  then show ?thesis
    by (simp add: GetVarint64_def GetVarint64Ptr_def GetVarint64_loop_EncodeVarint64)
qed

lemma GetVarint32Ptr_eq: "GetVarint32Ptr p = GetVarint32_loop 0 0 p"
  by (auto simp: GetVarint32Ptr_def GetVarint32PtrFallback_def GetVarint32_loop.simps [of 0] Let_def)

lemma GetVarint32Ptr_EncodeVarint32 [simp, coding_rt]:
  "GetVarint32Ptr (EncodeVarint32 v @ rest) = Some (v, rest)"
proof -
  have "unat (ucast v :: u64) < 2 ^ (32 - 0)" using unsigned_less [of v, where 'a = nat] by simp
  then show ?thesis
    by (simp add: GetVarint32Ptr_eq EncodeVarint32_eq GetVarint32_loop_EncodeVarint64)
qed

lemma GetVarint32_EncodeVarint32 [simp, coding_rt]:
  "GetVarint32 (EncodeVarint32 v @ rest) = Some (v, rest)"
  by (simp add: GetVarint32_def)

lemma GetVarint32_PutVarint32:
  "GetVarint32 (drop (length dst) (PutVarint32 dst v @ rest)) = Some (v, rest)"
  by (simp add: PutVarint32_def)

lemma unat_of_nat_u32: "n < 2 ^ 32 \<Longrightarrow> unat (of_nat n :: u32) = n"
  by (simp add: unat_of_nat)

lemma GetLengthPrefixedSlice_Put [simp, coding_rt]:
  "length value < 2 ^ 32 \<Longrightarrow>
   GetLengthPrefixedSlice (PutLengthPrefixedSlice [] value @ rest) = Some (value, rest)"
  by (simp add: GetLengthPrefixedSlice_def PutLengthPrefixedSlice_def PutVarint32_def
      unat_of_nat_u32)

text \<open>The decoders read no byte past what they report consumed.\<close>

lemma GetVarint32_loop_consumes:
  "GetVarint32_loop s r p = Some (v, q) \<Longrightarrow>
   \<exists>n. 0 < n \<and> n \<le> 5 - s div 7 \<and> n \<le> length p \<and> q = drop n p"
proof (induction s r p rule: GetVarint32_loop.induct)
  case (1 s r p)
  show ?case
  proof (cases "s \<le> 28 \<and> p \<noteq> []")
    case True
    then have s7: "s div 7 \<le> 4" "(s + 7) div 7 = s div 7 + 1" by auto
    show ?thesis
    proof (cases "(ucast (hd p) :: u32) AND 128 = 0")
      case False
      then obtain n where "0 < n" "n \<le> 5 - (s + 7) div 7" "n \<le> length (tl p)" "q = drop n (tl p)"
        using "1.IH" [OF True refl] "1.prems" True
        by (auto simp: GetVarint32_loop.simps [of s] Let_def)
      then show ?thesis
        using True s7 by (intro exI [of _ "Suc n"]) (auto simp: drop_Suc)
    next
      case True2: True
      then show ?thesis
        using "1.prems" True s7
        by (intro exI [of _ 1]) (auto simp: GetVarint32_loop.simps [of s] Let_def drop_Suc Suc_le_eq)
    qed
  next
    case False
    then show ?thesis
      using "1.prems" by (auto simp: GetVarint32_loop.simps [of s])
  qed
qed

lemma GetVarint64_loop_consumes:
  "GetVarint64_loop s r p = Some (v, q) \<Longrightarrow>
   \<exists>n. 0 < n \<and> n \<le> 10 - s div 7 \<and> n \<le> length p \<and> q = drop n p"
proof (induction s r p rule: GetVarint64_loop.induct)
  case (1 s r p)
  show ?case
  proof (cases "s \<le> 63 \<and> p \<noteq> []")
    case True
    then have s7: "s div 7 \<le> 9" "(s + 7) div 7 = s div 7 + 1" by auto
    show ?thesis
    proof (cases "(ucast (hd p) :: u64) AND 128 = 0")
      case False
      then obtain n where "0 < n" "n \<le> 10 - (s + 7) div 7" "n \<le> length (tl p)" "q = drop n (tl p)"
        using "1.IH" [OF True refl] "1.prems" True
        by (auto simp: GetVarint64_loop.simps [of s] Let_def)
      then show ?thesis
        using True s7 by (intro exI [of _ "Suc n"]) (auto simp: drop_Suc)
    next
      case True2: True
      then show ?thesis
        using "1.prems" True s7
        by (intro exI [of _ 1]) (auto simp: GetVarint64_loop.simps [of s] Let_def drop_Suc Suc_le_eq)
    qed
  next
    case False
    then show ?thesis
      using "1.prems" by (auto simp: GetVarint64_loop.simps [of s])
  qed
qed


lemma GetVarint_consumes:
  "GetVarint32 p = Some (v, q) \<Longrightarrow> \<exists>n. 0 < n \<and> n \<le> 5 \<and> n \<le> length p \<and> q = drop n p"
  "GetVarint64 p = Some (w, q) \<Longrightarrow> \<exists>n. 0 < n \<and> n \<le> 10 \<and> n \<le> length p \<and> q = drop n p"
  by (auto simp: GetVarint32_def GetVarint32Ptr_eq GetVarint64_def GetVarint64Ptr_def
      split: option.splits dest!: GetVarint32_loop_consumes GetVarint64_loop_consumes)

lemma GetVarint_shorter [dest]:
  "GetVarint32 p = Some (v, q) \<Longrightarrow> length q < length p"
  "GetVarint64 p = Some (w, q) \<Longrightarrow> length q < length p"
  by (auto dest!: GetVarint_consumes)

lemma GetLengthPrefixedSlice_shorter [dest]:
  "GetLengthPrefixedSlice p = Some (s, q) \<Longrightarrow> length q < length p"
  by (force simp: GetLengthPrefixedSlice_def split: option.splits if_splits
      dest: GetVarint_shorter(1))

lemma byte_and_128: "(ucast (b :: byte) :: u32) AND 128 = 0 \<longleftrightarrow> \<not> bit b 7"
  "(ucast (b :: byte) :: u64) AND 128 = 0 \<longleftrightarrow> \<not> bit b 7"
  using and_exp_eq_0_iff_not_bit [of "ucast b :: u32" 7]
    and_exp_eq_0_iff_not_bit [of "ucast b :: u64" 7]
  by (simp_all add: bit_simps)

lemma GetVarint32_loop_None_iff:
  "GetVarint32_loop s r p = None \<longleftrightarrow> (\<forall>i < length p. s + 7 * i \<le> 28 \<longrightarrow> bit (p ! i) 7)"
proof (induction s r p rule: GetVarint32_loop.induct)
  case (1 s r p)
  show ?case
  proof (cases p)
    case (Cons b p')
    then have "(\<forall>i < length p. s + 7 * i \<le> 28 \<longrightarrow> bit (p ! i) 7) \<longleftrightarrow>
      (s \<le> 28 \<longrightarrow> bit b 7) \<and> (\<forall>i < length p'. s + 7 + 7 * i \<le> 28 \<longrightarrow> bit (p' ! i) 7)"
      by (auto simp: less_Suc_eq_0_disj all_conj_distrib add.commute)
    then show ?thesis
      using "1.IH" Cons
      by (cases "s \<le> 28") (auto simp: GetVarint32_loop.simps [of s] Let_def byte_and_128)
  qed (simp add: GetVarint32_loop.simps)
qed

lemma VarintLength_loop_eq: "VarintLength_loop v k + 1 = length (EncodeVarint64 v) + k"
proof (induction v k rule: VarintLength_loop.induct)
  case (1 v k)
  then show ?case
    by (cases "128 \<le> v") (auto simp: VarintLength_loop.simps [of v] EncodeVarint64.simps [of v])
qed

lemma VarintLength_eq: "VarintLength v = length (EncodeVarint64 v)"
  using VarintLength_loop_eq [of v 1] by (simp add: VarintLength_def)

lemma length_EncodeVarint64_le:
  "unat v < 2 ^ (7 * Suc k) \<Longrightarrow> length (EncodeVarint64 v) \<le> Suc k"
proof (induction k arbitrary: v)
  case 0
  then show ?case by (simp add: EncodeVarint64_last word_less_nat_alt)
next
  case (Suc k)
  then have "unat (drop_bit 7 v) < 2 ^ (7 * Suc k)"
    by (intro unat_drop_7_less [where k = "7 * Suc (Suc k)"]) simp_all
  then show ?case
    using Suc.IH by (cases "128 \<le> v") (auto simp: EncodeVarint64_more EncodeVarint64_last not_le)
qed

lemma EncodeVarint_not_Nil [simp]: "EncodeVarint64 v \<noteq> []" "EncodeVarint32 w \<noteq> []"
  by (simp_all add: EncodeVarint32_eq EncodeVarint64.simps)

lemma length_EncodeVarint:
  "length (EncodeVarint64 v) \<le> 10" "length (EncodeVarint32 w) \<le> 5"
proof -
  have "unat v < 2 ^ 64" "unat w < 2 ^ 32"
    using unsigned_less [of v, where 'a = nat] unsigned_less [of w, where 'a = nat] by simp_all
  then show "length (EncodeVarint64 v) \<le> 10" "length (EncodeVarint32 w) \<le> 5"
    using length_EncodeVarint64_le [of v 9] length_EncodeVarint64_le [of "ucast w" 4]
    by (simp_all add: EncodeVarint32_eq)
qed

section \<open>Properties\<close>

text \<open>
  C35. Varints round-trip at both widths with whatever follows left unread; the five-way unrolled
  32-bit encoder agrees with the looping 64-bit encoder, \<open>VarintLength\<close> is the encoded length,
  and an encoding never exceeds the 5 (10) byte scratch buffers of \<open>PutVarint32\<close>
  (\<open>PutVarint64\<close>).
\<close>

theorem varint_codec:
  "GetVarint32 (EncodeVarint32 v @ rest) = Some (v, rest) \<and>
   GetVarint64 (EncodeVarint64 w @ rest) = Some (w, rest) \<and>
   EncodeVarint32 v = EncodeVarint64 (ucast v) \<and>
   VarintLength w = length (EncodeVarint64 w) \<and>
   length (EncodeVarint32 v) \<le> 5 \<and> length (EncodeVarint64 w) \<le> 10"
  by (simp add: EncodeVarint32_eq [symmetric] VarintLength_eq length_EncodeVarint)

text \<open>
  \<open>GetVarint32\<close> fails exactly on the inputs whose first five bytes (or all bytes, when there
  are fewer) carry the continuation bit; otherwise it consumes between one and five bytes of the
  input and returns the rest unchanged.
\<close>

theorem GetVarint32_total:
  "case GetVarint32 p of
     None \<Rightarrow> list_all (\<lambda>b. bit b 7) (take 5 p)
   | Some (v, q) \<Rightarrow> \<not> list_all (\<lambda>b. bit b 7) (take 5 p) \<and>
       (\<exists>n. 0 < n \<and> n \<le> 5 \<and> n \<le> length p \<and> q = drop n p)"
proof -
  have iff: "GetVarint32 p = None \<longleftrightarrow> list_all (\<lambda>b. bit b 7) (take 5 p)"
  proof -
    have "GetVarint32 p = None \<longleftrightarrow> GetVarint32_loop 0 0 p = None"
      by (auto simp: GetVarint32_def GetVarint32Ptr_eq split: option.splits)
    then show ?thesis
      by (auto simp: GetVarint32_loop_None_iff list_all_length)
  qed
  show ?thesis
  proof (cases "GetVarint32 p")
    case (Some vq)
    then obtain v q where "GetVarint32 p = Some (v, q)" by (cases vq) simp
    then show ?thesis using iff GetVarint_consumes(1) by simp
  qed (use iff in simp)
qed

text \<open>
  Fixed-width integers and length-prefixed slices round-trip: decoding what was encoded gives
  the value back and leaves what follows it unread.
\<close>

theorem fixed_and_slice_codec:
  assumes "length value < 2 ^ 32"
  shows "DecodeFixed32 (EncodeFixed32 v @ rest) = v \<and> DecodeFixed64 (EncodeFixed64 w @ rest) = w \<and>
    GetLengthPrefixedSlice (PutLengthPrefixedSlice [] value @ rest) = Some (value, rest)"
  using assms by simp

end
