(* ===== verification/Comparator.thy ===== *)
theory Comparator
  imports Prelude
begin

text \<open>
  \<open>include/leveldb/slice.h\<close> and \<open>util/comparator.cc\<close>: slices (byte lists) with their
  three-way comparison, the \<open>Comparator\<close> interface as a record of its three operations, and the
  built-in bytewise comparator. The locales state the contract of the interface; everything that
  orders keys (internal keys, blocks, memtables, file lists) is proved against them.
\<close>

section \<open>Slices\<close>

text \<open>\<open>memcmp\<close> of the C library on two buffers of the same length; only its sign is specified.\<close>

fun memcmp :: "bytes \<Rightarrow> bytes \<Rightarrow> int" where
  "memcmp (x # xs) (y # ys) = (if x = y then memcmp xs ys else if x < y then -1 else 1)"
| "memcmp _ _ = 0"

definition Slice_compare :: "bytes \<Rightarrow> bytes \<Rightarrow> int" where
  "Slice_compare a b =
     (let min_len = (if length a < length b then length a else length b);
          r = memcmp (take min_len a) (take min_len b)
      in if r = 0 then
           if length a < length b then -1
           else if length a > length b then 1
           else r
         else r)"

definition starts_with :: "bytes \<Rightarrow> bytes \<Rightarrow> bool" where
  "starts_with s x \<longleftrightarrow> length s \<ge> length x \<and> memcmp (take (length x) s) x = 0"

section \<open>The comparator interface and the bytewise comparator\<close>

record Comparator =
  Compare :: "bytes \<Rightarrow> bytes \<Rightarrow> int"
  FindShortestSeparator :: "bytes \<Rightarrow> bytes \<Rightarrow> bytes"
  FindShortSuccessor :: "bytes \<Rightarrow> bytes"

text \<open>The loop that finds the length of the common prefix.\<close>

fun diff_index :: "bytes \<Rightarrow> bytes \<Rightarrow> nat" where
  "diff_index (x # xs) (y # ys) = (if x = y then Suc (diff_index xs ys) else 0)"
| "diff_index _ _ = 0"

definition bytewise_separator :: "bytes \<Rightarrow> bytes \<Rightarrow> bytes" where
  "bytewise_separator start limit =
     (let min_length = min (length start) (length limit);
          i = diff_index start limit
      in if i \<ge> min_length then start
         else
           let diff_byte = start ! i
           in if diff_byte < 0xff \<and> uint diff_byte + 1 < uint (limit ! i)
              then take (i + 1) (start[i := diff_byte + 1])
              else start)"

fun bytewise_successor :: "bytes \<Rightarrow> bytes" where
  "bytewise_successor [] = []"
| "bytewise_successor (b # key) =
     (if b \<noteq> 0xff then [b + 1] else b # bytewise_successor key)"

definition BytewiseComparator :: Comparator where
  "BytewiseComparator =
     \<lparr>Compare = Slice_compare, FindShortestSeparator = bytewise_separator,
      FindShortSuccessor = bytewise_successor\<rparr>"

section \<open>The contract\<close>

text \<open>
  A comparison is the three-way comparison of a total preorder; keys that compare equal need not
  be the same. A comparator is one whose \<open>Compare\<close> is such a comparison.
\<close>

locale key_order =
  fixes cmp :: "'k \<Rightarrow> 'k \<Rightarrow> int"
  assumes compare_sym: "cmp a b < 0 \<longleftrightarrow> cmp b a > 0"
    and compare_trans: "cmp a b \<le> 0 \<Longrightarrow> cmp b d \<le> 0 \<Longrightarrow> cmp a d \<le> 0"
begin

lemma compare_refl [simp]: "cmp a a = 0"
  using compare_sym [of a a] by linarith

lemma compare_gt_iff: "cmp a b > 0 \<longleftrightarrow> cmp b a < 0"
  using compare_sym [of b a] by simp

lemma compare_ge_iff: "cmp a b \<ge> 0 \<longleftrightarrow> cmp b a \<le> 0"
  using compare_sym [of a b] by linarith

lemma compare_eq_iff: "cmp a b = 0 \<longleftrightarrow> cmp b a = 0"
  using compare_ge_iff [of a b] compare_ge_iff [of b a] by linarith

lemma compare_less_le_trans: "cmp a b < 0 \<Longrightarrow> cmp b d \<le> 0 \<Longrightarrow> cmp a d < 0"
  by (metis compare_ge_iff compare_trans not_less)

lemma compare_le_less_trans: "cmp a b \<le> 0 \<Longrightarrow> cmp b d < 0 \<Longrightarrow> cmp a d < 0"
  by (metis compare_ge_iff compare_trans not_less)

lemma compare_less_trans: "cmp a b < 0 \<Longrightarrow> cmp b d < 0 \<Longrightarrow> cmp a d < 0"
  using compare_less_le_trans [of a b d] by linarith

lemma compare_eq_left: "cmp a b = 0 \<Longrightarrow> (cmp a d < 0 \<longleftrightarrow> cmp b d < 0)"
  by (metis compare_eq_iff compare_le_less_trans order_refl)

lemma compare_eq_right: "cmp a b = 0 \<Longrightarrow> (cmp d a < 0 \<longleftrightarrow> cmp d b < 0)"
  by (metis compare_eq_iff compare_less_le_trans order_refl)

lemma compare_not_less: "\<not> cmp a b < 0 \<longleftrightarrow> cmp b a \<le> 0"
  using compare_ge_iff [of a b] by linarith

end

locale comparator = key_order "Compare c" for c :: Comparator

text \<open>
  The two shortening operations: a separator lies in \<open>[start, limit)\<close> when that interval is not
  empty and is \<open>start\<close> itself otherwise; a successor is not smaller than its key.
\<close>

locale separating_comparator = comparator +
  assumes separator_ge: "Compare c start (FindShortestSeparator c start limit) \<le> 0"
    and separator_less: "Compare c start limit < 0 \<Longrightarrow>
      Compare c (FindShortestSeparator c start limit) limit < 0"
    and separator_stuck: "\<not> Compare c start limit < 0 \<Longrightarrow> FindShortestSeparator c start limit = start"
    and successor_ge: "Compare c key (FindShortSuccessor c key) \<le> 0"

section \<open>The bytewise comparator satisfies the contract\<close>

text \<open>The lexicographic order on byte lists, by recursion.\<close>

fun lex_compare :: "bytes \<Rightarrow> bytes \<Rightarrow> int" where
  "lex_compare [] [] = 0"
| "lex_compare [] (y # ys) = -1"
| "lex_compare (x # xs) [] = 1"
| "lex_compare (x # xs) (y # ys) = (if x = y then lex_compare xs ys else if x < y then -1 else 1)"

lemma Slice_compare_Cons:
  "Slice_compare (x # xs) (y # ys) =
     (if x = y then Slice_compare xs ys else if x < y then -1 else 1)"
  by (auto simp: Slice_compare_def Let_def)

lemma Slice_compare_eq: "Slice_compare a b = lex_compare a b"
  by (induction a b rule: lex_compare.induct)
    (simp_all add: Slice_compare_Cons, simp_all add: Slice_compare_def)

lemma lex_compare_sym: "lex_compare a b < 0 \<longleftrightarrow> lex_compare b a > 0"
  by (induction a b rule: lex_compare.induct) auto

lemma lex_compare_trans: "lex_compare a b \<le> 0 \<Longrightarrow> lex_compare b d \<le> 0 \<Longrightarrow> lex_compare a d \<le> 0"
proof (induction a b arbitrary: d rule: lex_compare.induct)
  case (2 y ys)
  then show ?case by (cases d) auto
next
  case (4 x xs y ys)
  then show ?case by (cases d) (auto split: if_splits)
qed auto

lemma lex_compare_0_iff [simp]: "lex_compare a b = 0 \<longleftrightarrow> a = b"
  by (induction a b rule: lex_compare.induct) auto

lemma lex_compare_refl [simp]: "lex_compare a a = 0"
  by simp

lemma lex_compare_append: "lex_compare (p @ a) (p @ b) = lex_compare a b"
  by (induction p) auto

lemma diff_index_split:
  assumes "diff_index a b < min (length a) (length b)"
  obtains p x a' y b' where "a = p @ x # a'" "b = p @ y # b'" "x \<noteq> y" "length p = diff_index a b"
proof -
  let ?i = "diff_index a b"
  have "take ?i a = take ?i b \<and> a ! ?i \<noteq> b ! ?i"
    using assms by (induction a b rule: diff_index.induct) (auto split: if_splits)
  moreover have "a = take ?i a @ a ! ?i # drop (Suc ?i) a" "b = take ?i b @ b ! ?i # drop (Suc ?i) b"
    using assms by (simp_all add: id_take_nth_drop)
  ultimately show thesis
    using assms by (intro that [of "take ?i a" "a ! ?i" _ "b ! ?i"]) auto
qed

lemma byte_succ_greater: "b \<noteq> 0xff \<Longrightarrow> b < b + 1" for b :: byte
proof -
  assume "b \<noteq> 0xff"
  then have "unat b \<noteq> 255" by (simp add: word_unat_eq_iff)
  moreover have "unat b < 256" using unsigned_less [of b, where 'a = nat] by simp
  ultimately show "b < b + 1" by (simp add: word_less_nat_alt unat_word_ariths)
qed

lemma bytewise_separator_cases:
  obtains (keep) "bytewise_separator start limit = start"
  | (shorten) p x a' y b' where "start = p @ x # a'" "limit = p @ y # b'"
      "x < x + 1" "x + 1 < y" "bytewise_separator start limit = p @ [x + 1]"
proof (cases "diff_index start limit < min (length start) (length limit)")
  case False
  then show thesis by (intro keep) (auto simp: bytewise_separator_def Let_def)
next
  case True
  then obtain p x a' y b' where s: "start = p @ x # a'" "limit = p @ y # b'" "x \<noteq> y"
    and i: "length p = diff_index start limit" by (rule diff_index_split)
  have eq: "bytewise_separator start limit =
      (if x < 0xff \<and> uint x + 1 < uint y then p @ [x + 1] else start)"
  proof -
    have "diff_index (p @ x # a') (p @ y # b') = length p" using i by (simp only: s)
    then show ?thesis by (simp add: bytewise_separator_def Let_def s nth_append list_update_append min_def)
  qed
  show thesis
  proof (cases "x < 0xff \<and> uint x + 1 < uint y")
    case True
    then have "x < x + 1" by (intro byte_succ_greater) auto
    moreover have "uint (x + 1) = uint x + 1"
      using True uint_lt2p [of y] by (simp add: uint_word_ariths)
    then have "x + 1 < y" using True by (simp add: word_less_def)
    ultimately show thesis using shorten [OF s(1,2)] eq True by simp
  qed (use eq keep in auto)
qed

lemma bytewise_separator_ge: "lex_compare start (bytewise_separator start limit) \<le> 0"
  by (rule bytewise_separator_cases [of start limit]) (auto simp: lex_compare_append)

lemma bytewise_separator_less:
  "lex_compare start limit < 0 \<Longrightarrow> lex_compare (bytewise_separator start limit) limit < 0"
  by (rule bytewise_separator_cases [of start limit]) (auto simp: lex_compare_append)

lemma bytewise_separator_stuck:
  "\<not> lex_compare start limit < 0 \<Longrightarrow> bytewise_separator start limit = start"
  by (rule bytewise_separator_cases [of start limit])
    (auto simp: lex_compare_append split: if_splits dest: order.strict_trans)

lemma bytewise_successor_ge: "lex_compare key (bytewise_successor key) \<le> 0"
  by (induction key) (auto simp: byte_succ_greater)

interpretation bytewise: separating_comparator BytewiseComparator
proof unfold_locales
  show "Compare BytewiseComparator a b < 0 \<longleftrightarrow> Compare BytewiseComparator b a > 0" for a b
    by (simp add: BytewiseComparator_def Slice_compare_eq lex_compare_sym)
qed (simp_all add: BytewiseComparator_def Slice_compare_eq bytewise_separator_ge
    bytewise_separator_less bytewise_separator_stuck bytewise_successor_ge lex_compare_trans)

lemma bytewise_eq_iff: "Compare BytewiseComparator a b = 0 \<longleftrightarrow> a = b"
  by (simp add: BytewiseComparator_def Slice_compare_eq)

section \<open>Properties\<close>

text \<open>
  The bytewise comparator's shortening operations keep an index block searchable: for
  \<open>start < limit\<close> the separator lies in \<open>[start, limit)\<close> and is never longer than \<open>start\<close>, and
  the short successor is at least the key and never longer than it.
\<close>

theorem bytewise_shortening:
  assumes "Compare BytewiseComparator start limit < 0"
  shows "Compare BytewiseComparator start (bytewise_separator start limit) \<le> 0 \<and>
    Compare BytewiseComparator (bytewise_separator start limit) limit < 0 \<and>
    length (bytewise_separator start limit) \<le> length start \<and>
    Compare BytewiseComparator key (bytewise_successor key) \<le> 0 \<and>
    length (bytewise_successor key) \<le> length key"
proof -
  have "length (bytewise_separator start limit) \<le> length start"
    by (rule bytewise_separator_cases [of start limit]) auto
  moreover have "length (bytewise_successor key) \<le> length key" by (induction key) auto
  ultimately show ?thesis
    using assms bytewise_separator_ge bytewise_separator_less bytewise_successor_ge
    by (simp add: BytewiseComparator_def Slice_compare_eq)
qed

end
