(* ===== verification/Bloom.thy ===== *)
theory Bloom
  imports Complex_Main Coding
begin

text \<open>
  \<open>util/hash.cc\<close> and \<open>util/bloom.cc\<close>: the Murmur-like hash and the Bloom filter policy
  whose filter units are told apart by an index (each unit probes a differently seeded sequence).
  Machine words keep their width; sizes (\<open>size_t\<close>) are natural numbers. The probe count
  \<open>static_cast<size_t>(bits_per_key * 0.69)\<close> is written with integer division, which agrees with
  the floating-point product below the cap of 30 probes.
\<close>

section \<open>Hash\<close>

definition hash_m :: u32 where
  "hash_m = 0xc6a4a793"

text \<open>One round of \<open>while (data != nullptr && data + 4 <= limit)\<close>.\<close>

definition hash_word :: "u32 \<Rightarrow> u32 \<Rightarrow> u32" where
  "hash_word h w = (let h = (h + w) * hash_m in h XOR drop_bit 16 h)"

text \<open>The \<open>switch\<close> over the remaining 0 to 3 bytes, with its fall-throughs.\<close>

definition hash_tail :: "u32 \<Rightarrow> bytes \<Rightarrow> u32" where
  "hash_tail h data =
     (if data = [] then h
      else
        let h = (if length data = 3 then h + push_bit 16 (ucast (data ! 2)) else h);
            h = (if length data \<ge> 2 then h + push_bit 8 (ucast (data ! 1)) else h);
            h = (h + ucast (data ! 0)) * hash_m
        in h XOR drop_bit 24 h)"

fun hash_loop :: "u32 \<Rightarrow> bytes \<Rightarrow> u32" where
  "hash_loop h (b0 # b1 # b2 # b3 # data) =
     hash_loop (hash_word h (DecodeFixed32 [b0, b1, b2, b3])) data"
| "hash_loop h data = hash_tail h data"

definition Hash :: "bytes \<Rightarrow> u32 \<Rightarrow> u32" where
  "Hash data seed =
     hash_loop (ucast ((ucast seed :: u64) XOR (of_nat (length data) * ucast hash_m))) data"

section \<open>Bloom filter policy\<close>

definition rotate17 :: "u32 \<Rightarrow> u32" where
  "rotate17 h = drop_bit 17 h OR push_bit 15 h"

definition BloomHash :: "bytes \<Rightarrow> int \<Rightarrow> u32" where
  "BloomHash key index =
     (let h = Hash key 0xbc9f2d21; delta = rotate17 h in h + delta * of_int index)"

record BloomFilterPolicy =
  bp_bits_per_key :: nat
  bp_k :: nat

definition NewBloomFilterPolicy :: "nat \<Rightarrow> BloomFilterPolicy" where
  "NewBloomFilterPolicy bits_per_key =
     (let k = bits_per_key * 69 div 100;
          k = (if k < 1 then 1 else k);
          k = (if k > 30 then 30 else k)
      in \<lparr>bp_bits_per_key = bits_per_key, bp_k = k\<rparr>)"

text \<open>The probe loops: \<open>array[bitpos / 8] |= (1 << (bitpos % 8))\<close> and the test of those bits.\<close>

fun set_probes :: "nat \<Rightarrow> nat \<Rightarrow> u32 \<Rightarrow> u32 \<Rightarrow> bytes \<Rightarrow> bytes" where
  "set_probes bits 0 h delta array = array"
| "set_probes bits (Suc j) h delta array =
     (let bitpos = unat h mod bits;
          array = array[bitpos div 8 := array ! (bitpos div 8) OR push_bit (bitpos mod 8) 1]
      in set_probes bits j (h + delta) delta array)"

fun test_probes :: "nat \<Rightarrow> nat \<Rightarrow> u32 \<Rightarrow> u32 \<Rightarrow> bytes \<Rightarrow> bool" where
  "test_probes bits 0 h delta array = True"
| "test_probes bits (Suc j) h delta array =
     (let bitpos = unat h mod bits
      in if array ! (bitpos div 8) AND push_bit (bitpos mod 8) 1 = 0 then False
         else test_probes bits j (h + delta) delta array)"

definition bloom_bytes :: "BloomFilterPolicy \<Rightarrow> nat \<Rightarrow> nat" where
  "bloom_bytes policy n =
     (let bits = n * bp_bits_per_key policy; bits = (if bits < 64 then 64 else bits)
      in (bits + 7) div 8)"

definition add_key :: "nat \<Rightarrow> nat \<Rightarrow> int \<Rightarrow> bytes \<Rightarrow> bytes \<Rightarrow> bytes" where
  "add_key bits k index array key =
     (let h = BloomHash key index in set_probes bits k h (rotate17 h) array)"

definition CreateFilter :: "BloomFilterPolicy \<Rightarrow> bytes list \<Rightarrow> bytes \<Rightarrow> int \<Rightarrow> bytes" where
  "CreateFilter policy keys dst index =
     (let bytes = bloom_bytes policy (length keys);
          bits = bytes * 8;
          array = replicate bytes 0 @ [of_nat (bp_k policy)]
      in dst @ foldl (add_key bits (bp_k policy) index) array keys)"

definition KeyMayMatch :: "bytes \<Rightarrow> bytes \<Rightarrow> int \<Rightarrow> bool" where
  "KeyMayMatch key bloom_filter index =
     (let len = length bloom_filter
      in if len < 2 then False
         else
           let bits = (len - 1) * 8;
               k = unat (scast (bloom_filter ! (len - 1)) :: u64)
           in if k > 30 then True
              else let h = BloomHash key index
                   in test_probes bits k h (rotate17 h) bloom_filter)"

definition FalsePositiveRate :: "BloomFilterPolicy \<Rightarrow> real" where
  "FalsePositiveRate policy = (6185 / 10000) ^ bp_bits_per_key policy"

section \<open>The probes that were set are found set\<close>

text \<open>Bit \<open>p\<close> of the filter array, the meaning of both probe loops.\<close>

definition array_bit :: "bytes \<Rightarrow> nat \<Rightarrow> bool" where
  "array_bit array p \<longleftrightarrow> bit (array ! (p div 8)) (p mod 8)"

fun probes :: "nat \<Rightarrow> nat \<Rightarrow> u32 \<Rightarrow> u32 \<Rightarrow> nat list" where
  "probes bits 0 h delta = []"
| "probes bits (Suc j) h delta = unat h mod bits # probes bits j (h + delta) delta"

lemma byte_probe: "b AND 2 ^ k = 0 \<longleftrightarrow> \<not> bit b k" for b :: byte
  by (simp add: and_exp_eq_0_iff_not_bit)

lemma test_probes_eq:
  "test_probes bits j h delta array \<longleftrightarrow> list_all (array_bit array) (probes bits j h delta)"
  by (induction j arbitrary: h) (simp_all add: Let_def array_bit_def byte_probe)

lemma set_probes_length [simp]: "length (set_probes bits j h delta array) = length array"
  by (induction j arbitrary: h array) (simp_all add: Let_def)

lemma array_bit_update:
  assumes "p div 8 < length array"
  shows "array_bit (array[p div 8 := array ! (p div 8) OR 2 ^ (p mod 8)]) q \<longleftrightarrow>
         array_bit array q \<or> p = q"
proof -
  have "p = q \<longleftrightarrow> p div 8 = q div 8 \<and> p mod 8 = q mod 8"
    by (metis div_mult_mod_eq)
  then show ?thesis
    using assms
    by (cases "p div 8 = q div 8") (auto simp: array_bit_def bit_simps)
qed

lemma array_bit_set_probes:
  assumes "0 < n" "bits = n * 8" "n \<le> length array"
  shows "array_bit (set_probes bits j h delta array) q \<longleftrightarrow>
         array_bit array q \<or> q \<in> set (probes bits j h delta)"
  using assms(3)
proof (induction j arbitrary: h array)
  case (Suc j)
  have "unat h mod bits < n * 8" using assms(1,2) by simp
  then have "unat h mod bits div 8 < length array"
    using Suc.prems by (simp add: div_less_iff_less_mult less_le_trans)
  then show ?case
    using Suc by (auto simp: Let_def array_bit_update)
qed simp

lemma set_probes_last:
  assumes "0 < n" "bits = n * 8" "n < length array"
  shows "set_probes bits j h delta array ! n = array ! n"
  using assms(3)
proof (induction j arbitrary: h array)
  case (Suc j)
  have "unat h mod bits div 8 < n"
    using assms(1,2) by (simp add: div_less_iff_less_mult)
  then show ?case using Suc by (simp add: Let_def)
qed simp

lemma bloom_bytes_pos: "8 \<le> bloom_bytes policy n"
  using div_le_mono [of 64 "n * bp_bits_per_key policy + 7" 8]
  by (simp add: bloom_bytes_def Let_def)

text \<open>What the fold over the keys leaves: every probe of every key set, the probe count intact.\<close>

lemma set_keys:
  assumes "0 < n" "bits = n * 8" "n < length array"
  shows "length (foldl (add_key bits k index) array keys) = length array"
    and "foldl (add_key bits k index) array keys ! n = array ! n"
    and "array_bit (foldl (add_key bits k index) array keys) q \<longleftrightarrow> array_bit array q \<or>
      (\<exists>key\<in>set keys. q \<in> set (probes bits k (BloomHash key index) (rotate17 (BloomHash key index))))"
  using assms(3)
  by (induction keys arbitrary: array)
    (auto simp: add_key_def Let_def set_probes_last [OF assms(1,2)] array_bit_set_probes [OF assms(1,2)])

lemma bp_k_NewBloomFilterPolicy: "bp_k (NewBloomFilterPolicy b) \<le> 30"
  by (simp add: NewBloomFilterPolicy_def Let_def)

lemma small_char:
  assumes "k \<le> 30"
  shows "unat (scast (of_nat k :: byte) :: u64) = k"
proof -
  have k: "unat (of_nat k :: byte) = k" using assms by (simp add: unat_of_nat)
  have "\<not> bit (of_nat k :: byte) n" if "7 \<le> n" for n
    using bit_bounded_less [of "of_nat k :: byte" 7 n] that k assms by auto
  then have "(scast (of_nat k :: byte) :: u64) = ucast (of_nat k :: byte)"
    by (intro bit_word_eqI) (auto simp: bit_simps min_def split: if_splits)
  then show ?thesis using k by simp
qed

lemma CreateFilter_append: "CreateFilter policy keys dst index = dst @ CreateFilter policy keys [] index"
  by (simp add: CreateFilter_def Let_def)

lemma CreateFilter_char:
  fixes policy :: BloomFilterPolicy and keys :: "bytes list" and index :: int
  assumes "bp_k policy \<le> 30"
  defines "f \<equiv> CreateFilter policy keys [] index" and "n \<equiv> bloom_bytes policy (length keys)"
  shows "length f = n + 1"
    and "KeyMayMatch key f index \<longleftrightarrow> list_all (array_bit f)
      (probes (n * 8) (bp_k policy) (BloomHash key index) (rotate17 (BloomHash key index)))"
    and "q < n * 8 \<Longrightarrow> array_bit f q \<longleftrightarrow>
      (\<exists>key\<in>set keys. q \<in> set (probes (n * 8) (bp_k policy) (BloomHash key index)
         (rotate17 (BloomHash key index))))"
proof -
  let ?a = "replicate n 0 @ [of_nat (bp_k policy)] :: bytes"
  have n: "0 < n" "n * 8 = n * 8" "n < length ?a"
    using bloom_bytes_pos [of policy "length keys"] by (simp_all add: n_def)
  have f: "f = foldl (add_key (n * 8) (bp_k policy) index) ?a keys"
    by (simp add: f_def CreateFilter_def n_def Let_def)
  note keys = set_keys [OF n, of "bp_k policy" index keys, folded f]
  show len: "length f = n + 1" by (simp add: keys)
  show "KeyMayMatch key f index \<longleftrightarrow> list_all (array_bit f)
      (probes (n * 8) (bp_k policy) (BloomHash key index) (rotate17 (BloomHash key index)))"
    using n assms(1)
    by (simp add: KeyMayMatch_def len keys(2) small_char nth_append test_probes_eq Let_def)
  show "array_bit f q \<longleftrightarrow> (\<exists>key\<in>set keys. q \<in> set (probes (n * 8) (bp_k policy)
      (BloomHash key index) (rotate17 (BloomHash key index))))" if "q < n * 8"
  proof -
    have "q div 8 < n" using that by (simp add: div_less_iff_less_mult)
    then have "\<not> array_bit ?a q" by (simp add: array_bit_def nth_append)
    then show ?thesis by (simp add: keys(3))
  qed
qed

lemma probes_less: "0 < bits \<Longrightarrow> q \<in> set (probes bits j h delta) \<Longrightarrow> q < bits"
  by (induction j arbitrary: h) auto

lemma KeyMayMatch_CreateFilter:
  assumes "bp_k policy \<le> 30" "key \<in> set keys"
  shows "KeyMayMatch key (CreateFilter policy keys [] index) index"
proof -
  have "0 < bloom_bytes policy (length keys) * 8"
    using bloom_bytes_pos [of policy "length keys"] by simp
  from probes_less [OF this] show ?thesis
    using assms by (auto simp: CreateFilter_char list_all_iff)
qed

section \<open>The contract of a filter policy\<close>

text \<open>
  What \<open>include/leveldb/filter_policy.h\<close> asks of a policy, and all that the filter blocks rely
  on: a filter is appended to the destination, and it matches every key it was made from.
\<close>

locale filter_policy =
  fixes create :: "bytes list \<Rightarrow> bytes \<Rightarrow> int \<Rightarrow> bytes"
    and may_match :: "bytes \<Rightarrow> bytes \<Rightarrow> int \<Rightarrow> bool"
  assumes create_append: "create keys dst index = dst @ create keys [] index"
    and may_match_create: "key \<in> set keys \<Longrightarrow> may_match key (create keys [] index) index"
begin

text \<open>A filter that lies inside a larger buffer is found by cutting it out.\<close>

lemma may_match_slice:
  assumes "key \<in> set keys"
  shows "may_match key (take (length (create keys dst index) - length dst)
           (drop (length dst) (create keys dst index @ rest))) index"
  using may_match_create [OF assms] create_append [of keys dst index] by simp

text \<open>A key that one of several units rejects is in none of the key sets they share.\<close>

lemma rejected_by_unit:
  assumes "\<not> list_all (\<lambda>i. may_match key (create keys [] i) i) units"
  shows "key \<notin> set keys"
  using assms by (auto simp: list_all_iff may_match_create)

end

interpretation bloom: filter_policy "CreateFilter (NewBloomFilterPolicy bits_per_key)" KeyMayMatch
  by unfold_locales
    (rule CreateFilter_append KeyMayMatch_CreateFilter [OF bp_k_NewBloomFilterPolicy], assumption?)+

section \<open>Properties\<close>

text \<open>
  C17. The Bloom filter has no false negatives: whatever the number of bits per key and the index
  of the filter unit, a filter built over a list of keys matches each of them, also when it was
  appended to a buffer that already holds other filters.
\<close>

theorem bloom_no_false_negatives:
  assumes "key \<in> set keys"
  shows "KeyMayMatch key (drop (length dst)
           (CreateFilter (NewBloomFilterPolicy bits_per_key) keys dst index)) index"
  using bloom.may_match_slice [OF assms, of bits_per_key dst index "[]"] by simp

theorem bloom_no_false_negatives_witness:
  "[0x61] \<in> set [[0x62], [0x61 :: byte]] \<and>
   KeyMayMatch [0x61] (drop 1 (CreateFilter (NewBloomFilterPolicy 10) [[0x62], [0x61]] [9] 3)) 3"
  using bloom_no_false_negatives [of "[0x61]" "[[0x62], [0x61]]" "[9]" 10 3] by simp

text \<open>
  Exactness of the match: the filter answers yes for a key exactly when each of the key's
  probe positions is a probe position of some inserted key, so the trailing probe-count byte is
  never mistaken for filter bits, and a false positive needs a collision on every probe.
\<close>

theorem bloom_match_iff:
  assumes "policy = NewBloomFilterPolicy bits_per_key"
    and "bits = bloom_bytes policy (length keys) * 8"
  shows "KeyMayMatch key (CreateFilter policy keys [] index) index \<longleftrightarrow>
    list_all (\<lambda>q. \<exists>key'\<in>set keys. q \<in> set (probes bits (bp_k policy) (BloomHash key' index)
        (rotate17 (BloomHash key' index))))
      (probes bits (bp_k policy) (BloomHash key index) (rotate17 (BloomHash key index)))"
proof -
  have "bp_k policy \<le> 30" by (simp add: assms(1) bp_k_NewBloomFilterPolicy)
  moreover have "0 < bits" using bloom_bytes_pos [of policy "length keys"] by (simp add: assms(2))
  ultimately show ?thesis
    using probes_less [of bits]
    by (auto simp: CreateFilter_char(2,3) list_all_iff simp flip: assms(2))
qed

end
