(* ===== verification/DbFormat.thy ===== *)
theory DbFormat
  imports Coding Comparator Bloom
begin

text \<open>
  \<open>db/dbformat.h\<close> and \<open>db/dbformat.cc\<close>: internal keys (a user key followed by a packed sequence
  number and value type), their order, the lookup key, and the filter policy wrapper that strips
  internal keys down to user keys by overwriting the caller's key array.
\<close>

section \<open>Constants and parsed keys\<close>

definition kNumLevels :: nat where "kNumLevels = 7"
definition kL0_CompactionTrigger :: nat where "kL0_CompactionTrigger = 4"
definition kMaxMemCompactLevel :: nat where "kMaxMemCompactLevel = 2"

datatype ValueType = kTypeDeletion | kTypeValue

fun value_type_code :: "ValueType \<Rightarrow> u64" where
  "value_type_code kTypeDeletion = 0x0"
| "value_type_code kTypeValue = 0x1"

definition kValueTypeForSeek :: ValueType where
  "kValueTypeForSeek = kTypeValue"

type_synonym SequenceNumber = u64

definition kMaxSequenceNumber :: SequenceNumber where
  "kMaxSequenceNumber = push_bit 56 1 - 1"

record ParsedInternalKey =
  ik_user_key :: bytes
  ik_sequence :: SequenceNumber
  ik_type :: ValueType

definition InternalKeyEncodingLength :: "ParsedInternalKey \<Rightarrow> nat" where
  "InternalKeyEncodingLength key = length (ik_user_key key) + 8"

definition PackSequenceAndType :: "SequenceNumber \<Rightarrow> ValueType \<Rightarrow> u64" where
  "PackSequenceAndType seq t = push_bit 8 seq OR value_type_code t"

definition AppendInternalKey :: "bytes \<Rightarrow> ParsedInternalKey \<Rightarrow> bytes" where
  "AppendInternalKey result key =
     PutFixed64 (result @ ik_user_key key) (PackSequenceAndType (ik_sequence key) (ik_type key))"

definition ExtractUserKey :: "bytes \<Rightarrow> bytes" where
  "ExtractUserKey internal_key = take (length internal_key - 8) internal_key"

text \<open>\<open>DecodeFixed64(key.data() + key.size() - 8)\<close>, written out at each use in the source.\<close>

definition key_tag :: "bytes \<Rightarrow> u64" where
  "key_tag internal_key = DecodeFixed64 (drop (length internal_key - 8) internal_key)"

definition ParseInternalKey :: "bytes \<Rightarrow> ParsedInternalKey option" where
  "ParseInternalKey internal_key =
     (let n = length internal_key
      in if n < 8 then None
         else
           let num = key_tag internal_key; c = num AND 0xff
           in if c \<le> value_type_code kTypeValue then
                Some \<lparr>ik_user_key = take (n - 8) internal_key, ik_sequence = drop_bit 8 num,
                      ik_type = (if c = 0 then kTypeDeletion else kTypeValue)\<rparr>
              else None)"

section \<open>The order of internal keys\<close>

definition internal_compare :: "Comparator \<Rightarrow> bytes \<Rightarrow> bytes \<Rightarrow> int" where
  "internal_compare user_comparator akey bkey =
     (let r = Compare user_comparator (ExtractUserKey akey) (ExtractUserKey bkey)
      in if r = 0 then
           let anum = key_tag akey; bnum = key_tag bkey
           in if anum > bnum then -1 else if anum < bnum then 1 else r
         else r)"

definition internal_separator :: "Comparator \<Rightarrow> bytes \<Rightarrow> bytes \<Rightarrow> bytes" where
  "internal_separator user_comparator start limit =
     (let user_start = ExtractUserKey start;
          user_limit = ExtractUserKey limit;
          tmp = FindShortestSeparator user_comparator user_start user_limit
      in if length tmp < length user_start \<and> Compare user_comparator user_start tmp < 0
         then PutFixed64 tmp (PackSequenceAndType kMaxSequenceNumber kValueTypeForSeek)
         else start)"

definition internal_successor :: "Comparator \<Rightarrow> bytes \<Rightarrow> bytes" where
  "internal_successor user_comparator key =
     (let user_key = ExtractUserKey key;
          tmp = FindShortSuccessor user_comparator user_key
      in if length tmp < length user_key \<and> Compare user_comparator user_key tmp < 0
         then PutFixed64 tmp (PackSequenceAndType kMaxSequenceNumber kValueTypeForSeek)
         else key)"

definition InternalKeyComparator :: "Comparator \<Rightarrow> Comparator" where
  "InternalKeyComparator user_comparator =
     \<lparr>Compare = internal_compare user_comparator,
      FindShortestSeparator = internal_separator user_comparator,
      FindShortSuccessor = internal_successor user_comparator\<rparr>"

section \<open>Lookup keys\<close>

text \<open>The character array of a lookup key and the offset of \<open>kstart_\<close> in it.\<close>

record LookupKey =
  lk_space :: bytes
  lk_kstart :: nat

definition LookupKey_new :: "bytes \<Rightarrow> SequenceNumber \<Rightarrow> LookupKey" where
  "LookupKey_new user_key s =
     (let usize = length user_key;
          klength = EncodeVarint32 (of_nat (usize + 8));
          tag = EncodeFixed64 (PackSequenceAndType s kValueTypeForSeek)
      in \<lparr>lk_space = klength @ user_key @ tag, lk_kstart = length klength\<rparr>)"

definition memtable_key :: "LookupKey \<Rightarrow> bytes" where
  "memtable_key k = lk_space k"

definition internal_key :: "LookupKey \<Rightarrow> bytes" where
  "internal_key k = drop (lk_kstart k) (lk_space k)"

definition user_key :: "LookupKey \<Rightarrow> bytes" where
  "user_key k = take (length (internal_key k) - 8) (internal_key k)"

section \<open>The filter policy wrapper\<close>

text \<open>
  \<open>InternalFilterPolicy::CreateFilter\<close> overwrites the caller's array of keys with their user keys
  when it is called for unit 0, and relies on that for the later units: it returns the array too.
\<close>

definition internal_create_filter ::
  "(bytes list \<Rightarrow> bytes \<Rightarrow> int \<Rightarrow> bytes) \<Rightarrow> bytes list \<Rightarrow> bytes \<Rightarrow> int \<Rightarrow> bytes list \<times> bytes" where
  "internal_create_filter user_create keys dst index =
     (let keys = (if index = 0 then map ExtractUserKey keys else keys)
      in (keys, user_create keys dst index))"

definition internal_key_may_match :: "(bytes \<Rightarrow> bytes \<Rightarrow> int \<Rightarrow> bool) \<Rightarrow> bytes \<Rightarrow> bytes \<Rightarrow> int \<Rightarrow> bool" where
  "internal_key_may_match user_match key f index = user_match (ExtractUserKey key) f index"

section \<open>Packing\<close>

lemma unat_value_type_code: "unat (value_type_code t) \<le> 1"
  by (cases t) simp_all

lemma value_type_code_bit: "bit (value_type_code t) n \<Longrightarrow> n = 0"
  by (cases t) (auto simp: bit_simps)

lemma seq_bound: "seq \<le> kMaxSequenceNumber \<longleftrightarrow> unat seq < 2 ^ 56"
  by (auto simp: kMaxSequenceNumber_def word_le_nat_alt)

lemma PackSequenceAndType_bits:
  "PackSequenceAndType seq t AND 0xff = value_type_code t"
  "seq \<le> kMaxSequenceNumber \<Longrightarrow> drop_bit 8 (PackSequenceAndType seq t) = seq"
proof -
  show "PackSequenceAndType seq t AND 0xff = value_type_code t"
    by (rule bit_word_eqI) (auto simp: PackSequenceAndType_def bit_simps dest: value_type_code_bit)
  assume "seq \<le> kMaxSequenceNumber"
  then have "bit seq n \<Longrightarrow> n < 56" for n by (auto simp: seq_bound intro: bit_bounded_less)
  then show "drop_bit 8 (PackSequenceAndType seq t) = seq"
    by (intro bit_word_eqI)
      (auto simp: PackSequenceAndType_def bit_simps less_diff_conv2 dest: value_type_code_bit)
qed

lemma unat_PackSequenceAndType:
  assumes "seq \<le> kMaxSequenceNumber"
  shows "unat (PackSequenceAndType seq t) = unat seq * 256 + unat (value_type_code t)"
proof -
  have "push_bit 8 seq AND value_type_code t = 0"
    by (rule bit_word_eqI) (auto simp: bit_simps dest: value_type_code_bit)
  then have "PackSequenceAndType seq t = push_bit 8 seq + value_type_code t"
    by (simp add: PackSequenceAndType_def disjunctive_add_eq_or)
  moreover have "unat (push_bit 8 seq) = unat seq * 256"
    using assms by (simp add: seq_bound push_bit_eq_mult unat_word_ariths)
  ultimately show ?thesis
    using assms unat_value_type_code [of t] by (simp add: seq_bound unat_word_ariths)
qed

lemma PackSequenceAndType_less_iff:
  assumes "s \<le> kMaxSequenceNumber" "s' \<le> kMaxSequenceNumber"
  shows "PackSequenceAndType s t < PackSequenceAndType s' t' \<longleftrightarrow>
    s < s' \<or> s = s' \<and> value_type_code t < value_type_code t'"
  using unat_value_type_code [of t] unat_value_type_code [of t']
  by (auto simp: word_less_nat_alt unat_PackSequenceAndType [OF assms(1)] word_unat_eq_iff
      unat_PackSequenceAndType [OF assms(2)])

lemma value_type_code_inj [simp]: "value_type_code t = value_type_code t' \<longleftrightarrow> t = t'"
  by (cases t; cases t') simp_all

section \<open>Encoding and parsing internal keys\<close>

lemma ExtractUserKey_append [simp]:
  "length tag = 8 \<Longrightarrow> ExtractUserKey (key @ tag) = key"
  by (simp add: ExtractUserKey_def)

lemma key_tag_append [simp]: "key_tag (key @ EncodeFixed64 num) = num"
  using DecodeFixed64_EncodeFixed64 [of num "[]"] by (simp add: key_tag_def)

lemma AppendInternalKey_eq:
  "AppendInternalKey result key = result @ ik_user_key key @
     EncodeFixed64 (PackSequenceAndType (ik_sequence key) (ik_type key))"
  by (simp add: AppendInternalKey_def PutFixed64_def)

lemma ParseInternalKey_Append:
  assumes "ik_sequence key \<le> kMaxSequenceNumber"
  shows "ParseInternalKey (AppendInternalKey [] key) = Some key"
  using assms
  by (cases "ik_type key") (simp_all add: ParseInternalKey_def AppendInternalKey_eq Let_def
      PackSequenceAndType_bits)

lemma split_internal_key:
  assumes "8 \<le> length k"
  shows "k = ExtractUserKey k @ EncodeFixed64 (key_tag k)"
proof -
  have "EncodeFixed64 (key_tag k) = drop (length k - 8) k"
    using assms EncodeFixed64_DecodeFixed64 [of "drop (length k - 8) k"] by (simp add: key_tag_def)
  then show ?thesis by (simp add: ExtractUserKey_def)
qed

lemma ParseInternalKey_SomeD:
  assumes "ParseInternalKey k = Some key"
  shows "AppendInternalKey [] key = k" "ik_sequence key \<le> kMaxSequenceNumber" "8 \<le> length k"
proof -
  show len: "8 \<le> length k"
    using assms by (auto simp: ParseInternalKey_def Let_def split: if_splits)
  let ?num = "key_tag k"
  have c: "?num AND 0xff = value_type_code (ik_type key)" and key: "ik_sequence key = drop_bit 8 ?num"
      "ik_user_key key = ExtractUserKey k"
  proof -
    have "?num AND 0xff = 0 \<or> ?num AND 0xff = 1" if "?num AND 0xff \<le> 1"
      using that by (auto simp: word_le_nat_alt le_Suc_eq word_unat_eq_iff)
    then show "?num AND 0xff = value_type_code (ik_type key)"
      using assms by (auto simp: ParseInternalKey_def Let_def split: if_splits)
    show "ik_sequence key = drop_bit 8 ?num" "ik_user_key key = ExtractUserKey k"
      using assms by (auto simp: ParseInternalKey_def Let_def ExtractUserKey_def split: if_splits)
  qed
  have "PackSequenceAndType (ik_sequence key) (ik_type key) = ?num"
    unfolding PackSequenceAndType_def key c [symmetric]
    by (rule bit_word_eqI) (auto simp: bit_simps)
  then show "AppendInternalKey [] key = k"
    using split_internal_key [OF len] by (simp add: AppendInternalKey_eq key)
  have "unat ?num < 2 ^ 64" using unsigned_less [of ?num, where 'a = nat] by simp
  then show "ik_sequence key \<le> kMaxSequenceNumber"
    unfolding seq_bound key unat_drop_bit_eq unfolding drop_bit_eq_div
    by (simp add: div_less_iff_less_mult)
qed

section \<open>Internal keys are ordered by user key, then newest first\<close>

context separating_comparator
begin

lemma internal_compare_less:
  "internal_compare c a b < 0 \<longleftrightarrow>
     Compare c (ExtractUserKey a) (ExtractUserKey b) < 0 \<or>
     Compare c (ExtractUserKey a) (ExtractUserKey b) = 0 \<and> key_tag b < key_tag a"
  by (auto simp: internal_compare_def Let_def)

lemma internal_compare_le:
  "internal_compare c a b \<le> 0 \<longleftrightarrow>
     Compare c (ExtractUserKey a) (ExtractUserKey b) < 0 \<or>
     Compare c (ExtractUserKey a) (ExtractUserKey b) = 0 \<and> key_tag b \<le> key_tag a"
  by (auto simp: internal_compare_def Let_def)

lemma internal_separator_cases:
  obtains (keep) "internal_separator c start limit = start"
  | (shorten) tmp tag where "internal_separator c start limit = tmp @ tag" "length tag = 8"
      "tmp = FindShortestSeparator c (ExtractUserKey start) (ExtractUserKey limit)"
      "Compare c (ExtractUserKey start) tmp < 0"
      "Compare c (ExtractUserKey start) (ExtractUserKey limit) < 0"
proof (cases "internal_separator c start limit = start")
  case False
  let ?tmp = "FindShortestSeparator c (ExtractUserKey start) (ExtractUserKey limit)"
  have *: "Compare c (ExtractUserKey start) ?tmp < 0"
    using False by (auto simp: internal_separator_def Let_def split: if_splits)
  then have "?tmp \<noteq> ExtractUserKey start" by auto
  then have "Compare c (ExtractUserKey start) (ExtractUserKey limit) < 0"
    using separator_stuck by blast
  then show thesis
    using False * by (intro shorten [of ?tmp "EncodeFixed64
        (PackSequenceAndType kMaxSequenceNumber kValueTypeForSeek)"]) (auto simp: internal_separator_def Let_def PutFixed64_def
        split: if_splits)
qed (rule keep)

lemma internal_separating: "separating_comparator (InternalKeyComparator c)"
proof unfold_locales
  fix a b d start limit key :: bytes
  show "Compare (InternalKeyComparator c) a b < 0 \<longleftrightarrow> Compare (InternalKeyComparator c) b a > 0"
    using compare_sym [of "ExtractUserKey a" "ExtractUserKey b"]
      compare_eq_iff [of "ExtractUserKey a" "ExtractUserKey b"]
    by (auto simp: InternalKeyComparator_def internal_compare_def Let_def)
  show "Compare (InternalKeyComparator c) a b \<le> 0 \<Longrightarrow> Compare (InternalKeyComparator c) b d \<le> 0 \<Longrightarrow>
      Compare (InternalKeyComparator c) a d \<le> 0"
    unfolding InternalKeyComparator_def Comparator.simps internal_compare_le
    using compare_trans [of "ExtractUserKey a" "ExtractUserKey b" "ExtractUserKey d"]
      compare_less_le_trans [of "ExtractUserKey a" "ExtractUserKey b" "ExtractUserKey d"]
      compare_le_less_trans [of "ExtractUserKey a" "ExtractUserKey b" "ExtractUserKey d"]
    by (auto intro: order.trans)
  show "Compare (InternalKeyComparator c) start
      (FindShortestSeparator (InternalKeyComparator c) start limit) \<le> 0"
    by (rule internal_separator_cases [of start limit])
      (auto simp: InternalKeyComparator_def internal_compare_le)
  show "Compare (InternalKeyComparator c)
      (FindShortestSeparator (InternalKeyComparator c) start limit) limit < 0"
    if "Compare (InternalKeyComparator c) start limit < 0"
    using that by (cases rule: internal_separator_cases [of start limit])
      (auto simp: InternalKeyComparator_def internal_compare_less separator_less)
  show "FindShortestSeparator (InternalKeyComparator c) start limit = start"
    if "\<not> Compare (InternalKeyComparator c) start limit < 0"
    using that by (cases rule: internal_separator_cases [of start limit])
      (auto simp: InternalKeyComparator_def internal_compare_less)
  show "Compare (InternalKeyComparator c) key (FindShortSuccessor (InternalKeyComparator c) key) \<le> 0"
    by (auto simp: InternalKeyComparator_def internal_compare_le internal_successor_def Let_def
        PutFixed64_def)
qed

end

interpretation ikc: separating_comparator "InternalKeyComparator BytewiseComparator"
  by (rule bytewise.internal_separating)

section \<open>Lookup keys seek to the newest visible version\<close>

lemma LookupKey_parts:
  "memtable_key (LookupKey_new u s) = EncodeVarint32 (of_nat (length u + 8)) @ internal_key (LookupKey_new u s)"
  "internal_key (LookupKey_new u s) = u @ EncodeFixed64 (PackSequenceAndType s kValueTypeForSeek)"
  "user_key (LookupKey_new u s) = u"
  by (simp_all add: LookupKey_new_def memtable_key_def internal_key_def user_key_def Let_def)

lemma seek_tag_le_iff:
  assumes "s \<le> kMaxSequenceNumber" "s' \<le> kMaxSequenceNumber"
  shows "PackSequenceAndType s' t \<le> PackSequenceAndType s kValueTypeForSeek \<longleftrightarrow> s' \<le> s"
  using assms unat_value_type_code [of t]
  by (auto simp: kValueTypeForSeek_def word_le_nat_alt unat_PackSequenceAndType)

lemma bytewise_internal_eq:
  assumes "8 \<le> length a" "8 \<le> length b" "Compare (InternalKeyComparator BytewiseComparator) a b = 0"
  shows "a = b"
proof -
  have "ExtractUserKey a = ExtractUserKey b" "key_tag a = key_tag b"
    using assms(3) by (auto simp: InternalKeyComparator_def internal_compare_def Let_def
        bytewise_eq_iff split: if_splits)
  then show ?thesis using split_internal_key assms(1,2) by metis
qed

section \<open>Properties\<close>

text \<open>
  Parsing an internal key is the exact inverse of appending one: a parsed key re-encodes to the
  bytes it came from and has a 56-bit sequence number, every key with such a number parses back to
  itself, and parsing fails exactly on input shorter than the 8-byte tag or with an unknown type.
\<close>

theorem internal_key_codec:
  "(case ParseInternalKey k of
      Some key \<Rightarrow> AppendInternalKey [] key = k \<and> ik_sequence key \<le> kMaxSequenceNumber
    | None \<Rightarrow> length k < 8 \<or> 1 < key_tag k AND 0xff) \<and>
   (ik_sequence key' > kMaxSequenceNumber \<or>
      ParseInternalKey (AppendInternalKey [] key') = Some key')"
proof -
  have "length k < 8 \<or> 1 < key_tag k AND 0xff" if "ParseInternalKey k = None"
    using that by (auto simp: ParseInternalKey_def Let_def split: if_splits)
  then show ?thesis
    using ParseInternalKey_SomeD [of k] ParseInternalKey_Append [of key']
    by (cases "ik_sequence key' \<le> kMaxSequenceNumber") (auto split: option.splits simp: not_le)
qed

text \<open>
  C18. A lookup at snapshot \<open>s\<close> lands on the newest visible version: in the order of internal keys,
  an entry is at or after the lookup key exactly when its user key is larger, or is the same and
  its sequence number is at most \<open>s\<close>; and of two versions of a user key the newer comes first.
\<close>

theorem lookup_key_order:
  assumes "s \<le> kMaxSequenceNumber" "ik_sequence e \<le> kMaxSequenceNumber"
    "ik_sequence e' \<le> kMaxSequenceNumber"
  shows "(Compare (InternalKeyComparator BytewiseComparator)
            (internal_key (LookupKey_new u s)) (AppendInternalKey [] e) \<le> 0 \<longleftrightarrow>
          Compare BytewiseComparator u (ik_user_key e) < 0 \<or>
          u = ik_user_key e \<and> ik_sequence e \<le> s) \<and>
    (ik_user_key e = ik_user_key e' \<and> ik_sequence e' < ik_sequence e \<longrightarrow>
       Compare (InternalKeyComparator BytewiseComparator)
         (AppendInternalKey [] e) (AppendInternalKey [] e') < 0)"
  using assms
  by (auto simp: InternalKeyComparator_def bytewise.internal_compare_le
      bytewise.internal_compare_less AppendInternalKey_eq LookupKey_parts seek_tag_le_iff
      bytewise_eq_iff PackSequenceAndType_less_iff)

theorem lookup_key_order_witness:
  "Compare (InternalKeyComparator BytewiseComparator)
     (internal_key (LookupKey_new [0x6b] 5))
     (AppendInternalKey [] \<lparr>ik_user_key = [0x6b], ik_sequence = 3, ik_type = kTypeValue\<rparr>) \<le> 0"
  using lookup_key_order [of 5 "\<lparr>ik_user_key = [0x6b], ik_sequence = 3, ik_type = kTypeValue\<rparr>"
      "\<lparr>ik_user_key = [0x6b], ik_sequence = 2, ik_type = kTypeDeletion\<rparr>" "[0x6b]"]
  by (simp add: kMaxSequenceNumber_def)

text \<open>
  Shortened internal keys still separate: for internal keys \<open>start < limit\<close> the separator is
  in \<open>[start, limit)\<close>, the short successor is at least the key, and both are again internal keys
  (at least 8 bytes) when their input is, so the asserts in the code hold.
\<close>

theorem internal_shortening:
  assumes "Compare (InternalKeyComparator BytewiseComparator) start limit < 0" "8 \<le> length start"
  shows "Compare (InternalKeyComparator BytewiseComparator) start
       (internal_separator BytewiseComparator start limit) \<le> 0 \<and>
     Compare (InternalKeyComparator BytewiseComparator)
       (internal_separator BytewiseComparator start limit) limit < 0 \<and>
     Compare (InternalKeyComparator BytewiseComparator) start
       (internal_successor BytewiseComparator start) \<le> 0 \<and>
     8 \<le> length (internal_separator BytewiseComparator start limit) \<and>
     8 \<le> length (internal_successor BytewiseComparator start)"
proof -
  have "FindShortestSeparator (InternalKeyComparator BytewiseComparator) =
      internal_separator BytewiseComparator"
    "FindShortSuccessor (InternalKeyComparator BytewiseComparator) =
      internal_successor BytewiseComparator"
    by (simp_all add: InternalKeyComparator_def)
  moreover have "8 \<le> length (internal_separator BytewiseComparator start limit)"
      "8 \<le> length (internal_successor BytewiseComparator start)"
    using assms(2)
    by (auto simp: internal_separator_def internal_successor_def Let_def PutFixed64_def)
  ultimately show ?thesis
    using assms(1) ikc.separator_ge [of start limit] ikc.separator_less [of start limit]
      ikc.successor_ge [of start] by simp
qed

end
