(* ===== verification/Status.thy ===== *)
theory Status
  imports Prelude
begin

text \<open>
  \<open>include/leveldb/status.h\<close>, \<open>util/status.cc\<close> and the file interfaces of
  \<open>include/leveldb/env.h\<close>. A \<open>Status\<close> is a value; its heap representation (a null pointer, or a
  length, a code byte and the message) is not modelled. A file is a state threaded through the
  operations of its interface record; the locales state what the log and table code relies on when
  no I/O error occurs.
\<close>

section \<open>Status\<close>

datatype Code = kOk | kNotFound | kCorruption | kNotSupported | kInvalidArgument | kIOError

datatype Status = OK | Failed Code string

definition mk_status :: "Code \<Rightarrow> string \<Rightarrow> string \<Rightarrow> Status" where
  "mk_status code msg msg2 = Failed code (msg @ (if msg2 \<noteq> [] then '': '' @ msg2 else []))"

definition NotFound :: "string \<Rightarrow> string \<Rightarrow> Status" where
  "NotFound = mk_status kNotFound"
definition Corruption :: "string \<Rightarrow> string \<Rightarrow> Status" where
  "Corruption = mk_status kCorruption"
definition NotSupported :: "string \<Rightarrow> string \<Rightarrow> Status" where
  "NotSupported = mk_status kNotSupported"
definition InvalidArgument :: "string \<Rightarrow> string \<Rightarrow> Status" where
  "InvalidArgument = mk_status kInvalidArgument"
definition IOError :: "string \<Rightarrow> string \<Rightarrow> Status" where
  "IOError = mk_status kIOError"

fun status_code :: "Status \<Rightarrow> Code" where
  "status_code OK = kOk"
| "status_code (Failed code msg) = code"

fun ok :: "Status \<Rightarrow> bool" where
  "ok OK = True"
| "ok (Failed code msg) = False"

fun Status_ToString :: "Status \<Rightarrow> string" where
  "Status_ToString OK = ''OK''"
| "Status_ToString (Failed code msg) =
     (case code of
        kOk \<Rightarrow> ''OK''
      | kNotFound \<Rightarrow> ''NotFound: ''
      | kCorruption \<Rightarrow> ''Corruption: ''
      | kNotSupported \<Rightarrow> ''Not implemented: ''
      | kInvalidArgument \<Rightarrow> ''Invalid argument: ''
      | kIOError \<Rightarrow> ''IO error: '') @ msg"

lemma ok_iff [simp]: "ok s \<longleftrightarrow> s = OK"
  by (cases s) simp_all

lemma status_not_ok [simp]:
  "Corruption a b \<noteq> OK" "OK \<noteq> Corruption a b" "IOError a b \<noteq> OK" "OK \<noteq> IOError a b"
  "NotFound a b \<noteq> OK" "OK \<noteq> NotFound a b"
  by (simp_all add: Corruption_def IOError_def NotFound_def mk_status_def)

section \<open>File interfaces\<close>

record 'f WritableFile =
  wf_Append :: "bytes \<Rightarrow> 'f \<Rightarrow> Status \<times> 'f"
  wf_Flush :: "'f \<Rightarrow> Status \<times> 'f"

record 'f SequentialFile =
  sf_Read :: "nat \<Rightarrow> 'f \<Rightarrow> Status \<times> bytes \<times> 'f"
  sf_Skip :: "nat \<Rightarrow> 'f \<Rightarrow> Status \<times> 'f"

text \<open>A file opened for writing, on which no operation fails: appends go to the end.\<close>

locale writable_file =
  fixes ops :: "'f WritableFile"
    and file_ok :: "'f \<Rightarrow> bool"
    and contents :: "'f \<Rightarrow> bytes"
  assumes append: "file_ok f \<Longrightarrow> \<exists>f'. wf_Append ops data f = (OK, f') \<and> file_ok f' \<and>
      contents f' = contents f @ data"
    and flush: "file_ok f \<Longrightarrow> \<exists>f'. wf_Flush ops f = (OK, f') \<and> file_ok f' \<and>
      contents f' = contents f"

text \<open>A file opened for sequential reading: a read takes the next bytes, fewer only at the end.\<close>

locale sequential_file =
  fixes ops :: "'f SequentialFile"
    and file_ok :: "'f \<Rightarrow> bool"
    and remaining :: "'f \<Rightarrow> bytes"
  assumes read: "file_ok f \<Longrightarrow> \<exists>f'. sf_Read ops n f = (OK, take n (remaining f), f') \<and> file_ok f' \<and>
      remaining f' = drop n (remaining f)"
    and skip: "file_ok f \<Longrightarrow> \<exists>f'. sf_Skip ops n f = (OK, f') \<and> file_ok f' \<and>
      remaining f' = drop n (remaining f)"

end
