(* ===== verification/MemEnv.thy ===== *)
theory MemEnv
  imports Status "HOL-Library.Char_ord" "HOL-Library.List_Lexorder" "HOL-Library.Multiset"
begin

text \<open>
  \<open>helpers/memenv/memenv.cc\<close>: the in-memory environment. A \<open>FileState\<close> keeps its bytes in a
  vector of fixed-size blocks and is reference counted; the environment maps file names to
  pointers. Pointers are addresses of an explicit store, a freed object is absent from it, and the
  operations of the environment return \<open>None\<close> where the code would dereference a null or dangling
  pointer. Locks are not modelled: every operation holds its mutex throughout.
\<close>

section \<open>File contents\<close>

definition kBlockSize_mem :: nat where "kBlockSize_mem = 8 * 1024"

record FileState =
  fs_refs :: int
  fs_blocks :: "bytes list"
  fs_size :: nat

definition FileState_new :: FileState where
  "FileState_new = \<lparr>fs_refs = 0, fs_blocks = [], fs_size = 0\<rparr>"

definition Truncate :: "FileState \<Rightarrow> FileState" where
  "Truncate f = f\<lparr>fs_blocks := [], fs_size := 0\<rparr>"

text \<open>\<open>memcpy\<close> of \<open>xs\<close> into the block \<open>b\<close> at \<open>offset\<close>.\<close>

definition overwrite :: "nat \<Rightarrow> bytes \<Rightarrow> bytes \<Rightarrow> bytes" where
  "overwrite offset xs b = take offset b @ xs @ drop (offset + length xs) b"

text \<open>One round of the loop in \<open>Append\<close>; a block fresh from \<open>new\<close> is taken to be zero.\<close>

definition append_chunk :: "bytes \<Rightarrow> FileState \<Rightarrow> nat \<times> FileState" where
  "append_chunk src f =
     (let offset = fs_size f mod kBlockSize_mem;
          blocks = (if offset \<noteq> 0 then fs_blocks f
                    else fs_blocks f @ [replicate kBlockSize_mem 0]);
          avail = (if offset \<noteq> 0 then kBlockSize_mem - offset else kBlockSize_mem);
          avail = (if avail > length src then length src else avail);
          blocks = butlast blocks @ [overwrite offset (take avail src) (last blocks)]
      in (avail, f\<lparr>fs_blocks := blocks, fs_size := fs_size f + avail\<rparr>))"

lemma append_chunk_pos: "src \<noteq> [] \<Longrightarrow> 0 < fst (append_chunk src f)"
  by (auto simp: append_chunk_def Let_def kBlockSize_mem_def)

function Append_loop :: "bytes \<Rightarrow> FileState \<Rightarrow> FileState" where
  "Append_loop src f =
     (if src = [] then f
      else let (avail, f') = append_chunk src f in Append_loop (drop avail src) f')"
  by pat_completeness auto
termination
proof (relation "measure (\<lambda>(src, f). length src)")
  fix src f x avail f'
  assume "src \<noteq> []" "x = append_chunk src f" "(avail, f') = x"
  then show "((drop avail src, f'), src, f) \<in> measure (\<lambda>(src, f). length src)"
    using append_chunk_pos [of src f] by (metis (no_types, lifting) case_prod_conv diff_less fst_conv
        in_measure length_drop length_greater_0_conv)
qed simp

declare Append_loop.simps [simp del]

definition FileState_Append :: "bytes \<Rightarrow> FileState \<Rightarrow> Status \<times> FileState" where
  "FileState_Append data f = (OK, Append_loop data f)"

function read_loop :: "bytes list \<Rightarrow> nat \<Rightarrow> nat \<Rightarrow> nat \<Rightarrow> bytes" where
  "read_loop blocks block block_offset bytes_to_copy =
     (if bytes_to_copy > 0 then
        let avail = kBlockSize_mem - block_offset;
            avail = (if avail > bytes_to_copy then bytes_to_copy else avail)
        in take avail (drop block_offset (blocks ! block)) @
           read_loop blocks (block + 1) 0 (bytes_to_copy - avail)
      else [])"
  by pat_completeness auto
termination
  by (relation "measures [\<lambda>(blocks, block, offset, n). n, \<lambda>(blocks, block, offset, n). offset]")
    (auto simp: kBlockSize_mem_def)

declare read_loop.simps [simp del]

definition FileState_Read :: "nat \<Rightarrow> nat \<Rightarrow> FileState \<Rightarrow> Status \<times> bytes" where
  "FileState_Read offset n f =
     (if offset > fs_size f then (IOError ''Offset greater than file size.'' [], [])
      else
        let available = fs_size f - offset;
            n = (if n > available then available else n)
        in if n = 0 then (OK, [])
           else (OK, read_loop (fs_blocks f) (offset div kBlockSize_mem)
                   (offset mod kBlockSize_mem) n))"

text \<open>The handles: \<open>WritableFileImpl\<close> and \<open>SequentialFileImpl\<close> on a file.\<close>

definition WritableFileImpl :: "FileState WritableFile" where
  "WritableFileImpl = \<lparr>wf_Append = FileState_Append, wf_Flush = (\<lambda>f. (OK, f))\<rparr>"

record SequentialHandle =
  sh_file :: FileState
  sh_pos :: nat

definition sequential_read :: "nat \<Rightarrow> SequentialHandle \<Rightarrow> Status \<times> bytes \<times> SequentialHandle" where
  "sequential_read n h =
     (let (s, result) = FileState_Read (sh_pos h) n (sh_file h)
      in (s, result, if ok s then h\<lparr>sh_pos := sh_pos h + length result\<rparr> else h))"

definition sequential_skip :: "nat \<Rightarrow> SequentialHandle \<Rightarrow> Status \<times> SequentialHandle" where
  "sequential_skip n h =
     (if sh_pos h > fs_size (sh_file h) then (IOError ''pos_ > file_->Size()'' [], h)
      else
        let available = fs_size (sh_file h) - sh_pos h;
            n = (if n > available then available else n)
        in (OK, h\<lparr>sh_pos := sh_pos h + n\<rparr>))"

definition SequentialFileImpl :: "SequentialHandle SequentialFile" where
  "SequentialFileImpl = \<lparr>sf_Read = sequential_read, sf_Skip = sequential_skip\<rparr>"

section \<open>The blocks hold the appended bytes\<close>

definition file_contents :: "FileState \<Rightarrow> bytes" where
  "file_contents f = take (fs_size f) (concat (fs_blocks f))"

definition file_state_ok :: "FileState \<Rightarrow> bool" where
  "file_state_ok f \<longleftrightarrow>
     list_all (\<lambda>b. length b = kBlockSize_mem) (fs_blocks f) \<and>
     fs_size f \<le> length (fs_blocks f) * kBlockSize_mem \<and>
     length (fs_blocks f) * kBlockSize_mem < fs_size f + kBlockSize_mem"

lemma length_concat_blocks:
  "list_all (\<lambda>b. length b = k) bs \<Longrightarrow> length (concat bs) = length bs * k"
  by (induction bs) auto

lemma length_file_contents: "file_state_ok f \<Longrightarrow> length (file_contents f) = fs_size f"
  by (simp add: file_state_ok_def file_contents_def length_concat_blocks [where k = kBlockSize_mem])

lemma length_overwrite: "offset + length xs \<le> length b \<Longrightarrow> length (overwrite offset xs b) = length b"
  by (simp add: overwrite_def)

lemma file_state_size:
  assumes "file_state_ok f"
  shows "fs_size f mod kBlockSize_mem = 0 \<Longrightarrow> fs_size f = length (fs_blocks f) * kBlockSize_mem"
    and "fs_size f mod kBlockSize_mem \<noteq> 0 \<Longrightarrow> fs_blocks f \<noteq> [] \<and>
      fs_size f = length (butlast (fs_blocks f)) * kBlockSize_mem + fs_size f mod kBlockSize_mem"
proof -
  let ?k = kBlockSize_mem and ?n = "length (fs_blocks f)" and ?s = "fs_size f"
  have b: "?s \<le> ?n * ?k" "?n * ?k < ?s + ?k" using assms by (simp_all add: file_state_ok_def)
  have k: "0 < ?k" by (simp add: kBlockSize_mem_def)
  have s: "?s = ?s div ?k * ?k + ?s mod ?k" by simp
  show "?s = ?n * ?k" if "?s mod ?k = 0"
  proof -
    have "?s div ?k * ?k = ?s" using that by auto
    then have "?s div ?k \<le> ?n" "?n < ?s div ?k + 1"
      using b k by (metis mult_le_cancel2 not_le, metis add.commute b(2) k mult.commute mult_Suc_right
          mult_less_cancel2 plus_1_eq_Suc)
    then have "?n = ?s div ?k" by simp
    then show ?thesis using \<open>?s div ?k * ?k = ?s\<close> by simp
  qed
  show "fs_blocks f \<noteq> [] \<and> ?s = length (butlast (fs_blocks f)) * ?k + ?s mod ?k" if "?s mod ?k \<noteq> 0"
  proof -
    have "?n \<noteq> 0" using b that by (metis le_zero_eq mod_0 mult_zero_left)
    moreover have "?s div ?k = ?n - 1"
    proof (rule div_nat_eqI)
      show "?k * (?n - 1) \<le> ?s" using b \<open>?n \<noteq> 0\<close> by (cases ?n) (auto simp: mult.commute)
      have "?s \<noteq> ?n * ?k" using that by auto
      then show "?s < ?k * Suc (?n - 1)" using b \<open>?n \<noteq> 0\<close> by (simp add: mult.commute)
    qed
    ultimately show ?thesis using s by auto
  qed
qed

lemma append_chunk_ok:
  assumes f: "file_state_ok f" and "append_chunk src f = (avail, f')" and "src \<noteq> []"
  shows "file_state_ok f' \<and> file_contents f' = file_contents f @ take avail src \<and> avail \<le> length src"
proof -
  let ?k = kBlockSize_mem and ?o = "fs_size f mod kBlockSize_mem"
  define bs where "bs = (if ?o = 0 then fs_blocks f else butlast (fs_blocks f))"
  define b where "b = (if ?o = 0 then replicate ?k 0 else last (fs_blocks f))"
  have k: "0 < ?k" by (simp add: kBlockSize_mem_def)
  have bs: "list_all (\<lambda>b. length b = ?k) bs" "length b = ?k" "fs_size f = length bs * ?k + ?o"
    using f file_state_size [OF f] last_in_set [of "fs_blocks f"]
    by (auto simp: bs_def b_def file_state_ok_def list_all_iff dest: in_set_butlastD)
  have fb: "file_contents f = concat bs @ take ?o b"
  proof (cases "?o = 0")
    case True
    then show ?thesis using bs length_concat_blocks [OF bs(1)]
      by (simp add: file_contents_def bs_def b_def)
  next
    case False
    then have "fs_blocks f = bs @ [b]" using file_state_size(2) [OF f] by (simp add: bs_def b_def)
    moreover have "fs_size f - length bs * ?k = ?o" "length bs * ?k \<le> fs_size f"
      using bs(3) by linarith+
    ultimately show ?thesis
      using length_concat_blocks [OF bs(1)] by (simp add: file_contents_def)
  qed
  have avail: "avail = min (?k - ?o) (length src)"
    and f': "fs_blocks f' = bs @ [overwrite ?o (take avail src) b]" "fs_size f' = fs_size f + avail"
    using assms(2) by (auto simp: append_chunk_def Let_def bs_def b_def split: if_splits)
  have "?o < ?k" using k by simp
  then have o: "?o < ?k" "?o + avail \<le> ?k" using avail by linarith+
  moreover have "0 < avail" using o avail assms(3) by simp
  moreover have "file_contents f' = concat bs @ take ?o b @ take avail src"
    using bs o avail length_concat_blocks [OF bs(1)]
    by (simp add: file_contents_def f' overwrite_def)
  moreover have "fs_size f' \<le> Suc (length bs) * ?k" "Suc (length bs) * ?k < fs_size f' + ?k"
    using o bs(3) f'(2) \<open>0 < avail\<close> by (simp_all only: mult_Suc)
  ultimately show ?thesis
    using bs(1,2) fb avail by (simp add: file_state_ok_def f'(1) length_overwrite)
qed

lemma Append_loop_ok:
  "file_state_ok f \<Longrightarrow> file_state_ok (Append_loop src f) \<and>
     file_contents (Append_loop src f) = file_contents f @ src"
proof (induction src f rule: Append_loop.induct)
  case (1 src f)
  show ?case
  proof (cases "src = []")
    case False
    obtain avail f' where ch: "append_chunk src f = (avail, f')" by fastforce
    show ?thesis
      using append_chunk_ok [OF "1.prems" ch False] "1.IH" [OF False refl ch [symmetric]]
      by (simp add: Append_loop.simps [of src] ch False)
  qed (simp add: Append_loop.simps "1.prems")
qed

lemma concat_drop_block:
  assumes "list_all (\<lambda>b. length b = k) bs" "i < length bs" "off \<le> k"
  shows "drop (i * k + off) (concat bs) = drop off (bs ! i) @ drop (Suc i * k) (concat bs)"
  using assms
proof (induction bs arbitrary: i)
  case (Cons b bs)
  then show ?case by (cases i) (auto simp: add.assoc)
qed simp

lemma read_loop_eq:
  "list_all (\<lambda>b. length b = kBlockSize_mem) blocks \<Longrightarrow> off \<le> kBlockSize_mem \<Longrightarrow>
   block * kBlockSize_mem + off + n \<le> length blocks * kBlockSize_mem \<Longrightarrow>
   read_loop blocks block off n = take n (drop (block * kBlockSize_mem + off) (concat blocks))"
proof (induction blocks block off n rule: read_loop.induct)
  case (1 blocks block off n)
  show ?case
  proof (cases "n > 0")
    case True
    let ?k = kBlockSize_mem
    define avail where "avail = (if ?k - off > n then n else ?k - off)"
    have "block * ?k < length blocks * ?k" using True "1.prems"(3) by linarith
    then have b: "block < length blocks" by simp
    then have len: "length (blocks ! block) = ?k" using "1.prems"(1) by (simp add: list_all_length)
    have "read_loop blocks (block + 1) 0 (n - avail) = take (n - avail) (drop (Suc block * ?k) (concat blocks))"
      if "?k - off \<le> n"
      using "1.IH" [OF True refl refl] "1.prems" that by (simp add: avail_def)
    then have "read_loop blocks block off n = take avail (drop off (blocks ! block)) @
        (if ?k - off \<le> n then take (n - avail) (drop (Suc block * ?k) (concat blocks)) else [])"
      using True read_loop.simps [of blocks block off n] read_loop.simps [of blocks "block + 1" 0 0]
      by (simp add: Let_def avail_def not_le)
    also have "\<dots> = take n (drop off (blocks ! block) @ drop (Suc block * ?k) (concat blocks))"
      using len by (auto simp: avail_def)
    finally show ?thesis
      using concat_drop_block [OF "1.prems"(1) b "1.prems"(2)] by simp
  qed (simp add: read_loop.simps)
qed

lemma FileState_Read_ok:
  assumes "file_state_ok f" "offset \<le> fs_size f"
  shows "FileState_Read offset n f = (OK, take n (drop offset (file_contents f)))"
proof -
  let ?n = "if n > fs_size f - offset then fs_size f - offset else n"
  have "read_loop (fs_blocks f) (offset div kBlockSize_mem) (offset mod kBlockSize_mem) ?n =
      take ?n (drop offset (concat (fs_blocks f)))"
    using assms by (subst read_loop_eq) (auto simp: file_state_ok_def kBlockSize_mem_def)
  moreover have "take n (drop offset (take (fs_size f) xs)) = take ?n (drop offset xs)" for xs :: bytes
    using assms(2) by (auto simp: take_drop min_def)
  ultimately show ?thesis
    using assms(2) by (auto simp: FileState_Read_def file_contents_def Let_def)
qed

lemma FileState_Read_cong:
  assumes "file_state_ok f" "file_state_ok g" "file_contents f = file_contents g"
  shows "FileState_Read offset n f = FileState_Read offset n g"
proof -
  have size: "fs_size f = fs_size g" using assms length_file_contents by metis
  show ?thesis
  proof (cases "offset \<le> fs_size f")
    case True
    then show ?thesis using assms size by (simp add: FileState_Read_ok)
  qed (simp add: FileState_Read_def size)
qed

lemma file_state_ok_new: "file_state_ok FileState_new" "file_contents FileState_new = []"
  by (simp_all add: file_state_ok_def FileState_new_def kBlockSize_mem_def file_contents_def)

interpretation mem_write: writable_file WritableFileImpl file_state_ok file_contents
  by unfold_locales (simp_all add: WritableFileImpl_def FileState_Append_def Append_loop_ok)

definition handle_ok :: "SequentialHandle \<Rightarrow> bool" where
  "handle_ok h \<longleftrightarrow> file_state_ok (sh_file h) \<and> sh_pos h \<le> fs_size (sh_file h)"

definition handle_remaining :: "SequentialHandle \<Rightarrow> bytes" where
  "handle_remaining h = drop (sh_pos h) (file_contents (sh_file h))"

interpretation mem_read: sequential_file SequentialFileImpl handle_ok handle_remaining
proof unfold_locales
  fix h n assume h: "handle_ok h"
  then have len: "length (file_contents (sh_file h)) = fs_size (sh_file h)"
    by (simp add: handle_ok_def length_file_contents)
  show "\<exists>h'. sf_Read SequentialFileImpl n h = (OK, take n (handle_remaining h), h') \<and>
      handle_ok h' \<and> handle_remaining h' = drop n (handle_remaining h)"
    using h len by (auto simp: SequentialFileImpl_def sequential_read_def FileState_Read_ok
        handle_ok_def handle_remaining_def min_def add.commute)
  show "\<exists>h'. sf_Skip SequentialFileImpl n h = (OK, h') \<and> handle_ok h' \<and>
      handle_remaining h' = drop n (handle_remaining h)"
    using h len by (auto simp: SequentialFileImpl_def sequential_skip_def handle_ok_def
        handle_remaining_def Let_def add.commute)
qed

section \<open>The environment\<close>

type_synonym addr = nat

record InMemoryEnv =
  me_heap :: "addr \<Rightarrow> FileState option"
  me_next :: addr
  me_file_map :: "(string \<times> addr option) list"

definition InMemoryEnv_new :: InMemoryEnv where
  "InMemoryEnv_new = \<lparr>me_heap = (\<lambda>_. None), me_next = 0, me_file_map = []\<rparr>"

text \<open>\<open>std::map\<close>: an association list in key order; a null pointer is \<open>None\<close>.\<close>

fun fm_put :: "string \<Rightarrow> addr option \<Rightarrow> (string \<times> addr option) list \<Rightarrow> (string \<times> addr option) list" where
  "fm_put k v [] = [(k, v)]"
| "fm_put k v ((k', v') # m) =
     (if k = k' then (k, v) # m
      else if k < k' then (k, v) # (k', v') # m
      else (k', v') # fm_put k v m)"

definition fm_erase :: "string \<Rightarrow> (string \<times> addr option) list \<Rightarrow> (string \<times> addr option) list" where
  "fm_erase k m = filter (\<lambda>(k', v). k' \<noteq> k) m"

text \<open>Dereferencing a pointer: undefined (\<open>None\<close>) on null and on freed objects.\<close>

definition deref :: "addr option \<Rightarrow> InMemoryEnv \<Rightarrow> (addr \<times> FileState) option" where
  "deref p env =
     (case p of
        None \<Rightarrow> None
      | Some a \<Rightarrow> (case me_heap env a of None \<Rightarrow> None | Some f \<Rightarrow> Some (a, f)))"

definition set_file :: "addr \<Rightarrow> FileState \<Rightarrow> InMemoryEnv \<Rightarrow> InMemoryEnv" where
  "set_file a f env = env\<lparr>me_heap := (me_heap env)(a \<mapsto> f)\<rparr>"

definition Ref :: "addr option \<Rightarrow> InMemoryEnv \<Rightarrow> InMemoryEnv option" where
  "Ref p env =
     map_option (\<lambda>(a, f). set_file a (f\<lparr>fs_refs := fs_refs f + 1\<rparr>) env) (deref p env)"

definition Unref :: "addr option \<Rightarrow> InMemoryEnv \<Rightarrow> InMemoryEnv option" where
  "Unref p env =
     map_option (\<lambda>(a, f).
       let refs = fs_refs f - 1
       in if refs \<le> 0 then env\<lparr>me_heap := (me_heap env)(a := None)\<rparr>
          else set_file a (f\<lparr>fs_refs := refs\<rparr>) env) (deref p env)"

definition new_FileState :: "InMemoryEnv \<Rightarrow> addr \<times> InMemoryEnv" where
  "new_FileState env =
     (let a = me_next env
      in (a, env\<lparr>me_heap := (me_heap env)(a \<mapsto> FileState_new), me_next := a + 1\<rparr>))"

text \<open>
  Opening a file returns a handle that holds a reference: \<open>SequentialFileImpl\<close>,
  \<open>RandomAccessFileImpl\<close> and \<open>WritableFileImpl\<close> take it in their constructors.
\<close>

type_synonym opened = "(Status \<times> addr option \<times> InMemoryEnv) option"

definition open_existing :: "string \<Rightarrow> InMemoryEnv \<Rightarrow> opened" where
  "open_existing fname env =
     (case map_of (me_file_map env) fname of
        None \<Rightarrow> Some (IOError fname ''File not found'', None, env)
      | Some p \<Rightarrow> map_option (\<lambda>env'. (OK, p, env')) (Ref p env))"

definition NewSequentialFile :: "string \<Rightarrow> InMemoryEnv \<Rightarrow> opened" where
  "NewSequentialFile = open_existing"

definition NewRandomAccessFile :: "string \<Rightarrow> InMemoryEnv \<Rightarrow> opened" where
  "NewRandomAccessFile = open_existing"

definition NewDirectIORandomAccessFile :: "string \<Rightarrow> InMemoryEnv \<Rightarrow> opened" where
  "NewDirectIORandomAccessFile = open_existing"

definition NewWritableFile :: "string \<Rightarrow> InMemoryEnv \<Rightarrow> opened" where
  "NewWritableFile fname env =
     (case map_of (me_file_map env) fname of
        None \<Rightarrow>
          (let (a, env) = new_FileState env
           in case Ref (Some a) env of
                None \<Rightarrow> None
              | Some env \<Rightarrow>
                  map_option (\<lambda>env. (OK, Some a, env))
                    (Ref (Some a) (env\<lparr>me_file_map := fm_put fname (Some a) (me_file_map env)\<rparr>)))
      | Some p \<Rightarrow>
          (case deref p env of
             None \<Rightarrow> None
           | Some (a, f) \<Rightarrow>
               map_option (\<lambda>env. (OK, Some a, env)) (Ref (Some a) (set_file a (Truncate f) env))))"

text \<open>\<open>FileState** sptr = &file_map_[fname]\<close> inserts a null entry for a new name.\<close>

definition NewAppendableFile :: "string \<Rightarrow> InMemoryEnv \<Rightarrow> opened" where
  "NewAppendableFile fname env =
     (let env = (if map_of (me_file_map env) fname = None
                 then env\<lparr>me_file_map := fm_put fname None (me_file_map env)\<rparr> else env)
      in case map_of (me_file_map env) fname of
           Some (Some a) \<Rightarrow> map_option (\<lambda>env. (OK, Some a, env)) (Ref (Some a) env)
         | _ \<Rightarrow>
             (let (a, env) = new_FileState env
              in case Ref (Some a) env of
                   None \<Rightarrow> None
                 | Some env \<Rightarrow> map_option (\<lambda>env. (OK, Some a, env)) (Ref (Some a) env)))"

definition FileExists :: "string \<Rightarrow> InMemoryEnv \<Rightarrow> bool" where
  "FileExists fname env \<longleftrightarrow> map_of (me_file_map env) fname \<noteq> None"

definition GetChildren :: "string \<Rightarrow> InMemoryEnv \<Rightarrow> string list" where
  "GetChildren dir env =
     map (\<lambda>(filename, p). drop (length dir + 1) filename)
       (filter (\<lambda>(filename, p).
          length filename \<ge> length dir + 1 \<and> filename ! length dir = CHR ''/'' \<and>
          take (length dir) filename = dir) (me_file_map env))"

definition RemoveFileInternal :: "string \<Rightarrow> InMemoryEnv \<Rightarrow> InMemoryEnv option" where
  "RemoveFileInternal fname env =
     (case map_of (me_file_map env) fname of
        None \<Rightarrow> Some env
      | Some p \<Rightarrow>
          map_option (\<lambda>env. env\<lparr>me_file_map := fm_erase fname (me_file_map env)\<rparr>) (Unref p env))"

definition RemoveFile :: "string \<Rightarrow> InMemoryEnv \<Rightarrow> (Status \<times> InMemoryEnv) option" where
  "RemoveFile fname env =
     (if map_of (me_file_map env) fname = None
      then Some (IOError fname ''File not found'', env)
      else map_option (\<lambda>env. (OK, env)) (RemoveFileInternal fname env))"

definition GetFileSize :: "string \<Rightarrow> InMemoryEnv \<Rightarrow> (Status \<times> nat) option" where
  "GetFileSize fname env =
     (case map_of (me_file_map env) fname of
        None \<Rightarrow> Some (IOError fname ''File not found'', 0)
      | Some p \<Rightarrow> map_option (\<lambda>(a, f). (OK, fs_size f)) (deref p env))"

definition RenameFile :: "string \<Rightarrow> string \<Rightarrow> InMemoryEnv \<Rightarrow> (Status \<times> InMemoryEnv) option" where
  "RenameFile src target env =
     (if map_of (me_file_map env) src = None
      then Some (IOError src ''File not found'', env)
      else
        map_option (\<lambda>env.
          let p = (case map_of (me_file_map env) src of None \<Rightarrow> None | Some p \<Rightarrow> p)
          in (OK, env\<lparr>me_file_map := fm_erase src (fm_put target p (me_file_map env))\<rparr>))
          (RemoveFileInternal target env))"

text \<open>Operations through a handle: writing, reading, and its destructor.\<close>

definition handle_append :: "addr \<Rightarrow> bytes \<Rightarrow> InMemoryEnv \<Rightarrow> (Status \<times> InMemoryEnv) option" where
  "handle_append a data env =
     map_option (\<lambda>(a, f). let (s, f') = FileState_Append data f in (s, set_file a f' env))
       (deref (Some a) env)"

definition handle_read :: "addr \<Rightarrow> nat \<Rightarrow> nat \<Rightarrow> InMemoryEnv \<Rightarrow> (Status \<times> bytes) option" where
  "handle_read a offset n env =
     map_option (\<lambda>(a, f). FileState_Read offset n f) (deref (Some a) env)"

definition handle_close :: "addr \<Rightarrow> InMemoryEnv \<Rightarrow> InMemoryEnv option" where
  "handle_close a env = Unref (Some a) env"

section \<open>Reference counts are exact and no dangling pointer is used\<close>

text \<open>The store agrees with a count of the references to each address.\<close>

fun slot_ok :: "FileState option \<Rightarrow> nat \<Rightarrow> bool" where
  "slot_ok None n \<longleftrightarrow> n = 0"
| "slot_ok (Some f) n \<longleftrightarrow> fs_refs f = int n \<and> 0 < n \<and> file_state_ok f"

definition store_ok :: "InMemoryEnv \<Rightarrow> (addr \<Rightarrow> nat) \<Rightarrow> bool" where
  "store_ok env cnt \<longleftrightarrow>
     (\<forall>a. slot_ok (me_heap env a) (cnt a)) \<and> (\<forall>a \<ge> me_next env. me_heap env a = None)"

lemma store_ok_deref:
  assumes "store_ok env cnt" "0 < cnt a"
  obtains f where "me_heap env a = Some f" "deref (Some a) env = Some (a, f)"
    "fs_refs f = int (cnt a)" "file_state_ok f" "a < me_next env"
proof -
  obtain f where f: "me_heap env a = Some f"
    using assms by (metis gr_implies_not0 option.exhaust slot_ok.simps(1) store_ok_def)
  moreover have "a < me_next env"
    using assms(1) f by (metis not_le option.distinct(1) store_ok_def)
  ultimately show thesis
    using assms(1) that [OF f] f by (metis (mono_tags) deref_def option.simps(5) slot_ok.simps(2) store_ok_def)
qed

lemma store_ok_set_file:
  assumes "store_ok env cnt" "fs_refs f = int n" "0 < n" "file_state_ok f" "a < me_next env"
  shows "store_ok (set_file a f env) (cnt(a := n))"
  using assms by (auto simp: store_ok_def set_file_def)

lemma Ref_ok:
  assumes "store_ok env cnt" "0 < cnt a"
  shows "\<exists>env'. Ref (Some a) env = Some env' \<and> store_ok env' (cnt(a := cnt a + 1)) \<and>
    me_file_map env' = me_file_map env"
proof -
  obtain f where "deref (Some a) env = Some (a, f)" "fs_refs f = int (cnt a)" "file_state_ok f"
    "a < me_next env" using assms by (rule store_ok_deref)
  then show ?thesis
    using assms store_ok_set_file [OF assms(1), of "f\<lparr>fs_refs := fs_refs f + 1\<rparr>" "cnt a + 1" a]
    by (simp add: Ref_def file_state_ok_def) (simp add: set_file_def)
qed

lemma Unref_ok:
  assumes "store_ok env cnt" "0 < cnt a"
  shows "\<exists>env'. Unref (Some a) env = Some env' \<and> store_ok env' (cnt(a := cnt a - 1)) \<and>
    me_file_map env' = me_file_map env \<and>
    (1 < cnt a \<longrightarrow> map_option file_contents (me_heap env' a) = map_option file_contents (me_heap env a)) \<and>
    (\<forall>b. b \<noteq> a \<longrightarrow> me_heap env' b = me_heap env b)"
proof -
  obtain f where f: "me_heap env a = Some f" "deref (Some a) env = Some (a, f)"
    "fs_refs f = int (cnt a)" "file_state_ok f" "a < me_next env"
    using assms by (rule store_ok_deref)
  show ?thesis
  proof (cases "cnt a = 1")
    case True
    then show ?thesis
      using f assms by (auto simp: Unref_def store_ok_def)
  next
    case False
    then have "store_ok (set_file a (f\<lparr>fs_refs := fs_refs f - 1\<rparr>) env) (cnt(a := cnt a - 1))"
      using f assms by (intro store_ok_set_file) (auto simp: file_state_ok_def)
    then show ?thesis
      using f False assms(2)
      by (auto simp: Unref_def Let_def set_file_def file_contents_def)
  qed
qed

lemma alloc_ok:
  assumes "store_ok env cnt" "new_FileState env = (a, env1)"
  shows "\<exists>env2. Ref (Some a) env1 = Some env2 \<and> store_ok env2 (cnt(a := 1)) \<and> cnt a = 0 \<and>
    me_file_map env2 = me_file_map env"
proof -
  have "me_heap env (me_next env) = None" using assms(1) by (simp add: store_ok_def)
  then have "cnt (me_next env) = 0" using assms(1) by (metis slot_ok.simps(1) store_ok_def)
  then show ?thesis
    using assms by (auto simp: new_FileState_def Let_def Ref_def deref_def set_file_def
        store_ok_def FileState_new_def file_state_ok_def kBlockSize_mem_def)
qed

text \<open>The references: map entries and open handles.\<close>

definition ref_count :: "(string \<times> addr option) list \<Rightarrow> addr list \<Rightarrow> addr \<Rightarrow> nat" where
  "ref_count m hs a = count_list (map snd m) (Some a) + count_list hs a"

definition env_ok :: "InMemoryEnv \<times> addr list \<Rightarrow> bool" where
  "env_ok st \<longleftrightarrow>
     (case st of (env, hs) \<Rightarrow>
        distinct (map fst (me_file_map env)) \<and> None \<notin> snd ` set (me_file_map env) \<and>
        store_ok env (ref_count (me_file_map env) hs))"

lemma fm_put_keys: "set (map fst (fm_put k v m)) = insert k (set (map fst m))"
  by (induction k v m rule: fm_put.induct) auto

lemma map_of_fm_put: "map_of (fm_put k v m) k' = (if k' = k then Some v else map_of m k')"
  by (induction k v m rule: fm_put.induct) auto

lemma fm_put_fresh:
  assumes "k \<notin> fst ` set m"
  shows "set (fm_put k v m) = insert (k, v) (set m)"
    "distinct (map fst (fm_put k v m)) = distinct (map fst m)"
    "count_list (map snd (fm_put k v m)) x = count_list (map snd m) x + (if v = x then 1 else 0)"
  using assms
  by (induction k v m rule: fm_put.induct) (auto simp flip: set_map simp: fm_put_keys)

lemma fm_erase_absent: "k \<notin> fst ` set m \<Longrightarrow> fm_erase k m = m"
  by (auto simp: fm_erase_def filter_id_conv image_iff)

lemma fm_erase_facts:
  "k \<notin> fst ` set (fm_erase k m)" "set (fm_erase k m) \<subseteq> set m"
  "map_of (fm_erase k m) k' = (if k' = k then None else map_of m k')"
  by (auto simp: fm_erase_def) (induction m; auto)+

lemma fm_erase_distinct: "distinct (map fst m) \<Longrightarrow> distinct (map fst (fm_erase k m))"
  by (simp add: fm_erase_def distinct_map_filter)

lemma fm_erase_count:
  "distinct (map fst m) \<Longrightarrow> map_of m k = Some p \<Longrightarrow>
   count_list (map snd m) x = count_list (map snd (fm_erase k m)) x + (if p = x then 1 else 0)"
proof (induction m)
  case (Cons kv m)
  obtain k' v where kv: "kv = (k', v)" by (cases kv)
  show ?case
  proof (cases "k' = k")
    case True
    then have "k \<notin> fst ` set m" using Cons.prems(1) kv by simp
    then show ?thesis using True Cons.prems(2) kv fm_erase_absent [of k m]
      by (simp add: fm_erase_def)
  qed (use Cons kv in \<open>auto simp: fm_erase_def\<close>)
qed simp

lemma ref_count_entry: "map_of m k = Some (Some a) \<Longrightarrow> 0 < ref_count m hs a"
  by (auto simp: ref_count_def count_list_0_iff simp flip: neq0_conv dest!: map_of_SomeD)
    (metis image_iff snd_conv)

lemma ref_count_handle: "a \<in> set hs \<Longrightarrow> 0 < ref_count m hs a"
  by (auto simp: ref_count_def count_list_0_iff simp flip: neq0_conv)

text \<open>The calls a client makes; handles are numbered by their position in the list of open ones.\<close>

datatype env_op =
    OpenRead string | OpenWrite string | OpenAppend string
  | Remove string | Rename string string | SizeOf string
  | AppendTo nat bytes | ReadFrom nat nat nat | Close nat

definition opened_handle :: "addr list \<Rightarrow> opened \<Rightarrow> (Status \<times> InMemoryEnv \<times> addr list) option" where
  "opened_handle hs r =
     map_option (\<lambda>(s, p, env). (s, env, case p of None \<Rightarrow> hs | Some a \<Rightarrow> a # hs)) r"

fun run_op :: "env_op \<Rightarrow> InMemoryEnv \<times> addr list \<Rightarrow> (Status \<times> InMemoryEnv \<times> addr list) option" where
  "run_op (OpenRead fname) (env, hs) = opened_handle hs (NewSequentialFile fname env)"
| "run_op (OpenWrite fname) (env, hs) = opened_handle hs (NewWritableFile fname env)"
| "run_op (OpenAppend fname) (env, hs) = opened_handle hs (NewAppendableFile fname env)"
| "run_op (Remove fname) (env, hs) = map_option (\<lambda>(s, env). (s, env, hs)) (RemoveFile fname env)"
| "run_op (Rename src target) (env, hs) =
     map_option (\<lambda>(s, env). (s, env, hs)) (RenameFile src target env)"
| "run_op (SizeOf fname) (env, hs) = map_option (\<lambda>(s, n). (s, env, hs)) (GetFileSize fname env)"
| "run_op (AppendTo i data) (env, hs) =
     map_option (\<lambda>(s, env). (s, env, hs)) (handle_append (hs ! i) data env)"
| "run_op (ReadFrom i offset n) (env, hs) =
     map_option (\<lambda>(s, r). (s, env, hs)) (handle_read (hs ! i) offset n env)"
| "run_op (Close i) (env, hs) =
     map_option (\<lambda>env. (OK, env, take i hs @ drop (Suc i) hs)) (handle_close (hs ! i) env)"

text \<open>
  The calls that are safe: handles are open, a file is not renamed to itself, and only existing
  files are opened for appending (see the findings below for the other two).
\<close>

fun op_safe :: "env_op \<Rightarrow> InMemoryEnv \<times> addr list \<Rightarrow> bool" where
  "op_safe (OpenAppend fname) (env, hs) \<longleftrightarrow> FileExists fname env"
| "op_safe (Rename src target) (env, hs) \<longleftrightarrow> src \<noteq> target"
| "op_safe (AppendTo i data) (env, hs) \<longleftrightarrow> i < length hs"
| "op_safe (ReadFrom i offset n) (env, hs) \<longleftrightarrow> i < length hs"
| "op_safe (Close i) (env, hs) \<longleftrightarrow> i < length hs"
| "op_safe _ st \<longleftrightarrow> True"

lemma env_okD:
  assumes "env_ok (env, hs)"
  shows "distinct (map fst (me_file_map env))" "None \<notin> snd ` set (me_file_map env)"
    "store_ok env (ref_count (me_file_map env) hs)"
  using assms by (simp_all add: env_ok_def)

lemma env_ok_entry:
  assumes "env_ok (env, hs)" "map_of (me_file_map env) fname = Some p"
  obtains a where "p = Some a" "0 < ref_count (me_file_map env) hs a"
proof -
  have "p \<noteq> None" using assms env_okD(2) [OF assms(1)] by (force dest: map_of_SomeD)
  then show thesis using that assms(2) ref_count_entry by blast
qed

lemma Ref_open:
  assumes "store_ok env (ref_count m hs)" "0 < ref_count m hs a"
  obtains env' where "Ref (Some a) env = Some env'" "store_ok env' (ref_count m (a # hs))"
    "me_file_map env' = me_file_map env"
proof -
  have "(ref_count m hs)(a := ref_count m hs a + 1) = ref_count m (a # hs)"
    by (auto simp: ref_count_def)
  then show thesis using Ref_ok [OF assms] that by auto
qed

lemma open_existing_ok:
  assumes ok: "env_ok (env, hs)"
  shows "\<exists>s st'. opened_handle hs (open_existing fname env) = Some (s, st') \<and> env_ok st'"
proof (cases "map_of (me_file_map env) fname")
  case None
  then show ?thesis using ok by (simp add: open_existing_def opened_handle_def)
next
  case (Some p)
  obtain a where p: "p = Some a" "0 < ref_count (me_file_map env) hs a"
    using ok Some by (rule env_ok_entry)
  obtain env' where "Ref (Some a) env = Some env'" "me_file_map env' = me_file_map env"
    "store_ok env' (ref_count (me_file_map env) (a # hs))"
    using Ref_open [OF env_okD(3) [OF ok] p(2)] by blast
  then show ?thesis
    using Some p ok by (simp add: open_existing_def opened_handle_def env_ok_def)
qed

lemma NewWritableFile_ok:
  assumes ok: "env_ok (env, hs)"
  shows "\<exists>s st'. opened_handle hs (NewWritableFile fname env) = Some (s, st') \<and> env_ok st'"
proof (cases "map_of (me_file_map env) fname")
  case None
  let ?m = "me_file_map env"
  obtain a env1 where new: "new_FileState env = (a, env1)" by fastforce
  obtain env2 where env2: "Ref (Some a) env1 = Some env2" "store_ok env2 ((ref_count ?m hs)(a := 1))"
    "ref_count ?m hs a = 0" "me_file_map env2 = ?m"
    using alloc_ok [OF env_okD(3) [OF ok] new] by blast
  let ?env3 = "env2\<lparr>me_file_map := fm_put fname (Some a) ?m\<rparr>"
  have fresh: "fname \<notin> fst ` set ?m" using None by (simp add: map_of_eq_None_iff)
  have cnt: "(ref_count ?m hs)(a := 1) = ref_count (fm_put fname (Some a) ?m) hs"
    using env2(3) by (auto simp: ref_count_def fm_put_fresh [OF fresh])
  have "store_ok ?env3 (ref_count (fm_put fname (Some a) ?m) hs)"
    using env2(2) unfolding cnt by (simp add: store_ok_def)
  moreover have "0 < ref_count (fm_put fname (Some a) ?m) hs a"
    by (simp add: ref_count_def fm_put_fresh(3) [OF fresh])
  ultimately obtain env4 where env4: "Ref (Some a) ?env3 = Some env4"
    "store_ok env4 (ref_count (fm_put fname (Some a) ?m) (a # hs))"
    "me_file_map env4 = fm_put fname (Some a) ?m"
    by (rule Ref_open) simp
  have "env_ok (env4, a # hs)"
    using env4 env_okD(1,2) [OF ok] fm_put_fresh(1,2) [OF fresh] by (auto simp: env_ok_def)
  then show ?thesis
    using None new env2 env4(1) by (simp add: NewWritableFile_def opened_handle_def)
next
  case (Some p)
  obtain a where p: "p = Some a" "0 < ref_count (me_file_map env) hs a"
    using ok Some by (rule env_ok_entry)
  obtain f where f: "deref (Some a) env = Some (a, f)" "fs_refs f = int (ref_count (me_file_map env) hs a)"
    "a < me_next env" using env_okD(3) [OF ok] p(2) by (rule store_ok_deref)
  have "store_ok (set_file a (Truncate f) env) (ref_count (me_file_map env) hs)"
    using store_ok_set_file [OF env_okD(3) [OF ok] _ p(2), of "Truncate f" a] f
    by (simp add: Truncate_def file_state_ok_def kBlockSize_mem_def)
  then obtain env' where "Ref (Some a) (set_file a (Truncate f) env) = Some env'"
    "me_file_map env' = me_file_map (set_file a (Truncate f) env)"
    "store_ok env' (ref_count (me_file_map env) (a # hs))"
    using p(2) by (rule Ref_open)
  moreover have "me_file_map (set_file a (Truncate f) env) = me_file_map env"
    by (simp add: set_file_def)
  ultimately show ?thesis
    using Some p(1) f(1) ok by (simp add: NewWritableFile_def opened_handle_def env_ok_def)
qed

lemma RemoveFileInternal_ok:
  assumes ok: "env_ok (env, hs)"
  shows "\<exists>env'. RemoveFileInternal fname env = Some env' \<and> env_ok (env', hs) \<and>
    me_file_map env' = fm_erase fname (me_file_map env) \<and>
    (\<forall>a. 0 < ref_count (fm_erase fname (me_file_map env)) hs a \<longrightarrow>
       map_option file_contents (me_heap env' a) = map_option file_contents (me_heap env a))"
proof (cases "map_of (me_file_map env) fname")
  case None
  then have "fm_erase fname (me_file_map env) = me_file_map env"
    by (intro fm_erase_absent) (simp add: map_of_eq_None_iff)
  then show ?thesis using ok None by (simp add: RemoveFileInternal_def)
next
  case (Some p)
  let ?m = "me_file_map env"
  obtain a where p: "p = Some a" "0 < ref_count ?m hs a" using ok Some by (rule env_ok_entry)
  have cnt: "ref_count ?m hs b = ref_count (fm_erase fname ?m) hs b + (if b = a then 1 else 0)" for b
    using fm_erase_count [OF env_okD(1) [OF ok] Some] p(1) by (auto simp: ref_count_def)
  then have "(ref_count ?m hs)(a := ref_count ?m hs a - 1) = ref_count (fm_erase fname ?m) hs"
    by auto
  with Unref_ok [OF env_okD(3) [OF ok] p(2)] obtain env' where env':
    "Unref (Some a) env = Some env'" "store_ok env' (ref_count (fm_erase fname ?m) hs)"
    "me_file_map env' = ?m" "\<forall>b. b \<noteq> a \<longrightarrow> me_heap env' b = me_heap env b"
    "1 < ref_count ?m hs a \<longrightarrow> map_option file_contents (me_heap env' a) = map_option file_contents (me_heap env a)"
    by auto
  have "1 < ref_count ?m hs a" if "0 < ref_count (fm_erase fname ?m) hs a"
    using that cnt [of a] by simp
  then have same: "\<forall>b. 0 < ref_count (fm_erase fname ?m) hs b \<longrightarrow> map_option file_contents (me_heap env' b) = map_option file_contents (me_heap env b)"
    using env'(4,5) by metis
  let ?env' = "env'\<lparr>me_file_map := fm_erase fname ?m\<rparr>"
  have "env_ok (?env', hs)"
    using env'(2) env_okD(1,2) [OF ok] fm_erase_facts(2) [of fname ?m]
    by (auto simp: env_ok_def fm_erase_distinct store_ok_def)
  then show ?thesis
    using Some p(1) env'(1,3) same by (simp add: RemoveFileInternal_def)
qed

lemma RenameFile_ok:
  assumes ok: "env_ok (env, hs)" and "src \<noteq> target"
  shows "\<exists>s env'. RenameFile src target env = Some (s, env') \<and> env_ok (env', hs)"
proof (cases "map_of (me_file_map env) src")
  case (Some p)
  obtain env1 where env1: "RemoveFileInternal target env = Some env1" "env_ok (env1, hs)"
    "me_file_map env1 = fm_erase target (me_file_map env)"
    using RemoveFileInternal_ok [OF ok] by blast
  let ?m = "me_file_map env1" and ?m' = "fm_put target p (me_file_map env1)"
  have src: "map_of ?m src = Some p" and fresh: "target \<notin> fst ` set ?m"
    using Some assms(2) by (simp_all add: env1(3) fm_erase_facts)
  have d: "distinct (map fst ?m')" using fm_put_fresh(2) [OF fresh] env_okD(1) [OF env1(2)] by simp
  have "map_of ?m' src = Some p" using src assms(2) by (simp add: map_of_fm_put)
  then have "ref_count (fm_erase src ?m') hs a = ref_count ?m hs a" for a
    using fm_erase_count [OF d, of src p "Some a"] fm_put_fresh(3) [OF fresh, of p "Some a"]
    unfolding ref_count_def by linarith
  then have "ref_count (fm_erase src ?m') hs = ref_count ?m hs" by blast
  moreover have "None \<notin> snd ` set (fm_erase src ?m')"
  proof -
    have "p \<in> snd ` set ?m" using map_of_SomeD [OF src] by (metis image_eqI snd_conv)
    then have "snd ` set ?m' \<subseteq> snd ` set ?m" by (auto simp: fm_put_fresh(1) [OF fresh])
    then show ?thesis using fm_erase_facts(2) [of src ?m'] env_okD(2) [OF env1(2)] by blast
  qed
  ultimately have "env_ok (env1\<lparr>me_file_map := fm_erase src ?m'\<rparr>, hs)"
    using env_okD(3) [OF env1(2)] d by (simp add: env_ok_def fm_erase_distinct store_ok_def)
  then show ?thesis using Some src env1(1) by (simp add: RenameFile_def)
qed (use ok in \<open>simp add: RenameFile_def\<close>)

lemma handle_ok_deref:
  assumes "env_ok (env, hs)" "i < length hs"
  obtains f where "deref (Some (hs ! i)) env = Some (hs ! i, f)" "file_state_ok f"
    "fs_refs f = int (ref_count (me_file_map env) hs (hs ! i))" "hs ! i < me_next env"
    "0 < ref_count (me_file_map env) hs (hs ! i)"
  using store_ok_deref [OF env_okD(3) [OF assms(1)]] ref_count_handle [OF nth_mem [OF assms(2)]]
  by metis

lemma Append_loop_refs: "fs_refs (Append_loop src f) = fs_refs f"
proof (induction src f rule: Append_loop.induct)
  case (1 src f)
  then show ?case
    by (subst Append_loop.simps) (auto simp: append_chunk_def Let_def)
qed

lemma handle_append_ok:
  assumes ok: "env_ok (env, hs)" and i: "i < length hs"
  shows "\<exists>s env'. handle_append (hs ! i) data env = Some (s, env') \<and> env_ok (env', hs)"
proof -
  obtain f where f: "deref (Some (hs ! i)) env = Some (hs ! i, f)" "file_state_ok f"
    "fs_refs f = int (ref_count (me_file_map env) hs (hs ! i))" "hs ! i < me_next env"
    "0 < ref_count (me_file_map env) hs (hs ! i)"
    using ok i by (rule handle_ok_deref)
  have "store_ok (set_file (hs ! i) (Append_loop data f) env) (ref_count (me_file_map env) hs)"
    using store_ok_set_file [OF env_okD(3) [OF ok], of "Append_loop data f" _ "hs ! i"] f
    by (simp add: Append_loop_refs Append_loop_ok)
  then show ?thesis
    using f(1) ok by (simp add: handle_append_def FileState_Append_def env_ok_def set_file_def)
qed

lemma handle_close_ok:
  assumes ok: "env_ok (env, hs)" and i: "i < length hs"
  shows "\<exists>env'. handle_close (hs ! i) env = Some env' \<and> env_ok (env', take i hs @ drop (Suc i) hs)"
proof -
  let ?m = "me_file_map env"
  have hs: "hs = take i hs @ hs ! i # drop (Suc i) hs" using i by (simp add: id_take_nth_drop)
  have "ref_count ?m hs b = ref_count ?m (take i hs @ drop (Suc i) hs) b + (if b = hs ! i then 1 else 0)" for b
    unfolding ref_count_def by (subst (1) hs) simp
  then have "(ref_count ?m hs)(hs ! i := ref_count ?m hs (hs ! i) - 1) =
      ref_count ?m (take i hs @ drop (Suc i) hs)" by auto
  then show ?thesis
    using Unref_ok [OF env_okD(3) [OF ok] ref_count_handle [OF nth_mem [OF i]]] ok
    by (fastforce simp: handle_close_def env_ok_def)
qed

lemma GetFileSize_ok:
  assumes ok: "env_ok (env, hs)"
  shows "\<exists>s n. GetFileSize fname env = Some (s, n)"
proof (cases "map_of (me_file_map env) fname")
  case (Some p)
  then obtain a where "p = Some a" "0 < ref_count (me_file_map env) hs a"
    using ok env_ok_entry by blast
  then obtain f where "deref p env = Some (a, f)" using store_ok_deref [OF env_okD(3) [OF ok]] by metis
  then show ?thesis using Some by (simp add: GetFileSize_def)
qed (simp add: GetFileSize_def)

lemma NewAppendableFile_existing:
  assumes "env_ok (env, hs)" "FileExists fname env"
  shows "NewAppendableFile fname env = open_existing fname env"
proof -
  obtain p where p: "map_of (me_file_map env) fname = Some p"
    using assms(2) by (auto simp: FileExists_def)
  then obtain a where "p = Some a" using assms(1) env_ok_entry by blast
  then show ?thesis using p by (simp add: NewAppendableFile_def open_existing_def)
qed

lemma run_op_ok:
  assumes ok: "env_ok st" and safe: "op_safe op st"
  shows "\<exists>s st'. run_op op st = Some (s, st') \<and> env_ok st'"
proof -
  obtain env hs where st: "st = (env, hs)" by (cases st)
  note ok = ok [unfolded st]
  show ?thesis
  proof (cases op)
    case (OpenRead fname)
    then show ?thesis using open_existing_ok [OF ok] by (simp add: st NewSequentialFile_def)
  next
    case (OpenWrite fname)
    then show ?thesis using NewWritableFile_ok [OF ok] by (simp add: st)
  next
    case (OpenAppend fname)
    then show ?thesis
      using open_existing_ok [OF ok] NewAppendableFile_existing [OF ok] safe by (simp add: st)
  next
    case (Remove fname)
    then show ?thesis
      using RemoveFileInternal_ok [OF ok, of fname] ok by (auto simp: st RemoveFile_def)
  next
    case (Rename src target)
    then show ?thesis using RenameFile_ok [OF ok] safe by (fastforce simp: st)
  next
    case (SizeOf fname)
    then show ?thesis using GetFileSize_ok [OF ok, of fname] ok by (auto simp: st)
  next
    case (AppendTo i data)
    then show ?thesis using handle_append_ok [OF ok] safe by (fastforce simp: st)
  next
    case (ReadFrom i offset n)
    then obtain f where "deref (Some (hs ! i)) env = Some (hs ! i, f)"
      using handle_ok_deref [OF ok, of i] safe by (auto simp: st)
    then show ?thesis
      using ok ReadFrom by (cases "FileState_Read offset n f") (simp add: st handle_read_def)
  next
    case (Close i)
    then show ?thesis using handle_close_ok [OF ok] safe by (fastforce simp: st)
  qed
qed

text \<open>The states reachable from an empty environment by safe calls.\<close>

inductive env_reachable :: "InMemoryEnv \<times> addr list \<Rightarrow> bool" where
  start: "env_reachable (InMemoryEnv_new, [])"
| step: "env_reachable st \<Longrightarrow> op_safe op st \<Longrightarrow> run_op op st = Some (s, st') \<Longrightarrow> env_reachable st'"

lemma env_reachable_ok: "env_reachable st \<Longrightarrow> env_ok st"
proof (induction rule: env_reachable.induct)
  case start
  show ?case
    by (simp add: env_ok_def InMemoryEnv_new_def store_ok_def ref_count_def)
next
  case (step st op s st')
  then show ?case using run_op_ok [of st op] by auto
qed

section \<open>Properties\<close>

text \<open>
  C36. Bytes appended to an in-memory file are read back: the file's contents are the
  concatenation of everything appended, however the appends straddle the 8192-byte blocks, and a
  read at an offset inside the file returns exactly the requested range cut at the end of file.
\<close>

theorem mem_file_append_read:
  assumes "file_state_ok f" "offset \<le> fs_size f + length data"
  shows "(case FileState_Append data f of (s, f') \<Rightarrow>
     s = OK \<and> file_state_ok f' \<and> fs_size f' = fs_size f + length data \<and>
     FileState_Read offset n f' = (OK, take n (drop offset (file_contents f @ data))))"
proof -
  let ?f' = "Append_loop data f"
  have "file_state_ok ?f'" "file_contents ?f' = file_contents f @ data"
    using Append_loop_ok [OF assms(1)] by auto
  moreover from this have "fs_size ?f' = fs_size f + length data"
    using length_file_contents assms(1) by (metis length_append)
  ultimately show ?thesis
    using assms(2) by (simp add: FileState_Append_def FileState_Read_ok)
qed

theorem mem_file_append_read_witness:
  "file_state_ok FileState_new \<and>
   FileState_Read 1 5 (snd (FileState_Append [1, 2, 3] FileState_new)) = (OK, [2, 3])"
proof -
  have ok: "file_state_ok FileState_new"
    by (simp add: file_state_ok_def FileState_new_def kBlockSize_mem_def)
  moreover have "file_contents FileState_new = []"
    by (simp add: file_contents_def FileState_new_def)
  ultimately show ?thesis
    using mem_file_append_read [of FileState_new 1 "[1, 2, 3]" 5]
    by (simp add: FileState_Append_def FileState_new_def)
qed

text \<open>
  C19. The reference counting of the in-memory environment is sound: in every state reachable
  through safe calls the count stored in a file is the number of directory entries and open handles
  that refer to it, and no safe call dereferences a null or freed file. The counts are unbounded integers.
\<close>

theorem mem_env_refcounts:
  assumes "env_reachable (env, hs)"
  shows "(me_heap env a = None \<longrightarrow> ref_count (me_file_map env) hs a = 0) \<and>
    (me_heap env a = Some f \<longrightarrow> fs_refs f = int (ref_count (me_file_map env) hs a) \<and> 0 < fs_refs f) \<and>
    (op_safe op (env, hs) \<longrightarrow> run_op op (env, hs) \<noteq> None)"
proof -
  have ok: "env_ok (env, hs)" using assms by (rule env_reachable_ok)
  have "slot_ok (me_heap env a) (ref_count (me_file_map env) hs a)"
    using env_okD(3) [OF ok] by (simp add: store_ok_def)
  then show ?thesis using run_op_ok [OF ok, of op] by auto
qed

theorem mem_env_refcounts_witness:
  "env_reachable (InMemoryEnv_new, []) \<and> run_op (OpenWrite ''f'') (InMemoryEnv_new, []) \<noteq> None"
  using mem_env_refcounts [OF env_reachable.start, of _ _ "OpenWrite ''f''"] env_reachable.start
  by simp

text \<open>
  Removing a file does not disturb its open handles: whatever name is removed, every open
  handle still reads the same contents, while the name is gone from the directory.
\<close>

theorem mem_env_remove_keeps_open:
  assumes "env_reachable (env, hs)" "a \<in> set hs" "RemoveFile fname env = Some (s, env')"
  shows "handle_read a offset n env' = handle_read a offset n env \<and> \<not> FileExists fname env'"
proof (cases "map_of (me_file_map env) fname = None")
  case True
  then show ?thesis using assms(3) by (simp add: RemoveFile_def FileExists_def)
next
  case False
  have ok: "env_ok (env, hs)" using assms(1) by (rule env_reachable_ok)
  from False assms(3) RemoveFileInternal_ok [OF ok, of fname]
  have ok': "env_ok (env', hs)" and m: "me_file_map env' = fm_erase fname (me_file_map env)"
    and same: "map_option file_contents (me_heap env' a) = map_option file_contents (me_heap env a)"
    using ref_count_handle [OF assms(2)] by (auto simp: RemoveFile_def)
  obtain f f' where f: "me_heap env a = Some f" "deref (Some a) env = Some (a, f)" "file_state_ok f"
      "me_heap env' a = Some f'" "deref (Some a) env' = Some (a, f')" "file_state_ok f'"
    using store_ok_deref [OF env_okD(3) [OF ok] ref_count_handle [OF assms(2)]]
      store_ok_deref [OF env_okD(3) [OF ok'] ref_count_handle [OF assms(2)]] by metis
  have "FileState_Read offset n f' = FileState_Read offset n f"
    using same f by (intro FileState_Read_cong) simp_all
  then show ?thesis using f m by (simp add: handle_read_def FileExists_def fm_erase_facts(3))
qed

text \<open>
  Opening a missing file for appending corrupts the directory: the name then exists but its
  entry is a null pointer, so asking for its size dereferences null; renaming a file to itself
  deletes it.
\<close>

theorem mem_env_append_null:
  "(FileExists fname env \<or>
      (case NewAppendableFile fname env of
         None \<Rightarrow> False
       | Some (s, p, env') \<Rightarrow> s = OK \<and> FileExists fname env' \<and> GetFileSize fname env' = None)) \<and>
   (case RenameFile g g env of
      None \<Rightarrow> True
    | Some (s, env') \<Rightarrow> \<not> FileExists g env')"
proof -
  have "FileExists fname env \<or>
      (case NewAppendableFile fname env of
         None \<Rightarrow> False
       | Some (s, p, env') \<Rightarrow> s = OK \<and> FileExists fname env' \<and> GetFileSize fname env' = None)"
    by (auto simp: NewAppendableFile_def FileExists_def GetFileSize_def map_of_fm_put Let_def
        new_FileState_def Ref_def deref_def set_file_def)
  moreover have "case RenameFile g g env of None \<Rightarrow> True | Some (s, env') \<Rightarrow> \<not> FileExists g env'"
    by (auto simp: RenameFile_def FileExists_def fm_erase_facts(3) Let_def split: option.splits)
  ultimately show ?thesis ..
qed

end
