(* ===== verification/Logging.thy ===== *)
theory Logging
  imports Prelude "HOL-Library.Char_ord"
begin

text \<open>
  \<open>util/logging.cc\<close>: printing and parsing of decimal numbers, and the escaped form of keys.
  Characters are HOL's 8-bit characters; the parsed value is a 64-bit word whose overflow the code
  checks before every multiplication.
\<close>

section \<open>Definitions\<close>

definition digit_char :: "nat \<Rightarrow> char" where
  "digit_char d = char_of (48 + d)"

text \<open>\<open>snprintf("%llu")\<close>.\<close>

fun decimal :: "nat \<Rightarrow> string" where
  "decimal n = (if n < 10 then [digit_char n] else decimal (n div 10) @ [digit_char (n mod 10)])"

declare decimal.simps [simp del]

definition AppendNumberTo :: "string \<Rightarrow> u64 \<Rightarrow> string" where
  "AppendNumberTo str num = str @ decimal (unat num)"

definition NumberToString :: "u64 \<Rightarrow> string" where
  "NumberToString num = AppendNumberTo [] num"

definition hex_char :: "nat \<Rightarrow> char" where
  "hex_char d = (if d < 10 then char_of (48 + d) else char_of (87 + d))"

definition escaped_char :: "byte \<Rightarrow> string" where
  "escaped_char c =
     (if 0x20 \<le> c \<and> c \<le> 0x7e then [char_of (unat c)]
      else [CHR 0x5C, CHR ''x'', hex_char (unat c div 16), hex_char (unat c mod 16)])"

definition AppendEscapedStringTo :: "string \<Rightarrow> bytes \<Rightarrow> string" where
  "AppendEscapedStringTo str val = str @ concat (map escaped_char val)"

definition EscapeString :: "bytes \<Rightarrow> string" where
  "EscapeString val = AppendEscapedStringTo [] val"

definition is_digit :: "char \<Rightarrow> bool" where
  "is_digit ch \<longleftrightarrow> \<not> (ch < CHR ''0'' \<or> ch > CHR ''9'')"

definition digit_value :: "char \<Rightarrow> nat" where
  "digit_value ch = of_char ch - 48"

definition kMaxUint64 :: nat where
  "kMaxUint64 = 2 ^ 64 - 1"

text \<open>The loop of \<open>ConsumeDecimalNumber\<close>: \<open>None\<close> on overflow, else the value and the digits read.\<close>

fun consume_digits :: "u64 \<Rightarrow> nat \<Rightarrow> string \<Rightarrow> (u64 \<times> nat) option" where
  "consume_digits val n [] = Some (val, n)"
| "consume_digits val n (ch # rest) =
     (if ch < CHR ''0'' \<or> ch > CHR ''9'' then Some (val, n)
      else if unat val > kMaxUint64 div 10 \<or>
          unat val = kMaxUint64 div 10 \<and> ch > digit_char (kMaxUint64 mod 10) then None
      else consume_digits (val * 10 + of_nat (digit_value ch)) (n + 1) rest)"

text \<open>The result, the rest of the input, and the number (\<open>val\<close> is what \<open>*val\<close> held before).\<close>

definition ConsumeDecimalNumber :: "string \<Rightarrow> u64 \<Rightarrow> bool \<times> string \<times> u64" where
  "ConsumeDecimalNumber input val =
     (case consume_digits 0 0 input of
        None \<Rightarrow> (False, input, val)
      | Some (v, digits_consumed) \<Rightarrow> (digits_consumed \<noteq> 0, drop digits_consumed input, v))"

section \<open>Decimal numbers\<close>

definition digits_value :: "nat \<Rightarrow> string \<Rightarrow> nat" where
  "digits_value v ds = foldl (\<lambda>v ch. v * 10 + digit_value ch) v ds"

lemma digit_char_facts:
  assumes "d < 10"
  shows "is_digit (digit_char d)" "digit_value (digit_char d) = d"
  using assms
  by (simp_all add: is_digit_def digit_value_def digit_char_def less_char_def)

lemma is_digitD:
  assumes "is_digit ch"
  shows "digit_value ch < 10" "ch = digit_char (digit_value ch)"
proof -
  have b: "48 \<le> (of_char ch :: nat)" "(of_char ch :: nat) \<le> 57"
    using assms by (simp_all add: is_digit_def less_char_def not_less)
  then show "digit_value ch < 10" by (simp add: digit_value_def)
  show "ch = digit_char (digit_value ch)" using b by (simp add: digit_value_def digit_char_def)
qed

lemma decimal_digits: "list_all is_digit (decimal n)" "decimal n \<noteq> []"
  by (induction n rule: decimal.induct) (auto simp: decimal.simps digit_char_facts)

lemma digits_value_append: "digits_value v (a @ b) = digits_value (digits_value v a) b"
  by (simp add: digits_value_def)

lemma digits_value_decimal: "digits_value 0 (decimal n) = n"
proof (induction n rule: decimal.induct)
  case (1 n)
  have one: "digits_value v [ch] = v * 10 + digit_value ch" for v ch by (simp add: digits_value_def)
  show ?case
    using 1 by (subst decimal.simps) (simp add: digits_value_append one digit_char_facts)
qed

lemma digits_value_ge: "v \<le> digits_value v ds"
proof (induction ds arbitrary: v)
  case (Cons ch ds)
  then have "v * 10 + digit_value ch \<le> digits_value v (ch # ds)" by (simp add: digits_value_def)
  then show ?case by linarith
qed (simp add: digits_value_def)

lemma overflow_check:
  assumes "d < 10" "v < 2 ^ 64"
  shows "v > kMaxUint64 div 10 \<or> v = kMaxUint64 div 10 \<and> digit_char d > digit_char (kMaxUint64 mod 10) \<longleftrightarrow>
    2 ^ 64 \<le> v * 10 + d"
proof -
  have "digit_char d > digit_char 5 \<longleftrightarrow> d > 5"
    using assms(1) by (simp add: digit_char_def less_char_def)
  then show ?thesis
    using assms(1) by (cases v "1844674407370955161 :: nat" rule: linorder_cases)
      (auto simp: kMaxUint64_def)
qed

lemma consume_digits_eq:
  assumes "list_all is_digit ds" "rest = [] \<or> \<not> is_digit (hd rest)"
  shows "consume_digits v n (ds @ rest) =
    (let w = digits_value (unat v) ds in if w < 2 ^ 64 then Some (of_nat w, n + length ds) else None)"
  using assms(1)
proof (induction ds arbitrary: v n)
  case Nil
  have "unat v < 2 ^ 64" using unsigned_less [of v, where 'a = nat] by simp
  then show ?case
    using assms(2) by (cases rest) (auto simp: digits_value_def is_digit_def Let_def)
next
  case (Cons ch ds)
  let ?d = "digit_value ch"
  have ch: "?d < 10" "ch = digit_char ?d" "is_digit ch" using Cons.prems is_digitD [of ch] by auto
  have v: "unat v < 2 ^ 64" using unsigned_less [of v, where 'a = nat] by simp
  have w: "digits_value (unat v) (ch # ds) = digits_value (unat v * 10 + ?d) ds"
    by (simp add: digits_value_def)
  note check = overflow_check [OF ch(1) v, folded ch(2)]
  show ?case
  proof (cases "2 ^ 64 \<le> unat v * 10 + ?d")
    case True
    then have "\<not> digits_value (unat v) (ch # ds) < 2 ^ 64"
      using digits_value_ge [of "unat v * 10 + ?d" ds] unfolding w by linarith
    then show ?thesis using True check ch(3) by (simp add: is_digit_def Let_def)
  next
    case False
    then have "unat (v * 10 + of_nat ?d) = unat v * 10 + ?d"
      by (simp add: unat_word_ariths unat_of_nat)
    then show ?thesis
      using False check ch(3) Cons by (auto simp: is_digit_def w Let_def)
  qed
qed

section \<open>Properties\<close>

text \<open>
  Decimal numbers round-trip and overflow is detected exactly: on a non-empty run of digits
  followed by a non-digit, \<open>ConsumeDecimalNumber\<close> consumes exactly the digits when their value fits
  in 64 bits and fails, leaving its arguments alone, when it does not; in particular it reads back
  what \<open>NumberToString\<close> printed.
\<close>

theorem consume_decimal:
  assumes "list_all is_digit ds" "ds \<noteq> []" "rest = [] \<or> \<not> is_digit (hd rest)"
  shows "ConsumeDecimalNumber (ds @ rest) val =
      (if digits_value 0 ds < 2 ^ 64 then (True, rest, of_nat (digits_value 0 ds))
       else (False, ds @ rest, val)) \<and>
    ConsumeDecimalNumber (NumberToString num @ rest) val = (True, rest, num)"
proof -
  have "unat num < 2 ^ 64" using unsigned_less [of num, where 'a = nat] by simp
  then show ?thesis
    using assms decimal_digits [of "unat num"]
    by (simp add: ConsumeDecimalNumber_def consume_digits_eq NumberToString_def AppendNumberTo_def
        digits_value_decimal Let_def)
qed

end
