(* ===== verification/Log.thy ===== *)
theory Log
  imports Crc32c MemEnv Logging
begin

text \<open>
  \<open>db/log_format.h\<close>, \<open>db/log_writer.cc\<close> and \<open>db/log_reader.cc\<close>: the write-ahead log. A record is
  cut into fragments that never cross a 32768-byte block, each with a checksummed header; the reader
  reassembles them, resynchronises after corruption and reports what it drops. The files are the
  interface records of \<open>Status\<close>, so a failing \<open>Append\<close> or \<open>Read\<close> is a branch of the model. Offsets
  are 64-bit words (they wrap in \<open>ReportDrop\<close>), positions inside a block are natural numbers.
\<close>

section \<open>Format\<close>

datatype RecordType = kZeroType | kFullType | kFirstType | kMiddleType | kLastType

fun record_type_code :: "RecordType \<Rightarrow> nat" where
  "record_type_code kZeroType = 0"
| "record_type_code kFullType = 1"
| "record_type_code kFirstType = 2"
| "record_type_code kMiddleType = 3"
| "record_type_code kLastType = 4"

definition kMaxRecordType :: nat where "kMaxRecordType = record_type_code kLastType"
definition kBlockSize :: nat where "kBlockSize = 32768"
definition kHeaderSize :: nat where "kHeaderSize = 4 + 2 + 1"

text \<open>The special results of \<open>ReadPhysicalRecord\<close>.\<close>

definition kEof :: nat where "kEof = kMaxRecordType + 1"
definition kBadRecord :: nat where "kBadRecord = kMaxRecordType + 2"

section \<open>Writer\<close>

record 'f Writer =
  lw_dest :: 'f
  lw_block_offset :: nat
  lw_type_crc :: "u32 list"

definition InitTypeCrc :: "u32 list" where
  "InitTypeCrc = map (\<lambda>i. Value [of_nat i]) [0..<kMaxRecordType + 1]"

definition Writer_new :: "'f \<Rightarrow> nat \<Rightarrow> 'f Writer" where
  "Writer_new dest dest_length =
     \<lparr>lw_dest = dest, lw_block_offset = dest_length mod kBlockSize, lw_type_crc = InitTypeCrc\<rparr>"

definition record_header :: "u32 list \<Rightarrow> RecordType \<Rightarrow> bytes \<Rightarrow> bytes" where
  "record_header type_crc t payload =
     (let crc = Extend (type_crc ! record_type_code t) payload; crc = Mask crc
      in EncodeFixed32 crc @
         [of_nat (length payload), of_nat (length payload div 256), of_nat (record_type_code t)])"

definition EmitPhysicalRecord ::
  "'f WritableFile \<Rightarrow> RecordType \<Rightarrow> bytes \<Rightarrow> 'f Writer \<Rightarrow> Status \<times> 'f Writer" where
  "EmitPhysicalRecord ops t payload w =
     (let buf = record_header (lw_type_crc w) t payload;
          (s, dest) = wf_Append ops buf (lw_dest w);
          (s, dest) =
            (if ok s then
               let (s, dest) = wf_Append ops payload dest
               in if ok s then wf_Flush ops dest else (s, dest)
             else (s, dest))
      in (s, w\<lparr>lw_dest := dest,
               lw_block_offset := lw_block_offset w + kHeaderSize + length payload\<rparr>))"

text \<open>The head of the loop in \<open>AddRecord\<close>: switch to a new block when no header fits.\<close>

definition switch_block :: "'f WritableFile \<Rightarrow> 'f Writer \<Rightarrow> 'f Writer" where
  "switch_block ops w =
     (let leftover = kBlockSize - lw_block_offset w
      in if leftover < kHeaderSize then
           let dest = (if leftover > 0 then snd (wf_Append ops (replicate leftover 0) (lw_dest w))
                       else lw_dest w)
           in w\<lparr>lw_dest := dest, lw_block_offset := 0\<rparr>
         else w)"

definition fragment_type :: "bool \<Rightarrow> bool \<Rightarrow> RecordType" where
  "fragment_type first final =
     (if first \<and> final then kFullType
      else if first then kFirstType
      else if final then kLastType
      else kMiddleType)"

function AddRecord_loop ::
  "'f WritableFile \<Rightarrow> bytes \<Rightarrow> bool \<Rightarrow> 'f Writer \<Rightarrow> Status \<times> 'f Writer" where
  "AddRecord_loop ops data first w =
     (let w = switch_block ops w;
          avail = kBlockSize - lw_block_offset w - kHeaderSize;
          fragment_length = (if length data < avail then length data else avail);
          final = (length data = fragment_length);
          (s, w) = EmitPhysicalRecord ops (fragment_type first final) (take fragment_length data) w;
          left = drop fragment_length data
      in if ok s \<and> left \<noteq> [] then AddRecord_loop ops left False w else (s, w))"
  by pat_completeness auto
termination
proof (relation "measures [\<lambda>(ops, data, first, w). length data,
    \<lambda>(ops, data, first, w). if kBlockSize - lw_block_offset w = kHeaderSize then 1 else 0]", simp)
  fix ops :: "'f WritableFile" and data :: bytes and first
    and w w1 w2 :: "'f Writer" and avail len final x s left
  assume w1: "w1 = switch_block ops w" and avail: "avail = kBlockSize - lw_block_offset w1 - kHeaderSize"
    and len: "len = (if length data < avail then length data else avail)"
    and x: "x = EmitPhysicalRecord ops (fragment_type first final) (take len data) w1" "(s, w2) = x"
    and left: "left = drop len data" "ok s \<and> left \<noteq> []"
  have w2: "lw_block_offset w2 = lw_block_offset w1 + kHeaderSize + len"
    using x len by (auto simp: EmitPhysicalRecord_def Let_def split_beta)
  have "kHeaderSize \<le> kBlockSize - lw_block_offset w1 \<and>
      (lw_block_offset w1 = 0 \<or> w1 = w)"
    by (auto simp: w1 switch_block_def Let_def kHeaderSize_def kBlockSize_def)
  then have "len > 0 \<or> kBlockSize - lw_block_offset w = kHeaderSize \<and>
      kBlockSize - lw_block_offset w2 \<noteq> kHeaderSize"
    using w2 len avail left by (auto simp: kHeaderSize_def kBlockSize_def split: if_splits)
  then show "((ops, left, False, w2), ops, data, first, w) \<in> measures
     [\<lambda>(ops, data, first, w). length data,
      \<lambda>(ops, data, first, w). if kBlockSize - lw_block_offset w = kHeaderSize then 1 else 0]"
    using left by auto
qed

declare AddRecord_loop.simps [simp del]

definition AddRecord :: "'f WritableFile \<Rightarrow> bytes \<Rightarrow> 'f Writer \<Rightarrow> Status \<times> 'f Writer" where
  "AddRecord ops data w = AddRecord_loop ops data True w"

section \<open>Reader\<close>

record 'f Reader =
  lr_file :: 'f
  lr_reporter :: bool
  lr_checksum :: bool
  lr_buffer :: bytes
  lr_eof :: bool
  lr_last_record_offset :: u64
  lr_end_of_buffer_offset :: u64
  lr_initial_offset :: u64
  lr_resyncing :: bool
  lr_drops :: "(u64 \<times> Status) list"

definition Reader_new :: "'f \<Rightarrow> bool \<Rightarrow> bool \<Rightarrow> u64 \<Rightarrow> 'f Reader" where
  "Reader_new f reporter checksum initial_offset =
     \<lparr>lr_file = f, lr_reporter = reporter, lr_checksum = checksum, lr_buffer = [], lr_eof = False,
      lr_last_record_offset = 0, lr_end_of_buffer_offset = 0, lr_initial_offset = initial_offset,
      lr_resyncing = initial_offset > 0, lr_drops = []\<rparr>"

definition ReportDrop :: "u64 \<Rightarrow> Status \<Rightarrow> 'f Reader \<Rightarrow> 'f Reader" where
  "ReportDrop bytes reason r =
     (if lr_reporter r \<and>
         lr_end_of_buffer_offset r - of_nat (length (lr_buffer r)) - bytes \<ge> lr_initial_offset r
      then r\<lparr>lr_drops := lr_drops r @ [(bytes, reason)]\<rparr> else r)"

definition ReportCorruption :: "u64 \<Rightarrow> string \<Rightarrow> 'f Reader \<Rightarrow> 'f Reader" where
  "ReportCorruption bytes reason r = ReportDrop bytes (Corruption reason []) r"

definition SkipToInitialBlock :: "'f SequentialFile \<Rightarrow> 'f Reader \<Rightarrow> bool \<times> 'f Reader" where
  "SkipToInitialBlock ops r =
     (let offset_in_block = unat (lr_initial_offset r) mod kBlockSize;
          block_start_location = lr_initial_offset r - of_nat offset_in_block;
          block_start_location = (if offset_in_block > kBlockSize - 6
            then block_start_location + of_nat kBlockSize else block_start_location);
          r = r\<lparr>lr_end_of_buffer_offset := block_start_location\<rparr>
      in if block_start_location > 0 then
           let (skip_status, f) = sf_Skip ops (unat block_start_location) (lr_file r);
               r = r\<lparr>lr_file := f\<rparr>
           in if \<not> ok skip_status then (False, ReportDrop block_start_location skip_status r)
              else (True, r)
         else (True, r))"

text \<open>
  The body of \<open>ReadPhysicalRecord\<close> once the buffer holds a header. \<open>result\<close> is the caller's slice,
  which some branches leave as it was.
\<close>

definition parse_physical_record :: "bytes \<Rightarrow> 'f Reader \<Rightarrow> nat \<times> bytes \<times> 'f Reader" where
  "parse_physical_record result r =
     (let header = lr_buffer r;
          a = unat (header ! 4); b = unat (header ! 5);
          type = unat (scast (header ! 6) :: u32);
          len = a + 256 * b
      in if kHeaderSize + len > length (lr_buffer r) then
           let drop_size = length (lr_buffer r);
               r = r\<lparr>lr_buffer := []\<rparr>
           in if \<not> lr_eof r
              then (kBadRecord, result, ReportCorruption (of_nat drop_size) ''bad record length'' r)
              else (kEof, result, r)
         else if type = record_type_code kZeroType \<and> len = 0 then
           (kBadRecord, result, r\<lparr>lr_buffer := []\<rparr>)
         else if lr_checksum r \<and>
             Value (take (1 + len) (drop 6 header)) \<noteq> Unmask (DecodeFixed32 header) then
           let drop_size = length (lr_buffer r);
               r = r\<lparr>lr_buffer := []\<rparr>
           in (kBadRecord, result, ReportCorruption (of_nat drop_size) ''checksum mismatch'' r)
         else
           let r = r\<lparr>lr_buffer := drop (kHeaderSize + len) (lr_buffer r)\<rparr>
           in if lr_end_of_buffer_offset r - of_nat (length (lr_buffer r)) - of_nat kHeaderSize -
                 of_nat len < lr_initial_offset r
              then (kBadRecord, [], r)
              else (type, take len (drop kHeaderSize header), r))"

function ReadPhysicalRecord ::
  "'f SequentialFile \<Rightarrow> bytes \<Rightarrow> 'f Reader \<Rightarrow> nat \<times> bytes \<times> 'f Reader" where
  "ReadPhysicalRecord ops result r =
     (if length (lr_buffer r) < kHeaderSize then
        if \<not> lr_eof r then
          let (status, buf, f) = sf_Read ops kBlockSize (lr_file r);
              r = r\<lparr>lr_file := f, lr_buffer := buf,
                    lr_end_of_buffer_offset := lr_end_of_buffer_offset r + of_nat (length buf)\<rparr>
          in if \<not> ok status then
               let r = ReportDrop (of_nat kBlockSize) status (r\<lparr>lr_buffer := []\<rparr>)
               in (kEof, result, r\<lparr>lr_eof := True\<rparr>)
             else ReadPhysicalRecord ops result
                    (if length buf < kBlockSize then r\<lparr>lr_eof := True\<rparr> else r)
        else (kEof, result, r\<lparr>lr_buffer := []\<rparr>)
      else parse_physical_record result r)"
  by pat_completeness auto
termination
  by (relation "measure (\<lambda>(ops, result, r).
      if length (lr_buffer r) < kHeaderSize \<and> \<not> lr_eof r then 1 else 0)")
    (auto simp: kHeaderSize_def kBlockSize_def)

declare ReadPhysicalRecord.simps [simp del]

text \<open>The local variables of \<open>ReadRecord\<close>, and one round of its loop.\<close>

record 'f read_state =
  rs_fragment :: bytes
  rs_in_fragmented :: bool
  rs_prospective :: u64
  rs_scratch :: bytes
  rs_reader :: "'f Reader"

definition partial_record :: "string \<Rightarrow> 'f read_state \<Rightarrow> 'f Reader" where
  "partial_record reason st =
     (if rs_in_fragmented st \<and> rs_scratch st \<noteq> []
      then ReportCorruption (of_nat (length (rs_scratch st))) reason (rs_reader st)
      else rs_reader st)"

definition handle_record :: "nat \<Rightarrow> 'f read_state \<Rightarrow> (bytes option \<times> 'f Reader) + 'f read_state" where
  "handle_record record_type st =
     (let r = rs_reader st; fragment = rs_fragment st; scratch = rs_scratch st;
          physical_record_offset = lr_end_of_buffer_offset r - of_nat (length (lr_buffer r)) -
            of_nat kHeaderSize - of_nat (length fragment)
      in if record_type = record_type_code kFullType then
           let r = partial_record ''partial record without end(1)'' st
           in Inl (Some fragment, r\<lparr>lr_last_record_offset := physical_record_offset\<rparr>)
         else if record_type = record_type_code kFirstType then
           let r = partial_record ''partial record without end(2)'' st
           in Inr (st\<lparr>rs_prospective := physical_record_offset, rs_scratch := fragment,
                     rs_in_fragmented := True, rs_reader := r\<rparr>)
         else if record_type = record_type_code kMiddleType then
           if \<not> rs_in_fragmented st then
             Inr (st\<lparr>rs_reader := ReportCorruption (of_nat (length fragment))
                       ''missing start of fragmented record(1)'' r\<rparr>)
           else Inr (st\<lparr>rs_scratch := scratch @ fragment\<rparr>)
         else if record_type = record_type_code kLastType then
           if \<not> rs_in_fragmented st then
             Inr (st\<lparr>rs_reader := ReportCorruption (of_nat (length fragment))
                       ''missing start of fragmented record(2)'' r\<rparr>)
           else Inl (Some (scratch @ fragment), r\<lparr>lr_last_record_offset := rs_prospective st\<rparr>)
         else if record_type = kEof then Inl (None, r)
         else if record_type = kBadRecord then
           if rs_in_fragmented st then
             Inr (st\<lparr>rs_reader := ReportCorruption (of_nat (length scratch))
                       ''error in middle of record'' r,
                     rs_in_fragmented := False, rs_scratch := []\<rparr>)
           else Inr st
         else
           Inr (st\<lparr>rs_reader := ReportCorruption
                     (of_nat (length fragment + (if rs_in_fragmented st then length scratch else 0)))
                     (''unknown record type '' @ decimal record_type) r,
                   rs_in_fragmented := False, rs_scratch := []\<rparr>))"

definition read_step ::
  "'f SequentialFile \<Rightarrow> 'f read_state \<Rightarrow> (bytes option \<times> 'f Reader) + 'f read_state" where
  "read_step ops st =
     (let (record_type, fragment, r) = ReadPhysicalRecord ops (rs_fragment st) (rs_reader st);
          st = st\<lparr>rs_fragment := fragment, rs_reader := r\<rparr>
      in if lr_resyncing r \<and> record_type = record_type_code kMiddleType then Inr st
         else if lr_resyncing r \<and> record_type = record_type_code kLastType then
           Inr (st\<lparr>rs_reader := r\<lparr>lr_resyncing := False\<rparr>\<rparr>)
         else handle_record record_type (st\<lparr>rs_reader := r\<lparr>lr_resyncing := False\<rparr>\<rparr>))"

partial_function (option) read_record_loop ::
  "'f SequentialFile \<Rightarrow> 'f read_state \<Rightarrow> (bytes option \<times> 'f Reader) option" where
  "read_record_loop ops st =
     (case read_step ops st of
        Inl result \<Rightarrow> Some result
      | Inr st' \<Rightarrow> read_record_loop ops st')"

text \<open>
  \<open>ReadRecord\<close>: the record, or \<open>None\<close> where it returns false; the outer \<open>None\<close> is a call that
  does not return.
\<close>

definition ReadRecord :: "'f SequentialFile \<Rightarrow> 'f Reader \<Rightarrow> (bytes option \<times> 'f Reader) option" where
  "ReadRecord ops r =
     (let (found, r) = (if lr_last_record_offset r < lr_initial_offset r
                        then SkipToInitialBlock ops r else (True, r))
      in if \<not> found then Some (None, r)
         else read_record_loop ops
           \<lparr>rs_fragment = [], rs_in_fragmented = False, rs_prospective = 0, rs_scratch = [],
            rs_reader = r\<rparr>)"

section \<open>Physical records\<close>

lemma block_sizes [simp]: "kHeaderSize = 7" "kBlockSize = 32768" "kMaxRecordType = 4" "kEof = 5" "kBadRecord = 6"
  by (simp_all add: kHeaderSize_def kBlockSize_def kMaxRecordType_def kEof_def kBadRecord_def)

definition physical_record :: "RecordType \<Rightarrow> bytes \<Rightarrow> bytes" where
  "physical_record t payload = record_header InitTypeCrc t payload @ payload"

lemma length_physical_record [simp]: "length (physical_record t p) = 7 + length p"
  by (simp add: physical_record_def record_header_def Let_def)

lemma InitTypeCrc_nth: "InitTypeCrc ! record_type_code t = Value [of_nat (record_type_code t)]"
  by (cases t) (simp_all add: InitTypeCrc_def upt_rec)

lemma record_type_char: "unat (scast (of_nat (record_type_code t) :: byte) :: u32) = record_type_code t"
  by (cases t) simp_all

lemma two_byte_length:
  assumes "n < 65536"
  shows "unat (of_nat n :: byte) + 256 * unat (of_nat (n div 256) :: byte) = n"
proof -
  have "n div 256 < 256" using assms by (simp add: div_less_iff_less_mult)
  then show ?thesis by (simp add: unat_of_nat)
qed

text \<open>What the reader finds in a header that the writer emitted, whatever payload \<open>q\<close> follows it.\<close>

lemma record_header_fields:
  fixes t :: RecordType and p q s :: bytes
  assumes "length p < 65536" "length q = length p"
  defines "h \<equiv> record_header InitTypeCrc t p @ q @ s"
  shows "unat (h ! 4) + 256 * unat (h ! 5) = length p"
    "unat (scast (h ! 6) :: u32) = record_type_code t"
    "take (1 + length p) (drop 6 h) = of_nat (record_type_code t) # q"
    "Unmask (DecodeFixed32 h) = Value (of_nat (record_type_code t) # p)"
    "take (length p) (drop 7 h) = q" "drop (7 + length p) h = s"
proof -
  let ?crc = "Extend (InitTypeCrc ! record_type_code t) p"
  have h: "h = EncodeFixed32 (Mask ?crc) @
      [of_nat (length p), of_nat (length p div 256), of_nat (record_type_code t)] @ q @ s"
    by (simp add: h_def record_header_def Let_def)
  show "unat (h ! 4) + 256 * unat (h ! 5) = length p"
    using two_byte_length [OF assms(1)] by (simp add: h nth_append)
  show "unat (scast (h ! 6) :: u32) = record_type_code t"
    by (simp add: h nth_append record_type_char)
  show "take (1 + length p) (drop 6 h) = of_nat (record_type_code t) # q"
    by (simp add: h flip: assms(2))
  have "Value (of_nat (record_type_code t) # p) = ?crc"
    using Extend_append [of 0 "[of_nat (record_type_code t)]" p] InitTypeCrc_nth [of t]
    by (simp add: Value_def)
  then show "Unmask (DecodeFixed32 h) = Value (of_nat (record_type_code t) # p)"
    by (simp add: h Unmask_Mask)
  have "length (record_header InitTypeCrc t p) = 7"
    by (simp add: record_header_def Let_def)
  then show "take (length p) (drop 7 h) = q" "drop (7 + length p) h = s"
    by (simp_all add: h_def flip: assms(2))
qed

lemma physical_record_header:
  assumes "length p < 65536"
  shows "unat ((physical_record t p @ s) ! 4) + 256 * unat ((physical_record t p @ s) ! 5) = length p"
    "unat (scast ((physical_record t p @ s) ! 6) :: u32) = record_type_code t"
    "Value (take (1 + length p) (drop 6 (physical_record t p @ s))) =
       Unmask (DecodeFixed32 (physical_record t p @ s))"
    "take (length p) (drop 7 (physical_record t p @ s)) = p"
    "drop (7 + length p) (physical_record t p @ s) = s"
  using record_header_fields [OF assms refl, of t s] by (simp_all add: physical_record_def)

text \<open>
  A reader without initial offset stands at offset \<open>bo\<close> of a block with \<open>stream\<close> still to come: its
  buffer is the rest of the block, and it has seen the end of file exactly if the block is cut short.
\<close>

definition reader_at ::
  "('f \<Rightarrow> bool) \<Rightarrow> ('f \<Rightarrow> bytes) \<Rightarrow> nat \<Rightarrow> bytes \<Rightarrow> 'f Reader \<Rightarrow> bool" where
  "reader_at file_ok remaining bo stream r \<longleftrightarrow>
     bo \<le> kBlockSize \<and> file_ok (lr_file r) \<and> stream = lr_buffer r @ remaining (lr_file r) \<and>
     length (lr_buffer r) = min (kBlockSize - bo) (length stream) \<and>
     (lr_eof r \<longleftrightarrow> length stream < kBlockSize - bo) \<and>
     lr_initial_offset r = 0 \<and> \<not> lr_resyncing r"

lemma prefix_of_block: "length xs = min k (length (xs @ ys)) \<Longrightarrow> xs = take k (xs @ ys)"
  by (cases "k \<le> length xs") (auto simp: min_def split: if_splits)

lemma reader_at_buffer:
  "reader_at file_ok remaining bo stream r \<Longrightarrow> lr_buffer r = take (kBlockSize - bo) stream"
  unfolding reader_at_def using prefix_of_block by metis

context sequential_file
begin

lemma read_new_block:
  assumes at: "reader_at file_ok remaining bo (pad @ s) r" and pad: "length pad = kBlockSize - bo"
    "kBlockSize - bo < 7"
  shows "\<exists>r1. reader_at file_ok remaining 0 s r1 \<and> lr_drops r1 = lr_drops r \<and>
    lr_reporter r1 = lr_reporter r \<and> lr_checksum r1 = lr_checksum r \<and>
    ReadPhysicalRecord ops fragment r = ReadPhysicalRecord ops fragment r1"
proof -
  have buf: "lr_buffer r = pad" "remaining (lr_file r) = s" "\<not> lr_eof r" "file_ok (lr_file r)"
    using at pad reader_at_buffer [OF at] by (auto simp: reader_at_def)
  obtain f' where f': "sf_Read ops 32768 (lr_file r) = (OK, take 32768 s, f')" "file_ok f'"
    "remaining f' = drop 32768 s"
    using read [OF buf(4), of 32768] buf(2) by auto
  let ?r = "r\<lparr>lr_file := f', lr_buffer := take 32768 s,
      lr_end_of_buffer_offset := lr_end_of_buffer_offset r + of_nat (length (take 32768 s))\<rparr>"
  let ?r1 = "if length (take 32768 s) < 32768 then ?r\<lparr>lr_eof := True\<rparr> else ?r"
  have "ReadPhysicalRecord ops fragment r = ReadPhysicalRecord ops fragment ?r1"
    using buf pad f'(1) by (simp add: ReadPhysicalRecord.simps [of ops fragment r] Let_def)
  moreover have "reader_at file_ok remaining 0 s ?r1"
    using at f' buf(3) by (auto simp: reader_at_def)
  ultimately show ?thesis by (intro exI [of _ ?r1]) auto
qed

lemma read_physical:
  assumes at: "reader_at file_ok remaining bo (physical_record t p @ s) r"
    and fits: "bo + 7 + length p \<le> kBlockSize" and t: "t \<noteq> kZeroType"
  shows "\<exists>r'. ReadPhysicalRecord ops fragment r = (record_type_code t, p, r') \<and>
    reader_at file_ok remaining (bo + 7 + length p) s r' \<and> lr_drops r' = lr_drops r"
proof -
  obtain q where buf: "lr_buffer r = physical_record t p @ q" "s = q @ remaining (lr_file r)"
  proof
    show "lr_buffer r = physical_record t p @ take (kBlockSize - bo - (7 + length p)) s"
      using reader_at_buffer [OF at] fits by simp
    then show "s = take (kBlockSize - bo - (7 + length p)) s @ remaining (lr_file r)"
      using at by (simp add: reader_at_def)
  qed
  have len: "length p < 65536" using fits by simp
  note header = physical_record_header [OF len, of t q, folded buf(1)]
  let ?r = "r\<lparr>lr_buffer := q\<rparr>"
  have "ReadPhysicalRecord ops fragment r = (record_type_code t, p, ?r)"
  proof -
    have "\<not> length (lr_buffer r) < 7 + length p" "\<not> length (lr_buffer r) < 7"
      by (simp_all add: buf(1))
    moreover have "record_type_code t \<noteq> 0" using t by (cases t) simp_all
    moreover have "lr_initial_offset r = 0" using at by (simp add: reader_at_def)
    ultimately show ?thesis
      using header by (simp add: ReadPhysicalRecord.simps [of ops fragment r] parse_physical_record_def
          Let_def)
  qed
  moreover have "reader_at file_ok remaining (bo + 7 + length p) s ?r"
    using at fits by (auto simp: reader_at_def buf)
  ultimately show ?thesis by auto
qed

lemma read_end_of_file:
  assumes at: "reader_at file_ok remaining bo s r" and short: "length s < 7" "length s < kBlockSize - bo"
  shows "\<exists>r'. ReadPhysicalRecord ops fragment r = (kEof, fragment, r') \<and> lr_drops r' = lr_drops r \<and>
    \<not> lr_resyncing r'"
proof -
  have "lr_buffer r = s" "lr_eof r" "\<not> lr_resyncing r"
    using at short reader_at_buffer [OF at] by (auto simp: reader_at_def)
  then show ?thesis
    using short by (simp add: ReadPhysicalRecord.simps [of ops fragment r])
qed

lemma read_truncated:
  assumes at: "reader_at file_ok remaining bo (take n (physical_record t p)) r"
    and fits: "bo + 7 + length p \<le> kBlockSize" and n: "n < 7 + length p"
  shows "\<exists>r'. ReadPhysicalRecord ops fragment r = (kEof, fragment, r') \<and> lr_drops r' = lr_drops r \<and>
    \<not> lr_resyncing r'"
proof (cases "n < 7")
  case True
  then show ?thesis using read_end_of_file [OF at] fits n by simp
next
  case False
  let ?h = "take n (physical_record t p)"
  have h: "length ?h = n" "n < kBlockSize - bo" using n fits by simp_all
  have buf: "lr_buffer r = ?h"
    using reader_at_buffer [OF at] h(2) by (simp only: take_all less_imp_le h(1))
  have eof: "lr_eof r" "\<not> lr_resyncing r"
    using at h(2) unfolding reader_at_def h(1) by blast+
  have "length p < 65536" using fits by simp
  then have "unat (?h ! 4) + 256 * unat (?h ! 5) = length p"
    using physical_record_header(1) [of p t "[]"] False by simp
  then show ?thesis
    using buf eof False n
    by (simp add: ReadPhysicalRecord.simps [of ops fragment r] parse_physical_record_def Let_def)
qed

end

section \<open>Records as sequences of physical records\<close>

text \<open>
  \<open>frames bo first data out bo'\<close>: started at block offset \<open>bo\<close>, the writer turns \<open>data\<close> (the whole
  record if \<open>first\<close>, else what is left of it) into the bytes \<open>out\<close> and ends at \<open>bo'\<close>.
\<close>

inductive frames :: "nat \<Rightarrow> bool \<Rightarrow> bytes \<Rightarrow> bytes \<Rightarrow> nat \<Rightarrow> bool" where
  pad: "kBlockSize - bo < kHeaderSize \<Longrightarrow> bo \<le> kBlockSize \<Longrightarrow> frames 0 first data out bo' \<Longrightarrow>
    frames bo first data (replicate (kBlockSize - bo) 0 @ out) bo'"
| whole: "bo + kHeaderSize + length data \<le> kBlockSize \<Longrightarrow>
    frames bo first data (physical_record (fragment_type first True) data)
      (bo + kHeaderSize + length data)"
| more: "bo + kHeaderSize + length a = kBlockSize \<Longrightarrow> b \<noteq> [] \<Longrightarrow> frames kBlockSize False b out bo' \<Longrightarrow>
    frames bo first (a @ b) (physical_record (fragment_type first False) a @ out) bo'"

lemma fragment_type_nonzero [simp]: "fragment_type first final \<noteq> kZeroType"
  by (simp add: fragment_type_def)

lemma frames_offset: "frames bo first data out bo' \<Longrightarrow> bo' \<le> kBlockSize"
  by (induction rule: frames.induct) simp_all


lemma EmitPhysicalRecord_Writer:
  assumes "EmitPhysicalRecord ops t p w = (s, w')"
  shows "lw_type_crc w' = lw_type_crc w" "lw_block_offset w' = lw_block_offset w + 7 + length p"
  using assms by (auto simp: EmitPhysicalRecord_def Let_def split_beta)

context writable_file
begin

lemma EmitPhysicalRecord_ok:
  assumes "file_ok (lw_dest w)" "lw_type_crc w = InitTypeCrc"
  shows "\<exists>w'. EmitPhysicalRecord ops t p w = (OK, w') \<and> file_ok (lw_dest w') \<and>
    contents (lw_dest w') = contents (lw_dest w) @ physical_record t p"
proof -
  obtain f1 where f1: "wf_Append ops (record_header InitTypeCrc t p) (lw_dest w) = (OK, f1)"
    "file_ok f1" "contents f1 = contents (lw_dest w) @ record_header InitTypeCrc t p"
    using append [OF assms(1)] by blast
  obtain f2 where f2: "wf_Append ops p f1 = (OK, f2)" "file_ok f2" "contents f2 = contents f1 @ p"
    using append [OF f1(2)] by blast
  obtain f3 where "wf_Flush ops f2 = (OK, f3)" "file_ok f3" "contents f3 = contents f2"
    using flush [OF f2(2)] by blast
  then show ?thesis
    using f1 f2 assms(2) by (simp add: EmitPhysicalRecord_def physical_record_def)
qed

lemma switch_block_ok:
  assumes "file_ok (lw_dest w)" "lw_block_offset w \<le> kBlockSize"
  defines "w' \<equiv> switch_block ops w"
  shows "file_ok (lw_dest w')" "lw_type_crc w' = lw_type_crc w"
    "lw_block_offset w' + 7 \<le> kBlockSize"
    "contents (lw_dest w') = contents (lw_dest w) \<and> lw_block_offset w' = lw_block_offset w \<or>
     kBlockSize - lw_block_offset w < 7 \<and> lw_block_offset w' = 0 \<and>
     contents (lw_dest w') = contents (lw_dest w) @ replicate (kBlockSize - lw_block_offset w) 0"
proof -
  obtain f where "wf_Append ops (replicate (32768 - lw_block_offset w) 0) (lw_dest w) = (OK, f)"
    "file_ok f" "contents f = contents (lw_dest w) @ replicate (32768 - lw_block_offset w) 0"
    using append [OF assms(1)] by blast
  then show "file_ok (lw_dest w')" "lw_type_crc w' = lw_type_crc w"
    "lw_block_offset w' + 7 \<le> kBlockSize"
    "contents (lw_dest w') = contents (lw_dest w) \<and> lw_block_offset w' = lw_block_offset w \<or>
     kBlockSize - lw_block_offset w < 7 \<and> lw_block_offset w' = 0 \<and>
     contents (lw_dest w') = contents (lw_dest w) @ replicate (kBlockSize - lw_block_offset w) 0"
    using assms(1,2) by (auto simp: w'_def switch_block_def Let_def)
qed

lemma AddRecord_loop_frames:
  "ops' = ops \<Longrightarrow> file_ok (lw_dest w) \<Longrightarrow> lw_type_crc w = InitTypeCrc \<Longrightarrow>
   lw_block_offset w \<le> kBlockSize \<Longrightarrow>
   \<exists>w' out. AddRecord_loop ops' data first w = (OK, w') \<and> file_ok (lw_dest w') \<and>
     lw_type_crc w' = InitTypeCrc \<and> contents (lw_dest w') = contents (lw_dest w) @ out \<and>
     frames (lw_block_offset w) first data out (lw_block_offset w')"
proof (induction ops' data first w rule: AddRecord_loop.induct)
  case (1 ops' data first w)
  define w1 where "w1 = switch_block ops w"
  define bo where "bo = lw_block_offset w1"
  define len where "len = (if length data < kBlockSize - bo - kHeaderSize then length data
    else kBlockSize - bo - kHeaderSize)"
  define t where "t = fragment_type first (length data = len)"
  note w1 = switch_block_ok [OF "1.prems"(2,4), folded w1_def, folded bo_def]
  obtain w2 where w2: "EmitPhysicalRecord ops t (take len data) w1 = (OK, w2)" "file_ok (lw_dest w2)"
    "contents (lw_dest w2) = contents (lw_dest w1) @ physical_record t (take len data)"
    using EmitPhysicalRecord_ok [of w1] w1(1,2) "1.prems"(3) by auto
  have len: "len \<le> length data" "bo + 7 + len \<le> kBlockSize" using w1(3) by (auto simp: len_def)
  have w2': "lw_type_crc w2 = InitTypeCrc" "lw_block_offset w2 = bo + 7 + len"
    using EmitPhysicalRecord_Writer [OF w2(1)] w1(2) "1.prems"(3) len(1) by (simp_all add: bo_def)
  have loop: "AddRecord_loop ops data first w =
      (if drop len data \<noteq> [] then AddRecord_loop ops (drop len data) False w2 else (OK, w2))"
    by (subst AddRecord_loop.simps)
      (simp only: Let_def w1_def [symmetric] bo_def [symmetric] len_def [symmetric]
        t_def [symmetric] w2(1) prod.case ok.simps simp_thms)
  have "\<exists>w' out. AddRecord_loop ops data first w = (OK, w') \<and> file_ok (lw_dest w') \<and>
     lw_type_crc w' = InitTypeCrc \<and> contents (lw_dest w') = contents (lw_dest w1) @ out \<and>
     frames bo first data out (lw_block_offset w')"
  proof (cases "drop len data = []")
    case True
    then have "take len data = data" "length data = len" using len by auto
    then have "frames bo first data (physical_record t (take len data)) (lw_block_offset w2)"
      using frames.whole [of bo data first] len(2) by (simp add: t_def w2')
    then show ?thesis using loop True w2 w2' by auto
  next
    case False
    then have full: "bo + 7 + len = kBlockSize" "\<not> length data = len"
      using w1(3) by (auto simp: len_def split: if_splits)
    have "\<exists>w' out. AddRecord_loop ops (drop len data) False w2 = (OK, w') \<and> file_ok (lw_dest w') \<and>
       lw_type_crc w' = InitTypeCrc \<and> contents (lw_dest w') = contents (lw_dest w2) @ out \<and>
       frames (lw_block_offset w2) False (drop len data) out (lw_block_offset w')"
      by (rule "1.IH" [unfolded "1.prems"(1), OF refl refl refl refl refl _ refl, folded w1_def,
            folded bo_def, folded len_def, folded t_def])
        (use w2 w2' len False in simp_all)
    then obtain w' out where w': "AddRecord_loop ops (drop len data) False w2 = (OK, w')"
      "file_ok (lw_dest w')" "lw_type_crc w' = InitTypeCrc"
      "contents (lw_dest w') = contents (lw_dest w2) @ out"
      "frames kBlockSize False (drop len data) out (lw_block_offset w')"
      using full w2'(2) by auto
    have "frames bo first (take len data @ drop len data)
        (physical_record (fragment_type first False) (take len data) @ out) (lw_block_offset w')"
      using full len False w'(5) by (intro frames.more) (simp_all add: min_def)
    then show ?thesis using loop False w' w2(3) full(2) by (auto simp: t_def)
  qed
  then show ?case
    using w1(4) "1.prems" frames.pad by (fastforce simp: bo_def)
qed

end

section \<open>Reading back\<close>

lemma read_record_loop_step:
  "read_step ops st = Inr st' \<Longrightarrow> read_record_loop ops st = read_record_loop ops st'"
  "read_step ops st = Inl x \<Longrightarrow> read_record_loop ops st = Some x"
  by (simp_all add: read_record_loop.simps)

lemma not_resyncing_update: "\<not> lr_resyncing r \<Longrightarrow> r\<lparr>lr_resyncing := False\<rparr> = r"
  by (cases r) simp

lemma read_step_plain:
  assumes "ReadPhysicalRecord ops (rs_fragment st) (rs_reader st) = (t, fragment, r)" "\<not> lr_resyncing r"
  shows "read_step ops st = handle_record t (st\<lparr>rs_fragment := fragment, rs_reader := r\<rparr>)"
  using assms by (simp add: read_step_def not_resyncing_update)

context sequential_file
begin

text \<open>The state of \<open>ReadRecord\<close> before the fragment at hand: \<open>acc\<close> is what has been collected.\<close>

definition collecting :: "bool \<Rightarrow> bytes \<Rightarrow> 'f read_state \<Rightarrow> bool" where
  "collecting first acc st \<longleftrightarrow>
     rs_in_fragmented st = (\<not> first) \<and> acc = (if first then [] else rs_scratch st)"

lemma handle_fragment:
  assumes "collecting first acc st"
  shows "\<exists>st'. handle_record (record_type_code (fragment_type first False))
      (st\<lparr>rs_fragment := a, rs_reader := r\<rparr>) = Inr st' \<and> rs_reader st' = r \<and>
      collecting False (acc @ a) st'"
  using assms
  by (cases first) (simp_all add: handle_record_def fragment_type_def partial_record_def
      collecting_def Let_def)

lemma read_frames:
  "frames bo first data out bo' \<Longrightarrow> reader_at file_ok remaining bo (out @ s) (rs_reader st) \<Longrightarrow>
   collecting first acc st \<Longrightarrow>
   \<exists>r'. read_record_loop ops st = Some (Some (acc @ data), r') \<and>
     reader_at file_ok remaining bo' s r' \<and> lr_drops r' = lr_drops (rs_reader st)"
proof (induction arbitrary: st acc rule: frames.induct)
  case (pad bo first data out bo')
  then obtain r1 where r1: "reader_at file_ok remaining 0 (out @ s) r1" "lr_drops r1 = lr_drops (rs_reader st)"
    "ReadPhysicalRecord ops (rs_fragment st) (rs_reader st) = ReadPhysicalRecord ops (rs_fragment st) r1"
    using read_new_block [of bo "replicate (kBlockSize - bo) 0" "out @ s" "rs_reader st"] by fastforce
  let ?st = "st\<lparr>rs_reader := r1\<rparr>"
  have "read_step ops st = read_step ops ?st" using r1(3) by (simp add: read_step_def)
  then have "read_record_loop ops st = read_record_loop ops ?st" by (simp add: read_record_loop.simps)
  moreover have "collecting first acc ?st" using pad.prems(2) by (simp add: collecting_def)
  ultimately show ?case using pad.IH [of ?st acc] r1 by simp
next
  case (whole bo data first)
  let ?t = "fragment_type first True"
  obtain r' where r': "ReadPhysicalRecord ops (rs_fragment st) (rs_reader st) = (record_type_code ?t, data, r')"
    "reader_at file_ok remaining (bo + 7 + length data) s r'" "lr_drops r' = lr_drops (rs_reader st)"
    using read_physical [OF whole.prems(1) _ fragment_type_nonzero] whole.hyps by auto
  have res: "\<not> lr_resyncing r'" using r'(2) by (simp add: reader_at_def)
  have at: "reader_at file_ok remaining bo' s (r'\<lparr>lr_last_record_offset := x\<rparr>) =
      reader_at file_ok remaining bo' s r'" for bo' x by (simp add: reader_at_def)
  have "\<exists>x. read_step ops st = Inl (Some (acc @ data), r'\<lparr>lr_last_record_offset := x\<rparr>)"
    using read_step_plain [OF r'(1) res] whole.prems(2)
    by (cases first) (simp_all add: handle_record_def fragment_type_def partial_record_def
        collecting_def Let_def, blast+)
  then show ?case using r'(2,3) read_record_loop_step(2) by (fastforce simp: at)
next
  case (more bo a b out bo' first)
  let ?t = "fragment_type first False"
  have fits: "bo + 7 + length a = kBlockSize" using more.hyps(1) by simp
  obtain r' where r': "ReadPhysicalRecord ops (rs_fragment st) (rs_reader st) = (record_type_code ?t, a, r')"
    "reader_at file_ok remaining kBlockSize (out @ s) r'" "lr_drops r' = lr_drops (rs_reader st)"
    using read_physical [OF more.prems(1) [unfolded append_assoc] eq_refl [OF fits] fragment_type_nonzero]
    unfolding fits by blast
  have res: "\<not> lr_resyncing r'" using r'(2) by (simp add: reader_at_def)
  obtain st' where st': "read_step ops st = Inr st'" "rs_reader st' = r'" "collecting False (acc @ a) st'"
    using read_step_plain [OF r'(1) res] handle_fragment [OF more.prems(2)] by metis
  show ?case
    using more.IH [of st' "acc @ a"] st' r' read_record_loop_step(1) [OF st'(1)] by auto
qed

lemma read_eof:
  assumes "\<exists>r'. ReadPhysicalRecord ops (rs_fragment st) (rs_reader st) = (kEof, rs_fragment st, r') \<and>
    lr_drops r' = lr_drops (rs_reader st) \<and> \<not> lr_resyncing r'"
  shows "\<exists>r'. read_record_loop ops st = Some (None, r') \<and> lr_drops r' = lr_drops (rs_reader st)"
proof -
  obtain r' where r': "ReadPhysicalRecord ops (rs_fragment st) (rs_reader st) = (kEof, rs_fragment st, r')"
    "lr_drops r' = lr_drops (rs_reader st)" "\<not> lr_resyncing r'" using assms by blast
  have "read_step ops st = Inl (None, r')"
    using read_step_plain [OF r'(1,3)] by (simp add: handle_record_def Let_def)
  then show ?thesis using read_record_loop_step(2) r'(2) by blast
qed

lemma read_frames_truncated:
  "frames bo first data out bo' \<Longrightarrow> n < length out \<Longrightarrow>
   reader_at file_ok remaining bo (take n out) (rs_reader st) \<Longrightarrow> collecting first acc st \<Longrightarrow>
   \<exists>r'. read_record_loop ops st = Some (None, r') \<and> lr_drops r' = lr_drops (rs_reader st)"
proof (induction arbitrary: st acc n rule: frames.induct)
  case (pad bo first data out bo')
  let ?k = "kBlockSize - bo"
  show ?case
  proof (cases "n < ?k")
    case True
    have "\<exists>r'. ReadPhysicalRecord ops (rs_fragment st) (rs_reader st) = (kEof, rs_fragment st, r') \<and>
      lr_drops r' = lr_drops (rs_reader st) \<and> \<not> lr_resyncing r'"
      by (rule read_end_of_file [OF pad.prems(2)]) (use True pad.hyps in simp_all)
    then show ?thesis by (rule read_eof)
  next
    case False
    then have stream: "take n (replicate ?k 0 @ out) = replicate ?k 0 @ take (n - ?k) out" by simp
    obtain r1 where r1: "reader_at file_ok remaining 0 (take (n - ?k) out) r1"
      "lr_drops r1 = lr_drops (rs_reader st)"
      "ReadPhysicalRecord ops (rs_fragment st) (rs_reader st) = ReadPhysicalRecord ops (rs_fragment st) r1"
      using read_new_block [OF pad.prems(2) [unfolded stream]] pad.hyps by auto
    let ?st = "st\<lparr>rs_reader := r1\<rparr>"
    have "read_step ops st = read_step ops ?st" using r1(3) by (simp add: read_step_def)
    then have "read_record_loop ops st = read_record_loop ops ?st" by (simp add: read_record_loop.simps)
    moreover have "collecting first acc ?st" using pad.prems(3) by (simp add: collecting_def)
    moreover have "n - ?k < length out" using pad.prems(1) False by simp
    ultimately show ?thesis using pad.IH [of "n - ?k" ?st acc] r1 by simp
  qed
next
  case (whole bo data first)
  show ?case
    by (rule read_eof, rule read_truncated [OF whole.prems(2)]) (use whole in simp_all)
next
  case (more bo a b out bo' first)
  let ?t = "fragment_type first False"
  have fits: "bo + 7 + length a = kBlockSize" using more.hyps(1) by simp
  show ?case
  proof (cases "n < 7 + length a")
    case True
    then have stream: "take n (physical_record ?t a @ out) = take n (physical_record ?t a)" by simp
    show ?thesis
      by (rule read_eof, rule read_truncated [OF more.prems(2) [unfolded stream]])
        (use True more.hyps in simp_all)
  next
    case False
    let ?n = "n - (7 + length a)"
    have stream: "take n (physical_record ?t a @ out) = physical_record ?t a @ take ?n out"
      using False by simp
    obtain r' where r': "ReadPhysicalRecord ops (rs_fragment st) (rs_reader st) = (record_type_code ?t, a, r')"
      "reader_at file_ok remaining kBlockSize (take ?n out) r'" "lr_drops r' = lr_drops (rs_reader st)"
      using read_physical [OF more.prems(2) [unfolded stream] eq_refl [OF fits] fragment_type_nonzero]
      unfolding fits by blast
    have res: "\<not> lr_resyncing r'" using r'(2) by (simp add: reader_at_def)
    obtain st' where st': "read_step ops st = Inr st'" "rs_reader st' = r'" "collecting False (acc @ a) st'"
      using read_step_plain [OF r'(1) res] handle_fragment [OF more.prems(3)] by metis
    show ?thesis
      using more.IH [of ?n st' "acc @ a"] st' r' read_record_loop_step(1) [OF st'(1)] more.prems(1) False
      by auto
  qed
qed

end

section \<open>Whole logs\<close>

text \<open>Writing a list of records, and the callers' loop \<open>while (reader.ReadRecord(&record, &scratch))\<close>.\<close>

fun AddRecords :: "'f WritableFile \<Rightarrow> bytes list \<Rightarrow> 'f Writer \<Rightarrow> Status \<times> 'f Writer" where
  "AddRecords ops [] w = (OK, w)"
| "AddRecords ops (d # ds) w =
     (let (s, w) = AddRecord ops d w in if ok s then AddRecords ops ds w else (s, w))"

fun ReadAll :: "'f SequentialFile \<Rightarrow> nat \<Rightarrow> 'f Reader \<Rightarrow> (bytes list \<times> 'f Reader) option" where
  "ReadAll ops 0 r = None"
| "ReadAll ops (Suc k) r =
     (case ReadRecord ops r of
        None \<Rightarrow> None
      | Some (None, r) \<Rightarrow> Some ([], r)
      | Some (Some d, r) \<Rightarrow> map_option (\<lambda>(ds, r). (d # ds, r)) (ReadAll ops k r))"

inductive logged :: "nat \<Rightarrow> bytes list \<Rightarrow> bytes list \<Rightarrow> bool" where
  nil: "logged bo [] []"
| cons: "frames bo True d out bo' \<Longrightarrow> logged bo' ds outs \<Longrightarrow> logged bo (d # ds) (out # outs)"


context writable_file
begin

lemma AddRecords_logged:
  "file_ok (lw_dest w) \<Longrightarrow> lw_type_crc w = InitTypeCrc \<Longrightarrow> lw_block_offset w \<le> kBlockSize \<Longrightarrow>
   \<exists>w' outs. AddRecords ops rs w = (OK, w') \<and> file_ok (lw_dest w') \<and>
     logged (lw_block_offset w) rs outs \<and> length outs = length rs \<and>
     (\<forall>j. contents (lw_dest (snd (AddRecords ops (take j rs) w))) = contents (lw_dest w) @ concat (take j outs))"
proof (induction rs arbitrary: w)
  case Nil
  then show ?case by (auto intro: logged.nil)
next
  case (Cons d ds)
  obtain w1 out where w1: "AddRecord ops d w = (OK, w1)" "file_ok (lw_dest w1)"
    "lw_type_crc w1 = InitTypeCrc" "contents (lw_dest w1) = contents (lw_dest w) @ out"
    "frames (lw_block_offset w) True d out (lw_block_offset w1)"
    using AddRecord_loop_frames [OF refl Cons.prems, of d True] unfolding AddRecord_def by blast
  have "lw_block_offset w1 \<le> kBlockSize" using w1(5) by (rule frames_offset)
  then obtain w' outs where w': "AddRecords ops ds w1 = (OK, w')" "file_ok (lw_dest w')"
    "logged (lw_block_offset w1) ds outs" "length outs = length ds"
    "\<And>j. contents (lw_dest (snd (AddRecords ops (take j ds) w1))) = contents (lw_dest w1) @ concat (take j outs)"
    using Cons.IH [OF w1(2,3)] by blast
  have "contents (lw_dest (snd (AddRecords ops (take j (d # ds)) w))) =
      contents (lw_dest w) @ concat (take j (out # outs))" for j
    using w'(5) w1(1,4) by (cases j) simp_all
  then show ?case
    using w1(1,5) w' by (intro exI [of _ w'] exI [of _ "out # outs"]) (simp add: logged.cons)
qed

end

context sequential_file
begin

lemma ReadRecord_loop:
  assumes "lr_initial_offset r = 0"
  shows "ReadRecord ops r = read_record_loop ops
    \<lparr>rs_fragment = [], rs_in_fragmented = False, rs_prospective = 0, rs_scratch = [], rs_reader = r\<rparr>"
  using assms by (simp add: ReadRecord_def)

lemma collecting_start:
  "collecting True [] \<lparr>rs_fragment = [], rs_in_fragmented = False, rs_prospective = 0, rs_scratch = [],
     rs_reader = r\<rparr>"
  by (simp add: collecting_def)

lemma read_nothing:
  assumes at: "reader_at file_ok remaining bo [] r"
  shows "\<exists>r'. ReadRecord ops r = Some (None, r') \<and> lr_drops r' = lr_drops r"
proof -
  let ?st = "\<lambda>r. \<lparr>rs_fragment = [], rs_in_fragmented = False, rs_prospective = 0, rs_scratch = [],
    rs_reader = r\<rparr>"
  have "\<exists>r'. ReadPhysicalRecord ops [] r = (kEof, [], r') \<and> lr_drops r' = lr_drops r \<and> \<not> lr_resyncing r'"
  proof (cases "bo < kBlockSize")
    case True
    then show ?thesis using read_end_of_file [OF at] by simp
  next
    case False
    then obtain r1 where "reader_at file_ok remaining 0 [] r1" "lr_drops r1 = lr_drops r"
      "ReadPhysicalRecord ops [] r = ReadPhysicalRecord ops [] r1"
      using read_new_block [of bo "[]" "[]" r "[]"] at by auto
    then show ?thesis using read_end_of_file [of 0 "[]" r1 "[]"] by simp
  qed
  then have "\<exists>r'. read_record_loop ops (?st r) = Some (None, r') \<and> lr_drops r' = lr_drops r"
    using read_eof [of "?st r"] by simp
  then show ?thesis using ReadRecord_loop [of r] at by (simp add: reader_at_def)
qed

lemma ReadAll_logged:
  "logged bo rs outs \<Longrightarrow> reader_at file_ok remaining bo (take n (concat outs)) r \<Longrightarrow> length rs < k \<Longrightarrow>
   \<exists>m r'. ReadAll ops k r = Some (take m rs, r') \<and> lr_drops r' = lr_drops r \<and> m \<le> length rs \<and>
     length (concat (take m outs)) \<le> n \<and> (m < length rs \<longrightarrow> n < length (concat (take (Suc m) outs)))"
proof (induction arbitrary: n r k rule: logged.induct)
  case (nil bo)
  then show ?case using read_nothing [of bo r] by (cases k) auto
next
  case (cons bo d out bo' ds outs)
  obtain k' where k: "k = Suc k'" "length ds < k'" using cons.prems(2) by (cases k) auto
  have r0: "lr_initial_offset r = 0" using cons.prems(1) by (simp add: reader_at_def)
  let ?st = "\<lparr>rs_fragment = [], rs_in_fragmented = False, rs_prospective = 0, rs_scratch = [],
    rs_reader = r\<rparr>"
  show ?case
  proof (cases "n < length out")
    case True
    then have "reader_at file_ok remaining bo (take n out) (rs_reader ?st)" using cons.prems(1) by simp
    then have "\<exists>r'. ReadRecord ops r = Some (None, r') \<and> lr_drops r' = lr_drops r"
      using read_frames_truncated [OF cons.hyps(1) True _ collecting_start] ReadRecord_loop [OF r0]
      by fastforce
    then show ?thesis using True k by (intro exI [of _ 0]) auto
  next
    case False
    then have "reader_at file_ok remaining bo (out @ take (n - length out) (concat outs)) (rs_reader ?st)"
      using cons.prems(1) by simp
    then obtain r1 where r1: "ReadRecord ops r = Some (Some d, r1)" "lr_drops r1 = lr_drops r"
      "reader_at file_ok remaining bo' (take (n - length out) (concat outs)) r1"
      using read_frames [OF cons.hyps(1) _ collecting_start] ReadRecord_loop [OF r0] by fastforce
    obtain m r' where "ReadAll ops k' r1 = Some (take m ds, r')" "lr_drops r' = lr_drops r1"
      "m \<le> length ds" "length (concat (take m outs)) \<le> n - length out"
      "m < length ds \<longrightarrow> n - length out < length (concat (take (Suc m) outs))"
      using cons.IH [OF r1(3) k(2)] by blast
    then show ?thesis
      using r1 k False by (intro exI [of _ "Suc m"] exI [of _ r']) auto
  qed
qed

end

section \<open>Damage\<close>

text \<open>The flags of a reader never change.\<close>

definition same_flags :: "'f Reader \<Rightarrow> 'f Reader \<Rightarrow> bool" where
  "same_flags r r' \<longleftrightarrow> lr_reporter r' = lr_reporter r \<and> lr_checksum r' = lr_checksum r"

lemma same_flags_simps [simp]:
  "same_flags r r" "same_flags r (ReportDrop n reason r') = same_flags r r'" "same_flags r (ReportCorruption n msg r') = same_flags r r'"
  "same_flags r (r'\<lparr>lr_buffer := b\<rparr>) = same_flags r r'" "same_flags r (r'\<lparr>lr_eof := e\<rparr>) = same_flags r r'"
  "same_flags r (r'\<lparr>lr_last_record_offset := u\<rparr>) = same_flags r r'" "same_flags r (r'\<lparr>lr_resyncing := c\<rparr>) = same_flags r r'"
  "same_flags r (r'\<lparr>lr_file := g\<rparr>) = same_flags r r'" "same_flags r (r'\<lparr>lr_end_of_buffer_offset := u\<rparr>) = same_flags r r'"
  by (simp_all add: same_flags_def ReportDrop_def ReportCorruption_def)

lemma parse_flags [simp]: "same_flags r (snd (snd (parse_physical_record fragment r)))"
  by (simp add: parse_physical_record_def Let_def)

lemma ReadPhysicalRecord_flags: "same_flags r (snd (snd (ReadPhysicalRecord ops fragment r)))"
proof (induction ops fragment r rule: ReadPhysicalRecord.induct)
  case (1 ops fragment r)
  obtain st buf f where read: "sf_Read ops kBlockSize (lr_file r) = (st, buf, f)" by (metis prod_cases3)
  let ?r = "r\<lparr>lr_file := f, lr_buffer := buf, lr_end_of_buffer_offset := lr_end_of_buffer_offset r + of_nat (length buf)\<rparr>"
  let ?r' = "if length buf < kBlockSize then ?r\<lparr>lr_eof := True\<rparr> else ?r"
  have flags: "same_flags r ?r" "same_flags ?r' x = same_flags r x" for x by (simp_all add: same_flags_def)
  show ?case
  proof (cases "length (lr_buffer r) < kHeaderSize \<and> \<not> lr_eof r \<and> ok st")
    case False
    then show ?thesis
      using flags(1) by (auto simp: ReadPhysicalRecord.simps [of ops fragment r] read Let_def simp del: block_sizes)
  next
    case True
    then show ?thesis
      using "1.IH" [OF _ _ read [symmetric] refl refl refl] flags(2)
      by (simp add: ReadPhysicalRecord.simps [of ops fragment r] read Let_def del: block_sizes)
  qed
qed

lemma read_step_flags:
  "case read_step ops st of Inl (x, r') \<Rightarrow> same_flags (rs_reader st) r' | Inr st' \<Rightarrow> same_flags (rs_reader st) (rs_reader st')"
proof -
  obtain t q r where r: "ReadPhysicalRecord ops (rs_fragment st) (rs_reader st) = (t, q, r)" by (metis prod_cases3)
  then have "same_flags (rs_reader st) r" using ReadPhysicalRecord_flags [of "rs_reader st" ops "rs_fragment st"] by simp
  then show ?thesis
    by (auto simp: read_step_def r handle_record_def partial_record_def Let_def)
qed

lemma read_record_loop_flags:
  assumes "read_record_loop ops st = Some y"
  shows "same_flags (rs_reader st) (snd y)"
proof (rule read_record_loop.raw_induct [where P = "\<lambda>ops st y. same_flags (rs_reader st) (snd y)", OF _ assms])
  fix loop ops and st :: "'a read_state" and y
  assume IH: "\<And>ops st y. loop ops st = Some y \<Longrightarrow> same_flags (rs_reader st) (snd y)"
    and step: "(case read_step ops st of Inl result \<Rightarrow> Some result | Inr st' \<Rightarrow> loop ops st') = Some y"
  show "same_flags (rs_reader st) (snd y)"
  proof (cases "read_step ops st")
    case (Inl x)
    then show ?thesis using step read_step_flags [of st ops] by (cases x) auto
  next
    case (Inr st')
    then have "same_flags (rs_reader st') (snd y)" "same_flags (rs_reader st) (rs_reader st')"
      using step IH [of ops st' y] read_step_flags [of st ops] by auto
    then show ?thesis by (simp add: same_flags_def)
  qed
qed

text \<open>One changed byte of a physical record, outside its length field, breaks the checksum.\<close>

lemma Unmask_inj: "Unmask x = Unmask y \<Longrightarrow> x = y"
proof -
  assume eq: "Unmask x = Unmask y"
  have "inj Mask" using Unmask_Mask by (metis injI)
  then have "surj Mask" by (rule finite_UNIV_inj_surj [OF finite])
  then obtain a b where "x = Mask a" "y = Mask b" by (meson surjD)
  then show ?thesis using eq by (simp add: Unmask_Mask)
qed

lemma Value_burst: "i < length p \<Longrightarrow> y \<noteq> p ! i \<Longrightarrow> Value (p[i := y]) \<noteq> Value p"
  using Extend_burst [of 0 "take i p" y "drop (Suc i) p" "p ! i"]
  by (auto simp: Value_def upd_conv_take_nth_drop simp flip: id_take_nth_drop)

lemma DecodeFixed32_changed:
  assumes "i < 4" "4 \<le> length p" "y \<noteq> p ! i"
  shows "DecodeFixed32 (p[i := y]) \<noteq> DecodeFixed32 p"
proof
  assume "DecodeFixed32 (p[i := y]) = DecodeFixed32 p"
  then have "take 4 (p[i := y]) = take 4 p" using assms(2) EncodeFixed32_DecodeFixed32 [of p] EncodeFixed32_DecodeFixed32 [of "p[i := y]"] by simp
  then have "take 4 (p[i := y]) ! i = take 4 p ! i" by simp
  then show False using assms by simp
qed

lemma damaged_record:
  fixes t :: RecordType and p s :: bytes
  assumes p: "length p < 65536" and i: "i < 7 + length p" "i \<noteq> 4" "i \<noteq> 5" "y \<noteq> physical_record t p ! i"
  defines "h \<equiv> (physical_record t p)[i := y] @ s"
  shows "unat (h ! 4) + 256 * unat (h ! 5) = length p"
    "Value (take (1 + length p) (drop 6 h)) \<noteq> Unmask (DecodeFixed32 h)"
    "h ! 6 = (if i = 6 then y else of_nat (record_type_code t))"
proof -
  let ?g = "physical_record t p @ s"
  have h: "h = ?g[i := y]" using i(1) by (simp add: h_def list_update_append)
  note g = physical_record_header [OF p, of t s]
  show "unat (h ! 4) + 256 * unat (h ! 5) = length p" using g(1) i by (simp add: h)
  have "?g ! 6 = of_nat (record_type_code t)" by (simp add: physical_record_def record_header_def nth_append Let_def)
  then show "h ! 6 = (if i = 6 then y else of_nat (record_type_code t))" using i(1) by (simp add: h)
  have y: "y \<noteq> ?g ! i" using i by (simp add: nth_append)
  show "Value (take (1 + length p) (drop 6 h)) \<noteq> Unmask (DecodeFixed32 h)"
  proof (cases "i < 4")
    case True
    then have "DecodeFixed32 h \<noteq> DecodeFixed32 ?g" using DecodeFixed32_changed [of i ?g y] y by (simp add: h)
    then show ?thesis using True g(3) Unmask_inj by (auto simp: h drop_update_cancel)
  next
    case False
    let ?q = "take (1 + length p) (drop 6 ?g)"
    have "i = 6 + (i - 6)" using False i by simp
    then have "take (1 + length p) (drop 6 h) = ?q[i - 6 := y]" "?q ! (i - 6) = ?g ! i" "i - 6 < length ?q"
      using i(1) by (simp_all add: h drop_update_swap take_update_swap nth_append)
    then have "Value (take (1 + length p) (drop 6 h)) \<noteq> Value ?q" using Value_burst [of "i - 6" ?q y] y by simp
    moreover have "DecodeFixed32 h = DecodeFixed32 ?g" using False by (simp add: h DecodeFixed32_def)
    ultimately show ?thesis using g(3) by simp
  qed
qed

text \<open>Where the writer stands in its block after the records so far.\<close>

lemma frames_length: "frames bo first data out bo' \<Longrightarrow> bo' mod kBlockSize = (bo + length out) mod kBlockSize"
proof (induction rule: frames.induct)
  case (pad bo first data out bo')
  then have "bo + length (replicate (kBlockSize - bo) (0 :: byte) @ out) = kBlockSize + length out" by simp
  then show ?case using pad.IH by (simp only: mod_add_self1 add_0)
next
  case (more bo a b out bo' first)
  then have "bo + length (physical_record (fragment_type first False) a @ out) = kBlockSize + length out" by simp
  then show ?case using more.IH by (simp only:)
qed (simp add: add.assoc)

lemma scast_byte_zero: "unat (scast (x :: byte) :: u32) = 0 \<longleftrightarrow> x = 0"
proof
  assume "unat (scast x :: u32) = 0"
  then have z: "(scast x :: u32) = 0" by (simp add: unat_eq_zero)
  show "x = 0"
  proof (rule bit_word_eqI)
    fix n assume "n < LENGTH(8)"
    moreover have "bit (scast x :: u32) n = bit (0 :: u32) n" by (simp add: z)
    ultimately show "bit x n = bit 0 n" by (simp add: bit_simps)
  qed
qed simp




context sequential_file
begin

text \<open>Reading complete records leaves the reader in front of what follows them.\<close>

lemma ReadAll_prefix:
  "logged bo rs outs \<Longrightarrow> bo \<le> kBlockSize \<Longrightarrow> reader_at file_ok remaining bo (concat outs @ s) r \<Longrightarrow>
   \<exists>bo' r'. reader_at file_ok remaining bo' s r' \<and> lr_drops r' = lr_drops r \<and> same_flags r r' \<and>
     bo' mod kBlockSize = (bo + length (concat outs)) mod kBlockSize \<and>
     (\<forall>k. ReadAll ops (length rs + k) r = map_option (\<lambda>(ds, r). (rs @ ds, r)) (ReadAll ops k r'))"
proof (induction arbitrary: r rule: logged.induct)
  case (nil bo)
  then show ?case by (intro exI [of _ bo] exI [of _ r]) (simp add: option.map_ident)
next
  case (cons bo d out bo' ds outs)
  have r0: "lr_initial_offset r = 0" using cons.prems(2) by (simp add: reader_at_def)
  let ?st = "\<lparr>rs_fragment = [], rs_in_fragmented = False, rs_prospective = 0, rs_scratch = [], rs_reader = r\<rparr>"
  obtain r1 where r1: "ReadRecord ops r = Some (Some d, r1)" "lr_drops r1 = lr_drops r"
    "reader_at file_ok remaining bo' (concat outs @ s) r1"
    using read_frames [OF cons.hyps(1) _ collecting_start, of "concat outs @ s" r] cons.prems(2) ReadRecord_loop [OF r0] by fastforce
  have flags: "same_flags r r1" using read_record_loop_flags [of ops ?st] r1(1) ReadRecord_loop [OF r0] by simp
  obtain bo2 r2 where r2: "reader_at file_ok remaining bo2 s r2" "lr_drops r2 = lr_drops r1" "same_flags r1 r2"
    "bo2 mod kBlockSize = (bo' + length (concat outs)) mod kBlockSize"
    "\<And>k. ReadAll ops (length ds + k) r1 = map_option (\<lambda>(es, r). (ds @ es, r)) (ReadAll ops k r2)"
    using cons.IH [OF frames_offset [OF cons.hyps(1)] r1(3)] by blast
  have "bo2 mod kBlockSize = (bo + length (concat (out # outs))) mod kBlockSize"
    using r2(4) mod_add_cong [OF frames_length [OF cons.hyps(1)] refl, of "length (concat outs)"] by (simp add: add.assoc)
  moreover have "ReadAll ops (length (d # ds) + k) r = map_option (\<lambda>(es, r). ((d # ds) @ es, r)) (ReadAll ops k r2)" for k
    using r1(1) r2(5) [of k] by (cases "ReadAll ops k r2") auto
  ultimately show ?case
    using r1(2) r2 flags by (intro exI [of _ bo2] exI [of _ r2]) (simp add: same_flags_def)
qed

lemma ReadAll_complete:
  assumes "logged bo rs outs" "reader_at file_ok remaining bo (concat outs) r" "length rs < k"
  shows "\<exists>r'. ReadAll ops k r = Some (rs, r') \<and> lr_drops r' = lr_drops r"
proof -
  have "bo \<le> kBlockSize" using assms(2) by (simp add: reader_at_def)
  from ReadAll_prefix [OF assms(1) this, of "[]" r, unfolded append_Nil2, OF assms(2)] obtain bo' r' where r': "reader_at file_ok remaining bo' [] r'" "lr_drops r' = lr_drops r"
    "\<forall>k. ReadAll ops (length rs + k) r = map_option (\<lambda>(ds, r). (rs @ ds, r)) (ReadAll ops k r')"
    by - (elim exE conjE, rule that)
  obtain k' where "k = length rs + Suc k'" using assms(3) by (metis add_Suc_right less_iff_Suc_add)
  then show ?thesis using r'(2) spec [OF r'(3), of "Suc k'"] read_nothing [OF r'(1)] by auto
qed

text \<open>The block with the damage is dropped to its end.\<close>

lemma read_damaged:
  fixes p rest s :: bytes
  assumes at: "reader_at file_ok remaining bo ((physical_record t p)[i := y] @ rest @ s) r"
    and i: "i < 7 + length p" "i \<noteq> 4" "i \<noteq> 5" "y \<noteq> physical_record t p ! i" "p \<noteq> [] \<or> y \<noteq> 0"
    and fits: "bo + 7 + length p + length rest = kBlockSize \<or> bo + 7 + length p + length rest \<le> kBlockSize \<and> s = []"
    and flags: "lr_reporter r" "lr_checksum r" and t: "t \<noteq> kZeroType"
  shows "\<exists>bo' r'. ReadPhysicalRecord ops fragment r = (kBadRecord, fragment, r') \<and>
    reader_at file_ok remaining bo' s r' \<and> (s \<noteq> [] \<longrightarrow> bo' = kBlockSize) \<and>
    lr_drops r' = lr_drops r @ [(of_nat (7 + length p + length rest), Corruption ''checksum mismatch'' [])]"
proof -
  let ?d = "(physical_record t p)[i := y]" and ?n = "7 + length p + length rest"
  have len: "length p < 65536" using fits by auto
  have buf: "lr_buffer r = ?d @ rest" "remaining (lr_file r) = s"
  proof -
    have "length (?d @ rest) = kBlockSize - bo \<or> length (?d @ rest) \<le> kBlockSize - bo \<and> s = []" using fits by auto
    then have "take (kBlockSize - bo) ((?d @ rest) @ s) = ?d @ rest" by (metis append_eq_conv_conj append_Nil2 take_all)
    then show b: "lr_buffer r = ?d @ rest" using reader_at_buffer [OF at] by (simp only: append_assoc)
    show "remaining (lr_file r) = s" using at b by (simp add: reader_at_def)
  qed
  note h = damaged_record [OF len i(1-4), of rest, folded buf(1)]
  have zero: "\<not> (unat (scast (lr_buffer r ! 6) :: u32) = record_type_code kZeroType \<and> length p = 0)"
    using h(3) i(5) record_type_char [of t] t scast_byte_zero [of y] by (cases t) auto
  define r' where "r' = r\<lparr>lr_buffer := [], lr_drops := lr_drops r @ [(of_nat ?n, Corruption ''checksum mismatch'' [])]\<rparr>"
  have size: "length (lr_buffer r) = ?n" by (simp add: buf(1))
  have "parse_physical_record fragment r = (kBadRecord, fragment, ReportCorruption (of_nat ?n) ''checksum mismatch'' (r\<lparr>lr_buffer := []\<rparr>))"
    unfolding parse_physical_record_def Let_def h(1) size using zero h(2) flags(2) by (simp only: block_sizes) simp
  moreover have "ReportCorruption (of_nat ?n) ''checksum mismatch'' (r\<lparr>lr_buffer := []\<rparr>) = r'"
    using flags(1) at by (simp add: ReportCorruption_def ReportDrop_def r'_def reader_at_def)
  ultimately have "ReadPhysicalRecord ops fragment r = (kBadRecord, fragment, r')"
    using size by (simp add: ReadPhysicalRecord.simps [of ops fragment r])
  moreover have "reader_at file_ok remaining (if lr_eof r then 0 else kBlockSize) s r'"
    using at fits buf by (auto simp: reader_at_def r'_def)
  moreover have "s \<noteq> [] \<longrightarrow> \<not> lr_eof r" using at fits by (auto simp: reader_at_def)
  ultimately show ?thesis by (intro exI [of _ "if lr_eof r then 0 else kBlockSize"] exI [of _ r']) (simp add: r'_def)
qed

lemma ReadRecord_skips_bad:
  assumes "ReadPhysicalRecord ops [] r = (kBadRecord, [], r')" "lr_initial_offset r = 0" "lr_initial_offset r' = 0" "\<not> lr_resyncing r'"
  shows "ReadRecord ops r = ReadRecord ops r'"
proof -
  let ?st = "\<lambda>r. \<lparr>rs_fragment = [], rs_in_fragmented = False, rs_prospective = 0, rs_scratch = [], rs_reader = r\<rparr>"
  have "read_step ops (?st r) = Inr (?st r')"
    using assms read_step_plain [of ops "?st r" kBadRecord "[]" r'] by (simp add: handle_record_def Let_def)
  then show ?thesis using read_record_loop_step(1) ReadRecord_loop assms(2,3) by metis
qed

lemma ReadAll_same: "ReadRecord ops r = ReadRecord ops r' \<Longrightarrow> ReadAll ops k r = ReadAll ops k r'"
  by (cases k) simp_all

text \<open>A block that has been read to its end is followed by the next one.\<close>

lemma ReadRecord_next_block:
  assumes "reader_at file_ok remaining kBlockSize s r"
  shows "\<exists>r1. reader_at file_ok remaining 0 s r1 \<and> lr_drops r1 = lr_drops r \<and> same_flags r r1 \<and> ReadRecord ops r = ReadRecord ops r1"
proof -
  let ?st = "\<lambda>r. \<lparr>rs_fragment = [], rs_in_fragmented = False, rs_prospective = 0, rs_scratch = [], rs_reader = r\<rparr>"
  obtain r1 where r1: "reader_at file_ok remaining 0 s r1" "lr_drops r1 = lr_drops r" "lr_reporter r1 = lr_reporter r"
    "lr_checksum r1 = lr_checksum r" "ReadPhysicalRecord ops [] r = ReadPhysicalRecord ops [] r1"
    using read_new_block [of kBlockSize "[]" s r "[]"] assms by auto
  then have "read_step ops (?st r) = read_step ops (?st r1)" by (simp add: read_step_def)
  then have "read_record_loop ops (?st r) = read_record_loop ops (?st r1)" by (simp add: read_record_loop.simps)
  then have "ReadRecord ops r = ReadRecord ops r1"
    using ReadRecord_loop [of r] ReadRecord_loop [of r1] assms r1(1) by (simp add: reader_at_def)
  then show ?thesis using r1 by (intro exI [of _ r1]) (simp add: same_flags_def)
qed

end

section \<open>The reader always returns\<close>

definition unread :: "('f \<Rightarrow> bytes) \<Rightarrow> 'f Reader \<Rightarrow> nat" where
  "unread remaining r = length (lr_buffer r) + length (remaining (lr_file r))"

lemma Report_unread [simp]:
  "lr_file (ReportDrop n s r) = lr_file r" "lr_buffer (ReportDrop n s r) = lr_buffer r"
  "lr_file (ReportCorruption n m r) = lr_file r" "lr_buffer (ReportCorruption n m r) = lr_buffer r"
  by (simp_all add: ReportDrop_def ReportCorruption_def)

lemma parse_physical_record_unread:
  assumes "parse_physical_record result r = (t, fragment, r')" "7 \<le> length (lr_buffer r)"
  shows "lr_file r' = lr_file r \<and> length (lr_buffer r') < length (lr_buffer r)"
  using assms by (auto simp: parse_physical_record_def Let_def split: if_splits)

context sequential_file
begin

lemma ReadPhysicalRecord_unread:
  "ops' = ops \<Longrightarrow> file_ok (lr_file r) \<Longrightarrow> ReadPhysicalRecord ops' result r = (t, fragment, r') \<Longrightarrow>
   file_ok (lr_file r') \<and> (t = kEof \<or> unread remaining r' < unread remaining r)"
proof (induction ops' result r rule: ReadPhysicalRecord.induct)
  case (1 ops' result r)
  show ?case
  proof (cases "length (lr_buffer r) < kHeaderSize")
    case False
    then show ?thesis
      using "1.prems" parse_physical_record_unread [of result r t fragment r']
      by (simp add: ReadPhysicalRecord.simps [of _ _ r] unread_def)
  next
    case True
    obtain f' where f': "sf_Read ops kBlockSize (lr_file r) = (OK, take kBlockSize (remaining (lr_file r)), f')"
      "file_ok f'" "remaining f' = drop kBlockSize (remaining (lr_file r))"
      using read [OF "1.prems"(2)] by blast
    let ?buf = "take kBlockSize (remaining (lr_file r))"
    let ?r = "r\<lparr>lr_file := f', lr_buffer := ?buf,
      lr_end_of_buffer_offset := lr_end_of_buffer_offset r + of_nat (length ?buf)\<rparr>"
    let ?r1 = "if length ?buf < kBlockSize then ?r\<lparr>lr_eof := True\<rparr> else ?r"
    show ?thesis
    proof (cases "lr_eof r")
      case eof: True
      then show ?thesis
        using True "1.prems" by (auto simp: ReadPhysicalRecord.simps [of _ _ r])
    next
      case False
      have "ReadPhysicalRecord ops result r = ReadPhysicalRecord ops result ?r1"
        by (subst ReadPhysicalRecord.simps)
          (simp only: True False f'(1) Let_def prod.case ok.simps simp_thms if_True if_False)
      moreover have "file_ok (lr_file ?r1)" "unread remaining ?r1 \<le> unread remaining r"
        using f'(2,3) by (auto simp: unread_def)
      ultimately show ?thesis
        using "1.IH" [unfolded "1.prems"(1), OF True False f'(1) [symmetric] refl refl refl] "1.prems"
        by fastforce
    qed
  qed
qed

lemma handle_record_unread:
  assumes "handle_record t st = Inr st'"
  shows "t \<noteq> kEof \<and> lr_file (rs_reader st') = lr_file (rs_reader st) \<and>
    lr_buffer (rs_reader st') = lr_buffer (rs_reader st)"
  using assms by (auto simp: handle_record_def partial_record_def Let_def split: if_splits)

lemma read_step_unread:
  assumes "read_step ops st = Inr st'" "file_ok (lr_file (rs_reader st))"
  shows "file_ok (lr_file (rs_reader st')) \<and>
    unread remaining (rs_reader st') < unread remaining (rs_reader st)"
proof -
  obtain t fragment r where r: "ReadPhysicalRecord ops (rs_fragment st) (rs_reader st) = (t, fragment, r)"
    by (metis prod_cases3)
  note decr = ReadPhysicalRecord_unread [OF refl assms(2) r]
  show ?thesis
    using assms(1) decr r
    by (auto simp: read_step_def unread_def Let_def split: if_splits dest!: handle_record_unread)
qed

lemma read_record_loop_returns:
  "file_ok (lr_file (rs_reader st)) \<Longrightarrow> \<exists>x. read_record_loop ops st = Some x"
proof (induction "unread remaining (rs_reader st)" arbitrary: st rule: less_induct)
  case less
  show ?case
  proof (cases "read_step ops st")
    case (Inr st')
    then show ?thesis
      using less.hyps [of st'] read_step_unread [OF Inr less.prems] read_record_loop_step(1) [OF Inr] by auto
  qed (use read_record_loop_step(2) in blast)
qed

lemma ReadRecord_returns: "file_ok (lr_file r) \<Longrightarrow> \<exists>x. ReadRecord ops r = Some x"
proof -
  assume ok: "file_ok (lr_file r)"
  have "file_ok (snd (sf_Skip ops n (lr_file r)))" for n using skip [OF ok, of n] by auto
  then have "file_ok (lr_file r1)" if "SkipToInitialBlock ops r = (found, r1)" for found r1
    using that ok by (auto simp: SkipToInitialBlock_def Let_def split_beta split: if_splits)
  then show ?thesis
    using ok read_record_loop_returns by (auto simp: ReadRecord_def split: prod.splits)
qed

end

text \<open>The file and the bytes that writing a list of records leaves behind.\<close>

definition log_file :: "bytes list \<Rightarrow> FileState" where
  "log_file rs = lw_dest (snd (AddRecords WritableFileImpl rs (Writer_new FileState_new 0)))"

definition log_contents :: "bytes list \<Rightarrow> bytes" where
  "log_contents rs = file_contents (log_file rs)"

lemma log_contents_logged:
  "\<exists>outs. logged 0 rs outs \<and> length outs = length rs \<and> (\<forall>j. log_contents (take j rs) = concat (take j outs)) \<and>
     fst (AddRecords WritableFileImpl rs (Writer_new FileState_new 0)) = OK"
  using mem_write.AddRecords_logged [of "Writer_new FileState_new 0" rs] file_state_ok_new
  by (auto simp: Writer_new_def log_contents_def log_file_def)

lemma Reader_new_at:
  assumes "handle_ok h"
  shows "reader_at handle_ok handle_remaining kBlockSize (handle_remaining h) (Reader_new h reporter checksum 0)"
  using assms by (simp add: reader_at_def Reader_new_def)

text \<open>A reader that has read nothing stands at the end of an imaginary block: offset 0 by another name.\<close>

lemma frames_start:
  assumes "frames 0 first data out bo'"
  shows "frames kBlockSize first data out bo'"
  using frames.pad [OF _ _ assms, of kBlockSize] by simp

lemma logged_start: "logged 0 rs outs \<Longrightarrow> logged kBlockSize rs outs"
  by (cases rule: logged.cases) (auto intro: logged.intros frames_start simp del: block_sizes)

section \<open>Properties\<close>

text \<open>
  C7. Crash recovery: any number of records, of any sizes, written to a fresh file and then cut at
  an arbitrary byte position (a crash in the middle of an append, a partial block, a partial header)
  are read back as exactly the records that were completely written before the cut, in order, and
  the reader reports no corruption; with no cut all records come back.
\<close>

theorem log_crash_recovery:
  assumes "file_state_ok f" "file_contents f = take n (log_contents rs)" "length rs < k"
  shows "\<exists>m r. ReadAll SequentialFileImpl k (Reader_new \<lparr>sh_file = f, sh_pos = 0\<rparr> True checksum 0) =
      Some (take m rs, r) \<and> lr_drops r = [] \<and> m \<le> length rs \<and>
      length (log_contents (take m rs)) \<le> n \<and>
      (m < length rs \<longrightarrow> n < length (log_contents (take (Suc m) rs)))"
proof -
  obtain outs where outs: "logged 0 rs outs" "length outs = length rs"
    "\<And>j. log_contents (take j rs) = concat (take j outs)"
    using log_contents_logged by blast
  let ?h = "\<lparr>sh_file = f, sh_pos = 0\<rparr>"
  have h: "handle_ok ?h" "handle_remaining ?h = take n (concat outs)"
    using assms outs(2) outs(3) [of "length rs"] by (simp_all add: handle_ok_def handle_remaining_def)
  show ?thesis
    using mem_read.ReadAll_logged [OF logged_start [OF outs(1)] _ assms(3)]
      Reader_new_at [OF h(1), of True checksum] h(2) outs(3) by (fastforce simp: Reader_new_def)
qed

theorem log_crash_recovery_witness:
  "file_state_ok (log_file [[1, 2], []]) \<and>
   (\<exists>m r. ReadAll SequentialFileImpl 3 (Reader_new \<lparr>sh_file = log_file [[1, 2], []], sh_pos = 0\<rparr> True True 0) =
      Some (take m [[1, 2], []], r) \<and> lr_drops r = [])"
proof -
  have "file_state_ok (log_file [[1, 2], []])"
    using mem_write.AddRecords_logged [of "Writer_new FileState_new 0" "[[1, 2], []]"] file_state_ok_new
    by (auto simp: Writer_new_def log_file_def)
  moreover have "file_contents (log_file [[1, 2], []]) =
      take (length (log_contents [[1, 2], []])) (log_contents [[1, 2], []])"
    by (simp add: log_contents_def)
  ultimately show ?thesis
    using log_crash_recovery [of "log_file [[1, 2], []]" _ "[[1, 2], []]" 3 True] by fastforce
qed

text \<open>
  C29. \<open>ReadRecord\<close> returns on every file, whatever its bytes and whatever the initial offset: each
  round of its loop consumes input, and corrupt input cannot make it spin.
\<close>

theorem log_reader_returns:
  assumes "file_state_ok f" "pos \<le> fs_size f"
  shows "\<exists>record r'. ReadRecord SequentialFileImpl
    (Reader_new \<lparr>sh_file = f, sh_pos = pos\<rparr> reporter checksum initial_offset) = Some (record, r')"
  using mem_read.ReadRecord_returns [of "Reader_new \<lparr>sh_file = f, sh_pos = pos\<rparr> reporter checksum initial_offset"]
    assms by (simp add: Reader_new_def handle_ok_def)

theorem log_reader_returns_witness:
  "\<exists>record r'. ReadRecord SequentialFileImpl
    (Reader_new \<lparr>sh_file = FileState_new, sh_pos = 0\<rparr> True True 5) = Some (record, r')"
  using log_reader_returns [of FileState_new 0 True True 5] file_state_ok_new by simp



end
