(* ===== verification/Filename.thy ===== *)
theory Filename
  imports Logging MemEnv "HOL-Library.Monad_Syntax"
begin

text \<open>
  \<open>db/filename.cc\<close> and the whole-file helpers of \<open>util/env.cc\<close>: the names of the files of a
  database, their parser, and the switch of the \<open>CURRENT\<close> file, run on the in-memory environment.
\<close>

section \<open>Names\<close>

datatype FileType =
    kLogFile | kDBLockFile | kTableFile | kDescriptorFile | kCurrentFile | kTempFile | kInfoLogFile

text \<open>The conversion \<open>%06llu\<close>.\<close>

definition decimal6 :: "nat \<Rightarrow> string" where
  "decimal6 n = (let s = decimal n in replicate (6 - length s) CHR ''0'' @ s)"

definition MakeFileName :: "string \<Rightarrow> u64 \<Rightarrow> string \<Rightarrow> string" where
  "MakeFileName dbname number suffix =
     dbname @ ''/'' @ decimal6 (unat number) @ ''.'' @ suffix"

definition LogFileName :: "string \<Rightarrow> u64 \<Rightarrow> string" where
  "LogFileName dbname number = MakeFileName dbname number ''log''"

definition TableFileName :: "string \<Rightarrow> u64 \<Rightarrow> string" where
  "TableFileName dbname number = MakeFileName dbname number ''ldb''"

definition SSTTableFileName :: "string \<Rightarrow> u64 \<Rightarrow> string" where
  "SSTTableFileName dbname number = MakeFileName dbname number ''sst''"

definition DescriptorFileName :: "string \<Rightarrow> u64 \<Rightarrow> string" where
  "DescriptorFileName dbname number = dbname @ ''/MANIFEST-'' @ decimal6 (unat number)"

definition CurrentFileName :: "string \<Rightarrow> string" where
  "CurrentFileName dbname = dbname @ ''/CURRENT''"

definition LockFileName :: "string \<Rightarrow> string" where
  "LockFileName dbname = dbname @ ''/LOCK''"

definition TempFileName :: "string \<Rightarrow> u64 \<Rightarrow> string" where
  "TempFileName dbname number = MakeFileName dbname number ''dbtmp''"

definition InfoLogFileName :: "string \<Rightarrow> string" where
  "InfoLogFileName dbname = dbname @ ''/LOG''"

definition OldInfoLogFileName :: "string \<Rightarrow> string" where
  "OldInfoLogFileName dbname = dbname @ ''/LOG.old''"

definition ParseFileName :: "string \<Rightarrow> (u64 \<times> FileType) option" where
  "ParseFileName filename =
     (let rest = filename
      in if rest = ''CURRENT'' then Some (0, kCurrentFile)
         else if rest = ''LOCK'' then Some (0, kDBLockFile)
         else if rest = ''LOG'' \<or> rest = ''LOG.old'' then Some (0, kInfoLogFile)
         else if take 9 rest = ''MANIFEST-'' then
           let (found, rest, num) = ConsumeDecimalNumber (drop 9 rest) 0
           in if \<not> found then None
              else if rest \<noteq> [] then None
              else Some (num, kDescriptorFile)
         else
           let (found, suffix, num) = ConsumeDecimalNumber rest 0
           in if \<not> found then None
              else if suffix = ''.log'' then Some (num, kLogFile)
              else if suffix = ''.sst'' \<or> suffix = ''.ldb'' then Some (num, kTableFile)
              else if suffix = ''.dbtmp'' then Some (num, kTempFile)
              else None)"

section \<open>Whole files\<close>

definition bytes_of :: "string \<Rightarrow> bytes" where
  "bytes_of s = map of_char s"

text \<open>\<open>Sync\<close> and \<open>Close\<close> of the in-memory file return \<open>OK\<close>; \<open>delete file\<close> drops its reference.\<close>

definition DoWriteStringToFile ::
  "bytes \<Rightarrow> string \<Rightarrow> bool \<Rightarrow> InMemoryEnv \<Rightarrow> (Status \<times> InMemoryEnv) option" where
  "DoWriteStringToFile data fname should_sync env =
     do {
       (s, p, env) \<leftarrow> NewWritableFile fname env;
       if \<not> ok s then Some (s, env)
       else do {
         file \<leftarrow> p;
         (s, env) \<leftarrow> handle_append file data env;
         let s = (if ok s \<and> should_sync then OK else s);
         let s = (if ok s then OK else s);
         env \<leftarrow> handle_close file env;
         if \<not> ok s then do { (_, env) \<leftarrow> RemoveFile fname env; Some (s, env) }
         else Some (s, env)
       }
     }"

definition WriteStringToFileSync :: "bytes \<Rightarrow> string \<Rightarrow> InMemoryEnv \<Rightarrow> (Status \<times> InMemoryEnv) option" where
  "WriteStringToFileSync data fname env = DoWriteStringToFile data fname True env"

definition SetCurrentFile :: "string \<Rightarrow> u64 \<Rightarrow> InMemoryEnv \<Rightarrow> (Status \<times> InMemoryEnv) option" where
  "SetCurrentFile dbname descriptor_number env =
     (let manifest = DescriptorFileName dbname descriptor_number;
          contents = drop (length dbname + 1) manifest;
          tmp = TempFileName dbname descriptor_number
      in do {
           (s, env) \<leftarrow> WriteStringToFileSync (bytes_of (contents @ [CHR 0x0A])) tmp env;
           (s, env) \<leftarrow> (if ok s then RenameFile tmp (CurrentFileName dbname) env else Some (s, env));
           if \<not> ok s then do { (_, env) \<leftarrow> RemoveFile tmp env; Some (s, env) }
           else Some (s, env)
         })"

text \<open>The loop of \<open>ReadFileToString\<close> over any sequential file; it ends only at an empty read.\<close>

partial_function (option) read_fragments ::
  "'f SequentialFile \<Rightarrow> bytes \<Rightarrow> 'f \<Rightarrow> (Status \<times> bytes) option" where
  "read_fragments ops data f =
     (case sf_Read ops 8192 f of (s, fragment, f) \<Rightarrow>
        if \<not> ok s then Some (s, data)
        else if fragment = [] then Some (s, data @ fragment)
        else read_fragments ops (data @ fragment) f)"

section \<open>Parsing inverts naming\<close>

lemma decimal6_digits: "list_all is_digit (decimal6 n)" "decimal6 n \<noteq> []"
proof -
  have "is_digit CHR ''0''" by (simp add: is_digit_def)
  then show "list_all is_digit (decimal6 n)" "decimal6 n \<noteq> []"
    using decimal_digits [of n] by (auto simp: decimal6_def Let_def list_all_iff)
qed

lemma digits_value_zeros: "digits_value 0 (replicate k CHR ''0'' @ ds) = digits_value 0 ds"
  by (induction k) (simp_all add: digits_value_def digit_value_def)

lemma digits_value_decimal6: "digits_value 0 (decimal6 n) = n"
  by (simp add: decimal6_def Let_def digits_value_zeros digits_value_decimal)

lemma consume_decimal6:
  assumes "rest = [] \<or> \<not> is_digit (hd rest)"
  shows "ConsumeDecimalNumber (decimal6 (unat num) @ rest) val = (True, rest, num)"
proof -
  have "unat num < 2 ^ 64" using unsigned_less [of num, where 'a = nat] by simp
  then show ?thesis
    using assms decimal6_digits [of "unat num"]
    by (simp add: ConsumeDecimalNumber_def consume_digits_eq digits_value_decimal6 Let_def)
qed

lemma digits_not_name:
  assumes "list_all is_digit ds" "ds \<noteq> []" "name \<noteq> []" "\<not> is_digit (hd name)"
  shows "ds @ s \<noteq> name" "take n (ds @ s) \<noteq> name"
  using assms by (cases ds; cases n; cases name; auto)+

lemma ParseFileName_number:
  assumes "suffix = [] \<or> \<not> is_digit (hd suffix)"
  shows "ParseFileName (decimal6 (unat num) @ suffix) =
    (if suffix = ''.log'' then Some (num, kLogFile)
     else if suffix = ''.sst'' \<or> suffix = ''.ldb'' then Some (num, kTableFile)
     else if suffix = ''.dbtmp'' then Some (num, kTempFile) else None)"
  unfolding ParseFileName_def Let_def
  using digits_not_name [where ds = "decimal6 (unat num)" and s = suffix, OF decimal6_digits]
  by (simp add: consume_decimal6 [OF assms] is_digit_def)

lemma ParseFileName_manifest:
  "ParseFileName (''MANIFEST-'' @ decimal6 (unat num)) = Some (num, kDescriptorFile)"
  using consume_decimal6 [of "[]" num 0] by (simp add: ParseFileName_def)

section \<open>Reading a whole file\<close>

context sequential_file
begin

lemma read_fragments_all:
  "file_ok f \<Longrightarrow> read_fragments ops data f = Some (OK, data @ remaining f)"
proof (induction "length (remaining f)" arbitrary: f data rule: less_induct)
  case less
  obtain f' where f': "sf_Read ops 8192 f = (OK, take 8192 (remaining f), f')" "file_ok f'"
    "remaining f' = drop 8192 (remaining f)"
    using read [OF less.prems] by blast
  show ?case
  proof (cases "remaining f = []")
    case False
    then show ?thesis
      using less.hyps [of f'] f' by (simp add: read_fragments.simps [of ops data f])
  qed (use f' in \<open>simp add: read_fragments.simps [of ops data f]\<close>)
qed

end

section \<open>Switching the current manifest\<close>

definition file_at :: "InMemoryEnv \<Rightarrow> string \<Rightarrow> bytes option" where
  "file_at env fname =
     (case map_of (me_file_map env) fname of
        Some (Some a) \<Rightarrow> map_option file_contents (me_heap env a)
      | _ \<Rightarrow> None)"

lemma NewWritableFile_SomeD:
  assumes "NewWritableFile fname env = Some (s, p, env')"
  shows "s = OK \<and> (\<exists>a. p = Some a \<and> map_of (me_file_map env') fname = Some (Some a) \<and>
    map_option file_contents (me_heap env' a) = Some [])"
  using assms
  by (auto simp: NewWritableFile_def Ref_def deref_def set_file_def new_FileState_def Let_def
      map_of_fm_put FileState_new_def Truncate_def file_contents_def split: option.splits)

lemma handle_append_SomeD:
  assumes "handle_append a data env = Some (s, env')" "env_ok (env, a # hs)"
  shows "s = OK \<and> me_file_map env' = me_file_map env \<and>
    map_option file_contents (me_heap env' a) = map_option (\<lambda>c. c @ data) (map_option file_contents (me_heap env a))"
proof -
  obtain f where f: "me_heap env a = Some f" "deref (Some a) env = Some (a, f)" "file_state_ok f"
    using store_ok_deref [OF env_okD(3) [OF assms(2)], of a] ref_count_handle [of a "a # hs"] by auto
  then show ?thesis
    using assms(1) Append_loop_ok [OF f(3)]
    by (auto simp: handle_append_def FileState_Append_def set_file_def)
qed

lemma close_keeps_contents:
  assumes ok: "env_ok (env, a # hs)" and "map_of (me_file_map env) fname = Some (Some a)"
  shows "\<exists>env'. handle_close a env = Some env' \<and> env_ok (env', hs) \<and>
    me_file_map env' = me_file_map env \<and> file_at env' fname = file_at env fname"
proof -
  have "1 < ref_count (me_file_map env) (a # hs) a"
    using ref_count_entry [OF assms(2), of hs] by (simp add: ref_count_def)
  then have "\<exists>env'. handle_close a env = Some env' \<and> me_file_map env' = me_file_map env \<and>
      map_option file_contents (me_heap env' a) = map_option file_contents (me_heap env a)"
    using Unref_ok [OF env_okD(3) [OF ok], of a] by (auto simp: handle_close_def)
  then show ?thesis
    using handle_close_ok [OF ok, of 0] assms(2) by (auto simp: file_at_def)
qed

lemma DoWriteStringToFile_ok:
  assumes ok: "env_ok (env, hs)"
  shows "\<exists>env'. DoWriteStringToFile data fname sync env = Some (OK, env') \<and> env_ok (env', hs) \<and>
    file_at env' fname = Some data"
proof -
  obtain s p env1 where open1: "NewWritableFile fname env = Some (s, p, env1)"
    using NewWritableFile_ok [OF ok, of fname] by (auto simp: opened_handle_def)
  then obtain a where a: "s = OK" "p = Some a" "map_of (me_file_map env1) fname = Some (Some a)"
    "map_option file_contents (me_heap env1 a) = Some []" using NewWritableFile_SomeD by blast
  have ok1: "env_ok (env1, a # hs)"
    using NewWritableFile_ok [OF ok, of fname] open1 a(2) by (simp add: opened_handle_def)
  obtain s2 env2 where app: "handle_append a data env1 = Some (s2, env2)" "env_ok (env2, a # hs)"
    using handle_append_ok [OF ok1, of 0 data] by auto
  note env2 = handle_append_SomeD [OF app(1) ok1]
  have entry: "map_of (me_file_map env2) fname = Some (Some a)" using env2 a(3) by simp
  obtain env3 where "handle_close a env2 = Some env3" "env_ok (env3, hs)" "file_at env3 fname = file_at env2 fname"
    using close_keeps_contents [OF app(2) entry] by blast
  moreover have "file_at env2 fname = Some data"
    using env2 entry a(4) by (simp add: file_at_def)
  ultimately show ?thesis
    using open1 a(1,2) app(1) env2 by (simp add: DoWriteStringToFile_def)
qed

lemma RenameFile_contents:
  assumes ok: "env_ok (env, hs)" and "src \<noteq> target" "file_at env src = Some data"
  shows "\<exists>env'. RenameFile src target env = Some (OK, env') \<and> env_ok (env', hs) \<and>
    file_at env' target = Some data \<and> \<not> FileExists src env'"
proof -
  obtain a where a: "map_of (me_file_map env) src = Some (Some a)"
    "map_option file_contents (me_heap env a) = Some data"
    using assms(3) by (auto simp: file_at_def split: option.splits)
  obtain env1 where env1: "RemoveFileInternal target env = Some env1"
    "me_file_map env1 = fm_erase target (me_file_map env)"
    "\<And>b. 0 < ref_count (fm_erase target (me_file_map env)) hs b \<Longrightarrow>
      map_option file_contents (me_heap env1 b) = map_option file_contents (me_heap env b)"
    using RemoveFileInternal_ok [OF ok, of target] by blast
  have src: "map_of (fm_erase target (me_file_map env)) src = Some (Some a)"
    using a(1) assms(2) by (simp add: fm_erase_facts(3))
  then have "map_option file_contents (me_heap env1 a) = Some data"
    using env1(3) [OF ref_count_entry [OF src]] a(2) by simp
  moreover obtain s env' where ren: "RenameFile src target env = Some (s, env')" "env_ok (env', hs)"
    using RenameFile_ok [OF ok assms(2)] by blast
  ultimately show ?thesis
    using a(1) env1(1,2) src assms(2)
    by (auto simp: RenameFile_def FileExists_def file_at_def fm_erase_facts(3) map_of_fm_put)
qed

lemma temp_not_current: "TempFileName dbname n \<noteq> CurrentFileName dbname"
  using digits_not_name(1) [where ds = "decimal6 (unat n)" and s = "''.dbtmp''" and name = "''CURRENT''",
      OF decimal6_digits]
  by (simp add: TempFileName_def CurrentFileName_def MakeFileName_def is_digit_def)

section \<open>Properties\<close>

text \<open>
  C38. Every name the database generates parses back to its type and number, zero padding included,
  for all 64-bit file numbers.
\<close>

theorem parse_file_names:
  "ParseFileName (drop (length dbname + 1) (LogFileName dbname n)) = Some (n, kLogFile) \<and>
   ParseFileName (drop (length dbname + 1) (TableFileName dbname n)) = Some (n, kTableFile) \<and>
   ParseFileName (drop (length dbname + 1) (SSTTableFileName dbname n)) = Some (n, kTableFile) \<and>
   ParseFileName (drop (length dbname + 1) (TempFileName dbname n)) = Some (n, kTempFile) \<and>
   ParseFileName (drop (length dbname + 1) (DescriptorFileName dbname n)) = Some (n, kDescriptorFile) \<and>
   ParseFileName (drop (length dbname + 1) (CurrentFileName dbname)) = Some (0, kCurrentFile) \<and>
   ParseFileName (drop (length dbname + 1) (LockFileName dbname)) = Some (0, kDBLockFile) \<and>
   ParseFileName (drop (length dbname + 1) (InfoLogFileName dbname)) = Some (0, kInfoLogFile) \<and>
   ParseFileName (drop (length dbname + 1) (OldInfoLogFileName dbname)) = Some (0, kInfoLogFile)"
proof -
  have "ParseFileName ''CURRENT'' = Some (0, kCurrentFile)" "ParseFileName ''LOCK'' = Some (0, kDBLockFile)"
    "ParseFileName ''LOG'' = Some (0, kInfoLogFile)" "ParseFileName ''LOG.old'' = Some (0, kInfoLogFile)"
    by (simp_all add: ParseFileName_def)
  then show ?thesis
    using ParseFileName_manifest [of n]
    by (simp add: LogFileName_def TableFileName_def SSTTableFileName_def TempFileName_def
        DescriptorFileName_def CurrentFileName_def LockFileName_def InfoLogFileName_def
        OldInfoLogFileName_def MakeFileName_def ParseFileName_number is_digit_def)
qed

text \<open>
  C39. \<open>SetCurrentFile\<close> on the in-memory environment: in every reachable state it succeeds, leaves
  in \<open>CURRENT\<close> exactly the manifest's name and a newline (whatever \<open>CURRENT\<close> held before), leaves no
  temporary file behind, and keeps the environment's reference counts exact.
\<close>

theorem set_current_file:
  assumes "env_reachable (env, hs)"
  shows "\<exists>env'. SetCurrentFile dbname n env = Some (OK, env') \<and> env_ok (env', hs) \<and>
    file_at env' (CurrentFileName dbname) =
      Some (bytes_of (''MANIFEST-'' @ decimal6 (unat n) @ [CHR 0x0A])) \<and>
    \<not> FileExists (TempFileName dbname n) env'"
proof -
  have ok: "env_ok (env, hs)" using assms by (rule env_reachable_ok)
  let ?data = "bytes_of (''MANIFEST-'' @ decimal6 (unat n) @ [CHR 0x0A])"
  obtain env1 where env1: "DoWriteStringToFile ?data (TempFileName dbname n) True env = Some (OK, env1)"
    "env_ok (env1, hs)" "file_at env1 (TempFileName dbname n) = Some ?data"
    using DoWriteStringToFile_ok [OF ok] by blast
  then show ?thesis
    using RenameFile_contents [OF env1(2) temp_not_current env1(3)]
    by (auto simp: SetCurrentFile_def WriteStringToFileSync_def DescriptorFileName_def)
qed

theorem set_current_file_witness:
  "\<exists>env'. SetCurrentFile ''db'' 5 InMemoryEnv_new = Some (OK, env') \<and>
     \<not> FileExists (TempFileName ''db'' 5) env'"
  using set_current_file [OF env_reachable.start, of "''db''" 5] by blast

text \<open>
  \<open>ReadFileToString\<close> on a file that returns no error terminates and returns the whole file.
\<close>

theorem read_file_to_string:
  assumes "file_state_ok f"
  shows "read_fragments SequentialFileImpl [] \<lparr>sh_file = f, sh_pos = 0\<rparr> = Some (OK, file_contents f)"
  using mem_read.read_fragments_all [of "\<lparr>sh_file = f, sh_pos = 0\<rparr>" "[]"] assms
  by (simp add: handle_ok_def handle_remaining_def)

end
