(* ===== verification/SkipList.thy ===== *)
theory SkipList
  imports Comparator
begin

text \<open>
  \<open>util/random.h\<close> and \<open>db/skiplist.h\<close>: the pseudo-random generator and the skip list behind the
  memtable. Nodes live in an explicit store indexed by address, with the arrays of next pointers the
  code follows and overwrites; the head node has address 0. A null pointer is \<open>None\<close>. Loops that
  chase pointers are partial functions: that they return is proved from the invariant. Memory
  ordering is not modelled (one writer, no concurrent reader).
\<close>

section \<open>Random numbers\<close>

definition Random_new :: "u32 \<Rightarrow> u32" where
  "Random_new s =
     (let seed = s AND 0x7fffffff in if seed = 0 \<or> seed = 2147483647 then 1 else seed)"

definition Random_Next :: "u32 \<Rightarrow> u32" where
  "Random_Next seed =
     (let M = 2147483647 :: u32; A = 16807 :: u64;
          product = ucast seed * A;
          seed = ucast (drop_bit 31 product + (product AND ucast M))
      in if seed > M then seed - M else seed)"

definition OneIn :: "nat \<Rightarrow> u32 \<Rightarrow> bool \<times> u32" where
  "OneIn n seed = (let seed = Random_Next seed in (unat seed mod n = 0, seed))"

section \<open>The list and its operations\<close>

type_synonym sl_addr = nat

record 'k Node =
  node_key :: 'k
  node_next :: "sl_addr option list"

record 'k SkipList =
  sl_nodes :: "sl_addr \<Rightarrow> 'k Node"
  sl_fresh :: sl_addr
  sl_max_height :: nat
  sl_rnd :: u32

definition kMaxHeight :: nat where "kMaxHeight = 12"

definition head :: sl_addr where "head = 0"

definition Next :: "'k SkipList \<Rightarrow> sl_addr \<Rightarrow> nat \<Rightarrow> sl_addr option" where
  "Next sl x n = node_next (sl_nodes sl x) ! n"

definition SetNext :: "sl_addr \<Rightarrow> nat \<Rightarrow> sl_addr option \<Rightarrow> 'k SkipList \<Rightarrow> 'k SkipList" where
  "SetNext x n y sl =
     sl\<lparr>sl_nodes := (sl_nodes sl)(x := (sl_nodes sl x)
          \<lparr>node_next := (node_next (sl_nodes sl x))[n := y]\<rparr>)\<rparr>"

text \<open>The head's key is never looked at: \<open>any key will do\<close>.\<close>

definition SkipList_new :: "'k \<Rightarrow> 'k SkipList" where
  "SkipList_new any =
     \<lparr>sl_nodes = (\<lambda>_. \<lparr>node_key = any, node_next = replicate kMaxHeight None\<rparr>), sl_fresh = 1,
      sl_max_height = 1, sl_rnd = Random_new 0xdeadbeef\<rparr>"

function random_height_loop :: "nat \<Rightarrow> u32 \<Rightarrow> nat \<times> u32" where
  "random_height_loop height rnd =
     (if height < kMaxHeight then
        let (one, rnd) = OneIn 4 rnd
        in if one then random_height_loop (height + 1) rnd else (height, rnd)
      else (height, rnd))"
  by pat_completeness auto
termination
  by (relation "measure (\<lambda>(height, rnd). kMaxHeight - height)") auto

declare random_height_loop.simps [simp del]

definition RandomHeight :: "u32 \<Rightarrow> nat \<times> u32" where
  "RandomHeight rnd = random_height_loop 1 rnd"

definition KeyIsAfterNode ::
  "('k \<Rightarrow> 'k \<Rightarrow> int) \<Rightarrow> 'k SkipList \<Rightarrow> 'k \<Rightarrow> sl_addr option \<Rightarrow> bool" where
  "KeyIsAfterNode cmp sl key n =
     (case n of None \<Rightarrow> False | Some a \<Rightarrow> cmp (node_key (sl_nodes sl a)) key < 0)"

partial_function (option) find_ge_loop ::
  "('k \<Rightarrow> 'k \<Rightarrow> int) \<Rightarrow> 'k SkipList \<Rightarrow> 'k \<Rightarrow> (nat \<Rightarrow> sl_addr) \<Rightarrow> sl_addr \<Rightarrow> nat \<Rightarrow>
   (sl_addr option \<times> (nat \<Rightarrow> sl_addr)) option" where
  "find_ge_loop cmp sl key prev x level =
     (let next = Next sl x level
      in if KeyIsAfterNode cmp sl key next then find_ge_loop cmp sl key prev (the next) level
         else
           let prev = prev(level := x)
           in if level = 0 then Some (next, prev)
              else find_ge_loop cmp sl key prev x (level - 1))"

text \<open>\<open>FindGreaterOrEqual\<close> with the array \<open>prev\<close>; the callers that pass null ignore it.\<close>

definition FindGreaterOrEqual ::
  "('k \<Rightarrow> 'k \<Rightarrow> int) \<Rightarrow> 'k SkipList \<Rightarrow> 'k \<Rightarrow> (nat \<Rightarrow> sl_addr) \<Rightarrow>
   (sl_addr option \<times> (nat \<Rightarrow> sl_addr)) option" where
  "FindGreaterOrEqual cmp sl key prev =
     find_ge_loop cmp sl key prev head (sl_max_height sl - 1)"

partial_function (option) find_lt_loop ::
  "('k \<Rightarrow> 'k \<Rightarrow> int) \<Rightarrow> 'k SkipList \<Rightarrow> 'k \<Rightarrow> sl_addr \<Rightarrow> nat \<Rightarrow> sl_addr option" where
  "find_lt_loop cmp sl key x level =
     (case Next sl x level of
        None \<Rightarrow> if level = 0 then Some x else find_lt_loop cmp sl key x (level - 1)
      | Some next \<Rightarrow>
          if cmp (node_key (sl_nodes sl next)) key \<ge> 0
          then if level = 0 then Some x else find_lt_loop cmp sl key x (level - 1)
          else find_lt_loop cmp sl key next level)"

definition FindLessThan :: "('k \<Rightarrow> 'k \<Rightarrow> int) \<Rightarrow> 'k SkipList \<Rightarrow> 'k \<Rightarrow> sl_addr option" where
  "FindLessThan cmp sl key = find_lt_loop cmp sl key head (sl_max_height sl - 1)"

partial_function (option) find_last_loop :: "'k SkipList \<Rightarrow> sl_addr \<Rightarrow> nat \<Rightarrow> sl_addr option" where
  "find_last_loop sl x level =
     (case Next sl x level of
        None \<Rightarrow> if level = 0 then Some x else find_last_loop sl x (level - 1)
      | Some next \<Rightarrow> find_last_loop sl next level)"

definition FindLast :: "'k SkipList \<Rightarrow> sl_addr option" where
  "FindLast sl = find_last_loop sl head (sl_max_height sl - 1)"

text \<open>Linking the new node \<open>x\<close> at level \<open>i\<close>.\<close>

definition link_level :: "(nat \<Rightarrow> sl_addr) \<Rightarrow> sl_addr \<Rightarrow> nat \<Rightarrow> 'k SkipList \<Rightarrow> 'k SkipList" where
  "link_level prev x i sl =
     (let sl = SetNext x i (Next sl (prev i) i) sl in SetNext (prev i) i (Some x) sl)"

text \<open>A node fresh from the arena has uninitialised links, here null.\<close>

definition NewNode :: "'k \<Rightarrow> nat \<Rightarrow> 'k SkipList \<Rightarrow> sl_addr \<times> 'k SkipList" where
  "NewNode key height sl =
     (let a = sl_fresh sl
      in (a, sl\<lparr>sl_nodes := (sl_nodes sl)(a := \<lparr>node_key = key, node_next = replicate height None\<rparr>),
               sl_fresh := a + 1\<rparr>))"

definition Insert :: "('k \<Rightarrow> 'k \<Rightarrow> int) \<Rightarrow> 'k \<Rightarrow> 'k SkipList \<Rightarrow> 'k SkipList option" where
  "Insert cmp key sl =
     (case FindGreaterOrEqual cmp sl key (\<lambda>_. head) of
        None \<Rightarrow> None
      | Some (x, prev) \<Rightarrow>
          let (height, rnd) = RandomHeight (sl_rnd sl);
              sl = sl\<lparr>sl_rnd := rnd\<rparr>;
              (prev, sl) =
                (if height > sl_max_height sl then
                   (\<lambda>i. if sl_max_height sl \<le> i \<and> i < height then head else prev i,
                    sl\<lparr>sl_max_height := height\<rparr>)
                 else (prev, sl));
              (x, sl) = NewNode key height sl
          in Some (fold (link_level prev x) [0..<height] sl))"

definition Contains :: "('k \<Rightarrow> 'k \<Rightarrow> int) \<Rightarrow> 'k SkipList \<Rightarrow> 'k \<Rightarrow> bool option" where
  "Contains cmp sl key =
     map_option (\<lambda>(x, prev). case x of None \<Rightarrow> False | Some a \<Rightarrow> cmp key (node_key (sl_nodes sl a)) = 0)
       (FindGreaterOrEqual cmp sl key (\<lambda>_. head))"

text \<open>Iterators: the current node, or null; the outer option is a call that does not return.\<close>

definition iter_Seek :: "('k \<Rightarrow> 'k \<Rightarrow> int) \<Rightarrow> 'k SkipList \<Rightarrow> 'k \<Rightarrow> sl_addr option option" where
  "iter_Seek cmp sl target = map_option fst (FindGreaterOrEqual cmp sl target (\<lambda>_. head))"

definition iter_SeekToFirst :: "'k SkipList \<Rightarrow> sl_addr option" where
  "iter_SeekToFirst sl = Next sl head 0"

definition iter_SeekToLast :: "'k SkipList \<Rightarrow> sl_addr option option" where
  "iter_SeekToLast sl = map_option (\<lambda>x. if x = head then None else Some x) (FindLast sl)"

definition iter_Next :: "'k SkipList \<Rightarrow> sl_addr \<Rightarrow> sl_addr option" where
  "iter_Next sl x = Next sl x 0"

definition iter_Prev :: "('k \<Rightarrow> 'k \<Rightarrow> int) \<Rightarrow> 'k SkipList \<Rightarrow> sl_addr \<Rightarrow> sl_addr option option" where
  "iter_Prev cmp sl x =
     map_option (\<lambda>x. if x = head then None else Some x)
       (FindLessThan cmp sl (node_key (sl_nodes sl x)))"

section \<open>The invariant\<close>

definition height :: "'k SkipList \<Rightarrow> sl_addr \<Rightarrow> nat" where
  "height sl a = length (node_next (sl_nodes sl a))"

definition key_of :: "'k SkipList \<Rightarrow> sl_addr \<Rightarrow> 'k" where
  "key_of sl a = node_key (sl_nodes sl a)"

definition taller :: "'k SkipList \<Rightarrow> nat \<Rightarrow> sl_addr \<Rightarrow> bool" where
  "taller sl l a \<longleftrightarrow> l < height sl a"

text \<open>Every link of a node points to the first later node that is tall enough.\<close>

fun links_ok :: "'k SkipList \<Rightarrow> sl_addr list \<Rightarrow> bool" where
  "links_ok sl [] = True"
| "links_ok sl (a # ys) \<longleftrightarrow>
     (\<forall>l < height sl a. Next sl a l = find (taller sl l) ys) \<and> links_ok sl ys"

text \<open>The nodes of the list after the head, in order.\<close>

definition sl_inv :: "('k \<Rightarrow> 'k \<Rightarrow> int) \<Rightarrow> 'k SkipList \<Rightarrow> sl_addr list \<Rightarrow> bool" where
  "sl_inv cmp sl ns \<longleftrightarrow>
     links_ok sl (head # ns) \<and> distinct (head # ns) \<and> height sl head = kMaxHeight \<and>
     (\<forall>a\<in>set ns. 1 \<le> height sl a \<and> height sl a \<le> sl_max_height sl) \<and>
     (\<forall>a\<in>set (head # ns). a < sl_fresh sl) \<and>
     1 \<le> sl_max_height sl \<and> sl_max_height sl \<le> kMaxHeight \<and>
     sorted_wrt (\<lambda>a b. cmp (key_of sl a) (key_of sl b) < 0) ns"

lemma sl_invD:
  assumes "sl_inv cmp sl ns"
  shows "links_ok sl (head # ns)" "distinct (head # ns)" "height sl head = kMaxHeight"
    "a \<in> set ns \<Longrightarrow> 1 \<le> height sl a" "a \<in> set ns \<Longrightarrow> height sl a \<le> sl_max_height sl"
    "a \<in> set (head # ns) \<Longrightarrow> a < sl_fresh sl" "1 \<le> sl_max_height sl" "sl_max_height sl \<le> kMaxHeight"
    "sorted_wrt (\<lambda>a b. cmp (key_of sl a) (key_of sl b) < 0) ns"
  using assms unfolding sl_inv_def by blast+

lemma links_okD: "links_ok sl (xs @ a # ys) \<Longrightarrow> l < height sl a \<Longrightarrow> Next sl a l = find (taller sl l) ys"
  by (induction xs) auto

lemma find_split:
  obtains (found) ys1 y ys2 where "ys = ys1 @ y # ys2" "P y" "\<forall>a\<in>set ys1. \<not> P a" "find P (ys @ B) = Some y"
  | (none) "\<forall>a\<in>set ys. \<not> P a" "find P (ys @ B) = find P B"
proof (cases "\<exists>y\<in>set ys. P y")
  case True
  then obtain ys1 y ys2 where "ys = ys1 @ y # ys2" "P y" "\<forall>a\<in>set ys1. \<not> P a"
    by (metis split_list_first_prop)
  moreover from this have "find P (ys @ B) = Some y" by (induction ys1 arbitrary: ys) auto
  ultimately show thesis by (rule found)
next
  case False
  moreover from this have "find P (ys @ B) = find P B" by (induction ys) auto
  ultimately show thesis by (intro none) auto
qed

lemma find_None_filter: "\<forall>a\<in>set ys. \<not> P a \<Longrightarrow> filter P ys = []"
  by (simp add: filter_empty_conv)

lemma find_SomeD: "find P B = Some b \<Longrightarrow> b \<in> set B \<and> P b"
  by (induction B) (auto split: if_splits)

definition first :: "'a list \<Rightarrow> 'a option" where
  "first xs = (case xs of [] \<Rightarrow> None | x # _ \<Rightarrow> Some x)"

lemma case_first: "(case first xs of None \<Rightarrow> n | Some x \<Rightarrow> f x) = (case xs of [] \<Rightarrow> n | x # _ \<Rightarrow> f x)"
  by (cases xs) (simp_all add: first_def)

text \<open>
  The searches: from a node \<open>x\<close> whose successors split into those to be passed (\<open>ys\<close>) and the rest.
\<close>

lemma find_ge_loop_eq:
  assumes B: "\<forall>b\<in>set B. \<not> cmp (key_of sl b) key < 0 \<and> 1 \<le> height sl b"
  shows "links_ok sl (xs @ x # ys @ B) \<Longrightarrow> level < height sl x \<Longrightarrow>
    \<forall>a\<in>set ys. cmp (key_of sl a) key < 0 \<and> 1 \<le> height sl a \<Longrightarrow>
    find_ge_loop cmp sl key prev x level =
      Some (first B, \<lambda>l. if l \<le> level then last (filter (taller sl l) (x # ys)) else prev l)"
proof (induction "length ys + level" arbitrary: xs x ys level prev rule: less_induct)
  case less
  have nxt: "Next sl x level = find (taller sl level) (ys @ B)"
    using less.prems(1,2) by (rule links_okD)
  show ?case
  proof (cases rule: find_split [of ys "taller sl level" B])
    case (found ys1 y ys2)
    have step: "find_ge_loop cmp sl key prev x level = find_ge_loop cmp sl key prev y level"
      using found less.prems(3) nxt
      by (subst find_ge_loop.simps) (simp add: KeyIsAfterNode_def key_of_def)
    have tall: "taller sl l y" if "l \<le> level" for l using found(2) that by (simp add: taller_def)
    have links: "links_ok sl ((xs @ x # ys1) @ y # ys2 @ B)" using less.prems(1) found(1) by simp
    then have "find_ge_loop cmp sl key prev y level =
        Some (first B, \<lambda>l. if l \<le> level then last (filter (taller sl l) (y # ys2)) else prev l)"
      using found less.prems(3) by (intro less.hyps [OF _ links]) (auto simp: taller_def)
    moreover have "last (filter (taller sl l) (y # ys2)) = last (filter (taller sl l) (x # ys))"
      if "l \<le> level" for l using found(1) tall [OF that] by simp
    ultimately show ?thesis using step by auto
  next
    case none
    have stop: "\<not> KeyIsAfterNode cmp sl key (Next sl x level)"
      using nxt none(2) B by (auto simp: KeyIsAfterNode_def key_of_def dest!: find_SomeD split: option.splits)
    have "taller sl level x" using less.prems(2) by (simp add: taller_def)
    then have lx: "last (filter (taller sl level) (x # ys)) = x"
      using find_None_filter [OF none(1)] by simp
    show ?thesis
    proof (cases level)
      case 0
      then have "ys = []" using none(1) less.prems(3) by (cases ys) (auto simp: taller_def)
      moreover have "find (taller sl 0) B = first B" using B by (cases B) (auto simp: taller_def first_def)
      ultimately show ?thesis
        using 0 stop nxt none(2) lx by (subst find_ge_loop.simps) (auto simp: Let_def)
    next
      case (Suc k)
      have "find_ge_loop cmp sl key (prev(level := x)) x k =
          Some (first B, \<lambda>l. if l \<le> k then last (filter (taller sl l) (x # ys)) else (prev(level := x)) l)"
        using less.prems Suc by (intro less.hyps) auto
      then show ?thesis
        using Suc stop lx by (subst find_ge_loop.simps) (auto simp: Let_def le_Suc_eq fun_eq_iff)
    qed
  qed
qed

lemma find_lt_loop_eq:
  assumes B: "\<forall>b\<in>set B. cmp (key_of sl b) key \<ge> 0"
  shows "links_ok sl (xs @ x # ys @ B) \<Longrightarrow> level < height sl x \<Longrightarrow>
    \<forall>a\<in>set ys. cmp (key_of sl a) key < 0 \<and> 1 \<le> height sl a \<Longrightarrow>
    find_lt_loop cmp sl key x level = Some (last (x # ys))"
proof (induction "length ys + level" arbitrary: xs x ys level rule: less_induct)
  case less
  have nxt: "Next sl x level = find (taller sl level) (ys @ B)"
    using less.prems(1,2) by (rule links_okD)
  show ?case
  proof (cases rule: find_split [of ys "taller sl level" B])
    case (found ys1 y ys2)
    have "find_lt_loop cmp sl key x level = find_lt_loop cmp sl key y level"
      using found less.prems(3) nxt by (subst find_lt_loop.simps) (simp add: key_of_def)
    moreover have links: "links_ok sl ((xs @ x # ys1) @ y # ys2 @ B)" using less.prems(1) found(1) by simp
    then have "find_lt_loop cmp sl key y level = Some (last (y # ys2))"
      using found less.prems(3) by (intro less.hyps [OF _ links]) (auto simp: taller_def)
    ultimately show ?thesis using found(1) by simp
  next
    case none
    then have "find_lt_loop cmp sl key x level =
        (if level = 0 then Some x else find_lt_loop cmp sl key x (level - 1))"
      using nxt B by (subst find_lt_loop.simps)
        (auto simp: key_of_def not_less dest!: find_SomeD split: option.splits)
    moreover have "ys = []" if "level = 0"
      using none(1) less.prems(3) that by (cases ys) (auto simp: taller_def)
    moreover have "find_lt_loop cmp sl key x (level - 1) = Some (last (x # ys))" if "level \<noteq> 0"
      using less.prems that by (intro less.hyps) auto
    ultimately show ?thesis by auto
  qed
qed

lemma find_last_loop_eq:
  "links_ok sl (xs @ x # ys) \<Longrightarrow> level < height sl x \<Longrightarrow> \<forall>a\<in>set ys. 1 \<le> height sl a \<Longrightarrow>
   find_last_loop sl x level = Some (last (x # ys))"
proof (induction "length ys + level" arbitrary: xs x ys level rule: less_induct)
  case less
  have nxt: "Next sl x level = find (taller sl level) (ys @ [])"
    using links_okD [OF less.prems(1,2)] by simp
  show ?case
  proof (cases rule: find_split [of ys "taller sl level" "[]"])
    case (found ys1 y ys2)
    have "find_last_loop sl x level = find_last_loop sl y level"
      using found(4) nxt by (subst find_last_loop.simps) simp
    moreover have links: "links_ok sl ((xs @ x # ys1) @ y # ys2)" using less.prems(1) found(1) by simp
    then have "find_last_loop sl y level = Some (last (y # ys2))"
      using found less.prems(3) by (intro less.hyps [OF _ links]) (auto simp: taller_def)
    ultimately show ?thesis using found(1) by simp
  next
    case none
    then have "find_last_loop sl x level =
        (if level = 0 then Some x else find_last_loop sl x (level - 1))"
      using nxt by (subst find_last_loop.simps) simp
    moreover have "ys = []" if "level = 0"
      using none(1) less.prems(3) that by (cases ys) (auto simp: taller_def)
    moreover have "find_last_loop sl x (level - 1) = Some (last (x # ys))" if "level \<noteq> 0"
      using less.prems that by (intro less.hyps) auto
    ultimately show ?thesis by auto
  qed
qed

section \<open>Insertion\<close>

lemma SetNext_facts:
  "height (SetNext x n y sl) a = height sl a" "key_of (SetNext x n y sl) a = key_of sl a"
  "n < height sl x \<Longrightarrow> Next (SetNext x n y sl) a l = (if a = x \<and> l = n then y else Next sl a l)"
  "sl_max_height (SetNext x n y sl) = sl_max_height sl" "sl_fresh (SetNext x n y sl) = sl_fresh sl"
  by (auto simp: SetNext_def height_def key_of_def Next_def)

lemma link_level_Next:
  "i < height sl n \<Longrightarrow> i < height sl (prev i) \<Longrightarrow> prev i \<noteq> n \<Longrightarrow> Next (link_level prev n i sl) a l =
     (if a = prev i \<and> l = i then Some n else if a = n \<and> l = i then Next sl (prev i) i else Next sl a l)"
  by (simp add: link_level_def Let_def SetNext_facts)

text \<open>The effect of linking the first \<open>h\<close> levels of the new node \<open>n\<close>.\<close>

lemma fold_link_level:
  "\<forall>l<h. l < height sl (prev l) \<and> prev l \<noteq> n \<Longrightarrow> h \<le> height sl n \<Longrightarrow>
   height (fold (link_level prev n) [0..<h] sl) a = height sl a \<and>
   key_of (fold (link_level prev n) [0..<h] sl) a = key_of sl a \<and>
   sl_max_height (fold (link_level prev n) [0..<h] sl) = sl_max_height sl \<and>
   sl_fresh (fold (link_level prev n) [0..<h] sl) = sl_fresh sl \<and>
   Next (fold (link_level prev n) [0..<h] sl) a l =
      (if a = n \<and> l < h then Next sl (prev l) l
       else if l < h \<and> a = prev l then Some n else Next sl a l)"
proof (induction h arbitrary: a l)
  case (Suc h)
  let ?sl = "fold (link_level prev n) [0..<h] sl"
  have prems: "\<forall>l<h. l < height sl (prev l) \<and> prev l \<noteq> n" "h \<le> height sl n" using Suc.prems by auto
  note IH = Suc.IH [OF prems]
  have h: "h < height ?sl n" "h < height ?sl (prev h)" "prev h \<noteq> n" using Suc.prems IH by auto
  have "Next (link_level prev n h ?sl) a l =
      (if a = prev h \<and> l = h then Some n else if a = n \<and> l = h then Next ?sl (prev h) h else Next ?sl a l)"
    using h by (rule link_level_Next)
  moreover have "height (link_level prev n h ?sl) a = height ?sl a"
    "key_of (link_level prev n h ?sl) a = key_of ?sl a"
    "sl_max_height (link_level prev n h ?sl) = sl_max_height ?sl"
    "sl_fresh (link_level prev n h ?sl) = sl_fresh ?sl"
    by (simp_all add: link_level_def Let_def SetNext_facts)
  ultimately show ?case
    using IH [of "prev h" h] IH [of a l] h(3) by (auto simp: less_Suc_eq)
qed simp

lemma find_cong_taller:
  "\<forall>a\<in>set ys. height sl' a = height sl a \<Longrightarrow> find (taller sl' l) ys = find (taller sl l) ys"
  by (induction ys) (auto simp: taller_def)

lemma links_ok_cong:
  "links_ok sl ys \<Longrightarrow> \<forall>a\<in>set ys. height sl' a = height sl a \<and> (\<forall>l<height sl a. Next sl' a l = Next sl a l) \<Longrightarrow>
   links_ok sl' ys"
  by (induction ys) (auto simp: find_cong_taller)

lemma links_insert:
  assumes n: "height sl' n = h" "\<forall>l<h. Next sl' n l = find (taller sl l) B" "n \<notin> set B"
    and B: "\<forall>a\<in>set B. height sl' a = height sl a \<and> (\<forall>l<height sl a. Next sl' a l = Next sl a l)"
  shows "links_ok sl (A @ B) \<Longrightarrow> distinct A \<Longrightarrow>
    \<forall>a\<in>set A. height sl' a = height sl a \<and> (\<forall>l<height sl a. Next sl' a l =
      (if l < h \<and> a = prev l then Some n else Next sl a l)) \<Longrightarrow>
    \<forall>l<h. filter (taller sl l) A \<noteq> [] \<longrightarrow> prev l = last (filter (taller sl l) A) \<Longrightarrow>
    links_ok sl' (A @ n # B)"
proof (induction A)
  case Nil
  then show ?case using n B links_ok_cong [of sl B sl'] find_cong_taller [of B sl' sl] by simp
next
  case (Cons a ys)
  have "links_ok sl' (ys @ n # B)" using Cons by (intro Cons.IH) (auto split: if_splits)
  moreover have "Next sl' a l = find (taller sl' l) (ys @ n # B)" if l: "l < height sl a" for l
  proof -
    have old: "Next sl a l = find (taller sl l) (ys @ B)" using Cons.prems(1) l by simp
    have cong: "find (taller sl' l) ys = find (taller sl l) ys" "find (taller sl' l) B = find (taller sl l) B"
      using Cons.prems(3) B by (auto intro!: find_cong_taller)
    have app: "find P (xs @ zs) = (case find P xs of None \<Rightarrow> find P zs | Some x \<Rightarrow> Some x)"
      for P and xs zs :: "sl_addr list" by (induction xs) auto
    have n': "taller sl' l n \<longleftrightarrow> l < h" by (simp add: taller_def n(1))
    show ?thesis
    proof (cases "find (taller sl l) ys")
      case None
      then have "filter (taller sl l) ys = []" by (simp add: find_None_iff filter_empty_conv)
      then have "prev l = a" if "l < h" using Cons.prems(4) that l by (simp add: taller_def [of sl l a])
      then show ?thesis using Cons.prems(3) l old cong None n' by (auto simp: app)
    next
      case (Some y)
      then have "filter (taller sl l) ys \<noteq> []" by (auto simp: filter_empty_conv dest: find_SomeD)
      then have "last (filter (taller sl l) (a # ys)) \<in> set (filter (taller sl l) ys)"
        using last_in_set [of "filter (taller sl l) ys"] by simp
      then have "last (filter (taller sl l) (a # ys)) \<in> set ys" by simp
      then have "a \<noteq> prev l" if "l < h"
        using Cons.prems(2,4) that l by (auto simp: taller_def [of sl l a])
      then show ?thesis using Cons.prems(3) l old cong Some by (auto simp: app)
    qed
  qed
  ultimately show ?case using Cons.prems(3) by simp
qed

lemma random_height_bounds:
  "1 \<le> h \<Longrightarrow> h \<le> kMaxHeight \<Longrightarrow> random_height_loop h rnd = (h', rnd') \<Longrightarrow> 1 \<le> h' \<and> h' \<le> kMaxHeight"
proof (induction h rnd rule: random_height_loop.induct)
  case (1 h rnd)
  obtain one r where one: "OneIn 4 rnd = (one, r)" by fastforce
  show ?case
  proof (cases "h < kMaxHeight \<and> one")
    case True
    then show ?thesis using "1.IH" [OF _ refl one [symmetric]] "1.prems" one
      by (simp add: random_height_loop.simps [of h rnd])
  next
    case False
    then have "random_height_loop h rnd = (h, if h < kMaxHeight then r else rnd)"
      using one by (auto simp: random_height_loop.simps [of h rnd])
    then show ?thesis using "1.prems" by simp
  qed
qed

lemma links_last:
  "links_ok sl (A @ B) \<Longrightarrow> filter (taller sl l) A \<noteq> [] \<Longrightarrow>
   Next sl (last (filter (taller sl l) A)) l = find (taller sl l) B"
proof (induction A)
  case (Cons a ys)
  show ?case
  proof (cases "filter (taller sl l) ys = []")
    case True
    then have "find (taller sl l) (ys @ B) = find (taller sl l) B" by (induction ys) (auto split: if_splits)
    then show ?thesis using Cons.prems True by (auto simp: taller_def [of sl l a] split: if_splits)
  qed (use Cons in \<open>auto split: if_splits\<close>)
qed simp

lemma RandomHeight_bounds: "RandomHeight rnd = (h, rnd') \<Longrightarrow> 1 \<le> h \<and> h \<le> kMaxHeight"
  using random_height_bounds [of 1 rnd h rnd'] by (simp add: RandomHeight_def kMaxHeight_def)

lemma NewNode_facts:
  assumes "NewNode key h sl = (n, sl')"
  shows "n = sl_fresh sl" "sl_fresh sl' = Suc n" "sl_max_height sl' = sl_max_height sl"
    "height sl' a = (if a = n then h else height sl a)" "key_of sl' a = (if a = n then key else key_of sl a)"
    "a \<noteq> n \<Longrightarrow> Next sl' a l = Next sl a l"
  using assms by (auto simp: NewNode_def Let_def height_def key_of_def Next_def)

lemma last_filter_head:
  assumes "P h"
  shows "P (last (filter P (h # A)))" "last (filter P (h # A)) \<in> set (h # A)"
proof -
  have "last (filter P (h # A)) \<in> set (filter P (h # A))" using assms by (intro last_in_set) simp
  then show "P (last (filter P (h # A)))" "last (filter P (h # A)) \<in> set (h # A)"
    by (simp_all only: set_filter mem_Collect_eq)
qed

context key_order
begin

lemma sorted_split:
  "sorted_wrt (\<lambda>a b. cmp (f a) (f b) < 0) ns \<Longrightarrow> b \<in> set (dropWhile (\<lambda>a. cmp (f a) key < 0) ns) \<Longrightarrow>
   cmp (f b) key \<ge> 0"
proof (induction ns)
  case (Cons a ns)
  show ?case
  proof (cases "cmp (f a) key < 0")
    case True
    then show ?thesis using Cons by simp
  next
    case False
    then have "b = a \<or> cmp (f a) (f b) < 0" using Cons.prems by auto
    then show ?thesis using compare_less_trans [of "f a" "f b" key] False by (metis not_less)
  qed
qed simp

lemma FindGreaterOrEqual_ok:
  assumes inv: "sl_inv cmp sl ns"
    and A_def: "A = takeWhile (\<lambda>a. cmp (key_of sl a) key < 0) ns"
    and B_def: "B = dropWhile (\<lambda>a. cmp (key_of sl a) key < 0) ns"
  shows "\<exists>prev'. FindGreaterOrEqual cmp sl key prev = Some (first B, prev') \<and>
    (\<forall>l < sl_max_height sl. prev' l = last (filter (taller sl l) (head # A)))"
proof -
  have ns: "ns = A @ B" by (simp add: A_def B_def)
  note inv' = sl_invD [OF inv]
  have "cmp (key_of sl b) key \<ge> 0" if "b \<in> set B" for b
    using sorted_split [OF inv'(9)] that B_def by blast
  then have B: "\<forall>b\<in>set B. \<not> cmp (key_of sl b) key < 0 \<and> 1 \<le> height sl b"
    using inv'(4) ns by (simp add: not_less)
  have "cmp (key_of sl a) key < 0" if "a \<in> set A" for a
    using that unfolding A_def by (blast dest: set_takeWhileD)
  then have "links_ok sl ([] @ head # A @ B)" "sl_max_height sl - 1 < height sl head"
    "\<forall>a\<in>set A. cmp (key_of sl a) key < 0 \<and> 1 \<le> height sl a"
    using inv'(1,3,4,7,8) ns by auto
  from find_ge_loop_eq [where cmp = cmp and key = key and xs = "[]", OF B this] show ?thesis
    using inv'(7) by (auto simp: FindGreaterOrEqual_def)
qed

lemma Insert_ok:
  assumes inv: "sl_inv cmp sl ns" and fresh: "\<forall>a\<in>set ns. cmp (key_of sl a) key \<noteq> 0"
    and A_def: "A = takeWhile (\<lambda>a. cmp (key_of sl a) key < 0) ns"
    and B_def: "B = dropWhile (\<lambda>a. cmp (key_of sl a) key < 0) ns"
  shows "\<exists>sl' n. Insert cmp key sl = Some sl' \<and> sl_inv cmp sl' (A @ n # B) \<and> key_of sl' n = key \<and>
    n \<notin> set ns \<and> (\<forall>a\<in>set ns. key_of sl' a = key_of sl a)"
proof -
  have ns: "ns = A @ B" by (simp add: A_def B_def)
  obtain x prev where ge: "FindGreaterOrEqual cmp sl key (\<lambda>_. head) = Some (x, prev)"
    and prev: "\<forall>l < sl_max_height sl. prev l = last (filter (taller sl l) (head # A))"
    using FindGreaterOrEqual_ok [OF inv A_def B_def] by blast
  obtain h rnd where h: "RandomHeight (sl_rnd sl) = (h, rnd)" by fastforce
  note hb = RandomHeight_bounds [OF h]
  define mh where "mh = max h (sl_max_height sl)"
  define prev' where "prev' = (if h > sl_max_height sl then
    (\<lambda>i. if sl_max_height sl \<le> i \<and> i < h then head else prev i) else prev)"
  define sl1 where "sl1 = sl\<lparr>sl_rnd := rnd, sl_max_height := mh\<rparr>"
  obtain n sl2 where n: "NewNode key h sl1 = (n, sl2)" by fastforce
  define sl3 where "sl3 = fold (link_level prev' n) [0..<h] sl2"
  have ins: "Insert cmp key sl = Some sl3"
  proof (cases "h > sl_max_height sl")
    case True
    then show ?thesis
      using n ge h unfolding Insert_def sl3_def prev'_def sl1_def mh_def by (simp add: Let_def)
  next
    case False
    then have "sl\<lparr>sl_rnd := rnd\<rparr> = sl1" by (cases sl) (simp add: sl1_def mh_def)
    then show ?thesis using n ge h False unfolding Insert_def sl3_def prev'_def by (simp add: Let_def)
  qed
  note inv' = sl_invD [OF inv]
  have same: "height sl1 a = height sl a" "key_of sl1 a = key_of sl a" "Next sl1 a l = Next sl a l"
    "sl_fresh sl1 = sl_fresh sl" for a l
    by (simp_all add: sl1_def height_def key_of_def Next_def)
  note new = NewNode_facts [OF n, unfolded same]
  have n_fresh: "n \<notin> set (head # ns)" using inv'(6) [of n] new(1) by blast
  have tall_head: "taller sl l head" if "l < h" for l
    using inv'(3) hb that by (simp add: taller_def)
  have prev_last: "prev' l = last (filter (taller sl l) (head # A))" if "l < h" for l
  proof (cases "l < sl_max_height sl")
    case False
    then have "filter (taller sl l) A = []"
      using inv'(5) ns by (fastforce simp: filter_empty_conv taller_def)
    then show ?thesis using False that tall_head [OF that] by (simp add: prev'_def)
  qed (use prev in \<open>simp add: prev'_def\<close>)
  have prev_in: "prev' l \<in> set (head # A)" "l < height sl (prev' l)" if "l < h" for l
    using last_filter_head [of "taller sl l" head A, OF tall_head [OF that]] prev_last [OF that]
    by (simp_all only: taller_def)
  have prev_link: "Next sl (prev' l) l = find (taller sl l) B" if "l < h" for l
    using links_last [of sl "head # A" B l] prev_last [OF that] inv'(1) ns tall_head [OF that] by simp
  have prev_n: "prev' l \<noteq> n" if "l < h" for l using prev_in(1) [OF that] n_fresh ns by auto
  then have links: "\<forall>l<h. l < height sl2 (prev' l) \<and> prev' l \<noteq> n" "h \<le> height sl2 n"
    using prev_in(2) by (simp_all add: new(4))
  note fl = fold_link_level [OF links, folded sl3_def]
  have H: "height sl3 a = (if a = n then h else height sl a)"
    and K: "key_of sl3 a = (if a = n then key else key_of sl a)" for a
    using fl by (simp_all add: new(4,5))
  have N: "a \<noteq> n \<Longrightarrow> Next sl3 a l = (if l < h \<and> a = prev' l then Some n else Next sl a l)"
    "l < h \<Longrightarrow> Next sl3 n l = find (taller sl l) B" for a l
    using fl prev_n prev_link by (simp_all add: new(6))
  have dist: "distinct (head # A @ B)" using inv'(2) ns by simp
  have pB: "l < h \<Longrightarrow> prev' l \<notin> set B" for l using prev_in(1) [of l] dist by auto
  have "links_ok sl3 ((head # A) @ n # B)"
  proof (rule links_insert)
    show "links_ok sl ((head # A) @ B)" using inv'(1) ns by simp
    show "\<forall>l<h. filter (taller sl l) (head # A) \<noteq> [] \<longrightarrow> prev' l = last (filter (taller sl l) (head # A))"
      using prev_last by blast
    show "\<forall>a\<in>set B. height sl3 a = height sl a \<and> (\<forall>l<height sl a. Next sl3 a l = Next sl a l)"
      using H N(1) n_fresh pB ns by auto
    show "\<forall>a\<in>set (head # A). height sl3 a = height sl a \<and>
      (\<forall>l<height sl a. Next sl3 a l = (if l < h \<and> a = prev' l then Some n else Next sl a l))"
      using H N(1) n_fresh ns by auto
    show "\<forall>l<h. Next sl3 n l = find (taller sl l) B" using N(2) by blast
  qed (use H n_fresh ns dist in auto)
  moreover have "sorted_wrt (\<lambda>a b. cmp (key_of sl3 a) (key_of sl3 b) < 0) (A @ n # B)"
  proof -
    have "sorted_wrt (\<lambda>a b. cmp (key_of sl3 a) (key_of sl3 b) < 0) (A @ B)"
      using n_fresh ns by (intro sorted_wrt_mono_rel [OF _ inv'(9) [unfolded ns]]) (auto simp: K)
    moreover have "cmp (key_of sl3 a) (key_of sl3 n) < 0" if "a \<in> set A" for a
    proof -
      have "cmp (key_of sl a) key < 0" using that unfolding A_def by (blast dest: set_takeWhileD)
      then show ?thesis using that n_fresh ns by (auto simp: K)
    qed
    moreover have "cmp (key_of sl3 n) (key_of sl3 b) < 0" if "b \<in> set B" for b
    proof -
      have "cmp (key_of sl b) key \<ge> 0" using sorted_split [OF inv'(9)] that B_def by blast
      moreover have "cmp (key_of sl b) key \<noteq> 0" using fresh that ns by simp
      ultimately show ?thesis
        using compare_sym [of key "key_of sl b"] that n_fresh ns by (auto simp: K)
    qed
    ultimately show ?thesis by (simp add: sorted_wrt_append)
  qed
  moreover have "sl_max_height sl3 = mh" "sl_fresh sl3 = Suc n" using fl new(2,3) by (auto simp: sl1_def)
  moreover have "distinct (head # A @ n # B)" using dist n_fresh ns by auto
  moreover have "height sl3 head = kMaxHeight" using H inv'(3) n_fresh by simp
  moreover have "\<forall>a\<in>set (A @ n # B). 1 \<le> height sl3 a \<and> height sl3 a \<le> mh"
    using H hb inv'(4,5) ns by (auto simp: mh_def le_max_iff_disj)
  moreover have "\<forall>a\<in>set (head # A @ n # B). a < Suc n"
    using inv'(6) ns new(1) by (auto simp: less_Suc_eq)
  moreover have "1 \<le> mh" "mh \<le> kMaxHeight" using hb inv'(8) by (auto simp: mh_def)
  ultimately have "sl_inv cmp sl3 (A @ n # B)" by (simp only: sl_inv_def append_Cons simp_thms)
  moreover have "key_of sl3 n = key" by (simp add: K)
  moreover have "n \<notin> set ns" using n_fresh by simp
  moreover from this have "\<forall>a\<in>set ns. key_of sl3 a = key_of sl a" by (auto simp: K)
  ultimately show ?thesis using ins by (intro exI [of _ sl3] exI [of _ n]) simp
qed

text \<open>What the iterators return, in terms of the nodes of the list.\<close>

lemma iter_Seek_ok:
  "sl_inv cmp sl ns \<Longrightarrow> iter_Seek cmp sl key = Some (first (dropWhile (\<lambda>a. cmp (key_of sl a) key < 0) ns))"
  using FindGreaterOrEqual_ok [OF _ refl refl, of sl ns key "\<lambda>_. head"] by (auto simp: iter_Seek_def)

lemma iter_SeekToFirst_ok: "sl_inv cmp sl ns \<Longrightarrow> iter_SeekToFirst sl = first ns"
  using sl_invD(1,3,4) [of cmp sl ns]
  by (cases ns) (auto simp: iter_SeekToFirst_def first_def kMaxHeight_def taller_def Suc_le_eq)

lemma iter_Next_ok: "sl_inv cmp sl (xs @ a # ys) \<Longrightarrow> iter_Next sl a = first ys"
  using links_okD [of sl "head # xs" a ys 0] sl_invD(1,4) [of cmp sl "xs @ a # ys"]
  by (cases ys) (auto simp: iter_Next_def first_def taller_def Suc_le_eq)

lemma iter_SeekToLast_ok:
  assumes "sl_inv cmp sl ns"
  shows "iter_SeekToLast sl = Some (if ns = [] then None else Some (last ns))"
proof -
  note inv = sl_invD [OF assms]
  have "links_ok sl ([] @ head # ns)" "sl_max_height sl - 1 < height sl head" "\<forall>a\<in>set ns. 1 \<le> height sl a"
    using inv(1,3,4,7,8) by auto
  then have "FindLast sl = Some (last (head # ns))"
    unfolding FindLast_def by (rule find_last_loop_eq)
  moreover have "last ns \<noteq> head" if "ns \<noteq> []" using inv(2) last_in_set [OF that] by auto
  ultimately show ?thesis by (auto simp: iter_SeekToLast_def)
qed

lemma iter_Prev_ok:
  assumes "sl_inv cmp sl (xs @ a # ys)"
  shows "iter_Prev cmp sl a = Some (if xs = [] then None else Some (last xs))"
proof -
  note inv = sl_invD [OF assms]
  have B: "\<forall>b\<in>set (a # ys). cmp (key_of sl b) (key_of sl a) \<ge> 0"
    using inv(9) compare_sym [of "key_of sl a"] by (force simp: sorted_wrt_append)
  have "links_ok sl ([] @ head # xs @ a # ys)" "sl_max_height sl - 1 < height sl head"
    "\<forall>x\<in>set xs. cmp (key_of sl x) (key_of sl a) < 0 \<and> 1 \<le> height sl x"
    using inv(1,3,4,7,8,9) by (auto simp: sorted_wrt_append)
  from find_lt_loop_eq [where cmp = cmp and key = "key_of sl a" and xs = "[]", OF B this]
  have "FindLessThan cmp sl (key_of sl a) = Some (last (head # xs))" by (simp add: FindLessThan_def)
  moreover have "last xs \<noteq> head" if "xs \<noteq> []" using inv(2) last_in_set [OF that] by auto
  ultimately show ?thesis by (auto simp: iter_Prev_def key_of_def [symmetric])
qed

lemma sorted_member:
  "sorted_wrt (\<lambda>a b. cmp (f a) (f b) < 0) ns \<Longrightarrow>
   (case dropWhile (\<lambda>a. cmp (f a) key < 0) ns of [] \<Rightarrow> False | b # _ \<Rightarrow> cmp key (f b) = 0) \<longleftrightarrow>
   (\<exists>a\<in>set ns. cmp key (f a) = 0)"
proof (induction ns)
  case (Cons a ns)
  show ?case
  proof (cases "cmp (f a) key < 0")
    case True
    then have "cmp key (f a) \<noteq> 0" using compare_eq_iff [of key "f a"] by linarith
    then show ?thesis using Cons.IH Cons.prems True by simp
  next
    case False
    have "cmp key (f b) \<noteq> 0" if "b \<in> set ns" for b
      using Cons.prems that False compare_eq_right [of key "f b" "f a"] by auto
    then show ?thesis using False by simp
  qed
qed simp

lemma Contains_ok:
  assumes "sl_inv cmp sl ns"
  shows "Contains cmp sl key = Some (\<exists>a\<in>set ns. cmp key (key_of sl a) = 0)"
proof -
  let ?B = "dropWhile (\<lambda>a. cmp (key_of sl a) key < 0) ns"
  obtain prev where "FindGreaterOrEqual cmp sl key (\<lambda>_. head) = Some (first ?B, prev)"
    using FindGreaterOrEqual_ok [OF assms refl refl] by blast
  then have C: "Contains cmp sl key = Some (case ?B of [] \<Rightarrow> False | b # _ \<Rightarrow> cmp key (key_of sl b) = 0)"
    unfolding Contains_def key_of_def by (simp add: case_first)
  show ?thesis unfolding C using sorted_member [OF sl_invD(9) [OF assms]] by simp
qed

end

text \<open>
  The abstraction: a skip list stands for the strictly sorted list of its keys.
\<close>

definition sl_rep :: "('k \<Rightarrow> 'k \<Rightarrow> int) \<Rightarrow> 'k SkipList \<Rightarrow> 'k list \<Rightarrow> bool" where
  "sl_rep cmp sl ks \<longleftrightarrow> (\<exists>ns. sl_inv cmp sl ns \<and> ks = map (key_of sl) ns)"

definition insert_key :: "('k \<Rightarrow> 'k \<Rightarrow> int) \<Rightarrow> 'k \<Rightarrow> 'k list \<Rightarrow> 'k list" where
  "insert_key cmp key ks = takeWhile (\<lambda>k. cmp k key < 0) ks @ key # dropWhile (\<lambda>k. cmp k key < 0) ks"

lemma SkipList_new_rep: "sl_rep cmp (SkipList_new k0) []"
  by (auto simp: sl_rep_def sl_inv_def SkipList_new_def height_def kMaxHeight_def head_def Next_def
      intro!: exI [of _ "[]"])

lemma sl_rep_sorted: "sl_rep cmp sl ks \<Longrightarrow> sorted_wrt (\<lambda>a b. cmp a b < 0) ks"
  by (auto simp: sl_rep_def sorted_wrt_map dest: sl_invD(9))

context key_order
begin

lemma Insert_rep:
  assumes "sl_rep cmp sl ks" "\<forall>k\<in>set ks. cmp k key \<noteq> 0"
  shows "\<exists>sl'. Insert cmp key sl = Some sl' \<and> sl_rep cmp sl' (insert_key cmp key ks)"
proof -
  obtain ns where ns: "sl_inv cmp sl ns" "ks = map (key_of sl) ns" using assms(1) by (auto simp: sl_rep_def)
  have tw: "takeWhile (\<lambda>k. cmp k key < 0) ks = map (key_of sl) (takeWhile (\<lambda>a. cmp (key_of sl a) key < 0) ns)"
    "dropWhile (\<lambda>k. cmp k key < 0) ks = map (key_of sl) (dropWhile (\<lambda>a. cmp (key_of sl a) key < 0) ns)"
    by (simp_all add: ns(2) takeWhile_map dropWhile_map comp_def)
  have "\<forall>a\<in>set ns. cmp (key_of sl a) key \<noteq> 0" using assms(2) ns(2) by simp
  from Insert_ok [OF ns(1) this refl refl] obtain sl' n where sl': "Insert cmp key sl = Some sl'"
    "sl_inv cmp sl' (takeWhile (\<lambda>a. cmp (key_of sl a) key < 0) ns @ n # dropWhile (\<lambda>a. cmp (key_of sl a) key < 0) ns)"
    "key_of sl' n = key" "\<forall>a\<in>set ns. key_of sl' a = key_of sl a" by blast
  have same: "map (key_of sl') xs = map (key_of sl) xs" if "set xs \<subseteq> set ns" for xs
    using that sl'(4) by auto
  have "set (takeWhile P ns) \<subseteq> set ns" "set (dropWhile P ns) \<subseteq> set ns" for P
    by (auto dest: set_takeWhileD set_dropWhileD)
  note sub = this [THEN same]
  show ?thesis
  proof (intro exI conjI)
    show "Insert cmp key sl = Some sl'" by (fact sl'(1))
    show "sl_rep cmp sl' (insert_key cmp key ks)"
      unfolding sl_rep_def by (intro exI conjI, rule sl'(2)) (simp only: insert_key_def tw map_append list.map sub sl'(3))
  qed
qed

lemma Contains_rep: "sl_rep cmp sl ks \<Longrightarrow> Contains cmp sl key = Some (\<exists>k\<in>set ks. cmp key k = 0)"
  by (auto simp: sl_rep_def Contains_ok)

end

section \<open>Properties\<close>

lemma Random_Next_unat:
  assumes "unat seed < 2147483647"
  shows "unat (Random_Next seed) = (let p = unat seed * 16807; r = p div 2147483648 + p mod 2147483648
    in if r > 2147483647 then r - 2147483647 else r)"
proof -
  define p where "p = unat seed * 16807"
  define w :: u64 where "w = ucast seed * 16807"
  have p: "p < 2147483647 * 16807" using assms by (simp add: p_def)
  have w: "unat w = p" using p by (simp add: w_def p_def unat_word_ariths unsigned_ucast_eq take_bit_nat_eq_self_iff)
  have "unat (drop_bit 31 w) = p div 2147483648" by (simp add: drop_bit_eq_div unat_div_distrib w)
  moreover have "w AND ucast (2147483647 :: u32) = take_bit 31 w" by (simp add: take_bit_eq_mask mask_eq_exp_minus_1)
  then have "unat (w AND ucast (2147483647 :: u32)) = p mod 2147483648"
    by (simp add: take_bit_eq_mod unat_mod_distrib w)
  ultimately have s: "unat (drop_bit 31 w + (w AND ucast (2147483647 :: u32))) = p div 2147483648 + p mod 2147483648"
    using p by (simp add: unat_word_ariths)
  define r where "r = p div 2147483648 + p mod 2147483648"
  have r: "r < 2147483648 + 16807" using p by (simp add: r_def)
  have u: "unat (ucast (drop_bit 31 w + (w AND ucast (2147483647 :: u32))) :: u32) = r"
    using r s by (simp add: r_def [symmetric] unsigned_ucast_eq take_bit_nat_eq_self_iff)
  then have "(2147483647 :: u32) < ucast (drop_bit 31 w + (w AND ucast (2147483647 :: u32))) \<longleftrightarrow> 2147483647 < r"
    by (simp add: word_less_nat_alt)
  then show ?thesis
    using u r by (simp add: Random_Next_def Let_def p_def [symmetric] r_def [symmetric] w_def [symmetric] unat_sub word_le_nat_alt)
qed

lemma lehmer_mod:
  fixes s r M :: nat
  assumes s: "1 \<le> s" "s < M" and M: "M = 2147483647"
    and r: "r = s * 16807 div Suc M + s * 16807 mod Suc M"
  shows "16807 * s mod M = (if r > M then r - M else r) \<and> 16807 * s mod M \<noteq> 0"
proof -
  have "\<not> M dvd s" using s by (auto dest: dvd_imp_le)
  moreover have "coprime M 16807" unfolding M by (simp add: coprime_iff_gcd_eq_1 gcd_non_0_nat)
  ultimately have "\<not> M dvd 16807 * s" by (simp add: coprime_dvd_mult_right_iff)
  then have nz: "16807 * s mod M \<noteq> 0" by (simp add: dvd_eq_mod_eq_0)
  have "s * 16807 = Suc M * (s * 16807 div Suc M) + s * 16807 mod Suc M"
    by (rule mult_div_mod_eq [symmetric])
  then have "s * 16807 = M * (s * 16807 div Suc M) + r" unfolding r by simp
  then have mod: "16807 * s mod M = r mod M" by (metis mod_mult_self4 mult.commute)
  have "s * 16807 div Suc M \<le> 16807" using s by (metis Suc_leI div_le_mono le_SucI less_or_eq_imp_le mult.commute mult_le_mono1 nonzero_mult_div_cancel_left old.nat.distinct(2))
  moreover have "s * 16807 mod Suc M < Suc M" by simp
  ultimately have lt: "r < M + M" unfolding r using M by linarith
  have "r mod M = (if r > M then r - M else r)"
  proof (cases r M rule: linorder_cases)
    case greater
    then have "r mod M = (r - M) mod M" by (simp add: le_mod_geq)
    then show ?thesis using greater lt by simp
  qed (use nz mod in auto)
  then show ?thesis using mod nz by simp
qed

lemma Random_new_range: "1 \<le> unat (Random_new s) \<and> unat (Random_new s) < 2147483647"
proof -
  have "s AND 0x7fffffff \<le> 0x7fffffff" by (rule word_and_le1)
  then have "unat (s AND 0x7fffffff) \<le> 2147483647" by (simp add: word_le_nat_alt)
  then show ?thesis by (auto simp: Random_new_def Let_def word_unat_eq_iff)
qed

text \<open>
  The pseudo-random generator computes the multiplicative congruential sequence with multiplier
  16807 modulo \<open>2^31 - 1\<close> without a division: from a seed of the constructor's range the next value
  is \<open>16807 * seed mod (2^31 - 1)\<close>, and it is again in the range 1 to \<open>2^31 - 2\<close>, so that the
  degenerate seeds 0 and \<open>2^31 - 1\<close> are never reached.
\<close>

theorem random_next_modular:
  "1 \<le> unat (Random_new s) \<and> unat (Random_new s) < 2147483647 \<and>
   (1 \<le> unat seed \<and> unat seed < 2147483647 \<longrightarrow>
      unat (Random_Next seed) = 16807 * unat seed mod 2147483647 \<and>
      1 \<le> unat (Random_Next seed) \<and> unat (Random_Next seed) < 2147483647)"
  using Random_new_range [of s] lehmer_mod [OF _ _ refl refl, of "unat seed"] Random_Next_unat [of seed]
  by (auto simp: Let_def)

text \<open>
  C13. The skip list refines a strictly sorted list of keys, for every comparison that is a total
  preorder: the new list represents the empty list; \<open>Contains\<close> returns and decides membership up to
  the comparison; \<open>Insert\<close> of a key that is not there returns, and yields a list that represents the
  sorted insertion, whatever height the generator drew.
\<close>

theorem skiplist_refines:
  assumes "key_order cmp" "sl_rep cmp sl ks"
  shows "sl_rep cmp (SkipList_new k0) [] \<and> sorted_wrt (\<lambda>a b. cmp a b < 0) ks \<and>
    Contains cmp sl key = Some (\<exists>k\<in>set ks. cmp key k = 0) \<and>
    ((\<forall>k\<in>set ks. cmp k key \<noteq> 0) \<longrightarrow>
       (\<exists>sl'. Insert cmp key sl = Some sl' \<and> sl_rep cmp sl' (insert_key cmp key ks)))"
  by (intro conjI impI SkipList_new_rep sl_rep_sorted [OF assms(2)] key_order.Contains_rep [OF assms]
      key_order.Insert_rep [OF assms])

theorem skiplist_refines_witness:
  "\<exists>sl'. Insert (Compare BytewiseComparator) [1] (SkipList_new []) = Some sl' \<and>
     sl_rep (Compare BytewiseComparator) sl' [[1]]"
  using skiplist_refines [OF bytewise.key_order_axioms SkipList_new_rep, of "[]" "[]" "[1]"]
  by (simp add: insert_key_def)

text \<open>
  The iterators of a skip list return and walk its nodes in order: \<open>Seek\<close> stops at the first node
  not before the target, \<open>SeekToFirst\<close> and \<open>SeekToLast\<close> at the ends, \<open>Next\<close> and \<open>Prev\<close> at the
  neighbours, or nowhere when there is none.
\<close>

theorem skiplist_iterators:
  assumes "key_order cmp" "sl_inv cmp sl ns"
  shows "iter_Seek cmp sl key = Some (first (dropWhile (\<lambda>a. cmp (key_of sl a) key < 0) ns)) \<and>
    iter_SeekToFirst sl = first ns \<and>
    iter_SeekToLast sl = Some (if ns = [] then None else Some (last ns)) \<and>
    (\<forall>xs a ys. ns = xs @ a # ys \<longrightarrow>
       iter_Next sl a = first ys \<and> iter_Prev cmp sl a = Some (if xs = [] then None else Some (last xs)))"
  using assms(2)
  by (intro conjI impI allI key_order.iter_Seek_ok [OF assms] key_order.iter_SeekToFirst_ok [OF assms]
      key_order.iter_SeekToLast_ok [OF assms])
    (simp_all add: key_order.iter_Next_ok [OF assms(1)] key_order.iter_Prev_ok [OF assms(1)])

end
