(* ===== verification/MemTable.thy ===== *)
theory MemTable
  imports DbFormat SkipList Status
begin

text \<open>
  \<open>db/memtable.h\<close> and \<open>db/memtable.cc\<close>: the sorted in-memory buffer of recent writes, a skip list
  of length-prefixed entries. A pointer to an entry is the list of the bytes of its arena buffer.
  The main result is that a lookup returns the newest version of the key that is visible at its
  snapshot, for every sequence of additions.
\<close>

section \<open>Entries and their order\<close>

text \<open>
  \<open>GetLengthPrefixedSlice(data)\<close> and the pointer behind the slice. The limit of the length is
  5 bytes ahead of \<open>data\<close>; on a corrupt length the code would use a null pointer, here an empty
  slice.
\<close>

definition prefixed_slice :: "bytes \<Rightarrow> bytes \<times> bytes" where
  "prefixed_slice data =
     (case GetVarint32Ptr (take 5 data) of
        None \<Rightarrow> ([], data)
      | Some (len, p) \<Rightarrow>
          let p = drop (length (take 5 data) - length p) data
          in (take (unat len) p, drop (unat len) p))"

definition KeyComparator :: "Comparator \<Rightarrow> bytes \<Rightarrow> bytes \<Rightarrow> int" where
  "KeyComparator user_comparator aptr bptr =
     (let a = fst (prefixed_slice aptr); b = fst (prefixed_slice bptr)
      in Compare (InternalKeyComparator user_comparator) a b)"

definition EncodeKey :: "bytes \<Rightarrow> bytes" where
  "EncodeKey target = PutVarint32 [] (of_nat (length target)) @ target"

section \<open>The memtable\<close>

record MemTable =
  mt_comparator :: Comparator
  mt_refs :: int
  mt_table :: "bytes SkipList"

definition MemTable_new :: "Comparator \<Rightarrow> MemTable" where
  "MemTable_new user_comparator =
     \<lparr>mt_comparator = user_comparator, mt_refs = 0, mt_table = SkipList_new []\<rparr>"

definition MemTable_Ref :: "MemTable \<Rightarrow> MemTable" where
  "MemTable_Ref m = m\<lparr>mt_refs := mt_refs m + 1\<rparr>"

text \<open>\<open>Unref\<close>: \<open>None\<close> when the table is deleted.\<close>

definition MemTable_Unref :: "MemTable \<Rightarrow> MemTable option" where
  "MemTable_Unref m =
     (let m = m\<lparr>mt_refs := mt_refs m - 1\<rparr> in if mt_refs m \<le> 0 then None else Some m)"

text \<open>The buffer \<open>Add\<close> fills.\<close>

definition mem_entry :: "SequenceNumber \<Rightarrow> ValueType \<Rightarrow> bytes \<Rightarrow> bytes \<Rightarrow> bytes" where
  "mem_entry s type key val =
     (let key_size = length key;
          val_size = length val;
          internal_key_size = key_size + 8
      in EncodeVarint32 (of_nat internal_key_size) @ key @
         EncodeFixed64 (push_bit 8 s OR value_type_code type) @
         EncodeVarint32 (of_nat val_size) @ val)"

definition MemTable_Add ::
  "SequenceNumber \<Rightarrow> ValueType \<Rightarrow> bytes \<Rightarrow> bytes \<Rightarrow> MemTable \<Rightarrow> MemTable option" where
  "MemTable_Add s type key val m =
     (case Insert (KeyComparator (mt_comparator m)) (mem_entry s type key val) (mt_table m) of
        None \<Rightarrow> None
      | Some table \<Rightarrow> Some (m\<lparr>mt_table := table\<rparr>))"

text \<open>
  \<open>Get\<close>: the result \<open>None\<close> is the return value false, \<open>Inl\<close> a status stored in \<open>*s\<close> and \<open>Inr\<close> a
  value stored in \<open>*value\<close>. The outer option is the seek that does not return.
\<close>

definition MemTable_Get :: "LookupKey \<Rightarrow> MemTable \<Rightarrow> (Status + bytes) option option" where
  "MemTable_Get key m =
     (case iter_Seek (KeyComparator (mt_comparator m)) (mt_table m) (memtable_key key) of
        None \<Rightarrow> None
      | Some None \<Rightarrow> Some None
      | Some (Some node) \<Rightarrow>
          let entry = node_key (sl_nodes (mt_table m) node);
              (ikey, rest) = prefixed_slice entry
          in if Compare (mt_comparator m) (take (length ikey - 8) ikey) (user_key key) = 0 then
               let tag = DecodeFixed64 (drop (length ikey - 8) ikey); t = tag AND 0xff
               in if t = value_type_code kTypeValue then Some (Some (Inr (fst (prefixed_slice rest))))
                  else if t = value_type_code kTypeDeletion then Some (Some (Inl (NotFound [] [])))
                  else Some None
             else Some None)"

text \<open>The iterator: positions are the nodes of the table.\<close>

definition mem_iter_Seek :: "bytes \<Rightarrow> MemTable \<Rightarrow> sl_addr option option" where
  "mem_iter_Seek k m = iter_Seek (KeyComparator (mt_comparator m)) (mt_table m) (EncodeKey k)"

definition mem_iter_SeekToFirst :: "MemTable \<Rightarrow> sl_addr option" where
  "mem_iter_SeekToFirst m = iter_SeekToFirst (mt_table m)"

definition mem_iter_SeekToLast :: "MemTable \<Rightarrow> sl_addr option option" where
  "mem_iter_SeekToLast m = iter_SeekToLast (mt_table m)"

definition mem_iter_Next :: "MemTable \<Rightarrow> sl_addr \<Rightarrow> sl_addr option" where
  "mem_iter_Next m x = iter_Next (mt_table m) x"

definition mem_iter_Prev :: "MemTable \<Rightarrow> sl_addr \<Rightarrow> sl_addr option option" where
  "mem_iter_Prev m x = iter_Prev (KeyComparator (mt_comparator m)) (mt_table m) x"

definition mem_iter_key :: "MemTable \<Rightarrow> sl_addr \<Rightarrow> bytes" where
  "mem_iter_key m x = fst (prefixed_slice (node_key (sl_nodes (mt_table m) x)))"

definition mem_iter_value :: "MemTable \<Rightarrow> sl_addr \<Rightarrow> bytes" where
  "mem_iter_value m x = fst (prefixed_slice (snd (prefixed_slice (node_key (sl_nodes (mt_table m) x)))))"

section \<open>Reading entries back\<close>

lemma GetVarint32Ptr_take5:
  "GetVarint32Ptr (take 5 (EncodeVarint32 v @ r)) = Some (v, take (5 - length (EncodeVarint32 v)) r)"
  using GetVarint32Ptr_EncodeVarint32 [of v "take (5 - length (EncodeVarint32 v)) r"]
    length_EncodeVarint(2) [of v] by simp

lemma prefixed_slice_encoded:
  assumes "length x < 2 ^ 32"
  shows "prefixed_slice (EncodeVarint32 (of_nat (length x)) @ x @ r) = (x, r)"
proof -
  let ?e = "EncodeVarint32 (of_nat (length x))"
  have "length ?e \<le> 5" using length_EncodeVarint(2) by simp
  then have "length (take 5 (?e @ x @ r)) - length (take (5 - length ?e) (x @ r)) = length ?e"
    by simp
  then show ?thesis
    unfolding prefixed_slice_def GetVarint32Ptr_take5 option.case prod.case Let_def
    by (simp add: unat_of_nat_u32 [OF assms])
qed

section \<open>The abstract memtable: the list of the entries added\<close>

record Entry =
  e_seq :: SequenceNumber
  e_type :: ValueType
  e_key :: bytes
  e_value :: bytes

definition encode_entry :: "Entry \<Rightarrow> bytes" where
  "encode_entry e = mem_entry (e_seq e) (e_type e) (e_key e) (e_value e)"

definition entry_ok :: "Entry \<Rightarrow> bool" where
  "entry_ok e \<longleftrightarrow> e_seq e \<le> kMaxSequenceNumber \<and> length (e_key e) + 8 < 2 ^ 32 \<and> length (e_value e) < 2 ^ 32"

definition entry_ikey :: "Entry \<Rightarrow> bytes" where
  "entry_ikey e = e_key e @ EncodeFixed64 (PackSequenceAndType (e_seq e) (e_type e))"

lemma encode_entry_slices:
  assumes "entry_ok e"
  shows "fst (prefixed_slice (encode_entry e)) = entry_ikey e"
    "fst (prefixed_slice (snd (prefixed_slice (encode_entry e)))) = e_value e"
proof -
  let ?v = "EncodeVarint32 (of_nat (length (e_value e))) @ e_value e"
  have "encode_entry e = EncodeVarint32 (of_nat (length (entry_ikey e))) @ entry_ikey e @ ?v"
    by (simp add: encode_entry_def mem_entry_def entry_ikey_def PackSequenceAndType_def Let_def)
  moreover have "length (entry_ikey e) < 2 ^ 32" using assms by (simp add: entry_ok_def entry_ikey_def)
  ultimately have "prefixed_slice (encode_entry e) = (entry_ikey e, ?v)"
    by (simp only: prefixed_slice_encoded)
  moreover have "prefixed_slice ?v = (e_value e, [])"
    using prefixed_slice_encoded [of "e_value e" "[]"] assms by (simp add: entry_ok_def)
  ultimately show "fst (prefixed_slice (encode_entry e)) = entry_ikey e"
    "fst (prefixed_slice (snd (prefixed_slice (encode_entry e)))) = e_value e" by simp_all
qed

lemma lookup_slice:
  assumes "length u + 8 < 2 ^ 32"
  shows "fst (prefixed_slice (memtable_key (LookupKey_new u s))) = u @ EncodeFixed64 (PackSequenceAndType s kValueTypeForSeek)"
  using assms prefixed_slice_encoded [of "u @ EncodeFixed64 (PackSequenceAndType s kValueTypeForSeek)" "[]"]
  by (simp add: LookupKey_parts)

text \<open>The versions of a user key that a lookup at a snapshot sees, and the newest entry of a list.\<close>

definition visible :: "Comparator \<Rightarrow> bytes \<Rightarrow> SequenceNumber \<Rightarrow> Entry \<Rightarrow> bool" where
  "visible c u s e \<longleftrightarrow> Compare c (e_key e) u = 0 \<and> e_seq e \<le> s"

fun newest :: "Entry list \<Rightarrow> Entry option" where
  "newest [] = None"
| "newest (e # es) =
     (case newest es of None \<Rightarrow> Some e | Some e' \<Rightarrow> if e_seq e' \<ge> e_seq e then Some e' else Some e)"

definition entry_result :: "Entry \<Rightarrow> Status + bytes" where
  "entry_result e = (case e_type e of kTypeValue \<Rightarrow> Inr (e_value e) | kTypeDeletion \<Rightarrow> Inl (NotFound [] []))"

definition mem_lookup :: "Comparator \<Rightarrow> Entry list \<Rightarrow> bytes \<Rightarrow> SequenceNumber \<Rightarrow> (Status + bytes) option" where
  "mem_lookup c es u s = map_option entry_result (newest (filter (visible c u s) es))"

lemma newest_None [simp]: "newest es = None \<longleftrightarrow> es = []"
  by (cases es) (auto split: option.splits)

lemma newest_unique:
  "e \<in> set es \<Longrightarrow> \<forall>e'\<in>set es. e' = e \<or> e_seq e' < e_seq e \<Longrightarrow> newest es = Some e"
proof (induction es)
  case (Cons a es)
  show ?case
  proof (cases "e \<in> set es")
    case True
    then show ?thesis using Cons by auto
  next
    case False
    then have "a = e" using Cons.prems(1) by simp
    moreover have "e_seq x < e_seq e" if "newest es = Some x" for x
    proof -
      have "x \<in> set es" using that by (induction es arbitrary: x) (auto split: option.splits if_splits)
      then show ?thesis using Cons.prems(2) False by auto
    qed
    ultimately show ?thesis by (auto split: option.splits)
  qed
qed simp

text \<open>Every entry of the list is well-formed and no two versions of a key share a sequence number.\<close>

definition mt_rep :: "MemTable \<Rightarrow> Entry list \<Rightarrow> bool" where
  "mt_rep m es \<longleftrightarrow>
     (\<exists>ks. sl_rep (KeyComparator (mt_comparator m)) (mt_table m) ks \<and> set ks = encode_entry ` set es) \<and>
     (\<forall>e\<in>set es. entry_ok e) \<and>
     (\<forall>e\<in>set es. \<forall>e'\<in>set es. Compare (mt_comparator m) (e_key e) (e_key e') = 0 \<and> e_seq e = e_seq e' \<longrightarrow> e = e')"

lemma MemTable_new_rep: "mt_rep (MemTable_new c) []"
  using SkipList_new_rep by (auto simp: mt_rep_def MemTable_new_def)

fun MemTable_adds :: "Entry list \<Rightarrow> MemTable \<Rightarrow> MemTable option" where
  "MemTable_adds [] m = Some m"
| "MemTable_adds (e # es) m =
     (case MemTable_Add (e_seq e) (e_type e) (e_key e) (e_value e) m of
        None \<Rightarrow> None
      | Some m \<Rightarrow> MemTable_adds es m)"

definition versions_distinct :: "Comparator \<Rightarrow> Entry list \<Rightarrow> bool" where
  "versions_distinct c es \<longleftrightarrow>
     sorted_wrt (\<lambda>e e'. \<not> (Compare c (e_key e) (e_key e') = 0 \<and> e_seq e = e_seq e')) es"

context separating_comparator
begin

lemma KeyComparator_order: "key_order (KeyComparator c)"
proof
  have i: "separating_comparator (InternalKeyComparator c)" by (rule internal_separating)
  note o = separating_comparator.axioms(1) [OF i, THEN comparator.axioms]
  show "KeyComparator c a b < 0 \<longleftrightarrow> KeyComparator c b a > 0" for a b
    unfolding KeyComparator_def Let_def by (rule key_order.compare_sym [OF o])
  show "KeyComparator c a b \<le> 0 \<Longrightarrow> KeyComparator c b d \<le> 0 \<Longrightarrow> KeyComparator c a d \<le> 0" for a b d
    unfolding KeyComparator_def Let_def by (rule key_order.compare_trans [OF o])
qed

lemma KeyComparator_entries:
  assumes "entry_ok e" "entry_ok e'"
  shows "KeyComparator c (encode_entry e) (encode_entry e') < 0 \<longleftrightarrow>
      Compare c (e_key e) (e_key e') < 0 \<or>
      Compare c (e_key e) (e_key e') = 0 \<and>
        PackSequenceAndType (e_seq e') (e_type e') < PackSequenceAndType (e_seq e) (e_type e)"
  using assms by (simp add: KeyComparator_def encode_entry_slices InternalKeyComparator_def internal_compare_less
      entry_ikey_def)

lemma KeyComparator_lookup:
  assumes "entry_ok e" "s \<le> kMaxSequenceNumber" "length u + 8 < 2 ^ 32"
  shows "KeyComparator c (encode_entry e) (memtable_key (LookupKey_new u s)) < 0 \<longleftrightarrow>
      Compare c (e_key e) u < 0 \<or> Compare c (e_key e) u = 0 \<and> s < e_seq e"
proof -
  have "PackSequenceAndType s kValueTypeForSeek < PackSequenceAndType (e_seq e) (e_type e) \<longleftrightarrow> s < e_seq e"
    using seek_tag_le_iff [OF assms(2), of "e_seq e" "e_type e"] assms(1) unfolding entry_ok_def by (meson not_le)
  then show ?thesis
    using assms by (simp add: KeyComparator_def encode_entry_slices lookup_slice InternalKeyComparator_def
        internal_compare_less entry_ikey_def)
qed

lemma KeyComparator_same:
  assumes "entry_ok e" "entry_ok e'" "KeyComparator c (encode_entry e) (encode_entry e') = 0"
  shows "Compare c (e_key e) (e_key e') = 0 \<and> e_seq e = e_seq e'"
proof -
  have "KeyComparator c (encode_entry e') (encode_entry e) = 0"
    using key_order.compare_eq_iff [OF KeyComparator_order] assms(3) by blast
  then have "\<not> KeyComparator c (encode_entry e') (encode_entry e) < 0" "\<not> KeyComparator c (encode_entry e) (encode_entry e') < 0"
    using assms(3) by simp_all
  moreover have "e_seq e \<le> kMaxSequenceNumber" "e_seq e' \<le> kMaxSequenceNumber"
    using assms by (auto simp: entry_ok_def)
  ultimately have "Compare c (e_key e) (e_key e') = 0" "\<not> e_seq e < e_seq e'" "\<not> e_seq e' < e_seq e"
    using compare_sym [of "e_key e" "e_key e'"] compare_eq_iff [of "e_key e" "e_key e'"]
    unfolding KeyComparator_entries [OF assms(1,2)] KeyComparator_entries [OF assms(2,1)]
    by (simp_all add: PackSequenceAndType_less_iff)
  then show ?thesis by simp
qed

lemma MemTable_Add_rep:
  assumes "mt_rep m es" "mt_comparator m = c" "entry_ok e"
    and fresh: "\<forall>e'\<in>set es. \<not> (Compare c (e_key e') (e_key e) = 0 \<and> e_seq e' = e_seq e)"
  shows "\<exists>m'. MemTable_Add (e_seq e) (e_type e) (e_key e) (e_value e) m = Some m' \<and>
    mt_rep m' (e # es) \<and> mt_comparator m' = c"
proof -
  obtain ks where ks: "sl_rep (KeyComparator c) (mt_table m) ks" "set ks = encode_entry ` set es"
    using assms(1,2) by (auto simp: mt_rep_def)
  have es: "\<forall>e\<in>set es. entry_ok e" using assms(1) by (simp add: mt_rep_def)
  have "\<forall>k\<in>set ks. KeyComparator c k (encode_entry e) \<noteq> 0"
  proof
    fix k assume "k \<in> set ks"
    then obtain e' where "e' \<in> set es" "k = encode_entry e'" using ks(2) by auto
    then show "KeyComparator c k (encode_entry e) \<noteq> 0"
      using KeyComparator_same [OF _ assms(3), of e'] es fresh by auto
  qed
  from key_order.Insert_rep [OF KeyComparator_order ks(1) this] obtain t where
    t: "Insert (KeyComparator c) (encode_entry e) (mt_table m) = Some t"
       "sl_rep (KeyComparator c) t (insert_key (KeyComparator c) (encode_entry e) ks)" by blast
  have "set (insert_key (KeyComparator c) (encode_entry e) ks) = insert (encode_entry e) (set ks)"
    unfolding insert_key_def by (metis Un_insert_right list.simps(15) set_append takeWhile_dropWhile_id)
  then have ks': "set (insert_key (KeyComparator c) (encode_entry e) ks) = encode_entry ` set (e # es)"
    using ks(2) by simp
  have old: "Compare c (e_key x) (e_key y) = 0 \<Longrightarrow> e_seq x = e_seq y \<Longrightarrow> x = y" if "x \<in> set es" "y \<in> set es" for x y
    using assms(1,2) that by (simp add: mt_rep_def)
  have "x = y" if "x \<in> set (e # es)" "y \<in> set (e # es)" "Compare c (e_key x) (e_key y) = 0" "e_seq x = e_seq y" for x y
  proof -
    have "Compare c (e_key y) (e_key x) = 0" using that(3) compare_eq_iff by blast
    then show ?thesis using that old [of x y] fresh by fastforce
  qed
  then have "mt_rep (m\<lparr>mt_table := t\<rparr>) (e # es)"
    using assms(2,3) es t(2) ks' unfolding mt_rep_def by (intro conjI exI [of _ "insert_key (KeyComparator c) (encode_entry e) ks"]) auto
  then show ?thesis using t(1) assms(2) by (simp add: MemTable_Add_def encode_entry_def)
qed

lemma seek_newest:
  assumes "s \<le> kMaxSequenceNumber" "length u + 8 < 2 ^ 32"
    and U: "\<And>e e'. e \<in> E \<Longrightarrow> e' \<in> E \<Longrightarrow> Compare c (e_key e) (e_key e') = 0 \<Longrightarrow> e_seq e = e_seq e' \<Longrightarrow> e = e'"
  shows "sorted_wrt (\<lambda>e e'. KeyComparator c (encode_entry e) (encode_entry e') < 0) xs \<Longrightarrow>
    set xs \<subseteq> E \<Longrightarrow> \<forall>e\<in>set xs. entry_ok e \<Longrightarrow>
    (case dropWhile (\<lambda>e. KeyComparator c (encode_entry e) (memtable_key (LookupKey_new u s)) < 0) xs of
       [] \<Rightarrow> \<forall>e\<in>set xs. \<not> visible c u s e
     | e # _ \<Rightarrow> e \<in> set xs \<and>
         (if Compare c (e_key e) u = 0
          then visible c u s e \<and> (\<forall>e'\<in>set xs. visible c u s e' \<longrightarrow> e' = e \<or> e_seq e' < e_seq e)
          else \<forall>e'\<in>set xs. \<not> visible c u s e'))"
proof (induction xs)
  case (Cons a xs)
  let ?P = "\<lambda>e. KeyComparator c (encode_entry e) (memtable_key (LookupKey_new u s)) < 0"
  note lookup = KeyComparator_lookup [OF _ assms(1,2), of a]
  show ?case
  proof (cases "KeyComparator c (encode_entry a) (memtable_key (LookupKey_new u s)) < 0")
    case True
    then have "\<not> visible c u s a" using lookup Cons.prems(3) by (auto simp: visible_def)
    moreover have "dropWhile ?P (a # xs) = dropWhile ?P xs" using True by simp
    moreover note Cons.IH Cons.prems
    ultimately show ?thesis by (cases "dropWhile ?P xs") (simp_all del: dropWhile_eq_Nil_conv dropWhile.simps)
  next
    case False
    then have a: "Compare c (e_key a) u \<ge> 0" "Compare c (e_key a) u = 0 \<Longrightarrow> e_seq a \<le> s"
      using lookup Cons.prems(3) by auto
    have later: "Compare c (e_key a) u = 0 \<and> (e = a \<or> e_seq e < e_seq a)" if e: "e \<in> set xs" "visible c u s e" for e
    proof -
      have "KeyComparator c (encode_entry a) (encode_entry e) < 0" using Cons.prems(1) e(1) by simp
      moreover have ok: "entry_ok a" "entry_ok e" using Cons.prems(3) e(1) by auto
      ultimately have less: "Compare c (e_key a) (e_key e) < 0 \<or> Compare c (e_key a) (e_key e) = 0 \<and>
          PackSequenceAndType (e_seq e) (e_type e) < PackSequenceAndType (e_seq a) (e_type a)"
        using KeyComparator_entries by blast
      have u: "Compare c (e_key e) u = 0" using e(2) by (simp add: visible_def)
      have "Compare c (e_key a) u \<le> 0" using compare_trans [of "e_key a" "e_key e" u] less u by auto
      then have z: "Compare c (e_key a) u = 0" using a(1) by simp
      then have "\<not> Compare c (e_key a) (e_key e) < 0" using compare_eq_right [OF u, of "e_key a"] by simp
      then have eq: "Compare c (e_key a) (e_key e) = 0"
        and "PackSequenceAndType (e_seq e) (e_type e) < PackSequenceAndType (e_seq a) (e_type a)"
        using less by blast+
      then have "e_seq e < e_seq a \<or> e_seq a = e_seq e"
        using ok PackSequenceAndType_less_iff [of "e_seq e" "e_seq a" "e_type e" "e_type a"]
        unfolding entry_ok_def by metis
      then show ?thesis using z eq U [of a e] Cons.prems(2) e(1) by auto
    qed
    then show ?thesis using False a by (auto simp: visible_def)
  qed
qed simp

lemma mt_rep_entries:
  assumes "mt_rep m es" "mt_comparator m = c"
  obtains ns xs where "sl_inv (KeyComparator c) (mt_table m) ns"
    "map (key_of (mt_table m)) ns = map encode_entry xs" "set xs = set es"
    "sorted_wrt (\<lambda>e e'. KeyComparator c (encode_entry e) (encode_entry e') < 0) xs"
proof -
  obtain ns where ns: "sl_inv (KeyComparator c) (mt_table m) ns"
    and ks: "set (map (key_of (mt_table m)) ns) = encode_entry ` set es"
    using assms by (auto simp: mt_rep_def sl_rep_def)
  have inj: "inj_on encode_entry (set es)"
  proof (rule inj_onI)
    fix e e' assume e: "e \<in> set es" "e' \<in> set es" "encode_entry e = encode_entry e'"
    have "KeyComparator c (encode_entry e) (encode_entry e') = 0"
      unfolding e(3) by (rule key_order.compare_refl [OF KeyComparator_order])
    then show "e = e'" using KeyComparator_same [of e e'] e(1,2) assms by (simp add: mt_rep_def)
  qed
  define xs where "xs = map (inv_into (set es) encode_entry) (map (key_of (mt_table m)) ns)"
  have "encode_entry (inv_into (set es) encode_entry k) = k" if "k \<in> set (map (key_of (mt_table m)) ns)" for k
    using that unfolding ks by (rule f_inv_into_f)
  then have "map (key_of (mt_table m)) ns = map encode_entry xs" unfolding xs_def by simp
  moreover have "set xs = set es" unfolding xs_def set_map [of "inv_into _ _"] ks using inj by simp
  moreover have "sorted_wrt (\<lambda>a b. KeyComparator c a b < 0) (map (key_of (mt_table m)) ns)"
    using sl_invD(9) [OF ns] by (simp add: sorted_wrt_map)
  ultimately show thesis using that ns by (simp add: sorted_wrt_map)
qed

lemma MemTable_Get_rep:
  assumes m: "mt_rep m es" "mt_comparator m = c" and s: "s \<le> kMaxSequenceNumber" "length u + 8 < 2 ^ 32"
  shows "MemTable_Get (LookupKey_new u s) m = Some (mem_lookup c es u s)"
proof -
  obtain ns xs where ns: "sl_inv (KeyComparator c) (mt_table m) ns"
    and xs: "map (key_of (mt_table m)) ns = map encode_entry xs" "set xs = set es"
      "sorted_wrt (\<lambda>e e'. KeyComparator c (encode_entry e) (encode_entry e') < 0) xs"
    using mt_rep_entries [OF m] .
  let ?mk = "memtable_key (LookupKey_new u s)"
  define D where "D = dropWhile (\<lambda>e. KeyComparator c (encode_entry e) ?mk < 0) xs"
  have ok: "\<forall>e\<in>set xs. entry_ok e" and "\<And>e e'. e \<in> set es \<Longrightarrow> e' \<in> set es \<Longrightarrow>
      Compare c (e_key e) (e_key e') = 0 \<Longrightarrow> e_seq e = e_seq e' \<Longrightarrow> e = e'"
    using m xs(2) by (auto simp: mt_rep_def)
  from seek_newest [OF s this(2) xs(3) eq_refl [OF xs(2)] ok, folded D_def]
  have seek: "case D of [] \<Rightarrow> \<forall>e\<in>set xs. \<not> visible c u s e
     | e # _ \<Rightarrow> e \<in> set xs \<and>
         (if Compare c (e_key e) u = 0
          then visible c u s e \<and> (\<forall>e'\<in>set xs. visible c u s e' \<longrightarrow> e' = e \<or> e_seq e' < e_seq e)
          else \<forall>e'\<in>set xs. \<not> visible c u s e')" .
  have keys: "map (key_of (mt_table m)) (dropWhile (\<lambda>a. KeyComparator c (key_of (mt_table m) a) ?mk < 0) ns) = map encode_entry D"
    using arg_cong [OF xs(1), of "dropWhile (\<lambda>k. KeyComparator c k ?mk < 0)"]
    by (simp add: dropWhile_map comp_def D_def)
  note it = key_order.iter_Seek_ok [OF KeyComparator_order ns, of ?mk]
  show ?thesis
  proof (cases D)
    case Nil
    then have "dropWhile (\<lambda>a. KeyComparator c (key_of (mt_table m) a) ?mk < 0) ns = []"
      using keys by (simp only: list.map map_is_Nil_conv)
    moreover have "filter (visible c u s) es = []" using Nil seek xs(2) by (simp add: filter_empty_conv)
    ultimately show ?thesis
      using it m(2) by (simp add: MemTable_Get_def mem_lookup_def first_def del: dropWhile_eq_Nil_conv)
  next
    case (Cons e D')
    then obtain a A where a: "dropWhile (\<lambda>a. KeyComparator c (key_of (mt_table m) a) ?mk < 0) ns = a # A"
      "key_of (mt_table m) a = encode_entry e" using keys by (auto simp: map_eq_Cons_conv)
    have e: "e \<in> set es" "entry_ok e" using seek Cons xs(2) ok by auto
    then have "MemTable_Get (LookupKey_new u s) m =
        Some (if Compare c (e_key e) u = 0 then Some (entry_result e) else None)"
      using it a m(2) encode_entry_slices [OF e(2)]
      by (cases "e_type e") (simp_all add: MemTable_Get_def first_def key_of_def [symmetric] split_beta Let_def
          entry_ikey_def LookupKey_parts PackSequenceAndType_bits entry_result_def
          DecodeFixed64_EncodeFixed64 [of _ "[]", simplified])
    moreover have "newest (filter (visible c u s) es) = (if Compare c (e_key e) u = 0 then Some e else None)"
      using seek Cons xs(2) e(1) by (auto simp: filter_empty_conv intro!: newest_unique)
    ultimately show ?thesis by (simp add: mem_lookup_def)
  qed
qed

text \<open>Adding entries one after the other.\<close>

lemma MemTable_adds_rep:
  "mt_rep m es0 \<Longrightarrow> mt_comparator m = c \<Longrightarrow> \<forall>e\<in>set es. entry_ok e \<Longrightarrow> versions_distinct c es \<Longrightarrow>
   \<forall>e'\<in>set es0. \<forall>e\<in>set es. \<not> (Compare c (e_key e') (e_key e) = 0 \<and> e_seq e' = e_seq e) \<Longrightarrow>
   \<exists>m'. MemTable_adds es m = Some m' \<and> mt_rep m' (rev es @ es0) \<and> mt_comparator m' = c"
proof (induction es arbitrary: m es0)
  case (Cons e es)
  obtain m' where m': "MemTable_Add (e_seq e) (e_type e) (e_key e) (e_value e) m = Some m'"
    "mt_rep m' (e # es0)" "mt_comparator m' = c"
    using MemTable_Add_rep [OF Cons.prems(1,2), of e] Cons.prems(3,5) by auto
  have "\<exists>m''. MemTable_adds es m' = Some m'' \<and> mt_rep m'' (rev es @ e # es0) \<and> mt_comparator m'' = c"
    using Cons.prems(3-5) by (intro Cons.IH [OF m'(2,3)]) (auto simp: versions_distinct_def)
  then show ?case using m'(1) by simp
qed simp

end

section \<open>Properties\<close>

text \<open>
  C8. A lookup in a memtable returns the newest version of the key that is visible at its snapshot.
  For every user comparator that is a total preorder, adding any list of entries with distinct
  versions to a new memtable returns, and afterwards a lookup of any key at any sequence number
  returns, with the value of the newest entry of that key not newer than the snapshot; with
  not-found when that entry is a deletion; and with false when there is none.
\<close>

theorem memtable_get_newest:
  assumes "separating_comparator c" "\<forall>e\<in>set es. entry_ok e" "versions_distinct c es"
    "s \<le> kMaxSequenceNumber" "length u + 8 < 2 ^ 32"
  shows "\<exists>m. MemTable_adds es (MemTable_new c) = Some m \<and>
    MemTable_Get (LookupKey_new u s) m = Some (mem_lookup c (rev es) u s)"
proof -
  have "mt_comparator (MemTable_new c) = c" by (simp add: MemTable_new_def)
  then show ?thesis
    using separating_comparator.MemTable_adds_rep [OF assms(1) MemTable_new_rep _ assms(2)] assms(3)
      separating_comparator.MemTable_Get_rep [OF assms(1) _ _ assms(4,5)] by fastforce
qed

theorem memtable_get_newest_witness:
  "\<exists>m. MemTable_adds
      [\<lparr>e_seq = 1, e_type = kTypeValue, e_key = [7], e_value = [1]\<rparr>,
       \<lparr>e_seq = 2, e_type = kTypeDeletion, e_key = [7], e_value = []\<rparr>] (MemTable_new BytewiseComparator) = Some m \<and>
    MemTable_Get (LookupKey_new [7] 1) m = Some (Some (Inr [1]))"
proof -
  let ?es = "[\<lparr>e_seq = 1, e_type = kTypeValue, e_key = [7], e_value = [1]\<rparr>,
       \<lparr>e_seq = 2, e_type = kTypeDeletion, e_key = [7], e_value = []\<rparr>]"
  have "mem_lookup BytewiseComparator (rev ?es) [7] 1 = Some (Inr [1])" by code_simp
  moreover have "\<forall>e\<in>set ?es. entry_ok e" "versions_distinct BytewiseComparator ?es"
    by (simp_all add: entry_ok_def kMaxSequenceNumber_def versions_distinct_def)
  ultimately show ?thesis
    using memtable_get_newest [OF bytewise.separating_comparator_axioms, of ?es 1 "[7]"]
    by (simp add: kMaxSequenceNumber_def)
qed

end
