(* ===== verification/WriteBatch.thy ===== *)
theory WriteBatch
  imports MemTable
begin

text \<open>
  \<open>db/write_batch.cc\<close> and \<open>db/write_batch_internal.h\<close>: the serialised form of a group of updates,
  the loop that replays it into a handler, and the handler that inserts it into a memtable with
  consecutive sequence numbers. A batch is the byte string \<open>rep_\<close>.
\<close>

section \<open>Building a batch\<close>

type_synonym WriteBatch = bytes

definition kHeader :: nat where "kHeader = 12"

definition Clear :: WriteBatch where
  "Clear = replicate kHeader 0"

definition ApproximateSize :: "WriteBatch \<Rightarrow> nat" where
  "ApproximateSize b = length b"

definition Count :: "WriteBatch \<Rightarrow> u32" where
  "Count b = DecodeFixed32 (drop 8 b)"

definition SetCount :: "u32 \<Rightarrow> WriteBatch \<Rightarrow> WriteBatch" where
  "SetCount n b = take 8 b @ EncodeFixed32 n @ drop 12 b"

definition Sequence :: "WriteBatch \<Rightarrow> SequenceNumber" where
  "Sequence b = DecodeFixed64 b"

definition SetSequence :: "SequenceNumber \<Rightarrow> WriteBatch \<Rightarrow> WriteBatch" where
  "SetSequence seq b = EncodeFixed64 seq @ drop 8 b"

definition Put :: "bytes \<Rightarrow> bytes \<Rightarrow> WriteBatch \<Rightarrow> WriteBatch" where
  "Put key val b =
     (let b = SetCount (Count b + 1) b;
          b = b @ [ucast (value_type_code kTypeValue)];
          b = PutLengthPrefixedSlice b key
      in PutLengthPrefixedSlice b val)"

definition Delete :: "bytes \<Rightarrow> WriteBatch \<Rightarrow> WriteBatch" where
  "Delete key b =
     (let b = SetCount (Count b + 1) b;
          b = b @ [ucast (value_type_code kTypeDeletion)]
      in PutLengthPrefixedSlice b key)"

definition Batch_Append :: "WriteBatch \<Rightarrow> WriteBatch \<Rightarrow> WriteBatch" where
  "Batch_Append dst src = SetCount (Count dst + Count src) dst @ drop kHeader src"

definition SetContents :: "bytes \<Rightarrow> WriteBatch" where
  "SetContents contents = contents"

section \<open>Replaying a batch\<close>

text \<open>The handler interface, over the handler's state.\<close>

record 'h Handler =
  h_Put :: "bytes \<Rightarrow> bytes \<Rightarrow> 'h \<Rightarrow> 'h"
  h_Delete :: "bytes \<Rightarrow> 'h \<Rightarrow> 'h"

text \<open>The loop: the status of an early return, or the number of records found.\<close>

function iterate_loop :: "'h Handler \<Rightarrow> nat \<Rightarrow> bytes \<Rightarrow> 'h \<Rightarrow> (Status + nat) \<times> 'h" where
  "iterate_loop handler found input h =
     (if input = [] then (Inr found, h)
      else
        let found = found + 1; tag = hd input; input = tl input
        in if tag = ucast (value_type_code kTypeValue) then
             case GetLengthPrefixedSlice input of
               None \<Rightarrow> (Inl (Corruption ''bad WriteBatch Put'' []), h)
             | Some (key, input) \<Rightarrow>
                 (case GetLengthPrefixedSlice input of
                    None \<Rightarrow> (Inl (Corruption ''bad WriteBatch Put'' []), h)
                  | Some (val, input) \<Rightarrow> iterate_loop handler found input (h_Put handler key val h))
           else if tag = ucast (value_type_code kTypeDeletion) then
             case GetLengthPrefixedSlice input of
               None \<Rightarrow> (Inl (Corruption ''bad WriteBatch Delete'' []), h)
             | Some (key, input) \<Rightarrow> iterate_loop handler found input (h_Delete handler key h)
           else (Inl (Corruption ''unknown WriteBatch tag'' []), h))"
  by pat_completeness auto
termination
proof (relation "measure (\<lambda>(handler, found, input, h). length input)", goal_cases)
  case (2 handler found input h x xa xb a aa b ab ba)
  then show ?case
    by (auto simp: neq_Nil_conv dest!: GetLengthPrefixedSlice_shorter)
next
  case (3 handler found input h x xa xb a aa b)
  then show ?case
    by (auto simp: neq_Nil_conv dest!: GetLengthPrefixedSlice_shorter)
qed simp

declare iterate_loop.simps [simp del]

text \<open>\<open>found\<close> and the count are of type \<open>int\<close>.\<close>

definition Iterate :: "'h Handler \<Rightarrow> WriteBatch \<Rightarrow> 'h \<Rightarrow> Status \<times> 'h" where
  "Iterate handler b h =
     (if length b < kHeader then (Corruption ''malformed WriteBatch (too small)'' [], h)
      else
        case iterate_loop handler 0 (drop kHeader b) h of
          (Inl s, h) \<Rightarrow> (s, h)
        | (Inr found, h) \<Rightarrow>
            (if int found \<noteq> sint (Count b) then (Corruption ''WriteBatch has wrong count'' [], h) else (OK, h)))"

text \<open>\<open>MemTableInserter\<close>: its sequence number and memtable; \<open>None\<close> once an insertion does not return.\<close>

type_synonym inserter = "(SequenceNumber \<times> MemTable) option"

definition inserter_add :: "ValueType \<Rightarrow> bytes \<Rightarrow> bytes \<Rightarrow> inserter \<Rightarrow> inserter" where
  "inserter_add t key val st =
     (case st of
        None \<Rightarrow> None
      | Some (sequence, mem) \<Rightarrow>
          (case MemTable_Add sequence t key val mem of
             None \<Rightarrow> None
           | Some mem \<Rightarrow> Some (sequence + 1, mem)))"

definition MemTableInserter :: "inserter Handler" where
  "MemTableInserter =
     \<lparr>h_Put = (\<lambda>key val. inserter_add kTypeValue key val),
      h_Delete = (\<lambda>key. inserter_add kTypeDeletion key [])\<rparr>"

definition InsertInto :: "WriteBatch \<Rightarrow> MemTable \<Rightarrow> Status \<times> MemTable option" where
  "InsertInto b memtable =
     (case Iterate MemTableInserter b (Some (Sequence b, memtable)) of (s, h) \<Rightarrow> (s, map_option snd h))"

section \<open>The operations of a batch\<close>

datatype batch_op = OpPut bytes bytes | OpDelete bytes

fun apply_op :: "batch_op \<Rightarrow> WriteBatch \<Rightarrow> WriteBatch" where
  "apply_op (OpPut k v) b = Put k v b"
| "apply_op (OpDelete k) b = Delete k b"

fun handle_op :: "'h Handler \<Rightarrow> batch_op \<Rightarrow> 'h \<Rightarrow> 'h" where
  "handle_op handler (OpPut k v) h = h_Put handler k v h"
| "handle_op handler (OpDelete k) h = h_Delete handler k h"

fun op_ok :: "batch_op \<Rightarrow> bool" where
  "op_ok (OpPut k v) \<longleftrightarrow> length k < 2 ^ 32 \<and> length v < 2 ^ 32"
| "op_ok (OpDelete k) \<longleftrightarrow> length k < 2 ^ 32"

fun op_bytes :: "batch_op \<Rightarrow> bytes" where
  "op_bytes (OpPut k v) = 1 # PutLengthPrefixedSlice [] k @ PutLengthPrefixedSlice [] v"
| "op_bytes (OpDelete k) = 0 # PutLengthPrefixedSlice [] k"

text \<open>A batch in normal form: sequence number, count and records.\<close>

definition batch :: "SequenceNumber \<Rightarrow> u32 \<Rightarrow> bytes \<Rightarrow> WriteBatch" where
  "batch seq n body = EncodeFixed64 seq @ EncodeFixed32 n @ body"

lemma batch_facts:
  "length (batch seq n body) = 12 + length body" "Count (batch seq n body) = n" "Sequence (batch seq n body) = seq"
  "SetCount n' (batch seq n body) = batch seq n' body" "SetSequence seq' (batch seq n body) = batch seq' n body"
  "drop kHeader (batch seq n body) = body"
  by (simp_all add: batch_def Count_def Sequence_def SetCount_def SetSequence_def kHeader_def)

lemma batch_append: "batch seq n body @ x = batch seq n (body @ x)"
  by (simp add: batch_def)

lemma PutLengthPrefixedSlice_append: "PutLengthPrefixedSlice a x = a @ PutLengthPrefixedSlice [] x"
  by (simp add: PutLengthPrefixedSlice_def PutVarint32_def)

lemma Clear_batch: "Clear = batch 0 0 []"
  by code_simp

lemma apply_op_batch: "apply_op x (batch seq n body) = batch seq (n + 1) (body @ op_bytes x)"
  by (cases x) (simp_all add: Put_def Delete_def Let_def batch_facts batch_append
      PutLengthPrefixedSlice_append [of "batch _ _ _"] PutLengthPrefixedSlice_append [of "_ @ _"])

lemma apply_ops_batch:
  "fold apply_op ops (batch seq n body) = batch seq (n + of_nat (length ops)) (body @ concat (map op_bytes ops))"
  by (induction ops arbitrary: n body) (simp_all add: apply_op_batch ac_simps)

lemma Batch_Append_batch:
  "Batch_Append (batch seq n body) (batch seq' n' body') = batch seq (n + n') (body @ body')"
  by (simp add: Batch_Append_def batch_facts batch_append)

lemma iterate_op:
  assumes "op_ok x"
  shows "iterate_loop handler found (op_bytes x @ rest) h = iterate_loop handler (found + 1) rest (handle_op handler x h)"
proof -
  have slice: "GetLengthPrefixedSlice (PutLengthPrefixedSlice [] y @ r) = Some (y, r)" if "length y < 2 ^ 32" for y r
    using that by simp
  show ?thesis
    using assms slice by (cases x) (simp_all add: iterate_loop.simps [of handler found "_ # _"])
qed

lemma iterate_ops:
  "\<forall>x\<in>set ops. op_ok x \<Longrightarrow> iterate_loop handler found (concat (map op_bytes ops)) h =
     (Inr (found + length ops), fold (handle_op handler) ops h)"
proof (induction ops arbitrary: found h)
  case Nil
  then show ?case by (simp add: iterate_loop.simps)
qed (simp add: iterate_op)

text \<open>
  What bytes say, independently of the loop: a record is a tag and one or two length-prefixed slices,
  and a string of bytes splits into records and a rest.
\<close>

inductive reads_record :: "bytes \<Rightarrow> batch_op \<Rightarrow> bytes \<Rightarrow> bool" where
  put: "GetLengthPrefixedSlice input = Some (key, r) \<Longrightarrow> GetLengthPrefixedSlice r = Some (val, rest) \<Longrightarrow>
    reads_record (1 # input) (OpPut key val) rest"
| delete: "GetLengthPrefixedSlice input = Some (key, rest) \<Longrightarrow> reads_record (0 # input) (OpDelete key) rest"

inductive_cases reads_recordE: "reads_record input x rest"

inductive reads_records :: "bytes \<Rightarrow> batch_op list \<Rightarrow> bytes \<Rightarrow> bool" where
  none: "reads_records input [] input"
| one_more: "reads_record input x r \<Longrightarrow> reads_records r xs rest \<Longrightarrow> reads_records input (x # xs) rest"

inductive_cases reads_records_NilE: "reads_records input [] rest"

inductive_cases reads_records_ConsE: "reads_records input (x # xs) rest"

definition no_record :: "bytes \<Rightarrow> bool" where
  "no_record input \<longleftrightarrow> (\<forall>x rest. \<not> reads_record input x rest)"

text \<open>The error for bytes that do not start with a record.\<close>

definition record_error :: "bytes \<Rightarrow> Status" where
  "record_error rest =
     (if hd rest = 1 then Corruption ''bad WriteBatch Put'' []
      else if hd rest = 0 then Corruption ''bad WriteBatch Delete'' []
      else Corruption ''unknown WriteBatch tag'' [])"

lemma reads_record_unique: "reads_record input x r \<Longrightarrow> reads_record input x' r' \<Longrightarrow> x' = x \<and> r' = r"
  by (auto elim!: reads_recordE)

lemma reads_records_unique:
  "reads_records input xs rest \<Longrightarrow> no_record rest \<Longrightarrow> reads_records input xs' rest' \<Longrightarrow> no_record rest' \<Longrightarrow> xs' = xs \<and> rest' = rest"
proof (induction arbitrary: xs' rule: reads_records.induct)
  case (none input)
  then show ?case by (cases xs') (auto simp: no_record_def elim: reads_records_NilE reads_records_ConsE)
next
  case (one_more input x r xs rest)
  then obtain y ys where xs': "xs' = y # ys"
    by (cases xs') (auto simp: no_record_def elim: reads_records_NilE)
  then obtain r' where "reads_record input y r'" "reads_records r' ys rest'"
    using one_more.prems(2) by (auto elim: reads_records_ConsE)
  then show ?case using one_more reads_record_unique [OF one_more.hyps(1)] xs' by blast
qed

lemma reads_records_shorter: "reads_records input xs rest \<Longrightarrow> 2 * length xs + length rest \<le> length input"
proof (induction rule: reads_records.induct)
  case (one_more input x r xs rest)
  then have "2 + length r \<le> length input" by (auto elim!: reads_recordE dest!: GetLengthPrefixedSlice_shorter)
  then show ?case using one_more by simp
qed simp

lemma status_code_Corruption [simp]: "status_code (Corruption msg msg2) = kCorruption"
  by (simp add: Corruption_def mk_status_def)

text \<open>The loop does exactly what the records say, up to the first bytes that are not a record.\<close>

lemma iterate_loop_record: "reads_record input x r \<Longrightarrow> iterate_loop handler found input h = iterate_loop handler (found + 1) r (handle_op handler x h)"
  by (auto simp: iterate_loop.simps [of handler found input h] elim!: reads_recordE)

lemma iterate_loop_no_record:
  assumes "no_record input" "input \<noteq> []"
  shows "iterate_loop handler found input h = (Inl (record_error input), h)"
proof -
  obtain t i where i: "input = t # i" using assms(2) by (cases input) auto
  have "t \<noteq> 0 \<or> GetLengthPrefixedSlice i = None" using assms(1) reads_record.delete [of i] by (force simp: i no_record_def)
  moreover have "t \<noteq> 1 \<or> GetLengthPrefixedSlice i = None \<or> GetLengthPrefixedSlice (snd (the (GetLengthPrefixedSlice i))) = None"
    using assms(1) reads_record.put [of i] by (force simp: i no_record_def)
  ultimately show ?thesis unfolding i
    by (auto simp: iterate_loop.simps [of handler found "t # i" h] record_error_def split: option.splits)
qed

lemma iterate_loop_reads:
  "\<exists>ops rest. reads_records input ops rest \<and> no_record rest \<and>
     iterate_loop handler found input h =
       (if rest = [] then Inr (found + length ops) else Inl (record_error rest), fold (handle_op handler) ops h)"
proof (induction "length input" arbitrary: input found h rule: less_induct)
  case less
  show ?case
  proof (cases "no_record input")
    case True
    then show ?thesis
      using iterate_loop_no_record [OF True, of handler found h] reads_records.none [of input]
      by (intro exI [of _ "[]"] exI [of _ input]) (auto simp: iterate_loop.simps [of handler found "[]"])
  next
    case False
    then obtain x r where x: "reads_record input x r" by (auto simp: no_record_def)
    then have "length r < length input"
      using reads_records_shorter [OF reads_records.one_more [OF x reads_records.none]] by simp
    from less [OF this, of "found + 1" "handle_op handler x h"] obtain ops rest where
      "reads_records r ops rest" "no_record rest" "iterate_loop handler (found + 1) r (handle_op handler x h) =
        (if rest = [] then Inr (found + 1 + length ops) else Inl (record_error rest), fold (handle_op handler) ops (handle_op handler x h))"
      by blast
    then show ?thesis
      using reads_records.one_more [OF x] iterate_loop_record [OF x, of handler found h]
      by (intro exI [of _ "x # ops"] exI [of _ rest]) simp
  qed
qed

lemma iterate_batch:
  assumes "\<forall>x\<in>set ops. op_ok x" "length ops < 2 ^ 31"
  shows "Iterate handler (batch seq (of_nat (length ops)) (concat (map op_bytes ops))) h =
    (OK, fold (handle_op handler) ops h)"
proof -
  have "sint (of_nat (length ops) :: u32) = int (length ops)"
    using assms(2) by (simp add: signed_of_nat signed_take_bit_int_eq_self)
  then show ?thesis
    using iterate_ops [OF assms(1), of handler 0 h] by (simp add: Iterate_def batch_facts) (simp add: kHeader_def)
qed

section \<open>Batches and the memtable\<close>

fun op_key :: "batch_op \<Rightarrow> bytes" where
  "op_key (OpPut k v) = k"
| "op_key (OpDelete k) = k"

fun op_entry :: "SequenceNumber \<Rightarrow> batch_op \<Rightarrow> Entry" where
  "op_entry s (OpPut k v) = \<lparr>e_seq = s, e_type = kTypeValue, e_key = k, e_value = v\<rparr>"
| "op_entry s (OpDelete k) = \<lparr>e_seq = s, e_type = kTypeDeletion, e_key = k, e_value = []\<rparr>"

fun batch_entries :: "SequenceNumber \<Rightarrow> batch_op list \<Rightarrow> Entry list" where
  "batch_entries s [] = []"
| "batch_entries s (x # ops) = op_entry s x # batch_entries (s + 1) ops"

lemma op_entry_simps [simp]: "e_seq (op_entry s x) = s" "e_key (op_entry s x) = op_key x"
  by (cases x; simp)+

lemma inserter_ops:
  "fold (handle_op MemTableInserter) ops (Some (s, m)) =
     map_option (\<lambda>m. (s + of_nat (length ops), m)) (MemTable_adds (batch_entries s ops) m)"
proof (induction ops arbitrary: s m)
  case (Cons x ops)
  have none: "fold (handle_op MemTableInserter) ops None = None"
  proof (induction ops)
    case (Cons x ops)
    then show ?case by (cases x) (simp_all add: MemTableInserter_def inserter_add_def)
  qed simp
  have x: "handle_op MemTableInserter x (Some (s, m)) =
    map_option (\<lambda>m. (s + 1, m)) (MemTable_Add (e_seq (op_entry s x)) (e_type (op_entry s x)) (e_key (op_entry s x))
      (e_value (op_entry s x)) m)"
    by (cases x) (simp_all add: MemTableInserter_def inserter_add_def split: option.split)
  show ?case using none Cons.IH
    by (simp add: x ac_simps del: op_entry_simps split: option.split)
qed simp

text \<open>The sequence numbers of a batch are consecutive and do not reach the maximum.\<close>

lemma batch_entries_seq:
  "e \<in> set (batch_entries s ops) \<Longrightarrow> unat s + length ops \<le> 2 ^ 56 \<Longrightarrow>
   unat s \<le> unat (e_seq e) \<and> unat (e_seq e) < unat s + length ops"
proof (induction ops arbitrary: s)
  case (Cons x ops)
  have "unat (s + 1) = unat s + 1" using Cons.prems(2) by (simp add: unat_word_ariths)
  then show ?case using Cons.IH [of "s + 1"] Cons.prems by auto
qed simp

fun op_fits :: "batch_op \<Rightarrow> bool" where
  "op_fits (OpPut k v) \<longleftrightarrow> length k + 8 < 2 ^ 32 \<and> length v < 2 ^ 32"
| "op_fits (OpDelete k) \<longleftrightarrow> length k + 8 < 2 ^ 32"

lemma op_fits_ok: "op_fits x \<Longrightarrow> op_ok x"
  by (cases x) auto

lemma batch_entries_ok:
  "\<forall>x\<in>set ops. op_fits x \<Longrightarrow> unat s + length ops \<le> 2 ^ 56 \<Longrightarrow> \<forall>e\<in>set (batch_entries s ops). entry_ok e"
proof (induction ops arbitrary: s)
  case (Cons x ops)
  have "unat (s + 1) = unat s + 1" using Cons.prems(2) by (simp add: unat_word_ariths)
  moreover have "entry_ok (op_entry s x)"
    using Cons.prems by (cases x) (simp_all add: entry_ok_def seq_bound)
  ultimately show ?case using Cons.IH [of "s + 1"] Cons.prems by auto
qed simp

lemma batch_entries_distinct:
  "unat s + length ops \<le> 2 ^ 56 \<Longrightarrow> sorted_wrt (\<lambda>e e'. e_seq e < e_seq e') (batch_entries s ops)"
proof (induction ops arbitrary: s)
  case (Cons x ops)
  have s1: "unat (s + 1) = unat s + 1" using Cons.prems by (simp add: unat_word_ariths)
  then have "s < e_seq e" if "e \<in> set (batch_entries (s + 1) ops)" for e
    using batch_entries_seq [OF that] Cons.prems by (simp add: word_less_nat_alt)
  then show ?case using Cons.IH [of "s + 1"] Cons.prems s1 by simp
qed simp

text \<open>The newest visible version after a batch: the last operation of the batch on the key, if any.\<close>

definition op_result :: "batch_op \<Rightarrow> Status + bytes" where
  "op_result x = entry_result (op_entry 0 x)"

lemma op_result_entry: "entry_result (op_entry s x) = op_result x"
  by (cases x) (simp_all add: op_result_def entry_result_def)

lemma newest_newer:
  "sorted_wrt (\<lambda>e e'. e_seq e < e_seq e') new \<Longrightarrow> \<forall>e\<in>set old. \<forall>e'\<in>set new. e_seq e < e_seq e' \<Longrightarrow>
   newest (filter P (rev new @ old)) = (case find P (rev new) of None \<Rightarrow> newest (filter P old) | Some e \<Rightarrow> Some e)"
proof (induction new rule: rev_induct)
  case (snoc x new)
  show ?case
  proof (cases "P x")
    case True
    have "newest (filter P (rev (new @ [x]) @ old)) = Some x"
      using snoc.prems True by (intro newest_unique) (auto simp: sorted_wrt_append)
    then show ?thesis using True by simp
  qed (use snoc in \<open>simp add: sorted_wrt_append\<close>)
qed simp

lemma find_append: "find P (xs @ ys) = (case find P xs of None \<Rightarrow> find P ys | Some x \<Rightarrow> Some x)"
  by (induction xs) auto

lemma find_batch_entries:
  "unat n + length ops \<le> 2 ^ 56 \<Longrightarrow> \<forall>e\<in>set (batch_entries n ops). e_seq e \<le> s \<Longrightarrow>
   map_option entry_result (find (visible c u s) (rev (batch_entries n ops))) =
   map_option op_result (find (\<lambda>x. Compare c (op_key x) u = 0) (rev ops))"
proof (induction ops arbitrary: n)
  case (Cons x ops)
  have n: "unat (n + 1) = unat n + 1" using Cons.prems(1) by (simp add: unat_word_ariths)
  have "map_option entry_result (find (visible c u s) (rev (batch_entries (n + 1) ops))) =
      map_option op_result (find (\<lambda>x. Compare c (op_key x) u = 0) (rev ops))"
    using Cons.prems n by (intro Cons.IH) auto
  then show ?case
    using Cons.prems(2) by (cases "find (visible c u s) (rev (batch_entries (n + 1) ops))";
        cases "find (\<lambda>x. Compare c (op_key x) u = 0) (rev ops)")
      (simp_all add: find_append visible_def [of c u s "op_entry n x"] op_result_entry)
qed simp

lemma lookup_after_batch:
  assumes "unat n + length ops \<le> 2 ^ 56" "unat n + length ops \<le> unat s + 1" "\<forall>e\<in>set es. e_seq e < n"
  shows "mem_lookup c (rev (batch_entries n ops) @ es) u s =
    (case find (\<lambda>x. Compare c (op_key x) u = 0) (rev ops) of
       None \<Rightarrow> mem_lookup c es u s | Some x \<Rightarrow> Some (op_result x))"
proof -
  have seq: "n \<le> e_seq e \<and> e_seq e \<le> s" if "e \<in> set (batch_entries n ops)" for e
    using batch_entries_seq [OF that assms(1)] assms(2) by (simp add: word_le_nat_alt)
  then have "\<forall>e\<in>set es. \<forall>e'\<in>set (batch_entries n ops). e_seq e < e_seq e'"
    using assms(3) by (meson less_le_trans)
  then have "newest (filter (visible c u s) (rev (batch_entries n ops) @ es)) =
      (case find (visible c u s) (rev (batch_entries n ops)) of
         None \<Rightarrow> newest (filter (visible c u s) es) | Some e \<Rightarrow> Some e)"
    using batch_entries_distinct [OF assms(1)] by (intro newest_newer)
  moreover have "map_option entry_result (find (visible c u s) (rev (batch_entries n ops))) =
      map_option op_result (find (\<lambda>x. Compare c (op_key x) u = 0) (rev ops))"
    using seq assms(1) by (intro find_batch_entries) auto
  ultimately show ?thesis unfolding mem_lookup_def by (auto split: option.splits)
qed

section \<open>Properties\<close>

text \<open>
  C33. Replaying a batch gives the handler the operations that were put into it, in order: for every
  handler and every list of puts and deletions whose slices have 32-bit lengths, and for two batches
  joined with \<open>Append\<close> the operations of the first, then those of the second.
\<close>

theorem write_batch_replay:
  assumes "\<forall>x\<in>set (ops @ ops'). op_ok x" "length ops + length ops' < 2 ^ 31"
  shows "Iterate handler (SetSequence seq (fold apply_op ops Clear)) h = (OK, fold (handle_op handler) ops h) \<and>
    Iterate handler (Batch_Append (fold apply_op ops Clear) (fold apply_op ops' Clear)) h =
      (OK, fold (handle_op handler) (ops @ ops') h)"
proof -
  show ?thesis
    using iterate_batch [of ops handler seq h] iterate_batch [of "ops @ ops'" handler 0 h] assms
    by (simp add: Clear_batch apply_ops_batch batch_facts Batch_Append_batch)
qed

theorem write_batch_replay_witness:
  "Iterate \<lparr>h_Put = (\<lambda>k v l. l @ [(k, Some v)]), h_Delete = (\<lambda>k l. l @ [(k, None)])\<rparr>
     (SetSequence 5 (fold apply_op [OpPut [1] [2, 3], OpDelete [4]] Clear)) [] =
   (OK, [([1], Some [2, 3]), ([4], None)])"
  using write_batch_replay [of "[OpPut [1] [2, 3], OpDelete [4]]" "[]"
      "\<lparr>h_Put = (\<lambda>k v l. l @ [(k, Some v)]), h_Delete = (\<lambda>k l. l @ [(k, None)])\<rparr>" 5 "[]"] by simp

text \<open>
  C34. Replaying any byte string of less than 4 GiB hands over exactly the records it contains. The bytes
  after the header split in one way only into records and a rest that does not start with a record; the
  handler gets these records in order, and nothing else. The status is OK exactly when the header is
  complete, no bytes remain and the number of records is the count in the header; otherwise it is the
  corruption for the header, the rest or the count. The records before a corruption stay applied.
\<close>

theorem write_batch_any_bytes:
  assumes "length b < 2 ^ 32"
  shows "\<exists>ops rest. (\<forall>ops' rest'. reads_records (drop kHeader b) ops' rest' \<and> no_record rest' \<longleftrightarrow> ops' = ops \<and> rest' = rest) \<and>
     length ops < 2 ^ 31 \<and>
     Iterate handler b h =
       (if length b < kHeader then (Corruption ''malformed WriteBatch (too small)'' [], h)
        else (if rest \<noteq> [] then record_error rest
              else if int (length ops) = sint (Count b) then OK else Corruption ''WriteBatch has wrong count'' [],
              fold (handle_op handler) ops h))"
proof -
  obtain ops rest where o: "reads_records (drop kHeader b) ops rest" "no_record rest"
    "iterate_loop handler 0 (drop kHeader b) h =
       (if rest = [] then Inr (0 + length ops) else Inl (record_error rest), fold (handle_op handler) ops h)"
    using iterate_loop_reads [of "drop kHeader b" handler 0 h] by - (elim exE conjE, rule that)
  have "length ops < 2 ^ 31" using reads_records_shorter [OF o(1)] assms by simp
  moreover have "\<forall>ops' rest'. reads_records (drop kHeader b) ops' rest' \<and> no_record rest' \<longleftrightarrow> ops' = ops \<and> rest' = rest"
    using o(1,2) by (intro allI iffI) (elim conjE, erule reads_records_unique [OF o(1,2)], assumption, simp)
  moreover have "Iterate handler b h =
      (if length b < kHeader then (Corruption ''malformed WriteBatch (too small)'' [], h)
       else (if rest \<noteq> [] then record_error rest
             else if int (length ops) = sint (Count b) then OK else Corruption ''WriteBatch has wrong count'' [],
             fold (handle_op handler) ops h))"
    unfolding Iterate_def o(3) by simp
  ultimately show ?thesis by (intro exI [of _ ops] exI [of _ rest] conjI)
qed

theorem write_batch_any_bytes_witness:
  "let b = replicate 8 0 @ [2, 0, 0, 0] @ [1, 1, 65, 1, 66, 7] :: bytes in length b < 2 ^ 32 \<and>
     (\<exists>rest. no_record rest \<and> Iterate \<lparr>h_Put = (\<lambda>k v l. l @ [(k, Some v)]), h_Delete = (\<lambda>k l. l @ [(k, None)])\<rparr> b [] =
       (record_error rest, [([65], Some [66])]) \<and> rest = [7])"
proof -
  let ?b = "replicate 8 0 @ [2, 0, 0, 0] @ [1, 1, 65, 1, 66, 7] :: bytes"
  let ?h = "\<lparr>h_Put = (\<lambda>k v l. l @ [(k, Some v)]), h_Delete = (\<lambda>k l. l @ [(k, None)])\<rparr>"
  have "no_record [7 :: 8 word]" by (auto simp: no_record_def elim: reads_recordE)
  moreover have "reads_record [1, 1, 65, 1, 66, 7] (OpPut [65] [66]) [7]"
    by (rule reads_record.put [where r = "[1, 66, 7]"]; code_simp)
  then have "reads_records [1, 1, 65, 1, 66, 7] [OpPut [65] [66]] [7]" by (rule reads_records.one_more [OF _ reads_records.none])
  moreover have "length ?b < 2 ^ 32" by simp
  from write_batch_any_bytes [OF this, of ?h "[]"] obtain ops rest where o: "\<forall>ops' rest'. reads_records (drop kHeader ?b) ops' rest' \<and> no_record rest' \<longleftrightarrow> ops' = ops \<and> rest' = rest"
    "Iterate ?h ?b [] = (if length ?b < kHeader then (Corruption ''malformed WriteBatch (too small)'' [], [])
        else (if rest \<noteq> [] then record_error rest
              else if int (length ops) = sint (Count ?b) then OK else Corruption ''WriteBatch has wrong count'' [],
              fold (handle_op ?h) ops []))"
    by - (elim exE conjE, rule that)
  moreover have "drop kHeader ?b = [1, 1, 65, 1, 66, 7]" by (simp add: kHeader_def)
  ultimately have "ops = [OpPut [65] [66]]" "rest = [7]" by metis+
  then show ?thesis using o(2) \<open>no_record [7]\<close> by (simp add: kHeader_def)
qed

text \<open>
  C14. Inserting a batch into a memtable makes its operations visible, last one first: when the
  sequence numbers of the memtable are below that of the batch and the batch does not exhaust the
  56-bit sequence numbers, the insertion returns OK, and a lookup at a snapshot that includes the
  batch returns the result of the last operation of the batch on the key, or, when there is none,
  what it returned before.
\<close>

theorem write_batch_insert:
  assumes c: "separating_comparator c" and m: "mt_rep m es" "mt_comparator m = c"
    and seq: "\<forall>e\<in>set es. e_seq e < seq" "unat seq + length ops \<le> 2 ^ 56" "length ops < 2 ^ 31"
    and ops: "\<forall>x\<in>set ops. op_fits x"
    and s: "unat seq + length ops \<le> unat s + 1" "s \<le> kMaxSequenceNumber" "length u + 8 < 2 ^ 32"
  shows "\<exists>m'. InsertInto (SetSequence seq (fold apply_op ops Clear)) m = (OK, Some m') \<and>
    MemTable_Get (LookupKey_new u s) m' =
      (case find (\<lambda>x. Compare c (op_key x) u = 0) (rev ops) of
         None \<Rightarrow> MemTable_Get (LookupKey_new u s) m
       | Some x \<Rightarrow> Some (Some (op_result x)))"
proof -
  let ?new = "batch_entries seq ops"
  have newer: "e_seq e < e_seq e'" if "e \<in> set es" "e' \<in> set ?new" for e e'
    using seq(1) that batch_entries_seq [OF that(2) seq(2)] by (force simp: word_less_nat_alt)
  have "versions_distinct c ?new" unfolding versions_distinct_def
    by (rule sorted_wrt_mono_rel [OF _ batch_entries_distinct [OF seq(2)]]) auto
  moreover have "\<forall>e\<in>set es. \<forall>e'\<in>set ?new. \<not> (Compare c (e_key e) (e_key e') = 0 \<and> e_seq e = e_seq e')"
    using newer by force
  ultimately obtain m' where m': "MemTable_adds ?new m = Some m'" "mt_rep m' (rev ?new @ es)" "mt_comparator m' = c"
    using separating_comparator.MemTable_adds_rep [OF c m batch_entries_ok [OF ops seq(2)]] by auto
  have "Iterate MemTableInserter (SetSequence seq (fold apply_op ops Clear)) (Some (seq, m)) =
      (OK, fold (handle_op MemTableInserter) ops (Some (seq, m)))"
    using iterate_batch [OF _ seq(3), of MemTableInserter seq] ops op_fits_ok
    by (simp add: Clear_batch apply_ops_batch batch_facts)
  then have "InsertInto (SetSequence seq (fold apply_op ops Clear)) m = (OK, Some m')"
    by (simp add: InsertInto_def inserter_ops m' Clear_batch apply_ops_batch batch_facts)
  moreover have "MemTable_Get (LookupKey_new u s) m' = Some (mem_lookup c (rev ?new @ es) u s)"
    by (rule separating_comparator.MemTable_Get_rep [OF c m'(2,3) s(2,3)])
  moreover have "MemTable_Get (LookupKey_new u s) m = Some (mem_lookup c es u s)"
    by (rule separating_comparator.MemTable_Get_rep [OF c m s(2,3)])
  ultimately show ?thesis
    by (simp add: lookup_after_batch [OF seq(2) s(1) seq(1)] split: option.split)
qed

theorem write_batch_insert_witness:
  "\<exists>m'. InsertInto (SetSequence 5 (fold apply_op [OpPut [1] [2], OpDelete [4], OpPut [1] [3]] Clear))
      (MemTable_new BytewiseComparator) = (OK, Some m') \<and>
    MemTable_Get (LookupKey_new [1] 7) m' = Some (Some (Inr [3]))"
  using write_batch_insert [OF bytewise.separating_comparator_axioms MemTable_new_rep,
      of BytewiseComparator 5 "[OpPut [1] [2], OpDelete [4], OpPut [1] [3]]" 7 "[1]"]
  by (simp add: MemTable_new_def kMaxSequenceNumber_def op_result_def entry_result_def bytewise_eq_iff)

end
