(* ===== verification/Arena.thy ===== *)
theory Arena
  imports Prelude "HOL-Library.Monad_Syntax"
begin

text \<open>
  \<open>util/arena.h\<close> and \<open>util/arena.cc\<close>: the bump allocator behind the memtable. Addresses and
  sizes are the natural numbers below \<open>2 ^ 64\<close>, with the wrap-around of \<open>size_t\<close> written out where the code adds
  sizes; a region is its address and its size. The blocks come from \<open>new char[]\<close>, a parameter \<open>new\<close> of the
  operations, whose \<open>None\<close> is the exception for exhausted memory; what the code relies on of it is the
  locale \<open>block_allocator\<close>.
\<close>

section \<open>The arena\<close>

type_synonym region = "nat \<times> nat"

record Arena =
  alloc_ptr :: nat
  alloc_bytes_remaining :: nat
  blocks :: "region list"
  memory_usage :: nat

definition kBlockSize_arena :: nat where "kBlockSize_arena = 4096"

definition Arena_new :: Arena where
  "Arena_new = \<lparr>alloc_ptr = 0, alloc_bytes_remaining = 0, blocks = [], memory_usage = 0\<rparr>"

type_synonym allocator = "region list \<Rightarrow> nat \<Rightarrow> nat option"

definition AllocateNewBlock :: "allocator \<Rightarrow> nat \<Rightarrow> Arena \<Rightarrow> (nat \<times> Arena) option" where
  "AllocateNewBlock new block_bytes A = do {
     result \<leftarrow> new (blocks A) block_bytes;
     Some (result, A\<lparr>blocks := blocks A @ [(result, block_bytes)],
                      memory_usage := (memory_usage A + (block_bytes + 8)) mod 2 ^ 64\<rparr>)
   }"

definition AllocateFallback :: "allocator \<Rightarrow> nat \<Rightarrow> Arena \<Rightarrow> (nat \<times> Arena) option" where
  "AllocateFallback new bytes A =
     (if bytes > kBlockSize_arena div 4 then AllocateNewBlock new bytes A
      else do {
        (p, A) \<leftarrow> AllocateNewBlock new kBlockSize_arena A;
        let A = A\<lparr>alloc_ptr := p, alloc_bytes_remaining := kBlockSize_arena\<rparr>;
        let result = alloc_ptr A;
        Some (result, A\<lparr>alloc_ptr := alloc_ptr A + bytes,
                        alloc_bytes_remaining := alloc_bytes_remaining A - bytes\<rparr>)
      })"

definition Allocate :: "allocator \<Rightarrow> nat \<Rightarrow> Arena \<Rightarrow> (nat \<times> Arena) option" where
  "Allocate new bytes A =
     (if bytes \<le> alloc_bytes_remaining A then
        Some (alloc_ptr A, A\<lparr>alloc_ptr := alloc_ptr A + bytes,
                             alloc_bytes_remaining := alloc_bytes_remaining A - bytes\<rparr>)
      else AllocateFallback new bytes A)"

text \<open>\<open>align\<close> is 8 with 8-byte pointers. The sum \<open>bytes + slop\<close> is a \<open>size_t\<close> and wraps around.\<close>

definition AllocateAligned :: "allocator \<Rightarrow> nat \<Rightarrow> Arena \<Rightarrow> (nat \<times> Arena) option" where
  "AllocateAligned new bytes A =
     (let align = 8;
          current_mod = alloc_ptr A AND (align - 1);
          slop = (if current_mod = 0 then 0 else align - current_mod);
          needed = (bytes + slop) mod 2 ^ 64
      in if needed \<le> alloc_bytes_remaining A then
           Some (alloc_ptr A + slop, A\<lparr>alloc_ptr := alloc_ptr A + needed,
                                       alloc_bytes_remaining := alloc_bytes_remaining A - needed\<rparr>)
         else AllocateFallback new bytes A)"

section \<open>Regions\<close>

definition disjoint :: "region \<Rightarrow> region \<Rightarrow> bool" where
  "disjoint r q \<longleftrightarrow> fst r + snd r \<le> fst q \<or> fst q + snd q \<le> fst r"

definition inside :: "region \<Rightarrow> region \<Rightarrow> bool" where
  "inside r q \<longleftrightarrow> fst q \<le> fst r \<and> fst r + snd r \<le> fst q + snd q"

lemma disjoint_sym: "disjoint r q \<Longrightarrow> disjoint q r"
  by (auto simp: disjoint_def)

lemma inside_disjoint: "inside r q \<Longrightarrow> disjoint q s \<Longrightarrow> disjoint r s"
  by (auto simp: inside_def disjoint_def)

lemma inside_refl [simp]: "inside r r"
  by (simp add: inside_def)

text \<open>
  The blocks are disjoint; the regions handed out are disjoint and lie in blocks; so does the free
  rest of the current block, disjoint from them. The usage counts every block and its pointer, modulo \<open>2 ^ 64\<close>.
\<close>

definition arena_ok :: "Arena \<Rightarrow> region list \<Rightarrow> bool" where
  "arena_ok A live \<longleftrightarrow>
     sorted_wrt disjoint (blocks A) \<and> sorted_wrt disjoint live \<and>
     (\<forall>r\<in>set live. \<exists>b\<in>set (blocks A). inside r b) \<and>
     (alloc_bytes_remaining A > 0 \<longrightarrow>
        (\<exists>b\<in>set (blocks A). inside (alloc_ptr A, alloc_bytes_remaining A) b) \<and>
        (\<forall>r\<in>set live. disjoint r (alloc_ptr A, alloc_bytes_remaining A))) \<and>
     memory_usage A = (\<Sum>b\<leftarrow>blocks A. snd b + 8) mod 2 ^ 64"

lemma Arena_new_ok: "arena_ok Arena_new []"
  by (simp add: arena_ok_def Arena_new_def)

text \<open>Handing out a part of the free rest.\<close>

lemma arena_ok_bump:
  assumes "arena_ok A live" "skip + n \<le> alloc_bytes_remaining A" "0 < n"
  shows "arena_ok (A\<lparr>alloc_ptr := alloc_ptr A + (skip + n), alloc_bytes_remaining := alloc_bytes_remaining A - (skip + n)\<rparr>)
    (live @ [(alloc_ptr A + skip, n)])"
proof -
  have pos: "alloc_bytes_remaining A > 0" using assms by simp
  obtain b where b: "b \<in> set (blocks A)" "inside (alloc_ptr A, alloc_bytes_remaining A) b"
    using assms(1) pos by (auto simp: arena_ok_def)
  have free: "\<forall>r\<in>set live. disjoint r (alloc_ptr A, alloc_bytes_remaining A)"
    using assms(1) pos by (simp add: arena_ok_def)
  have part: "inside (alloc_ptr A + skip, n) (alloc_ptr A, alloc_bytes_remaining A)"
    "inside (alloc_ptr A + (skip + n), alloc_bytes_remaining A - (skip + n)) (alloc_ptr A, alloc_bytes_remaining A)"
    using assms(2) by (auto simp: inside_def)
  have "disjoint r q" if "r \<in> set live" "inside q (alloc_ptr A, alloc_bytes_remaining A)" for r q
    using free that inside_disjoint disjoint_sym by blast
  then have "\<forall>r\<in>set live. disjoint r (alloc_ptr A + skip, n)"
    "\<forall>r\<in>set live. disjoint r (alloc_ptr A + (skip + n), alloc_bytes_remaining A - (skip + n))" using part by auto
  moreover have "\<exists>b\<in>set (blocks A). inside q b" if "inside q (alloc_ptr A, alloc_bytes_remaining A)" for q
    using that b(2) by (intro bexI [OF _ b(1)]) (auto simp: inside_def)
  then have "\<exists>b\<in>set (blocks A). inside (alloc_ptr A + skip, n) b"
    "\<exists>b\<in>set (blocks A). inside (alloc_ptr A + (skip + n), alloc_bytes_remaining A - (skip + n)) b" using part by auto
  moreover have "disjoint (alloc_ptr A + skip, n) (alloc_ptr A + (skip + n), alloc_bytes_remaining A - (skip + n))"
    by (simp add: disjoint_def)
  ultimately show ?thesis
    using assms(1) unfolding arena_ok_def by (simp add: sorted_wrt_append ball_Un)
qed

section \<open>What the arena relies on, and what it guarantees\<close>

text \<open>
  \<open>new char[n]\<close>, when it returns, returns memory that overlaps no block in use, is aligned for every
  fundamental type and lies in the address space, as the language guarantees.
\<close>

locale block_allocator =
  fixes new :: allocator
  assumes new_disjoint: "new bs n = Some p \<Longrightarrow> b \<in> set bs \<Longrightarrow> disjoint b (p, n)"
    and new_aligned: "new bs n = Some p \<Longrightarrow> 8 dvd p"
    and new_bounded: "new bs n = Some p \<Longrightarrow> p + n < 2 ^ 64"
begin

lemma AllocateNewBlock_ok:
  assumes "arena_ok A live" "AllocateNewBlock new n A = Some (p, A')"
  shows "arena_ok A' live" "(p, n) \<in> set (blocks A')" "\<forall>r\<in>set live. disjoint r (p, n)" "8 dvd p"
    "alloc_ptr A' = alloc_ptr A" "alloc_bytes_remaining A' = alloc_bytes_remaining A"
    "alloc_bytes_remaining A > 0 \<Longrightarrow> disjoint (p, n) (alloc_ptr A, alloc_bytes_remaining A)"
proof -
  have p: "new (blocks A) n = Some p"
    and A': "A' = A\<lparr>blocks := blocks A @ [(p, n)], memory_usage := (memory_usage A + (n + 8)) mod 2 ^ 64\<rparr>"
    using assms(2) by (auto simp: AllocateNewBlock_def bind_eq_Some_conv)
  have d: "\<forall>b\<in>set (blocks A). disjoint b (p, n)" using new_disjoint [OF p] by simp
  have "memory_usage A' = (\<Sum>b\<leftarrow>blocks A'. snd b + 8) mod 2 ^ 64"
    using assms(1) by (simp add: arena_ok_def A' mod_add_left_eq add.assoc)
  then show "arena_ok A' live" using assms(1) d by (auto simp: arena_ok_def A' sorted_wrt_append)
  show "\<forall>r\<in>set live. disjoint r (p, n)"
    using assms(1) d inside_disjoint unfolding arena_ok_def by meson
  show "disjoint (p, n) (alloc_ptr A, alloc_bytes_remaining A)" if "alloc_bytes_remaining A > 0"
    using assms(1) d inside_disjoint disjoint_sym that unfolding arena_ok_def by meson
qed (use assms(2) new_aligned in \<open>auto simp: AllocateNewBlock_def bind_eq_Some_conv\<close>)

lemma AllocateFallback_ok:
  assumes "arena_ok A live" "0 < n" "AllocateFallback new n A = Some (p, A')"
  shows "arena_ok A' (live @ [(p, n)]) \<and> 8 dvd p"
proof (cases "n > kBlockSize_arena div 4")
  case True
  then have "AllocateNewBlock new n A = Some (p, A')" using assms(3) by (simp add: AllocateFallback_def)
  note new = AllocateNewBlock_ok [OF assms(1) this]
  then show ?thesis
    using new(1) unfolding arena_ok_def by (auto simp: sorted_wrt_append intro!: bexI [of _ "(p, n)"])
next
  case False
  then obtain q A1 where q: "AllocateNewBlock new kBlockSize_arena A = Some (q, A1)"
    using assms(3) by (auto simp: AllocateFallback_def bind_eq_Some_conv)
  note new = AllocateNewBlock_ok [OF assms(1) q]
  define A2 where "A2 = A1\<lparr>alloc_ptr := q, alloc_bytes_remaining := kBlockSize_arena\<rparr>"
  have "arena_ok A2 live"
    using new(1-3) unfolding arena_ok_def A2_def by (auto intro!: bexI [of _ "(q, kBlockSize_arena)"])
  moreover have "0 + n \<le> alloc_bytes_remaining A2" using False by (simp add: A2_def kBlockSize_arena_def)
  moreover have "p = alloc_ptr A2"
    "A' = A2\<lparr>alloc_ptr := alloc_ptr A2 + (0 + n), alloc_bytes_remaining := alloc_bytes_remaining A2 - (0 + n)\<rparr>"
    using assms(3) False q by (auto simp: AllocateFallback_def A2_def Let_def)
  ultimately show ?thesis using arena_ok_bump [of A2 live 0 n] assms(2) new(4) by (simp add: A2_def)
qed

lemma Allocate_ok:
  assumes "arena_ok A live" "0 < n" "Allocate new n A = Some (p, A')"
  shows "arena_ok A' (live @ [(p, n)])"
proof (cases "n \<le> alloc_bytes_remaining A")
  case True
  then show ?thesis using arena_ok_bump [of A live 0 n] assms by (auto simp: Allocate_def)
next
  case False
  then show ?thesis using AllocateFallback_ok [OF assms(1,2)] assms(3) by (simp add: Allocate_def)
qed

lemma AllocateAligned_ok:
  assumes "arena_ok A live" "0 < n" "n + 7 < 2 ^ 64" "AllocateAligned new n A = Some (p, A')"
  shows "arena_ok A' (live @ [(p, n)]) \<and> 8 dvd p"
proof -
  define slop where "slop = (if alloc_ptr A mod 8 = 0 then 0 else 8 - alloc_ptr A mod 8)"
  have mask: "alloc_ptr A AND (8 - 1) = alloc_ptr A mod 8"
    using take_bit_eq_mask [of 3 "alloc_ptr A"] by (simp add: take_bit_eq_mod mask_eq_exp_minus_1)
  have wrap: "(n + slop) mod 2 ^ 64 = n + slop" using assms(3) by (simp add: slop_def)
  have aligned: "8 dvd alloc_ptr A + slop" unfolding slop_def by presburger
  show ?thesis
  proof (cases "n + slop \<le> alloc_bytes_remaining A")
    case True
    then have "p = alloc_ptr A + slop" "A' = A\<lparr>alloc_ptr := alloc_ptr A + (slop + n),
        alloc_bytes_remaining := alloc_bytes_remaining A - (slop + n)\<rparr>"
      using assms(4) unfolding AllocateAligned_def Let_def mask slop_def [symmetric] wrap by (auto simp: ac_simps)
    then show ?thesis using arena_ok_bump [of A live slop n] assms(1,2) True aligned by (simp add: ac_simps)
  next
    case False
    then have "AllocateFallback new n A = Some (p, A')"
      using assms(4) unfolding AllocateAligned_def Let_def mask slop_def [symmetric] wrap by simp
    then show ?thesis by (rule AllocateFallback_ok [OF assms(1,2)])
  qed
qed

end

text \<open>An allocator that extends the used part of the address space while it can.\<close>

definition bump_new :: allocator where
  "bump_new bs n = (let p = 8 * (foldr (\<lambda>b. max (fst b + snd b)) bs 0 div 8 + 1) in if p + n < 2 ^ 64 then Some p else None)"

lemma bump_new_above: "b \<in> set bs \<Longrightarrow> fst b + snd b \<le> foldr (\<lambda>b. max (fst b + snd b)) bs 0" for b :: region
  by (induction bs) auto

interpretation bump: block_allocator bump_new
proof unfold_locales
  show "disjoint b (p, n)" if "bump_new bs n = Some p" "b \<in> set bs" for b bs n p
    using bump_new_above [OF that(2)] that(1) by (auto simp: disjoint_def bump_new_def Let_def split: if_splits)
qed (auto simp: bump_new_def Let_def split: if_splits)

section \<open>Properties\<close>

text \<open>Runs of requests: the size and whether it has to be aligned.\<close>

fun run_requests :: "allocator \<Rightarrow> (nat \<times> bool) list \<Rightarrow> Arena \<Rightarrow> (region list \<times> Arena) option" where
  "run_requests new [] A = Some ([], A)"
| "run_requests new ((n, aligned) # rs) A = do {
     (p, A) \<leftarrow> (if aligned then AllocateAligned new n A else Allocate new n A);
     (ps, A) \<leftarrow> run_requests new rs A;
     Some ((p, n) # ps, A)
   }"

lemma run_requests_ok:
  assumes "block_allocator new"
  shows "arena_ok A live \<Longrightarrow> \<forall>(n, a)\<in>set rs. 0 < n \<and> n + 7 < 2 ^ 64 \<Longrightarrow> run_requests new rs A = Some (ps, A') \<Longrightarrow>
    arena_ok A' (live @ ps) \<and> list_all2 (\<lambda>(n, a) (p, n'). n' = n \<and> (a \<longrightarrow> 8 dvd p)) rs ps"
proof (induction rs arbitrary: A live ps)
  case (Cons r rs)
  obtain n a where r: "r = (n, a)" by fastforce
  obtain p A1 qs A2 where p: "(if a then AllocateAligned new n A else Allocate new n A) = Some (p, A1)"
    and qs: "run_requests new rs A1 = Some (qs, A2)" and ps: "ps = (p, n) # qs" "A' = A2"
    using Cons.prems(3) by (auto simp: r bind_eq_Some_conv)
  have "arena_ok A1 (live @ [(p, n)]) \<and> (a \<longrightarrow> 8 dvd p)"
    using p Cons.prems(1,2) block_allocator.Allocate_ok [OF assms] block_allocator.AllocateAligned_ok [OF assms]
    by (auto simp: r split: if_splits)
  then show ?case using Cons.IH [of A1 "live @ [(p, n)]" qs] Cons.prems(2) qs ps by (auto simp: r)
qed auto

text \<open>
  The bound on the sizes is needed: close to \<open>2 ^ 64\<close> the sum with the padding wraps around, and an aligned
  request for almost the whole address space is served from the current block, without a new one.
\<close>

lemma arena_aligned_wraps:
  assumes "alloc_ptr A mod 8 = m" "0 < m" "k < 8 - m" "k \<le> alloc_bytes_remaining A"
  shows "AllocateAligned new (2 ^ 64 - (8 - m) + k) A =
    Some (alloc_ptr A + (8 - m), A\<lparr>alloc_ptr := alloc_ptr A + k, alloc_bytes_remaining := alloc_bytes_remaining A - k\<rparr>)"
proof -
  have mask: "alloc_ptr A AND (8 - 1) = m"
    using take_bit_eq_mask [of 3 "alloc_ptr A"] assms(1) by (simp add: take_bit_eq_mod mask_eq_exp_minus_1)
  have "m < 8" using assms(3) by simp
  then have "2 ^ 64 - (8 - m) + k + (8 - m) = 2 ^ 64 + k" by simp
  then have "(2 ^ 64 - (8 - m) + k + (8 - m)) mod 2 ^ 64 = (k :: nat)" using assms(3) by simp
  moreover have "(if m = 0 then 0 else 8 - m) = 8 - m" using assms(2) by simp
  ultimately show ?thesis unfolding AllocateAligned_def Let_def mask by (simp only: assms(4) if_True)
qed

text \<open>
  C32. The arena never hands out overlapping memory: for every allocator of blocks that behaves as
  the language guarantees and every sequence of requests, plain or aligned, of positive sizes up to \<open>2 ^ 64 - 8\<close>
  that is served, the regions returned have the sizes asked for, are pairwise disjoint, lie within the
  blocks the arena owns, and are aligned to 8 bytes where asked; the memory usage is the total size of
  the blocks plus a pointer for each, modulo \<open>2 ^ 64\<close>.
\<close>

theorem arena_regions_disjoint:
  assumes "block_allocator new" "\<forall>(n, a)\<in>set rs. 0 < n \<and> n + 7 < 2 ^ 64" "run_requests new rs Arena_new = Some (ps, A)"
  shows "sorted_wrt disjoint ps \<and> (\<forall>r\<in>set ps. \<exists>b\<in>set (blocks A). inside r b) \<and>
    list_all2 (\<lambda>(n, a) (p, n'). n' = n \<and> (a \<longrightarrow> 8 dvd p)) rs ps \<and>
    memory_usage A = (\<Sum>b\<leftarrow>blocks A. snd b + 8) mod 2 ^ 64"
  using run_requests_ok [OF assms(1) Arena_new_ok assms(2,3)] by (simp add: arena_ok_def)

theorem arena_regions_disjoint_witness:
  "\<exists>A. run_requests bump_new [(3, False), (16, True), (5000, False)] Arena_new = Some ([(8, 3), (16, 16), (4112, 5000)], A) \<and>
     sorted_wrt disjoint [(8, 3), (16, 16), (4112, 5000)] \<and> memory_usage A = 9112"
proof -
  define A where "A = \<lparr>alloc_ptr = 32, alloc_bytes_remaining = 4072, blocks = [(8, 4096), (4112, 5000)], memory_usage = 9112\<rparr>"
  have run: "run_requests bump_new [(3, False), (16, True), (5000, False)] Arena_new = Some ([(8, 3), (16, 16), (4112, 5000)], A)"
    by (simp add: A_def AllocateAligned_def Allocate_def AllocateFallback_def AllocateNewBlock_def bump_new_def Arena_new_def
        kBlockSize_arena_def Let_def)
  show ?thesis
    using arena_regions_disjoint [OF bump.block_allocator_axioms _ run] run by (intro exI [of _ A]) (simp add: A_def)
qed

end
