(* ===== verification/VersionEdit.thy ===== *)
theory VersionEdit
  imports DbFormat Status Logging "HOL-Library.Product_Lexorder"
begin

text \<open>
  \<open>db/version_edit.h\<close> and \<open>db/version_edit.cc\<close>: the record of a change to the set of table files,
  and its serialised form in the manifest. An internal key is its byte string \<open>rep_\<close>; the
  \<open>std::set\<close> of deleted files is the sorted list of its elements.
\<close>

section \<open>File metadata and edits\<close>

record FileMetaData =
  fm_refs :: int
  fm_allowed_seeks :: int
  fm_point_query_time :: int
  fm_point_query_time_all :: int
  fm_history_time :: "(u64 \<times> u64) list"
  fm_number :: u64
  fm_file_size :: u64
  fm_smallest :: bytes
  fm_largest :: bytes

text \<open>The constructor leaves the file number uninitialised.\<close>

definition FileMetaData_new :: "u64 \<Rightarrow> FileMetaData" where
  "FileMetaData_new uninit =
     \<lparr>fm_refs = 0, fm_allowed_seeks = 2 ^ 30, fm_point_query_time = 0, fm_point_query_time_all = 0,
      fm_history_time = [], fm_number = uninit, fm_file_size = 0, fm_smallest = [], fm_largest = []\<rparr>"

record VersionEdit =
  ve_comparator :: bytes
  ve_log_number :: u64
  ve_prev_log_number :: u64
  ve_next_file_number :: u64
  ve_last_sequence :: SequenceNumber
  ve_has_comparator :: bool
  ve_has_log_number :: bool
  ve_has_prev_log_number :: bool
  ve_has_next_file_number :: bool
  ve_has_last_sequence :: bool
  ve_compact_pointers :: "(nat \<times> bytes) list"
  ve_deleted_files :: "(nat \<times> u64) list"
  ve_new_files :: "(nat \<times> FileMetaData) list"

definition VersionEdit_Clear :: VersionEdit where
  "VersionEdit_Clear =
     \<lparr>ve_comparator = [], ve_log_number = 0, ve_prev_log_number = 0, ve_next_file_number = 0,
      ve_last_sequence = 0, ve_has_comparator = False, ve_has_log_number = False,
      ve_has_prev_log_number = False, ve_has_next_file_number = False, ve_has_last_sequence = False,
      ve_compact_pointers = [], ve_deleted_files = [], ve_new_files = []\<rparr>"

definition SetComparatorName :: "bytes \<Rightarrow> VersionEdit \<Rightarrow> VersionEdit" where
  "SetComparatorName name e = e\<lparr>ve_comparator := name, ve_has_comparator := True\<rparr>"

definition SetLogNumber :: "u64 \<Rightarrow> VersionEdit \<Rightarrow> VersionEdit" where
  "SetLogNumber num e = e\<lparr>ve_log_number := num, ve_has_log_number := True\<rparr>"

definition SetPrevLogNumber :: "u64 \<Rightarrow> VersionEdit \<Rightarrow> VersionEdit" where
  "SetPrevLogNumber num e = e\<lparr>ve_prev_log_number := num, ve_has_prev_log_number := True\<rparr>"

definition SetNextFile :: "u64 \<Rightarrow> VersionEdit \<Rightarrow> VersionEdit" where
  "SetNextFile num e = e\<lparr>ve_next_file_number := num, ve_has_next_file_number := True\<rparr>"

definition SetLastSequence :: "SequenceNumber \<Rightarrow> VersionEdit \<Rightarrow> VersionEdit" where
  "SetLastSequence seq e = e\<lparr>ve_last_sequence := seq, ve_has_last_sequence := True\<rparr>"

definition SetCompactPointer :: "nat \<Rightarrow> bytes \<Rightarrow> VersionEdit \<Rightarrow> VersionEdit" where
  "SetCompactPointer level key e = e\<lparr>ve_compact_pointers := ve_compact_pointers e @ [(level, key)]\<rparr>"

definition AddFile :: "nat \<Rightarrow> u64 \<Rightarrow> u64 \<Rightarrow> bytes \<Rightarrow> bytes \<Rightarrow> VersionEdit \<Rightarrow> VersionEdit" where
  "AddFile level num fsize smallest largest e =
     (let f = (FileMetaData_new num)\<lparr>fm_file_size := fsize, fm_smallest := smallest, fm_largest := largest\<rparr>
      in e\<lparr>ve_new_files := ve_new_files e @ [(level, f)]\<rparr>)"

definition RemoveFile_edit :: "nat \<Rightarrow> u64 \<Rightarrow> VersionEdit \<Rightarrow> VersionEdit" where
  "RemoveFile_edit level num e =
     e\<lparr>ve_deleted_files := insort_insert (level, num) (ve_deleted_files e)\<rparr>"

section \<open>Encoding\<close>

datatype Tag = kComparator | kLogNumber | kNextFileNumber | kLastSequence | kCompactPointer | kDeletedFile
  | kNewFile | kPrevLogNumber

fun tag_code :: "Tag \<Rightarrow> u32" where
  "tag_code kComparator = 1"
| "tag_code kLogNumber = 2"
| "tag_code kNextFileNumber = 3"
| "tag_code kLastSequence = 4"
| "tag_code kCompactPointer = 5"
| "tag_code kDeletedFile = 6"
| "tag_code kNewFile = 7"
| "tag_code kPrevLogNumber = 9"

definition put_number :: "bool \<Rightarrow> Tag \<Rightarrow> u64 \<Rightarrow> bytes \<Rightarrow> bytes" where
  "put_number has tag num dst = (if has then PutVarint64 (PutVarint32 dst (tag_code tag)) num else dst)"

definition put_compact_pointer :: "nat \<times> bytes \<Rightarrow> bytes \<Rightarrow> bytes" where
  "put_compact_pointer p dst =
     PutLengthPrefixedSlice (PutVarint32 (PutVarint32 dst (tag_code kCompactPointer)) (of_nat (fst p))) (snd p)"

definition put_deleted_file :: "nat \<times> u64 \<Rightarrow> bytes \<Rightarrow> bytes" where
  "put_deleted_file p dst =
     PutVarint64 (PutVarint32 (PutVarint32 dst (tag_code kDeletedFile)) (of_nat (fst p))) (snd p)"

definition put_new_file :: "nat \<times> FileMetaData \<Rightarrow> bytes \<Rightarrow> bytes" where
  "put_new_file p dst =
     (let f = snd p;
          dst = PutVarint32 dst (tag_code kNewFile);
          dst = PutVarint32 dst (of_nat (fst p));
          dst = PutVarint64 dst (fm_number f);
          dst = PutVarint64 dst (fm_file_size f);
          dst = PutLengthPrefixedSlice dst (fm_smallest f)
      in PutLengthPrefixedSlice dst (fm_largest f))"

definition EncodeTo :: "VersionEdit \<Rightarrow> bytes \<Rightarrow> bytes" where
  "EncodeTo e dst =
     (let dst = (if ve_has_comparator e
                 then PutLengthPrefixedSlice (PutVarint32 dst (tag_code kComparator)) (ve_comparator e) else dst);
          dst = put_number (ve_has_log_number e) kLogNumber (ve_log_number e) dst;
          dst = put_number (ve_has_prev_log_number e) kPrevLogNumber (ve_prev_log_number e) dst;
          dst = put_number (ve_has_next_file_number e) kNextFileNumber (ve_next_file_number e) dst;
          dst = put_number (ve_has_last_sequence e) kLastSequence (ve_last_sequence e) dst;
          dst = fold put_compact_pointer (ve_compact_pointers e) dst;
          dst = fold put_deleted_file (ve_deleted_files e) dst
      in fold put_new_file (ve_new_files e) dst)"

section \<open>Decoding\<close>

definition InternalKey_DecodeFrom :: "bytes \<Rightarrow> bytes option" where
  "InternalKey_DecodeFrom s = (if s \<noteq> [] then Some s else None)"

definition GetInternalKey :: "bytes \<Rightarrow> (bytes \<times> bytes) option" where
  "GetInternalKey input =
     (case GetLengthPrefixedSlice input of
        None \<Rightarrow> None
      | Some (str, input) \<Rightarrow> map_option (\<lambda>key. (key, input)) (InternalKey_DecodeFrom str))"

definition GetLevel :: "bytes \<Rightarrow> (nat \<times> bytes) option" where
  "GetLevel input =
     (case GetVarint32 input of
        None \<Rightarrow> None
      | Some (v, input) \<Rightarrow> if unat v < kNumLevels then Some (unat v, input) else None)"

text \<open>
  One turn of the loop after the tag: the message of the error, or the rest of the input and the
  updated edit. \<open>f0\<close> is the \<open>FileMetaData\<close> on the stack, whose decoded fields are all overwritten.
\<close>

definition decode_field :: "u32 \<Rightarrow> bytes \<Rightarrow> VersionEdit \<Rightarrow> string + bytes \<times> VersionEdit" where
  "decode_field tag input e =
     (if tag = tag_code kComparator then
        (case GetLengthPrefixedSlice input of
           None \<Rightarrow> Inl ''comparator name''
         | Some (str, input) \<Rightarrow> Inr (input, e\<lparr>ve_comparator := str, ve_has_comparator := True\<rparr>))
      else if tag = tag_code kLogNumber then
        (case GetVarint64 input of
           None \<Rightarrow> Inl ''log number''
         | Some (v, input) \<Rightarrow> Inr (input, e\<lparr>ve_log_number := v, ve_has_log_number := True\<rparr>))
      else if tag = tag_code kPrevLogNumber then
        (case GetVarint64 input of
           None \<Rightarrow> Inl ''previous log number''
         | Some (v, input) \<Rightarrow> Inr (input, e\<lparr>ve_prev_log_number := v, ve_has_prev_log_number := True\<rparr>))
      else if tag = tag_code kNextFileNumber then
        (case GetVarint64 input of
           None \<Rightarrow> Inl ''next file number''
         | Some (v, input) \<Rightarrow> Inr (input, e\<lparr>ve_next_file_number := v, ve_has_next_file_number := True\<rparr>))
      else if tag = tag_code kLastSequence then
        (case GetVarint64 input of
           None \<Rightarrow> Inl ''last sequence number''
         | Some (v, input) \<Rightarrow> Inr (input, e\<lparr>ve_last_sequence := v, ve_has_last_sequence := True\<rparr>))
      else if tag = tag_code kCompactPointer then
        (case GetLevel input of
           None \<Rightarrow> Inl ''compaction pointer''
         | Some (level, input) \<Rightarrow>
             (case GetInternalKey input of
                None \<Rightarrow> Inl ''compaction pointer''
              | Some (key, input) \<Rightarrow>
                  Inr (input, e\<lparr>ve_compact_pointers := ve_compact_pointers e @ [(level, key)]\<rparr>)))
      else if tag = tag_code kDeletedFile then
        (case GetLevel input of
           None \<Rightarrow> Inl ''deleted file''
         | Some (level, input) \<Rightarrow>
             (case GetVarint64 input of
                None \<Rightarrow> Inl ''deleted file''
              | Some (num, input) \<Rightarrow>
                  Inr (input, e\<lparr>ve_deleted_files := insort_insert (level, num) (ve_deleted_files e)\<rparr>)))
      else if tag = tag_code kNewFile then
        (case GetLevel input of
           None \<Rightarrow> Inl ''new-file entry''
         | Some (level, input) \<Rightarrow>
        (case GetVarint64 input of
           None \<Rightarrow> Inl ''new-file entry''
         | Some (num, input) \<Rightarrow>
        (case GetVarint64 input of
           None \<Rightarrow> Inl ''new-file entry''
         | Some (fsize, input) \<Rightarrow>
        (case GetInternalKey input of
           None \<Rightarrow> Inl ''new-file entry''
         | Some (smallest, input) \<Rightarrow>
        (case GetInternalKey input of
           None \<Rightarrow> Inl ''new-file entry''
         | Some (largest, input) \<Rightarrow>
             let f = (FileMetaData_new num)\<lparr>fm_file_size := fsize, fm_smallest := smallest, fm_largest := largest\<rparr>
             in Inr (input, e\<lparr>ve_new_files := ve_new_files e @ [(level, f)]\<rparr>))))))
      else Inl ''unknown tag'')"

lemma GetInternalKey_shorter: "GetInternalKey p = Some (k, q) \<Longrightarrow> length q < length p"
  by (auto simp: GetInternalKey_def dest!: GetLengthPrefixedSlice_shorter split: option.splits)

lemma GetLevel_shorter: "GetLevel p = Some (l, q) \<Longrightarrow> length q < length p"
  by (auto simp: GetLevel_def dest!: GetVarint_shorter split: option.splits if_splits)

lemma decode_field_shorter: "decode_field tag input e = Inr (input', e') \<Longrightarrow> length input' \<le> length input"
  unfolding decode_field_def
  by (auto simp: Let_def split: if_splits option.splits
      dest!: GetVarint_shorter GetLengthPrefixedSlice_shorter GetInternalKey_shorter GetLevel_shorter)

function decode_loop :: "bytes \<Rightarrow> VersionEdit \<Rightarrow> string option \<times> bytes \<times> VersionEdit" where
  "decode_loop input e =
     (case GetVarint32 input of
        None \<Rightarrow> (None, input, e)
      | Some (tag, rest) \<Rightarrow>
          (case decode_field tag rest e of
             Inl msg \<Rightarrow> (Some msg, rest, e)
           | Inr (input, e) \<Rightarrow> decode_loop input e))"
  by pat_completeness auto
termination
  by (relation "measure (\<lambda>(input, e). length input)")
    (auto dest!: GetVarint_shorter decode_field_shorter)

declare decode_loop.simps [simp del]

definition DecodeFrom :: "bytes \<Rightarrow> Status \<times> VersionEdit" where
  "DecodeFrom src =
     (let (msg, input, e) = decode_loop src VersionEdit_Clear;
          msg = (if msg = None \<and> input \<noteq> [] then Some ''invalid tag'' else msg)
      in (case msg of None \<Rightarrow> OK | Some m \<Rightarrow> Corruption ''VersionEdit'' m, e))"

section \<open>Debug output\<close>

definition text_of :: "bytes \<Rightarrow> string" where
  "text_of s = map (\<lambda>b. char_of (unat b)) s"

definition ParsedInternalKey_DebugString :: "ParsedInternalKey \<Rightarrow> string" where
  "ParsedInternalKey_DebugString k =
     [CHR 0x27] @ EscapeString (ik_user_key k) @ [CHR 0x27] @ '' @ '' @ decimal (unat (ik_sequence k)) @ '' : '' @
     decimal (unat (value_type_code (ik_type k)))"

definition InternalKey_DebugString :: "bytes \<Rightarrow> string" where
  "InternalKey_DebugString rep =
     (case ParseInternalKey rep of
        Some parsed \<Rightarrow> ParsedInternalKey_DebugString parsed
      | None \<Rightarrow> ''(bad)'' @ EscapeString rep)"

definition debug_number :: "bool \<Rightarrow> string \<Rightarrow> u64 \<Rightarrow> string \<Rightarrow> string" where
  "debug_number has label num r = (if has then AppendNumberTo (r @ label) num else r)"

definition newline :: string where "newline = [CHR 0x0a]"

definition VersionEdit_DebugString :: "VersionEdit \<Rightarrow> string" where
  "VersionEdit_DebugString e =
     (let r = ''VersionEdit {'';
          r = (if ve_has_comparator e then r @ newline @ ''  Comparator: '' @ text_of (ve_comparator e) else r);
          r = debug_number (ve_has_log_number e) (newline @ ''  LogNumber: '') (ve_log_number e) r;
          r = debug_number (ve_has_prev_log_number e) (newline @ ''  PrevLogNumber: '') (ve_prev_log_number e) r;
          r = debug_number (ve_has_next_file_number e) (newline @ ''  NextFile: '') (ve_next_file_number e) r;
          r = debug_number (ve_has_last_sequence e) (newline @ ''  LastSeq: '') (ve_last_sequence e) r;
          r = fold (\<lambda>(level, key) r. AppendNumberTo (r @ newline @ ''  CompactPointer: '') (of_nat level) @ '' '' @
                InternalKey_DebugString key) (ve_compact_pointers e) r;
          r = fold (\<lambda>(level, num) r. AppendNumberTo (AppendNumberTo (r @ newline @ ''  RemoveFile: '') (of_nat level) @ '' '') num)
                (ve_deleted_files e) r;
          r = fold (\<lambda>(level, f) r.
                 let r = AppendNumberTo (r @ newline @ ''  AddFile: '') (of_nat level) @ '' '';
                     r = AppendNumberTo r (fm_number f) @ '' '';
                     r = AppendNumberTo r (fm_file_size f) @ '' ''
                 in r @ InternalKey_DebugString (fm_smallest f) @ '' .. '' @ InternalKey_DebugString (fm_largest f))
                (ve_new_files e) r
      in r @ newline @ ''}'' @ newline)"

section \<open>Round trip\<close>

text \<open>Encoders as appended bytes.\<close>

definition field :: "Tag \<Rightarrow> bytes \<Rightarrow> bytes" where
  "field t body = EncodeVarint32 (tag_code t) @ body"

definition slice_bytes :: "bytes \<Rightarrow> bytes" where
  "slice_bytes s = PutLengthPrefixedSlice [] s"

lemma put_append:
  "PutVarint32 dst v = dst @ EncodeVarint32 v" "PutVarint64 dst w = dst @ EncodeVarint64 w"
  "PutLengthPrefixedSlice dst s = dst @ slice_bytes s"
  by (simp_all add: PutVarint32_def PutVarint64_def PutLengthPrefixedSlice_def slice_bytes_def)

definition pointer_bytes :: "nat \<times> bytes \<Rightarrow> bytes" where
  "pointer_bytes p = field kCompactPointer (EncodeVarint32 (of_nat (fst p)) @ slice_bytes (snd p))"

definition deleted_bytes :: "nat \<times> u64 \<Rightarrow> bytes" where
  "deleted_bytes p = field kDeletedFile (EncodeVarint32 (of_nat (fst p)) @ EncodeVarint64 (snd p))"

definition new_file_bytes :: "nat \<times> FileMetaData \<Rightarrow> bytes" where
  "new_file_bytes p = field kNewFile (EncodeVarint32 (of_nat (fst p)) @ EncodeVarint64 (fm_number (snd p)) @
     EncodeVarint64 (fm_file_size (snd p)) @ slice_bytes (fm_smallest (snd p)) @ slice_bytes (fm_largest (snd p)))"

lemma fold_put:
  "fold put_compact_pointer ps dst = dst @ concat (map pointer_bytes ps)"
  "fold put_deleted_file ds dst = dst @ concat (map deleted_bytes ds)"
  "fold put_new_file fs dst = dst @ concat (map new_file_bytes fs)"
  by (induction ps arbitrary: dst, simp_all add: put_compact_pointer_def pointer_bytes_def put_append field_def)
    (induction ds arbitrary: dst, simp_all add: put_deleted_file_def deleted_bytes_def put_append field_def,
     induction fs arbitrary: dst, simp_all add: put_new_file_def new_file_bytes_def put_append field_def Let_def)

lemma EncodeTo_bytes:
  "EncodeTo e dst = dst @ (if ve_has_comparator e then field kComparator (slice_bytes (ve_comparator e)) else []) @
     (if ve_has_log_number e then field kLogNumber (EncodeVarint64 (ve_log_number e)) else []) @
     (if ve_has_prev_log_number e then field kPrevLogNumber (EncodeVarint64 (ve_prev_log_number e)) else []) @
     (if ve_has_next_file_number e then field kNextFileNumber (EncodeVarint64 (ve_next_file_number e)) else []) @
     (if ve_has_last_sequence e then field kLastSequence (EncodeVarint64 (ve_last_sequence e)) else []) @
     concat (map pointer_bytes (ve_compact_pointers e)) @ concat (map deleted_bytes (ve_deleted_files e)) @
     concat (map new_file_bytes (ve_new_files e))"
  by (simp add: EncodeTo_def put_number_def put_append fold_put field_def Let_def)

text \<open>Decoding one field after the other.\<close>

lemma decode_loop_field:
  "decode_loop (field t body) e =
     (case decode_field (tag_code t) body e of
        Inl msg \<Rightarrow> (Some msg, body, e) | Inr (input, e) \<Rightarrow> decode_loop input e)"
  by (subst decode_loop.simps) (simp add: field_def)

lemma field_append: "field t body @ rest = field t (body @ rest)"
  by (simp add: field_def)

lemma decode_slice: "length s < 2 ^ 32 \<Longrightarrow> GetLengthPrefixedSlice (slice_bytes s @ rest) = Some (s, rest)"
  by (simp add: slice_bytes_def)

definition key_fits :: "bytes \<Rightarrow> bool" where
  "key_fits k \<longleftrightarrow> k \<noteq> [] \<and> length k < 2 ^ 32"

lemma decode_key: "key_fits k \<Longrightarrow> GetInternalKey (slice_bytes k @ rest) = Some (k, rest)"
  by (simp add: GetInternalKey_def decode_slice InternalKey_DecodeFrom_def key_fits_def)

lemma decode_level: "l < kNumLevels \<Longrightarrow> GetLevel (EncodeVarint32 (of_nat l) @ rest) = Some (l, rest)"
  by (simp add: GetLevel_def kNumLevels_def unat_of_nat_u32)

lemma decode_numbers:
  "decode_loop (field kLogNumber (EncodeVarint64 v) @ rest) e =
     decode_loop rest (e\<lparr>ve_log_number := v, ve_has_log_number := True\<rparr>)"
  "decode_loop (field kPrevLogNumber (EncodeVarint64 v) @ rest) e =
     decode_loop rest (e\<lparr>ve_prev_log_number := v, ve_has_prev_log_number := True\<rparr>)"
  "decode_loop (field kNextFileNumber (EncodeVarint64 v) @ rest) e =
     decode_loop rest (e\<lparr>ve_next_file_number := v, ve_has_next_file_number := True\<rparr>)"
  "decode_loop (field kLastSequence (EncodeVarint64 v) @ rest) e =
     decode_loop rest (e\<lparr>ve_last_sequence := v, ve_has_last_sequence := True\<rparr>)"
  "length s < 2 ^ 32 \<Longrightarrow> decode_loop (field kComparator (slice_bytes s) @ rest) e =
     decode_loop rest (e\<lparr>ve_comparator := s, ve_has_comparator := True\<rparr>)"
  by (simp_all add: field_append decode_loop_field decode_field_def decode_slice)

lemma decode_pointers:
  "\<forall>(l, k)\<in>set ps. l < kNumLevels \<and> key_fits k \<Longrightarrow> decode_loop (concat (map pointer_bytes ps) @ rest) e =
     decode_loop rest (e\<lparr>ve_compact_pointers := ve_compact_pointers e @ ps\<rparr>)"
  by (induction ps arbitrary: e)
    (auto simp: pointer_bytes_def field_append decode_loop_field decode_field_def decode_key decode_level)

lemma decode_deleted:
  "\<forall>(l, n)\<in>set ds. l < kNumLevels \<Longrightarrow> decode_loop (concat (map deleted_bytes ds) @ rest) e =
     decode_loop rest (e\<lparr>ve_deleted_files := fold insort_insert ds (ve_deleted_files e)\<rparr>)"
  by (induction ds arbitrary: e)
    (auto simp: deleted_bytes_def field_append decode_loop_field decode_field_def decode_level)

definition new_file_ok :: "nat \<times> FileMetaData \<Rightarrow> bool" where
  "new_file_ok p \<longleftrightarrow> fst p < kNumLevels \<and> key_fits (fm_smallest (snd p)) \<and> key_fits (fm_largest (snd p)) \<and>
     snd p = (FileMetaData_new (fm_number (snd p)))\<lparr>fm_file_size := fm_file_size (snd p),
        fm_smallest := fm_smallest (snd p), fm_largest := fm_largest (snd p)\<rparr>"

lemma decode_new_files:
  "\<forall>p\<in>set fs. new_file_ok p \<Longrightarrow> decode_loop (concat (map new_file_bytes fs) @ rest) e =
     decode_loop rest (e\<lparr>ve_new_files := ve_new_files e @ fs\<rparr>)"
proof (induction fs arbitrary: e)
  case (Cons p fs)
  have "decode_loop (new_file_bytes p @ rest') e = decode_loop rest' (e\<lparr>ve_new_files := ve_new_files e @ [p]\<rparr>)" for rest'
    using Cons.prems
    by (cases p) (simp add: new_file_bytes_def field_append decode_loop_field decode_field_def decode_key decode_level
        new_file_ok_def Let_def)
  then show ?case using Cons by simp
qed simp

text \<open>
  Well-formed edits: lengths fit their encodings, levels exist, keys are not empty, the deleted files
  are a set, and a field that is not present has its cleared value.
\<close>

definition edit_ok :: "VersionEdit \<Rightarrow> bool" where
  "edit_ok e \<longleftrightarrow>
     length (ve_comparator e) < 2 ^ 32 \<and>
     (\<not> ve_has_comparator e \<longrightarrow> ve_comparator e = []) \<and> (\<not> ve_has_log_number e \<longrightarrow> ve_log_number e = 0) \<and>
     (\<not> ve_has_prev_log_number e \<longrightarrow> ve_prev_log_number e = 0) \<and>
     (\<not> ve_has_next_file_number e \<longrightarrow> ve_next_file_number e = 0) \<and>
     (\<not> ve_has_last_sequence e \<longrightarrow> ve_last_sequence e = 0) \<and>
     (\<forall>(l, k)\<in>set (ve_compact_pointers e). l < kNumLevels \<and> key_fits k) \<and>
     (\<forall>(l, n)\<in>set (ve_deleted_files e). l < kNumLevels) \<and>
     sorted (ve_deleted_files e) \<and> distinct (ve_deleted_files e) \<and>
     (\<forall>p\<in>set (ve_new_files e). new_file_ok p)"

lemma fold_insort_insert_sorted:
  "sorted (acc @ ds) \<Longrightarrow> distinct (acc @ ds) \<Longrightarrow> fold insort_insert ds acc = acc @ ds"
proof (induction ds arbitrary: acc)
  case (Cons d ds)
  have "insort_insert d acc = acc @ [d]"
    using Cons.prems by (auto simp: insort_insert_key_def sorted_append intro!: sorted_insort_is_snoc)
  then show ?case using Cons.IH [of "acc @ [d]"] Cons.prems by simp
qed simp

lemma decode_loop_Nil [simp]: "decode_loop [] e = (None, [], e)"
  by (subst decode_loop.simps) (simp add: GetVarint32_def GetVarint32Ptr_eq GetVarint32_loop.simps)

lemma decode_encode:
  assumes "edit_ok e"
  shows "decode_loop (EncodeTo e []) VersionEdit_Clear = (None, [], e)"
proof -
  let ?d = "fold insort_insert (ve_deleted_files e) []"
  have "?d = ve_deleted_files e" using assms by (simp add: fold_insort_insert_sorted edit_ok_def)
  moreover have "decode_loop (concat (map new_file_bytes (ve_new_files e))) e' =
      (None, [], e'\<lparr>ve_new_files := ve_new_files e' @ ve_new_files e\<rparr>)" for e'
    using decode_new_files [of "ve_new_files e" "[]" e'] assms by (simp add: edit_ok_def)
  ultimately show ?thesis
    using assms unfolding EncodeTo_bytes edit_ok_def
    by (cases e) (simp add: decode_numbers decode_pointers decode_deleted VersionEdit_Clear_def)
qed

lemma GetLengthPrefixedSlice_length: "GetLengthPrefixedSlice p = Some (s, q) \<Longrightarrow> length s < 2 ^ 32"
  using unsigned_less [of "fst (the (GetVarint32 p))", where 'a = nat]
  by (auto simp: GetLengthPrefixedSlice_def split: option.splits if_splits)

lemma GetInternalKey_fits: "GetInternalKey p = Some (k, q) \<Longrightarrow> key_fits k"
  by (auto simp: GetInternalKey_def InternalKey_DecodeFrom_def key_fits_def
      dest: GetLengthPrefixedSlice_length split: option.splits if_splits)

lemma GetLevel_less: "GetLevel p = Some (l, q) \<Longrightarrow> l < kNumLevels"
  by (auto simp: GetLevel_def split: option.splits if_splits)

lemma edit_ok_Clear: "edit_ok VersionEdit_Clear"
  by (simp add: edit_ok_def VersionEdit_Clear_def)

lemma insort_insert_ok:
  "sorted xs \<Longrightarrow> distinct xs \<Longrightarrow> sorted (insort_insert x xs) \<and> distinct (insort_insert x xs) \<and>
   set (insort_insert x xs) = insert x (set xs)"
  by (simp add: sorted_insort_insert distinct_insort insort_insert_key_def set_insort_key sorted_insort insert_absorb)

lemma edit_ok_setters:
  assumes "edit_ok e"
  shows "length s < 2 ^ 32 \<Longrightarrow> edit_ok (SetComparatorName s e)" "edit_ok (SetLogNumber v e)"
    "edit_ok (SetPrevLogNumber v e)" "edit_ok (SetNextFile v e)" "edit_ok (SetLastSequence v e)"
    "l < kNumLevels \<Longrightarrow> key_fits k \<Longrightarrow> edit_ok (SetCompactPointer l k e)"
    "l < kNumLevels \<Longrightarrow> key_fits k \<Longrightarrow> key_fits k' \<Longrightarrow> edit_ok (AddFile l v w k k' e)"
    "l < kNumLevels \<Longrightarrow> edit_ok (RemoveFile_edit l v e)"
  using assms insort_insert_ok [of "ve_deleted_files e" "(l, v)"]
  by (auto simp: edit_ok_def SetComparatorName_def SetLogNumber_def SetPrevLogNumber_def SetNextFile_def
      SetLastSequence_def SetCompactPointer_def AddFile_def RemoveFile_edit_def new_file_ok_def FileMetaData_new_def)

lemma decode_field_ok:
  assumes "edit_ok e" "decode_field tag input e = Inr (input', e')"
  shows "edit_ok e'"
  using assms(2)
  unfolding decode_field_def Let_def SetComparatorName_def [symmetric] SetLogNumber_def [symmetric]
    SetPrevLogNumber_def [symmetric] SetNextFile_def [symmetric] SetLastSequence_def [symmetric]
    SetCompactPointer_def [symmetric] AddFile_def [unfolded Let_def, symmetric] RemoveFile_edit_def [symmetric]
  by (auto split: if_splits option.splits intro!: edit_ok_setters [OF assms(1)]
      dest: GetLengthPrefixedSlice_length GetInternalKey_fits GetLevel_less)
    (blast intro: GetInternalKey_fits GetLevel_less)+

lemma decode_loop_ok: "edit_ok e \<Longrightarrow> edit_ok (snd (snd (decode_loop input e)))"
proof (induction input e rule: decode_loop.induct)
  case (1 input e)
  then show ?case
    using decode_field_ok [OF "1.prems"] by (subst decode_loop.simps) (auto split: option.splits sum.splits)
qed

section \<open>Properties\<close>

text \<open>
  C16. Edits survive the manifest: every edit that the setters build from a cleared one within the
  ranges of the format (levels below 7, non-empty keys, 32-bit lengths) is well-formed, and decoding
  the encoding of a well-formed edit returns OK and the same edit, field by field.
\<close>

theorem version_edit_roundtrip:
  assumes "edit_ok e"
  shows "DecodeFrom (EncodeTo e []) = (OK, e) \<and>
    (l < kNumLevels \<and> key_fits k \<and> key_fits k' \<and> length s < 2 ^ 32 \<longrightarrow>
      (\<forall>e'\<in>{VersionEdit_Clear, SetComparatorName s e, SetLogNumber v e, SetPrevLogNumber v e, SetNextFile v e,
         SetLastSequence v e, SetCompactPointer l k e, RemoveFile_edit l v e, AddFile l v w k k' e}. edit_ok e'))"
  using assms by (auto simp: DecodeFrom_def decode_encode edit_ok_Clear intro: edit_ok_setters)

theorem version_edit_roundtrip_witness:
  "DecodeFrom (EncodeTo (AddFile 2 7 100 [1] [2] (RemoveFile_edit 1 5 (SetLogNumber 9 VersionEdit_Clear))) []) =
     (OK, AddFile 2 7 100 [1] [2] (RemoveFile_edit 1 5 (SetLogNumber 9 VersionEdit_Clear)))"
proof -
  have "edit_ok (AddFile 2 7 100 [1] [2] (RemoveFile_edit 1 5 (SetLogNumber 9 VersionEdit_Clear)))"
    by (simp add: edit_ok_setters edit_ok_Clear kNumLevels_def key_fits_def)
  from version_edit_roundtrip [OF this] show ?thesis by simp
qed

text \<open>
  C31. Decoding any byte string ends and yields a well-formed edit, even when it reports a corruption:
  the levels are below 7, the keys are not empty, and the deleted files have no duplicates. OK is
  returned exactly when the fields consume the whole input.
\<close>

theorem version_edit_decode_total:
  "edit_ok (snd (DecodeFrom src)) \<and>
   (fst (DecodeFrom src) = OK \<longleftrightarrow> (\<exists>e. decode_loop src VersionEdit_Clear = (None, [], e))) \<and>
   (fst (DecodeFrom src) = OK \<or> status_code (fst (DecodeFrom src)) = kCorruption)"
  using decode_loop_ok [OF edit_ok_Clear, of src]
  by (auto simp: DecodeFrom_def Let_def Corruption_def mk_status_def split: prod.splits option.splits)

end
