(* ===== verification/Format.thy ===== *)
theory Format
  imports Crc32c MemEnv
begin

text \<open>
  \<open>table/format.cc\<close>: handles of blocks in a table file, the footer, and reading a block with its
  trailer. The compression libraries are parameters.
\<close>

section \<open>Block handles and the footer\<close>

record BlockHandle =
  bh_offset :: u64
  bh_size :: u64

definition kMaxEncodedLength :: nat where
  "kMaxEncodedLength = 10 + 10"

definition BlockHandle_new :: BlockHandle where
  "BlockHandle_new = \<lparr>bh_offset = NOT 0, bh_size = NOT 0\<rparr>"

definition BlockHandle_EncodeTo :: "BlockHandle \<Rightarrow> bytes \<Rightarrow> bytes" where
  "BlockHandle_EncodeTo h dst = PutVarint64 (PutVarint64 dst (bh_offset h)) (bh_size h)"

text \<open>Decoding updates the handle and the input; a failure leaves what was parsed before it.\<close>

definition BlockHandle_DecodeFrom :: "bytes \<Rightarrow> BlockHandle \<Rightarrow> Status \<times> BlockHandle \<times> bytes" where
  "BlockHandle_DecodeFrom input h =
     (case GetVarint64 input of
        None \<Rightarrow> (Corruption ''bad block handle'' [], h, input)
      | Some (off, input) \<Rightarrow>
          let h = h\<lparr>bh_offset := off\<rparr>
          in case GetVarint64 input of
               None \<Rightarrow> (Corruption ''bad block handle'' [], h, input)
             | Some (n, input) \<Rightarrow> (OK, h\<lparr>bh_size := n\<rparr>, input))"

record Footer =
  ft_metaindex_handle :: BlockHandle
  ft_index_handle :: BlockHandle

definition Footer_kEncodedLength :: nat where
  "Footer_kEncodedLength = 2 * kMaxEncodedLength + 8"

definition kTableMagicNumber :: u64 where
  "kTableMagicNumber = 0xdb4775248b80fb57"

definition kBlockTrailerSize :: nat where
  "kBlockTrailerSize = 5"

definition Footer_new :: Footer where
  "Footer_new = \<lparr>ft_metaindex_handle = BlockHandle_new, ft_index_handle = BlockHandle_new\<rparr>"

text \<open>\<open>std::string::resize\<close>: cut off, or padded with zero bytes.\<close>

definition resize :: "nat \<Rightarrow> bytes \<Rightarrow> bytes" where
  "resize n s = take n s @ replicate (n - length s) 0"

definition Footer_EncodeTo :: "Footer \<Rightarrow> bytes \<Rightarrow> bytes" where
  "Footer_EncodeTo f dst =
     (let dst = BlockHandle_EncodeTo (ft_metaindex_handle f) dst;
          dst = BlockHandle_EncodeTo (ft_index_handle f) dst;
          dst = resize (2 * kMaxEncodedLength) dst;
          dst = PutFixed32 dst (ucast (kTableMagicNumber AND 0xffffffff))
      in PutFixed32 dst (ucast (drop_bit 32 kTableMagicNumber)))"

definition Footer_DecodeFrom :: "bytes \<Rightarrow> Footer \<Rightarrow> Status \<times> Footer \<times> bytes" where
  "Footer_DecodeFrom input f =
     (if length input < Footer_kEncodedLength
      then (Corruption ''not an sstable (footer too short)'' [], f, input)
      else
        let magic_ptr = drop (Footer_kEncodedLength - 8) input;
            magic_lo = DecodeFixed32 magic_ptr;
            magic_hi = DecodeFixed32 (drop 4 magic_ptr);
            magic = push_bit 32 (ucast magic_hi) OR (ucast magic_lo :: u64)
        in if magic \<noteq> kTableMagicNumber
           then (Corruption ''not an sstable (bad magic number)'' [], f, input)
           else
             let (s, h, rest) = BlockHandle_DecodeFrom input (ft_metaindex_handle f);
                 f = f\<lparr>ft_metaindex_handle := h\<rparr>
             in if \<not> ok s then (s, f, rest)
                else
                  let (s, h, rest) = BlockHandle_DecodeFrom rest (ft_index_handle f);
                      f = f\<lparr>ft_index_handle := h\<rparr>
                  in if ok s then (s, f, drop 8 magic_ptr) else (s, f, rest))"

section \<open>Reading a block\<close>

datatype CompressionType = kNoCompression | kSnappyCompression | kZstdCompression

fun compression_code :: "CompressionType \<Rightarrow> byte" where
  "compression_code kNoCompression = 0"
| "compression_code kSnappyCompression = 1"
| "compression_code kZstdCompression = 2"

text \<open>
  What the code calls of a compression library: compressing, the length that the compressed data
  announces, and uncompressing into a buffer of that length.
\<close>

record Compressor =
  co_compress :: "bytes \<Rightarrow> bytes option"
  co_length :: "bytes \<Rightarrow> nat option"
  co_uncompress :: "bytes \<Rightarrow> nat \<Rightarrow> bytes option"

record Compression =
  snappy :: Compressor
  zstd :: Compressor

text \<open>
  \<open>RandomAccessFile::Read(offset, n, ...)\<close>: the status, the bytes, and whether the read allocated
  the buffer it returns (a mapped file does not).
\<close>

type_synonym RandomAccessFile = "u64 \<Rightarrow> nat \<Rightarrow> Status \<times> bytes \<times> bool"

record BlockContents =
  bc_data :: bytes
  bc_cachale :: bool

definition BlockContents_new :: BlockContents where
  "BlockContents_new = \<lparr>bc_data = [], bc_cachale = False\<rparr>"

definition uncompress_block :: "Compressor \<Rightarrow> string \<Rightarrow> bytes \<Rightarrow> Status \<times> BlockContents" where
  "uncompress_block c name data =
     (case co_length c data of
        None \<Rightarrow> (Corruption (''corrupted '' @ name @ '' compressed block length'') [], BlockContents_new)
      | Some ulength \<Rightarrow>
          (case co_uncompress c data ulength of
             None \<Rightarrow> (Corruption (''corrupted '' @ name @ '' compressed block contents'') [], BlockContents_new)
           | Some ubuf \<Rightarrow> (OK, \<lparr>bc_data = ubuf, bc_cachale = False\<rparr>)))"

text \<open>
  The number of bytes to read is \<open>n + kBlockTrailerSize\<close> in \<open>size_t\<close>. \<open>None\<close> is an access outside the
  bytes that were read: \<open>data[n]\<close>, and the checksum behind it.
\<close>

definition ReadBlock ::
  "Compression \<Rightarrow> RandomAccessFile \<Rightarrow> bool \<Rightarrow> BlockHandle \<Rightarrow> (Status \<times> BlockContents) option" where
  "ReadBlock lib file verify_checksums handle =
     (let n = unat (bh_size handle);
          total = unat (bh_size handle + of_nat kBlockTrailerSize);
          (s, contents, allocated) = file (bh_offset handle) total
      in if \<not> ok s then Some (s, BlockContents_new)
         else if length contents \<noteq> total then Some (Corruption ''truncated block read'' [], BlockContents_new)
         else if length contents < n + kBlockTrailerSize then None
         else if verify_checksums \<and>
             Value (take (n + 1) contents) \<noteq> Unmask (DecodeFixed32 (drop (n + 1) contents))
         then Some (Corruption ''block checksum mismatch'' [], BlockContents_new)
         else
           let t = contents ! n
           in if t = compression_code kNoCompression
              then Some (OK, \<lparr>bc_data = take n contents, bc_cachale = allocated\<rparr>)
              else if t = compression_code kSnappyCompression
              then Some (uncompress_block (snappy lib) ''snappy'' (take n contents))
              else if t = compression_code kZstdCompression
              then Some (uncompress_block (zstd lib) ''zstd'' (take n contents))
              else Some (Corruption ''bad block type'' [], BlockContents_new))"

section \<open>Round trips\<close>

lemma unat_of_nat_u64: "k < 2 ^ 64 \<Longrightarrow> unat (of_nat k :: u64) = k"
  by (simp add: unat_of_nat take_bit_nat_eq_self)

lemma BlockHandle_EncodeTo_append: "BlockHandle_EncodeTo h dst = dst @ BlockHandle_EncodeTo h []"
  by (simp add: BlockHandle_EncodeTo_def PutVarint64_def)

lemma BlockHandle_DecodeFrom_Encode [simp]:
  "BlockHandle_DecodeFrom (BlockHandle_EncodeTo h [] @ rest) h0 = (OK, h, rest)"
  by (simp add: BlockHandle_DecodeFrom_def BlockHandle_EncodeTo_def PutVarint64_def)

lemma length_BlockHandle_EncodeTo: "length (BlockHandle_EncodeTo h []) \<le> kMaxEncodedLength"
  using length_EncodeVarint(1) [of "bh_offset h"] length_EncodeVarint(1) [of "bh_size h"]
  by (simp add: BlockHandle_EncodeTo_def PutVarint64_def kMaxEncodedLength_def)

lemma Footer_EncodeTo_bytes:
  "\<exists>pad. Footer_EncodeTo f [] = BlockHandle_EncodeTo (ft_metaindex_handle f) [] @
     BlockHandle_EncodeTo (ft_index_handle f) [] @ pad @ EncodeFixed32 0x8b80fb57 @ EncodeFixed32 0xdb477524 \<and>
     length (BlockHandle_EncodeTo (ft_metaindex_handle f) []) + length (BlockHandle_EncodeTo (ft_index_handle f) []) + length pad = 40"
proof -
  let ?m = "BlockHandle_EncodeTo (ft_metaindex_handle f) []" and ?i = "BlockHandle_EncodeTo (ft_index_handle f) []"
  have "length ?m + length ?i \<le> 40"
    using length_BlockHandle_EncodeTo [of "ft_metaindex_handle f"] length_BlockHandle_EncodeTo [of "ft_index_handle f"]
    by (simp add: kMaxEncodedLength_def)
  moreover have "(ucast (kTableMagicNumber AND 0xffffffff) :: u32) = 0x8b80fb57"
    "(ucast (drop_bit 32 kTableMagicNumber) :: u32) = 0xdb477524" by code_simp+
  ultimately show ?thesis
    by (intro exI [of _ "replicate (40 - (length ?m + length ?i)) 0"])
      (simp add: Footer_EncodeTo_def Let_def PutFixed32_def resize_def kMaxEncodedLength_def
        BlockHandle_EncodeTo_append [of "ft_index_handle f" ?m])
qed

lemma Footer_roundtrip:
  "length (Footer_EncodeTo f []) = Footer_kEncodedLength"
  "Footer_DecodeFrom (Footer_EncodeTo f [] @ rest) f0 = (OK, f, rest)"
proof -
  let ?m = "BlockHandle_EncodeTo (ft_metaindex_handle f) []" and ?i = "BlockHandle_EncodeTo (ft_index_handle f) []"
  obtain pad where e: "Footer_EncodeTo f [] = ?m @ ?i @ pad @ EncodeFixed32 0x8b80fb57 @ EncodeFixed32 0xdb477524"
    and len: "length ?m + length ?i + length pad = 40" using Footer_EncodeTo_bytes [of f] by blast
  show l: "length (Footer_EncodeTo f []) = Footer_kEncodedLength"
    using len by (simp add: e Footer_kEncodedLength_def kMaxEncodedLength_def)
  have magic: "drop 40 (Footer_EncodeTo f [] @ rest) = EncodeFixed32 0x8b80fb57 @ EncodeFixed32 0xdb477524 @ rest"
    using len by (simp add: e)
  have "push_bit 32 (ucast (0xdb477524 :: u32)) OR ucast (0x8b80fb57 :: u32) = kTableMagicNumber" by code_simp
  then show "Footer_DecodeFrom (Footer_EncodeTo f [] @ rest) f0 = (OK, f, rest)"
    using l magic by (simp add: Footer_DecodeFrom_def Let_def Footer_kEncodedLength_def kMaxEncodedLength_def) (simp add: e)
qed

section \<open>Random access files\<close>

text \<open>A file opened for random access: a read at an offset in the file returns the bytes there.\<close>

locale random_access_file =
  fixes read :: "'f \<Rightarrow> RandomAccessFile"
    and file_ok :: "'f \<Rightarrow> bool"
    and contents :: "'f \<Rightarrow> bytes"
  assumes read: "file_ok f \<Longrightarrow> unat off \<le> length (contents f) \<Longrightarrow>
      \<exists>allocated. read f off n = (OK, take n (drop (unat off) (contents f)), allocated)"

text \<open>The handle of the in-memory environment copies into a buffer it allocates.\<close>

definition RandomAccessFileImpl_Read :: "FileState \<Rightarrow> RandomAccessFile" where
  "RandomAccessFileImpl_Read f off n =
     (let (s, result) = FileState_Read (unat off) n f in (s, result, True))"

interpretation mem_random: random_access_file RandomAccessFileImpl_Read file_state_ok file_contents
  by unfold_locales (auto simp: RandomAccessFileImpl_Read_def FileState_Read_ok length_file_contents)

section \<open>Blocks as stored\<close>

text \<open>The bytes of a block on disk: its contents, its type and the masked checksum of both.\<close>

definition stored_block :: "bytes \<Rightarrow> CompressionType \<Rightarrow> bytes" where
  "stored_block data t =
     data @ compression_code t # EncodeFixed32 (Mask (Value (data @ [compression_code t])))"

lemma length_stored_block [simp]: "length (stored_block data t) = length data + kBlockTrailerSize"
  by (simp add: stored_block_def kBlockTrailerSize_def)

definition compressor_ok :: "Compressor \<Rightarrow> bool" where
  "compressor_ok c \<longleftrightarrow> (\<forall>raw out. co_compress c raw = Some out \<longrightarrow>
     co_length c out = Some (length raw) \<and> co_uncompress c out (length raw) = Some raw)"

text \<open>The contents that reading gives back for stored bytes of a type.\<close>

definition block_decodes :: "Compression \<Rightarrow> bytes \<Rightarrow> CompressionType \<Rightarrow> bytes \<Rightarrow> bool" where
  "block_decodes lib data t raw \<longleftrightarrow> (case t of
     kNoCompression \<Rightarrow> raw = data
   | kSnappyCompression \<Rightarrow> co_length (snappy lib) data = Some (length raw) \<and> co_uncompress (snappy lib) data (length raw) = Some raw
   | kZstdCompression \<Rightarrow> co_length (zstd lib) data = Some (length raw) \<and> co_uncompress (zstd lib) data (length raw) = Some raw)"

lemma ReadBlock_bytes:
  assumes "file (bh_offset h) (length data + kBlockTrailerSize) = (OK, stored_block data t, a)"
    "bh_size h = of_nat (length data)" "length data + kBlockTrailerSize < 2 ^ 64" "block_decodes lib data t raw"
  shows "\<exists>c. ReadBlock lib file verify h = Some (OK, c) \<and> bc_data c = raw"
proof -
  have n: "unat (bh_size h) = length data"
    and total: "unat (bh_size h + of_nat kBlockTrailerSize) = length data + kBlockTrailerSize"
    using assms(2,3) by (simp_all add: unat_of_nat_u64 flip: of_nat_add)
  have "Value (take (length data + 1) (stored_block data t)) = Unmask (DecodeFixed32 (drop (length data + 1) (stored_block data t)))"
    using DecodeFixed32_EncodeFixed32 [of _ "[]"] by (simp add: stored_block_def Unmask_Mask)
  moreover have "stored_block data t ! length data = compression_code t" "take (length data) (stored_block data t) = data"
    by (simp_all add: stored_block_def)
  ultimately show ?thesis
    using assms(4) unfolding ReadBlock_def Let_def n total assms(1)
    by (cases t) (simp_all add: block_decodes_def uncompress_block_def)
qed

context random_access_file
begin

lemma ReadBlock_stored:
  assumes "file_ok f" "contents f = pre @ stored_block data t @ post"
    "bh_offset h = of_nat (length pre)" "bh_size h = of_nat (length data)"
    "length (contents f) < 2 ^ 64" "block_decodes lib data t raw"
  shows "\<exists>c. ReadBlock lib (read f) verify h = Some (OK, c) \<and> bc_data c = raw"
proof -
  have len: "length pre + length data + kBlockTrailerSize \<le> length (contents f)"
    by (simp add: assms(2))
  then have off: "unat (bh_offset h) = length pre" using assms(3,5) by (simp add: unat_of_nat_u64)
  obtain a where "read f (bh_offset h) (length data + kBlockTrailerSize) = (OK, stored_block data t, a)"
    using read [OF assms(1), of "bh_offset h" "length data + kBlockTrailerSize"] len off
    by (auto simp: assms(2))
  then show ?thesis using len assms(4-6) by (intro ReadBlock_bytes) simp_all
qed

end

end
