(* ===== verification/Block.thy ===== *)
theory Block
  imports Coding Comparator Status
begin

text \<open>
  \<open>table/block_builder.cc\<close> and \<open>table/block.cc\<close>: prefix-compressed sorted blocks with restart
  points, and the iterator that decodes them. Pointers into the block are offsets; a slice into it
  is an offset and a length.
\<close>

section \<open>Building a block\<close>

record BlockBuilder =
  bb_restart_interval :: nat
  bb_buffer :: bytes
  bb_restarts :: "u32 list"
  bb_counter :: nat
  bb_finished :: bool
  bb_last_key :: bytes

definition BlockBuilder_new :: "nat \<Rightarrow> BlockBuilder" where
  "BlockBuilder_new block_restart_interval =
     \<lparr>bb_restart_interval = block_restart_interval, bb_buffer = [], bb_restarts = [0], bb_counter = 0,
      bb_finished = False, bb_last_key = []\<rparr>"

definition BlockBuilder_Reset :: "BlockBuilder \<Rightarrow> BlockBuilder" where
  "BlockBuilder_Reset b =
     b\<lparr>bb_buffer := [], bb_restarts := [0], bb_counter := 0, bb_finished := False, bb_last_key := []\<rparr>"

definition CurrentSizeEstimate :: "BlockBuilder \<Rightarrow> nat" where
  "CurrentSizeEstimate b = length (bb_buffer b) + length (bb_restarts b) * 4 + 4"

definition BlockBuilder_Finish :: "BlockBuilder \<Rightarrow> bytes \<times> BlockBuilder" where
  "BlockBuilder_Finish b =
     (let buffer = fold (\<lambda>r buf. PutFixed32 buf r) (bb_restarts b) (bb_buffer b);
          buffer = PutFixed32 buffer (of_nat (length (bb_restarts b)))
      in (buffer, b\<lparr>bb_buffer := buffer, bb_finished := True\<rparr>))"

fun shared_prefix :: "bytes \<Rightarrow> bytes \<Rightarrow> nat" where
  "shared_prefix (a # as) (b # bs) = (if a = b then Suc (shared_prefix as bs) else 0)"
| "shared_prefix _ _ = 0"

definition BlockBuilder_Add :: "bytes \<Rightarrow> bytes \<Rightarrow> BlockBuilder \<Rightarrow> BlockBuilder" where
  "BlockBuilder_Add key val b =
     (let (shared, b) =
            (if bb_counter b < bb_restart_interval b then (shared_prefix (bb_last_key b) key, b)
             else (0, b\<lparr>bb_restarts := bb_restarts b @ [of_nat (length (bb_buffer b))], bb_counter := 0\<rparr>));
          non_shared = length key - shared;
          buffer = PutVarint32 (bb_buffer b) (of_nat shared);
          buffer = PutVarint32 buffer (of_nat non_shared);
          buffer = PutVarint32 buffer (of_nat (length val));
          buffer = buffer @ drop shared key;
          buffer = buffer @ val
      in b\<lparr>bb_buffer := buffer, bb_last_key := take shared (bb_last_key b) @ drop shared key,
           bb_counter := bb_counter b + 1\<rparr>)"

section \<open>Blocks\<close>

record Block =
  bl_data :: bytes
  bl_size :: nat
  bl_restart_offset :: nat

definition NumRestarts :: "bytes \<Rightarrow> nat \<Rightarrow> nat" where
  "NumRestarts data n = unat (DecodeFixed32 (drop (n - 4) data))"

text \<open>The restart offset of a block marked as bad is not set and not used.\<close>

definition Block_new :: "bytes \<Rightarrow> Block" where
  "Block_new contents =
     (let n = length contents
      in if n < 4 then \<lparr>bl_data = contents, bl_size = 0, bl_restart_offset = 0\<rparr>
         else
           let max_restarts_allowed = (n - 4) div 4
           in if NumRestarts contents n > max_restarts_allowed
              then \<lparr>bl_data = contents, bl_size = 0, bl_restart_offset = 0\<rparr>
              else \<lparr>bl_data = contents, bl_size = n,
                    bl_restart_offset = (n - (1 + NumRestarts contents n) * 4) mod 2 ^ 32\<rparr>)"

text \<open>
  \<open>DecodeEntry(p, limit, ...)\<close>: the three lengths and the pointer past them. The last test adds the
  two lengths in 32 bits.
\<close>

definition DecodeEntry :: "bytes \<Rightarrow> nat \<Rightarrow> nat \<Rightarrow> (u32 \<times> u32 \<times> u32 \<times> nat) option" where
  "DecodeEntry data p limit =
     (if int limit - int p < 3 then None
      else
        let s = drop p (take limit data);
            shared = ucast (s ! 0) :: u32;
            non_shared = ucast (s ! 1) :: u32;
            value_length = ucast (s ! 2) :: u32;
            parsed =
              (if (shared OR non_shared OR value_length) < 128
               then Some (shared, non_shared, value_length, drop 3 s)
               else
                 case GetVarint32Ptr s of
                   None \<Rightarrow> None
                 | Some (shared, s) \<Rightarrow>
                     (case GetVarint32Ptr s of
                        None \<Rightarrow> None
                      | Some (non_shared, s) \<Rightarrow>
                          (case GetVarint32Ptr s of
                             None \<Rightarrow> None
                           | Some (value_length, s) \<Rightarrow> Some (shared, non_shared, value_length, s))))
        in case parsed of
             None \<Rightarrow> None
           | Some (shared, non_shared, value_length, s) \<Rightarrow>
               if of_nat (length s) < non_shared + value_length then None
               else Some (shared, non_shared, value_length, limit - length s))"

section \<open>The iterator\<close>

record Iter =
  it_comparator :: Comparator
  it_data :: bytes
  it_restarts :: nat
  it_num_restarts :: nat
  it_current :: nat
  it_restart_index :: nat
  it_key :: bytes
  it_value :: "nat \<times> nat"
  it_status :: Status

definition Iter_new :: "Comparator \<Rightarrow> bytes \<Rightarrow> nat \<Rightarrow> nat \<Rightarrow> Iter" where
  "Iter_new cmp data restarts num_restarts =
     \<lparr>it_comparator = cmp, it_data = data, it_restarts = restarts, it_num_restarts = num_restarts,
      it_current = restarts, it_restart_index = num_restarts, it_key = [], it_value = (0, 0), it_status = OK\<rparr>"

definition NextEntryOffset :: "Iter \<Rightarrow> nat" where
  "NextEntryOffset i = (fst (it_value i) + snd (it_value i)) mod 2 ^ 32"

definition GetRestartPoint :: "Iter \<Rightarrow> nat \<Rightarrow> nat" where
  "GetRestartPoint i index = unat (DecodeFixed32 (drop (it_restarts i + index * 4) (it_data i)))"

definition SeekToRestartPoint :: "nat \<Rightarrow> Iter \<Rightarrow> Iter" where
  "SeekToRestartPoint index i =
     i\<lparr>it_key := [], it_restart_index := index, it_value := (GetRestartPoint i index, 0)\<rparr>"

definition Iter_Valid :: "Iter \<Rightarrow> bool" where
  "Iter_Valid i \<longleftrightarrow> it_current i < it_restarts i"

definition Iter_value :: "Iter \<Rightarrow> bytes" where
  "Iter_value i = take (snd (it_value i)) (drop (fst (it_value i)) (it_data i))"

definition CorruptionError :: "Iter \<Rightarrow> Iter" where
  "CorruptionError i =
     i\<lparr>it_current := it_restarts i, it_restart_index := it_num_restarts i,
       it_status := Corruption ''bad entry in block'' [], it_key := [], it_value := (0, 0)\<rparr>"

function advance_restart :: "Iter \<Rightarrow> Iter" where
  "advance_restart i =
     (if it_restart_index i + 1 < it_num_restarts i \<and> GetRestartPoint i (it_restart_index i + 1) < it_current i
      then advance_restart (i\<lparr>it_restart_index := it_restart_index i + 1\<rparr>) else i)"
  by pat_completeness auto
termination
  by (relation "measure (\<lambda>i. it_num_restarts i - it_restart_index i)") auto

declare advance_restart.simps [simp del]

text \<open>
  \<open>None\<close>: the lengths of the entry reach past the contents of the block, so that the code appends bytes from
  outside the buffer to the key, or makes a value of them.
\<close>

definition ParseNextKey :: "Iter \<Rightarrow> (bool \<times> Iter) option" where
  "ParseNextKey i =
     (let i = i\<lparr>it_current := NextEntryOffset i\<rparr>;
          p = it_current i; limit = it_restarts i
      in if p \<ge> limit then Some (False, i\<lparr>it_current := it_restarts i, it_restart_index := it_num_restarts i\<rparr>)
         else
           case DecodeEntry (it_data i) p limit of
             None \<Rightarrow> Some (False, CorruptionError i)
           | Some (shared, non_shared, value_length, p) \<Rightarrow>
               if length (it_key i) < unat shared then Some (False, CorruptionError i)
               else if p + unat non_shared + unat value_length > length (it_data i) then None
               else
                 Some (True, advance_restart (i\<lparr>it_key := take (unat shared) (it_key i) @
                            take (unat non_shared) (drop p (it_data i)),
                          it_value := (p + unat non_shared, unat value_length)\<rparr>)))"

text \<open>The loops that parse entries while a condition on the iterator holds.\<close>

partial_function (option) parse_while :: "(Iter \<Rightarrow> bool) \<Rightarrow> Iter \<Rightarrow> Iter option" where
  "parse_while cond i =
     (case ParseNextKey i of
        None \<Rightarrow> None
      | Some (parsed, i) \<Rightarrow> if parsed \<and> cond i then parse_while cond i else Some i)"

definition Iter_Next :: "Iter \<Rightarrow> Iter option" where
  "Iter_Next i = map_option snd (ParseNextKey i)"

text \<open>The backward scan over the restart points: \<open>None\<close> when there is no entry before \<open>original\<close>.\<close>

fun scan_back :: "Iter \<Rightarrow> nat \<Rightarrow> nat \<Rightarrow> nat option" where
  "scan_back i original 0 = (if GetRestartPoint i 0 \<ge> original then None else Some 0)"
| "scan_back i original (Suc index) =
     (if GetRestartPoint i (Suc index) \<ge> original then scan_back i original index else Some (Suc index))"

definition Iter_Prev :: "Iter \<Rightarrow> Iter option" where
  "Iter_Prev i =
     (let original = it_current i
      in case scan_back i original (it_restart_index i) of
           None \<Rightarrow> Some (i\<lparr>it_current := it_restarts i, it_restart_index := it_num_restarts i\<rparr>)
         | Some index \<Rightarrow>
             parse_while (\<lambda>i. NextEntryOffset i < original) (SeekToRestartPoint index i))"

text \<open>
  The binary search: \<open>Some None\<close> is the return after a corruption, \<open>None\<close> the comparison with a key that
  reaches past the contents.
\<close>

partial_function (option) search_restarts :: "Iter \<Rightarrow> bytes \<Rightarrow> nat \<Rightarrow> nat \<Rightarrow> nat option option" where
  "search_restarts i target left right =
     (if left < right then
        let mid = ((left + right + 1) mod 2 ^ 32) div 2;
            region_offset = GetRestartPoint i mid
        in case DecodeEntry (it_data i) region_offset (it_restarts i) of
             None \<Rightarrow> Some None
           | Some (shared, non_shared, value_length, key_ptr) \<Rightarrow>
               if shared \<noteq> 0 then Some None
               else if key_ptr + unat non_shared > length (it_data i) then None
               else
                 let mid_key = take (unat non_shared) (drop key_ptr (it_data i))
                 in if Compare (it_comparator i) mid_key target < 0
                    then search_restarts i target mid right
                    else search_restarts i target left (mid - 1)
      else Some (Some left))"

definition Iter_Seek :: "bytes \<Rightarrow> Iter \<Rightarrow> Iter option" where
  "Iter_Seek target i =
     (let current_key_compare = (if Iter_Valid i then Compare (it_comparator i) (it_key i) target else 0);
          left = (if Iter_Valid i \<and> current_key_compare < 0 then it_restart_index i else 0);
          right = (if Iter_Valid i \<and> current_key_compare > 0 then it_restart_index i else it_num_restarts i - 1)
      in if Iter_Valid i \<and> current_key_compare = 0 then Some i
         else
           case search_restarts i target left right of
             None \<Rightarrow> None
           | Some None \<Rightarrow> Some (CorruptionError i)
           | Some (Some left) \<Rightarrow>
               let skip_seek = (left = it_restart_index i \<and> current_key_compare < 0);
                   i = (if \<not> skip_seek then SeekToRestartPoint left i else i)
               in parse_while (\<lambda>i. \<not> Compare (it_comparator i) (it_key i) target \<ge> 0) i)"

definition Iter_SeekToFirst :: "Iter \<Rightarrow> Iter option" where
  "Iter_SeekToFirst i = map_option snd (ParseNextKey (SeekToRestartPoint 0 i))"

definition Iter_SeekToLast :: "Iter \<Rightarrow> Iter option" where
  "Iter_SeekToLast i =
     parse_while (\<lambda>i. NextEntryOffset i < it_restarts i) (SeekToRestartPoint (it_num_restarts i - 1) i)"

text \<open>\<open>NewIterator\<close>: an error iterator with a status, the empty iterator, or an iterator.\<close>

datatype block_iterator = ErrorIterator Status | EmptyIterator | BlockIterator Iter

definition Block_NewIterator :: "Comparator \<Rightarrow> Block \<Rightarrow> block_iterator" where
  "Block_NewIterator cmp b =
     (if bl_size b < 4 then ErrorIterator (Corruption ''bad block contents'' [])
      else
        let num_restarts = NumRestarts (bl_data b) (bl_size b)
        in if num_restarts = 0 then EmptyIterator
           else BlockIterator (Iter_new cmp (bl_data b) (bl_restart_offset b) num_restarts))"

section \<open>The layout of a block\<close>

text \<open>An entry with the number of key bytes it shares with its predecessor.\<close>

type_synonym block_entry = "nat \<times> bytes \<times> bytes"

definition entry_header :: "block_entry \<Rightarrow> bytes" where
  "entry_header e = (case e of (sh, k, v) \<Rightarrow>
     EncodeVarint32 (of_nat sh) @ EncodeVarint32 (of_nat (length k - sh)) @ EncodeVarint32 (of_nat (length v)))"

definition entry_bytes :: "block_entry \<Rightarrow> bytes" where
  "entry_bytes e = (case e of (sh, k, v) \<Rightarrow> entry_header e @ drop sh k @ v)"

abbreviation e_shared :: "block_entry \<Rightarrow> nat" where "e_shared e \<equiv> fst e"
abbreviation e_k :: "block_entry \<Rightarrow> bytes" where "e_k e \<equiv> fst (snd e)"
abbreviation e_v :: "block_entry \<Rightarrow> bytes" where "e_v e \<equiv> snd (snd e)"

definition body :: "block_entry list \<Rightarrow> bytes" where
  "body es = concat (map entry_bytes es)"

definition eoff :: "block_entry list \<Rightarrow> nat \<Rightarrow> nat" where
  "eoff es n = length (body (take n es))"

definition prev_key :: "block_entry list \<Rightarrow> nat \<Rightarrow> bytes" where
  "prev_key es n = (if n = 0 then [] else e_k (es ! (n - 1)))"

definition shares_ok :: "block_entry list \<Rightarrow> bool" where
  "shares_ok es \<longleftrightarrow> (\<forall>n<length es. e_shared (es ! n) \<le> length (e_k (es ! n)) \<and>
     e_shared (es ! n) \<le> length (prev_key es n) \<and>
     take (e_shared (es ! n)) (prev_key es n) = take (e_shared (es ! n)) (e_k (es ! n)))"

lemma length_EncodeVarint32_bounds: "1 \<le> length (EncodeVarint32 v)" "length (EncodeVarint32 v) \<le> 5"
  using length_EncodeVarint(2) [of v] by (simp_all add: Suc_le_eq)

lemma length_entry_header: "3 \<le> length (entry_header e)"
  using length_EncodeVarint32_bounds(1) [of "of_nat (e_shared e)"]
    length_EncodeVarint32_bounds(1) [of "of_nat (length (e_k e) - e_shared e)"]
    length_EncodeVarint32_bounds(1) [of "of_nat (length (e_v e))"]
  by (simp add: entry_header_def split_beta)

lemma length_entry_bytes: "length (entry_bytes e) = length (entry_header e) + (length (e_k e) - e_shared e) + length (e_v e)"
  by (simp add: entry_bytes_def split_beta)

lemma body_append: "body (es @ fs) = body es @ body fs"
  by (simp add: body_def)

lemma eoff_0 [simp]: "eoff es 0 = 0"
  by (simp add: eoff_def body_def)

lemma eoff_all: "eoff es (length es) = length (body es)"
  by (simp add: eoff_def)

lemma eoff_Suc: "n < length es \<Longrightarrow> eoff es (Suc n) = eoff es n + length (entry_bytes (es ! n))"
  by (simp add: eoff_def take_Suc_conv_app_nth body_append) (simp add: body_def)

lemma eoff_less_Suc: "n < length es \<Longrightarrow> eoff es n + 3 \<le> eoff es (Suc n)"
  using length_entry_header [of "es ! n"] by (simp add: eoff_Suc length_entry_bytes)

lemma eoff_strict: "m < n \<Longrightarrow> n \<le> length es \<Longrightarrow> eoff es m < eoff es n"
proof (induction n)
  case (Suc n)
  then show ?case using eoff_less_Suc [of n es] by (cases "m = n") auto
qed simp

lemma eoff_less_iff: "m \<le> length es \<Longrightarrow> n \<le> length es \<Longrightarrow> eoff es m < eoff es n \<longleftrightarrow> m < n"
  using eoff_strict [of m n es] eoff_strict [of n m es] by (cases m n rule: linorder_cases) auto

lemma eoff_le_iff: "m \<le> length es \<Longrightarrow> n \<le> length es \<Longrightarrow> eoff es m \<le> eoff es n \<longleftrightarrow> m \<le> n"
  using eoff_less_iff [of n es m] by (simp add: not_less [symmetric])

lemma body_at: "n < length es \<Longrightarrow> drop (eoff es n) (body es) = entry_bytes (es ! n) @ body (drop (Suc n) es)"
proof -
  assume n: "n < length es"
  then have "body es = body (take n es) @ entry_bytes (es ! n) @ body (drop (Suc n) es)"
    using arg_cong [OF id_take_nth_drop [OF n], of body] by (simp add: body_def)
  then show ?thesis by (simp add: eoff_def)
qed

text \<open>Decoding the entry at its offset.\<close>

lemma GetVarint32Ptr_small:
  assumes "s \<noteq> []" "(ucast (hd s) :: u32) < 128"
  shows "GetVarint32Ptr s = Some (ucast (hd s), tl s)"
proof -
  have "(ucast (ucast (hd s) :: u32) :: u64) < 128" using assms(2) by (simp add: word_less_nat_alt)
  from last_byte_no_more_u32 [OF this] have "(ucast (hd s) :: u32) AND 128 = 0" by simp
  then show ?thesis using assms(1) by (simp add: GetVarint32Ptr_def)
qed

definition three_varints :: "bytes \<Rightarrow> (u32 \<times> u32 \<times> u32 \<times> bytes) option" where
  "three_varints s =
     (case GetVarint32Ptr s of
        None \<Rightarrow> None
      | Some (a, s) \<Rightarrow>
          (case GetVarint32Ptr s of
             None \<Rightarrow> None
           | Some (b, s) \<Rightarrow> (case GetVarint32Ptr s of None \<Rightarrow> None | Some (c, s) \<Rightarrow> Some (a, b, c, s))))"

text \<open>The fast path is only that.\<close>

lemma DecodeEntry_eq:
  "DecodeEntry data p limit =
     (if int limit - int p < 3 then None
      else case three_varints (drop p (take limit data)) of
             None \<Rightarrow> None
           | Some (shared, non_shared, value_length, s) \<Rightarrow>
               if of_nat (length s) < non_shared + value_length then None
               else Some (shared, non_shared, value_length, limit - length s))"
  if "limit \<le> length data"
proof (cases "int limit - int p < 3")
  case False
  then have len: "3 \<le> length (drop p (take limit data))" using that by simp
  then obtain a b c s where s: "drop p (take limit data) = a # b # c # s"
    by (metis One_nat_def Suc_le_length_iff numeral_3_eq_3)
  have "x \<le> x OR y" "y \<le> x OR y" for x y :: u32 by (rule le_word_or1 le_word_or2)+
  then have "(ucast a :: u32) < 128 \<and> (ucast b :: u32) < 128 \<and> (ucast c :: u32) < 128"
    if "(ucast a OR ucast b OR ucast c :: u32) < 128"
    using that by (meson order.strict_trans1)
  then have "three_varints (a # b # c # s) = Some (ucast a, ucast b, ucast c, s)"
    if "(ucast a OR ucast b OR ucast c :: u32) < 128"
    using that by (simp add: three_varints_def GetVarint32Ptr_small)
  then show ?thesis
    using False by (simp add: DecodeEntry_def s Let_def) (simp add: three_varints_def)
qed (simp add: DecodeEntry_def)

lemma DecodeEntry_at:
  assumes n: "n < length es" and ok: "shares_ok es" "length (body es) < 2 ^ 32" "take (length (body es)) data = body es"
  shows "DecodeEntry data (eoff es n) (length (body es)) =
    Some (of_nat (e_shared (es ! n)), of_nat (length (e_k (es ! n)) - e_shared (es ! n)), of_nat (length (e_v (es ! n))),
      eoff es n + length (entry_header (es ! n)))"
proof -
  let ?e = "es ! n"
  define rest where "rest = drop (e_shared ?e) (e_k ?e) @ e_v ?e @ body (drop (Suc n) es)"
  have at: "drop (eoff es n) (take (length (body es)) data) = entry_header ?e @ rest"
    using body_at [OF n] by (simp add: ok(3) entry_bytes_def split_beta rest_def)
  have next_le: "eoff es (Suc n) \<le> length (body es)"
    using eoff_le_iff [of "Suc n" es "length es"] n by (simp add: eoff_all)
  have len: "length (body es) = eoff es n + length (entry_header ?e) + length rest"
    using arg_cong [OF at, of length] next_le eoff_less_Suc [OF n] by (simp add: ok(3))
  have small: "length (e_k ?e) - e_shared ?e + length (e_v ?e) \<le> length rest" by (simp add: rest_def)
  then have "unat (of_nat (length (e_k ?e) - e_shared ?e) + of_nat (length (e_v ?e)) :: u32) =
      length (e_k ?e) - e_shared ?e + length (e_v ?e)"
    using len ok(2) by (simp add: unat_of_nat_u32 flip: of_nat_add)
  then have "\<not> (of_nat (length rest) :: u32) < of_nat (length (e_k ?e) - e_shared ?e) + of_nat (length (e_v ?e))"
    using small len ok(2) by (simp add: word_less_nat_alt unat_of_nat_u32)
  moreover have "three_varints (entry_header ?e @ rest) =
      Some (of_nat (e_shared ?e), of_nat (length (e_k ?e) - e_shared ?e), of_nat (length (e_v ?e)), rest)"
    by (simp add: three_varints_def entry_header_def split_beta)
  moreover have "\<not> int (length (body es)) - int (eoff es n) < 3"
    using next_le eoff_less_Suc [OF n] by linarith
  moreover have "length (body es) - length rest = eoff es n + length (entry_header ?e)" using len by simp
  moreover have le: "length (body es) \<le> length data"
    by (metis length_take min.cobounded1 ok(3) nat_le_linear take_all)
  ultimately show ?thesis unfolding DecodeEntry_eq [OF le] at by simp
qed

section \<open>Positions of the iterator\<close>

text \<open>
  An iterator over a block of the entries \<open>es\<close> whose restart points are the entries with indices \<open>rs\<close>.
\<close>

definition block_iter :: "Comparator \<Rightarrow> block_entry list \<Rightarrow> nat list \<Rightarrow> Iter \<Rightarrow> bool" where
  "block_iter c es rs i \<longleftrightarrow> it_comparator i = c \<and>
     it_restarts i = length (body es) \<and> take (length (body es)) (it_data i) = body es \<and> length (body es) < 2 ^ 32 \<and>
     shares_ok es \<and> it_num_restarts i = length rs \<and> rs \<noteq> [] \<and> hd rs = 0 \<and> sorted_wrt (<) rs \<and>
     (\<forall>r\<in>set rs. r < max 1 (length es) \<and> (r < length es \<longrightarrow> e_shared (es ! r) = 0)) \<and>
     (\<forall>j<length rs. GetRestartPoint i j = eoff es (rs ! j)) \<and> length rs < 2 ^ 31 \<and> it_status i = OK"

lemma block_iter_cong:
  "it_comparator j = it_comparator i \<Longrightarrow> it_restarts j = it_restarts i \<Longrightarrow> it_data j = it_data i \<Longrightarrow> it_num_restarts j = it_num_restarts i \<Longrightarrow>
   it_status j = it_status i \<Longrightarrow> block_iter c es rs j = block_iter c es rs i"
  by (simp add: block_iter_def GetRestartPoint_def)

definition before :: "Comparator \<Rightarrow> block_entry list \<Rightarrow> nat list \<Rightarrow> nat \<Rightarrow> Iter \<Rightarrow> bool" where
  "before c es rs n i \<longleftrightarrow> block_iter c es rs i \<and> n \<le> length es \<and> NextEntryOffset i = eoff es n \<and>
     (n < length es \<longrightarrow> it_key i = prev_key es n \<or> e_shared (es ! n) = 0) \<and>
     it_restart_index i < length rs \<and> rs ! it_restart_index i \<le> n"

definition at :: "Comparator \<Rightarrow> block_entry list \<Rightarrow> nat list \<Rightarrow> nat \<Rightarrow> Iter \<Rightarrow> bool" where
  "at c es rs n i \<longleftrightarrow> block_iter c es rs i \<and> n < length es \<and> it_current i = eoff es n \<and> it_key i = e_k (es ! n) \<and>
     Iter_value i = e_v (es ! n) \<and> NextEntryOffset i = eoff es (Suc n) \<and>
     it_restart_index i < length rs \<and> rs ! it_restart_index i \<le> n \<and>
     (it_restart_index i + 1 < length rs \<longrightarrow> n \<le> rs ! (it_restart_index i + 1))"

definition exhausted :: "Comparator \<Rightarrow> block_entry list \<Rightarrow> nat list \<Rightarrow> Iter \<Rightarrow> bool" where
  "exhausted c es rs i \<longleftrightarrow> block_iter c es rs i \<and> it_current i = it_restarts i"

lemma at_before: "at c es rs n i \<Longrightarrow> before c es rs (Suc n) i"
  by (auto simp: at_def before_def prev_key_def)

lemma at_Valid: "at c es rs n i \<Longrightarrow> Iter_Valid i"
  using eoff_less_iff [of n es "length es"] by (auto simp: at_def Iter_Valid_def block_iter_def eoff_all)

lemma exhausted_invalid: "exhausted c es rs i \<Longrightarrow> \<not> Iter_Valid i"
  by (simp add: exhausted_def Iter_Valid_def)

lemma advance_restart_ok:
  "block_iter c es rs i \<Longrightarrow> it_current i = eoff es n \<Longrightarrow> n \<le> length es \<Longrightarrow> it_restart_index i < length rs \<Longrightarrow>
   rs ! it_restart_index i \<le> n \<Longrightarrow>
   \<exists>r. advance_restart i = i\<lparr>it_restart_index := r\<rparr> \<and> r < length rs \<and> rs ! r \<le> n \<and>
     (r + 1 < length rs \<longrightarrow> n \<le> rs ! (r + 1))"
proof (induction i rule: advance_restart.induct)
  case (1 i)
  let ?r = "it_restart_index i"
  have num: "it_num_restarts i = length rs" using "1.prems"(1) by (simp add: block_iter_def)
  have point: "GetRestartPoint i (?r + 1) = eoff es (rs ! (?r + 1))" "rs ! (?r + 1) \<le> length es" if "?r + 1 < length rs"
  proof -
    show "GetRestartPoint i (?r + 1) = eoff es (rs ! (?r + 1))" using "1.prems"(1) that by (simp add: block_iter_def)
    have "rs ! (?r + 1) \<in> set rs" using that by simp
    then have "rs ! (?r + 1) < max 1 (length es)" using "1.prems"(1) unfolding block_iter_def by blast
    then show "rs ! (?r + 1) \<le> length es" by auto
  qed
  show ?case
  proof (cases "?r + 1 < it_num_restarts i \<and> GetRestartPoint i (?r + 1) < it_current i")
    case True
    let ?j = "i\<lparr>it_restart_index := ?r + 1\<rparr>"
    have "rs ! (?r + 1) < n" using True "1.prems"(2,3) num point eoff_less_iff by simp
    then have "\<exists>r. advance_restart ?j = ?j\<lparr>it_restart_index := r\<rparr> \<and> r < length rs \<and> rs ! r \<le> n \<and>
        (r + 1 < length rs \<longrightarrow> n \<le> rs ! (r + 1))"
      using "1.prems" True num block_iter_cong [of ?j i] by (intro "1.IH" [OF True]) simp_all
    then show ?thesis using True by (simp add: advance_restart.simps [of i])
  next
    case False
    then have "?r + 1 < length rs \<longrightarrow> n \<le> rs ! (?r + 1)"
      using "1.prems"(2,3) num point eoff_less_iff [of "rs ! (?r + 1)" es n] by auto
    moreover have "advance_restart i = i\<lparr>it_restart_index := ?r\<rparr>"
      using False by (subst advance_restart.simps) auto
    ultimately show ?thesis using "1.prems"(4,5) by blast
  qed
qed

lemma key_length_le: "shares_ok es \<Longrightarrow> n < length es \<Longrightarrow> length (e_k (es ! n)) \<le> eoff es (Suc n)"
proof (induction n)
  case 0
  then have "e_shared (es ! 0) = 0" by (auto simp: shares_ok_def prev_key_def)
  then show ?case using 0 by (simp add: eoff_Suc length_entry_bytes)
next
  case (Suc n)
  have "e_shared (es ! Suc n) \<le> length (e_k (es ! n))" using Suc.prems by (auto simp: shares_ok_def prev_key_def)
  then show ?case using Suc by (simp add: eoff_Suc [of "Suc n"] length_entry_bytes)
qed

lemma entry_in_data:
  assumes "n < length es" "take (length (body es)) data = body es"
  shows "take (length (entry_bytes (es ! n))) (drop (eoff es n) data) = entry_bytes (es ! n)"
proof -
  have "data = body es @ drop (length (body es)) data" using assms(2) by (metis append_take_drop_id)
  moreover have "eoff es n \<le> length (body es)" using eoff_le_iff [of n es "length es"] assms(1) by (simp add: eoff_all)
  ultimately have "drop (eoff es n) data = drop (eoff es n) (body es) @ drop (length (body es)) data"
    by (metis append.right_neutral diff_is_0_eq drop0 drop_append)
  then show ?thesis using body_at [OF assms(1)] by simp
qed

lemma entry_slices:
  assumes "n < length es" "take (length (body es)) data = body es"
  defines "p \<equiv> eoff es n + length (entry_header (es ! n))"
  shows "take (length (e_k (es ! n)) - e_shared (es ! n)) (drop p data) = drop (e_shared (es ! n)) (e_k (es ! n))"
    "take (length (e_v (es ! n))) (drop (p + (length (e_k (es ! n)) - e_shared (es ! n))) data) = e_v (es ! n)"
proof -
  let ?e = "es ! n"
  obtain rest where "drop (eoff es n) data = entry_bytes ?e @ rest"
    using entry_in_data [OF assms(1,2)] by (metis append_take_drop_id)
  then have e: "drop (eoff es n) data = entry_header ?e @ drop (e_shared ?e) (e_k ?e) @ e_v ?e @ rest"
    by (simp add: entry_bytes_def split_beta)
  have "drop p data = drop (length (entry_header ?e)) (drop (eoff es n) data)" by (simp add: p_def add.commute)
  then have d: "drop p data = drop (e_shared ?e) (e_k ?e) @ e_v ?e @ rest" by (simp only: e append_eq_conv_conj [symmetric]) simp
  then show "take (length (e_k ?e) - e_shared ?e) (drop p data) = drop (e_shared ?e) (e_k ?e)" by simp
  have "drop (p + (length (e_k ?e) - e_shared ?e)) data = drop (length (e_k ?e) - e_shared ?e) (drop p data)"
    by (simp add: add.commute)
  also have "\<dots> = e_v ?e @ rest" by (simp add: d)
  finally have "drop (p + (length (e_k ?e) - e_shared ?e)) data = e_v ?e @ rest" .
  then show "take (length (e_v ?e)) (drop (p + (length (e_k ?e) - e_shared ?e)) data) = e_v ?e" by simp
qed

lemma ParseNextKey_at:
  assumes b: "before c es rs n i" and n: "n < length es"
  shows "\<exists>i'. ParseNextKey i = Some (True, i') \<and> at c es rs n i'"
proof -
  let ?e = "es ! n"
  have bi: "block_iter c es rs i" and off: "NextEntryOffset i = eoff es n"
    using b by (auto simp: before_def)
  have lim: "it_restarts i = length (body es)" "take (length (body es)) (it_data i) = body es"
    "length (body es) < 2 ^ 32" "shares_ok es"
    using bi by (auto simp: block_iter_def)
  have lt: "eoff es n < length (body es)" "eoff es (Suc n) \<le> length (body es)"
    using eoff_less_iff [of n es "length es"] eoff_le_iff [of "Suc n" es "length es"] n by (simp_all add: eoff_all)
  define p where "p = eoff es n + length (entry_header ?e)"
  have small: "length (e_k ?e) - e_shared ?e < 2 ^ 32" "length (e_v ?e) < 2 ^ 32"
    using lt(2) lim(3) eoff_Suc [OF n] by (simp_all add: length_entry_bytes)
  have sh: "e_shared ?e \<le> length (e_k ?e)" "e_shared ?e \<le> length (it_key i)"
    "take (e_shared ?e) (it_key i) = take (e_shared ?e) (e_k ?e)"
    using b n lim(4) by (auto simp: before_def shares_ok_def)
  have shl: "e_shared ?e < 2 ^ 32" using sh(1) key_length_le [OF lim(4) n] lt(2) lim(3) by simp
  define j where "j = i\<lparr>it_current := eoff es n, it_key := e_k ?e,
    it_value := (p + (length (e_k ?e) - e_shared ?e), length (e_v ?e))\<rparr>"
  have key: "take (e_shared ?e) (it_key i) @ take (length (e_k ?e) - e_shared ?e) (drop p (it_data i)) = e_k ?e"
    using sh(3) entry_slices(1) [OF n lim(2)] by (simp add: p_def)
  have dec: "DecodeEntry (it_data i) (eoff es n) (length (body es)) =
    Some (of_nat (e_shared ?e), of_nat (length (e_k ?e) - e_shared ?e), of_nat (length (e_v ?e)), p)"
    unfolding p_def by (rule DecodeEntry_at [OF n lim(4,3,2)])
  note words = unat_of_nat_u32 [OF small(1)] unat_of_nat_u32 [OF small(2)] unat_of_nat_u32 [OF shl]
  have "length (body es) \<le> length (it_data i)" using lim(2) by (metis length_take min.cobounded1 nat_le_linear take_all)
  then have "\<not> p + (length (e_k ?e) - e_shared ?e) + length (e_v ?e) > length (it_data i)"
    using lt(2) eoff_Suc [OF n] by (simp add: p_def length_entry_bytes)
  moreover have "\<not> length (it_key i) < e_shared ?e" "\<not> eoff es n \<ge> length (body es)" using sh(2) lt(1) by simp_all
  ultimately have "ParseNextKey i = Some (True, advance_restart j)"
    unfolding ParseNextKey_def Let_def by (simp add: off lim(1) dec words key j_def)
  moreover have bj: "block_iter c es rs j" using bi block_iter_cong [of j i c es rs] by (simp add: j_def)
  moreover have "\<exists>r. advance_restart j = j\<lparr>it_restart_index := r\<rparr> \<and> r < length rs \<and> rs ! r \<le> n \<and>
     (r + 1 < length rs \<longrightarrow> n \<le> rs ! (r + 1))"
    using b n by (intro advance_restart_ok [OF bj]) (simp_all add: before_def j_def)
  moreover have "Iter_value j = e_v ?e" using entry_slices(2) [OF n lim(2)] by (simp add: Iter_value_def j_def p_def)
  moreover have "NextEntryOffset j = eoff es (Suc n)"
    using lt(2) lim(3) by (simp add: NextEntryOffset_def j_def p_def eoff_Suc [OF n] length_entry_bytes)
  ultimately show ?thesis
    using n by (auto simp: at_def block_iter_cong [of "_\<lparr>it_restart_index := _\<rparr>" j] Iter_value_def NextEntryOffset_def)
      (auto simp: j_def)
qed

lemma ParseNextKey_end:
  assumes "before c es rs (length es) i"
  shows "\<exists>i'. ParseNextKey i = Some (False, i') \<and> exhausted c es rs i'"
  using assms by (auto simp: ParseNextKey_def before_def eoff_all exhausted_def block_iter_def GetRestartPoint_def Let_def)

text \<open>The parsing loops stop at the first entry that fails the condition, or past the last one.\<close>

definition positioned :: "Comparator \<Rightarrow> block_entry list \<Rightarrow> nat list \<Rightarrow> nat option \<Rightarrow> Iter \<Rightarrow> bool" where
  "positioned c es rs pos i = (case pos of None \<Rightarrow> exhausted c es rs i | Some n \<Rightarrow> at c es rs n i)"

lemma parse_while_ok:
  assumes cond: "\<And>m i'. at c es rs m i' \<Longrightarrow> cond i' \<longleftrightarrow> P m"
  shows "before c es rs n i \<Longrightarrow>
    \<exists>i'. parse_while cond i = Some i' \<and> positioned c es rs (find (\<lambda>m. \<not> P m) [n..<length es]) i'"
proof (induction "length es - n" arbitrary: n i)
  case 0
  then have n: "n = length es" by (simp add: before_def)
  then obtain i' where "ParseNextKey i = Some (False, i')" "exhausted c es rs i'" using 0 ParseNextKey_end by blast
  then show ?case using n by (subst parse_while.simps) (simp add: positioned_def)
next
  case (Suc k)
  then have n: "n < length es" by simp
  obtain i' where i': "ParseNextKey i = Some (True, i')" "at c es rs n i'" using ParseNextKey_at [OF Suc.prems n] by blast
  have upt: "[n..<length es] = n # [Suc n..<length es]" using n by (simp add: upt_conv_Cons)
  show ?case
  proof (cases "P n")
    case True
    then have "cond i'" using cond i'(2) by blast
    then show ?thesis
      using Suc.hyps(1) [of "Suc n" i'] Suc.hyps(2) at_before [OF i'(2)] i'(1) True upt
      by (subst parse_while.simps) simp
  next
    case False
    then have "\<not> cond i'" using cond i'(2) by blast
    then show ?thesis using i' upt False by (subst parse_while.simps) (simp add: positioned_def)
  qed
qed

lemma restart_facts:
  assumes "block_iter c es rs i" "j < length rs"
  shows "GetRestartPoint i j = eoff es (rs ! j)" "rs ! j \<le> length es" "rs ! j < length es \<Longrightarrow> e_shared (es ! (rs ! j)) = 0"
    "es \<noteq> [] \<Longrightarrow> rs ! j < length es" "eoff es (rs ! j) < 2 ^ 32"
proof -
  have "rs ! j \<in> set rs" using assms(2) by simp
  then have r: "rs ! j < max 1 (length es)" "rs ! j < length es \<longrightarrow> e_shared (es ! (rs ! j)) = 0"
    using assms(1) unfolding block_iter_def by blast+
  show "GetRestartPoint i j = eoff es (rs ! j)" using assms by (simp add: block_iter_def)
  show le: "rs ! j \<le> length es" using r(1) by auto
  show "rs ! j < length es \<Longrightarrow> e_shared (es ! (rs ! j)) = 0" using r(2) by blast
  show "es \<noteq> [] \<Longrightarrow> rs ! j < length es" using r(1) by (cases es) auto
  have "eoff es (rs ! j) \<le> length (body es)" using eoff_le_iff [OF le, of "length es"] le by (simp add: eoff_all)
  then show "eoff es (rs ! j) < 2 ^ 32" using assms(1) by (simp add: block_iter_def)
qed

lemma SeekToRestartPoint_before:
  assumes "block_iter c es rs i" "j < length rs"
  shows "before c es rs (rs ! j) (SeekToRestartPoint j i)"
  using assms restart_facts [OF assms] block_iter_cong [of "SeekToRestartPoint j i" i c es rs]
  by (simp add: before_def SeekToRestartPoint_def NextEntryOffset_def)

lemma find_upt:
  "a \<le> b \<Longrightarrow> b < m \<Longrightarrow> \<not> P b \<Longrightarrow> \<forall>x. a \<le> x \<and> x < b \<longrightarrow> P x \<Longrightarrow> find (\<lambda>x. \<not> P x) [a..<m] = Some b" for a b m :: nat
proof (induction "b - a" arbitrary: a)
  case 0
  then have "[a..<m] = b # [Suc b..<m]" by (simp add: upt_conv_Cons)
  then show ?case using 0 by simp
next
  case (Suc k)
  then have "[a..<m] = a # [Suc a..<m]" by (simp add: upt_conv_Cons)
  then show ?case using Suc.hyps(1) [of "Suc a"] Suc.hyps(2) Suc.prems by simp
qed

lemma find_upt_from:
  assumes "\<forall>x<a. P x" "a \<le> m"
  shows "find (\<lambda>x. \<not> P x) [a..<m] = find (\<lambda>x. \<not> P x) [0..<m]"
proof -
  have "[0..<m] = [0..<a] @ [a..<m]" using assms(2) by (metis le_add_diff_inverse upt_add_eq_append zero_le)
  moreover have "\<forall>x\<in>set xs. P x \<Longrightarrow> find (\<lambda>x. \<not> P x) (xs @ ys) = find (\<lambda>x. \<not> P x) ys" for xs ys
    by (induction xs) auto
  then have "find (\<lambda>x. \<not> P x) ([0..<a] @ [a..<m]) = find (\<lambda>x. \<not> P x) [a..<m]" using assms(1) by simp
  ultimately show ?thesis by simp
qed

lemma Iter_SeekToFirst_ok:
  assumes "block_iter c es rs i"
  shows "\<exists>i'. Iter_SeekToFirst i = Some i' \<and> positioned c es rs (if es = [] then None else Some 0) i'"
proof -
  have rs: "0 < length rs" "rs ! 0 = 0" using assms by (auto simp: block_iter_def hd_conv_nth)
  have "before c es rs 0 (SeekToRestartPoint 0 i)" using SeekToRestartPoint_before [OF assms rs(1)] rs(2) by simp
  then show ?thesis
    using ParseNextKey_at [of c es rs 0] ParseNextKey_end [of c es rs]
    by (cases es) (fastforce simp: Iter_SeekToFirst_def positioned_def)+
qed

lemma Iter_SeekToLast_ok:
  assumes "block_iter c es rs i"
  shows "\<exists>i'. Iter_SeekToLast i = Some i' \<and> positioned c es rs (if es = [] then None else Some (length es - 1)) i'"
proof -
  have rs: "length rs - 1 < length rs" "it_num_restarts i = length rs" using assms by (auto simp: block_iter_def)
  have cond: "NextEntryOffset i' < it_restarts i' \<longleftrightarrow> m < length es - 1" if "at c es rs m i'" for m i'
    using that eoff_less_iff [of "Suc m" es "length es"] by (auto simp: at_def block_iter_def eoff_all)
  have b: "before c es rs (rs ! (length rs - 1)) (SeekToRestartPoint (length rs - 1) i)"
    by (rule SeekToRestartPoint_before [OF assms rs(1)])
  have "find (\<lambda>m. \<not> m < length es - 1) [rs ! (length rs - 1)..<length es] = (if es = [] then None else Some (length es - 1))"
    using find_upt [of "rs ! (length rs - 1)" "length es - 1" "length es" "\<lambda>m. m < length es - 1"]
      restart_facts(4) [OF assms rs(1)] by (cases es) auto
  then show ?thesis
    using parse_while_ok [where cond = "\<lambda>i. NextEntryOffset i < it_restarts i" and P = "\<lambda>m. m < length es - 1", OF cond b]
    by (simp only: Iter_SeekToLast_def rs(2))
qed

lemma Iter_Next_ok:
  assumes "at c es rs n i"
  shows "\<exists>i'. Iter_Next i = Some i' \<and> positioned c es rs (if Suc n < length es then Some (Suc n) else None) i'"
proof -
  have n: "n < length es" using assms by (simp add: at_def)
  show ?thesis
  proof (cases "Suc n < length es")
    case True
    then show ?thesis using ParseNextKey_at [OF at_before [OF assms]] by (auto simp: Iter_Next_def positioned_def)
  next
    case False
    then have "Suc n = length es" using n by simp
    then show ?thesis
      using ParseNextKey_end at_before [OF assms] by (fastforce simp: Iter_Next_def positioned_def)
  qed
qed

lemma scan_back_cases:
  "scan_back i original index = None \<Longrightarrow> GetRestartPoint i 0 \<ge> original"
  "scan_back i original index = Some j \<Longrightarrow> j \<le> index \<and> GetRestartPoint i j < original"
  by (induction index) (auto split: if_splits)

lemma Iter_Prev_ok:
  assumes "at c es rs n i"
  shows "\<exists>i'. Iter_Prev i = Some i' \<and> positioned c es rs (if n = 0 then None else Some (n - 1)) i'"
proof (cases "scan_back i (it_current i) (it_restart_index i)")
  case None
  have bi: "block_iter c es rs i" "it_current i = eoff es n" "n < length es" using assms by (auto simp: at_def)
  then have "rs ! 0 = 0" "0 < length rs" by (auto simp: block_iter_def hd_conv_nth)
  then have "eoff es n \<le> eoff es 0" using scan_back_cases(1) [OF None] restart_facts(1) [OF bi(1), of 0] bi(2) by simp
  then have "n = 0" using eoff_le_iff [of n es 0] bi(3) by simp
  then show ?thesis
    using None bi(1) block_iter_cong [of "i\<lparr>it_current := it_restarts i, it_restart_index := it_num_restarts i\<rparr>" i c es rs]
    by (simp add: Iter_Prev_def positioned_def exhausted_def)
next
  case (Some j)
  have bi: "block_iter c es rs i" "it_current i = eoff es n" "n < length es" "it_restart_index i < length rs"
    using assms by (auto simp: at_def)
  have j: "j < length rs" "rs ! j < n"
    using scan_back_cases(2) [OF Some] bi(2-4) restart_facts(1,2) [OF bi(1), of j] eoff_less_iff [of "rs ! j" es n] by auto
  have cond: "NextEntryOffset i' < it_current i \<longleftrightarrow> m < n - 1" if "at c es rs m i'" for m i'
    using that eoff_less_iff [of "Suc m" es n] bi(2,3) by (auto simp: at_def)
  have "find (\<lambda>m. \<not> m < n - 1) [rs ! j..<length es] = Some (n - 1)"
    using j(2) bi(3) by (intro find_upt) auto
  then show ?thesis
    using parse_while_ok [where cond = "\<lambda>i'. NextEntryOffset i' < it_current i" and P = "\<lambda>m. m < n - 1",
        OF cond SeekToRestartPoint_before [OF bi(1) j(1)]] Some j(2) by (simp add: Iter_Prev_def)
qed

lemma search_restarts_ok:
  assumes bi: "block_iter c es rs i" and es: "es \<noteq> []"
  shows "left \<le> right \<Longrightarrow> right < length rs \<Longrightarrow>
    \<exists>l. search_restarts i target left right = Some (Some l) \<and> l < length rs \<and>
      (l = left \<or> Compare c (e_k (es ! (rs ! l))) target < 0)"
proof (induction "right - left" arbitrary: left right rule: less_induct)
  case less
  show ?case
  proof (cases "left < right")
    case False
    then show ?thesis using less.prems by (subst search_restarts.simps) auto
  next
    case True
    define mid where "mid = (left + right + 1) div 2"
    have "left + right + 1 < 2 ^ 32" using less.prems bi by (simp add: block_iter_def)
    then have mid: "((left + right + 1) mod 2 ^ 32) div 2 = mid" "left < mid" "mid \<le> right" using True by (auto simp: mid_def)
    have m: "mid < length rs" using mid less.prems by simp
    note r = restart_facts [OF bi m]
    have lim: "it_restarts i = length (body es)" "take (length (body es)) (it_data i) = body es"
      "length (body es) < 2 ^ 32" "shares_ok es" "it_comparator i = c" using bi by (auto simp: block_iter_def)
    let ?e = "es ! (rs ! mid)"
    have n: "rs ! mid < length es" using r(4) es by simp
    have sh: "e_shared ?e = 0" using r(3) n by simp
    have "length (e_k ?e) < 2 ^ 32"
      using key_length_le [OF lim(4) n] eoff_le_iff [of "Suc (rs ! mid)" es "length es"] n lim(3) by (simp add: eoff_all)
    then have k: "take (unat (of_nat (length (e_k ?e)) :: u32)) (drop (eoff es (rs ! mid) + length (entry_header ?e)) (it_data i)) = e_k ?e"
      using entry_slices(1) [OF n lim(2)] sh by (simp add: unat_of_nat_u32)
    have "length (body es) \<le> length (it_data i)" using lim(2) by (metis length_take min.cobounded1 nat_le_linear take_all)
    then have inside: "\<not> eoff es (rs ! mid) + length (entry_header ?e) + unat (of_nat (length (e_k ?e)) :: u32) > length (it_data i)"
      using eoff_Suc [OF n] eoff_le_iff [of "Suc (rs ! mid)" es "length es"] n sh \<open>length (e_k ?e) < 2 ^ 32\<close>
      by (simp add: length_entry_bytes eoff_all unat_of_nat_u32)
    have step: "search_restarts i target left right =
        (if Compare c (e_k ?e) target < 0 then search_restarts i target mid right else search_restarts i target left (mid - 1))"
      using True mid(1) DecodeEntry_at [OF n lim(4,3,2)] k inside
      by (subst search_restarts.simps) (simp add: r(1) lim(1,5) sh Let_def)
    show ?thesis
    proof (cases "Compare c (e_k ?e) target < 0")
      case T: True
      have "right - mid < right - left" using mid by simp
      from less.hyps [OF this mid(3) less.prems(2)] T step show ?thesis by auto
    next
      case F: False
      have "mid - 1 - left < right - left" "left \<le> mid - 1" "mid - 1 < length rs" using mid less.prems by simp_all
      from less.hyps [OF this] F step show ?thesis by auto
    qed
  qed
qed

lemma Iter_Seek_ok:
  assumes c: "comparator c" and sorted: "sorted_wrt (\<lambda>a b. Compare c (e_k a) (e_k b) < 0) es"
    and pos: "positioned c es rs pos i"
  shows "\<exists>i'. Iter_Seek target i = Some i' \<and>
    positioned c es rs (find (\<lambda>m. \<not> Compare c (e_k (es ! m)) target < 0) [0..<length es]) i'"
proof -
  note o = comparator.axioms [OF c]
  let ?P = "\<lambda>m. Compare c (e_k (es ! m)) target < 0"
  have bi: "block_iter c es rs i" using pos by (auto simp: positioned_def exhausted_def at_def split: option.splits)
  have rs: "0 < length rs" "rs ! 0 = 0" "it_num_restarts i = length rs"
    using bi by (auto simp: block_iter_def hd_conv_nth)
  have less: "?P m" if "m \<le> n" "n < length es" "?P n" for m n
    using that sorted key_order.compare_less_trans [OF o, of "e_k (es ! m)" "e_k (es ! n)" target]
    by (cases "m = n") (auto simp: sorted_wrt_iff_nth_less)
  have cond: "\<not> Compare (it_comparator i') (it_key i') target \<ge> 0 \<longleftrightarrow> ?P m" if "at c es rs m i'" for m i'
    using that by (auto simp: at_def block_iter_def)
  have finish: "\<exists>i'. parse_while (\<lambda>i. \<not> Compare (it_comparator i) (it_key i) target \<ge> 0) j = Some i' \<and>
      positioned c es rs (find (\<lambda>m. \<not> ?P m) [0..<length es]) i'"
    if "before c es rs n j" "\<forall>m<n. ?P m" for n j
    using parse_while_ok [where P = ?P, OF cond that(1)] find_upt_from [OF that(2)] that(1) by (simp add: before_def)
  have start: "\<exists>i'. parse_while (\<lambda>i. \<not> Compare (it_comparator i) (it_key i) target \<ge> 0) (SeekToRestartPoint l i) = Some i' \<and>
      positioned c es rs (find (\<lambda>m. \<not> ?P m) [0..<length es]) i'"
    if "l < length rs" "l = 0 \<or> es \<noteq> [] \<and> ?P (rs ! l)" for l
  proof (rule finish [OF SeekToRestartPoint_before [OF bi that(1)]])
    show "\<forall>m<rs ! l. ?P m"
      using that(2) less [of _ "rs ! l"] restart_facts(4) [OF bi that(1)] rs(2) by (auto intro: less_imp_le)
  qed
  show ?thesis
  proof (cases pos)
    case None
    then have inv: "\<not> Iter_Valid i" using pos exhausted_invalid by (auto simp: positioned_def)
    show ?thesis
    proof (cases "es = []")
      case True
      have "rs = [0]"
      proof (cases rs)
        case (Cons r xs)
        then have "r = 0" "\<forall>x\<in>set xs. 0 < x \<and> x < 1" using bi True by (auto simp: block_iter_def)
        then show ?thesis using Cons by (cases xs) auto
      qed (use rs in simp)
      moreover have "search_restarts i target 0 0 = Some (Some 0)" by (subst search_restarts.simps) simp
      ultimately show ?thesis using inv start [of 0] by (simp add: Iter_Seek_def rs(3) Let_def)
    next
      case False
      obtain l where "search_restarts i target 0 (length rs - 1) = Some (Some l)" "l < length rs" "l = 0 \<or> ?P (rs ! l)"
        using search_restarts_ok [OF bi False, of 0 "length rs - 1"] rs(1) by auto
      then show ?thesis using inv start [of l] False by (simp add: Iter_Seek_def rs(3) Let_def)
    qed
  next
    case (Some n)
    then have at: "at c es rs n i" using pos by (simp add: positioned_def)
    then have n: "n < length es" "it_key i = e_k (es ! n)" "it_comparator i = c" "Iter_Valid i"
      "it_restart_index i < length rs" "rs ! it_restart_index i \<le> n"
      using at_Valid [OF at] by (auto simp: at_def block_iter_def)
    then have es: "es \<noteq> []" by auto
    consider (eq) "Compare c (e_k (es ! n)) target = 0" | (lt) "?P n" | (gt) "Compare c (e_k (es ! n)) target > 0" by linarith
    then show ?thesis
    proof cases
      case eq
      have "?P m" if "m < n" for m
        using that n(1) sorted key_order.compare_eq_right [OF o eq, of "e_k (es ! m)"] by (auto simp: sorted_wrt_iff_nth_less)
      then have "find (\<lambda>m. \<not> ?P m) [0..<length es] = Some n" using n(1) eq by (intro find_upt) auto
      then show ?thesis using eq n at by (simp add: Iter_Seek_def positioned_def)
    next
      case lt
      let ?r = "it_restart_index i"
      obtain l where l: "search_restarts i target ?r (length rs - 1) = Some (Some l)" "l < length rs" "l = ?r \<or> ?P (rs ! l)"
        using search_restarts_ok [OF bi es, of ?r "length rs - 1"] n(5) by fastforce
      show ?thesis
      proof (cases "l = ?r")
        case True
        have "\<forall>m<Suc n. ?P m" using less [OF _ n(1) lt] by (simp add: less_Suc_eq_le)
        from finish [OF at_before [OF at] this] show ?thesis using True l(1) lt n by (simp add: Iter_Seek_def rs(3) Let_def)
      next
        case False
        then show ?thesis using start [of l] l lt n es by (simp add: Iter_Seek_def rs(3) Let_def)
      qed
    next
      case gt
      let ?r = "it_restart_index i"
      obtain l where l: "search_restarts i target 0 ?r = Some (Some l)" "l < length rs" "l = 0 \<or> ?P (rs ! l)"
        using search_restarts_ok [OF bi es, of 0 ?r] n(5) by auto
      then show ?thesis using start [of l] gt n es by (simp add: Iter_Seek_def rs(3) Let_def)
    qed
  qed
qed

section \<open>What the builder builds\<close>

definition builder_ok :: "BlockBuilder \<Rightarrow> block_entry list \<Rightarrow> nat list \<Rightarrow> bool" where
  "builder_ok b es rs \<longleftrightarrow>
     bb_buffer b = body es \<and> shares_ok es \<and> bb_restarts b = map (\<lambda>r. of_nat (eoff es r)) rs \<and>
     rs \<noteq> [] \<and> hd rs = 0 \<and> sorted_wrt (<) rs \<and>
     (\<forall>r\<in>set rs. r < max 1 (length es) \<and> (r < length es \<longrightarrow> e_shared (es ! r) = 0)) \<and>
     bb_last_key b = prev_key es (length es) \<and> 1 \<le> bb_restart_interval b \<and> bb_counter b \<le> length es"

lemma builder_new_ok: "1 \<le> n \<Longrightarrow> builder_ok (BlockBuilder_new n) [] [0]"
  by (simp add: builder_ok_def BlockBuilder_new_def body_def shares_ok_def prev_key_def)

lemma shared_prefix_ok:
  "shared_prefix a b \<le> length a" "shared_prefix a b \<le> length b" "take (shared_prefix a b) a = take (shared_prefix a b) b"
  by (induction a b rule: shared_prefix.induct) auto

lemma shares_ok_snoc:
  assumes "shares_ok es" "sh \<le> length k" "sh \<le> length (prev_key es (length es))" "take sh (prev_key es (length es)) = take sh k"
  shows "shares_ok (es @ [(sh, k, v)])"
proof -
  have "prev_key (es @ [(sh, k, v)]) n = prev_key es n" if "n \<le> length es" for n
    using that by (auto simp: prev_key_def nth_append)
  then show ?thesis using assms by (auto simp: shares_ok_def nth_append less_Suc_eq)
qed

lemma eoff_snoc: "r \<le> length es \<Longrightarrow> eoff (es @ [e]) r = eoff es r"
  by (simp add: eoff_def)

lemma builder_add_ok:
  assumes "builder_ok b es rs"
  shows "\<exists>sh rs'. builder_ok (BlockBuilder_Add k v b) (es @ [(sh, k, v)]) rs'"
proof -
  let ?last = "bb_last_key b"
  have last: "?last = prev_key es (length es)" and buf: "bb_buffer b = body es" using assms by (auto simp: builder_ok_def)
  have bytes: "body (es @ [(sh, k, v)]) = body es @ EncodeVarint32 (of_nat sh) @ EncodeVarint32 (of_nat (length k - sh)) @
      EncodeVarint32 (of_nat (length v)) @ drop sh k @ v" for sh
    by (simp add: body_append) (simp add: body_def entry_bytes_def entry_header_def)
  have restarts: "map (\<lambda>r. of_nat (eoff (es @ [e]) r)) rs = (map (\<lambda>r. of_nat (eoff es r)) rs :: u32 list)" for e
    using assms by (force simp: builder_ok_def eoff_snoc)
  have pk: "prev_key (es @ [(sh, k, v)]) (Suc (length es)) = k" for sh by (simp add: prev_key_def)
  show ?thesis
  proof (cases "bb_counter b < bb_restart_interval b")
    case True
    let ?sh = "shared_prefix ?last k"
    have key: "take ?sh ?last @ drop ?sh k = k" using shared_prefix_ok(3) [of ?last k] by simp
    have "?sh = 0" if "es = []" using that last by (simp add: prev_key_def)
    then have "builder_ok (BlockBuilder_Add k v b) (es @ [(?sh, k, v)]) rs"
      using assms True key shares_ok_snoc [of es ?sh k v] shared_prefix_ok [of ?last k]
      by (auto simp: builder_ok_def BlockBuilder_Add_def Let_def bytes restarts pk PutVarint32_def last nth_append less_max_iff_disj less_Suc_eq)
    then show ?thesis by blast
  next
    case False
    then have ne: "es \<noteq> []" using assms by (auto simp: builder_ok_def)
    then have "\<forall>r\<in>set rs. r < length es" using assms by (cases es) (auto simp: builder_ok_def)
    moreover have "eoff (es @ [(0, k, v)]) (length es) = length (body es)" by (simp add: eoff_snoc eoff_all)
    ultimately have "builder_ok (BlockBuilder_Add k v b) (es @ [(0, k, v)]) (rs @ [length es])"
      using assms False shares_ok_snoc [of es 0 k v]
      by (auto simp: builder_ok_def BlockBuilder_Add_def Let_def bytes restarts pk PutVarint32_def nth_append sorted_wrt_append
          less_Suc_eq)
    then show ?thesis by blast
  qed
qed

definition builder_adds :: "(bytes \<times> bytes) list \<Rightarrow> BlockBuilder \<Rightarrow> BlockBuilder" where
  "builder_adds kvs b = fold (\<lambda>(k, v). BlockBuilder_Add k v) kvs b"

lemma builder_adds_ok:
  "builder_ok b es rs \<Longrightarrow> \<exists>es' rs'. builder_ok (builder_adds kvs b) (es @ es') rs' \<and> map snd es' = kvs"
proof (induction kvs arbitrary: b es rs)
  case (Cons kv kvs)
  obtain k v where kv: "kv = (k, v)" by fastforce
  obtain sh rs' where "builder_ok (BlockBuilder_Add k v b) (es @ [(sh, k, v)]) rs'"
    using builder_add_ok [OF Cons.prems] by blast
  from Cons.IH [OF this] obtain es' rs'' where
    "builder_ok (builder_adds kvs (BlockBuilder_Add k v b)) (es @ (sh, k, v) # es') rs''" "map snd es' = kvs" by auto
  then show ?case by (intro exI [of _ "(sh, k, v) # es'"] exI [of _ rs'']) (simp add: kv builder_adds_def)
qed (auto simp: builder_adds_def)

text \<open>The finished block and its iterator.\<close>

lemma Finish_bytes:
  "fst (BlockBuilder_Finish b) = bb_buffer b @ concat (map EncodeFixed32 (bb_restarts b)) @
     EncodeFixed32 (of_nat (length (bb_restarts b)))"
proof -
  have "fold (\<lambda>r buf. PutFixed32 buf r) rs buf = buf @ concat (map EncodeFixed32 rs)" for rs buf
    by (induction rs arbitrary: buf) (simp_all add: PutFixed32_def)
  then show ?thesis by (simp add: BlockBuilder_Finish_def Let_def PutFixed32_def)
qed

lemma length_fixed32s: "length (concat (map EncodeFixed32 ws)) = 4 * length ws"
  by (induction ws) simp_all

lemma fixed32s_at: "j < length ws \<Longrightarrow> DecodeFixed32 (drop (j * 4) (concat (map EncodeFixed32 ws) @ r)) = ws ! j"
proof (induction ws arbitrary: j)
  case (Cons w ws)
  then show ?case by (cases j) simp_all
qed simp

lemma built_block_iterator:
  assumes b: "builder_ok b es rs" and len: "length (fst (BlockBuilder_Finish b)) < 2 ^ 32"
  shows "Block_NewIterator c (Block_new (fst (BlockBuilder_Finish b))) =
      BlockIterator (Iter_new c (fst (BlockBuilder_Finish b)) (length (body es)) (length rs)) \<and>
    exhausted c es rs (Iter_new c (fst (BlockBuilder_Finish b)) (length (body es)) (length rs))"
proof -
  let ?d = "fst (BlockBuilder_Finish b)"
  define ws where "ws = bb_restarts b"
  have ws: "length ws = length rs" and buf: "bb_buffer b = body es" and rs: "rs \<noteq> []"
    using b by (auto simp: builder_ok_def ws_def)
  have d: "?d = body es @ concat (map EncodeFixed32 ws) @ EncodeFixed32 (of_nat (length rs))"
    by (simp add: Finish_bytes buf ws ws_def [symmetric])
  have n: "length ?d = length (body es) + 4 * length rs + 4" by (simp add: d length_fixed32s ws)
  have "drop (length ?d - 4) ?d = EncodeFixed32 (of_nat (length rs))"
    unfolding n by (simp add: d length_fixed32s ws)
  then have num: "NumRestarts ?d (length ?d) = length rs"
    using DecodeFixed32_EncodeFixed32 [of "of_nat (length rs)" "[]"] len n
    by (simp add: NumRestarts_def unat_of_nat_u32)
  have point: "unat (DecodeFixed32 (drop (length (body es) + j * 4) ?d)) = eoff es (rs ! j)" if "j < length rs" for j
  proof -
    have "rs ! j \<in> set rs" using that by simp
    then have "rs ! j \<le> length es" using b unfolding builder_ok_def by (fastforce simp: less_max_iff_disj)
    then have "eoff es (rs ! j) \<le> length (body es)" using eoff_le_iff [of "rs ! j" es "length es"] by (simp add: eoff_all)
    moreover have "drop (length (body es) + j * 4) ?d = drop (j * 4) (concat (map EncodeFixed32 ws) @ EncodeFixed32 (of_nat (length rs)))"
      by (simp add: d)
    moreover have "ws ! j = of_nat (eoff es (rs ! j))" using b that by (simp add: builder_ok_def ws_def)
    ultimately show ?thesis using fixed32s_at [of j ws] ws that len n by (simp add: unat_of_nat_u32)
  qed
  have "Block_new ?d = \<lparr>bl_data = ?d, bl_size = length ?d, bl_restart_offset = length (body es)\<rparr>"
    using len unfolding Block_new_def Let_def num by (simp add: n)
  then have "Block_NewIterator c (Block_new ?d) = BlockIterator (Iter_new c ?d (length (body es)) (length rs))"
    using rs num by (simp add: Block_NewIterator_def Let_def del: length_greater_0_conv) (simp add: n)
  moreover have "exhausted c es rs (Iter_new c ?d (length (body es)) (length rs))"
    using b point len n d by (auto simp: exhausted_def block_iter_def Iter_new_def GetRestartPoint_def builder_ok_def)
  ultimately show ?thesis by blast
qed

section \<open>The iterator is a cursor over the entries\<close>

text \<open>The operations of an iterator, and of a cursor over a list of key-value pairs.\<close>

datatype iter_op = ToFirst | ToLast | To bytes | Forward | Backward

fun iter_step :: "iter_op \<Rightarrow> Iter \<Rightarrow> Iter option" where
  "iter_step ToFirst i = Iter_SeekToFirst i"
| "iter_step ToLast i = Iter_SeekToLast i"
| "iter_step (To target) i = Iter_Seek target i"
| "iter_step Forward i = (if Iter_Valid i then Iter_Next i else Some i)"
| "iter_step Backward i = (if Iter_Valid i then Iter_Prev i else Some i)"

fun iter_run :: "iter_op list \<Rightarrow> Iter \<Rightarrow> Iter option" where
  "iter_run [] i = Some i"
| "iter_run (x # ops) i = (case iter_step x i of None \<Rightarrow> None | Some i \<Rightarrow> iter_run ops i)"

fun cursor_step :: "Comparator \<Rightarrow> (bytes \<times> bytes) list \<Rightarrow> iter_op \<Rightarrow> nat option \<Rightarrow> nat option" where
  "cursor_step c kvs ToFirst pos = (if kvs = [] then None else Some 0)"
| "cursor_step c kvs ToLast pos = (if kvs = [] then None else Some (length kvs - 1))"
| "cursor_step c kvs (To target) pos = find (\<lambda>n. \<not> Compare c (fst (kvs ! n)) target < 0) [0..<length kvs]"
| "cursor_step c kvs Forward pos =
     (case pos of None \<Rightarrow> None | Some n \<Rightarrow> if Suc n < length kvs then Some (Suc n) else None)"
| "cursor_step c kvs Backward pos = (case pos of None \<Rightarrow> None | Some n \<Rightarrow> if n = 0 then None else Some (n - 1))"

lemma positioned_Valid: "positioned c es rs pos i \<Longrightarrow> Iter_Valid i \<longleftrightarrow> pos \<noteq> None"
  by (cases pos) (auto simp: positioned_def at_Valid exhausted_invalid)

lemma iter_step_ok:
  assumes "comparator c" "sorted_wrt (\<lambda>a b. Compare c (e_k a) (e_k b) < 0) es" "positioned c es rs pos i"
  shows "\<exists>i'. iter_step x i = Some i' \<and> positioned c es rs (cursor_step c (map snd es) x pos) i'"
proof (cases x)
  case ToFirst
  have "block_iter c es rs i" using assms(3) by (auto simp: positioned_def exhausted_def at_def split: option.splits)
  then show ?thesis using ToFirst Iter_SeekToFirst_ok [of c es rs i] by auto
next
  case ToLast
  have "block_iter c es rs i" using assms(3) by (auto simp: positioned_def exhausted_def at_def split: option.splits)
  then show ?thesis using ToLast Iter_SeekToLast_ok [of c es rs i] by auto
next
  case (To target)
  have "find (\<lambda>n. \<not> Compare c (fst (map snd es ! n)) target < 0) [0..<length es] =
      find (\<lambda>n. \<not> Compare c (e_k (es ! n)) target < 0) [0..<length es]"
    by (rule find_cong) auto
  then show ?thesis using To Iter_Seek_ok [OF assms, of target] by simp
next
  case Forward
  then show ?thesis
    using assms(3) positioned_Valid [OF assms(3)] Iter_Next_ok [of c es rs _ i] by (cases pos) (auto simp: positioned_def)
next
  case Backward
  then show ?thesis
    using assms(3) positioned_Valid [OF assms(3)] Iter_Prev_ok [of c es rs _ i] by (cases pos) (auto simp: positioned_def)
qed

lemma iter_run_ok:
  assumes "comparator c" "sorted_wrt (\<lambda>a b. Compare c (e_k a) (e_k b) < 0) es"
  shows "positioned c es rs pos i \<Longrightarrow>
    \<exists>i'. iter_run ops i = Some i' \<and> positioned c es rs (fold (cursor_step c (map snd es)) ops pos) i'"
proof (induction ops arbitrary: pos i)
  case (Cons x ops)
  obtain i1 where "iter_step x i = Some i1" "positioned c es rs (cursor_step c (map snd es) x pos) i1"
    using iter_step_ok [OF assms Cons.prems] by blast
  then show ?case using Cons.IH by auto
qed auto

section \<open>Arbitrary contents\<close>

lemma three_varints_shorter: "three_varints s = Some (x, y, z, r) \<Longrightarrow> length r + 3 \<le> length s"
proof -
  have less: "GetVarint32Ptr p = Some (v, q) \<Longrightarrow> length q < length p" for p v q
    using GetVarint_shorter(1) [of p v q] by (simp add: GetVarint32_def)
  assume "three_varints s = Some (x, y, z, r)"
  then obtain s1 s2 where "GetVarint32Ptr s = Some (x, s1)" "GetVarint32Ptr s1 = Some (y, s2)" "GetVarint32Ptr s2 = Some (z, r)"
    by (auto simp: three_varints_def split: option.splits)
  from this [THEN less] show ?thesis by linarith
qed

lemma advance_restart_same: "\<exists>r. advance_restart i = i\<lparr>it_restart_index := r\<rparr>"
proof (induction i rule: advance_restart.induct)
  case (1 i)
  show ?case
  proof (cases "it_restart_index i + 1 < it_num_restarts i \<and> GetRestartPoint i (it_restart_index i + 1) < it_current i")
    case True
    then show ?thesis using "1.IH" by (simp add: advance_restart.simps [of i])
  next
    case False
    then have "advance_restart i = i\<lparr>it_restart_index := it_restart_index i\<rparr>" by (subst advance_restart.simps) auto
    then show ?thesis by blast
  qed
qed

lemma DecodeEntry_bounds:
  assumes "DecodeEntry data cur lim = Some (sh, ns, vl, p)" "lim < 2 ^ 32" "lim \<le> length data"
  shows "cur + 3 \<le> p" "(p + unat ns + unat vl) mod 2 ^ 32 = p + unat (ns + vl)" "p + unat (ns + vl) \<le> lim"
proof -
  obtain s where s: "three_varints (drop cur (take lim data)) = Some (sh, ns, vl, s)"
    "\<not> (of_nat (length s) :: u32) < ns + vl" "p = lim - length s" "\<not> int lim - int cur < 3"
    using assms(1) unfolding DecodeEntry_eq [OF assms(3)] by (auto split: if_splits option.splits)
  have len: "length s + 3 \<le> lim - cur" using three_varints_shorter [OF s(1)] assms(3) by simp
  then show "cur + 3 \<le> p" using s(3,4) by linarith
  have "unat (ns + vl) \<le> length s"
    using s(2) len assms(2) by (simp add: word_less_nat_alt not_less unat_of_nat_u32)
  then show le: "p + unat (ns + vl) \<le> lim" using s(3) len by linarith
  have "(p + unat ns + unat vl) mod 2 ^ 32 = (p + unat (ns + vl)) mod 2 ^ 32"
    by (simp add: unat_word_ariths add.assoc mod_add_right_eq)
  then show "(p + unat ns + unat vl) mod 2 ^ 32 = p + unat (ns + vl)" using le assms(2) by simp
qed

lemma ParseNextKey_progress:
  assumes "ParseNextKey i = Some (True, i')" "it_restarts i < 2 ^ 32" "it_restarts i \<le> length (it_data i)"
  shows "NextEntryOffset i < NextEntryOffset i' \<and> NextEntryOffset i' \<le> it_restarts i \<and>
    it_restarts i' = it_restarts i \<and> it_data i' = it_data i"
proof -
  obtain sh ns vl p where d: "DecodeEntry (it_data i) (NextEntryOffset i) (it_restarts i) = Some (sh, ns, vl, p)"
    and i': "i' = advance_restart (i\<lparr>it_current := NextEntryOffset i, it_key := take (unat sh) (it_key i) @
        take (unat ns) (drop p (it_data i)), it_value := (p + unat ns, unat vl)\<rparr>)"
    using assms(1) by (auto simp: ParseNextKey_def Let_def split: if_splits option.splits)
  then obtain r where "i' = i\<lparr>it_current := NextEntryOffset i, it_key := take (unat sh) (it_key i) @
      take (unat ns) (drop p (it_data i)), it_value := (p + unat ns, unat vl)\<rparr>\<lparr>it_restart_index := r\<rparr>"
    using advance_restart_same by metis
  then have "it_value i' = (p + unat ns, unat vl)" "it_restarts i' = it_restarts i" "it_data i' = it_data i" by simp_all
  then show ?thesis
    using DecodeEntry_bounds [OF d assms(2,3)] by (simp add: NextEntryOffset_def)
qed

text \<open>
  The entries that \<open>DecodeEntry\<close> accepts have lengths whose sum does not wrap around, wherever it starts.
\<close>

definition lengths_fit :: "bytes \<Rightarrow> nat \<Rightarrow> bool" where
  "lengths_fit data limit \<longleftrightarrow>
     list_all (\<lambda>p. case DecodeEntry data p limit of
         None \<Rightarrow> True
       | Some (shared, non_shared, value_length, q) \<Rightarrow> unat non_shared + unat value_length < 2 ^ 32) [0..<limit]"

lemma lengths_fit_inside:
  assumes "lengths_fit data lim" "DecodeEntry data cur lim = Some (sh, ns, vl, p)" "lim < 2 ^ 32" "lim \<le> length data"
  shows "p + unat ns + unat vl \<le> length data"
proof -
  have "cur < lim" using assms(2) by (simp add: DecodeEntry_def split: if_splits)
  then have "unat ns + unat vl < 2 ^ 32" using assms(1,2) by (force simp: lengths_fit_def list_all_iff)
  then have "unat (ns + vl) = unat ns + unat vl" by (simp add: unat_word_ariths)
  then show ?thesis using DecodeEntry_bounds(3) [OF assms(2-4)] assms(4) by simp
qed

text \<open>Bounds that an iterator over such a block keeps: in particular its value lies within the contents.\<close>

definition iter_bounds :: "Iter \<Rightarrow> bool" where
  "iter_bounds i \<longleftrightarrow> it_restarts i < 2 ^ 32 \<and> it_restarts i \<le> length (it_data i) \<and>
     1 \<le> it_num_restarts i \<and> it_num_restarts i < 2 ^ 31 \<and> it_restart_index i \<le> it_num_restarts i \<and>
     lengths_fit (it_data i) (it_restarts i)"

definition value_inside :: "Iter \<Rightarrow> bool" where
  "value_inside i \<longleftrightarrow> (Iter_Valid i \<longrightarrow> fst (it_value i) + snd (it_value i) \<le> length (it_data i))"

lemma advance_restart_bounds:
  "iter_bounds i \<Longrightarrow> iter_bounds (advance_restart i)"
proof (induction i rule: advance_restart.induct)
  case (1 i)
  then show ?case by (subst advance_restart.simps) (auto simp: iter_bounds_def)
qed

lemma ParseNextKey_bounds:
  assumes "iter_bounds i"
  shows "\<exists>ok i'. ParseNextKey i = Some (ok, i') \<and> iter_bounds i' \<and> value_inside i' \<and> it_data i' = it_data i"
proof -
  let ?i = "i\<lparr>it_current := NextEntryOffset i\<rparr>"
  have lim: "it_restarts i < 2 ^ 32" "it_restarts i \<le> length (it_data i)" "lengths_fit (it_data i) (it_restarts i)"
    using assms by (simp_all add: iter_bounds_def)
  define good where "good = (\<lambda>j. iter_bounds j \<and> value_inside j \<and> it_data j = it_data i)"
  have bad: "good (CorruptionError ?i)" "good (i\<lparr>it_current := it_restarts i, it_restart_index := it_num_restarts i\<rparr>)"
    using assms by (simp_all add: good_def iter_bounds_def CorruptionError_def value_inside_def Iter_Valid_def)
  have "\<exists>ok i'. ParseNextKey i = Some (ok, i') \<and> good i'"
  proof (cases "DecodeEntry (it_data i) (NextEntryOffset i) (it_restarts i)")
    case None
    then show ?thesis using bad by (auto simp: ParseNextKey_def Let_def)
  next
    case (Some d)
    obtain sh ns vl p where d: "d = (sh, ns, vl, p)" by (metis prod_cases4)
    have inside: "p + unat ns + unat vl \<le> length (it_data i)"
      using lengths_fit_inside [OF lim(3) _ lim(1,2)] Some d by simp
    define j where "j = ?i\<lparr>it_key := take (unat sh) (it_key i) @ take (unat ns) (drop p (it_data i)), it_value := (p + unat ns, unat vl)\<rparr>"
    have "iter_bounds j" using assms by (simp add: iter_bounds_def j_def)
    then have "iter_bounds (advance_restart j)" by (rule advance_restart_bounds)
    moreover obtain q where "advance_restart j = j\<lparr>it_restart_index := q\<rparr>" using advance_restart_same by blast
    then have "value_inside (advance_restart j)" "it_data (advance_restart j) = it_data i"
      using inside by (simp_all add: value_inside_def j_def)
    ultimately have "good (advance_restart j)" by (simp add: good_def)
    then show ?thesis
      using Some bad inside by (auto simp: ParseNextKey_def Let_def d j_def)
  qed
  then show ?thesis by (simp add: good_def)
qed

lemma parse_while_returns:
  "iter_bounds i \<Longrightarrow> \<exists>i'. parse_while cond i = Some i' \<and> iter_bounds i' \<and> value_inside i' \<and> it_data i' = it_data i"
proof (induction "it_restarts i - NextEntryOffset i" arbitrary: i rule: less_induct)
  case less
  obtain ok i1 where p: "ParseNextKey i = Some (ok, i1)" and b: "iter_bounds i1" "value_inside i1" "it_data i1 = it_data i"
    using ParseNextKey_bounds [OF less.prems] by blast
  show ?case
  proof (cases "ok \<and> cond i1")
    case True
    then have "NextEntryOffset i < NextEntryOffset i1" "NextEntryOffset i1 \<le> it_restarts i" "it_restarts i1 = it_restarts i"
      using ParseNextKey_progress [of i i1] p less.prems by (auto simp: iter_bounds_def)
    then have "\<exists>i'. parse_while cond i1 = Some i' \<and> iter_bounds i' \<and> value_inside i' \<and> it_data i' = it_data i1"
      using b by (intro less.hyps) auto
    then show ?thesis using True p b(3) by (subst parse_while.simps) simp
  next
    case False
    then show ?thesis using p b by (subst parse_while.simps) auto
  qed
qed

lemma search_restarts_returns:
  assumes "it_restarts i < 2 ^ 32" "it_restarts i \<le> length (it_data i)" "lengths_fit (it_data i) (it_restarts i)"
  shows "right < 2 ^ 31 \<Longrightarrow> left \<le> n \<Longrightarrow> right \<le> n \<Longrightarrow>
   \<exists>r. search_restarts i target left right = Some r \<and> (\<forall>l. r = Some l \<longrightarrow> l \<le> n)"
proof (induction "right - left" arbitrary: left right rule: less_induct)
  case less
  show ?case
  proof (cases "left < right")
    case True
    define mid where "mid = (left + right + 1) div 2"
    have m: "((left + right + 1) mod 2 ^ 32) div 2 = mid" "left < mid" "mid \<le> right"
      using True less.prems by (auto simp: mid_def)
    have "\<exists>r. search_restarts i target mid right = Some r \<and> (\<forall>l. r = Some l \<longrightarrow> l \<le> n)"
      "\<exists>r. search_restarts i target left (mid - 1) = Some r \<and> (\<forall>l. r = Some l \<longrightarrow> l \<le> n)"
      using m less.prems by (auto intro!: less.hyps)
    moreover have "p + unat ns \<le> length (it_data i)"
      if "DecodeEntry (it_data i) (GetRestartPoint i mid) (it_restarts i) = Some (sh, ns, vl, p)" for sh ns vl p
      using lengths_fit_inside [OF assms(3) that assms(1,2)] by simp
    ultimately show ?thesis
      using True m(1) by (subst search_restarts.simps) (auto simp: Let_def not_less split: option.splits)
  qed (use less.prems in \<open>subst search_restarts.simps, simp\<close>)
qed

lemma SeekToRestartPoint_bounds: "iter_bounds i \<Longrightarrow> j \<le> it_num_restarts i \<Longrightarrow> iter_bounds (SeekToRestartPoint j i)"
  by (simp add: iter_bounds_def SeekToRestartPoint_def)

lemma it_data_Seek [simp]: "it_data (SeekToRestartPoint j i) = it_data i"
  by (simp add: SeekToRestartPoint_def)

lemma iter_step_returns:
  assumes "iter_bounds i" "value_inside i"
  shows "\<exists>i'. iter_step x i = Some i' \<and> iter_bounds i' \<and> value_inside i' \<and> it_data i' = it_data i"
proof (cases x)
  case ToFirst
  have "iter_bounds (SeekToRestartPoint 0 i)" using assms(1) SeekToRestartPoint_bounds by simp
  from ParseNextKey_bounds [OF this] ToFirst show ?thesis by (auto simp: Iter_SeekToFirst_def)
next
  case ToLast
  then show ?thesis
    using parse_while_returns [OF SeekToRestartPoint_bounds [OF assms(1)], of "it_num_restarts i - 1"] by (simp add: Iter_SeekToLast_def)
next
  case (To target)
  let ?ckc = "if Iter_Valid i then Compare (it_comparator i) (it_key i) target else 0"
  define left where "left = (if Iter_Valid i \<and> ?ckc < 0 then it_restart_index i else 0)"
  define right where "right = (if Iter_Valid i \<and> ?ckc > 0 then it_restart_index i else it_num_restarts i - 1)"
  have "right < 2 ^ 31" "left \<le> it_num_restarts i" "right \<le> it_num_restarts i"
    using assms by (auto simp: left_def right_def iter_bounds_def)
  moreover have "it_restarts i < 2 ^ 32" "it_restarts i \<le> length (it_data i)" "lengths_fit (it_data i) (it_restarts i)"
    using assms(1) by (simp_all add: iter_bounds_def)
  ultimately obtain r where
    r: "search_restarts i target left right = Some r" "\<forall>l. r = Some l \<longrightarrow> l \<le> it_num_restarts i"
    using search_restarts_returns by blast
  have "iter_bounds (CorruptionError i)" "value_inside (CorruptionError i)" "it_data (CorruptionError i) = it_data i"
    using assms by (simp_all add: iter_bounds_def CorruptionError_def value_inside_def Iter_Valid_def)
  moreover have "iter_bounds (SeekToRestartPoint l i)" if "r = Some l" for l using r(2) that SeekToRestartPoint_bounds [OF assms(1)] by simp
  ultimately show ?thesis
    using r(1) assms parse_while_returns [of i] parse_while_returns [of "SeekToRestartPoint (the r) i"]
    unfolding To iter_step.simps Iter_Seek_def Let_def left_def [symmetric] right_def [symmetric]
    by (cases r) auto
next
  case Forward
  then show ?thesis using ParseNextKey_bounds [OF assms(1)] assms by (auto simp: Iter_Next_def)
next
  case Backward
  have "iter_bounds (i\<lparr>it_current := it_restarts i, it_restart_index := it_num_restarts i\<rparr>)"
    "value_inside (i\<lparr>it_current := it_restarts i, it_restart_index := it_num_restarts i\<rparr>)"
    using assms by (simp_all add: iter_bounds_def value_inside_def Iter_Valid_def)
  moreover have "\<exists>i'. parse_while cond (SeekToRestartPoint j i) = Some i' \<and> iter_bounds i' \<and> value_inside i' \<and> it_data i' = it_data i"
    if "scan_back i (it_current i) (it_restart_index i) = Some j" for j cond
    using scan_back_cases(2) [OF that] assms parse_while_returns [OF SeekToRestartPoint_bounds [OF assms(1)], of j cond] by (auto simp: iter_bounds_def)
  ultimately show ?thesis using Backward assms by (auto simp: Iter_Prev_def Let_def split: option.splits)
qed

lemma iter_run_returns:
  "iter_bounds i \<Longrightarrow> value_inside i \<Longrightarrow> \<exists>i'. iter_run ops i = Some i' \<and> value_inside i' \<and> it_data i' = it_data i"
proof (induction ops arbitrary: i)
  case (Cons x ops)
  then obtain i1 where "iter_step x i = Some i1" "iter_bounds i1" "value_inside i1" "it_data i1 = it_data i"
    using iter_step_returns [OF Cons.prems, of x] by blast
  then show ?case using Cons.IH [of i1] by auto
qed simp

lemma NewIterator_bounds:
  assumes "length contents < 2 ^ 32" "Block_NewIterator c (Block_new contents) = BlockIterator i" "lengths_fit contents (it_restarts i)"
  shows "iter_bounds i" "value_inside i" "it_data i = contents"
proof -
  let ?n = "NumRestarts contents (length contents)"
  have n: "\<not> length contents < 4" "?n \<le> (length contents - 4) div 4" "?n \<noteq> 0"
    "i = Iter_new c contents ((length contents - (1 + ?n) * 4) mod 2 ^ 32) ?n"
    using assms(2) by (auto simp: Block_NewIterator_def Block_new_def Let_def split: if_splits)
  have "(length contents - (1 + ?n) * 4) mod 2 ^ 32 \<le> length contents" by (rule order.trans [OF mod_less_eq_dividend]) simp
  moreover have "?n < 2 ^ 31" using n(2) assms(1) div_le_mono [of "length contents - 4" "2 ^ 32" 4] by simp
  ultimately show "iter_bounds i" using n(3,4) assms(3) by (simp add: iter_bounds_def Iter_new_def)
  show "value_inside i" "it_data i = contents" using n(4) by (simp_all add: value_inside_def Iter_Valid_def Iter_new_def)
qed

text \<open>
  The bound on the lengths is needed: an entry is accepted when the sum of its lengths modulo \<open>2 ^ 32\<close> fits
  into the rest of the block, and when that sum has wrapped around, reading the entry leaves the contents.
\<close>

lemma decode_entry_wraps:
  assumes "length (it_data i) < 2 ^ 32" "it_restarts i \<le> length (it_data i)"
    and "three_varints (drop (NextEntryOffset i) (take (it_restarts i) (it_data i))) = Some (sh, ns, vl, s)"
    and "NextEntryOffset i + 3 \<le> it_restarts i" "unat sh \<le> length (it_key i)" "2 ^ 32 \<le> unat ns + unat vl" "unat (ns + vl) \<le> length s"
  shows "DecodeEntry (it_data i) (NextEntryOffset i) (it_restarts i) = Some (sh, ns, vl, it_restarts i - length s)" "ParseNextKey i = None"
proof -
  have "length s < 2 ^ 32" using three_varints_shorter [OF assms(3)] assms(1) by simp
  then have "\<not> (of_nat (length s) :: u32) < ns + vl" using assms(7) by (simp add: word_less_nat_alt unat_of_nat_u32)
  then show d: "DecodeEntry (it_data i) (NextEntryOffset i) (it_restarts i) = Some (sh, ns, vl, it_restarts i - length s)"
    using assms(2-4) by (simp add: DecodeEntry_eq)
  show "ParseNextKey i = None" using assms(1,4,5,6) d by (simp add: ParseNextKey_def Let_def)
qed

section \<open>Properties\<close>

definition built_block :: "nat \<Rightarrow> (bytes \<times> bytes) list \<Rightarrow> bytes" where
  "built_block block_restart_interval kvs =
     fst (BlockBuilder_Finish (builder_adds kvs (BlockBuilder_new block_restart_interval)))"

lemma built_block_run:
  assumes "comparator c" "1 \<le> interval" "sorted_wrt (\<lambda>a b. Compare c (fst a) (fst b) < 0) kvs"
    "length (built_block interval kvs) < 2 ^ 32"
  shows "\<exists>i0 i. Block_NewIterator c (Block_new (built_block interval kvs)) = BlockIterator i0 \<and>
    iter_run ops i0 = Some i \<and> it_status i = OK \<and>
    (case fold (cursor_step c kvs) ops None of
       None \<Rightarrow> \<not> Iter_Valid i
     | Some n \<Rightarrow> Iter_Valid i \<and> (it_key i, Iter_value i) = kvs ! n)"
proof -
  obtain es rs where b: "builder_ok (builder_adds kvs (BlockBuilder_new interval)) es rs" and es: "map snd es = kvs"
    using builder_adds_ok [OF builder_new_ok [OF assms(2)], of kvs] by auto
  define i0 where "i0 = Iter_new c (built_block interval kvs) (length (body es)) (length rs)"
  have i0: "Block_NewIterator c (Block_new (built_block interval kvs)) = BlockIterator i0"
    "positioned c es rs None i0"
    using built_block_iterator [OF b] assms(4) by (simp_all add: built_block_def i0_def positioned_def)
  have "sorted_wrt (\<lambda>a b. Compare c (e_k a) (e_k b) < 0) es" using assms(3) es by (auto simp: sorted_wrt_map)
  from iter_run_ok [OF assms(1) this i0(2), of ops] obtain i where
    i: "iter_run ops i0 = Some i" "positioned c es rs (fold (cursor_step c kvs) ops None) i" using es by auto
  have "block_iter c es rs i" using i(2) by (auto simp: positioned_def exhausted_def at_def split: option.splits)
  then have "it_status i = OK" by (simp add: block_iter_def)
  moreover have "(it_key i, Iter_value i) = kvs ! n" if "at c es rs n i" for n
    using that es by (auto simp: at_def)
  ultimately show ?thesis
    using i0(1) i positioned_Valid [OF i(2)] by (auto simp: positioned_def split: option.splits)
qed

text \<open>A block is not much larger than its keys and values.\<close>

definition bulk :: "(bytes \<times> bytes) list \<Rightarrow> nat" where
  "bulk kvs = sum_list (map (\<lambda>(k, v). length k + length v + 19) kvs) + 8"

lemma built_block_bulk:
  assumes "1 \<le> interval"
  shows "length (built_block interval kvs) \<le> bulk kvs"
proof -
  obtain es rs where b: "builder_ok (builder_adds kvs (BlockBuilder_new interval)) es rs" and es: "map snd es = kvs"
    using builder_adds_ok [OF builder_new_ok [OF assms], of kvs] by auto
  have e: "length (entry_bytes e) \<le> length (e_k e) + length (e_v e) + 15" for e
    using length_EncodeVarint32_bounds(2) [of "of_nat (e_shared e)"]
      length_EncodeVarint32_bounds(2) [of "of_nat (length (e_k e) - e_shared e)"]
      length_EncodeVarint32_bounds(2) [of "of_nat (length (e_v e))"]
    by (auto simp: entry_bytes_def entry_header_def split_beta)
  have "length (body es) + 4 * length es \<le> sum_list (map (\<lambda>e. length (e_k e) + length (e_v e) + 19) es)"
  proof (induction es)
    case (Cons x es)
    then show ?case using e [of x] by (simp add: body_def)
  qed (simp add: body_def)
  moreover have "sum_list (map (\<lambda>e. length (e_k e) + length (e_v e) + 19) es) + 8 = bulk kvs"
    by (simp add: bulk_def comp_def split_beta flip: es)
  moreover have "length rs \<le> max 1 (length es)"
  proof -
    have "distinct rs" "set rs \<subseteq> {..<max 1 (length es)}"
      using b unfolding builder_ok_def by (auto simp: strict_sorted_iff)
    then show ?thesis using card_mono [of "{..<max 1 (length es)}" "set rs"] by (simp add: distinct_card)
  qed
  moreover have "length (built_block interval kvs) = length (body es) + 4 * length rs + 4"
    by (simp add: built_block_def Finish_bytes length_fixed32s) (use b in \<open>simp add: builder_ok_def\<close>)
  ultimately show ?thesis by linarith
qed

text \<open>
  C10. A block iterator is a cursor over the entries the block was built from. For every comparator
  and restart interval, every strictly sorted list of entries whose block is smaller than 4 GiB and
  every sequence of operations (seek to first, to last or to a key, next, previous), all operations
  return without error, and the iterator is valid exactly when the cursor is on an entry, with that
  entry's key and value; seeking finds the first entry not before the target.
\<close>

theorem block_cursor:
  assumes "comparator c" "1 \<le> interval" "sorted_wrt (\<lambda>a b. Compare c (fst a) (fst b) < 0) kvs"
    "length (built_block interval kvs) < 2 ^ 32"
  shows "\<exists>i0 i. Block_NewIterator c (Block_new (built_block interval kvs)) = BlockIterator i0 \<and>
    iter_run ops i0 = Some i \<and> it_status i = OK \<and>
    (case fold (cursor_step c kvs) ops None of
       None \<Rightarrow> \<not> Iter_Valid i
     | Some n \<Rightarrow> Iter_Valid i \<and> (it_key i, Iter_value i) = kvs ! n)"
  by (rule built_block_run [OF assms])

theorem block_cursor_witness:
  "\<exists>i0 i. Block_NewIterator BytewiseComparator (Block_new (built_block 2 [([1, 2], [7]), ([1, 3], []), ([4], [8])])) = BlockIterator i0 \<and>
    iter_run [To [1, 3], Forward] i0 = Some i \<and> it_key i = [4] \<and> Iter_value i = [8]"
proof -
  let ?kvs = "[([1, 2], [7]), ([1, 3], []), ([4], [8])] :: (bytes \<times> bytes) list"
  have len: "length (built_block 2 ?kvs) < 2 ^ 32" 
  proof -
    have "length (built_block 2 ?kvs) = 27" by code_simp
    then show ?thesis by simp
  qed
  have "sorted_wrt (\<lambda>a b. Compare BytewiseComparator (fst a) (fst b) < 0) ?kvs" by code_simp
  moreover have "fold (cursor_step BytewiseComparator ?kvs) [To [1, 3], Forward] None = Some 2" by code_simp
  ultimately show ?thesis
    using block_cursor [OF bytewise.comparator_axioms, of 2 ?kvs "[To [1, 3], Forward]"] len by auto
qed

text \<open>
  C26. The operations of a block iterator return on every block contents below 4 GiB, corrupt or not, in
  which the length test of \<open>DecodeEntry\<close> does not wrap around: every sequence of seeks and steps ends, reads
  nothing outside the contents, and leaves a value that lies within them.
\<close>

theorem block_operations_return:
  assumes "length contents < 2 ^ 32" "Block_NewIterator c (Block_new contents) = BlockIterator i" "lengths_fit contents (it_restarts i)"
  shows "\<exists>i'. iter_run ops i = Some i' \<and> it_data i' = contents \<and>
    (Iter_Valid i' \<longrightarrow> fst (it_value i') + snd (it_value i') \<le> length contents)"
  using iter_run_returns [OF NewIterator_bounds(1,2) [OF assms], of ops] NewIterator_bounds(3) [OF assms] by (auto simp: value_inside_def)

theorem block_operations_return_witness:
  "\<exists>i'. iter_run [To [5], Backward, ToLast] (Iter_new BytewiseComparator [1, 2, 3, 9, 0, 0, 0, 1, 0, 0, 0] 3 1) = Some i'"
proof -
  have "Block_NewIterator BytewiseComparator (Block_new [1, 2, 3, 9, 0, 0, 0, 1, 0, 0, 0]) =
      BlockIterator (Iter_new BytewiseComparator [1, 2, 3, 9, 0, 0, 0, 1, 0, 0, 0] 3 1)"
  proof -
    have "DecodeFixed32 [1, 0, 0, 0] = 1" by code_simp
    then show ?thesis by (simp add: Block_NewIterator_def Block_new_def NumRestarts_def)
  qed
  moreover have "lengths_fit [1, 2, 3, 9, 0, 0, 0, 1, 0, 0, 0] 3" by code_simp
  ultimately show ?thesis
    using block_operations_return [of "[1, 2, 3, 9, 0, 0, 0, 1, 0, 0, 0]" BytewiseComparator _ "[To [5], Backward, ToLast]"]
    by (auto simp: Iter_new_def)
qed

end
