(* ===== verification/FilterBlock.thy ===== *)
theory FilterBlock
  imports Format DbFormat Block
begin

text \<open>
  \<open>table/filter_block.cc\<close>: the builder that makes six filter units over the keys of a table, each
  unit a bitmap of its own on disk, and the reader that keeps a varying number of them in memory.
\<close>

section \<open>Filter policies\<close>

text \<open>
  \<open>CreateFilter\<close> may overwrite the array of keys it is given (the wrapper for internal keys does): it
  returns the array and the extended buffer.
\<close>

record FilterPolicy =
  fp_Name :: bytes
  fp_CreateFilter :: "bytes list \<Rightarrow> bytes \<Rightarrow> int \<Rightarrow> bytes list \<times> bytes"
  fp_KeyMayMatch :: "bytes \<Rightarrow> bytes \<Rightarrow> int \<Rightarrow> bool"
  fp_FalsePositiveRate :: real
  fp_BitsPerKey :: nat

definition bloom_name :: bytes where
  "bloom_name = map (\<lambda>c. of_nat (of_char c)) ''leveldb.BuiltinBloomFilter2''"

definition bloom_policy :: "nat \<Rightarrow> FilterPolicy" where
  "bloom_policy bits_per_key =
     \<lparr>fp_Name = bloom_name,
      fp_CreateFilter = (\<lambda>keys dst index. (keys, CreateFilter (NewBloomFilterPolicy bits_per_key) keys dst index)),
      fp_KeyMayMatch = KeyMayMatch,
      fp_FalsePositiveRate = FalsePositiveRate (NewBloomFilterPolicy bits_per_key),
      fp_BitsPerKey = bits_per_key\<rparr>"

definition InternalFilterPolicy :: "FilterPolicy \<Rightarrow> FilterPolicy" where
  "InternalFilterPolicy user_policy =
     \<lparr>fp_Name = fp_Name user_policy,
      fp_CreateFilter = (\<lambda>keys dst index. internal_create_filter (\<lambda>keys dst index. snd (fp_CreateFilter user_policy keys dst index)) keys dst index),
      fp_KeyMayMatch = internal_key_may_match (fp_KeyMayMatch user_policy),
      fp_FalsePositiveRate = fp_FalsePositiveRate user_policy,
      fp_BitsPerKey = fp_BitsPerKey user_policy\<rparr>"

section \<open>The builder\<close>

definition kLoadFilterUnitsNumber :: nat where "kLoadFilterUnitsNumber = 2"
definition kAllFilterUnitsNumber :: nat where "kAllFilterUnitsNumber = 6"
definition kLifeTime :: u64 where "kLifeTime = 10000"
definition kFilterBaseLg :: nat where "kFilterBaseLg = 11"
definition kFilterBase :: u64 where "kFilterBase = push_bit kFilterBaseLg 1"

record FilterBlockBuilder =
  fb_policy :: FilterPolicy
  fb_keys :: bytes
  fb_start :: "nat list"
  fb_result :: bytes
  fb_tmp_keys :: "bytes list"
  fb_filter_offsets :: "u32 list"
  fb_filter_units :: "bytes list"

definition FilterBlockBuilder_new :: "FilterPolicy \<Rightarrow> FilterBlockBuilder" where
  "FilterBlockBuilder_new policy =
     \<lparr>fb_policy = policy, fb_keys = [], fb_start = [], fb_result = [], fb_tmp_keys = [], fb_filter_offsets = [],
      fb_filter_units = replicate kAllFilterUnitsNumber []\<rparr>"

text \<open>The loop over the units: the array of keys is passed from one call to the next.\<close>

definition create_unit :: "FilterPolicy \<Rightarrow> nat \<Rightarrow> bytes list \<times> bytes list \<Rightarrow> bytes list \<times> bytes list" where
  "create_unit policy i = (\<lambda>(keys, units).
     let (keys, u) = fp_CreateFilter policy keys (units ! i) (int i) in (keys, units[i := u]))"

definition GenerateFilter :: "FilterBlockBuilder \<Rightarrow> FilterBlockBuilder" where
  "GenerateFilter b =
     (let num_keys = length (fb_start b);
          offset = of_nat (length (fb_filter_units b ! 0)) :: u32
      in if num_keys = 0 then b\<lparr>fb_filter_offsets := fb_filter_offsets b @ [offset]\<rparr>
         else
           let start = fb_start b @ [length (fb_keys b)];
               tmp_keys = map (\<lambda>i. take (start ! (i + 1) - start ! i) (drop (start ! i) (fb_keys b))) [0..<num_keys];
               (tmp_keys, units) = fold (create_unit (fb_policy b)) [0..<kAllFilterUnitsNumber] (tmp_keys, fb_filter_units b)
           in b\<lparr>fb_filter_offsets := fb_filter_offsets b @ [offset], fb_filter_units := units,
                fb_tmp_keys := [], fb_keys := [], fb_start := []\<rparr>)"

lemma GenerateFilter_offsets [simp]: "length (fb_filter_offsets (GenerateFilter b)) = Suc (length (fb_filter_offsets b))"
  by (simp add: GenerateFilter_def Let_def split_beta)

function fill_filters :: "nat \<Rightarrow> FilterBlockBuilder \<Rightarrow> FilterBlockBuilder" where
  "fill_filters filter_index b =
     (if filter_index > length (fb_filter_offsets b) then fill_filters filter_index (GenerateFilter b) else b)"
  by pat_completeness auto
termination
  by (relation "measure (\<lambda>(n, b). n - length (fb_filter_offsets b))") auto

declare fill_filters.simps [simp del]

definition StartBlock :: "u64 \<Rightarrow> FilterBlockBuilder \<Rightarrow> FilterBlockBuilder" where
  "StartBlock block_offset b = fill_filters (unat (block_offset div kFilterBase)) b"

definition AddKey :: "bytes \<Rightarrow> FilterBlockBuilder \<Rightarrow> FilterBlockBuilder" where
  "AddKey key b = b\<lparr>fb_start := fb_start b @ [length (fb_keys b)], fb_keys := fb_keys b @ key\<rparr>"

definition ReturnFilters :: "FilterBlockBuilder \<Rightarrow> bytes list \<times> FilterBlockBuilder" where
  "ReturnFilters b =
     (let b = (if fb_start b \<noteq> [] then GenerateFilter b else b) in (fb_filter_units b, b))"

definition FilterBlockBuilder_Finish :: "BlockHandle \<Rightarrow> FilterBlockBuilder \<Rightarrow> bytes \<times> FilterBlockBuilder" where
  "FilterBlockBuilder_Finish handle b =
     (let result = fold (\<lambda>off r. PutFixed32 r off) (fb_filter_offsets b) (fb_result b);
          result = PutFixed32 result (of_nat (length (fb_filter_units b ! 0)));
          result = PutFixed64 result (bh_offset handle);
          result = PutFixed32 result (ucast (bh_size handle));
          result = PutFixed32 result (of_nat kLoadFilterUnitsNumber);
          result = PutFixed32 result (of_nat kAllFilterUnitsNumber);
          result = result @ [of_nat kFilterBaseLg]
      in (result, b\<lparr>fb_result := result\<rparr>))"

section \<open>The reader\<close>

record FilterBlockReader =
  fr_policy :: FilterPolicy
  fr_data :: bytes
  fr_disk_offset :: u64
  fr_disk_size :: u32
  fr_init_units_number :: u32
  fr_all_units_number :: u32
  fr_base_lg :: nat
  fr_num :: nat
  fr_reload_units_number :: u32
  fr_access_time :: u64
  fr_sequence :: SequenceNumber
  fr_file :: RandomAccessFile
  fr_filter_units :: "bytes list"
  fr_init_done :: bool

text \<open>
  The constructor sets only some members before its early return: the others keep what the memory
  held, here the reader \<open>mem\<close>. The comparisons of unsigned members with zero are always false.
\<close>

definition FilterBlockReader_new ::
  "FilterPolicy \<Rightarrow> bytes \<Rightarrow> RandomAccessFile \<Rightarrow> FilterBlockReader \<Rightarrow> FilterBlockReader" where
  "FilterBlockReader_new policy contents file mem =
     (let r = mem\<lparr>fr_policy := policy, fr_data := [], fr_num := 0, fr_base_lg := 0, fr_file := file,
                fr_access_time := 0, fr_sequence := 0, fr_init_done := False, fr_filter_units := []\<rparr>;
          n = length contents
      in if n < 25 then r
         else
           let init = DecodeFixed32 (drop (n - 9) contents)
           in r\<lparr>fr_base_lg := unat (scast (contents ! (n - 1)) :: u64), fr_data := contents,
                fr_all_units_number := DecodeFixed32 (drop (n - 5) contents),
                fr_init_units_number := init, fr_reload_units_number := init,
                fr_disk_size := DecodeFixed32 (drop (n - 13) contents),
                fr_disk_offset := DecodeFixed64 (drop (n - 21) contents),
                fr_num := (n - 25) div 4\<rparr>)"

definition UpdateState :: "SequenceNumber \<Rightarrow> FilterBlockReader \<Rightarrow> FilterBlockReader" where
  "UpdateState sn r = r\<lparr>fr_sequence := sn, fr_access_time := fr_access_time r + 1\<rparr>"

definition reader_SetAccessTime :: "u64 \<Rightarrow> FilterBlockReader \<Rightarrow> FilterBlockReader" where
  "reader_SetAccessTime t r = r\<lparr>fr_access_time := t\<rparr>"

definition IsCold :: "SequenceNumber \<Rightarrow> FilterBlockReader \<Rightarrow> bool" where
  "IsCold now_sequence r \<longleftrightarrow> now_sequence \<ge> fr_sequence r + kLifeTime"

text \<open>
  \<open>FilterUnitsNumberInternal\<close> waits until the first load is done: \<open>None\<close> is a caller that waits.
\<close>

definition FilterUnitsNumber :: "FilterBlockReader \<Rightarrow> nat option" where
  "FilterUnitsNumber r = (if fr_init_done r then Some (length (fr_filter_units r)) else None)"

definition OneUnitSize :: "FilterBlockReader \<Rightarrow> nat" where
  "OneUnitSize r = unat (fr_disk_size r)"

definition CanBeLoaded :: "FilterBlockReader \<Rightarrow> bool option" where
  "CanBeLoaded r = map_option (\<lambda>n. n < unat (fr_all_units_number r)) (FilterUnitsNumber r)"

definition CanBeEvict :: "FilterBlockReader \<Rightarrow> bool option" where
  "CanBeEvict r = map_option (\<lambda>n. n > 0) (FilterUnitsNumber r)"

definition reader_Size :: "FilterBlockReader \<Rightarrow> nat option" where
  "reader_Size r = map_option (\<lambda>n. n * unat (fr_disk_size r)) (FilterUnitsNumber r)"

definition IOs :: "FilterBlockReader \<Rightarrow> real option" where
  "IOs r = map_option (\<lambda>n. fp_FalsePositiveRate (fr_policy r) ^ n * real (unat (fr_access_time r))) (FilterUnitsNumber r)"

definition LoadIOs :: "FilterBlockReader \<Rightarrow> real option" where
  "LoadIOs r = map_option (\<lambda>n. fp_FalsePositiveRate (fr_policy r) ^ (n + 1) * real (unat (fr_access_time r))) (FilterUnitsNumber r)"

definition EvictIOs :: "FilterBlockReader \<Rightarrow> real option" where
  "EvictIOs r = map_option (\<lambda>n. fp_FalsePositiveRate (fr_policy r) ^ (n - 1) * real (unat (fr_access_time r))) (FilterUnitsNumber r)"

text \<open>
  \<open>KeyMayMatch\<close>: \<open>None\<close> when the caller waits for the first load, or when the stored shift distance
  is not a defined one.
\<close>

definition reader_KeyMayMatch :: "u64 \<Rightarrow> bytes \<Rightarrow> FilterBlockReader \<Rightarrow> bool option" where
  "reader_KeyMayMatch block_offset key r =
     (if fr_base_lg r \<ge> 64 then None
      else
        let index = unat (drop_bit (fr_base_lg r) block_offset)
        in if index < fr_num r then
             let start = DecodeFixed32 (drop (index * 4) (fr_data r));
                 limit = DecodeFixed32 (drop (index * 4 + 4) (fr_data r))
             in if start \<le> limit \<and> limit \<le> fr_disk_size r then
                  case FilterUnitsNumber r of
                    None \<Rightarrow> None
                  | Some n \<Rightarrow> Some (list_all (\<lambda>i. fp_KeyMayMatch (fr_policy r) key
                        (take (unat limit - unat start) (drop (unat start) (fr_filter_units r ! i))) (int i)) [0..<n])
                else Some (start \<noteq> limit)
           else Some True)"

text \<open>Loading and evicting; \<open>None\<close> is an access outside a block (see \<open>ReadBlock\<close>) or a wait.\<close>

definition LoadFilterInternal :: "Compression \<Rightarrow> FilterBlockReader \<Rightarrow> (Status \<times> FilterBlockReader) option" where
  "LoadFilterInternal lib r =
     (let kFilterSize = ucast (fr_disk_size r) + of_nat kBlockTrailerSize :: u64;
          units_index = of_nat (length (fr_filter_units r)) :: u64
      in if units_index \<ge> ucast (fr_all_units_number r)
         then Some (Corruption ''all filter units were loaded'' [], r)
         else
           let handle = \<lparr>bh_offset = fr_disk_offset r + kFilterSize * units_index, bh_size = ucast (fr_disk_size r)\<rparr>
           in case ReadBlock lib (fr_file r) True handle of
                None \<Rightarrow> None
              | Some (s, contents) \<Rightarrow>
                  if \<not> ok s then Some (s, r)
                  else Some (s, r\<lparr>fr_filter_units := fr_filter_units r @ [bc_data contents]\<rparr>))"

definition EvictFilterInternal :: "FilterBlockReader \<Rightarrow> Status \<times> FilterBlockReader" where
  "EvictFilterInternal r =
     (if fr_filter_units r = [] then (Corruption ''there is no filter can be  evicted'' [], r)
      else (OK, r\<lparr>fr_filter_units := butlast (fr_filter_units r)\<rparr>))"

definition LoadFilter :: "Compression \<Rightarrow> FilterBlockReader \<Rightarrow> (Status \<times> FilterBlockReader) option" where
  "LoadFilter = LoadFilterInternal"

definition EvictFilter :: "FilterBlockReader \<Rightarrow> Status \<times> FilterBlockReader" where
  "EvictFilter = EvictFilterInternal"

text \<open>The loops that load or evict until a number of units is in memory or an error occurs.\<close>

function load_until :: "Compression \<Rightarrow> nat \<Rightarrow> FilterBlockReader \<Rightarrow> (Status \<times> FilterBlockReader) option" where
  "load_until lib n r =
     (if length (fr_filter_units r) < n then
        case LoadFilterInternal lib r of
          None \<Rightarrow> None
        | Some (s, r) \<Rightarrow> if \<not> ok s then Some (s, r) else load_until lib n r
      else Some (OK, r))"
  by pat_completeness auto
termination
proof (relation "measure (\<lambda>(lib, n, r). n - length (fr_filter_units r))")
  fix lib n r s r' and p :: "Status \<times> FilterBlockReader"
  assume "length (fr_filter_units r) < n" "LoadFilterInternal lib r = Some p" "(s, r') = p" "\<not> \<not> ok s"
  then show "((lib, n, r'), lib, n, r) \<in> measure (\<lambda>(lib, n, r). n - length (fr_filter_units r))"
    by (auto simp: LoadFilterInternal_def Let_def split: if_splits option.splits)
qed simp

function evict_until :: "nat \<Rightarrow> FilterBlockReader \<Rightarrow> Status \<times> FilterBlockReader" where
  "evict_until n r =
     (if length (fr_filter_units r) > n then
        let (s, r) = EvictFilterInternal r
        in if \<not> ok s then (s, r) else evict_until n r
      else (OK, r))"
  by pat_completeness auto
termination
  by (relation "measure (\<lambda>(n, r). length (fr_filter_units r))") (auto simp: EvictFilterInternal_def split: if_splits)

declare load_until.simps [simp del] evict_until.simps [simp del]

definition InitLoadFilter :: "Compression \<Rightarrow> FilterBlockReader \<Rightarrow> (Status \<times> FilterBlockReader) option" where
  "InitLoadFilter lib r =
     (case load_until lib (unat (fr_init_units_number r)) (r\<lparr>fr_init_done := False\<rparr>) of
        None \<Rightarrow> None
      | Some (s, r) \<Rightarrow> Some (s, r\<lparr>fr_init_done := True\<rparr>))"

definition CleanFilter :: "FilterBlockReader \<Rightarrow> Status \<times> FilterBlockReader" where
  "CleanFilter r =
     evict_until 0 (r\<lparr>fr_reload_units_number := of_nat (length (fr_filter_units r))\<rparr>)"

definition UpdateFile :: "RandomAccessFile option \<Rightarrow> FilterBlockReader \<Rightarrow> FilterBlockReader" where
  "UpdateFile file r = (case file of None \<Rightarrow> r | Some f \<Rightarrow> r\<lparr>fr_file := f\<rparr>)"

definition reader_GoBackToInitFilter ::
  "Compression \<Rightarrow> RandomAccessFile option \<Rightarrow> FilterBlockReader \<Rightarrow> (Status \<times> FilterBlockReader) option" where
  "reader_GoBackToInitFilter lib file r =
     (let r = UpdateFile file r; n = unat (fr_reload_units_number r)
      in if n > kAllFilterUnitsNumber then Some (Corruption ''init units number is too much'' [], r)
         else if \<not> fr_init_done r then None
         else
           case load_until lib n r of
             None \<Rightarrow> None
           | Some (s, r) \<Rightarrow> if \<not> ok s then Some (s, r) else Some (evict_until n r))"

section \<open>What the units hold\<close>

text \<open>
  A policy as the filter blocks use it: the units are created in order over one array of keys, the
  first call may normalise the keys, all units have the same length, and a unit matches the keys.
\<close>

locale unit_policy =
  fixes p :: FilterPolicy
    and norm :: "bytes \<Rightarrow> bytes"
    and flt :: "bytes list \<Rightarrow> int \<Rightarrow> bytes"
  assumes create_first: "fp_CreateFilter p keys dst 0 = (map norm keys, dst @ flt (map norm keys) 0)"
    and create_next: "0 < i \<Longrightarrow> fp_CreateFilter p keys dst i = (keys, dst @ flt keys i)"
    and unit_length: "length (flt keys i) = length (flt keys 0)"
    and unit_match: "norm key \<in> norm ` set keys \<Longrightarrow> fp_KeyMayMatch p key (flt (map norm keys) i) i"

lemma bloom_unit_length:
  "length (CreateFilter (NewBloomFilterPolicy n) keys [] i) = length (CreateFilter (NewBloomFilterPolicy n) keys [] 0)"
  by (simp add: CreateFilter_char(1) bp_k_NewBloomFilterPolicy)

interpretation plain_bloom: unit_policy "bloom_policy n" "\<lambda>k. k" "\<lambda>keys i. CreateFilter (NewBloomFilterPolicy n) keys [] i"
proof unfold_locales
  show "length (CreateFilter (NewBloomFilterPolicy n) keys [] i) = length (CreateFilter (NewBloomFilterPolicy n) keys [] 0)" for keys i
    by (rule bloom_unit_length)
qed (simp_all add: bloom_policy_def CreateFilter_append [symmetric] bloom.may_match_create)

interpretation internal_bloom: unit_policy "InternalFilterPolicy (bloom_policy n)" ExtractUserKey
  "\<lambda>keys i. CreateFilter (NewBloomFilterPolicy n) keys [] i"
proof unfold_locales
  fix keys dst i key
  let ?p = "InternalFilterPolicy (bloom_policy n)"
  note defs = InternalFilterPolicy_def bloom_policy_def internal_create_filter_def internal_key_may_match_def
  show "fp_CreateFilter ?p keys dst 0 = (map ExtractUserKey keys, dst @ CreateFilter (NewBloomFilterPolicy n) (map ExtractUserKey keys) [] 0)"
    by (simp add: defs Let_def CreateFilter_append [symmetric])
  show "fp_CreateFilter ?p keys dst i = (keys, dst @ CreateFilter (NewBloomFilterPolicy n) keys [] i)" if "0 < i"
    using that by (simp add: defs CreateFilter_append [symmetric])
  show "length (CreateFilter (NewBloomFilterPolicy n) keys [] i) = length (CreateFilter (NewBloomFilterPolicy n) keys [] 0)"
    by (rule bloom_unit_length)
  show "fp_KeyMayMatch ?p key (CreateFilter (NewBloomFilterPolicy n) (map ExtractUserKey keys) [] i) i"
    if "ExtractUserKey key \<in> ExtractUserKey ` set keys"
    using bloom.may_match_create [of "ExtractUserKey key" "map ExtractUserKey keys" n i] that by (simp add: defs)
qed

text \<open>The slices of the flattened keys are the keys.\<close>

lemma flat_keys:
  assumes "start = map (\<lambda>i. length (concat (take i ks))) [0..<length ks] @ [length (concat ks)]"
  shows "map (\<lambda>i. take (start ! (i + 1) - start ! i) (drop (start ! i) (concat ks))) [0..<length ks] = ks"
proof (rule nth_equalityI)
  fix i assume "i < length (map (\<lambda>i. take (start ! (i + 1) - start ! i) (drop (start ! i) (concat ks))) [0..<length ks])"
  then have i: "i < length ks" by simp
  have at: "start ! j = length (concat (take j ks))" if "j \<le> length ks" for j
    using that by (cases "j = length ks") (simp_all add: assms nth_append)
  have "concat ks = concat (take i ks) @ ks ! i @ concat (drop (Suc i) ks)"
    using i by (metis concat.simps(2) concat_append id_take_nth_drop)
  moreover have "length (concat (take (Suc i) ks)) = length (concat (take i ks)) + length (ks ! i)"
    using i by (simp add: take_Suc_conv_app_nth)
  ultimately show "map (\<lambda>i. take (start ! (i + 1) - start ! i) (drop (start ! i) (concat ks))) [0..<length ks] ! i = ks ! i"
    using i at [of i] at [of "i + 1"] by simp
qed simp

text \<open>The units as they lie on disk, each with its trailer.\<close>

definition stored_units :: "bytes list \<Rightarrow> bytes" where
  "stored_units us = concat (map (\<lambda>u. stored_block u kNoCompression) us)"

lemma length_stored_units: "list_all (\<lambda>u. length u = n) us \<Longrightarrow> length (stored_units us) = length us * (n + 5)"
  by (induction us) (simp_all add: stored_units_def kBlockTrailerSize_def)

text \<open>The keys of filter number \<open>n\<close>: of a finished filter, or those still collected.\<close>

definition keys_of :: "bytes list list \<Rightarrow> bytes list \<Rightarrow> nat \<Rightarrow> bytes set" where
  "keys_of fs ks n = (if n < length fs then set (fs ! n) else if n = length fs then set ks else {})"

context unit_policy
begin

definition unit_of :: "bytes list list \<Rightarrow> int \<Rightarrow> bytes" where
  "unit_of fs i = concat (map (\<lambda>ks. if ks = [] then [] else flt (map norm ks) i) fs)"

lemma length_unit_of: "length (unit_of fs i) = length (unit_of fs 0)"
proof -
  have "(\<lambda>ks. length (if ks = [] then [] else flt (map norm ks) i)) = (\<lambda>ks. length (if ks = [] then [] else flt (map norm ks) 0))"
    using unit_length by (auto simp: fun_eq_iff)
  then show ?thesis by (simp add: unit_of_def length_concat comp_def)
qed

definition units :: "bytes list list \<Rightarrow> bytes list" where
  "units fs = map (\<lambda>i. unit_of fs (int i)) [0..<kAllFilterUnitsNumber]"

lemma units_facts [simp]: "length (units fs) = 6" "hd (units fs) = unit_of fs 0" "i < 6 \<Longrightarrow> units fs ! i = unit_of fs (int i)"
proof -
  show "length (units fs) = 6" "i < 6 \<Longrightarrow> units fs ! i = unit_of fs (int i)"
    by (simp_all add: units_def kAllFilterUnitsNumber_def)
  show "hd (units fs) = unit_of fs 0" by (simp add: units_def kAllFilterUnitsNumber_def upt_rec)
qed

lemma fold_create_unit:
  "n \<le> length us \<Longrightarrow> fold (create_unit p) [0..<n] (ks, us) =
     (if n = 0 then ks else map norm ks, map (\<lambda>i. us ! i @ (if i < n then flt (map norm ks) (int i) else [])) [0..<length us])"
proof (induction n)
  case 0
  then show ?case by (simp add: map_nth)
next
  case (Suc n)
  have "(map (\<lambda>i. us ! i @ (if i < n then flt (map norm ks) (int i) else [])) [0..<length us])
        [n := us ! n @ flt (map norm ks) (int n)] =
      map (\<lambda>i. us ! i @ (if i < Suc n then flt (map norm ks) (int i) else [])) [0..<length us]"
    using Suc.prems by (intro nth_equalityI) (auto simp: nth_list_update less_Suc_eq)
  moreover have "fold (create_unit p) [0..<n] (ks, us) = (if n = 0 then ks else map norm ks,
      map (\<lambda>i. us ! i @ (if i < n then flt (map norm ks) (int i) else [])) [0..<length us])"
    using Suc by simp
  moreover have "create_unit p n (if n = 0 then ks else map norm ks, vs) = (map norm ks, vs[n := vs ! n @ flt (map norm ks) (int n)])" for vs
    by (cases n) (simp_all add: create_unit_def create_first create_next)
  ultimately show ?case
    using Suc.prems by simp
qed

definition builder_rep :: "FilterBlockBuilder \<Rightarrow> bytes list list \<Rightarrow> bytes list \<Rightarrow> bool" where
  "builder_rep b fs ks \<longleftrightarrow> fb_policy b = p \<and> fb_keys b = concat ks \<and>
     fb_start b = map (\<lambda>i. length (concat (take i ks))) [0..<length ks] \<and> fb_result b = [] \<and>
     fb_filter_offsets b = map (\<lambda>i. of_nat (length (unit_of (take i fs) 0))) [0..<length fs] \<and>
     fb_filter_units b = map (\<lambda>i. unit_of fs (int i)) [0..<kAllFilterUnitsNumber]"

lemma builder_rep_new: "builder_rep (FilterBlockBuilder_new p) [] []"
  by (simp add: builder_rep_def FilterBlockBuilder_new_def unit_of_def map_replicate_const kAllFilterUnitsNumber_def)

lemma builder_rep_AddKey: "builder_rep b fs ks \<Longrightarrow> builder_rep (AddKey key b) fs (ks @ [key])"
  by (auto simp: builder_rep_def AddKey_def)

lemma offsets_snoc:
  "map (\<lambda>i. of_nat (length (unit_of (take i (fs @ [ks])) 0))) [0..<length (fs @ [ks])] =
     map (\<lambda>i. of_nat (length (unit_of (take i fs) 0))) [0..<length fs] @ [of_nat (length (unit_of fs 0)) :: u32]"
  by simp

lemma unit_of_snoc: "unit_of (fs @ [ks]) i = unit_of fs i @ (if ks = [] then [] else flt (map norm ks) i)"
  by (simp add: unit_of_def)

lemma builder_rep_Generate:
  assumes "builder_rep b fs ks"
  shows "builder_rep (GenerateFilter b) (fs @ [ks]) []"
proof -
  have units: "fb_filter_units b = map (\<lambda>i. unit_of fs (int i)) [0..<kAllFilterUnitsNumber]"
    and start: "fb_start b = map (\<lambda>i. length (concat (take i ks))) [0..<length ks]"
    and keys: "fb_keys b = concat ks"
    using assms by (auto simp: builder_rep_def)
  have u0: "fb_filter_units b ! 0 = unit_of fs 0" by (simp add: units kAllFilterUnitsNumber_def)
  show ?thesis
  proof (cases "ks = []")
    case True
    then show ?thesis
      using assms start u0 by (simp add: builder_rep_def GenerateFilter_def offsets_snoc unit_of_snoc)
  next
    case False
    have tmp: "map (\<lambda>i. take ((fb_start b @ [length (fb_keys b)]) ! (i + 1) - (fb_start b @ [length (fb_keys b)]) ! i)
        (drop ((fb_start b @ [length (fb_keys b)]) ! i) (fb_keys b))) [0..<length ks] = ks"
      unfolding keys start by (rule flat_keys) simp
    have len: "length (fb_start b) = length ks" by (simp add: start)
    have "fb_policy b = p" using assms by (simp add: builder_rep_def)
    then have fold: "fold (create_unit (fb_policy b)) [0..<kAllFilterUnitsNumber] (ks, fb_filter_units b) =
        (map norm ks, map (\<lambda>i. unit_of (fs @ [ks]) (int i)) [0..<kAllFilterUnitsNumber])"
      using fold_create_unit [of kAllFilterUnitsNumber "fb_filter_units b" ks] False
      by (simp add: units unit_of_snoc) (simp add: kAllFilterUnitsNumber_def)
    have "GenerateFilter b = b\<lparr>fb_filter_offsets := fb_filter_offsets b @ [of_nat (length (unit_of fs 0))],
        fb_filter_units := map (\<lambda>i. unit_of (fs @ [ks]) (int i)) [0..<kAllFilterUnitsNumber],
        fb_tmp_keys := [], fb_keys := [], fb_start := []\<rparr>"
      unfolding GenerateFilter_def Let_def len tmp fold u0 by (simp add: False)
    then show ?thesis
      using assms by (simp add: builder_rep_def offsets_snoc)
  qed
qed

lemma builder_rep_length: "builder_rep b fs ks \<Longrightarrow> length (fb_filter_offsets b) = length fs"
  by (simp add: builder_rep_def)

text \<open>Starting a block closes filters up to its index, and no key is lost or moved.\<close>

lemma builder_rep_fill:
  "builder_rep b fs ks \<Longrightarrow> \<exists>fs' ks'. builder_rep (fill_filters n b) fs' ks' \<and> length fs' = max n (length fs) \<and>
     (\<forall>m. keys_of fs ks m \<subseteq> keys_of fs' ks' m)"
proof (induction n b arbitrary: fs ks rule: fill_filters.induct)
  case (1 n b)
  have len: "length (fb_filter_offsets b) = length fs" using builder_rep_length [OF "1.prems"] .
  show ?case
  proof (cases "n > length fs")
    case True
    from "1.IH" [OF _ builder_rep_Generate [OF "1.prems"]] True len obtain fs' ks' where
      r: "builder_rep (fill_filters n (GenerateFilter b)) fs' ks'" "length fs' = max n (length (fs @ [ks]))"
      "\<forall>m. keys_of (fs @ [ks]) [] m \<subseteq> keys_of fs' ks' m" by auto
    have "keys_of fs ks m \<subseteq> keys_of (fs @ [ks]) [] m" for m by (auto simp: keys_of_def nth_append)
    then show ?thesis using r True len by (subst fill_filters.simps) (fastforce intro!: exI [of _ fs'] exI [of _ ks'])
  next
    case False
    then show ?thesis using "1.prems" len by (subst fill_filters.simps) auto
  qed
qed

lemma builder_rep_StartBlock:
  assumes "builder_rep b fs ks"
  shows "\<exists>fs' ks'. builder_rep (StartBlock off b) fs' ks' \<and> length fs' = max (unat off div 2048) (length fs) \<and>
     (\<forall>m. keys_of fs ks m \<subseteq> keys_of fs' ks' m)"
proof -
  have "unat (off div kFilterBase) = unat off div 2048" by (simp add: kFilterBase_def kFilterBaseLg_def unat_div)
  then show ?thesis using builder_rep_fill [OF assms, of "unat off div 2048"] by (simp add: StartBlock_def)
qed

lemma builder_rep_ReturnFilters:
  assumes "builder_rep b fs ks" "fs' = (if ks = [] then fs else fs @ [ks])"
  shows "builder_rep (snd (ReturnFilters b)) fs' []" "fst (ReturnFilters b) = units fs'" "keys_of fs ks m \<subseteq> keys_of fs' [] m"
proof -
  show rep: "builder_rep (snd (ReturnFilters b)) fs' []"
    using assms builder_rep_Generate [OF assms(1)] by (cases "ks = []") (simp_all add: ReturnFilters_def builder_rep_def)
  show "fst (ReturnFilters b) = units fs'"
    using rep by (simp add: ReturnFilters_def Let_def builder_rep_def units_def)
  show "keys_of fs ks m \<subseteq> keys_of fs' [] m" by (auto simp: assms(2) keys_of_def nth_append)
qed

lemma length_stored_units_of: "length (stored_units (units fs)) = 6 * (length (unit_of fs 0) + 5)"
  using length_stored_units [of "length (unit_of fs 0)" "units fs"] length_unit_of by (auto simp: list_all_length)

lemma keys_of_finished: "key \<in> keys_of fs [] n \<Longrightarrow> n < length fs \<and> key \<in> set (fs ! n)"
  by (auto simp: keys_of_def split: if_splits)

text \<open>The offsets in the finished block: entry \<open>i\<close> is where filter \<open>i\<close> starts, and the last one the total length.\<close>

definition meta_offsets :: "bytes list list \<Rightarrow> u32 list" where
  "meta_offsets fs = map (\<lambda>i. of_nat (length (unit_of (take i fs) 0))) [0..<Suc (length fs)]"

lemma Finish_meta:
  assumes "builder_rep b fs []"
  shows "fst (FilterBlockBuilder_Finish h b) = concat (map EncodeFixed32 (meta_offsets fs)) @ EncodeFixed64 (bh_offset h) @
    EncodeFixed32 (ucast (bh_size h)) @ EncodeFixed32 2 @ EncodeFixed32 6 @ [11]"
proof -
  have put: "fold (\<lambda>off r. PutFixed32 r off) offs r = r @ concat (map EncodeFixed32 offs)" for offs r
    by (induction offs arbitrary: r) (simp_all add: PutFixed32_def)
  have "fb_filter_units b ! 0 = unit_of fs 0" using assms by (simp add: builder_rep_def kAllFilterUnitsNumber_def)
  then show ?thesis
    using assms
    unfolding FilterBlockBuilder_Finish_def Let_def put
    by (simp add: builder_rep_def meta_offsets_def PutFixed32_def PutFixed64_def
        kLoadFilterUnitsNumber_def kAllFilterUnitsNumber_def kFilterBaseLg_def)
qed

text \<open>A filter is found between its offsets, in every unit.\<close>

lemma unit_slice:
  assumes "n < length fs" "key \<in> set (fs ! n)"
  shows "take (length (unit_of (take (Suc n) fs) 0) - length (unit_of (take n fs) 0))
      (drop (length (unit_of (take n fs) 0)) (unit_of fs i)) = flt (map norm (fs ! n)) i"
proof -
  have "fs = take n fs @ fs ! n # drop (Suc n) fs" using assms(1) by (rule id_take_nth_drop)
  then have "unit_of fs i = unit_of (take n fs @ fs ! n # drop (Suc n) fs) i" by simp
  also have "\<dots> = unit_of (take n fs) i @ flt (map norm (fs ! n)) i @ unit_of (drop (Suc n) fs) i"
    using assms(2) by (auto simp: unit_of_def)
  finally have u: "unit_of fs i = \<dots>" .
  have "length (unit_of (take (Suc n) fs) 0) = length (unit_of (take n fs) 0) + length (flt (map norm (fs ! n)) i)"
    using assms unit_length [of "map norm (fs ! n)" i] by (auto simp: take_Suc_conv_app_nth unit_of_snoc)
  then show ?thesis using u length_unit_of [of "take n fs" i] by simp
qed

text \<open>A reader over the block with \<open>m\<close> units in memory.\<close>

definition reader_rep :: "FilterBlockReader \<Rightarrow> bytes list list \<Rightarrow> u64 \<Rightarrow> nat \<Rightarrow> bool" where
  "reader_rep r fs disk_offset m \<longleftrightarrow> fr_policy r = p \<and> fr_base_lg r = 11 \<and> fr_num r = length fs \<and>
     (\<exists>rest. fr_data r = concat (map EncodeFixed32 (meta_offsets fs)) @ rest) \<and>
     fr_disk_offset r = disk_offset \<and> fr_disk_size r = of_nat (length (unit_of fs 0)) \<and>
     fr_init_units_number r = 2 \<and> fr_all_units_number r = 6 \<and> unat (fr_reload_units_number r) \<le> 6 \<and>
     m \<le> 6 \<and> fr_filter_units r = take m (units fs)"

lemma reader_rep_new:
  assumes "builder_rep b fs []" "bh_size h = of_nat (length (unit_of fs 0))" "length (unit_of fs 0) < 2 ^ 32"
  shows "reader_rep (FilterBlockReader_new p (fst (FilterBlockBuilder_Finish h b)) file mem) fs (bh_offset h) 0"
proof -
  let ?offs = "concat (map EncodeFixed32 (meta_offsets fs))"
  define c where "c = fst (FilterBlockBuilder_Finish h b)"
  have c: "c = ?offs @ EncodeFixed64 (bh_offset h) @ EncodeFixed32 (ucast (bh_size h)) @ EncodeFixed32 2 @ EncodeFixed32 6 @ [11]"
    unfolding c_def by (rule Finish_meta [OF assms(1)])
  have offs: "length ?offs = 4 * length fs + 4"
    by (simp add: length_concat comp_def meta_offsets_def sum_list_triv)
  then have len: "length c = 4 * length fs + 25" by (simp add: c)
  have parts: "drop (length c - 5) c = EncodeFixed32 6 @ [11]" "drop (length c - 9) c = EncodeFixed32 2 @ EncodeFixed32 6 @ [11]"
    "drop (length c - 13) c = EncodeFixed32 (ucast (bh_size h)) @ EncodeFixed32 2 @ EncodeFixed32 6 @ [11]"
    "drop (length c - 21) c = EncodeFixed64 (bh_offset h) @ EncodeFixed32 (ucast (bh_size h)) @ EncodeFixed32 2 @ EncodeFixed32 6 @ [11]"
    "c ! (length c - 1) = 11"
    unfolding len by (simp_all add: c offs nth_append)
  have "(ucast (bh_size h) :: u32) = of_nat (length (unit_of fs 0))"
    using assms(3) by (simp add: assms(2) unsigned_of_nat take_bit_nat_eq_self)
  then show ?thesis
    unfolding c_def [symmetric] reader_rep_def FilterBlockReader_new_def Let_def parts
    using len c by simp
qed

lemma reader_rep_match:
  assumes "reader_rep r fs off m" "fr_init_done r" "length (unit_of fs 0) < 2 ^ 32"
    "unat block_offset div 2048 < length fs" "key' \<in> set (fs ! (unat block_offset div 2048))" "norm key = norm key'"
  shows "reader_KeyMayMatch block_offset key r = Some True"
proof -
  define n where "n = unat block_offset div 2048"
  let ?start = "length (unit_of (take n fs) 0)" and ?limit = "length (unit_of (take (Suc n) fs) 0)"
  have n: "n < length fs" "key' \<in> set (fs ! n)" using assms(4,5) by (simp_all add: n_def)
  have mono: "length (unit_of (take i fs) 0) \<le> length (unit_of (take j fs) 0)" if "i \<le> j" for i j
  proof -
    have "take j fs = take i fs @ drop i (take j fs)" using that by (metis append_take_drop_id min.absorb1 take_take)
    then have "unit_of (take j fs) 0 = unit_of (take i fs @ drop i (take j fs)) 0" by simp
    then show ?thesis by (simp add: unit_of_def)
  qed
  have le: "?start \<le> ?limit" "?limit \<le> length (unit_of fs 0)" using mono [of n "Suc n"] mono [of "Suc n" "length fs"] n by simp_all
  obtain rest where d: "fr_data r = concat (map EncodeFixed32 (meta_offsets fs)) @ rest" using assms(1) by (auto simp: reader_rep_def)
  have at: "DecodeFixed32 (drop (i * 4) (fr_data r)) = of_nat (length (unit_of (take i fs) 0))" if "i \<le> length fs" for i
    using fixed32s_at [of i "meta_offsets fs" rest] that by (simp add: d meta_offsets_def nth_append del: upt_Suc drop_append)
  have words: "DecodeFixed32 (drop (n * 4) (fr_data r)) = of_nat ?start" "DecodeFixed32 (drop (n * 4 + 4) (fr_data r)) = of_nat ?limit"
    using at [of n] at [of "Suc n"] n(1) by (simp_all add: add.commute)
  have unats: "unat (of_nat ?start :: u32) = ?start" "unat (of_nat ?limit :: u32) = ?limit"
    "unat (of_nat (length (unit_of fs 0)) :: u32) = length (unit_of fs 0)"
    using le assms(3) by (simp_all add: unat_of_nat_u32)
  have index: "unat (drop_bit 11 block_offset) = n" by (simp add: n_def drop_bit_eq_div unat_div)
  have "fp_KeyMayMatch p key (take (?limit - ?start) (drop ?start (unit_of fs i))) i" for i
    unfolding unit_slice [OF n] using n(2) assms(6) by (intro unit_match) force
  then have "list_all (\<lambda>i. fp_KeyMayMatch p key (take (?limit - ?start) (drop ?start (fr_filter_units r ! i))) (int i))
      [0..<length (fr_filter_units r)]"
    using assms(1) by (simp add: list_all_iff reader_rep_def)
  then show ?thesis
    using assms(1,2) le n(1) index
    by (simp add: reader_KeyMayMatch_def Let_def reader_rep_def words FilterUnitsNumber_def unats word_le_nat_alt)
qed

end

section \<open>Loading and evicting units\<close>

definition units_on_disk :: "bytes \<Rightarrow> u64 \<Rightarrow> bytes list \<Rightarrow> bool" where
  "units_on_disk file disk_offset us \<longleftrightarrow> (\<exists>pre post. file = pre @ stored_units us @ post \<and> disk_offset = of_nat (length pre)) \<and>
     length file < 2 ^ 64 \<and> list_all (\<lambda>u. length u = length (hd us) \<and> length u < 2 ^ 32) us"

lemma evict_until_eq: "evict_until n r = (OK, r\<lparr>fr_filter_units := take n (fr_filter_units r)\<rparr>)"
proof (induction n r rule: evict_until.induct)
  case (1 n r)
  show ?case
  proof (cases "length (fr_filter_units r) > n")
    case True
    then have e: "EvictFilterInternal r = (OK, r\<lparr>fr_filter_units := butlast (fr_filter_units r)\<rparr>)"
      by (auto simp: EvictFilterInternal_def)
    then show ?thesis
      using "1.IH" [OF True e [symmetric]] True
      by (subst evict_until.simps) (simp add: butlast_conv_take min_def)
  next
    case False
    then show ?thesis by (subst evict_until.simps) simp
  qed
qed

text \<open>What the operations of a reader do to the units it holds: it always holds the first few.\<close>

datatype reader_op = InitLoad | Load | Evict | Clean | GoBack

fun reader_step :: "Compression \<Rightarrow> reader_op \<Rightarrow> FilterBlockReader \<Rightarrow> (Status \<times> FilterBlockReader) option" where
  "reader_step lib InitLoad r = InitLoadFilter lib r"
| "reader_step lib Load r = LoadFilter lib r"
| "reader_step lib Evict r = Some (EvictFilter r)"
| "reader_step lib Clean r = Some (CleanFilter r)"
| "reader_step lib GoBack r = reader_GoBackToInitFilter lib None r"

fun reader_run :: "Compression \<Rightarrow> reader_op list \<Rightarrow> FilterBlockReader \<Rightarrow> FilterBlockReader option" where
  "reader_run lib [] r = Some r"
| "reader_run lib (x # ops) r = (case reader_step lib x r of None \<Rightarrow> None | Some (s, r) \<Rightarrow> reader_run lib ops r)"

context random_access_file
begin

lemma LoadFilterInternal_next:
  assumes "fr_file r = read f" "file_ok f" "units_on_disk (contents f) (fr_disk_offset r) us"
    "fr_disk_size r = of_nat (length (hd us))" "fr_filter_units r = take m us" "m < length us" "length us = unat (fr_all_units_number r)"
  shows "LoadFilterInternal lib r = Some (OK, r\<lparr>fr_filter_units := take (Suc m) us\<rparr>)"
proof -
  let ?n = "length (hd us)"
  obtain pre post where c: "contents f = pre @ stored_units us @ post" and off: "fr_disk_offset r = of_nat (length pre)"
    and len: "length (contents f) < 2 ^ 64" and us: "list_all (\<lambda>u. length u = ?n) us" "?n < 2 ^ 32"
    using assms(3,6) by (cases us) (auto simp: units_on_disk_def list_all_iff)
  have "us = take m us @ us ! m # drop (Suc m) us" using assms(6) by (rule id_take_nth_drop)
  then have "stored_units us = stored_units (take m us @ us ! m # drop (Suc m) us)" by simp
  then have split: "contents f = (pre @ stored_units (take m us)) @ stored_block (us ! m) kNoCompression @ (stored_units (drop (Suc m) us) @ post)"
    by (simp add: c stored_units_def)
  have take: "length (stored_units (take m us)) = m * (?n + 5)"
    using length_stored_units [of ?n "take m us"] us assms(6) by (auto simp: list_all_iff dest: in_set_takeD)
  have um: "length (us ! m) = ?n" using us assms(6) by (simp add: list_all_length)
  have "(ucast (of_nat ?n :: u32) :: u64) = of_nat ?n"
    using us(2) by (simp add: unsigned_of_nat take_bit_nat_eq_self)
  moreover define h where "h = \<lparr>bh_offset = fr_disk_offset r + (ucast (fr_disk_size r) + of_nat kBlockTrailerSize) * of_nat m,
      bh_size = ucast (fr_disk_size r)\<rparr>"
  ultimately have "bh_offset h = of_nat (length (pre @ stored_units (take m us)))" "bh_size h = of_nat (length (us ! m))"
    by (simp_all add: off take assms(4) um kBlockTrailerSize_def algebra_simps)
  from ReadBlock_stored [OF assms(2) split this, of lib "us ! m" True] obtain bc where
    bc: "ReadBlock lib (read f) True h = Some (OK, bc)" "bc_data bc = us ! m" using len by (auto simp: block_decodes_def)
  have "m < 2 ^ 32" "length us < 2 ^ 32" using assms(6,7) unsigned_less [of "fr_all_units_number r", where 'a = nat] by simp_all
  then have "\<not> (of_nat m :: u64) \<ge> ucast (fr_all_units_number r)"
    using assms(6,7) by (simp add: word_le_nat_alt unat_of_nat_u64)
  moreover have lm: "length (fr_filter_units r) = m" using assms(5,6) by simp
  ultimately show ?thesis
    using assms(1,5,6) bc unfolding LoadFilterInternal_def Let_def lm h_def [symmetric] by (simp add: take_Suc_conv_app_nth)
qed

lemma load_until_ok:
  assumes "fr_file r = read f" "file_ok f" "units_on_disk (contents f) (fr_disk_offset r) us"
    "fr_disk_size r = of_nat (length (hd us))" "length us = unat (fr_all_units_number r)" "n \<le> length us"
  shows "fr_filter_units r = take m us \<Longrightarrow> m \<le> length us \<Longrightarrow>
    load_until lib n r = Some (OK, r\<lparr>fr_filter_units := take (max m n) us\<rparr>)"
  using assms(1-5)
proof (induction "n - m" arbitrary: m r)
  case 0
  then show ?case by (subst load_until.simps) simp
next
  case (Suc k)
  then have m: "m < n" by simp
  have "LoadFilterInternal lib r = Some (OK, r\<lparr>fr_filter_units := take (Suc m) us\<rparr>)"
    using Suc.prems m assms(6) by (intro LoadFilterInternal_next) simp_all
  moreover have "load_until lib n (r\<lparr>fr_filter_units := take (Suc m) us\<rparr>) = Some (OK, r\<lparr>fr_filter_units := take (max (Suc m) n) us\<rparr>)"
    using Suc.hyps(1) [of "Suc m" "r\<lparr>fr_filter_units := take (Suc m) us\<rparr>"] Suc.hyps(2) Suc.prems m assms(6) by simp
  moreover have "max (Suc m) n = max m n" using m by simp
  ultimately show ?case using m Suc.prems by (subst load_until.simps) simp
qed

end

text \<open>The calls a table builder makes: the data blocks with their offsets, and the keys of each.\<close>

definition filter_blocks :: "(u64 \<times> bytes list) list \<Rightarrow> FilterBlockBuilder \<Rightarrow> FilterBlockBuilder" where
  "filter_blocks blocks b = fold (\<lambda>(off, keys) b. fold AddKey keys (StartBlock off b)) blocks b"

context unit_policy
begin

lemma builder_rep_AddKeys: "builder_rep b fs ks \<Longrightarrow> builder_rep (fold AddKey keys b) fs (ks @ keys)"
proof (induction keys arbitrary: b ks)
  case (Cons k keys)
  then show ?case using Cons.IH [OF builder_rep_AddKey [OF Cons.prems]] by simp
qed simp

lemma filter_blocks_rep:
  "builder_rep b fs ks \<Longrightarrow> sorted (length fs * 2048 # map (\<lambda>(off, keys). unat off) blocks) \<Longrightarrow>
   \<exists>fs' ks'. builder_rep (filter_blocks blocks b) fs' ks' \<and> (\<forall>m. keys_of fs ks m \<subseteq> keys_of fs' ks' m) \<and>
     (\<forall>(off, keys)\<in>set blocks. set keys \<subseteq> keys_of fs' ks' (unat off div 2048))"
proof (induction blocks arbitrary: b fs ks)
  case Nil
  then show ?case by (auto simp: filter_blocks_def)
next
  case (Cons x blocks)
  obtain off keys where x: "x = (off, keys)" by fastforce
  have "length fs * 2048 div 2048 \<le> unat off div 2048" using Cons.prems(2) by (intro div_le_mono) (simp add: x)
  then obtain fs1 ks1 where s: "builder_rep (StartBlock off b) fs1 ks1" "length fs1 = unat off div 2048"
    "\<forall>m. keys_of fs ks m \<subseteq> keys_of fs1 ks1 m" using builder_rep_StartBlock [OF Cons.prems(1), of off] by (auto simp: max_def)
  have "sorted (length fs1 * 2048 # map (\<lambda>(off, keys). unat off) blocks)"
    using Cons.prems(2) by (auto simp: x s(2) intro: order.trans [OF div_times_less_eq_dividend])
  from Cons.IH [OF builder_rep_AddKeys [OF s(1), of keys] this] obtain fs' ks' where
    r: "builder_rep (filter_blocks blocks (fold AddKey keys (StartBlock off b))) fs' ks'"
    "\<forall>m. keys_of fs1 (ks1 @ keys) m \<subseteq> keys_of fs' ks' m"
    "\<forall>(off, keys)\<in>set blocks. set keys \<subseteq> keys_of fs' ks' (unat off div 2048)" by blast
  have "keys_of fs1 ks1 m \<subseteq> keys_of fs1 (ks1 @ keys) m" for m by (auto simp: keys_of_def)
  moreover have "set keys \<subseteq> keys_of fs1 (ks1 @ keys) (unat off div 2048)" by (auto simp: keys_of_def s(2))
  ultimately show ?case
    using r s(3) by (intro exI [of _ fs'] exI [of _ ks']) (fastforce simp: filter_blocks_def x)
qed

end

text \<open>Filters of a policy in a file.\<close>

locale filter_file = unit_policy p norm flt + random_access_file read file_ok contents
  for p norm flt and read :: "'f \<Rightarrow> RandomAccessFile" and file_ok contents
begin

definition reader_at :: "'f \<Rightarrow> FilterBlockReader \<Rightarrow> bytes list list \<Rightarrow> nat \<Rightarrow> bool" where
  "reader_at f r fs m \<longleftrightarrow> reader_rep r fs (fr_disk_offset r) m \<and> fr_file r = read f \<and> file_ok f \<and>
     units_on_disk (contents f) (fr_disk_offset r) (units fs)"

lemma reader_at_load:
  assumes "reader_at f r fs m" "n \<le> 6"
  shows "load_until lib n r = Some (OK, r\<lparr>fr_filter_units := take (max m n) (units fs)\<rparr>)"
  using assms by (intro load_until_ok [where f = f and us = "units fs"]) (simp_all add: reader_at_def reader_rep_def)

lemma reader_at_units: "reader_at f r fs m \<Longrightarrow> k \<le> 6 \<Longrightarrow> reader_at f (r\<lparr>fr_filter_units := take k (units fs)\<rparr>) fs k"
  by (simp add: reader_at_def reader_rep_def)

lemma reader_at_done: "reader_at f (r\<lparr>fr_init_done := d\<rparr>) fs m \<longleftrightarrow> reader_at f r fs m"
  by (simp add: reader_at_def reader_rep_def)

lemma reader_at_reload: "reader_at f r fs m \<Longrightarrow> k \<le> 6 \<Longrightarrow> reader_at f (r\<lparr>fr_reload_units_number := of_nat k\<rparr>) fs m"
  by (simp add: reader_at_def reader_rep_def unat_of_nat_u32)

lemma reader_step_ok:
  assumes "reader_at f r fs m" "x = InitLoad \<or> fr_init_done r"
  shows "\<exists>s r' m'. reader_step lib x r = Some (s, r') \<and> reader_at f r' fs m' \<and> fr_init_done r'"
proof (cases x)
  case InitLoad
  let ?r = "r\<lparr>fr_init_done := False\<rparr>"
  have "reader_at f ?r fs m" "m \<le> 6" using assms(1) by (simp_all add: reader_at_done reader_at_def reader_rep_def)
  moreover have "unat (fr_init_units_number ?r) = 2" using assms(1) by (simp add: reader_at_def reader_rep_def)
  moreover have "reader_at f (r\<lparr>fr_filter_units := take (max m 2) (units fs), fr_init_done := True\<rparr>) fs (max m 2)"
    using reader_at_units [OF assms(1), of "max m 2"] calculation(2) by (simp only: reader_at_done)
  ultimately show ?thesis
    using InitLoad reader_at_load [of f ?r fs m 2 lib] by (auto simp: InitLoadFilter_def)
next
  case Load
  have r: "fr_file r = read f" "file_ok f" "units_on_disk (contents f) (fr_disk_offset r) (units fs)" "m \<le> 6"
    "fr_disk_size r = of_nat (length (hd (units fs)))" "fr_filter_units r = take m (units fs)" "fr_all_units_number r = 6"
    using assms(1) by (simp_all add: reader_at_def reader_rep_def)
  show ?thesis
  proof (cases "m < 6")
    case True
    then show ?thesis
      using Load LoadFilterInternal_next [OF r(1-3,5,6), of lib] r(7) reader_at_units [OF assms(1), of "Suc m"] assms(2)
      by (auto simp: LoadFilter_def)
  next
    case False
    then have "length (fr_filter_units r) = 6" using r(4,6) by simp
    then have "LoadFilterInternal lib r = Some (Corruption ''all filter units were loaded'' [], r)"
      using r(7) by (simp add: LoadFilterInternal_def Let_def)
    then show ?thesis using Load assms by (auto simp: LoadFilter_def)
  qed
next
  case Evict
  have "butlast (take m (units fs)) = take (m - 1) (units fs)" if "m \<le> 6"
    using that by (simp add: butlast_take)
  moreover have m: "m \<le> 6" "m - 1 \<le> 6" "fr_filter_units r = take m (units fs)"
    using assms(1) by (auto simp: reader_at_def reader_rep_def)
  ultimately show ?thesis
    using Evict assms reader_at_units [OF assms(1) m(2)] by (auto simp: EvictFilter_def EvictFilterInternal_def)
next
  case Clean
  have m: "m \<le> 6" "fr_filter_units r = take m (units fs)" using assms(1) by (simp_all add: reader_at_def reader_rep_def)
  then have "length (fr_filter_units r) = m" by simp
  then have "reader_at f (r\<lparr>fr_reload_units_number := of_nat (length (fr_filter_units r)), fr_filter_units := take 0 (units fs)\<rparr>) fs 0"
    using reader_at_units [OF reader_at_reload [OF assms(1)], of m 0] m(1) by simp
  then show ?thesis using Clean assms(2) by (auto simp: CleanFilter_def evict_until_eq)
next
  case GoBack
  let ?n = "unat (fr_reload_units_number r)"
  have m: "m \<le> 6" "?n \<le> 6" using assms(1) by (simp_all add: reader_at_def reader_rep_def)
  then have "load_until lib ?n r = Some (OK, r\<lparr>fr_filter_units := take (max m ?n) (units fs)\<rparr>)"
    using reader_at_load [OF assms(1)] by simp
  moreover have "take ?n (take (max m ?n) (units fs)) = take ?n (units fs)" by (simp add: min_def)
  ultimately show ?thesis
    using GoBack assms(2) m reader_at_units [OF assms(1) m(2)]
    by (auto simp: reader_GoBackToInitFilter_def UpdateFile_def Let_def evict_until_eq kAllFilterUnitsNumber_def)
qed

lemma reader_run_ok:
  "reader_at f r fs m \<Longrightarrow> fr_init_done r \<Longrightarrow> \<exists>r' m'. reader_run lib ops r = Some r' \<and> reader_at f r' fs m' \<and> fr_init_done r'"
proof (induction ops arbitrary: r m)
  case (Cons x ops)
  then obtain s r1 m1 where "reader_step lib x r = Some (s, r1)" "reader_at f r1 fs m1" "fr_init_done r1"
    using reader_step_ok [of f r fs m x lib] by blast
  then show ?case using Cons.IH by auto
qed auto

text \<open>From the builder to any state of the reader.\<close>

lemma reader_run_match:
  assumes "builder_rep b fs []" "file_ok f" "units_on_disk (contents f) (bh_offset h) (units fs)"
    "bh_size h = of_nat (length (unit_of fs 0))"
    "key' \<in> keys_of fs [] (unat off div 2048)" "norm key = norm key'"
  shows "\<exists>r m. reader_run lib (InitLoad # ops) (FilterBlockReader_new p (fst (FilterBlockBuilder_Finish h b)) (read f) mem) = Some r \<and>
    fr_filter_units r = take m (units fs) \<and> reader_KeyMayMatch off key r = Some True"
proof -
  let ?r = "FilterBlockReader_new p (fst (FilterBlockBuilder_Finish h b)) (read f) mem"
  have len: "length (unit_of fs 0) < 2 ^ 32"
    using assms(3) by (auto simp: units_on_disk_def list_all_length dest: spec [of _ 0])
  have "reader_rep ?r fs (bh_offset h) 0" by (rule reader_rep_new [OF assms(1,4) len])
  moreover have "fr_file ?r = read f" by (simp add: FilterBlockReader_new_def Let_def)
  moreover have "fr_disk_offset ?r = bh_offset h" using calculation(1) by (simp add: reader_rep_def)
  ultimately have "reader_at f ?r fs 0" using assms(2,3) by (simp add: reader_at_def)
  from reader_step_ok [OF this, of InitLoad lib] obtain s r1 m1 where
    r1: "reader_step lib InitLoad ?r = Some (s, r1)" "reader_at f r1 fs m1" "fr_init_done r1" by auto
  from reader_run_ok [OF r1(2,3)] obtain r m where
    r: "reader_run lib ops r1 = Some r" "reader_at f r fs m" "fr_init_done r" by blast
  have "reader_KeyMayMatch off key r = Some True"
    using r(2,3) keys_of_finished [OF assms(5)] assms(6) by (intro reader_rep_match [OF _ _ len]) (auto simp: reader_at_def)
  moreover have "fr_filter_units r = take m (units fs)" using r(2) by (simp add: reader_at_def reader_rep_def)
  ultimately show ?thesis using r1(1) r(1) by auto
qed

end

interpretation bloom_file: filter_file "InternalFilterPolicy (bloom_policy n)" ExtractUserKey
  "\<lambda>keys i. CreateFilter (NewBloomFilterPolicy n) keys [] i" RandomAccessFileImpl_Read file_state_ok file_contents
  by unfold_locales

section \<open>Properties\<close>

text \<open>
  C12. The filter units have no false negatives at any time. Let a builder with the Bloom policy for
  internal keys be given data blocks at ascending offsets, and let its units lie in a file as the
  table builder writes them. After the initial load and any sequence of loads, evictions, releases
  and reloads, every one of which returns, the reader holds the first few units as they were built,
  and answers that a key may be in a data block whenever the block holds a key with the same user
  key, whatever the sequence numbers.
\<close>

theorem filter_block_no_false_negatives:
  assumes "sorted (map (\<lambda>(off, keys). unat off) blocks)" "(off, keys) \<in> set blocks" "key' \<in> set keys"
    "ExtractUserKey key = ExtractUserKey key'"
    "ReturnFilters (filter_blocks blocks (FilterBlockBuilder_new (InternalFilterPolicy (bloom_policy n)))) = (units, b)"
    "file_state_ok f" "file_contents f = pre @ stored_units units @ post" "length (file_contents f) < 2 ^ 64"
    "length (hd units) < 2 ^ 32"
    "h = \<lparr>bh_offset = of_nat (length pre), bh_size = of_nat (length (hd units))\<rparr>"
  shows "\<exists>r m. reader_run lib (InitLoad # ops) (FilterBlockReader_new (InternalFilterPolicy (bloom_policy n))
      (fst (FilterBlockBuilder_Finish h b)) (RandomAccessFileImpl_Read f) mem) = Some r \<and>
    fr_filter_units r = take m units \<and> reader_KeyMayMatch off key r = Some True"
proof -
  from internal_bloom.filter_blocks_rep [OF internal_bloom.builder_rep_new, of blocks n] assms(1) obtain fs ks where
    rep: "internal_bloom.builder_rep n (filter_blocks blocks (FilterBlockBuilder_new (InternalFilterPolicy (bloom_policy n)))) fs ks"
    "\<forall>(off, keys)\<in>set blocks. set keys \<subseteq> keys_of fs ks (unat off div 2048)" by auto
  obtain fs' where "fs' = (if ks = [] then fs else fs @ [ks])" by blast
  from internal_bloom.builder_rep_ReturnFilters [OF rep(1) this] assms(5) have
    fin: "internal_bloom.builder_rep n b fs' []" "units = internal_bloom.units n fs'" "\<And>m. keys_of fs ks m \<subseteq> keys_of fs' [] m" by auto
  have hd: "hd units = internal_bloom.unit_of n fs' 0" by (simp add: fin(2))
  have key: "key' \<in> keys_of fs' [] (unat off div 2048)" using rep(2) fin(3) assms(2,3) by blast
  have "length u = length (hd units)" if "u \<in> set units" for u
    using that internal_bloom.length_unit_of unfolding hd by (auto simp: fin(2) internal_bloom.units_def)
  then have "units_on_disk (file_contents f) (bh_offset h) units"
    using assms(7-9) by (auto simp: units_on_disk_def list_all_iff assms(10))
  then show ?thesis
    using bloom_file.reader_run_match [OF fin(1) assms(6), of h] key assms(4,10) hd fin(2) by simp
qed

theorem filter_block_no_false_negatives_witness:
  "\<forall>lib mem. \<exists>blocks units b f r. blocks = [(0, [[98, 1, 0, 0, 0, 0, 0, 0, 0]])] \<and>
    ReturnFilters (filter_blocks blocks (FilterBlockBuilder_new (InternalFilterPolicy (bloom_policy 1)))) = (units, b) \<and>
    file_contents f = stored_units units \<and>
    reader_run lib [InitLoad, Evict, Load] (FilterBlockReader_new (InternalFilterPolicy (bloom_policy 1))
      (fst (FilterBlockBuilder_Finish \<lparr>bh_offset = 0, bh_size = of_nat (length (hd units))\<rparr> b)) (RandomAccessFileImpl_Read f) mem) = Some r \<and>
    reader_KeyMayMatch 0 [98, 1, 7, 0, 0, 0, 0, 0, 0] r = Some True"
proof (intro allI)
  fix lib mem
  let ?blocks = "[(0, [[98, 1, 0, 0, 0, 0, 0, 0, 0]])] :: (u64 \<times> bytes list) list"
  let ?new = "FilterBlockBuilder_new (InternalFilterPolicy (bloom_policy 1))"
  obtain units b where ub: "ReturnFilters (filter_blocks ?blocks ?new) = (units, b)" by fastforce
  have "internal_bloom.builder_rep 1 (filter_blocks ?blocks ?new) [] [[98, 1, 0, 0, 0, 0, 0, 0, 0]]"
    using internal_bloom.builder_rep_AddKey [OF internal_bloom.builder_rep_new]
    by (simp add: filter_blocks_def StartBlock_def fill_filters.simps)
  from internal_bloom.builder_rep_ReturnFilters(2) [OF this refl] ub
  have units: "units = internal_bloom.units 1 [[[98, 1, 0, 0, 0, 0, 0, 0, 0]]]" by simp
  have len: "length (hd units) = 9" "length (stored_units units) = 84"
    by (simp_all add: units internal_bloom.length_stored_units_of internal_bloom.unit_of_def CreateFilter_char(1)
        bp_k_NewBloomFilterPolicy) (simp_all add: bloom_bytes_def NewBloomFilterPolicy_def)
  obtain f where f: "file_state_ok f" "file_contents f = stored_units units"
    using mem_write.append [OF file_state_ok_new(1), of "stored_units units"] file_state_ok_new(2) by auto
  have "ExtractUserKey [98, 1, 7, 0, 0, 0, 0, 0, 0] = ExtractUserKey [98, 1, 0, 0, 0, 0, 0, 0, 0]" by code_simp
  moreover have "sorted (map (\<lambda>(off, keys). unat off) ?blocks)" by simp
  ultimately show "\<exists>blocks units b f r. blocks = ?blocks \<and> ReturnFilters (filter_blocks blocks ?new) = (units, b) \<and>
    file_contents f = stored_units units \<and>
    reader_run lib [InitLoad, Evict, Load] (FilterBlockReader_new (InternalFilterPolicy (bloom_policy 1))
      (fst (FilterBlockBuilder_Finish \<lparr>bh_offset = 0, bh_size = of_nat (length (hd units))\<rparr> b)) (RandomAccessFileImpl_Read f) mem) = Some r \<and>
    reader_KeyMayMatch 0 [98, 1, 7, 0, 0, 0, 0, 0, 0] r = Some True"
    using filter_block_no_false_negatives [of ?blocks 0 _ "[98, 1, 0, 0, 0, 0, 0, 0, 0]" "[98, 1, 7, 0, 0, 0, 0, 0, 0]" 1 units b f "[]" "[]"
        "\<lparr>bh_offset = 0, bh_size = of_nat (length (hd units))\<rparr>" lib "[Evict, Load]" mem] ub f len
    by auto
qed

end
