(* ===== verification/TableBuilder.thy ===== *)
theory TableBuilder
  imports FilterBlock Logging
begin

text \<open>
  \<open>table/table_builder.cc\<close>: building a table file from sorted keys. A table is a sequence of data
  blocks, the filter units, the metaindex block, the index block and the footer.
\<close>

section \<open>Options and state\<close>

text \<open>The fields of \<open>Options\<close> that tables use; \<open>op_compressor\<close> are the libraries behind \<open>port\<close>.\<close>

record Options =
  op_comparator :: Comparator
  op_paranoid_checks :: bool
  op_block_size :: nat
  op_block_restart_interval :: nat
  op_compression :: CompressionType
  op_filter_policy :: "FilterPolicy option"
  op_compressor :: Compression

record 'f TableRep =
  tb_options :: Options
  tb_file :: 'f
  tb_offset :: u64
  tb_status :: Status
  tb_data_block :: BlockBuilder
  tb_index_block :: BlockBuilder
  tb_last_key :: bytes
  tb_num_entries :: nat
  tb_closed :: bool
  tb_filter_block :: "FilterBlockBuilder option"
  tb_pending_index_entry :: bool
  tb_pending_handle :: BlockHandle

definition Rep_new :: "Options \<Rightarrow> 'f \<Rightarrow> 'f TableRep" where
  "Rep_new opt f =
     \<lparr>tb_options = opt, tb_file = f, tb_offset = 0, tb_status = OK,
      tb_data_block = BlockBuilder_new (op_block_restart_interval opt), tb_index_block = BlockBuilder_new 1,
      tb_last_key = [], tb_num_entries = 0, tb_closed = False,
      tb_filter_block = (if kAllFilterUnitsNumber \<le> 0 then None else map_option FilterBlockBuilder_new (op_filter_policy opt)),
      tb_pending_index_entry = False, tb_pending_handle = BlockHandle_new\<rparr>"

definition TableBuilder_new :: "Options \<Rightarrow> 'f \<Rightarrow> 'f TableRep" where
  "TableBuilder_new opt f =
     (let r = Rep_new opt f in r\<lparr>tb_filter_block := map_option (StartBlock 0) (tb_filter_block r)\<rparr>)"

text \<open>
  \<open>ChangeOptions\<close>: the caller's comparator is compared by address, here \<open>same_comparator\<close>; the block
  builders refer to the options and see the new restart interval.
\<close>

definition ChangeOptions :: "Options \<Rightarrow> bool \<Rightarrow> 'f TableRep \<Rightarrow> Status \<times> 'f TableRep" where
  "ChangeOptions opt same_comparator r =
     (if \<not> same_comparator then (InvalidArgument ''changing comparator while building table'' [], r)
      else (OK, r\<lparr>tb_options := opt,
             tb_data_block := (tb_data_block r)\<lparr>bb_restart_interval := op_block_restart_interval opt\<rparr>,
             tb_index_block := (tb_index_block r)\<lparr>bb_restart_interval := 1\<rparr>\<rparr>))"

section \<open>Writing blocks\<close>

definition block_trailer :: "bytes \<Rightarrow> CompressionType \<Rightarrow> bytes" where
  "block_trailer contents t =
     (let crc = Value contents; crc = Extend crc [compression_code t]
      in compression_code t # EncodeFixed32 (Mask crc))"

definition WriteRawBlock ::
  "'f WritableFile \<Rightarrow> bytes \<Rightarrow> CompressionType \<Rightarrow> 'f TableRep \<Rightarrow> BlockHandle \<times> 'f TableRep" where
  "WriteRawBlock ops block_contents t r =
     (let handle = \<lparr>bh_offset = tb_offset r, bh_size = of_nat (length block_contents)\<rparr>;
          (s, f) = wf_Append ops block_contents (tb_file r);
          r = r\<lparr>tb_status := s, tb_file := f\<rparr>
      in if \<not> ok s then (handle, r)
         else
           let (s, f) = wf_Append ops (block_trailer block_contents t) (tb_file r);
               r = r\<lparr>tb_status := s, tb_file := f\<rparr>
           in if \<not> ok s then (handle, r)
              else (handle, r\<lparr>tb_offset := tb_offset r + of_nat (length block_contents + kBlockTrailerSize)\<rparr>))"

text \<open>
  The loop over the filters writes each of them with its trailer, as above; a status that is not OK
  does not end it.
\<close>

definition WriteRawFilters ::
  "'f WritableFile \<Rightarrow> bytes list \<Rightarrow> CompressionType \<Rightarrow> 'f TableRep \<Rightarrow> BlockHandle \<times> 'f TableRep" where
  "WriteRawFilters ops filters t r =
     (\<lparr>bh_offset = tb_offset r, bh_size = of_nat (length (filters ! 0))\<rparr>,
      fold (\<lambda>flt r. snd (WriteRawBlock ops flt t r)) filters r)"

definition compress_block :: "Compressor \<Rightarrow> CompressionType \<Rightarrow> bytes \<Rightarrow> bytes \<times> CompressionType" where
  "compress_block c t raw =
     (case co_compress c raw of
        Some compressed \<Rightarrow>
          if length compressed < length raw - length raw div 8 then (compressed, t) else (raw, kNoCompression)
      | None \<Rightarrow> (raw, kNoCompression))"

definition choose_contents :: "Options \<Rightarrow> bytes \<Rightarrow> bytes \<times> CompressionType" where
  "choose_contents opt raw =
     (case op_compression opt of
        kNoCompression \<Rightarrow> (raw, kNoCompression)
      | kSnappyCompression \<Rightarrow> compress_block (snappy (op_compressor opt)) kSnappyCompression raw
      | kZstdCompression \<Rightarrow> compress_block (zstd (op_compressor opt)) kZstdCompression raw)"

text \<open>The block builder is one of the state or a local one: it is passed in and returned reset.\<close>

definition WriteBlock ::
  "'f WritableFile \<Rightarrow> BlockBuilder \<Rightarrow> 'f TableRep \<Rightarrow> BlockBuilder \<times> BlockHandle \<times> 'f TableRep" where
  "WriteBlock ops block r =
     (let (raw, block) = BlockBuilder_Finish block;
          (contents, t) = choose_contents (tb_options r) raw;
          (handle, r) = WriteRawBlock ops contents t r
      in (BlockBuilder_Reset block, handle, r))"

section \<open>Adding and finishing\<close>

definition Flush :: "'f WritableFile \<Rightarrow> 'f TableRep \<Rightarrow> 'f TableRep" where
  "Flush ops r =
     (if \<not> ok (tb_status r) then r
      else if bb_buffer (tb_data_block r) = [] then r
      else
        let (block, handle, r) = WriteBlock ops (tb_data_block r) r;
            r = r\<lparr>tb_data_block := block, tb_pending_handle := handle\<rparr>;
            r = (if ok (tb_status r) then
                   let (s, f) = wf_Flush ops (tb_file r)
                   in r\<lparr>tb_pending_index_entry := True, tb_status := s, tb_file := f\<rparr>
                 else r)
        in r\<lparr>tb_filter_block := map_option (StartBlock (tb_offset r)) (tb_filter_block r)\<rparr>)"

definition add_pending_index :: "bytes \<Rightarrow> 'f TableRep \<Rightarrow> 'f TableRep" where
  "add_pending_index last_key r =
     r\<lparr>tb_last_key := last_key,
       tb_index_block := BlockBuilder_Add last_key (BlockHandle_EncodeTo (tb_pending_handle r) []) (tb_index_block r),
       tb_pending_index_entry := False\<rparr>"

definition TableBuilder_Add :: "'f WritableFile \<Rightarrow> bytes \<Rightarrow> bytes \<Rightarrow> 'f TableRep \<Rightarrow> 'f TableRep" where
  "TableBuilder_Add ops key val r =
     (if \<not> ok (tb_status r) then r
      else
        let r = (if tb_pending_index_entry r
                 then add_pending_index (FindShortestSeparator (op_comparator (tb_options r)) (tb_last_key r) key) r
                 else r);
            r = r\<lparr>tb_filter_block := map_option (AddKey key) (tb_filter_block r), tb_last_key := key,
                  tb_num_entries := tb_num_entries r + 1, tb_data_block := BlockBuilder_Add key val (tb_data_block r)\<rparr>
        in if CurrentSizeEstimate (tb_data_block r) \<ge> op_block_size (tb_options r) then Flush ops r else r)"

definition chars :: "string \<Rightarrow> bytes" where
  "chars s = map (\<lambda>c. of_nat (of_char c)) s"

definition kv_number_key :: bytes where
  "kv_number_key = chars ''leveldb.kv.number''"

definition filter_key :: "FilterPolicy \<Rightarrow> bytes" where
  "filter_key policy = chars ''filter.'' @ fp_Name policy"

text \<open>The entries of the metaindex block, in the order of the table's comparator.\<close>

definition meta_entries :: "'f TableRep \<Rightarrow> bytes \<Rightarrow> (bytes \<times> bytes) list" where
  "meta_entries r filter_block_meta =
     (let kv = (kv_number_key, chars (decimal (tb_num_entries r)))
      in case tb_filter_block r of
           None \<Rightarrow> [kv]
         | Some b \<Rightarrow>
             let flt = (filter_key (the (op_filter_policy (tb_options r))), filter_block_meta)
             in if Compare (op_comparator (tb_options r)) (fst flt) (fst kv) < 0 then [flt, kv] else [kv, flt])"

definition write_filters :: "'f WritableFile \<Rightarrow> 'f TableRep \<Rightarrow> bytes \<times> 'f TableRep" where
  "write_filters ops r =
     (case tb_filter_block r of
        None \<Rightarrow> ([], r)
      | Some b \<Rightarrow>
          if \<not> ok (tb_status r) then ([], r)
          else
            let (filters, b) = ReturnFilters b;
                (handle, r) = WriteRawFilters ops filters kNoCompression r;
                (meta, b) = FilterBlockBuilder_Finish handle b
            in (meta, r\<lparr>tb_filter_block := Some b\<rparr>))"

definition write_metaindex :: "'f WritableFile \<Rightarrow> bytes \<Rightarrow> 'f TableRep \<Rightarrow> BlockHandle \<times> 'f TableRep" where
  "write_metaindex ops filter_block_meta r =
     (if \<not> ok (tb_status r) then (BlockHandle_new, r)
      else
        let meta_index_block = builder_adds (meta_entries r filter_block_meta)
              (BlockBuilder_new (op_block_restart_interval (tb_options r)));
            (_, handle, r) = WriteBlock ops meta_index_block r
        in (handle, r))"

definition write_index :: "'f WritableFile \<Rightarrow> 'f TableRep \<Rightarrow> BlockHandle \<times> 'f TableRep" where
  "write_index ops r =
     (if \<not> ok (tb_status r) then (BlockHandle_new, r)
      else
        let r = (if tb_pending_index_entry r
                 then add_pending_index (FindShortSuccessor (op_comparator (tb_options r)) (tb_last_key r)) r
                 else r);
            (block, handle, r) = WriteBlock ops (tb_index_block r) r
        in (handle, r\<lparr>tb_index_block := block\<rparr>))"

definition write_footer :: "'f WritableFile \<Rightarrow> Footer \<Rightarrow> 'f TableRep \<Rightarrow> 'f TableRep" where
  "write_footer ops footer r =
     (if \<not> ok (tb_status r) then r
      else
        let footer_encoding = Footer_EncodeTo footer [];
            (s, f) = wf_Append ops footer_encoding (tb_file r);
            r = r\<lparr>tb_status := s, tb_file := f\<rparr>
        in if ok s then r\<lparr>tb_offset := tb_offset r + of_nat (length footer_encoding)\<rparr> else r)"

definition TableBuilder_Finish :: "'f WritableFile \<Rightarrow> 'f TableRep \<Rightarrow> Status \<times> 'f TableRep" where
  "TableBuilder_Finish ops r =
     (let r = Flush ops r;
          r = r\<lparr>tb_closed := True\<rparr>;
          (filter_block_meta, r) = write_filters ops r;
          (metaindex_block_handle, r) = write_metaindex ops filter_block_meta r;
          (index_block_handle, r) = write_index ops r;
          r = write_footer ops \<lparr>ft_metaindex_handle = metaindex_block_handle, ft_index_handle = index_block_handle\<rparr> r
      in (tb_status r, r))"

definition Abandon :: "'f TableRep \<Rightarrow> 'f TableRep" where
  "Abandon r = r\<lparr>tb_closed := True\<rparr>"

definition NumEntries :: "'f TableRep \<Rightarrow> nat" where
  "NumEntries r = tb_num_entries r"

definition FileSize :: "'f TableRep \<Rightarrow> u64" where
  "FileSize r = tb_offset r"


section \<open>What is written\<close>

lemma block_trailer_stored: "data @ block_trailer data t = stored_block data t"
  by (simp add: block_trailer_def stored_block_def Value_def Extend_append)

definition compression_ok :: "Compression \<Rightarrow> bool" where
  "compression_ok lib \<longleftrightarrow> compressor_ok (snappy lib) \<and> compressor_ok (zstd lib)"

lemma choose_contents_decodes:
  assumes "compression_ok (op_compressor opt)" "choose_contents opt raw = (data, t)"
  shows "block_decodes (op_compressor opt) data t raw"
  using assms
  by (cases "op_compression opt")
    (auto simp: choose_contents_def compress_block_def compression_ok_def compressor_ok_def block_decodes_def
      split: option.splits if_splits)

lemma builder_adds_append: "builder_adds (kvs @ [(k, v)]) b = BlockBuilder_Add k v (builder_adds kvs b)"
  by (simp add: builder_adds_def)

lemma builder_adds_interval: "bb_restart_interval (builder_adds kvs b) = bb_restart_interval b"
proof (induction kvs arbitrary: b)
  case (Cons kv kvs)
  then show ?case by (cases kv) (simp add: builder_adds_def BlockBuilder_Add_def Let_def)
qed (simp add: builder_adds_def)

lemma Reset_built: "BlockBuilder_Reset (snd (BlockBuilder_Finish (builder_adds kvs (BlockBuilder_new n)))) = BlockBuilder_new n"
  using builder_adds_interval [of kvs "BlockBuilder_new n"]
  by (simp add: BlockBuilder_Reset_def BlockBuilder_Finish_def Let_def BlockBuilder_new_def)

lemma built_empty: "1 \<le> n \<Longrightarrow> bb_buffer (builder_adds kvs (BlockBuilder_new n)) = [] \<longleftrightarrow> kvs = []"
proof -
  assume "1 \<le> n"
  then obtain es rs where "builder_ok (builder_adds kvs (BlockBuilder_new n)) es rs" "map snd es = kvs"
    using builder_adds_ok [OF builder_new_ok, of n kvs] by auto
  moreover have "body es = [] \<longleftrightarrow> es = []"
    using length_entry_header [of "hd es"] by (cases es) (auto simp: body_def entry_bytes_def split_beta)
  ultimately show ?thesis by (auto simp: builder_ok_def)
qed

text \<open>A finished data block: its entries, and the bytes and type it is stored with.\<close>

type_synonym table_block = "(bytes \<times> bytes) list \<times> bytes \<times> CompressionType"

definition file_of :: "table_block list \<Rightarrow> bytes" where
  "file_of bs = concat (map (\<lambda>(kvs, data, t). stored_block data t) bs)"

definition block_start :: "table_block list \<Rightarrow> nat \<Rightarrow> nat" where
  "block_start bs i = length (file_of (take i bs))"

definition block_handle :: "table_block list \<Rightarrow> nat \<Rightarrow> BlockHandle" where
  "block_handle bs i = \<lparr>bh_offset = of_nat (block_start bs i), bh_size = of_nat (length (fst (snd (bs ! i))))\<rparr>"

definition entries :: "table_block list \<Rightarrow> (bytes \<times> bytes) list" where
  "entries bs = concat (map fst bs)"

lemma file_of_snoc [simp]: "file_of (bs @ [(kvs, data, t)]) = file_of bs @ stored_block data t"
  by (simp add: file_of_def)

lemma entries_snoc [simp]: "entries (bs @ [(kvs, data, t)]) = entries bs @ kvs"
  by (simp add: entries_def)

lemma block_start_snoc: "i \<le> length bs \<Longrightarrow> block_start (bs @ [b]) i = block_start bs i"
  by (simp add: block_start_def)

lemma block_start_all: "block_start bs (length bs) = length (file_of bs)"
  by (simp add: block_start_def)

lemma block_handle_snoc: "i < length bs \<Longrightarrow> block_handle (bs @ [b]) i = block_handle bs i"
  by (simp add: block_handle_def block_start_snoc nth_append)

context writable_file
begin

lemma WriteRawBlock_ok:
  assumes "file_ok (tb_file r)"
  shows "\<exists>f. WriteRawBlock ops data t r = (\<lparr>bh_offset = tb_offset r, bh_size = of_nat (length data)\<rparr>,
      r\<lparr>tb_status := OK, tb_file := f, tb_offset := tb_offset r + of_nat (length (stored_block data t))\<rparr>) \<and>
    file_ok f \<and> contents f = contents (tb_file r) @ stored_block data t"
proof -
  obtain f1 where f1: "wf_Append ops data (tb_file r) = (OK, f1)" "file_ok f1" "contents f1 = contents (tb_file r) @ data"
    using append [OF assms] by blast
  obtain f2 where f2: "wf_Append ops (block_trailer data t) f1 = (OK, f2)" "file_ok f2" "contents f2 = contents f1 @ block_trailer data t"
    using append [OF f1(2)] by blast
  show ?thesis
    using f1 f2 by (intro exI [of _ f2]) (simp add: WriteRawBlock_def Let_def block_trailer_stored)
qed

lemma WriteBlock_ok:
  assumes "file_ok (tb_file r)" "compression_ok (op_compressor (tb_options r))"
  shows "\<exists>data t f. WriteBlock ops (builder_adds kvs (BlockBuilder_new n)) r =
      (BlockBuilder_new n, \<lparr>bh_offset = tb_offset r, bh_size = of_nat (length data)\<rparr>,
       r\<lparr>tb_status := OK, tb_file := f, tb_offset := tb_offset r + of_nat (length (stored_block data t))\<rparr>) \<and>
    file_ok f \<and> contents f = contents (tb_file r) @ stored_block data t \<and>
    block_decodes (op_compressor (tb_options r)) data t (built_block n kvs)"
proof -
  let ?b = "builder_adds kvs (BlockBuilder_new n)"
  obtain data t where c: "choose_contents (tb_options r) (built_block n kvs) = (data, t)" by fastforce
  obtain b' where b: "BlockBuilder_Finish ?b = (built_block n kvs, b')" "BlockBuilder_Reset b' = BlockBuilder_new n"
    using Reset_built [of kvs n] by (metis built_block_def prod.collapse)
  show ?thesis
    using WriteRawBlock_ok [OF assms(1), of data t] choose_contents_decodes [OF assms(2) c] b(2)
    by (auto simp: WriteBlock_def b(1) c)
qed

end

section \<open>The invariant of the builder\<close>

text \<open>
  What a table asks of its comparator beyond the contract, for the keys that a filter identifies by
  \<open>norm\<close> (the user key): shortened keys are not longer, and no key between a block's last key and
  its separator is identified with a later key.
\<close>

locale table_order = separating_comparator c for c +
  fixes norm :: "bytes \<Rightarrow> bytes"
  assumes separator_length: "length (FindShortestSeparator c start limit) \<le> length start"
    and successor_length: "length (FindShortSuccessor c key) \<le> length key"
    and separator_gap: "Compare c start limit < 0 \<Longrightarrow> Compare c limit e \<le> 0 \<Longrightarrow> norm k = norm e \<Longrightarrow>
      Compare c k (FindShortestSeparator c start limit) \<le> 0 \<Longrightarrow> Compare c k start \<le> 0"
begin

definition sorted_entries :: "(bytes \<times> bytes) list \<Rightarrow> bool" where
  "sorted_entries kvs \<longleftrightarrow> sorted_wrt (\<lambda>a b. Compare c (fst a) (fst b) < 0) kvs"

text \<open>The key of an index entry, from the last key of its block and the keys that follow the block.\<close>

definition separates :: "bytes \<Rightarrow> bytes \<Rightarrow> bytes list \<Rightarrow> bool" where
  "separates last_key sep later \<longleftrightarrow> length sep \<le> length last_key \<and> Compare c last_key sep \<le> 0 \<and>
     (later = [] \<or> sep = FindShortestSeparator c last_key (hd later))"

abbreviation block_last :: "table_block \<Rightarrow> bytes" where
  "block_last b \<equiv> fst (last (fst b))"

definition index_ok :: "table_block list \<Rightarrow> (bytes \<times> bytes) list \<Rightarrow> (bytes \<times> bytes) list \<Rightarrow> bool" where
  "index_ok bs ixs cur \<longleftrightarrow> (\<forall>i<length ixs. i < length bs \<and> snd (ixs ! i) = BlockHandle_EncodeTo (block_handle bs i) [] \<and>
     separates (block_last (bs ! i)) (fst (ixs ! i)) (map fst (entries (drop (Suc i) bs) @ cur)))"

lemma index_ok_block:
  assumes "index_ok bs ixs cur"
  shows "index_ok (bs @ [(cur, data, t)]) ixs []"
proof -
  have "entries (drop (Suc i) (bs @ [(cur, data, t)])) @ [] = entries (drop (Suc i) bs) @ cur" if "i < length bs" for i
    using that by simp
  then show ?thesis
    using assms by (auto simp: index_ok_def nth_append block_handle_snoc simp del: append_Nil2 drop_append)
qed

lemma index_ok_entry:
  assumes "index_ok bs ixs []" "length bs = Suc (length ixs)" "snd ix = BlockHandle_EncodeTo (block_handle bs (length ixs)) []"
    "separates (block_last (last bs)) (fst ix) (map fst cur)"
    "\<forall>i<length ixs. fst (bs ! Suc i) \<noteq> []"
  shows "index_ok bs (ixs @ [ix]) cur"
proof -
  have "last bs = bs ! length ixs" "drop (Suc (length ixs)) bs = []"
    using assms(2) by (simp_all add: last_conv_nth flip: length_greater_0_conv)
  moreover have "entries (drop (Suc i) bs) \<noteq> []" if "i < length ixs" for i
  proof -
    have "bs ! Suc i \<in> set (drop (Suc i) bs)" using that assms(2) by (auto simp: in_set_conv_nth intro!: exI [of _ 0])
    then show ?thesis using assms(5) that by (auto simp: entries_def)
  qed
  ultimately show ?thesis
    using assms(1-4) by (auto simp: index_ok_def nth_append less_Suc_eq separates_def entries_def hd_append)
qed

lemma index_ok_add:
  assumes "index_ok bs ixs cur" "cur \<noteq> [] \<or> bs = []"
  shows "index_ok bs ixs (cur @ [kv])"
  using assms by (auto simp: index_ok_def separates_def hd_append)

end

text \<open>
  The parts of a finished table file: the data blocks, the filter units, the metaindex block and the
  index block as stored, and the footer.
\<close>

record table_layout =
  tl_blocks :: "table_block list"
  tl_units :: "bytes list"
  tl_metas :: "(bytes \<times> bytes) list"
  tl_meta :: "bytes \<times> CompressionType"
  tl_ixs :: "(bytes \<times> bytes) list"
  tl_index :: "bytes \<times> CompressionType"

definition units_start :: "table_layout \<Rightarrow> nat" where
  "units_start L = length (file_of (tl_blocks L))"

definition meta_start :: "table_layout \<Rightarrow> nat" where
  "meta_start L = units_start L + length (stored_units (tl_units L))"

definition index_start :: "table_layout \<Rightarrow> nat" where
  "index_start L = meta_start L + length (stored_block (fst (tl_meta L)) (snd (tl_meta L)))"

definition layout_footer :: "table_layout \<Rightarrow> Footer" where
  "layout_footer L =
     \<lparr>ft_metaindex_handle = \<lparr>bh_offset = of_nat (meta_start L), bh_size = of_nat (length (fst (tl_meta L)))\<rparr>,
      ft_index_handle = \<lparr>bh_offset = of_nat (index_start L), bh_size = of_nat (length (fst (tl_index L)))\<rparr>\<rparr>"

definition image :: "table_layout \<Rightarrow> bytes" where
  "image L = file_of (tl_blocks L) @ stored_units (tl_units L) @ stored_block (fst (tl_meta L)) (snd (tl_meta L)) @
     stored_block (fst (tl_index L)) (snd (tl_index L)) @ Footer_EncodeTo (layout_footer L) []"

definition units_handle :: "table_layout \<Rightarrow> BlockHandle" where
  "units_handle L = \<lparr>bh_offset = of_nat (units_start L), bh_size = of_nat (length (tl_units L ! 0))\<rparr>"

locale table_format = table_order c norm + unit_policy p norm flt for c norm p flt
begin

definition options_ok :: "Options \<Rightarrow> bool" where
  "options_ok opt \<longleftrightarrow> op_comparator opt = c \<and> 1 \<le> op_block_restart_interval opt \<and> compression_ok (op_compressor opt) \<and>
     (op_filter_policy opt = None \<or> op_filter_policy opt = Some p)"

definition blocks_ok :: "Options \<Rightarrow> table_block list \<Rightarrow> bool" where
  "blocks_ok opt bs \<longleftrightarrow> (\<forall>(kvs, data, t)\<in>set bs. kvs \<noteq> [] \<and>
     block_decodes (op_compressor opt) data t (built_block (op_block_restart_interval opt) kvs))"

definition layout_filters :: "Options \<Rightarrow> table_layout \<Rightarrow> (bytes \<times> bytes) \<Rightarrow> bool" where
  "layout_filters opt L kv \<longleftrightarrow> (case op_filter_policy opt of
     None \<Rightarrow> tl_units L = [] \<and> tl_metas L = [kv]
   | Some p' \<Rightarrow> p' = p \<and> (\<exists>fs b. builder_rep b fs [] \<and> tl_units L = units fs \<and>
       (let flt = (filter_key p, fst (FilterBlockBuilder_Finish (units_handle L) b))
        in tl_metas L = (if Compare c (fst flt) (fst kv) < 0 then [flt, kv] else [kv, flt])) \<and>
       (length (file_of (tl_blocks L)) < 2 ^ 64 \<longrightarrow>
          (\<forall>i<length (tl_blocks L). fst ` set (fst (tl_blocks L ! i)) \<subseteq> keys_of fs [] (block_start (tl_blocks L) i div 2048)) \<and>
          length fs \<le> Suc (length (file_of (tl_blocks L)) div 2048))))"

definition layout_ok :: "Options \<Rightarrow> (bytes \<times> bytes) list \<Rightarrow> table_layout \<Rightarrow> bool" where
  "layout_ok opt kvs L \<longleftrightarrow> entries (tl_blocks L) = kvs \<and> blocks_ok opt (tl_blocks L) \<and>
     length (tl_ixs L) = length (tl_blocks L) \<and> index_ok (tl_blocks L) (tl_ixs L) [] \<and>
     layout_filters opt L (kv_number_key, chars (decimal (length kvs))) \<and>
     block_decodes (op_compressor opt) (fst (tl_meta L)) (snd (tl_meta L)) (built_block (op_block_restart_interval opt) (tl_metas L)) \<and>
     block_decodes (op_compressor opt) (fst (tl_index L)) (snd (tl_index L)) (built_block 1 (tl_ixs L))"

end

text \<open>A builder over a file, with a filter policy or without.\<close>

locale table_writer = table_format c norm p flt + writable_file ops file_ok contents
  for c norm p flt and ops :: "'f WritableFile" and file_ok contents
begin

text \<open>
  The filters hold the keys of every block under the number of the filter at the block's offset (as
  long as offsets do not wrap).
\<close>

definition covered :: "table_block list \<Rightarrow> (bytes \<times> bytes) list \<Rightarrow> bytes list list \<Rightarrow> bytes list \<Rightarrow> bool" where
  "covered bs cur fs ks \<longleftrightarrow> (length (file_of bs) < 2 ^ 64 \<longrightarrow>
     length fs = length (file_of bs) div 2048 \<and>
     (\<forall>i<length bs. fst ` set (fst (bs ! i)) \<subseteq> keys_of fs ks (block_start bs i div 2048)) \<and>
     fst ` set cur \<subseteq> keys_of fs ks (length (file_of bs) div 2048))"

definition filters_ok :: "FilterBlockBuilder \<Rightarrow> table_block list \<Rightarrow> (bytes \<times> bytes) list \<Rightarrow> bool" where
  "filters_ok b bs cur \<longleftrightarrow> (\<exists>fs ks. builder_rep b fs ks \<and> covered bs cur fs ks)"

lemma coveredD:
  assumes "covered bs cur fs ks" "length (file_of bs) < 2 ^ 64"
  shows "length fs = length (file_of bs) div 2048"
    "i < length bs \<Longrightarrow> fst ` set (fst (bs ! i)) \<subseteq> keys_of fs ks (block_start bs i div 2048)"
    "fst ` set cur \<subseteq> keys_of fs ks (length (file_of bs) div 2048)"
  using assms by (simp_all add: covered_def)

definition filter_block_ok :: "Options \<Rightarrow> FilterBlockBuilder option \<Rightarrow> table_block list \<Rightarrow> (bytes \<times> bytes) list \<Rightarrow> bool" where
  "filter_block_ok opt fb bs cur \<longleftrightarrow> (case fb of
     None \<Rightarrow> op_filter_policy opt = None
   | Some b \<Rightarrow> op_filter_policy opt = Some p \<and> filters_ok b bs cur)"

definition table_inv :: "Options \<Rightarrow> 'f TableRep \<Rightarrow> table_block list \<Rightarrow> (bytes \<times> bytes) list \<Rightarrow> (bytes \<times> bytes) list \<Rightarrow> bool" where
  "table_inv opt r bs ixs cur \<longleftrightarrow> tb_options r = opt \<and> tb_status r = OK \<and> file_ok (tb_file r) \<and>
     contents (tb_file r) = file_of bs \<and> tb_offset r = of_nat (length (file_of bs)) \<and> blocks_ok opt bs \<and>
     tb_data_block r = builder_adds cur (BlockBuilder_new (op_block_restart_interval opt)) \<and>
     tb_index_block r = builder_adds ixs (BlockBuilder_new 1) \<and> index_ok bs ixs cur \<and>
     (if tb_pending_index_entry r
      then cur = [] \<and> length bs = Suc (length ixs) \<and> tb_pending_handle r = block_handle bs (length ixs)
      else length bs = length ixs \<and> (cur = [] \<longrightarrow> bs = [])) \<and>
     (entries bs @ cur \<noteq> [] \<longrightarrow> tb_last_key r = fst (last (entries bs @ cur))) \<and>
     tb_num_entries r = length (entries bs @ cur) \<and> filter_block_ok opt (tb_filter_block r) bs cur"

lemma filters_ok_flush:
  assumes "filters_ok b bs cur"
  shows "filters_ok (StartBlock (of_nat (length (file_of (bs @ [(cur, data, t)])))) b) (bs @ [(cur, data, t)]) []"
proof -
  let ?bs = "bs @ [(cur, data, t)]"
  let ?n = "length (file_of ?bs)"
  have le: "length (file_of bs) \<le> ?n" by simp
  from assms obtain fs ks where rep: "builder_rep b fs ks" and cov: "covered bs cur fs ks" unfolding filters_ok_def by blast
  note r = rep coveredD [OF cov]
  obtain fs' ks' where
    f: "builder_rep (StartBlock (of_nat ?n) b) fs' ks'" "length fs' = max (unat (of_nat ?n :: u64) div 2048) (length fs)"
    "keys_of fs ks m \<subseteq> keys_of fs' ks' m" for m
    using builder_rep_StartBlock [OF r(1)] by blast
  have "length fs' = ?n div 2048" if n: "?n < 2 ^ 64"
    unfolding f(2) unat_of_nat_u64 [OF n] using r(2) n div_le_mono [OF le, of 2048] by simp
  moreover have "fst ` set (fst (?bs ! i)) \<subseteq> keys_of fs' ks' (block_start ?bs i div 2048)" if n: "?n < 2 ^ 64" "i < length ?bs" for i
  proof (cases "i < length bs")
    case True
    then have "fst ` set (fst (?bs ! i)) = fst ` set (fst (bs ! i))" "block_start ?bs i = block_start bs i"
      by (simp_all add: nth_append block_start_snoc)
    then show ?thesis using subset_trans [OF r(3) [OF _ True] f(3)] n(1) by simp
  next
    case False
    then have "fst ` set (fst (?bs ! i)) = fst ` set cur" "block_start ?bs i = length (file_of bs)"
      using n(2) by (simp_all add: nth_append block_start_def)
    then show ?thesis using subset_trans [OF r(4) f(3)] n(1) by simp
  qed
  ultimately show ?thesis using f(1) unfolding filters_ok_def covered_def by (intro exI [of _ fs'] exI [of _ ks']) simp
qed

lemma filters_ok_add:
  assumes "filters_ok b bs cur"
  shows "filters_ok (AddKey key b) bs (cur @ [(key, val)])"
proof -
  from assms obtain fs ks where rep: "builder_rep b fs ks" and cov: "covered bs cur fs ks" unfolding filters_ok_def by blast
  note r = rep coveredD [OF cov]
  have mono: "keys_of fs ks m \<subseteq> keys_of fs (ks @ [key]) m" for m by (auto simp: keys_of_def)
  have "fst ` set (cur @ [(key, val)]) \<subseteq> keys_of fs (ks @ [key]) (length (file_of bs) div 2048)" if "length (file_of bs) < 2 ^ 64"
    using r(4) [OF that] mono by (auto simp: keys_of_def r(2) [OF that, symmetric])
  moreover have "fst ` set (fst (bs ! i)) \<subseteq> keys_of fs (ks @ [key]) (block_start bs i div 2048)"
    if "length (file_of bs) < 2 ^ 64" "i < length bs" for i
    by (rule subset_trans [OF r(3) [OF that] mono])
  ultimately show ?thesis
    using builder_rep_AddKey [OF r(1)] r(2) unfolding filters_ok_def covered_def by (intro exI [of _ fs] exI [of _ "ks @ [key]"]) simp
qed

lemma table_inv_new:
  assumes "options_ok opt" "file_ok f" "contents f = []"
  shows "table_inv opt (TableBuilder_new opt f) [] [] []"
proof -
  have "builder_rep (StartBlock 0 (FilterBlockBuilder_new p)) [] []"
    using builder_rep_new by (simp add: StartBlock_def fill_filters.simps)
  then have "filters_ok (StartBlock 0 (FilterBlockBuilder_new p)) [] []"
    by (auto simp: filters_ok_def covered_def file_of_def)
  then show ?thesis
    using assms by (auto simp: table_inv_def TableBuilder_new_def Rep_new_def Let_def file_of_def entries_def blocks_ok_def
        index_ok_def builder_adds_def filter_block_ok_def options_ok_def kAllFilterUnitsNumber_def)
qed

lemma table_inv_Flush:
  assumes "options_ok opt" "table_inv opt r bs ixs cur" "cur \<noteq> []"
  shows "\<exists>data t. table_inv opt (Flush ops r) (bs @ [(cur, data, t)]) ixs []"
proof -
  let ?n = "op_block_restart_interval opt"
  have r: "tb_options r = opt" "tb_status r = OK" "file_ok (tb_file r)" "contents (tb_file r) = file_of bs"
    "tb_offset r = of_nat (length (file_of bs))" "tb_data_block r = builder_adds cur (BlockBuilder_new ?n)"
    "\<not> tb_pending_index_entry r" "length bs = length ixs" "1 \<le> ?n"
    using assms by (auto simp: table_inv_def options_ok_def split: if_splits)
  have "compression_ok (op_compressor (tb_options r))" using assms(1) r(1) by (simp add: options_ok_def)
  from WriteBlock_ok [OF r(3) this, of cur ?n] obtain data t f where
    w: "WriteBlock ops (tb_data_block r) r = (BlockBuilder_new ?n, \<lparr>bh_offset = tb_offset r, bh_size = of_nat (length data)\<rparr>,
       r\<lparr>tb_status := OK, tb_file := f, tb_offset := tb_offset r + of_nat (length (stored_block data t))\<rparr>)"
    "file_ok f" "contents f = file_of bs @ stored_block data t" "block_decodes (op_compressor opt) data t (built_block ?n cur)"
    using r(1,4,6) by auto
  obtain f' where f': "wf_Flush ops f = (OK, f')" "file_ok f'" "contents f' = contents f" using flush [OF w(2)] by blast
  let ?bs = "bs @ [(cur, data, t)]"
  let ?off = "of_nat (length (file_of ?bs)) :: u64"
  have off: "tb_offset r + of_nat (length (stored_block data t)) = ?off" by (simp add: r(5))
  have ne: "bb_buffer (tb_data_block r) \<noteq> []" using built_empty [OF r(9), of cur] assms(3) r(6) by simp
  have flushed: "Flush ops r = r\<lparr>tb_status := OK, tb_file := f', tb_offset := ?off, tb_data_block := BlockBuilder_new ?n,
      tb_pending_handle := \<lparr>bh_offset = tb_offset r, bh_size = of_nat (length data)\<rparr>, tb_pending_index_entry := True,
      tb_filter_block := map_option (StartBlock ?off) (tb_filter_block r)\<rparr>"
    using ne r(2) by (simp add: Flush_def Let_def w(1) f'(1) off del: file_of_snoc length_stored_block)
  have handle: "block_handle ?bs (length ixs) = \<lparr>bh_offset = tb_offset r, bh_size = of_nat (length data)\<rparr>"
    using r(5,8) by (simp add: block_handle_def block_start_def nth_append)
  have "blocks_ok opt ?bs" using assms(2,3) w(4) by (auto simp: table_inv_def blocks_ok_def)
  moreover have "filter_block_ok opt (map_option (StartBlock ?off) (tb_filter_block r)) ?bs []"
    using assms(2) filters_ok_flush [of _ bs cur data t]
    by (auto simp: table_inv_def filter_block_ok_def split: option.splits simp del: file_of_snoc)
  moreover have "index_ok ?bs ixs []" using index_ok_block assms(2) by (auto simp: table_inv_def)
  ultimately have "table_inv opt (Flush ops r) ?bs ixs []"
    using assms(2,3) r(1,8) f'(2,3) w(3)
    unfolding table_inv_def flushed by (simp add: handle builder_adds_def [of "[]"])
  then show ?thesis by blast
qed

lemma table_inv_add_index:
  assumes "table_inv opt r bs ixs []" "tb_pending_index_entry r" "separates (tb_last_key r) sep (map fst cur)"
  shows "index_ok bs (ixs @ [(sep, BlockHandle_EncodeTo (tb_pending_handle r) [])]) cur"
    "tb_index_block (add_pending_index sep r) = builder_adds (ixs @ [(sep, BlockHandle_EncodeTo (tb_pending_handle r) [])]) (BlockBuilder_new 1)"
proof -
  have r: "index_ok bs ixs []" "length bs = Suc (length ixs)" "tb_pending_handle r = block_handle bs (length ixs)" "blocks_ok opt bs"
    "entries bs \<noteq> [] \<longrightarrow> tb_last_key r = fst (last (entries bs))"
    using assms(1,2) by (auto simp: table_inv_def)
  have ne: "fst b \<noteq> []" if "b \<in> set bs" for b using r(4) that by (cases b) (auto simp: blocks_ok_def)
  have "bs \<noteq> []" using r(2) by auto
  then obtain bs0 b where b: "bs = bs0 @ [b]" by (metis append_butlast_last_id)
  then have "entries bs = entries bs0 @ fst b" "fst b \<noteq> []" using ne by (auto simp: entries_def)
  then have "tb_last_key r = block_last (last bs)" using r(5) by (auto simp: b)
  moreover have "\<forall>i<length ixs. fst (bs ! Suc i) \<noteq> []" using ne r(2) by simp
  ultimately show "index_ok bs (ixs @ [(sep, BlockHandle_EncodeTo (tb_pending_handle r) [])]) cur"
    using assms(3) r(1-3) by (intro index_ok_entry) simp_all
  show "tb_index_block (add_pending_index sep r) = builder_adds (ixs @ [(sep, BlockHandle_EncodeTo (tb_pending_handle r) [])]) (BlockBuilder_new 1)"
    using assms(1) by (simp add: add_pending_index_def builder_adds_append table_inv_def)
qed

lemma table_inv_Add:
  assumes "options_ok opt" "table_inv opt r bs ixs cur" "sorted_entries (entries bs @ cur @ [(key, val)])"
  shows "\<exists>bs' ixs' cur'. table_inv opt (TableBuilder_Add ops key val r) bs' ixs' cur' \<and> entries bs' @ cur' = entries bs @ cur @ [(key, val)]"
proof -
  let ?sep = "FindShortestSeparator c (tb_last_key r) key"
  let ?r1 = "if tb_pending_index_entry r then add_pending_index ?sep r else r"
  let ?ixs = "if tb_pending_index_entry r then ixs @ [(?sep, BlockHandle_EncodeTo (tb_pending_handle r) [])] else ixs"
  define r2 where "r2 = ?r1\<lparr>tb_filter_block := map_option (AddKey key) (tb_filter_block ?r1), tb_last_key := key,
      tb_num_entries := tb_num_entries ?r1 + 1, tb_data_block := BlockBuilder_Add key val (tb_data_block ?r1)\<rparr>"
  have r: "tb_options r = opt" "tb_status r = OK" "op_comparator opt = c" using assms(1,2) by (simp_all add: table_inv_def options_ok_def)
  have add: "TableBuilder_Add ops key val r =
      (if CurrentSizeEstimate (tb_data_block r2) \<ge> op_block_size (tb_options r2) then Flush ops r2 else r2)"
    using r by (simp add: TableBuilder_Add_def Let_def r2_def)
  have pend: "cur = [] \<and> entries bs \<noteq> [] \<and> tb_last_key r = fst (last (entries bs))" if "tb_pending_index_entry r"
  proof -
    have "length bs = Suc (length ixs)" "blocks_ok opt bs" using assms(2) that by (auto simp: table_inv_def)
    then have "entries bs \<noteq> []" by (cases bs) (auto simp: entries_def blocks_ok_def)
    then show ?thesis using assms(2) that by (auto simp: table_inv_def)
  qed
  have index: "index_ok bs ?ixs (cur @ [(key, val)]) \<and> tb_index_block r2 = builder_adds ?ixs (BlockBuilder_new 1)"
  proof (cases "tb_pending_index_entry r")
    case True
    have "separates (tb_last_key r) ?sep (map fst [(key, val)])"
      by (simp add: separates_def separator_ge separator_length)
    from table_inv_add_index [of opt r bs ixs ?sep, OF _ True this] show ?thesis
      using pend [OF True] assms(2) True by (auto simp: r2_def)
  next
    case False
    then have "cur \<noteq> [] \<or> bs = []" using assms(2) by (auto simp: table_inv_def)
    then show ?thesis using assms(2) False index_ok_add [of bs ixs cur "(key, val)"] by (auto simp: table_inv_def r2_def)
  qed
  have fb: "filter_block_ok opt (map_option (AddKey key) (tb_filter_block r)) bs (cur @ [(key, val)])"
    using assms(2) filters_ok_add by (auto simp: table_inv_def filter_block_ok_def split: option.splits)
  have "length bs = length ?ixs" using assms(2) by (auto simp: table_inv_def)
  then have inv2: "table_inv opt r2 bs ?ixs (cur @ [(key, val)])"
    using assms(2) index fb pend unfolding table_inv_def
    by (auto simp: r2_def add_pending_index_def builder_adds_append)
  show ?thesis
  proof (cases "CurrentSizeEstimate (tb_data_block r2) \<ge> op_block_size (tb_options r2)")
    case True
    obtain data t where "table_inv opt (Flush ops r2) (bs @ [(cur @ [(key, val)], data, t)]) ?ixs []"
      using table_inv_Flush [OF assms(1) inv2] by auto
    then show ?thesis using add True by (intro exI [of _ "bs @ [(cur @ [(key, val)], data, t)]"] exI [of _ ?ixs] exI [of _ "[]"]) simp
  next
    case False
    then show ?thesis using add inv2 by (intro exI [of _ bs] exI [of _ ?ixs] exI [of _ "cur @ [(key, val)]"]) simp
  qed
qed

lemma table_inv_Adds:
  "options_ok opt \<Longrightarrow> table_inv opt r bs ixs cur \<Longrightarrow> sorted_entries (entries bs @ cur @ kvs) \<Longrightarrow>
   \<exists>bs' ixs' cur'. table_inv opt (fold (\<lambda>(k, v). TableBuilder_Add ops k v) kvs r) bs' ixs' cur' \<and> entries bs' @ cur' = entries bs @ cur @ kvs"
proof (induction kvs arbitrary: r bs ixs cur)
  case (Cons kv kvs)
  obtain k v where kv: "kv = (k, v)" by fastforce
  have "sorted_entries (entries bs @ cur @ [(k, v)])"
    using Cons.prems(3) by (auto simp: kv sorted_entries_def sorted_wrt_append)
  from table_inv_Add [OF Cons.prems(1,2) this] obtain bs' ixs' cur' where
    a: "table_inv opt (TableBuilder_Add ops k v r) bs' ixs' cur'" "entries bs' @ cur' = entries bs @ cur @ [(k, v)]" by blast
  have e: "entries bs' @ cur' @ kvs = entries bs @ cur @ kv # kvs" using arg_cong [OF a(2), of "\<lambda>xs. xs @ kvs"] by (simp add: kv)
  have "sorted_entries (entries bs' @ cur' @ kvs)" using Cons.prems(3) by (simp only: e)
  from Cons.IH [OF Cons.prems(1) a(1) this] show ?case unfolding e by (simp add: kv)
qed auto

lemma WriteRawFilters_ok:
  "file_ok (tb_file r) \<Longrightarrow> tb_status r = OK \<Longrightarrow>
   \<exists>f. snd (WriteRawFilters ops filters kNoCompression r) =
       r\<lparr>tb_file := f, tb_offset := tb_offset r + of_nat (length (stored_units filters))\<rparr> \<and>
     file_ok f \<and> contents f = contents (tb_file r) @ stored_units filters"
proof (induction filters arbitrary: r)
  case Nil
  then show ?case by (intro exI [of _ "tb_file r"]) (simp add: WriteRawFilters_def stored_units_def)
next
  case (Cons x xs)
  obtain f where f: "WriteRawBlock ops x kNoCompression r = (\<lparr>bh_offset = tb_offset r, bh_size = of_nat (length x)\<rparr>,
      r\<lparr>tb_status := OK, tb_file := f, tb_offset := tb_offset r + of_nat (length (stored_block x kNoCompression))\<rparr>)"
    "file_ok f" "contents f = contents (tb_file r) @ stored_block x kNoCompression"
    using WriteRawBlock_ok [OF Cons.prems(1)] by blast
  let ?r = "r\<lparr>tb_file := f, tb_offset := tb_offset r + of_nat (length (stored_block x kNoCompression))\<rparr>"
  have r: "snd (WriteRawBlock ops x kNoCompression r) = ?r" using f(1) Cons.prems(2) by simp
  have "file_ok (tb_file ?r)" "tb_status ?r = OK" using f(2) Cons.prems(2) by simp_all
  from Cons.IH [OF this] obtain f' where
    f': "snd (WriteRawFilters ops xs kNoCompression ?r) = ?r\<lparr>tb_file := f', tb_offset := tb_offset ?r + of_nat (length (stored_units xs))\<rparr>"
    "file_ok f'" "contents f' = contents f @ stored_units xs" by auto
  have "snd (WriteRawFilters ops (x # xs) kNoCompression r) = snd (WriteRawFilters ops xs kNoCompression ?r)"
    by (simp add: WriteRawFilters_def r)
  then show ?case using f'(1) f'(2,3) f(3) by (intro exI [of _ f']) (simp add: stored_units_def add.assoc)
qed

text \<open>The last flush.\<close>

lemma table_inv_final_Flush:
  assumes "options_ok opt" "table_inv opt r bs ixs cur"
  shows "\<exists>bs'. table_inv opt (Flush ops r) bs' ixs [] \<and> entries bs' = entries bs @ cur"
proof (cases "cur = []")
  case True
  have "1 \<le> op_block_restart_interval opt" using assms(1) by (simp add: options_ok_def)
  then have "bb_buffer (tb_data_block r) = []" using assms(2) True built_empty [of "op_block_restart_interval opt" "[]"] by (simp add: table_inv_def)
  then have "Flush ops r = r" by (simp add: Flush_def)
  then show ?thesis using assms(2) True by auto
next
  case False
  then obtain data t where "table_inv opt (Flush ops r) (bs @ [(cur, data, t)]) ixs []" using table_inv_Flush [OF assms] by blast
  then show ?thesis by (intro exI [of _ "bs @ [(cur, data, t)]"]) simp
qed

text \<open>The parts that \<open>Finish\<close> writes one after the other.\<close>

lemma layout_filters_written:
  assumes "filters_ok b bs []" "ReturnFilters b = (us, b')" "tl_blocks L = bs" "tl_units L = us"
    "op_filter_policy opt = Some p" "m = (filter_key p, fst (FilterBlockBuilder_Finish (units_handle L) b'))"
    "tl_metas L = (if Compare c (fst m) (fst kv) < 0 then [m, kv] else [kv, m])"
  shows "layout_filters opt L kv"
proof -
  from assms(1) obtain fs ks where rep: "builder_rep b fs ks" and cov: "covered bs [] fs ks" unfolding filters_ok_def by blast
  note r = rep coveredD [OF cov]
  define fs' where "fs' = (if ks = [] then fs else fs @ [ks])"
  note ret = builder_rep_ReturnFilters [OF r(1) fs'_def]
  have "fst ` set (fst (bs ! i)) \<subseteq> keys_of fs' [] (block_start bs i div 2048)" if "length (file_of bs) < 2 ^ 64" "i < length bs" for i
    by (rule subset_trans [OF r(3) [OF that] ret(3)])
  moreover have "length fs' \<le> Suc (length (file_of bs) div 2048)" if "length (file_of bs) < 2 ^ 64"
    using r(2) [OF that] by (simp add: fs'_def)
  moreover have "builder_rep b' fs' []" "us = units fs'" using ret(1,2) assms(2) by simp_all
  ultimately show ?thesis
    unfolding layout_filters_def assms(5) option.case
    by (intro conjI refl exI [of _ fs'] exI [of _ b']) (use assms(3,4,6,7) in simp_all)
qed

lemma write_filters_ok:
  assumes "options_ok opt" "table_inv opt r bs ixs []"
  shows "\<exists>us meta fb f. write_filters ops (r\<lparr>tb_closed := True\<rparr>) =
      (meta, r\<lparr>tb_closed := True, tb_file := f, tb_offset := tb_offset r + of_nat (length (stored_units us)), tb_filter_block := fb\<rparr>) \<and>
    file_ok f \<and> contents f = contents (tb_file r) @ stored_units us \<and>
    (\<forall>L. tl_blocks L = bs \<longrightarrow> tl_units L = us \<longrightarrow> tl_metas L = meta_entries (r\<lparr>tb_filter_block := fb\<rparr>) meta \<longrightarrow>
       layout_filters opt L (kv_number_key, chars (decimal (length (entries bs)))))"
proof (cases "tb_filter_block r")
  case None
  then have "op_filter_policy opt = None" using assms(2) by (simp add: table_inv_def filter_block_ok_def)
  then show ?thesis
    using None assms(2)
    by (intro exI [of _ "[]"] exI [of _ None] exI [of _ "tb_file r"])
      (simp add: write_filters_def stored_units_def layout_filters_def meta_entries_def table_inv_def)
next
  case (Some b)
  obtain us b' where ub: "ReturnFilters b = (us, b')" by fastforce
  let ?r = "r\<lparr>tb_closed := True\<rparr>"
  have r: "tb_options r = opt" "tb_status r = OK" "file_ok (tb_file ?r)" "tb_status ?r = OK" "op_filter_policy opt = Some p"
    "tb_offset r = of_nat (length (file_of bs))" "filters_ok b bs []" "op_comparator opt = c" "tb_num_entries r = length (entries bs)"
    using assms Some by (simp_all add: table_inv_def filter_block_ok_def options_ok_def)
  obtain f where f: "snd (WriteRawFilters ops us kNoCompression ?r) = ?r\<lparr>tb_file := f, tb_offset := tb_offset ?r + of_nat (length (stored_units us))\<rparr>"
    "file_ok f" "contents f = contents (tb_file r) @ stored_units us"
    using WriteRawFilters_ok [OF r(3,4), of us] by auto
  let ?h = "\<lparr>bh_offset = tb_offset r, bh_size = of_nat (length (us ! 0))\<rparr>"
  obtain meta b'' where m: "FilterBlockBuilder_Finish ?h b' = (meta, b'')" by fastforce
  have w: "WriteRawFilters ops us kNoCompression ?r = (?h, ?r\<lparr>tb_file := f, tb_offset := tb_offset ?r + of_nat (length (stored_units us))\<rparr>)"
    using f(1) by (simp add: WriteRawFilters_def)
  have "write_filters ops ?r = (meta, ?r\<lparr>tb_file := f, tb_offset := tb_offset r + of_nat (length (stored_units us)), tb_filter_block := Some b''\<rparr>)"
    using Some r(2) by (simp add: write_filters_def ub w m)
  moreover have "layout_filters opt L (kv_number_key, chars (decimal (length (entries bs))))"
    if L: "tl_blocks L = bs" "tl_units L = us" "tl_metas L = meta_entries (r\<lparr>tb_filter_block := Some b''\<rparr>) meta" for L
  proof (rule layout_filters_written [OF r(7) ub L(1,2) r(5) refl])
    have "units_handle L = ?h" using L r(6) by (simp add: units_handle_def units_start_def)
    then show "tl_metas L = (if Compare c (fst (filter_key p, fst (FilterBlockBuilder_Finish (units_handle L) b')))
        (fst (kv_number_key, chars (decimal (length (entries bs))))) < 0
      then [(filter_key p, fst (FilterBlockBuilder_Finish (units_handle L) b')), (kv_number_key, chars (decimal (length (entries bs))))]
      else [(kv_number_key, chars (decimal (length (entries bs)))), (filter_key p, fst (FilterBlockBuilder_Finish (units_handle L) b'))])"
      unfolding L(3) using m r(1,5,8,9) by (simp add: meta_entries_def Let_def)
  qed
  ultimately show ?thesis
    using f(2,3) by (intro exI [of _ us] exI [of _ meta] exI [of _ "Some b''"] exI [of _ f]) simp
qed

lemma write_metaindex_ok:
  assumes "file_ok (tb_file r)" "tb_status r = OK" "compression_ok (op_compressor (tb_options r))"
  shows "\<exists>data t f. write_metaindex ops meta r = (\<lparr>bh_offset = tb_offset r, bh_size = of_nat (length data)\<rparr>,
      r\<lparr>tb_file := f, tb_offset := tb_offset r + of_nat (length (stored_block data t))\<rparr>) \<and>
    file_ok f \<and> contents f = contents (tb_file r) @ stored_block data t \<and>
    block_decodes (op_compressor (tb_options r)) data t (built_block (op_block_restart_interval (tb_options r)) (meta_entries r meta))"
proof -
  from WriteBlock_ok [OF assms(1,3)] obtain data t f where
    w: "WriteBlock ops (builder_adds (meta_entries r meta) (BlockBuilder_new (op_block_restart_interval (tb_options r)))) r =
      (BlockBuilder_new (op_block_restart_interval (tb_options r)), \<lparr>bh_offset = tb_offset r, bh_size = of_nat (length data)\<rparr>,
       r\<lparr>tb_status := OK, tb_file := f, tb_offset := tb_offset r + of_nat (length (stored_block data t))\<rparr>)"
    "file_ok f" "contents f = contents (tb_file r) @ stored_block data t"
    "block_decodes (op_compressor (tb_options r)) data t (built_block (op_block_restart_interval (tb_options r)) (meta_entries r meta))" by blast
  show ?thesis using w(2-4) assms(2) by (intro exI [of _ data] exI [of _ t] exI [of _ f]) (simp add: write_metaindex_def w(1))
qed

lemma write_index_ok:
  assumes "file_ok (tb_file r)" "tb_status r = OK" "compression_ok (op_compressor (tb_options r))"
    "r' = (if tb_pending_index_entry r then add_pending_index (FindShortSuccessor (op_comparator (tb_options r)) (tb_last_key r)) r else r)"
    "tb_index_block r' = builder_adds ixs (BlockBuilder_new 1)"
  shows "\<exists>data t f. write_index ops r = (\<lparr>bh_offset = tb_offset r, bh_size = of_nat (length data)\<rparr>,
      r'\<lparr>tb_file := f, tb_offset := tb_offset r + of_nat (length (stored_block data t)), tb_index_block := BlockBuilder_new 1\<rparr>) \<and>
    file_ok f \<and> contents f = contents (tb_file r) @ stored_block data t \<and>
    block_decodes (op_compressor (tb_options r)) data t (built_block 1 ixs)"
proof -
  have r': "file_ok (tb_file r')" "tb_options r' = tb_options r" "tb_status r' = OK" "tb_offset r' = tb_offset r" "tb_file r' = tb_file r"
    using assms(1,2,4) by (simp_all add: add_pending_index_def)
  from WriteBlock_ok [OF r'(1), of ixs 1] assms(3) r'(2) obtain data t f where
    w: "WriteBlock ops (builder_adds ixs (BlockBuilder_new 1)) r' =
      (BlockBuilder_new 1, \<lparr>bh_offset = tb_offset r', bh_size = of_nat (length data)\<rparr>,
       r'\<lparr>tb_status := OK, tb_file := f, tb_offset := tb_offset r' + of_nat (length (stored_block data t))\<rparr>)"
    "file_ok f" "contents f = contents (tb_file r') @ stored_block data t"
    "block_decodes (op_compressor (tb_options r)) data t (built_block 1 ixs)" by auto
  have "write_index ops r = (\<lparr>bh_offset = tb_offset r, bh_size = of_nat (length data)\<rparr>,
      r'\<lparr>tb_file := f, tb_offset := tb_offset r + of_nat (length (stored_block data t)), tb_index_block := BlockBuilder_new 1\<rparr>)"
    unfolding write_index_def Let_def assms(4) [symmetric] assms(5) w(1) using assms(2) r'(3,4) by simp
  then show ?thesis using w(2-4) r'(5) by (intro exI [of _ data] exI [of _ t] exI [of _ f]) simp
qed

lemma write_footer_ok:
  assumes "file_ok (tb_file r)" "tb_status r = OK"
  shows "\<exists>f. write_footer ops ft r = r\<lparr>tb_file := f, tb_offset := tb_offset r + of_nat Footer_kEncodedLength\<rparr> \<and>
    file_ok f \<and> contents f = contents (tb_file r) @ Footer_EncodeTo ft []"
proof -
  obtain f where "wf_Append ops (Footer_EncodeTo ft []) (tb_file r) = (OK, f)" "file_ok f"
    "contents f = contents (tb_file r) @ Footer_EncodeTo ft []" using append [OF assms(1)] by blast
  then show ?thesis using assms(2) by (intro exI [of _ f]) (simp add: write_footer_def Footer_roundtrip(1))
qed

text \<open>The finished file has the layout of a table of the entries that were added.\<close>

text \<open>The index block of a finished table has an entry for every data block.\<close>

lemma final_index:
  assumes "options_ok opt" "table_inv opt r bs ixs []" "r' = r\<lparr>tb_closed := x, tb_file := f, tb_offset := off, tb_filter_block := fb\<rparr>"
    "r'' = (if tb_pending_index_entry r' then add_pending_index (FindShortSuccessor (op_comparator (tb_options r')) (tb_last_key r')) r' else r')"
  obtains ixs' where "tb_index_block r'' = builder_adds ixs' (BlockBuilder_new 1)" "index_ok bs ixs' []" "length ixs' = length bs"
proof (cases "tb_pending_index_entry r")
  case True
  let ?succ = "FindShortSuccessor c (tb_last_key r)"
  have o: "tb_options r = opt" "op_comparator opt = c" using assms(1,2) by (simp_all add: table_inv_def options_ok_def)
  have "separates (tb_last_key r) ?succ (map fst [])" by (simp add: separates_def successor_ge successor_length)
  note add = table_inv_add_index [OF assms(2) True this]
  have "length bs = Suc (length ixs)" using assms(2) True by (simp add: table_inv_def)
  then show thesis
    using add True o by (intro that [of "ixs @ [(?succ, BlockHandle_EncodeTo (tb_pending_handle r) [])]"])
      (simp_all add: assms(3,4) add_pending_index_def)
next
  case False
  then show thesis using assms(2) by (intro that [of ixs]) (auto simp: assms(3,4) table_inv_def)
qed

text \<open>The end of the file: the index block and the footer.\<close>

lemma write_tail_ok:
  assumes "file_ok (tb_file r)" "tb_status r = OK" "compression_ok (op_compressor (tb_options r))"
    "r' = (if tb_pending_index_entry r then add_pending_index (FindShortSuccessor (op_comparator (tb_options r)) (tb_last_key r)) r else r)"
    "tb_index_block r' = builder_adds ixs (BlockBuilder_new 1)"
  obtains idx it ft r4 r5 where "write_index ops r = (ft_index_handle ft, r4)" "write_footer ops ft r4 = r5"
    "ft = \<lparr>ft_metaindex_handle = mh, ft_index_handle = \<lparr>bh_offset = tb_offset r, bh_size = of_nat (length idx)\<rparr>\<rparr>"
    "file_ok (tb_file r5)" "tb_status r5 = OK" "contents (tb_file r5) = contents (tb_file r) @ stored_block idx it @ Footer_EncodeTo ft []"
    "block_decodes (op_compressor (tb_options r)) idx it (built_block 1 ixs)"
proof -
  from write_index_ok [OF assms] obtain idx it f4 where
    w4: "write_index ops r = (\<lparr>bh_offset = tb_offset r, bh_size = of_nat (length idx)\<rparr>,
        r'\<lparr>tb_file := f4, tb_offset := tb_offset r + of_nat (length (stored_block idx it)), tb_index_block := BlockBuilder_new 1\<rparr>)"
    "file_ok f4" "contents f4 = contents (tb_file r) @ stored_block idx it"
    "block_decodes (op_compressor (tb_options r)) idx it (built_block 1 ixs)" by blast
  define r4 where "r4 = r'\<lparr>tb_file := f4, tb_offset := tb_offset r + of_nat (length (stored_block idx it)), tb_index_block := BlockBuilder_new 1\<rparr>"
  define ft where "ft = \<lparr>ft_metaindex_handle = mh, ft_index_handle = \<lparr>bh_offset = tb_offset r, bh_size = of_nat (length idx)\<rparr>\<rparr>"
  have o4: "file_ok (tb_file r4)" "tb_status r4 = OK" using w4(2) assms(2) by (simp_all add: r4_def assms(4) add_pending_index_def)
  from write_footer_ok [OF this, of ft] obtain f5 where
    w5: "write_footer ops ft r4 = r4\<lparr>tb_file := f5, tb_offset := tb_offset r4 + of_nat Footer_kEncodedLength\<rparr>"
    "file_ok f5" "contents f5 = contents f4 @ Footer_EncodeTo ft []" by (auto simp: r4_def)
  show thesis
    using w4(1) [folded r4_def] w4(3,4) w5(2,3) o4(2) by (intro that [of ft r4 _ idx it, OF _ w5(1)]) (simp_all add: ft_def)
qed

lemma Finish_layout:
  assumes "options_ok opt" "table_inv opt r bs ixs cur"
  shows "\<exists>L r'. TableBuilder_Finish ops r = (OK, r') \<and> file_ok (tb_file r') \<and> contents (tb_file r') = image L \<and>
    layout_ok opt (entries bs @ cur) L"
proof -
  from table_inv_final_Flush [OF assms] obtain bs1 where
    fl: "table_inv opt (Flush ops r) bs1 ixs []" "entries bs1 = entries bs @ cur" by blast
  define r1 where "r1 = Flush ops r"
  note inv = fl(1) [folded r1_def]
  have o1: "tb_options r1 = opt" "tb_status r1 = OK" "contents (tb_file r1) = file_of bs1" "tb_offset r1 = of_nat (length (file_of bs1))"
    "compression_ok (op_compressor opt)" "op_comparator opt = c"
    using inv assms(1) by (simp_all add: table_inv_def options_ok_def)
  from write_filters_ok [OF assms(1) inv] obtain us meta fb f2 where
    w2: "write_filters ops (r1\<lparr>tb_closed := True\<rparr>) = (meta, r1\<lparr>tb_closed := True, tb_file := f2,
        tb_offset := tb_offset r1 + of_nat (length (stored_units us)), tb_filter_block := fb\<rparr>)"
    "file_ok f2" "contents f2 = file_of bs1 @ stored_units us"
    "\<And>L. tl_blocks L = bs1 \<Longrightarrow> tl_units L = us \<Longrightarrow> tl_metas L = meta_entries (r1\<lparr>tb_filter_block := fb\<rparr>) meta \<Longrightarrow>
       layout_filters opt L (kv_number_key, chars (decimal (length (entries bs1))))"
    unfolding o1(3) by blast
  define r2 where "r2 = r1\<lparr>tb_closed := True, tb_file := f2, tb_offset := tb_offset r1 + of_nat (length (stored_units us)), tb_filter_block := fb\<rparr>"
  have o2: "file_ok (tb_file r2)" "tb_status r2 = OK" "compression_ok (op_compressor (tb_options r2))" "tb_options r2 = opt"
    "meta_entries r2 meta = meta_entries (r1\<lparr>tb_filter_block := fb\<rparr>) meta"
    using w2(2) o1 by (simp_all add: r2_def meta_entries_def Let_def split: option.split)
  from write_metaindex_ok [OF o2(1-3), of meta] obtain md mt f3 where
    w3: "write_metaindex ops meta r2 = (\<lparr>bh_offset = tb_offset r2, bh_size = of_nat (length md)\<rparr>,
        r2\<lparr>tb_file := f3, tb_offset := tb_offset r2 + of_nat (length (stored_block md mt))\<rparr>)"
    "file_ok f3" "contents f3 = contents f2 @ stored_block md mt"
    "block_decodes (op_compressor opt) md mt (built_block (op_block_restart_interval opt) (meta_entries r2 meta))"
    using o2(4) by (auto simp: r2_def)
  define r3 where "r3 = r2\<lparr>tb_file := f3, tb_offset := tb_offset r2 + of_nat (length (stored_block md mt))\<rparr>"
  define r3' where "r3' = (if tb_pending_index_entry r3 then add_pending_index (FindShortSuccessor (op_comparator (tb_options r3)) (tb_last_key r3)) r3 else r3)"
  have "r3 = r1\<lparr>tb_closed := True, tb_file := f3, tb_offset := tb_offset r3, tb_filter_block := fb\<rparr>" by (simp add: r3_def r2_def)
  from final_index [OF assms(1) inv this r3'_def] obtain ixs' where
    ix: "tb_index_block r3' = builder_adds ixs' (BlockBuilder_new 1)" "index_ok bs1 ixs' []" "length ixs' = length bs1" by blast
  have o3: "file_ok (tb_file r3)" "tb_status r3 = OK" "compression_ok (op_compressor (tb_options r3))" "tb_options r3 = opt"
    using w3(2) o2 by (simp_all add: r3_def)
  obtain idx it ft r4 r5 where
    w5: "write_index ops r3 = (ft_index_handle ft, r4)" "write_footer ops ft r4 = r5"
    "ft = \<lparr>ft_metaindex_handle = \<lparr>bh_offset = tb_offset r2, bh_size = of_nat (length md)\<rparr>,
       ft_index_handle = \<lparr>bh_offset = tb_offset r3, bh_size = of_nat (length idx)\<rparr>\<rparr>"
    "file_ok (tb_file r5)" "tb_status r5 = OK" "contents (tb_file r5) = contents (tb_file r3) @ stored_block idx it @ Footer_EncodeTo ft []"
    "block_decodes (op_compressor opt) idx it (built_block 1 ixs')"
    by (rule write_tail_ok [OF o3(1-3) r3'_def ix(1), unfolded o3(4)])
  define L where "L = \<lparr>tl_blocks = bs1, tl_units = us, tl_metas = meta_entries r2 meta, tl_meta = (md, mt), tl_ixs = ixs', tl_index = (idx, it)\<rparr>"
  have off: "tb_offset r2 = of_nat (length (file_of bs1)) + of_nat (length (stored_units us))"
    "tb_offset r3 = tb_offset r2 + of_nat (length (stored_block md mt))" by (simp_all add: r3_def r2_def o1(4))
  have ft: "\<lparr>ft_metaindex_handle = \<lparr>bh_offset = tb_offset r2, bh_size = of_nat (length md)\<rparr>, ft_index_handle = ft_index_handle ft\<rparr> = ft"
    "ft = layout_footer L"
    by (simp_all add: layout_footer_def index_start_def meta_start_def units_start_def L_def w5(3) off)
  have "TableBuilder_Finish ops r = (OK, r5)"
    by (simp only: TableBuilder_Finish_def Let_def r1_def [symmetric] w2(1) [folded r2_def] w3(1) [folded r3_def] w5(1,2,5) prod.case ft(1))
  moreover have "contents (tb_file r5) = image L"
    by (simp add: w5(6) w3(3) w2(3) image_def L_def r3_def ft(2) [unfolded L_def])
  moreover have "layout_ok opt (entries bs @ cur) L"
    using inv ix(2,3) w3(4) w5(7) w2(4) [of L] fl(2) o2(5) by (simp add: layout_ok_def L_def table_inv_def)
  ultimately show ?thesis using w5(4) by blast
qed

text \<open>Building a table from its entries.\<close>

lemma table_built:
  assumes "options_ok opt" "file_ok f" "contents f = []" "sorted_entries kvs"
  shows "\<exists>L r'. TableBuilder_Finish ops (fold (\<lambda>(k, v). TableBuilder_Add ops k v) kvs (TableBuilder_new opt f)) = (OK, r') \<and>
    file_ok (tb_file r') \<and> contents (tb_file r') = image L \<and> layout_ok opt kvs L"
proof -
  from table_inv_Adds [OF assms(1) table_inv_new [OF assms(1-3)], of kvs] assms(4) obtain bs ixs cur where
    "table_inv opt (fold (\<lambda>(k, v). TableBuilder_Add ops k v) kvs (TableBuilder_new opt f)) bs ixs cur" "entries bs @ cur = kvs"
    by (auto simp: entries_def)
  from Finish_layout [OF assms(1) this(1)] this(2) show ?thesis by simp
qed

end

section \<open>Tables of the database\<close>

text \<open>Internal keys over the bytewise order, Bloom filters of their user keys, and files of the in-memory environment.\<close>

lemma internal_separator_length: "length (internal_separator c start limit) \<le> length start"
  by (auto simp: internal_separator_def Let_def PutFixed64_def ExtractUserKey_def)

lemma internal_successor_length: "length (internal_successor c key) \<le> length key"
  by (auto simp: internal_successor_def Let_def PutFixed64_def ExtractUserKey_def)

interpretation ikc_table: table_order "InternalKeyComparator BytewiseComparator" ExtractUserKey
proof unfold_locales
  fix start limit key e k :: bytes
  show "length (FindShortestSeparator (InternalKeyComparator BytewiseComparator) start limit) \<le> length start"
    by (simp add: InternalKeyComparator_def internal_separator_length)
  show "length (FindShortSuccessor (InternalKeyComparator BytewiseComparator) key) \<le> length key"
    by (simp add: InternalKeyComparator_def internal_successor_length)
  assume a: "Compare (InternalKeyComparator BytewiseComparator) limit e \<le> 0" "ExtractUserKey k = ExtractUserKey e"
    "Compare (InternalKeyComparator BytewiseComparator) k (FindShortestSeparator (InternalKeyComparator BytewiseComparator) start limit) \<le> 0"
  show "Compare (InternalKeyComparator BytewiseComparator) k start \<le> 0"
  proof (cases rule: bytewise.internal_separator_cases [of start limit])
    case keep
    then show ?thesis using a(3) by (simp add: InternalKeyComparator_def)
  next
    case (shorten tmp tag)
    have "Compare BytewiseComparator (ExtractUserKey limit) (ExtractUserKey e) \<le> 0"
      using a(1) by (auto simp: InternalKeyComparator_def bytewise.internal_compare_le)
    moreover have "Compare BytewiseComparator (ExtractUserKey e) tmp \<le> 0"
      using a(2,3) shorten(1,2) by (auto simp: InternalKeyComparator_def bytewise.internal_compare_le ExtractUserKey_def)
    ultimately show ?thesis
      using bytewise.separator_less [OF shorten(5)] bytewise.compare_trans bytewise.compare_gt_iff shorten(3) by (metis not_less)
  qed
qed

interpretation ikc_writer: table_writer "InternalKeyComparator BytewiseComparator" ExtractUserKey
  "InternalFilterPolicy (bloom_policy n)" "\<lambda>keys i. CreateFilter (NewBloomFilterPolicy n) keys [] i"
  WritableFileImpl file_state_ok file_contents
  by unfold_locales

section \<open>Properties\<close>

text \<open>
  C28. Write errors of filter units can get lost. The loop over the units goes on after a failed
  append and overwrites the status, so if the last unit is written, the status is OK whatever
  happened to the others, while the handle still has the place and the size that all of them should
  have had.
\<close>

theorem filter_write_errors_lost:
  assumes "wf_Append ops u (tb_file (snd (WriteRawFilters ops us t r))) = (OK, f)" "wf_Append ops (block_trailer u t) f = (OK, f')"
  shows "\<exists>r'. WriteRawFilters ops (us @ [u]) t r = (\<lparr>bh_offset = tb_offset r, bh_size = of_nat (length ((us @ [u]) ! 0))\<rparr>, r') \<and>
    tb_status r' = OK \<and> tb_file r' = f' \<and>
    tb_offset r' = tb_offset (snd (WriteRawFilters ops us t r)) + of_nat (length u + kBlockTrailerSize)"
  using assms by (simp add: WriteRawFilters_def WriteRawBlock_def Let_def split: prod.splits)

theorem filter_write_errors_lost_witness:
  "\<exists>(ops :: (bool \<times> bytes) WritableFile) r r'.
    fst (wf_Append ops [1] (tb_file r)) \<noteq> OK \<and> snd (WriteRawFilters ops [[1], [2]] kNoCompression r) = r' \<and>
    tb_status r' = OK \<and> snd (tb_file r') = 2 # block_trailer [2] kNoCompression"
proof -
  define ops :: "(bool \<times> bytes) WritableFile" where
    "ops = \<lparr>wf_Append = (\<lambda>d (broken, f). if broken then (Failed kIOError ''disk'', (False, f)) else (OK, (False, f @ d))),
       wf_Flush = (\<lambda>x. (OK, x))\<rparr>"
  fix opt
  define r where "r = TableBuilder_new opt (True, [] :: bytes)"
  have f: "tb_file (snd (WriteRawFilters ops [[1]] kNoCompression r)) = (False, [])"
    by (simp add: WriteRawFilters_def WriteRawBlock_def Let_def ops_def r_def TableBuilder_new_def Rep_new_def)
  have "wf_Append ops [2] (False, []) = (OK, (False, [2]))"
    "wf_Append ops (block_trailer [2] kNoCompression) (False, [2]) = (OK, (False, [2] @ block_trailer [2] kNoCompression))"
    by (simp_all add: ops_def)
  with filter_write_errors_lost [of ops "[2]" "[[1]]" kNoCompression r "(False, [2])" "(False, [2] @ block_trailer [2] kNoCompression)"] f
  obtain r' where
    "WriteRawFilters ops [[1], [2]] kNoCompression r = (\<lparr>bh_offset = tb_offset r, bh_size = 1\<rparr>, r')" "tb_status r' = OK"
    "snd (tb_file r') = 2 # block_trailer [2] kNoCompression" by auto
  moreover have "fst (wf_Append ops [1] (tb_file r)) \<noteq> OK" by (simp add: ops_def r_def TableBuilder_new_def Rep_new_def)
  ultimately show ?thesis by (intro exI [of _ ops] exI [of _ r] exI [of _ r']) simp
qed

end
