(* ===== verification/MultiQueue.thy ===== *)
theory MultiQueue
  imports FilterBlock "HOL-Library.Monad_Syntax"
begin

text \<open>
  \<open>util/multi_queue.cc\<close>: the filter readers of all tables in seven queues by the number of units they
  hold, and the adjustment that evicts units of cold readers in favour of a hot one. A handle is an
  address in a heap; a queue lists its handles from the most to the least recently used.
\<close>

section \<open>State\<close>

type_synonym handle = nat

record QueueHandle =
  qh_key :: bytes
  qh_reader :: FilterBlockReader

record InternalMultiQueue =
  mq_usage :: u64
  mq_adjustment_time :: u64
  mq_queues :: "handle list list"
  mq_map :: "bytes \<Rightarrow> handle option"
  mq_heap :: "handle \<Rightarrow> QueueHandle option"
  mq_next :: handle
  mq_scheduled :: "handle list"

definition InternalMultiQueue_new :: InternalMultiQueue where
  "InternalMultiQueue_new =
     \<lparr>mq_usage = 0, mq_adjustment_time = 0, mq_queues = replicate (kAllFilterUnitsNumber + 1) [],
      mq_map = (\<lambda>_. None), mq_heap = (\<lambda>_. None), mq_next = 0, mq_scheduled = []\<rparr>"

text \<open>Dereferencing a handle; \<open>None\<close> is a pointer to freed memory.\<close>

definition get_reader :: "handle \<Rightarrow> InternalMultiQueue \<Rightarrow> FilterBlockReader option" where
  "get_reader h mq = map_option qh_reader (mq_heap mq h)"

definition put_reader :: "handle \<Rightarrow> FilterBlockReader \<Rightarrow> InternalMultiQueue \<Rightarrow> InternalMultiQueue" where
  "put_reader h r mq = mq\<lparr>mq_heap := (mq_heap mq)(h := map_option (\<lambda>q. q\<lparr>qh_reader := r\<rparr>) (mq_heap mq h))\<rparr>"

section \<open>Queues\<close>

text \<open>
  \<open>Queue_Remove\<close> unlinks a handle from its neighbours, whichever queue it is in; \<open>Queue_Append\<close> links it
  behind the head of a queue, an index out of range is \<open>None\<close>.
\<close>

definition Queue_Remove :: "handle \<Rightarrow> InternalMultiQueue \<Rightarrow> InternalMultiQueue" where
  "Queue_Remove h mq = mq\<lparr>mq_queues := map (remove1 h) (mq_queues mq)\<rparr>"

definition Queue_Append :: "nat \<Rightarrow> handle \<Rightarrow> InternalMultiQueue \<Rightarrow> InternalMultiQueue option" where
  "Queue_Append n h mq =
     (if n < length (mq_queues mq) then Some (mq\<lparr>mq_queues := (mq_queues mq)[n := h # mq_queues mq ! n]\<rparr>) else None)"

definition MoveToMRU :: "nat \<Rightarrow> handle \<Rightarrow> InternalMultiQueue \<Rightarrow> InternalMultiQueue option" where
  "MoveToMRU n h mq = Queue_Append n h (Queue_Remove h mq)"

text \<open>\<open>SingleQueue::FindColdFilter\<close>: from the least recently used handle on, while bytes are missing.\<close>

fun cold_scan :: "(handle \<Rightarrow> FilterBlockReader option) \<Rightarrow> SequenceNumber \<Rightarrow> handle list \<Rightarrow> u64 \<times> handle list \<Rightarrow> (u64 \<times> handle list) option" where
  "cold_scan rd sn [] (memory, filters) = Some (memory, filters)"
| "cold_scan rd sn (e # es) (memory, filters) = do {
     reader \<leftarrow> rd e;
     if IsCold sn reader then
       (let (memory, filters) =
              (if fr_access_time reader \<noteq> 0 then (memory - of_nat (OneUnitSize reader), filters @ [e]) else (memory, filters))
        in if memory > 0 then cold_scan rd sn es (memory, filters) else Some (memory, filters))
     else Some (memory, filters)
   }"

text \<open>\<open>InternalMultiQueue::FindColdFilter\<close>: the queues from the highest number down to 1.\<close>

fun cold_queues :: "InternalMultiQueue \<Rightarrow> SequenceNumber \<Rightarrow> nat \<Rightarrow> u64 \<times> handle list \<Rightarrow> (u64 \<times> handle list) option" where
  "cold_queues mq sn 0 (memory, filters) = Some (memory, filters)"
| "cold_queues mq sn (Suc i) (memory, filters) =
     (if memory > 0 then do {
        acc \<leftarrow> cold_scan (\<lambda>h. get_reader h mq) sn (rev (mq_queues mq ! Suc i)) (memory, filters);
        cold_queues mq sn i acc
      } else Some (memory, filters))"

definition FindColdFilter :: "u64 \<Rightarrow> SequenceNumber \<Rightarrow> InternalMultiQueue \<Rightarrow> handle list option" where
  "FindColdFilter memory sn mq = do {
     (memory, filters) \<leftarrow> cold_queues mq sn kAllFilterUnitsNumber (memory, []);
     Some (if memory > 0 then [] else filters)
   }"

section \<open>Adjustment\<close>

text \<open>The two sums over the readers; the floating-point numbers of the source are reals here.\<close>

fun sum_ios :: "(FilterBlockReader \<Rightarrow> real option) \<Rightarrow> InternalMultiQueue \<Rightarrow> handle list \<Rightarrow> real \<Rightarrow> real option" where
  "sum_ios f mq [] acc = Some acc"
| "sum_ios f mq (h # hs) acc = do {
     reader \<leftarrow> get_reader h mq;
     x \<leftarrow> f reader;
     sum_ios f mq hs (acc + x)
   }"

fun all_evictable :: "InternalMultiQueue \<Rightarrow> handle list \<Rightarrow> bool option" where
  "all_evictable mq [] = Some True"
| "all_evictable mq (h # hs) = do {
     reader \<leftarrow> get_reader h mq;
     e \<leftarrow> CanBeEvict reader;
     if \<not> e then Some False else all_evictable mq hs
   }"

definition CanBeAdjusted :: "handle list \<Rightarrow> handle \<Rightarrow> InternalMultiQueue \<Rightarrow> (bool \<times> InternalMultiQueue) option" where
  "CanBeAdjusted colds hot mq = do {
     e \<leftarrow> all_evictable mq colds;
     if \<not> e then Some (False, mq)
     else do {
       reader \<leftarrow> get_reader hot mq;
       original_ios \<leftarrow> sum_ios IOs mq colds 0;
       x \<leftarrow> IOs reader;
       adjusted_ios \<leftarrow> sum_ios EvictIOs mq colds 0;
       y \<leftarrow> LoadIOs reader;
       Some (if adjusted_ios + y < original_ios + x
             then (True, mq\<lparr>mq_adjustment_time := mq_adjustment_time mq + 1\<rparr>)
             else (False, mq))
     }
   }"

definition LoadHandle :: "Compression \<Rightarrow> handle \<Rightarrow> InternalMultiQueue \<Rightarrow> (Status \<times> InternalMultiQueue) option" where
  "LoadHandle lib h mq = do {
     reader \<leftarrow> get_reader h mq;
     number \<leftarrow> FilterUnitsNumber reader;
     if number < kAllFilterUnitsNumber then do {
       mq \<leftarrow> Queue_Append (number + 1) h (Queue_Remove h mq);
       (s, reader) \<leftarrow> LoadFilter lib reader;
       Some (s, put_reader h reader mq)
     } else Some (Corruption ''There is a full reader!'' [], mq)
   }"

definition EvictHandle :: "handle \<Rightarrow> InternalMultiQueue \<Rightarrow> (Status \<times> InternalMultiQueue) option" where
  "EvictHandle h mq = do {
     reader \<leftarrow> get_reader h mq;
     number \<leftarrow> FilterUnitsNumber reader;
     if number \<ge> 1 then do {
       mq \<leftarrow> Queue_Append (number - 1) h (Queue_Remove h mq);
       (let (s, reader) = EvictFilter reader in Some (s, put_reader h reader mq))
     } else Some (Corruption ''There is not filter units to evict!'' [], mq)
   }"

definition adjustment_failed :: "InternalMultiQueue \<Rightarrow> InternalMultiQueue" where
  "adjustment_failed mq = mq\<lparr>mq_adjustment_time := mq_adjustment_time mq - 1\<rparr>"

fun ApplyAdjustment :: "Compression \<Rightarrow> handle list \<Rightarrow> handle \<Rightarrow> InternalMultiQueue \<Rightarrow> InternalMultiQueue option" where
  "ApplyAdjustment lib [] hot mq = do {
     (s, mq) \<leftarrow> LoadHandle lib hot mq;
     Some (if \<not> ok s then adjustment_failed mq else mq)
   }"
| "ApplyAdjustment lib (cold # colds) hot mq = do {
     (s, mq) \<leftarrow> EvictHandle cold mq;
     if \<not> ok s then Some (adjustment_failed mq) else ApplyAdjustment lib colds hot mq
   }"

definition Adjustment :: "Compression \<Rightarrow> handle \<Rightarrow> SequenceNumber \<Rightarrow> InternalMultiQueue \<Rightarrow> InternalMultiQueue option" where
  "Adjustment lib hot sn mq = do {
     reader \<leftarrow> get_reader hot mq;
     l \<leftarrow> CanBeLoaded reader;
     if \<not> l then Some mq
     else do {
       cold \<leftarrow> FindColdFilter (of_nat (OneUnitSize reader)) sn mq;
       if cold = [] then Some mq
       else do {
         (adjust, mq) \<leftarrow> CanBeAdjusted cold hot mq;
         if adjust then ApplyAdjustment lib cold hot mq else Some mq
       }
     }
   }"

section \<open>The operations\<close>

text \<open>
  \<open>Insert\<close> schedules the first load of the reader; \<open>LoadFilterBGWork\<close> is the scheduled call, which the
  background thread makes at some later time.
\<close>

definition mq_Insert :: "bytes \<Rightarrow> FilterBlockReader option \<Rightarrow> InternalMultiQueue \<Rightarrow> (handle option \<times> InternalMultiQueue) option" where
  "mq_Insert key reader mq =
     (case reader of
        None \<Rightarrow> Some (None, mq)
      | Some r \<Rightarrow> do {
          let number = unat (fr_init_units_number r);
          let h = mq_next mq;
          mq \<leftarrow> Queue_Append number h (mq\<lparr>mq_heap := (mq_heap mq)(h \<mapsto> \<lparr>qh_key = key, qh_reader = r\<rparr>), mq_next := h + 1\<rparr>);
          Some (Some h, mq\<lparr>mq_map := (if mq_map mq key = None then (mq_map mq)(key \<mapsto> h) else mq_map mq),
                  mq_usage := mq_usage mq + of_nat (number * OneUnitSize r), mq_scheduled := mq_scheduled mq @ [h]\<rparr>)
        })"

definition LoadFilterBGWork :: "Compression \<Rightarrow> handle \<Rightarrow> InternalMultiQueue \<Rightarrow> InternalMultiQueue option" where
  "LoadFilterBGWork lib h mq = do {
     reader \<leftarrow> get_reader h mq;
     (s, reader) \<leftarrow> InitLoadFilter lib reader;
     Some ((put_reader h reader mq)\<lparr>mq_scheduled := remove1 h (mq_scheduled mq)\<rparr>)
   }"

definition DoAdjustment :: "Compression \<Rightarrow> handle \<Rightarrow> SequenceNumber \<Rightarrow> InternalMultiQueue \<Rightarrow> InternalMultiQueue option" where
  "DoAdjustment lib h sn mq = do {
     reader \<leftarrow> get_reader h mq;
     number \<leftarrow> FilterUnitsNumber reader;
     mq \<leftarrow> MoveToMRU number h mq;
     Adjustment lib h sn mq
   }"

definition ParseKey :: "bytes \<Rightarrow> SequenceNumber option" where
  "ParseKey key =
     (let n = length key
      in if n < 8 then None
         else
           let num = DecodeFixed64 (drop (n - 8) key)
           in if num AND 0xff \<le> value_type_code kTypeValue then Some (drop_bit 8 num) else None)"

definition UpdateHandle :: "Compression \<Rightarrow> handle \<Rightarrow> u64 \<Rightarrow> bytes \<Rightarrow> InternalMultiQueue \<Rightarrow> (bool \<times> InternalMultiQueue) option" where
  "UpdateHandle lib h block_offset key mq =
     (case ParseKey key of
        None \<Rightarrow> Some (True, mq)
      | Some sn \<Rightarrow> do {
          reader \<leftarrow> get_reader h mq;
          mq \<leftarrow> DoAdjustment lib h sn (put_reader h (UpdateState sn reader) mq);
          reader \<leftarrow> get_reader h mq;
          b \<leftarrow> reader_KeyMayMatch block_offset key reader;
          Some (b, mq)
        })"

definition mq_Lookup :: "bytes \<Rightarrow> InternalMultiQueue \<Rightarrow> handle option" where
  "mq_Lookup key mq = mq_map mq key"

text \<open>\<open>usage_ += (init - filter) * size\<close> in \<open>size_t\<close>.\<close>

definition GoBackToInitFilter ::
  "Compression \<Rightarrow> handle \<Rightarrow> RandomAccessFile option \<Rightarrow> InternalMultiQueue \<Rightarrow> InternalMultiQueue option" where
  "GoBackToInitFilter lib h file mq = do {
     reader \<leftarrow> get_reader h mq;
     filter_number \<leftarrow> FilterUnitsNumber reader;
     let init_filter_number = unat (fr_init_units_number reader);
     mq \<leftarrow> Queue_Append init_filter_number h (Queue_Remove h mq);
     (s, reader') \<leftarrow> reader_GoBackToInitFilter lib file reader;
     Some ((put_reader h reader' mq)\<lparr>mq_usage := mq_usage mq + (of_nat init_filter_number - of_nat filter_number) * of_nat (OneUnitSize reader)\<rparr>)
   }"

definition mq_Release :: "handle \<Rightarrow> InternalMultiQueue \<Rightarrow> InternalMultiQueue option" where
  "mq_Release h mq = do {
     reader \<leftarrow> get_reader h mq;
     n \<leftarrow> reader_Size reader;
     let (s, reader) = CleanFilter reader;
     Some ((put_reader h reader mq)\<lparr>mq_usage := mq_usage mq - of_nat n\<rparr>)
   }"

definition mq_Erase :: "bytes \<Rightarrow> InternalMultiQueue \<Rightarrow> InternalMultiQueue option" where
  "mq_Erase key mq =
     (case mq_map mq key of
        None \<Rightarrow> Some mq
      | Some h \<Rightarrow> do {
          reader \<leftarrow> get_reader h mq;
          n \<leftarrow> reader_Size reader;
          let mq = Queue_Remove h mq;
          Some (mq\<lparr>mq_usage := mq_usage mq - of_nat n, mq_heap := (mq_heap mq)(h := None), mq_map := (mq_map mq)(key := None)\<rparr>)
        })"

definition TotalCharge :: "InternalMultiQueue \<Rightarrow> u64" where
  "TotalCharge mq = mq_usage mq"

definition mq_SetAccessTime :: "bytes \<Rightarrow> u64 \<Rightarrow> InternalMultiQueue \<Rightarrow> InternalMultiQueue option" where
  "mq_SetAccessTime key t mq =
     (case mq_map mq key of
        None \<Rightarrow> Some mq
      | Some h \<Rightarrow> do {
          reader \<leftarrow> get_reader h mq;
          Some (put_reader h (reader_SetAccessTime t reader) mq)
        })"

definition GetAccessTime :: "bytes \<Rightarrow> InternalMultiQueue \<Rightarrow> u64 option" where
  "GetAccessTime key mq =
     (case mq_map mq key of
        None \<Rightarrow> Some 0
      | Some h \<Rightarrow> map_option fr_access_time (get_reader h mq))"

section \<open>The invariant\<close>

text \<open>The queue a reader belongs to: by its units, or before its first load by the units that will load.\<close>

definition slot :: "FilterBlockReader \<Rightarrow> nat" where
  "slot r = (if fr_init_done r then length (fr_filter_units r) else unat (fr_init_units_number r))"

text \<open>A reader whose six units can be read from its file.\<close>

definition unit_handle :: "FilterBlockReader \<Rightarrow> nat \<Rightarrow> BlockHandle" where
  "unit_handle r m = \<lparr>bh_offset = fr_disk_offset r + (ucast (fr_disk_size r) + of_nat kBlockTrailerSize) * of_nat m,
     bh_size = ucast (fr_disk_size r)\<rparr>"

definition loadable :: "Compression \<Rightarrow> FilterBlockReader \<Rightarrow> bool" where
  "loadable lib r \<longleftrightarrow> fr_all_units_number r = 6 \<and> unat (fr_init_units_number r) \<le> 6 \<and> length (fr_filter_units r) \<le> 6 \<and>
     unat (fr_reload_units_number r) \<le> 6 \<and> (fr_init_done r \<or> fr_filter_units r = []) \<and> fr_base_lg r < 64 \<and>
     (\<forall>m<6. \<exists>bc. ReadBlock lib (fr_file r) True (unit_handle r m) = Some (OK, bc))"

definition live :: "InternalMultiQueue \<Rightarrow> handle set" where
  "live mq = dom (mq_heap mq)"

definition reader_of :: "InternalMultiQueue \<Rightarrow> handle \<Rightarrow> FilterBlockReader" where
  "reader_of mq h = qh_reader (the (mq_heap mq h))"

text \<open>
  Every handle is in one queue; that queue fits its reader, except for the handles in \<open>S\<close>, which have been
  released or sent back to their first number of units.
\<close>

definition placed :: "handle set \<Rightarrow> InternalMultiQueue \<Rightarrow> bool" where
  "placed S mq \<longleftrightarrow> length (mq_queues mq) = 7 \<and> (\<forall>n<7. distinct (mq_queues mq ! n)) \<and>
     (\<forall>m<7. \<forall>n<7. \<forall>h. h \<in> set (mq_queues mq ! m) \<and> h \<in> set (mq_queues mq ! n) \<longrightarrow> m = n) \<and>
     (\<forall>h. h \<in> live mq \<longleftrightarrow> (\<exists>n<7. h \<in> set (mq_queues mq ! n))) \<and>
     (\<forall>n<7. \<forall>h\<in>set (mq_queues mq ! n). h \<notin> S \<longrightarrow> slot (reader_of mq h) = n)"

definition mq_wf :: "Compression \<Rightarrow> handle set \<Rightarrow> InternalMultiQueue \<Rightarrow> bool" where
  "mq_wf lib S mq \<longleftrightarrow> placed S mq \<and> finite (live mq) \<and>
     (\<forall>h\<in>live mq. loadable lib (reader_of mq h) \<and> h < mq_next mq \<and> (fr_init_done (reader_of mq h) \<longleftrightarrow> h \<notin> set (mq_scheduled mq))) \<and>
     distinct (mq_scheduled mq) \<and> set (mq_scheduled mq) \<subseteq> live mq \<and>
     (\<forall>key h. mq_map mq key = Some h \<longleftrightarrow> h \<in> live mq \<and> qh_key (the (mq_heap mq h)) = key)"

definition cost :: "FilterBlockReader \<Rightarrow> u64" where
  "cost r = of_nat (slot r * OneUnitSize r)"

definition charge :: "InternalMultiQueue \<Rightarrow> u64" where
  "charge mq = (\<Sum>h\<in>live mq. cost (reader_of mq h))"

text \<open>The recorded usage is the memory of all units and an error of \<open>d\<close>.\<close>

definition mq_ok :: "Compression \<Rightarrow> handle set \<Rightarrow> u64 \<Rightarrow> InternalMultiQueue \<Rightarrow> bool" where
  "mq_ok lib S d mq \<longleftrightarrow> mq_wf lib S mq \<and> mq_usage mq = charge mq + d"

lemma placed_unique: "placed S mq \<Longrightarrow> m < 7 \<Longrightarrow> n < 7 \<Longrightarrow> h \<in> set (mq_queues mq ! m) \<Longrightarrow> h \<in> set (mq_queues mq ! n) \<Longrightarrow> m = n"
  unfolding placed_def by metis

lemma placed_cong:
  "placed S mq \<Longrightarrow> mq_queues mq' = mq_queues mq \<Longrightarrow> live mq' = live mq \<Longrightarrow>
   (\<forall>x. x \<notin> S \<longrightarrow> slot (reader_of mq' x) = slot (reader_of mq x)) \<Longrightarrow> placed S mq'"
  by (simp add: placed_def)

lemma placed_mono:
  assumes "placed S mq" "S \<subseteq> S'"
  shows "placed S' mq"
proof -
  have "slot (reader_of mq h) = n" if "n < 7" "h \<in> set (mq_queues mq ! n)" "h \<notin> S'" for n h
  proof -
    have "h \<notin> S" using that(3) assms(2) by blast
    then show ?thesis using assms(1) that(1,2) by (simp add: placed_def)
  qed
  then show ?thesis using assms(1) by (simp add: placed_def)
qed

lemma placed_queue: "placed S mq \<Longrightarrow> n < 7 \<Longrightarrow> h \<in> set (mq_queues mq ! n) \<Longrightarrow> h \<in> live mq"
  by (auto simp: placed_def)

lemma get_reader_live: "h \<in> live mq \<Longrightarrow> get_reader h mq = Some (reader_of mq h)"
  by (auto simp: live_def get_reader_def reader_of_def)

lemma get_reader_SomeD: "get_reader h mq = Some r \<Longrightarrow> h \<in> live mq \<and> r = reader_of mq h"
  by (auto simp: live_def get_reader_def reader_of_def)

lemma put_reader_facts [simp]:
  "live (put_reader h r mq) = live mq" "mq_queues (put_reader h r mq) = mq_queues mq" "mq_usage (put_reader h r mq) = mq_usage mq"
  "mq_map (put_reader h r mq) = mq_map mq" "mq_next (put_reader h r mq) = mq_next mq" "mq_scheduled (put_reader h r mq) = mq_scheduled mq"
  by (auto simp: live_def put_reader_def)

lemma reader_of_put: "h \<in> live mq \<Longrightarrow> reader_of (put_reader h r mq) h' = (if h' = h then r else reader_of mq h')"
  by (auto simp: live_def reader_of_def put_reader_def)

lemma qh_key_put: "h \<in> live mq \<Longrightarrow> qh_key (the (mq_heap (put_reader h r mq) h')) = qh_key (the (mq_heap mq h'))"
  by (auto simp: live_def put_reader_def)

lemma charge_put:
  assumes "finite (live mq)" "h \<in> live mq"
  shows "charge (put_reader h r mq) = charge mq - cost (reader_of mq h) + cost r"
proof -
  have "(\<Sum>x\<in>live mq - {h}. cost (reader_of (put_reader h r mq) x)) = (\<Sum>x\<in>live mq - {h}. cost (reader_of mq x))"
    using assms(2) by (intro sum.cong) (auto simp: reader_of_put)
  then show ?thesis
    using assms by (simp add: charge_def sum.remove [OF assms] reader_of_put)
qed

text \<open>The queues do not matter for the charge, and moving a handle to the queue of its reader is well-formed.\<close>

lemma queue_irrelevant [simp]:
  "live (mq\<lparr>mq_queues := qs\<rparr>) = live mq" "reader_of (mq\<lparr>mq_queues := qs\<rparr>) = reader_of mq" "charge (mq\<lparr>mq_queues := qs\<rparr>) = charge mq"
  "get_reader h (mq\<lparr>mq_queues := qs\<rparr>) = get_reader h mq"
  by (simp_all add: live_def reader_of_def charge_def get_reader_def fun_eq_iff)

definition relocate :: "nat \<Rightarrow> handle \<Rightarrow> InternalMultiQueue \<Rightarrow> InternalMultiQueue" where
  "relocate n h mq = mq\<lparr>mq_queues := (map (remove1 h) (mq_queues mq))[n := h # remove1 h (mq_queues mq ! n)]\<rparr>"

lemma Queue_Append_Remove: "n < length (mq_queues mq) \<Longrightarrow> Queue_Append n h (Queue_Remove h mq) = Some (relocate n h mq)"
  by (simp add: Queue_Append_def Queue_Remove_def relocate_def)

lemma placed_relocate:
  assumes "placed S mq" "h \<in> live mq" "h \<notin> S \<Longrightarrow> slot r = n" "n < 7"
  shows "placed S (put_reader h r (relocate n h mq))"
proof -
  define mq' where "mq' = put_reader h r (relocate n h mq)"
  have q: "length (mq_queues mq) = 7" "\<And>m. m < 7 \<Longrightarrow> distinct (mq_queues mq ! m)"
    "\<And>m n x. m < 7 \<Longrightarrow> n < 7 \<Longrightarrow> x \<in> set (mq_queues mq ! m) \<Longrightarrow> x \<in> set (mq_queues mq ! n) \<Longrightarrow> m = n"
    "\<And>x. x \<in> live mq \<longleftrightarrow> (\<exists>n<7. x \<in> set (mq_queues mq ! n))"
    "\<And>m x. m < 7 \<Longrightarrow> x \<in> set (mq_queues mq ! m) \<Longrightarrow> x \<notin> S \<Longrightarrow> slot (reader_of mq x) = m"
    using assms(1) by (auto simp: placed_def)
  have l: "live mq' = live mq" "reader_of mq' x = (if x = h then r else reader_of mq x)" for x
    using assms(2) by (simp_all add: mq'_def relocate_def reader_of_put)
  have at: "mq_queues mq' ! m = (if m = n then h # remove1 h (mq_queues mq ! n) else remove1 h (mq_queues mq ! m))" if "m < 7" for m
    using that q(1) assms(4) by (simp add: mq'_def relocate_def nth_list_update)
  have mem: "x \<in> set (mq_queues mq' ! m) \<longleftrightarrow> (if x = h then m = n else x \<in> set (mq_queues mq ! m))" if "m < 7" for m x
    using q(2) [OF that] q(2) [OF assms(4)] by (auto simp: at [OF that] set_remove1_eq)
  have "length (mq_queues mq') = 7" using q(1) by (simp add: mq'_def relocate_def)
  moreover have "distinct (mq_queues mq' ! m)" if "m < 7" for m
    using q(2) [OF that] q(2) [OF assms(4)] by (simp add: at [OF that] set_remove1_eq distinct_remove1)
  moreover have "x \<in> live mq' \<longleftrightarrow> (\<exists>m<7. x \<in> set (mq_queues mq' ! m))" for x
  proof (cases "x = h")
    case True
    then show ?thesis using assms(2,4) by (auto simp: l mem intro!: exI [of _ n])
  next
    case False
    then have "(\<exists>m<7. x \<in> set (mq_queues mq' ! m)) = (\<exists>m<7. x \<in> set (mq_queues mq ! m))" using mem by (metis (full_types))
    then show ?thesis using q(4) [of x] by (simp add: l)
  qed
  moreover have "m = k" if "m < 7" "k < 7" "x \<in> set (mq_queues mq' ! m)" "x \<in> set (mq_queues mq' ! k)" for m k x
    using that q(3) by (auto simp: mem split: if_splits)
  moreover have "slot (reader_of mq' x) = m" if "m < 7" "x \<in> set (mq_queues mq' ! m)" "x \<notin> S" for m x
    using that q(5) assms(3) by (auto simp: l mem split: if_splits)
  ultimately show ?thesis unfolding placed_def mq'_def [symmetric] by blast
qed

lemma mq_wf_relocate:
  assumes "mq_wf lib S mq" "h \<in> live mq" "loadable lib r" "h \<notin> S \<Longrightarrow> slot r = n" "n < 7"
    "fr_init_done r = fr_init_done (reader_of mq h)"
  shows "mq_wf lib S (put_reader h r (relocate n h mq))"
proof -
  define mq' where "mq' = put_reader h r (relocate n h mq)"
  have l: "live mq' = live mq" "reader_of mq' x = (if x = h then r else reader_of mq x)"
    "qh_key (the (mq_heap mq' x)) = qh_key (the (mq_heap mq x))" for x
    using assms(2) by (simp_all add: mq'_def relocate_def reader_of_put qh_key_put)
  have same: "mq_map mq' = mq_map mq" "mq_next mq' = mq_next mq" "mq_scheduled mq' = mq_scheduled mq"
    by (simp_all add: mq'_def relocate_def)
  have "placed S mq'" unfolding mq'_def using assms(1,4,5) by (intro placed_relocate [OF _ assms(2)]) (auto simp: mq_wf_def)
  then have "mq_wf lib S mq'"
    using assms(1,2,3,6) unfolding mq_wf_def by (simp add: l same)
  then show ?thesis by (simp add: mq'_def)
qed

text \<open>A reader that stays in its queue.\<close>

lemma mq_wf_put:
  assumes "mq_wf lib S mq" "h \<in> live mq" "loadable lib r" "h \<notin> S \<Longrightarrow> slot r = slot (reader_of mq h)"
    "fr_init_done r = fr_init_done (reader_of mq h)"
  shows "mq_wf lib S (put_reader h r mq)"
proof -
  have "slot (reader_of (put_reader h r mq) x) = slot (reader_of mq x)" if "x \<notin> S" for x using assms(2,4) that by (auto simp: reader_of_put)
  then have "placed S (put_reader h r mq)" using assms(1) unfolding mq_wf_def placed_def by simp
  then show ?thesis
    using assms(1,2,3,5) unfolding mq_wf_def by (simp add: reader_of_put qh_key_put)
qed

section \<open>Moving one unit\<close>

lemma loadable_evict: "loadable lib r \<Longrightarrow> loadable lib (r\<lparr>fr_filter_units := butlast (fr_filter_units r)\<rparr>)"
  by (auto simp: loadable_def unit_handle_def)

lemma loadable_load:
  assumes "loadable lib r" "fr_init_done r" "length (fr_filter_units r) < 6"
  shows "\<exists>u. LoadFilter lib r = Some (OK, r\<lparr>fr_filter_units := fr_filter_units r @ [u]\<rparr>) \<and>
    loadable lib (r\<lparr>fr_filter_units := fr_filter_units r @ [u]\<rparr>)"
proof -
  obtain bc where "ReadBlock lib (fr_file r) True (unit_handle r (length (fr_filter_units r))) = Some (OK, bc)"
    using assms by (auto simp: loadable_def)
  moreover have "\<not> (of_nat (length (fr_filter_units r)) :: u64) \<ge> ucast (fr_all_units_number r)"
    using assms by (simp add: loadable_def word_le_nat_alt unat_of_nat_u64)
  ultimately have "LoadFilter lib r = Some (OK, r\<lparr>fr_filter_units := fr_filter_units r @ [bc_data bc]\<rparr>)"
    by (simp add: LoadFilter_def LoadFilterInternal_def unit_handle_def Let_def)
  moreover have "loadable lib (r\<lparr>fr_filter_units := fr_filter_units r @ [bc_data bc]\<rparr>)"
    using assms by (auto simp: loadable_def unit_handle_def)
  ultimately show ?thesis by blast
qed

text \<open>What stays the same when units are moved.\<close>

definition same_but :: "handle set \<Rightarrow> InternalMultiQueue \<Rightarrow> InternalMultiQueue \<Rightarrow> bool" where
  "same_but H mq mq' \<longleftrightarrow> live mq' = live mq \<and> mq_usage mq' = mq_usage mq \<and>
     (\<forall>h. OneUnitSize (reader_of mq' h) = OneUnitSize (reader_of mq h) \<and> fr_init_done (reader_of mq' h) = fr_init_done (reader_of mq h) \<and>
       (h \<notin> H \<longrightarrow> reader_of mq' h = reader_of mq h))"

lemma same_but_trans: "same_but H a b \<Longrightarrow> same_but K b d \<Longrightarrow> same_but (H \<union> K) a d"
  by (auto simp: same_but_def)

lemma mq_wf_readerD: "mq_wf lib S mq \<Longrightarrow> h \<in> live mq \<Longrightarrow> loadable lib (reader_of mq h)"
  by (simp add: mq_wf_def)

lemma mq_wf_queues: "mq_wf lib S mq \<Longrightarrow> length (mq_queues mq) = 7"
  by (simp add: mq_wf_def placed_def)

lemma relocate_facts [simp]:
  "live (relocate n h mq) = live mq" "reader_of (relocate n h mq) = reader_of mq" "charge (relocate n h mq) = charge mq"
  "mq_usage (relocate n h mq) = mq_usage mq"
  by (simp_all add: relocate_def)

lemma EvictHandle_ok:
  assumes "mq_wf lib S mq" "h \<in> live mq" "fr_init_done (reader_of mq h)" "fr_filter_units (reader_of mq h) \<noteq> []"
  shows "\<exists>mq'. EvictHandle h mq = Some (OK, mq') \<and> mq_wf lib S mq' \<and> same_but {h} mq mq' \<and>
    charge mq' = charge mq - of_nat (OneUnitSize (reader_of mq h)) \<and>
    length (fr_filter_units (reader_of mq' h)) = length (fr_filter_units (reader_of mq h)) - 1"
proof -
  define r where "r = reader_of mq h"
  define r' where "r' = r\<lparr>fr_filter_units := butlast (fr_filter_units r)\<rparr>"
  obtain n where n: "length (fr_filter_units r) = Suc n" using assms(4) by (cases "fr_filter_units r") (auto simp: r_def)
  have r: "loadable lib r" "fr_init_done r" "slot r = Suc n" "slot r' = n" "loadable lib r'" "n < 7" "OneUnitSize r' = OneUnitSize r"
    using mq_wf_readerD [OF assms(1,2)] assms(3) n loadable_evict [of lib r]
    by (auto simp: r_def r'_def slot_def OneUnitSize_def loadable_def)
  have fin: "finite (live mq)" using assms(1) by (simp add: mq_wf_def)
  have "EvictHandle h mq = Some (OK, put_reader h r' (relocate n h mq))"
    using get_reader_live [OF assms(2)] n r(2,6) mq_wf_queues [OF assms(1)] assms(4)
    by (simp add: EvictHandle_def FilterUnitsNumber_def Queue_Append_Remove EvictFilter_def EvictFilterInternal_def
        r_def [symmetric] r'_def [symmetric])
  moreover have "mq_wf lib S (put_reader h r' (relocate n h mq))"
    by (intro mq_wf_relocate [OF assms(1,2) r(5,4,6)]) (simp add: r'_def r_def)
  moreover have "charge (put_reader h r' (relocate n h mq)) = charge mq - of_nat (OneUnitSize r)"
    using charge_put [of "relocate n h mq" h r'] fin assms(2) r(3,4,7) by (simp add: cost_def r_def [symmetric] algebra_simps)
  moreover have "same_but {h} mq (put_reader h r' (relocate n h mq))"
    using assms(2) by (auto simp: same_but_def reader_of_put r_def r'_def OneUnitSize_def)
  ultimately show ?thesis
    using n assms(2) by (intro exI [of _ "put_reader h r' (relocate n h mq)"]) (simp add: r_def [symmetric] reader_of_put r'_def)
qed

lemma LoadHandle_ok:
  assumes "mq_wf lib S mq" "h \<in> live mq" "fr_init_done (reader_of mq h)" "length (fr_filter_units (reader_of mq h)) < 6"
  shows "\<exists>mq'. LoadHandle lib h mq = Some (OK, mq') \<and> mq_wf lib S mq' \<and> same_but {h} mq mq' \<and>
    charge mq' = charge mq + of_nat (OneUnitSize (reader_of mq h))"
proof -
  define r where "r = reader_of mq h"
  define n where "n = length (fr_filter_units r)"
  obtain u where u: "LoadFilter lib r = Some (OK, r\<lparr>fr_filter_units := fr_filter_units r @ [u]\<rparr>)"
    "loadable lib (r\<lparr>fr_filter_units := fr_filter_units r @ [u]\<rparr>)"
    using loadable_load [of lib r] mq_wf_readerD [OF assms(1,2)] assms(3,4) by (auto simp: r_def)
  define r' where "r' = r\<lparr>fr_filter_units := fr_filter_units r @ [u]\<rparr>"
  have r: "fr_init_done r" "slot r = n" "slot r' = Suc n" "n < 6" "OneUnitSize r' = OneUnitSize r"
    using assms(3,4) by (simp_all add: r_def r'_def n_def slot_def OneUnitSize_def)
  have fin: "finite (live mq)" using assms(1) by (simp add: mq_wf_def)
  have "LoadHandle lib h mq = Some (OK, put_reader h r' (relocate (Suc n) h mq))"
    using get_reader_live [OF assms(2)] r(1,4) mq_wf_queues [OF assms(1)] u(1)
    by (simp add: LoadHandle_def FilterUnitsNumber_def Queue_Append_Remove kAllFilterUnitsNumber_def r_def [symmetric] r'_def [symmetric] n_def [symmetric])
  moreover have "mq_wf lib S (put_reader h r' (relocate (Suc n) h mq))"
    using r(1,4) u(2) by (intro mq_wf_relocate [OF assms(1,2)]) (simp_all add: r(3) r'_def [symmetric], simp add: r'_def r_def)
  moreover have "charge (put_reader h r' (relocate (Suc n) h mq)) = charge mq + of_nat (OneUnitSize r)"
    using charge_put [of "relocate (Suc n) h mq" h r'] fin assms(2) r(2,3,5) by (simp add: cost_def r_def [symmetric] algebra_simps)
  moreover have "same_but {h} mq (put_reader h r' (relocate (Suc n) h mq))"
    using assms(2) by (auto simp: same_but_def reader_of_put r_def r'_def OneUnitSize_def)
  ultimately show ?thesis by (auto simp: r_def)
qed

definition unit_sizes :: "InternalMultiQueue \<Rightarrow> handle list \<Rightarrow> u64" where
  "unit_sizes mq hs = sum_list (map (\<lambda>h. of_nat (OneUnitSize (reader_of mq h))) hs)"

lemma ApplyAdjustment_ok:
  "mq_wf lib S mq \<Longrightarrow> set colds \<subseteq> live mq \<Longrightarrow> distinct colds \<Longrightarrow>
   (\<forall>h\<in>set colds. fr_init_done (reader_of mq h) \<and> fr_filter_units (reader_of mq h) \<noteq> []) \<Longrightarrow>
   hot \<in> live mq \<Longrightarrow> fr_init_done (reader_of mq hot) \<Longrightarrow> length (fr_filter_units (reader_of mq hot)) < 6 \<Longrightarrow>
   \<exists>mq'. ApplyAdjustment lib colds hot mq = Some mq' \<and> mq_wf lib S mq' \<and> same_but (insert hot (set colds)) mq mq' \<and>
     charge mq' = charge mq - unit_sizes mq colds + of_nat (OneUnitSize (reader_of mq hot))"
proof (induction colds arbitrary: mq)
  case Nil
  then obtain mq' where "LoadHandle lib hot mq = Some (OK, mq')" "mq_wf lib S mq'" "same_but {hot} mq mq'"
    "charge mq' = charge mq + of_nat (OneUnitSize (reader_of mq hot))"
    using LoadHandle_ok [of lib S mq hot] by auto
  then show ?case by (simp add: unit_sizes_def)
next
  case (Cons h colds)
  then obtain mq1 where e: "EvictHandle h mq = Some (OK, mq1)" "mq_wf lib S mq1" "same_but {h} mq mq1"
    "charge mq1 = charge mq - of_nat (OneUnitSize (reader_of mq h))"
    "length (fr_filter_units (reader_of mq1 h)) = length (fr_filter_units (reader_of mq h)) - 1"
    using EvictHandle_ok [of lib S mq h] by auto
  have same: "live mq1 = live mq" "\<And>x. OneUnitSize (reader_of mq1 x) = OneUnitSize (reader_of mq x)"
    "\<And>x. fr_init_done (reader_of mq1 x) = fr_init_done (reader_of mq x)" "\<And>x. x \<noteq> h \<Longrightarrow> reader_of mq1 x = reader_of mq x"
    using e(3) by (auto simp: same_but_def)
  have "length (fr_filter_units (reader_of mq1 hot)) < 6"
    using Cons.prems(7) e(5) same(4) [of hot] by (cases "hot = h") auto
  moreover have "\<forall>x\<in>set colds. fr_init_done (reader_of mq1 x) \<and> fr_filter_units (reader_of mq1 x) \<noteq> []"
    using Cons.prems(3,4) same(4) by (metis distinct.simps(2) list.set_intros(2))
  ultimately obtain mq' where m: "ApplyAdjustment lib colds hot mq1 = Some mq'" "mq_wf lib S mq'" "same_but (insert hot (set colds)) mq1 mq'"
    "charge mq' = charge mq1 - unit_sizes mq1 colds + of_nat (OneUnitSize (reader_of mq1 hot))"
    using Cons.IH [OF e(2)] Cons.prems same(1,3) by auto
  have "unit_sizes mq1 colds = unit_sizes mq colds" by (simp add: unit_sizes_def same(2))
  then have "charge mq' = charge mq - unit_sizes mq (h # colds) + of_nat (OneUnitSize (reader_of mq hot))"
    using m(4) e(4) same(2) by (simp add: unit_sizes_def)
  moreover have "same_but (insert hot (set (h # colds))) mq mq'"
    using same_but_trans [OF e(3) m(3)] by (simp add: insert_commute)
  ultimately show ?case using e(1) m(1,2) by simp
qed

section \<open>Cold readers\<close>

text \<open>
  The scan takes handles in the order of the queue and subtracts their unit sizes, wrapping around
  below zero.
\<close>

lemma cold_scan_result:
  "cold_scan (\<lambda>h. get_reader h mq) sn es (m, fs) = Some (m', fs') \<Longrightarrow>
   \<exists>gs. fs' = fs @ gs \<and> set gs \<subseteq> set es \<and> (distinct es \<longrightarrow> distinct gs) \<and> m' = m - unit_sizes mq gs \<and>
     set gs \<subseteq> {h \<in> live mq. IsCold sn (reader_of mq h) \<and> fr_access_time (reader_of mq h) \<noteq> 0}"
proof (induction es arbitrary: m fs)
  case Nil
  then show ?case by (simp add: unit_sizes_def)
next
  case (Cons e es)
  from Cons.prems obtain r where "get_reader e mq = Some r" by (auto simp: bind_eq_Some_conv)
  then have r: "e \<in> live mq" "get_reader e mq = Some (reader_of mq e)" using get_reader_SomeD [of e mq r] by auto
  let ?r = "reader_of mq e"
  define a where "a = (if fr_access_time ?r \<noteq> 0 then (m - of_nat (OneUnitSize ?r), [e]) else (m, []))"
  show ?case
  proof (cases "IsCold sn ?r")
    case False
    then show ?thesis using Cons.prems r by (auto simp: unit_sizes_def)
  next
    case True
    then have step: "(if fst a > 0 then cold_scan (\<lambda>h. get_reader h mq) sn es (fst a, fs @ snd a) else Some (fst a, fs @ snd a)) = Some (m', fs')"
      using Cons.prems r by (simp add: a_def split: if_splits)
    have a: "fst a = m - unit_sizes mq (snd a)" "set (snd a) \<subseteq> {e}" "distinct (snd a)"
      "set (snd a) \<subseteq> {h \<in> live mq. IsCold sn (reader_of mq h) \<and> fr_access_time (reader_of mq h) \<noteq> 0}"
      using r(1) True by (simp_all add: a_def unit_sizes_def)
    show ?thesis
    proof (cases "fst a > 0")
      case True
      then obtain gs where g: "fs' = (fs @ snd a) @ gs" "set gs \<subseteq> set es" "distinct es \<longrightarrow> distinct gs" "m' = fst a - unit_sizes mq gs"
        "set gs \<subseteq> {h \<in> live mq. IsCold sn (reader_of mq h) \<and> fr_access_time (reader_of mq h) \<noteq> 0}"
        using Cons.IH step by (metis (no_types, lifting))
      have "unit_sizes mq (snd a @ gs) = unit_sizes mq (snd a) + unit_sizes mq gs" by (simp add: unit_sizes_def)
      then show ?thesis
        using g a by (intro exI [of _ "snd a @ gs"]) auto
    next
      case False
      then show ?thesis using step a by (intro exI [of _ "snd a"]) auto
    qed
  qed
qed

lemma cold_queues_result:
  assumes "mq_wf lib S mq"
  shows "cold_queues mq sn n (m, fs) = Some (m', fs') \<Longrightarrow> n < 7 \<Longrightarrow>
    \<exists>gs. fs' = fs @ gs \<and> distinct gs \<and> m' = m - unit_sizes mq gs \<and> set gs \<subseteq> (\<Union>i\<in>{1..n}. set (mq_queues mq ! i)) \<and>
      set gs \<subseteq> {h \<in> live mq. IsCold sn (reader_of mq h) \<and> fr_access_time (reader_of mq h) \<noteq> 0}"
proof (induction n arbitrary: m fs)
  case 0
  then show ?case by (simp add: unit_sizes_def)
next
  case (Suc n)
  show ?case
  proof (cases "m > 0")
    case False
    then show ?thesis using Suc.prems by (simp add: unit_sizes_def)
  next
    case True
    with Suc.prems obtain m1 fs1 where s: "cold_scan (\<lambda>h. get_reader h mq) sn (rev (mq_queues mq ! Suc n)) (m, fs) = Some (m1, fs1)"
      "cold_queues mq sn n (m1, fs1) = Some (m', fs')" by (auto simp: bind_eq_Some_conv)
    from cold_scan_result [OF s(1)] obtain gs where g: "fs1 = fs @ gs" "set gs \<subseteq> set (mq_queues mq ! Suc n)"
      "distinct (mq_queues mq ! Suc n) \<longrightarrow> distinct gs" "m1 = m - unit_sizes mq gs"
      "set gs \<subseteq> {h \<in> live mq. IsCold sn (reader_of mq h) \<and> fr_access_time (reader_of mq h) \<noteq> 0}" by auto
    from Suc.IH [OF s(2)] Suc.prems(2) obtain hs where h: "fs' = fs1 @ hs" "distinct hs" "m' = m1 - unit_sizes mq hs"
      "set hs \<subseteq> (\<Union>i\<in>{1..n}. set (mq_queues mq ! i))"
      "set hs \<subseteq> {h \<in> live mq. IsCold sn (reader_of mq h) \<and> fr_access_time (reader_of mq h) \<noteq> 0}" by auto
    have at: "i = j" if "x \<in> set (mq_queues mq ! i)" "x \<in> set (mq_queues mq ! j)" "i < 7" "j < 7" for x i j
      using assms that by (auto simp: mq_wf_def placed_def)
    have "x \<notin> set hs" if "x \<in> set gs" for x
    proof
      assume "x \<in> set hs"
      then obtain i where "i \<in> {1..n}" "x \<in> set (mq_queues mq ! i)" using h(4) by blast
      then show False using at [of x i "Suc n"] g(2) that Suc.prems(2) by auto
    qed
    moreover have "distinct gs" using g(3) assms Suc.prems(2) by (simp add: mq_wf_def placed_def)
    moreover have "unit_sizes mq (gs @ hs) = unit_sizes mq gs + unit_sizes mq hs" by (simp add: unit_sizes_def)
    moreover have "set (gs @ hs) \<subseteq> (\<Union>i\<in>{1..Suc n}. set (mq_queues mq ! i))" using g(2) h(4) by fastforce
    ultimately show ?thesis using g h by (intro exI [of _ "gs @ hs"]) auto
  qed
qed

text \<open>Only an exact fit is used: the units to evict are together as large as the unit to load.\<close>

lemma FindColdFilter_exact:
  assumes "mq_wf lib S mq" "FindColdFilter memory sn mq = Some colds" "colds \<noteq> []"
  shows "unit_sizes mq colds = memory" "distinct colds" "set colds \<subseteq> {h \<in> live mq. IsCold sn (reader_of mq h) \<and> fr_access_time (reader_of mq h) \<noteq> 0}"
proof -
  obtain m' fs' where c: "cold_queues mq sn 6 (memory, []) = Some (m', fs')" "colds = (if m' > 0 then [] else fs')"
    using assms(2) by (auto simp: FindColdFilter_def bind_eq_Some_conv kAllFilterUnitsNumber_def)
  then have "m' = 0" "colds = fs'" using assms(3) by (auto split: if_splits simp: word_gt_0)
  with cold_queues_result [OF assms(1) c(1)] show "unit_sizes mq colds = memory" "distinct colds"
    "set colds \<subseteq> {h \<in> live mq. IsCold sn (reader_of mq h) \<and> fr_access_time (reader_of mq h) \<noteq> 0}" by auto
qed

lemma cold_scan_returns: "set es \<subseteq> live mq \<Longrightarrow> \<exists>x. cold_scan (\<lambda>h. get_reader h mq) sn es (m, fs) = Some x"
proof (induction es arbitrary: m fs)
  case (Cons e es)
  then show ?case using get_reader_live [of e mq] by (auto simp: Let_def)
qed simp

lemma cold_queues_returns:
  assumes "mq_wf lib S mq"
  shows "n < 7 \<Longrightarrow> \<exists>x. cold_queues mq sn n (m, fs) = Some x"
proof (induction n arbitrary: m fs)
  case (Suc n)
  have "set (rev (mq_queues mq ! Suc n)) \<subseteq> live mq" using assms Suc.prems placed_queue [of S mq "Suc n"] by (auto simp: mq_wf_def)
  from cold_scan_returns [OF this] obtain m1 fs1 where
    "cold_scan (\<lambda>h. get_reader h mq) sn (rev (mq_queues mq ! Suc n)) (m, fs) = Some (m1, fs1)" by fastforce
  then show ?case using Suc by simp
qed simp

section \<open>The operations keep the invariant\<close>

lemma all_evictable_True:
  "all_evictable mq hs = Some True \<Longrightarrow> h \<in> set hs \<Longrightarrow> fr_init_done (reader_of mq h) \<and> fr_filter_units (reader_of mq h) \<noteq> []"
proof (induction hs)
  case (Cons x hs)
  then show ?case
    using get_reader_SomeD [of x mq]
    by (auto simp: bind_eq_Some_conv CanBeEvict_def FilterUnitsNumber_def split: if_splits)
qed simp

lemma time_irrelevant [simp]:
  "live (mq\<lparr>mq_adjustment_time := t\<rparr>) = live mq" "reader_of (mq\<lparr>mq_adjustment_time := t\<rparr>) = reader_of mq"
  "charge (mq\<lparr>mq_adjustment_time := t\<rparr>) = charge mq" "mq_wf lib S (mq\<lparr>mq_adjustment_time := t\<rparr>) = mq_wf lib S mq"
  "unit_sizes (mq\<lparr>mq_adjustment_time := t\<rparr>) = unit_sizes mq" "same_but H (mq\<lparr>mq_adjustment_time := t\<rparr>) mq' = same_but H mq mq'"
  by (simp_all add: live_def reader_of_def charge_def mq_wf_def placed_def unit_sizes_def same_but_def fun_eq_iff)

definition kept :: "InternalMultiQueue \<Rightarrow> InternalMultiQueue \<Rightarrow> bool" where
  "kept mq mq' \<longleftrightarrow> live mq' = live mq \<and> (\<forall>h. fr_init_done (reader_of mq' h) = fr_init_done (reader_of mq h))"

lemma same_but_kept: "same_but H mq mq' \<Longrightarrow> kept mq mq'"
  by (auto simp: same_but_def kept_def)

lemma kept_trans: "kept a b \<Longrightarrow> kept b d \<Longrightarrow> kept a d"
  by (simp add: kept_def)

lemma Adjustment_ok:
  assumes "mq_ok lib S d mq" "Adjustment lib hot sn mq = Some mq'"
  shows "mq_ok lib S d mq'" "kept mq mq'"
proof -
  from assms(2) obtain r l where r: "get_reader hot mq = Some r" "CanBeLoaded r = Some l" by (auto simp: Adjustment_def bind_eq_Some_conv)
  then have hot: "hot \<in> live mq" "r = reader_of mq hot" using get_reader_SomeD by blast+
  have wf: "mq_wf lib S mq" "mq_usage mq = charge mq + d" using assms(1) by (simp_all add: mq_ok_def)
  have "mq_ok lib S d mq' \<and> kept mq mq'"
  proof (cases l)
    case False
    then show ?thesis using assms r by (simp add: Adjustment_def kept_def)
  next
    case True
    then have loaded: "fr_init_done (reader_of mq hot)" "length (fr_filter_units (reader_of mq hot)) < 6"
      using r(2) hot mq_wf_readerD [OF wf(1) hot(1)] by (auto simp: CanBeLoaded_def FilterUnitsNumber_def loadable_def split: if_splits)
    obtain cold where c: "FindColdFilter (of_nat (OneUnitSize r)) sn mq = Some cold"
      using assms(2) r True by (auto simp: Adjustment_def bind_eq_Some_conv)
    show ?thesis
    proof (cases "cold = []")
      case True
      then show ?thesis using assms r c \<open>l\<close> by (simp add: Adjustment_def kept_def)
    next
      case False
      then obtain a mq1 where a: "CanBeAdjusted cold hot mq = Some (a, mq1)" "(if a then ApplyAdjustment lib cold hot mq1 else Some mq1) = Some mq'"
        using assms(2) r c \<open>l\<close> by (auto simp: Adjustment_def bind_eq_Some_conv)
      note exact = FindColdFilter_exact [OF wf(1) c False]
      show ?thesis
      proof (cases a)
        case False
        then have "mq1 = mq" using a(1) by (auto simp: CanBeAdjusted_def bind_eq_Some_conv split: if_splits)
        then show ?thesis using a(2) False assms(1) by (simp add: kept_def)
      next
        case True
        then have e: "all_evictable mq cold = Some True" and mq1: "mq1 = mq\<lparr>mq_adjustment_time := mq_adjustment_time mq + 1\<rparr>"
          using a(1) by (auto simp: CanBeAdjusted_def bind_eq_Some_conv split: if_splits)
        have "\<exists>mq'. ApplyAdjustment lib cold hot mq1 = Some mq' \<and> mq_wf lib S mq' \<and> same_but (insert hot (set cold)) mq1 mq' \<and>
            charge mq' = charge mq1 - unit_sizes mq1 cold + of_nat (OneUnitSize (reader_of mq1 hot))"
          using wf(1) exact(2,3) hot(1) loaded all_evictable_True [OF e] by (intro ApplyAdjustment_ok) (auto simp: mq1)
        then have ok: "mq_wf lib S mq'" "same_but (insert hot (set cold)) mq mq'"
          "charge mq' = charge mq - unit_sizes mq cold + of_nat (OneUnitSize (reader_of mq hot))"
          using a(2) True by (auto simp: mq1)
        then have "mq_usage mq' = charge mq' + d" using wf(2) exact(1) hot(2) by (simp add: same_but_def)
        then show ?thesis using ok same_but_kept by (simp add: mq_ok_def)
      qed
    qed
  qed
  then show "mq_ok lib S d mq'" "kept mq mq'" by simp_all
qed

lemma DoAdjustment_ok:
  assumes "mq_ok lib S d mq" "DoAdjustment lib h sn mq = Some mq'"
  shows "mq_ok lib S d mq'" "kept mq mq'"
proof -
  from assms(2) obtain r n mq1 where r: "get_reader h mq = Some r" "FilterUnitsNumber r = Some n" "MoveToMRU n h mq = Some mq1"
    "Adjustment lib h sn mq1 = Some mq'" by (auto simp: DoAdjustment_def bind_eq_Some_conv)
  then have h: "h \<in> live mq" "r = reader_of mq h" using get_reader_SomeD by blast+
  have wf: "mq_wf lib S mq" using assms(1) by (simp add: mq_ok_def)
  have n: "slot r = n" "fr_init_done r" "n < 7" "loadable lib r"
    using r(2) h mq_wf_readerD [OF wf h(1)] by (auto simp: FilterUnitsNumber_def slot_def loadable_def split: if_splits)
  have mq1: "mq1 = relocate n h mq" using r(3) n(3) mq_wf_queues [OF wf] by (simp add: MoveToMRU_def Queue_Append_Remove)
  have "put_reader h r (relocate n h mq) = relocate n h mq"
    using h by (auto simp: put_reader_def reader_of_def live_def relocate_def fun_eq_iff intro!: InternalMultiQueue.equality)
  then have "mq_wf lib S mq1" using mq_wf_relocate [OF wf h(1) n(4,1,3)] h(2) by (simp add: mq1)
  then have "mq_ok lib S d mq1" "kept mq mq1" using assms(1) by (simp_all add: mq_ok_def mq1 kept_def)
  then show "mq_ok lib S d mq'" "kept mq mq'" using Adjustment_ok [OF _ r(4)] kept_trans by blast+
qed

lemma UpdateState_facts: "slot (UpdateState sn r) = slot r" "cost (UpdateState sn r) = cost r" "fr_init_done (UpdateState sn r) = fr_init_done r"
  "loadable lib (UpdateState sn r) = loadable lib r"
  by (simp_all add: UpdateState_def slot_def cost_def OneUnitSize_def loadable_def unit_handle_def)

lemma SetAccessTime_facts: "slot (reader_SetAccessTime t r) = slot r" "cost (reader_SetAccessTime t r) = cost r"
  "fr_init_done (reader_SetAccessTime t r) = fr_init_done r" "loadable lib (reader_SetAccessTime t r) = loadable lib r"
  by (simp_all add: reader_SetAccessTime_def slot_def cost_def OneUnitSize_def loadable_def unit_handle_def)

lemma mq_ok_put:
  assumes "mq_ok lib S d mq" "h \<in> live mq" "slot r = slot (reader_of mq h)" "cost r = cost (reader_of mq h)" "loadable lib r"
    "fr_init_done r = fr_init_done (reader_of mq h)"
  shows "mq_ok lib S d (put_reader h r mq)" "kept mq (put_reader h r mq)"
proof -
  have wf: "mq_wf lib S mq" "mq_usage mq = charge mq + d" "finite (live mq)"
    using assms by (auto simp: mq_ok_def mq_wf_def)
  show "mq_ok lib S d (put_reader h r mq)"
    using mq_wf_put [OF wf(1) assms(2,5,3,6)] charge_put [OF wf(3) assms(2)] wf(2) assms(4) by (simp add: mq_ok_def)
  show "kept mq (put_reader h r mq)" using assms(2,6) by (simp add: kept_def reader_of_put)
qed

lemma UpdateHandle_ok:
  assumes "mq_ok lib S d mq" "UpdateHandle lib h off key mq = Some (b, mq')"
  shows "mq_ok lib S d mq' \<and> kept mq mq'"
proof (cases "ParseKey key")
  case None
  then show ?thesis using assms by (simp add: UpdateHandle_def kept_def)
next
  case (Some sn)
  with assms(2) obtain r where r: "get_reader h mq = Some r" "DoAdjustment lib h sn (put_reader h (UpdateState sn r) mq) = Some mq'"
    by (auto simp: UpdateHandle_def bind_eq_Some_conv)
  then have h: "h \<in> live mq" "r = reader_of mq h" using get_reader_SomeD by blast+
  have "loadable lib r" using mq_wf_readerD [of lib S mq h] h assms(1) by (simp add: mq_ok_def)
  then have "mq_ok lib S d (put_reader h (UpdateState sn r) mq)" "kept mq (put_reader h (UpdateState sn r) mq)"
    using h by (intro mq_ok_put [OF assms(1)]; simp add: UpdateState_facts)+
  then show ?thesis using DoAdjustment_ok [OF _ r(2)] kept_trans by blast
qed

lemma load_until_loadable:
  "loadable lib (r\<lparr>fr_init_done := True\<rparr>) \<Longrightarrow> n \<le> 6 \<Longrightarrow> length (fr_filter_units r) \<le> n \<Longrightarrow>
   \<exists>us. load_until lib n r = Some (OK, r\<lparr>fr_filter_units := us\<rparr>) \<and> length us = n"
proof (induction "n - length (fr_filter_units r)" arbitrary: r)
  case 0
  then show ?case by (intro exI [of _ "fr_filter_units r"]) (subst load_until.simps, simp)
next
  case (Suc k)
  then have less: "length (fr_filter_units r) < n" by simp
  have "\<exists>bc. ReadBlock lib (fr_file r) True (unit_handle r m) = Some (OK, bc)" if "m < 6" for m
    using Suc.prems(1) that by (simp add: loadable_def unit_handle_def)
  from this [of "length (fr_filter_units r)"] obtain bc where
    "ReadBlock lib (fr_file r) True (unit_handle r (length (fr_filter_units r))) = Some (OK, bc)" using Suc.prems(2) less by auto
  moreover have "\<not> (of_nat (length (fr_filter_units r)) :: u64) \<ge> ucast (fr_all_units_number r)"
    using Suc.prems less by (simp add: loadable_def word_le_nat_alt unat_of_nat_u64)
  ultimately have l: "LoadFilterInternal lib r = Some (OK, r\<lparr>fr_filter_units := fr_filter_units r @ [bc_data bc]\<rparr>)"
    by (simp add: LoadFilterInternal_def unit_handle_def Let_def)
  let ?r = "r\<lparr>fr_filter_units := fr_filter_units r @ [bc_data bc]\<rparr>"
  have "loadable lib (?r\<lparr>fr_init_done := True\<rparr>)" using Suc.prems less by (simp add: loadable_def unit_handle_def)
  then have "\<exists>us. load_until lib n ?r = Some (OK, ?r\<lparr>fr_filter_units := us\<rparr>) \<and> length us = n"
    using Suc.hyps(2) Suc.prems less by (intro Suc.hyps(1)) simp_all
  then show ?case using less l by (subst load_until.simps) simp
qed

lemma InitLoad_loadable:
  assumes "loadable lib r" "\<not> fr_init_done r"
  shows "\<exists>us. InitLoadFilter lib r = Some (OK, r\<lparr>fr_filter_units := us, fr_init_done := True\<rparr>) \<and>
    loadable lib (r\<lparr>fr_filter_units := us, fr_init_done := True\<rparr>) \<and> length us = unat (fr_init_units_number r)"
proof -
  let ?r = "r\<lparr>fr_init_done := False\<rparr>"
  have "loadable lib (?r\<lparr>fr_init_done := True\<rparr>)" using assms(1) by (simp add: loadable_def unit_handle_def)
  moreover have "unat (fr_init_units_number r) \<le> 6" "fr_filter_units r = []" using assms by (auto simp: loadable_def)
  ultimately obtain us where us: "load_until lib (unat (fr_init_units_number r)) ?r = Some (OK, ?r\<lparr>fr_filter_units := us\<rparr>)"
    "length us = unat (fr_init_units_number r)" using load_until_loadable [of lib ?r "unat (fr_init_units_number r)"] by auto
  then show ?thesis
    using assms(1) by (intro exI [of _ us]) (simp add: InitLoadFilter_def loadable_def unit_handle_def)
qed

lemma LoadFilterBGWork_ok:
  assumes "mq_ok lib S d mq" "h \<in> set (mq_scheduled mq)"
  shows "\<exists>mq'. LoadFilterBGWork lib h mq = Some mq' \<and> mq_ok lib S d mq' \<and> live mq' = live mq \<and> mq_scheduled mq' = remove1 h (mq_scheduled mq)"
proof -
  have wf: "mq_wf lib S mq" "mq_usage mq = charge mq + d" "finite (live mq)" "distinct (mq_scheduled mq)" "set (mq_scheduled mq) \<subseteq> live mq"
    using assms(1) by (auto simp: mq_ok_def mq_wf_def)
  have h: "h \<in> live mq" using wf(5) assms(2) by blast
  define r where "r = reader_of mq h"
  have r: "loadable lib r" "\<not> fr_init_done r" using wf(1) h assms(2) by (auto simp: mq_wf_def r_def)
  from InitLoad_loadable [OF this] obtain us where us: "InitLoadFilter lib r = Some (OK, r\<lparr>fr_filter_units := us, fr_init_done := True\<rparr>)"
    "loadable lib (r\<lparr>fr_filter_units := us, fr_init_done := True\<rparr>)" "length us = unat (fr_init_units_number r)" by blast
  define r' where "r' = r\<lparr>fr_filter_units := us, fr_init_done := True\<rparr>"
  have slot: "slot r' = slot r" "cost r' = cost r" "fr_init_done r'" using us(3) r(2) by (simp_all add: r'_def slot_def cost_def OneUnitSize_def)
  define mq' where "mq' = (put_reader h r' mq)\<lparr>mq_scheduled := remove1 h (mq_scheduled mq)\<rparr>"
  have f: "live mq' = live mq" "reader_of mq' x = (if x = h then r' else reader_of mq x)" "qh_key (the (mq_heap mq' x)) = qh_key (the (mq_heap mq x))"
    "mq_queues mq' = mq_queues mq" "mq_map mq' = mq_map mq" "mq_next mq' = mq_next mq" "mq_usage mq' = mq_usage mq"
    "mq_scheduled mq' = remove1 h (mq_scheduled mq)" for x
  proof -
    have same: "live mq' = live (put_reader h r' mq)" "reader_of mq' = reader_of (put_reader h r' mq)" "mq_heap mq' = mq_heap (put_reader h r' mq)"
      by (simp_all add: mq'_def live_def reader_of_def fun_eq_iff)
    show "live mq' = live mq" "reader_of mq' x = (if x = h then r' else reader_of mq x)" "qh_key (the (mq_heap mq' x)) = qh_key (the (mq_heap mq x))"
      using h by (simp_all add: same reader_of_put qh_key_put)
  qed (simp_all add: mq'_def)
  have same: "slot (reader_of mq' x) = slot (reader_of mq x)" "cost (reader_of mq' x) = cost (reader_of mq x)" for x
    using slot by (auto simp: f r_def)
  have "placed S mq'" by (rule placed_cong [OF wf(1) [unfolded mq_wf_def, THEN conjunct1] f(4,1)]) (simp add: same(1))
  moreover have "charge mq' = charge mq" by (simp add: charge_def f(1) same(2))
  ultimately have "mq_ok lib S d mq'"
    using wf us(2) slot(3) unfolding mq_ok_def mq_wf_def
    by (auto simp: f set_remove1_eq r'_def [symmetric])
  moreover have "LoadFilterBGWork lib h mq = Some mq'"
    using get_reader_live [OF h] us(1) by (simp add: LoadFilterBGWork_def r_def [symmetric] r'_def [symmetric] mq'_def)
  ultimately show ?thesis using f by blast
qed

lemma mq_Insert_ok:
  assumes "mq_ok lib S d mq" "mq_map mq key = None" "loadable lib r" "\<not> fr_init_done r"
  shows "\<exists>mq'. mq_Insert key (Some r) mq = Some (Some (mq_next mq), mq') \<and> mq_ok lib S d mq' \<and> live mq' = insert (mq_next mq) (live mq) \<and>
    mq_map mq' = (mq_map mq)(key \<mapsto> mq_next mq)"
proof -
  let ?h = "mq_next mq" and ?n = "unat (fr_init_units_number r)"
  have wf: "mq_wf lib S mq" "mq_usage mq = charge mq + d" "finite (live mq)" "length (mq_queues mq) = 7"
    using assms(1) by (auto simp: mq_ok_def mq_wf_def placed_def)
  have new: "?h \<notin> live mq" using wf(1) by (auto simp: mq_wf_def)
  have n: "?n < 7" "slot r = ?n" using assms(3,4) by (auto simp: loadable_def slot_def)
  define mq' where "mq' = mq\<lparr>mq_heap := (mq_heap mq)(?h \<mapsto> \<lparr>qh_key = key, qh_reader = r\<rparr>), mq_next := ?h + 1,
      mq_queues := (mq_queues mq)[?n := ?h # mq_queues mq ! ?n], mq_map := (mq_map mq)(key \<mapsto> ?h),
      mq_usage := mq_usage mq + of_nat (?n * OneUnitSize r), mq_scheduled := mq_scheduled mq @ [?h]\<rparr>"
  have f: "live mq' = insert ?h (live mq)" "reader_of mq' x = (if x = ?h then r else reader_of mq x)"
    "qh_key (the (mq_heap mq' x)) = (if x = ?h then key else qh_key (the (mq_heap mq x)))"
    "mq_map mq' = (mq_map mq)(key \<mapsto> ?h)" "mq_next mq' = Suc ?h" "mq_usage mq' = mq_usage mq + of_nat (?n * OneUnitSize r)"
    "mq_scheduled mq' = mq_scheduled mq @ [?h]" "length (mq_queues mq') = 7" for x
    using wf(4) by (auto simp: mq'_def live_def reader_of_def)
  have at: "mq_queues mq' ! m = (if m = ?n then ?h # mq_queues mq ! ?n else mq_queues mq ! m)" if "m < 7" for m
    using that wf(4) by (simp add: mq'_def nth_list_update)
  have mem: "x \<in> set (mq_queues mq' ! m) \<longleftrightarrow> x \<in> set (mq_queues mq ! m) \<or> x = ?h \<and> m = ?n" if "m < 7" for m x
    using that by (auto simp: at)
  have old: "placed S mq" using wf(1) by (simp add: mq_wf_def)
  have none: "?h \<notin> set (mq_queues mq ! m)" if "m < 7" for m using new that placed_queue [OF old] by blast
  have "placed S mq'" unfolding placed_def
  proof (intro conjI allI impI ballI)
    show "distinct (mq_queues mq' ! m)" if "m < 7" for m
      using old that none [OF n(1)] n(1) by (auto simp: at placed_def)
    show "m = k" if "m < 7" "k < 7" "x \<in> set (mq_queues mq' ! m) \<and> x \<in> set (mq_queues mq' ! k)" for m k x
      using placed_unique [OF old, of m k x] that none by (auto simp: mem)
    show "x \<in> live mq' \<longleftrightarrow> (\<exists>m<7. x \<in> set (mq_queues mq' ! m))" for x
      using old n(1) mem by (auto simp: f(1) placed_def)
    show "slot (reader_of mq' x) = m" if "m < 7" "x \<in> set (mq_queues mq' ! m)" "x \<notin> S" for m x
      using old that none n(2) by (auto simp: mem f(2) placed_def)
  qed (rule f(8))
  moreover have "mq_map mq' k = Some x \<longleftrightarrow> x \<in> live mq' \<and> qh_key (the (mq_heap mq' x)) = k" for k x
  proof -
    have "mq_map mq k = Some x \<longleftrightarrow> x \<in> live mq \<and> qh_key (the (mq_heap mq x)) = k" for k using wf(1) by (simp add: mq_wf_def)
    from this [of k] this [of key] show ?thesis using assms(2) new by (auto simp: f)
  qed
  moreover have "charge mq' = charge mq + of_nat (?n * OneUnitSize r)"
  proof -
    have "(\<Sum>x\<in>live mq. cost (reader_of mq' x)) = (\<Sum>x\<in>live mq. cost (reader_of mq x))" using new by (intro sum.cong) (auto simp: f)
    then show ?thesis using new wf(3) by (simp add: charge_def f cost_def n(2))
  qed
  ultimately have "mq_ok lib S d mq'"
    using wf assms(3,4) new unfolding mq_ok_def mq_wf_def by (auto simp: f)
  moreover have "mq_Insert key (Some r) mq = Some (Some ?h, mq')"
    using n(1) wf(4) assms(2) by (simp add: mq_Insert_def Queue_Append_def mq'_def Let_def)
  ultimately show ?thesis using f by blast
qed

lemma mq_Erase_ok:
  assumes "mq_ok lib S d mq" "mq_Erase key mq = Some mq'"
  shows "mq_ok lib S d mq' \<and> mq_map mq' key = None"
proof (cases "mq_map mq key")
  case None
  then show ?thesis using assms by (simp add: mq_Erase_def)
next
  case (Some h)
  have wf: "mq_wf lib S mq" "mq_usage mq = charge mq + d" "finite (live mq)" "length (mq_queues mq) = 7"
    "\<And>k x. mq_map mq k = Some x \<longleftrightarrow> x \<in> live mq \<and> qh_key (the (mq_heap mq x)) = k" using assms(1) by (auto simp: mq_ok_def mq_wf_def placed_def)
  have h: "h \<in> live mq" using wf(5) Some by blast
  define r where "r = reader_of mq h"
  have init: "fr_init_done r" using assms(2) Some get_reader_live [OF h]
    by (auto simp: mq_Erase_def bind_eq_Some_conv reader_Size_def FilterUnitsNumber_def r_def split: if_splits)
  then have cost: "of_nat (length (fr_filter_units r) * unat (fr_disk_size r)) = cost r" by (simp add: cost_def slot_def OneUnitSize_def)
  have mq': "mq' = mq\<lparr>mq_queues := map (remove1 h) (mq_queues mq), mq_usage := mq_usage mq - cost r, mq_heap := (mq_heap mq)(h := None),
      mq_map := (mq_map mq)(key := None)\<rparr>"
    using assms(2) Some get_reader_live [OF h] init cost
    by (simp add: mq_Erase_def reader_Size_def FilterUnitsNumber_def Queue_Remove_def r_def [symmetric] Let_def)
  have f: "live mq' = live mq - {h}" "mq_next mq' = mq_next mq" "mq_scheduled mq' = mq_scheduled mq" "mq_usage mq' = mq_usage mq - cost r"
    "mq_map mq' = (mq_map mq)(key := None)" "length (mq_queues mq') = 7"
    "\<And>x. x \<noteq> h \<Longrightarrow> reader_of mq' x = reader_of mq x" "\<And>x. x \<noteq> h \<Longrightarrow> mq_heap mq' x = mq_heap mq x"
    "\<And>m. m < 7 \<Longrightarrow> mq_queues mq' ! m = remove1 h (mq_queues mq ! m)"
    using wf(4) by (auto simp: mq' live_def reader_of_def)
  have old: "placed S mq" using wf(1) by (simp add: mq_wf_def)
  have mem: "x \<in> set (mq_queues mq' ! m) \<longleftrightarrow> x \<in> set (mq_queues mq ! m) \<and> x \<noteq> h" if "m < 7" for m x
    using old that by (auto simp: f(9) placed_def set_remove1_eq)
  have "placed S mq'" unfolding placed_def
  proof (intro conjI allI impI ballI)
    show "distinct (mq_queues mq' ! m)" if "m < 7" for m using old that by (auto simp: f(9) placed_def distinct_remove1)
    show "m = k" if "m < 7" "k < 7" "x \<in> set (mq_queues mq' ! m) \<and> x \<in> set (mq_queues mq' ! k)" for m k x
      using placed_unique [OF old, of m k x] that by (auto simp: mem)
    show "x \<in> live mq' \<longleftrightarrow> (\<exists>m<7. x \<in> set (mq_queues mq' ! m))" for x
      using old mem by (auto simp: f(1) placed_def)
    show "slot (reader_of mq' x) = m" if "m < 7" "x \<in> set (mq_queues mq' ! m)" "x \<notin> S" for m x
      using old that by (auto simp: mem f(7) placed_def)
  qed (rule f(6))
  moreover have "h \<notin> set (mq_scheduled mq)" using wf(1) h init by (auto simp: mq_wf_def r_def)
  moreover have "mq_map mq' k = Some x \<longleftrightarrow> x \<in> live mq' \<and> qh_key (the (mq_heap mq' x)) = k" for k x
    using wf(5) [of k x] wf(5) [of k h] wf(5) [of key x] wf(5) [of key h] Some by (cases "x = h") (auto simp: f)
  moreover have "charge mq' = charge mq - cost r"
  proof -
    have "(\<Sum>x\<in>live mq - {h}. cost (reader_of mq' x)) = (\<Sum>x\<in>live mq - {h}. cost (reader_of mq x))" by (intro sum.cong) (auto simp: f)
    then show ?thesis using sum.remove [OF wf(3) h, of "\<lambda>x. cost (reader_of mq x)"] by (simp add: charge_def f r_def)
  qed
  ultimately have "mq_ok lib S d mq'"
    using wf(1-3) f unfolding mq_ok_def mq_wf_def by (auto simp: f)
  then show ?thesis by (simp add: f)
qed

lemma mq_SetAccessTime_ok:
  assumes "mq_ok lib S d mq" "mq_SetAccessTime key t mq = Some mq'"
  shows "mq_ok lib S d mq' \<and> kept mq mq'"
proof (cases "mq_map mq key")
  case None
  then show ?thesis using assms by (simp add: mq_SetAccessTime_def kept_def)
next
  case (Some h)
  with assms(2) obtain r where r: "get_reader h mq = Some r" "mq' = put_reader h (reader_SetAccessTime t r) mq"
    by (auto simp: mq_SetAccessTime_def bind_eq_Some_conv)
  then have h: "h \<in> live mq" "r = reader_of mq h" using get_reader_SomeD by blast+
  have "loadable lib r" using mq_wf_readerD [of lib S mq h] h assms(1) by (simp add: mq_ok_def)
  then show ?thesis using h mq_ok_put [OF assms(1) h(1), of "reader_SetAccessTime t r"] r(2) by (simp add: SetAccessTime_facts)
qed

lemma mq_wf_mono: "mq_wf lib S mq \<Longrightarrow> S \<subseteq> S' \<Longrightarrow> mq_wf lib S' mq"
  using placed_mono [of S mq S'] by (simp add: mq_wf_def)

lemma mq_usage_irrelevant [simp]:
  "live (mq\<lparr>mq_usage := u\<rparr>) = live mq" "reader_of (mq\<lparr>mq_usage := u\<rparr>) = reader_of mq" "charge (mq\<lparr>mq_usage := u\<rparr>) = charge mq"
  "mq_wf lib S (mq\<lparr>mq_usage := u\<rparr>) = mq_wf lib S mq" "get_reader h (mq\<lparr>mq_usage := u\<rparr>) = get_reader h mq"
  by (simp_all add: live_def reader_of_def charge_def mq_wf_def placed_def get_reader_def fun_eq_iff)

text \<open>Releasing gives the memory back, and leaves the handle in its queue.\<close>

definition cleaned :: "FilterBlockReader \<Rightarrow> FilterBlockReader" where
  "cleaned r = r\<lparr>fr_reload_units_number := of_nat (length (fr_filter_units r)), fr_filter_units := []\<rparr>"

lemma mq_Release_eq:
  assumes "get_reader h mq = Some r" "fr_init_done r"
  shows "mq_Release h mq = Some ((put_reader h (cleaned r) mq)\<lparr>mq_usage := mq_usage mq - cost r\<rparr>)"
  using assms by (simp add: mq_Release_def reader_Size_def FilterUnitsNumber_def CleanFilter_def evict_until_eq cleaned_def Let_def
      cost_def slot_def OneUnitSize_def)

lemma mq_Release_ok:
  assumes "mq_ok lib S d mq" "mq_Release h mq = Some mq'"
  shows "mq_ok lib (insert h S) d mq' \<and> kept mq mq'"
proof -
  obtain r where r: "get_reader h mq = Some r" "fr_init_done r"
    using assms(2) by (auto simp: mq_Release_def reader_Size_def FilterUnitsNumber_def bind_eq_Some_conv split: if_splits)
  have h: "h \<in> live mq" "r = reader_of mq h" using get_reader_SomeD [OF r(1)] by auto
  have wf: "mq_wf lib (insert h S) mq" "finite (live mq)" "mq_usage mq = charge mq + d"
    using assms(1) mq_wf_mono [of lib S mq "insert h S"] by (auto simp: mq_ok_def mq_wf_def)
  have l: "loadable lib r" using mq_wf_readerD [OF wf(1) h(1)] h(2) by simp
  then have c: "loadable lib (cleaned r)" "cost (cleaned r) = 0" "fr_init_done (cleaned r)"
    using r(2) by (auto simp: loadable_def cleaned_def unit_handle_def cost_def slot_def unat_of_nat_u32)
  have "mq_wf lib (insert h S) (put_reader h (cleaned r) mq)"
    using c r(2) h(2) by (intro mq_wf_put [OF wf(1) h(1)]) simp_all
  then show ?thesis
    using assms(2) mq_Release_eq [OF r] charge_put [OF wf(2) h(1), of "cleaned r"] wf(3) c(2,3) r(2) h
    by (auto simp: mq_ok_def kept_def reader_of_put split: if_splits)
qed

text \<open>The reader goes back to the units it held when it was released, the queue to those it had at first.\<close>

lemma reader_GoBack_loadable:
  assumes "loadable lib (UpdateFile file r)" "fr_init_done r"
  shows "\<exists>us. reader_GoBackToInitFilter lib file r = Some (OK, (UpdateFile file r)\<lparr>fr_filter_units := us\<rparr>) \<and>
    length us = unat (fr_reload_units_number r)"
proof -
  define r1 where "r1 = UpdateFile file r"
  have same: "fr_reload_units_number r1 = fr_reload_units_number r" "fr_init_done r1"
    using assms(2) by (simp_all add: r1_def UpdateFile_def split: option.splits)
  let ?n = "unat (fr_reload_units_number r)"
  have n: "?n \<le> 6" "loadable lib (r1\<lparr>fr_init_done := True\<rparr>)"
    using assms(1) same by (simp_all add: r1_def [symmetric] loadable_def unit_handle_def)
  show ?thesis
  proof (cases "length (fr_filter_units r1) \<le> ?n")
    case True
    from load_until_loadable [OF n(2,1) True] obtain us where
      "load_until lib ?n r1 = Some (OK, r1\<lparr>fr_filter_units := us\<rparr>)" "length us = ?n" by blast
    then show ?thesis
      using n(1) same by (intro exI [of _ us])
        (simp add: reader_GoBackToInitFilter_def r1_def [symmetric] Let_def kAllFilterUnitsNumber_def evict_until_eq)
  next
    case False
    then have "load_until lib ?n r1 = Some (OK, r1)" by (subst load_until.simps) simp
    then show ?thesis
      using n(1) same False by (intro exI [of _ "take ?n (fr_filter_units r1)"])
        (simp add: reader_GoBackToInitFilter_def r1_def [symmetric] Let_def kAllFilterUnitsNumber_def evict_until_eq)
  qed
qed

lemma GoBackToInitFilter_ok:
  assumes ok: "mq_ok lib S d mq" and r: "get_reader h mq = Some r" "loadable lib (UpdateFile file r)" "fr_init_done r"
  shows "\<exists>us mq'. GoBackToInitFilter lib h file mq = Some mq' \<and> get_reader h mq' = Some ((UpdateFile file r)\<lparr>fr_filter_units := us\<rparr>) \<and>
    length us = unat (fr_reload_units_number r) \<and> h \<in> set (mq_queues mq' ! unat (fr_init_units_number r)) \<and> kept mq mq' \<and>
    mq_ok lib (insert h S) (d + (of_nat (unat (fr_init_units_number r)) - of_nat (unat (fr_reload_units_number r))) * of_nat (OneUnitSize r)) mq'"
proof -
  let ?i = "unat (fr_init_units_number r)" and ?n = "unat (fr_reload_units_number r)"
  have h: "h \<in> live mq" "r = reader_of mq h" using get_reader_SomeD [OF r(1)] by auto
  have wf: "mq_wf lib (insert h S) mq" "finite (live mq)" "mq_usage mq = charge mq + d" "length (mq_queues mq) = 7"
    using ok mq_wf_mono [of lib S mq "insert h S"] by (auto simp: mq_ok_def mq_wf_def placed_def)
  obtain us where us: "reader_GoBackToInitFilter lib file r = Some (OK, (UpdateFile file r)\<lparr>fr_filter_units := us\<rparr>)" "length us = ?n"
    using reader_GoBack_loadable [OF r(2,3)] by blast
  define r2 where "r2 = (UpdateFile file r)\<lparr>fr_filter_units := us\<rparr>"
  have same: "fr_init_units_number (UpdateFile file r) = fr_init_units_number r" "fr_reload_units_number (UpdateFile file r) = fr_reload_units_number r"
    "fr_init_done (UpdateFile file r)" "fr_disk_size (UpdateFile file r) = fr_disk_size r"
    using r(3) by (simp_all add: UpdateFile_def split: option.splits)
  have b: "?i < 7" "?n \<le> 6" using r(2) same by (simp_all add: loadable_def)
  have r2: "loadable lib r2" "fr_init_done r2" "cost r2 = of_nat ?n * of_nat (OneUnitSize r)"
    using r(2) us(2) b same by (simp_all add: r2_def loadable_def unit_handle_def cost_def slot_def OneUnitSize_def)
  define mq2 where "mq2 = put_reader h r2 (relocate ?i h mq)"
  define mq' where "mq' = mq2\<lparr>mq_usage := mq_usage mq + (of_nat ?i - of_nat (length (fr_filter_units r))) * of_nat (OneUnitSize r)\<rparr>"
  have go: "GoBackToInitFilter lib h file mq = Some mq'"
    using r(1,3) b(1) wf(4) us(1)
    by (simp add: GoBackToInitFilter_def FilterUnitsNumber_def Queue_Append_Remove Let_def mq'_def mq2_def r2_def [symmetric])
  have "mq_wf lib (insert h S) mq2"
    unfolding mq2_def using r2 b(1) r(3) h by (intro mq_wf_relocate [OF wf(1) h(1) r2(1)]) simp_all
  moreover have "charge mq2 = charge mq - of_nat (length (fr_filter_units r)) * of_nat (OneUnitSize r) + of_nat ?n * of_nat (OneUnitSize r)"
    using charge_put [of "relocate ?i h mq" h r2] wf(2) h r(3) r2(3) by (simp add: mq2_def cost_def slot_def)
  ultimately have "mq_ok lib (insert h S) (d + (of_nat ?i - of_nat ?n) * of_nat (OneUnitSize r)) mq'"
    using wf(3) by (simp add: mq_ok_def mq'_def algebra_simps)
  moreover have "get_reader h mq' = Some r2" "kept mq mq'" "h \<in> set (mq_queues mq' ! ?i)"
    using h r(3) r2(2) b(1) wf(4) get_reader_live [of h mq2] reader_of_put [of h "relocate ?i h mq" r2]
    by (auto simp: mq'_def mq2_def kept_def relocate_def)
  ultimately show ?thesis using go us(2) by (intro exI [of _ us] exI [of _ mq']) (simp add: r2_def)
qed

section \<open>Progress\<close>

text \<open>When no reader waits for its first load, an access returns.\<close>

definition loaded :: "InternalMultiQueue \<Rightarrow> bool" where
  "loaded mq \<longleftrightarrow> (\<forall>h\<in>live mq. fr_init_done (reader_of mq h))"

lemma all_evictable_returns: "loaded mq \<Longrightarrow> set hs \<subseteq> live mq \<Longrightarrow> all_evictable mq hs \<noteq> None"
proof (induction hs)
  case (Cons h hs)
  then show ?case using get_reader_live [of h mq] by (auto simp: loaded_def CanBeEvict_def FilterUnitsNumber_def)
qed simp

lemma sum_ios_returns:
  assumes "loaded mq" "\<And>r. fr_init_done r \<Longrightarrow> f r \<noteq> None"
  shows "set hs \<subseteq> live mq \<Longrightarrow> sum_ios f mq hs acc \<noteq> None"
proof (induction hs arbitrary: acc)
  case (Cons h hs)
  then obtain x where "f (reader_of mq h) = Some x" using assms(1) assms(2) [of "reader_of mq h"] by (auto simp: loaded_def)
  then show ?case using Cons get_reader_live [of h mq] by simp
qed simp

lemma IOs_return: "fr_init_done r \<Longrightarrow> IOs r \<noteq> None" "fr_init_done r \<Longrightarrow> EvictIOs r \<noteq> None" "fr_init_done r \<Longrightarrow> LoadIOs r \<noteq> None"
  by (simp_all add: IOs_def EvictIOs_def LoadIOs_def FilterUnitsNumber_def)

lemma CanBeAdjusted_returns:
  assumes "loaded mq" "set hs \<subseteq> live mq" "hot \<in> live mq"
  shows "CanBeAdjusted hs hot mq \<noteq> None"
proof -
  obtain b where b: "all_evictable mq hs = Some b" using all_evictable_returns [OF assms(1,2)] by blast
  obtain x y where "sum_ios IOs mq hs 0 = Some x" "sum_ios EvictIOs mq hs 0 = Some y"
    using sum_ios_returns [where f = IOs, OF assms(1) IOs_return(1) assms(2), of 0]
      sum_ios_returns [where f = EvictIOs, OF assms(1) IOs_return(2) assms(2), of 0] by blast
  moreover obtain z w where "IOs (reader_of mq hot) = Some z" "LoadIOs (reader_of mq hot) = Some w"
    using IOs_return [of "reader_of mq hot"] assms(1,3) by (auto simp: loaded_def)
  ultimately show ?thesis using b get_reader_live [OF assms(3)] by (auto simp: CanBeAdjusted_def)
qed

lemma Adjustment_returns:
  assumes "mq_ok lib S d mq" "loaded mq" "hot \<in> live mq"
  shows "\<exists>mq'. Adjustment lib hot sn mq = Some mq'"
proof -
  have wf: "mq_wf lib S mq" using assms(1) by (simp add: mq_ok_def)
  let ?r = "reader_of mq hot"
  have r: "fr_init_done ?r" "loadable lib ?r" using assms(2,3) mq_wf_readerD [OF wf] by (auto simp: loaded_def)
  obtain l where l: "CanBeLoaded ?r = Some l" using r by (simp add: CanBeLoaded_def FilterUnitsNumber_def)
  obtain cold where c: "FindColdFilter (of_nat (OneUnitSize ?r)) sn mq = Some cold"
    using cold_queues_returns [OF wf, of 6 sn "of_nat (OneUnitSize ?r)" "[]"] by (auto simp: FindColdFilter_def kAllFilterUnitsNumber_def)
  show ?thesis
  proof (cases "l \<and> cold \<noteq> []")
    case False
    then show ?thesis using get_reader_live [OF assms(3)] l c by (auto simp: Adjustment_def)
  next
    case True
    then have units: "length (fr_filter_units ?r) < 6"
      using l r by (auto simp: CanBeLoaded_def FilterUnitsNumber_def loadable_def)
    note exact = FindColdFilter_exact [OF wf c] 
    have cold: "set cold \<subseteq> live mq" "distinct cold" using exact True by auto
    obtain a mq1 where a: "CanBeAdjusted cold hot mq = Some (a, mq1)" using CanBeAdjusted_returns [OF assms(2) cold(1) assms(3)] by auto
    have "\<exists>mq'. ApplyAdjustment lib cold hot mq1 = Some mq'" if a
    proof -
      have e: "all_evictable mq cold = Some True" and mq1: "mq1 = mq\<lparr>mq_adjustment_time := mq_adjustment_time mq + 1\<rparr>"
        using a that by (auto simp: CanBeAdjusted_def bind_eq_Some_conv split: if_splits)
      have "\<exists>mq'. ApplyAdjustment lib cold hot mq1 = Some mq' \<and> mq_wf lib S mq' \<and> same_but (insert hot (set cold)) mq1 mq' \<and>
          charge mq' = charge mq1 - unit_sizes mq1 cold + of_nat (OneUnitSize (reader_of mq1 hot))"
        using wf cold assms(3) r(1) units all_evictable_True [OF e] by (intro ApplyAdjustment_ok) (auto simp: mq1)
      then show ?thesis by blast
    qed
    then show ?thesis using get_reader_live [OF assms(3)] l c a True by (cases a) (auto simp: Adjustment_def)
  qed
qed

lemma UpdateHandle_returns:
  assumes "mq_ok lib S d mq" "loaded mq" "h \<in> live mq"
  shows "UpdateHandle lib h off key mq \<noteq> None"
proof (cases "ParseKey key")
  case (Some sn)
  define mq1 where "mq1 = put_reader h (UpdateState sn (reader_of mq h)) mq"
  have "loadable lib (reader_of mq h)" using mq_wf_readerD [of lib S mq h] assms by (simp add: mq_ok_def)
  then have ok1: "mq_ok lib S d mq1" "kept mq mq1"
    using assms by (unfold mq1_def, intro mq_ok_put; simp add: UpdateState_facts)+
  then have l1: "loaded mq1" "h \<in> live mq1" using assms(2,3) by (auto simp: loaded_def kept_def)
  have wf1: "mq_wf lib S mq1" using ok1(1) by (simp add: mq_ok_def)
  let ?r = "reader_of mq1 h"
  define n where "n = length (fr_filter_units ?r)"
  have r: "fr_init_done ?r" "loadable lib ?r" "n < 7" using l1 mq_wf_readerD [OF wf1, of h] by (auto simp: loaded_def loadable_def n_def)
  then have slot: "slot ?r = n" by (simp add: slot_def n_def)
  have "put_reader h ?r (relocate n h mq1) = relocate n h mq1"
    using l1(2) by (auto simp: put_reader_def reader_of_def live_def relocate_def fun_eq_iff intro!: InternalMultiQueue.equality)
  then have wf2: "mq_wf lib S (relocate n h mq1)" using mq_wf_relocate [OF wf1 l1(2) r(2) slot r(3)] by simp
  then have "mq_ok lib S d (relocate n h mq1)" "loaded (relocate n h mq1)" using ok1(1) l1(1) by (simp_all add: mq_ok_def loaded_def)
  from Adjustment_returns [OF this] l1(2) obtain mq2 where "Adjustment lib h sn (relocate n h mq1) = Some mq2" by auto
  then have d: "DoAdjustment lib h sn mq1 = Some mq2"
    using get_reader_live [OF l1(2)] r mq_wf_queues [OF wf1]
    by (simp add: DoAdjustment_def FilterUnitsNumber_def MoveToMRU_def Queue_Append_Remove n_def [symmetric])
  from DoAdjustment_ok [OF ok1(1) d] l1 have l2: "mq_ok lib S d mq2" "h \<in> live mq2" "fr_init_done (reader_of mq2 h)"
    by (auto simp: kept_def loaded_def)
  then have "fr_base_lg (reader_of mq2 h) < 64" using mq_wf_readerD [of lib S mq2 h] by (simp add: mq_ok_def loadable_def)
  then have "reader_KeyMayMatch off key (reader_of mq2 h) \<noteq> None"
    using l2(3) by (simp add: reader_KeyMayMatch_def Let_def FilterUnitsNumber_def del: not_None_eq)
  then show ?thesis using Some get_reader_live [OF assms(3)] get_reader_live [OF l2(2)] d by (auto simp: UpdateHandle_def mq1_def)
qed (simp add: UpdateHandle_def)

section \<open>Properties\<close>

text \<open>
  The states that the operations bring the queues into: readers of intact filter files are inserted, loaded in
  the background at any time, accessed, given an access time, released, sent back and erased. The relation
  also records the set \<open>S\<close> of the handles that were ever released or sent back, and the sum \<open>d\<close> of the
  differences between the first and the reloaded sizes of the readers sent back.
\<close>

inductive mq_reach :: "Compression \<Rightarrow> handle set \<Rightarrow> u64 \<Rightarrow> InternalMultiQueue \<Rightarrow> bool" for lib where
  start: "mq_reach lib {} 0 InternalMultiQueue_new"
| insert: "mq_reach lib S d mq \<Longrightarrow> mq_map mq key = None \<Longrightarrow> loadable lib r \<Longrightarrow> \<not> fr_init_done r \<Longrightarrow>
    mq_Insert key (Some r) mq = Some (h, mq') \<Longrightarrow> mq_reach lib S d mq'"
| load: "mq_reach lib S d mq \<Longrightarrow> h \<in> set (mq_scheduled mq) \<Longrightarrow> LoadFilterBGWork lib h mq = Some mq' \<Longrightarrow> mq_reach lib S d mq'"
| update: "mq_reach lib S d mq \<Longrightarrow> UpdateHandle lib h off key mq = Some (b, mq') \<Longrightarrow> mq_reach lib S d mq'"
| access: "mq_reach lib S d mq \<Longrightarrow> mq_SetAccessTime key t mq = Some mq' \<Longrightarrow> mq_reach lib S d mq'"
| release: "mq_reach lib S d mq \<Longrightarrow> mq_Release h mq = Some mq' \<Longrightarrow> mq_reach lib (insert h S) d mq'"
| go_back: "mq_reach lib S d mq \<Longrightarrow> get_reader h mq = Some r \<Longrightarrow> loadable lib (UpdateFile file r) \<Longrightarrow>
    GoBackToInitFilter lib h file mq = Some mq' \<Longrightarrow>
    d' = d + (of_nat (unat (fr_init_units_number r)) - of_nat (unat (fr_reload_units_number r))) * of_nat (OneUnitSize r) \<Longrightarrow>
    mq_reach lib (insert h S) d' mq'"
| erase: "mq_reach lib S d mq \<Longrightarrow> mq_Erase key mq = Some mq' \<Longrightarrow> mq_reach lib S d mq'"

lemma mq_ok_new: "mq_ok lib S 0 InternalMultiQueue_new"
  by (simp add: mq_ok_def mq_wf_def placed_def InternalMultiQueue_new_def live_def charge_def kAllFilterUnitsNumber_def)

lemma mq_reach_ok: "mq_reach lib S d mq \<Longrightarrow> mq_ok lib S d mq"
proof (induction rule: mq_reach.induct)
  case start
  show ?case by (rule mq_ok_new)
next
  case (insert S d mq key r h mq')
  then show ?case using mq_Insert_ok [of lib S d mq key r] by auto
next
  case (load S d mq h mq')
  then show ?case using LoadFilterBGWork_ok [of lib S d mq h] by auto
next
  case (update S d mq h off key b mq')
  then show ?case using UpdateHandle_ok by blast
next
  case (access S d mq key t mq')
  then show ?case using mq_SetAccessTime_ok by blast
next
  case (release S d mq h mq')
  then show ?case using mq_Release_ok by blast
next
  case (go_back S d mq h r f mq' d')
  moreover have "fr_init_done r"
    using go_back(2,4) by (auto simp: GoBackToInitFilter_def FilterUnitsNumber_def bind_eq_Some_conv split: if_splits)
  ultimately show ?case using GoBackToInitFilter_ok [of lib S d mq h r f] by auto
next
  case (erase S d mq key mq')
  then show ?case using mq_Erase_ok by blast
qed

text \<open>A reader over a file that holds the same small unit everywhere, for the examples below.\<close>

definition sample_file :: RandomAccessFile where
  "sample_file off n = (OK, stored_block [0, 0, 0, 0] kNoCompression, True)"

definition sample_reader :: FilterBlockReader where
  "sample_reader =
     \<lparr>fr_policy = bloom_policy 10, fr_data = [], fr_disk_offset = 0, fr_disk_size = 4, fr_init_units_number = 2,
      fr_all_units_number = 6, fr_base_lg = 11, fr_num = 0, fr_reload_units_number = 2, fr_access_time = 0, fr_sequence = 0,
      fr_file = sample_file, fr_filter_units = [], fr_init_done = False\<rparr>"

lemma sample_loadable: "loadable lib sample_reader"
proof -
  have "\<exists>bc. ReadBlock lib sample_file True \<lparr>bh_offset = off, bh_size = 4\<rparr> = Some (OK, bc) \<and> bc_data bc = [0, 0, 0, 0]" for off
    by (rule ReadBlock_bytes [where data = "[0, 0, 0, 0]" and t = kNoCompression and a = True])
      (simp_all add: sample_file_def kBlockTrailerSize_def block_decodes_def)
  then show ?thesis by (auto simp: loadable_def sample_reader_def unit_handle_def)
qed

lemma sample_inserted:
  "\<exists>mq. mq_Insert [107] (Some sample_reader) InternalMultiQueue_new = Some (Some 0, mq) \<and> mq_reach lib {} 0 mq \<and>
     live mq = {0} \<and> mq_scheduled mq = [0] \<and> mq_usage mq = 8 \<and> reader_of mq 0 = sample_reader"
proof -
  have new: "mq_map InternalMultiQueue_new [107] = None" "mq_next InternalMultiQueue_new = 0" "live InternalMultiQueue_new = {}"
    "\<not> fr_init_done sample_reader" by (simp_all add: InternalMultiQueue_new_def live_def sample_reader_def)
  from mq_Insert_ok [OF mq_ok_new new(1) sample_loadable new(4), of lib] obtain mq where
    mq: "mq_Insert [107] (Some sample_reader) InternalMultiQueue_new = Some (Some 0, mq)" "live mq = {0}"
    unfolding new(2,3) by blast
  have "mq_reach lib {} 0 mq"
    using mq(1) new by (intro mq_reach.insert [OF mq_reach.start _ sample_loadable])
  moreover have "mq_scheduled mq = [0]" "mq_usage mq = 8" "reader_of mq 0 = sample_reader"
    using mq(1) by (auto simp: mq_Insert_def Queue_Append_def InternalMultiQueue_new_def sample_reader_def Let_def OneUnitSize_def
        kAllFilterUnitsNumber_def reader_of_def)
  ultimately show ?thesis using mq by blast
qed

text \<open>The same reader after its first load and a release.\<close>

lemma sample_released:
  "\<exists>mq r. mq_reach lib {0} 0 mq \<and> get_reader 0 mq = Some r \<and> live mq = {0} \<and> fr_init_done r \<and> fr_filter_units r = [] \<and>
     unat (fr_init_units_number r) = 2 \<and> fr_disk_size r = 4"
proof -
  obtain mq0 where mq0: "mq_reach lib {} 0 mq0" "live mq0 = {0}" "mq_scheduled mq0 = [0]" "reader_of mq0 0 = sample_reader"
    using sample_inserted [of lib] by blast
  have "\<not> fr_init_done sample_reader" by (simp add: sample_reader_def)
  from InitLoad_loadable [OF sample_loadable this] obtain us where
    us: "InitLoadFilter lib sample_reader = Some (OK, sample_reader\<lparr>fr_filter_units := us, fr_init_done := True\<rparr>)" by blast
  define r1 where "r1 = sample_reader\<lparr>fr_filter_units := us, fr_init_done := True\<rparr>"
  define mq1 where "mq1 = (put_reader 0 r1 mq0)\<lparr>mq_scheduled := remove1 0 (mq_scheduled mq0)\<rparr>"
  have "LoadFilterBGWork lib 0 mq0 = Some mq1"
    using get_reader_live [of 0 mq0] mq0 us by (simp add: LoadFilterBGWork_def mq1_def r1_def)
  then have mq1: "mq_reach lib {} 0 mq1" using mq_reach.load [OF mq0(1)] mq0(3) by simp
  obtain q where "mq_heap mq0 0 = Some q" using mq0(2) by (auto simp: live_def)
  then have r1: "get_reader 0 mq1 = Some r1" "fr_init_done r1"
    by (simp_all add: mq1_def get_reader_def put_reader_def) (simp add: r1_def)
  let ?mq = "(put_reader 0 (cleaned r1) mq1)\<lparr>mq_usage := mq_usage mq1 - cost r1\<rparr>"
  have "mq_reach lib {0} 0 ?mq" by (rule mq_reach.release [OF mq1 mq_Release_eq [OF r1]])
  moreover have "live mq1 = live (put_reader 0 r1 mq0)" by (simp add: mq1_def live_def)
  then have "live ?mq = {0}" using mq0(2) by simp
  moreover have "get_reader 0 ?mq = Some (cleaned r1)" using r1(1) by (auto simp: get_reader_def put_reader_def)
  ultimately show ?thesis by (intro exI [of _ ?mq] exI [of _ "cleaned r1"]) (simp add: cleaned_def r1_def sample_reader_def)
qed

text \<open>
  C11. The multi-queue keeps its books. In every state reached by inserting readers, loading them in the
  background, accesses with their adjustments, releases, reloads and erasures, in any order: each reader is
  in exactly one queue; unless it was ever released or sent back, that is the queue numbered by the units it
  holds (or is about to load); the recorded usage is the memory of all units plus an error \<open>d\<close> to which only
  reloads contribute, each the size of the units by which the number at first and the number reloaded
  differ (an adjustment contributes nothing, since the evicted units are together exactly as large as the
  loaded one); and when no first load is pending, an access to any reader returns.
\<close>

theorem multi_queue_accounting:
  assumes "mq_reach lib S d mq"
  shows "(\<forall>h\<in>dom (mq_heap mq). \<exists>!n. n < 7 \<and> h \<in> set (mq_queues mq ! n)) \<and>
    (\<forall>h r n. get_reader h mq = Some r \<and> h \<notin> S \<and> n < 7 \<longrightarrow> (h \<in> set (mq_queues mq ! n) \<longleftrightarrow> n = slot r)) \<and>
    TotalCharge mq = (\<Sum>h\<in>dom (mq_heap mq). of_nat (slot (reader_of mq h) * OneUnitSize (reader_of mq h))) + d \<and>
    (mq_scheduled mq = [] \<longrightarrow> (\<forall>h\<in>dom (mq_heap mq). UpdateHandle lib h off key mq \<noteq> None))"
proof -
  have ok: "mq_ok lib S d mq" by (rule mq_reach_ok [OF assms])
  then have wf: "mq_wf lib S mq" "placed S mq" by (simp_all add: mq_ok_def mq_wf_def)
  have one: "\<exists>!n. n < 7 \<and> h \<in> set (mq_queues mq ! n)" if "h \<in> live mq" for h
    using wf(2) that unfolding placed_def by blast
  have "h \<in> set (mq_queues mq ! n) \<longleftrightarrow> n = slot r" if "get_reader h mq = Some r" "h \<notin> S" "n < 7" for h r n
    using one [of h] wf(2) get_reader_SomeD [OF that(1)] that(2,3) unfolding placed_def by metis
  moreover have "loaded mq" if "mq_scheduled mq = []" using wf(1) that by (simp add: loaded_def mq_wf_def)
  moreover have "TotalCharge mq = (\<Sum>h\<in>dom (mq_heap mq). of_nat (slot (reader_of mq h) * OneUnitSize (reader_of mq h))) + d"
    using ok by (simp add: TotalCharge_def mq_ok_def charge_def cost_def live_def)
  ultimately show ?thesis
    using one UpdateHandle_returns [OF ok] unfolding live_def by blast
qed

theorem multi_queue_accounting_witness:
  "\<forall>lib. \<exists>mq. mq_reach lib {0} 0 mq \<and> dom (mq_heap mq) = {0} \<and> TotalCharge mq = 0 \<and> (\<exists>!n. n < 7 \<and> 0 \<in> set (mq_queues mq ! n))"
proof
  fix lib
  obtain mq r where mq: "mq_reach lib {0} 0 mq" "live mq = {0}" "get_reader 0 mq = Some r" "fr_init_done r" "fr_filter_units r = []"
    using sample_released [of lib] by blast
  then have "slot (reader_of mq 0) = 0" using get_reader_SomeD [of 0 mq r] by (simp add: slot_def)
  then show "\<exists>mq. mq_reach lib {0} 0 mq \<and> dom (mq_heap mq) = {0} \<and> TotalCharge mq = 0 \<and> (\<exists>!n. n < 7 \<and> 0 \<in> set (mq_queues mq ! n))"
    using multi_queue_accounting [OF mq(1)] mq(1,2) by (intro exI [of _ mq]) (simp add: live_def)
qed

text \<open>
  C27. Closing and reopening a table loses count of its filters: the reader reloads as many units as
  it held when it was released, but the multi-queue accounts for, and files it under, the number of
  units it had at first. Whenever the two numbers differ and the books were right before, the recorded
  usage is not the memory of the units afterwards, and the handle is in a queue that does not fit.
\<close>

theorem multi_queue_reload_usage:
  assumes "mq_reach lib S 0 mq" "get_reader h mq = Some r" "fr_init_done r" "length (fr_filter_units r) \<noteq> unat (fr_init_units_number r)"
    "fr_disk_size r \<noteq> 0"
  shows "\<exists>mq1 mq2 r2. mq_Release h mq = Some mq1 \<and> GoBackToInitFilter lib h None mq1 = Some mq2 \<and>
    get_reader h mq2 = Some r2 \<and> length (fr_filter_units r2) = length (fr_filter_units r) \<and>
    TotalCharge mq2 = (\<Sum>x\<in>dom (mq_heap mq2). of_nat (slot (reader_of mq2 x) * OneUnitSize (reader_of mq2 x))) +
      (of_nat (unat (fr_init_units_number r)) - of_nat (length (fr_filter_units r))) * of_nat (OneUnitSize r) \<and>
    TotalCharge mq2 \<noteq> (\<Sum>x\<in>dom (mq_heap mq2). of_nat (slot (reader_of mq2 x) * OneUnitSize (reader_of mq2 x))) \<and>
    h \<in> set (mq_queues mq2 ! unat (fr_init_units_number r)) \<and> unat (fr_init_units_number r) \<noteq> slot r2"
proof -
  let ?n = "length (fr_filter_units r)" and ?i = "unat (fr_init_units_number r)" and ?z = "OneUnitSize r"
  have ok: "mq_ok lib S 0 mq" by (rule mq_reach_ok [OF assms(1)])
  have h: "h \<in> live mq" "r = reader_of mq h" using get_reader_SomeD [OF assms(2)] by auto
  have r: "loadable lib r" using ok mq_wf_readerD [of lib S mq h] h by (simp add: mq_ok_def)
  then have n: "?n \<le> 6" "?i \<le> 6" "unat (of_nat ?n :: u32) = ?n" by (simp_all add: loadable_def unat_of_nat_u32)
  define mq1 where "mq1 = (put_reader h (cleaned r) mq)\<lparr>mq_usage := mq_usage mq - cost r\<rparr>"
  have rel: "mq_Release h mq = Some mq1" unfolding mq1_def by (rule mq_Release_eq [OF assms(2,3)])
  have ok1: "mq_ok lib (insert h S) 0 mq1" using mq_Release_ok [OF ok rel] by simp
  have r1: "get_reader h mq1 = Some (cleaned r)" using assms(2) by (auto simp: mq1_def get_reader_def put_reader_def)
  have c: "loadable lib (UpdateFile None (cleaned r))" "fr_init_done (cleaned r)" "unat (fr_reload_units_number (cleaned r)) = ?n"
    "fr_init_units_number (cleaned r) = fr_init_units_number r" "OneUnitSize (cleaned r) = ?z"
    using r n assms(3) by (auto simp: UpdateFile_def cleaned_def loadable_def unit_handle_def OneUnitSize_def)
  obtain us mq2 where go: "GoBackToInitFilter lib h None mq1 = Some mq2" "get_reader h mq2 = Some ((cleaned r)\<lparr>fr_filter_units := us\<rparr>)"
    "length us = ?n" "h \<in> set (mq_queues mq2 ! ?i)" "mq_ok lib (insert h (insert h S)) (0 + (of_nat ?i - of_nat ?n) * of_nat ?z) mq2"
    using GoBackToInitFilter_ok [OF ok1 r1 c(1,2)] unfolding c by (auto simp: UpdateFile_def)
  have total: "TotalCharge mq2 = (\<Sum>x\<in>dom (mq_heap mq2). of_nat (slot (reader_of mq2 x) * OneUnitSize (reader_of mq2 x))) +
      (of_nat ?i - of_nat ?n) * of_nat ?z"
    using go(5) by (simp add: TotalCharge_def mq_ok_def charge_def cost_def live_def)
  have "(of_nat ?i - of_nat ?n) * of_nat ?z \<noteq> (0 :: u64)"
  proof
    assume "(of_nat ?i - of_nat ?n) * of_nat ?z = (0 :: u64)"
    then have "of_nat (?i * ?z) = (of_nat (?n * ?z) :: u64)" by (simp add: algebra_simps)
    moreover have z: "?z < 2 ^ 32" "0 < ?z"
      using assms(5) unsigned_less [of "fr_disk_size r"] by (simp_all add: OneUnitSize_def unat_gt_0)
    have "k * ?z < 2 ^ 64" if "k \<le> 6" for k using mult_le_mono [OF that less_imp_le [OF z(1)]] by simp
    then have "unat (of_nat (k * ?z) :: u64) = k * ?z" if "k \<le> 6" for k using that unat_of_nat_u64 by blast
    ultimately show False using n(1,2) assms(4) z(2) by (metis mult_cancel2 not_less_zero)
  qed
  then show ?thesis
    using rel go total assms(3,4) by (intro exI [of _ mq1] exI [of _ mq2] exI [of _ "(cleaned r)\<lparr>fr_filter_units := us\<rparr>"])
      (simp add: slot_def cleaned_def)
qed

theorem multi_queue_reload_usage_witness:
  "\<forall>lib. \<exists>mq mq1 mq2. mq_reach lib {0} 0 mq \<and> mq_Release 0 mq = Some mq1 \<and> GoBackToInitFilter lib 0 None mq1 = Some mq2 \<and>
     TotalCharge mq2 \<noteq> (\<Sum>x\<in>dom (mq_heap mq2). of_nat (slot (reader_of mq2 x) * OneUnitSize (reader_of mq2 x)))"
proof
  fix lib
  obtain mq r where mq: "mq_reach lib {0} 0 mq" "get_reader 0 mq = Some r" "fr_init_done r" "fr_filter_units r = []"
     "unat (fr_init_units_number r) = 2" "fr_disk_size r = 4" using sample_released [of lib] by blast
  show "\<exists>mq mq1 mq2. mq_reach lib {0} 0 mq \<and> mq_Release 0 mq = Some mq1 \<and> GoBackToInitFilter lib 0 None mq1 = Some mq2 \<and>
     TotalCharge mq2 \<noteq> (\<Sum>x\<in>dom (mq_heap mq2). of_nat (slot (reader_of mq2 x) * OneUnitSize (reader_of mq2 x)))"
    using multi_queue_reload_usage [OF mq(1-3)] mq by auto
qed

end
