(* ===== verification/Table.thy ===== *)
theory Table
  imports TableBuilder MultiQueue
begin

text \<open>
  \<open>table/table.cc\<close>: opening a table file and looking up keys in it. The multi-queue that several
  tables share is passed along (\<open>None\<close> without one); the block cache is the answer it gives to a
  lookup, and what is put into it is returned.
\<close>

section \<open>Block iterators\<close>

text \<open>The iterators without entries keep their status; every operation on them does nothing.\<close>

fun bi_Valid :: "block_iterator \<Rightarrow> bool" where
  "bi_Valid (BlockIterator i) = Iter_Valid i"
| "bi_Valid _ = False"

fun bi_Seek :: "bytes \<Rightarrow> block_iterator \<Rightarrow> block_iterator option" where
  "bi_Seek target (BlockIterator i) = map_option BlockIterator (Iter_Seek target i)"
| "bi_Seek target it = Some it"

fun bi_key :: "block_iterator \<Rightarrow> bytes" where
  "bi_key (BlockIterator i) = it_key i"
| "bi_key _ = []"

fun bi_value :: "block_iterator \<Rightarrow> bytes" where
  "bi_value (BlockIterator i) = Iter_value i"
| "bi_value _ = []"

fun bi_status :: "block_iterator \<Rightarrow> Status" where
  "bi_status (BlockIterator i) = it_status i"
| "bi_status (ErrorIterator s) = s"
| "bi_status EmptyIterator = OK"

section \<open>Opening a table\<close>

record Table =
  ta_options :: Options
  ta_file :: RandomAccessFile
  ta_block_cache_id :: u64
  ta_table_id :: u64
  ta_footer :: Footer
  ta_metaindex_handle :: BlockHandle
  ta_index_block :: Block
  ta_handle :: "handle option"
  ta_reader :: "FilterBlockReader option"
  ta_multi_cache_key :: bytes

definition ParseHandleKey :: "FilterPolicy \<Rightarrow> u64 \<Rightarrow> bytes" where
  "ParseHandleKey policy file_id = chars ''filter.'' @ fp_Name policy @ EncodeFixed64 file_id"

text \<open>
  \<open>ReadFilter\<close>: the reader of the filter block, if there is one; \<open>mem\<close> is the memory it is made in (see
  \<open>FilterBlockReader_new\<close>).
\<close>

definition ReadFilter :: "FilterBlockReader \<Rightarrow> Table \<Rightarrow> FilterBlockReader option option" where
  "ReadFilter mem t =
     (case op_filter_policy (ta_options t) of
        None \<Rightarrow> Some None
      | Some policy \<Rightarrow> do {
          (s, contents) \<leftarrow> ReadBlock (op_compressor (ta_options t)) (ta_file t) (op_paranoid_checks (ta_options t))
            (ft_metaindex_handle (ta_footer t));
          if \<not> ok s then Some None
          else do {
            let key = filter_key policy;
            iter \<leftarrow> bi_Seek key (Block_NewIterator BytewiseComparator (Block_new (bc_data contents)));
            Some (if bi_Valid iter \<and> bi_key iter = key
                  then Some (FilterBlockReader_new policy (bi_value iter) (ta_file t) mem) else None)
          }
        })"

definition ReadMeta ::
  "FilterBlockReader \<Rightarrow> Table \<Rightarrow> InternalMultiQueue option \<Rightarrow> (Table \<times> InternalMultiQueue option) option" where
  "ReadMeta mem t multi_queue =
     (if op_filter_policy (ta_options t) = None \<or> ta_reader t \<noteq> None \<or> ta_handle t \<noteq> None then Some (t, multi_queue)
      else
        case multi_queue of
          None \<Rightarrow> do {
            reader \<leftarrow> ReadFilter mem t;
            (case reader of
               None \<Rightarrow> Some (t, None)
             | Some r \<Rightarrow> do {
                 (s, r) \<leftarrow> InitLoadFilter (op_compressor (ta_options t)) r;
                 Some (t\<lparr>ta_reader := Some r\<rparr>, None)
               })
          }
        | Some mq \<Rightarrow>
            (case mq_Lookup (ta_multi_cache_key t) mq of
               None \<Rightarrow> do {
                 reader \<leftarrow> ReadFilter mem t;
                 (case reader of
                    None \<Rightarrow> Some (t, Some mq)
                  | Some r \<Rightarrow> do {
                      (h, mq) \<leftarrow> mq_Insert (ta_multi_cache_key t) (Some r) mq;
                      Some (t\<lparr>ta_handle := h\<rparr>, Some mq)
                    })
               }
             | Some h \<Rightarrow> do {
                 mq \<leftarrow> GoBackToInitFilter (op_compressor (ta_options t)) h (Some (ta_file t)) mq;
                 Some (t\<lparr>ta_handle := Some h\<rparr>, Some mq)
               }))"

definition Table_Open ::
  "Options \<Rightarrow> u64 \<Rightarrow> FilterBlockReader \<Rightarrow> RandomAccessFile \<Rightarrow> nat \<Rightarrow> u64 \<Rightarrow> InternalMultiQueue option \<Rightarrow>
   (Status \<times> Table option \<times> InternalMultiQueue option) option" where
  "Table_Open opt new_cache_id mem file file_size table_id multi_queue =
     (if file_size < Footer_kEncodedLength then Some (Corruption ''file is too short to be an sstable'' [], None, multi_queue)
      else
        let (s, footer_input, allocated) = file (of_nat (file_size - Footer_kEncodedLength)) Footer_kEncodedLength
        in if \<not> ok s then Some (s, None, multi_queue)
           else
             let (s, footer, input) = Footer_DecodeFrom footer_input Footer_new
             in if \<not> ok s then Some (s, None, multi_queue)
                else do {
                  (s, contents) \<leftarrow> ReadBlock (op_compressor opt) file (op_paranoid_checks opt) (ft_index_handle footer);
                  if \<not> ok s then Some (s, None, multi_queue)
                  else do {
                    let t = \<lparr>ta_options = opt, ta_file = file, ta_block_cache_id = new_cache_id, ta_table_id = table_id,
                             ta_footer = footer, ta_metaindex_handle = ft_metaindex_handle footer,
                             ta_index_block = Block_new (bc_data contents), ta_handle = None, ta_reader = None,
                             ta_multi_cache_key = (case op_filter_policy opt of None \<Rightarrow> [] | Some p \<Rightarrow> ParseHandleKey p table_id)\<rparr>;
                    (t, multi_queue) \<leftarrow> ReadMeta mem t multi_queue;
                    Some (s, Some t, multi_queue)
                  }
                })"

text \<open>
  \<open>std::stoi\<close>: white space, a sign, digits; \<open>None\<close> where it throws, for want of digits or because the
  number is no \<open>int\<close>.
\<close>

fun stoi_digits :: "int \<Rightarrow> bytes \<Rightarrow> int" where
  "stoi_digits acc (b # bs) = (if 48 \<le> b \<and> b \<le> 57 then stoi_digits (10 * acc + (uint b - 48)) bs else acc)"
| "stoi_digits acc [] = acc"

definition stoi :: "bytes \<Rightarrow> int option" where
  "stoi s =
     (let s = dropWhile (\<lambda>b. b = 32 \<or> 9 \<le> b \<and> b \<le> 13) s;
          negative = (s \<noteq> [] \<and> hd s = 45);
          ds = (if s \<noteq> [] \<and> (hd s = 43 \<or> hd s = 45) then tl s else s);
          n = (if negative then - stoi_digits 0 ds else stoi_digits 0 ds)
      in if ds = [] \<or> \<not> (48 \<le> hd ds \<and> hd ds \<le> 57) \<or> n < - (2 ^ 31) \<or> 2 ^ 31 \<le> n then None else Some n)"

text \<open>
  \<open>return_sstable_kv_number\<close>: the status and what is stored through the pointer, if anything; \<open>None\<close>
  also stands for an exception of \<open>stoi\<close>. The block is searched even if it could not be read.
\<close>

definition return_sstable_kv_number :: "Options \<Rightarrow> RandomAccessFile \<Rightarrow> nat \<Rightarrow> (Status \<times> int option) option" where
  "return_sstable_kv_number opt file file_size =
     (if file_size < Footer_kEncodedLength then Some (Corruption ''file is too short to be an sstable'' [], None)
      else
        let (s, footer_input, allocated) = file (of_nat (file_size - Footer_kEncodedLength)) Footer_kEncodedLength
        in if \<not> ok s then Some (s, None)
           else
             let (s, footer, input) = Footer_DecodeFrom footer_input Footer_new
             in if \<not> ok s then Some (s, None)
                else do {
                  (s, meta_index_block) \<leftarrow> ReadBlock (op_compressor opt) file (op_paranoid_checks opt) (ft_metaindex_handle footer);
                  iter \<leftarrow> bi_Seek kv_number_key (Block_NewIterator BytewiseComparator (Block_new (bc_data meta_index_block)));
                  if bi_Valid iter then do {
                    n \<leftarrow> stoi (bi_value iter);
                    Some (s, Some n)
                  } else Some (s, Some (-1))
                })"

section \<open>Reading\<close>

text \<open>The block cache: \<open>None\<close> without one, otherwise what it holds; with an iterator comes the block to insert.\<close>

type_synonym block_cache = "(bytes \<Rightarrow> Block option) option"
type_synonym cache_insert = "(bytes \<times> Block \<times> nat) option"

definition block_cache_key :: "Table \<Rightarrow> BlockHandle \<Rightarrow> bytes" where
  "block_cache_key t h = EncodeFixed64 (ta_block_cache_id t) @ EncodeFixed64 (bh_offset h)"

definition BlockReader ::
  "Table \<Rightarrow> bool \<Rightarrow> bool \<Rightarrow> block_cache \<Rightarrow> bytes \<Rightarrow> (block_iterator \<times> cache_insert) option" where
  "BlockReader t verify_checksums fill_cache cache index_value =
     (let (s, handle, input) = BlockHandle_DecodeFrom index_value BlockHandle_new;
          cmp = op_comparator (ta_options t);
          key = block_cache_key t handle
      in if \<not> ok s then Some (ErrorIterator s, None)
         else
           case (case cache of None \<Rightarrow> None | Some lookup \<Rightarrow> lookup key) of
             Some block \<Rightarrow> Some (Block_NewIterator cmp block, None)
           | None \<Rightarrow> do {
               (s, contents) \<leftarrow> ReadBlock (op_compressor (ta_options t)) (ta_file t) verify_checksums handle;
               if \<not> ok s then Some (ErrorIterator s, None)
               else do {
                 let block = Block_new (bc_data contents);
                 Some (Block_NewIterator cmp block,
                       if cache \<noteq> None \<and> bc_cachale contents \<and> fill_cache then Some (key, block, bl_size block) else None)
               }
             })"

definition MultiQueueKeyMayMatch ::
  "u64 \<Rightarrow> bytes \<Rightarrow> Table \<Rightarrow> InternalMultiQueue option \<Rightarrow> (bool \<times> InternalMultiQueue option) option" where
  "MultiQueueKeyMayMatch block_offset key t multi_queue =
     (case (multi_queue, ta_handle t) of
        (Some mq, Some h) \<Rightarrow> do {
          (b, mq) \<leftarrow> UpdateHandle (op_compressor (ta_options t)) h block_offset key mq;
          Some (b, Some mq)
        }
      | _ \<Rightarrow> Some (True, multi_queue))"

text \<open>Whether the filters exclude the key: the table's own reader first, then the multi-queue.\<close>

definition filters_exclude ::
  "bytes \<Rightarrow> bytes \<Rightarrow> Table \<Rightarrow> InternalMultiQueue option \<Rightarrow> (bool \<times> InternalMultiQueue option) option" where
  "filters_exclude handle_value k t multi_queue =
     (let (s, handle, input) = BlockHandle_DecodeFrom handle_value BlockHandle_new
      in if \<not> ok s then Some (False, multi_queue)
         else do {
           may_match \<leftarrow> (case ta_reader t of None \<Rightarrow> Some True | Some r \<Rightarrow> reader_KeyMayMatch (bh_offset handle) k r);
           if \<not> may_match then Some (True, multi_queue)
           else if ta_handle t = None then Some (False, multi_queue)
           else do {
             (b, multi_queue) \<leftarrow> MultiQueueKeyMayMatch (bh_offset handle) k t multi_queue;
             Some (\<not> b, multi_queue)
           }
         })"

text \<open>\<open>InternalGet\<close>: the status, the entry that is handed to the caller's function if any, and the effects.\<close>

definition InternalGet ::
  "bool \<Rightarrow> bool \<Rightarrow> block_cache \<Rightarrow> bytes \<Rightarrow> Table \<Rightarrow> InternalMultiQueue option \<Rightarrow>
   (Status \<times> (bytes \<times> bytes) option \<times> cache_insert \<times> InternalMultiQueue option) option" where
  "InternalGet verify_checksums fill_cache cache k t multi_queue = do {
     iiter \<leftarrow> bi_Seek k (Block_NewIterator (op_comparator (ta_options t)) (ta_index_block t));
     if \<not> bi_Valid iiter then Some (bi_status iiter, None, None, multi_queue)
     else do {
       (excluded, multi_queue) \<leftarrow> filters_exclude (bi_value iiter) k t multi_queue;
       if excluded then Some (bi_status iiter, None, None, multi_queue)
       else do {
         (block_iter, ins) \<leftarrow> BlockReader t verify_checksums fill_cache cache (bi_value iiter);
         block_iter \<leftarrow> bi_Seek k block_iter;
         Some (if ok (bi_status block_iter) then bi_status iiter else bi_status block_iter,
               if bi_Valid block_iter then Some (bi_key block_iter, bi_value block_iter) else None, ins, multi_queue)
       }
     }
   }"

definition ApproximateOffsetOf :: "bytes \<Rightarrow> Table \<Rightarrow> u64 option" where
  "ApproximateOffsetOf key t = do {
     index_iter \<leftarrow> bi_Seek key (Block_NewIterator (op_comparator (ta_options t)) (ta_index_block t));
     Some (if bi_Valid index_iter then
             (let (s, handle, input) = BlockHandle_DecodeFrom (bi_value index_iter) BlockHandle_new
              in if ok s then bh_offset handle else bh_offset (ta_metaindex_handle t))
           else bh_offset (ta_metaindex_handle t))
   }"

section \<open>The filters of a table\<close>

definition BFChange :: "Table \<Rightarrow> nat option" where
  "BFChange t = (case ta_reader t of None \<Rightarrow> Some 0 | Some r \<Rightarrow> map_option (\<lambda>n. n * OneUnitSize r) (FilterUnitsNumber r))"

definition UnitSize :: "Table \<Rightarrow> nat" where
  "UnitSize t = (case ta_reader t of None \<Rightarrow> 0 | Some r \<Rightarrow> OneUnitSize r)"

definition BFNumer :: "Table \<Rightarrow> nat option" where
  "BFNumer t = (case ta_reader t of None \<Rightarrow> Some 0 | Some r \<Rightarrow> FilterUnitsNumber r)"

definition Table_BitsPerKey :: "Table \<Rightarrow> nat" where
  "Table_BitsPerKey t = (case ta_reader t of None \<Rightarrow> 0 | Some r \<Rightarrow> fp_BitsPerKey (fr_policy r))"

definition ISCold :: "SequenceNumber \<Rightarrow> Table \<Rightarrow> bool" where
  "ISCold current_time t = (case ta_reader t of None \<Rightarrow> True | Some r \<Rightarrow> IsCold current_time r)"

text \<open>Loading and evicting a unit: the bytes that were gained or freed.\<close>

definition LoadBloomFilter :: "Table \<Rightarrow> (nat \<times> Table) option" where
  "LoadBloomFilter t =
     (case ta_reader t of
        None \<Rightarrow> Some (0, t)
      | Some r \<Rightarrow> do {
          l \<leftarrow> CanBeLoaded r;
          if \<not> l then Some (0, t)
          else do {
            (s, r') \<leftarrow> LoadFilter (op_compressor (ta_options t)) r;
            Some (OneUnitSize r', t\<lparr>ta_reader := Some r'\<rparr>)
          }
        })"

definition EvictBloomFilter :: "Table \<Rightarrow> (nat \<times> Table) option" where
  "EvictBloomFilter t = do {
     r \<leftarrow> ta_reader t;
     e \<leftarrow> CanBeEvict r;
     if \<not> e then Some (0, t)
     else (let (s, r') = EvictFilter r in Some (OneUnitSize r', t\<lparr>ta_reader := Some r'\<rparr>))
   }"

section \<open>Searching entries\<close>

lemma find_app: "find P (xs @ ys) = (case find P xs of None \<Rightarrow> find P ys | Some x \<Rightarrow> Some x)"
  by (induction xs) auto

lemma find_index: "map_option (\<lambda>n. xs ! n) (find (\<lambda>n. P (xs ! n)) [0..<length xs]) = find P xs"
proof (induction xs rule: rev_induct)
  case (snoc x xs)
  have "find (\<lambda>n. P ((xs @ [x]) ! n)) [0..<length xs] = find (\<lambda>n. P (xs ! n)) [0..<length xs]"
    by (rule find_cong) (auto simp: nth_append)
  moreover have "map_option (\<lambda>n. (xs @ [x]) ! n) (find (\<lambda>n. P (xs ! n)) [0..<length xs]) =
      map_option (\<lambda>n. xs ! n) (find (\<lambda>n. P (xs ! n)) [0..<length xs])"
    by (rule map_option_cong) (auto simp: find_Some_iff nth_append)
  ultimately show ?case using snoc
    by (cases "find (\<lambda>n. P (xs ! n)) [0..<length xs]") (auto simp: find_app dest: sym simp del: not_None_eq)
qed simp

abbreviation not_before :: "Comparator \<Rightarrow> bytes \<Rightarrow> bytes \<times> bytes \<Rightarrow> bool" where
  "not_before c k \<equiv> (\<lambda>kv. \<not> Compare c (fst kv) k < 0)"

text \<open>Seeking in a block that was built from sorted entries.\<close>

lemma built_seek:
  assumes "comparator c" "1 \<le> interval" "sorted_wrt (\<lambda>a b. Compare c (fst a) (fst b) < 0) kvs" "bulk kvs < 2 ^ 32"
  shows "\<exists>it. bi_Seek k (Block_NewIterator c (Block_new (built_block interval kvs))) = Some it \<and> bi_status it = OK \<and>
    (case find (not_before c k) kvs of
       None \<Rightarrow> \<not> bi_Valid it
     | Some kv \<Rightarrow> bi_Valid it \<and> bi_key it = fst kv \<and> bi_value it = snd kv)"
proof -
  have "length (built_block interval kvs) < 2 ^ 32" using built_block_bulk [OF assms(2), of kvs] assms(4) by linarith
  from built_block_run [OF assms(1-3) this, of "[To k]"] obtain i0 i where
    i: "Block_NewIterator c (Block_new (built_block interval kvs)) = BlockIterator i0" "Iter_Seek k i0 = Some i" "it_status i = OK"
    "case find (\<lambda>n. \<not> Compare c (fst (kvs ! n)) k < 0) [0..<length kvs] of None \<Rightarrow> \<not> Iter_Valid i
     | Some n \<Rightarrow> Iter_Valid i \<and> (it_key i, Iter_value i) = kvs ! n"
    by (auto split: option.splits)
  show ?thesis
    using i find_index [of kvs "not_before c k", symmetric]
    by (intro exI [of _ "BlockIterator i"], cases "find (\<lambda>n. not_before c k (kvs ! n)) [0..<length kvs]")
      (simp_all, metis fst_conv snd_conv)
qed

section \<open>The index finds the block\<close>

context table_order
begin

lemma sorted_hd:
  assumes "sorted_entries kvs" "(key, v) \<in> set kvs"
  shows "Compare c (fst (hd kvs)) key \<le> 0"
  using assms by (cases kvs) (auto simp: sorted_entries_def less_imp_le)

lemma sorted_last:
  assumes "sorted_entries kvs" "(key, v) \<in> set kvs"
  shows "Compare c key (fst (last kvs)) \<le> 0"
  using assms by (induction kvs rule: rev_induct) (auto simp: sorted_entries_def sorted_wrt_append less_imp_le)

lemma entries_split: "i < length bs \<Longrightarrow> entries bs = entries (take i bs) @ fst (bs ! i) @ entries (drop (Suc i) bs)"
  using arg_cong [OF id_take_nth_drop [of i bs], of entries] by (simp add: entries_def)

lemma in_entries: "kv \<in> set (entries bs) \<longleftrightarrow> (\<exists>i<length bs. kv \<in> set (fst (bs ! i)))"
  by (force simp: entries_def in_set_conv_nth)

lemma index_separates:
  assumes "index_ok bs ixs []" "length ixs = length bs" "sorted_entries (entries bs)" "\<forall>b\<in>set bs. fst b \<noteq> []" "i < length bs"
  shows "(key, v) \<in> set (fst (bs ! i)) \<Longrightarrow> Compare c key (fst (ixs ! i)) \<le> 0"
    "(key, v) \<in> set (entries (drop (Suc i) bs)) \<Longrightarrow> Compare c (fst (ixs ! i)) key < 0"
    "entries (drop (Suc i) bs) \<noteq> [] \<Longrightarrow> norm k = norm (fst (hd (entries (drop (Suc i) bs)))) \<Longrightarrow>
      Compare c k (fst (ixs ! i)) \<le> 0 \<Longrightarrow> Compare c k (block_last (bs ! i)) \<le> 0"
proof -
  let ?later = "entries (drop (Suc i) bs)" and ?last = "block_last (bs ! i)"
  have sep: "separates ?last (fst (ixs ! i)) (map fst ?later)" using assms(1,2,5) by (simp add: index_ok_def)
  have split: "entries bs = entries (take i bs) @ fst (bs ! i) @ ?later" by (rule entries_split [OF assms(5)])
  have s: "sorted_entries (fst (bs ! i))" "sorted_entries ?later"
    "\<And>a b. a \<in> set (fst (bs ! i)) \<Longrightarrow> b \<in> set ?later \<Longrightarrow> Compare c (fst a) (fst b) < 0"
    using assms(3) unfolding split sorted_entries_def by (auto simp: sorted_wrt_append)
  have lst: "last (fst (bs ! i)) \<in> set (fst (bs ! i))" using assms(4,5) by simp
  show "Compare c key (fst (ixs ! i)) \<le> 0" if "(key, v) \<in> set (fst (bs ! i))"
    using compare_trans [OF sorted_last [OF s(1) that]] sep by (simp add: separates_def)
  have hd: "Compare c ?last (fst (hd ?later)) < 0" "fst (ixs ! i) = FindShortestSeparator c ?last (fst (hd ?later))" if "?later \<noteq> []"
    using s(3) [OF lst hd_in_set [OF that]] sep that by (simp_all add: separates_def hd_map)
  show "Compare c (fst (ixs ! i)) key < 0" if "(key, v) \<in> set ?later"
  proof -
    have ne: "?later \<noteq> []" using that by auto
    show ?thesis using compare_less_le_trans [OF separator_less [OF hd(1) [OF ne]] sorted_hd [OF s(2) that]] hd(2) [OF ne] by simp
  qed
  show "Compare c k ?last \<le> 0"
    if "?later \<noteq> []" "norm k = norm (fst (hd ?later))" "Compare c k (fst (ixs ! i)) \<le> 0"
    using separator_gap [OF hd(1) [OF that(1)] _ that(2)] that hd(2) by simp
qed

lemma index_sorted:
  assumes "index_ok bs ixs []" "length ixs = length bs" "sorted_entries (entries bs)" "\<forall>b\<in>set bs. fst b \<noteq> []"
  shows "sorted_entries ixs"
  unfolding sorted_entries_def sorted_wrt_iff_nth_less
proof (intro allI impI)
  fix i j assume ij: "i < j" "j < length ixs"
  obtain key v where kv: "(key, v) \<in> set (fst (bs ! j))" using assms(2,4) ij(2) by (metis hd_in_set nth_mem surj_pair)
  have "drop (Suc i) bs ! (j - Suc i) = bs ! j" "j - Suc i < length (drop (Suc i) bs)" using ij assms(2) by simp_all
  then have "(key, v) \<in> set (entries (drop (Suc i) bs))" using kv by (auto simp only: in_entries intro!: exI [of _ "j - Suc i"])
  then have "Compare c (fst (ixs ! i)) key < 0" using index_separates(2) [OF assms, of i key v] ij assms(2) by simp
  moreover have "Compare c key (fst (ixs ! j)) \<le> 0" using index_separates(1) [OF assms _ kv] ij assms(2) by simp
  ultimately show "Compare c (fst (ixs ! i)) (fst (ixs ! j)) < 0" by (rule compare_less_le_trans)
qed

text \<open>
  The block that the index names for a key holds the first entry not before it, unless that entry is
  the first of a later block and not identified with the key.
\<close>

lemma index_find:
  assumes "index_ok bs ixs []" "length ixs = length bs" "sorted_entries (entries bs)" "\<forall>b\<in>set bs. fst b \<noteq> []"
  shows "case find (not_before c k) ixs of
      None \<Rightarrow> find (not_before c k) (entries bs) = None
    | Some ix \<Rightarrow> \<exists>i<length bs. ix = ixs ! i \<and>
        (case find (not_before c k) (fst (bs ! i)) of
           Some e \<Rightarrow> find (not_before c k) (entries bs) = Some e \<and> e \<in> set (fst (bs ! i))
         | None \<Rightarrow> (\<forall>e. find (not_before c k) (entries bs) = Some e \<longrightarrow> norm k \<noteq> norm (fst e)))"
proof (cases "find (not_before c k) ixs")
  case None
  then have ix: "Compare c (fst ix) k < 0" if "ix \<in> set ixs" for ix using that by (cases ix) (auto simp: find_None_iff)
  have "Compare c (fst kv) k < 0" if "kv \<in> set (entries bs)" for kv
  proof -
    obtain i where i: "i < length bs" "(fst kv, snd kv) \<in> set (fst (bs ! i))" using \<open>kv \<in> _\<close> unfolding in_entries by auto
    show ?thesis using compare_le_less_trans [OF index_separates(1) [OF assms i] ix] i(1) assms(2) by simp
  qed
  then have "find (not_before c k) (entries bs) = None" unfolding find_None_iff by blast
  then show ?thesis using None by simp
next
  case (Some ix)
  then obtain i where i: "i < length bs" "ix = ixs ! i" "\<not> Compare c (fst (ixs ! i)) k < 0" "\<And>j. j < i \<Longrightarrow> Compare c (fst (ixs ! j)) k < 0"
    using assms(2) by (auto simp: find_Some_iff)
  have "Compare c (fst kv) k < 0" if "kv \<in> set (entries (take i bs))" for kv
  proof -
    obtain j where j: "j < i" "kv \<in> set (fst (bs ! j))" using \<open>kv \<in> _\<close> i(1) unfolding in_entries by auto
    then show ?thesis
      using compare_le_less_trans [OF index_separates(1) [OF assms, of j "fst kv" "snd kv"] i(4) [OF j(1)]] i(1) by simp
  qed
  then have none: "find (not_before c k) (entries (take i bs)) = None" unfolding find_None_iff by blast
  let ?later = "entries (drop (Suc i) bs)"
  have f: "find (not_before c k) (entries bs) =
      (case find (not_before c k) (fst (bs ! i)) of None \<Rightarrow> find (not_before c k) ?later | Some x \<Rightarrow> Some x)"
    unfolding entries_split [OF i(1)] by (simp add: find_app none)
  show ?thesis
  proof (cases "find (not_before c k) (fst (bs ! i))")
    case blk: None
    have "norm k \<noteq> norm (fst e)" if "find (not_before c k) ?later = Some e" for e
    proof
      assume eq: "norm k = norm (fst e)"
      have ne: "?later \<noteq> []" using that by auto
      have le: "Compare c k (fst (ixs ! i)) \<le> 0" using i(3) compare_not_less by blast
      have "Compare c (fst (ixs ! i)) (fst (hd ?later)) < 0"
        using index_separates(2) [OF assms i(1), of "fst (hd ?later)" "snd (hd ?later)"] hd_in_set [OF ne] by simp
      then have "not_before c k (hd ?later)" using compare_le_less_trans [OF le] compare_gt_iff [of "fst (hd ?later)" k] by force
      then have "e = hd ?later" using that ne by (cases ?later) auto
      then have "Compare c k (block_last (bs ! i)) \<le> 0" using index_separates(3) [OF assms i(1) ne _ le] eq by simp
      moreover have "last (fst (bs ! i)) \<in> set (fst (bs ! i))" using assms(4) i(1) by simp
      then have "Compare c (block_last (bs ! i)) k < 0" using blk unfolding find_None_iff by blast
      ultimately show False using compare_gt_iff [of k "block_last (bs ! i)"] by simp
    qed
    then show ?thesis using Some blk i(1,2) f by auto
  next
    case (Some e)
    then have "e \<in> set (fst (bs ! i))" by (auto simp: find_Some_iff)
    then show ?thesis using \<open>find (not_before c k) ixs = Some ix\<close> Some i(1,2) f by auto
  qed
qed

end

section \<open>The number of entries\<close>

abbreviation digit_byte :: "byte \<Rightarrow> bool" where
  "digit_byte b \<equiv> 48 \<le> b \<and> b \<le> 57"

lemma digit_char_byte:
  assumes "m < 10"
  shows "digit_byte (of_nat (of_char (digit_char m)))" "uint (of_nat (of_char (digit_char m)) :: byte) = 48 + int m"
proof -
  have "(of_char (digit_char m) :: nat) = 48 + m" using assms by (simp add: digit_char_def)
  moreover define b :: byte where "b = of_nat (48 + m)"
  ultimately have b: "of_nat (of_char (digit_char m)) = b" by simp
  have "unat b = 48 + m" unfolding b_def unat_of_nat using assms by (simp add: take_bit_nat_eq_self)
  then show "digit_byte (of_nat (of_char (digit_char m)))" "uint (of_nat (of_char (digit_char m)) :: byte) = 48 + int m"
    unfolding b using assms by (simp_all add: word_le_nat_alt uint_nat)
qed

lemma stoi_digits_append: "list_all digit_byte ds \<Longrightarrow> stoi_digits acc (ds @ ds') = stoi_digits (stoi_digits acc ds) ds'"
  by (induction ds arbitrary: acc) auto

lemma stoi_decimal_digits:
  "list_all digit_byte (chars (decimal n)) \<and> stoi_digits 0 (chars (decimal n)) = int n \<and> chars (decimal n) \<noteq> []"
proof (induction n rule: decimal.induct)
  case (1 n)
  show ?case
  proof (cases "n < 10")
    case True
    then show ?thesis using digit_char_byte [of n] by (subst (1 2 3) decimal.simps) (simp add: chars_def)
  next
    case False
    then have "decimal n = decimal (n div 10) @ [digit_char (n mod 10)]" by (subst decimal.simps) simp
    moreover have "10 * int (n div 10) + int (n mod 10) = int n" by presburger
    ultimately show ?thesis
      using 1 False digit_char_byte [of "n mod 10"] by (simp add: chars_def stoi_digits_append)
  qed
qed

lemma stoi_decimal:
  assumes "n < 2 ^ 31"
  shows "stoi (chars (decimal n)) = Some (int n)"
proof -
  obtain d ds where d: "chars (decimal n) = d # ds" "digit_byte d" using stoi_decimal_digits [of n] by (cases "chars (decimal n)") auto
  have "d \<noteq> 32" "\<not> d \<le> 13" "d \<noteq> 43" "d \<noteq> 45" using d(2) by (auto simp: word_le_nat_alt)
  moreover have "stoi_digits 0 (d # ds) = int n" using stoi_decimal_digits [of n] unfolding d(1) by blast
  ultimately show ?thesis using assms d by (simp add: stoi_def Let_def)
qed

section \<open>Sizes\<close>

text \<open>What the blocks of a table cost at most: the entries, and for every block an index entry.\<close>

definition table_bulk :: "(bytes \<times> bytes) list \<Rightarrow> nat" where
  "table_bulk kvs = sum_list (map (\<lambda>(k, v). length k + length v + 39) kvs) + 8"

lemma bulk_Nil: "bulk [] = 8"
  by (simp add: bulk_def)

lemma bulk_Cons: "bulk (kv # kvs) = length (fst kv) + length (snd kv) + 19 + bulk kvs"
  by (simp add: bulk_def split_beta)

lemma table_bulk_append: "table_bulk (xs @ ys) + 8 = table_bulk xs + table_bulk ys"
  by (simp add: table_bulk_def)

lemma length_table_bulk: "length kvs \<le> table_bulk kvs"
  by (induction kvs) (simp_all add: table_bulk_def split_beta)

lemma bulk_le_table_bulk: "bulk kvs \<le> table_bulk kvs"
  by (induction kvs) (simp_all add: bulk_def table_bulk_def split_beta)

lemma table_bulk_member: "kv \<in> set kvs \<Longrightarrow> length (fst kv) + length (snd kv) + 39 + 8 \<le> table_bulk kvs"
  by (induction kvs) (auto simp: table_bulk_def split_beta)

lemma length_decimal_le: "length (decimal n) \<le> Suc n"
proof (induction n rule: decimal.induct)
  case (1 n)
  then show ?case by (subst decimal.simps) auto
qed

context table_order
begin

lemma bulk_block: "b \<in> set bs \<Longrightarrow> bulk (fst b) \<le> table_bulk (entries bs)"
proof (induction bs)
  case (Cons b' bs)
  then show ?case
    using bulk_le_table_bulk [of "fst b"] table_bulk_append [of "fst b'" "entries bs"]
    by (auto simp: entries_def table_bulk_def)
qed simp

lemma bulk_index:
  assumes "\<forall>b\<in>set bs. fst b \<noteq> []" "length ixs = length bs"
    "\<And>i. i < length bs \<Longrightarrow> length (fst (ixs ! i)) \<le> length (block_last (bs ! i)) \<and> length (snd (ixs ! i)) \<le> 20"
  shows "bulk ixs \<le> table_bulk (entries bs)"
  using assms
proof (induction bs arbitrary: ixs)
  case (Cons b bs)
  then obtain ix ixs' where ixs: "ixs = ix # ixs'" "length ixs' = length bs" by (cases ixs) auto
  have "bulk ixs' \<le> table_bulk (entries bs)"
    using Cons.prems(1,3) Cons.prems(3) [of "Suc _"] by (intro Cons.IH) (auto simp: ixs)
  moreover have "length (fst ix) \<le> length (fst (last (fst b)))" "length (snd ix) \<le> 20" using Cons.prems(3) [of 0] by (auto simp: ixs)
  moreover have "length (fst (last (fst b))) + length (snd (last (fst b))) + 39 + 8 \<le> table_bulk (fst b)"
    using Cons.prems(1) by (intro table_bulk_member) simp
  moreover have "table_bulk (entries (b # bs)) + 8 = table_bulk (fst b) + table_bulk (entries bs)"
    using table_bulk_append by (simp add: entries_def)
  ultimately show ?case unfolding ixs(1) bulk_Cons by linarith
qed (simp add: entries_def bulk_Nil table_bulk_def)

end

lemma file_bulk:
  assumes "1 \<le> n" "\<forall>b\<in>set bs. fst b \<noteq> [] \<and> length (fst (snd b)) \<le> length (built_block n (fst b))"
  shows "length (file_of bs) + 8 \<le> table_bulk (entries bs)"
  using assms(2)
proof (induction bs)
  case (Cons b bs)
  have "length (fst (snd b)) \<le> bulk (fst b)" using built_block_bulk [OF assms(1), of "fst b"] Cons.prems by simp
  moreover have "bulk (fst b) + 13 \<le> table_bulk (fst b)"
    using Cons.prems bulk_le_table_bulk [of "tl (fst b)"] table_bulk_append [of "[hd (fst b)]" "tl (fst b)"]
    by (cases "fst b") (auto simp: bulk_Cons table_bulk_def)
  moreover have "length (file_of bs) + 8 \<le> table_bulk (entries bs)" using Cons by simp
  moreover have "table_bulk (entries (b # bs)) + 8 = table_bulk (fst b) + table_bulk (entries bs)"
    using table_bulk_append by (simp add: entries_def)
  moreover have "length (file_of (b # bs)) = length (fst (snd b)) + 5 + length (file_of bs)"
    by (simp add: file_of_def split_beta kBlockTrailerSize_def)
  ultimately show ?case by linarith
qed (simp add: file_of_def entries_def table_bulk_def)

section \<open>A table in a file\<close>

locale table_reader = table_format c norm p flt + filter_file p norm flt read file_ok contents
  for c norm p flt and read :: "'f \<Rightarrow> RandomAccessFile" and file_ok contents
begin

text \<open>Sorted entries, written with these options, in a file; the bounds keep block offsets and filter offsets at their width.\<close>

definition in_file :: "Options \<Rightarrow> (bytes \<times> bytes) list \<Rightarrow> table_layout \<Rightarrow> 'f \<Rightarrow> bool" where
  "in_file opt kvs L f \<longleftrightarrow> options_ok opt \<and> layout_ok opt kvs L \<and> sorted_entries kvs \<and> file_ok f \<and> contents f = image L \<and>
     length (image L) < 2 ^ 32 \<and> table_bulk kvs < 2 ^ 31"

lemma in_fileD:
  assumes "in_file opt kvs L f"
  shows "options_ok opt" "entries (tl_blocks L) = kvs" "\<forall>b\<in>set (tl_blocks L). fst b \<noteq> []" "length (tl_ixs L) = length (tl_blocks L)"
    "index_ok (tl_blocks L) (tl_ixs L) []" "sorted_entries (entries (tl_blocks L))"
    "file_ok f" "contents f = image L" "length (image L) < 2 ^ 32" "length (contents f) < 2 ^ 64" "table_bulk kvs < 2 ^ 31"
    "op_comparator opt = c" "1 \<le> op_block_restart_interval opt"
  using assms by (auto simp: in_file_def layout_ok_def blocks_ok_def options_ok_def)

lemma read_data:
  assumes "in_file opt kvs L f" "i < length (tl_blocks L)"
  shows "\<exists>b. ReadBlock (op_compressor opt) (read f) verify (block_handle (tl_blocks L) i) = Some (OK, b) \<and>
    bc_data b = built_block (op_block_restart_interval opt) (fst (tl_blocks L ! i))"
proof -
  obtain es data t where b: "tl_blocks L ! i = (es, data, t)" by (cases "tl_blocks L ! i")
  have "file_of (tl_blocks L) = file_of (take i (tl_blocks L)) @ stored_block data t @ file_of (drop (Suc i) (tl_blocks L))"
    using arg_cong [OF id_take_nth_drop [OF assms(2)], of file_of] b by (simp add: file_of_def)
  moreover have "block_decodes (op_compressor opt) data t (built_block (op_block_restart_interval opt) es)"
    using assms nth_mem [OF assms(2)] b by (auto simp: in_file_def layout_ok_def blocks_ok_def)
  ultimately show ?thesis
    using in_fileD [OF assms(1)] b
    by (intro ReadBlock_stored [where pre = "file_of (take i (tl_blocks L))" and t = t]) (auto simp: image_def block_handle_def block_start_def)
qed

lemma read_meta:
  assumes "in_file opt kvs L f"
  shows "\<exists>b. ReadBlock (op_compressor opt) (read f) verify (ft_metaindex_handle (layout_footer L)) = Some (OK, b) \<and>
    bc_data b = built_block (op_block_restart_interval opt) (tl_metas L)"
  using in_fileD [OF assms] assms
  by (intro ReadBlock_stored [where pre = "file_of (tl_blocks L) @ stored_units (tl_units L)" and t = "snd (tl_meta L)"])
    (auto simp: image_def layout_footer_def meta_start_def units_start_def in_file_def layout_ok_def)

lemma read_index:
  assumes "in_file opt kvs L f"
  shows "\<exists>b. ReadBlock (op_compressor opt) (read f) verify (ft_index_handle (layout_footer L)) = Some (OK, b) \<and>
    bc_data b = built_block 1 (tl_ixs L)"
  using in_fileD [OF assms] assms
  by (intro ReadBlock_stored [where pre = "file_of (tl_blocks L) @ stored_units (tl_units L) @ stored_block (fst (tl_meta L)) (snd (tl_meta L))"
        and t = "snd (tl_index L)"])
    (auto simp: image_def layout_footer_def meta_start_def units_start_def index_start_def in_file_def layout_ok_def)

lemma read_footer:
  assumes "in_file opt kvs L f"
  shows "Footer_kEncodedLength \<le> length (contents f)"
    "\<exists>a input. read f (of_nat (length (contents f) - Footer_kEncodedLength)) Footer_kEncodedLength = (OK, input, a) \<and>
      Footer_DecodeFrom input Footer_new = (OK, layout_footer L, [])"
proof -
  let ?foot = "Footer_EncodeTo (layout_footer L) []" and ?n = "length (contents f) - Footer_kEncodedLength"
  note f = in_fileD [OF assms]
  show le: "Footer_kEncodedLength \<le> length (contents f)" by (simp add: f(8) image_def Footer_roundtrip(1))
  have "drop ?n (contents f) = ?foot" by (simp add: f(8) image_def Footer_roundtrip(1))
  moreover have "unat (of_nat ?n :: u64) = ?n" using f(10) by (intro unat_of_nat_u64) simp
  ultimately show "\<exists>a input. read f (of_nat ?n) Footer_kEncodedLength = (OK, input, a) \<and>
      Footer_DecodeFrom input Footer_new = (OK, layout_footer L, [])"
    using read [OF f(7), of "of_nat ?n" Footer_kEncodedLength] Footer_roundtrip(2) [of "layout_footer L" "[]"]
    by (auto simp: Footer_roundtrip(1))
qed

text \<open>The filters a table is opened with.\<close>

definition filters_at :: "'f \<Rightarrow> table_layout \<Rightarrow> FilterBlockReader \<Rightarrow> bool" where
  "filters_at f L r \<longleftrightarrow> fr_init_done r \<and> (\<exists>fs m. reader_at f r fs m \<and> length (unit_of fs 0) < 2 ^ 32 \<and>
     (\<forall>i<length (tl_blocks L). fst ` set (fst (tl_blocks L ! i)) \<subseteq> keys_of fs [] (block_start (tl_blocks L) i div 2048)))"

lemma filters_at_match:
  assumes "filters_at f L r" "in_file opt kvs L f" "i < length (tl_blocks L)"
  shows "\<exists>b. reader_KeyMayMatch (bh_offset (block_handle (tl_blocks L) i)) k r = Some b \<and>
    (e \<in> set (fst (tl_blocks L ! i)) \<longrightarrow> norm k = norm (fst e) \<longrightarrow> b)"
proof -
  from assms(1) obtain fs m where r: "fr_init_done r" "reader_at f r fs m" "length (unit_of fs 0) < 2 ^ 32"
    "fst ` set (fst (tl_blocks L ! i)) \<subseteq> keys_of fs [] (block_start (tl_blocks L) i div 2048)"
    using assms(3) unfolding filters_at_def by blast
  let ?off = "bh_offset (block_handle (tl_blocks L) i)"
  have "length (file_of (tl_blocks L)) = length (file_of (take i (tl_blocks L) @ drop i (tl_blocks L)))" by simp
  then have "length (file_of (take i (tl_blocks L))) \<le> length (file_of (tl_blocks L))"
    unfolding file_of_def map_append concat_append length_append by linarith
  then have "block_start (tl_blocks L) i < 2 ^ 64"
    using in_fileD(10) [OF assms(2)] unfolding in_fileD(8) [OF assms(2)] image_def block_start_def by simp
  then have off: "unat ?off = block_start (tl_blocks L) i" by (simp add: block_handle_def unat_of_nat_u64)
  have rep: "reader_rep r fs (fr_disk_offset r) m" using r(2) by (simp add: reader_at_def)
  have "reader_KeyMayMatch ?off k r \<noteq> None"
    using rep r(1) by (simp add: reader_KeyMayMatch_def reader_rep_def FilterUnitsNumber_def Let_def del: not_None_eq)
  moreover have "reader_KeyMayMatch ?off k r = Some True" if "e \<in> set (fst (tl_blocks L ! i))" "norm k = norm (fst e)"
  proof -
    have "fst e \<in> keys_of fs [] (unat ?off div 2048)" using r(4) that(1) unfolding off by blast
    from keys_of_finished [OF this] show ?thesis
      using reader_rep_match [OF rep r(1,3), of ?off "fst e" k] that(2) by simp
  qed
  ultimately show ?thesis by auto
qed

text \<open>\<open>ReadFilter\<close> finds the offsets of the filters under the policy's name, which sorts before the count of entries.\<close>

definition names_ok :: bool where
  "names_ok \<longleftrightarrow> length (fp_Name p) < 2 ^ 16 \<and> Compare c (filter_key p) kv_number_key < 0 \<and>
     Compare BytewiseComparator (filter_key p) kv_number_key < 0"

lemma bulk_metas:
  assumes "length name \<le> 2 ^ 17" "length meta \<le> 2 ^ 24" "n < 2 ^ 31"
  shows "bulk [(name, meta), (kv_number_key, chars (decimal n))] < 2 ^ 32"
proof -
  have "length (chars (decimal n)) \<le> Suc n" using length_decimal_le [of n] by (simp add: chars_def)
  moreover have "length kv_number_key = 17" by code_simp
  ultimately show ?thesis using assms by (simp add: bulk_Cons bulk_Nil)
qed

lemma filter_metas:
  assumes "in_file opt kvs L f" "names_ok" "op_filter_policy opt = Some p"
  obtains fs b where "builder_rep b fs []" "tl_units L = units fs"
    "tl_metas L = [(filter_key p, fst (FilterBlockBuilder_Finish (units_handle L) b)), (kv_number_key, chars (decimal (length kvs)))]"
    "\<forall>i<length (tl_blocks L). fst ` set (fst (tl_blocks L ! i)) \<subseteq> keys_of fs [] (block_start (tl_blocks L) i div 2048)"
    "length (unit_of fs 0) < 2 ^ 32" "bulk (tl_metas L) < 2 ^ 32"
    "sorted_wrt (\<lambda>a b. Compare BytewiseComparator (fst a) (fst b) < 0) (tl_metas L)"
proof -
  let ?bs = "tl_blocks L" and ?kv = "(kv_number_key, chars (decimal (length kvs)))"
  note f = in_fileD [OF assms(1)]
  have len: "length (file_of ?bs) + length (stored_units (tl_units L)) < 2 ^ 32" using f(9) by (simp add: image_def)
  have "layout_filters opt L ?kv" using assms(1) by (simp add: in_file_def layout_ok_def)
  then obtain fs b where b: "builder_rep b fs []" "tl_units L = units fs"
    "tl_metas L = [(filter_key p, fst (FilterBlockBuilder_Finish (units_handle L) b)), ?kv]"
    "\<forall>i<length ?bs. fst ` set (fst (?bs ! i)) \<subseteq> keys_of fs [] (block_start ?bs i div 2048)"
    "length fs \<le> Suc (length (file_of ?bs) div 2048)"
    using assms(2,3) len by (auto simp: layout_filters_def names_ok_def Let_def)
  let ?meta = "fst (FilterBlockBuilder_Finish (units_handle L) b)"
  have unit: "length (unit_of fs 0) < 2 ^ 32" using len length_stored_units_of [of fs] by (simp add: b(2))
  have meta_len: "length ?meta = 4 * length fs + 25"
    unfolding Finish_meta [OF b(1)] by (simp add: length_concat comp_def meta_offsets_def sum_list_triv)
  have "length fs \<le> Suc ((2 ^ 32) div 2048)" using b(5) len div_le_mono [of "length (file_of ?bs)" "2 ^ 32" 2048] by simp
  then have "length ?meta \<le> 2 ^ 24" unfolding meta_len by simp
  moreover have "length (filter_key p) \<le> 2 ^ 17" using assms(2) by (simp add: names_ok_def filter_key_def chars_def)
  moreover have "length kvs < 2 ^ 31" using length_table_bulk [of kvs] f(11) by linarith
  ultimately have "bulk (tl_metas L) < 2 ^ 32" unfolding b(3) by (intro bulk_metas)
  moreover have "sorted_wrt (\<lambda>a b. Compare BytewiseComparator (fst a) (fst b) < 0) (tl_metas L)"
    using assms(2) by (simp add: b(3) names_ok_def)
  ultimately show thesis by (rule that [OF b(1-4) unit])
qed

lemma read_filter:
  assumes "in_file opt kvs L f" "names_ok" "op_filter_policy opt = Some p" "ta_options t = opt" "ta_file t = read f"
    "ta_footer t = layout_footer L"
  shows "\<exists>r fs. ReadFilter mem t = Some (Some r) \<and> reader_at f r fs 0 \<and> length (unit_of fs 0) < 2 ^ 32 \<and>
     (\<forall>i<length (tl_blocks L). fst ` set (fst (tl_blocks L ! i)) \<subseteq> keys_of fs [] (block_start (tl_blocks L) i div 2048))"
proof -
  note f = in_fileD [OF assms(1)]
  obtain fs b where b: "builder_rep b fs []" "tl_units L = units fs"
    "tl_metas L = [(filter_key p, fst (FilterBlockBuilder_Finish (units_handle L) b)), (kv_number_key, chars (decimal (length kvs)))]"
    "\<forall>i<length (tl_blocks L). fst ` set (fst (tl_blocks L ! i)) \<subseteq> keys_of fs [] (block_start (tl_blocks L) i div 2048)"
    and unit: "length (unit_of fs 0) < 2 ^ 32" and metas: "bulk (tl_metas L) < 2 ^ 32"
    "sorted_wrt (\<lambda>a b. Compare BytewiseComparator (fst a) (fst b) < 0) (tl_metas L)"
    by (rule filter_metas [OF assms(1-3)])
  let ?meta = "fst (FilterBlockBuilder_Finish (units_handle L) b)"
  obtain it where it: "bi_Seek (filter_key p) (Block_NewIterator BytewiseComparator
      (Block_new (built_block (op_block_restart_interval opt) (tl_metas L)))) = Some it" "bi_Valid it" "bi_key it = filter_key p"
      "bi_value it = ?meta"
    using built_seek [OF bytewise.comparator_axioms f(13) metas(2,1), of "filter_key p"] by (auto simp: b(3))
  let ?r = "FilterBlockReader_new p ?meta (read f) mem"
  have rf: "ReadFilter mem t = Some (Some ?r)"
    using read_meta [OF assms(1), of "op_paranoid_checks opt"] it by (auto simp: ReadFilter_def assms(3-6) Let_def)
  have "units_handle L = \<lparr>bh_offset = of_nat (units_start L), bh_size = of_nat (length (unit_of fs 0))\<rparr>"
    by (simp add: units_handle_def b(2))
  then have rep: "reader_rep ?r fs (of_nat (units_start L)) 0"
    using reader_rep_new [OF b(1) _ unit, of "units_handle L" "read f" mem] by simp
  moreover have "units_on_disk (contents f) (of_nat (units_start L)) (units fs)"
    using f(10) unit by (auto simp: units_on_disk_def f(8) image_def units_start_def list_all_length b(2) length_unit_of [of fs "int _"])
  moreover have "fr_file ?r = read f" by (simp add: FilterBlockReader_new_def Let_def)
  ultimately have "reader_at f ?r fs 0" using f(7) by (simp add: reader_at_def) (simp add: reader_rep_def)
  then show ?thesis using rf unit b(4) by blast
qed

text \<open>The number of entries is read back from the metaindex block.\<close>

lemma metas_facts:
  assumes "in_file opt kvs L f" "op_filter_policy opt = Some p \<longrightarrow> names_ok"
  shows "bulk (tl_metas L) < 2 ^ 32" "sorted_wrt (\<lambda>a b. Compare BytewiseComparator (fst a) (fst b) < 0) (tl_metas L)"
    "find (not_before BytewiseComparator kv_number_key) (tl_metas L) = Some (kv_number_key, chars (decimal (length kvs)))"
proof -
  let ?kv = "(kv_number_key, chars (decimal (length kvs)))"
  consider "tl_metas L = [?kv]" | "op_filter_policy opt = Some p" "names_ok"
    using assms by (auto simp: in_file_def layout_ok_def layout_filters_def split: option.splits)
  then have "bulk (tl_metas L) < 2 ^ 32 \<and> sorted_wrt (\<lambda>a b. Compare BytewiseComparator (fst a) (fst b) < 0) (tl_metas L) \<and>
      find (not_before BytewiseComparator kv_number_key) (tl_metas L) = Some ?kv"
  proof cases
    case 1
    have "length kvs < 2 ^ 31" using length_table_bulk [of kvs] in_fileD(11) [OF assms(1)] by linarith
    then have "bulk (tl_metas L) < 2 ^ 32" using bulk_metas [of "[]" "[]" "length kvs"] unfolding 1 by (simp add: bulk_Cons)
    then show ?thesis by (simp add: 1)
  next
    case 2
    show ?thesis
      by (rule filter_metas [OF assms(1) 2(2,1)]) (use 2(2) in \<open>simp add: names_ok_def\<close>)
  qed
  then show "bulk (tl_metas L) < 2 ^ 32" "sorted_wrt (\<lambda>a b. Compare BytewiseComparator (fst a) (fst b) < 0) (tl_metas L)"
    "find (not_before BytewiseComparator kv_number_key) (tl_metas L) = Some ?kv" by simp_all
qed

lemma read_kv_number:
  assumes "in_file opt kvs L f" "op_filter_policy opt = Some p \<longrightarrow> names_ok"
  shows "return_sstable_kv_number opt (read f) (length (contents f)) = Some (OK, Some (int (length kvs)))"
proof -
  from read_footer(2) [OF assms(1)] obtain a input where
    foot: "read f (of_nat (length (contents f) - Footer_kEncodedLength)) Footer_kEncodedLength = (OK, input, a)"
    "Footer_DecodeFrom input Footer_new = (OK, layout_footer L, [])" by blast
  from read_meta [OF assms(1)] obtain mb where
    mb: "ReadBlock (op_compressor opt) (read f) (op_paranoid_checks opt) (ft_metaindex_handle (layout_footer L)) = Some (OK, mb)"
    "bc_data mb = built_block (op_block_restart_interval opt) (tl_metas L)" by blast
  obtain it where it: "bi_Seek kv_number_key (Block_NewIterator BytewiseComparator
      (Block_new (built_block (op_block_restart_interval opt) (tl_metas L)))) = Some it" "bi_Valid it"
      "bi_value it = chars (decimal (length kvs))"
    using built_seek [OF bytewise.comparator_axioms in_fileD(13) [OF assms(1)] metas_facts(2,1) [OF assms], of kv_number_key]
    by (auto simp: metas_facts(3) [OF assms])
  have "length kvs < 2 ^ 31" using length_table_bulk [of kvs] in_fileD(11) [OF assms(1)] by linarith
  then show ?thesis
    using read_footer(1) [OF assms(1)] stoi_decimal [of "length kvs"]
    by (simp add: return_sstable_kv_number_def foot mb it Let_def del: of_nat_diff)
qed

text \<open>An open table over the file, with its filters or without.\<close>

definition table_at :: "Options \<Rightarrow> (bytes \<times> bytes) list \<Rightarrow> table_layout \<Rightarrow> 'f \<Rightarrow> Table \<Rightarrow> bool" where
  "table_at opt kvs L f t \<longleftrightarrow> in_file opt kvs L f \<and> ta_options t = opt \<and> ta_file t = read f \<and> ta_handle t = None \<and>
     ta_index_block t = Block_new (built_block 1 (tl_ixs L)) \<and> ta_metaindex_handle t = ft_metaindex_handle (layout_footer L) \<and>
     (case ta_reader t of None \<Rightarrow> op_filter_policy opt = None | Some r \<Rightarrow> filters_at f L r)"

lemma table_opens:
  assumes "in_file opt kvs L f" "op_filter_policy opt = Some p \<longrightarrow> names_ok"
  shows "\<exists>t. Table_Open opt cache_id mem (read f) (length (contents f)) table_id None = Some (OK, Some t, None) \<and> table_at opt kvs L f t"
proof -
  from read_footer(2) [OF assms(1)] obtain a input where
    foot: "read f (of_nat (length (contents f) - Footer_kEncodedLength)) Footer_kEncodedLength = (OK, input, a)"
    "Footer_DecodeFrom input Footer_new = (OK, layout_footer L, [])" by blast
  from read_index [OF assms(1)] obtain ib where
    ib: "ReadBlock (op_compressor opt) (read f) (op_paranoid_checks opt) (ft_index_handle (layout_footer L)) = Some (OK, ib)"
    "bc_data ib = built_block 1 (tl_ixs L)" by blast
  define t0 where "t0 = \<lparr>ta_options = opt, ta_file = read f, ta_block_cache_id = cache_id, ta_table_id = table_id,
     ta_footer = layout_footer L, ta_metaindex_handle = ft_metaindex_handle (layout_footer L),
     ta_index_block = Block_new (built_block 1 (tl_ixs L)), ta_handle = None, ta_reader = None,
     ta_multi_cache_key = (case op_filter_policy opt of None \<Rightarrow> [] | Some p \<Rightarrow> ParseHandleKey p table_id)\<rparr>"
  have open_eq: "Table_Open opt cache_id mem (read f) (length (contents f)) table_id None =
      do { (t, mq) \<leftarrow> ReadMeta mem t0 None; Some (OK, Some t, mq) }"
    using read_footer(1) [OF assms(1)] by (simp add: Table_Open_def foot ib Let_def t0_def del: of_nat_diff)
  have "\<exists>t. ReadMeta mem t0 None = Some (t, None) \<and> table_at opt kvs L f t"
  proof (cases "op_filter_policy opt")
    case None
    then show ?thesis using assms(1) by (intro exI [of _ t0]) (simp add: ReadMeta_def table_at_def t0_def)
  next
    case (Some p')
    then have pol: "op_filter_policy opt = Some p" using in_fileD(1) [OF assms(1)] by (simp add: options_ok_def)
    obtain r fs where r: "ReadFilter mem t0 = Some (Some r)" "reader_at f r fs 0" "length (unit_of fs 0) < 2 ^ 32"
      "\<forall>i<length (tl_blocks L). fst ` set (fst (tl_blocks L ! i)) \<subseteq> keys_of fs [] (block_start (tl_blocks L) i div 2048)"
      using read_filter [OF assms(1) _ pol, of t0 mem] assms(2) pol by (auto simp: t0_def)
    obtain s r' m where r': "InitLoadFilter (op_compressor opt) r = Some (s, r')" "reader_at f r' fs m" "fr_init_done r'"
      using reader_step_ok [OF r(2), of InitLoad "op_compressor opt"] by auto
    have "filters_at f L r'" using r(3,4) r'(2,3) unfolding filters_at_def by blast
    moreover have "ReadMeta mem t0 None = Some (t0\<lparr>ta_reader := Some r'\<rparr>, None)"
      using pol r(1) r'(1) by (simp add: ReadMeta_def t0_def)
    ultimately show ?thesis using assms(1) by (auto simp: table_at_def t0_def)
  qed
  then show ?thesis unfolding open_eq by auto
qed

lemma layout_index_bulk:
  assumes "layout_ok opt kvs L"
  shows "bulk (tl_ixs L) \<le> table_bulk kvs"
proof -
  have l: "entries (tl_blocks L) = kvs" "\<forall>b\<in>set (tl_blocks L). fst b \<noteq> []" "length (tl_ixs L) = length (tl_blocks L)"
    "index_ok (tl_blocks L) (tl_ixs L) []" using assms by (auto simp: layout_ok_def blocks_ok_def)
  have "length (fst (tl_ixs L ! i)) \<le> length (block_last (tl_blocks L ! i)) \<and> length (snd (tl_ixs L ! i)) \<le> 20"
    if "i < length (tl_blocks L)" for i
    using l(3,4) that length_BlockHandle_EncodeTo [of "block_handle (tl_blocks L) i"]
    by (simp add: index_ok_def separates_def kMaxEncodedLength_def)
  then show ?thesis using bulk_index [OF l(2,3)] l(1) by force
qed

text \<open>Without filters and compression the file is not much larger than its entries.\<close>

lemma length_image:
  assumes "options_ok opt" "layout_ok opt kvs L" "op_filter_policy opt = None" "op_compressor opt = \<lparr>snappy = none, zstd = none\<rparr>"
    "co_length none = (\<lambda>_. None)"
  shows "length (image L) \<le> 2 * table_bulk kvs + length (decimal (length kvs)) + 102"
proof -
  have stored: "length data = length raw" if "block_decodes (op_compressor opt) data t raw" for data t raw
    using that assms(4,5) by (cases t) (simp_all add: block_decodes_def)
  have n: "1 \<le> op_block_restart_interval opt" using assms(1) by (simp add: options_ok_def)
  have blocks: "\<forall>b\<in>set (tl_blocks L). fst b \<noteq> [] \<and>
      length (fst (snd b)) = length (built_block (op_block_restart_interval opt) (fst b))"
    using assms(2) stored by (fastforce simp: layout_ok_def blocks_ok_def)
  then have "length (file_of (tl_blocks L)) + 8 \<le> table_bulk (entries (tl_blocks L))" by (intro file_bulk [OF n]) simp
  moreover have "length (fst (tl_index L)) \<le> table_bulk kvs"
    using layout_index_bulk [OF assms(2)] built_block_bulk [of 1 "tl_ixs L"] assms(2) stored by (fastforce simp: layout_ok_def)
  moreover have "length (fst (tl_meta L)) \<le> bulk (tl_metas L)"
    using built_block_bulk [OF n, of "tl_metas L"] assms(2) stored by (fastforce simp: layout_ok_def)
  then have "length (fst (tl_meta L)) \<le> 44 + length (decimal (length kvs))"
    using assms(2,3) by (simp add: layout_ok_def layout_filters_def bulk_Cons bulk_Nil chars_def kv_number_key_def)
  ultimately show ?thesis
    using assms(2,3) by (simp add: image_def Footer_roundtrip(1) Footer_kEncodedLength_def layout_ok_def layout_filters_def stored_units_def
        kBlockTrailerSize_def kMaxEncodedLength_def)
qed

text \<open>What the block cache may hold for the table.\<close>

definition cache_ok :: "Options \<Rightarrow> table_layout \<Rightarrow> Table \<Rightarrow> block_cache \<Rightarrow> bool" where
  "cache_ok opt L t cache \<longleftrightarrow> (\<forall>lookup i b. cache = Some lookup \<longrightarrow> i < length (tl_blocks L) \<longrightarrow>
     lookup (block_cache_key t (block_handle (tl_blocks L) i)) = Some b \<longrightarrow>
     b = Block_new (built_block (op_block_restart_interval opt) (fst (tl_blocks L ! i))))"

lemma BlockReader_ok:
  assumes "table_at opt kvs L f t" "cache_ok opt L t cache" "i < length (tl_blocks L)"
  shows "\<exists>ins. BlockReader t verify fill cache (BlockHandle_EncodeTo (block_handle (tl_blocks L) i) []) =
      Some (Block_NewIterator c (Block_new (built_block (op_block_restart_interval opt) (fst (tl_blocks L ! i)))), ins) \<and>
    (\<forall>key b n. ins = Some (key, b, n) \<longrightarrow> key = block_cache_key t (block_handle (tl_blocks L) i) \<and>
      b = Block_new (built_block (op_block_restart_interval opt) (fst (tl_blocks L ! i))))"
proof -
  let ?h = "block_handle (tl_blocks L) i"
  have t: "in_file opt kvs L f" "ta_options t = opt" "ta_file t = read f" using assms(1) by (simp_all add: table_at_def)
  have dec: "BlockHandle_DecodeFrom (BlockHandle_EncodeTo ?h []) BlockHandle_new = (OK, ?h, [])"
    using BlockHandle_DecodeFrom_Encode [of ?h "[]"] by simp
  from read_data [OF t(1) assms(3), of verify] obtain b where
    b: "ReadBlock (op_compressor opt) (read f) verify ?h = Some (OK, b)"
    "bc_data b = built_block (op_block_restart_interval opt) (fst (tl_blocks L ! i))" by blast
  show ?thesis
    using assms(2,3) in_fileD(12) [OF t(1)] by (auto simp: BlockReader_def dec t b cache_ok_def Let_def split: option.splits)
qed

text \<open>The answer to a lookup: at most the first entry not before the key, and that entry if it has the same user key.\<close>

definition answers :: "bytes \<Rightarrow> (bytes \<times> bytes) list \<Rightarrow> (bytes \<times> bytes) option \<Rightarrow> bool" where
  "answers k kvs res \<longleftrightarrow> (let first = find (not_before c k) kvs
     in (res = None \<or> res = first) \<and> (\<forall>e. first = Some e \<longrightarrow> norm k = norm (fst e) \<longrightarrow> res = first))"

lemma index_seek:
  assumes "table_at opt kvs L f t"
  shows "\<exists>it. bi_Seek k (Block_NewIterator c (ta_index_block t)) = Some it \<and> bi_status it = OK \<and>
    (case find (not_before c k) (tl_ixs L) of
       None \<Rightarrow> \<not> bi_Valid it
     | Some ix \<Rightarrow> bi_Valid it \<and> bi_key it = fst ix \<and> bi_value it = snd ix)"
proof -
  have t: "in_file opt kvs L f" "ta_index_block t = Block_new (built_block 1 (tl_ixs L))" using assms by (simp_all add: table_at_def)
  note f = in_fileD [OF t(1)]
  have "bulk (tl_ixs L) < 2 ^ 32" using layout_index_bulk [of opt kvs L] t(1) by (simp add: in_file_def)
  then show ?thesis
    unfolding t(2) using index_sorted [OF f(5,4,6,3)] by (intro built_seek) (auto simp: sorted_entries_def comparator_axioms)
qed

lemma data_seek:
  assumes "in_file opt kvs L f" "i < length (tl_blocks L)"
  shows "\<exists>it. bi_Seek k (Block_NewIterator c (Block_new (built_block (op_block_restart_interval opt) (fst (tl_blocks L ! i))))) = Some it \<and>
    bi_status it = OK \<and> (if bi_Valid it then Some (bi_key it, bi_value it) else None) = find (not_before c k) (fst (tl_blocks L ! i))"
proof -
  note f = in_fileD [OF assms(1)]
  have "bulk (fst (tl_blocks L ! i)) < 2 ^ 32" using bulk_block [OF nth_mem [OF assms(2)]] f(2,11) by simp
  moreover have "sorted_entries (fst (tl_blocks L ! i))"
    using f(6) unfolding entries_split [OF assms(2)] by (simp add: sorted_entries_def sorted_wrt_append)
  ultimately show ?thesis
    using built_seek [OF comparator_axioms f(13), of "fst (tl_blocks L ! i)" k]
    by (cases "find (not_before c k) (fst (tl_blocks L ! i))") (auto simp: sorted_entries_def)
qed

text \<open>The entry of the index decides which answer is right.\<close>

lemma answers_cases:
  assumes "in_file opt kvs L f"
  shows "find (not_before c k) (tl_ixs L) = None \<Longrightarrow> answers k kvs None"
    "find (not_before c k) (tl_ixs L) = Some ix \<Longrightarrow> \<exists>i<length (tl_blocks L).
       snd ix = BlockHandle_EncodeTo (block_handle (tl_blocks L) i) [] \<and> answers k kvs (find (not_before c k) (fst (tl_blocks L ! i))) \<and>
       ((\<forall>e\<in>set (fst (tl_blocks L ! i)). norm k \<noteq> norm (fst e)) \<longrightarrow> answers k kvs None)"
proof -
  note f = in_fileD [OF assms]
  note ix = index_find [OF f(5,4,6,3), of k, unfolded f(2)]
  show "answers k kvs None" if "find (not_before c k) (tl_ixs L) = None"
    using ix that by (simp add: answers_def)
  assume "find (not_before c k) (tl_ixs L) = Some ix"
  with ix obtain i where i: "i < length (tl_blocks L)" "ix = tl_ixs L ! i"
    "case find (not_before c k) (fst (tl_blocks L ! i)) of
       Some e \<Rightarrow> find (not_before c k) kvs = Some e \<and> e \<in> set (fst (tl_blocks L ! i))
     | None \<Rightarrow> (\<forall>e. find (not_before c k) kvs = Some e \<longrightarrow> norm k \<noteq> norm (fst e))" by auto
  have "snd ix = BlockHandle_EncodeTo (block_handle (tl_blocks L) i) []" using f(4,5) i(1,2) by (simp add: index_ok_def)
  then show "\<exists>i<length (tl_blocks L).
       snd ix = BlockHandle_EncodeTo (block_handle (tl_blocks L) i) [] \<and> answers k kvs (find (not_before c k) (fst (tl_blocks L ! i))) \<and>
       ((\<forall>e\<in>set (fst (tl_blocks L ! i)). norm k \<noteq> norm (fst e)) \<longrightarrow> answers k kvs None)"
    using i(1,3) by (intro exI [of _ i]) (cases "find (not_before c k) (fst (tl_blocks L ! i))"; auto simp: answers_def)
qed

lemma filters_exclude_cases:
  assumes "table_at opt kvs L f t" "i < length (tl_blocks L)"
  shows "\<exists>b. filters_exclude (BlockHandle_EncodeTo (block_handle (tl_blocks L) i) []) k t None = Some (b, None) \<and>
    (b \<longrightarrow> (\<forall>e\<in>set (fst (tl_blocks L ! i)). norm k \<noteq> norm (fst e)))"
proof (cases "ta_reader t")
  case None
  then show ?thesis
    using assms(1) BlockHandle_DecodeFrom_Encode [of "block_handle (tl_blocks L) i" "[]"] by (auto simp: filters_exclude_def table_at_def)
next
  case (Some r)
  then have "filters_at f L r" "in_file opt kvs L f" using assms(1) by (simp_all add: table_at_def)
  note m = filters_at_match [OF this assms(2), of k]
  then obtain b where b: "reader_KeyMayMatch (bh_offset (block_handle (tl_blocks L) i)) k r = Some b" by blast
  have "\<forall>e\<in>set (fst (tl_blocks L ! i)). norm k \<noteq> norm (fst e)" if "\<not> b" using m b that by fastforce
  then show ?thesis
    using assms(1) BlockHandle_DecodeFrom_Encode [of "block_handle (tl_blocks L) i" "[]"] b
    by (auto simp: filters_exclude_def table_at_def Some)
qed

lemma InternalGet_answers:
  assumes "table_at opt kvs L f t" "cache_ok opt L t cache"
  shows "\<exists>res ins. InternalGet verify fill cache k t None = Some (OK, res, ins, None) \<and> answers k kvs res \<and>
    (\<forall>key b n. ins = Some (key, b, n) \<longrightarrow> (\<exists>i<length (tl_blocks L). key = block_cache_key t (block_handle (tl_blocks L) i) \<and>
      b = Block_new (built_block (op_block_restart_interval opt) (fst (tl_blocks L ! i)))))"
proof -
  have t: "in_file opt kvs L f" "ta_options t = opt" using assms(1) by (simp_all add: table_at_def)
  have c: "op_comparator opt = c" by (rule in_fileD(12) [OF t(1)])
  from index_seek [OF assms(1), of k] obtain it where it: "bi_Seek k (Block_NewIterator c (ta_index_block t)) = Some it" "bi_status it = OK"
    "case find (not_before c k) (tl_ixs L) of None \<Rightarrow> \<not> bi_Valid it
     | Some ix \<Rightarrow> bi_Valid it \<and> bi_key it = fst ix \<and> bi_value it = snd ix" by blast
  show ?thesis
  proof (cases "find (not_before c k) (tl_ixs L)")
    case None
    then show ?thesis using answers_cases(1) [OF t(1)] it by (simp add: InternalGet_def t(2) c)
  next
    case (Some ix)
    from answers_cases(2) [OF t(1) this] obtain i where i: "i < length (tl_blocks L)"
      "snd ix = BlockHandle_EncodeTo (block_handle (tl_blocks L) i) []" "answers k kvs (find (not_before c k) (fst (tl_blocks L ! i)))"
      "(\<forall>e\<in>set (fst (tl_blocks L ! i)). norm k \<noteq> norm (fst e)) \<longrightarrow> answers k kvs None" by blast
    let ?h = "block_handle (tl_blocks L) i"
    have ex: "filters_exclude (snd ix) k t None = Some (False, None) \<or> filters_exclude (snd ix) k t None = Some (True, None) \<and> answers k kvs None"
      using filters_exclude_cases [OF assms(1) i(1), of k] i(2,4) by auto
    from BlockReader_ok [OF assms i(1), of verify fill] obtain ins where
      ins: "BlockReader t verify fill cache (snd ix) =
        Some (Block_NewIterator c (Block_new (built_block (op_block_restart_interval opt) (fst (tl_blocks L ! i)))), ins)"
      "\<forall>key b n. ins = Some (key, b, n) \<longrightarrow> key = block_cache_key t ?h \<and>
        b = Block_new (built_block (op_block_restart_interval opt) (fst (tl_blocks L ! i)))" unfolding i(2) by blast
    from data_seek [OF t(1) i(1), of k] obtain d where
      d: "bi_Seek k (Block_NewIterator c (Block_new (built_block (op_block_restart_interval opt) (fst (tl_blocks L ! i))))) = Some d"
      "bi_status d = OK" "(if bi_Valid d then Some (bi_key d, bi_value d) else None) = find (not_before c k) (fst (tl_blocks L ! i))"
      by blast
    show ?thesis
      using ex
    proof
      assume "filters_exclude (snd ix) k t None = Some (False, None)"
      then have "InternalGet verify fill cache k t None = Some (OK, find (not_before c k) (fst (tl_blocks L ! i)), ins, None)"
        unfolding d(3) [symmetric] using it ins(1) d(1,2) Some by (simp add: InternalGet_def t(2) c)
      then show ?thesis using i(1,3) ins(2) by blast
    next
      assume "filters_exclude (snd ix) k t None = Some (True, None) \<and> answers k kvs None"
      then show ?thesis using it Some by (simp add: InternalGet_def t(2) c)
    qed
  qed
qed

text \<open>Blocks start at different offsets, so a cached block is found only under its own handle.\<close>

lemma block_cache_key_inj:
  assumes "in_file opt kvs L f" "i < length (tl_blocks L)" "j < length (tl_blocks L)"
    "block_cache_key t (block_handle (tl_blocks L) i) = block_cache_key t (block_handle (tl_blocks L) j)"
  shows "i = j"
proof -
  let ?bs = "tl_blocks L"
  have mono: "length (file_of (take n ?bs)) < length (file_of (take m ?bs))" if "n < m" "m \<le> length ?bs" for n m
    using that by (induction m) (auto simp: take_Suc_conv_app_nth file_of_def split_beta kBlockTrailerSize_def less_Suc_eq)
  have lt: "length (file_of (take n ?bs)) < 2 ^ 64" if "n < length ?bs" for n
    using mono [of n "length ?bs"] that in_fileD(10) [OF assms(1)] unfolding in_fileD(8) [OF assms(1)] image_def by simp
  have "(of_nat (length (file_of (take i ?bs))) :: u64) = of_nat (length (file_of (take j ?bs)))"
    using assms(4) DecodeFixed64_EncodeFixed64 [of _ "[]"] by (simp add: block_cache_key_def block_handle_def block_start_def) metis
  then have "length (file_of (take i ?bs)) = length (file_of (take j ?bs))"
    using unat_of_nat_u64 [OF lt] assms(2,3) by metis
  then show ?thesis
    using mono [of i j] mono [of j i] assms(2,3) by (cases i j rule: linorder_cases) auto
qed

lemma table_at_load:
  assumes "table_at opt kvs L f t" "LoadBloomFilter t = Some (n, t')"
  shows "table_at opt kvs L f t'" "ta_block_cache_id t' = ta_block_cache_id t"
proof -
  have *: "table_at opt kvs L f t' \<and> ta_block_cache_id t' = ta_block_cache_id t"
  proof (cases "ta_reader t")
    case (Some r)
    then obtain fs m where r: "fr_init_done r" "reader_at f r fs m" "length (unit_of fs 0) < 2 ^ 32"
      "\<forall>i<length (tl_blocks L). fst ` set (fst (tl_blocks L ! i)) \<subseteq> keys_of fs [] (block_start (tl_blocks L) i div 2048)"
      using assms(1) by (auto simp: table_at_def filters_at_def)
    obtain s r' m' where "LoadFilter (op_compressor (ta_options t)) r = Some (s, r')" "reader_at f r' fs m'" "fr_init_done r'"
      using reader_step_ok [OF r(2), of Load "op_compressor (ta_options t)"] r(1) by auto
    moreover from this(2,3) r(3,4) have "filters_at f L r'" unfolding filters_at_def by blast
    ultimately show ?thesis using assms Some by (auto simp: LoadBloomFilter_def table_at_def split: bind_splits if_splits)
  qed (use assms in \<open>simp add: LoadBloomFilter_def\<close>)
  then show "table_at opt kvs L f t'" "ta_block_cache_id t' = ta_block_cache_id t" by simp_all
qed

lemma table_at_evict:
  assumes "table_at opt kvs L f t" "EvictBloomFilter t = Some (n, t')"
  shows "table_at opt kvs L f t'" "ta_block_cache_id t' = ta_block_cache_id t"
proof -
  have *: "table_at opt kvs L f t' \<and> ta_block_cache_id t' = ta_block_cache_id t"
  proof (cases "ta_reader t")
    case (Some r)
    then obtain fs m where r: "fr_init_done r" "reader_at f r fs m" "length (unit_of fs 0) < 2 ^ 32"
      "\<forall>i<length (tl_blocks L). fst ` set (fst (tl_blocks L ! i)) \<subseteq> keys_of fs [] (block_start (tl_blocks L) i div 2048)"
      using assms(1) by (auto simp: table_at_def filters_at_def)
    obtain s r' m' where "EvictFilter r = (s, r')" "reader_at f r' fs m'" "fr_init_done r'"
      using reader_step_ok [OF r(2), of Evict] r(1) by auto
    moreover from this(2,3) r(3,4) have "filters_at f L r'" unfolding filters_at_def by blast
    ultimately show ?thesis using assms Some by (auto simp: EvictBloomFilter_def table_at_def split: bind_splits if_splits)
  qed (use assms in \<open>simp add: EvictBloomFilter_def\<close>)
  then show "table_at opt kvs L f t'" "ta_block_cache_id t' = ta_block_cache_id t" by simp_all
qed

end

section \<open>Using an open table\<close>

text \<open>
  The tables that come from an open one by lookups, with what they leave in the block cache, by
  evictions from the cache, and by loading and evicting filter units.
\<close>

inductive table_reach :: "Table \<Rightarrow> Table \<Rightarrow> (bytes \<Rightarrow> Block option) \<Rightarrow> bool" for t0 where
  opened: "table_reach t0 t0 Map.empty"
| got: "table_reach t0 t m \<Longrightarrow> InternalGet verify fill (Some m) k t None = Some (s, res, Some (key, b, n), mq) \<Longrightarrow>
    table_reach t0 t (m(key \<mapsto> b))"
| dropped: "table_reach t0 t m \<Longrightarrow> table_reach t0 t (m(key := None))"
| loaded: "table_reach t0 t m \<Longrightarrow> LoadBloomFilter t = Some (n, t') \<Longrightarrow> table_reach t0 t' m"
| evicted: "table_reach t0 t m \<Longrightarrow> EvictBloomFilter t = Some (n, t') \<Longrightarrow> table_reach t0 t' m"

context table_reader
begin

lemma table_reach_ok:
  assumes "table_reach t0 t m" "table_at opt kvs L f t0"
  shows "table_at opt kvs L f t \<and> cache_ok opt L t (Some m)"
  using assms(1)
proof induction
  case opened
  then show ?case using assms(2) by (simp add: cache_ok_def)
next
  case (got t m verify fill k s res key b n mq)
  then have t: "table_at opt kvs L f t" "cache_ok opt L t (Some m)" "in_file opt kvs L f" by (simp_all add: table_at_def)
  from InternalGet_answers [OF t(1,2), of verify fill k] got.hyps(2) obtain i where
    i: "i < length (tl_blocks L)" "key = block_cache_key t (block_handle (tl_blocks L) i)"
    "b = Block_new (built_block (op_block_restart_interval opt) (fst (tl_blocks L ! i)))" by auto
  have "cache_ok opt L t (Some (m(key \<mapsto> b)))"
    using t(2) block_cache_key_inj [OF t(3) _ i(1), of _ t] by (auto simp: cache_ok_def i(2,3) split: if_splits)
  then show ?case using t(1) by blast
next
  case (dropped t m key)
  then show ?case by (auto simp: cache_ok_def)
next
  case (loaded t m n t')
  then show ?case using table_at_load [of opt kvs L f t n t'] by (auto simp: cache_ok_def block_cache_key_def)
next
  case (evicted t m n t')
  then show ?case using table_at_evict [of opt kvs L f t n t'] by (auto simp: cache_ok_def block_cache_key_def)
qed

end

section \<open>Tables of the database\<close>

interpretation ikc_reader: table_reader "InternalKeyComparator BytewiseComparator" ExtractUserKey
  "InternalFilterPolicy (bloom_policy n)" "\<lambda>keys i. CreateFilter (NewBloomFilterPolicy n) keys [] i"
  RandomAccessFileImpl_Read file_state_ok file_contents
  by unfold_locales

lemma bloom_names_ok: "ikc_reader.names_ok n"
proof -
  have "filter_key (InternalFilterPolicy (bloom_policy n)) = chars ''filter.'' @ bloom_name"
    "fp_Name (InternalFilterPolicy (bloom_policy n)) = bloom_name"
    by (simp_all add: filter_key_def InternalFilterPolicy_def bloom_policy_def)
  moreover have "Compare (InternalKeyComparator BytewiseComparator) (chars ''filter.'' @ bloom_name) kv_number_key < 0"
    "Compare BytewiseComparator (chars ''filter.'' @ bloom_name) kv_number_key < 0" "length bloom_name = 27" by code_simp+
  ultimately show ?thesis by (simp add: ikc_reader.names_ok_def)
qed

section \<open>Properties\<close>

text \<open>
  C3. What is built into a table is found in it. A table is built over a new file from entries in
  the order of the internal key comparator, with any block size, restart interval and (faithful)
  compression, and with Bloom filters or without. Building succeeds; and if the file stays below 4 GB,
  the number of entries is read back from it, and opening it succeeds, whatever was in the memory the
  filter reader is made in. The table keeps its filters itself, without a multi-queue. In every state that
  lookups, evictions from the block cache and loads and evictions of filter units lead to, a lookup
  with or without the cache returns without an error. It hands out the first entry that is not before
  the key, or nothing, and it does hand out that entry if it has the user key that is looked up.
\<close>

theorem table_get:
  assumes "op_comparator opt = InternalKeyComparator BytewiseComparator" "1 \<le> op_block_restart_interval opt"
    "compression_ok (op_compressor opt)"
    "op_filter_policy opt = None \<or> op_filter_policy opt = Some (InternalFilterPolicy (bloom_policy n))"
    "sorted_wrt (\<lambda>a b. Compare (InternalKeyComparator BytewiseComparator) (fst a) (fst b) < 0) kvs" "table_bulk kvs < 2 ^ 31"
  shows "\<exists>r. TableBuilder_Finish WritableFileImpl
      (fold (\<lambda>(k, v). TableBuilder_Add WritableFileImpl k v) kvs (TableBuilder_new opt FileState_new)) = (OK, r) \<and>
    (let f = tb_file r
     in length (file_contents f) < 2 ^ 32 \<longrightarrow>
        return_sstable_kv_number opt (RandomAccessFileImpl_Read f) (length (file_contents f)) = Some (OK, Some (int (length kvs))) \<and>
        (\<exists>t0. Table_Open opt cache_id mem (RandomAccessFileImpl_Read f) (length (file_contents f)) table_id None = Some (OK, Some t0, None) \<and>
          (\<forall>t m. table_reach t0 t m \<longrightarrow> (\<forall>cache\<in>{None, Some m}. \<forall>verify fill k. \<exists>res ins.
            InternalGet verify fill cache k t None = Some (OK, res, ins, None) \<and>
            (let first = find (\<lambda>e. \<not> Compare (InternalKeyComparator BytewiseComparator) (fst e) k < 0) kvs
             in (res = None \<or> res = first) \<and>
                (\<forall>e. first = Some e \<longrightarrow> ExtractUserKey k = ExtractUserKey (fst e) \<longrightarrow> res = first))))))"
proof -
  have opt: "ikc_writer.options_ok n opt" using assms(1-4) by (simp add: ikc_writer.options_ok_def)
  have sorted: "ikc_table.sorted_entries kvs" using assms(5) by (simp add: ikc_table.sorted_entries_def)
  from ikc_writer.table_built [OF opt file_state_ok_new(1,2) sorted] obtain L r where
    r: "TableBuilder_Finish WritableFileImpl
      (fold (\<lambda>(k, v). TableBuilder_Add WritableFileImpl k v) kvs (TableBuilder_new opt FileState_new)) = (OK, r)"
    "file_state_ok (tb_file r)" "file_contents (tb_file r) = image L" "ikc_writer.layout_ok n opt kvs L" by blast
  let ?f = "tb_file r"
  have inf: "ikc_reader.in_file n opt kvs L ?f" if "length (file_contents ?f) < 2 ^ 32"
    using that r opt sorted assms(6) by (simp add: ikc_reader.in_file_def)
  have "\<exists>t0. Table_Open opt cache_id mem (RandomAccessFileImpl_Read ?f) (length (file_contents ?f)) table_id None = Some (OK, Some t0, None) \<and>
      ikc_reader.table_at n opt kvs L ?f t0" if "length (file_contents ?f) < 2 ^ 32"
    using inf [OF that] by (intro ikc_reader.table_opens) (simp_all add: bloom_names_ok)
  moreover have "\<exists>res ins. InternalGet verify fill cache k t None = Some (OK, res, ins, None) \<and> ikc_reader.answers k kvs res"
    if "ikc_reader.table_at n opt kvs L ?f t0" "table_reach t0 t m" "cache \<in> {None, Some m}" for t0 t m cache verify fill k
  proof -
    have "ikc_reader.table_at n opt kvs L ?f t" "ikc_reader.cache_ok opt L t (Some m)"
      using ikc_reader.table_reach_ok [OF that(2,1)] by simp_all
    then show ?thesis
      using that(3) ikc_reader.InternalGet_answers [of n opt kvs L ?f t cache verify fill k] by (auto simp: ikc_reader.cache_ok_def)
  qed
  moreover have "return_sstable_kv_number opt (RandomAccessFileImpl_Read ?f) (length (file_contents ?f)) = Some (OK, Some (int (length kvs)))"
    if "length (file_contents ?f) < 2 ^ 32"
    using inf [OF that] by (intro ikc_reader.read_kv_number) (simp_all add: bloom_names_ok)
  ultimately have "length (file_contents ?f) < 2 ^ 32 \<longrightarrow>
      return_sstable_kv_number opt (RandomAccessFileImpl_Read ?f) (length (file_contents ?f)) = Some (OK, Some (int (length kvs))) \<and>
      (\<exists>t0. Table_Open opt cache_id mem (RandomAccessFileImpl_Read ?f) (length (file_contents ?f)) table_id None = Some (OK, Some t0, None) \<and>
        (\<forall>t m. table_reach t0 t m \<longrightarrow> (\<forall>cache\<in>{None, Some m}. \<forall>verify fill k. \<exists>res ins.
          InternalGet verify fill cache k t None = Some (OK, res, ins, None) \<and> ikc_reader.answers k kvs res)))" by meson
  then show ?thesis unfolding ikc_reader.answers_def Let_def by (intro exI [of _ r] conjI [OF r(1)])
qed

theorem table_get_witness:
  "\<forall>mem. \<exists>opt r t0 ins. TableBuilder_Finish WritableFileImpl (fold (\<lambda>(k, v). TableBuilder_Add WritableFileImpl k v)
      [([97, 1, 5, 0, 0, 0, 0, 0, 0], [120]), ([98, 1, 2, 0, 0, 0, 0, 0, 0], [121])] (TableBuilder_new opt FileState_new)) = (OK, r) \<and>
    Table_Open opt 0 mem (RandomAccessFileImpl_Read (tb_file r)) (length (file_contents (tb_file r))) 1 None = Some (OK, Some t0, None) \<and>
    InternalGet True True None [98, 1, 9, 0, 0, 0, 0, 0, 0] t0 None = Some (OK, Some ([98, 1, 2, 0, 0, 0, 0, 0, 0], [121]), ins, None)"
proof
  fix mem
  define kvs :: "(bytes \<times> bytes) list" where
    "kvs = [([97, 1, 5, 0, 0, 0, 0, 0, 0], [120]), ([98, 1, 2, 0, 0, 0, 0, 0, 0], [121])]"
  let ?none = "\<lparr>co_compress = \<lambda>_. None, co_length = \<lambda>_. None, co_uncompress = \<lambda>_ _. None\<rparr>"
  let ?ikc = "InternalKeyComparator BytewiseComparator" and ?k = "[98, 1, 9, 0, 0, 0, 0, 0, 0]"
  define opt where "opt = \<lparr>op_comparator = ?ikc, op_paranoid_checks = True, op_block_size = 20, op_block_restart_interval = 2,
     op_compression = kNoCompression, op_filter_policy = None, op_compressor = \<lparr>snappy = ?none, zstd = ?none\<rparr>\<rparr>"
  have o: "op_comparator opt = ?ikc" "1 \<le> op_block_restart_interval opt" "compression_ok (op_compressor opt)"
    "op_filter_policy opt = None" "op_compressor opt = \<lparr>snappy = ?none, zstd = ?none\<rparr>"
    by (simp_all add: opt_def compression_ok_def compressor_ok_def)
  then have opt: "ikc_writer.options_ok 0 opt" by (simp add: ikc_writer.options_ok_def)
  have sorted: "sorted_wrt (\<lambda>a b. Compare ?ikc (fst a) (fst b) < 0) kvs" unfolding kvs_def by code_simp
  have bulk: "table_bulk kvs = 106" by (simp add: table_bulk_def kvs_def)
  have first: "find (\<lambda>e. \<not> Compare ?ikc (fst e) ?k < 0) kvs = Some ([98, 1, 2, 0, 0, 0, 0, 0, 0], [121])"
    "ExtractUserKey ?k = ExtractUserKey [98, 1, 2, 0, 0, 0, 0, 0, 0]" unfolding kvs_def by code_simp+
  from ikc_writer.table_built [OF opt file_state_ok_new(1,2), of kvs] sorted obtain L r where
    r: "TableBuilder_Finish WritableFileImpl
      (fold (\<lambda>(k, v). TableBuilder_Add WritableFileImpl k v) kvs (TableBuilder_new opt FileState_new)) = (OK, r)"
    "file_contents (tb_file r) = image L" "ikc_writer.layout_ok 0 opt kvs L" by (auto simp: ikc_table.sorted_entries_def)
  have "length (image L) \<le> 2 * table_bulk kvs + length (decimal (length kvs)) + 102"
    by (intro ikc_reader.length_image [OF opt r(3) o(4,5)]) simp
  then have "length (file_contents (tb_file r)) < 2 ^ 32" using length_decimal_le [of "length kvs"] length_table_bulk [of kvs] by (simp add: r(2) bulk)
  with table_get [OF o(1-3) disjI1 [OF o(4)] sorted, of 0 mem 1] r(1) bulk obtain t0 where
    t0: "Table_Open opt 0 mem (RandomAccessFileImpl_Read (tb_file r)) (length (file_contents (tb_file r))) 1 None = Some (OK, Some t0, None)"
    "\<And>t m. table_reach t0 t m \<Longrightarrow> \<forall>cache\<in>{None, Some m}. \<forall>verify fill k. \<exists>res ins.
            InternalGet verify fill cache k t None = Some (OK, res, ins, None) \<and>
            (let first = find (\<lambda>e. \<not> Compare ?ikc (fst e) k < 0) kvs
             in (res = None \<or> res = first) \<and>
                (\<forall>e. first = Some e \<longrightarrow> ExtractUserKey k = ExtractUserKey (fst e) \<longrightarrow> res = first))"
    unfolding Let_def by auto
  from t0(2) [OF table_reach.opened] have "\<exists>res ins. InternalGet True True None ?k t0 None = Some (OK, res, ins, None) \<and>
      (let first = find (\<lambda>e. \<not> Compare ?ikc (fst e) ?k < 0) kvs
       in (res = None \<or> res = first) \<and> (\<forall>e. first = Some e \<longrightarrow> ExtractUserKey ?k = ExtractUserKey (fst e) \<longrightarrow> res = first))" by blast
  then obtain ins where "InternalGet True True None ?k t0 None = Some (OK, Some ([98, 1, 2, 0, 0, 0, 0, 0, 0], [121]), ins, None)"
    unfolding first(1) Let_def using first(2) by auto
  then show "\<exists>opt r t0 ins. TableBuilder_Finish WritableFileImpl (fold (\<lambda>(k, v). TableBuilder_Add WritableFileImpl k v)
      [([97, 1, 5, 0, 0, 0, 0, 0, 0], [120]), ([98, 1, 2, 0, 0, 0, 0, 0, 0], [121])] (TableBuilder_new opt FileState_new)) = (OK, r) \<and>
    Table_Open opt 0 mem (RandomAccessFileImpl_Read (tb_file r)) (length (file_contents (tb_file r))) 1 None = Some (OK, Some t0, None) \<and>
    InternalGet True True None ?k t0 None = Some (OK, Some ([98, 1, 2, 0, 0, 0, 0, 0, 0], [121]), ins, None)"
    using t0(1) r(1) unfolding kvs_def by blast
qed

end
