(* ===== verification/Version.thy ===== *)
theory Version
  imports VersionEdit MemTable "HOL-Library.Monad_Syntax"
begin

text \<open>
  The parts of \<open>db/version_set.cc\<close> that read a version: the search for files by key, the lookup through
  the levels, the files that overlap a range, and the level for a new file. A file is a reference
  into a store of metadata, since lookups count in the metadata of the files they touch and versions
  share them. The search functions look at the fields of a file that never change. File counts are
  assumed to fit the \<open>uint32_t\<close> the code uses for them.
\<close>

section \<open>Files\<close>

type_synonym file_ref = nat
type_synonym file_store = "file_ref \<Rightarrow> FileMetaData"

record Version =
  v_files :: "file_ref list list"
  v_refs :: int
  v_file_to_compact :: "file_ref option"
  v_file_to_compact_level :: int
  v_compaction_score :: real
  v_compaction_level :: int

definition Version_new :: Version where
  "Version_new = \<lparr>v_files = replicate kNumLevels [], v_refs = 0, v_file_to_compact = None, v_file_to_compact_level = -1,
     v_compaction_score = -1, v_compaction_level = -1\<rparr>"

definition NumFiles :: "nat \<Rightarrow> Version \<Rightarrow> nat" where
  "NumFiles level v = length (v_files v ! level)"

definition TargetFileSize :: "u64 \<Rightarrow> u64" where
  "TargetFileSize max_file_size = max_file_size"

definition MaxGrandParentOverlapBytes :: "u64 \<Rightarrow> u64" where
  "MaxGrandParentOverlapBytes max_file_size = 10 * TargetFileSize max_file_size"

definition ExpandedCompactionByteSizeLimit :: "u64 \<Rightarrow> u64" where
  "ExpandedCompactionByteSizeLimit max_file_size = 25 * TargetFileSize max_file_size"

definition MaxFileSizeForLevel :: "u64 \<Rightarrow> nat \<Rightarrow> u64" where
  "MaxFileSizeForLevel max_file_size level = TargetFileSize max_file_size"

fun MaxBytesForLevel :: "nat \<Rightarrow> real" where
  "MaxBytesForLevel level = (if level > 1 then MaxBytesForLevel (level - 1) * 10 else 10 * 1048576)"

declare MaxBytesForLevel.simps [simp del]

text \<open>The sum is an \<open>int64_t\<close>: a word that comparisons read as signed.\<close>

definition TotalFileSize :: "file_store \<Rightarrow> file_ref list \<Rightarrow> u64" where
  "TotalFileSize fs files = fold (\<lambda>f sum. sum + fm_file_size (fs f)) files 0"

section \<open>Searching a level\<close>

function find_file :: "Comparator \<Rightarrow> file_store \<Rightarrow> file_ref list \<Rightarrow> bytes \<Rightarrow> nat \<Rightarrow> nat \<Rightarrow> nat" where
  "find_file icmp fs files key left right =
     (if left < right then
        let mid = (left + right) div 2; f = files ! mid
        in if Compare icmp (fm_largest (fs f)) key < 0 then find_file icmp fs files key (mid + 1) right
           else find_file icmp fs files key left mid
      else right)"
  by pat_completeness auto
termination by (relation "measure (\<lambda>(icmp, fs, files, key, left, right). right - left)") auto

declare find_file.simps [simp del]

definition FindFile :: "Comparator \<Rightarrow> file_store \<Rightarrow> file_ref list \<Rightarrow> bytes \<Rightarrow> nat" where
  "FindFile icmp fs files key = find_file icmp fs files key 0 (length files)"

text \<open>A missing user key is before, respectively after, all keys.\<close>

definition AfterFile :: "Comparator \<Rightarrow> bytes option \<Rightarrow> FileMetaData \<Rightarrow> bool" where
  "AfterFile ucmp ukey f =
     (case ukey of None \<Rightarrow> False | Some k \<Rightarrow> Compare ucmp k (ExtractUserKey (fm_largest f)) > 0)"

definition BeforeFile :: "Comparator \<Rightarrow> bytes option \<Rightarrow> FileMetaData \<Rightarrow> bool" where
  "BeforeFile ucmp ukey f =
     (case ukey of None \<Rightarrow> False | Some k \<Rightarrow> Compare ucmp k (ExtractUserKey (fm_smallest f)) < 0)"

definition InternalKey_new :: "bytes \<Rightarrow> SequenceNumber \<Rightarrow> ValueType \<Rightarrow> bytes" where
  "InternalKey_new ukey s t = AppendInternalKey [] \<lparr>ik_user_key = ukey, ik_sequence = s, ik_type = t\<rparr>"

definition SomeFileOverlapsRange ::
  "Comparator \<Rightarrow> bool \<Rightarrow> file_store \<Rightarrow> file_ref list \<Rightarrow> bytes option \<Rightarrow> bytes option \<Rightarrow> bool" where
  "SomeFileOverlapsRange ucmp disjoint_sorted_files fs files smallest_user_key largest_user_key =
     (if \<not> disjoint_sorted_files then
        list_ex (\<lambda>f. \<not> (AfterFile ucmp smallest_user_key (fs f) \<or> BeforeFile ucmp largest_user_key (fs f))) files
      else
        let index = (case smallest_user_key of
              None \<Rightarrow> 0
            | Some k \<Rightarrow> FindFile (InternalKeyComparator ucmp) fs files (InternalKey_new k kMaxSequenceNumber kValueTypeForSeek))
        in if index \<ge> length files then False else \<not> BeforeFile ucmp largest_user_key (fs (files ! index)))"

definition OverlapInLevel :: "Comparator \<Rightarrow> file_store \<Rightarrow> Version \<Rightarrow> nat \<Rightarrow> bytes option \<Rightarrow> bytes option \<Rightarrow> bool" where
  "OverlapInLevel ucmp fs v level smallest_user_key largest_user_key =
     SomeFileOverlapsRange ucmp (level > 0) fs (v_files v ! level) smallest_user_key largest_user_key"

text \<open>
  The loop of \<open>GetOverlappingInputs\<close>: \<open>i\<close> is the next file to look at, and finding a level-0 file that
  extends the range starts it again. \<open>None\<close> would be a loop that does not end.
\<close>

partial_function (option) overlapping_inputs ::
  "Comparator \<Rightarrow> file_store \<Rightarrow> nat \<Rightarrow> file_ref list \<Rightarrow> nat \<Rightarrow> bytes option \<Rightarrow> bytes option \<Rightarrow> file_ref list \<Rightarrow> file_ref list option"
where
  "overlapping_inputs ucmp fs level files i user_begin user_end inputs =
     (if i < length files then
        let f = files ! i;
            file_start = ExtractUserKey (fm_smallest (fs f));
            file_limit = ExtractUserKey (fm_largest (fs f))
        in if user_begin \<noteq> None \<and> Compare ucmp file_limit (the user_begin) < 0 then
             overlapping_inputs ucmp fs level files (i + 1) user_begin user_end inputs
           else if user_end \<noteq> None \<and> Compare ucmp file_start (the user_end) > 0 then
             overlapping_inputs ucmp fs level files (i + 1) user_begin user_end inputs
           else if level = 0 \<and> user_begin \<noteq> None \<and> Compare ucmp file_start (the user_begin) < 0 then
             overlapping_inputs ucmp fs level files 0 (Some file_start) user_end []
           else if level = 0 \<and> user_end \<noteq> None \<and> Compare ucmp file_limit (the user_end) > 0 then
             overlapping_inputs ucmp fs level files 0 user_begin (Some file_limit) []
           else overlapping_inputs ucmp fs level files (i + 1) user_begin user_end (inputs @ [f])
      else Some inputs)"

definition GetOverlappingInputs ::
  "Comparator \<Rightarrow> file_store \<Rightarrow> Version \<Rightarrow> nat \<Rightarrow> bytes option \<Rightarrow> bytes option \<Rightarrow> file_ref list option" where
  "GetOverlappingInputs ucmp fs v level begin_key end_key =
     overlapping_inputs ucmp fs level (v_files v ! level) 0
       (map_option ExtractUserKey begin_key) (map_option ExtractUserKey end_key) []"

section \<open>Where a new file goes\<close>

function pick_level ::
  "Comparator \<Rightarrow> u64 \<Rightarrow> file_store \<Rightarrow> Version \<Rightarrow> bytes \<Rightarrow> bytes \<Rightarrow> nat \<Rightarrow> nat option" where
  "pick_level ucmp max_file_size fs v smallest_user_key largest_user_key level =
     (if level < kMaxMemCompactLevel then
        if OverlapInLevel ucmp fs v (level + 1) (Some smallest_user_key) (Some largest_user_key) then Some level
        else if level + 2 < kNumLevels then do {
          overlaps \<leftarrow> GetOverlappingInputs ucmp fs v (level + 2)
            (Some (InternalKey_new smallest_user_key kMaxSequenceNumber kValueTypeForSeek))
            (Some (InternalKey_new largest_user_key 0 kTypeDeletion));
          if sint (TotalFileSize fs overlaps) > sint (MaxGrandParentOverlapBytes max_file_size) then Some level
          else pick_level ucmp max_file_size fs v smallest_user_key largest_user_key (level + 1)
        }
        else pick_level ucmp max_file_size fs v smallest_user_key largest_user_key (level + 1)
      else Some level)"
  by pat_completeness auto
termination by (relation "measure (\<lambda>(ucmp, m, fs, v, a, b, level). kMaxMemCompactLevel - level)") auto

declare pick_level.simps [simp del]

definition PickLevelForMemTableOutput :: "Comparator \<Rightarrow> u64 \<Rightarrow> file_store \<Rightarrow> Version \<Rightarrow> bytes \<Rightarrow> bytes \<Rightarrow> nat option" where
  "PickLevelForMemTableOutput ucmp max_file_size fs v smallest_user_key largest_user_key =
     (if \<not> OverlapInLevel ucmp fs v 0 (Some smallest_user_key) (Some largest_user_key)
      then pick_level ucmp max_file_size fs v smallest_user_key largest_user_key 0 else Some 0)"

definition GetAccessTimeFromNewSSTable :: "file_store \<Rightarrow> Version \<Rightarrow> nat \<Rightarrow> int" where
  "GetAccessTimeFromNewSSTable fs v level =
     (let metas = v_files v ! level
      in if metas = [] then 0 else fold (\<lambda>f sum. sum + fm_point_query_time_all (fs f)) metas 0 div int (length metas))"

section \<open>Lookups\<close>

text \<open>Files of level 0 are visited from the newest on, then at most one file of every other level.\<close>

definition level0_files :: "Comparator \<Rightarrow> file_store \<Rightarrow> Version \<Rightarrow> bytes \<Rightarrow> file_ref list" where
  "level0_files ucmp fs v ukey =
     sort_key (\<lambda>f. - uint (fm_number (fs f)))
       (filter (\<lambda>f. Compare ucmp ukey (ExtractUserKey (fm_smallest (fs f))) \<ge> 0 \<and>
                    Compare ucmp ukey (ExtractUserKey (fm_largest (fs f))) \<le> 0) (v_files v ! 0))"

definition level_file :: "Comparator \<Rightarrow> file_store \<Rightarrow> Version \<Rightarrow> bytes \<Rightarrow> bytes \<Rightarrow> nat \<Rightarrow> (nat \<times> file_ref) list" where
  "level_file ucmp fs v ukey ikey level =
     (let files = v_files v ! level; index = FindFile (InternalKeyComparator ucmp) fs files ikey
      in if index < length files \<and> \<not> Compare ucmp ukey (ExtractUserKey (fm_smallest (fs (files ! index)))) < 0
         then [(level, files ! index)] else [])"

text \<open>The function is called on one file after the other until it returns false.\<close>

fun visit_files :: "('s \<Rightarrow> nat \<Rightarrow> file_ref \<Rightarrow> bool \<times> 's) \<Rightarrow> (nat \<times> file_ref) list \<Rightarrow> 's \<Rightarrow> 's" where
  "visit_files func [] arg = arg"
| "visit_files func ((level, f) # files) arg =
     (case func arg level f of (True, arg) \<Rightarrow> visit_files func files arg | (False, arg) \<Rightarrow> arg)"

definition overlapping_files :: "Comparator \<Rightarrow> file_store \<Rightarrow> Version \<Rightarrow> bytes \<Rightarrow> bytes \<Rightarrow> (nat \<times> file_ref) list" where
  "overlapping_files ucmp fs v ukey ikey =
     map (Pair 0) (level0_files ucmp fs v ukey) @ concat (map (level_file ucmp fs v ukey ikey) [1..<kNumLevels])"

definition ForEachOverlapping ::
  "Comparator \<Rightarrow> file_store \<Rightarrow> Version \<Rightarrow> bytes \<Rightarrow> bytes \<Rightarrow> ('s \<Rightarrow> nat \<Rightarrow> file_ref \<Rightarrow> bool \<times> 's) \<Rightarrow> 's \<Rightarrow> 's" where
  "ForEachOverlapping ucmp fs v ukey ikey func arg = visit_files func (overlapping_files ucmp fs v ukey ikey) arg"

datatype SaverState = kNotFoundState | kFoundState | kDeletedState | kCorruptState

record Saver =
  sv_state :: SaverState
  sv_user_key :: bytes
  sv_value :: bytes

definition SaveValue :: "Comparator \<Rightarrow> bytes \<Rightarrow> bytes \<Rightarrow> Saver \<Rightarrow> Saver" where
  "SaveValue ucmp ikey v s =
     (case ParseInternalKey ikey of
        None \<Rightarrow> s\<lparr>sv_state := kCorruptState\<rparr>
      | Some parsed \<Rightarrow>
          if Compare ucmp (ik_user_key parsed) (sv_user_key s) = 0 then
            if ik_type parsed = kTypeValue then s\<lparr>sv_state := kFoundState, sv_value := v\<rparr> else s\<lparr>sv_state := kDeletedState\<rparr>
          else s)"

record GetStats =
  gs_seek_file :: "file_ref option"
  gs_seek_file_level :: int

text \<open>The state of a lookup; the metadata and the table cache change with it.\<close>

record 'tc GetState =
  st_saver :: Saver
  st_stats :: GetStats
  st_last_file_read :: "file_ref option"
  st_last_file_read_level :: int
  st_status :: Status
  st_found :: bool
  st_files :: file_store
  st_table_cache :: 'tc

text \<open>\<open>TableCache::Get\<close>: number, size, level and key to a status and the entry that is handed to the callback, if any.\<close>

type_synonym 'tc table_get = "u64 \<Rightarrow> u64 \<Rightarrow> nat \<Rightarrow> bytes \<Rightarrow> 'tc \<Rightarrow> Status \<times> (bytes \<times> bytes) option \<times> 'tc"

text \<open>The first half of \<open>Match\<close>: it counts the access to the file, and charges the first file for a second seek.\<close>

definition charge_seek :: "nat \<Rightarrow> file_ref \<Rightarrow> 'tc GetState \<Rightarrow> 'tc GetState" where
  "charge_seek level f st =
     (let m = st_files st f;
          st = st\<lparr>st_files := (st_files st)(f := m\<lparr>fm_point_query_time := fm_point_query_time m + 1,
                                                  fm_point_query_time_all := fm_point_query_time_all m + 1\<rparr>)\<rparr>;
          st = (if gs_seek_file (st_stats st) = None \<and> st_last_file_read st \<noteq> None
                then st\<lparr>st_stats := \<lparr>gs_seek_file = st_last_file_read st, gs_seek_file_level = st_last_file_read_level st\<rparr>\<rparr>
                else st)
      in st\<lparr>st_last_file_read := Some f, st_last_file_read_level := int level\<rparr>)"

definition Match :: "'tc table_get \<Rightarrow> Comparator \<Rightarrow> bytes \<Rightarrow> 'tc GetState \<Rightarrow> nat \<Rightarrow> file_ref \<Rightarrow> bool \<times> 'tc GetState" where
  "Match tc_get ucmp ikey st level f =
     (let st = charge_seek level f st;
          m = st_files st f;
          (s, entry, tc) = tc_get (fm_number m) (fm_file_size m) level ikey (st_table_cache st);
          saver = (case entry of None \<Rightarrow> st_saver st | Some (k, v) \<Rightarrow> SaveValue ucmp k v (st_saver st));
          st = st\<lparr>st_status := s, st_table_cache := tc, st_saver := saver\<rparr>
      in if \<not> ok s then (False, st\<lparr>st_found := True\<rparr>)
         else
           case sv_state saver of
             kNotFoundState \<Rightarrow> (True, st)
           | kFoundState \<Rightarrow> (False, st\<lparr>st_found := True\<rparr>)
           | kDeletedState \<Rightarrow> (False, st)
           | kCorruptState \<Rightarrow>
               (False, st\<lparr>st_status := Corruption ''corrupted key for '' (map (\<lambda>b. char_of (unat b)) (sv_user_key saver)),
                          st_found := True\<rparr>))"

definition Version_Get ::
  "'tc table_get \<Rightarrow> Comparator \<Rightarrow> LookupKey \<Rightarrow> bytes \<Rightarrow> file_store \<Rightarrow> 'tc \<Rightarrow> Version \<Rightarrow>
   Status \<times> bytes \<times> GetStats \<times> file_store \<times> 'tc" where
  "Version_Get tc_get ucmp k val fs tc v =
     (let st = \<lparr>st_saver = \<lparr>sv_state = kNotFoundState, sv_user_key = user_key k, sv_value = val\<rparr>,
                st_stats = \<lparr>gs_seek_file = None, gs_seek_file_level = -1\<rparr>, st_last_file_read = None,
                st_last_file_read_level = -1, st_status = OK, st_found = False, st_files = fs, st_table_cache = tc\<rparr>;
          st = ForEachOverlapping ucmp fs v (user_key k) (internal_key k) (Match tc_get ucmp (internal_key k)) st
      in (if st_found st then st_status st else NotFound [] [], sv_value (st_saver st), st_stats st, st_files st, st_table_cache st))"

definition UpdateStats :: "GetStats \<Rightarrow> file_store \<Rightarrow> Version \<Rightarrow> bool \<times> file_store \<times> Version" where
  "UpdateStats stats fs v =
     (case gs_seek_file stats of
        None \<Rightarrow> (False, fs, v)
      | Some f \<Rightarrow>
          let fs = fs(f := (fs f)\<lparr>fm_allowed_seeks := fm_allowed_seeks (fs f) - 1\<rparr>)
          in if fm_allowed_seeks (fs f) \<le> 0 \<and> v_file_to_compact v = None
             then (True, fs, v\<lparr>v_file_to_compact := Some f, v_file_to_compact_level := gs_seek_file_level stats\<rparr>)
             else (False, fs, v))"

text \<open>The matches of a read sample: the first one is kept, the second one ends the search.\<close>

definition sample_match :: "GetStats \<times> nat \<Rightarrow> nat \<Rightarrow> file_ref \<Rightarrow> bool \<times> GetStats \<times> nat" where
  "sample_match st level f =
     (let (stats, matches) = st;
          matches = matches + 1;
          stats = (if matches = 1 then \<lparr>gs_seek_file = Some f, gs_seek_file_level = int level\<rparr> else stats)
      in (matches < 2, stats, matches))"

definition RecordReadSample :: "Comparator \<Rightarrow> bytes \<Rightarrow> file_store \<Rightarrow> Version \<Rightarrow> bool \<times> file_store \<times> Version" where
  "RecordReadSample ucmp ikey fs v =
     (case ParseInternalKey ikey of
        None \<Rightarrow> (False, fs, v)
      | Some k \<Rightarrow>
          let (stats, matches) = ForEachOverlapping ucmp fs v (ik_user_key k) ikey sample_match
                (\<lparr>gs_seek_file = None, gs_seek_file_level = -1\<rparr>, 0)
          in if matches \<ge> 2 then UpdateStats stats fs v else (False, fs, v))"

section \<open>Iterating over the files of a level\<close>

text \<open>\<open>LevelFileNumIterator\<close>: an index; values are the number, the size and the level.\<close>

definition lfn_Valid :: "file_ref list \<Rightarrow> nat \<Rightarrow> bool" where
  "lfn_Valid flist index \<longleftrightarrow> index < length flist"

definition lfn_Seek :: "Comparator \<Rightarrow> file_store \<Rightarrow> file_ref list \<Rightarrow> bytes \<Rightarrow> nat" where
  "lfn_Seek ucmp fs flist target = FindFile (InternalKeyComparator ucmp) fs flist target"

definition lfn_SeekToLast :: "file_ref list \<Rightarrow> nat" where
  "lfn_SeekToLast flist = (if flist = [] then 0 else length flist - 1)"

definition lfn_Prev :: "file_ref list \<Rightarrow> nat \<Rightarrow> nat" where
  "lfn_Prev flist index = (if index = 0 then length flist else index - 1)"

definition lfn_value :: "file_store \<Rightarrow> file_ref list \<Rightarrow> u64 \<Rightarrow> nat \<Rightarrow> bytes" where
  "lfn_value fs flist level index =
     EncodeFixed64 (fm_number (fs (flist ! index))) @ EncodeFixed64 (fm_file_size (fs (flist ! index))) @ EncodeFixed64 level"

text \<open>\<open>GetFileIterator\<close>: the arguments it passes to \<open>TableCache::NewIterator\<close>.\<close>

definition GetFileIterator :: "bytes \<Rightarrow> Status + u64 \<times> u64 \<times> u64" where
  "GetFileIterator file_value =
     (if length file_value \<noteq> 24 then Inl (Corruption ''FileReader invoked with unexpected value'' [])
      else Inr (DecodeFixed64 file_value, DecodeFixed64 (drop 8 file_value), DecodeFixed64 (drop 16 file_value)))"

section \<open>Printing\<close>

definition Version_DebugString :: "file_store \<Rightarrow> Version \<Rightarrow> string" where
  "Version_DebugString fs v =
     fold (\<lambda>level r.
       fold (\<lambda>f r. r @ '' '' @ decimal (unat (fm_number (fs f))) @ '':'' @ decimal (unat (fm_file_size (fs f))) @ ''['' @
           InternalKey_DebugString (fm_smallest (fs f)) @ '' .. '' @ InternalKey_DebugString (fm_largest (fs f)) @ '']'' @ [char_of (10 :: nat)])
         (v_files v ! level) (r @ ''--- level '' @ decimal level @ '' ---'' @ [char_of (10 :: nat)]))
       [0..<kNumLevels] []"

lemma charge_seek_simps [simp]:
  "st_saver (charge_seek level f st) = st_saver st" "st_table_cache (charge_seek level f st) = st_table_cache st"
  "st_found (charge_seek level f st) = st_found st" "st_status (charge_seek level f st) = st_status st"
  "fm_number (st_files (charge_seek level f st) g) = fm_number (st_files st g)"
  "fm_file_size (st_files (charge_seek level f st) g) = fm_file_size (st_files st g)"
  "fm_smallest (st_files (charge_seek level f st) g) = fm_smallest (st_files st g)"
  "fm_largest (st_files (charge_seek level f st) g) = fm_largest (st_files st g)"
  by (simp_all add: charge_seek_def Let_def)

lemma overlapping_files_member:
  "(level, f) \<in> set (overlapping_files c fs v u k) \<Longrightarrow> level < kNumLevels \<and> f \<in> set (v_files v ! level)"
  by (auto simp: overlapping_files_def level0_files_def level_file_def Let_def kNumLevels_def split: if_splits)

section \<open>Well-formed levels\<close>

text \<open>Bounds of a file are internal keys in order; files of a level from 1 on are sorted and disjoint.\<close>

definition file_ok :: "Comparator \<Rightarrow> FileMetaData \<Rightarrow> bool" where
  "file_ok c f \<longleftrightarrow> ParseInternalKey (fm_smallest f) \<noteq> None \<and> ParseInternalKey (fm_largest f) \<noteq> None \<and>
     Compare (InternalKeyComparator c) (fm_smallest f) (fm_largest f) \<le> 0"

definition files_sorted :: "Comparator \<Rightarrow> file_store \<Rightarrow> file_ref list \<Rightarrow> bool" where
  "files_sorted c fs files \<longleftrightarrow> (\<forall>f\<in>set files. file_ok c (fs f)) \<and>
     sorted_wrt (\<lambda>f g. Compare (InternalKeyComparator c) (fm_largest (fs f)) (fm_smallest (fs g)) < 0) files"

definition user_overlap :: "Comparator \<Rightarrow> bytes option \<Rightarrow> bytes option \<Rightarrow> FileMetaData \<Rightarrow> bool" where
  "user_overlap c lo hi f \<longleftrightarrow> \<not> AfterFile c lo f \<and> \<not> BeforeFile c hi f"

abbreviation start_key :: "FileMetaData \<Rightarrow> bytes" where
  "start_key f \<equiv> ExtractUserKey (fm_smallest f)"

abbreviation limit_key :: "FileMetaData \<Rightarrow> bytes" where
  "limit_key f \<equiv> ExtractUserKey (fm_largest f)"

definition levels_ok :: "Comparator \<Rightarrow> file_store \<Rightarrow> Version \<Rightarrow> bool" where
  "levels_ok c fs v \<longleftrightarrow> length (v_files v) = kNumLevels \<and> (\<forall>f\<in>set (v_files v ! 0). file_ok c (fs f)) \<and>
     (\<forall>files\<in>set (tl (v_files v)). files_sorted c fs files)"

lemma levels_okD:
  assumes "levels_ok c fs v"
  shows "length (v_files v) = kNumLevels" "\<forall>f\<in>set (v_files v ! 0). file_ok c (fs f)"
    "1 \<le> level \<Longrightarrow> level < kNumLevels \<Longrightarrow> files_sorted c fs (v_files v ! level)"
proof -
  show len: "length (v_files v) = kNumLevels" "\<forall>f\<in>set (v_files v ! 0). file_ok c (fs f)" using assms by (simp_all add: levels_ok_def)
  assume level: "1 \<le> level" "level < kNumLevels"
  then have "v_files v ! level = tl (v_files v) ! (level - 1)" "level - 1 < length (tl (v_files v))"
    using len by (simp_all add: nth_tl)
  then show "files_sorted c fs (v_files v ! level)" using assms by (simp add: levels_ok_def)
qed

text \<open>The files of level 0 a range pulls in: those that overlap it, those that overlap one of these, and so on.\<close>

inductive_set overlap_closure :: "Comparator \<Rightarrow> file_store \<Rightarrow> file_ref list \<Rightarrow> bytes option \<Rightarrow> bytes option \<Rightarrow> file_ref set"
  for c fs files lo hi where
  start: "f \<in> set files \<Longrightarrow> user_overlap c lo hi (fs f) \<Longrightarrow> f \<in> overlap_closure c fs files lo hi"
| link: "f \<in> overlap_closure c fs files lo hi \<Longrightarrow> g \<in> set files \<Longrightarrow>
    user_overlap c (Some (start_key (fs f))) (Some (limit_key (fs f))) (fs g) \<Longrightarrow> g \<in> overlap_closure c fs files lo hi"

lemma length_filter_less:
  "(\<And>x. x \<in> set xs \<Longrightarrow> P x \<Longrightarrow> Q x) \<Longrightarrow> y \<in> set xs \<Longrightarrow> Q y \<Longrightarrow> \<not> P y \<Longrightarrow> length (filter P xs) < length (filter Q xs)"
proof (induction xs)
  case (Cons a xs)
  have "length (filter P xs) \<le> length (filter Q xs)" if "\<forall>x\<in>set xs. P x \<longrightarrow> Q x" for xs
    using that by (induction xs) (auto intro: le_SucI)
  then have le: "length (filter P xs) \<le> length (filter Q xs)" using Cons.prems(1) by simp
  show ?case using Cons.IH Cons.prems le by (cases "y = a") (auto simp: less_Suc_eq_le)
qed simp

lemma file_ok_tag: "file_ok c f \<Longrightarrow> key_tag (fm_largest f) \<le> PackSequenceAndType kMaxSequenceNumber kValueTypeForSeek"
proof -
  assume "file_ok c f"
  then obtain k where k: "ParseInternalKey (fm_largest f) = Some k" by (auto simp: file_ok_def)
  note p = ParseInternalKey_SomeD [OF k]
  have "key_tag (fm_largest f) = PackSequenceAndType (ik_sequence k) (ik_type k)"
    using p(1) key_tag_append by (metis AppendInternalKey_eq append.assoc)
  then show ?thesis using seek_tag_le_iff [of kMaxSequenceNumber "ik_sequence k" "ik_type k"] p(2) by simp
qed

lemma find_file_step:
  "left < right \<Longrightarrow> find_file icmp fs files key left right =
     (if Compare icmp (fm_largest (fs (files ! ((left + right) div 2)))) key < 0
      then find_file icmp fs files key ((left + right) div 2 + 1) right else find_file icmp fs files key left ((left + right) div 2))"
  "\<not> left < right \<Longrightarrow> find_file icmp fs files key left right = right"
  by (subst find_file.simps, simp add: Let_def)+

lemma find_file_spec:
  assumes P: "\<And>i. P i \<longleftrightarrow> Compare icmp (fm_largest (fs (files ! i))) key < 0"
    and mono: "\<And>i j. i \<le> j \<Longrightarrow> j < length files \<Longrightarrow> P j \<Longrightarrow> P i"
  shows "left \<le> right \<Longrightarrow> right \<le> length files \<Longrightarrow> \<forall>i<left. P i \<Longrightarrow> \<forall>i. right \<le> i \<longrightarrow> i < length files \<longrightarrow> \<not> P i \<Longrightarrow>
    r = find_file icmp fs files key left right \<Longrightarrow>
    r \<le> length files \<and> (\<forall>i<r. P i) \<and> (\<forall>i. r \<le> i \<longrightarrow> i < length files \<longrightarrow> \<not> P i)"
proof (induction "right - left" arbitrary: left right rule: less_induct)
  case less
  let ?mid = "(left + right) div 2"
  show ?case
  proof (cases "left < right")
    case True
    then have mid: "left \<le> ?mid" "?mid < right" by auto
    show ?thesis
    proof (cases "P ?mid")
      case True
      have "\<forall>i<?mid + 1. P i" using mono [OF _ _ True] mid(2) less.prems(2) by auto
      moreover have "r = find_file icmp fs files key (?mid + 1) right"
        using less.prems(5) find_file_step(1) [OF \<open>left < right\<close>] True P by simp
      ultimately show ?thesis using less.prems mid by (intro less.hyps [of right "?mid + 1"]) auto
    next
      case False
      have "\<forall>i. ?mid \<le> i \<longrightarrow> i < length files \<longrightarrow> \<not> P i" using mono False by blast
      moreover have "r = find_file icmp fs files key left ?mid"
        using less.prems(5) find_file_step(1) [OF \<open>left < right\<close>] False P by simp
      ultimately show ?thesis using less.prems mid by (intro less.hyps [of ?mid left]) auto
    qed
  qed (use less.prems in \<open>simp add: find_file_step(2)\<close>)
qed

lemma FindFile_takeWhile:
  assumes "\<And>i j. i \<le> j \<Longrightarrow> j < length files \<Longrightarrow> Compare icmp (fm_largest (fs (files ! j))) key < 0 \<Longrightarrow>
      Compare icmp (fm_largest (fs (files ! i))) key < 0"
  shows "FindFile icmp fs files key = length (takeWhile (\<lambda>f. Compare icmp (fm_largest (fs f)) key < 0) files)"
proof -
  let ?P = "\<lambda>f. Compare icmp (fm_largest (fs f)) key < 0"
  have r: "FindFile icmp fs files key \<le> length files \<and> (\<forall>i<FindFile icmp fs files key. ?P (files ! i)) \<and>
      (\<forall>i. FindFile icmp fs files key \<le> i \<longrightarrow> i < length files \<longrightarrow> \<not> ?P (files ! i))"
    using assms by (intro find_file_spec [OF refl _ _ _ _ _ FindFile_def]) auto
  then have "takeWhile ?P files = take (FindFile icmp fs files key) files" by (intro takeWhile_eq_take_P_nth) auto
  then show ?thesis using r by simp
qed

sublocale separating_comparator < ik: key_order "Compare (InternalKeyComparator c)"
  using separating_comparator.axioms(1) [OF internal_separating] by (simp add: comparator_def)

context separating_comparator
begin

lemma icmp_user: "Compare (InternalKeyComparator c) a b \<le> 0 \<Longrightarrow> Compare c (ExtractUserKey a) (ExtractUserKey b) \<le> 0"
  by (auto simp: InternalKeyComparator_def internal_compare_le)

lemma files_sortedD:
  assumes "files_sorted c fs files" "i \<le> j" "j < length files"
  shows "Compare (InternalKeyComparator c) (fm_smallest (fs (files ! i))) (fm_smallest (fs (files ! j))) \<le> 0"
    "Compare (InternalKeyComparator c) (fm_largest (fs (files ! i))) (fm_largest (fs (files ! j))) \<le> 0"
    "i < j \<Longrightarrow> Compare (InternalKeyComparator c) (fm_largest (fs (files ! i))) (fm_smallest (fs (files ! j))) < 0"
proof -
  have ok: "Compare (InternalKeyComparator c) (fm_smallest (fs (files ! k))) (fm_largest (fs (files ! k))) \<le> 0" if "k < length files" for k
    using assms(1) that by (simp add: files_sorted_def file_ok_def)
  show lt: "Compare (InternalKeyComparator c) (fm_largest (fs (files ! i))) (fm_smallest (fs (files ! j))) < 0" if "i < j"
    using assms that by (simp add: files_sorted_def sorted_wrt_iff_nth_less)
  have "i = j \<or> i < j" using assms(2) by auto
  then show "Compare (InternalKeyComparator c) (fm_smallest (fs (files ! i))) (fm_smallest (fs (files ! j))) \<le> 0"
    "Compare (InternalKeyComparator c) (fm_largest (fs (files ! i))) (fm_largest (fs (files ! j))) \<le> 0"
    using lt ok [of i] ok [of j] assms(2,3) ik.compare_trans [OF ok [of i] less_imp_le [OF lt]]
      ik.compare_trans [OF less_imp_le [OF lt] ok [of j]] by auto
qed

lemma FindFile_sorted:
  assumes "files_sorted c fs files"
  shows "FindFile (InternalKeyComparator c) fs files key =
    length (takeWhile (\<lambda>f. Compare (InternalKeyComparator c) (fm_largest (fs f)) key < 0) files)"
  using files_sortedD(2) [OF assms] ik.compare_le_less_trans by (intro FindFile_takeWhile) blast

lemma AfterFile_seek:
  assumes "file_ok c f"
  shows "Compare (InternalKeyComparator c) (fm_largest f) (InternalKey_new k kMaxSequenceNumber kValueTypeForSeek) < 0 \<longleftrightarrow>
    AfterFile c (Some k) f"
  using file_ok_tag [OF assms] compare_gt_iff
  by (auto simp: InternalKeyComparator_def internal_compare_less InternalKey_new_def AppendInternalKey_eq AfterFile_def)

lemma SomeFileOverlapsRange_iff:
  assumes "disjoint_sorted \<longrightarrow> files_sorted c fs files"
  shows "SomeFileOverlapsRange c disjoint_sorted fs files lo hi \<longleftrightarrow> (\<exists>f\<in>set files. user_overlap c lo hi (fs f))"
proof (cases disjoint_sorted)
  case True
  then have s: "files_sorted c fs files" using assms by simp
  define index where "index = length (takeWhile (\<lambda>f. AfterFile c lo (fs f)) files)"
  have "takeWhile (\<lambda>f. Compare (InternalKeyComparator c) (fm_largest (fs f)) (InternalKey_new k kMaxSequenceNumber kValueTypeForSeek) < 0) files =
      takeWhile (\<lambda>f. AfterFile c (Some k) (fs f)) files" for k
    using s AfterFile_seek by (intro takeWhile_cong) (auto simp: files_sorted_def)
  then have "(case lo of None \<Rightarrow> 0 | Some k \<Rightarrow> FindFile (InternalKeyComparator c) fs files (InternalKey_new k kMaxSequenceNumber kValueTypeForSeek)) = index"
    by (simp add: index_def FindFile_sorted [OF s] AfterFile_def takeWhile_eq_Nil_iff split: option.split)
  then have eq: "SomeFileOverlapsRange c disjoint_sorted fs files lo hi \<longleftrightarrow> index < length files \<and> \<not> BeforeFile c hi (fs (files ! index))"
    using True by (auto simp: SomeFileOverlapsRange_def)
  show ?thesis
  proof
    assume "SomeFileOverlapsRange c disjoint_sorted fs files lo hi"
    moreover from this have "\<not> AfterFile c lo (fs (files ! index))"
      using nth_length_takeWhile [of "\<lambda>f. AfterFile c lo (fs f)" files] by (simp add: eq index_def)
    ultimately show "\<exists>f\<in>set files. user_overlap c lo hi (fs f)" unfolding eq by (auto simp: user_overlap_def)
  next
    assume "\<exists>f\<in>set files. user_overlap c lo hi (fs f)"
    then obtain j where j: "j < length files" "\<not> AfterFile c lo (fs (files ! j))" "\<not> BeforeFile c hi (fs (files ! j))"
      by (auto simp: user_overlap_def in_set_conv_nth)
    have "index \<le> j" using j(2) takeWhile_nth [of j "\<lambda>f. AfterFile c lo (fs f)" files] set_takeWhileD
      unfolding index_def by (metis (no_types, lifting) not_le nth_mem)
    then have "Compare c (start_key (fs (files ! index))) (start_key (fs (files ! j))) \<le> 0"
      using files_sortedD(1) [OF s _ j(1)] icmp_user by blast
    then have "\<not> BeforeFile c hi (fs (files ! index))"
      using j(3) compare_less_le_trans by (auto simp: BeforeFile_def split: option.splits)
    then show "SomeFileOverlapsRange c disjoint_sorted fs files lo hi" using \<open>index \<le> j\<close> j(1) by (simp add: eq)
  qed
next
  case False
  then show ?thesis by (simp add: SomeFileOverlapsRange_def list_ex_iff user_overlap_def)
qed

lemma user_overlap_iff:
  "user_overlap c lo hi f \<longleftrightarrow> (\<forall>b. lo = Some b \<longrightarrow> Compare c b (limit_key f) \<le> 0) \<and> (\<forall>e. hi = Some e \<longrightarrow> Compare c (start_key f) e \<le> 0)"
  using compare_not_less by (auto simp: user_overlap_def AfterFile_def BeforeFile_def compare_gt_iff split: option.splits)

lemma file_ok_user: "file_ok c f \<Longrightarrow> Compare c (start_key f) (limit_key f) \<le> 0"
  using icmp_user by (simp add: file_ok_def)

definition inside :: "bytes option \<Rightarrow> bytes option \<Rightarrow> FileMetaData \<Rightarrow> bool" where
  "inside lo hi f \<longleftrightarrow> (\<forall>b. lo = Some b \<longrightarrow> Compare c b (start_key f) \<le> 0) \<and> (\<forall>e. hi = Some e \<longrightarrow> Compare c (limit_key f) e \<le> 0)"

lemma inside_iff:
  "inside lo hi f \<longleftrightarrow> \<not> (lo \<noteq> None \<and> Compare c (start_key f) (the lo) < 0) \<and> \<not> (hi \<noteq> None \<and> Compare c (limit_key f) (the hi) > 0)"
  by (cases lo; cases hi) (auto simp: inside_def compare_not_less not_less [of 0])

lemma overlapping_inputs_step:
  assumes "i < length files"
  shows "overlapping_inputs c fs level files i lo hi inputs =
    (let f = files ! i
     in if \<not> user_overlap c lo hi (fs f) then overlapping_inputs c fs level files (i + 1) lo hi inputs
        else if level = 0 \<and> lo \<noteq> None \<and> Compare c (start_key (fs f)) (the lo) < 0
          then overlapping_inputs c fs level files 0 (Some (start_key (fs f))) hi []
        else if level = 0 \<and> hi \<noteq> None \<and> Compare c (limit_key (fs f)) (the hi) > 0
          then overlapping_inputs c fs level files 0 lo (Some (limit_key (fs f))) []
        else overlapping_inputs c fs level files (i + 1) lo hi (inputs @ [f]))"
  using assms by (subst overlapping_inputs.simps)
    (cases lo; cases hi; auto simp: Let_def user_overlap_def AfterFile_def BeforeFile_def compare_gt_iff)

lemma overlapping_inputs_sorted:
  assumes "level \<noteq> 0"
  shows "i \<le> length files \<Longrightarrow> overlapping_inputs c fs level files i lo hi inputs =
    Some (inputs @ filter (\<lambda>f. user_overlap c lo hi (fs f)) (drop i files))"
proof (induction i arbitrary: inputs rule: inc_induct)
  case base
  then show ?case by (subst overlapping_inputs.simps) simp
next
  case (step i)
  then show ?case using assms by (simp add: overlapping_inputs_step Let_def Cons_nth_drop_Suc [symmetric])
qed

definition outside_count :: "file_store \<Rightarrow> file_ref list \<Rightarrow> bytes option \<Rightarrow> bytes option \<Rightarrow> nat" where
  "outside_count fs files lo hi =
     length (filter (\<lambda>f. \<exists>b. lo = Some b \<and> Compare c (start_key (fs f)) b < 0) files) +
     length (filter (\<lambda>f. \<exists>e. hi = Some e \<and> Compare c e (limit_key (fs f)) < 0) files)"

lemma outside_count_less:
  assumes "f \<in> set files"
  shows "Compare c (start_key (fs f)) b < 0 \<Longrightarrow> outside_count fs files (Some (start_key (fs f))) hi < outside_count fs files (Some b) hi"
    "Compare c e (limit_key (fs f)) < 0 \<Longrightarrow> outside_count fs files lo (Some (limit_key (fs f))) < outside_count fs files lo (Some e)"
proof -
  show "outside_count fs files (Some (start_key (fs f))) hi < outside_count fs files (Some b) hi" if less: "Compare c (start_key (fs f)) b < 0"
  proof -
    have "length (filter (\<lambda>g. Compare c (start_key (fs g)) (start_key (fs f)) < 0) files) < length (filter (\<lambda>g. Compare c (start_key (fs g)) b < 0) files)"
      using compare_less_trans [OF _ less] by (intro length_filter_less [OF _ assms]) (simp_all add: less)
    then show ?thesis by (simp add: outside_count_def)
  qed
  show "outside_count fs files lo (Some (limit_key (fs f))) < outside_count fs files lo (Some e)" if less: "Compare c e (limit_key (fs f)) < 0"
  proof -
    have "length (filter (\<lambda>g. Compare c (limit_key (fs f)) (limit_key (fs g)) < 0) files) < length (filter (\<lambda>g. Compare c e (limit_key (fs g)) < 0) files)"
      using compare_less_trans [OF less] by (intro length_filter_less [OF _ assms]) (simp_all add: less)
    then show ?thesis by (simp add: outside_count_def)
  qed
qed

text \<open>What the range of the search may grow to without leaving a set that is closed under overlaps.\<close>

definition closed_in :: "file_store \<Rightarrow> file_ref list \<Rightarrow> file_ref set \<Rightarrow> bytes option \<Rightarrow> bytes option \<Rightarrow> bool" where
  "closed_in fs files S lo hi \<longleftrightarrow> (\<forall>g\<in>set files. user_overlap c lo hi (fs g) \<longrightarrow> g \<in> S) \<and>
     (\<forall>f\<in>S. \<forall>g\<in>set files. user_overlap c (Some (start_key (fs f))) (Some (limit_key (fs f))) (fs g) \<longrightarrow> g \<in> S)"

lemma closed_in_grow:
  assumes "closed_in fs files S lo hi" "f \<in> set files" "user_overlap c lo hi (fs f)" "\<forall>g\<in>set files. file_ok c (fs g)"
  shows "lo = Some b \<Longrightarrow> closed_in fs files S (Some (start_key (fs f))) hi"
    "hi = Some e \<Longrightarrow> closed_in fs files S lo (Some (limit_key (fs f)))"
proof -
  have ok: "Compare c (start_key (fs g)) (limit_key (fs g)) \<le> 0" if "g \<in> set files" for g
    using assms(4) that file_ok_user by blast
  have S: "f \<in> S" "\<And>g. g \<in> set files \<Longrightarrow> user_overlap c lo hi (fs g) \<Longrightarrow> g \<in> S"
    "\<And>g. g \<in> set files \<Longrightarrow> user_overlap c (Some (start_key (fs f))) (Some (limit_key (fs f))) (fs g) \<Longrightarrow> g \<in> S"
    using assms(1-3) by (auto simp: closed_in_def)
  show "closed_in fs files S (Some (start_key (fs f))) hi" if "lo = Some b"
  proof -
    have "g \<in> S" if g: "g \<in> set files" "user_overlap c (Some (start_key (fs f))) hi (fs g)" for g
    proof (cases "user_overlap c lo hi (fs g)")
      case False
      then have "Compare c (limit_key (fs g)) b < 0"
        using g(2) \<open>lo = Some b\<close> compare_not_less by (auto simp: user_overlap_iff)
      moreover have "Compare c b (limit_key (fs f)) \<le> 0" using assms(3) \<open>lo = Some b\<close> by (simp add: user_overlap_iff)
      ultimately have "Compare c (start_key (fs g)) (limit_key (fs f)) \<le> 0"
        using ok [OF g(1)] by (meson compare_trans less_imp_le)
      then show ?thesis using g by (intro S(3)) (simp_all add: user_overlap_iff)
    qed (use S(2) g(1) in blast)
    then show ?thesis using assms(1) by (simp add: closed_in_def)
  qed
  show "closed_in fs files S lo (Some (limit_key (fs f)))" if "hi = Some e"
  proof -
    have "g \<in> S" if g: "g \<in> set files" "user_overlap c lo (Some (limit_key (fs f))) (fs g)" for g
    proof (cases "user_overlap c lo hi (fs g)")
      case False
      then have "Compare c e (start_key (fs g)) < 0"
        using g(2) \<open>hi = Some e\<close> compare_not_less by (auto simp: user_overlap_iff)
      moreover have "Compare c (start_key (fs f)) e \<le> 0" using assms(3) \<open>hi = Some e\<close> by (simp add: user_overlap_iff)
      ultimately have "Compare c (start_key (fs f)) (limit_key (fs g)) \<le> 0"
        using ok [OF g(1)] by (meson compare_trans less_imp_le)
      then show ?thesis using g by (intro S(3)) (simp_all add: user_overlap_iff)
    qed (use S(2) g(1) in blast)
    then show ?thesis using assms(1) by (simp add: closed_in_def)
  qed
qed

lemma overlapping_inputs_level0:
  assumes ok: "\<forall>g\<in>set files. file_ok c (fs g)"
  shows "i \<le> length files \<Longrightarrow> inputs = filter (\<lambda>f. user_overlap c lo hi (fs f)) (take i files) \<Longrightarrow>
    \<forall>f\<in>set inputs. inside lo hi (fs f) \<Longrightarrow>
    \<exists>lo' hi'. overlapping_inputs c fs 0 files i lo hi inputs = Some (filter (\<lambda>f. user_overlap c lo' hi' (fs f)) files) \<and>
      (\<forall>f\<in>set files. user_overlap c lo hi (fs f) \<longrightarrow> user_overlap c lo' hi' (fs f)) \<and>
      (\<forall>f\<in>set files. user_overlap c lo' hi' (fs f) \<longrightarrow> inside lo' hi' (fs f)) \<and>
      (\<forall>S. closed_in fs files S lo hi \<longrightarrow> closed_in fs files S lo' hi')"
proof (induction "outside_count fs files lo hi * Suc (length files) + (length files - i)" arbitrary: i lo hi inputs rule: less_induct)
  case less
  show ?case
  proof (cases "i < length files")
    case False
    then have "overlapping_inputs c fs 0 files i lo hi inputs = Some (filter (\<lambda>f. user_overlap c lo hi (fs f)) files)"
      using less.prems(1,2) by (subst overlapping_inputs.simps) simp
    then show ?thesis using less.prems False by - (rule exI [of _ lo], rule exI [of _ hi], auto)
  next
    case True
    define f where "f = files ! i"
    have f: "f \<in> set files" using True by (simp add: f_def)
    have take: "take (Suc i) files = take i files @ [f]" using True by (simp add: f_def take_Suc_conv_app_nth)
    note step = overlapping_inputs_step [OF True, of fs 0 lo hi inputs, folded f_def, unfolded Let_def]
    have restart: "outside_count fs files lo' hi' * Suc (length files) + length files <
        outside_count fs files lo hi * Suc (length files) + (length files - i)"
      if "outside_count fs files lo' hi' < outside_count fs files lo hi" for lo' hi'
      using mult_le_mono1 [OF Suc_leI [OF that], of "Suc (length files)"] True by simp
    consider (skip) "\<not> user_overlap c lo hi (fs f)"
      | (lower) b where "user_overlap c lo hi (fs f)" "lo = Some b" "Compare c (start_key (fs f)) b < 0"
      | (upper) e where "user_overlap c lo hi (fs f)" "\<not> (lo \<noteq> None \<and> Compare c (start_key (fs f)) (the lo) < 0)"
          "hi = Some e" "Compare c (limit_key (fs f)) e > 0"
      | (add) "user_overlap c lo hi (fs f)" "inside lo hi (fs f)"
      by (cases "user_overlap c lo hi (fs f)"; cases "lo \<noteq> None \<and> Compare c (start_key (fs f)) (the lo) < 0";
          cases "hi \<noteq> None \<and> Compare c (limit_key (fs f)) (the hi) > 0") (auto simp: inside_iff)
    then show ?thesis
    proof cases
      case skip
      then show ?thesis using less.hyps [of lo hi "Suc i" inputs] less.prems step True take by simp
    next
      case lower
      have "\<exists>lo' hi'. overlapping_inputs c fs 0 files 0 (Some (start_key (fs f))) hi [] = Some (filter (\<lambda>f. user_overlap c lo' hi' (fs f)) files) \<and>
          (\<forall>g\<in>set files. user_overlap c (Some (start_key (fs f))) hi (fs g) \<longrightarrow> user_overlap c lo' hi' (fs g)) \<and>
          (\<forall>f\<in>set files. user_overlap c lo' hi' (fs f) \<longrightarrow> inside lo' hi' (fs f)) \<and>
          (\<forall>S. closed_in fs files S (Some (start_key (fs f))) hi \<longrightarrow> closed_in fs files S lo' hi')"
        using restart outside_count_less(1) [of f files fs, OF f lower(3), of hi] lower(2) by (intro less.hyps) simp_all
      moreover have "user_overlap c (Some (start_key (fs f))) hi (fs g)" if "user_overlap c lo hi (fs g)" for g
        using that lower(2,3) compare_trans [OF less_imp_le [OF lower(3)]] by (simp add: user_overlap_iff)
      moreover have "closed_in fs files S (Some (start_key (fs f))) hi" if "closed_in fs files S lo hi" for S
        by (rule closed_in_grow(1) [OF that f lower(1) ok lower(2)])
      moreover have "overlapping_inputs c fs 0 files i lo hi inputs = overlapping_inputs c fs 0 files 0 (Some (start_key (fs f))) hi []"
        using lower step by simp
      ultimately show ?thesis by metis
    next
      case upper
      then have gt: "Compare c e (limit_key (fs f)) < 0" by (simp add: compare_gt_iff)
      have "\<exists>lo' hi'. overlapping_inputs c fs 0 files 0 lo (Some (limit_key (fs f))) [] = Some (filter (\<lambda>f. user_overlap c lo' hi' (fs f)) files) \<and>
          (\<forall>g\<in>set files. user_overlap c lo (Some (limit_key (fs f))) (fs g) \<longrightarrow> user_overlap c lo' hi' (fs g)) \<and>
          (\<forall>f\<in>set files. user_overlap c lo' hi' (fs f) \<longrightarrow> inside lo' hi' (fs f)) \<and>
          (\<forall>S. closed_in fs files S lo (Some (limit_key (fs f))) \<longrightarrow> closed_in fs files S lo' hi')"
        using restart outside_count_less(2) [of f files e fs, OF f gt, of lo] upper(3) by (intro less.hyps) simp_all
      moreover have "user_overlap c lo (Some (limit_key (fs f))) (fs g)" if "user_overlap c lo hi (fs g)" for g
        using that upper(3) compare_trans [OF _ less_imp_le [OF gt]] by (simp add: user_overlap_iff)
      moreover have "closed_in fs files S lo (Some (limit_key (fs f)))" if "closed_in fs files S lo hi" for S
        by (rule closed_in_grow(2) [OF that f upper(1) ok upper(3)])
      moreover have "overlapping_inputs c fs 0 files i lo hi inputs = overlapping_inputs c fs 0 files 0 lo (Some (limit_key (fs f))) []"
        using upper step by (auto simp del: not_None_eq)
      ultimately show ?thesis by metis
    next
      case add
      have "overlapping_inputs c fs 0 files i lo hi inputs = overlapping_inputs c fs 0 files (Suc i) lo hi (inputs @ [f])"
        using add(1) add(2) [unfolded inside_iff] step by (simp only: simp_thms if_False if_True Suc_eq_plus1)
      then show ?thesis using less.prems True take add by (auto intro!: less.hyps)
    qed
  qed
qed

lemma overlapping_inputs_closure:
  assumes "\<forall>g\<in>set files. file_ok c (fs g)"
  shows "overlapping_inputs c fs 0 files 0 lo hi [] = Some (filter (\<lambda>f. f \<in> overlap_closure c fs files lo hi) files)"
proof -
  let ?C = "overlap_closure c fs files lo hi"
  from overlapping_inputs_level0 [OF assms, of 0 "[]" lo hi] obtain lo' hi' where
    r: "overlapping_inputs c fs 0 files 0 lo hi [] = Some (filter (\<lambda>f. user_overlap c lo' hi' (fs f)) files)"
    "\<And>f. f \<in> set files \<Longrightarrow> user_overlap c lo hi (fs f) \<Longrightarrow> user_overlap c lo' hi' (fs f)"
    "\<And>f. f \<in> set files \<Longrightarrow> user_overlap c lo' hi' (fs f) \<Longrightarrow> inside lo' hi' (fs f)"
    "\<And>S. closed_in fs files S lo hi \<Longrightarrow> closed_in fs files S lo' hi'" by auto
  have "closed_in fs files ?C lo hi" by (auto simp: closed_in_def intro: overlap_closure.intros)
  then have "f \<in> ?C" if "f \<in> set files" "user_overlap c lo' hi' (fs f)" for f
    using r(4) that unfolding closed_in_def by blast
  moreover have "f \<in> set files \<and> user_overlap c lo' hi' (fs f)" if "f \<in> ?C" for f
    using that
  proof induction
    case (link f g)
    have "inside lo' hi' (fs f)" using link.IH r(3) by blast
    then have "user_overlap c lo' hi' (fs g)"
      using link.hyps(3) compare_trans by (auto simp: user_overlap_iff inside_def)
    then show ?case using link.hyps by simp
  qed (use r(2) in auto)
  ultimately have "filter (\<lambda>f. user_overlap c lo' hi' (fs f)) files = filter (\<lambda>f. f \<in> ?C) files"
    by (intro filter_cong) auto
  then show ?thesis using r(1) by simp
qed

lemma GetOverlappingInputs_eq:
  assumes "levels_ok c fs v" "level < kNumLevels"
  shows "GetOverlappingInputs c fs v level lo hi = Some (filter
    (\<lambda>f. if level = 0 then f \<in> overlap_closure c fs (v_files v ! 0) (map_option ExtractUserKey lo) (map_option ExtractUserKey hi)
         else user_overlap c (map_option ExtractUserKey lo) (map_option ExtractUserKey hi) (fs f)) (v_files v ! level))"
  using assms overlapping_inputs_closure overlapping_inputs_sorted
  by (cases "level = 0") (auto simp: GetOverlappingInputs_def levels_okD(2))

lemma OverlapInLevel_iff:
  assumes "levels_ok c fs v" "level < kNumLevels"
  shows "OverlapInLevel c fs v level lo hi \<longleftrightarrow> (\<exists>f\<in>set (v_files v ! level). user_overlap c lo hi (fs f))"
  using assms unfolding OverlapInLevel_def by (intro SomeFileOverlapsRange_iff) (simp add: levels_okD(3))

lemma pick_level_ok:
  assumes v: "levels_ok c fs v"
  shows "level \<le> kMaxMemCompactLevel \<Longrightarrow> \<forall>l\<le>level. \<not> OverlapInLevel c fs v l (Some lo) (Some hi) \<Longrightarrow>
    \<exists>level'. pick_level c max_file_size fs v lo hi level = Some level' \<and> level' \<le> kMaxMemCompactLevel \<and>
      (\<forall>l\<le>level'. \<not> OverlapInLevel c fs v l (Some lo) (Some hi))"
proof (induction "kMaxMemCompactLevel - level" arbitrary: level)
  case 0
  then show ?case by (subst pick_level.simps) auto
next
  case (Suc n)
  then have l: "level < kMaxMemCompactLevel" "level + 2 < kNumLevels" by (simp_all add: kMaxMemCompactLevel_def kNumLevels_def)
  then obtain overlaps where o: "GetOverlappingInputs c fs v (level + 2)
      (Some (InternalKey_new lo kMaxSequenceNumber kValueTypeForSeek)) (Some (InternalKey_new hi 0 kTypeDeletion)) = Some overlaps"
    using GetOverlappingInputs_eq [OF v] by blast
  consider "OverlapInLevel c fs v (level + 1) (Some lo) (Some hi) \<or> sint (TotalFileSize fs overlaps) > sint (MaxGrandParentOverlapBytes max_file_size)"
    | (next_level) "\<not> OverlapInLevel c fs v (level + 1) (Some lo) (Some hi)"
      "\<not> sint (TotalFileSize fs overlaps) > sint (MaxGrandParentOverlapBytes max_file_size)" by blast
  then show ?case
  proof cases
    case 1
    then have "pick_level c max_file_size fs v lo hi level = Some level" using l o by (subst pick_level.simps) auto
    then show ?thesis using Suc.prems by auto
  next
    case next_level
    then have "pick_level c max_file_size fs v lo hi level = pick_level c max_file_size fs v lo hi (level + 1)"
      using l o by (subst pick_level.simps) auto
    then show ?thesis using Suc.hyps(1) [of "level + 1"] Suc.hyps(2) Suc.prems l next_level(1) by (auto simp: le_Suc_eq)
  qed
qed

end

section \<open>Properties\<close>

text \<open>
  C22. The search for overlaps is exact. For a user comparator that is a total preorder and any
  range of user keys, open or not at each end: the binary search in a level of sorted disjoint files, and the linear one
  in level 0, say whether some file overlaps the range.
\<close>

theorem overlap_search:
  assumes "separating_comparator c" "disjoint_sorted \<longrightarrow> files_sorted c fs files"
  shows "SomeFileOverlapsRange c disjoint_sorted fs files lo hi \<longleftrightarrow>
    (\<exists>f\<in>set files. (\<forall>k. lo = Some k \<longrightarrow> Compare c k (limit_key (fs f)) \<le> 0) \<and> (\<forall>k. hi = Some k \<longrightarrow> Compare c (start_key (fs f)) k \<le> 0))"
  unfolding separating_comparator.SomeFileOverlapsRange_iff [OF assms] separating_comparator.user_overlap_iff [OF assms(1)] by (rule refl)

text \<open>Two files of a level, \<open>a..c\<close> and \<open>e..g\<close>.\<close>

definition sample_files :: file_store where
  "sample_files f = \<lparr>fm_refs = 1, fm_allowed_seeks = 100, fm_point_query_time = 0, fm_point_query_time_all = 0, fm_history_time = [],
     fm_number = of_nat f, fm_file_size = 10, fm_smallest = InternalKey_new [if f = 0 then 97 else 101] 5 kTypeValue,
     fm_largest = InternalKey_new [if f = 0 then 99 else 103] 4 kTypeValue\<rparr>"

definition sample_version :: Version where
  "sample_version = Version_new\<lparr>v_files := [[0, 1], [0, 1], [], [], [], [], []]\<rparr>"

lemma sample_ok: "v_files sample_version = [[0, 1], [0, 1], [], [], [], [], []]" "levels_ok BytewiseComparator sample_files sample_version"
proof -
  show f: "v_files sample_version = [[0, 1], [0, 1], [], [], [], [], []]" by (simp add: sample_version_def)
  have "files_sorted BytewiseComparator sample_files [0, 1]" "file_ok BytewiseComparator (sample_files 0)"
    "file_ok BytewiseComparator (sample_files 1)" by code_simp+
  then show "levels_ok BytewiseComparator sample_files sample_version"
    by (simp add: levels_ok_def f kNumLevels_def) (simp add: files_sorted_def)
qed

theorem overlap_search_witness:
  "\<not> SomeFileOverlapsRange BytewiseComparator True sample_files [0, 1] (Some [100]) (Some [100, 1]) \<and>
   SomeFileOverlapsRange BytewiseComparator True sample_files [0, 1] (Some [100]) (Some [101])"
proof -
  have s: "files_sorted BytewiseComparator sample_files [0, 1]" by code_simp
  have "\<not> (\<exists>f\<in>set [0, 1]. Compare BytewiseComparator [100] (limit_key (sample_files f)) \<le> 0 \<and> Compare BytewiseComparator (start_key (sample_files f)) [100, 1] \<le> 0)"
    "\<exists>f\<in>set [0, 1]. Compare BytewiseComparator [100] (limit_key (sample_files f)) \<le> 0 \<and> Compare BytewiseComparator (start_key (sample_files f)) [101] \<le> 0"
    by code_simp+
  then show ?thesis using overlap_search [OF bytewise.separating_comparator_axioms, of True sample_files "[0, 1]"] s by simp
qed

text \<open>
  C20. The files that overlap a range are found, and in level 0 with everything they drag in. In a version with well-formed
  levels the search always returns, although in level 0 it starts again whenever a file extends the
  range. In levels from 1 on it returns exactly the files that overlap the range, in level 0 exactly those in the smallest set that has
  all files that overlap the range and all files that overlap a file of the set.
\<close>

theorem overlapping_inputs_found:
  assumes "separating_comparator c" "levels_ok c fs v" "level < kNumLevels"
  shows "GetOverlappingInputs c fs v level lo hi = Some (filter
    (\<lambda>f. if level = 0 then f \<in> overlap_closure c fs (v_files v ! 0) (map_option ExtractUserKey lo) (map_option ExtractUserKey hi)
         else user_overlap c (map_option ExtractUserKey lo) (map_option ExtractUserKey hi) (fs f)) (v_files v ! level))"
  by (rule separating_comparator.GetOverlappingInputs_eq [OF assms])

theorem overlapping_inputs_found_witness:
  "GetOverlappingInputs BytewiseComparator sample_files sample_version 1 None (Some (InternalKey_new [98] 1 kTypeValue)) = Some [0]"
proof -
  have "user_overlap BytewiseComparator None (Some (ExtractUserKey (InternalKey_new [98] 1 kTypeValue))) (sample_files 0)"
    "\<not> user_overlap BytewiseComparator None (Some (ExtractUserKey (InternalKey_new [98] 1 kTypeValue))) (sample_files 1)" by code_simp+
  then show ?thesis
    using overlapping_inputs_found [OF bytewise.separating_comparator_axioms sample_ok(2), of 1 None] sample_ok(1) by (simp add: kNumLevels_def)
qed

text \<open>
  C21. A memtable goes to a level where it hides nothing newer. The level for the file of a memtable is always found and is at most
  \<open>kMaxMemCompactLevel\<close>; and unless it is 0, no file of that level or of a level above overlaps the user keys of the new file. In level 0
  files may overlap, and there the newer file is looked at first.
\<close>

theorem memtable_output_level:
  assumes "separating_comparator c" "levels_ok c fs v"
  shows "\<exists>level. PickLevelForMemTableOutput c max_file_size fs v lo hi = Some level \<and> level \<le> kMaxMemCompactLevel \<and>
    (level = 0 \<or> (\<forall>l\<le>level. \<forall>f\<in>set (v_files v ! l). Compare c (limit_key (fs f)) lo < 0 \<or> Compare c hi (start_key (fs f)) < 0))"
proof -
  have no: "\<forall>f\<in>set (v_files v ! l). Compare c (limit_key (fs f)) lo < 0 \<or> Compare c hi (start_key (fs f)) < 0"
    if "\<not> OverlapInLevel c fs v l (Some lo) (Some hi)" "l \<le> kMaxMemCompactLevel" for l
    using that separating_comparator.OverlapInLevel_iff [OF assms, of l "Some lo" "Some hi"]
      key_order.compare_gt_iff [OF separating_comparator.axioms(1) [OF assms(1), unfolded comparator_def]]
    by (auto simp: user_overlap_def AfterFile_def BeforeFile_def kMaxMemCompactLevel_def kNumLevels_def)
  show ?thesis
  proof (cases "OverlapInLevel c fs v 0 (Some lo) (Some hi)")
    case False
    from separating_comparator.pick_level_ok [OF assms, of 0 lo hi max_file_size] this obtain level where
      "pick_level c max_file_size fs v lo hi 0 = Some level" "level \<le> kMaxMemCompactLevel"
      "\<forall>l\<le>level. \<not> OverlapInLevel c fs v l (Some lo) (Some hi)" by auto
    moreover from this have "\<forall>l\<le>level. \<forall>f\<in>set (v_files v ! l). Compare c (limit_key (fs f)) lo < 0 \<or> Compare c hi (start_key (fs f)) < 0"
      by (intro allI impI no) auto
    ultimately show ?thesis using False by (simp add: PickLevelForMemTableOutput_def)
  qed (simp add: PickLevelForMemTableOutput_def)
qed

theorem memtable_output_level_witness:
  "\<exists>level. PickLevelForMemTableOutput BytewiseComparator 1000 sample_files sample_version [98] [100] = Some level \<and> level \<le> 2"
  using memtable_output_level [OF bytewise.separating_comparator_axioms sample_ok(2), of 1000 "[98]" "[100]"]
  by (auto simp: kMaxMemCompactLevel_def)

end
