(* ===== verification/VersionSet.thy ===== *)
theory VersionSet
  imports Version Log Filename
begin

text \<open>
  The rest of the version set of \<open>db/version_set.cc\<close>: applying edits to a version (\<open>Builder\<close>), reference
  counts of versions and files, the choice of the level to compact, and the manifest, which is a log of
  edits on the in-memory environment. The user comparator and its name, the name of the database and the two options that
  matter are fields of the state. Scores are real numbers where the code has doubles. Assertions are off.
\<close>

section \<open>State\<close>

type_synonym version_ref = nat

record VersionSet =
  vs_dbname :: string
  vs_ucmp :: Comparator
  vs_cmp_name :: bytes
  vs_max_file_size :: u64
  vs_reuse_logs :: bool
  vs_next_file_number :: u64
  vs_manifest_file_number :: u64
  vs_last_sequence :: u64
  vs_log_number :: u64
  vs_prev_log_number :: u64
  vs_descriptor :: "(addr \<times> nat) option"
  vs_files :: file_store
  vs_next_ref :: file_ref
  vs_version :: "version_ref \<Rightarrow> Version"
  vs_next_version :: version_ref
  vs_live :: "version_ref list"
  vs_current :: "version_ref option"
  vs_compact_pointer :: "bytes list"

definition current_version :: "VersionSet \<Rightarrow> Version" where
  "current_version vs = vs_version vs (the (vs_current vs))"

section \<open>Reference counts\<close>

text \<open>A file whose count reaches zero is deleted: no version refers to it, and its reference is not used again.\<close>

definition add_file_ref :: "int \<Rightarrow> file_ref \<Rightarrow> file_store \<Rightarrow> file_store" where
  "add_file_ref n f fs = fs(f := (fs f)\<lparr>fm_refs := fm_refs (fs f) + n\<rparr>)"

definition new_version :: "VersionSet \<Rightarrow> version_ref \<times> VersionSet" where
  "new_version vs =
     (vs_next_version vs,
      vs\<lparr>vs_version := (vs_version vs)(vs_next_version vs := Version_new), vs_next_version := vs_next_version vs + 1\<rparr>)"

text \<open>\<open>~Version\<close>: out of the list of live versions, and the references to the files are dropped.\<close>

definition delete_version :: "version_ref \<Rightarrow> VersionSet \<Rightarrow> VersionSet" where
  "delete_version r vs =
     vs\<lparr>vs_live := remove1 r (vs_live vs),
        vs_files := fold (add_file_ref (-1)) (concat (v_files (vs_version vs r))) (vs_files vs)\<rparr>"

definition Version_Ref :: "version_ref \<Rightarrow> VersionSet \<Rightarrow> VersionSet" where
  "Version_Ref r vs = vs\<lparr>vs_version := (vs_version vs)(r := (vs_version vs r)\<lparr>v_refs := v_refs (vs_version vs r) + 1\<rparr>)\<rparr>"

definition Version_Unref :: "version_ref \<Rightarrow> VersionSet \<Rightarrow> VersionSet" where
  "Version_Unref r vs =
     (let vs = vs\<lparr>vs_version := (vs_version vs)(r := (vs_version vs r)\<lparr>v_refs := v_refs (vs_version vs r) - 1\<rparr>)\<rparr>
      in if v_refs (vs_version vs r) = 0 then delete_version r vs else vs)"

definition AppendVersion :: "version_ref \<Rightarrow> VersionSet \<Rightarrow> VersionSet" where
  "AppendVersion r vs =
     (let vs = (case vs_current vs of None \<Rightarrow> vs | Some cur \<Rightarrow> Version_Unref cur vs);
          vs = Version_Ref r (vs\<lparr>vs_current := Some r\<rparr>)
      in vs\<lparr>vs_live := vs_live vs @ [r]\<rparr>)"

definition VersionSet_new :: "string \<Rightarrow> Comparator \<Rightarrow> bytes \<Rightarrow> u64 \<Rightarrow> bool \<Rightarrow> VersionSet" where
  "VersionSet_new dbname ucmp cmp_name max_file_size reuse_logs =
     (let vs = \<lparr>vs_dbname = dbname, vs_ucmp = ucmp, vs_cmp_name = cmp_name, vs_max_file_size = max_file_size,
                vs_reuse_logs = reuse_logs, vs_next_file_number = 2, vs_manifest_file_number = 0, vs_last_sequence = 0,
                vs_log_number = 0, vs_prev_log_number = 0, vs_descriptor = None, vs_files = (\<lambda>_. FileMetaData_new 0),
                vs_next_ref = 0, vs_version = (\<lambda>_. Version_new), vs_next_version = 0, vs_live = [], vs_current = None,
                vs_compact_pointer = replicate kNumLevels []\<rparr>;
          (r, vs) = new_version vs
      in AppendVersion r vs)"

section \<open>Applying edits\<close>

text \<open>The order of the set of added files: by smallest key, then by number.\<close>

definition BySmallestKey :: "Comparator \<Rightarrow> FileMetaData \<Rightarrow> FileMetaData \<Rightarrow> bool" where
  "BySmallestKey ucmp f1 f2 =
     (let r = Compare (InternalKeyComparator ucmp) (fm_smallest f1) (fm_smallest f2)
      in if r \<noteq> 0 then r < 0 else fm_number f1 < fm_number f2)"

text \<open>\<open>std::set::insert\<close>: nothing changes when an equivalent element is there.\<close>

fun file_set_insert :: "Comparator \<Rightarrow> file_store \<Rightarrow> file_ref \<Rightarrow> file_ref list \<Rightarrow> file_ref list" where
  "file_set_insert ucmp fs f [] = [f]"
| "file_set_insert ucmp fs f (g # gs) =
     (if BySmallestKey ucmp (fs f) (fs g) then f # g # gs
      else if BySmallestKey ucmp (fs g) (fs f) then g # file_set_insert ucmp fs f gs else g # gs)"

record LevelState =
  ls_deleted_files :: "u64 set"
  ls_added_files :: "file_ref list"

record Builder =
  b_base :: version_ref
  b_levels :: "LevelState list"

definition Builder_new :: "version_ref \<Rightarrow> VersionSet \<Rightarrow> Builder \<times> VersionSet" where
  "Builder_new base vs =
     (\<lparr>b_base = base, b_levels = replicate kNumLevels \<lparr>ls_deleted_files = {}, ls_added_files = []\<rparr>\<rparr>, Version_Ref base vs)"

definition update_level :: "nat \<Rightarrow> (LevelState \<Rightarrow> LevelState) \<Rightarrow> Builder \<Rightarrow> Builder" where
  "update_level level g b = b\<lparr>b_levels := (b_levels b)[level := g (b_levels b ! level)]\<rparr>"

text \<open>The number of seeks before a file is compacted; the conversion to \<open>int\<close> keeps 32 bits.\<close>

definition allowed_seeks :: "u64 \<Rightarrow> int" where
  "allowed_seeks file_size =
     (let n = sint (ucast (file_size div 16384) :: 32 word) in if n < 100 then 100 else n)"

definition apply_new_file :: "nat \<times> FileMetaData \<Rightarrow> Builder \<times> VersionSet \<Rightarrow> Builder \<times> VersionSet" where
  "apply_new_file p bv =
     (let (level, m) = p; (b, vs) = bv;
          f = vs_next_ref vs;
          m = m\<lparr>fm_refs := 1, fm_allowed_seeks := allowed_seeks (fm_file_size m)\<rparr>;
          vs = vs\<lparr>vs_files := (vs_files vs)(f := m), vs_next_ref := f + 1\<rparr>
      in (update_level level (\<lambda>l. l\<lparr>ls_deleted_files := ls_deleted_files l - {fm_number m},
                                   ls_added_files := file_set_insert (vs_ucmp vs) (vs_files vs) f (ls_added_files l)\<rparr>) b, vs))"

definition Builder_Apply :: "VersionEdit \<Rightarrow> Builder \<times> VersionSet \<Rightarrow> Builder \<times> VersionSet" where
  "Builder_Apply edit bv =
     (let (b, vs) = bv;
          vs = vs\<lparr>vs_compact_pointer := fold (\<lambda>(level, key) cp. cp[level := key]) (ve_compact_pointers edit) (vs_compact_pointer vs)\<rparr>;
          b = fold (\<lambda>(level, num). update_level level (\<lambda>l. l\<lparr>ls_deleted_files := insert num (ls_deleted_files l)\<rparr>)) (ve_deleted_files edit) b
      in fold apply_new_file (ve_new_files edit) (b, vs))"

text \<open>
  The order in which \<open>SaveTo\<close> offers the files of a level to \<open>MaybeAddFile\<close>: before each added file, the files of the base
  that \<open>std::upper_bound\<close> puts before it.
\<close>

fun save_order :: "Comparator \<Rightarrow> file_store \<Rightarrow> file_ref list \<Rightarrow> file_ref list \<Rightarrow> file_ref list" where
  "save_order ucmp fs [] base = base"
| "save_order ucmp fs (a # added) base =
     takeWhile (\<lambda>g. \<not> BySmallestKey ucmp (fs a) (fs g)) base @ a #
     save_order ucmp fs added (dropWhile (\<lambda>g. \<not> BySmallestKey ucmp (fs a) (fs g)) base)"

definition MaybeAddFile :: "u64 set \<Rightarrow> file_ref \<Rightarrow> file_ref list \<times> file_store \<Rightarrow> file_ref list \<times> file_store" where
  "MaybeAddFile deleted f st =
     (let (files, fs) = st
      in if fm_number (fs f) \<in> deleted then (files, fs) else (files @ [f], add_file_ref 1 f fs))"

definition save_level :: "Comparator \<Rightarrow> Version \<Rightarrow> Builder \<Rightarrow> nat \<Rightarrow> file_ref list list \<times> file_store \<Rightarrow> file_ref list list \<times> file_store" where
  "save_level ucmp base b level st =
     (let (levels, fs) = st;
          l = b_levels b ! level;
          (files, fs) = fold (MaybeAddFile (ls_deleted_files l))
            (save_order ucmp fs (ls_added_files l) (v_files base ! level)) (levels ! level, fs)
      in (levels[level := files], fs))"

definition Builder_SaveTo :: "Builder \<Rightarrow> version_ref \<Rightarrow> VersionSet \<Rightarrow> VersionSet" where
  "Builder_SaveTo b r vs =
     (let v = vs_version vs r;
          (levels, fs) = fold (save_level (vs_ucmp vs) (vs_version vs (b_base b)) b) [0..<kNumLevels] (v_files v, vs_files vs)
      in vs\<lparr>vs_version := (vs_version vs)(r := v\<lparr>v_files := levels\<rparr>), vs_files := fs\<rparr>)"

definition Builder_delete :: "Builder \<Rightarrow> VersionSet \<Rightarrow> VersionSet" where
  "Builder_delete b vs =
     Version_Unref (b_base b) (vs\<lparr>vs_files := fold (add_file_ref (-1)) (concat (map ls_added_files (b_levels b))) (vs_files vs)\<rparr>)"

section \<open>The level to compact\<close>

definition level_score :: "file_store \<Rightarrow> Version \<Rightarrow> nat \<Rightarrow> real" where
  "level_score fs v level =
     (if level = 0 then real (length (v_files v ! level)) / real kL0_CompactionTrigger
      else real (unat (TotalFileSize fs (v_files v ! level))) / MaxBytesForLevel level)"

definition Finalize :: "file_store \<Rightarrow> Version \<Rightarrow> Version" where
  "Finalize fs v =
     (let (best_level, best_score) = fold (\<lambda>level (best_level, best_score).
            let score = level_score fs v level
            in if score > best_score then (int level, score) else (best_level, best_score)) [0..<kNumLevels - 1] (-1, -1)
      in v\<lparr>v_compaction_level := best_level, v_compaction_score := best_score\<rparr>)"

definition finalize_version :: "version_ref \<Rightarrow> VersionSet \<Rightarrow> VersionSet" where
  "finalize_version r vs = vs\<lparr>vs_version := (vs_version vs)(r := Finalize (vs_files vs) (vs_version vs r))\<rparr>"

definition NeedsCompaction :: "Version \<Rightarrow> bool" where
  "NeedsCompaction v \<longleftrightarrow> v_compaction_score v \<ge> 1 \<or> v_file_to_compact v \<noteq> None"

section \<open>File numbers and statistics\<close>

definition NewFileNumber :: "VersionSet \<Rightarrow> u64 \<times> VersionSet" where
  "NewFileNumber vs = (vs_next_file_number vs, vs\<lparr>vs_next_file_number := vs_next_file_number vs + 1\<rparr>)"

definition ReuseFileNumber :: "u64 \<Rightarrow> VersionSet \<Rightarrow> VersionSet" where
  "ReuseFileNumber num vs = (if vs_next_file_number vs = num + 1 then vs\<lparr>vs_next_file_number := num\<rparr> else vs)"

definition MarkFileNumberUsed :: "u64 \<Rightarrow> VersionSet \<Rightarrow> VersionSet" where
  "MarkFileNumberUsed num vs = (if vs_next_file_number vs \<le> num then vs\<lparr>vs_next_file_number := num + 1\<rparr> else vs)"

definition NumLevelFiles :: "nat \<Rightarrow> VersionSet \<Rightarrow> nat" where
  "NumLevelFiles level vs = length (v_files (current_version vs) ! level)"

definition NumLevelBytes :: "nat \<Rightarrow> VersionSet \<Rightarrow> u64" where
  "NumLevelBytes level vs = TotalFileSize (vs_files vs) (v_files (current_version vs) ! level)"

definition LevelSummary :: "VersionSet \<Rightarrow> string" where
  "LevelSummary vs =
     take 99 (''files[ '' @ concat (map (\<lambda>level. decimal (NumLevelFiles level vs) @ '' '') [0..<kNumLevels]) @ '']'')"

definition AddLiveFiles :: "VersionSet \<Rightarrow> u64 set \<Rightarrow> u64 set" where
  "AddLiveFiles vs live =
     fold (\<lambda>r live. fold (\<lambda>level live. fold (\<lambda>f. insert (fm_number (vs_files vs f))) (v_files (vs_version vs r) ! level) live)
       [0..<kNumLevels] live) (vs_live vs) live"

definition MaxNextLevelOverlappingBytes :: "VersionSet \<Rightarrow> u64 option" where
  "MaxNextLevelOverlappingBytes vs =
     fold (\<lambda>level result. fold (\<lambda>f result. do {
         result \<leftarrow> result;
         overlaps \<leftarrow> GetOverlappingInputs (vs_ucmp vs) (vs_files vs) (current_version vs) (level + 1)
           (Some (fm_smallest (vs_files vs f))) (Some (fm_largest (vs_files vs f)));
         let total = TotalFileSize (vs_files vs) overlaps;
         Some (if sint total > sint result then total else result)
       }) (v_files (current_version vs) ! level) result) [1..<kNumLevels - 1] (Some 0)"

text \<open>
  The offset in a table is a parameter: number, size, level and key to \<open>Table::ApproximateOffsetOf\<close>, or \<open>None\<close> when
  the table does not open.
\<close>

fun offset_in_level :: "(u64 \<Rightarrow> u64 \<Rightarrow> nat \<Rightarrow> bytes \<Rightarrow> u64 option) \<Rightarrow> Comparator \<Rightarrow> file_store \<Rightarrow> bytes \<Rightarrow> nat \<Rightarrow> file_ref list \<Rightarrow> u64 \<Rightarrow> u64" where
  "offset_in_level table_offset ucmp fs ikey level [] result = result"
| "offset_in_level table_offset ucmp fs ikey level (f # files) result =
     (let m = fs f
      in if Compare (InternalKeyComparator ucmp) (fm_largest m) ikey \<le> 0
         then offset_in_level table_offset ucmp fs ikey level files (result + fm_file_size m)
         else if Compare (InternalKeyComparator ucmp) (fm_smallest m) ikey > 0
         then if level > 0 then result else offset_in_level table_offset ucmp fs ikey level files result
         else
           offset_in_level table_offset ucmp fs ikey level files
             (case table_offset (fm_number m) (fm_file_size m) level ikey of None \<Rightarrow> result | Some n \<Rightarrow> result + n))"

definition VersionSet_ApproximateOffsetOf :: "(u64 \<Rightarrow> u64 \<Rightarrow> nat \<Rightarrow> bytes \<Rightarrow> u64 option) \<Rightarrow> bytes \<Rightarrow> Version \<Rightarrow> VersionSet \<Rightarrow> u64" where
  "VersionSet_ApproximateOffsetOf table_offset ikey v vs =
     fold (\<lambda>level. offset_in_level table_offset (vs_ucmp vs) (vs_files vs) ikey level (v_files v ! level)) [0..<kNumLevels] 0"

section \<open>Writing the manifest\<close>

text \<open>
  An open file of the environment as a \<open>WritableFile\<close>; the state is the environment. The handle is
  open as long as the file is used, so that its file is there.
\<close>

definition env_writable :: "addr \<Rightarrow> InMemoryEnv WritableFile" where
  "env_writable a =
     \<lparr>wf_Append = (\<lambda>data env. case handle_append a data env of Some r \<Rightarrow> r | None \<Rightarrow> (OK, env)), wf_Flush = (\<lambda>env. (OK, env))\<rparr>"

text \<open>\<open>AddRecord\<close> on the descriptor: a handle and the offset in the current block.\<close>

definition descriptor_AddRecord :: "bytes \<Rightarrow> addr \<times> nat \<Rightarrow> InMemoryEnv \<Rightarrow> Status \<times> nat \<times> InMemoryEnv" where
  "descriptor_AddRecord data d env =
     (let (s, w) = AddRecord (env_writable (fst d)) data \<lparr>lw_dest = env, lw_block_offset = snd d, lw_type_crc = InitTypeCrc\<rparr>
      in (s, lw_block_offset w, lw_dest w))"

definition snapshot_edit :: "VersionSet \<Rightarrow> VersionEdit" where
  "snapshot_edit vs =
     (let edit = SetComparatorName (vs_cmp_name vs) VersionEdit_Clear;
          edit = fold (\<lambda>level edit. if vs_compact_pointer vs ! level \<noteq> [] then SetCompactPointer level (vs_compact_pointer vs ! level) edit else edit)
            [0..<kNumLevels] edit
      in fold (\<lambda>level. fold (\<lambda>f. let m = vs_files vs f in AddFile level (fm_number m) (fm_file_size m) (fm_smallest m) (fm_largest m))
           (v_files (current_version vs) ! level)) [0..<kNumLevels] edit)"

definition WriteSnapshot :: "VersionSet \<Rightarrow> addr \<times> nat \<Rightarrow> InMemoryEnv \<Rightarrow> Status \<times> nat \<times> InMemoryEnv" where
  "WriteSnapshot vs d env = descriptor_AddRecord (EncodeTo (snapshot_edit vs) []) d env"

text \<open>The fields that \<open>LogAndApply\<close> fills in.\<close>

definition complete_edit :: "VersionSet \<Rightarrow> VersionEdit \<Rightarrow> VersionEdit" where
  "complete_edit vs edit =
     (let edit = (if ve_has_log_number edit then edit else SetLogNumber (vs_log_number vs) edit);
          edit = (if ve_has_prev_log_number edit then edit else SetPrevLogNumber (vs_prev_log_number vs) edit)
      in SetLastSequence (vs_last_sequence vs) (SetNextFile (vs_next_file_number vs) edit))"

text \<open>The new version that an edit makes of the current one.\<close>

definition build_version :: "VersionEdit \<Rightarrow> VersionSet \<Rightarrow> version_ref \<times> VersionSet" where
  "build_version edit vs =
     (let (r, vs) = new_version vs;
          (b, vs) = Builder_Apply edit (Builder_new (the (vs_current vs)) vs);
          vs = Builder_delete b (Builder_SaveTo b r vs)
      in (r, finalize_version r vs))"

text \<open>A new manifest with a snapshot, if none is open; the name of the file is empty if none is made.\<close>

definition open_manifest :: "VersionSet \<Rightarrow> InMemoryEnv \<Rightarrow> (string \<times> Status \<times> VersionSet \<times> InMemoryEnv) option" where
  "open_manifest vs env =
     (case vs_descriptor vs of
        Some d \<Rightarrow> Some ([], OK, vs, env)
      | None \<Rightarrow> do {
          let fname = DescriptorFileName (vs_dbname vs) (vs_manifest_file_number vs);
          (s, p, env) \<leftarrow> NewWritableFile fname env;
          if ok s then do {
            a \<leftarrow> p;
            let (s, offset, env) = WriteSnapshot vs (a, 0) env;
            Some (fname, s, vs\<lparr>vs_descriptor := Some (a, offset)\<rparr>, env)
          }
          else Some (fname, s, vs, env)
        })"

definition log_edit :: "VersionEdit \<Rightarrow> VersionSet \<Rightarrow> InMemoryEnv \<Rightarrow> Status \<times> VersionSet \<times> InMemoryEnv" where
  "log_edit edit vs env =
     (let (a, offset) = the (vs_descriptor vs);
          (s, offset, env) = descriptor_AddRecord (EncodeTo edit []) (a, offset) env
      in (s, vs\<lparr>vs_descriptor := Some (a, offset)\<rparr>, env))"

text \<open>\<open>Sync\<close> of the in-memory file returns \<open>OK\<close>. The manifest is given up if it was new and could not be written.\<close>

definition LogAndApply :: "VersionEdit \<Rightarrow> VersionSet \<Rightarrow> InMemoryEnv \<Rightarrow> (Status \<times> VersionEdit \<times> VersionSet \<times> InMemoryEnv) option" where
  "LogAndApply edit vs env = do {
     let edit = complete_edit vs edit;
     let (r, vs) = build_version edit vs;
     (new_manifest_file, s, vs, env) \<leftarrow> open_manifest vs env;
     let (s, vs, env) = (if ok s then log_edit edit vs env else (s, vs, env));
     (s, env) \<leftarrow> (if ok s \<and> new_manifest_file \<noteq> [] then SetCurrentFile (vs_dbname vs) (vs_manifest_file_number vs) env
                 else Some (s, env));
     if ok s then
       Some (s, edit, (AppendVersion r vs)\<lparr>vs_log_number := ve_log_number edit, vs_prev_log_number := ve_prev_log_number edit\<rparr>, env)
     else do {
       let vs = delete_version r vs;
       if new_manifest_file \<noteq> [] then do {
         env \<leftarrow> (case vs_descriptor vs of None \<Rightarrow> Some env | Some (a, offset) \<Rightarrow> handle_close a env);
         (_, env) \<leftarrow> RemoveFile new_manifest_file env;
         Some (s, edit, vs\<lparr>vs_descriptor := None\<rparr>, env)
       }
       else Some (s, edit, vs, env)
     }
   }"

section \<open>Recovering from the manifest\<close>

definition ReadFileToString :: "string \<Rightarrow> InMemoryEnv \<Rightarrow> (Status \<times> bytes \<times> InMemoryEnv) option" where
  "ReadFileToString fname env = do {
     (s, p, env) \<leftarrow> NewSequentialFile fname env;
     if \<not> ok s then Some (s, [], env)
     else do {
       a \<leftarrow> p;
       f \<leftarrow> me_heap env a;
       (s, data) \<leftarrow> read_fragments SequentialFileImpl [] \<lparr>sh_file = f, sh_pos = 0\<rparr>;
       env \<leftarrow> handle_close a env;
       Some (s, data, env)
     }
   }"

record RecoverState =
  rc_s :: Status
  rc_have_log_number :: bool
  rc_have_prev_log_number :: bool
  rc_have_next_file :: bool
  rc_have_last_sequence :: bool
  rc_next_file :: u64
  rc_last_sequence :: u64
  rc_log_number :: u64
  rc_prev_log_number :: u64
  rc_builder :: Builder
  rc_vs :: VersionSet
  rc_read_records :: nat

text \<open>The numbers that an edit has.\<close>

definition recover_numbers :: "VersionEdit \<Rightarrow> RecoverState \<Rightarrow> RecoverState" where
  "recover_numbers edit st =
     (let st = (if ve_has_log_number edit then st\<lparr>rc_log_number := ve_log_number edit, rc_have_log_number := True\<rparr> else st);
          st = (if ve_has_prev_log_number edit
                then st\<lparr>rc_prev_log_number := ve_prev_log_number edit, rc_have_prev_log_number := True\<rparr> else st);
          st = (if ve_has_next_file_number edit then st\<lparr>rc_next_file := ve_next_file_number edit, rc_have_next_file := True\<rparr> else st)
      in if ve_has_last_sequence edit then st\<lparr>rc_last_sequence := ve_last_sequence edit, rc_have_last_sequence := True\<rparr> else st)"

definition recover_record :: "bytes \<Rightarrow> RecoverState \<Rightarrow> RecoverState" where
  "recover_record data st =
     (let st = st\<lparr>rc_read_records := rc_read_records st + 1\<rparr>;
          (s, edit) = DecodeFrom data;
          s = (if ok s \<and> ve_has_comparator edit \<and> ve_comparator edit \<noteq> vs_cmp_name (rc_vs st)
               then InvalidArgument (text_of (ve_comparator edit) @ '' does not match existing comparator '') (text_of (vs_cmp_name (rc_vs st)))
               else s);
          (b, vs) = (if ok s then Builder_Apply edit (rc_builder st, rc_vs st) else (rc_builder st, rc_vs st))
      in recover_numbers edit (st\<lparr>rc_s := s, rc_builder := b, rc_vs := vs\<rparr>))"

text \<open>What the reporter makes of the status when the reader drops bytes: the first error stays.\<close>

definition reported :: "(u64 \<times> Status) list \<Rightarrow> Status \<Rightarrow> Status" where
  "reported drops s = fold (\<lambda>(bytes, reason) s. if ok s then reason else s) drops s"

partial_function (option) recover_loop :: "SequentialHandle Reader \<Rightarrow> RecoverState \<Rightarrow> RecoverState option" where
  "recover_loop reader st =
     (case ReadRecord SequentialFileImpl reader of
        None \<Rightarrow> None
      | Some (rec, reader') \<Rightarrow>
          let st = st\<lparr>rc_s := reported (drop (length (lr_drops reader)) (lr_drops reader')) (rc_s st)\<rparr>
          in case rec of
               None \<Rightarrow> Some st
             | Some data \<Rightarrow> if ok (rc_s st) then recover_loop reader' (recover_record data st) else Some st)"

definition ReuseManifest :: "string \<Rightarrow> string \<Rightarrow> VersionSet \<Rightarrow> InMemoryEnv \<Rightarrow> (bool \<times> VersionSet \<times> InMemoryEnv) option" where
  "ReuseManifest dscname dscbase vs env =
     (if \<not> vs_reuse_logs vs then Some (False, vs, env)
      else
        case ParseFileName dscbase of
          None \<Rightarrow> Some (False, vs, env)
        | Some (manifest_number, manifest_type) \<Rightarrow>
            if manifest_type \<noteq> kDescriptorFile then Some (False, vs, env)
            else do {
              (s, manifest_size) \<leftarrow> GetFileSize dscname env;
              if \<not> ok s \<or> of_nat manifest_size \<ge> TargetFileSize (vs_max_file_size vs) then Some (False, vs, env)
              else do {
                (r, p, env) \<leftarrow> NewAppendableFile dscname env;
                if \<not> ok r then Some (False, vs, env)
                else do {
                  a \<leftarrow> p;
                  Some (True, vs\<lparr>vs_descriptor := Some (a, manifest_size mod kBlockSize), vs_manifest_file_number := manifest_number\<rparr>, env)
                }
              }
            })"

text \<open>The checks after the last record, and the recovered version.\<close>

definition recovered_status :: "RecoverState \<Rightarrow> Status" where
  "recovered_status st =
     (if \<not> rc_have_next_file st then Corruption ''no meta-nextfile entry in descriptor'' []
      else if \<not> rc_have_log_number st then Corruption ''no meta-lognumber entry in descriptor'' []
      else if \<not> rc_have_last_sequence st then Corruption ''no last-sequence-number entry in descriptor'' []
      else OK)"

definition recover_install :: "RecoverState \<Rightarrow> Status \<times> RecoverState" where
  "recover_install st =
     (let s = (if ok (rc_s st) then recovered_status st else rc_s st);
          st = (if ok (rc_s st) then
                  let st = (if rc_have_prev_log_number st then st else st\<lparr>rc_prev_log_number := 0\<rparr>)
                  in st\<lparr>rc_vs := MarkFileNumberUsed (rc_log_number st) (MarkFileNumberUsed (rc_prev_log_number st) (rc_vs st))\<rparr>
                else st)
      in if ok s then
           let (r, vs) = new_version (rc_vs st);
               vs = AppendVersion r (finalize_version r (Builder_SaveTo (rc_builder st) r vs));
               vs = vs\<lparr>vs_manifest_file_number := rc_next_file st, vs_next_file_number := rc_next_file st + 1,
                       vs_last_sequence := rc_last_sequence st, vs_log_number := rc_log_number st,
                       vs_prev_log_number := rc_prev_log_number st\<rparr>
           in (s, st\<lparr>rc_vs := vs\<rparr>)
         else (s, st))"

text \<open>\<open>Recover\<close>: the status, whether a new manifest has to be saved, and the state.\<close>

definition Recover :: "VersionSet \<Rightarrow> InMemoryEnv \<Rightarrow> (Status \<times> bool \<times> VersionSet \<times> InMemoryEnv) option" where
  "Recover vs env = do {
     (s, current, env) \<leftarrow> ReadFileToString (CurrentFileName (vs_dbname vs)) env;
     if \<not> ok s then Some (s, False, vs, env)
     else if current = [] \<or> last current \<noteq> 10 then Some (Corruption ''CURRENT file does not end with newline'' [], False, vs, env)
     else do {
       let dscbase = text_of (butlast current);
       let dscname = vs_dbname vs @ ''/'' @ dscbase;
       (s, p, env) \<leftarrow> NewSequentialFile dscname env;
       if \<not> ok s then
         Some (if status_code s = kNotFound then Corruption ''CURRENT points to a non-existent file'' (Status_ToString s) else s, False, vs, env)
       else do {
         a \<leftarrow> p;
         f \<leftarrow> me_heap env a;
         let (b, vs) = Builder_new (the (vs_current vs)) vs;
         st \<leftarrow> recover_loop (Reader_new \<lparr>sh_file = f, sh_pos = 0\<rparr> True True 0)
           \<lparr>rc_s = OK, rc_have_log_number = False, rc_have_prev_log_number = False, rc_have_next_file = False,
            rc_have_last_sequence = False, rc_next_file = 0, rc_last_sequence = 0, rc_log_number = 0, rc_prev_log_number = 0,
            rc_builder = b, rc_vs = vs, rc_read_records = 0\<rparr>;
         env \<leftarrow> handle_close a env;
         let (s, st) = recover_install st;
         (save_manifest, vs, env) \<leftarrow> (if ok s then do {
             (reused, vs, env) \<leftarrow> ReuseManifest dscname dscbase (rc_vs st) env;
             Some (\<not> reused, vs, env)
           } else Some (False, rc_vs st, env));
         Some (s, save_manifest, Builder_delete (rc_builder st) vs, env)
       }
     }
   }"

section \<open>Edits as operations on sets of files\<close>

text \<open>The part of the metadata that is logged; the rest are counters.\<close>

type_synonym file_core = "u64 \<times> u64 \<times> bytes \<times> bytes"

definition core :: "FileMetaData \<Rightarrow> file_core" where
  "core m = (fm_number m, fm_file_size m, fm_smallest m, fm_largest m)"

definition core_before :: "Comparator \<Rightarrow> file_core \<Rightarrow> file_core \<Rightarrow> bool" where
  "core_before c x y =
     (case x of (n, _, s, _) \<Rightarrow> case y of (n', _, s', _) \<Rightarrow>
        Compare (InternalKeyComparator c) s s' < 0 \<or> Compare (InternalKeyComparator c) s s' = 0 \<and> n < n')"

text \<open>What an edit means: per level, the deleted numbers go and the new files come.\<close>

definition edit_level :: "VersionEdit \<Rightarrow> nat \<Rightarrow> file_core set \<Rightarrow> file_core set" where
  "edit_level e level A =
     {x \<in> A. (level, fst x) \<notin> set (ve_deleted_files e)} \<union> {core m |m. (level, m) \<in> set (ve_new_files e)}"

definition version_core :: "file_store \<Rightarrow> Version \<Rightarrow> nat \<Rightarrow> file_core list" where
  "version_core fs v level = map (\<lambda>f. core (fs f)) (v_files v ! level)"

lemma BySmallestKey_core: "BySmallestKey c m m' \<longleftrightarrow> core_before c (core m) (core m')"
  by (auto simp: BySmallestKey_def core_before_def core_def Let_def)

text \<open>A number determines the file.\<close>

definition consistent :: "(u64 \<Rightarrow> u64 \<times> bytes \<times> bytes) \<Rightarrow> file_core \<Rightarrow> bool" where
  "consistent info x \<longleftrightarrow> snd x = info (fst x)"

lemma fst_core [simp]: "fst (core m) = fm_number m"
  by (simp add: core_def)

lemma consistent_eq: "consistent info x \<Longrightarrow> consistent info y \<Longrightarrow> fst x = fst y \<Longrightarrow> x = y"
  by (simp add: consistent_def prod_eq_iff)

text \<open>The builder: the files it has for a level, and what it stands for over its base.\<close>

abbreviation added_at :: "Builder \<Rightarrow> nat \<Rightarrow> file_ref list" where
  "added_at b level \<equiv> ls_added_files (b_levels b ! level)"

abbreviation deleted_at :: "Builder \<Rightarrow> nat \<Rightarrow> u64 set" where
  "deleted_at b level \<equiv> ls_deleted_files (b_levels b ! level)"

definition cores :: "file_store \<Rightarrow> file_ref list \<Rightarrow> file_core set" where
  "cores fs files = (\<lambda>f. core (fs f)) ` set files"

definition builder_level :: "file_store \<Rightarrow> Builder \<Rightarrow> Version \<Rightarrow> nat \<Rightarrow> file_core set" where
  "builder_level fs b base level = {x \<in> cores fs (added_at b level) \<union> cores fs (v_files base ! level). fst x \<notin> deleted_at b level}"

definition builder_ok :: "Comparator \<Rightarrow> (u64 \<Rightarrow> u64 \<times> bytes \<times> bytes) \<Rightarrow> file_store \<Rightarrow> file_ref \<Rightarrow> Builder \<Rightarrow> bool" where
  "builder_ok c info fs n b \<longleftrightarrow> length (b_levels b) = kNumLevels \<and>
     (\<forall>level<kNumLevels. sorted_wrt (\<lambda>f g. core_before c (core (fs f)) (core (fs g))) (added_at b level) \<and>
        (\<forall>f\<in>set (added_at b level). f < n \<and> consistent info (core (fs f))))"

text \<open>More files in the store, and nothing else but the compaction pointers changed.\<close>

definition store_extends :: "VersionSet \<Rightarrow> VersionSet \<Rightarrow> bool" where
  "store_extends vs vs' \<longleftrightarrow> (\<exists>fs n cp. vs' = vs\<lparr>vs_files := fs, vs_next_ref := n, vs_compact_pointer := cp\<rparr>) \<and>
     vs_next_ref vs \<le> vs_next_ref vs' \<and> (\<forall>f<vs_next_ref vs. vs_files vs' f = vs_files vs f)"

lemma store_extends_refl: "store_extends vs vs"
  unfolding store_extends_def by (intro conjI exI [of _ "vs_files vs"] exI [of _ "vs_next_ref vs"] exI [of _ "vs_compact_pointer vs"]) simp_all

lemma store_extends_trans: "store_extends vs vs1 \<Longrightarrow> store_extends vs1 vs2 \<Longrightarrow> store_extends vs vs2"
  unfolding store_extends_def by (elim conjE exE, intro conjI exI) auto

lemma store_extends_simps:
  assumes "store_extends vs vs'"
  shows "vs_dbname vs' = vs_dbname vs" "vs_ucmp vs' = vs_ucmp vs" "vs_cmp_name vs' = vs_cmp_name vs" "vs_max_file_size vs' = vs_max_file_size vs"
    "vs_reuse_logs vs' = vs_reuse_logs vs" "vs_next_file_number vs' = vs_next_file_number vs"
    "vs_manifest_file_number vs' = vs_manifest_file_number vs" "vs_last_sequence vs' = vs_last_sequence vs"
    "vs_log_number vs' = vs_log_number vs" "vs_prev_log_number vs' = vs_prev_log_number vs" "vs_descriptor vs' = vs_descriptor vs"
    "vs_version vs' = vs_version vs" "vs_next_version vs' = vs_next_version vs" "vs_live vs' = vs_live vs" "vs_current vs' = vs_current vs"
  using assms by (auto simp: store_extends_def)

text \<open>The files of a builder after new ones: \<open>news level\<close> have been added, and their numbers are not deleted any more.\<close>

definition files_added :: "(nat \<Rightarrow> FileMetaData set) \<Rightarrow> Builder \<times> VersionSet \<Rightarrow> Builder \<times> VersionSet \<Rightarrow> bool" where
  "files_added news bv bv' \<longleftrightarrow> b_base (fst bv') = b_base (fst bv) \<and> store_extends (snd bv) (snd bv') \<and>
     vs_compact_pointer (snd bv') = vs_compact_pointer (snd bv) \<and>
     (\<forall>l<kNumLevels. cores (vs_files (snd bv')) (added_at (fst bv') l) = cores (vs_files (snd bv)) (added_at (fst bv) l) \<union> core ` news l \<and>
        deleted_at (fst bv') l = deleted_at (fst bv) l - fm_number ` news l)"

lemma files_added_trans: "files_added n1 bv bv1 \<Longrightarrow> files_added n2 bv1 bv2 \<Longrightarrow> files_added (\<lambda>l. n1 l \<union> n2 l) bv bv2"
  unfolding files_added_def using store_extends_trans by (auto simp: image_Un)

lemma core_update [simp]: "core (m\<lparr>fm_refs := x\<rparr>) = core m" "core (m\<lparr>fm_allowed_seeks := y\<rparr>) = core m"
  by (simp_all add: core_def)

lemma update_level_at:
  assumes "level < length (b_levels b)" "l < length (b_levels b)"
  shows "b_levels (update_level level g b) ! l = (if l = level then g (b_levels b ! l) else b_levels b ! l)"
    "length (b_levels (update_level level g b)) = length (b_levels b)"
    "b_base (update_level level g b) = b_base b"
  using assms by (auto simp: update_level_def)

lemma delete_files:
  "\<forall>(level, num)\<in>set ds. level < length (b_levels b) \<Longrightarrow>
   b' = fold (\<lambda>(level, num). update_level level (\<lambda>l. l\<lparr>ls_deleted_files := insert num (ls_deleted_files l)\<rparr>)) ds b \<Longrightarrow>
   length (b_levels b') = length (b_levels b) \<and> b_base b' = b_base b \<and>
   (\<forall>l<length (b_levels b). added_at b' l = added_at b l \<and> deleted_at b' l = deleted_at b l \<union> {num. (l, num) \<in> set ds})"
proof (induction ds arbitrary: b)
  case (Cons d ds)
  obtain level num where d: "d = (level, num)" by (cases d)
  define b1 where "b1 = update_level level (\<lambda>l. l\<lparr>ls_deleted_files := insert num (ls_deleted_files l)\<rparr>) b"
  have len: "level < length (b_levels b)" using Cons.prems(1) d by simp
  have b1: "length (b_levels b1) = length (b_levels b)" "b_base b1 = b_base b"
    unfolding b1_def using update_level_at(2,3) [OF len len] by simp_all
  have at: "added_at b1 l = added_at b l" "deleted_at b1 l = (if l = level then insert num (deleted_at b l) else deleted_at b l)"
    if "l < length (b_levels b)" for l
    unfolding b1_def using update_level_at(1) [OF len that] by simp_all
  have "b' = fold (\<lambda>(level, num). update_level level (\<lambda>l. l\<lparr>ls_deleted_files := insert num (ls_deleted_files l)\<rparr>)) ds b1"
    using Cons.prems(2) by (simp add: d b1_def)
  from Cons.IH [OF _ this] Cons.prems(1) b1 at show ?case by (auto simp: d)
qed simp

lemma add_file_ref_core [simp]: "core (add_file_ref n f fs g) = core (fs g)"
  by (simp add: add_file_ref_def)

lemma add_file_refs_core: "core (fold (add_file_ref n) files fs g) = core (fs g)"
  by (induction files arbitrary: fs) simp_all

lemma MaybeAddFile_fold:
  "\<exists>fs'. fold (MaybeAddFile D) xs (files, fs) = (files @ filter (\<lambda>f. fm_number (fs f) \<notin> D) xs, fs') \<and> (\<forall>g. core (fs' g) = core (fs g))"
proof (induction xs arbitrary: files fs)
  case (Cons x xs)
  have num: "fm_number (add_file_ref 1 x fs f) = fm_number (fs f)" for f
    using add_file_ref_core [of 1 x fs f] unfolding core_def by simp
  show ?case
    using Cons.IH [of files fs] Cons.IH [of "files @ [x]" "add_file_ref 1 x fs"] by (auto simp: MaybeAddFile_def num)
qed simp

context separating_comparator
begin

lemma core_before_order:
  "\<not> core_before c x x"
  "core_before c x y \<Longrightarrow> core_before c y z \<Longrightarrow> core_before c x z"
  "\<not> core_before c x y \<Longrightarrow> \<not> core_before c y x \<Longrightarrow> fst x = fst y"
proof -
  show "\<not> core_before c x x" by (cases x) (simp add: core_before_def)
  obtain n s n' s' n'' s'' l l' l'' t t' t'' where xyz: "x = (n, l, s, t)" "y = (n', l', s', t')" "z = (n'', l'', s'', t'')"
    by (cases x; cases y; cases z)
  show "core_before c x z" if "core_before c x y" "core_before c y z"
    using that ik.compare_trans [of s s' s''] ik.compare_less_le_trans [of s s' s''] ik.compare_le_less_trans [of s s' s'']
    by (auto simp: core_before_def xyz)
  show "fst x = fst y" if "\<not> core_before c x y" "\<not> core_before c y x"
    using that ik.compare_gt_iff [of s s'] ik.compare_eq_iff [of s s'] by (auto simp: core_before_def xyz not_less)
qed

lemma core_sorted_unique:
  assumes "sorted_wrt (core_before c) xs" "sorted_wrt (core_before c) ys" "set xs = set ys"
  shows "xs = ys"
  using assms
proof (induction xs arbitrary: ys)
  case (Cons x xs)
  then obtain y ys' where y: "ys = y # ys'" by (cases ys) auto
  have "x = y"
  proof (rule ccontr)
    assume "x \<noteq> y"
    then have "x \<in> set ys'" "y \<in> set xs" using Cons.prems(3) y by auto
    then have "core_before c y x" "core_before c x y" using Cons.prems(1,2) y by auto
    then show False using core_before_order(1,2) by blast
  qed
  moreover have "x \<notin> set xs" "y \<notin> set ys'"
    using Cons.prems(1,2) y core_before_order(1) [of x] core_before_order(1) [of y] by auto
  ultimately have "set xs = set ys'" using Cons.prems(3) y by (simp add: insert_ident)
  then show ?case using Cons.IH [of ys'] Cons.prems(1,2) y \<open>x = y\<close> by simp
qed simp

lemma file_set_insert_sorted:
  "sorted_wrt (\<lambda>f g. core_before c (core (fs f)) (core (fs g))) gs \<Longrightarrow>
   sorted_wrt (\<lambda>f g. core_before c (core (fs f)) (core (fs g))) (file_set_insert c fs f gs) \<and>
   set gs \<subseteq> set (file_set_insert c fs f gs) \<and> set (file_set_insert c fs f gs) \<subseteq> insert f (set gs) \<and>
   (\<exists>g\<in>set (file_set_insert c fs f gs). g = f \<or> fm_number (fs g) = fm_number (fs f))"
proof (induction gs)
  case (Cons g gs)
  consider (first) "core_before c (core (fs f)) (core (fs g))" | (later) "core_before c (core (fs g)) (core (fs f))" "\<not> core_before c (core (fs f)) (core (fs g))"
    | (same) "\<not> core_before c (core (fs f)) (core (fs g))" "\<not> core_before c (core (fs g)) (core (fs f))" by blast
  then show ?case
  proof cases
    case first
    then show ?thesis using Cons.prems core_before_order(2) by (simp add: BySmallestKey_core) blast
  next
    case later
    then show ?thesis using Cons by (auto simp: BySmallestKey_core)
  next
    case same
    then have "fst (core (fs f)) = fst (core (fs g))" using core_before_order(3) by blast
    then show ?thesis using Cons.prems same by (auto simp: BySmallestKey_core core_def)
  qed
qed simp

text \<open>\<open>SaveTo\<close> merges two sorted lists without common numbers into a sorted one.\<close>

lemma save_order_set: "set (save_order c fs added base) = set added \<union> set base"
proof (induction c fs added base rule: save_order.induct)
  case (2 c fs a added base)
  have "set base = set (takeWhile (\<lambda>g. \<not> BySmallestKey c (fs a) (fs g)) base) \<union> set (dropWhile (\<lambda>g. \<not> BySmallestKey c (fs a) (fs g)) base)"
    by (metis set_append takeWhile_dropWhile_id)
  then show ?case using 2 by auto
qed simp

lemma save_order_sorted:
  fixes fs
  defines "B \<equiv> \<lambda>f g. core_before c (core (fs f)) (core (fs g))"
  shows "sorted_wrt B added \<Longrightarrow> sorted_wrt B base \<Longrightarrow> \<forall>f\<in>set added. \<forall>g\<in>set base. fm_number (fs f) \<noteq> fm_number (fs g) \<Longrightarrow>
    sorted_wrt B (save_order c fs added base)"
proof (induction added arbitrary: base)
  case (Cons a added)
  let ?P = "\<lambda>g. \<not> BySmallestKey c (fs a) (fs g)"
  have "B g a" if "g \<in> set (takeWhile ?P base)" for g
  proof -
    have "g \<in> set base" "\<not> B a g" using set_takeWhileD [OF that] by (auto simp: BySmallestKey_core B_def)
    then show ?thesis using core_before_order(3) [of "core (fs a)" "core (fs g)"] Cons.prems(3) by (auto simp: B_def core_def)
  qed
  moreover have "B a g" if g: "g \<in> set (dropWhile ?P base)" for g
  proof -
    obtain h hs where h: "dropWhile ?P base = h # hs" using g by (cases "dropWhile ?P base") (simp_all del: dropWhile_eq_Nil_conv)
    then have "B a h" using dropWhile_eq_Cons_conv [of ?P base h hs] by (simp add: BySmallestKey_core B_def)
    moreover have "g = h \<or> B h g" using sorted_wrt_dropWhile [OF Cons.prems(2), of ?P] that h by auto
    ultimately show ?thesis using core_before_order(2) unfolding B_def by metis
  qed
  moreover have "sorted_wrt B (save_order c fs added (dropWhile ?P base))"
    using Cons.prems set_dropWhileD by (intro Cons.IH sorted_wrt_dropWhile) (auto; fastforce)+
  moreover have "sorted_wrt B (takeWhile ?P base)" using Cons.prems(2) by (rule sorted_wrt_takeWhile)
  moreover have "\<forall>g\<in>set added. B a g" using Cons.prems(1) by simp
  moreover have "B x y" if "B x a" "B a y" for x y using that core_before_order(2) unfolding B_def by blast
  ultimately show ?case
    unfolding save_order.simps sorted_wrt_append sorted_wrt.simps list.set Ball_def save_order_set Un_iff insert_iff by blast
qed simp

lemma file_set_insert_cores:
  assumes "sorted_wrt (\<lambda>f g. core_before c (core (fs f)) (core (fs g))) gs" "\<forall>g\<in>insert f (set gs). consistent info (core (fs g))"
  shows "cores fs (file_set_insert c fs f gs) = insert (core (fs f)) (cores fs gs)"
proof
  note ins = file_set_insert_sorted [OF assms(1), of f]
  then show "cores fs (file_set_insert c fs f gs) \<subseteq> insert (core (fs f)) (cores fs gs)" by (auto simp: cores_def)
  obtain g where g: "g \<in> set (file_set_insert c fs f gs)" "g = f \<or> fm_number (fs g) = fm_number (fs f)" using ins by blast
  have "g \<in> insert f (set gs)" "fst (core (fs g)) = fst (core (fs f))" using g ins by (auto simp: core_def)
  then have "core (fs g) = core (fs f)" using assms(2) consistent_eq by blast
  then show "insert (core (fs f)) (cores fs gs) \<subseteq> cores fs (file_set_insert c fs f gs)"
    using ins image_eqI [OF _ g(1), of "core (fs f)" "\<lambda>f. core (fs f)"] unfolding cores_def by auto
qed

lemma apply_new_file_ok:
  assumes b: "builder_ok c info (vs_files vs) (vs_next_ref vs) b" and m: "level < kNumLevels" "consistent info (core m)" "vs_ucmp vs = c"
    and r: "(b', vs') = apply_new_file (level, m) (b, vs)"
  shows "builder_ok c info (vs_files vs') (vs_next_ref vs') b' \<and> files_added (\<lambda>l. if l = level then {m} else {}) (b, vs) (b', vs')"
proof -
  define f where "f = vs_next_ref vs"
  define fs where "fs = (vs_files vs)(f := m\<lparr>fm_refs := 1, fm_allowed_seeks := allowed_seeks (fm_file_size m)\<rparr>)"
  define G where "G = (\<lambda>l :: LevelState. l\<lparr>ls_deleted_files := ls_deleted_files l - {fm_number m}, ls_added_files := file_set_insert c fs f (ls_added_files l)\<rparr>)"
  have r: "b' = update_level level G b" "vs' = vs\<lparr>vs_files := fs, vs_next_ref := f + 1\<rparr>"
    using r m(3) by (simp_all add: apply_new_file_def Let_def f_def fs_def G_def)
  have len: "length (b_levels b) = kNumLevels" using b by (simp add: builder_ok_def)
  have at: "b_levels b' ! l = (if l = level then G (b_levels b ! l) else b_levels b ! l)" if "l < kNumLevels" for l
    unfolding r using update_level_at(1) [of level b l] m(1) that len by simp
  have old: "fs g = vs_files vs g" if "g < f" for g using that by (simp add: fs_def)
  have mem: "g < f \<and> consistent info (core (vs_files vs g))" if "g \<in> set (added_at b l)" "l < kNumLevels" for g l
    using b that by (auto simp: builder_ok_def f_def)
  have new: "core (fs f) = core m" by (simp add: fs_def)
  have sorted: "sorted_wrt (\<lambda>f g. core_before c (core (fs f)) (core (fs g))) (added_at b l)" if "l < kNumLevels" for l
  proof (rule sorted_wrt_mono_rel)
    show "sorted_wrt (\<lambda>f g. core_before c (core (vs_files vs f)) (core (vs_files vs g))) (added_at b l)"
      using b that by (simp add: builder_ok_def)
  qed (use mem [OF _ that] old in auto)
  note ins = file_set_insert_sorted [OF this, of _ f]
  have same: "cores fs (added_at b l) = cores (vs_files vs) (added_at b l)" if "l < kNumLevels" for l
    unfolding cores_def using mem [OF _ that] old by (intro image_cong) auto
  have "cores fs (file_set_insert c fs f (added_at b level)) = insert (core m) (cores (vs_files vs) (added_at b level))"
    unfolding same [OF m(1), symmetric] new [symmetric]
    using sorted [OF m(1)] mem [OF _ m(1)] old m(2) new by (intro file_set_insert_cores [where info = info]) auto
  moreover have "builder_ok c info fs (f + 1) b'"
    unfolding builder_ok_def
  proof (intro conjI allI impI ballI)
    show "length (b_levels b') = kNumLevels" unfolding r using len by (simp add: update_level_def)
    fix l assume l: "l < kNumLevels"
    show "sorted_wrt (\<lambda>f g. core_before c (core (fs f)) (core (fs g))) (added_at b' l)"
      using ins [OF l] sorted [OF l] by (auto simp: at [OF l] G_def)
    fix g assume "g \<in> set (added_at b' l)"
    then have "g = f \<or> g \<in> set (added_at b l)" using ins [OF l] by (auto simp: at [OF l] G_def split: if_splits)
    then show "g < f + 1" "consistent info (core (fs g))" using mem [OF _ l] old new m(2) by force+
  qed
  moreover have "store_extends vs vs'"
    using old unfolding store_extends_def r by (intro conjI exI [of _ fs] exI [of _ "f + 1"] exI [of _ "vs_compact_pointer vs"]) (simp_all add: f_def)
  ultimately show ?thesis
    using at same by (auto simp: files_added_def r(2) G_def) (simp add: r update_level_def)
qed

lemma apply_new_files_ok:
  assumes "builder_ok c info (vs_files vs) (vs_next_ref vs) b" "\<forall>(level, m)\<in>set ns. level < kNumLevels \<and> consistent info (core m)"
    "vs_ucmp vs = c" "(b', vs') = fold apply_new_file ns (b, vs)"
  shows "builder_ok c info (vs_files vs') (vs_next_ref vs') b' \<and> files_added (\<lambda>l. {m. (l, m) \<in> set ns}) (b, vs) (b', vs')"
  using assms
proof (induction ns arbitrary: b vs)
  case Nil
  then show ?case by (simp add: files_added_def store_extends_refl)
next
  case (Cons lm ns)
  obtain level m where lm: "lm = (level, m)" by (cases lm)
  obtain b1 vs1 where s1: "(b1, vs1) = apply_new_file (level, m) (b, vs)" by (cases "apply_new_file (level, m) (b, vs)") auto
  have 1: "builder_ok c info (vs_files vs1) (vs_next_ref vs1) b1" "files_added (\<lambda>l. if l = level then {m} else {}) (b, vs) (b1, vs1)"
    using apply_new_file_ok [OF Cons.prems(1) _ _ Cons.prems(3) s1] Cons.prems(2) lm by auto
  have "(b', vs') = fold apply_new_file ns (b1, vs1)" using Cons.prems(4) s1 lm by simp
  moreover have "vs_ucmp vs1 = c" using 1(2) store_extends_simps(2) [of vs vs1] Cons.prems(3) by (simp add: files_added_def)
  ultimately have 2: "builder_ok c info (vs_files vs') (vs_next_ref vs') b'" "files_added (\<lambda>l. {m. (l, m) \<in> set ns}) (b1, vs1) (b', vs')"
    using Cons.IH [OF 1(1)] Cons.prems(2) by auto
  moreover have "(\<lambda>l. {m'. (l, m') \<in> set (lm # ns)}) = (\<lambda>l. (if l = level then {m} else {}) \<union> {m. (l, m) \<in> set ns})"
    by (auto simp: lm fun_eq_iff)
  ultimately show ?case using files_added_trans [OF 1(2) 2(2)] by simp
qed

text \<open>What an edit does to the files of a builder: the refinement of \<open>edit_level\<close>.\<close>

lemma Builder_Apply_ok:
  assumes b: "builder_ok c info (vs_files vs) (vs_next_ref vs) b" and c: "vs_ucmp vs = c"
    and e: "\<forall>(level, m)\<in>set (ve_new_files e). level < kNumLevels \<and> consistent info (core m)"
      "\<forall>(level, num)\<in>set (ve_deleted_files e). level < kNumLevels"
    and r: "(b', vs') = Builder_Apply e (b, vs)"
  shows "builder_ok c info (vs_files vs') (vs_next_ref vs') b' \<and> b_base b' = b_base b \<and> store_extends vs vs' \<and>
    vs_compact_pointer vs' = fold (\<lambda>(level, key) cp. cp[level := key]) (ve_compact_pointers e) (vs_compact_pointer vs) \<and>
    (\<forall>l<kNumLevels. cores (vs_files vs') (added_at b' l) = cores (vs_files vs) (added_at b l) \<union> core ` {m. (l, m) \<in> set (ve_new_files e)} \<and>
       deleted_at b' l = (deleted_at b l \<union> {num. (l, num) \<in> set (ve_deleted_files e)}) - fm_number ` {m. (l, m) \<in> set (ve_new_files e)})"
proof -
  define vs1 where "vs1 = vs\<lparr>vs_compact_pointer := fold (\<lambda>(level, key) cp. cp[level := key]) (ve_compact_pointers e) (vs_compact_pointer vs)\<rparr>"
  define b1 where "b1 = fold (\<lambda>(level, num). update_level level (\<lambda>l. l\<lparr>ls_deleted_files := insert num (ls_deleted_files l)\<rparr>)) (ve_deleted_files e) b"
  have ext: "store_extends vs vs1"
    unfolding store_extends_def vs1_def by (intro conjI exI [of _ "vs_files vs"] exI [of _ "vs_next_ref vs"] exI) simp_all
  have len: "length (b_levels b) = kNumLevels" using b by (simp add: builder_ok_def)
  have b1: "length (b_levels b1) = kNumLevels" "b_base b1 = b_base b"
    "\<And>l. l < kNumLevels \<Longrightarrow> added_at b1 l = added_at b l \<and> deleted_at b1 l = deleted_at b l \<union> {num. (l, num) \<in> set (ve_deleted_files e)}"
    using delete_files [OF _ b1_def] e(2) len by auto
  have "builder_ok c info (vs_files vs1) (vs_next_ref vs1) b1" using b b1 by (simp add: builder_ok_def vs1_def)
  moreover have "(b', vs') = fold apply_new_file (ve_new_files e) (b1, vs1)" using r by (simp add: Builder_Apply_def Let_def b1_def vs1_def)
  moreover have "vs_ucmp vs1 = c" using c by (simp add: vs1_def)
  ultimately have 2: "builder_ok c info (vs_files vs') (vs_next_ref vs') b'" "files_added (\<lambda>l. {m. (l, m) \<in> set (ve_new_files e)}) (b1, vs1) (b', vs')"
    using apply_new_files_ok [of info vs1 b1 "ve_new_files e" b' vs'] e(1) by blast+
  then show ?thesis using 2 b1 store_extends_trans [OF ext] by (simp add: files_added_def) (simp add: vs1_def)
qed

lemma edit_level_builder:
  assumes b: "builder_ok c info (vs_files vs) (vs_next_ref vs) b" and c: "vs_ucmp vs = c"
    and e: "\<forall>(level, m)\<in>set (ve_new_files e). level < kNumLevels \<and> consistent info (core m)"
      "\<forall>(level, num)\<in>set (ve_deleted_files e). level < kNumLevels"
    and base: "\<forall>f\<in>set (v_files base ! l). f < vs_next_ref vs"
      "\<forall>m. (l, m) \<in> set (ve_new_files e) \<longrightarrow> fm_number m \<notin> fst ` cores (vs_files vs) (v_files base ! l)"
    and r: "(b', vs') = Builder_Apply e (b, vs)" and l: "l < kNumLevels"
  shows "builder_level (vs_files vs') b' base l = edit_level e l (builder_level (vs_files vs) b base l)"
proof -
  note A = Builder_Apply_ok [OF b c e r]
  from A l have A': "cores (vs_files vs') (added_at b' l) = cores (vs_files vs) (added_at b l) \<union> core ` {m. (l, m) \<in> set (ve_new_files e)}"
    "deleted_at b' l = (deleted_at b l \<union> {num. (l, num) \<in> set (ve_deleted_files e)}) - fm_number ` {m. (l, m) \<in> set (ve_new_files e)}" by blast+
  have base': "cores (vs_files vs') (v_files base ! l) = cores (vs_files vs) (v_files base ! l)"
    unfolding cores_def using base(1) A by (intro image_cong) (auto simp: store_extends_def)
  have cons: "x = core m" if "x \<in> cores (vs_files vs) (added_at b l)" "(l, m) \<in> set (ve_new_files e)" "fst x = fm_number m" for x m
    using that b e(1) l by (intro consistent_eq [of info]) (auto simp: builder_ok_def cores_def)
  have fresh: "fst x \<noteq> fm_number m" if "x \<in> cores (vs_files vs) (v_files base ! l)" "(l, m) \<in> set (ve_new_files e)" for x m
    using that base(2) by (metis image_eqI)
  have "x \<in> builder_level (vs_files vs') b' base l \<longleftrightarrow> x \<in> edit_level e l (builder_level (vs_files vs) b base l)" for x
    using cons [of x] fresh [of x] unfolding builder_level_def edit_level_def base' A'
    by (auto simp: image_iff)
  then show ?thesis by blast
qed

lemma save_order_cong: "(\<And>f. core (fs f) = core (fs' f)) \<Longrightarrow> save_order c fs added base = save_order c fs' added base"
  by (induction added arbitrary: base) (simp_all add: BySmallestKey_core)

text \<open>The files of a level that \<open>SaveTo\<close> stores.\<close>

definition saved_level :: "file_store \<Rightarrow> Version \<Rightarrow> Builder \<Rightarrow> nat \<Rightarrow> file_ref list" where
  "saved_level fs base b level =
     filter (\<lambda>f. fm_number (fs f) \<notin> deleted_at b level) (save_order c fs (added_at b level) (v_files base ! level))"

lemma saved_level_cong: "(\<And>f. core (fs f) = core (fs' f)) \<Longrightarrow> saved_level fs base b level = saved_level fs' base b level"
  using save_order_cong [of fs fs'] unfolding saved_level_def by (intro filter_cong) (auto simp: core_def)

lemma save_levels:
  "n \<le> kNumLevels \<Longrightarrow> \<exists>fs'. fold (save_level c base b) [0..<n] (replicate kNumLevels [], fs) =
     (map (saved_level fs base b) [0..<n] @ replicate (kNumLevels - n) [], fs') \<and> (\<forall>g. core (fs' g) = core (fs g))"
proof (induction n)
  case (Suc n)
  then obtain fs1 where 1: "fold (save_level c base b) [0..<n] (replicate kNumLevels [], fs) =
     (map (saved_level fs base b) [0..<n] @ replicate (kNumLevels - n) [], fs1)" "\<forall>g. core (fs1 g) = core (fs g)" by auto
  from MaybeAddFile_fold [of "deleted_at b n" "save_order c fs1 (added_at b n) (v_files base ! n)" "[]" fs1] obtain fs2 where
    2: "fold (MaybeAddFile (deleted_at b n)) (save_order c fs1 (added_at b n) (v_files base ! n)) ([], fs1) = (saved_level fs1 base b n, fs2)"
    "\<forall>g. core (fs2 g) = core (fs1 g)" by (auto simp: saved_level_def)
  have "replicate (kNumLevels - n) [] = [] # replicate (kNumLevels - Suc n) ([] :: file_ref list)"
    using Suc.prems by (metis Suc_diff_le diff_Suc_Suc replicate_Suc)
  then have "(map (saved_level fs base b) [0..<n] @ replicate (kNumLevels - n) []) ! n = []"
    "(map (saved_level fs base b) [0..<n] @ replicate (kNumLevels - n) [])[n := x] =
      map (saved_level fs base b) [0..<n] @ x # replicate (kNumLevels - Suc n) []" for x
    by (simp_all add: nth_append list_update_append)
  then have "save_level c base b n (map (saved_level fs base b) [0..<n] @ replicate (kNumLevels - n) [], fs1) =
      (map (saved_level fs base b) [0..<n] @ saved_level fs1 base b n # replicate (kNumLevels - Suc n) [], fs2)"
    using 2 by (simp add: save_level_def)
  then show ?case using 1 2(2) saved_level_cong [of fs1 fs] by simp
qed simp

lemma Builder_SaveTo_ok:
  assumes "v_files (vs_version vs r) = replicate kNumLevels []" "vs_ucmp vs = c"
  shows "\<exists>fs. Builder_SaveTo b r vs = vs\<lparr>vs_version := (vs_version vs)(r := (vs_version vs r)\<lparr>v_files :=
      map (saved_level (vs_files vs) (vs_version vs (b_base b)) b) [0..<kNumLevels]\<rparr>), vs_files := fs\<rparr> \<and>
    (\<forall>g. core (fs g) = core (vs_files vs g))"
  using save_levels [of kNumLevels "vs_version vs (b_base b)" b "vs_files vs"] assms by (auto simp: Builder_SaveTo_def)

text \<open>The saved files are sorted, and they are those that the builder stands for.\<close>

lemma saved_level_core:
  assumes "builder_ok c info fs n b" "l < kNumLevels" "sorted_wrt (core_before c) (version_core fs base l)"
    "fst ` cores fs (added_at b l) \<inter> fst ` cores fs (v_files base ! l) = {}"
  shows "sorted_wrt (core_before c) (map (\<lambda>f. core (fs f)) (saved_level fs base b l))"
    "cores fs (saved_level fs base b l) = builder_level fs b base l"
proof -
  have "sorted_wrt (\<lambda>f g. core_before c (core (fs f)) (core (fs g))) (save_order c fs (added_at b l) (v_files base ! l))"
  proof (rule save_order_sorted)
    show "\<forall>f\<in>set (added_at b l). \<forall>g\<in>set (v_files base ! l). fm_number (fs f) \<noteq> fm_number (fs g)"
      using assms(4) unfolding cores_def image_image fst_core by blast
  qed (use assms in \<open>simp_all add: builder_ok_def version_core_def sorted_wrt_map\<close>)
  then show "sorted_wrt (core_before c) (map (\<lambda>f. core (fs f)) (saved_level fs base b l))"
    unfolding saved_level_def sorted_wrt_map by (rule sorted_wrt_filter)
  show "cores fs (saved_level fs base b l) = builder_level fs b base l"
    by (auto simp: cores_def saved_level_def builder_level_def save_order_set image_iff)
qed

end

end
