(* ===== verification/Recovery.thy ===== *)
theory Recovery
  imports Manifest
begin

text \<open>
  \<open>Recover\<close> of \<open>db/version_set.cc\<close>: a new version set that reads \<open>CURRENT\<close> and the manifest has the
  files, numbers and compaction pointers of the version set that logged them, also when the tail of the manifest is lost.
\<close>

section \<open>Reading the records\<close>

context sequential_file
begin

lemma ReadRecord_logged:
  assumes "frames bo True d out bo'" "reader_at file_ok remaining bo (take n (out @ rest)) r"
  shows "n < length out \<Longrightarrow> \<exists>r'. ReadRecord ops r = Some (None, r') \<and> lr_drops r' = lr_drops r"
    "length out \<le> n \<Longrightarrow> \<exists>r'. ReadRecord ops r = Some (Some d, r') \<and> lr_drops r' = lr_drops r \<and>
       reader_at file_ok remaining bo' (take (n - length out) rest) r'"
proof -
  have r0: "lr_initial_offset r = 0" using assms(2) by (simp add: reader_at_def)
  let ?st = "\<lparr>rs_fragment = [], rs_in_fragmented = False, rs_prospective = 0, rs_scratch = [], rs_reader = r\<rparr>"
  show "\<exists>r'. ReadRecord ops r = Some (None, r') \<and> lr_drops r' = lr_drops r" if n: "n < length out"
    using read_frames_truncated [OF assms(1) n _ collecting_start [of r]] ReadRecord_loop [OF r0] assms(2) n by simp
  show "\<exists>r'. ReadRecord ops r = Some (Some d, r') \<and> lr_drops r' = lr_drops r \<and> reader_at file_ok remaining bo' (take (n - length out) rest) r'"
    if "length out \<le> n"
    using read_frames [OF assms(1) _ collecting_start [of r], where s = "take (n - length out) rest"] ReadRecord_loop [OF r0] assms(2) that by auto
qed

end

lemma recover_loop_logged:
  "logged bo rs outs \<Longrightarrow> reader_at handle_ok handle_remaining bo (take n (concat outs)) r \<Longrightarrow>
   (\<forall>i\<le>length rs. rc_s (fold recover_record (take i rs) st) = OK) \<Longrightarrow>
   \<exists>m. recover_loop r st = Some (fold recover_record (take m rs) st) \<and> m \<le> length rs \<and>
     length (concat (take m outs)) \<le> n \<and> (m < length rs \<longrightarrow> n < length (concat (take (Suc m) outs)))"
proof (induction arbitrary: n r st rule: logged.induct)
  case (nil bo)
  obtain r' where "ReadRecord SequentialFileImpl r = Some (None, r')" "lr_drops r' = lr_drops r"
    using mem_read.read_nothing [of bo r] nil.prems(1) by auto
  then show ?case using nil.prems(2) by (simp add: recover_loop.simps [of r st] reported_def)
next
  case (cons bo d out bo' ds outs)
  have st: "rc_s st = OK" using cons.prems(2) by (auto dest: spec [of _ 0])
  then have same: "st\<lparr>rc_s := OK\<rparr> = st" by simp
  have at: "reader_at handle_ok handle_remaining bo (take n (out @ concat outs)) r" using cons.prems(1) by simp
  show ?case
  proof (cases "n < length out")
    case True
    then obtain r' where "ReadRecord SequentialFileImpl r = Some (None, r')" "lr_drops r' = lr_drops r"
      using mem_read.ReadRecord_logged(1) [OF cons.hyps(1) at] by blast
    then show ?thesis using True st same by (intro exI [of _ 0]) (simp add: recover_loop.simps [of r st] reported_def)
  next
    case False
    then obtain r1 where r1: "ReadRecord SequentialFileImpl r = Some (Some d, r1)" "lr_drops r1 = lr_drops r"
      "reader_at handle_ok handle_remaining bo' (take (n - length out) (concat outs)) r1"
      using mem_read.ReadRecord_logged(2) [OF cons.hyps(1) at] by auto
    have "\<forall>i\<le>length ds. rc_s (fold recover_record (take i ds) (recover_record d st)) = OK"
      using cons.prems(2) by (metis Suc_le_mono fold_simps(2) length_Cons take_Suc_Cons)
    then obtain m where "recover_loop r1 (recover_record d st) = Some (fold recover_record (take m ds) (recover_record d st))" "m \<le> length ds"
      "length (concat (take m outs)) \<le> n - length out" "m < length ds \<longrightarrow> n - length out < length (concat (take (Suc m) outs))"
      using cons.IH [OF r1(3)] by blast
    moreover have "recover_loop r st = recover_loop r1 (recover_record d st)"
      using r1(1,2) st by (simp add: recover_loop.simps [of r st] reported_def same)
    ultimately show ?thesis using False by (intro exI [of _ "Suc m"]) auto
  qed
qed

section \<open>Replaying the edits\<close>

text \<open>The state of the recovery after some edits of a history; \<open>vs0\<close> is the version set it started on.\<close>

definition recovering :: "Comparator \<Rightarrow> (u64 \<Rightarrow> u64 \<times> bytes \<times> bytes) \<Rightarrow> VersionSet \<Rightarrow> Builder \<Rightarrow> VersionEdit list \<Rightarrow> RecoverState \<Rightarrow> bool" where
  "recovering c info vs0 b0 es st \<longleftrightarrow> rc_s st = OK \<and> b_base (rc_builder st) = b_base b0 \<and> store_extends vs0 (rc_vs st) \<and>
     builder_ok c info (vs_files (rc_vs st)) (vs_next_ref (rc_vs st)) (rc_builder st) \<and>
     (\<forall>l<kNumLevels. builder_level (vs_files (rc_vs st)) (rc_builder st) Version_new l = replay_files es l) \<and>
     vs_compact_pointer (rc_vs st) = replay_pointers es \<and>
     (es \<noteq> [] \<and> has_numbers (last es) \<longrightarrow>
        rc_have_log_number st \<and> rc_log_number st = ve_log_number (last es) \<and>
        rc_have_prev_log_number st \<and> rc_prev_log_number st = ve_prev_log_number (last es) \<and>
        rc_have_next_file st \<and> rc_next_file st = ve_next_file_number (last es) \<and>
        rc_have_last_sequence st \<and> rc_last_sequence st = ve_last_sequence (last es))"

lemma recover_numbers_ok:
  "rc_s (recover_numbers e st) = rc_s st" "rc_builder (recover_numbers e st) = rc_builder st" "rc_vs (recover_numbers e st) = rc_vs st"
  "has_numbers e \<Longrightarrow> rc_have_log_number (recover_numbers e st) \<and> rc_log_number (recover_numbers e st) = ve_log_number e \<and>
     rc_have_prev_log_number (recover_numbers e st) \<and> rc_prev_log_number (recover_numbers e st) = ve_prev_log_number e \<and>
     rc_have_next_file (recover_numbers e st) \<and> rc_next_file (recover_numbers e st) = ve_next_file_number e \<and>
     rc_have_last_sequence (recover_numbers e st) \<and> rc_last_sequence (recover_numbers e st) = ve_last_sequence e"
  by (simp_all add: recover_numbers_def Let_def has_numbers_def)

context separating_comparator
begin

lemma recover_record_ok:
  assumes st: "recovering c info vs0 b0 es st" and vs0: "vs_ucmp vs0 = c"
    and e: "edit_fits info A e" "ve_has_comparator e \<longrightarrow> ve_comparator e = vs_cmp_name vs0"
  shows "recovering c info vs0 b0 (es @ [e]) (recover_record (EncodeTo e []) st)"
proof -
  have dec: "DecodeFrom (EncodeTo e []) = (OK, e)" using e(1) by (simp add: DecodeFrom_def decode_encode edit_fits_def)
  obtain b vs where app: "(b, vs) = Builder_Apply e (rc_builder st, rc_vs st)" by (cases "Builder_Apply e (rc_builder st, rc_vs st)") auto
  have bok: "builder_ok c info (vs_files (rc_vs st)) (vs_next_ref (rc_vs st)) (rc_builder st)" and ext: "store_extends vs0 (rc_vs st)"
    and ok: "rc_s st = OK" using st by (simp_all add: recovering_def)
  have c: "vs_ucmp (rc_vs st) = c" "vs_cmp_name (rc_vs st) = vs_cmp_name vs0" using store_extends_simps [OF ext] vs0 by simp_all
  note fits = edit_fitsD(1,2) [OF e(1)]
  note A = Builder_Apply_ok [OF bok c(1) fits app]
  have lev: "builder_level (vs_files vs) b Version_new l = edit_level e l (replay_files es l)" if "l < kNumLevels" for l
    using edit_level_builder [OF bok c(1) fits _ _ app that, of Version_new] st that by (simp add: recovering_def Version_new_def cores_def)
  have comparator: "(ve_has_comparator e \<and> ve_comparator e \<noteq> vs_cmp_name (rc_vs st)) = False" using e(2) c(2) by auto
  have "recover_record (EncodeTo e []) st = recover_numbers e (st\<lparr>rc_read_records := rc_read_records st + 1, rc_s := OK, rc_builder := b, rc_vs := vs\<rparr>)"
    by (simp add: recover_record_def dec app [symmetric] Let_def comparator)
  then show ?thesis
    using A lev store_extends_trans [OF ext] st recover_numbers_ok by (simp add: recovering_def set_pointers_def)
qed

lemma recover_records_ok:
  assumes "history info (vs_cmp_name vs0) es" "vs_ucmp vs0 = c" "recovering c info vs0 b0 [] st"
  shows "recovering c info vs0 b0 es (fold recover_record (map (\<lambda>e. EncodeTo e []) es) st)"
  using assms(1)
proof (induction es rule: rev_induct)
  case (snoc e es)
  then show ?case using recover_record_ok [OF _ assms(2), of info b0 es] by (auto simp: history_snoc)
qed (simp add: assms(3))

text \<open>The recovered version set: the files and numbers that the edits stand for.\<close>

definition recovered :: "(u64 \<Rightarrow> u64 \<times> bytes \<times> bytes) \<Rightarrow> VersionEdit list \<Rightarrow> VersionSet \<Rightarrow> bool" where
  "recovered info es vs \<longleftrightarrow> vs_ok c info vs \<and> represents vs es \<and> vs_last_sequence vs = ve_last_sequence (last es) \<and>
     vs_next_file_number vs = ve_next_file_number (last es) + 1"

lemma saved_over_empty:
  assumes st: "recovering c info vs0 b0 es st" and base: "v_files base = replicate kNumLevels []" and l: "l < kNumLevels"
  shows "sorted_wrt (core_before c) (map (\<lambda>f. core (vs_files (rc_vs st) f)) (saved_level (vs_files (rc_vs st)) base (rc_builder st) l))"
    "cores (vs_files (rc_vs st)) (saved_level (vs_files (rc_vs st)) base (rc_builder st) l) = replay_files es l"
    "\<forall>f\<in>set (saved_level (vs_files (rc_vs st)) base (rc_builder st) l). f < vs_next_ref (rc_vs st) \<and> consistent info (core (vs_files (rc_vs st) f))"
proof -
  let ?b = "rc_builder st" and ?fs = "vs_files (rc_vs st)"
  have bok: "builder_ok c info ?fs (vs_next_ref (rc_vs st)) ?b" using st by (simp add: recovering_def)
  have none: "v_files base ! l = []" "v_files Version_new ! l = []" using l base by (simp_all add: Version_new_def)
  then have "builder_level ?fs ?b base l = builder_level ?fs ?b Version_new l" by (simp add: builder_level_def)
  then show "sorted_wrt (core_before c) (map (\<lambda>f. core (?fs f)) (saved_level ?fs base ?b l))" "cores ?fs (saved_level ?fs base ?b l) = replay_files es l"
    using saved_level_core [OF bok l, of base] st l none(1) by (simp_all add: version_core_def cores_def recovering_def)
  show "\<forall>f\<in>set (saved_level ?fs base ?b l). f < vs_next_ref (rc_vs st) \<and> consistent info (core (?fs f))"
    using bok l none by (auto simp: saved_level_def save_order_set builder_ok_def)
qed

lemma recover_install_ok:
  assumes st: "recovering c info vs0 b0 es st" and es: "es \<noteq> []" "has_numbers (last es)"
    and vs0: "vs_ucmp vs0 = c" "b_base b0 < vs_next_version vs0" "v_files (vs_version vs0 (b_base b0)) = replicate kNumLevels []"
  shows "\<exists>st'. recover_install st = (OK, st') \<and> rc_builder st' = rc_builder st \<and> recovered info es (rc_vs st') \<and> vs_dbname (rc_vs st') = vs_dbname vs0"
proof -
  define vs where "vs = MarkFileNumberUsed (rc_log_number st) (MarkFileNumberUsed (rc_prev_log_number st) (rc_vs st))"
  define r where "r = vs_next_version vs"
  define vs1 where "vs1 = snd (new_version vs)"
  define vs2 where "vs2 = Builder_SaveTo (rc_builder st) r vs1"
  define vs' where "vs' = (AppendVersion r (finalize_version r vs2))\<lparr>vs_manifest_file_number := rc_next_file st, vs_next_file_number := rc_next_file st + 1,
    vs_last_sequence := rc_last_sequence st, vs_log_number := rc_log_number st, vs_prev_log_number := rc_prev_log_number st\<rparr>"
  let ?b = "rc_builder st" and ?fs = "vs_files (rc_vs st)"
  have ext: "store_extends vs0 (rc_vs st)" and bok: "builder_ok c info ?fs (vs_next_ref (rc_vs st)) ?b" and base: "b_base ?b = b_base b0"
    and cp: "vs_compact_pointer (rc_vs st) = replay_pointers es"
    using st by (simp_all add: recovering_def)
  note E = store_extends_simps [OF ext]
  have vs: "\<exists>n. vs = rc_vs st\<lparr>vs_next_file_number := n\<rparr>" by (cases "rc_vs st") (auto simp: vs_def MarkFileNumberUsed_def)
  have vs1: "vs_files vs1 = ?fs" "vs_next_ref vs1 = vs_next_ref (rc_vs st)" "vs_ucmp vs1 = c" "vs_dbname vs1 = vs_dbname vs0"
    "vs_compact_pointer vs1 = replay_pointers es" "v_files (vs_version vs1 r) = replicate kNumLevels []" "vs_next_version vs1 = r + 1"
    "v_files (vs_version vs1 (b_base ?b)) = replicate kNumLevels []"
    using vs vs0 E base cp by (auto simp: vs1_def r_def new_version_def Version_new_def)
  define base where "base = vs_version vs1 (b_base ?b)"
  obtain fs where vs2: "vs2 = vs1\<lparr>vs_version := (vs_version vs1)(r := (vs_version vs1 r)\<lparr>v_files := map (saved_level ?fs base ?b) [0..<kNumLevels]\<rparr>), vs_files := fs\<rparr>"
    "\<And>g. core (fs g) = core (?fs g)" using Builder_SaveTo_ok [OF vs1(6,3), of ?b] by (auto simp: vs2_def vs1(1) base_def)
  have f2: "v_files (vs_version vs2 r) = map (saved_level ?fs base ?b) [0..<kNumLevels]" "\<And>f. core (vs_files vs2 f) = core (?fs f)"
    "vs_next_ref vs2 = vs_next_ref (rc_vs st)" "vs_next_version vs2 = r + 1" "vs_ucmp vs2 = c" "vs_dbname vs2 = vs_dbname vs0"
    "vs_compact_pointer vs2 = replay_pointers es" using vs2(2) vs1 by (simp_all add: vs2(1))
  have "v_files base = replicate kNumLevels []" by (simp add: base_def vs1(8))
  note level = saved_over_empty [OF st this]
  obtain vs3 where vs3: "AppendVersion r (finalize_version r vs2) = vs3\<lparr>vs_current := Some r\<rparr>" "refs_only vs2 vs3"
    using AppendVersion_refs refs_only_trans [OF refs_only_ops(5)] by metis
  note R = refs_only_simps [OF vs3(2)]
  have "version_in c info vs' r" "\<forall>l<kNumLevels. files_at vs' r l = replay_files es l"
    using level f2 by (simp_all add: vs'_def vs3(1) R version_in_def files_at_def version_core_def cores_def)
  moreover have "length (replay_pointers es) = kNumLevels"
    by (induction es rule: rev_induct) simp_all
  ultimately have "recovered info es vs'" "vs_dbname vs' = vs_dbname vs0"
    using f2 es st by (auto simp: recovered_def vs_ok_def represents_def vs'_def vs3(1) R recovering_def)
  moreover have "recover_install st = (OK, st\<lparr>rc_vs := vs'\<rparr>)"
    using st es by (simp add: recover_install_def recovering_def recovered_status_def vs'_def vs2_def vs1_def r_def vs_def new_version_def Let_def)
  ultimately show ?thesis by (intro exI [of _ "st\<lparr>rc_vs := vs'\<rparr>"]) simp
qed

lemma recovered_refs:
  assumes "recovered info es vs" "refs_only (vs\<lparr>vs_descriptor := d, vs_manifest_file_number := n\<rparr>) vs'"
  shows "recovered info es vs'"
proof -
  note R = refs_only_simps [OF assms(2)]
  show ?thesis using assms(1)
    by (auto simp: recovered_def vs_ok_def represents_def R version_in_def files_at_def version_core_def cores_def)
qed

end

section \<open>The files\<close>

lemma open_file_at:
  assumes ok: "env_ok (env, hs)" and "file_at env fname = Some data"
  shows "\<exists>a env' f. NewSequentialFile fname env = Some (OK, Some a, env') \<and> NewAppendableFile fname env = Some (OK, Some a, env') \<and> env_ok (env', a # hs) \<and>
    me_heap env' a = Some f \<and> file_state_ok f \<and> file_contents f = data \<and> (\<forall>m. file_at env' m = file_at env m) \<and> map_of (me_file_map env') fname = Some (Some a)"
proof -
  obtain a where a: "map_of (me_file_map env) fname = Some (Some a)" "map_option file_contents (me_heap env a) = Some data"
    using assms(2) by (auto simp: file_at_def split: option.splits)
  have cnt: "0 < ref_count (me_file_map env) hs a" using ref_count_entry [OF a(1)] .
  obtain f where f: "me_heap env a = Some f" "deref (Some a) env = Some (a, f)" "file_state_ok f" using store_ok_deref [OF env_okD(3) [OF ok] cnt] by blast
  let ?env = "set_file a (f\<lparr>fs_refs := fs_refs f + 1\<rparr>) env"
  have open_: "NewSequentialFile fname env = Some (OK, Some a, ?env)" "NewAppendableFile fname env = Some (OK, Some a, ?env)"
    using a(1) f(2) by (simp_all add: NewSequentialFile_def NewAppendableFile_def open_existing_def Ref_def Let_def)
  moreover have "env_ok (?env, a # hs)" using open_existing_ok [OF ok, of fname] open_(1) by (simp add: NewSequentialFile_def opened_handle_def)
  moreover have "file_state_ok (f\<lparr>fs_refs := fs_refs f + 1\<rparr>)" "file_contents (f\<lparr>fs_refs := fs_refs f + 1\<rparr>) = file_contents f"
    using f(3) by (simp_all add: file_state_ok_def file_contents_def)
  moreover from this have "file_at ?env m = file_at env m" for m using f(1) by (simp add: file_at_def set_file_def split: option.split)
  ultimately show ?thesis using a f(1) by (auto simp: set_file_def)
qed

lemma close_file_at:
  assumes ok: "env_ok (env, a # hs)" and entry: "map_of (me_file_map env) fname = Some (Some a)"
  shows "\<exists>env'. handle_close a env = Some env' \<and> env_ok (env', hs) \<and> (\<forall>m. file_at env' m = file_at env m)"
proof -
  have "1 < ref_count (me_file_map env) (a # hs) a" using ref_count_entry [OF entry, of hs] by (simp add: ref_count_def)
  then obtain env' where env': "handle_close a env = Some env'" "me_file_map env' = me_file_map env"
    "map_option file_contents (me_heap env' a) = map_option file_contents (me_heap env a)" "\<forall>b. b \<noteq> a \<longrightarrow> me_heap env' b = me_heap env b"
    using Unref_ok [OF env_okD(3) [OF ok], of a] by (auto simp: handle_close_def)
  then have "map_option file_contents (me_heap env' b) = map_option file_contents (me_heap env b)" for b by (cases "b = a") simp_all
  then have "file_at env' m = file_at env m" for m by (simp add: file_at_def env'(2) split: option.split)
  then show ?thesis using env'(1) handle_close_ok [OF ok, of 0] by auto
qed

lemma ReadFileToString_ok:
  assumes "env_ok (env, hs)" "file_at env fname = Some data"
  shows "\<exists>env'. ReadFileToString fname env = Some (OK, data, env') \<and> env_ok (env', hs) \<and> (\<forall>m. file_at env' m = file_at env m)"
proof -
  obtain a env1 f where o: "NewSequentialFile fname env = Some (OK, Some a, env1)" "env_ok (env1, a # hs)" "me_heap env1 a = Some f"
    "file_state_ok f" "file_contents f = data" "\<forall>m. file_at env1 m = file_at env m" "map_of (me_file_map env1) fname = Some (Some a)"
    using open_file_at [OF assms] by blast
  moreover obtain env2 where "handle_close a env1 = Some env2" "env_ok (env2, hs)" "\<forall>m. file_at env2 m = file_at env1 m" using close_file_at [OF o(2,7)] by blast
  moreover have "read_fragments SequentialFileImpl [] \<lparr>sh_file = f, sh_pos = 0\<rparr> = Some (OK, data)"
    using mem_read.read_fragments_all [of "\<lparr>sh_file = f, sh_pos = 0\<rparr>" "[]"] o(4,5) by (simp add: handle_ok_def handle_remaining_def)
  ultimately show ?thesis by (simp add: ReadFileToString_def)
qed

lemma ReuseManifest_ok:
  assumes "env_ok (env, hs)" "file_at env dscname = Some data"
  shows "\<exists>reused d n env' hs'. ReuseManifest dscname dscbase vs env = Some (reused, vs\<lparr>vs_descriptor := d, vs_manifest_file_number := n\<rparr>, env') \<and> env_ok (env', hs')"
proof -
  obtain a env1 where o: "NewAppendableFile dscname env = Some (OK, Some a, env1)" "env_ok (env1, a # hs)" using open_file_at [OF assms] by blast
  obtain s n where size: "GetFileSize dscname env = Some (s, n)" using GetFileSize_ok [OF assms(1)] by blast
  have same: "vs = vs\<lparr>vs_descriptor := vs_descriptor vs, vs_manifest_file_number := vs_manifest_file_number vs\<rparr>" by simp
  have "\<exists>reused d n env' hs'. Some (False, vs, env) = Some (reused, vs\<lparr>vs_descriptor := d, vs_manifest_file_number := n\<rparr>, env') \<and> env_ok (env', hs')"
    using assms(1) same by blast
  moreover have "\<exists>reused d n env' hs'. Some (True, vs\<lparr>vs_descriptor := Some (a, k), vs_manifest_file_number := m\<rparr>, env1) =
      Some (reused, vs\<lparr>vs_descriptor := d, vs_manifest_file_number := n\<rparr>, env') \<and> env_ok (env', hs')" for k m
    using o(2) by blast
  ultimately show ?thesis by (simp add: ReuseManifest_def size o(1) split: option.split)
qed

section \<open>The whole recovery\<close>

lemma VersionSet_new_fields:
  "vs_current (VersionSet_new db c name mx reuse) = Some 0" "vs_next_version (VersionSet_new db c name mx reuse) = 1"
  "v_files (vs_version (VersionSet_new db c name mx reuse) 0) = replicate kNumLevels []" "vs_ucmp (VersionSet_new db c name mx reuse) = c"
  "vs_cmp_name (VersionSet_new db c name mx reuse) = name" "vs_dbname (VersionSet_new db c name mx reuse) = db"
  "vs_compact_pointer (VersionSet_new db c name mx reuse) = replicate kNumLevels []" "vs_descriptor (VersionSet_new db c name mx reuse) = None"
  "vs_manifest_file_number (VersionSet_new db c name mx reuse) = 0"
  by (simp_all add: VersionSet_new_def new_version_def AppendVersion_def Version_Ref_def Version_new_def Let_def)

lemma current_contents:
  fixes x :: string
  shows "last (bytes_of (x @ [CHR 0x0A])) = 10" "bytes_of (x @ [CHR 0x0A]) \<noteq> []" "text_of (butlast (bytes_of (x @ [CHR 0x0A]))) = x"
proof -
  have "unat (of_char ch :: byte) = of_char ch" for ch :: char
    using of_char_mod_256 [of ch, where 'a = nat] unat_of_nat [of "of_char ch", where 'a = 8] by (simp add: of_nat_of_char)
  then show "text_of (butlast (bytes_of (x @ [CHR 0x0A]))) = x"
    by (simp add: bytes_of_def text_of_def comp_def)
qed (simp_all add: bytes_of_def)

context separating_comparator
begin

lemma Recover_ok:
  assumes env: "env_ok (env, hs)" "file_at env (CurrentFileName db) = Some (bytes_of (''MANIFEST-'' @ decimal6 (unat n) @ [CHR 0x0A]))"
      "file_at env (DescriptorFileName db n) = Some (take k (concat outs))"
    and es: "logged 0 (map (\<lambda>e. EncodeTo e []) es) outs" "history info name es" "\<forall>i<length es. 0 < i \<longrightarrow> has_numbers (es ! i)"
    and k: "2 \<le> length es" "length (concat (take 2 outs)) \<le> k"
  shows "\<exists>m save vs env'. 2 \<le> m \<and> m \<le> length es \<and> Recover (VersionSet_new db c name mx reuse) env = Some (OK, save, vs, env') \<and>
    recovered info (take m es) vs \<and> length (concat (take m outs)) \<le> k \<and> (m < length es \<longrightarrow> k < length (concat (take (Suc m) outs)))"
proof -
  let ?dscbase = "''MANIFEST-'' @ decimal6 (unat n)" and ?rs = "map (\<lambda>e. EncodeTo e []) es"
  define vs0 where "vs0 = Version_Ref 0 (VersionSet_new db c name mx reuse)"
  define b0 where "b0 = \<lparr>b_base = 0, b_levels = replicate kNumLevels \<lparr>ls_deleted_files = {}, ls_added_files = []\<rparr>\<rparr>"
  have vs0: "vs_ucmp vs0 = c" "b_base b0 < vs_next_version vs0" "v_files (vs_version vs0 (b_base b0)) = replicate kNumLevels []" "vs_cmp_name vs0 = name"
    "vs_compact_pointer vs0 = replicate kNumLevels []"
    by (simp_all add: vs0_def b0_def Version_Ref_def VersionSet_new_fields)
  have b0: "Builder_new (the (vs_current (VersionSet_new db c name mx reuse))) (VersionSet_new db c name mx reuse) = (b0, vs0)"
    by (simp add: Builder_new_def b0_def vs0_def VersionSet_new_fields)
  obtain env1 where env1: "ReadFileToString (CurrentFileName db) env = Some (OK, bytes_of (?dscbase @ [CHR 0x0A]), env1)" "env_ok (env1, hs)"
    "file_at env1 (DescriptorFileName db n) = Some (take k (concat outs))"
    using ReadFileToString_ok [OF env(1,2)] env(3) by auto
  have name: "DescriptorFileName db n = db @ ''/'' @ ?dscbase" by (simp add: DescriptorFileName_def)
  obtain a env2 f where env2: "NewSequentialFile (DescriptorFileName db n) env1 = Some (OK, Some a, env2)" "env_ok (env2, a # hs)" "me_heap env2 a = Some f"
    "file_state_ok f" "file_contents f = take k (concat outs)" "\<forall>m. file_at env2 m = file_at env1 m"
    "map_of (me_file_map env2) (DescriptorFileName db n) = Some (Some a)"
    using open_file_at [OF env1(2,3)] by blast
  obtain env3 where env3: "handle_close a env2 = Some env3" "env_ok (env3, hs)" "file_at env3 (DescriptorFileName db n) = Some (take k (concat outs))"
    using close_file_at [OF env2(2,7)] env1(3) env2(6) by auto
  let ?st = "\<lparr>rc_s = OK, rc_have_log_number = False, rc_have_prev_log_number = False, rc_have_next_file = False,
    rc_have_last_sequence = False, rc_next_file = 0, rc_last_sequence = 0, rc_log_number = 0, rc_prev_log_number = 0,
    rc_builder = b0, rc_vs = vs0, rc_read_records = 0\<rparr>"
  have st: "recovering c info vs0 b0 [] ?st"
    using vs0 by (simp add: recovering_def store_extends_refl builder_ok_def b0_def builder_level_def Version_new_def cores_def)
  have prefix: "recovering c info vs0 b0 (take i es) (fold recover_record (take i ?rs) ?st)" for i
    using recover_records_ok [OF _ vs0(1) st, of "take i es"] history_take [OF es(2)] vs0(4) by (simp add: take_map)
  let ?h = "\<lparr>sh_file = f, sh_pos = 0\<rparr>"
  have h: "handle_ok ?h" "handle_remaining ?h = take k (concat outs)" using env2(4,5) by (simp_all add: handle_ok_def handle_remaining_def)
  have "reader_at handle_ok handle_remaining kBlockSize (take k (concat outs)) (Reader_new ?h True True 0)" using Reader_new_at [OF h(1), of True True] h(2) by simp
  then obtain m where m: "recover_loop (Reader_new ?h True True 0) ?st = Some (fold recover_record (take m ?rs) ?st)" "m \<le> length es"
      "length (concat (take m outs)) \<le> k" "m < length es \<longrightarrow> k < length (concat (take (Suc m) outs))"
    using recover_loop_logged [OF logged_start [OF es(1)], of k "Reader_new ?h True True 0" ?st] prefix by (auto simp: recovering_def)
  have "2 \<le> m"
  proof (rule ccontr)
    assume "\<not> 2 \<le> m"
    then have "m < length es" "take (Suc m) (take 2 outs) = take (Suc m) outs" using k(1) by (simp_all add: min_def)
    moreover from this have "length (concat (take (Suc m) outs)) \<le> length (concat (take 2 outs))"
      by (metis append_take_drop_id concat_append length_append le_add1)
    ultimately show False using m(4) k(2) by simp
  qed
  then have "take m es \<noteq> []" "length (take m es) = m" using k(1) m(2) by auto
  then have "last (take m es) = take m es ! (m - 1)" using last_conv_nth [of "take m es"] by metis
  then have "last (take m es) = es ! (m - 1)" "m - 1 < length es" "0 < m - 1" "take m es \<noteq> []" using k(1) m(2) \<open>2 \<le> m\<close> by auto
  then have last: "take m es \<noteq> []" "has_numbers (last (take m es))" using es(3) by simp_all
  obtain st' where st': "recover_install (fold recover_record (take m ?rs) ?st) = (OK, st')"
      "rc_builder st' = rc_builder (fold recover_record (take m ?rs) ?st)" "recovered info (take m es) (rc_vs st')"
    using recover_install_ok [OF prefix last vs0(1-3)] by blast
  obtain reused d n' env4 where reuse: "ReuseManifest (DescriptorFileName db n) ?dscbase (rc_vs st') env3 =
      Some (reused, rc_vs st'\<lparr>vs_descriptor := d, vs_manifest_file_number := n'\<rparr>, env4)"
    using ReuseManifest_ok [OF env3(2,3)] by blast
  let ?vs = "Builder_delete (rc_builder st') (rc_vs st'\<lparr>vs_descriptor := d, vs_manifest_file_number := n'\<rparr>)"
  have "Recover (VersionSet_new db c name mx reuse) env = Some (OK, \<not> reused, ?vs, env4)"
    using env1(1) env2(1,3) env3(1) m(1) st'(1) reuse current_contents [of ?dscbase] b0 name
    by (simp add: Recover_def VersionSet_new_fields)
  moreover have "recovered info (take m es) ?vs" using recovered_refs [OF st'(3) refs_only_ops(4)] .
  ultimately show ?thesis using \<open>2 \<le> m\<close> m(2-4) by blast
qed

end

section \<open>A run of edits\<close>

text \<open>Between two edits the database takes file numbers and sequence numbers.\<close>

fun log_edits :: "(u64 \<times> u64 \<times> VersionEdit) list \<Rightarrow> VersionSet \<Rightarrow> InMemoryEnv \<Rightarrow> (VersionSet \<times> InMemoryEnv) option" where
  "log_edits [] vs env = Some (vs, env)"
| "log_edits ((next_file, last_seq, e) # steps) vs env =
     (case LogAndApply e (vs\<lparr>vs_next_file_number := next_file, vs_last_sequence := last_seq\<rparr>) env of
        None \<Rightarrow> None
      | Some (s, _, vs, env) \<Rightarrow> if ok s then log_edits steps vs env else None)"

fun edits_fit :: "(u64 \<Rightarrow> u64 \<times> bytes \<times> bytes) \<Rightarrow> bytes \<Rightarrow> (nat \<Rightarrow> file_core set) \<Rightarrow> (u64 \<times> u64 \<times> VersionEdit) list \<Rightarrow> bool" where
  "edits_fit info name A [] = True"
| "edits_fit info name A ((_, _, e) # steps) =
     (edit_fits info A e \<and> (ve_has_comparator e \<longrightarrow> ve_comparator e = name) \<and> edits_fit info name (\<lambda>l. edit_level e l (A l)) steps)"

definition manifest_after :: "(u64 \<times> u64 \<times> VersionEdit) list \<Rightarrow> VersionSet \<Rightarrow> InMemoryEnv \<Rightarrow> bytes" where
  "manifest_after steps vs env =
     the (file_at (snd (the (log_edits steps vs env))) (DescriptorFileName (vs_dbname vs) (vs_manifest_file_number vs)))"

lemma numbers_changed:
  "vs_ok c info (vs\<lparr>vs_next_file_number := n, vs_last_sequence := q\<rparr>) = vs_ok c info vs"
  "manifest_open (vs\<lparr>vs_next_file_number := n, vs_last_sequence := q\<rparr>) es outs env hs = manifest_open vs es outs env hs"
  "represents (vs\<lparr>vs_next_file_number := n, vs_last_sequence := q\<rparr>) es = represents vs es"
  "snapshot_fits (vs\<lparr>vs_next_file_number := n, vs_last_sequence := q\<rparr>) = snapshot_fits vs"
  "files_at (vs\<lparr>vs_next_file_number := n, vs_last_sequence := q\<rparr>) = files_at vs"
  by (simp_all add: vs_ok_def version_in_def manifest_open_def manifest_name_def represents_def files_at_def snapshot_fits_def fun_eq_iff)

text \<open>The recovered state is that of the version set that logged; its next file number is past the old one.\<close>

definition same_state :: "VersionSet \<Rightarrow> VersionSet \<Rightarrow> bool" where
  "same_state vs vs' \<longleftrightarrow>
     (\<forall>l<kNumLevels. version_core (vs_files vs') (current_version vs') l = version_core (vs_files vs) (current_version vs) l) \<and>
     vs_compact_pointer vs' = vs_compact_pointer vs \<and> vs_last_sequence vs' = vs_last_sequence vs \<and> vs_log_number vs' = vs_log_number vs \<and>
     vs_prev_log_number vs' = vs_prev_log_number vs \<and> vs_next_file_number vs' = vs_next_file_number vs + 1"

context separating_comparator
begin

definition logging :: "(u64 \<Rightarrow> u64 \<times> bytes \<times> bytes) \<Rightarrow> VersionSet \<Rightarrow> VersionEdit list \<Rightarrow> bytes list \<Rightarrow> VersionSet \<Rightarrow> InMemoryEnv \<Rightarrow> addr list \<Rightarrow> bool" where
  "logging info vs0 es outs vs env hs \<longleftrightarrow> vs_ok c info vs \<and> manifest_open vs es outs env hs \<and> represents vs es \<and> history info (vs_cmp_name vs0) es \<and>
     vs_last_sequence vs = ve_last_sequence (last es) \<and> vs_next_file_number vs = ve_next_file_number (last es) \<and>
     vs_dbname vs = vs_dbname vs0 \<and> vs_cmp_name vs = vs_cmp_name vs0 \<and> vs_manifest_file_number vs = vs_manifest_file_number vs0"

lemma log_edits_again:
  "logging info vs0 es outs vs env hs \<Longrightarrow> edits_fit info (vs_cmp_name vs0) A steps \<Longrightarrow> (\<And>l. l < kNumLevels \<Longrightarrow> A l = replay_files es l) \<Longrightarrow>
   \<exists>ces couts. length ces = length steps \<and> length couts = length steps \<and> (\<forall>e\<in>set ces. has_numbers e) \<and>
     (\<forall>j\<le>length steps. \<exists>vs' env'. log_edits (take j steps) vs env = Some (vs', env') \<and> logging info vs0 (es @ take j ces) (outs @ take j couts) vs' env' hs)"
proof (induction steps arbitrary: es outs vs env A)
  case Nil
  then show ?case by simp
next
  case (Cons step steps)
  obtain next_file last_seq e where step: "step = (next_file, last_seq, e)" by (cases step)
  define vs1 where "vs1 = vs\<lparr>vs_next_file_number := next_file, vs_last_sequence := last_seq\<rparr>"
  have vs1: "vs_ok c info vs1" "manifest_open vs1 es outs env hs" "represents vs1 es" "history info (vs_cmp_name vs1) es" "vs_cmp_name vs1 = vs_cmp_name vs0"
    "vs_dbname vs1 = vs_dbname vs0" "vs_manifest_file_number vs1 = vs_manifest_file_number vs0"
    using Cons.prems(1) by (simp_all add: vs1_def logging_def numbers_changed)
  let ?e = "complete_edit vs1 e"
  have e: "edit_fits info A e" "ve_has_comparator e \<longrightarrow> ve_comparator e = vs_cmp_name vs1" "edits_fit info (vs_cmp_name vs0) (\<lambda>l. edit_level e l (A l)) steps"
    using Cons.prems(2) by (auto simp: step vs1(5))
  have "edit_fits info (replay_files es) e" using edit_fits_cong [OF e(1) Cons.prems(3)] .
  then obtain vs' env' out where log: "LogAndApply e vs1 env = Some (OK, ?e, vs', env')" and I: "logging info vs0 (es @ [?e]) (outs @ [out]) vs' env' hs"
    using LogAndApply_again [OF vs1(1-4) _ e(2)] vs1(5-7) unfolding logging_def by fastforce
  from Cons.IH [OF I e(3)] Cons.prems(3) obtain ces couts where IH: "length ces = length steps" "length couts = length steps" "\<forall>e\<in>set ces. has_numbers e"
    "\<forall>j\<le>length steps. \<exists>vs'' env''. log_edits (take j steps) vs' env' = Some (vs'', env'') \<and>
       logging info vs0 ((es @ [?e]) @ take j ces) ((outs @ [out]) @ take j couts) vs'' env'' hs" by auto
  have "\<exists>vs'' env''. log_edits (take j (step # steps)) vs env = Some (vs'', env'') \<and>
      logging info vs0 (es @ take j (?e # ces)) (outs @ take j (out # couts)) vs'' env'' hs" if "j \<le> length (step # steps)" for j
    using IH(4) that Cons.prems(1) log by (cases j) (simp_all add: step vs1_def [symmetric])
  then show ?case using IH(1-3) by (intro exI [of _ "?e # ces"] exI [of _ "out # couts"]) simp
qed

lemma log_edits_all:
  assumes vs: "vs_ok c info vs" "vs_descriptor vs = None" "snapshot_fits vs" and env: "env_ok (env, hs)"
      "\<not> FileExists (DescriptorFileName (vs_dbname vs) (vs_manifest_file_number vs)) env" "\<not> FileExists (TempFileName (vs_dbname vs) (vs_manifest_file_number vs)) env"
    and steps: "edits_fit info (vs_cmp_name vs) (files_at vs (the (vs_current vs))) steps" "steps \<noteq> []"
  shows "\<exists>snap ces outs. length ces = length steps \<and> (\<forall>e\<in>set ces. has_numbers e) \<and> length outs = Suc (length steps) \<and>
    (\<forall>j\<le>length steps. 0 < j \<longrightarrow> (\<exists>vs' env'. log_edits (take j steps) vs env = Some (vs', env') \<and>
       logging info vs (snap # take j ces) (take (Suc j) outs) vs' env' (me_next env # hs)))"
proof -
  obtain next_file last_seq e rest where step: "steps = (next_file, last_seq, e) # rest" using steps(2) by (cases steps) auto
  obtain cur where cur: "vs_current vs = Some cur" using vs(1) by (auto simp: vs_ok_def)
  define vs1 where "vs1 = vs\<lparr>vs_next_file_number := next_file, vs_last_sequence := last_seq\<rparr>"
  let ?e = "complete_edit vs1 e"
  have vs1: "vs_ok c info vs1" "vs_current vs1 = Some cur" "vs_descriptor vs1 = None" "snapshot_fits vs1" "vs_cmp_name vs1 = vs_cmp_name vs"
    "vs_dbname vs1 = vs_dbname vs" "vs_manifest_file_number vs1 = vs_manifest_file_number vs" "files_at vs1 = files_at vs"
    using vs cur by (simp_all add: vs1_def numbers_changed)
  have e: "edit_fits info (files_at vs1 cur) e" "ve_has_comparator e \<longrightarrow> ve_comparator e = vs_cmp_name vs1"
    "edits_fit info (vs_cmp_name vs) (\<lambda>l. edit_level e l (files_at vs cur l)) rest"
    using steps(1) by (simp_all add: step vs1(5,8) cur)
  from LogAndApply_first [OF vs1(1-4) env(1) _ _ e(1,2)] env(2,3) vs1(5-7) obtain vs' env' snap outs1 where
    first: "LogAndApply e vs1 env = Some (OK, ?e, vs', env')" "logging info vs [snap, ?e] outs1 vs' env' (me_next env # hs)"
      "\<forall>l<kNumLevels. replay_files [snap] l = files_at vs1 cur l"
    unfolding logging_def by fastforce
  have "\<And>l. l < kNumLevels \<Longrightarrow> edit_level e l (files_at vs cur l) = replay_files [snap, ?e] l"
    using first(3) replay_snoc(1) [of "[snap]" ?e] by (simp add: vs1(8))
  from log_edits_again [OF first(2) e(3) this] obtain ces couts where all: "length ces = length rest" "length couts = length rest" "\<forall>e\<in>set ces. has_numbers e"
    "\<forall>j\<le>length rest. \<exists>vs'' env''. log_edits (take j rest) vs' env' = Some (vs'', env'') \<and>
      logging info vs ([snap, ?e] @ take j ces) (outs1 @ take j couts) vs'' env'' (me_next env # hs)" by auto
  have len: "length outs1 = 2" using first(2) log_to_logged by (fastforce simp: logging_def manifest_open_def)
  have "\<exists>vs'' env''. log_edits (take j steps) vs env = Some (vs'', env'') \<and>
      logging info vs (snap # take j (?e # ces)) (take (Suc j) (outs1 @ couts)) vs'' env'' (me_next env # hs)" if "j \<le> length steps" "0 < j" for j
    using all(4) that first(1) len by (cases j) (auto simp: step vs1_def [symmetric])
  then show ?thesis using all(1-3) len by (intro exI [of _ snap] exI [of _ "?e # ces"] exI [of _ "outs1 @ couts"]) (simp add: step)
qed

lemma same_stateI:
  assumes "logging info vs0 es outs vs env hs" "recovered info es vs'"
  shows "same_state vs vs'"
proof -
  have rep: "represents vs es" "represents vs' es" and ok: "vs_ok c info vs" "vs_ok c info vs'" using assms by (simp_all add: logging_def recovered_def)
  have "version_core (vs_files vs') (current_version vs') l = version_core (vs_files vs) (current_version vs) l" if "l < kNumLevels" for l
  proof (rule core_sorted_unique)
    show "set (version_core (vs_files vs') (current_version vs') l) = set (version_core (vs_files vs) (current_version vs) l)"
      using rep that by (simp add: represents_def files_at_def cores_def version_core_def current_version_def)
  qed (use ok that in \<open>auto simp: vs_ok_def version_in_def current_version_def\<close>)
  then show ?thesis using assms rep by (simp add: same_state_def logging_def recovered_def represents_def)
qed

lemma logging_manifest:
  assumes "logging info vs0 es outs vs env hs"
  shows "file_at env (DescriptorFileName (vs_dbname vs0) (vs_manifest_file_number vs0)) = Some (concat outs)" "env_ok (env, hs)"
    "logged 0 (map (\<lambda>e. EncodeTo e []) es) outs" "length outs = length es"
    "file_at env (CurrentFileName (vs_dbname vs0)) = Some (bytes_of (''MANIFEST-'' @ decimal6 (unat (vs_manifest_file_number vs0)) @ [CHR 0x0A]))"
    "history info (vs_cmp_name vs0) es"
proof -
  have names: "vs_dbname vs = vs_dbname vs0" "vs_manifest_file_number vs = vs_manifest_file_number vs0" using assms by (simp_all add: logging_def)
  obtain a offset where a: "env_ok (env, hs)" "a \<in> set hs" "log_to 0 (map (\<lambda>e. EncodeTo e []) es) outs offset" "env_contents a env = concat outs"
    "map_of (me_file_map env) (DescriptorFileName (vs_dbname vs) (vs_manifest_file_number vs)) = Some (Some a)"
    using assms by (auto simp: logging_def manifest_open_def)
  show "file_at env (DescriptorFileName (vs_dbname vs0) (vs_manifest_file_number vs0)) = Some (concat outs)"
    using a(4,5) handle_not_next [OF a(1,2)] by (auto simp: file_at_def env_contents_def names)
  show "env_ok (env, hs)" "logged 0 (map (\<lambda>e. EncodeTo e []) es) outs" "length outs = length es" using a(1) log_to_logged [OF a(3)] by simp_all
  show "history info (vs_cmp_name vs0) es"
    "file_at env (CurrentFileName (vs_dbname vs0)) = Some (bytes_of (''MANIFEST-'' @ decimal6 (unat (vs_manifest_file_number vs0)) @ [CHR 0x0A]))"
    using assms by (auto simp: logging_def manifest_open_def manifest_name_def)
qed

end

text \<open>
  C2. Crash recovery of the manifest: logging a sequence of edits that fit succeeds, and if the process stops with any part of the
  manifest from the end of the first logged edit on, then a new version set that recovers from it has the files of every level, the
  compaction pointers, the sequence number and the log numbers of the state after the last edit that is completely in the file; with the
  whole file that is the last edit.
\<close>

theorem manifest_recovery:
  assumes c: "separating_comparator c" and vs: "vs_ok c info vs" "vs_descriptor vs = None" "snapshot_fits vs" and env: "env_ok (env, hs)"
      "\<not> FileExists (DescriptorFileName (vs_dbname vs) (vs_manifest_file_number vs)) env" "\<not> FileExists (TempFileName (vs_dbname vs) (vs_manifest_file_number vs)) env"
    and steps: "edits_fit info (vs_cmp_name vs) (files_at vs (the (vs_current vs))) steps" "steps \<noteq> []"
  shows "\<exists>vs' env' hs'. log_edits steps vs env = Some (vs', env') \<and> env_ok (env', hs') \<and>
    file_at env' (DescriptorFileName (vs_dbname vs) (vs_manifest_file_number vs)) = Some (manifest_after steps vs env) \<and>
    (\<forall>env2 hs2 k. env_ok (env2, hs2) \<and> file_at env2 (CurrentFileName (vs_dbname vs)) = file_at env' (CurrentFileName (vs_dbname vs)) \<and>
       file_at env2 (DescriptorFileName (vs_dbname vs) (vs_manifest_file_number vs)) = Some (take k (manifest_after steps vs env)) \<and>
       length (manifest_after (take 1 steps) vs env) \<le> k \<longrightarrow>
       (\<exists>m vs1 env1 save vs2 env3. log_edits (take m steps) vs env = Some (vs1, env1) \<and>
          Recover (VersionSet_new (vs_dbname vs) c (vs_cmp_name vs) max_file_size reuse_logs) env2 = Some (OK, save, vs2, env3) \<and> same_state vs1 vs2 \<and>
          m \<le> length steps \<and> length (manifest_after (take m steps) vs env) \<le> k \<and>
          (m < length steps \<longrightarrow> k < length (manifest_after (take (m + 1) steps) vs env))))"
proof -
  let ?man = "DescriptorFileName (vs_dbname vs) (vs_manifest_file_number vs)" and ?hs = "me_next env # hs"
  from separating_comparator.log_edits_all [OF c vs env steps] obtain snap ces outs where
    all: "length ces = length steps" "\<forall>e\<in>set ces. has_numbers e" "length outs = Suc (length steps)"
    "\<And>j. j \<le> length steps \<Longrightarrow> 0 < j \<Longrightarrow> \<exists>vs' env'. log_edits (take j steps) vs env = Some (vs', env') \<and>
       separating_comparator.logging c info vs (snap # take j ces) (take (Suc j) outs) vs' env' ?hs" by blast
  have len: "0 < length steps" using steps(2) by simp
  have after: "manifest_after (take j steps) vs env = concat (take (Suc j) outs)" if "j \<le> length steps" "0 < j" for j
    using all(4) [OF that] separating_comparator.logging_manifest(1) [OF c] by (fastforce simp: manifest_after_def)
  obtain vs' env' where run: "log_edits steps vs env = Some (vs', env')" "separating_comparator.logging c info vs (snap # ces) outs vs' env' ?hs"
    using all(4) [of "length steps"] all(1,3) len by auto
  note L = separating_comparator.logging_manifest [OF c run(2)]
  have "\<exists>m vs1 env1 save vs2 env3. log_edits (take m steps) vs env = Some (vs1, env1) \<and>
      Recover (VersionSet_new (vs_dbname vs) c (vs_cmp_name vs) max_file_size reuse_logs) env2 = Some (OK, save, vs2, env3) \<and> same_state vs1 vs2 \<and>
      m \<le> length steps \<and> length (manifest_after (take m steps) vs env) \<le> k \<and> (m < length steps \<longrightarrow> k < length (manifest_after (take (m + 1) steps) vs env))"
    if env2: "env_ok (env2, hs2)" "file_at env2 (CurrentFileName (vs_dbname vs)) = file_at env' (CurrentFileName (vs_dbname vs))"
      "file_at env2 ?man = Some (take k (manifest_after steps vs env))" "length (manifest_after (take 1 steps) vs env) \<le> k" for env2 hs2 k
  proof -
    have "manifest_after steps vs env = concat outs" "length (concat (take 2 outs)) \<le> k"
      using after [of "length steps"] after [of 1] all(3) len env2(4) by (simp_all add: numeral_2_eq_2 Suc_leI)
    moreover have "\<forall>i<length (snap # ces). 0 < i \<longrightarrow> has_numbers ((snap # ces) ! i)" using all(2) by (auto simp: nth_Cons split: nat.split)
    moreover have "2 \<le> length (snap # ces)" using all(1) len by (cases ces) auto
    ultimately obtain m save vs2 env3 where m: "2 \<le> m" "m \<le> length (snap # ces)" "separating_comparator.recovered c info (take m (snap # ces)) vs2"
      "Recover (VersionSet_new (vs_dbname vs) c (vs_cmp_name vs) max_file_size reuse_logs) env2 = Some (OK, save, vs2, env3)"
      "length (concat (take m outs)) \<le> k" "m < length (snap # ces) \<longrightarrow> k < length (concat (take (Suc m) outs))"
      using separating_comparator.Recover_ok [OF c env2(1) _ _ L(3,6)] env2(2,3) L(5) by metis
    obtain j where j: "m = Suc j" "0 < j" "j \<le> length steps" using m(1,2) all(1) by (cases m) auto
    obtain vs1 env1 where vs1: "log_edits (take j steps) vs env = Some (vs1, env1)"
      "separating_comparator.logging c info vs (snap # take j ces) (take (Suc j) outs) vs1 env1 ?hs" using all(4) [OF j(3,2)] by blast
    have "same_state vs1 vs2" using separating_comparator.same_stateI [OF c vs1(2)] m(3) by (simp add: j(1))
    then show ?thesis using vs1(1) m(4-6) j after [OF j(3,2)] after [of "j + 1"] all(1)
      by (intro exI [of _ j] exI [of _ vs1] exI [of _ env1] exI [of _ save] exI [of _ vs2] exI [of _ env3]) auto
  qed
  moreover have "file_at env' ?man = Some (manifest_after steps vs env)" using L(1) after [of "length steps"] all(3) len by simp
  ultimately show ?thesis using run(1) L(2) by blast
qed

definition sample_edit :: VersionEdit where
  "sample_edit = AddFile 0 4 100 [97, 1, 0, 0, 0, 0, 0, 0, 0] [98, 1, 0, 0, 0, 0, 0, 0, 0] (SetLogNumber 3 VersionEdit_Clear)"

lemma VersionSet_new_ok:
  "vs_ok c info (VersionSet_new db c name mx reuse)"
  "length name < 2 ^ 32 \<Longrightarrow> snapshot_fits (VersionSet_new db c name mx reuse)" "files_at (VersionSet_new db c name mx reuse) 0 0 = {}"
  by (simp_all add: vs_ok_def version_in_def VersionSet_new_fields version_core_def snapshot_fits_def files_at_def cores_def kNumLevels_def)

theorem manifest_recovery_witness:
  "\<exists>vs' env' vs2 save env3. log_edits [(5, 10, sample_edit)] (VersionSet_new ''db'' BytewiseComparator [98] 2097152 False) InMemoryEnv_new = Some (vs', env') \<and>
     Recover (VersionSet_new ''db'' BytewiseComparator [98] 2097152 False) env' = Some (OK, save, vs2, env3) \<and> same_state vs' vs2"
proof -
  let ?vs = "VersionSet_new ''db'' BytewiseComparator [98] 2097152 False" and ?steps = "[(5, 10, sample_edit)] :: (u64 \<times> u64 \<times> VersionEdit) list"
  define info :: "u64 \<Rightarrow> u64 \<times> bytes \<times> bytes" where "info = (\<lambda>_. (100, [97, 1, 0, 0, 0, 0, 0, 0, 0], [98, 1, 0, 0, 0, 0, 0, 0, 0]))"
  have "edit_ok sample_edit" unfolding sample_edit_def by (intro edit_ok_setters edit_ok_Clear) (simp_all add: key_fits_def kNumLevels_def)
  then have fit: "edits_fit info (vs_cmp_name ?vs) (files_at ?vs (the (vs_current ?vs))) ?steps"
    by (simp add: VersionSet_new_fields VersionSet_new_ok(3) edit_fits_def)
       (simp add: sample_edit_def AddFile_def SetLogNumber_def VersionEdit_Clear_def consistent_def core_def FileMetaData_new_def info_def VersionSet_new_ok(3))
  have env: "env_ok (InMemoryEnv_new, [])" by (rule env_reachable_ok [OF env_reachable.start])
  have none: "\<not> FileExists f InMemoryEnv_new" for f by (simp add: FileExists_def InMemoryEnv_new_def)
  have name: "length ([98] :: bytes) < 2 ^ 32" by simp
  let ?M = "\<lambda>j. manifest_after (take j ?steps) ?vs InMemoryEnv_new"
  obtain vs' env' hs' where run: "log_edits ?steps ?vs InMemoryEnv_new = Some (vs', env')" "env_ok (env', hs')"
      "file_at env' (DescriptorFileName ''db'' 0) = Some (manifest_after ?steps ?vs InMemoryEnv_new)" and
    rec: "\<forall>env2 hs2 k. env_ok (env2, hs2) \<and> file_at env2 (CurrentFileName ''db'') = file_at env' (CurrentFileName ''db'') \<and>
       file_at env2 (DescriptorFileName ''db'' 0) = Some (take k (manifest_after ?steps ?vs InMemoryEnv_new)) \<and> length (?M 1) \<le> k \<longrightarrow>
       (\<exists>m vs1 env1 save vs2 env3. log_edits (take m ?steps) ?vs InMemoryEnv_new = Some (vs1, env1) \<and>
          Recover ?vs env2 = Some (OK, save, vs2, env3) \<and> same_state vs1 vs2 \<and>
          m \<le> length ?steps \<and> length (?M m) \<le> k \<and> (m < length ?steps \<longrightarrow> k < length (?M (m + 1))))"
    using manifest_recovery [OF bytewise.separating_comparator_axioms VersionSet_new_ok(1) VersionSet_new_fields(8) VersionSet_new_ok(2) [OF name] env none none fit,
      of 2097152 False, unfolded VersionSet_new_fields] by blast
  have "take 1 ?steps = ?steps" by simp
  from rec [rule_format, of env' hs' "length (?M 1)"] run(2,3) obtain m vs1 env1 save vs2 env3 where
    m: "log_edits (take m ?steps) ?vs InMemoryEnv_new = Some (vs1, env1)" "Recover ?vs env' = Some (OK, save, vs2, env3)" "same_state vs1 vs2" "\<not> m < 1"
    unfolding \<open>take 1 ?steps = ?steps\<close> by (auto simp del: log_edits.simps)
  then have "take m ?steps = ?steps" by (cases m) auto
  then show ?thesis using run(1) m(1-3) by auto
qed

end
