(* ===== verification/Cache.thy ===== *)
theory Cache
  imports Bloom "HOL-Library.Multiset"
begin

text \<open>
  The LRU cache (\<open>util/cache.cc\<close>; the shards of \<open>util/table_cache_lru.cc\<close> are the same code): the hash table of the
  handles, one shard with its two lists and reference counts, and the sharded cache. A linked list is the list of the handles
  on it, oldest first. An operation on a handle that has been freed has no result (\<open>None\<close>).
\<close>

section \<open>The hash table\<close>

type_synonym handle_ref = nat

record 'v LRUHandle =
  h_value :: 'v
  h_charge :: nat
  h_key :: bytes
  h_in_cache :: bool
  h_refs :: nat
  h_hash :: u32

type_synonym 'v handles = "handle_ref \<Rightarrow> 'v LRUHandle option"

record HandleTable =
  ht_length :: nat
  ht_elems :: nat
  ht_list :: "handle_ref list list"

definition slot :: "u32 \<Rightarrow> nat \<Rightarrow> nat" where
  "slot hash len = unat (hash AND (of_nat len - 1))"

definition same_key :: "'v handles \<Rightarrow> bytes \<Rightarrow> u32 \<Rightarrow> handle_ref \<Rightarrow> bool" where
  "same_key heap key hash h = (case heap h of None \<Rightarrow> False | Some e \<Rightarrow> h_hash e = hash \<and> h_key e = key)"

text \<open>The handles of the bucket before the pointer that is found, and those from it on.\<close>

definition FindPointer :: "'v handles \<Rightarrow> bytes \<Rightarrow> u32 \<Rightarrow> HandleTable \<Rightarrow> handle_ref list \<times> handle_ref list" where
  "FindPointer heap key hash t =
     (let bucket = ht_list t ! slot hash (ht_length t)
      in (takeWhile (\<lambda>h. \<not> same_key heap key hash h) bucket, dropWhile (\<lambda>h. \<not> same_key heap key hash h) bucket))"

function grow :: "nat \<Rightarrow> nat \<Rightarrow> nat" where
  "grow new_length elems = (if 0 < new_length \<and> new_length < elems then grow (new_length * 2) elems else new_length)"
  by pat_completeness auto
termination by (relation "measure (\<lambda>(new_length, elems). elems - new_length)") auto

declare grow.simps [simp del]

definition handle_hash :: "'v handles \<Rightarrow> handle_ref \<Rightarrow> u32" where
  "handle_hash heap h = (case heap h of None \<Rightarrow> 0 | Some e \<Rightarrow> h_hash e)"

definition rehash :: "'v handles \<Rightarrow> nat \<Rightarrow> handle_ref \<Rightarrow> handle_ref list list \<Rightarrow> handle_ref list list" where
  "rehash heap new_length h new_list =
     (let i = slot (handle_hash heap h) new_length in new_list[i := h # new_list ! i])"

definition Resize :: "'v handles \<Rightarrow> HandleTable \<Rightarrow> HandleTable" where
  "Resize heap t =
     (let new_length = grow 4 (ht_elems t)
      in t\<lparr>ht_length := new_length, ht_list := fold (rehash heap new_length) (concat (ht_list t)) (replicate new_length [])\<rparr>)"

definition HandleTable_new :: HandleTable where
  "HandleTable_new = Resize (\<lambda>_ :: nat. None :: unit LRUHandle option) \<lparr>ht_length = 0, ht_elems = 0, ht_list = []\<rparr>"

definition HandleTable_Lookup :: "'v handles \<Rightarrow> bytes \<Rightarrow> u32 \<Rightarrow> HandleTable \<Rightarrow> handle_ref option" where
  "HandleTable_Lookup heap key hash t = (case snd (FindPointer heap key hash t) of [] \<Rightarrow> None | h # _ \<Rightarrow> Some h)"

definition HandleTable_Insert :: "'v handles \<Rightarrow> handle_ref \<Rightarrow> 'v LRUHandle \<Rightarrow> HandleTable \<Rightarrow> handle_ref option \<times> HandleTable" where
  "HandleTable_Insert heap h e t =
     (let (before, ptr) = FindPointer heap (h_key e) (h_hash e) t;
          t = t\<lparr>ht_list := (ht_list t)[slot (h_hash e) (ht_length t) := before @ h # tl ptr]\<rparr>
      in case ptr of
           [] \<Rightarrow>
             (let t = t\<lparr>ht_elems := ht_elems t + 1\<rparr>
              in (None, if ht_elems t > ht_length t then Resize heap t else t))
         | old # _ \<Rightarrow> (Some old, t))"

definition HandleTable_Remove :: "'v handles \<Rightarrow> bytes \<Rightarrow> u32 \<Rightarrow> HandleTable \<Rightarrow> handle_ref option \<times> HandleTable" where
  "HandleTable_Remove heap key hash t =
     (let (before, ptr) = FindPointer heap key hash t
      in case ptr of
           [] \<Rightarrow> (None, t)
         | h # rest \<Rightarrow> (Some h, t\<lparr>ht_list := (ht_list t)[slot hash (ht_length t) := before @ rest], ht_elems := ht_elems t - 1\<rparr>))"

section \<open>A shard\<close>

text \<open>\<open>lc_deleted\<close> are the entries that have been passed to the deleter.\<close>

record 'v LRUCache =
  lc_capacity :: nat
  lc_usage :: nat
  lc_lru :: "handle_ref list"
  lc_in_use :: "handle_ref list"
  lc_table :: HandleTable
  lc_heap :: "'v handles"
  lc_next :: handle_ref
  lc_deleted :: "(bytes \<times> 'v) list"

definition LRUCache_new :: "nat \<Rightarrow> 'v LRUCache" where
  "LRUCache_new capacity =
     \<lparr>lc_capacity = capacity, lc_usage = 0, lc_lru = [], lc_in_use = [], lc_table = HandleTable_new, lc_heap = (\<lambda>_. None), lc_next = 0, lc_deleted = []\<rparr>"

definition LRU_Remove :: "handle_ref \<Rightarrow> 'v LRUCache \<Rightarrow> 'v LRUCache" where
  "LRU_Remove h c = c\<lparr>lc_lru := remove1 h (lc_lru c), lc_in_use := remove1 h (lc_in_use c)\<rparr>"

definition LRU_Ref :: "handle_ref \<Rightarrow> 'v LRUCache \<Rightarrow> 'v LRUCache option" where
  "LRU_Ref h c =
     (case lc_heap c h of
        None \<Rightarrow> None
      | Some e \<Rightarrow>
          let c = (if h_refs e = 1 \<and> h_in_cache e then (let c = LRU_Remove h c in c\<lparr>lc_in_use := lc_in_use c @ [h]\<rparr>) else c)
          in Some (c\<lparr>lc_heap := (lc_heap c)(h \<mapsto> e\<lparr>h_refs := h_refs e + 1\<rparr>)\<rparr>))"

definition LRU_Unref :: "handle_ref \<Rightarrow> 'v LRUCache \<Rightarrow> 'v LRUCache option" where
  "LRU_Unref h c =
     (case lc_heap c h of
        None \<Rightarrow> None
      | Some e \<Rightarrow>
          let e = e\<lparr>h_refs := h_refs e - 1\<rparr>
          in if h_refs e = 0 then Some (c\<lparr>lc_heap := (lc_heap c)(h := None), lc_deleted := lc_deleted c @ [(h_key e, h_value e)]\<rparr>)
             else
               let c = c\<lparr>lc_heap := (lc_heap c)(h \<mapsto> e)\<rparr>
               in if h_in_cache e \<and> h_refs e = 1 then (let c = LRU_Remove h c in Some (c\<lparr>lc_lru := lc_lru c @ [h]\<rparr>))
                  else Some c)"

text \<open>\<open>FinishErase\<close>: the handle has already been removed from the hash table.\<close>

definition FinishErase :: "handle_ref option \<Rightarrow> 'v LRUCache \<Rightarrow> (bool \<times> 'v LRUCache) option" where
  "FinishErase p c =
     (case p of
        None \<Rightarrow> Some (False, c)
      | Some h \<Rightarrow>
          (case lc_heap c h of
             None \<Rightarrow> None
           | Some e \<Rightarrow>
               let c = LRU_Remove h c;
                   c = c\<lparr>lc_heap := (lc_heap c)(h \<mapsto> e\<lparr>h_in_cache := False\<rparr>), lc_usage := lc_usage c - h_charge e\<rparr>
               in map_option (Pair True) (LRU_Unref h c)))"

definition erase_key :: "bytes \<Rightarrow> u32 \<Rightarrow> 'v LRUCache \<Rightarrow> (bool \<times> 'v LRUCache) option" where
  "erase_key key hash c =
     (let (p, t) = HandleTable_Remove (lc_heap c) key hash (lc_table c) in FinishErase p (c\<lparr>lc_table := t\<rparr>))"

definition LRUCache_Lookup :: "bytes \<Rightarrow> u32 \<Rightarrow> 'v LRUCache \<Rightarrow> (handle_ref option \<times> 'v LRUCache) option" where
  "LRUCache_Lookup key hash c =
     (case HandleTable_Lookup (lc_heap c) key hash (lc_table c) of
        None \<Rightarrow> Some (None, c)
      | Some h \<Rightarrow> map_option (Pair (Some h)) (LRU_Ref h c))"

definition LRUCache_Release :: "handle_ref \<Rightarrow> 'v LRUCache \<Rightarrow> 'v LRUCache option" where
  "LRUCache_Release = LRU_Unref"

text \<open>The loop that makes room: the oldest handle that no client holds goes. It also ends the use of \<open>Prune\<close>, which goes on until none is left.\<close>

partial_function (option) evict_while :: "('v LRUCache \<Rightarrow> bool) \<Rightarrow> 'v LRUCache \<Rightarrow> 'v LRUCache option" where
  "evict_while cond c =
     (if cond c \<and> lc_lru c \<noteq> [] then
        case lc_heap c (hd (lc_lru c)) of
          None \<Rightarrow> None
        | Some old \<Rightarrow>
            (case erase_key (h_key old) (h_hash old) c of
               None \<Rightarrow> None
             | Some (erased, c) \<Rightarrow> evict_while cond c)
      else Some c)"

declare evict_while.simps [code]

definition LRUCache_Insert :: "bytes \<Rightarrow> u32 \<Rightarrow> 'v \<Rightarrow> nat \<Rightarrow> 'v LRUCache \<Rightarrow> (handle_ref \<times> 'v LRUCache) option" where
  "LRUCache_Insert key hash val charge c =
     (let h = lc_next c;
          e = \<lparr>h_value = val, h_charge = charge, h_key = key, h_in_cache = False, h_refs = 1, h_hash = hash\<rparr>;
          c = c\<lparr>lc_next := h + 1\<rparr>
      in case (if lc_capacity c > 0 then
                 let e = e\<lparr>h_refs := h_refs e + 1, h_in_cache := True\<rparr>;
                     c = c\<lparr>lc_heap := (lc_heap c)(h \<mapsto> e), lc_in_use := lc_in_use c @ [h], lc_usage := lc_usage c + charge\<rparr>;
                     (old, t) = HandleTable_Insert (lc_heap c) h e (lc_table c)
                 in map_option snd (FinishErase old (c\<lparr>lc_table := t\<rparr>))
               else Some (c\<lparr>lc_heap := (lc_heap c)(h \<mapsto> e)\<rparr>)) of
           None \<Rightarrow> None
         | Some c \<Rightarrow> map_option (Pair h) (evict_while (\<lambda>c. lc_usage c > lc_capacity c) c))"

definition LRUCache_Erase :: "bytes \<Rightarrow> u32 \<Rightarrow> 'v LRUCache \<Rightarrow> 'v LRUCache option" where
  "LRUCache_Erase key hash c = map_option snd (erase_key key hash c)"

definition LRUCache_Prune :: "'v LRUCache \<Rightarrow> 'v LRUCache option" where
  "LRUCache_Prune = evict_while (\<lambda>_. True)"

definition LRUCache_TotalCharge :: "'v LRUCache \<Rightarrow> nat" where
  "LRUCache_TotalCharge c = lc_usage c"

text \<open>The destructor, when no client holds a handle.\<close>

definition LRUCache_delete :: "'v LRUCache \<Rightarrow> 'v LRUCache option" where
  "LRUCache_delete c =
     fold (\<lambda>h r. case r of
        None \<Rightarrow> None
      | Some c \<Rightarrow>
          (case lc_heap c h of
             None \<Rightarrow> None
           | Some e \<Rightarrow> LRU_Unref h (c\<lparr>lc_heap := (lc_heap c)(h \<mapsto> e\<lparr>h_in_cache := False\<rparr>)\<rparr>))) (lc_lru c) (Some c)"

section \<open>The shards\<close>

definition kNumShards :: nat where
  "kNumShards = 16"

definition HashSlice :: "bytes \<Rightarrow> u32" where
  "HashSlice s = Hash s 0"

definition Shard :: "u32 \<Rightarrow> nat" where
  "Shard hash = unat (drop_bit 28 hash)"

record 'v ShardedLRUCache =
  sc_shard :: "'v LRUCache list"
  sc_last_id :: u64

text \<open>A handle together with the shard that its hash selects.\<close>

type_synonym sharded_handle = "nat \<times> handle_ref"

definition NewLRUCache :: "nat \<Rightarrow> 'v ShardedLRUCache" where
  "NewLRUCache capacity = \<lparr>sc_shard = replicate kNumShards (LRUCache_new ((capacity + (kNumShards - 1)) div kNumShards)), sc_last_id = 0\<rparr>"

definition Sharded_Insert :: "bytes \<Rightarrow> 'v \<Rightarrow> nat \<Rightarrow> 'v ShardedLRUCache \<Rightarrow> (sharded_handle \<times> 'v ShardedLRUCache) option" where
  "Sharded_Insert key val charge sc =
     (let hash = HashSlice key; s = Shard hash
      in map_option (\<lambda>(h, c). ((s, h), sc\<lparr>sc_shard := (sc_shard sc)[s := c]\<rparr>)) (LRUCache_Insert key hash val charge (sc_shard sc ! s)))"

definition Sharded_Lookup :: "bytes \<Rightarrow> 'v ShardedLRUCache \<Rightarrow> (sharded_handle option \<times> 'v ShardedLRUCache) option" where
  "Sharded_Lookup key sc =
     (let hash = HashSlice key; s = Shard hash
      in map_option (\<lambda>(p, c). (map_option (Pair s) p, sc\<lparr>sc_shard := (sc_shard sc)[s := c]\<rparr>)) (LRUCache_Lookup key hash (sc_shard sc ! s)))"

definition Sharded_Release :: "sharded_handle \<Rightarrow> 'v ShardedLRUCache \<Rightarrow> 'v ShardedLRUCache option" where
  "Sharded_Release handle sc =
     (let (s, h) = handle in map_option (\<lambda>c. sc\<lparr>sc_shard := (sc_shard sc)[s := c]\<rparr>) (LRUCache_Release h (sc_shard sc ! s)))"

definition Sharded_Erase :: "bytes \<Rightarrow> 'v ShardedLRUCache \<Rightarrow> 'v ShardedLRUCache option" where
  "Sharded_Erase key sc =
     (let hash = HashSlice key; s = Shard hash
      in map_option (\<lambda>c. sc\<lparr>sc_shard := (sc_shard sc)[s := c]\<rparr>) (LRUCache_Erase key hash (sc_shard sc ! s)))"

definition Sharded_Value :: "sharded_handle \<Rightarrow> 'v ShardedLRUCache \<Rightarrow> 'v option" where
  "Sharded_Value handle sc = (let (s, h) = handle in map_option h_value (lc_heap (sc_shard sc ! s) h))"

definition Sharded_NewId :: "'v ShardedLRUCache \<Rightarrow> u64 \<times> 'v ShardedLRUCache" where
  "Sharded_NewId sc = (let id = sc_last_id sc + 1 in (id, sc\<lparr>sc_last_id := id\<rparr>))"

definition Sharded_Prune :: "'v ShardedLRUCache \<Rightarrow> 'v ShardedLRUCache option" where
  "Sharded_Prune sc =
     fold (\<lambda>s r. case r of
        None \<Rightarrow> None
      | Some sc \<Rightarrow> map_option (\<lambda>c. sc\<lparr>sc_shard := (sc_shard sc)[s := c]\<rparr>) (LRUCache_Prune (sc_shard sc ! s))) [0..<kNumShards] (Some sc)"

definition Sharded_TotalCharge :: "'v ShardedLRUCache \<Rightarrow> nat" where
  "Sharded_TotalCharge sc = sum_list (map LRUCache_TotalCharge (sc_shard sc))"

section \<open>The hash table is a map\<close>

definition table_set :: "HandleTable \<Rightarrow> handle_ref set" where
  "table_set t = set (concat (ht_list t))"

definition table_ok :: "'v handles \<Rightarrow> HandleTable \<Rightarrow> bool" where
  "table_ok heap t \<longleftrightarrow> 4 \<le> ht_length t \<and> (\<exists>k. ht_length t = 2 ^ k) \<and> length (ht_list t) = ht_length t \<and> ht_elems t = length (concat (ht_list t)) \<and>
     (\<forall>i<ht_length t. distinct (ht_list t ! i)) \<and>
     (\<forall>i<ht_length t. \<forall>h\<in>set (ht_list t ! i). \<exists>e. heap h = Some e \<and> slot (h_hash e) (ht_length t) = i) \<and>
     (\<forall>h\<in>table_set t. \<forall>h'\<in>table_set t. \<forall>e e'. heap h = Some e \<longrightarrow> heap h' = Some e' \<longrightarrow> h_key e = h_key e' \<longrightarrow> h_hash e = h_hash e' \<longrightarrow> h = h')"

lemma table_okD:
  assumes "table_ok heap t"
  shows "4 \<le> ht_length t" "\<exists>k. ht_length t = 2 ^ k" "length (ht_list t) = ht_length t" "ht_elems t = length (concat (ht_list t))"
    "i < ht_length t \<Longrightarrow> distinct (ht_list t ! i)" "i < ht_length t \<Longrightarrow> h \<in> set (ht_list t ! i) \<Longrightarrow> \<exists>e. heap h = Some e \<and> slot (h_hash e) (ht_length t) = i"
    "h \<in> table_set t \<Longrightarrow> h' \<in> table_set t \<Longrightarrow> heap h = Some e \<Longrightarrow> heap h' = Some e' \<Longrightarrow> h_key e = h_key e' \<Longrightarrow> h_hash e = h_hash e' \<Longrightarrow> h = h'"
  using assms unfolding table_ok_def by blast+

lemma table_set_nth: "table_ok heap t \<Longrightarrow> h \<in> table_set t \<longleftrightarrow> (\<exists>i<ht_length t. h \<in> set (ht_list t ! i))"
  using table_okD(3) [of heap t] unfolding table_set_def set_concat by (metis UN_iff in_set_conv_nth)

lemma slot_less: "4 \<le> len \<Longrightarrow> len = 2 ^ k \<Longrightarrow> slot hash len < len"
proof -
  assume len: "4 \<le> len" "len = 2 ^ k"
  have "(of_nat len - 1 :: u32) = mask k" by (simp add: len(2) mask_eq_exp_minus_1)
  then have "slot hash len = unat (take_bit k hash)" by (simp add: slot_def take_bit_eq_mask)
  also have "\<dots> < 2 ^ k" using unat_of_nat by (metis unsigned_take_bit_eq take_bit_nat_less_exp)
  finally show ?thesis by (simp add: len(2))
qed

lemma grow_ok: "4 \<le> n \<Longrightarrow> n = 2 ^ k \<Longrightarrow> 4 \<le> grow n elems \<and> (\<exists>k. grow n elems = 2 ^ k) \<and> elems \<le> grow n elems"
proof (induction n elems arbitrary: k rule: grow.induct)
  case (1 n elems)
  have unfold: "grow n elems = (if n < elems then grow (n * 2) elems else n)" using "1.prems" by (subst grow.simps) simp
  show ?case
  proof (cases "n < elems")
    case True
    then show ?thesis using "1.IH" [of "Suc k"] "1.prems" unfolding unfold by simp
  next
    case False
    then show ?thesis using "1.prems" unfolding unfold by auto
  qed
qed

lemma rehash_all:
  assumes "4 \<le> len" "len = 2 ^ k"
  shows "nl = fold (rehash heap len) hs (replicate len []) \<Longrightarrow> length nl = len \<and> mset (concat nl) = mset hs \<and>
    (\<forall>i<len. \<forall>h\<in>set (nl ! i). slot (handle_hash heap h) len = i)"
proof (induction hs arbitrary: nl rule: rev_induct)
  case Nil
  then show ?case by simp
next
  case (snoc h hs)
  define nl0 where "nl0 = fold (rehash heap len) hs (replicate len [])"
  let ?i = "slot (handle_hash heap h) len"
  have nl: "nl = nl0[?i := h # nl0 ! ?i]" using snoc.prems unfolding nl0_def fold_append comp_apply fold_simps rehash_def [of heap len h] Let_def .
  note IH = snoc.IH [OF nl0_def]
  have i: "?i < length nl0" using slot_less [OF assms] IH by simp
  have "mset (concat nl) = add_mset h (mset (concat nl0))"
    unfolding nl upd_conv_take_nth_drop [OF i] using arg_cong [OF id_take_nth_drop [OF i], of "\<lambda>x. mset (concat x)"] by simp
  then show ?case using IH i by (auto simp: nl nth_list_update)
qed

lemma Resize_ok:
  assumes len: "ht_elems t = length (concat (ht_list t))" and d: "distinct (concat (ht_list t))"
    and live: "\<forall>h\<in>table_set t. heap h \<noteq> None"
    and keys: "\<forall>h\<in>table_set t. \<forall>h'\<in>table_set t. \<forall>e e'. heap h = Some e \<longrightarrow> heap h' = Some e' \<longrightarrow> h_key e = h_key e' \<longrightarrow> h_hash e = h_hash e' \<longrightarrow> h = h'"
  shows "table_ok heap (Resize heap t) \<and> table_set (Resize heap t) = table_set t"
proof -
  define len where "len = grow 4 (ht_elems t)"
  define nl where "nl = fold (rehash heap len) (concat (ht_list t)) (replicate len [])"
  have "(4 :: nat) = 2 ^ 2" by simp
  from grow_ok [OF order_refl this, of "ht_elems t", folded len_def] obtain k where k: "4 \<le> len" "len = 2 ^ k" by blast
  have t: "Resize heap t = t\<lparr>ht_length := len, ht_list := nl\<rparr>" by (simp add: Resize_def Let_def len_def nl_def)
  have nl: "length nl = len" "mset (concat nl) = mset (concat (ht_list t))" "\<And>i h. i < len \<Longrightarrow> h \<in> set (nl ! i) \<Longrightarrow> slot (handle_hash heap h) len = i"
    using rehash_all [OF k nl_def] by blast+
  have m: "set (concat nl) = set (concat (ht_list t))" "distinct (concat nl)" "length (concat nl) = length (concat (ht_list t))"
    using d mset_eq_setD [OF nl(2)] mset_eq_imp_distinct_iff [OF nl(2)] mset_eq_length [OF nl(2)] by simp_all
  have "\<exists>e. heap h = Some e \<and> slot (h_hash e) len = i" if "i < len" "h \<in> set (nl ! i)" for i h
  proof -
    have "nl ! i \<in> set nl" using that(1) nl(1) by simp
    then have "h \<in> set (concat nl)" using that(2) unfolding set_concat by blast
    then obtain e where e: "heap h = Some e" using live m(1) unfolding table_set_def by blast
    then show ?thesis using nl(3) [OF that] by (simp add: handle_hash_def)
  qed
  moreover have "table_set (Resize heap t) = table_set t" unfolding table_set_def t using m(1) by simp
  moreover have "distinct (nl ! i)" if "i < len" for i using m(2) that nl(1) by (metis distinct_concat_iff nth_mem)
  ultimately show ?thesis using k m(3) nl(1) assms(1) keys unfolding table_ok_def t by auto
qed

text \<open>The table reads only keys and hashes of the handles in it.\<close>

definition same_keys :: "handle_ref set \<Rightarrow> 'v handles \<Rightarrow> 'v handles \<Rightarrow> bool" where
  "same_keys A heap heap' \<longleftrightarrow> (\<forall>h\<in>A. map_option (\<lambda>e. (h_key e, h_hash e)) (heap' h) = map_option (\<lambda>e. (h_key e, h_hash e)) (heap h))"

lemma same_keysD:
  assumes "same_keys A heap heap'" "h \<in> A" "heap' h = Some e'"
  shows "\<exists>e. heap h = Some e \<and> h_key e = h_key e' \<and> h_hash e = h_hash e'"
  using assms by (cases "heap h") (fastforce simp: same_keys_def)+

lemma table_ok_heap:
  assumes "table_ok heap t" "same_keys (table_set t) heap heap'"
  shows "table_ok heap' t"
proof -
  note T = table_okD [OF assms(1)]
  have "\<exists>e. heap' h = Some e \<and> slot (h_hash e) (ht_length t) = i" if h: "i < ht_length t" "h \<in> set (ht_list t ! i)" for i h
  proof -
    obtain e where e: "heap h = Some e" "slot (h_hash e) (ht_length t) = i" using T(6) [OF h] by blast
    have "h \<in> table_set t" using table_set_nth [OF assms(1)] h by blast
    then have "map_option (\<lambda>e. (h_key e, h_hash e)) (heap' h) = Some (h_key e, h_hash e)" using assms(2) e(1) by (simp add: same_keys_def)
    then show ?thesis using e(2) by auto
  qed
  moreover have "h = h'" if "h \<in> table_set t" "h' \<in> table_set t" "heap' h = Some e" "heap' h' = Some e'" "h_key e = h_key e'" "h_hash e = h_hash e'" for h h' e e'
    using same_keysD [OF assms(2) that(1,3)] same_keysD [OF assms(2) that(2,4)] T(7) [OF that(1,2)] that(5,6) by metis
  ultimately show ?thesis using T(1-4) T(5) unfolding table_ok_def by blast
qed

lemma concat_update:
  assumes "i < length xs"
  shows "mset (concat (xs[i := b])) + mset (xs ! i) = mset (concat xs) + mset b"
  unfolding upd_conv_take_nth_drop [OF assms] using arg_cong [OF id_take_nth_drop [OF assms], of "\<lambda>x. mset (concat x)"] by simp

lemma FindPointer_ok:
  assumes t: "table_ok heap t" and p: "FindPointer heap key hash t = (before, ptr)"
  shows "slot hash (ht_length t) < length (ht_list t)" "ht_list t ! slot hash (ht_length t) = before @ ptr"
    "ptr = [] \<Longrightarrow> h \<in> table_set t \<Longrightarrow> \<not> same_key heap key hash h"
    "ptr = h # rest \<Longrightarrow> same_key heap key hash h \<and> h \<in> table_set t \<and> (\<forall>h'\<in>table_set t. same_key heap key hash h' \<longrightarrow> h' = h)"
proof -
  let ?i = "slot hash (ht_length t)"
  show i: "?i < length (ht_list t)" using table_okD(1-3) [OF t] slot_less by metis
  show bucket: "ht_list t ! ?i = before @ ptr" using p by (simp add: FindPointer_def Let_def) (metis takeWhile_dropWhile_id)
  have at: "h' \<in> set (ht_list t ! ?i)" if h': "h' \<in> table_set t" "same_key heap key hash h'" for h'
  proof -
    obtain j where j: "j < ht_length t" "h' \<in> set (ht_list t ! j)" using h'(1) table_set_nth [OF t] by blast
    then obtain e where "heap h' = Some e" "slot (h_hash e) (ht_length t) = j" using table_okD(6) [OF t] by blast
    then show ?thesis using h'(2) j by (simp add: same_key_def)
  qed
  have before: "\<not> same_key heap key hash h'" if "h' \<in> set before" for h'
    using p that set_takeWhileD by (fastforce simp: FindPointer_def Let_def)
  show "\<not> same_key heap key hash h" if "ptr = []" "h \<in> table_set t"
    using at [OF that(2)] bucket before that(1) by auto
  show "same_key heap key hash h \<and> h \<in> table_set t \<and> (\<forall>h'\<in>table_set t. same_key heap key hash h' \<longrightarrow> h' = h)" if "ptr = h # rest"
  proof -
    have key: "same_key heap key hash h"
      using p that dropWhile_eq_Cons_conv [of "\<lambda>h. \<not> same_key heap key hash h"] by (auto simp: FindPointer_def Let_def)
    have "h \<in> table_set t" using bucket that i table_okD(3) [OF t] table_set_nth [OF t, of h] by (metis in_set_conv_decomp)
    moreover have "h' = h" if "h' \<in> table_set t" "same_key heap key hash h'" for h'
      using that key calculation table_okD(7) [OF t] unfolding same_key_def by (auto split: option.splits)
    ultimately show ?thesis using key by blast
  qed
qed

lemma HandleTable_Lookup_ok:
  assumes "table_ok heap t"
  shows "HandleTable_Lookup heap key hash t = Some h \<longleftrightarrow> h \<in> table_set t \<and> same_key heap key hash h"
proof -
  obtain before ptr where p: "FindPointer heap key hash t = (before, ptr)" by (cases "FindPointer heap key hash t")
  note F = FindPointer_ok [OF assms p]
  show ?thesis using F(3) F(4) by (cases ptr) (auto simp: HandleTable_Lookup_def p)
qed

text \<open>A bucket replaced by one with a handle more or less.\<close>

lemma table_ok_bucket:
  assumes t: "table_ok heap t" and i: "i < ht_length t" and b: "distinct b" "set b = set (ht_list t ! i) - A \<union> B" "A \<subseteq> set (ht_list t ! i)"
    and B: "\<And>h. h \<in> B \<Longrightarrow> h \<notin> table_set t \<and> (\<exists>e. heap h = Some e \<and> slot (h_hash e) (ht_length t) = i)"
    and keys: "\<And>h h' e e'. h \<in> B \<Longrightarrow> h' \<in> table_set t - A \<union> B \<Longrightarrow> heap h = Some e \<Longrightarrow> heap h' = Some e' \<Longrightarrow> h_key e = h_key e' \<Longrightarrow> h_hash e = h_hash e' \<Longrightarrow> h = h'"
    and t': "t' = t\<lparr>ht_list := (ht_list t)[i := b], ht_elems := n\<rparr>" and n: "n + length (ht_list t ! i) = ht_elems t + length b"
  shows "table_ok heap t' \<and> table_set t' = table_set t - A \<union> B"
proof -
  note T = table_okD [OF t]
  have bucket: "ht_list t' ! j = (if j = i then b else ht_list t ! j)" "length (ht_list t') = ht_length t" "ht_length t' = ht_length t" if "j < ht_length t" for j
    using that T(3) by (simp_all add: t')
  have live: "\<exists>e. heap h = Some e \<and> slot (h_hash e) (ht_length t) = j" if h: "j < ht_length t" "h \<in> set (ht_list t' ! j)" for j h
    using h bucket(1) [OF h(1)] b(2) B T(6) [OF h(1)] by (auto split: if_splits)
  have A: "h \<notin> A" if "j < ht_length t" "j \<noteq> i" "h \<in> set (ht_list t ! j)" for j h
    using T(6) [OF that(1,3)] T(6) [OF i, of h] b(3) that(2) by auto
  have set': "h \<in> table_set t' \<longleftrightarrow> h \<in> table_set t - A \<union> B" for h
  proof -
    have "h \<in> table_set t' \<longleftrightarrow> (\<exists>j<ht_length t. h \<in> set (ht_list t' ! j))"
      using bucket(2) [OF i] unfolding table_set_def set_concat by (metis UN_iff in_set_conv_nth)
    also have "\<dots> \<longleftrightarrow> (\<exists>j<ht_length t. j \<noteq> i \<and> h \<in> set (ht_list t ! j)) \<or> h \<in> set b" using i by (auto simp: bucket(1) split: if_splits)
    also have "\<dots> \<longleftrightarrow> h \<in> table_set t - A \<union> B" using A b(2) i unfolding table_set_nth [OF t] Diff_iff Un_iff by blast
    finally show ?thesis .
  qed
  have "h = h'"
    if m: "h \<in> table_set t'" "h' \<in> table_set t'" "heap h = Some e" "heap h' = Some e'" "h_key e = h_key e'" "h_hash e = h_hash e'" for h h' e e'
  proof -
    have m': "h \<in> table_set t - A \<union> B" "h' \<in> table_set t - A \<union> B" using m(1,2) by (simp_all only: set')
    then consider "h \<in> B" | "h' \<in> B" | "h \<in> table_set t" "h' \<in> table_set t" by blast
    then show ?thesis
      using m' keys [OF _ _ m(3-6)] keys [OF _ _ m(4,3) m(5,6) [symmetric]] T(7) [OF _ _ m(3-6)] by cases metis+
  qed
  moreover have "ht_elems t' = length (concat (ht_list t'))"
  proof -
    have "i < length (ht_list t)" using i T(3) by simp
    then have "length (concat ((ht_list t)[i := b])) + length (ht_list t ! i) = length (concat (ht_list t)) + length b"
      using arg_cong [OF concat_update, of i "ht_list t" size b] unfolding size_union size_mset by blast
    then have "n = length (concat ((ht_list t)[i := b]))" using T(4) n by linarith
    then show ?thesis unfolding t' by (simp del: length_concat)
  qed
  ultimately show ?thesis using T(1-5) bucket live b(1) set' i unfolding table_ok_def by auto
qed

lemma HandleTable_Remove_ok:
  assumes t: "table_ok heap t" and r: "HandleTable_Remove heap key hash t = (p, t')"
  shows "table_ok heap t' \<and> table_set t' = table_set t - set_option p \<and> p = HandleTable_Lookup heap key hash t"
proof -
  obtain before ptr where f: "FindPointer heap key hash t = (before, ptr)" by (cases "FindPointer heap key hash t")
  note F = FindPointer_ok [OF t f]
  let ?i = "slot hash (ht_length t)"
  show ?thesis
  proof (cases ptr)
    case Nil
    then show ?thesis using r t f by (simp add: HandleTable_Remove_def HandleTable_Lookup_def)
  next
    case (Cons h rest)
    have i: "?i < ht_length t" using F(1) table_okD(3) [OF t] by simp
    have p: "p = Some h" "t' = t\<lparr>ht_list := (ht_list t)[?i := before @ rest], ht_elems := ht_elems t - 1\<rparr>"
      using r f Cons by (simp_all add: HandleTable_Remove_def)
    have d: "distinct (before @ h # rest)" using table_okD(5) [OF t i] F(2) Cons by simp
    have "0 < ht_elems t"
    proof -
      have "h \<in> set (concat (ht_list t))" using F(4) [OF Cons] by (simp only: table_set_def)
      then show ?thesis unfolding table_okD(4) [OF t] by (cases "concat (ht_list t)") simp_all
    qed
    then have "table_ok heap t' \<and> table_set t' = table_set t - {h} \<union> {}"
      using d F(2) Cons by (intro table_ok_bucket [OF t i _ _ _ _ _ p(2)]) auto
    then show ?thesis using p(1) f Cons by (simp add: HandleTable_Lookup_def)
  qed
qed

lemma distinct_buckets:
  "(\<And>i. i < length xs \<Longrightarrow> distinct (xs ! i)) \<Longrightarrow> (\<And>i h. i < length xs \<Longrightarrow> h \<in> set (xs ! i) \<Longrightarrow> f h = i + n) \<Longrightarrow> distinct (concat xs)"
proof (induction xs arbitrary: n)
  case (Cons x xs)
  have "distinct (concat xs)" using Cons.prems(1) [of "Suc _"] Cons.prems(2) [of "Suc _"] by (intro Cons.IH [of "Suc n"]) simp_all
  moreover have "f h \<noteq> n" if "h \<in> set (concat xs)" for h using that Cons.prems(2) [of "Suc _"] by (fastforce simp: in_set_conv_nth)
  ultimately show ?case using Cons.prems(1) [of 0] Cons.prems(2) [of 0] by fastforce
qed simp

lemma table_distinct:
  assumes "table_ok heap t"
  shows "distinct (concat (ht_list t))"
proof (rule distinct_buckets [where n = 0])
  note T = table_okD [OF assms]
  show "distinct (ht_list t ! i)" if "i < length (ht_list t)" for i using T(3,5) that by simp
  show "(\<lambda>h. slot (h_hash (the (heap h))) (ht_length t)) h = i + 0" if "i < length (ht_list t)" "h \<in> set (ht_list t ! i)" for i h
    using T(3) T(6) [of i h] that by auto
qed

lemma Resize_table:
  assumes "table_ok heap t"
  shows "table_ok heap (Resize heap t) \<and> table_set (Resize heap t) = table_set t"
proof (rule Resize_ok)
  note T = table_okD [OF assms]
  show "ht_elems t = length (concat (ht_list t))" "distinct (concat (ht_list t))" using T(4) table_distinct [OF assms] .
  show "\<forall>h\<in>table_set t. heap h \<noteq> None" using T(6) table_set_nth [OF assms] by fastforce
  show "\<forall>h\<in>table_set t. \<forall>h'\<in>table_set t. \<forall>e e'. heap h = Some e \<longrightarrow> heap h' = Some e' \<longrightarrow> h_key e = h_key e' \<longrightarrow> h_hash e = h_hash e' \<longrightarrow> h = h'"
    using T(7) by blast
qed

lemma HandleTable_Insert_ok:
  assumes t: "table_ok heap t" and h: "h \<notin> table_set t" "heap h = Some e" and r: "HandleTable_Insert heap h e t = (p, t')"
  shows "table_ok heap t' \<and> table_set t' = insert h (table_set t - set_option p) \<and> p = HandleTable_Lookup heap (h_key e) (h_hash e) t"
proof -
  obtain before ptr where f: "FindPointer heap (h_key e) (h_hash e) t = (before, ptr)" by (cases "FindPointer heap (h_key e) (h_hash e) t")
  note F = FindPointer_ok [OF t f]
  let ?i = "slot (h_hash e) (ht_length t)"
  have i: "?i < ht_length t" using F(1) table_okD(3) [OF t] by simp
  have new: "h \<notin> set (before @ ptr)" using h(1) table_set_nth [OF t, of h] i F(2) by metis
  have d: "distinct (before @ ptr)" using table_okD(5) [OF t i] F(2) by simp
  show ?thesis
  proof (cases ptr)
    case Nil
    define t1 where "t1 = t\<lparr>ht_list := (ht_list t)[?i := before @ [h]], ht_elems := ht_elems t + 1\<rparr>"
    have r1: "p = None" "t' = (if ht_elems t1 > ht_length t1 then Resize heap t1 else t1)"
      using r f Nil by (simp_all add: HandleTable_Insert_def Let_def t1_def split: if_splits)
    have other: "\<not> (h_key e' = h_key e \<and> h_hash e' = h_hash e)" if "h' \<in> table_set t" "heap h' = Some e'" for h' e'
      using F(3) [OF Nil that(1)] that(2) by (auto simp: same_key_def)
    have t1: "table_ok heap t1 \<and> table_set t1 = table_set t - {} \<union> {h}"
      using d F(2) Nil h new other by (intro table_ok_bucket [OF t i _ _ _ _ _ t1_def]) auto
    then have "table_ok heap (Resize heap t1) \<and> table_set (Resize heap t1) = table_set t1" using Resize_table by blast
    then show ?thesis using t1 r1 f Nil by (simp add: HandleTable_Lookup_def)
  next
    case (Cons old rest)
    have r1: "p = Some old" "t' = t\<lparr>ht_list := (ht_list t)[?i := before @ h # rest], ht_elems := ht_elems t\<rparr>"
      using r f Cons by (auto simp: HandleTable_Insert_def)
    have other: "h' = old" if "h' \<in> table_set t" "heap h' = Some e'" "h_key e' = h_key e" "h_hash e' = h_hash e" for h' e'
      using F(4) [OF Cons] that by (auto simp: same_key_def)
    have "table_ok heap t' \<and> table_set t' = table_set t - {old} \<union> {h}"
      using d F(2) Cons h new other by (intro table_ok_bucket [OF t i _ _ _ _ _ r1(2)]) auto
    then show ?thesis using r1(1) f Cons by (simp add: HandleTable_Lookup_def)
  qed
qed

section \<open>Reference counts and lists\<close>

text \<open>
  The handles of a shard, of which those in \<open>T\<close> are in the cache; \<open>held\<close> counts the references of clients. An entry is on the LRU list
  if the cache alone holds it, and on the other list if clients hold it too.
\<close>

definition shard_ok :: "(handle_ref \<Rightarrow> nat) \<Rightarrow> handle_ref set \<Rightarrow> 'v LRUCache \<Rightarrow> bool" where
  "shard_ok held T c \<longleftrightarrow> finite T \<and>
     (\<forall>h. lc_heap c h = None \<longrightarrow> held h = 0 \<and> h \<notin> T) \<and>
     (\<forall>h e. lc_heap c h = Some e \<longrightarrow> h < lc_next c \<and> h_in_cache e = (h \<in> T) \<and> h_refs e = held h + (if h \<in> T then 1 else 0) \<and> (h \<in> T \<or> 0 < held h)) \<and>
     distinct (lc_lru c) \<and> distinct (lc_in_use c) \<and> set (lc_lru c) = {h \<in> T. held h = 0} \<and> set (lc_in_use c) = {h \<in> T. 0 < held h} \<and>
     lc_usage c = (\<Sum>h\<in>T. h_charge (the (lc_heap c h)))"

lemma shard_okD:
  assumes "shard_ok held T c"
  shows "finite T" "lc_heap c h = None \<Longrightarrow> held h = 0 \<and> h \<notin> T"
    "lc_heap c h = Some e \<Longrightarrow> h < lc_next c \<and> h_in_cache e = (h \<in> T) \<and> h_refs e = held h + (if h \<in> T then 1 else 0) \<and> (h \<in> T \<or> 0 < held h)"
    "distinct (lc_lru c)" "distinct (lc_in_use c)" "set (lc_lru c) = {h \<in> T. held h = 0}" "set (lc_in_use c) = {h \<in> T. 0 < held h}"
    "lc_usage c = (\<Sum>h\<in>T. h_charge (the (lc_heap c h)))"
  using assms unfolding shard_ok_def by (elim conjE; simp only:; metis)+

definition lru_ok :: "(handle_ref \<Rightarrow> nat) \<Rightarrow> 'v LRUCache \<Rightarrow> bool" where
  "lru_ok held c \<longleftrightarrow> table_ok (lc_heap c) (lc_table c) \<and> shard_ok held (table_set (lc_table c)) c"

text \<open>The key, value and charge of a handle never change.\<close>

definition entry_of :: "'v LRUHandle \<Rightarrow> bytes \<times> 'v \<times> nat \<times> u32" where
  "entry_of e = (h_key e, h_value e, h_charge e, h_hash e)"

text \<open>All entries that were ever inserted: those that are alive and those that were deleted.\<close>

definition live :: "'v handles \<Rightarrow> (bytes \<times> 'v) multiset" where
  "live heap = image_mset (\<lambda>h. (h_key (the (heap h)), h_value (the (heap h)))) (mset_set (dom heap))"

definition all_entries :: "'v LRUCache \<Rightarrow> (bytes \<times> 'v) multiset" where
  "all_entries c = mset (lc_deleted c) + live (lc_heap c)"

definition keeps :: "'v LRUCache \<Rightarrow> 'v LRUCache \<Rightarrow> bool" where
  "keeps c c' \<longleftrightarrow> lc_capacity c' = lc_capacity c \<and> lc_next c' = lc_next c \<and> all_entries c' = all_entries c \<and>
     (\<forall>h e'. lc_heap c' h = Some e' \<longrightarrow> (\<exists>e. lc_heap c h = Some e \<and> entry_of e' = entry_of e))"

lemma keeps_refl [simp]: "keeps c c"
  by (simp add: keeps_def)

lemma keeps_trans: "keeps c c1 \<Longrightarrow> keeps c1 c2 \<Longrightarrow> keeps c c2"
  unfolding keeps_def by metis

lemma shard_finite: "shard_ok held T c \<Longrightarrow> finite (dom (lc_heap c))"
  by (rule finite_subset [of _ "{..<lc_next c}"]) (auto dest: shard_okD(3))

lemma live_update:
  assumes "finite (dom heap)"
  shows "heap h = Some e \<Longrightarrow> entry_of e' = entry_of e \<Longrightarrow> live (heap(h \<mapsto> e')) = live heap"
    "heap h = Some e \<Longrightarrow> live heap = add_mset (h_key e, h_value e) (live (heap(h := None)))"
    "heap h = None \<Longrightarrow> live (heap(h \<mapsto> e)) = add_mset (h_key e, h_value e) (live heap)"
proof -
  have d: "dom (heap(h \<mapsto> e')) = insert h (dom heap - {h})" for e' by auto
  have rest: "image_mset (\<lambda>x. (h_key (the ((heap(h := p)) x)), h_value (the ((heap(h := p)) x)))) (mset_set (dom heap - {h})) =
      image_mset (\<lambda>x. (h_key (the (heap x)), h_value (the (heap x)))) (mset_set (dom heap - {h}))" for p
    by (rule image_mset_cong) (use assms in auto)
  have put: "live (heap(h \<mapsto> e')) = add_mset (h_key e', h_value e') (live (heap(h := None)))" for e'
  proof -
    have "mset_set (dom (heap(h \<mapsto> e'))) = add_mset h (mset_set (dom heap - {h}))" unfolding d by (rule mset_set.insert) (use assms in auto)
    moreover have "dom (heap(h := None)) = dom heap - {h}" by auto
    ultimately show ?thesis unfolding live_def image_mset_add_mset rest by (simp add: rest [unfolded fun_upd_def])
  qed
  show "live heap = add_mset (h_key e, h_value e) (live (heap(h := None)))" if "heap h = Some e"
    using put [of e] that by (simp add: fun_upd_idem)
  then show "heap h = Some e \<Longrightarrow> entry_of e' = entry_of e \<Longrightarrow> live (heap(h \<mapsto> e')) = live heap"
    using put [of e'] by (simp add: entry_of_def)
  show "live (heap(h \<mapsto> e)) = add_mset (h_key e, h_value e) (live heap)" if "heap h = None"
    using put [of e] that by (simp add: fun_upd_idem)
qed

lemma LRU_Ref_ok:
  assumes c: "shard_ok held T c" and h: "lc_heap c h \<noteq> None"
  shows "\<exists>c'. LRU_Ref h c = Some c' \<and> shard_ok (held(h := held h + 1)) T c' \<and> lc_table c' = lc_table c \<and> keeps c c' \<and> dom (lc_heap c') = dom (lc_heap c)"
proof -
  obtain e where e: "lc_heap c h = Some e" using h by auto
  note C = shard_okD [OF c]
  have E: "h_in_cache e = (h \<in> T)" "h_refs e = held h + (if h \<in> T then 1 else 0)" "h < lc_next c" "h \<in> T \<or> 0 < held h" using C(3) [OF e] by simp_all
  define c' where "c' = c\<lparr>lc_lru := (if h \<in> T \<and> held h = 0 then remove1 h (lc_lru c) else lc_lru c),
    lc_in_use := (if h \<in> T \<and> held h = 0 then remove1 h (lc_in_use c) @ [h] else lc_in_use c), lc_heap := (lc_heap c)(h \<mapsto> e\<lparr>h_refs := h_refs e + 1\<rparr>)\<rparr>"
  have "LRU_Ref h c = Some c'" using e E by (auto simp: LRU_Ref_def LRU_Remove_def c'_def Let_def)
  moreover have "(\<Sum>x\<in>T. h_charge (the (lc_heap c' x))) = (\<Sum>x\<in>T. h_charge (the (lc_heap c x)))" by (rule sum.cong) (auto simp: c'_def e)
  then have "shard_ok (held(h := held h + 1)) T c'"
    using C(1,2,4-8) C(3) E e unfolding shard_ok_def by (simp add: c'_def) fastforce
  moreover have "keeps c c'"
    using e live_update(1) [OF shard_finite [OF c] e, of "e\<lparr>h_refs := h_refs e + 1\<rparr>"] by (auto simp: keeps_def c'_def entry_of_def all_entries_def)
  ultimately show ?thesis using e by (auto simp: c'_def)
qed

text \<open>A client gives back a handle.\<close>

lemma LRU_Unref_ok:
  assumes c: "shard_ok held T c" and h: "0 < held h"
  shows "\<exists>c'. LRU_Unref h c = Some c' \<and> shard_ok (held(h := held h - 1)) T c' \<and> lc_table c' = lc_table c \<and> keeps c c' \<and>
    (h \<notin> T \<longrightarrow> lc_lru c' = lc_lru c \<and> lc_in_use c' = lc_in_use c)"
proof -
  note C = shard_okD [OF c]
  obtain e where e: "lc_heap c h = Some e" using C(2) [of h] h by (cases "lc_heap c h") auto
  have E: "h_in_cache e = (h \<in> T)" "h_refs e = held h + (if h \<in> T then 1 else 0)" "h < lc_next c" "h \<in> T \<or> 0 < held h" using C(3) [OF e] by simp_all
  note fin = shard_finite [OF c]
  show ?thesis
  proof (cases "h \<notin> T \<and> held h = 1")
    case True
    let ?c = "c\<lparr>lc_heap := (lc_heap c)(h := None), lc_deleted := lc_deleted c @ [(h_key e, h_value e)]\<rparr>"
    have "LRU_Unref h c = Some ?c" using e E True by (simp add: LRU_Unref_def)
    moreover have "(\<Sum>x\<in>T. h_charge (the (lc_heap ?c x))) = (\<Sum>x\<in>T. h_charge (the (lc_heap c x)))" using True by (intro sum.cong) auto
    then have "shard_ok (held(h := held h - 1)) T ?c"
      using C(1,2,4-8) C(3) True unfolding shard_ok_def by (simp add: if_distrib) fastforce
    moreover have "keeps c ?c" using live_update(2) [OF fin e] by (simp add: keeps_def all_entries_def)
    ultimately show ?thesis by auto
  next
    case False
    let ?e = "e\<lparr>h_refs := h_refs e - 1\<rparr>" and ?idle = "h \<in> T \<and> held h = 1"
    define c' where "c' = c\<lparr>lc_heap := (lc_heap c)(h \<mapsto> ?e), lc_lru := (if ?idle then remove1 h (lc_lru c) @ [h] else lc_lru c),
      lc_in_use := (if ?idle then remove1 h (lc_in_use c) else lc_in_use c)\<rparr>"
    have "LRU_Unref h c = Some c'" using e E False h by (auto simp: LRU_Unref_def LRU_Remove_def c'_def Let_def)
    moreover have "(\<Sum>x\<in>T. h_charge (the (lc_heap c' x))) = (\<Sum>x\<in>T. h_charge (the (lc_heap c x)))" by (rule sum.cong) (auto simp: c'_def e)
    then have "shard_ok (held(h := held h - 1)) T c'"
      using C(1,2,4-8) C(3) E e h False unfolding shard_ok_def by (simp add: c'_def) fastforce
    moreover have "keeps c c'" using e live_update(1) [OF fin e, of ?e] by (auto simp: keeps_def c'_def entry_of_def all_entries_def)
    ultimately show ?thesis by (auto simp: c'_def)
  qed
qed

text \<open>The cache gives up its reference: from then on it counts like that of a client.\<close>

lemma FinishErase_ok:
  assumes c: "shard_ok held T c" and h: "h \<in> T"
  shows "\<exists>c'. FinishErase (Some h) c = Some (True, c') \<and> shard_ok held (T - {h}) c' \<and> lc_table c' = lc_table c \<and> keeps c c' \<and>
    lc_lru c' = remove1 h (lc_lru c) \<and> lc_in_use c' = remove1 h (lc_in_use c)"
proof -
  note C = shard_okD [OF c]
  obtain e where e: "lc_heap c h = Some e" using C(2) [of h] h by (cases "lc_heap c h") auto
  have E: "h_in_cache e" "h_refs e = held h + 1" "h < lc_next c" using C(3) [OF e] h by simp_all
  define c1 where "c1 = c\<lparr>lc_lru := remove1 h (lc_lru c), lc_in_use := remove1 h (lc_in_use c),
    lc_heap := (lc_heap c)(h \<mapsto> e\<lparr>h_in_cache := False\<rparr>), lc_usage := lc_usage c - h_charge e\<rparr>"
  have "(\<Sum>x\<in>T - {h}. h_charge (the (lc_heap c1 x))) = (\<Sum>x\<in>T - {h}. h_charge (the (lc_heap c x)))" by (rule sum.cong) (auto simp: c1_def)
  then have usage: "lc_usage c1 = (\<Sum>x\<in>T - {h}. h_charge (the (lc_heap c1 x)))"
    using C(1,8) h e sum.remove [of T h "\<lambda>x. h_charge (the (lc_heap c x))"] by (simp add: c1_def)
  have c1: "shard_ok (held(h := held h + 1)) (T - {h}) c1"
    using C(1,2,4-7) C(3) E e usage unfolding shard_ok_def by (simp add: c1_def) fastforce
  from LRU_Unref_ok [OF c1, of h] obtain c' where c': "LRU_Unref h c1 = Some c'" "shard_ok held (T - {h}) c'" "lc_table c' = lc_table c1" "keeps c1 c'"
    "lc_lru c' = lc_lru c1" "lc_in_use c' = lc_in_use c1" by (auto simp: fun_upd_idem)
  have "keeps c c1" using e live_update(1) [OF shard_finite [OF c] e, of "e\<lparr>h_in_cache := False\<rparr>"] by (auto simp: keeps_def c1_def entry_of_def all_entries_def)
  moreover have "FinishErase (Some h) c = Some (True, c')"
    using e c'(1) by (simp add: FinishErase_def LRU_Remove_def Let_def c1_def)
  ultimately show ?thesis using c'(2-6) keeps_trans by (auto simp: c1_def)
qed

lemma keeps_same_keys:
  assumes "keeps c c'" "\<And>h. h \<in> A \<Longrightarrow> lc_heap c' h \<noteq> None"
  shows "same_keys A (lc_heap c) (lc_heap c')"
  unfolding same_keys_def
proof
  fix h assume "h \<in> A"
  then obtain e' where e': "lc_heap c' h = Some e'" using assms(2) by auto
  then obtain e where "lc_heap c h = Some e" "entry_of e' = entry_of e" using assms(1) unfolding keeps_def by blast
  then show "map_option (\<lambda>e. (h_key e, h_hash e)) (lc_heap c' h) = map_option (\<lambda>e. (h_key e, h_hash e)) (lc_heap c h)" using e' by (simp add: entry_of_def)
qed

lemma erase_key_ok:
  assumes c: "lru_ok held c" and p: "HandleTable_Lookup (lc_heap c) key hash (lc_table c) = p"
  shows "\<exists>c'. erase_key key hash c = Some (p \<noteq> None, c') \<and> lru_ok held c' \<and> keeps c c' \<and> table_set (lc_table c') = table_set (lc_table c) - set_option p \<and>
    (\<forall>h. p = Some h \<longrightarrow> lc_lru c' = remove1 h (lc_lru c))"
proof -
  have t: "table_ok (lc_heap c) (lc_table c)" and sh: "shard_ok held (table_set (lc_table c)) c" using c by (simp_all add: lru_ok_def)
  obtain p' t' where r: "HandleTable_Remove (lc_heap c) key hash (lc_table c) = (p', t')" by (cases "HandleTable_Remove (lc_heap c) key hash (lc_table c)")
  note R = HandleTable_Remove_ok [OF t r]
  let ?c = "c\<lparr>lc_table := t'\<rparr>"
  have sh': "shard_ok held (table_set (lc_table c)) ?c" using sh by (simp add: shard_ok_def)
  have k: "keeps c ?c" by (simp add: keeps_def all_entries_def)
  show ?thesis
  proof (cases p)
    case None
    then show ?thesis using R p c r sh' k by (auto simp: erase_key_def FinishErase_def lru_ok_def)
  next
    case (Some h)
    have h: "h \<in> table_set (lc_table c)" using HandleTable_Lookup_ok [OF t] p Some by blast
    obtain c' where c': "FinishErase (Some h) ?c = Some (True, c')" "shard_ok held (table_set t') c'" "lc_table c' = t'" "keeps ?c c'"
      "lc_lru c' = remove1 h (lc_lru c)" using FinishErase_ok [OF sh' h] R p Some by auto
    have keep: "keeps c c'" using keeps_trans [OF k c'(4)] .
    have "same_keys (table_set t') (lc_heap c) (lc_heap c')" by (rule keeps_same_keys [OF keep]) (use shard_okD(2) [OF c'(2)] in blast)
    then have "table_ok (lc_heap c') t'" using table_ok_heap R by blast
    then show ?thesis using R p Some r c' keep by (auto simp: erase_key_def lru_ok_def)
  qed
qed

lemma evict_while_ok:
  "lru_ok held c \<Longrightarrow> \<exists>c' n. evict_while cond c = Some c' \<and> lru_ok held c' \<and> keeps c c' \<and> (\<not> cond c' \<or> lc_lru c' = []) \<and>
     table_set (lc_table c') = table_set (lc_table c) - set (take n (lc_lru c)) \<and> lc_lru c' = drop n (lc_lru c)"
proof (induction "length (lc_lru c)" arbitrary: c)
  case 0
  then show ?case by (intro exI [of _ c] exI [of _ 0]) (simp add: evict_while.simps)
next
  case (Suc k)
  obtain h rest where lru: "lc_lru c = h # rest" using Suc.hyps(2) by (cases "lc_lru c") auto
  show ?case
  proof (cases "cond c")
    case False
    then show ?thesis using Suc.prems by (intro exI [of _ c] exI [of _ 0]) (simp add: evict_while.simps)
  next
    case True
    have t: "table_ok (lc_heap c) (lc_table c)" and sh: "shard_ok held (table_set (lc_table c)) c" using Suc.prems by (simp_all add: lru_ok_def)
    have h: "h \<in> table_set (lc_table c)" using shard_okD(6) [OF sh] lru by (metis (mono_tags, lifting) list.set_intros(1) mem_Collect_eq)
    then obtain e where e: "lc_heap c h = Some e" using shard_okD(2) [OF sh, of h] by (cases "lc_heap c h") auto
    have "HandleTable_Lookup (lc_heap c) (h_key e) (h_hash e) (lc_table c) = Some h"
      using HandleTable_Lookup_ok [OF t] h e by (simp add: same_key_def)
    from erase_key_ok [OF Suc.prems this] obtain c1 where c1: "erase_key (h_key e) (h_hash e) c = Some (True, c1)" "lru_ok held c1" "keeps c c1"
      "table_set (lc_table c1) = table_set (lc_table c) - {h}" "lc_lru c1 = rest" using lru by auto
    have "k = length (lc_lru c1)" using Suc.hyps(2) lru c1(5) by simp
    from Suc.hyps(1) [OF this c1(2)] obtain c' n where c': "evict_while cond c1 = Some c'" "lru_ok held c'" "keeps c1 c'" "\<not> cond c' \<or> lc_lru c' = []"
      "table_set (lc_table c') = table_set (lc_table c1) - set (take n (lc_lru c1))" "lc_lru c' = drop n (lc_lru c1)" by blast
    moreover have "evict_while cond c = evict_while cond c1" using True lru e c1(1) by (simp add: evict_while.simps [of cond c])
    ultimately show ?thesis using keeps_trans [OF c1(3)] c1(4,5) lru by (intro exI [of _ c'] exI [of _ "Suc n"]) auto
  qed
qed

text \<open>A new handle joins the others: its entry is new, the others stay what they are.\<close>

definition adds :: "handle_ref \<Rightarrow> bytes \<times> 'v \<times> nat \<times> u32 \<Rightarrow> 'v LRUCache \<Rightarrow> 'v LRUCache \<Rightarrow> bool" where
  "adds h x c c' \<longleftrightarrow> lc_capacity c' = lc_capacity c \<and> all_entries c' = add_mset (fst x, fst (snd x)) (all_entries c) \<and>
     (\<exists>e. lc_heap c' h = Some e \<and> entry_of e = x) \<and>
     (\<forall>g e'. g \<noteq> h \<longrightarrow> lc_heap c' g = Some e' \<longrightarrow> (\<exists>e. lc_heap c g = Some e \<and> entry_of e' = entry_of e))"

lemma adds_keeps:
  assumes "adds h x c c1" "keeps c1 c'" "lc_heap c' h \<noteq> None"
  shows "adds h x c c'"
proof -
  have "\<exists>e. lc_heap c' h = Some e \<and> entry_of e = x" using assms unfolding adds_def keeps_def by (metis option.exhaust option.inject)
  moreover have "\<exists>e. lc_heap c g = Some e \<and> entry_of e' = entry_of e" if "g \<noteq> h" "lc_heap c' g = Some e'" for g e'
    using assms(1,2) that unfolding adds_def keeps_def by metis
  ultimately show ?thesis using assms(1,2) unfolding adds_def keeps_def by simp
qed

lemma new_handle:
  assumes c: "lru_ok held c" and e: "h_refs e = (if cached then 2 else 1)" "h_in_cache e = cached"
    and c1: "c1 = c\<lparr>lc_next := lc_next c + 1, lc_heap := (lc_heap c)(lc_next c \<mapsto> e),
      lc_in_use := lc_in_use c @ (if cached then [lc_next c] else []), lc_usage := lc_usage c + (if cached then h_charge e else 0)\<rparr>"
  shows "held (lc_next c) = 0" "lc_next c \<notin> table_set (lc_table c)" "table_ok (lc_heap c1) (lc_table c)" "adds (lc_next c) (entry_of e) c c1"
    "shard_ok (held(lc_next c := 1)) (if cached then insert (lc_next c) (table_set (lc_table c)) else table_set (lc_table c)) c1"
proof -
  have t: "table_ok (lc_heap c) (lc_table c)" and sh: "shard_ok held (table_set (lc_table c)) c" using c by (simp_all add: lru_ok_def)
  note C = shard_okD [OF sh]
  have none: "lc_heap c (lc_next c) = None" using C(3) [of "lc_next c"] by (cases "lc_heap c (lc_next c)") auto
  show held: "held (lc_next c) = 0" and T: "lc_next c \<notin> table_set (lc_table c)" using C(2) [OF none] by simp_all
  show "table_ok (lc_heap c1) (lc_table c)" by (rule table_ok_heap [OF t]) (use T in \<open>auto simp: same_keys_def c1\<close>)
  show "adds (lc_next c) (entry_of e) c c1"
    using live_update(3) [OF shard_finite [OF sh] none, of e] by (auto simp: adds_def c1 all_entries_def entry_of_def)
  have "(\<Sum>x\<in>table_set (lc_table c). h_charge (the (lc_heap c1 x))) = (\<Sum>x\<in>table_set (lc_table c). h_charge (the (lc_heap c x)))"
    using T by (intro sum.cong) (auto simp: c1)
  then have "lc_usage c1 = (\<Sum>x\<in>(if cached then insert (lc_next c) (table_set (lc_table c)) else table_set (lc_table c)). h_charge (the (lc_heap c1 x)))"
    using C(1,8) T by (simp add: c1)
  then show "shard_ok (held(lc_next c := 1)) (if cached then insert (lc_next c) (table_set (lc_table c)) else table_set (lc_table c)) c1"
    using C(1,2,4-7) C(3) e T held unfolding shard_ok_def by (simp add: c1 less_Suc_eq) fastforce
qed

lemma shard_ok_table [simp]: "shard_ok held T (c\<lparr>lc_table := t\<rparr>) = shard_ok held T c"
  by (simp add: shard_ok_def)

text \<open>The handle goes into the table, and the one it replaces out of the cache.\<close>

lemma table_insert_ok:
  assumes t: "table_ok (lc_heap c) t" and sh: "shard_ok held (insert h (table_set t)) c" and h: "h \<notin> table_set t" "lc_heap c h = Some e"
    and ins: "HandleTable_Insert (lc_heap c) h e t = (old, t')"
  shows "\<exists>b c'. FinishErase old (c\<lparr>lc_table := t'\<rparr>) = Some (b, c') \<and> lru_ok held c' \<and> keeps c c' \<and> h \<in> table_set (lc_table c')"
proof -
  have T: "table_ok (lc_heap c) t'" "table_set t' = insert h (table_set t - set_option old)" "old = HandleTable_Lookup (lc_heap c) (h_key e) (h_hash e) t"
    using HandleTable_Insert_ok [OF t h ins] by simp_all
  let ?c = "c\<lparr>lc_table := t'\<rparr>"
  obtain b c' where c': "FinishErase old ?c = Some (b, c')" "shard_ok held (table_set t') c'" "lc_table c' = t'" "keeps ?c c'"
  proof (cases old)
    case None
    then show ?thesis using that [of False ?c] sh T(2) by (simp add: FinishErase_def)
  next
    case (Some g)
    have g: "g \<in> table_set t" using HandleTable_Lookup_ok [OF t] T(3) Some by metis
    then have "insert h (table_set t) - {g} = table_set t'" using T(2) h(1) Some by auto
    moreover have "shard_ok held (insert h (table_set t)) ?c" "g \<in> insert h (table_set t)" using sh g by simp_all
    ultimately show ?thesis using that FinishErase_ok [of held "insert h (table_set t)" ?c g] Some by fastforce
  qed
  have keep: "keeps c c'" using c'(4) by (simp add: keeps_def all_entries_def)
  have "same_keys (table_set t') (lc_heap c) (lc_heap c')" by (rule keeps_same_keys [OF keep]) (use shard_okD(2) [OF c'(2)] in blast)
  then have "lru_ok held c'" using table_ok_heap [OF T(1)] c'(2,3) by (simp add: lru_ok_def)
  then show ?thesis using c'(1,3) keep T(2) by auto
qed

lemma LRUCache_Insert_ok:
  assumes c: "lru_ok held c"
  shows "\<exists>c'. LRUCache_Insert key hash val charge c = Some (lc_next c, c') \<and> held (lc_next c) = 0 \<and> lru_ok (held(lc_next c := 1)) c' \<and>
    adds (lc_next c) (key, val, charge, hash) c c' \<and> (lc_usage c' \<le> lc_capacity c' \<or> lc_lru c' = []) \<and> (0 < lc_capacity c \<longrightarrow> lc_next c \<in> table_set (lc_table c'))"
proof -
  let ?h = "lc_next c" and ?cached = "0 < lc_capacity c"
  define e where "e = \<lparr>h_value = val, h_charge = charge, h_key = key, h_in_cache = ?cached, h_refs = (if ?cached then 2 else 1), h_hash = hash\<rparr>"
  define c1 where "c1 = c\<lparr>lc_next := ?h + 1, lc_heap := (lc_heap c)(?h \<mapsto> e),
      lc_in_use := lc_in_use c @ (if ?cached then [?h] else []), lc_usage := lc_usage c + (if ?cached then h_charge e else 0)\<rparr>"
  let ?held = "held(?h := 1)"
  have N: "held ?h = 0" "?h \<notin> table_set (lc_table c)" "table_ok (lc_heap c1) (lc_table c)" "adds ?h (entry_of e) c c1"
    "shard_ok ?held (if ?cached then insert ?h (table_set (lc_table c)) else table_set (lc_table c)) c1"
    using new_handle [OF c _ _ c1_def] by (simp_all add: e_def)
  have entry: "entry_of e = (key, val, charge, hash)" by (simp add: entry_of_def e_def)
  obtain c2 where c2: "lru_ok ?held c2" "keeps c1 c2" "?cached \<longrightarrow> ?h \<in> table_set (lc_table c2)"
    "LRUCache_Insert key hash val charge c = map_option (Pair ?h) (evict_while (\<lambda>c. lc_usage c > lc_capacity c) c2)"
  proof (cases ?cached)
    case True
    obtain old t' where ins: "HandleTable_Insert (lc_heap c1) ?h e (lc_table c) = (old, t')" by (cases "HandleTable_Insert (lc_heap c1) ?h e (lc_table c)")
    have "lc_heap c1 ?h = Some e" "shard_ok ?held (insert ?h (table_set (lc_table c))) c1" using N(5) True by (simp_all add: c1_def)
    from table_insert_ok [OF N(3) this(2) N(2) this(1) ins] obtain b c2 where
      c2: "FinishErase old (c1\<lparr>lc_table := t'\<rparr>) = Some (b, c2)" "lru_ok ?held c2" "keeps c1 c2" "?h \<in> table_set (lc_table c2)" by blast
    moreover have "LRUCache_Insert key hash val charge c = map_option (Pair ?h) (evict_while (\<lambda>c. lc_usage c > lc_capacity c) c2)"
      using True ins c2(1) by (simp add: LRUCache_Insert_def c1_def e_def Let_def numeral_2_eq_2)
    ultimately show ?thesis using that by simp
  next
    case False
    have "lc_table c1 = lc_table c" by (simp add: c1_def)
    then have "lru_ok ?held c1" using N(3,5) False by (simp add: lru_ok_def)
    moreover have "LRUCache_Insert key hash val charge c = map_option (Pair ?h) (evict_while (\<lambda>c. lc_usage c > lc_capacity c) c1)"
      using False by (simp add: LRUCache_Insert_def c1_def e_def Let_def)
    ultimately show ?thesis using that False by simp
  qed
  from evict_while_ok [OF c2(1), of "\<lambda>c. lc_usage c > lc_capacity c"] obtain c' n where
    c': "evict_while (\<lambda>c. lc_usage c > lc_capacity c) c2 = Some c'" "lru_ok ?held c'" "keeps c2 c'" "lc_usage c' \<le> lc_capacity c' \<or> lc_lru c' = []"
    "table_set (lc_table c') = table_set (lc_table c2) - set (take n (lc_lru c2))" by (auto simp: not_less)
  have "shard_ok ?held (table_set (lc_table c2)) c2" using c2(1) by (simp add: lru_ok_def)
  then have "?h \<notin> set (lc_lru c2)" using shard_okD(6) by fastforce
  then have "?cached \<longrightarrow> ?h \<in> table_set (lc_table c')" using c2(3) c'(5) set_take_subset by fastforce
  moreover have "lc_heap c' ?h \<noteq> None" using c'(2) shard_okD(2) [of ?held "table_set (lc_table c')" c' ?h] by (auto simp: lru_ok_def)
  then have "adds ?h (key, val, charge, hash) c c'"
    using adds_keeps [OF N(4) keeps_trans [OF c2(2) c'(3)]] entry by simp
  ultimately show ?thesis using c2(4) c' N(1) by simp
qed

lemma LRUCache_Lookup_ok:
  assumes c: "lru_ok held c"
  shows "\<exists>c'. LRUCache_Lookup key hash c = Some (HandleTable_Lookup (lc_heap c) key hash (lc_table c), c') \<and> keeps c c' \<and>
    table_set (lc_table c') = table_set (lc_table c) \<and>
    lru_ok (case HandleTable_Lookup (lc_heap c) key hash (lc_table c) of None \<Rightarrow> held | Some h \<Rightarrow> held(h := held h + 1)) c'"
proof (cases "HandleTable_Lookup (lc_heap c) key hash (lc_table c)")
  case None
  then show ?thesis using c by (simp add: LRUCache_Lookup_def)
next
  case (Some h)
  have t: "table_ok (lc_heap c) (lc_table c)" and sh: "shard_ok held (table_set (lc_table c)) c" using c by (simp_all add: lru_ok_def)
  have "h \<in> table_set (lc_table c)" using HandleTable_Lookup_ok [OF t] Some by blast
  then have "lc_heap c h \<noteq> None" using shard_okD(2) [OF sh] by blast
  from LRU_Ref_ok [OF sh this] obtain c' where c': "LRU_Ref h c = Some c'" "shard_ok (held(h := held h + 1)) (table_set (lc_table c)) c'"
    "lc_table c' = lc_table c" "keeps c c'" by blast
  have "same_keys (table_set (lc_table c)) (lc_heap c) (lc_heap c')" by (rule keeps_same_keys [OF c'(4)]) (use shard_okD(2) [OF c'(2)] in blast)
  then have "table_ok (lc_heap c') (lc_table c')" using table_ok_heap [OF t] c'(3) by simp
  then show ?thesis using c' Some by (simp add: LRUCache_Lookup_def lru_ok_def)
qed

lemma LRUCache_Release_ok:
  assumes c: "lru_ok held c" and h: "0 < held h"
  shows "\<exists>c'. LRUCache_Release h c = Some c' \<and> lru_ok (held(h := held h - 1)) c' \<and> keeps c c' \<and> table_set (lc_table c') = table_set (lc_table c)"
proof -
  have t: "table_ok (lc_heap c) (lc_table c)" and sh: "shard_ok held (table_set (lc_table c)) c" using c by (simp_all add: lru_ok_def)
  from LRU_Unref_ok [OF sh h] obtain c' where c': "LRU_Unref h c = Some c'" "shard_ok (held(h := held h - 1)) (table_set (lc_table c)) c'"
    "lc_table c' = lc_table c" "keeps c c'" by blast
  have "same_keys (table_set (lc_table c)) (lc_heap c) (lc_heap c')" by (rule keeps_same_keys [OF c'(4)]) (use shard_okD(2) [OF c'(2)] in blast)
  then have "table_ok (lc_heap c') (lc_table c')" using table_ok_heap [OF t] c'(3) by simp
  then show ?thesis using c' by (simp add: LRUCache_Release_def lru_ok_def)
qed

lemma LRUCache_new_ok: "lru_ok (\<lambda>_. 0) (LRUCache_new capacity)" "all_entries (LRUCache_new capacity) = {#}"
proof -
  have "grow 4 0 = 4" by (subst grow.simps) simp
  then have t: "HandleTable_new = \<lparr>ht_length = 4, ht_elems = 0, ht_list = replicate 4 []\<rparr>" by (simp add: HandleTable_new_def Resize_def Let_def)
  have "\<exists>k. (4 :: nat) = 2 ^ k" by (rule exI [of _ 2]) simp
  moreover have "table_set HandleTable_new = {}" by (simp add: t table_set_def)
  ultimately show "lru_ok (\<lambda>_. 0) (LRUCache_new capacity)" by (simp add: lru_ok_def LRUCache_new_def shard_ok_def table_ok_def t)
  show "all_entries (LRUCache_new capacity) = {#}" by (simp add: all_entries_def LRUCache_new_def live_def)
qed

section \<open>All shards\<close>

definition hashes_ok :: "nat \<Rightarrow> 'v LRUCache \<Rightarrow> bool" where
  "hashes_ok s c \<longleftrightarrow> (\<forall>h e. lc_heap c h = Some e \<longrightarrow> (case entry_of e of (key, _, _, hash) \<Rightarrow> hash = HashSlice key \<and> Shard hash = s))"

definition sharded_ok :: "(sharded_handle \<Rightarrow> nat) \<Rightarrow> 'v ShardedLRUCache \<Rightarrow> bool" where
  "sharded_ok held sc \<longleftrightarrow> length (sc_shard sc) = kNumShards \<and> (\<forall>s h. kNumShards \<le> s \<longrightarrow> held (s, h) = 0) \<and>
     (\<forall>s<kNumShards. lru_ok (\<lambda>h. held (s, h)) (sc_shard sc ! s) \<and> hashes_ok s (sc_shard sc ! s))"

lemma sharded_okD:
  assumes "sharded_ok held sc"
  shows "length (sc_shard sc) = kNumShards" "kNumShards \<le> s \<Longrightarrow> held (s, h) = 0" "s < kNumShards \<Longrightarrow> lru_ok (\<lambda>h. held (s, h)) (sc_shard sc ! s)"
    "s < kNumShards \<Longrightarrow> hashes_ok s (sc_shard sc ! s)"
  using assms by (simp_all add: sharded_ok_def)

definition sharded_entries :: "'v ShardedLRUCache \<Rightarrow> (bytes \<times> 'v) multiset" where
  "sharded_entries sc = sum_list (map all_entries (sc_shard sc))"

definition entry_at :: "sharded_handle \<Rightarrow> 'v ShardedLRUCache \<Rightarrow> (bytes \<times> 'v \<times> nat \<times> u32) option" where
  "entry_at handle sc = map_option entry_of (lc_heap (sc_shard sc ! fst handle) (snd handle))"

lemma Shard_less: "Shard hash < kNumShards"
proof -
  have "unat hash < 2 ^ 32" using unsigned_less [of hash] by simp
  then show ?thesis by (simp add: Shard_def kNumShards_def drop_bit_eq_div unat_div_distrib)
qed

lemma sharded_held_alive:
  assumes "sharded_ok held sc" "0 < held (s, h)"
  shows "s < kNumShards" "lc_heap (sc_shard sc ! s) h \<noteq> None"
proof -
  show s: "s < kNumShards"
  proof (rule ccontr)
    assume "\<not> s < kNumShards"
    then show False using sharded_okD(2) [OF assms(1), of s h] assms(2) by simp
  qed
  have sh: "shard_ok (\<lambda>h. held (s, h)) (table_set (lc_table (sc_shard sc ! s))) (sc_shard sc ! s)" using sharded_okD(3) [OF assms(1) s] by (simp add: lru_ok_def)
  show "lc_heap (sc_shard sc ! s) h \<noteq> None" using shard_okD(2) [OF sh, of h] assms(2) by auto
qed

lemma keeps_hashes: "keeps c c' \<Longrightarrow> hashes_ok s c \<Longrightarrow> hashes_ok s c'"
  unfolding hashes_ok_def
proof (intro allI impI)
  fix h e' assume a: "keeps c c'" "\<forall>h e. lc_heap c h = Some e \<longrightarrow> (case entry_of e of (key, _, _, hash) \<Rightarrow> hash = HashSlice key \<and> Shard hash = s)"
    and "lc_heap c' h = Some e'"
  then obtain e where "lc_heap c h = Some e" "entry_of e' = entry_of e" unfolding keeps_def by blast
  then show "case entry_of e' of (key, _, _, hash) \<Rightarrow> hash = HashSlice key \<and> Shard hash = s" using a(2) by simp
qed

lemma adds_hashes:
  assumes a: "adds h (key, val, charge, HashSlice key) c c'" and s: "Shard (HashSlice key) = s" and c: "hashes_ok s c"
  shows "hashes_ok s c'"
  unfolding hashes_ok_def
proof (intro allI impI)
  fix g e' assume e': "lc_heap c' g = Some e'"
  show "case entry_of e' of (key, _, _, hash) \<Rightarrow> hash = HashSlice key \<and> Shard hash = s"
  proof (cases "g = h")
    case True
    then have "entry_of e' = (key, val, charge, HashSlice key)" using a e' by (auto simp: adds_def)
    then show ?thesis using s by simp
  next
    case False
    then obtain e where "lc_heap c g = Some e" "entry_of e' = entry_of e" using a e' unfolding adds_def by blast
    then show ?thesis using c by (simp add: hashes_ok_def)
  qed
qed

lemma sharded_update:
  assumes sc: "sharded_ok held sc" and s: "s < kNumShards" and c: "lru_ok (\<lambda>h. held' (s, h)) c" "hashes_ok s c"
    and held: "\<And>s' h. s' \<noteq> s \<Longrightarrow> held' (s', h) = held (s', h)" and sc': "sc' = sc\<lparr>sc_shard := (sc_shard sc)[s := c]\<rparr>"
  shows "sharded_ok held' sc'" "sharded_entries sc' + all_entries (sc_shard sc ! s) = sharded_entries sc + all_entries c"
proof -
  have len: "s < length (sc_shard sc)" using sc s by (simp add: sharded_ok_def)
  have "held' (s', h) = 0" if "kNumShards \<le> s'" for s' h using held [of s' h] that s sc by (auto simp: sharded_ok_def)
  then show "sharded_ok held' sc'" using sc s c held by (auto simp: sharded_ok_def sc' nth_list_update)
  show "sharded_entries sc' + all_entries (sc_shard sc ! s) = sharded_entries sc + all_entries c"
    using arg_cong [OF id_take_nth_drop [OF len], of "\<lambda>x. sum_list (map all_entries x)"]
    by (simp add: sharded_entries_def sc' upd_conv_take_nth_drop [OF len] ac_simps)
qed

text \<open>What a client sees of an operation: the handles it holds keep their entries.\<close>

lemma held_entry:
  assumes "sharded_ok held sc" "0 < held g" "sharded_ok held' sc'" "0 < held' g" "sc' = sc\<lparr>sc_shard := (sc_shard sc)[s := c]\<rparr>" "s < kNumShards"
    "\<And>h e'. h \<noteq> new \<Longrightarrow> lc_heap c h = Some e' \<Longrightarrow> \<exists>e. lc_heap (sc_shard sc ! s) h = Some e \<and> entry_of e' = entry_of e" "g \<noteq> (s, new)"
  shows "entry_at g sc' = entry_at g sc"
proof (cases "fst g = s")
  case True
  obtain e' where e': "lc_heap (sc_shard sc' ! fst g) (snd g) = Some e'" using sharded_held_alive(2) [OF assms(3), of "fst g" "snd g"] assms(4) by auto
  moreover have "sc_shard sc' ! fst g = c" using assms(1,5,6) True by (simp add: sharded_ok_def)
  moreover have "snd g \<noteq> new" using assms(8) True by (cases g) auto
  ultimately show ?thesis using assms(7) [of "snd g" e'] True by (auto simp: entry_at_def)
qed (simp add: entry_at_def assms(5))

definition client_keeps :: "(sharded_handle \<Rightarrow> nat) \<Rightarrow> (sharded_handle \<Rightarrow> nat) \<Rightarrow> 'v ShardedLRUCache \<Rightarrow> 'v ShardedLRUCache \<Rightarrow> bool" where
  "client_keeps held held' sc sc' \<longleftrightarrow> sharded_ok held' sc' \<and> (\<forall>g. 0 < held g \<and> 0 < held' g \<longrightarrow> entry_at g sc' = entry_at g sc)"

text \<open>No handle gets an entry, but a new one.\<close>

definition no_new :: "sharded_handle set \<Rightarrow> 'v ShardedLRUCache \<Rightarrow> 'v ShardedLRUCache \<Rightarrow> bool" where
  "no_new H sc sc' \<longleftrightarrow> (\<forall>g x. g \<notin> H \<longrightarrow> entry_at g sc' = Some x \<longrightarrow> entry_at g sc = Some x)"

lemma no_new_update:
  assumes "\<And>h e'. (s, h) \<notin> H \<Longrightarrow> lc_heap c h = Some e' \<Longrightarrow> \<exists>e. lc_heap (sc_shard sc ! s) h = Some e \<and> entry_of e' = entry_of e"
    "sc' = sc\<lparr>sc_shard := (sc_shard sc)[s := c]\<rparr>" "s < length (sc_shard sc)"
  shows "no_new H sc sc'"
  unfolding no_new_def
proof (intro allI impI)
  fix g x assume g: "g \<notin> H" "entry_at g sc' = Some x"
  show "entry_at g sc = Some x"
  proof (cases "fst g = s")
    case True
    then show ?thesis using assms(1) [of "snd g"] g assms(2,3) by (cases g) (fastforce simp: entry_at_def)
  qed (use g assms(2) in \<open>simp add: entry_at_def\<close>)
qed

lemma sharded_keeps:
  assumes sc: "sharded_ok held sc" and s: "s < kNumShards" and c: "lru_ok (\<lambda>h. held' (s, h)) c" "keeps (sc_shard sc ! s) c"
    and held: "\<And>s' h. s' \<noteq> s \<Longrightarrow> held' (s', h) = held (s', h)" and sc': "sc' = sc\<lparr>sc_shard := (sc_shard sc)[s := c]\<rparr>"
  shows "client_keeps held held' sc sc' \<and> sharded_entries sc' = sharded_entries sc \<and> no_new {} sc sc'"
proof -
  have "no_new {} sc sc'" using c(2) sharded_okD(1) [OF sc] s by (intro no_new_update [OF _ sc']) (auto simp: keeps_def)
  moreover have "hashes_ok s c" using keeps_hashes [OF c(2) sharded_okD(4) [OF sc s]] .
  note U = sharded_update [OF sc s c(1) this held sc']
  have "entry_at g sc' = entry_at g sc" if "0 < held g" "0 < held' g" for g
  proof (rule held_entry [OF sc that(1) U(1) that(2) sc' s, of "Suc (snd g)"])
    show "g \<noteq> (s, Suc (snd g))" by (cases g) auto
  qed (use c(2) in \<open>auto simp: keeps_def\<close>)
  ultimately show ?thesis using U c(2) by (simp add: client_keeps_def keeps_def)
qed

lemma Sharded_Insert_ok:
  assumes sc: "sharded_ok held sc"
  shows "\<exists>h sc'. Sharded_Insert key val charge sc = Some (h, sc') \<and> held h = 0 \<and> client_keeps held (held(h := 1)) sc sc' \<and>
    sharded_entries sc' = add_mset (key, val) (sharded_entries sc) \<and> entry_at h sc' = Some (key, val, charge, HashSlice key) \<and>
    no_new {h} sc sc' \<and>
    (let c = sc_shard sc' ! fst h in lc_usage c \<le> lc_capacity c \<or> lc_lru c = []) \<and>
    (0 < lc_capacity (sc_shard sc ! fst h) \<longrightarrow> (\<exists>sc''. Sharded_Lookup key sc' = Some (Some h, sc'')))"
proof -
  let ?hash = "HashSlice key"
  define s where "s = Shard ?hash"
  have s: "s < kNumShards" unfolding s_def by (rule Shard_less)
  let ?c = "sc_shard sc ! s" and ?h = "lc_next (sc_shard sc ! s)"
  obtain c' where
    c': "LRUCache_Insert key ?hash val charge ?c = Some (?h, c')" "held (s, ?h) = 0" "lru_ok ((\<lambda>h. held (s, h))(?h := 1)) c'" "adds ?h (key, val, charge, ?hash) ?c c'"
    "lc_usage c' \<le> lc_capacity c' \<or> lc_lru c' = []" "0 < lc_capacity ?c \<longrightarrow> ?h \<in> table_set (lc_table c')"
    using LRUCache_Insert_ok [OF sharded_okD(3) [OF sc s], of key ?hash val charge] by - (erule exE, elim conjE, rule that)
  define sc' where "sc' = sc\<lparr>sc_shard := (sc_shard sc)[s := c']\<rparr>"
  let ?held = "held((s, ?h) := 1)"
  have "(\<lambda>h. ?held (s, h)) = (\<lambda>h. held (s, h))(?h := 1)" by auto
  then have lru: "lru_ok (\<lambda>h. ?held (s, h)) c'" using c'(3) by simp
  have hash: "hashes_ok s c'" using adds_hashes [OF c'(4) s_def [symmetric] sharded_okD(4) [OF sc s]] .
  have other: "\<And>s' h. s' \<noteq> s \<Longrightarrow> ?held (s', h) = held (s', h)" by simp
  note U = sharded_update [OF sc s lru hash other sc'_def]
  have at: "sc_shard sc' ! s = c'" using sharded_okD(1) [OF sc] s by (simp add: sc'_def)
  have "entry_at g sc' = entry_at g sc" if "0 < held g" for g
  proof (rule held_entry [OF sc that U(1) _ sc'_def s])
    show "g \<noteq> (s, ?h)" "0 < ?held g" using that c'(2) by auto
    show "\<exists>e. lc_heap ?c h = Some e \<and> entry_of e' = entry_of e" if "h \<noteq> ?h" "lc_heap c' h = Some e'" for h e' using c'(4) that unfolding adds_def by blast
  qed
  then have "client_keeps held ?held sc sc'" using U(1) unfolding client_keeps_def by blast
  moreover have e: "entry_at (s, ?h) sc' = Some (key, val, charge, ?hash)" using c'(4) by (auto simp: entry_at_def at adds_def)
  moreover have "sharded_entries sc' = add_mset (key, val) (sharded_entries sc)" using U(2) c'(4) by (simp add: adds_def)
  moreover have "no_new {(s, ?h)} sc sc'"
    using c'(4) sharded_okD(1) [OF sc] s unfolding adds_def by (intro no_new_update [OF _ sc'_def]) auto
  moreover have "\<exists>sc''. Sharded_Lookup key sc' = Some (Some (s, ?h), sc'')" if "0 < lc_capacity ?c"
  proof -
    have "table_ok (lc_heap c') (lc_table c')" using lru by (simp add: lru_ok_def)
    then have "HandleTable_Lookup (lc_heap c') key ?hash (lc_table c') = Some ?h"
      using HandleTable_Lookup_ok c'(6) that e by (fastforce simp: entry_at_def at same_key_def entry_of_def)
    then show ?thesis using LRUCache_Lookup_ok [OF lru, of key ?hash] by (auto simp: Sharded_Lookup_def Let_def s_def [symmetric] at)
  qed
  moreover have "Sharded_Insert key val charge sc = Some ((s, ?h), sc')" using c'(1) by (simp add: Sharded_Insert_def Let_def s_def [symmetric] sc'_def)
  ultimately show ?thesis using c'(2,5) unfolding Let_def by (intro exI [of _ "(s, ?h)"] exI [of _ sc']) (simp only: at fst_conv; blast)
qed

lemma Sharded_Lookup_ok:
  assumes sc: "sharded_ok held sc"
  shows "\<exists>p sc'. Sharded_Lookup key sc = Some (p, sc') \<and> sharded_entries sc' = sharded_entries sc \<and> no_new {} sc sc' \<and>
    (case p of None \<Rightarrow> client_keeps held held sc sc'
     | Some h \<Rightarrow> client_keeps held (held(h := held h + 1)) sc sc' \<and> (\<exists>val charge. entry_at h sc' = Some (key, val, charge, HashSlice key)))"
proof -
  let ?hash = "HashSlice key"
  define s where "s = Shard ?hash"
  have s: "s < kNumShards" unfolding s_def by (rule Shard_less)
  let ?c = "sc_shard sc ! s"
  have lru: "lru_ok (\<lambda>h. held (s, h)) ?c" using sharded_okD(3) [OF sc s] .
  define p where "p = HandleTable_Lookup (lc_heap ?c) key ?hash (lc_table ?c)"
  define held' where "held' = (case p of None \<Rightarrow> held | Some h \<Rightarrow> held((s, h) := held (s, h) + 1))"
  from LRUCache_Lookup_ok [OF lru, of key ?hash, folded p_def] obtain c' where c': "LRUCache_Lookup key ?hash ?c = Some (p, c')" "keeps ?c c'"
    "lru_ok (case p of None \<Rightarrow> \<lambda>h. held (s, h) | Some h \<Rightarrow> (\<lambda>h. held (s, h))(h := held (s, h) + 1)) c'" by auto
  define sc' where "sc' = sc\<lparr>sc_shard := (sc_shard sc)[s := c']\<rparr>"
  have "lru_ok (\<lambda>h. held' (s, h)) c'" using c'(3) by (cases p) (simp_all add: held'_def fun_upd_def)
  from sharded_keeps [OF sc s this c'(2) _ sc'_def] have K: "client_keeps held held' sc sc'" "sharded_entries sc' = sharded_entries sc" "no_new {} sc sc'"
    by (auto simp: held'_def split: option.split)
  have at: "sc_shard sc' ! s = c'" using sharded_okD(1) [OF sc] s by (simp add: sc'_def)
  have "\<exists>val charge. entry_at (s, h) sc' = Some (key, val, charge, ?hash)" if h: "p = Some h" for h
  proof -
    have "0 < held' (s, h)" using h by (simp add: held'_def)
    then obtain e' where e': "lc_heap c' h = Some e'" using sharded_held_alive(2) [of held' sc' s h] K(1) at by (auto simp: client_keeps_def)
    then obtain e where "lc_heap ?c h = Some e" "entry_of e' = entry_of e" using c'(2) unfolding keeps_def by blast
    moreover have "same_key (lc_heap ?c) key ?hash h" using lru h HandleTable_Lookup_ok unfolding p_def lru_ok_def by blast
    ultimately show ?thesis using e' by (simp add: entry_at_def at same_key_def entry_of_def)
  qed
  moreover have "Sharded_Lookup key sc = Some (map_option (Pair s) p, sc')" using c'(1) by (simp add: Sharded_Lookup_def Let_def s_def [symmetric] sc'_def)
  ultimately show ?thesis using K by (intro exI [of _ "map_option (Pair s) p"] exI [of _ sc']) (cases p; simp add: held'_def)
qed

lemma Sharded_Release_ok:
  assumes sc: "sharded_ok held sc" and h: "0 < held h"
  shows "\<exists>sc'. Sharded_Release h sc = Some sc' \<and> client_keeps held (held(h := held h - 1)) sc sc' \<and>
    sharded_entries sc' = sharded_entries sc \<and> no_new {} sc sc'"
proof -
  obtain s g where g: "h = (s, g)" by (cases h)
  have s: "s < kNumShards" using sharded_held_alive(1) [OF sc] h g by simp
  from LRUCache_Release_ok [OF sharded_okD(3) [OF sc s]] h g obtain c' where
    c': "LRUCache_Release g (sc_shard sc ! s) = Some c'" "lru_ok ((\<lambda>h. held (s, h))(g := held (s, g) - 1)) c'" "keeps (sc_shard sc ! s) c'" by blast
  have "(\<lambda>x. (held(h := held h - 1)) (s, x)) = (\<lambda>h. held (s, h))(g := held (s, g) - 1)" using g by auto
  then have lru: "lru_ok (\<lambda>x. (held(h := held h - 1)) (s, x)) c'" using c'(2) by simp
  have other: "\<And>s' x. s' \<noteq> s \<Longrightarrow> (held(h := held h - 1)) (s', x) = held (s', x)" using g by simp
  have "Sharded_Release h sc = Some (sc\<lparr>sc_shard := (sc_shard sc)[s := c']\<rparr>)" using c'(1) g by (simp add: Sharded_Release_def)
  then show ?thesis using sharded_keeps [OF sc s lru c'(3) other refl] by blast
qed

lemma Sharded_Erase_ok:
  assumes sc: "sharded_ok held sc"
  shows "\<exists>sc'. Sharded_Erase key sc = Some sc' \<and> client_keeps held held sc sc' \<and> sharded_entries sc' = sharded_entries sc \<and> no_new {} sc sc' \<and>
    (\<exists>sc''. Sharded_Lookup key sc' = Some (None, sc''))"
proof -
  let ?hash = "HashSlice key"
  define s where "s = Shard ?hash"
  have s: "s < kNumShards" unfolding s_def by (rule Shard_less)
  let ?c = "sc_shard sc ! s"
  have lru: "lru_ok (\<lambda>h. held (s, h)) ?c" using sharded_okD(3) [OF sc s] .
  define p where "p = HandleTable_Lookup (lc_heap ?c) key ?hash (lc_table ?c)"
  from erase_key_ok [OF lru p_def [symmetric]] obtain c' where c': "erase_key key ?hash ?c = Some (p \<noteq> None, c')" "lru_ok (\<lambda>h. held (s, h)) c'" "keeps ?c c'"
    "table_set (lc_table c') = table_set (lc_table ?c) - set_option p" by blast
  define sc' where "sc' = sc\<lparr>sc_shard := (sc_shard sc)[s := c']\<rparr>"
  have at: "sc_shard sc' ! s = c'" using sharded_okD(1) [OF sc] s by (simp add: sc'_def)
  have t: "table_ok (lc_heap ?c) (lc_table ?c)" "table_ok (lc_heap c') (lc_table c')" using lru c'(2) by (simp_all add: lru_ok_def)
  have "HandleTable_Lookup (lc_heap c') key ?hash (lc_table c') \<noteq> Some h" for h
  proof
    assume "HandleTable_Lookup (lc_heap c') key ?hash (lc_table c') = Some h"
    then have h: "h \<in> table_set (lc_table ?c) - set_option p" "same_key (lc_heap c') key ?hash h" using HandleTable_Lookup_ok [OF t(2)] c'(4) by auto
    then obtain e' where e': "lc_heap c' h = Some e'" "h_key e' = key" "h_hash e' = ?hash" by (auto simp: same_key_def split: option.splits)
    then obtain e where "lc_heap ?c h = Some e" "entry_of e' = entry_of e" using c'(3) unfolding keeps_def by blast
    then have "same_key (lc_heap ?c) key ?hash h" using e' by (auto simp: same_key_def entry_of_def)
    then have "p = Some h" using HandleTable_Lookup_ok [OF t(1)] h(1) unfolding p_def by blast
    then show False using h(1) by simp
  qed
  then have none: "HandleTable_Lookup (lc_heap c') key ?hash (lc_table c') = None" by auto
  have "\<exists>sc''. Sharded_Lookup key sc' = Some (None, sc'')"
    using LRUCache_Lookup_ok [OF c'(2), of key ?hash] none by (auto simp: Sharded_Lookup_def Let_def s_def [symmetric] at)
  moreover have "Sharded_Erase key sc = Some sc'" using c'(1) by (simp add: Sharded_Erase_def LRUCache_Erase_def Let_def s_def [symmetric] sc'_def)
  ultimately show ?thesis using sharded_keeps [OF sc s c'(2,3) refl sc'_def] by blast
qed

lemma client_keepsD: "client_keeps held held' sc sc' \<Longrightarrow> sharded_ok held' sc'"
  by (simp add: client_keeps_def)

lemma client_keeps_trans: "client_keeps held held sc sc1 \<Longrightarrow> client_keeps held held sc1 sc2 \<Longrightarrow> client_keeps held held sc sc2"
  by (simp add: client_keeps_def)

lemma Sharded_Prune_ok:
  assumes sc: "sharded_ok held sc"
  shows "\<exists>sc'. Sharded_Prune sc = Some sc' \<and> client_keeps held held sc sc' \<and> sharded_entries sc' = sharded_entries sc \<and> (\<forall>s<kNumShards. lc_lru (sc_shard sc' ! s) = [])"
proof -
  let ?step = "\<lambda>s r. case r of None \<Rightarrow> None
      | Some sc \<Rightarrow> map_option (\<lambda>c. sc\<lparr>sc_shard := (sc_shard sc)[s := c]\<rparr>) (LRUCache_Prune (sc_shard sc ! s))"
  have "\<exists>sc'. fold ?step [0..<n] (Some sc) = Some sc' \<and> client_keeps held held sc sc' \<and> sharded_entries sc' = sharded_entries sc \<and> (\<forall>s<n. lc_lru (sc_shard sc' ! s) = [])"
    if "n \<le> kNumShards" for n
    using that
  proof (induction n)
    case 0
    then show ?case using sc by (simp add: client_keeps_def)
  next
    case (Suc n)
    then obtain sc1 where 1: "fold ?step [0..<n] (Some sc) = Some sc1" "client_keeps held held sc sc1" "sharded_entries sc1 = sharded_entries sc"
      "\<forall>s<n. lc_lru (sc_shard sc1 ! s) = []" by auto
    have n: "n < kNumShards" and ok: "sharded_ok held sc1" using Suc.prems 1(2) by (simp_all add: client_keeps_def)
    from evict_while_ok [OF sharded_okD(3) [OF ok n], of "\<lambda>_. True"] obtain c' where
      c': "LRUCache_Prune (sc_shard sc1 ! n) = Some c'" "lru_ok (\<lambda>h. held (n, h)) c'" "keeps (sc_shard sc1 ! n) c'" "lc_lru c' = []" by (auto simp: LRUCache_Prune_def)
    note K = sharded_keeps [OF ok n c'(2,3) refl refl]
    have "\<forall>s<Suc n. lc_lru ((sc_shard sc1)[n := c'] ! s) = []" using 1(4) c'(4) sharded_okD(1) [OF ok] n by (auto simp: less_Suc_eq nth_list_update)
    then show ?case using 1 c'(1) client_keeps_trans [OF 1(2)] K by simp
  qed
  from this [OF order_refl] show ?thesis unfolding Sharded_Prune_def .
qed

lemma LRUCache_new_hashes: "hashes_ok s (LRUCache_new n)"
  by (simp add: hashes_ok_def LRUCache_new_def)

lemma sharded_new_ok: "sharded_ok (\<lambda>_. 0) (NewLRUCache capacity)" "sharded_entries (NewLRUCache capacity) = {#}"
proof -
  show "sharded_ok (\<lambda>_. 0) (NewLRUCache capacity)" by (simp add: sharded_ok_def NewLRUCache_def LRUCache_new_ok LRUCache_new_hashes)
  have "sum_list (replicate n {#}) = {#}" for n by (induction n) simp_all
  then show "sharded_entries (NewLRUCache capacity) = {#}" by (simp add: sharded_entries_def NewLRUCache_def LRUCache_new_ok)
qed

section \<open>Properties\<close>

text \<open>Any sequence of operations of clients that give back only handles they hold; \<open>hs\<close> are those handles, \<open>I\<close> what was inserted.\<close>

inductive cache_run :: "nat \<Rightarrow> 'v ShardedLRUCache \<Rightarrow> sharded_handle list \<Rightarrow> (bytes \<times> 'v) multiset \<Rightarrow> bool" for capacity where
  start: "cache_run capacity (NewLRUCache capacity) [] {#}"
| ins: "cache_run capacity sc hs I \<Longrightarrow> Sharded_Insert key val charge sc = Some (h, sc') \<Longrightarrow> cache_run capacity sc' (h # hs) (add_mset (key, val) I)"
| look: "cache_run capacity sc hs I \<Longrightarrow> Sharded_Lookup key sc = Some (p, sc') \<Longrightarrow> cache_run capacity sc' (case p of None \<Rightarrow> hs | Some h \<Rightarrow> h # hs) I"
| rel: "cache_run capacity sc hs I \<Longrightarrow> h \<in> set hs \<Longrightarrow> Sharded_Release h sc = Some sc' \<Longrightarrow> cache_run capacity sc' (remove1 h hs) I"
| era: "cache_run capacity sc hs I \<Longrightarrow> Sharded_Erase key sc = Some sc' \<Longrightarrow> cache_run capacity sc' hs I"
| pru: "cache_run capacity sc hs I \<Longrightarrow> Sharded_Prune sc = Some sc' \<Longrightarrow> cache_run capacity sc' hs I"

lemma count_list_Cons: "count_list (h # hs) = (count_list hs)(h := count_list hs h + 1)"
  by auto

lemma count_list_remove1: "h \<in> set hs \<Longrightarrow> count_list (remove1 h hs) = (count_list hs)(h := count_list hs h - 1)"
proof -
  assume h: "h \<in> set hs"
  have "count_list (remove1 h hs) x = (if x = h then count_list hs x - 1 else count_list hs x)" for x by (induction hs) auto
  then show ?thesis by auto
qed

lemma cache_run_ok: "cache_run capacity sc hs I \<Longrightarrow> sharded_ok (count_list hs) sc \<and> sharded_entries sc = I"
proof (induction rule: cache_run.induct)
  case start
  have "count_list [] = (\<lambda>_ :: sharded_handle. 0)" by auto
  then show ?case using sharded_new_ok by metis
next
  case (ins sc hs I key val charge h sc')
  then obtain h' sc'' where r: "Sharded_Insert key val charge sc = Some (h', sc'')" "count_list hs h' = 0" "client_keeps (count_list hs) ((count_list hs)(h' := 1)) sc sc''"
    "sharded_entries sc'' = add_mset (key, val) (sharded_entries sc)" using Sharded_Insert_ok by metis
  then have "h' = h" "sc'' = sc'" using ins.hyps(2) by simp_all
  then have "sharded_ok ((count_list hs)(h := count_list hs h + 1)) sc'" using client_keepsD [OF r(3)] r(2) by simp
  then show ?case using r(4) ins.IH \<open>sc'' = sc'\<close> by (simp only: count_list_Cons simp_thms)
next
  case (look sc hs I key p sc')
  obtain p' sc'' where r: "Sharded_Lookup key sc = Some (p', sc'')" "sharded_entries sc'' = sharded_entries sc"
    "case p' of None \<Rightarrow> client_keeps (count_list hs) (count_list hs) sc sc'' | Some h \<Rightarrow> client_keeps (count_list hs) ((count_list hs)(h := count_list hs h + 1)) sc sc'' \<and>
      (\<exists>val charge. entry_at h sc'' = Some (key, val, charge, HashSlice key))" using Sharded_Lookup_ok [of "count_list hs" sc key] look.IH by blast
  then have "p' = p" "sc'' = sc'" using look.hyps(2) by simp_all
  then have "sharded_ok (case p of None \<Rightarrow> count_list hs | Some h \<Rightarrow> (count_list hs)(h := count_list hs h + 1)) sc'"
    using r(3) client_keepsD by (cases p) fastforce+
  then show ?case using r(2) look.IH \<open>sc'' = sc'\<close> by (cases p) (simp_all only: option.case count_list_Cons simp_thms)
next
  case (rel sc hs I h sc')
  then have "0 < count_list hs h" using count_list_0_iff [of hs h] by auto
  then obtain sc'' where "Sharded_Release h sc = Some sc''" "client_keeps (count_list hs) ((count_list hs)(h := count_list hs h - 1)) sc sc''"
    "sharded_entries sc'' = sharded_entries sc" using Sharded_Release_ok rel.IH by blast
  then show ?case using rel.hyps(2,3) rel.IH by (simp only: count_list_remove1 client_keeps_def option.inject)
next
  case (era sc hs I key sc')
  then show ?case using Sharded_Erase_ok [of "count_list hs" sc key] by (auto simp: client_keeps_def)
next
  case (pru sc hs I sc')
  then show ?case using Sharded_Prune_ok [of "count_list hs" sc] by (auto simp: client_keeps_def)
qed

text \<open>
  C5. The LRU cache, whatever its clients do: no operation touches a freed handle or loops, a handle that a client holds stays alive with
  the value it was inserted with, and every value that was inserted is either alive or has been passed to its deleter, exactly once. An
  inserted entry is found under its key, also if it replaces another one, and an erased one is not. A lookup finds an entry with that key
  or nothing. After an insertion the shard is within its capacity unless clients hold all its entries; a release can leave it above
  until then. Reference counts and charges are natural numbers: no run has \<open>2 ^ 32\<close> handles of one entry that are not released.
\<close>

theorem lru_cache:
  assumes "cache_run capacity sc hs I"
  shows "(\<forall>h\<in>set hs. Sharded_Value h sc \<noteq> None) \<and> sharded_entries sc = I \<and>
    (\<exists>h sc'. Sharded_Insert key val charge sc = Some (h, sc') \<and> h \<notin> set hs \<and> Sharded_Value h sc' = Some val \<and> (\<forall>g\<in>set hs. Sharded_Value g sc' = Sharded_Value g sc) \<and>
       (let c = sc_shard sc' ! fst h in lc_usage c \<le> lc_capacity c \<or> lc_lru c = []) \<and>
       (0 < lc_capacity (sc_shard sc ! fst h) \<longrightarrow> (\<exists>sc''. Sharded_Lookup key sc' = Some (Some h, sc'')))) \<and>
    (\<exists>p sc'. Sharded_Lookup key sc = Some (p, sc') \<and> (\<forall>g\<in>set hs. Sharded_Value g sc' = Sharded_Value g sc) \<and>
       (\<forall>h. p = Some h \<longrightarrow> (\<exists>v charge. entry_at h sc' = Some (key, v, charge, HashSlice key)))) \<and>
    (\<forall>h\<in>set hs. \<exists>sc'. Sharded_Release h sc = Some sc' \<and> (\<forall>g\<in>set (remove1 h hs). Sharded_Value g sc' = Sharded_Value g sc)) \<and>
    (\<exists>sc'. Sharded_Erase key sc = Some sc' \<and> (\<forall>g\<in>set hs. Sharded_Value g sc' = Sharded_Value g sc) \<and> (\<exists>sc''. Sharded_Lookup key sc' = Some (None, sc''))) \<and>
    (\<exists>sc'. Sharded_Prune sc = Some sc' \<and> (\<forall>g\<in>set hs. Sharded_Value g sc' = Sharded_Value g sc) \<and> (\<forall>s<kNumShards. lc_lru (sc_shard sc' ! s) = []))"
proof (intro conjI)
  let ?held = "count_list hs"
  have ok: "sharded_ok ?held sc" and I: "sharded_entries sc = I" using cache_run_ok [OF assms] by simp_all
  have held: "0 < count_list xs g \<longleftrightarrow> g \<in> set xs" for g and xs :: "sharded_handle list" using count_list_0_iff [of xs g] by auto
  have val: "Sharded_Value g sc = map_option (fst \<circ> snd) (entry_at g sc)" for g and sc :: "'a ShardedLRUCache"
    by (cases g) (simp add: Sharded_Value_def entry_at_def entry_of_def option.map_comp comp_def)
  show "\<forall>h\<in>set hs. Sharded_Value h sc \<noteq> None" using sharded_held_alive(2) [OF ok] held by (fastforce simp: Sharded_Value_def)
  show "sharded_entries sc = I" by (rule I)
  have keep: "\<forall>g\<in>set xs. Sharded_Value g sc' = Sharded_Value g sc" if "client_keeps ?held held' sc sc'" "\<And>g. g \<in> set xs \<Longrightarrow> 0 < ?held g \<and> 0 < held' g" for sc' held' xs
  proof
    fix g assume "g \<in> set xs"
    then have "entry_at g sc' = entry_at g sc" using that unfolding client_keeps_def by blast
    then show "Sharded_Value g sc' = Sharded_Value g sc" by (simp only: val)
  qed
  show "\<exists>h sc'. Sharded_Insert key val charge sc = Some (h, sc') \<and> h \<notin> set hs \<and> Sharded_Value h sc' = Some val \<and> (\<forall>g\<in>set hs. Sharded_Value g sc' = Sharded_Value g sc) \<and>
       (let c = sc_shard sc' ! fst h in lc_usage c \<le> lc_capacity c \<or> lc_lru c = []) \<and>
       (0 < lc_capacity (sc_shard sc ! fst h) \<longrightarrow> (\<exists>sc''. Sharded_Lookup key sc' = Some (Some h, sc'')))"
  proof -
    obtain h sc' where r: "Sharded_Insert key val charge sc = Some (h, sc')" "?held h = 0" "client_keeps ?held (?held(h := 1)) sc sc'" "entry_at h sc' = Some (key, val, charge, HashSlice key)"
      "let c = sc_shard sc' ! fst h in lc_usage c \<le> lc_capacity c \<or> lc_lru c = []"
      "0 < lc_capacity (sc_shard sc ! fst h) \<longrightarrow> (\<exists>sc''. Sharded_Lookup key sc' = Some (Some h, sc''))"
      using Sharded_Insert_ok [OF ok, of key val charge] by - (elim exE conjE, rule that)
    have "h \<notin> set hs" "Sharded_Value h sc' = Some val" using r(2,4) held [of hs h] by (simp_all add: val)
    then show ?thesis using r(1,5,6) keep [OF r(3), of hs] held by (intro exI [of _ h] exI [of _ sc']) auto
  qed
  show "\<exists>p sc'. Sharded_Lookup key sc = Some (p, sc') \<and> (\<forall>g\<in>set hs. Sharded_Value g sc' = Sharded_Value g sc) \<and>
       (\<forall>h. p = Some h \<longrightarrow> (\<exists>v charge. entry_at h sc' = Some (key, v, charge, HashSlice key)))"
  proof -
    obtain p sc' where r: "Sharded_Lookup key sc = Some (p, sc')" "case p of None \<Rightarrow> client_keeps ?held ?held sc sc'
     | Some h \<Rightarrow> client_keeps ?held (?held(h := ?held h + 1)) sc sc' \<and> (\<exists>val charge. entry_at h sc' = Some (key, val, charge, HashSlice key))"
      using Sharded_Lookup_ok [OF ok, of key] by blast
    then show ?thesis
    proof (cases p)
      case None
      then show ?thesis using r keep [of ?held sc' hs] held by auto
    next
      case (Some h)
      then show ?thesis using r keep [of "?held(h := ?held h + 1)" sc' hs] held by (intro exI [of _ p] exI [of _ sc']) auto
    qed
  qed
  show "\<forall>h\<in>set hs. \<exists>sc'. Sharded_Release h sc = Some sc' \<and> (\<forall>g\<in>set (remove1 h hs). Sharded_Value g sc' = Sharded_Value g sc)"
  proof
    fix h assume h: "h \<in> set hs"
    then obtain sc' where r: "Sharded_Release h sc = Some sc'" "client_keeps ?held (?held(h := ?held h - 1)) sc sc'" using Sharded_Release_ok [OF ok] held by blast
    have "client_keeps ?held (count_list (remove1 h hs)) sc sc'" using r(2) h by (simp only: count_list_remove1)
    then show "\<exists>sc'. Sharded_Release h sc = Some sc' \<and> (\<forall>g\<in>set (remove1 h hs). Sharded_Value g sc' = Sharded_Value g sc)"
      using r(1) keep [of "count_list (remove1 h hs)" sc' "remove1 h hs"] held set_remove1_subset [of h hs] by blast
  qed
  show "\<exists>sc'. Sharded_Erase key sc = Some sc' \<and> (\<forall>g\<in>set hs. Sharded_Value g sc' = Sharded_Value g sc) \<and> (\<exists>sc''. Sharded_Lookup key sc' = Some (None, sc''))"
    using Sharded_Erase_ok [OF ok, of key] keep [of ?held _ hs] held by blast
  show "\<exists>sc'. Sharded_Prune sc = Some sc' \<and> (\<forall>g\<in>set hs. Sharded_Value g sc' = Sharded_Value g sc) \<and> (\<forall>s<kNumShards. lc_lru (sc_shard sc' ! s) = [])"
    using Sharded_Prune_ok [OF ok] keep [of ?held _ hs] held by blast
qed

theorem lru_cache_witness:
  "\<exists>(sc :: nat ShardedLRUCache) h. Sharded_Insert [97] 7 1 (NewLRUCache 1) = Some (h, sc) \<and> Sharded_Value h sc = Some 7 \<and> (\<exists>sc'. Sharded_Lookup [97] sc = Some (Some h, sc'))"
proof -
  obtain h and sc :: "nat ShardedLRUCache" where i: "Sharded_Insert [97] 7 1 (NewLRUCache 1) = Some (h, sc)" "Sharded_Value h sc = Some 7"
    "0 < lc_capacity (sc_shard (NewLRUCache 1 :: nat ShardedLRUCache) ! fst h) \<longrightarrow> (\<exists>sc'. Sharded_Lookup [97] sc = Some (Some h, sc'))"
    using lru_cache [OF cache_run.start, of 1 "[97]" "7 :: nat" 1] by - (elim conjE exE, rule that)
  have "fst h = Shard (HashSlice [97])" using i(1) by (auto simp: Sharded_Insert_def Let_def)
  then have "lc_capacity (sc_shard (NewLRUCache 1 :: nat ShardedLRUCache) ! fst h) = 1"
    using Shard_less [of "HashSlice [97]"] by (simp add: NewLRUCache_def LRUCache_new_def kNumShards_def)
  then show ?thesis using i by auto
qed

end
