(* ===== verification/KMeans.thy ===== *)
theory KMeans
  imports Coding Complex_Main "HOL-Library.Monad_Syntax"
begin

text \<open>
  \<open>util/k_means.h\<close>, for the two-column data that \<open>util/sstable_worth.cc\<close> clusters: the columns of a row are
  the components of a pair, and the loops over columns are written out. The random numbers are an argument,
  a number between 0 and 1 for each call of \<open>rand\<close>; \<open>double\<close> is a real number. The distances are computed in
  64 bits and wrap around. \<open>None\<close> is a read past the end of a vector, or a loop that does not end.
\<close>

type_synonym feature = "u64 \<times> u64"

text \<open>The smallest and the largest value of a column; the first two rows are read without a test.\<close>

definition getMinMax :: "(feature \<Rightarrow> u64) \<Rightarrow> feature list \<Rightarrow> (u64 \<times> u64) option" where
  "getMinMax idx dataSet =
     (case dataSet of
        r0 # r1 # rows \<Rightarrow>
          Some (fold (\<lambda>r (mn, mx). if idx r < mn then (idx r, mx) else if idx r > mx then (mn, idx r) else (mn, mx)) rows
            (if idx r0 > idx r1 then (idx r1, idx r0) else (idx r0, idx r1)))
      | _ \<Rightarrow> None)"

text \<open>The values of one column of the \<open>k\<close> centroids.\<close>

definition setCentroids :: "(nat \<Rightarrow> real) \<Rightarrow> nat \<Rightarrow> u64 \<times> u64 \<Rightarrow> nat \<Rightarrow> u64 list" where
  "setCentroids rnd k tminmax idx =
     (let (mn, mx) = tminmax; rangeIdx = mx - mn
      in map (\<lambda>i. of_nat (nat \<lfloor>real (unat mn) + real (unat rangeIdx) * rnd (idx * k + i)\<rfloor>)) [0..<k])"

definition randCent :: "(nat \<Rightarrow> real) \<Rightarrow> nat \<Rightarrow> feature list \<Rightarrow> feature list option" where
  "randCent rnd k dataSet = do {
     tminmax \<leftarrow> getMinMax fst dataSet;
     let column0 = setCentroids rnd k tminmax 0;
     tminmax \<leftarrow> getMinMax snd dataSet;
     let column1 = setCentroids rnd k tminmax 1;
     Some (zip column0 column1)
   }"

definition distEclud :: "feature \<Rightarrow> feature \<Rightarrow> real" where
  "distEclud v1 v2 =
     real (unat ((fst v1 - fst v2) * (fst v1 - fst v2) + (snd v1 - snd v2) * (snd v1 - snd v2)))"

text \<open>The assignment of a row: the index of its centroid and the distance.\<close>

type_synonym node = "int \<times> real"

definition initClusterAssment :: "feature list \<Rightarrow> node list" where
  "initClusterAssment dataSet = replicate (length dataSet) (-1, -1)"

text \<open>No centroid is found, and the index stays -1, when all are at a distance of \<open>INT_MAX\<close> or more.\<close>

definition nearest_centroid :: "feature list \<Rightarrow> feature \<Rightarrow> node" where
  "nearest_centroid centroids row =
     fold (\<lambda>j (minIndex, minDist).
        let distJI = distEclud (centroids ! j) row
        in if distJI < minDist then (int j, distJI) else (minIndex, minDist)) [0..<length centroids] (-1, 2147483647)"

fun assign_rows :: "feature list \<Rightarrow> feature list \<Rightarrow> node list \<Rightarrow> bool \<times> node list" where
  "assign_rows centroids (row # rows) (node # nodes) =
     (let (clusterChanged, nodes) = assign_rows centroids rows nodes; new = nearest_centroid centroids row
      in if fst node \<noteq> fst new then (True, new # nodes) else (clusterChanged, node # nodes))"
| "assign_rows centroids _ nodes = (False, nodes)"

text \<open>The mean of the rows of a centroid in 64-bit integers; the origin if there are none.\<close>

definition update_centroid :: "feature list \<Rightarrow> node list \<Rightarrow> nat \<Rightarrow> feature" where
  "update_centroid dataSet nodes cent =
     (let rows = map fst (filter (\<lambda>(row, node). fst node = int cent) (zip dataSet nodes));
          cnt = length rows;
          vec = (sum_list (map fst rows), sum_list (map snd rows))
      in if cnt \<noteq> 0 then (fst vec div of_nat cnt, snd vec div of_nat cnt) else vec)"

definition kmeans_round :: "feature list \<Rightarrow> feature list \<times> node list \<Rightarrow> bool \<times> feature list \<times> node list" where
  "kmeans_round dataSet st =
     (let (centroids, nodes) = st;
          (clusterChanged, nodes) = assign_rows centroids dataSet nodes
      in (clusterChanged, map (update_centroid dataSet nodes) [0..<length centroids], nodes))"

partial_function (option) kmeans_loop :: "feature list \<Rightarrow> feature list \<times> node list \<Rightarrow> (feature list \<times> node list) option" where
  "kmeans_loop dataSet st =
     (case kmeans_round dataSet st of
        (clusterChanged, st) \<Rightarrow> if clusterChanged then kmeans_loop dataSet st else Some st)"

definition kmeans :: "feature list \<Rightarrow> feature list \<Rightarrow> (feature list \<times> node list) option" where
  "kmeans dataSet centroids = kmeans_loop dataSet (centroids, initClusterAssment dataSet)"

definition getIndex :: "node list \<Rightarrow> u64 list" where
  "getIndex nodes = map (\<lambda>node. of_int (fst node)) nodes"

section \<open>What clustering gives\<close>

definition clustering_ok :: "nat \<Rightarrow> nat \<Rightarrow> feature list \<times> node list \<Rightarrow> bool" where
  "clustering_ok k n st \<longleftrightarrow> length (fst st) = k \<and> length (snd st) = n \<and> (\<forall>node\<in>set (snd st). -1 \<le> fst node \<and> fst node < int k)"

lemma nearest_centroid_range: "-1 \<le> fst (nearest_centroid centroids row) \<and> fst (nearest_centroid centroids row) < int (length centroids)"
proof -
  let ?f = "\<lambda>j (minIndex, minDist). let distJI = distEclud (centroids ! j) row in if distJI < minDist then (int j, distJI) else (minIndex, minDist)"
  have "-1 \<le> fst (fold ?f [0..<n] (-1, d)) \<and> fst (fold ?f [0..<n] (-1, d)) < int n" for n d
    by (induction n) (auto simp: Let_def split_beta)
  then show ?thesis by (simp add: nearest_centroid_def)
qed

definition indices_ok :: "nat \<Rightarrow> node list \<Rightarrow> bool" where
  "indices_ok k nodes \<longleftrightarrow> (\<forall>node\<in>set nodes. -1 \<le> fst node \<and> fst node < int k)"

lemma assign_rows_ok:
  "assign_rows centroids rows nodes = (changed, nodes') \<Longrightarrow> indices_ok (length centroids) nodes \<Longrightarrow>
   length nodes' = length nodes \<and> indices_ok (length centroids) nodes'"
proof (induction centroids rows nodes arbitrary: changed nodes' rule: assign_rows.induct)
  case (1 centroids row rows node nodes)
  obtain c ns where ns: "assign_rows centroids rows nodes = (c, ns)" by (cases "assign_rows centroids rows nodes")
  have head: "indices_ok (length centroids) nodes" "-1 \<le> fst node \<and> fst node < int (length centroids)"
    using "1.prems"(2) by (simp_all add: indices_ok_def)
  have rest: "length ns = length nodes" "indices_ok (length centroids) ns" using "1.IH" [OF ns head(1)] by simp_all
  have "nodes' = (if fst node \<noteq> fst (nearest_centroid centroids row) then nearest_centroid centroids row else node) # ns"
    using "1.prems"(1) ns by (simp add: Let_def split: if_splits)
  then show ?case using rest head(2) nearest_centroid_range [of centroids row] by (simp add: indices_ok_def)
qed simp_all

lemma kmeans_round_ok:
  assumes "clustering_ok k n st" "kmeans_round dataSet st = (changed, st')"
  shows "clustering_ok k n st'"
proof -
  obtain cs ns where st: "st = (cs, ns)" by (cases st)
  obtain c ns' where ns': "assign_rows cs dataSet ns = (c, ns')" by (cases "assign_rows cs dataSet ns")
  show ?thesis using assms assign_rows_ok [OF ns'] by (auto simp: clustering_ok_def kmeans_round_def st ns' indices_ok_def)
qed

lemma kmeans_loop_ok:
  assumes "kmeans_loop dataSet st = Some st'" "clustering_ok k n st"
  shows "clustering_ok k n st'"
proof -
  have "clustering_ok k n st \<longrightarrow> clustering_ok k n st'"
  proof (rule kmeans_loop.raw_induct [where P = "\<lambda>dataSet st st'. clustering_ok k n st \<longrightarrow> clustering_ok k n st'", OF _ assms(1)])
    fix loop dataSet st st'
    assume IH: "\<And>dataSet st st'. loop dataSet st = Some st' \<Longrightarrow> clustering_ok k n st \<longrightarrow> clustering_ok k n st'"
      and step: "(case kmeans_round dataSet st of (changed, st) \<Rightarrow> if changed then loop dataSet st else Some st) = Some st'"
    obtain changed st1 where round: "kmeans_round dataSet st = (changed, st1)" by (cases "kmeans_round dataSet st")
    then show "clustering_ok k n st \<longrightarrow> clustering_ok k n st'"
      using step IH [of dataSet st1 st'] kmeans_round_ok [OF _ round] by (auto split: if_splits)
  qed
  then show ?thesis using assms(2) by blast
qed

lemma randCent_length: "randCent rnd k dataSet = Some centroids \<Longrightarrow> length centroids = k"
  by (auto simp: randCent_def setCentroids_def bind_eq_Some_conv Let_def split_beta)

lemma kmeans_ok:
  assumes "randCent rnd k dataSet = Some centroids" "kmeans dataSet centroids = Some st"
  shows "clustering_ok k (length dataSet) st"
  using assms randCent_length [OF assms(1)]
  by (auto simp: kmeans_def clustering_ok_def initClusterAssment_def intro!: kmeans_loop_ok [OF assms(2) [unfolded kmeans_def], unfolded clustering_ok_def])

text \<open>A single row is not enough: the second one is read all the same.\<close>

lemma randCent_single: "randCent rnd k [row] = None"
  by (simp add: randCent_def getMinMax_def)

text \<open>A row far away from all centroids gets no cluster.\<close>

lemma nearest_centroid_far:
  assumes "\<forall>c\<in>set centroids. 2147483647 \<le> distEclud c row"
  shows "nearest_centroid centroids row = (-1, 2147483647)"
proof -
  let ?f = "\<lambda>j (minIndex, minDist). let distJI = distEclud (centroids ! j) row in if distJI < minDist then (int j, distJI) else (minIndex, minDist)"
  have "fold ?f [0..<n] (-1, 2147483647) = (-1, 2147483647)" if "n \<le> length centroids" for n
    using that
  proof (induction n)
    case (Suc n)
    then have "2147483647 \<le> distEclud (centroids ! n) row" using assms nth_mem [of n centroids] by simp
    then show ?case using Suc by (simp add: Let_def)
  qed simp
  then show ?thesis by (simp add: nearest_centroid_def)
qed

end
