(* ===== verification/SSTableWorth.thy ===== *)
theory SSTableWorth
  imports VersionEdit KMeans
begin

text \<open>
  Whether a further filter unit of a table is worth its memory (\<open>util/sstable_worth.cc\<close>), from clusters of tables
  (\<open>KMeans\<close>) and a line fitted to their accesses (\<open>util/lr.cc\<close>). Floating-point numbers are real numbers here. \<open>None\<close> is a
  read past the end of a vector, or a clustering that does not end.
\<close>

record Cluster =
  cl_center_level :: u64
  cl_center_access_time :: u64
  cl_a :: real
  cl_b :: real

record SSTableWorth =
  sw_clusters :: "Cluster list"
  sw_table_to_cluster :: "u64 \<rightharpoonup> int"

definition SSTableWorth_new :: SSTableWorth where
  "SSTableWorth_new =
     \<lparr>sw_clusters = replicate 7 \<lparr>cl_center_level = 0, cl_center_access_time = 0, cl_a = 0, cl_b = 0\<rparr>, sw_table_to_cluster = Map.empty\<rparr>"

definition get_distance :: "u64 \<Rightarrow> u64 \<Rightarrow> Cluster \<Rightarrow> real" where
  "get_distance level access_time cluster =
     (let delta_level = sqrt (real (unat (level - cl_center_level cluster)));
          delta_access_time = sqrt (real (unat (access_time - cl_center_access_time cluster)))
      in (delta_access_time + delta_level) powr 0.5)"

text \<open>
  The index -1 of a table without a nearest centre reads in front of the clusters; a time out of the range of
  \<open>uint64_t\<close> has no conversion.
\<close>

definition IsWorth :: "u64 \<Rightarrow> u64 \<Rightarrow> nat \<Rightarrow> nat \<Rightarrow> SSTableWorth \<Rightarrow> bool option" where
  "IsWorth table_id next_period_time bf_number bits_per_key w =
     (case sw_table_to_cluster w table_id of
        None \<Rightarrow> Some True
      | Some cluster_index \<Rightarrow>
          if cluster_index < 0 \<or> int (length (sw_clusters w)) \<le> cluster_index then None
          else
          let cluster = sw_clusters w ! nat cluster_index;
              next_time = cl_a cluster * real (unat next_period_time) + cl_b cluster;
              next_sstable_time = real (nat \<lfloor>next_time\<rfloor>);
              overhead = next_sstable_time * 0.6185 powr real (bits_per_key * bf_number) * (1 - 0.6185 powr real bits_per_key)
          in if next_time \<le> -1 \<or> 2 ^ 64 \<le> next_time then None else Some (overhead \<le> 12))"

text \<open>The nearest cluster, the first one if none is nearer than the greatest \<open>float\<close>.\<close>

definition nearest :: "real \<Rightarrow> u64 \<Rightarrow> u64 \<Rightarrow> Cluster list \<Rightarrow> nat" where
  "nearest max_float level access_time clusters =
     snd (fold (\<lambda>i (min_dist, min_index).
        let dist = get_distance level access_time (clusters ! i)
        in if dist < min_dist then (dist, i) else (min_dist, min_index)) [0..<length clusters] (max_float, 0))"

definition AddSSTable :: "real \<Rightarrow> u64 \<Rightarrow> u64 \<Rightarrow> u64 \<Rightarrow> SSTableWorth \<Rightarrow> SSTableWorth" where
  "AddSSTable max_float table_id level access_time w =
     w\<lparr>sw_table_to_cluster := (sw_table_to_cluster w)(table_id \<mapsto> int (nearest max_float level access_time (sw_clusters w)))\<rparr>"

definition getTableID :: "FileMetaData list list \<Rightarrow> u64 list" where
  "getTableID files = concat (map (map fm_number) files)"

definition getFeatures :: "FileMetaData list list \<Rightarrow> feature list" where
  "getFeatures files = concat (map (\<lambda>i. map (\<lambda>f. (of_nat i, of_int (fm_point_query_time_all f))) (files ! i)) [0..<length files])"

text \<open>The indices are 64-bit numbers on the way into the map, which holds an \<open>int\<close>; a centre is stored without a test.\<close>

definition DoOneCluster :: "(nat \<Rightarrow> real) \<Rightarrow> feature list \<Rightarrow> u64 list \<Rightarrow> nat \<Rightarrow> SSTableWorth \<Rightarrow> SSTableWorth option" where
  "DoOneCluster rnd data table_id cluster_number w =
     (if data = [] then Some w
      else do {
        centroids \<leftarrow> randCent rnd cluster_number data;
        (cluster_center, nodes) \<leftarrow> kmeans data centroids;
        let cluster_id = getIndex nodes;
        if length cluster_id < length table_id \<or> length (sw_clusters w) < length cluster_center then None
        else do {
          let w = w\<lparr>sw_table_to_cluster :=
            fold (\<lambda>i m. m(table_id ! i \<mapsto> sint (ucast (cluster_id ! i) :: u32))) [0..<length table_id] (sw_table_to_cluster w)\<rparr>;
          Some (w\<lparr>sw_clusters :=
            fold (\<lambda>i cs. cs[i := (cs ! i)\<lparr>cl_center_level := fst (cluster_center ! i), cl_center_access_time := snd (cluster_center ! i)\<rparr>])
              [0..<length cluster_center] (sw_clusters w)\<rparr>)
        }
      })"

definition DoCluster :: "(nat \<Rightarrow> real) \<Rightarrow> FileMetaData list list \<Rightarrow> SSTableWorth \<Rightarrow> SSTableWorth option" where
  "DoCluster rnd files w = DoOneCluster rnd (getFeatures files) (getTableID files) 7 w"

text \<open>The files that have no cluster; \<open>operator[]\<close> puts them into cluster 0 on the way.\<close>

definition TakePartOfFiles :: "FileMetaData list list \<Rightarrow> SSTableWorth \<Rightarrow> FileMetaData list list \<times> SSTableWorth" where
  "TakePartOfFiles files w =
     fold (\<lambda>d (result, w).
        case sw_table_to_cluster w (fm_number d) of
          Some _ \<Rightarrow> (result, w)
        | None \<Rightarrow> (result[0 := result ! 0 @ [d]], w\<lparr>sw_table_to_cluster := (sw_table_to_cluster w)(fm_number d \<mapsto> 0)\<rparr>))
       (concat files) (replicate 7 [], w)"

text \<open>
  The averages of a group. The longest history gives the first components; then the second components of the
  histories are averaged, \<open>d\<close> places before their ends. The test for a place before the start compares an
  unsigned number with 0, and never holds.
\<close>

definition longest :: "FileMetaData list \<Rightarrow> nat \<times> nat" where
  "longest group_files =
     fold (\<lambda>a (max_length, index).
        let s = length (fm_history_time (group_files ! a)) in if s > max_length then (s, a) else (max_length, index)) [0..<length group_files] (0, 0)"

fun add_times :: "nat \<Rightarrow> FileMetaData list \<Rightarrow> u64 \<times> u64 \<Rightarrow> (u64 \<times> u64) option" where
  "add_times d [] (tsum, number) = Some (tsum, number)"
| "add_times d (meta_data # group_files) (tsum, number) =
     (let history_time = fm_history_time meta_data;
          i = unat (of_nat (length history_time) - of_nat d - 1 :: u64)
      in if i < length history_time then add_times d group_files (tsum + snd (history_time ! i), number + 1) else None)"

fun averages :: "FileMetaData list \<Rightarrow> nat list \<Rightarrow> real list option" where
  "averages group_files [] = Some []"
| "averages group_files (d # ds) = do {
     (tsum, number) \<leftarrow> add_times d group_files (0, 0);
     ys \<leftarrow> averages group_files ds;
     Some (real (unat (tsum div number)) # ys)
   }"

definition average_group :: "FileMetaData list \<Rightarrow> (real list \<times> real list) option" where
  "average_group group_files = do {
     let (max_length, index) = longest group_files;
     let x = map (\<lambda>h. real (unat (fst h))) (fm_history_time (group_files ! index));
     y \<leftarrow> averages group_files (rev [0..<max_length + 1]);
     Some (x, y)
   }"

fun average_groups :: "FileMetaData list list \<Rightarrow> (real list \<times> real list) list option" where
  "average_groups [] = Some []"
| "average_groups (group_files # groups) =
     (if group_files = [] then average_groups groups
      else do {
        lrdata \<leftarrow> average_group group_files;
        result \<leftarrow> average_groups groups;
        Some (lrdata # result)
      })"

text \<open>The averages are computed, and an empty list is returned.\<close>

definition DoAverage :: "FileMetaData list list \<Rightarrow> SSTableWorth \<Rightarrow> ((real list \<times> real list) list \<times> SSTableWorth) option" where
  "DoAverage files w = do {
     let (groups, w) = TakePartOfFiles files w;
     result \<leftarrow> average_groups groups;
     Some ([], w)
   }"

text \<open>\<open>LeastSquare\<close>: slope and offset; \<open>y\<close> is read up to the length of \<open>x\<close>.\<close>

definition LeastSquare :: "real list \<Rightarrow> real list \<Rightarrow> (real \<times> real) option" where
  "LeastSquare x y =
     (if length y < length x then None
      else
        let n = real (length x);
            t1 = sum_list (map (\<lambda>i. x ! i * x ! i) [0..<length x]);
            t2 = sum_list x;
            t3 = sum_list (map (\<lambda>i. x ! i * y ! i) [0..<length x]);
            t4 = sum_list (map (\<lambda>i. y ! i) [0..<length x])
        in Some ((t3 * n - t2 * t4) / (t1 * n - t2 * t2), (t1 * t4 - t2 * t3) / (t1 * n - t2 * t2)))"

fun fit_clusters :: "nat \<Rightarrow> (real list \<times> real list) list \<Rightarrow> Cluster list \<Rightarrow> Cluster list option" where
  "fit_clusters i [] cs = Some cs"
| "fit_clusters i (d # data) cs = do {
     (a, b) \<leftarrow> LeastSquare (fst d) (snd d);
     if i < length cs then fit_clusters (i + 1) data (cs[i := (cs ! i)\<lparr>cl_a := a, cl_b := b\<rparr>]) else None
   }"

definition DoLineRegression :: "(real list \<times> real list) list \<Rightarrow> SSTableWorth \<Rightarrow> SSTableWorth option" where
  "DoLineRegression data w = map_option (\<lambda>cs. w\<lparr>sw_clusters := cs\<rparr>) (fit_clusters 0 data (sw_clusters w))"

definition ClusterSSTable :: "(nat \<Rightarrow> real) \<Rightarrow> FileMetaData list list \<Rightarrow> SSTableWorth \<Rightarrow> SSTableWorth option" where
  "ClusterSSTable rnd files w = do {
     w \<leftarrow> DoCluster rnd files w;
     (d, w) \<leftarrow> DoAverage files w;
     DoLineRegression d w
   }"

section \<open>Every unit is worth it\<close>

definition never_fitted :: "SSTableWorth \<Rightarrow> bool" where
  "never_fitted w \<longleftrightarrow> (\<forall>cl\<in>set (sw_clusters w). cl_a cl = 0 \<and> cl_b cl = 0)"

lemma length_ids: "length (getTableID files) = length (getFeatures files)"
proof -
  have "map (\<lambda>i. length (files ! i)) [0..<length files] = map length files" by (rule nth_equalityI) simp_all
  then show ?thesis by (simp add: getTableID_def getFeatures_def length_concat comp_def)
qed

text \<open>All files have a cluster once the files have been clustered, so none is left for the averages.\<close>

lemma clustered:
  assumes "DoCluster rnd files w = Some w'" "n \<in> fm_number ` set (concat files)"
  shows "sw_table_to_cluster w' n \<noteq> None"
proof -
  have "n \<in> set (getTableID files)" using assms(2) by (auto simp: getTableID_def)
  moreover have "getFeatures files \<noteq> []" using calculation length_ids [of files] by auto
  moreover have "n \<in> set (take k ids) \<Longrightarrow> k \<le> length ids \<Longrightarrow> fold (\<lambda>i m. m(ids ! i \<mapsto> f i)) [0..<k] m n \<noteq> None"
    for k ids and f :: "nat \<Rightarrow> int" and m
    by (induction k) (auto simp: take_Suc_conv_app_nth)
  ultimately show ?thesis
    using assms(1) by (auto simp: DoCluster_def DoOneCluster_def bind_eq_Some_conv Let_def split_beta split: if_splits)
qed

lemma no_groups:
  assumes "DoCluster rnd files w = Some w'"
  shows "TakePartOfFiles files w' = (replicate 7 [], w')"
proof -
  have known: "\<exists>i. sw_table_to_cluster w' (fm_number d) = Some i" if "d \<in> set (concat files)" for d
    using clustered [OF assms, of "fm_number d"] that by blast
  have "set ds \<subseteq> set (concat files) \<Longrightarrow> fold (\<lambda>d (result, w). case sw_table_to_cluster w (fm_number d) of Some _ \<Rightarrow> (result, w)
        | None \<Rightarrow> (result[0 := result ! 0 @ [d]], w\<lparr>sw_table_to_cluster := (sw_table_to_cluster w)(fm_number d \<mapsto> 0)\<rparr>)) ds (replicate 7 [], w') = (replicate 7 [], w')" for ds
  proof (induction ds)
    case (Cons d ds)
    then obtain i where "sw_table_to_cluster w' (fm_number d) = Some i" using known [of d] by auto
    then show ?case using Cons by simp
  qed simp
  then show ?thesis by (simp add: TakePartOfFiles_def)
qed

lemma ClusterSSTable_eq: "ClusterSSTable rnd files w = DoCluster rnd files w"
proof (cases "DoCluster rnd files w")
  case (Some w')
  have "average_groups (replicate n []) = Some []" for n by (induction n) simp_all
  then show ?thesis using no_groups [OF Some] Some by (simp add: ClusterSSTable_def DoAverage_def DoLineRegression_def)
qed (simp add: ClusterSSTable_def)

inductive worth_reachable :: "SSTableWorth \<Rightarrow> bool" where
  start: "worth_reachable SSTableWorth_new"
| add: "worth_reachable w \<Longrightarrow> worth_reachable (AddSSTable max_float table_id level access_time w)"
| cluster: "worth_reachable w \<Longrightarrow> ClusterSSTable rnd files w = Some w' \<Longrightarrow> worth_reachable w'"

definition worth_ok :: "SSTableWorth \<Rightarrow> bool" where
  "worth_ok w \<longleftrightarrow> length (sw_clusters w) = 7 \<and> never_fitted w \<and> (\<forall>n i. sw_table_to_cluster w n = Some i \<longrightarrow> -1 \<le> i \<and> i < 7)"

lemma nearest_less: "length clusters = 7 \<Longrightarrow> nearest max_float level access_time clusters < 7"
proof -
  assume len: "length clusters = 7"
  let ?f = "\<lambda>i (min_dist, min_index). let dist = get_distance level access_time (clusters ! i) in if dist < min_dist then (dist, i) else (min_dist, min_index)"
  have "snd (fold ?f [0..<n] (d, 0)) < 7" if "n \<le> 7" for n d
    using that by (induction n) (auto simp: Let_def split_beta)
  then show ?thesis by (simp add: nearest_def len)
qed

lemma fold_update_keeps:
  assumes "\<And>i c. P c \<Longrightarrow> P (f i c)" "length cs = n \<and> (\<forall>c\<in>set cs. P c)"
  shows "length (fold (\<lambda>i cs. cs[i := f i (cs ! i)]) is cs) = n \<and> (\<forall>c\<in>set (fold (\<lambda>i cs. cs[i := f i (cs ! i)]) is cs). P c)"
  using assms(2)
proof (induction "is" arbitrary: cs)
  case (Cons i "is")
  have "\<forall>c\<in>set (cs[i := f i (cs ! i)]). P c"
  proof (cases "i < length cs")
    case True
    then show ?thesis using Cons.prems assms(1) set_update_subset_insert [of cs i "f i (cs ! i)"] by auto
  qed (use Cons.prems in \<open>simp add: list_update_beyond\<close>)
  then have "length (cs[i := f i (cs ! i)]) = n \<and> (\<forall>c\<in>set (cs[i := f i (cs ! i)]). P c)" using Cons.prems by simp
  from Cons.IH [OF this] show ?case by simp
qed simp

lemma index_through_words: "-1 \<le> i \<Longrightarrow> i < 7 \<Longrightarrow> sint (ucast (of_int i :: u64) :: u32) = i"
proof -
  assume "-1 \<le> i" "i < 7"
  then have "i \<in> {-1, 0, 1, 2, 3, 4, 5, 6}" by auto
  moreover have "sint (ucast (- 1 :: u64) :: u32) = -1" by code_simp
  ultimately show ?thesis by auto
qed

lemma DoCluster_ok:
  assumes w: "worth_ok w" and c: "DoCluster rnd files w = Some w'"
  shows "worth_ok w'"
proof (cases "getFeatures files = []")
  case True
  then show ?thesis using w c by (simp add: DoCluster_def DoOneCluster_def)
next
  case False
  let ?ids = "getTableID files"
  obtain centroids centers nodes where k: "randCent rnd 7 (getFeatures files) = Some centroids"
    "kmeans (getFeatures files) centroids = Some (centers, nodes)"
    and w': "w' = w\<lparr>sw_table_to_cluster := fold (\<lambda>i m. m(?ids ! i \<mapsto> sint (ucast (getIndex nodes ! i) :: u32))) [0..<length ?ids] (sw_table_to_cluster w),
      sw_clusters := fold (\<lambda>i cs. cs[i := (cs ! i)\<lparr>cl_center_level := fst (centers ! i), cl_center_access_time := snd (centers ! i)\<rparr>])
        [0..<length centers] (sw_clusters w)\<rparr>"
    using c False by (auto simp: DoCluster_def DoOneCluster_def bind_eq_Some_conv Let_def split: if_splits)
  have ok: "length nodes = length ?ids" "\<forall>node\<in>set nodes. -1 \<le> fst node \<and> fst node < 7"
    using kmeans_ok [OF k] length_ids [of files] by (simp_all add: clustering_ok_def)
  have idx: "-1 \<le> sint (ucast (getIndex nodes ! i) :: u32) \<and> sint (ucast (getIndex nodes ! i) :: u32) < 7" if "i < length ?ids" for i
  proof -
    have "-1 \<le> fst (nodes ! i) \<and> fst (nodes ! i) < 7" using ok that nth_mem [of i nodes] by simp
    then show ?thesis using ok(1) that index_through_words [of "fst (nodes ! i)"] by (simp add: getIndex_def)
  qed
  define m where "m = (\<lambda>k. fold (\<lambda>i m. m(?ids ! i \<mapsto> sint (ucast (getIndex nodes ! i) :: u32))) [0..<k] (sw_table_to_cluster w))"
  have "m k n = Some i \<Longrightarrow> k \<le> length ?ids \<Longrightarrow> -1 \<le> i \<and> i < 7" for k n i
  proof (induction k)
    case 0
    then show ?case using w by (simp add: m_def worth_ok_def)
  next
    case (Suc k)
    then show ?case using idx [of k] by (auto simp: m_def split: if_splits)
  qed
  then have m: "\<forall>n i. m (length ?ids) n = Some i \<longrightarrow> -1 \<le> i \<and> i < 7" by auto
  define cs where "cs = fold (\<lambda>i cs. cs[i := (cs ! i)\<lparr>cl_center_level := fst (centers ! i), cl_center_access_time := snd (centers ! i)\<rparr>])
    [0..<length centers] (sw_clusters w)"
  have "length cs = 7 \<and> (\<forall>cl\<in>set cs. cl_a cl = 0 \<and> cl_b cl = 0)"
    unfolding cs_def using w by (intro fold_update_keeps) (simp_all add: worth_ok_def never_fitted_def)
  then show ?thesis using m unfolding w' by (simp add: worth_ok_def never_fitted_def m_def cs_def)
qed

lemma worth_reachable_ok: "worth_reachable w \<Longrightarrow> worth_ok w"
proof (induction rule: worth_reachable.induct)
  case start
  show ?case by (simp add: worth_ok_def SSTableWorth_new_def never_fitted_def)
next
  case (add w max_float table_id level access_time)
  then show ?case using nearest_less [of "sw_clusters w" max_float level access_time] by (auto simp: worth_ok_def AddSSTable_def never_fitted_def)
next
  case (cluster w rnd files w')
  then show ?case using DoCluster_ok by (simp add: ClusterSSTable_eq)
qed

text \<open>With a single file, the clustering reads a second row that is not there.\<close>

lemma cluster_single_file: "length (concat files) = 1 \<Longrightarrow> ClusterSSTable rnd files w = None"
proof -
  assume "length (concat files) = 1"
  then have "length (getFeatures files) = 1" using length_ids [of files] by (simp add: getTableID_def length_concat comp_def)
  then obtain row where "getFeatures files = [row]" by (auto simp: length_Suc_conv)
  then show ?thesis by (simp add: ClusterSSTable_eq DoCluster_def DoOneCluster_def randCent_single)
qed

text \<open>
  C40. The test whether a filter unit is worth its memory never says no: after any sequence of additions and of
  clusterings that return, with any random numbers, it says yes, except for a table that clustering left without
  a centre, for which it reads in front of the clusters. No coefficient of the line fit is ever stored: all files
  have a cluster when the averages are made, so that they are skipped, and the averages are dropped.
\<close>

theorem sstable_worth_always:
  assumes "worth_reachable w"
  shows "IsWorth table_id next_period_time bf_number bits_per_key w =
    (if sw_table_to_cluster w table_id = Some (-1) then None else Some True)"
proof (cases "sw_table_to_cluster w table_id")
  case None
  then show ?thesis by (simp add: IsWorth_def)
next
  case (Some i)
  have ok: "worth_ok w" by (rule worth_reachable_ok [OF assms])
  then have i: "-1 \<le> i" "i < 7" "length (sw_clusters w) = 7" using Some by (auto simp: worth_ok_def)
  show ?thesis
  proof (cases "i = -1")
    case False
    then have "sw_clusters w ! nat i \<in> set (sw_clusters w)" using i by (intro nth_mem) simp
    then have "cl_a (sw_clusters w ! nat i) = 0" "cl_b (sw_clusters w ! nat i) = 0"
      using ok by (simp_all add: worth_ok_def never_fitted_def)
    moreover have "\<not> (i < 0 \<or> 7 \<le> i)" using i False by auto
    ultimately show ?thesis using i(3) False Some by (simp add: IsWorth_def Let_def)
  qed (use Some in \<open>simp add: IsWorth_def\<close>)
qed

text \<open>
  Both answers occur: two tables of level 0, one never queried and one queried two billion times, and random
  numbers that put all centres on the first.
\<close>

definition far_files :: "FileMetaData list list" where
  "far_files = [[FileMetaData_new 5, (FileMetaData_new 7)\<lparr>fm_point_query_time_all := 2000000000\<rparr>], [], [], [], [], [], []]"

lemma far_files_kmeans:
  defines "rows \<equiv> [(0, 0), (0, 2000000000)]" and "centroids \<equiv> replicate 7 (0, 0)"
  shows "randCent (\<lambda>_. 0) 7 rows = Some centroids" "kmeans rows centroids = Some (centroids, [(0, 0), (-1, -1)])"
proof -
  show "randCent (\<lambda>_. 0) 7 rows = Some centroids"
    by (simp add: rows_def centroids_def randCent_def getMinMax_def setCentroids_def upt_rec numeral_eq_Suc)
  have far: "nearest_centroid centroids (0, 2000000000) = (-1, 2147483647)"
    by (rule nearest_centroid_far) (simp add: centroids_def distEclud_def)
  have near: "nearest_centroid centroids (0, 0) = (0, 0)"
    by (simp add: centroids_def nearest_centroid_def distEclud_def upt_rec)
  have update: "map (update_centroid rows [(0, 0), (-1, d)]) [0..<length centroids] = centroids" for d
    by (rule nth_equalityI) (simp_all add: rows_def centroids_def update_centroid_def)
  have "kmeans_round rows (centroids, [(-1, -1), (-1, -1)]) = (True, centroids, [(0, 0), (-1, -1)])"
    "kmeans_round rows (centroids, [(0, 0), (-1, -1)]) = (False, centroids, [(0, 0), (-1, -1)])"
    using update [of "-1"] by (simp_all add: kmeans_round_def far near, simp_all add: rows_def far near)
  then show "kmeans rows centroids = Some (centroids, [(0, 0), (-1, -1)])"
    unfolding kmeans_def by (subst kmeans_loop.simps, simp add: initClusterAssment_def rows_def numeral_eq_Suc, subst kmeans_loop.simps) simp
qed

lemma far_files_cluster:
  "\<exists>w. ClusterSSTable (\<lambda>_. 0) far_files SSTableWorth_new = Some w \<and> sw_table_to_cluster w 5 = Some 0 \<and> sw_table_to_cluster w 7 = Some (-1)"
proof -
  have "getFeatures far_files = [(0, 0), (0, 2000000000)]" "getTableID far_files = [5, 7]"
    by (simp_all add: far_files_def getFeatures_def getTableID_def FileMetaData_new_def)
  moreover have "sint (ucast (- 1 :: u64) :: u32) = -1" by code_simp
  ultimately show ?thesis
    by (simp add: ClusterSSTable_eq DoCluster_def DoOneCluster_def far_files_kmeans Let_def getIndex_def SSTableWorth_new_def)
qed

theorem sstable_worth_always_witness:
  "\<exists>w. ClusterSSTable (\<lambda>_. 0) far_files SSTableWorth_new = Some w \<and> IsWorth 5 1000 2 10 w = Some True \<and> IsWorth 7 1000 2 10 w = None"
proof -
  obtain w where w: "ClusterSSTable (\<lambda>_. 0) far_files SSTableWorth_new = Some w" "sw_table_to_cluster w 5 = Some 0" "sw_table_to_cluster w 7 = Some (-1)"
    using far_files_cluster by blast
  have "worth_reachable w" by (rule worth_reachable.cluster [OF worth_reachable.start w(1)])
  then show ?thesis using sstable_worth_always [of w] w by (intro exI [of _ w]) simp
qed

end
