(* ===== verification/MultiContainer.thy ===== *)
theory MultiContainer
  imports Table Cache SSTableWorth
begin

text \<open>
  The containers that order the open tables by level and number of loaded filter units (\<open>util/container.cc\<close>,
  \<open>util/multi_container.cc\<close>). They hold pointers to the table objects that the table cache owns: the objects are a store that
  is passed along, and a use of an object that has been freed, or of an index outside the table of containers, has no result (\<open>None\<close>).
\<close>

type_synonym object_ref = nat

record TableObject =
  to_table :: Table
  to_source :: RandomAccessFile

type_synonym objects = "object_ref \<Rightarrow> TableObject option"
type_synonym container_ref = nat

record ContainerHandle =
  ch_value :: object_ref
  ch_level :: nat
  ch_bf_number :: nat

text \<open>
  A container is the list of its handles from head to tail. The links are in the handles: taking one out of a list does not
  depend on the container it is asked of.
\<close>

record MultiContainer =
  mc_containers :: "container_ref list list list"
  mc_handles :: "container_ref \<Rightarrow> ContainerHandle option"
  mc_next :: container_ref
  mc_hash_table :: "bytes \<rightharpoonup> container_ref"
  mc_charger :: int

definition MultiContainer_new :: MultiContainer where
  "MultiContainer_new =
     \<lparr>mc_containers = replicate (kAllFilterUnitsNumber + 1) (replicate (kNumLevels + 1) []), mc_handles = (\<lambda>_. None), mc_next = 0,
      mc_hash_table = Map.empty, mc_charger = 0\<rparr>"

definition container :: "nat \<Rightarrow> nat \<Rightarrow> MultiContainer \<Rightarrow> container_ref list" where
  "container i j mc = mc_containers mc ! i ! j"

definition AddToHead :: "nat \<Rightarrow> nat \<Rightarrow> container_ref \<Rightarrow> MultiContainer \<Rightarrow> MultiContainer" where
  "AddToHead i j h mc = mc\<lparr>mc_containers := (mc_containers mc)[i := (mc_containers mc ! i)[j := h # container i j mc]]\<rparr>"

definition RemoveHandle :: "container_ref \<Rightarrow> MultiContainer \<Rightarrow> MultiContainer" where
  "RemoveHandle h mc = mc\<lparr>mc_containers := map (map (remove1 h)) (mc_containers mc)\<rparr>"

definition MoveToHead :: "nat \<Rightarrow> nat \<Rightarrow> container_ref \<Rightarrow> MultiContainer \<Rightarrow> MultiContainer" where
  "MoveToHead i j h mc = AddToHead i j h (RemoveHandle h mc)"

text \<open>\<open>Container::Insert\<close> counts the loaded units again.\<close>

definition Container_Insert :: "objects \<Rightarrow> nat \<Rightarrow> nat \<Rightarrow> object_ref \<Rightarrow> nat \<Rightarrow> MultiContainer \<Rightarrow> (container_ref \<times> MultiContainer) option" where
  "Container_Insert objs i j ob level mc = do {
     t \<leftarrow> objs ob;
     bf_number \<leftarrow> BFNumer (to_table t);
     let h = mc_next mc;
     let mc = mc\<lparr>mc_handles := (mc_handles mc)(h \<mapsto> \<lparr>ch_value = ob, ch_level = level, ch_bf_number = bf_number\<rparr>), mc_next := h + 1\<rparr>;
     Some (h, AddToHead i j h mc)
   }"

definition Container_Erase :: "container_ref \<Rightarrow> MultiContainer \<Rightarrow> MultiContainer" where
  "Container_Erase h mc = (RemoveHandle h mc)\<lparr>mc_handles := (mc_handles mc)(h := None)\<rparr>"

definition MultiContainer_Insert :: "objects \<Rightarrow> bytes \<Rightarrow> nat \<Rightarrow> object_ref \<Rightarrow> MultiContainer \<Rightarrow> MultiContainer option" where
  "MultiContainer_Insert objs key level ob mc = do {
     t \<leftarrow> objs ob;
     bf_number \<leftarrow> BFNumer (to_table t);
     if bf_number \<le> kAllFilterUnitsNumber \<and> level \<le> kNumLevels then do {
       (h, mc) \<leftarrow> Container_Insert objs bf_number level ob level mc;
       change \<leftarrow> BFChange (to_table t);
       Some (mc\<lparr>mc_hash_table := (mc_hash_table mc)(key \<mapsto> h), mc_charger := mc_charger mc + int change\<rparr>)
     } else None
   }"

definition MultiContainer_Lookup :: "bytes \<Rightarrow> MultiContainer \<Rightarrow> (container_ref option \<times> MultiContainer) option" where
  "MultiContainer_Lookup key mc =
     (case mc_hash_table mc key of
        None \<Rightarrow> Some (None, mc)
      | Some h \<Rightarrow> do {
          c \<leftarrow> mc_handles mc h;
          if ch_bf_number c \<le> kAllFilterUnitsNumber \<and> ch_level c \<le> kNumLevels
          then Some (Some h, MoveToHead (ch_bf_number c) (ch_level c) h mc) else None
        })"

definition MultiContainer_Value :: "objects \<Rightarrow> container_ref option \<Rightarrow> MultiContainer \<Rightarrow> Table option" where
  "MultiContainer_Value objs p mc = do {
     h \<leftarrow> p;
     c \<leftarrow> mc_handles mc h;
     t \<leftarrow> objs (ch_value c);
     Some (to_table t)
   }"

definition MultiContainer_Erase :: "bytes \<Rightarrow> MultiContainer \<Rightarrow> MultiContainer option" where
  "MultiContainer_Erase key mc =
     (case mc_hash_table mc key of
        None \<Rightarrow> Some mc
      | Some h \<Rightarrow> do {
          c \<leftarrow> mc_handles mc h;
          if ch_bf_number c \<le> kAllFilterUnitsNumber \<and> ch_level c \<le> kNumLevels
          then Some ((Container_Erase h mc)\<lparr>mc_hash_table := (mc_hash_table mc)(key := None)\<rparr>) else None
        })"

definition MultiContainer_TotalCharge :: "MultiContainer \<Rightarrow> int" where
  "MultiContainer_TotalCharge mc = mc_charger mc"

text \<open>The hash table refers to handles that are alive, each under one key, with indices that exist.\<close>

definition container_ok :: "MultiContainer \<Rightarrow> bool" where
  "container_ok mc \<longleftrightarrow> inj_on (mc_hash_table mc) (dom (mc_hash_table mc)) \<and> (\<forall>h. mc_handles mc h \<noteq> None \<longrightarrow> h < mc_next mc) \<and>
     (\<forall>key h. mc_hash_table mc key = Some h \<longrightarrow>
        (\<exists>c. mc_handles mc h = Some c \<and> ch_bf_number c \<le> kAllFilterUnitsNumber \<and> ch_level c \<le> kNumLevels))"

lemma container_ok_new: "container_ok MultiContainer_new"
  by (simp add: container_ok_def MultiContainer_new_def)

lemma container_ok_same:
  "container_ok mc \<Longrightarrow> mc_hash_table mc' = mc_hash_table mc \<Longrightarrow> mc_handles mc' = mc_handles mc \<Longrightarrow> mc_next mc' = mc_next mc \<Longrightarrow> container_ok mc'"
  by (simp add: container_ok_def)

lemma MultiContainer_Lookup_ok:
  assumes "container_ok mc"
  shows "\<exists>p mc'. MultiContainer_Lookup key mc = Some (p, mc') \<and> container_ok mc'"
proof (cases "mc_hash_table mc key")
  case (Some h)
  then obtain c where c: "mc_handles mc h = Some c" "ch_bf_number c \<le> kAllFilterUnitsNumber" "ch_level c \<le> kNumLevels"
    using assms unfolding container_ok_def by blast
  have "container_ok (MoveToHead (ch_bf_number c) (ch_level c) h mc)"
    by (rule container_ok_same [OF assms]) (simp_all add: MoveToHead_def AddToHead_def RemoveHandle_def)
  then show ?thesis using Some c by (simp add: MultiContainer_Lookup_def)
qed (use assms in \<open>simp add: MultiContainer_Lookup_def\<close>)

lemma MultiContainer_Erase_ok:
  assumes "container_ok mc"
  shows "\<exists>mc'. MultiContainer_Erase key mc = Some mc' \<and> container_ok mc'"
proof (cases "mc_hash_table mc key")
  case (Some h)
  then obtain c where c: "mc_handles mc h = Some c" "ch_bf_number c \<le> kAllFilterUnitsNumber" "ch_level c \<le> kNumLevels"
    using assms unfolding container_ok_def by blast
  have "mc_hash_table mc k \<noteq> Some h" if "k \<noteq> key" for k
    using assms Some that unfolding container_ok_def by (metis domI inj_on_def)
  then have "container_ok ((Container_Erase h mc)\<lparr>mc_hash_table := (mc_hash_table mc)(key := None)\<rparr>)"
    using assms by (auto simp: container_ok_def Container_Erase_def RemoveHandle_def inj_on_def)
  then show ?thesis using Some c by (simp add: MultiContainer_Erase_def)
qed (use assms in \<open>simp add: MultiContainer_Erase_def\<close>)

lemma MultiContainer_Insert_ok:
  assumes "container_ok mc" "objs ob = Some t" "BFNumer (to_table t) = Some n" "n \<le> kAllFilterUnitsNumber" "level \<le> kNumLevels"
  shows "\<exists>mc'. MultiContainer_Insert objs key level ob mc = Some mc' \<and> container_ok mc'"
proof -
  have "BFChange (to_table t) \<noteq> None" using assms(3) by (auto simp: BFChange_def BFNumer_def split: option.splits)
  then obtain change where ch: "BFChange (to_table t) = Some change" by blast
  let ?h = "mc_next mc"
  have fresh: "mc_hash_table mc k \<noteq> Some ?h" for k using assms(1) unfolding container_ok_def by (metis less_irrefl option.distinct(1))
  then have "container_ok ((AddToHead n level ?h (mc\<lparr>mc_handles := (mc_handles mc)(?h \<mapsto> \<lparr>ch_value = ob, ch_level = level, ch_bf_number = n\<rparr>),
      mc_next := ?h + 1\<rparr>))\<lparr>mc_hash_table := (mc_hash_table mc)(key \<mapsto> ?h), mc_charger := mc_charger mc + int change\<rparr>)"
    using assms(1,4,5) unfolding container_ok_def AddToHead_def
    by (auto simp: inj_on_def less_Suc_eq split: if_splits)
  then show ?thesis using assms(2-) ch by (simp add: MultiContainer_Insert_def Container_Insert_def AddToHead_def Let_def)
qed

text \<open>The table of containers keeps its size.\<close>

definition grid_ok :: "MultiContainer \<Rightarrow> bool" where
  "grid_ok mc \<longleftrightarrow> length (mc_containers mc) = kAllFilterUnitsNumber + 1 \<and> (\<forall>row\<in>set (mc_containers mc). length row = kNumLevels + 1)"

lemma grid_ok_new: "grid_ok MultiContainer_new"
  by (simp add: grid_ok_def MultiContainer_new_def)

lemma container_new: "i \<le> kAllFilterUnitsNumber \<Longrightarrow> j \<le> kNumLevels \<Longrightarrow> container i j MultiContainer_new = []"
  by (simp add: container_def MultiContainer_new_def del: replicate.simps replicate_Suc)

lemma container_AddToHead:
  assumes "grid_ok mc" "i \<le> kAllFilterUnitsNumber" "j \<le> kNumLevels" "i' \<le> kAllFilterUnitsNumber" "j' \<le> kNumLevels"
  shows "container i j (AddToHead i' j' h mc) = (if i = i' \<and> j = j' then h # container i j mc else container i j mc)" "grid_ok (AddToHead i' j' h mc)"
proof -
  have row: "length (mc_containers mc ! i) = kNumLevels + 1" "length (mc_containers mc ! i') = kNumLevels + 1" and len: "length (mc_containers mc) = kAllFilterUnitsNumber + 1"
    using assms unfolding grid_ok_def by (auto simp: less_Suc_eq_le)
  show "container i j (AddToHead i' j' h mc) = (if i = i' \<and> j = j' then h # container i j mc else container i j mc)"
    using row len assms(2-5) by (auto simp: container_def AddToHead_def nth_list_update)
  show "grid_ok (AddToHead i' j' h mc)"
    using assms(1) row(2) by (auto simp: grid_ok_def AddToHead_def dest!: set_update_subset_insert [THEN subsetD])
qed

lemma MultiContainer_Insert_eq:
  assumes "objs ob = Some t" "BFNumer (to_table t) = Some n" "n \<le> kAllFilterUnitsNumber" "level \<le> kNumLevels"
  shows "\<exists>mc'. MultiContainer_Insert objs key level ob mc = Some mc' \<and>
    mc_containers mc' = mc_containers (AddToHead n level (mc_next mc) mc) \<and> mc_next mc' = mc_next mc + 1 \<and>
    mc_handles mc' = (mc_handles mc)(mc_next mc \<mapsto> \<lparr>ch_value = ob, ch_level = level, ch_bf_number = n\<rparr>)"
proof -
  have "BFChange (to_table t) \<noteq> None" using assms(2) by (auto simp: BFChange_def BFNumer_def split: option.splits)
  then show ?thesis using assms by (auto simp: MultiContainer_Insert_def Container_Insert_def AddToHead_def container_def Let_def)
qed

section \<open>Loading and evicting filter units\<close>

record LoadState =
  ls_objects :: objects
  ls_all_size :: int
  ls_memory :: int
  ls_charger :: int

text \<open>
  One container: whether the memory is used up, whether a table was not worth it (loading only), the handles of the tables that were
  changed, and the state.
\<close>

fun Container_LoadBloomFilter ::
  "SSTableWorth option \<Rightarrow> SequenceNumber \<Rightarrow> u64 \<Rightarrow> MultiContainer \<Rightarrow> container_ref list \<Rightarrow> container_ref list \<Rightarrow> LoadState \<Rightarrow>
   (bool \<times> bool \<times> container_ref list \<times> LoadState) option" where
  "Container_LoadBloomFilter worth current_time next_period_time mc [] loaders st = Some (ls_memory st \<le> 0, False, loaders, st)"
| "Container_LoadBloomFilter worth current_time next_period_time mc (cur # rest) loaders st = do {
     c \<leftarrow> mc_handles mc cur;
     ob \<leftarrow> ls_objects st (ch_value c);
     let t = to_table ob;
     if ISCold current_time t then Some (ls_memory st \<le> 0, False, loaders, st)
     else do {
       worth_it \<leftarrow> (case worth of None \<Rightarrow> Some True
         | Some w \<Rightarrow> IsWorth (ta_table_id t) next_period_time (ch_bf_number c) (Table_BitsPerKey t) w);
       if \<not> worth_it then Some (ls_memory st \<le> 0, True, loaders, st)
       else do {
         let size = int (UnitSize t);
         (_, t') \<leftarrow> LoadBloomFilter t;
         let st = st\<lparr>ls_objects := (ls_objects st)(ch_value c \<mapsto> ob\<lparr>to_table := t'\<rparr>), ls_all_size := ls_all_size st + size,
                     ls_memory := ls_memory st - size, ls_charger := ls_charger st + size\<rparr>;
         let loaders = loaders @ [cur];
         if ls_memory st \<le> 0 then Some (True, False, loaders, st)
         else Container_LoadBloomFilter worth current_time next_period_time mc rest loaders st
       }
     }
   }"

fun Container_EvictBloomFilter ::
  "SequenceNumber \<Rightarrow> MultiContainer \<Rightarrow> container_ref list \<Rightarrow> container_ref list \<Rightarrow> LoadState \<Rightarrow> (bool \<times> container_ref list \<times> LoadState) option" where
  "Container_EvictBloomFilter current_time mc [] evicters st = Some (ls_memory st \<le> 0, evicters, st)"
| "Container_EvictBloomFilter current_time mc (cur # rest) evicters st = do {
     c \<leftarrow> mc_handles mc cur;
     ob \<leftarrow> ls_objects st (ch_value c);
     let t = to_table ob;
     if \<not> ISCold current_time t then Some (ls_memory st \<le> 0, evicters, st)
     else do {
       let size = int (UnitSize t);
       (_, t') \<leftarrow> EvictBloomFilter t;
       let st = st\<lparr>ls_objects := (ls_objects st)(ch_value c \<mapsto> ob\<lparr>to_table := t'\<rparr>), ls_all_size := ls_all_size st + size,
                   ls_memory := ls_memory st - size, ls_charger := ls_charger st - size\<rparr>;
       let evicters = evicters @ [cur];
       if ls_memory st \<le> 0 then Some (True, evicters, st)
       else Container_EvictBloomFilter current_time mc rest evicters st
     }
   }"

text \<open>
  The handles go into other containers; both functions take the level as the first index, all others the number of units. The handle
  keeps the old number.
\<close>

definition AddToContainers :: "container_ref list \<Rightarrow> nat \<Rightarrow> MultiContainer \<Rightarrow> MultiContainer option" where
  "AddToContainers handles bf_number mc =
     (if bf_number > kAllFilterUnitsNumber then Some mc
      else
        fold (\<lambda>h r. do {
          mc \<leftarrow> r;
          c \<leftarrow> mc_handles mc h;
          if ch_level c \<le> kAllFilterUnitsNumber then Some (AddToHead (ch_level c) bf_number h mc) else None
        }) handles (Some mc))"

definition RemoveFromContainers :: "container_ref list \<Rightarrow> MultiContainer \<Rightarrow> MultiContainer option" where
  "RemoveFromContainers handles mc =
     fold (\<lambda>h r. do {
       mc \<leftarrow> r;
       c \<leftarrow> mc_handles mc h;
       if ch_level c \<le> kAllFilterUnitsNumber then Some (RemoveHandle h mc) else None
     }) handles (Some mc)"

text \<open>One level after the other; the first component says that the function returns.\<close>

fun load_levels ::
  "SSTableWorth option \<Rightarrow> SequenceNumber \<Rightarrow> u64 \<Rightarrow> nat \<Rightarrow> nat list \<Rightarrow> MultiContainer \<times> LoadState \<Rightarrow> (bool \<times> MultiContainer \<times> LoadState) option" where
  "load_levels worth current_time next_period_time bf_number [] (mc, st) = Some (False, mc, st)"
| "load_levels worth current_time next_period_time bf_number (level # levels) (mc, st) = do {
     (return_flag, break_flag, loaders, st) \<leftarrow>
       Container_LoadBloomFilter worth current_time next_period_time mc (container bf_number level mc) [] st;
     mc \<leftarrow> RemoveFromContainers loaders mc;
     mc \<leftarrow> AddToContainers loaders (bf_number + 1) mc;
     if return_flag then Some (True, mc, st)
     else if break_flag then Some (False, mc, st)
     else load_levels worth current_time next_period_time bf_number levels (mc, st)
   }"

fun load_rows ::
  "SSTableWorth option \<Rightarrow> SequenceNumber \<Rightarrow> u64 \<Rightarrow> nat list \<Rightarrow> MultiContainer \<times> LoadState \<Rightarrow> (bool \<times> MultiContainer \<times> LoadState) option" where
  "load_rows worth current_time next_period_time [] s = Some (False, s)"
| "load_rows worth current_time next_period_time (bf_number # rows) s = do {
     (ret, s) \<leftarrow> load_levels worth current_time next_period_time bf_number [0..<kNumLevels + 1] s;
     if ret then Some (True, s) else load_rows worth current_time next_period_time rows s
   }"

partial_function (option) load_passes ::
  "SSTableWorth option \<Rightarrow> SequenceNumber \<Rightarrow> u64 \<Rightarrow> MultiContainer \<times> LoadState \<Rightarrow> (MultiContainer \<times> LoadState) option" where
  "load_passes worth current_time next_period_time s =
     (case load_rows worth current_time next_period_time [0..<kAllFilterUnitsNumber] (fst s, (snd s)\<lparr>ls_all_size := 0\<rparr>) of
        None \<Rightarrow> None
      | Some (ret, mc, st) \<Rightarrow>
          if \<not> ret \<and> ls_memory st > 0 \<and> ls_all_size st \<noteq> 0 then load_passes worth current_time next_period_time (mc, st) else Some (mc, st))"

definition MultiContainer_LoadBloomFilter ::
  "SSTableWorth option \<Rightarrow> SequenceNumber \<Rightarrow> u64 \<Rightarrow> int \<Rightarrow> objects \<Rightarrow> MultiContainer \<Rightarrow> (MultiContainer \<times> objects) option" where
  "MultiContainer_LoadBloomFilter worth current_time next_period_time memory objs mc = do {
     (mc, st) \<leftarrow> load_passes worth current_time next_period_time
       (mc, \<lparr>ls_objects = objs, ls_all_size = 0, ls_memory = memory, ls_charger = mc_charger mc\<rparr>);
     Some (mc\<lparr>mc_charger := ls_charger st\<rparr>, ls_objects st)
   }"

fun evict_levels :: "SequenceNumber \<Rightarrow> nat \<Rightarrow> nat list \<Rightarrow> MultiContainer \<times> LoadState \<Rightarrow> (bool \<times> MultiContainer \<times> LoadState) option" where
  "evict_levels current_time bf_number [] (mc, st) = Some (False, mc, st)"
| "evict_levels current_time bf_number (level # levels) (mc, st) = do {
     (return_flag, evicters, st) \<leftarrow> Container_EvictBloomFilter current_time mc (rev (container bf_number level mc)) [] st;
     mc \<leftarrow> RemoveFromContainers evicters mc;
     mc \<leftarrow> AddToContainers evicters (bf_number - 1) mc;
     if return_flag then Some (True, mc, st) else evict_levels current_time bf_number levels (mc, st)
   }"

fun evict_rows :: "SequenceNumber \<Rightarrow> nat list \<Rightarrow> MultiContainer \<times> LoadState \<Rightarrow> (bool \<times> MultiContainer \<times> LoadState) option" where
  "evict_rows current_time [] s = Some (False, s)"
| "evict_rows current_time (bf_number # rows) s = do {
     (ret, s) \<leftarrow> evict_levels current_time bf_number (rev [1..<kNumLevels + 1]) s;
     if ret then Some (True, s) else evict_rows current_time rows s
   }"

partial_function (option) evict_passes :: "SequenceNumber \<Rightarrow> MultiContainer \<times> LoadState \<Rightarrow> (MultiContainer \<times> LoadState) option" where
  "evict_passes current_time s =
     (case evict_rows current_time (rev [2..<kAllFilterUnitsNumber + 1]) (fst s, (snd s)\<lparr>ls_all_size := 0\<rparr>) of
        None \<Rightarrow> None
      | Some (ret, mc, st) \<Rightarrow>
          if \<not> ret \<and> ls_memory st > 0 \<and> ls_all_size st \<noteq> 0 then evict_passes current_time (mc, st) else Some (mc, st))"

definition MultiContainer_EvictBloomFilter :: "SequenceNumber \<Rightarrow> int \<Rightarrow> objects \<Rightarrow> MultiContainer \<Rightarrow> (MultiContainer \<times> objects) option" where
  "MultiContainer_EvictBloomFilter current_time memory objs mc = do {
     (mc, st) \<leftarrow> evict_passes current_time (mc, \<lparr>ls_objects = objs, ls_all_size = 0, ls_memory = memory, ls_charger = mc_charger mc\<rparr>);
     Some (mc\<lparr>mc_charger := ls_charger st\<rparr>, ls_objects st)
   }"

lemma load_levels_empty:
  "(\<forall>level\<in>set levels. container bf_number level mc = []) \<Longrightarrow> 0 < ls_memory st \<Longrightarrow>
   load_levels worth current_time next_period_time bf_number (levels @ rest) (mc, st) =
   load_levels worth current_time next_period_time bf_number rest (mc, st)"
  by (induction levels) (auto simp: AddToContainers_def RemoveFromContainers_def)

lemma load_rows_empty:
  "(\<forall>bf\<in>set rows. \<forall>level\<le>kNumLevels. container bf level mc = []) \<Longrightarrow> 0 < ls_memory st \<Longrightarrow>
   load_rows worth current_time next_period_time (rows @ rest) (mc, st) = load_rows worth current_time next_period_time rest (mc, st)"
proof (induction rows)
  case (Cons bf rows)
  have "load_levels worth current_time next_period_time bf ([0..<kNumLevels + 1] @ []) (mc, st) = Some (False, mc, st)"
    using Cons.prems by (subst load_levels_empty) auto
  then show ?case using Cons by simp
qed simp

text \<open>The first table in the order of the containers is used, whether it still exists or not.\<close>

lemma load_uses_freed:
  assumes "container n level mc = h # rest" "mc_handles mc h = Some c" "objs (ch_value c) = None" "n < kAllFilterUnitsNumber" "level \<le> kNumLevels"
    "\<forall>i<n. \<forall>j\<le>kNumLevels. container i j mc = []" "\<forall>j<level. container n j mc = []" "0 < memory"
  shows "MultiContainer_LoadBloomFilter worth current_time next_period_time memory objs mc = None"
proof -
  define st where "st = \<lparr>ls_objects = objs, ls_all_size = 0, ls_memory = memory, ls_charger = mc_charger mc\<rparr>"
  have "[0..<kAllFilterUnitsNumber] = [0..<n] @ n # [Suc n..<kAllFilterUnitsNumber]" "[0..<kNumLevels + 1] = [0..<level] @ level # [Suc level..<kNumLevels + 1]"
    using assms(4,5) by (metis upt_conv_Cons le_add_same_cancel1 less_imp_add_positive upt_add_eq_append zero_le add.left_neutral less_Suc_eq_le Suc_eq_plus1)+
  moreover have "load_levels worth current_time next_period_time n (level # [Suc level..<kNumLevels + 1]) (mc, st) = None"
    using assms(1-3) by (simp add: st_def)
  ultimately have "load_rows worth current_time next_period_time [0..<kAllFilterUnitsNumber] (mc, st) = None"
    using assms(6-8) by (simp add: load_rows_empty load_levels_empty st_def)
  then show ?thesis unfolding MultiContainer_LoadBloomFilter_def st_def [symmetric] by (subst load_passes.simps) (simp add: st_def)
qed

end
