(* ===== verification/VersionGet.thy ===== *)
theory VersionGet
  imports Version
begin

text \<open>
  Lookups in a version (\<open>Version::Get\<close> of \<open>db/version_set.cc\<close>) return the newest visible entry of all the
  tables of the version. What the table cache promises is a locale; the version relies on the order of
  ages the database keeps: of two versions of a key the newer is in a smaller level, or in level 0 in the
  file with the larger number.
\<close>

section \<open>What a version holds\<close>

definition entry_kv :: "Entry \<Rightarrow> bytes \<times> bytes" where
  "entry_kv e = (entry_ikey e, e_value e)"

definition table_holds :: "Comparator \<Rightarrow> FileMetaData \<Rightarrow> Entry list \<Rightarrow> bool" where
  "table_holds c f es \<longleftrightarrow> es \<noteq> [] \<and> (\<forall>e\<in>set es. entry_ok e) \<and>
     sorted_wrt (\<lambda>a b. Compare (InternalKeyComparator c) (entry_ikey a) (entry_ikey b) < 0) es \<and>
     fm_smallest f = entry_ikey (hd es) \<and> fm_largest f = entry_ikey (last es)"

definition version_entries :: "(file_ref \<Rightarrow> Entry list) \<Rightarrow> Version \<Rightarrow> Entry list" where
  "version_entries E v = concat (map (\<lambda>files. concat (map E files)) (v_files v))"

definition newer :: "Comparator \<Rightarrow> Entry list \<Rightarrow> Entry list \<Rightarrow> bool" where
  "newer c es es' \<longleftrightarrow> (\<forall>e\<in>set es. \<forall>e'\<in>set es'. Compare c (e_key e) (e_key e') = 0 \<longrightarrow> e_seq e' < e_seq e)"

definition versions_unique :: "Comparator \<Rightarrow> Entry list \<Rightarrow> bool" where
  "versions_unique c es \<longleftrightarrow> (\<forall>e\<in>set es. \<forall>e'\<in>set es. Compare c (e_key e) (e_key e') = 0 \<longrightarrow> e_seq e = e_seq e' \<longrightarrow> e = e')"

definition version_ok :: "Comparator \<Rightarrow> file_store \<Rightarrow> (file_ref \<Rightarrow> Entry list) \<Rightarrow> Version \<Rightarrow> bool" where
  "version_ok c fs E v \<longleftrightarrow> length (v_files v) = kNumLevels \<and>
     (\<forall>files\<in>set (v_files v). \<forall>f\<in>set files. table_holds c (fs f) (E f)) \<and>
     (\<forall>level. 1 \<le> level \<and> level < kNumLevels \<longrightarrow> files_sorted c fs (v_files v ! level)) \<and>
     inj_on (\<lambda>f. fm_number (fs f)) (set (v_files v ! 0)) \<and> distinct (v_files v ! 0) \<and>
     (\<forall>f\<in>set (v_files v ! 0). \<forall>g\<in>set (v_files v ! 0). fm_number (fs g) < fm_number (fs f) \<longrightarrow> newer c (E f) (E g)) \<and>
     sorted_wrt (\<lambda>upper lower. \<forall>f\<in>set upper. \<forall>g\<in>set lower. newer c (E f) (E g)) (v_files v) \<and>
     versions_unique c (version_entries E v)"

text \<open>What is in the tables of the database, by file number and size.\<close>

type_synonym table_contents = "u64 \<Rightarrow> (u64 \<times> (bytes \<times> bytes) list) option"

definition version_stored :: "file_store \<Rightarrow> (file_ref \<Rightarrow> Entry list) \<Rightarrow> table_contents \<Rightarrow> Version \<Rightarrow> bool" where
  "version_stored fs E tabs v \<longleftrightarrow> (\<forall>files\<in>set (v_files v). \<forall>f\<in>set files.
     tabs (fm_number (fs f)) = Some (fm_file_size (fs f), map entry_kv (E f)))"

lemma version_entries_member: "e \<in> set (version_entries E v) \<longleftrightarrow> (\<exists>files\<in>set (v_files v). \<exists>f\<in>set files. e \<in> set (E f))"
  by (auto simp: version_entries_def)

lemma versions_unique_subset: "versions_unique c es \<Longrightarrow> set es' \<subseteq> set es \<Longrightarrow> versions_unique c es'"
  unfolding versions_unique_def by blast

section \<open>The newest entry of a list of groups\<close>

fun first_some :: "'a option list \<Rightarrow> 'a option" where
  "first_some [] = None"
| "first_some (None # xs) = first_some xs"
| "first_some (Some x # xs) = Some x"

lemma first_some_append: "first_some (xs @ ys) = (case first_some xs of None \<Rightarrow> first_some ys | Some x \<Rightarrow> Some x)"
  by (induction xs rule: first_some.induct) auto

lemma first_some_concat: "first_some (concat xss) = first_some (map first_some xss)"
proof (induction xss)
  case (Cons xs xss)
  then show ?case by (cases "first_some xs") (simp_all add: first_some_append)
qed simp

lemma newest_SomeD: "newest es = Some e \<Longrightarrow> e \<in> set es \<and> (\<forall>e'\<in>set es. e_seq e' \<le> e_seq e)"
  by (induction es arbitrary: e) (force split: option.splits if_splits)+

lemma newest_append: "xs \<noteq> [] \<Longrightarrow> \<forall>x\<in>set xs. \<forall>y\<in>set ys. e_seq y < e_seq x \<Longrightarrow> newest (xs @ ys) = newest xs"
proof (induction xs)
  case (Cons a xs)
  then show ?case
    using newest_SomeD [of ys] by (cases "xs = []"; cases "newest ys") auto
qed simp

lemma first_some_filter: "(\<And>x. x \<in> set xs \<Longrightarrow> \<not> P x \<Longrightarrow> R x = None) \<Longrightarrow> first_some (map R (filter P xs)) = first_some (map R xs)"
proof (induction xs)
  case (Cons x xs)
  then show ?case by (cases "P x"; cases "R x") auto
qed simp

context separating_comparator
begin

lemma visible_same: "visible c u s e \<Longrightarrow> visible c u s e' \<Longrightarrow> Compare c (e_key e) (e_key e') = 0"
  using compare_trans [of "e_key e" u "e_key e'"] compare_trans [of "e_key e'" u "e_key e"] compare_eq_iff [of "e_key e'" u]
    compare_eq_iff [of "e_key e" u] compare_ge_iff [of "e_key e" "e_key e'"] by (simp add: visible_def)

lemma newest_groups:
  assumes "sorted_wrt (newer c) gs"
  shows "newest (filter (visible c u s) (concat gs)) = first_some (map (\<lambda>es. newest (filter (visible c u s) es)) gs)"
  using assms
proof (induction gs)
  case (Cons g gs)
  show ?case
  proof (cases "filter (visible c u s) g = []")
    case False
    have "e_seq e' < e_seq e" if e: "e \<in> set g" "visible c u s e" "g' \<in> set gs" "e' \<in> set g'" "visible c u s e'" for e e' g'
    proof -
      have "Compare c (e_key e) (e_key e') = 0" using e visible_same by blast
      then show ?thesis using Cons.prems e by (auto simp: newer_def)
    qed
    then have "newest (filter (visible c u s) (concat (g # gs))) = newest (filter (visible c u s) g)"
      using newest_append [OF False, of "filter (visible c u s) (concat gs)"] by auto
    moreover obtain x where "newest (filter (visible c u s) g) = Some x" using False newest_None by fastforce
    ultimately show ?thesis by simp
  qed (use Cons in simp)
qed simp

lemma newest_same_set:
  assumes "set xs = set ys" "versions_unique c xs"
  shows "newest (filter (visible c u s) xs) = newest (filter (visible c u s) ys)"
proof (cases "newest (filter (visible c u s) xs)")
  case None
  then show ?thesis using assms(1) newest_None [of "filter (visible c u s) ys"] by (simp add: filter_empty_conv)
next
  case (Some e)
  note e = newest_SomeD [OF Some]
  have "e' = e \<or> e_seq e' < e_seq e" if "e' \<in> set ys" "visible c u s e'" for e'
  proof -
    have "e_seq e' \<le> e_seq e" using e that assms(1) by auto
    moreover have "Compare c (e_key e') (e_key e) = 0" using e that visible_same by simp
    ultimately show ?thesis using assms e that by (auto simp: versions_unique_def)
  qed
  then have "newest (filter (visible c u s) ys) = Some e" using e assms(1) by (intro newest_unique) auto
  then show ?thesis using Some by simp
qed

end

section \<open>The newest entry of a sorted list\<close>

context separating_comparator
begin

lemma icmp_entries:
  assumes "entry_ok e" "entry_ok e'"
  shows "Compare (InternalKeyComparator c) (entry_ikey e) (entry_ikey e') = KeyComparator c (encode_entry e) (encode_entry e')"
  using assms by (simp add: KeyComparator_def encode_entry_slices)

lemma icmp_lookup:
  assumes "entry_ok e" "length u + 8 < 2 ^ 32"
  shows "Compare (InternalKeyComparator c) (entry_ikey e) (internal_key (LookupKey_new u s)) =
    KeyComparator c (encode_entry e) (memtable_key (LookupKey_new u s))"
  using assms by (simp add: KeyComparator_def encode_entry_slices(1) [OF assms(1)] lookup_slice [OF assms(2)] LookupKey_parts(2) del: LookupKey_parts(1))

lemma seek_entries:
  assumes "s \<le> kMaxSequenceNumber" "length u + 8 < 2 ^ 32" "\<forall>e\<in>set xs. entry_ok e" "versions_unique c xs"
    and sorted: "sorted_wrt (\<lambda>a b. Compare (InternalKeyComparator c) (entry_ikey a) (entry_ikey b) < 0) xs"
  shows "newest (filter (visible c u s) xs) =
    (case find (\<lambda>e. \<not> Compare (InternalKeyComparator c) (entry_ikey e) (internal_key (LookupKey_new u s)) < 0) xs of
       None \<Rightarrow> None | Some e \<Rightarrow> if Compare c (e_key e) u = 0 then Some e else None)"
proof -
  let ?D = "dropWhile (\<lambda>e. KeyComparator c (encode_entry e) (memtable_key (LookupKey_new u s)) < 0) xs"
  have "find (\<lambda>e. \<not> Compare (InternalKeyComparator c) (entry_ikey e) (internal_key (LookupKey_new u s)) < 0) xs =
      (case ?D of [] \<Rightarrow> None | x # _ \<Rightarrow> Some x)"
    unfolding find_dropWhile using assms(2,3)
    by (intro arg_cong [where f = "case_list _ _"] dropWhile_cong) (auto simp: icmp_lookup)
  moreover have "sorted_wrt (\<lambda>e e'. KeyComparator c (encode_entry e) (encode_entry e') < 0) xs"
    using assms(3) by (intro sorted_wrt_mono_rel [OF _ sorted]) (auto simp: icmp_entries)
  from seek_newest [OF assms(1,2) _ this order_refl assms(3)] assms(4)
  have "case ?D of [] \<Rightarrow> \<forall>e\<in>set xs. \<not> visible c u s e
     | e # _ \<Rightarrow> e \<in> set xs \<and>
         (if Compare c (e_key e) u = 0
          then visible c u s e \<and> (\<forall>e'\<in>set xs. visible c u s e' \<longrightarrow> e' = e \<or> e_seq e' < e_seq e)
          else \<forall>e'\<in>set xs. \<not> visible c u s e')" by (simp add: versions_unique_def)
  ultimately show ?thesis
    by (cases ?D) (auto simp: filter_empty_conv intro!: newest_unique split: if_splits)
qed

lemma file_bounds:
  assumes "table_holds c f es" "e \<in> set es"
  shows "Compare (InternalKeyComparator c) (fm_smallest f) (entry_ikey e) \<le> 0" "Compare (InternalKeyComparator c) (entry_ikey e) (fm_largest f) \<le> 0"
    "Compare c (start_key f) (e_key e) \<le> 0" "Compare c (e_key e) (limit_key f) \<le> 0"
proof -
  obtain i where i: "i < length es" "e = es ! i" using assms(2) by (auto simp: in_set_conv_nth)
  have s: "sorted_wrt (\<lambda>a b. Compare (InternalKeyComparator c) (entry_ikey a) (entry_ikey b) < 0) es" "es \<noteq> []"
    using assms(1) by (auto simp: table_holds_def)
  have "Compare (InternalKeyComparator c) (entry_ikey (es ! 0)) (entry_ikey e) \<le> 0"
    using s i by (cases "i = 0") (auto simp: sorted_wrt_iff_nth_less intro: less_imp_le)
  moreover have "Compare (InternalKeyComparator c) (entry_ikey e) (entry_ikey (es ! (length es - 1))) \<le> 0"
    using s i by (cases "i = length es - 1") (auto simp: sorted_wrt_iff_nth_less intro: less_imp_le)
  ultimately show *: "Compare (InternalKeyComparator c) (fm_smallest f) (entry_ikey e) \<le> 0" "Compare (InternalKeyComparator c) (entry_ikey e) (fm_largest f) \<le> 0"
    using assms(1) by (simp_all add: table_holds_def hd_conv_nth last_conv_nth)
  have "ExtractUserKey (entry_ikey e) = e_key e" by (simp add: entry_ikey_def)
  then show "Compare c (start_key f) (e_key e) \<le> 0" "Compare c (e_key e) (limit_key f) \<le> 0"
    using icmp_user [OF *(1)] icmp_user [OF *(2)] by simp_all
qed

lemma level_entries_sorted:
  assumes "files_sorted c fs files" "\<forall>f\<in>set files. table_holds c (fs f) (E f)"
  shows "sorted_wrt (\<lambda>a b. Compare (InternalKeyComparator c) (entry_ikey a) (entry_ikey b) < 0) (concat (map E files))"
  using assms
proof (induction files)
  case (Cons f files)
  have "Compare (InternalKeyComparator c) (entry_ikey a) (entry_ikey b) < 0" if "a \<in> set (E f)" "g \<in> set files" "b \<in> set (E g)" for a g b
  proof -
    have "Compare (InternalKeyComparator c) (entry_ikey a) (fm_largest (fs f)) \<le> 0"
      "Compare (InternalKeyComparator c) (fm_smallest (fs g)) (entry_ikey b) \<le> 0"
      "Compare (InternalKeyComparator c) (fm_largest (fs f)) (fm_smallest (fs g)) < 0"
      using that Cons.prems file_bounds by (auto simp: files_sorted_def)
    then show ?thesis using ik.compare_le_less_trans ik.compare_less_le_trans by blast
  qed
  then show ?case using Cons by (auto simp: sorted_wrt_append table_holds_def files_sorted_def)
qed simp

text \<open>In a sorted level the file that \<open>FindFile\<close> chooses holds the first entry at or after the key.\<close>

lemma find_in_level:
  assumes "files_sorted c fs files" "\<forall>f\<in>set files. table_holds c (fs f) (E f)" "index = FindFile (InternalKeyComparator c) fs files k"
  shows "find (\<lambda>e. \<not> Compare (InternalKeyComparator c) (entry_ikey e) k < 0) (concat (map E files)) =
    (if index < length files then find (\<lambda>e. \<not> Compare (InternalKeyComparator c) (entry_ikey e) k < 0) (E (files ! index)) else None)"
proof -
  let ?P = "\<lambda>e. \<not> Compare (InternalKeyComparator c) (entry_ikey e) k < 0"
  let ?B = "\<lambda>f. Compare (InternalKeyComparator c) (fm_largest (fs f)) k < 0"
  have before: "find ?P (E f) = None" if "f \<in> set files" "?B f" for f
    using ik.compare_le_less_trans [OF file_bounds(2) that(2)] assms(2) that(1) unfolding find_None_iff by blast
  have last: "find ?P (E f) \<noteq> None" if "f \<in> set files" "\<not> ?B f" for f
  proof -
    have "last (E f) \<in> set (E f)" "fm_largest (fs f) = entry_ikey (last (E f))" using that(1) assms(2) by (auto simp: table_holds_def)
    then show ?thesis using that(2) unfolding find_None_iff by auto
  qed
  have "find ?P (concat (map E files)) = (case dropWhile ?B files of [] \<Rightarrow> None | f # _ \<Rightarrow> find ?P (E f))"
    using before last
  proof (induction files)
    case (Cons f files)
    have app: "find ?P (xs @ ys) = (case find ?P xs of None \<Rightarrow> find ?P ys | Some x \<Rightarrow> Some x)" for xs ys
      by (induction xs) auto
    show ?case
    proof (cases "?B f")
      case False
      then obtain x where "find ?P (E f) = Some x" using Cons.prems(2) [of f] by auto
      then show ?thesis using False by (simp add: app)
    qed (use Cons in \<open>simp add: app\<close>)
  qed simp
  moreover have "dropWhile ?B files = drop index files"
    by (simp add: assms(3) FindFile_sorted [OF assms(1)] dropWhile_eq_drop)
  ultimately show ?thesis by (auto simp: Cons_nth_drop_Suc [symmetric])
qed

end

section \<open>Searching one table\<close>

text \<open>
  The table cache. In a state that is fine for the stored tables, a lookup in a stored table returns without
  an error, with the first entry at or after the key or nothing, and with that entry if it has the user key.
  A state is fine for a number of lookups: the cache may run out of the numbers it gives to the tables it opens.
\<close>

locale table_provider = separating_comparator c for c :: Comparator +
  fixes tc_get :: "'tc table_get" and tc_ok :: "table_contents \<Rightarrow> nat \<Rightarrow> 'tc \<Rightarrow> bool"
  assumes tc_fewer: "tc_ok tabs (Suc n) tc \<Longrightarrow> tc_ok tabs n tc"
    and tc_get_law: "tc_ok tabs (Suc n) tc \<Longrightarrow> tabs num = Some (file_size, kvs) \<Longrightarrow> level < kNumLevels \<Longrightarrow>
    \<exists>res tc'. tc_get num file_size level k tc = (OK, res, tc') \<and> tc_ok tabs n tc' \<and>
      (let first = find (\<lambda>e. \<not> Compare (InternalKeyComparator c) (fst e) k < 0) kvs
       in (res = None \<or> res = first) \<and>
          (\<forall>e. first = Some e \<longrightarrow> Compare c (ExtractUserKey k) (ExtractUserKey (fst e)) = 0 \<longrightarrow> res = first))"
begin

lemma tc_ok_le: "m \<le> n \<Longrightarrow> tc_ok tabs n tc \<Longrightarrow> tc_ok tabs m tc"
  by (induction rule: dec_induct) (auto dest: tc_fewer)

text \<open>The state of a lookup that has found nothing yet; only the counters of the files have changed.\<close>

definition searching :: "table_contents \<Rightarrow> nat \<Rightarrow> file_store \<Rightarrow> bytes \<Rightarrow> bytes \<Rightarrow> 'tc GetState \<Rightarrow> bool" where
  "searching tabs n fs u val st \<longleftrightarrow> sv_state (st_saver st) = kNotFoundState \<and> sv_user_key (st_saver st) = u \<and> sv_value (st_saver st) = val \<and>
     \<not> st_found st \<and> tc_ok tabs n (st_table_cache st) \<and>
     (\<forall>f. fm_number (st_files st f) = fm_number (fs f) \<and> fm_file_size (st_files st f) = fm_file_size (fs f))"

definition found_entry :: "bytes \<Rightarrow> Entry \<Rightarrow> 'tc GetState \<Rightarrow> bool" where
  "found_entry val e st \<longleftrightarrow>
     (case e_type e of
        kTypeValue \<Rightarrow> st_found st \<and> st_status st = OK \<and> sv_value (st_saver st) = e_value e
      | kTypeDeletion \<Rightarrow> \<not> st_found st \<and> sv_value (st_saver st) = val)"

lemma saved_newest:
  assumes tab: "tabs num = Some (file_size, map entry_kv es)" "level < kNumLevels" and tc: "tc_ok tabs (Suc n) tc"
    and es: "\<forall>e\<in>set es. entry_ok e" "versions_unique c es"
      "sorted_wrt (\<lambda>a b. Compare (InternalKeyComparator c) (entry_ikey a) (entry_ikey b) < 0) es"
    and s: "s \<le> kMaxSequenceNumber" "length u + 8 < 2 ^ 32" and saver: "sv_user_key saver = u"
  shows "\<exists>res tc'. tc_get num file_size level (internal_key (LookupKey_new u s)) tc = (OK, res, tc') \<and> tc_ok tabs n tc' \<and>
    (case res of None \<Rightarrow> saver | Some (k, v) \<Rightarrow> SaveValue c k v saver) =
      (case newest (filter (visible c u s) es) of
         None \<Rightarrow> saver
       | Some e \<Rightarrow> (case e_type e of kTypeValue \<Rightarrow> saver\<lparr>sv_state := kFoundState, sv_value := e_value e\<rparr>
                                  | kTypeDeletion \<Rightarrow> saver\<lparr>sv_state := kDeletedState\<rparr>))"
proof -
  let ?k = "internal_key (LookupKey_new u s)"
  define first where "first = find (\<lambda>e. \<not> Compare (InternalKeyComparator c) (entry_ikey e) ?k < 0) es"
  have "find (\<lambda>e. \<not> Compare (InternalKeyComparator c) (fst e) ?k < 0) (map entry_kv es) = map_option entry_kv first"
    unfolding first_def by (induction es) (auto simp: entry_kv_def)
  then obtain res tc' where
    g: "tc_get num file_size level ?k tc = (OK, res, tc')" "tc_ok tabs n tc'" "res = None \<or> res = map_option entry_kv first"
      "\<forall>e. map_option entry_kv first = Some e \<longrightarrow> Compare c (ExtractUserKey ?k) (ExtractUserKey (fst e)) = 0 \<longrightarrow> res = map_option entry_kv first"
    using tc_get_law [OF tc tab, of ?k] unfolding Let_def by metis
  have u: "ExtractUserKey ?k = u" "ExtractUserKey (entry_ikey e) = e_key e" for e
    by (simp_all add: LookupKey_parts entry_ikey_def)
  have n: "newest (filter (visible c u s) es) = (case first of None \<Rightarrow> None | Some e \<Rightarrow> if Compare c (e_key e) u = 0 then Some e else None)"
    unfolding first_def by (rule seek_entries [OF s es])
  have parse: "ParseInternalKey (entry_ikey e) = Some \<lparr>ik_user_key = e_key e, ik_sequence = e_seq e, ik_type = e_type e\<rparr>" if "first = Some e" for e
  proof -
    have "entry_ok e" using that es(1) unfolding first_def by (auto simp: find_Some_iff)
    then show ?thesis
      using ParseInternalKey_Append [of "\<lparr>ik_user_key = e_key e, ik_sequence = e_seq e, ik_type = e_type e\<rparr>"]
      by (simp add: entry_ok_def entry_ikey_def AppendInternalKey_eq)
  qed
  have "(case res of None \<Rightarrow> saver | Some (k, v) \<Rightarrow> SaveValue c k v saver) =
      (case newest (filter (visible c u s) es) of
         None \<Rightarrow> saver
       | Some e \<Rightarrow> (case e_type e of kTypeValue \<Rightarrow> saver\<lparr>sv_state := kFoundState, sv_value := e_value e\<rparr>
                                  | kTypeDeletion \<Rightarrow> saver\<lparr>sv_state := kDeletedState\<rparr>))"
  proof (cases first)
    case (Some e)
    show ?thesis
    proof (cases "Compare c (e_key e) u = 0")
      case True
      then have "res = Some (entry_kv e)" using g(4) Some u compare_eq_iff by (simp add: entry_kv_def)
      then show ?thesis using True Some n saver parse [OF Some] by (cases "e_type e") (simp_all add: SaveValue_def entry_kv_def)
    qed (use Some n saver parse g(3) in \<open>auto simp: SaveValue_def entry_kv_def\<close>)
  qed (use g(3) n in auto)
  then show ?thesis using g(1,2) by blast
qed

lemma Match_lookup:
  assumes st: "searching tabs (Suc n) fs u val st" and tab: "tabs (fm_number (fs f)) = Some (fm_file_size (fs f), map entry_kv es)" "level < kNumLevels"
    and es: "\<forall>e\<in>set es. entry_ok e" "versions_unique c es"
      "sorted_wrt (\<lambda>a b. Compare (InternalKeyComparator c) (entry_ikey a) (entry_ikey b) < 0) es"
    and s: "s \<le> kMaxSequenceNumber" "length u + 8 < 2 ^ 32"
  shows "\<exists>st'. Match tc_get c (internal_key (LookupKey_new u s)) st level f =
      (newest (filter (visible c u s) es) = None, st') \<and> tc_ok tabs n (st_table_cache st') \<and>
    (case newest (filter (visible c u s) es) of None \<Rightarrow> searching tabs n fs u val st' | Some e \<Rightarrow> found_entry val e st')"
proof -
  let ?k = "internal_key (LookupKey_new u s)"
  have num: "fm_number (st_files st f) = fm_number (fs f)" "fm_file_size (st_files st f) = fm_file_size (fs f)"
    "tc_ok tabs (Suc n) (st_table_cache st)" "sv_user_key (st_saver st) = u"
    using st by (simp_all add: searching_def)
  from saved_newest [OF tab num(3) es s num(4)] obtain res tc' where
    g: "tc_get (fm_number (fs f)) (fm_file_size (fs f)) level ?k (st_table_cache st) = (OK, res, tc')" "tc_ok tabs n tc'"
    and saved: "(case res of None \<Rightarrow> st_saver st | Some (k, v) \<Rightarrow> SaveValue c k v (st_saver st)) =
      (case newest (filter (visible c u s) es) of
         None \<Rightarrow> st_saver st
       | Some e \<Rightarrow> (case e_type e of kTypeValue \<Rightarrow> (st_saver st)\<lparr>sv_state := kFoundState, sv_value := e_value e\<rparr>
                                  | kTypeDeletion \<Rightarrow> (st_saver st)\<lparr>sv_state := kDeletedState\<rparr>))" by blast
  define saver where "saver = (case res of None \<Rightarrow> st_saver st | Some (k, v) \<Rightarrow> SaveValue c k v (st_saver st))"
  define st' where "st' = (charge_seek level f st)\<lparr>st_status := OK, st_table_cache := tc', st_saver := saver\<rparr>"
  have M: "Match tc_get c ?k st level f =
      (case sv_state saver of kNotFoundState \<Rightarrow> (True, st') | kFoundState \<Rightarrow> (False, st'\<lparr>st_found := True\<rparr>) | kDeletedState \<Rightarrow> (False, st')
       | kCorruptState \<Rightarrow> (False, st'\<lparr>st_status := Corruption ''corrupted key for '' (map (\<lambda>b. char_of (unat b)) (sv_user_key saver)),
                          st_found := True\<rparr>))"
    unfolding Match_def Let_def charge_seek_simps num g(1) prod.case saver_def st'_def by simp
  have st': "st_table_cache st' = tc'" "st_saver st' = saver" "st_found st' = st_found st" "st_status st' = OK"
    "fm_number (st_files st' g) = fm_number (st_files st g)" "fm_file_size (st_files st' g) = fm_file_size (st_files st g)" for g
    by (simp_all add: st'_def)
  show ?thesis
  proof (cases "newest (filter (visible c u s) es)")
    case None
    then have "saver = st_saver st" using saved by (simp add: saver_def)
    then show ?thesis using M st st' g(2) None by (intro exI [of _ st']) (simp add: searching_def)
  next
    case (Some e)
    then have "saver = (case e_type e of kTypeValue \<Rightarrow> (st_saver st)\<lparr>sv_state := kFoundState, sv_value := e_value e\<rparr>
        | kTypeDeletion \<Rightarrow> (st_saver st)\<lparr>sv_state := kDeletedState\<rparr>)" using saved by (simp add: saver_def)
    then show ?thesis using M st st' g(2) Some
      by (cases "e_type e") (auto simp: searching_def found_entry_def)
  qed
qed

lemma visit_lookup:
  assumes s: "s \<le> kMaxSequenceNumber" "length u + 8 < 2 ^ 32"
  shows "searching tabs (length fls + n) fs u val st \<Longrightarrow>
    \<forall>(level, f)\<in>set fls. level < kNumLevels \<and> tabs (fm_number (fs f)) = Some (fm_file_size (fs f), map entry_kv (E f)) \<and>
      table_holds c (fs f) (E f) \<and> versions_unique c (E f) \<Longrightarrow>
    st' = visit_files (Match tc_get c (internal_key (LookupKey_new u s))) fls st \<Longrightarrow>
    tc_ok tabs n (st_table_cache st') \<and>
    (case first_some (map (\<lambda>(level, f). newest (filter (visible c u s) (E f))) fls) of
       None \<Rightarrow> searching tabs n fs u val st' | Some e \<Rightarrow> found_entry val e st')"
proof (induction fls arbitrary: st)
  case Nil
  then show ?case by (simp add: searching_def)
next
  case (Cons lf fls)
  obtain level f where lf: "lf = (level, f)" by (cases lf)
  have "\<exists>st1. Match tc_get c (internal_key (LookupKey_new u s)) st level f =
      (newest (filter (visible c u s) (E f)) = None, st1) \<and> tc_ok tabs (length fls + n) (st_table_cache st1) \<and>
      (case newest (filter (visible c u s) (E f)) of None \<Rightarrow> searching tabs (length fls + n) fs u val st1 | Some e \<Rightarrow> found_entry val e st1)"
    using Cons.prems lf s by (intro Match_lookup) (auto simp: table_holds_def)
  then obtain st1 where st1: "Match tc_get c (internal_key (LookupKey_new u s)) st level f =
      (newest (filter (visible c u s) (E f)) = None, st1)" "tc_ok tabs (length fls + n) (st_table_cache st1)"
    "case newest (filter (visible c u s) (E f)) of None \<Rightarrow> searching tabs (length fls + n) fs u val st1 | Some e \<Rightarrow> found_entry val e st1" by blast
  show ?case
  proof (cases "newest (filter (visible c u s) (E f))")
    case None
    then show ?thesis using Cons.IH [of st1] Cons.prems(2,3) st1 lf by simp
  next
    case (Some e)
    then show ?thesis using Cons.prems(3) st1 lf tc_ok_le [of n "length fls + n"] by simp
  qed
qed

end

section \<open>Searching all levels\<close>

lemma overlapping_files_length:
  assumes "length (v_files v) = kNumLevels"
  shows "length (overlapping_files c fs v u k) \<le> length (concat (v_files v))"
proof -
  have "length (level0_files c fs v u) \<le> length (v_files v ! 0)" by (simp add: level0_files_def)
  moreover have "length (level_file c fs v u k level) \<le> length (v_files v ! level)" for level by (auto simp: level_file_def Let_def)
  then have "length (concat (map (level_file c fs v u k) [1..<kNumLevels])) \<le> (\<Sum>level\<leftarrow>[1..<kNumLevels]. length (v_files v ! level))"
    by (simp add: length_concat comp_def sum_list_mono)
  moreover have files: "v_files v = v_files v ! 0 # map (\<lambda>level. v_files v ! level) [1..<kNumLevels]"
    using map_nth [of "v_files v"] unfolding assms by (simp add: kNumLevels_def upt_conv_Cons)
  have "length (concat (v_files v)) = length (v_files v ! 0) + (\<Sum>level\<leftarrow>[1..<kNumLevels]. length (v_files v ! level))"
    by (subst files) (simp only: concat.simps(2) length_append length_concat map_map comp_def)
  ultimately show ?thesis by (simp add: overlapping_files_def)
qed

context separating_comparator
begin

lemma level0_newest:
  assumes "table_holds c (fs f) (E f)"
    "\<not> (Compare c u (start_key (fs f)) \<ge> 0 \<and> Compare c u (limit_key (fs f)) \<le> 0)"
  shows "newest (filter (visible c u s) (E f)) = None"
proof -
  have "\<not> visible c u s e" if "e \<in> set (E f)" for e
    using file_bounds(3,4) [OF assms(1) that] assms(2) compare_ge_iff compare_eq_iff compare_trans
    unfolding visible_def by (metis order_refl)
  then show ?thesis unfolding newest_None filter_empty_conv by blast
qed

lemma level_newest:
  assumes "files_sorted c fs (v_files v ! level)" "\<forall>f\<in>set (v_files v ! level). table_holds c (fs f) (E f)"
    "versions_unique c (concat (map E (v_files v ! level)))" "s \<le> kMaxSequenceNumber" "length u + 8 < 2 ^ 32"
  shows "newest (filter (visible c u s) (concat (map E (v_files v ! level)))) =
    first_some (map (\<lambda>(level, f). newest (filter (visible c u s) (E f)))
      (level_file c fs v u (internal_key (LookupKey_new u s)) level))"
proof -
  let ?k = "internal_key (LookupKey_new u s)" and ?files = "v_files v ! level"
  define index where "index = FindFile (InternalKeyComparator c) fs ?files ?k"
  have all: "newest (filter (visible c u s) (concat (map E ?files))) =
      (case (if index < length ?files then find (\<lambda>e. \<not> Compare (InternalKeyComparator c) (entry_ikey e) ?k < 0) (E (?files ! index)) else None) of
         None \<Rightarrow> None | Some e \<Rightarrow> if Compare c (e_key e) u = 0 then Some e else None)"
    using seek_entries [OF assms(4,5) _ assms(3) level_entries_sorted [OF assms(1,2)]]
      find_in_level [OF assms(1,2) index_def] assms(2) by (auto simp: table_holds_def)
  show ?thesis
  proof (cases "index < length ?files")
    case True
    let ?f = "?files ! index"
    have f: "table_holds c (fs ?f) (E ?f)" "?f \<in> set ?files" using True assms(2) by auto
    then have "newest (filter (visible c u s) (E ?f)) =
        (case find (\<lambda>e. \<not> Compare (InternalKeyComparator c) (entry_ikey e) ?k < 0) (E ?f) of
           None \<Rightarrow> None | Some e \<Rightarrow> if Compare c (e_key e) u = 0 then Some e else None)"
      using assms(3) by (intro seek_entries [OF assms(4,5)]) (auto simp: table_holds_def versions_unique_def)
    then have eq: "newest (filter (visible c u s) (concat (map E ?files))) = newest (filter (visible c u s) (E ?f))"
      using all True by simp
    have "newest (filter (visible c u s) (E ?f)) = None" if "Compare c u (start_key (fs ?f)) < 0"
      using that by (intro level0_newest [where fs = fs]) (simp_all add: f)
    then show ?thesis unfolding eq
      by (cases "newest (filter (visible c u s) (E ?f))") (auto simp: level_file_def Let_def index_def [symmetric] True)
  next
    case False
    then show ?thesis using all by (simp add: level_file_def Let_def index_def [symmetric])
  qed
qed

lemma groups_sorted:
  assumes v: "version_ok c fs E v"
  shows "sorted_wrt (newer c) (map E (sort_key (\<lambda>f. - uint (fm_number (fs f))) (v_files v ! 0)) @
    map (\<lambda>level. concat (map E (v_files v ! level))) [1..<kNumLevels])"
proof -
  let ?L0 = "sort_key (\<lambda>f. - uint (fm_number (fs f))) (v_files v ! 0)"
  have len: "length (v_files v) = kNumLevels" using v by (simp add: version_ok_def)
  have levels: "newer c (E f) (E g)" if "f \<in> set (v_files v ! i)" "g \<in> set (v_files v ! j)" "i < j" "j < kNumLevels" for f g i j
    using v that len by (auto simp: version_ok_def sorted_wrt_iff_nth_less)
  have "sorted_wrt (\<lambda>f g. newer c (E f) (E g)) ?L0"
    unfolding sorted_wrt_iff_nth_less
  proof (intro allI impI)
    fix i j assume ij: "i < j" "j < length ?L0"
    have "sorted (map (\<lambda>f. - uint (fm_number (fs f))) ?L0)" by simp
    then have le: "uint (fm_number (fs (?L0 ! j))) \<le> uint (fm_number (fs (?L0 ! i)))"
      using ij unfolding sorted_wrt_iff_nth_less length_map by fastforce
    have mem: "?L0 ! i \<in> set (v_files v ! 0)" "?L0 ! j \<in> set (v_files v ! 0)"
      using ij nth_mem [of i ?L0] nth_mem [of j ?L0] by simp_all
    have "distinct ?L0" using v by (simp add: version_ok_def)
    then have "?L0 ! i \<noteq> ?L0 ! j" using ij nth_eq_iff_index_eq [of ?L0 i j] by simp
    then have "fm_number (fs (?L0 ! i)) \<noteq> fm_number (fs (?L0 ! j))"
      using v mem by (auto simp: version_ok_def dest: inj_onD)
    then have "fm_number (fs (?L0 ! j)) < fm_number (fs (?L0 ! i))" using le by (simp add: word_less_def order_less_le word_uint_eq_iff)
    then show "newer c (E (?L0 ! i)) (E (?L0 ! j))" using v mem by (simp add: version_ok_def)
  qed
  moreover have "newer c (concat (map E (v_files v ! i))) (concat (map E (v_files v ! j)))" if "i < j" "j < kNumLevels" for i j
    using levels [OF _ _ that] unfolding newer_def by auto
  then have "sorted_wrt (newer c) (map (\<lambda>level. concat (map E (v_files v ! level))) [1..<kNumLevels])"
    by (auto simp: sorted_wrt_iff_nth_less)
  moreover have "newer c (E f) (concat (map E (v_files v ! j)))" if "f \<in> set (v_files v ! 0)" "0 < j" "j < kNumLevels" for f j
    using levels [OF that(1) _ that(2,3)] unfolding newer_def by auto
  ultimately show ?thesis by (auto simp: sorted_wrt_append sorted_wrt_map)
qed

lemma search_newest:
  assumes v: "version_ok c fs E v" and s: "s \<le> kMaxSequenceNumber" "length u + 8 < 2 ^ 32"
  shows "newest (filter (visible c u s) (version_entries E v)) =
    first_some (map (\<lambda>(level, f). newest (filter (visible c u s) (E f))) (overlapping_files c fs v u (internal_key (LookupKey_new u s))))"
proof -
  let ?R = "\<lambda>es. newest (filter (visible c u s) es)"
  define L0 where "L0 = sort_key (\<lambda>f. - uint (fm_number (fs f))) (v_files v ! 0)"
  define lower where "lower = map (\<lambda>level. concat (map E (v_files v ! level))) [1..<kNumLevels]"
  have len: "length (v_files v) = kNumLevels" using v by (simp add: version_ok_def)
  have files: "v_files v = v_files v ! 0 # map (\<lambda>level. v_files v ! level) [1..<kNumLevels]"
    using map_nth [of "v_files v"] unfolding len by (simp add: kNumLevels_def upt_conv_Cons)
  have holds: "table_holds c (fs f) (E f)" if "f \<in> set (v_files v ! level)" "level < kNumLevels" for f level
    using v that len unfolding version_ok_def by (metis nth_mem)
  have set: "set (concat (map E L0 @ lower)) = set (version_entries E v)"
    unfolding version_entries_def by (subst files) (auto simp: L0_def lower_def)
  moreover have u: "versions_unique c (version_entries E v)" using v by (simp add: version_ok_def)
  moreover have "sorted_wrt (newer c) (map E L0 @ lower)" unfolding L0_def lower_def by (rule groups_sorted [OF v])
  ultimately have "?R (version_entries E v) = first_some (map ?R (map E L0 @ lower))"
    using newest_groups newest_same_set [OF set [symmetric] u] by metis
  moreover have "first_some (map (\<lambda>(level, f). ?R (E f)) (map (Pair (0 :: nat)) (level0_files c fs v u))) = first_some (map ?R (map E L0))"
  proof -
    let ?P = "\<lambda>f. Compare c u (start_key (fs f)) \<ge> 0 \<and> Compare c u (limit_key (fs f)) \<le> 0"
    have "level0_files c fs v u = filter ?P L0" by (simp add: level0_files_def L0_def filter_sort)
    moreover have "?R (E f) = None" if "f \<in> set L0" "\<not> ?P f" for f
      using that holds [of f 0] by (intro level0_newest) (auto simp: L0_def kNumLevels_def)
    ultimately show ?thesis using first_some_filter [of L0 ?P "\<lambda>f. ?R (E f)"] by (simp add: comp_def)
  qed
  moreover have "first_some (map (\<lambda>(level, f). ?R (E f)) (concat (map (level_file c fs v u (internal_key (LookupKey_new u s))) [1..<kNumLevels]))) =
      first_some (map ?R lower)"
  proof -
    have "?R (concat (map E (v_files v ! level))) = first_some (map (\<lambda>(level, f). ?R (E f))
        (level_file c fs v u (internal_key (LookupKey_new u s)) level))" if "level \<in> set [1..<kNumLevels]" for level
    proof (intro level_newest s)
      show "files_sorted c fs (v_files v ! level)" using v that by (simp add: version_ok_def)
      show "\<forall>f\<in>set (v_files v ! level). table_holds c (fs f) (E f)" using holds that by simp
      have "v_files v ! level \<in> set (v_files v)" using that len by simp
      then show "versions_unique c (concat (map E (v_files v ! level)))"
        by (intro versions_unique_subset [OF u]) (simp add: version_entries_def, blast)
    qed
    then show ?thesis unfolding map_concat first_some_concat lower_def map_map comp_def
      by (intro arg_cong [where f = first_some] map_cong) simp_all
  qed
  ultimately show ?thesis by (simp only: overlapping_files_def first_some_append map_append)
qed

end

context table_provider
begin

lemma Version_Get_newest:
  assumes v: "version_ok c fs E v" and tabs: "version_stored fs E tabs v" "tc_ok tabs (length (concat (v_files v)) + n) tc"
    and s: "s \<le> kMaxSequenceNumber" "length u + 8 < 2 ^ 32"
  shows "\<exists>stats fs' tc'. tc_ok tabs n tc' \<and> Version_Get tc_get c (LookupKey_new u s) val fs tc v =
    (case mem_lookup c (version_entries E v) u s of
       Some (Inr x) \<Rightarrow> (OK, x, stats, fs', tc') | _ \<Rightarrow> (NotFound [] [], val, stats, fs', tc'))"
proof -
  let ?fls = "overlapping_files c fs v u (internal_key (LookupKey_new u s))"
  let ?st = "\<lparr>st_saver = \<lparr>sv_state = kNotFoundState, sv_user_key = u, sv_value = val\<rparr>,
                st_stats = \<lparr>gs_seek_file = None, gs_seek_file_level = -1\<rparr>, st_last_file_read = None,
                st_last_file_read_level = -1, st_status = OK, st_found = False, st_files = fs, st_table_cache = tc\<rparr>"
  define st' where "st' = visit_files (Match tc_get c (internal_key (LookupKey_new u s))) ?fls ?st"
  have len: "length (v_files v) = kNumLevels" using v by (simp add: version_ok_def)
  have "level < kNumLevels \<and> tabs (fm_number (fs f)) = Some (fm_file_size (fs f), map entry_kv (E f)) \<and>
      table_holds c (fs f) (E f) \<and> versions_unique c (E f)" if "(level, f) \<in> set ?fls" for level f
  proof -
    have f: "v_files v ! level \<in> set (v_files v)" "f \<in> set (v_files v ! level)" "level < kNumLevels"
      using overlapping_files_member [OF that] len by simp_all
    moreover from this have "versions_unique c (E f)"
      using v versions_unique_subset [of c "version_entries E v" "E f"] unfolding version_ok_def version_entries_def by fastforce
    ultimately show ?thesis using v tabs(1) unfolding version_ok_def version_stored_def by blast
  qed
  then have "\<forall>(level, f)\<in>set ?fls. level < kNumLevels \<and> tabs (fm_number (fs f)) = Some (fm_file_size (fs f), map entry_kv (E f)) \<and>
      table_holds c (fs f) (E f) \<and> versions_unique c (E f)" by blast
  moreover have "searching tabs (length ?fls + n) fs u val ?st"
    using tc_ok_le [OF _ tabs(2)] overlapping_files_length [OF len] by (simp add: searching_def)
  ultimately have r: "tc_ok tabs n (st_table_cache st')" "case newest (filter (visible c u s) (version_entries E v)) of
      None \<Rightarrow> searching tabs n fs u val st' | Some e \<Rightarrow> found_entry val e st'"
    unfolding search_newest [OF v s] using visit_lookup [OF s _ _ st'_def] by blast+
  have "Version_Get tc_get c (LookupKey_new u s) val fs tc v =
      (if st_found st' then st_status st' else NotFound [] [], sv_value (st_saver st'), st_stats st', st_files st', st_table_cache st')"
    unfolding Version_Get_def ForEachOverlapping_def LookupKey_parts(3) Let_def st'_def [symmetric] by (rule refl)
  then have "Version_Get tc_get c (LookupKey_new u s) val fs tc v =
    (case mem_lookup c (version_entries E v) u s of
       Some (Inr x) \<Rightarrow> (OK, x, st_stats st', st_files st', st_table_cache st')
     | _ \<Rightarrow> (NotFound [] [], val, st_stats st', st_files st', st_table_cache st'))"
    using r(2) by (auto simp: mem_lookup_def entry_result_def searching_def found_entry_def split: option.splits ValueType.splits)
  then show ?thesis using r(1) by blast
qed

end

end
