(* ===== verification/TableCache.thy ===== *)
theory TableCache
  imports MultiContainer VersionGet Filename
begin

text \<open>
  The cache of open tables (\<open>util/table_cache_lru.cc\<close> and \<open>db/table_cache.cc\<close>). The shards are those of
  \<open>Cache\<close>, with references to table objects as values; an object is deleted when the shards delete its entry.
  The theory gives what \<open>VersionGet\<close> asks of a table cache: a lookup in a version whose tables were built by
  \<open>TableBuilder\<close> finds the newest entry.
\<close>

section \<open>The cache with its containers\<close>

record TableCacheLRU =
  tl_cache :: "object_ref ShardedLRUCache"
  tl_container :: MultiContainer
  tl_objects :: objects
  tl_next :: object_ref
  tl_multi_queue :: "InternalMultiQueue option"

definition NewTableCacheLRU :: "nat \<Rightarrow> InternalMultiQueue option \<Rightarrow> TableCacheLRU" where
  "NewTableCacheLRU capacity multi_queue =
     \<lparr>tl_cache = NewLRUCache capacity, tl_container = MultiContainer_new, tl_objects = (\<lambda>_. None), tl_next = 0, tl_multi_queue = multi_queue\<rparr>"

text \<open>The destructor of a table gives its handle back to the multi-queue.\<close>

definition delete_object :: "object_ref \<Rightarrow> TableCacheLRU \<Rightarrow> TableCacheLRU option" where
  "delete_object ob lru =
     (case tl_objects lru ob of
        None \<Rightarrow> Some lru
      | Some t \<Rightarrow> do {
          mq \<leftarrow> (case (tl_multi_queue lru, ta_handle (to_table t)) of
                  (Some mq, Some h) \<Rightarrow> map_option Some (mq_Release h mq)
                | _ \<Rightarrow> Some (tl_multi_queue lru));
          Some (lru\<lparr>tl_objects := (tl_objects lru)(ob := None), tl_multi_queue := mq\<rparr>)
        })"

fun delete_objects :: "object_ref list \<Rightarrow> TableCacheLRU \<Rightarrow> TableCacheLRU option" where
  "delete_objects [] lru = Some lru"
| "delete_objects (ob # obs) lru = do {
     lru \<leftarrow> delete_object ob lru;
     delete_objects obs lru
   }"

text \<open>After an operation of the shards: what they have deleted is gone. References are not used again, so those that were deleted before do not matter.\<close>

definition deleted_objects :: "object_ref ShardedLRUCache \<Rightarrow> object_ref list" where
  "deleted_objects sc = map snd (concat (map lc_deleted (sc_shard sc)))"

definition with_shards :: "object_ref ShardedLRUCache \<Rightarrow> TableCacheLRU \<Rightarrow> TableCacheLRU option" where
  "with_shards sc lru = delete_objects (deleted_objects sc) (lru\<lparr>tl_cache := sc\<rparr>)"

definition tl_Insert :: "bytes \<Rightarrow> object_ref \<Rightarrow> nat \<Rightarrow> nat \<Rightarrow> TableCacheLRU \<Rightarrow> (sharded_handle \<times> TableCacheLRU) option" where
  "tl_Insert key val level charg lru = do {
     mc \<leftarrow> MultiContainer_Insert (tl_objects lru) key level val (tl_container lru);
     (h, sc) \<leftarrow> Sharded_Insert key val charg (tl_cache lru);
     lru \<leftarrow> with_shards sc (lru\<lparr>tl_container := mc\<rparr>);
     Some (h, lru)
   }"

definition tl_Lookup :: "bytes \<Rightarrow> TableCacheLRU \<Rightarrow> (sharded_handle option \<times> TableCacheLRU) option" where
  "tl_Lookup key lru = do {
     (_, mc) \<leftarrow> MultiContainer_Lookup key (tl_container lru);
     (p, sc) \<leftarrow> Sharded_Lookup key (tl_cache lru);
     lru \<leftarrow> with_shards sc (lru\<lparr>tl_container := mc\<rparr>);
     Some (p, lru)
   }"

definition tl_Release :: "sharded_handle \<Rightarrow> TableCacheLRU \<Rightarrow> TableCacheLRU option" where
  "tl_Release h lru = do {
     sc \<leftarrow> Sharded_Release h (tl_cache lru);
     with_shards sc lru
   }"

definition tl_Erase :: "bytes \<Rightarrow> TableCacheLRU \<Rightarrow> TableCacheLRU option" where
  "tl_Erase key lru = do {
     mc \<leftarrow> MultiContainer_Erase key (tl_container lru);
     sc \<leftarrow> Sharded_Erase key (tl_cache lru);
     with_shards sc (lru\<lparr>tl_container := mc\<rparr>)
   }"

definition tl_Value :: "sharded_handle \<Rightarrow> TableCacheLRU \<Rightarrow> object_ref option" where
  "tl_Value h lru = Sharded_Value h (tl_cache lru)"

definition tl_NewId :: "TableCacheLRU \<Rightarrow> u64 \<times> TableCacheLRU" where
  "tl_NewId lru = (let (id, sc) = Sharded_NewId (tl_cache lru) in (id, lru\<lparr>tl_cache := sc\<rparr>))"

definition tl_Prune :: "TableCacheLRU \<Rightarrow> TableCacheLRU option" where
  "tl_Prune lru = do {
     sc \<leftarrow> Sharded_Prune (tl_cache lru);
     with_shards sc lru
   }"

definition tl_TotalCharge :: "TableCacheLRU \<Rightarrow> nat" where
  "tl_TotalCharge lru = Sharded_TotalCharge (tl_cache lru)"

definition AllBFCharger :: "TableCacheLRU \<Rightarrow> int" where
  "AllBFCharger lru = MultiContainer_TotalCharge (tl_container lru)"

definition tl_LoadBloomFilter :: "SSTableWorth option \<Rightarrow> SequenceNumber \<Rightarrow> u64 \<Rightarrow> int \<Rightarrow> TableCacheLRU \<Rightarrow> TableCacheLRU option" where
  "tl_LoadBloomFilter worth current_time next_period_time memory lru = do {
     (mc, objs) \<leftarrow> MultiContainer_LoadBloomFilter worth current_time next_period_time memory (tl_objects lru) (tl_container lru);
     Some (lru\<lparr>tl_container := mc, tl_objects := objs\<rparr>)
   }"

definition tl_EvictBloomFilter :: "SequenceNumber \<Rightarrow> int \<Rightarrow> TableCacheLRU \<Rightarrow> TableCacheLRU option" where
  "tl_EvictBloomFilter current_time memory lru = do {
     (mc, objs) \<leftarrow> MultiContainer_EvictBloomFilter current_time memory (tl_objects lru) (tl_container lru);
     Some (lru\<lparr>tl_container := mc, tl_objects := objs\<rparr>)
   }"

section \<open>The table cache\<close>

text \<open>
  The environment opens files by name, in direct mode or not. The block cache is what it holds; how it takes in a block, and what it
  drops then, is its own.
\<close>

record TableCache =
  tc_env :: "bool \<Rightarrow> string \<Rightarrow> Status + RandomAccessFile"
  tc_dbname :: string
  tc_options :: Options
  tc_using_direct_io :: bool
  tc_cache :: TableCacheLRU
  tc_block_cache :: block_cache
  tc_block_insert :: "bytes \<Rightarrow> Block \<Rightarrow> nat \<Rightarrow> (bytes \<Rightarrow> Block option) \<Rightarrow> bytes \<Rightarrow> Block option"
  tc_last_id :: u64

definition TableCache_new ::
  "(bool \<Rightarrow> string \<Rightarrow> Status + RandomAccessFile) \<Rightarrow> string \<Rightarrow> Options \<Rightarrow> bool \<Rightarrow> InternalMultiQueue option \<Rightarrow>
   (bytes \<Rightarrow> Block \<Rightarrow> nat \<Rightarrow> (bytes \<Rightarrow> Block option) \<Rightarrow> bytes \<Rightarrow> Block option) option \<Rightarrow> nat \<Rightarrow> TableCache" where
  "TableCache_new env dbname opt direct multi_queue block_cache capacity =
     \<lparr>tc_env = env, tc_dbname = dbname, tc_options = opt, tc_using_direct_io = direct, tc_cache = NewTableCacheLRU capacity multi_queue,
      tc_block_cache = map_option (\<lambda>_ _. None) block_cache,
      tc_block_insert = (case block_cache of None \<Rightarrow> (\<lambda>key b _ m. m(key \<mapsto> b)) | Some put \<Rightarrow> put), tc_last_id = 0\<rparr>"

definition NewRandomAccessFileForTable :: "string \<Rightarrow> TableCache \<Rightarrow> Status + RandomAccessFile" where
  "NewRandomAccessFileForTable fname tc = (if tc_using_direct_io tc then tc_env tc True fname else tc_env tc False fname)"

definition open_table_file :: "u64 \<Rightarrow> TableCache \<Rightarrow> Status + RandomAccessFile" where
  "open_table_file file_number tc =
     (case NewRandomAccessFileForTable (TableFileName (tc_dbname tc) file_number) tc of
        Inr f \<Rightarrow> Inr f
      | Inl s \<Rightarrow>
          (case NewRandomAccessFileForTable (SSTTableFileName (tc_dbname tc) file_number) tc of
             Inr f \<Rightarrow> Inr f
           | Inl _ \<Rightarrow> Inl s))"

text \<open>The number a table uses in the block cache.\<close>

definition new_cache_id :: "TableCache \<Rightarrow> u64" where
  "new_cache_id tc = (case tc_block_cache tc of None \<Rightarrow> 0 | Some _ \<Rightarrow> tc_last_id tc + 1)"

text \<open>\<open>FindTable\<close>; \<open>mem\<close> is the memory that a filter reader is made in.\<close>

definition FindTable :: "FilterBlockReader \<Rightarrow> u64 \<Rightarrow> u64 \<Rightarrow> nat \<Rightarrow> TableCache \<Rightarrow> (Status \<times> sharded_handle option \<times> TableCache) option" where
  "FindTable mem file_number file_size level tc = do {
     let key = EncodeFixed64 file_number;
     (handle, lru) \<leftarrow> tl_Lookup key (tc_cache tc);
     let tc = tc\<lparr>tc_cache := lru\<rparr>;
     (case handle of
        Some h \<Rightarrow> Some (OK, Some h, tc)
      | None \<Rightarrow>
          (case open_table_file file_number tc of
             Inl s \<Rightarrow> Some (s, None, tc)
           | Inr file \<Rightarrow> do {
               (s, table, mq) \<leftarrow> Table_Open (tc_options tc) (new_cache_id tc) mem file (unat file_size) file_number (tl_multi_queue lru);
               let lru = lru\<lparr>tl_multi_queue := mq\<rparr>;
               (case table of
                  None \<Rightarrow> Some (s, None, tc\<lparr>tc_cache := lru\<rparr>)
                | Some t \<Rightarrow> do {
                    let ob = tl_next lru;
                    let lru = lru\<lparr>tl_objects := (tl_objects lru)(ob \<mapsto> \<lparr>to_table = t, to_source = file\<rparr>), tl_next := ob + 1\<rparr>;
                    (h, lru) \<leftarrow> tl_Insert key ob level 1 lru;
                    Some (s, Some h, tc\<lparr>tc_cache := lru, tc_last_id := (if tc_block_cache tc = None then tc_last_id tc else new_cache_id tc)\<rparr>)
                  })
             }))
   }"

definition insert_block :: "cache_insert \<Rightarrow> TableCache \<Rightarrow> TableCache" where
  "insert_block ins tc =
     (case ins of
        None \<Rightarrow> tc
      | Some (key, b, n) \<Rightarrow> tc\<lparr>tc_block_cache := map_option (tc_block_insert tc key b n) (tc_block_cache tc)\<rparr>)"

text \<open>\<open>Get\<close>: the status, and the entry that the caller's function is called with.\<close>

definition TableCache_Get ::
  "FilterBlockReader \<Rightarrow> bool \<Rightarrow> bool \<Rightarrow> u64 \<Rightarrow> u64 \<Rightarrow> nat \<Rightarrow> bytes \<Rightarrow> TableCache \<Rightarrow> (Status \<times> (bytes \<times> bytes) option \<times> TableCache) option" where
  "TableCache_Get mem verify_checksums fill_cache file_number file_size level k tc = do {
     (s, handle, tc) \<leftarrow> FindTable mem file_number file_size level tc;
     if \<not> ok s then Some (s, None, tc)
     else do {
       h \<leftarrow> handle;
       ob \<leftarrow> tl_Value h (tc_cache tc);
       t \<leftarrow> tl_objects (tc_cache tc) ob;
       (s, res, ins, mq) \<leftarrow> InternalGet verify_checksums fill_cache (tc_block_cache tc) k (to_table t) (tl_multi_queue (tc_cache tc));
       let tc = insert_block ins tc;
       lru \<leftarrow> tl_Release h ((tc_cache tc)\<lparr>tl_multi_queue := mq\<rparr>);
       Some (s, res, tc\<lparr>tc_cache := lru\<rparr>)
     }
   }"

definition TableCache_Evict :: "u64 \<Rightarrow> TableCache \<Rightarrow> TableCache option" where
  "TableCache_Evict file_number tc = do {
     lru \<leftarrow> tl_Erase (EncodeFixed64 file_number) (tc_cache tc);
     Some (tc\<lparr>tc_cache := lru\<rparr>)
   }"

definition TableCache_LoadBloomFilter :: "SSTableWorth option \<Rightarrow> SequenceNumber \<Rightarrow> u64 \<Rightarrow> int \<Rightarrow> TableCache \<Rightarrow> TableCache option" where
  "TableCache_LoadBloomFilter worth current_time next_period_time memory tc =
     map_option (\<lambda>lru. tc\<lparr>tc_cache := lru\<rparr>) (tl_LoadBloomFilter worth current_time next_period_time memory (tc_cache tc))"

definition TableCache_EvictBloomFilter :: "SequenceNumber \<Rightarrow> int \<Rightarrow> TableCache \<Rightarrow> TableCache option" where
  "TableCache_EvictBloomFilter current_time memory tc =
     map_option (\<lambda>lru. tc\<lparr>tc_cache := lru\<rparr>) (tl_EvictBloomFilter current_time memory (tc_cache tc))"

section \<open>The objects of the cache\<close>

lemma delete_objects_eq:
  "tl_multi_queue lru = None \<Longrightarrow> delete_objects obs lru = Some (lru\<lparr>tl_objects := (\<lambda>ob. if ob \<in> set obs then None else tl_objects lru ob)\<rparr>)"
proof (induction obs arbitrary: lru)
  case (Cons ob obs)
  have "delete_object ob lru = Some (lru\<lparr>tl_objects := (tl_objects lru)(ob := None)\<rparr>)"
    using Cons.prems by (cases lru) (auto simp: delete_object_def split: option.split)
  moreover have "(\<lambda>x. if x \<in> set obs then None else ((tl_objects lru)(ob := None)) x) = (\<lambda>x. if x \<in> set (ob # obs) then None else tl_objects lru x)"
    by auto
  ultimately show ?case using Cons.IH [of "lru\<lparr>tl_objects := (tl_objects lru)(ob := None)\<rparr>"] Cons.prems by (simp cong: if_cong)
qed simp

text \<open>Every reference was inserted once, so an entry that is alive does not refer to an object that was deleted.\<close>

definition values_of :: "object_ref ShardedLRUCache \<Rightarrow> object_ref multiset" where
  "values_of sc = image_mset snd (sharded_entries sc)"

lemma live_not_deleted:
  assumes sc: "sharded_ok held sc" and c: "count (values_of sc) ob \<le> 1" and h: "fst h < kNumShards" "entry_at h sc = Some (key, ob, n, hash)"
  shows "ob \<notin> set (deleted_objects sc)"
proof
  assume del: "ob \<in> set (deleted_objects sc)"
  let ?live = "\<lambda>c. image_mset snd (live (lc_heap c))"
  have eq: "image_mset snd (sum_list (map all_entries cs)) = mset (map snd (concat (map lc_deleted cs))) + sum_list (map ?live cs)" for cs :: "object_ref LRUCache list"
    by (induction cs) (simp_all add: all_entries_def)
  let ?c = "sc_shard sc ! fst h"
  have mem: "?c \<in> set (sc_shard sc)" using sharded_okD(1) [OF sc] h(1) by simp
  have "finite (dom (lc_heap ?c))" using sharded_okD(3) [OF sc h(1)] unfolding lru_ok_def by (auto intro: shard_finite)
  then have "ob \<in># ?live ?c" using h(2) by (force simp: live_def entry_at_def entry_of_def image_iff)
  then have "ob \<in># sum_list (map ?live (sc_shard sc))" using mem by (induction "sc_shard sc") auto
  then have "0 < count (sum_list (map ?live (sc_shard sc))) ob" by simp
  moreover have "0 < count (mset (deleted_objects sc)) ob" using del by (simp only: count_greater_zero_iff set_mset_mset)
  ultimately show False using c by (simp add: values_of_def sharded_entries_def eq deleted_objects_def del: count_greater_zero_iff)
qed

definition entries_ok :: "object_ref ShardedLRUCache \<Rightarrow> objects \<Rightarrow> bool" where
  "entries_ok sc objs \<longleftrightarrow> (\<forall>h key ob n hash. fst h < kNumShards \<longrightarrow> entry_at h sc = Some (key, ob, n, hash) \<longrightarrow>
     (\<exists>t. objs ob = Some t \<and> key = EncodeFixed64 (ta_table_id (to_table t))))"

definition objects_ok :: "(sharded_handle \<Rightarrow> nat) \<Rightarrow> TableCacheLRU \<Rightarrow> bool" where
  "objects_ok held lru \<longleftrightarrow> sharded_ok held (tl_cache lru) \<and> container_ok (tl_container lru) \<and> tl_multi_queue lru = None \<and>
     (\<forall>ob. count (values_of (tl_cache lru)) ob \<le> (if ob < tl_next lru then 1 else 0)) \<and>
     (\<forall>ob. tl_objects lru ob \<noteq> None \<longrightarrow> ob < tl_next lru) \<and> entries_ok (tl_cache lru) (tl_objects lru)"

text \<open>Operations of the shards only lose objects that no entry refers to any more.\<close>

lemma with_shards_ok:
  assumes "sharded_ok held' sc" "container_ok (tl_container lru)" "tl_multi_queue lru = None"
    "\<forall>ob. count (values_of sc) ob \<le> (if ob < tl_next lru then 1 else 0)" "\<forall>ob. tl_objects lru ob \<noteq> None \<longrightarrow> ob < tl_next lru"
    "entries_ok sc (tl_objects lru)"
  shows "\<exists>lru'. with_shards sc lru = Some lru' \<and> objects_ok held' lru' \<and> tl_cache lru' = sc \<and> tl_objects lru' \<subseteq>\<^sub>m tl_objects lru \<and> tl_next lru' = tl_next lru"
proof -
  have "ob \<notin> set (deleted_objects sc)" if "fst h < kNumShards" "entry_at h sc = Some (key, ob, n, hash)" for h key ob n hash
    by (rule live_not_deleted [OF assms(1) _ that]) (use assms(4) [rule_format, of ob] in \<open>auto split: if_splits\<close>)
  then have "entries_ok sc (\<lambda>ob. if ob \<in> set (deleted_objects sc) then None else tl_objects lru ob)"
    using assms(6) unfolding entries_ok_def by (metis (no_types, lifting))
  then show ?thesis using assms(1-5) by (auto simp: with_shards_def delete_objects_eq objects_ok_def map_le_def cong: if_cong)
qed

lemma entries_ok_no_new: "entries_ok sc objs \<Longrightarrow> no_new {} sc sc' \<Longrightarrow> entries_ok sc' objs"
  unfolding entries_ok_def no_new_def by (metis empty_iff)

lemma tl_keeps:
  assumes lru: "objects_ok held lru" and mc: "container_ok mc"
    and sc: "sharded_ok held' sc" "sharded_entries sc = sharded_entries (tl_cache lru)" "no_new {} (tl_cache lru) sc"
  shows "\<exists>lru'. with_shards sc (lru\<lparr>tl_container := mc\<rparr>) = Some lru' \<and> objects_ok held' lru' \<and> tl_cache lru' = sc \<and>
    tl_objects lru' \<subseteq>\<^sub>m tl_objects lru \<and> tl_next lru' = tl_next lru"
  using with_shards_ok [of held' sc "lru\<lparr>tl_container := mc\<rparr>"] entries_ok_no_new [OF _ sc(3)] lru mc sc(1,2)
  by (simp add: objects_ok_def values_of_def)

lemma tl_Lookup_ok:
  assumes "objects_ok held lru"
  shows "\<exists>p lru'. tl_Lookup key lru = Some (p, lru') \<and> tl_objects lru' \<subseteq>\<^sub>m tl_objects lru \<and> tl_next lru' = tl_next lru \<and>
    (case p of None \<Rightarrow> objects_ok held lru'
     | Some h \<Rightarrow> objects_ok (held(h := held h + 1)) lru' \<and> (\<exists>ob n. entry_at h (tl_cache lru') = Some (key, ob, n, HashSlice key)))"
proof -
  have ok: "sharded_ok held (tl_cache lru)" "container_ok (tl_container lru)" using assms by (simp_all add: objects_ok_def)
  from MultiContainer_Lookup_ok [OF ok(2)] obtain q mc where mc: "MultiContainer_Lookup key (tl_container lru) = Some (q, mc)" "container_ok mc" by blast
  obtain p sc where sc: "Sharded_Lookup key (tl_cache lru) = Some (p, sc)" "sharded_entries sc = sharded_entries (tl_cache lru)" "no_new {} (tl_cache lru) sc"
    "case p of None \<Rightarrow> client_keeps held held (tl_cache lru) sc
     | Some h \<Rightarrow> client_keeps held (held(h := held h + 1)) (tl_cache lru) sc \<and> (\<exists>val charge. entry_at h sc = Some (key, val, charge, HashSlice key))"
    using Sharded_Lookup_ok [OF ok(1), of key] by - (elim exE conjE, rule that)
  define held' where "held' = (case p of None \<Rightarrow> held | Some h \<Rightarrow> held(h := held h + 1))"
  have "sharded_ok held' sc" using sc(4) client_keepsD unfolding held'_def by (cases p) (simp, blast, simp, blast)
  from tl_keeps [OF assms mc(2) this sc(2,3)] obtain lru' where
    lru': "with_shards sc (lru\<lparr>tl_container := mc\<rparr>) = Some lru'" "objects_ok held' lru'" "tl_cache lru' = sc" "tl_objects lru' \<subseteq>\<^sub>m tl_objects lru" "tl_next lru' = tl_next lru"
    by blast
  then show ?thesis using mc(1) sc(1,4) by (cases p) (auto simp: tl_Lookup_def held'_def)
qed

lemma tl_Release_ok:
  assumes "objects_ok held lru" "0 < held h"
  shows "\<exists>lru'. tl_Release h lru = Some lru' \<and> objects_ok (held(h := held h - 1)) lru' \<and> tl_objects lru' \<subseteq>\<^sub>m tl_objects lru \<and> tl_next lru' = tl_next lru"
proof -
  have ok: "sharded_ok held (tl_cache lru)" "container_ok (tl_container lru)" using assms by (simp_all add: objects_ok_def)
  obtain sc where sc: "Sharded_Release h (tl_cache lru) = Some sc" "client_keeps held (held(h := held h - 1)) (tl_cache lru) sc"
    "sharded_entries sc = sharded_entries (tl_cache lru)" "no_new {} (tl_cache lru) sc"
    using Sharded_Release_ok [OF ok(1) assms(2)] by - (elim exE conjE, rule that)
  from tl_keeps [OF assms(1) ok(2) client_keepsD [OF sc(2)] sc(3,4)] show ?thesis using sc(1) by (auto simp: tl_Release_def)
qed

lemma tl_Erase_ok:
  assumes "objects_ok held lru"
  shows "\<exists>lru'. tl_Erase key lru = Some lru' \<and> objects_ok held lru' \<and> tl_objects lru' \<subseteq>\<^sub>m tl_objects lru \<and> tl_next lru' = tl_next lru"
proof -
  have ok: "sharded_ok held (tl_cache lru)" "container_ok (tl_container lru)" using assms by (simp_all add: objects_ok_def)
  from MultiContainer_Erase_ok [OF ok(2)] obtain mc where mc: "MultiContainer_Erase key (tl_container lru) = Some mc" "container_ok mc" by blast
  obtain sc where sc: "Sharded_Erase key (tl_cache lru) = Some sc" "client_keeps held held (tl_cache lru) sc"
    "sharded_entries sc = sharded_entries (tl_cache lru)" "no_new {} (tl_cache lru) sc"
    using Sharded_Erase_ok [OF ok(1), of key] by - (elim exE conjE, rule that)
  from tl_keeps [OF assms(1) mc(2) client_keepsD [OF sc(2)] sc(3,4)] show ?thesis using sc(1) mc(1) by (auto simp: tl_Erase_def)
qed

text \<open>A new object goes in under the key of its table.\<close>

lemma tl_Insert_ok:
  assumes "objects_ok held lru" "ob = tl_next lru" "BFNumer (to_table t) = Some n" "n \<le> kAllFilterUnitsNumber" "level \<le> kNumLevels"
    "key = EncodeFixed64 (ta_table_id (to_table t))"
    and lru1: "lru1 = lru\<lparr>tl_objects := (tl_objects lru)(ob \<mapsto> t), tl_next := ob + 1\<rparr>"
  shows "\<exists>h lru'. tl_Insert key ob level charg lru1 = Some (h, lru') \<and> held h = 0 \<and> objects_ok (held(h := 1)) lru' \<and>
    tl_objects lru' \<subseteq>\<^sub>m tl_objects lru1 \<and> tl_next lru' = tl_next lru1 \<and> entry_at h (tl_cache lru') = Some (key, ob, charg, HashSlice key)"
proof -
  have ok: "sharded_ok held (tl_cache lru)" "container_ok (tl_container lru)" "entries_ok (tl_cache lru) (tl_objects lru)" "tl_multi_queue lru = None"
    "\<And>ob. count (values_of (tl_cache lru)) ob \<le> (if ob < tl_next lru then 1 else 0)" "\<And>ob. tl_objects lru ob \<noteq> None \<Longrightarrow> ob < tl_next lru"
    using assms(1) unfolding objects_ok_def by blast+
  from MultiContainer_Insert_ok [OF ok(2) _ assms(3,4,5), of "tl_objects lru1" ob key] lru1 obtain mc where
    mc: "MultiContainer_Insert (tl_objects lru1) key level ob (tl_container lru) = Some mc" "container_ok mc" by auto
  obtain h sc where sc: "Sharded_Insert key ob charg (tl_cache lru) = Some (h, sc)" "held h = 0" "client_keeps held (held(h := 1)) (tl_cache lru) sc"
    "sharded_entries sc = add_mset (key, ob) (sharded_entries (tl_cache lru))" "entry_at h sc = Some (key, ob, charg, HashSlice key)" "no_new {h} (tl_cache lru) sc"
    using Sharded_Insert_ok [OF ok(1), of key ob charg] by - (elim exE conjE, rule that)
  have "entries_ok sc (tl_objects lru1)"
    unfolding entries_ok_def
  proof (intro allI impI)
    fix g k x n' hash assume g: "fst g < kNumShards" "entry_at g sc = Some (k, x, n', hash)"
    show "\<exists>t. tl_objects lru1 x = Some t \<and> k = EncodeFixed64 (ta_table_id (to_table t))"
    proof (cases "g = h")
      case False
      then have "entry_at g (tl_cache lru) = Some (k, x, n', hash)" using sc(6) g(2) unfolding no_new_def by blast
      then obtain t' where t': "tl_objects lru x = Some t'" "k = EncodeFixed64 (ta_table_id (to_table t'))"
        using ok(3) g(1) unfolding entries_ok_def by blast
      moreover have "x \<noteq> ob" using ok(6) [of x] t' assms(2) by auto
      ultimately show ?thesis by (simp add: lru1)
    qed (use g(2) sc(5) assms(6) lru1 in simp)
  qed
  moreover have "\<forall>x. count (values_of sc) x \<le> (if x < tl_next lru1 then 1 else 0)"
  proof
    fix x show "count (values_of sc) x \<le> (if x < tl_next lru1 then 1 else 0)"
      using ok(5) [of x] by (auto simp: values_of_def sc(4) lru1 assms(2) split: if_splits)
  qed
  moreover have "\<forall>x. tl_objects lru1 x \<noteq> None \<longrightarrow> x < tl_next lru1" using ok(6) by (auto simp: lru1 assms(2) less_Suc_eq)
  ultimately have "\<exists>lru'. with_shards sc (lru1\<lparr>tl_container := mc\<rparr>) = Some lru' \<and> objects_ok (held(h := 1)) lru' \<and> tl_cache lru' = sc \<and>
      tl_objects lru' \<subseteq>\<^sub>m tl_objects lru1 \<and> tl_next lru' = tl_next lru1"
    using with_shards_ok [OF client_keepsD [OF sc(3)], of "lru1\<lparr>tl_container := mc\<rparr>"] mc(2) ok(4) by (simp add: lru1)
  then obtain lru' where "with_shards sc (lru1\<lparr>tl_container := mc\<rparr>) = Some lru'" "objects_ok (held(h := 1)) lru'" "tl_cache lru' = sc"
    "tl_objects lru' \<subseteq>\<^sub>m tl_objects lru1" "tl_next lru' = tl_next lru1" by blast
  moreover from this(1) have "tl_Insert key ob level charg lru1 = Some (h, lru')" using mc(1) sc(1) by (simp add: tl_Insert_def lru1)
  ultimately show ?thesis using sc(2,5) by blast
qed

section \<open>The table cache over stored tables\<close>

definition stored_file :: "nat \<Rightarrow> TableCache \<Rightarrow> u64 \<Rightarrow> u64 \<Rightarrow> (bytes \<times> bytes) list \<Rightarrow> bool" where
  "stored_file n tc num file_size kvs \<longleftrightarrow> (\<exists>L f. open_table_file num tc = Inr (RandomAccessFileImpl_Read f) \<and>
     unat file_size = length (file_contents f) \<and> ikc_reader.in_file n (tc_options tc) kvs L f)"

text \<open>Tables have different numbers in the block cache, and no number above the last one is in use there.\<close>

definition ids_ok :: "nat \<Rightarrow> u64 \<Rightarrow> block_cache \<Rightarrow> objects \<Rightarrow> bool" where
  "ids_ok m last_id blocks objs \<longleftrightarrow> unat last_id + m < 2 ^ 64 \<and>
     (\<forall>lookup key b. blocks = Some lookup \<longrightarrow> lookup key = Some b \<longrightarrow>
        (\<exists>id offset. key = EncodeFixed64 id @ EncodeFixed64 offset \<and> id \<le> last_id)) \<and>
     (\<forall>ob t. objs ob = Some t \<longrightarrow> ta_block_cache_id (to_table t) \<le> last_id) \<and>
     (\<forall>ob t ob' t'. objs ob = Some t \<longrightarrow> objs ob' = Some t' \<longrightarrow> ta_block_cache_id (to_table t) = ta_block_cache_id (to_table t') \<longrightarrow> ob = ob')"

definition tables_at :: "nat \<Rightarrow> table_contents \<Rightarrow> Options \<Rightarrow> block_cache \<Rightarrow> objects \<Rightarrow> bool" where
  "tables_at n tabs opt blocks objs \<longleftrightarrow> (\<forall>ob t file_size kvs. objs ob = Some t \<longrightarrow> tabs (ta_table_id (to_table t)) = Some (file_size, kvs) \<longrightarrow>
     (\<exists>L f. ikc_reader.table_at n opt kvs L f (to_table t) \<and> ikc_reader.cache_ok opt L (to_table t) blocks))"

definition table_cache_ok :: "nat \<Rightarrow> (sharded_handle \<Rightarrow> nat) \<Rightarrow> table_contents \<Rightarrow> nat \<Rightarrow> TableCache \<Rightarrow> bool" where
  "table_cache_ok n held tabs m tc \<longleftrightarrow> objects_ok held (tc_cache tc) \<and>
     (\<forall>num file_size kvs. tabs num = Some (file_size, kvs) \<longrightarrow> stored_file n tc num file_size kvs) \<and>
     tables_at n tabs (tc_options tc) (tc_block_cache tc) (tl_objects (tc_cache tc)) \<and>
     (tc_block_cache tc = None \<or> ids_ok m (tc_last_id tc) (tc_block_cache tc) (tl_objects (tc_cache tc))) \<and>
     (\<forall>key b size lookup. tc_block_insert tc key b size lookup \<subseteq>\<^sub>m lookup(key \<mapsto> b))"

lemma table_cache_fewer: "table_cache_ok n held tabs (Suc m) tc \<Longrightarrow> table_cache_ok n held tabs m tc"
  by (auto simp: table_cache_ok_def ids_ok_def)

lemma objects_fewer:
  assumes "objs' \<subseteq>\<^sub>m objs"
  shows "ids_ok m last_id blocks objs \<Longrightarrow> ids_ok m last_id blocks objs'" "tables_at n tabs opt blocks objs \<Longrightarrow> tables_at n tabs opt blocks objs'"
proof -
  have o: "objs ob = Some t" if "objs' ob = Some t" for ob t using assms that by (metis domI map_le_def)
  show "ids_ok m last_id blocks objs'" if "ids_ok m last_id blocks objs" using that o unfolding ids_ok_def by blast
  show "tables_at n tabs opt blocks objs'" if "tables_at n tabs opt blocks objs" using that o unfolding tables_at_def by blast
qed

lemma stored_file_same:
  assumes "tc_env tc' = tc_env tc" "tc_dbname tc' = tc_dbname tc" "tc_options tc' = tc_options tc" "tc_using_direct_io tc' = tc_using_direct_io tc"
  shows "stored_file n tc' = stored_file n tc" "open_table_file num tc' = open_table_file num tc"
proof -
  have "NewRandomAccessFileForTable fname tc' = NewRandomAccessFileForTable fname tc" for fname using assms by (simp add: NewRandomAccessFileForTable_def)
  then show f: "open_table_file num tc' = open_table_file num tc" for num using assms(2) by (simp add: open_table_file_def cong: sum.case_cong)
  show "stored_file n tc' = stored_file n tc" by (intro ext) (simp add: stored_file_def f assms(3))
qed

text \<open>Losing objects is no harm.\<close>

lemma table_cache_lose:
  assumes "table_cache_ok n held tabs m tc" "objects_ok held' lru" "tl_objects lru \<subseteq>\<^sub>m tl_objects (tc_cache tc)"
  shows "table_cache_ok n held' tabs m (tc\<lparr>tc_cache := lru\<rparr>)"
  using assms(1,2) objects_fewer [OF assms(3)] stored_file_same(1) [of "tc\<lparr>tc_cache := lru\<rparr>" tc] by (auto simp: table_cache_ok_def)

lemma Table_Open_ids:
  assumes "Table_Open opt cache_id mem file file_size table_id mq = Some (s, Some t, mq')"
  shows "ta_table_id t = table_id" "ta_block_cache_id t = cache_id"
proof -
  have meta: "ta_table_id t = ta_table_id t0 \<and> ta_block_cache_id t = ta_block_cache_id t0" if "ReadMeta mem t0 mq = Some (t, mq1)" for t0 mq1
    using that by (auto simp: ReadMeta_def split: if_splits option.splits bind_splits)
  have "ta_table_id t = table_id \<and> ta_block_cache_id t = cache_id"
    using assms by (auto simp: Table_Open_def Let_def split: if_splits prod.splits bind_splits dest!: meta)
  then show "ta_table_id t = table_id" "ta_block_cache_id t = cache_id" by simp_all
qed

lemma table_at_units:
  assumes "ikc_reader.table_at n opt kvs L f t"
  shows "\<exists>m. BFNumer t = Some m \<and> m \<le> kAllFilterUnitsNumber"
proof (cases "ta_reader t")
  case (Some r)
  then obtain fs m where "fr_init_done r" "bloom_file.reader_at n f r fs m" using assms by (auto simp: ikc_reader.table_at_def ikc_reader.filters_at_def)
  then show ?thesis using Some
    by (auto simp: BFNumer_def FilterUnitsNumber_def bloom_file.reader_at_def internal_bloom.reader_rep_def kAllFilterUnitsNumber_def)
qed (simp add: BFNumer_def)

text \<open>A new table: its number in the block cache is not in use.\<close>

lemma ids_ok_add:
  assumes ids: "ids_ok (Suc m) last_id blocks objs" and t: "ta_block_cache_id (to_table t) = last_id + 1"
  shows "ids_ok m (last_id + 1) blocks (objs(ob \<mapsto> t))" "ikc_reader.cache_ok opt L (to_table t) blocks"
proof -
  have "unat last_id + 1 < 2 ^ 64" using ids by (simp add: ids_ok_def)
  then have one: "unat (last_id + 1) = unat last_id + 1" by (subst unat_add_lem [THEN iffD1]) simp_all
  have less: "x < last_id + 1" if "x \<le> last_id" for x using that one by (simp add: word_le_nat_alt word_less_nat_alt)
  have old: "ta_block_cache_id (to_table t') < last_id + 1" if "objs x = Some t'" for x t' using ids less that unfolding ids_ok_def by blast
  have keys: "\<exists>id offset. key = EncodeFixed64 id @ EncodeFixed64 offset \<and> id < last_id + 1" if "blocks = Some lookup" "lookup key = Some b" for lookup key b
    using ids less that unfolding ids_ok_def by blast
  show "ids_ok m (last_id + 1) blocks (objs(ob \<mapsto> t))"
    unfolding ids_ok_def
  proof (intro conjI allI impI)
    show "unat (last_id + 1) + m < 2 ^ 64" using ids one by (simp add: ids_ok_def)
    show "\<exists>id offset. key = EncodeFixed64 id @ EncodeFixed64 offset \<and> id \<le> last_id + 1" if "blocks = Some lookup" "lookup key = Some b" for lookup key b
      using keys [OF that] by (auto intro: order_less_imp_le)
    show "ta_block_cache_id (to_table t') \<le> last_id + 1" if "(objs(ob \<mapsto> t)) x = Some t'" for x t'
      using that t old by (auto split: if_splits intro: order_less_imp_le)
    show "x = y" if "(objs(ob \<mapsto> t)) x = Some t1" "(objs(ob \<mapsto> t)) y = Some t2"
      "ta_block_cache_id (to_table t1) = ta_block_cache_id (to_table t2)" for x t1 y t2
    proof -
      have "x = y" if "objs x = Some t1" "objs y = Some t2"
        using ids that \<open>ta_block_cache_id (to_table t1) = ta_block_cache_id (to_table t2)\<close> unfolding ids_ok_def by blast
      then show ?thesis using that t old [of x t1] old [of y t2] by (auto split: if_splits)
    qed
  qed
  show "ikc_reader.cache_ok opt L (to_table t) blocks"
    unfolding ikc_reader.cache_ok_def
  proof (intro allI impI)
    fix lookup i b assume "blocks = Some lookup" "lookup (block_cache_key (to_table t) (block_handle (tl_blocks L) i)) = Some b"
    from keys [OF this] obtain id offset where
      "block_cache_key (to_table t) (block_handle (tl_blocks L) i) = EncodeFixed64 id @ EncodeFixed64 offset" "id < last_id + 1" by blast
    then have "last_id + 1 < last_id + 1" using t DecodeFixed64_EncodeFixed64 unfolding block_cache_key_def by metis
    then show "b = Block_new (built_block (op_block_restart_interval opt) (fst (tl_blocks L ! i)))" by simp
  qed
qed

lemma table_cache_add:
  assumes tc: "table_cache_ok n held tabs (Suc m) tc" and t: "ikc_reader.table_at n (tc_options tc) kvs L f (to_table t)"
    "tabs (ta_table_id (to_table t)) = Some (file_size, kvs)" "ta_block_cache_id (to_table t) = new_cache_id tc"
    and lru: "objects_ok held' lru" "tl_objects lru \<subseteq>\<^sub>m (tl_objects (tc_cache tc))(ob \<mapsto> t)"
  shows "table_cache_ok n held' tabs m (tc\<lparr>tc_cache := lru, tc_last_id := (if tc_block_cache tc = None then tc_last_id tc else new_cache_id tc)\<rparr>)"
    (is "table_cache_ok n held' tabs m ?tc")
proof -
  let ?objs = "(tl_objects (tc_cache tc))(ob \<mapsto> t)"
  have new: "tc_block_cache tc = None \<or> ids_ok (Suc m) (tc_last_id tc) (tc_block_cache tc) (tl_objects (tc_cache tc)) \<and> new_cache_id tc = tc_last_id tc + 1"
    using tc by (auto simp: table_cache_ok_def new_cache_id_def)
  then have "ikc_reader.cache_ok (tc_options tc) L (to_table t) (tc_block_cache tc)"
    using ids_ok_add(2) t(3) by (auto simp: ikc_reader.cache_ok_def)
  then have "tables_at n tabs (tc_options tc) (tc_block_cache tc) ?objs"
    using tc t(1,2) unfolding table_cache_ok_def tables_at_def by auto
  moreover have "tc_block_cache tc = None \<or> ids_ok m (new_cache_id tc) (tc_block_cache tc) ?objs" using new ids_ok_add(1) t(3) by metis
  moreover have "stored_file n ?tc = stored_file n tc" by (rule stored_file_same(1)) simp_all
  ultimately show ?thesis using tc lru(1) objects_fewer [OF lru(2)] by (auto simp: table_cache_ok_def)
qed

text \<open>\<open>FindTable\<close> gives a handle of the table, which the caller then holds.\<close>

definition holds_table :: "u64 \<Rightarrow> sharded_handle \<Rightarrow> TableCache \<Rightarrow> bool" where
  "holds_table num h tc \<longleftrightarrow> (\<exists>ob size. entry_at h (tl_cache (tc_cache tc)) = Some (EncodeFixed64 num, ob, size, HashSlice (EncodeFixed64 num)))"

lemma FindTable_ok:
  assumes tc: "table_cache_ok n held tabs (Suc m) tc" and num: "tabs num = Some (file_size, kvs)" and level: "level < kNumLevels"
  shows "\<exists>h tc'. FindTable mem num file_size level tc = Some (OK, Some h, tc') \<and> table_cache_ok n (held(h := held h + 1)) tabs m tc' \<and> holds_table num h tc'"
proof -
  let ?key = "EncodeFixed64 num"
  obtain p lru where lru: "tl_Lookup ?key (tc_cache tc) = Some (p, lru)" "tl_objects lru \<subseteq>\<^sub>m tl_objects (tc_cache tc)" "tl_next lru = tl_next (tc_cache tc)"
    "case p of None \<Rightarrow> objects_ok held lru
     | Some h \<Rightarrow> objects_ok (held(h := held h + 1)) lru \<and> (\<exists>ob n. entry_at h (tl_cache lru) = Some (?key, ob, n, HashSlice ?key))"
    using tl_Lookup_ok [of held "tc_cache tc" ?key] tc unfolding table_cache_ok_def by blast
  show ?thesis
  proof (cases p)
    case (Some h)
    then show ?thesis using lru(1,4) table_cache_fewer [OF table_cache_lose [OF tc _ lru(2)]] by (auto simp: FindTable_def holds_table_def)
  next
    case None
    define tc1 where "tc1 = tc\<lparr>tc_cache := lru\<rparr>"
    have tc1: "table_cache_ok n held tabs (Suc m) tc1" "objects_ok held lru" unfolding tc1_def using table_cache_lose [OF tc _ lru(2)] lru(4) None by simp_all
    then obtain L f where f: "open_table_file num tc1 = Inr (RandomAccessFileImpl_Read f)" "unat file_size = length (file_contents f)"
      "ikc_reader.in_file n (tc_options tc1) kvs L f" using num unfolding table_cache_ok_def stored_file_def by metis
    from ikc_reader.table_opens [OF f(3), of "new_cache_id tc1" mem num] bloom_names_ok obtain t where
      t: "Table_Open (tc_options tc1) (new_cache_id tc1) mem (RandomAccessFileImpl_Read f) (unat file_size) num None = Some (OK, Some t, None)"
      "ikc_reader.table_at n (tc_options tc1) kvs L f t" unfolding f(2) by blast
    obtain k where k: "BFNumer t = Some k" "k \<le> kAllFilterUnitsNumber" using table_at_units [OF t(2)] by blast
    let ?ob = "tl_next lru" and ?t = "\<lparr>to_table = t, to_source = RandomAccessFileImpl_Read f\<rparr>"
    define lru1 where "lru1 = lru\<lparr>tl_objects := (tl_objects lru)(?ob \<mapsto> ?t), tl_next := ?ob + 1\<rparr>"
    have key: "?key = EncodeFixed64 (ta_table_id (to_table ?t))" "ta_block_cache_id t = new_cache_id tc1" using Table_Open_ids [OF t(1)] by simp_all
    from tl_Insert_ok [OF tc1(2) refl, of ?t k level ?key lru1 1] k level key(1) lru1_def obtain h lru2 where
      h: "tl_Insert ?key ?ob level 1 lru1 = Some (h, lru2)" "held h = 0" "objects_ok (held(h := 1)) lru2" "tl_objects lru2 \<subseteq>\<^sub>m tl_objects lru1"
      "entry_at h (tl_cache lru2) = Some (?key, ?ob, 1, HashSlice ?key)" by auto
    let ?tc = "tc1\<lparr>tc_cache := lru2, tc_last_id := (if tc_block_cache tc1 = None then tc_last_id tc1 else new_cache_id tc1)\<rparr>"
    have "table_cache_ok n (held(h := 1)) tabs m ?tc"
      using t(2) num key(2) h(4) Table_Open_ids(1) [OF t(1)] by (intro table_cache_add [OF tc1(1) _ _ _ h(3), of kvs L f ?t _ ?ob]) (simp_all add: lru1_def tc1_def)
    moreover have mq: "tl_multi_queue lru = None" using tc1(2) by (simp add: objects_ok_def)
    then have "lru\<lparr>tl_multi_queue := None, tl_objects := (tl_objects lru)(?ob \<mapsto> ?t), tl_next := Suc ?ob\<rparr> = lru1"
      unfolding lru1_def by (cases lru) simp
    then have "FindTable mem num file_size level tc = Some (OK, Some h, ?tc)"
      using lru(1) None f(1) t(1) h(1) mq by (simp add: FindTable_def Let_def tc1_def [symmetric])
    ultimately show ?thesis using h(2,5) by (auto simp: holds_table_def)
  qed
qed

text \<open>A block that a lookup leaves in the block cache is a block of its table.\<close>

lemma insert_block_ok:
  assumes tc: "table_cache_ok n held tabs m tc" and ob: "tl_objects (tc_cache tc) ob = Some t" "tabs (ta_table_id (to_table t)) = Some (file_size, kvs)"
    and t: "ikc_reader.table_at n (tc_options tc) kvs L f (to_table t)" "ikc_reader.cache_ok (tc_options tc) L (to_table t) (tc_block_cache tc)"
    and ins: "\<forall>key b k. ins = Some (key, b, k) \<longrightarrow> (\<exists>i<length (tl_blocks L). key = block_cache_key (to_table t) (block_handle (tl_blocks L) i) \<and>
      b = Block_new (built_block (op_block_restart_interval (tc_options tc)) (fst (tl_blocks L ! i))))"
  shows "table_cache_ok n held tabs m (insert_block ins tc)"
proof (cases "ins = None \<or> tc_block_cache tc = None")
  case True
  then have "insert_block ins tc = tc" by (cases tc) (auto simp: insert_block_def split: option.split)
  then show ?thesis using tc by simp
next
  case False
  then obtain key b k lookup where i: "ins = Some (key, b, k)" "tc_block_cache tc = Some lookup" by (cases ins) auto
  obtain i where key: "i < length (tl_blocks L)" "key = block_cache_key (to_table t) (block_handle (tl_blocks L) i)"
    "b = Block_new (built_block (op_block_restart_interval (tc_options tc)) (fst (tl_blocks L ! i)))" using ins i(1) by blast
  define lookup' where "lookup' = tc_block_insert tc key b k lookup"
  have "lookup' \<subseteq>\<^sub>m lookup(key \<mapsto> b)" using tc unfolding lookup'_def table_cache_ok_def by blast
  then have sub: "(lookup(key \<mapsto> b)) x = Some y" if "lookup' x = Some y" for x y using that by (metis domI map_le_def)
  have ids: "ids_ok m (tc_last_id tc) (Some lookup) (tl_objects (tc_cache tc))" using tc i(2) by (auto simp: table_cache_ok_def)
  have in_file: "ikc_reader.in_file n (tc_options tc) kvs L f" using t(1) by (simp add: ikc_reader.table_at_def)
  have own: "ikc_reader.cache_ok (tc_options tc) L (to_table t) (Some lookup')"
    unfolding ikc_reader.cache_ok_def
  proof (intro allI impI)
    fix m j b' assume j: "Some lookup' = Some m" "j < length (tl_blocks L)" "m (block_cache_key (to_table t) (block_handle (tl_blocks L) j)) = Some b'"
    show "b' = Block_new (built_block (op_block_restart_interval (tc_options tc)) (fst (tl_blocks L ! j)))"
    proof (cases "block_cache_key (to_table t) (block_handle (tl_blocks L) j) = key")
      case True
      then show ?thesis using ikc_reader.block_cache_key_inj [OF in_file j(2) key(1)] sub j(1,3) key(2,3) by fastforce
    next
      case False
      then show ?thesis using t(2) i(2) sub j by (force simp: ikc_reader.cache_ok_def)
    qed
  qed
  have other: "ikc_reader.cache_ok (tc_options tc) L' (to_table t') (Some lookup')"
    if "ikc_reader.cache_ok (tc_options tc) L' (to_table t') (Some lookup)" "tl_objects (tc_cache tc) ob' = Some t'" "ob' \<noteq> ob" for L' t' ob'
  proof -
    have "ta_block_cache_id (to_table t') \<noteq> ta_block_cache_id (to_table t)" using ids ob(1) that(2,3) unfolding ids_ok_def by blast
    then have "block_cache_key (to_table t') h \<noteq> key" for h unfolding key(2) block_cache_key_def using DecodeFixed64_EncodeFixed64 by metis
    then show ?thesis using that(1) sub by (fastforce simp: ikc_reader.cache_ok_def)
  qed
  have "tables_at n tabs (tc_options tc) (Some lookup') (tl_objects (tc_cache tc))"
    unfolding tables_at_def
  proof (intro allI impI)
    fix ob' t' file_size' kvs' assume a: "tl_objects (tc_cache tc) ob' = Some t'" "tabs (ta_table_id (to_table t')) = Some (file_size', kvs')"
    show "\<exists>L f. ikc_reader.table_at n (tc_options tc) kvs' L f (to_table t') \<and> ikc_reader.cache_ok (tc_options tc) L (to_table t') (Some lookup')"
    proof (cases "ob' = ob")
      case True
      then show ?thesis using a ob t(1) own by auto
    next
      case False
      then show ?thesis using tc a other [OF _ a(1)] unfolding table_cache_ok_def tables_at_def i(2) by blast
    qed
  qed
  moreover have "ids_ok m (tc_last_id tc) (Some lookup') (tl_objects (tc_cache tc))"
  proof -
    have "\<exists>id offset. x = EncodeFixed64 id @ EncodeFixed64 offset \<and> id \<le> tc_last_id tc" if "lookup' x = Some y" for x y
    proof (cases "x = key")
      case True
      then show ?thesis using ids ob(1) unfolding key(2) block_cache_key_def ids_ok_def by blast
    next
      case False
      then have "lookup x = Some y" using sub [OF that] by simp
      then show ?thesis using ids unfolding ids_ok_def by blast
    qed
    then show ?thesis using ids unfolding ids_ok_def by blast
  qed
  moreover have "stored_file n (insert_block ins tc) = stored_file n tc" by (rule stored_file_same(1)) (simp_all add: insert_block_def i(1))
  ultimately show ?thesis using tc i by (simp add: table_cache_ok_def insert_block_def lookup'_def)
qed

text \<open>\<open>Get\<close> answers as the table does, and gives its handle back.\<close>

lemma TableCache_Get_ok:
  assumes tc: "table_cache_ok n held tabs (Suc m) tc" and num: "tabs num = Some (file_size, kvs)" and level: "level < kNumLevels"
  shows "\<exists>res tc'. TableCache_Get mem verify fill num file_size level k tc = Some (OK, res, tc') \<and> table_cache_ok n held tabs m tc' \<and>
    ikc_reader.answers k kvs res"
proof -
  from FindTable_ok [OF tc num level] obtain h tc1 where
    1: "FindTable mem num file_size level tc = Some (OK, Some h, tc1)" "table_cache_ok n (held(h := held h + 1)) tabs m tc1" "holds_table num h tc1" by blast
  let ?held = "held(h := held h + 1)"
  have o: "objects_ok ?held (tc_cache tc1)" using 1(2) by (simp add: table_cache_ok_def)
  then have lru: "sharded_ok ?held (tl_cache (tc_cache tc1))" "entries_ok (tl_cache (tc_cache tc1)) (tl_objects (tc_cache tc1))" "tl_multi_queue (tc_cache tc1) = None"
    by (simp_all only: objects_ok_def)
  obtain ob size where e: "entry_at h (tl_cache (tc_cache tc1)) = Some (EncodeFixed64 num, ob, size, HashSlice (EncodeFixed64 num))"
    using 1(3) unfolding holds_table_def by blast
  have "fst h < kNumShards" using sharded_held_alive(1) [OF lru(1), of "fst h" "snd h"] by simp
  then obtain t where t: "tl_objects (tc_cache tc1) ob = Some t" "EncodeFixed64 num = EncodeFixed64 (ta_table_id (to_table t))"
    using lru(2) e unfolding entries_ok_def by blast
  then have id: "tabs (ta_table_id (to_table t)) = Some (file_size, kvs)" using num DecodeFixed64_EncodeFixed64 [of _ "[]"] by (metis append_Nil2)
  have val: "tl_Value h (tc_cache tc1) = Some ob" using e by (auto simp: tl_Value_def Sharded_Value_def entry_at_def entry_of_def split_beta)
  obtain L f where at: "ikc_reader.table_at n (tc_options tc1) kvs L f (to_table t)" "ikc_reader.cache_ok (tc_options tc1) L (to_table t) (tc_block_cache tc1)"
    using 1(2) t(1) id unfolding table_cache_ok_def tables_at_def by blast
  obtain res ins where g: "InternalGet verify fill (tc_block_cache tc1) k (to_table t) None = Some (OK, res, ins, None)" "ikc_reader.answers k kvs res"
    "\<forall>key b n. ins = Some (key, b, n) \<longrightarrow> (\<exists>i<length (tl_blocks L). key = block_cache_key (to_table t) (block_handle (tl_blocks L) i) \<and>
      b = Block_new (built_block (op_block_restart_interval (tc_options tc1)) (fst (tl_blocks L ! i))))"
    using ikc_reader.InternalGet_answers [OF at, of verify fill k] by - (elim exE conjE, rule that)
  let ?tc = "insert_block ins tc1"
  have ok: "table_cache_ok n ?held tabs m ?tc" by (rule insert_block_ok [OF 1(2) t(1) id at g(3)])
  have same: "tc_cache ?tc = tc_cache tc1" by (simp add: insert_block_def split: option.split prod.split)
  from tl_Release_ok [OF o, of h] obtain lru' where
    l: "tl_Release h (tc_cache tc1) = Some lru'" "objects_ok (?held(h := ?held h - 1)) lru'" "tl_objects lru' \<subseteq>\<^sub>m tl_objects (tc_cache tc1)" by auto
  have "?held(h := ?held h - 1) = held" by auto
  then have "table_cache_ok n held tabs m (?tc\<lparr>tc_cache := lru'\<rparr>)" using table_cache_lose [OF ok, of held lru'] l(2,3) same by simp
  moreover have eq: "(tc_cache tc1)\<lparr>tl_multi_queue := None\<rparr> = tc_cache tc1" using lru(3) by (cases "tc_cache tc1") simp
  have "TableCache_Get mem verify fill num file_size level k tc = Some (OK, res, ?tc\<lparr>tc_cache := lru'\<rparr>)"
    using 1(1) val t(1) g(1) l(1) lru(3) same by (simp add: TableCache_Get_def eq)
  ultimately show ?thesis using g(2) by blast
qed

lemma TableCache_Evict_ok:
  assumes "table_cache_ok n held tabs m tc"
  shows "\<exists>tc'. TableCache_Evict num tc = Some tc' \<and> table_cache_ok n held tabs m tc'"
  using tl_Erase_ok [of held "tc_cache tc" "EncodeFixed64 num"] table_cache_lose [OF assms] assms
  by (auto simp: TableCache_Evict_def table_cache_ok_def)

section \<open>Lookups in a version\<close>

definition table_cache_get :: "FilterBlockReader \<Rightarrow> bool \<Rightarrow> bool \<Rightarrow> TableCache table_get" where
  "table_cache_get mem verify_checksums fill_cache file_number file_size level k tc =
     the (TableCache_Get mem verify_checksums fill_cache file_number file_size level k tc)"

interpretation cached_tables: table_provider BytewiseComparator "table_cache_get mem verify fill" "table_cache_ok n held"
proof unfold_locales
  fix tabs m tc num file_size kvs level k
  show "table_cache_ok n held tabs m tc" if "table_cache_ok n held tabs (Suc m) tc" by (rule table_cache_fewer [OF that])
  assume "table_cache_ok n held tabs (Suc m) tc" "tabs num = Some (file_size, kvs)" "level < kNumLevels"
  from TableCache_Get_ok [OF this, of mem verify fill k] obtain res tc' where
    g: "TableCache_Get mem verify fill num file_size level k tc = Some (OK, res, tc')" "table_cache_ok n held tabs m tc'" "ikc_reader.answers k kvs res" by blast
  show "\<exists>res tc'. table_cache_get mem verify fill num file_size level k tc = (OK, res, tc') \<and> table_cache_ok n held tabs m tc' \<and>
      (let first = find (\<lambda>e. \<not> Compare (InternalKeyComparator BytewiseComparator) (fst e) k < 0) kvs
       in (res = None \<or> res = first) \<and>
          (\<forall>e. first = Some e \<longrightarrow> Compare BytewiseComparator (ExtractUserKey k) (ExtractUserKey (fst e)) = 0 \<longrightarrow> res = first))"
    unfolding table_cache_get_def g(1) option.sel
    by (intro exI conjI, rule refl, rule g(2)) (use g(3) in \<open>simp only: ikc_reader.answers_def bytewise_eq_iff\<close>)
qed

text \<open>The states a table cache gets into by lookups in stored tables and by evictions; the number of lookups is counted.\<close>

inductive table_cache_run :: "table_contents \<Rightarrow> TableCache \<Rightarrow> nat \<Rightarrow> TableCache \<Rightarrow> bool" for tabs tc0 where
  start: "table_cache_run tabs tc0 0 tc0"
| got: "table_cache_run tabs tc0 j tc \<Longrightarrow> tabs num = Some (file_size, kvs) \<Longrightarrow> level < kNumLevels \<Longrightarrow>
    TableCache_Get mem verify fill num file_size level k tc = Some (s, res, tc') \<Longrightarrow> table_cache_run tabs tc0 (Suc j) tc'"
| evicted: "table_cache_run tabs tc0 j tc \<Longrightarrow> TableCache_Evict num tc = Some tc' \<Longrightarrow> table_cache_run tabs tc0 j tc'"

lemma table_cache_run_ok:
  "table_cache_run tabs tc0 j tc \<Longrightarrow> table_cache_ok n held tabs (j + m) tc0 \<Longrightarrow> table_cache_ok n held tabs m tc"
proof (induction arbitrary: m rule: table_cache_run.induct)
  case (got j tc num file_size kvs level mem verify fill k s res tc')
  then have "table_cache_ok n held tabs (Suc m) tc" by simp
  from TableCache_Get_ok [OF this got.hyps(2,3), of mem verify fill k] got.hyps(4) show ?case by auto
next
  case (evicted j tc num tc')
  then show ?case using TableCache_Evict_ok [of n held tabs m tc num] by auto
qed simp

lemma table_cache_new_ok:
  assumes "\<And>num file_size kvs. tabs num = Some (file_size, kvs) \<Longrightarrow> stored_file n tc num file_size kvs" "m < 2 ^ 64"
    "\<And>put key b size lookup. block_cache = Some put \<Longrightarrow> put key b size lookup \<subseteq>\<^sub>m lookup(key \<mapsto> b)"
    "tc = TableCache_new env dbname opt direct None block_cache capacity"
  shows "table_cache_ok n (\<lambda>_. 0) tabs m tc"
proof -
  have "entry_at (a, b) (NewLRUCache capacity :: object_ref ShardedLRUCache) = None" if "a < kNumShards" for a b
    using that by (simp add: entry_at_def NewLRUCache_def LRUCache_new_def)
  then have "objects_ok (\<lambda>_. 0) (NewTableCacheLRU capacity None)"
    by (simp add: objects_ok_def NewTableCacheLRU_def sharded_new_ok container_ok_new values_of_def entries_ok_def)
  moreover have "tc_block_insert tc key b size lookup \<subseteq>\<^sub>m lookup(key \<mapsto> b)" for key b size lookup
    using assms(3) by (cases block_cache) (simp_all add: assms(4) TableCache_new_def)
  moreover have "tc_cache tc = NewTableCacheLRU capacity None" by (simp add: assms(4) TableCache_new_def)
  moreover have "ids_ok m (tc_last_id tc) (tc_block_cache tc) (tl_objects (tc_cache tc))"
    using assms(2) by (cases block_cache) (simp_all add: ids_ok_def assms(4) TableCache_new_def NewTableCacheLRU_def)
  moreover have "tables_at n tabs (tc_options tc) (tc_block_cache tc) (tl_objects (tc_cache tc))"
    by (simp add: tables_at_def assms(4) TableCache_new_def NewTableCacheLRU_def)
  ultimately show ?thesis using assms(1) unfolding table_cache_ok_def by simp
qed

text \<open>The tables of a version, as \<open>TableBuilder\<close> writes them.\<close>

definition version_tables :: "file_store \<Rightarrow> (file_ref \<Rightarrow> Entry list) \<Rightarrow> Version \<Rightarrow> table_contents" where
  "version_tables fs E v = map_of (map (\<lambda>f. (fm_number (fs f), fm_file_size (fs f), map entry_kv (E f))) (concat (v_files v)))"

definition built_table :: "Options \<Rightarrow> Entry list \<Rightarrow> FileState \<Rightarrow> bool" where
  "built_table opt es file \<longleftrightarrow> (\<exists>r. TableBuilder_Finish WritableFileImpl
      (fold (\<lambda>(k, v). TableBuilder_Add WritableFileImpl k v) (map entry_kv es) (TableBuilder_new opt FileState_new)) = (OK, r) \<and> tb_file r = file) \<and>
     length (file_contents file) < 2 ^ 32 \<and> table_bulk (map entry_kv es) < 2 ^ 31"

lemma built_table_in_file:
  assumes "op_comparator opt = InternalKeyComparator BytewiseComparator" "1 \<le> op_block_restart_interval opt" "compression_ok (op_compressor opt)"
    "op_filter_policy opt = None \<or> op_filter_policy opt = Some (InternalFilterPolicy (bloom_policy n))"
    "table_holds BytewiseComparator m es" "built_table opt es file"
  shows "\<exists>L. ikc_reader.in_file n opt (map entry_kv es) L file"
proof -
  have opt: "ikc_writer.options_ok n opt" using assms(1-4) by (simp add: ikc_writer.options_ok_def)
  have sorted: "ikc_table.sorted_entries (map entry_kv es)"
    using assms(5) by (simp add: ikc_table.sorted_entries_def table_holds_def sorted_wrt_map entry_kv_def)
  from ikc_writer.table_built [OF opt file_state_ok_new(1,2) sorted] show ?thesis
    using assms(6) opt sorted by (force simp: built_table_def ikc_reader.in_file_def)
qed

lemma version_tables_ok:
  assumes "op_comparator opt = InternalKeyComparator BytewiseComparator" "1 \<le> op_block_restart_interval opt" "compression_ok (op_compressor opt)"
    "op_filter_policy opt = None \<or> op_filter_policy opt = Some (InternalFilterPolicy (bloom_policy n))"
    and v: "version_ok BytewiseComparator fs E v" "inj_on (\<lambda>f. fm_number (fs f)) (set (concat (v_files v)))"
    and tables: "\<forall>f\<in>set (concat (v_files v)). \<exists>file. built_table opt (E f) file \<and> unat (fm_file_size (fs f)) = length (file_contents file) \<and>
      open_table_file (fm_number (fs f)) tc0 = Inr (RandomAccessFileImpl_Read file)"
    and cache: "tc0 = TableCache_new env dbname opt direct None block_cache capacity"
      "\<forall>put key b size lookup. block_cache = Some put \<longrightarrow> put key b size lookup \<subseteq>\<^sub>m lookup(key \<mapsto> b)"
      "table_cache_run (version_tables fs E v) tc0 j tc" "j + Suc (length (concat (v_files v))) < 2 ^ 64"
  shows "version_stored fs E (version_tables fs E v) v" "table_cache_ok n (\<lambda>_. 0) (version_tables fs E v) (Suc (length (concat (v_files v)))) tc"
proof -
  let ?tabs = "version_tables fs E v"
  have source: "\<exists>f\<in>set (concat (v_files v)). num = fm_number (fs f) \<and> file_size = fm_file_size (fs f) \<and> kvs = map entry_kv (E f)"
    if "?tabs num = Some (file_size, kvs)" for num file_size kvs
    using map_of_SomeD [OF that [unfolded version_tables_def]] by auto
  have "?tabs (fm_number (fs f)) = Some (fm_file_size (fs f), map entry_kv (E f))" if f: "f \<in> set (concat (v_files v))" for f
  proof -
    have "?tabs (fm_number (fs f)) \<noteq> None" using f unfolding version_tables_def map_of_eq_None_iff by (force simp: image_iff)
    then show ?thesis using source [of "fm_number (fs f)"] inj_onD [OF v(2) _ _ f] by fastforce
  qed
  then show "version_stored fs E ?tabs v" by (auto simp: version_stored_def)
  have "stored_file n tc0 num file_size kvs" if "?tabs num = Some (file_size, kvs)" for num file_size kvs
  proof -
    from source [OF that] obtain f where f: "f \<in> set (concat (v_files v))" "num = fm_number (fs f)" "file_size = fm_file_size (fs f)" "kvs = map entry_kv (E f)" by blast
    have "table_holds BytewiseComparator (fs f) (E f)" using v(1) f(1) by (auto simp: version_ok_def)
    then show ?thesis using built_table_in_file [OF assms(1-4)] tables f cache(1) by (fastforce simp: stored_file_def TableCache_new_def)
  qed
  then have "table_cache_ok n (\<lambda>_. 0) ?tabs (j + Suc (length (concat (v_files v)))) tc0"
    using cache by (intro table_cache_new_ok [OF _ _ _ cache(1)]) simp_all
  then show "table_cache_ok n (\<lambda>_. 0) ?tabs (Suc (length (concat (v_files v)))) tc" by (rule table_cache_run_ok [OF cache(3)])
qed

text \<open>Two tables of one shard, with room for one: opening the second frees the first.\<close>

lemma shards_evict:
  "\<exists>h1 sc1 sc2 h2 sc3. Sharded_Insert (EncodeFixed64 1) (0 :: object_ref) 1 (NewLRUCache 16) = Some (h1, sc1) \<and> Sharded_Release h1 sc1 = Some sc2 \<and>
    Sharded_Insert (EncodeFixed64 10) 1 1 sc2 = Some (h2, sc3) \<and> deleted_objects sc1 = [] \<and> deleted_objects sc2 = [] \<and> deleted_objects sc3 = [0]"
proof -
  have "do {
      (h1, sc1) \<leftarrow> Sharded_Insert (EncodeFixed64 1) (0 :: object_ref) 1 (NewLRUCache 16);
      sc2 \<leftarrow> Sharded_Release h1 sc1;
      (h2, sc3) \<leftarrow> Sharded_Insert (EncodeFixed64 10) 1 1 sc2;
      Some (deleted_objects sc1, deleted_objects sc2, deleted_objects sc3)
    } = Some ([], [], [0])" by code_simp
  then show ?thesis by (auto split: bind_splits)
qed

section \<open>Properties\<close>

text \<open>
  C1. A lookup in a version finds the newest visible entry. The tables of the version are files that the table builder wrote, with
  any options and with Bloom filters or without; they are stored under the numbers and with the sizes that the version has for them, as
  \<open>.ldb\<close> or as \<open>.sst\<close> files. The table cache started empty, with any capacity and with a block cache or without, and has done any
  number of lookups and evictions, up to the \<open>2 ^ 64\<close> numbers that the block cache gives out. There is no multi-queue: the tables keep
  their filters themselves. Then no lookup in a table fails or uses a
  table that was freed, and \<open>Version::Get\<close> returns the value of the newest entry of the key in all the tables whose
  sequence number is not above the given one, or that there is none, or that it is deleted.
\<close>

theorem version_get:
  assumes "op_comparator opt = InternalKeyComparator BytewiseComparator" "1 \<le> op_block_restart_interval opt" "compression_ok (op_compressor opt)"
    "op_filter_policy opt = None \<or> op_filter_policy opt = Some (InternalFilterPolicy (bloom_policy n))"
    and v: "version_ok BytewiseComparator fs E v" "inj_on (\<lambda>f. fm_number (fs f)) (set (concat (v_files v)))"
    and tables: "\<forall>f\<in>set (concat (v_files v)). \<exists>file. built_table opt (E f) file \<and> unat (fm_file_size (fs f)) = length (file_contents file) \<and>
      open_table_file (fm_number (fs f)) tc0 = Inr (RandomAccessFileImpl_Read file)"
    and cache: "tc0 = TableCache_new env dbname opt direct None block_cache capacity"
      "\<And>put key b size lookup. block_cache = Some put \<Longrightarrow> put key b size lookup \<subseteq>\<^sub>m lookup(key \<mapsto> b)"
      "table_cache_run (version_tables fs E v) tc0 j tc" "j + Suc (length (concat (v_files v))) < 2 ^ 64"
    and s: "s \<le> kMaxSequenceNumber" "length u + 8 < 2 ^ 32"
  shows "(\<forall>f\<in>set (concat (v_files v)). \<forall>level<kNumLevels. \<forall>k. \<exists>res tc'.
      TableCache_Get mem verify fill (fm_number (fs f)) (fm_file_size (fs f)) level k tc = Some (OK, res, tc')) \<and>
    (\<exists>stats fs' tc'. Version_Get (table_cache_get mem verify fill) BytewiseComparator (LookupKey_new u s) val fs tc v =
      (case mem_lookup BytewiseComparator (version_entries E v) u s of
         Some (Inr x) \<Rightarrow> (OK, x, stats, fs', tc') | _ \<Rightarrow> (NotFound [] [], val, stats, fs', tc')))"
proof -
  let ?tabs = "version_tables fs E v"
  have put: "\<forall>put key b size lookup. block_cache = Some put \<longrightarrow> put key b size lookup \<subseteq>\<^sub>m lookup(key \<mapsto> b)" using cache(2) by blast
  note stored = version_tables_ok(1) [OF assms(1-4) v tables cache(1) put cache(3,4)] and ok = version_tables_ok(2) [OF assms(1-4) v tables cache(1) put cache(3,4)]
  have "\<exists>res tc'. TableCache_Get mem verify fill (fm_number (fs f)) (fm_file_size (fs f)) level k tc = Some (OK, res, tc')"
    if "f \<in> set (concat (v_files v))" "level < kNumLevels" for f level k
  proof -
    have "?tabs (fm_number (fs f)) = Some (fm_file_size (fs f), map entry_kv (E f))" using stored that(1) by (auto simp: version_stored_def)
    from TableCache_Get_ok [OF ok this that(2)] show ?thesis by blast
  qed
  moreover have "table_cache_ok n (\<lambda>_. 0) ?tabs (length (concat (v_files v)) + 0) tc" using table_cache_fewer [OF ok] by simp
  from cached_tables.Version_Get_newest [OF v(1) stored this s, of mem verify fill val] have
    "\<exists>stats fs' tc'. Version_Get (table_cache_get mem verify fill) BytewiseComparator (LookupKey_new u s) val fs tc v =
      (case mem_lookup BytewiseComparator (version_entries E v) u s of
         Some (Inr x) \<Rightarrow> (OK, x, stats, fs', tc') | _ \<Rightarrow> (NotFound [] [], val, stats, fs', tc'))" by blast
  ultimately show ?thesis by blast
qed

theorem version_get_witness:
  "\<forall>mem. \<exists>fs v tc stats fs' tc'. fm_number (fs 0) = 7 \<and> v_files v ! 0 = [0] \<and>
    Version_Get (table_cache_get mem True True) BytewiseComparator (LookupKey_new [98] 9) [] fs tc v = (OK, [121], stats, fs', tc')"
proof
  fix mem
  let ?none = "\<lparr>co_compress = \<lambda>_. None, co_length = \<lambda>_. None, co_uncompress = \<lambda>_ _. None\<rparr>" and ?c = BytewiseComparator
  define opt where "opt = \<lparr>op_comparator = InternalKeyComparator ?c, op_paranoid_checks = True, op_block_size = 20, op_block_restart_interval = 2,
     op_compression = kNoCompression, op_filter_policy = None, op_compressor = \<lparr>snappy = ?none, zstd = ?none\<rparr>\<rparr>"
  have o: "op_comparator opt = InternalKeyComparator ?c" "1 \<le> op_block_restart_interval opt" "compression_ok (op_compressor opt)"
    "op_filter_policy opt = None" "op_compressor opt = \<lparr>snappy = ?none, zstd = ?none\<rparr>"
    by (simp_all add: opt_def compression_ok_def compressor_ok_def)
  then have opt: "ikc_writer.options_ok 0 opt" by (simp add: ikc_writer.options_ok_def)
  define es where "es = [\<lparr>e_seq = 5, e_type = kTypeValue, e_key = [97], e_value = [120]\<rparr>, \<lparr>e_seq = 2, e_type = kTypeValue, e_key = [98], e_value = [121]\<rparr>]"
  have sorted: "sorted_wrt (\<lambda>a b. Compare (InternalKeyComparator ?c) (entry_ikey a) (entry_ikey b) < 0) es" unfolding es_def by code_simp
  then have "ikc_table.sorted_entries (map entry_kv es)" by (simp add: ikc_table.sorted_entries_def sorted_wrt_map entry_kv_def)
  from ikc_writer.table_built [OF opt file_state_ok_new(1,2) this] obtain L r where
    r: "TableBuilder_Finish WritableFileImpl
      (fold (\<lambda>(k, v). TableBuilder_Add WritableFileImpl k v) (map entry_kv es) (TableBuilder_new opt FileState_new)) = (OK, r)"
    "file_contents (tb_file r) = image L" "ikc_writer.layout_ok 0 opt (map entry_kv es) L" by blast
  have bulk: "table_bulk (map entry_kv es) = 106" unfolding es_def by code_simp
  have "length (image L) \<le> 2 * table_bulk (map entry_kv es) + length (decimal (length (map entry_kv es))) + 102"
    by (intro ikc_reader.length_image [OF opt r(3) o(4,5)]) simp
  then have len: "length (file_contents (tb_file r)) < 2 ^ 32"
    using length_decimal_le [of "length (map entry_kv es)"] by (simp add: r(2) bulk) (simp add: es_def)
  define m where "m = \<lparr>fm_refs = 1, fm_allowed_seeks = 0, fm_point_query_time = 0, fm_point_query_time_all = 0, fm_history_time = [], fm_number = 7,
     fm_file_size = of_nat (length (file_contents (tb_file r))), fm_smallest = entry_ikey (hd es), fm_largest = entry_ikey (last es)\<rparr>"
  define v where "v = (Version_new :: Version)\<lparr>v_files := [0] # replicate 6 []\<rparr>"
  let ?fs = "\<lambda>_. m" and ?E = "\<lambda>_. es"
  have files: "v_files v = [[0], [], [], [], [], [], []]" by (simp add: v_def numeral_eq_Suc)
  have "\<forall>level. 1 \<le> level \<and> level < 7 \<longrightarrow> [[0 :: file_ref], [], [], [], [], [], []] ! level = []" by (simp add: nth_Cons' )
  moreover have "versions_unique ?c (version_entries ?E v)" unfolding version_entries_def files es_def by code_simp
  moreover have "\<forall>e\<in>set es. entry_ok e" unfolding es_def by (simp add: entry_ok_def kMaxSequenceNumber_def)
  then have "table_holds ?c m es" using sorted by (simp add: table_holds_def m_def) (simp add: es_def)
  ultimately have ver: "version_ok ?c ?fs ?E v" by (simp add: version_ok_def files kNumLevels_def files_sorted_def)
  let ?tc = "TableCache_new (\<lambda>_ _. Inr (RandomAccessFileImpl_Read (tb_file r))) ''db'' opt False None None 100"
  have "built_table opt es (tb_file r)" using r(1) len bulk by (simp add: built_table_def)
  then have tables: "\<forall>f\<in>set (concat (v_files v)). \<exists>file. built_table opt (?E f) file \<and> unat (fm_file_size (?fs f)) = length (file_contents file) \<and>
      open_table_file (fm_number (?fs f)) ?tc = Inr (RandomAccessFileImpl_Read file)"
    using len by (auto simp: m_def open_table_file_def NewRandomAccessFileForTable_def TableCache_new_def unat_of_nat_u64)
  have inj: "inj_on (\<lambda>f. fm_number (?fs f)) (set (concat (v_files v)))" by (simp add: files)
  have look: "mem_lookup ?c (version_entries ?E v) [98] 9 = Some (Inr [121])" unfolding version_entries_def files es_def by code_simp
  have "\<exists>stats fs' tc'. Version_Get (table_cache_get mem True True) ?c (LookupKey_new [98] 9) [] ?fs ?tc v = (OK, [121], stats, fs', tc')"
    using version_get [OF o(1-3) disjI1 [OF o(4)] ver inj tables refl _ table_cache_run.start, of 9 "[98]" mem True True "[]"]
    unfolding look by (simp add: files kMaxSequenceNumber_def)
  then show "\<exists>fs v tc stats fs' tc'. fm_number (fs 0) = 7 \<and> v_files v ! 0 = [0] \<and>
      Version_Get (table_cache_get mem True True) ?c (LookupKey_new [98] 9) [] fs tc v = (OK, [121], stats, fs', tc')"
    using files by (intro exI [of _ ?fs] exI [of _ v] exI [of _ ?tc]) (auto simp: m_def)
qed

text \<open>
  C24. The containers use tables that were freed. The cache has room for one table in each shard. A table is opened, used and given back;
  then another one of the same shard is opened, on a lower level, with the same number of loaded filter units. This evicts the first table
  and frees it, but its handle stays in the containers, as only \<open>Erase\<close> takes handles out of them. When memory is to be filled with filter units next,
  the loop over the containers comes to the handle of the first table and reads it: there is no result.
\<close>

theorem evicted_table_is_used:
  assumes t: "BFNumer (to_table t1) = Some n" "BFNumer (to_table t2) = Some n" "n < kAllFilterUnitsNumber"
    and level: "level1 < level2" "level2 < kNumLevels" and memory: "0 < memory"
  shows "let open_table = (\<lambda>num t level lru. tl_Insert (EncodeFixed64 num) (tl_next lru) level 1
        (lru\<lparr>tl_objects := (tl_objects lru)(tl_next lru \<mapsto> t), tl_next := tl_next lru + 1\<rparr>))
    in \<exists>h1 lru1 lru2 h2 lru3. open_table 1 t1 level1 (NewTableCacheLRU 16 None) = Some (h1, lru1) \<and> tl_Release h1 lru1 = Some lru2 \<and>
      open_table 10 t2 level2 lru2 = Some (h2, lru3) \<and>
      tl_LoadBloomFilter worth current_time next_period_time memory lru3 = None"
proof -
  obtain h1 sc1 sc2 h2 sc3 where sc: "Sharded_Insert (EncodeFixed64 1) (0 :: object_ref) 1 (NewLRUCache 16) = Some (h1, sc1)" "Sharded_Release h1 sc1 = Some sc2"
    "Sharded_Insert (EncodeFixed64 10) 1 1 sc2 = Some (h2, sc3)" "deleted_objects sc1 = []" "deleted_objects sc2 = []" "deleted_objects sc3 = [0]"
    using shards_evict by blast
  let ?o1 = "(\<lambda>_. None)(0 \<mapsto> t1)"
  let ?o2 = "?o1(1 \<mapsto> t2)"
  have l: "level1 \<le> kNumLevels" "level2 \<le> kNumLevels" and n: "n \<le> kAllFilterUnitsNumber" using t level by simp_all
  from MultiContainer_Insert_eq [of ?o1 0 t1 n level1 "EncodeFixed64 1" MultiContainer_new] t(1) l n obtain mc1 where
    mc1: "MultiContainer_Insert ?o1 (EncodeFixed64 1) level1 0 MultiContainer_new = Some mc1"
    "mc_containers mc1 = mc_containers (AddToHead n level1 0 MultiContainer_new)" "mc_next mc1 = 1"
    "mc_handles mc1 0 = Some \<lparr>ch_value = 0, ch_level = level1, ch_bf_number = n\<rparr>" by (auto simp: MultiContainer_new_def)
  from MultiContainer_Insert_eq [of ?o2 1 t2 n level2 "EncodeFixed64 10" mc1] t(2) l n obtain mc2 where
    mc2: "MultiContainer_Insert ?o2 (EncodeFixed64 10) level2 1 mc1 = Some mc2" "mc_containers mc2 = mc_containers (AddToHead n level2 1 mc1)"
    "mc_handles mc2 0 = Some \<lparr>ch_value = 0, ch_level = level1, ch_bf_number = n\<rparr>" using mc1(3,4) by auto
  have c1: "container i j mc1 = (if i = n \<and> j = level1 then [0] else [])" "grid_ok mc1" if "i \<le> kAllFilterUnitsNumber" "j \<le> kNumLevels" for i j
    using container_AddToHead [OF grid_ok_new that n l(1), of 0] container_new [OF that] mc1(2)
    by (auto simp: container_def grid_ok_def)
  have c2: "container i j mc2 = (if i = n \<and> j = level1 then [0] else if i = n \<and> j = level2 then [1] else [])" if "i \<le> kAllFilterUnitsNumber" "j \<le> kNumLevels" for i j
    using container_AddToHead(1) [OF c1(2) [OF that] that n l(2), of 1] c1(1) [OF that] level(1) mc2(2) by (auto simp: container_def)
  define lru1 where "lru1 = \<lparr>tl_cache = sc1, tl_container = mc1, tl_objects = ?o1, tl_next = 1, tl_multi_queue = None\<rparr>"
  define lru2 where "lru2 = \<lparr>tl_cache = sc2, tl_container = mc1, tl_objects = ?o1, tl_next = 1, tl_multi_queue = None\<rparr>"
  define lru3 where "lru3 = \<lparr>tl_cache = sc3, tl_container = mc2, tl_objects = ?o2(0 := None), tl_next = 2, tl_multi_queue = None\<rparr>"
  have "MultiContainer_LoadBloomFilter worth current_time next_period_time memory (tl_objects lru3) mc2 = None"
    using t(3) l level mc2(3) memory
    by (intro load_uses_freed [where n = n and level = level1 and h = 0 and rest = "[]"]) (auto simp: c2 lru3_def)
  then have "tl_LoadBloomFilter worth current_time next_period_time memory lru3 = None" by (simp add: tl_LoadBloomFilter_def lru3_def)
  moreover have "tl_Insert (EncodeFixed64 1) 0 level1 1 (NewTableCacheLRU 16 None\<lparr>tl_objects := ?o1, tl_next := 1\<rparr>) = Some (h1, lru1)"
    using mc1(1) sc(1,4) by (simp add: tl_Insert_def NewTableCacheLRU_def with_shards_def lru1_def)
  moreover have "tl_Release h1 lru1 = Some lru2" using sc(2,5) by (simp add: tl_Release_def lru1_def lru2_def with_shards_def)
  moreover have "tl_Insert (EncodeFixed64 10) 1 level2 1 (lru2\<lparr>tl_objects := ?o2, tl_next := 2\<rparr>) = Some (h2, lru3)"
    using mc2(1) sc(3,6) by (simp add: tl_Insert_def lru2_def lru3_def with_shards_def delete_object_def numeral_2_eq_2)
  ultimately show ?thesis
    unfolding Let_def by (intro exI [of _ h1] exI [of _ lru1] exI [of _ lru2] exI [of _ h2] exI [of _ lru3]) (simp add: NewTableCacheLRU_def lru2_def numeral_2_eq_2)
qed
theorem evicted_table_is_used_witness:
  "\<exists>t. BFNumer (to_table t) = Some 0 \<and>
    (\<exists>h1 lru1 lru2 h2 lru3. tl_Insert (EncodeFixed64 1) 0 1 1 (NewTableCacheLRU 16 None\<lparr>tl_objects := [0 \<mapsto> t], tl_next := 1\<rparr>) = Some (h1, lru1) \<and>
      tl_Release h1 lru1 = Some lru2 \<and>
      tl_Insert (EncodeFixed64 10) (tl_next lru2) 2 1 (lru2\<lparr>tl_objects := (tl_objects lru2)(tl_next lru2 \<mapsto> t), tl_next := tl_next lru2 + 1\<rparr>) = Some (h2, lru3) \<and>
      tl_LoadBloomFilter None 0 0 4096 lru3 = None)"
proof -
  let ?none = "\<lparr>co_compress = \<lambda>_. None, co_length = \<lambda>_. None, co_uncompress = \<lambda>_ _. None\<rparr>" and ?file = "\<lambda>_ _. (OK, [], False)"
  let ?opt = "\<lparr>op_comparator = BytewiseComparator, op_paranoid_checks = True, op_block_size = 20, op_block_restart_interval = 2,
     op_compression = kNoCompression, op_filter_policy = None, op_compressor = \<lparr>snappy = ?none, zstd = ?none\<rparr>\<rparr>"
  define t where "t = \<lparr>to_table = \<lparr>ta_options = ?opt, ta_file = ?file, ta_block_cache_id = 1, ta_table_id = 1, ta_footer = Footer_new,
     ta_metaindex_handle = BlockHandle_new, ta_index_block = Block_new [], ta_handle = None, ta_reader = None, ta_multi_cache_key = []\<rparr>, to_source = ?file\<rparr>"
  have t: "BFNumer (to_table t) = Some 0" by (simp add: t_def BFNumer_def)
  show ?thesis
    using evicted_table_is_used [OF t t, of 1 2 4096 None 0 0] t
    by (intro exI [of _ t] conjI) (simp_all add: kAllFilterUnitsNumber_def kNumLevels_def NewTableCacheLRU_def)
qed

end
