(* ===== verification/Compaction.thy ===== *)
theory Compaction
  imports VersionSet TableCache
begin

text \<open>
  Compactions (\<open>db/version_set.cc\<close>): which files of a level and of the next one are merged, when an output file ends, and
  which keys have no older versions below. Assertions are off; the model has no result (\<open>None\<close>) where the code would read outside of
  a vector or not return.
\<close>

section \<open>State\<close>

record Compaction =
  c_level :: nat
  c_max_output_file_size :: u64
  c_input_version :: "version_ref option"
  c_edit :: VersionEdit
  c_inputs0 :: "file_ref list"
  c_inputs1 :: "file_ref list"
  c_access_times0 :: "u64 list"
  c_access_times1 :: "u64 list"
  c_grandparents :: "file_ref list"
  c_grandparent_index :: nat
  c_seen_key :: bool
  c_overlapped_bytes :: u64
  c_level_ptrs :: "nat list"

definition Compaction_new :: "u64 \<Rightarrow> nat \<Rightarrow> Compaction" where
  "Compaction_new max_file_size level =
     \<lparr>c_level = level, c_max_output_file_size = MaxFileSizeForLevel max_file_size level, c_input_version = None, c_edit = VersionEdit_Clear,
      c_inputs0 = [], c_inputs1 = [], c_access_times0 = [], c_access_times1 = [], c_grandparents = [], c_grandparent_index = 0,
      c_seen_key = False, c_overlapped_bytes = 0, c_level_ptrs = replicate kNumLevels 0\<rparr>"

definition ReleaseInputs :: "Compaction \<Rightarrow> VersionSet \<Rightarrow> Compaction \<times> VersionSet" where
  "ReleaseInputs c vs =
     (case c_input_version c of None \<Rightarrow> (c, vs) | Some r \<Rightarrow> (c\<lparr>c_input_version := None\<rparr>, Version_Unref r vs))"

definition delete_compaction :: "Compaction \<Rightarrow> VersionSet \<Rightarrow> VersionSet" where
  "delete_compaction c vs = (case c_input_version c of None \<Rightarrow> vs | Some r \<Rightarrow> Version_Unref r vs)"

section \<open>Ranges and boundaries\<close>

fun get_range :: "Comparator \<Rightarrow> file_store \<Rightarrow> file_ref list \<Rightarrow> bytes \<Rightarrow> bytes \<Rightarrow> bytes \<times> bytes" where
  "get_range icmp fs [] smallest largest = (smallest, largest)"
| "get_range icmp fs (f # files) smallest largest =
     get_range icmp fs files
       (if Compare icmp (fm_smallest (fs f)) smallest < 0 then fm_smallest (fs f) else smallest)
       (if Compare icmp (fm_largest (fs f)) largest > 0 then fm_largest (fs f) else largest)"

definition GetRange :: "Comparator \<Rightarrow> file_store \<Rightarrow> file_ref list \<Rightarrow> bytes \<times> bytes" where
  "GetRange icmp fs inputs =
     (case inputs of [] \<Rightarrow> ([], []) | f # files \<Rightarrow> get_range icmp fs files (fm_smallest (fs f)) (fm_largest (fs f)))"

definition GetRange2 :: "Comparator \<Rightarrow> file_store \<Rightarrow> file_ref list \<Rightarrow> file_ref list \<Rightarrow> bytes \<times> bytes" where
  "GetRange2 icmp fs inputs1 inputs2 = GetRange icmp fs (inputs1 @ inputs2)"

definition FindLargestKey :: "Comparator \<Rightarrow> file_store \<Rightarrow> file_ref list \<Rightarrow> bytes option" where
  "FindLargestKey icmp fs files =
     (case files of
        [] \<Rightarrow> None
      | f # rest \<Rightarrow> Some (fold (\<lambda>g largest_key. if Compare icmp (fm_largest (fs g)) largest_key > 0 then fm_largest (fs g) else largest_key)
                          rest (fm_largest (fs f))))"

definition FindSmallestBoundaryFile :: "Comparator \<Rightarrow> file_store \<Rightarrow> file_ref list \<Rightarrow> bytes \<Rightarrow> file_ref option" where
  "FindSmallestBoundaryFile ucmp fs level_files largest_key =
     fold (\<lambda>f smallest_boundary_file.
        if Compare (InternalKeyComparator ucmp) (fm_smallest (fs f)) largest_key > 0 \<and>
           Compare ucmp (ExtractUserKey (fm_smallest (fs f))) (ExtractUserKey largest_key) = 0
        then (case smallest_boundary_file of
                None \<Rightarrow> Some f
              | Some g \<Rightarrow> if Compare (InternalKeyComparator ucmp) (fm_smallest (fs f)) (fm_smallest (fs g)) < 0 then Some f else Some g)
        else smallest_boundary_file) level_files None"

text \<open>The loop of \<open>AddBoundaryInputs\<close>, which goes on as long as it finds a file.\<close>

partial_function (option) boundary_files :: "Comparator \<Rightarrow> file_store \<Rightarrow> file_ref list \<Rightarrow> bytes \<Rightarrow> file_ref list \<Rightarrow> file_ref list option" where
  "boundary_files ucmp fs level_files largest_key compaction_files =
     (case FindSmallestBoundaryFile ucmp fs level_files largest_key of
        None \<Rightarrow> Some compaction_files
      | Some f \<Rightarrow> boundary_files ucmp fs level_files (fm_largest (fs f)) (compaction_files @ [f]))"

declare boundary_files.simps [code]

definition AddBoundaryInputs :: "Comparator \<Rightarrow> file_store \<Rightarrow> file_ref list \<Rightarrow> file_ref list \<Rightarrow> file_ref list option" where
  "AddBoundaryInputs ucmp fs level_files compaction_files =
     (case FindLargestKey (InternalKeyComparator ucmp) fs compaction_files of
        None \<Rightarrow> Some compaction_files
      | Some largest_key \<Rightarrow> boundary_files ucmp fs level_files largest_key compaction_files)"

section \<open>Choosing the inputs\<close>

text \<open>The files of the next level; they come with the whole range of the compaction.\<close>

definition other_inputs :: "Comparator \<Rightarrow> file_store \<Rightarrow> Version \<Rightarrow> nat \<Rightarrow> file_ref list \<Rightarrow> file_ref list option" where
  "other_inputs ucmp fs v level inputs0 = do {
     let (smallest, largest) = GetRange (InternalKeyComparator ucmp) fs inputs0;
     inputs1 \<leftarrow> GetOverlappingInputs ucmp fs v (level + 1) (Some smallest) (Some largest);
     AddBoundaryInputs ucmp fs (v_files v ! (level + 1)) inputs1
   }"

text \<open>Whether more files of the level can be taken in without more files of the next one.\<close>

definition expand_inputs ::
  "Comparator \<Rightarrow> u64 \<Rightarrow> file_store \<Rightarrow> Version \<Rightarrow> nat \<Rightarrow> file_ref list \<Rightarrow> file_ref list \<Rightarrow> (file_ref list \<times> file_ref list) option" where
  "expand_inputs ucmp max_file_size fs v level inputs0 inputs1 = do {
     let (all_start, all_limit) = GetRange2 (InternalKeyComparator ucmp) fs inputs0 inputs1;
     if inputs1 = [] then Some (inputs0, inputs1)
     else do {
       expanded0 \<leftarrow> GetOverlappingInputs ucmp fs v level (Some all_start) (Some all_limit);
       expanded0 \<leftarrow> AddBoundaryInputs ucmp fs (v_files v ! level) expanded0;
       if length expanded0 > length inputs0 \<and>
          sint (TotalFileSize fs inputs1 + TotalFileSize fs expanded0) < sint (ExpandedCompactionByteSizeLimit max_file_size)
       then do {
         expanded1 \<leftarrow> other_inputs ucmp fs v level expanded0;
         Some (if length expanded1 = length inputs1 then (expanded0, expanded1) else (inputs0, inputs1))
       }
       else Some (inputs0, inputs1)
     }
   }"

definition SetupOtherInputs :: "Compaction \<Rightarrow> VersionSet \<Rightarrow> (Compaction \<times> VersionSet) option" where
  "SetupOtherInputs c vs = do {
     let level = c_level c;
     let v = current_version vs;
     let fs = vs_files vs;
     let ucmp = vs_ucmp vs;
     let icmp = InternalKeyComparator ucmp;
     if level + 1 \<ge> kNumLevels then None
     else do {
       inputs0 \<leftarrow> AddBoundaryInputs ucmp fs (v_files v ! level) (c_inputs0 c);
       inputs1 \<leftarrow> other_inputs ucmp fs v level inputs0;
       (inputs0, inputs1) \<leftarrow> expand_inputs ucmp (vs_max_file_size vs) fs v level inputs0 inputs1;
       let largest = snd (GetRange icmp fs inputs0);
       let (all_start, all_limit) = GetRange2 icmp fs inputs0 inputs1;
       grandparents \<leftarrow> (if level + 2 < kNumLevels then GetOverlappingInputs ucmp fs v (level + 2) (Some all_start) (Some all_limit)
                        else Some (c_grandparents c));
       Some (c\<lparr>c_inputs0 := inputs0, c_inputs1 := inputs1, c_grandparents := grandparents, c_edit := SetCompactPointer level largest (c_edit c)\<rparr>,
             vs\<lparr>vs_compact_pointer := (vs_compact_pointer vs)[level := largest]\<rparr>)
     }
   }"

text \<open>The first file that ends after the compaction pointer of the level.\<close>

definition pick_file :: "Comparator \<Rightarrow> file_store \<Rightarrow> file_ref list \<Rightarrow> bytes \<Rightarrow> file_ref option" where
  "pick_file ucmp fs files pointer =
     (case find (\<lambda>f. pointer = [] \<or> Compare (InternalKeyComparator ucmp) (fm_largest (fs f)) pointer > 0) files of
        Some f \<Rightarrow> Some f
      | None \<Rightarrow> (case files of [] \<Rightarrow> None | f # _ \<Rightarrow> Some f))"

definition start_compaction :: "nat \<Rightarrow> file_ref list \<Rightarrow> VersionSet \<Rightarrow> Compaction \<times> VersionSet" where
  "start_compaction level inputs vs =
     ((Compaction_new (vs_max_file_size vs) level)\<lparr>c_inputs0 := inputs, c_input_version := vs_current vs\<rparr>, Version_Ref (the (vs_current vs)) vs)"

definition PickCompaction :: "VersionSet \<Rightarrow> (Compaction option \<times> VersionSet) option" where
  "PickCompaction vs = do {
     let v = current_version vs;
     let fs = vs_files vs;
     let ucmp = vs_ucmp vs;
     let size_compaction = (v_compaction_score v \<ge> 1);
     let seek_compaction = (v_file_to_compact v \<noteq> None);
     if \<not> size_compaction \<and> \<not> seek_compaction then Some (None, vs)
     else do {
       let level = nat (if size_compaction then v_compaction_level v else v_file_to_compact_level v);
       f \<leftarrow> (if size_compaction then pick_file ucmp fs (v_files v ! level) (vs_compact_pointer vs ! level) else v_file_to_compact v);
       let (c, vs) = start_compaction level [f] vs;
       inputs0 \<leftarrow> (if level = 0 then
                     let (smallest, largest) = GetRange (InternalKeyComparator ucmp) fs [f]
                     in GetOverlappingInputs ucmp fs v 0 (Some smallest) (Some largest)
                   else Some [f]);
       (c, vs) \<leftarrow> SetupOtherInputs (c\<lparr>c_inputs0 := inputs0\<rparr>) vs;
       Some (Some c, vs)
     }
   }"

text \<open>The files up to the one that brings the total over the limit.\<close>

fun limit_inputs :: "file_store \<Rightarrow> u64 \<Rightarrow> u64 \<Rightarrow> file_ref list \<Rightarrow> file_ref list" where
  "limit_inputs fs limit acc [] = []"
| "limit_inputs fs limit acc (f # files) =
     (let acc = acc + fm_file_size (fs f) in if acc \<ge> limit then [f] else f # limit_inputs fs limit acc files)"

definition CompactRange :: "nat \<Rightarrow> bytes option \<Rightarrow> bytes option \<Rightarrow> VersionSet \<Rightarrow> (Compaction option \<times> VersionSet) option" where
  "CompactRange level begin_key end_key vs = do {
     inputs \<leftarrow> GetOverlappingInputs (vs_ucmp vs) (vs_files vs) (current_version vs) level begin_key end_key;
     if inputs = [] then Some (None, vs)
     else do {
       let inputs = (if level > 0 then limit_inputs (vs_files vs) (MaxFileSizeForLevel (vs_max_file_size vs) level) 0 inputs else inputs);
       let (c, vs) = start_compaction level inputs vs;
       (c, vs) \<leftarrow> SetupOtherInputs c vs;
       Some (Some c, vs)
     }
   }"

section \<open>Using a compaction\<close>

definition IsTrivialMove :: "VersionSet \<Rightarrow> Compaction \<Rightarrow> bool" where
  "IsTrivialMove vs c \<longleftrightarrow> length (c_inputs0 c) = 1 \<and> length (c_inputs1 c) = 0 \<and>
     sint (TotalFileSize (vs_files vs) (c_grandparents c)) \<le> sint (MaxGrandParentOverlapBytes (vs_max_file_size vs))"

definition AddInputDeletions :: "file_store \<Rightarrow> Compaction \<Rightarrow> VersionEdit \<Rightarrow> VersionEdit" where
  "AddInputDeletions fs c edit =
     fold (\<lambda>f. RemoveFile_edit (c_level c + 1) (fm_number (fs f))) (c_inputs1 c)
       (fold (\<lambda>f. RemoveFile_edit (c_level c) (fm_number (fs f))) (c_inputs0 c) edit)"

text \<open>The loop over the files of one level, from the position of the level on.\<close>

function base_level :: "Comparator \<Rightarrow> file_store \<Rightarrow> file_ref list \<Rightarrow> bytes \<Rightarrow> nat \<Rightarrow> bool \<times> nat" where
  "base_level ucmp fs files ukey ptr =
     (if ptr < length files then
        let f = files ! ptr
        in if Compare ucmp ukey (ExtractUserKey (fm_largest (fs f))) \<le> 0 then
             (\<not> Compare ucmp ukey (ExtractUserKey (fm_smallest (fs f))) \<ge> 0, ptr)
           else base_level ucmp fs files ukey (ptr + 1)
      else (True, ptr))"
  by pat_completeness auto
termination by (relation "measure (\<lambda>(ucmp, fs, files, ukey, ptr). length files - ptr)") auto

declare base_level.simps [simp del]

fun base_levels :: "Comparator \<Rightarrow> file_store \<Rightarrow> Version \<Rightarrow> bytes \<Rightarrow> nat list \<Rightarrow> nat list \<Rightarrow> bool \<times> nat list" where
  "base_levels ucmp fs v ukey [] ptrs = (True, ptrs)"
| "base_levels ucmp fs v ukey (lvl # lvls) ptrs =
     (let (b, ptr) = base_level ucmp fs (v_files v ! lvl) ukey (ptrs ! lvl); ptrs = ptrs[lvl := ptr]
      in if \<not> b then (False, ptrs) else base_levels ucmp fs v ukey lvls ptrs)"

definition IsBaseLevelForKey :: "Comparator \<Rightarrow> file_store \<Rightarrow> Version \<Rightarrow> bytes \<Rightarrow> Compaction \<Rightarrow> bool \<times> Compaction" where
  "IsBaseLevelForKey ucmp fs v ukey c =
     (let (b, ptrs) = base_levels ucmp fs v ukey [c_level c + 2..<kNumLevels] (c_level_ptrs c) in (b, c\<lparr>c_level_ptrs := ptrs\<rparr>))"

function skip_grandparents :: "Comparator \<Rightarrow> file_store \<Rightarrow> bytes \<Rightarrow> Compaction \<Rightarrow> Compaction" where
  "skip_grandparents icmp fs key c =
     (if c_grandparent_index c < length (c_grandparents c) \<and>
         Compare icmp key (fm_largest (fs (c_grandparents c ! c_grandparent_index c))) > 0
      then skip_grandparents icmp fs key
        (c\<lparr>c_overlapped_bytes := (if c_seen_key c then c_overlapped_bytes c + fm_file_size (fs (c_grandparents c ! c_grandparent_index c))
                                 else c_overlapped_bytes c),
           c_grandparent_index := c_grandparent_index c + 1\<rparr>)
      else c)"
  by pat_completeness auto
termination by (relation "measure (\<lambda>(icmp, fs, key, c). length (c_grandparents c) - c_grandparent_index c)") auto

declare skip_grandparents.simps [simp del]

definition ShouldStopBefore :: "Comparator \<Rightarrow> u64 \<Rightarrow> file_store \<Rightarrow> bytes \<Rightarrow> Compaction \<Rightarrow> bool \<times> Compaction" where
  "ShouldStopBefore icmp max_file_size fs key c =
     (let c = (skip_grandparents icmp fs key c)\<lparr>c_seen_key := True\<rparr>
      in if sint (c_overlapped_bytes c) > sint (MaxGrandParentOverlapBytes max_file_size) then (True, c\<lparr>c_overlapped_bytes := 0\<rparr>) else (False, c))"

definition IsOverlapping :: "Comparator \<Rightarrow> bytes \<Rightarrow> bytes \<Rightarrow> bytes \<Rightarrow> bytes \<Rightarrow> bool" where
  "IsOverlapping ucmp input_smallest input_largest output_smallest output_largest \<longleftrightarrow>
     \<not> (Compare ucmp (ExtractUserKey output_largest) (ExtractUserKey input_smallest) < 0 \<or>
        Compare ucmp (ExtractUserKey input_largest) (ExtractUserKey output_smallest) < 0)"

definition GetInputTableAccessTime :: "FilterPolicy \<Rightarrow> file_store \<Rightarrow> InternalMultiQueue \<Rightarrow> Compaction \<Rightarrow> Compaction option" where
  "GetInputTableAccessTime policy fs multi_queue c = do {
     times0 \<leftarrow> those (map (\<lambda>f. GetAccessTime (ParseHandleKey policy (fm_number (fs f))) multi_queue) (c_inputs0 c));
     times1 \<leftarrow> those (map (\<lambda>f. GetAccessTime (ParseHandleKey policy (fm_number (fs f))) multi_queue) (c_inputs1 c));
     Some (c\<lparr>c_access_times0 := c_access_times0 c @ times0, c_access_times1 := c_access_times1 c @ times1\<rparr>)
   }"

text \<open>The mean of the access times of the inputs that overlap the new table, with the wrap-around of \<open>size_t\<close>.\<close>

definition GetNewTableAccessTime :: "Comparator \<Rightarrow> file_store \<Rightarrow> bytes \<Rightarrow> bytes \<Rightarrow> Compaction \<Rightarrow> u64" where
  "GetNewTableAccessTime ucmp fs smallest largest c =
     (let times = map snd (filter (\<lambda>(f, t). IsOverlapping ucmp (fm_smallest (fs f)) (fm_largest (fs f)) smallest largest)
            (zip (c_inputs0 c) (c_access_times0 c) @ zip (c_inputs1 c) (c_access_times1 c)));
          access_times = fold (\<lambda>t sum. sum + t) times 0
      in if times = [] then 0 else access_times div of_nat (length times))"

section \<open>Boundary files\<close>

text \<open>A file that goes on with the user key at which the range ends.\<close>

definition boundary :: "Comparator \<Rightarrow> file_store \<Rightarrow> bytes \<Rightarrow> file_ref \<Rightarrow> bool" where
  "boundary c fs key f \<longleftrightarrow> Compare (InternalKeyComparator c) (fm_smallest (fs f)) key > 0 \<and> Compare c (start_key (fs f)) (ExtractUserKey key) = 0"

text \<open>Files none of which has versions of a key that continue in a file that is left out.\<close>

definition keys_closed :: "Comparator \<Rightarrow> file_store \<Rightarrow> file_ref list \<Rightarrow> file_ref set \<Rightarrow> bool" where
  "keys_closed c fs files X \<longleftrightarrow> (\<forall>f\<in>X. \<forall>g\<in>set files. Compare (InternalKeyComparator c) (fm_largest (fs f)) (fm_smallest (fs g)) < 0 \<longrightarrow>
     Compare c (limit_key (fs f)) (start_key (fs g)) = 0 \<longrightarrow> g \<in> X)"

definition overlap_closed :: "Comparator \<Rightarrow> file_store \<Rightarrow> file_ref list \<Rightarrow> file_ref set \<Rightarrow> bool" where
  "overlap_closed c fs files X \<longleftrightarrow> (\<forall>f\<in>X. \<forall>g\<in>set files. user_overlap c (Some (start_key (fs f))) (Some (limit_key (fs f))) (fs g) \<longrightarrow> g \<in> X)"

text \<open>Files without a gap.\<close>

definition convex :: "Comparator \<Rightarrow> file_store \<Rightarrow> file_ref list \<Rightarrow> file_ref set \<Rightarrow> bool" where
  "convex c fs files X \<longleftrightarrow> (\<forall>f\<in>X. \<forall>h\<in>X. \<forall>g\<in>set files. Compare (InternalKeyComparator c) (fm_smallest (fs f)) (fm_smallest (fs g)) \<le> 0 \<longrightarrow>
     Compare (InternalKeyComparator c) (fm_smallest (fs g)) (fm_smallest (fs h)) \<le> 0 \<longrightarrow> g \<in> X)"

text \<open>The last key of a set of files.\<close>

definition ends_with :: "Comparator \<Rightarrow> file_store \<Rightarrow> file_ref set \<Rightarrow> bytes \<Rightarrow> bool" where
  "ends_with c fs X key \<longleftrightarrow> (\<exists>m\<in>X. fm_largest (fs m) = key) \<and> (\<forall>f\<in>X. Compare (InternalKeyComparator c) (fm_largest (fs f)) key \<le> 0)"

context separating_comparator
begin

lemma FindSmallestBoundaryFile_ok:
  "case FindSmallestBoundaryFile c fs files key of
     None \<Rightarrow> \<forall>f\<in>set files. \<not> boundary c fs key f
   | Some b \<Rightarrow> b \<in> set files \<and> boundary c fs key b \<and>
       (\<forall>g\<in>set files. boundary c fs key g \<longrightarrow> Compare (InternalKeyComparator c) (fm_smallest (fs b)) (fm_smallest (fs g)) \<le> 0)"
proof -
  let ?le = "\<lambda>b g. Compare (InternalKeyComparator c) (fm_smallest (fs b)) (fm_smallest (fs g)) \<le> 0"
  let ?step = "\<lambda>f p. if boundary c fs key f then (case p of None \<Rightarrow> Some f
      | Some g \<Rightarrow> if Compare (InternalKeyComparator c) (fm_smallest (fs f)) (fm_smallest (fs g)) < 0 then Some f else Some g) else p"
  have "case fold ?step files None of
      None \<Rightarrow> \<forall>f\<in>set files. \<not> boundary c fs key f
    | Some b \<Rightarrow> b \<in> set files \<and> boundary c fs key b \<and> (\<forall>g\<in>set files. boundary c fs key g \<longrightarrow> ?le b g)"
  proof (induction files rule: rev_induct)
    case (snoc f files)
    show ?case
    proof (cases "fold ?step files None")
      case None
      then show ?thesis using snoc by auto
    next
      case (Some b)
      then have b: "b \<in> set files" "boundary c fs key b" "\<forall>g\<in>set files. boundary c fs key g \<longrightarrow> ?le b g" using snoc by auto
      show ?thesis
      proof (cases "boundary c fs key f \<and> Compare (InternalKeyComparator c) (fm_smallest (fs f)) (fm_smallest (fs b)) < 0")
        case True
        then have "\<forall>g\<in>set files. boundary c fs key g \<longrightarrow> ?le f g" using b(3) ik.compare_trans less_imp_le by blast
        then show ?thesis using True Some by simp
      next
        case False
        then have "boundary c fs key f \<longrightarrow> ?le b f" using ik.compare_not_less by blast
        then show ?thesis using False Some b by simp
      qed
    qed
  qed simp
  then show ?thesis unfolding FindSmallestBoundaryFile_def boundary_def .
qed

lemma ends_with_extend:
  assumes "ends_with c fs X key" "Compare (InternalKeyComparator c) key (fm_largest (fs b)) \<le> 0"
  shows "ends_with c fs (insert b X) (fm_largest (fs b))"
proof -
  have "Compare (InternalKeyComparator c) (fm_largest (fs f)) (fm_largest (fs b)) \<le> 0" if "f \<in> X" for f
    using assms that ik.compare_trans unfolding ends_with_def by blast
  then show ?thesis by (simp add: ends_with_def)
qed

lemma FindLargestKey_ok:
  assumes "files \<noteq> []"
  shows "\<exists>key. FindLargestKey (InternalKeyComparator c) fs files = Some key \<and> ends_with c fs (set files) key"
proof -
  obtain f rest where f: "files = f # rest" using assms by (cases files) auto
  let ?step = "\<lambda>g largest_key. if Compare (InternalKeyComparator c) (fm_largest (fs g)) largest_key > 0 then fm_largest (fs g) else largest_key"
  have "ends_with c fs (set (f # rest)) (fold ?step rest (fm_largest (fs f)))"
  proof (induction rest rule: rev_induct)
    case (snoc g rest)
    let ?k = "fold ?step rest (fm_largest (fs f))"
    show ?case
    proof (cases "Compare (InternalKeyComparator c) (fm_largest (fs g)) ?k > 0")
      case True
      then have "Compare (InternalKeyComparator c) ?k (fm_largest (fs g)) \<le> 0" using ik.compare_gt_iff less_imp_le by blast
      then show ?thesis using ends_with_extend [OF snoc, of g] True by (simp add: insert_commute [of f])
    qed (use snoc in \<open>auto simp: ends_with_def\<close>)
  qed (simp add: ends_with_def)
  then show ?thesis by (simp add: FindLargestKey_def f)
qed

text \<open>The search for boundary files ends: every file that is found moves the end of the range past its own start.\<close>

lemma boundary_files_ok:
  assumes ok: "\<forall>f\<in>set files. file_ok c (fs f)"
    and add: "\<And>Y key b. ends_with c fs Y key \<Longrightarrow> P Y \<Longrightarrow> b \<in> set files \<Longrightarrow> boundary c fs key b \<Longrightarrow>
      \<forall>g\<in>set files. boundary c fs key g \<longrightarrow> Compare (InternalKeyComparator c) (fm_smallest (fs b)) (fm_smallest (fs g)) \<le> 0 \<Longrightarrow> P (insert b Y)"
  shows "ends_with c fs (set X) key \<Longrightarrow> P (set X) \<Longrightarrow>
    \<exists>Y key'. boundary_files c fs files key X = Some Y \<and> set X \<subseteq> set Y \<and> set Y \<subseteq> set X \<union> set files \<and> ends_with c fs (set Y) key' \<and> P (set Y) \<and>
      (\<forall>f\<in>set files. \<not> boundary c fs key' f)"
proof (induction "length (filter (\<lambda>f. Compare (InternalKeyComparator c) (fm_smallest (fs f)) key > 0) files)" arbitrary: X key rule: less_induct)
  case less
  note step = FindSmallestBoundaryFile_ok [where fs = fs and files = files and key = key]
  show ?case
  proof (cases "FindSmallestBoundaryFile c fs files key")
    case None
    then show ?thesis using less.prems(1,2) step by (subst boundary_files.simps) auto
  next
    case (Some b)
    then have b: "b \<in> set files" "boundary c fs key b"
      "\<forall>g\<in>set files. boundary c fs key g \<longrightarrow> Compare (InternalKeyComparator c) (fm_smallest (fs b)) (fm_smallest (fs g)) \<le> 0" using step by simp_all
    have bk: "Compare (InternalKeyComparator c) (fm_smallest (fs b)) (fm_largest (fs b)) \<le> 0" using ok b(1) by (simp add: file_ok_def)
    have k: "Compare (InternalKeyComparator c) key (fm_smallest (fs b)) < 0" using b(2) ik.compare_gt_iff by (simp add: boundary_def)
    then have kb: "Compare (InternalKeyComparator c) key (fm_largest (fs b)) < 0" using bk ik.compare_less_le_trans by blast
    then have e: "ends_with c fs (set (X @ [b])) (fm_largest (fs b))" using ends_with_extend [OF less.prems(1), of b] by simp
    have dec: "length (filter (\<lambda>f. Compare (InternalKeyComparator c) (fm_smallest (fs f)) (fm_largest (fs b)) > 0) files)
        < length (filter (\<lambda>f. Compare (InternalKeyComparator c) (fm_smallest (fs f)) key > 0) files)"
    proof (rule length_filter_less [OF _ b(1)])
      show "Compare (InternalKeyComparator c) (fm_smallest (fs f)) key > 0" if "Compare (InternalKeyComparator c) (fm_smallest (fs f)) (fm_largest (fs b)) > 0" for f
        using that kb ik.compare_less_trans unfolding ik.compare_gt_iff by blast
    qed (use k bk in \<open>simp_all add: ik.compare_gt_iff ik.compare_ge_iff not_less\<close>)
    have "P (set (X @ [b]))" using add [OF less.prems(1,2) b] by simp
    from less.hyps [OF dec e this] have
      "\<exists>Y key'. boundary_files c fs files (fm_largest (fs b)) (X @ [b]) = Some Y \<and> set (X @ [b]) \<subseteq> set Y \<and> set Y \<subseteq> set (X @ [b]) \<union> set files \<and>
        ends_with c fs (set Y) key' \<and> P (set Y) \<and> (\<forall>f\<in>set files. \<not> boundary c fs key' f)"
      .
    moreover have "boundary_files c fs files key X = boundary_files c fs files (fm_largest (fs b)) (X @ [b])" using Some by (subst boundary_files.simps) simp
    ultimately show ?thesis using b(1) by auto
  qed
qed

lemma AddBoundaryInputs_Nil: "AddBoundaryInputs c fs files [] = Some []"
  by (simp add: AddBoundaryInputs_def FindLargestKey_def)

text \<open>In a sorted level, what comes out has no gap if what goes in has none, and it is closed.\<close>

lemma sorted_files_cases:
  assumes "files_sorted c fs files" "f \<in> set files" "g \<in> set files"
  shows "f = g \<or> Compare (InternalKeyComparator c) (fm_largest (fs f)) (fm_smallest (fs g)) < 0 \<or> Compare (InternalKeyComparator c) (fm_largest (fs g)) (fm_smallest (fs f)) < 0"
proof -
  obtain i j where ij: "i < length files" "files ! i = f" "j < length files" "files ! j = g" using assms(2,3) by (auto simp: in_set_conv_nth)
  then show ?thesis using files_sortedD(3) [OF assms(1), of i j] files_sortedD(3) [OF assms(1), of j i] by (cases i j rule: linorder_cases) auto
qed

lemma boundary_key:
  "boundary c fs key g \<longleftrightarrow> Compare (InternalKeyComparator c) key (fm_smallest (fs g)) < 0 \<and> Compare c (start_key (fs g)) (ExtractUserKey key) \<le> 0"
  using icmp_user [of key "fm_smallest (fs g)"] compare_ge_iff [of "start_key (fs g)" "ExtractUserKey key"]
  by (auto simp: boundary_def ik.compare_gt_iff)

lemma convex_add:
  assumes s: "files_sorted c fs files" and X: "X \<subseteq> set files" "convex c fs files X" "ends_with c fs X key" and b: "b \<in> set files" "boundary c fs key b"
    "\<forall>g\<in>set files. boundary c fs key g \<longrightarrow> Compare (InternalKeyComparator c) (fm_smallest (fs b)) (fm_smallest (fs g)) \<le> 0"
  shows "convex c fs files (insert b X)"
proof -
  let ?icmp = "Compare (InternalKeyComparator c)"
  obtain m where m: "m \<in> X" "fm_largest (fs m) = key" using X(3) by (auto simp: ends_with_def)
  have inner: "?icmp (fm_smallest (fs g)) (fm_smallest (fs m)) \<le> 0" if g: "g \<in> set files" "?icmp (fm_smallest (fs g)) key \<le> 0" for g
  proof -
    have "\<not> ?icmp (fm_largest (fs m)) (fm_smallest (fs g)) < 0" using g(2) m(2) by (simp add: ik.compare_not_less)
    moreover have "m \<in> set files" "?icmp (fm_smallest (fs g)) (fm_largest (fs g)) \<le> 0" using X(1) m(1) s g(1) by (auto simp: files_sorted_def file_ok_def)
    ultimately show ?thesis using sorted_files_cases [OF s g(1), of m] ik.compare_trans less_imp_le by (metis ik.compare_refl order_refl)
  qed
  have outer: "g = b" if g: "g \<in> set files" "?icmp key (fm_smallest (fs g)) < 0" "?icmp (fm_smallest (fs g)) (fm_smallest (fs b)) \<le> 0" for g
  proof -
    have "Compare c (start_key (fs g)) (ExtractUserKey key) \<le> 0"
      using icmp_user [OF g(3)] b(2) compare_trans unfolding boundary_key by blast
    then have "?icmp (fm_smallest (fs b)) (fm_smallest (fs g)) \<le> 0" using b(3) g(1,2) unfolding boundary_key by blast
    moreover have "?icmp (fm_smallest (fs f)) (fm_largest (fs f)) \<le> 0" if "f \<in> set files" for f using s that by (simp add: files_sorted_def file_ok_def)
    ultimately show ?thesis using sorted_files_cases [OF s g(1) b(1)] g(1,3) b(1) ik.compare_le_less_trans ik.compare_not_less by metis
  qed
  show ?thesis
    unfolding convex_def
  proof (intro ballI impI)
    fix f h g assume a: "f \<in> insert b X" "h \<in> insert b X" "g \<in> set files" "?icmp (fm_smallest (fs f)) (fm_smallest (fs g)) \<le> 0" "?icmp (fm_smallest (fs g)) (fm_smallest (fs h)) \<le> 0"
    have kb: "?icmp key (fm_smallest (fs b)) < 0" using b(2) by (simp add: boundary_key)
    show "g \<in> insert b X"
    proof (cases "?icmp (fm_smallest (fs g)) key \<le> 0")
      case True
      then have "f \<noteq> b" using a(4) kb ik.compare_less_le_trans ik.compare_not_less by blast
      then show ?thesis using a(1,3,4) inner [OF a(3) True] X(2) m(1) unfolding convex_def by blast
    next
      case False
      then have g: "?icmp key (fm_smallest (fs g)) < 0" using ik.compare_not_less by blast
      have "h = b"
      proof (rule ccontr)
        assume "h \<noteq> b"
        then have "h \<in> X" using a(2) by simp
        then have "h \<in> set files" "?icmp (fm_largest (fs h)) key \<le> 0" using X(1,3) by (auto simp: ends_with_def)
        moreover from this(1) have "?icmp (fm_smallest (fs h)) (fm_largest (fs h)) \<le> 0" using s by (simp add: files_sorted_def file_ok_def)
        ultimately have "?icmp (fm_smallest (fs g)) key \<le> 0" using a(5) ik.compare_trans by blast
        then show False using False by simp
      qed
      then show ?thesis using outer [OF a(3) g] a(5) by simp
    qed
  qed
qed

lemma convex_closed:
  assumes s: "files_sorted c fs files" and X: "X \<subseteq> set files" "convex c fs files X" "ends_with c fs X key" and no: "\<forall>f\<in>set files. \<not> boundary c fs key f"
  shows "keys_closed c fs files X"
  unfolding keys_closed_def
proof (intro ballI impI)
  let ?icmp = "Compare (InternalKeyComparator c)"
  fix f g assume a: "f \<in> X" "g \<in> set files" "?icmp (fm_largest (fs f)) (fm_smallest (fs g)) < 0" "Compare c (limit_key (fs f)) (start_key (fs g)) = 0"
  obtain m where m: "m \<in> X" "fm_largest (fs m) = key" using X(3) by (auto simp: ends_with_def)
  have ok: "?icmp (fm_smallest (fs h)) (fm_largest (fs h)) \<le> 0" if "h \<in> set files" for h using s that by (simp add: files_sorted_def file_ok_def)
  have "Compare c (limit_key (fs f)) (ExtractUserKey key) \<le> 0" using X(3) a(1) icmp_user by (simp add: ends_with_def)
  then have "Compare c (start_key (fs g)) (ExtractUserKey key) \<le> 0" using a(4) compare_trans compare_eq_iff by (metis order_refl)
  then have "\<not> ?icmp key (fm_smallest (fs g)) < 0" using no a(2) unfolding boundary_key by blast
  then have "g = m \<or> ?icmp (fm_largest (fs g)) (fm_smallest (fs m)) < 0" using sorted_files_cases [OF s a(2), of m] m X(1) by blast
  then have "?icmp (fm_smallest (fs g)) (fm_smallest (fs m)) \<le> 0" using ok [OF a(2)] ik.compare_trans less_imp_le ik.compare_refl by (metis order_refl)
  moreover have "?icmp (fm_smallest (fs f)) (fm_smallest (fs g)) \<le> 0" using ok [of f] X(1) a(1,3) ik.compare_trans less_imp_le by blast
  ultimately show "g \<in> X" using X(2) a(1,2) m(1) unfolding convex_def by blast
qed

lemma AddBoundaryInputs_sorted:
  assumes s: "files_sorted c fs files" and X: "set X \<subseteq> set files" "convex c fs files (set X)"
  shows "\<exists>Y. AddBoundaryInputs c fs files X = Some Y \<and> set X \<subseteq> set Y \<and> set Y \<subseteq> set files \<and> keys_closed c fs files (set Y)"
proof (cases "X = []")
  case False
  from FindLargestKey_ok [OF this] obtain key where key: "FindLargestKey (InternalKeyComparator c) fs X = Some key" "ends_with c fs (set X) key" by blast
  let ?P = "\<lambda>X. X \<subseteq> set files \<and> convex c fs files X"
  have ok: "\<forall>f\<in>set files. file_ok c (fs f)" using s by (simp add: files_sorted_def)
  have add: "?P (insert b Y)" if "ends_with c fs Y k" "?P Y" "b \<in> set files" "boundary c fs k b"
      "\<forall>g\<in>set files. boundary c fs k g \<longrightarrow> Compare (InternalKeyComparator c) (fm_smallest (fs b)) (fm_smallest (fs g)) \<le> 0" for Y k b
    using convex_add [OF s _ _ that(1,3,4,5)] that(2,3) by simp
  have "\<exists>Y key'. boundary_files c fs files key X = Some Y \<and> set X \<subseteq> set Y \<and> set Y \<subseteq> set X \<union> set files \<and> ends_with c fs (set Y) key' \<and> ?P (set Y) \<and>
      (\<forall>f\<in>set files. \<not> boundary c fs key' f)"
    by (rule boundary_files_ok [where P = ?P]) (fact ok, erule (4) add, fact key(2), use X in simp)
  then obtain Y key' where
    "boundary_files c fs files key X = Some Y" "set X \<subseteq> set Y" "ends_with c fs (set Y) key'" "?P (set Y)" "\<forall>f\<in>set files. \<not> boundary c fs key' f" by blast
  then show ?thesis using convex_closed [OF s] key(1) by (auto simp: AddBoundaryInputs_def)
qed (simp add: AddBoundaryInputs_Nil keys_closed_def)

text \<open>In level 0 a set that is closed under overlaps has no boundary files.\<close>

lemma overlap_closed_keys:
  assumes "\<forall>f\<in>set files. file_ok c (fs f)" "X \<subseteq> set files" "overlap_closed c fs files X"
  shows "keys_closed c fs files X"
proof -
  have "user_overlap c (Some (start_key (fs f))) (Some (limit_key (fs f))) (fs g)" if "f \<in> X" "g \<in> set files" "Compare c (limit_key (fs f)) (start_key (fs g)) = 0" for f g
  proof -
    have "file_ok c (fs f)" "file_ok c (fs g)" using that(1,2) assms(1,2) by auto
    then have "Compare c (start_key (fs f)) (limit_key (fs f)) \<le> 0" "Compare c (start_key (fs g)) (limit_key (fs g)) \<le> 0" by (simp_all add: file_ok_user)
    moreover have "Compare c (limit_key (fs f)) (start_key (fs g)) \<le> 0" "Compare c (start_key (fs g)) (limit_key (fs f)) \<le> 0"
      using that(3) compare_eq_iff [of "limit_key (fs f)" "start_key (fs g)"] by simp_all
    ultimately show ?thesis unfolding user_overlap_iff using compare_trans by blast
  qed
  then show ?thesis using assms(3) unfolding keys_closed_def overlap_closed_def by blast
qed

lemma AddBoundaryInputs_level0:
  assumes ok: "\<forall>f\<in>set files. file_ok c (fs f)" and X: "set X \<subseteq> set files" "overlap_closed c fs files (set X)"
  shows "AddBoundaryInputs c fs files X = Some X"
proof (cases "X = []")
  case False
  from FindLargestKey_ok [OF this] obtain key where key: "FindLargestKey (InternalKeyComparator c) fs X = Some key" "ends_with c fs (set X) key" by blast
  obtain m where m: "m \<in> set X" "fm_largest (fs m) = key" using key(2) by (auto simp: ends_with_def)
  have "\<not> boundary c fs key b" if b: "b \<in> set files" for b
  proof
    assume bd: "boundary c fs key b"
    then have lt: "Compare (InternalKeyComparator c) (fm_largest (fs m)) (fm_smallest (fs b)) < 0" and eq: "Compare c (limit_key (fs m)) (start_key (fs b)) = 0"
      using m(2) compare_eq_iff by (auto simp: boundary_def ik.compare_gt_iff)
    then have "b \<in> set X" using overlap_closed_keys [OF ok X] m(1) b unfolding keys_closed_def by blast
    then have "Compare (InternalKeyComparator c) (fm_largest (fs b)) key \<le> 0" using key(2) by (simp add: ends_with_def)
    moreover have "Compare (InternalKeyComparator c) (fm_smallest (fs b)) (fm_largest (fs b)) \<le> 0" using ok b by (simp add: file_ok_def)
    ultimately show False using lt m(2) ik.compare_trans ik.compare_not_less by blast
  qed
  then have "FindSmallestBoundaryFile c fs files key = None"
    using FindSmallestBoundaryFile_ok [where fs = fs and files = files and key = key] by (auto split: option.splits)
  then show ?thesis using key(1) by (subst AddBoundaryInputs_def, subst boundary_files.simps) (simp add: boundary_files.simps)
qed (simp add: AddBoundaryInputs_Nil)

section \<open>The inputs of a compaction\<close>

lemma GetRange_ok:
  assumes "f \<in> set files" "GetRange (InternalKeyComparator c) fs files = (lo, hi)"
  shows "Compare (InternalKeyComparator c) lo (fm_smallest (fs f)) \<le> 0" "Compare (InternalKeyComparator c) (fm_largest (fs f)) hi \<le> 0"
proof -
  let ?icmp = "Compare (InternalKeyComparator c)"
  have range: "?icmp lo a \<le> 0 \<and> ?icmp b hi \<le> 0 \<and> (\<forall>f\<in>set files. ?icmp lo (fm_smallest (fs f)) \<le> 0 \<and> ?icmp (fm_largest (fs f)) hi \<le> 0)"
    if "get_range (InternalKeyComparator c) fs files a b = (lo, hi)" for files a b
    using that
  proof (induction files arbitrary: a b)
    case (Cons g files)
    let ?a = "if ?icmp (fm_smallest (fs g)) a < 0 then fm_smallest (fs g) else a" and ?b = "if ?icmp (fm_largest (fs g)) b > 0 then fm_largest (fs g) else b"
    have ih: "?icmp lo ?a \<le> 0" "?icmp ?b hi \<le> 0" "\<forall>f\<in>set files. ?icmp lo (fm_smallest (fs f)) \<le> 0 \<and> ?icmp (fm_largest (fs f)) hi \<le> 0"
      using Cons.IH [of ?a ?b] Cons.prems by simp_all
    have "?icmp ?a a \<le> 0" "?icmp ?a (fm_smallest (fs g)) \<le> 0" "?icmp b ?b \<le> 0" "?icmp (fm_largest (fs g)) ?b \<le> 0"
      by (auto simp: ik.compare_gt_iff ik.compare_not_less [symmetric] dest: ik.compare_less_trans)
    then show ?case using ih ik.compare_trans by (metis set_ConsD)
  qed simp
  have "?icmp lo (fm_smallest (fs f)) \<le> 0 \<and> ?icmp (fm_largest (fs f)) hi \<le> 0"
    using assms range by (cases files) (fastforce simp: GetRange_def)+
  then show "?icmp lo (fm_smallest (fs f)) \<le> 0" "?icmp (fm_largest (fs f)) hi \<le> 0" by simp_all
qed

lemma range_overlap:
  assumes "f \<in> set files" "GetRange (InternalKeyComparator c) fs files = (lo, hi)"
    "user_overlap c (Some (start_key (fs f))) (Some (limit_key (fs f))) (fs g)"
  shows "user_overlap c (Some (ExtractUserKey lo)) (Some (ExtractUserKey hi)) (fs g)"
  using assms(3) icmp_user [OF GetRange_ok(1) [OF assms(1,2)]] icmp_user [OF GetRange_ok(2) [OF assms(1,2)]] compare_trans
  unfolding user_overlap_iff by blast

text \<open>What the files of a level must satisfy before the boundary files are added.\<close>

definition gapless :: "file_store \<Rightarrow> Version \<Rightarrow> nat \<Rightarrow> file_ref list \<Rightarrow> bool" where
  "gapless fs v level X \<longleftrightarrow> set X \<subseteq> set (v_files v ! level) \<and>
     (if level = 0 then overlap_closed c fs (v_files v ! level) (set X) else convex c fs (v_files v ! level) (set X))"

lemma convex_overlap:
  assumes s: "files_sorted c fs files"
  shows "convex c fs files {f \<in> set files. user_overlap c lo hi (fs f)}"
  unfolding convex_def
proof (intro ballI impI)
  let ?icmp = "Compare (InternalKeyComparator c)"
  fix f h g assume a: "f \<in> {f \<in> set files. user_overlap c lo hi (fs f)}" "h \<in> {f \<in> set files. user_overlap c lo hi (fs f)}" "g \<in> set files"
    "?icmp (fm_smallest (fs f)) (fm_smallest (fs g)) \<le> 0" "?icmp (fm_smallest (fs g)) (fm_smallest (fs h)) \<le> 0"
  have ok: "?icmp (fm_smallest (fs f)) (fm_largest (fs f)) \<le> 0" "?icmp (fm_smallest (fs g)) (fm_largest (fs g)) \<le> 0"
    using s a(1,3) by (simp_all add: files_sorted_def file_ok_def)
  have "\<not> ?icmp (fm_largest (fs g)) (fm_smallest (fs f)) < 0"
    using a(4) ok(2) ik.compare_trans ik.compare_not_less by blast
  then have "f = g \<or> ?icmp (fm_largest (fs f)) (fm_smallest (fs g)) < 0" using sorted_files_cases [OF s, of f g] a(1,3) by blast
  then have "?icmp (fm_largest (fs f)) (fm_largest (fs g)) \<le> 0" using ok(2) ik.compare_trans less_imp_le ik.compare_refl by (metis order_refl)
  then have "Compare c (limit_key (fs f)) (limit_key (fs g)) \<le> 0" "Compare c (start_key (fs g)) (start_key (fs h)) \<le> 0" using icmp_user a(5) by blast+
  then show "g \<in> {f \<in> set files. user_overlap c lo hi (fs f)}" using a(1,2,3) compare_trans unfolding user_overlap_iff by blast
qed

lemma GetOverlappingInputs_gapless:
  assumes "levels_ok c fs v" "level < kNumLevels"
  shows "\<exists>X. GetOverlappingInputs c fs v level lo hi = Some X \<and> gapless fs v level X \<and> (\<exists>P. X = filter P (v_files v ! level)) \<and>
    (\<forall>g\<in>set (v_files v ! level). user_overlap c (map_option ExtractUserKey lo) (map_option ExtractUserKey hi) (fs g) \<longrightarrow> g \<in> set X)"
proof (cases "level = 0")
  case True
  have "overlap_closed c fs (v_files v ! 0) {f \<in> set (v_files v ! 0). f \<in> overlap_closure c fs (v_files v ! 0) lo' hi'}" for lo' hi'
    unfolding overlap_closed_def by (auto intro: overlap_closure.link)
  then show ?thesis using True GetOverlappingInputs_eq [OF assms, of lo hi] by (auto simp: gapless_def intro: overlap_closure.start)
next
  case False
  then have "files_sorted c fs (v_files v ! level)" using levels_okD(3) [OF assms(1), of level] assms(2) by simp
  then show ?thesis using False GetOverlappingInputs_eq [OF assms, of lo hi] convex_overlap by (auto simp: gapless_def)
qed

lemma AddBoundaryInputs_ok:
  assumes "levels_ok c fs v" "level < kNumLevels" "gapless fs v level X"
  shows "\<exists>Y. AddBoundaryInputs c fs (v_files v ! level) X = Some Y \<and> set X \<subseteq> set Y \<and> set Y \<subseteq> set (v_files v ! level) \<and>
    keys_closed c fs (v_files v ! level) (set Y) \<and> (level = 0 \<longrightarrow> overlap_closed c fs (v_files v ! level) (set Y))"
proof (cases "level = 0")
  case True
  then show ?thesis using assms AddBoundaryInputs_level0 [of "v_files v ! 0" fs X] overlap_closed_keys levels_okD(2) [OF assms(1)] by (simp add: gapless_def)
next
  case False
  then have "files_sorted c fs (v_files v ! level)" using levels_okD(3) [OF assms(1), of level] assms(2) by simp
  from AddBoundaryInputs_sorted [OF this, of X] show ?thesis using False assms(3) by (auto simp: gapless_def)
qed

end

text \<open>
  The inputs of a compaction: files of the level and of the next one; together with a file its overlapping files in the next level,
  in level 0 the overlapping files of that level, and in both levels the files in which its last key goes on.
\<close>

definition inputs_ok :: "Comparator \<Rightarrow> file_store \<Rightarrow> Version \<Rightarrow> nat \<Rightarrow> file_ref list \<Rightarrow> file_ref list \<Rightarrow> bool" where
  "inputs_ok c fs v level X Y \<longleftrightarrow> X \<noteq> [] \<and> set X \<subseteq> set (v_files v ! level) \<and> set Y \<subseteq> set (v_files v ! (level + 1)) \<and>
     keys_closed c fs (v_files v ! level) (set X) \<and> (level = 0 \<longrightarrow> overlap_closed c fs (v_files v ! level) (set X)) \<and>
     keys_closed c fs (v_files v ! (level + 1)) (set Y) \<and>
     (\<forall>f\<in>set X. \<forall>g\<in>set (v_files v ! (level + 1)). user_overlap c (Some (start_key (fs f))) (Some (limit_key (fs f))) (fs g) \<longrightarrow> g \<in> set Y)"

context separating_comparator
begin

lemma other_inputs_ok:
  assumes v: "levels_ok c fs v" "level + 1 < kNumLevels" and X: "X \<noteq> []" "set X \<subseteq> set (v_files v ! level)" "keys_closed c fs (v_files v ! level) (set X)"
    "level = 0 \<longrightarrow> overlap_closed c fs (v_files v ! level) (set X)"
  shows "\<exists>Y. other_inputs c fs v level X = Some Y \<and> inputs_ok c fs v level X Y"
proof -
  obtain lo hi where r: "GetRange (InternalKeyComparator c) fs X = (lo, hi)" by (cases "GetRange (InternalKeyComparator c) fs X")
  from GetOverlappingInputs_gapless [OF v, of "Some lo" "Some hi"] obtain Z where Z: "GetOverlappingInputs c fs v (level + 1) (Some lo) (Some hi) = Some Z"
    "gapless fs v (level + 1) Z" "\<forall>g\<in>set (v_files v ! (level + 1)). user_overlap c (Some (ExtractUserKey lo)) (Some (ExtractUserKey hi)) (fs g) \<longrightarrow> g \<in> set Z" by auto
  from AddBoundaryInputs_ok [OF v Z(2)] obtain Y where Y: "AddBoundaryInputs c fs (v_files v ! (level + 1)) Z = Some Y" "set Z \<subseteq> set Y"
    "set Y \<subseteq> set (v_files v ! (level + 1))" "keys_closed c fs (v_files v ! (level + 1)) (set Y)" by blast
  have "g \<in> set Y" if "f \<in> set X" "g \<in> set (v_files v ! (level + 1))" "user_overlap c (Some (start_key (fs f))) (Some (limit_key (fs f))) (fs g)" for f g
    using range_overlap [OF that(1) r that(3)] Z(3) Y(2) that(2) by blast
  then have "inputs_ok c fs v level X Y" using X Y(3,4) unfolding inputs_ok_def by blast
  then show ?thesis using r Z(1) Y(1) by (simp add: other_inputs_def)
qed

lemma expand_inputs_ok:
  assumes v: "levels_ok c fs v" "level + 1 < kNumLevels" and XY: "inputs_ok c fs v level X Y"
  shows "\<exists>X' Y'. expand_inputs c max_file_size fs v level X Y = Some (X', Y') \<and> inputs_ok c fs v level X' Y' \<and> set X \<subseteq> set X'"
proof -
  obtain lo hi where r: "GetRange (InternalKeyComparator c) fs (X @ Y) = (lo, hi)" by (cases "GetRange (InternalKeyComparator c) fs (X @ Y)")
  have lv: "level < kNumLevels" using v(2) by simp
  from GetOverlappingInputs_gapless [OF v(1) lv, of "Some lo" "Some hi"] obtain Z where Z: "GetOverlappingInputs c fs v level (Some lo) (Some hi) = Some Z"
    "gapless fs v level Z" "\<forall>g\<in>set (v_files v ! level). user_overlap c (Some (ExtractUserKey lo)) (Some (ExtractUserKey hi)) (fs g) \<longrightarrow> g \<in> set Z" by auto
  from AddBoundaryInputs_ok [OF v(1) lv Z(2)] obtain X' where X': "AddBoundaryInputs c fs (v_files v ! level) Z = Some X'" "set Z \<subseteq> set X'"
    "set X' \<subseteq> set (v_files v ! level)" "keys_closed c fs (v_files v ! level) (set X')" "level = 0 \<longrightarrow> overlap_closed c fs (v_files v ! level) (set X')" by blast
  have "f \<in> set X'" if "f \<in> set X" for f
  proof -
    have f: "f \<in> set (v_files v ! level)" using XY that by (auto simp: inputs_ok_def)
    then have "file_ok c (fs f)" using levels_okD(2) [OF v(1)] levels_okD(3) [OF v(1), of level] lv by (cases "level = 0") (simp_all add: files_sorted_def)
    then have "user_overlap c (Some (start_key (fs f))) (Some (limit_key (fs f))) (fs f)" using file_ok_user by (simp add: user_overlap_iff)
    then show ?thesis using range_overlap [OF _ r] Z(3) X'(2) f that by auto
  qed
  then have sub: "set X \<subseteq> set X'" by blast
  then have "X' \<noteq> []" using XY by (auto simp: inputs_ok_def)
  from other_inputs_ok [OF v this X'(3,4,5)] obtain Y' where "other_inputs c fs v level X' = Some Y'" "inputs_ok c fs v level X' Y'" by blast
  then show ?thesis using r Z(1) X'(1) XY sub by (auto simp: expand_inputs_def GetRange2_def)
qed

lemma SetupOtherInputs_ok:
  assumes ucmp: "vs_ucmp vs = c" and v: "levels_ok c (vs_files vs) (current_version vs)" "c_level co + 1 < kNumLevels"
    and X: "c_inputs0 co \<noteq> []" "gapless (vs_files vs) (current_version vs) (c_level co) (c_inputs0 co)"
  shows "\<exists>co' vs'. SetupOtherInputs co vs = Some (co', vs') \<and> c_level co' = c_level co \<and> set (c_inputs0 co) \<subseteq> set (c_inputs0 co') \<and>
    inputs_ok c (vs_files vs) (current_version vs) (c_level co) (c_inputs0 co') (c_inputs1 co') \<and> c_input_version co' = c_input_version co \<and>
    vs_version vs' = vs_version vs \<and> vs_current vs' = vs_current vs \<and> vs_files vs' = vs_files vs"
proof -
  let ?v = "current_version vs" and ?fs = "vs_files vs" and ?level = "c_level co"
  have lv: "?level < kNumLevels" using v(2) by simp
  obtain X0 where X0: "AddBoundaryInputs c ?fs (v_files ?v ! ?level) (c_inputs0 co) = Some X0"
    "set (c_inputs0 co) \<subseteq> set X0" "set X0 \<subseteq> set (v_files ?v ! ?level)" "keys_closed c ?fs (v_files ?v ! ?level) (set X0)"
    "?level = 0 \<longrightarrow> overlap_closed c ?fs (v_files ?v ! ?level) (set X0)"
    using AddBoundaryInputs_ok [OF v(1) lv X(2)] by - (elim exE conjE, rule that)
  have "X0 \<noteq> []" using X(1) X0(2) by auto
  from other_inputs_ok [OF v this X0(3,4,5)] obtain Y0 where Y0: "other_inputs c ?fs ?v ?level X0 = Some Y0" "inputs_ok c ?fs ?v ?level X0 Y0" by blast
  from expand_inputs_ok [OF v Y0(2), of "vs_max_file_size vs"] obtain X1 Y1 where
    1: "expand_inputs c (vs_max_file_size vs) ?fs ?v ?level X0 Y0 = Some (X1, Y1)" "inputs_ok c ?fs ?v ?level X1 Y1" "set X0 \<subseteq> set X1" by blast
  obtain lo hi where r: "GetRange2 (InternalKeyComparator c) ?fs X1 Y1 = (lo, hi)" by (cases "GetRange2 (InternalKeyComparator c) ?fs X1 Y1")
  have "\<exists>gp. GetOverlappingInputs c ?fs ?v (?level + 2) (Some lo) (Some hi) = Some gp" if "?level + 2 < kNumLevels"
    using GetOverlappingInputs_gapless [OF v(1) that, of "Some lo" "Some hi"] by blast
  then obtain gp where "(if ?level + 2 < kNumLevels then GetOverlappingInputs c ?fs ?v (?level + 2) (Some lo) (Some hi) else Some (c_grandparents co)) = Some gp"
    by (cases "?level + 2 < kNumLevels") auto
  then show ?thesis using v(2) ucmp X0(1,2) Y0(1) 1 r by (auto simp: SetupOtherInputs_def Let_def)
qed

end

section \<open>Picking a compaction\<close>

text \<open>What a version says about the next compaction: a level with files in it, or a file of a level, but not of the last one.\<close>

definition compaction_ok :: "Version \<Rightarrow> bool" where
  "compaction_ok v \<longleftrightarrow>
     (v_compaction_score v \<ge> 1 \<longrightarrow> (\<exists>l. v_compaction_level v = int l \<and> l + 1 < kNumLevels \<and> v_files v ! l \<noteq> [])) \<and>
     (\<forall>f. v_file_to_compact v = Some f \<longrightarrow> (\<exists>l. v_file_to_compact_level v = int l \<and> l + 1 < kNumLevels \<and> f \<in> set (v_files v ! l)))"

lemma Finalize_ok:
  assumes "v_file_to_compact v = None"
  shows "compaction_ok (Finalize fs v)"
proof -
  let ?step = "\<lambda>level (best_level, best_score). let score = level_score fs v level
      in if score > best_score then (int level, score) else (best_level, best_score)"
  have "case fold ?step [0..<n] (-1, -1) of (l, score) \<Rightarrow> score < 1 \<or> (\<exists>k<n. l = int k \<and> score = level_score fs v k)" for n
  proof (induction n)
    case (Suc n)
    then show ?case by (auto simp: Let_def less_Suc_eq split: prod.splits)
  qed simp
  from this [of "kNumLevels - 1"] obtain l score where
    f: "fold ?step [0..<kNumLevels - 1] (-1, -1) = (l, score)" "score < 1 \<or> (\<exists>k<kNumLevels - 1. l = int k \<and> score = level_score fs v k)" by (auto split: prod.splits)
  have "v_files v ! k \<noteq> []" if "1 \<le> level_score fs v k" for k using that by (auto simp: level_score_def TotalFileSize_def split: if_splits)
  then show ?thesis using f assms by (auto simp: compaction_ok_def Finalize_def)
qed

text \<open>The files of a lookup come from level to level; a file that is not the last one is not in the last level.\<close>

definition rising :: "(nat \<times> file_ref) list \<Rightarrow> bool" where
  "rising fls \<longleftrightarrow> sorted_wrt (\<lambda>a b. fst a = 0 \<or> fst a < fst b) fls"

lemma overlapping_files_rising: "rising (overlapping_files c fs v u k)"
proof -
  have "sorted_wrt (\<lambda>a b. fst a = 0 \<or> fst a < fst b) (concat (map (level_file c fs v u k) [m..<n]))" for m n
  proof (induction n)
    case (Suc n)
    have "fst a \<in> {m..<n}" if "a \<in> set (concat (map (level_file c fs v u k) [m..<n]))" for a
      using that by (auto simp: level_file_def Let_def split: if_splits)
    then show ?case using Suc by (auto simp: sorted_wrt_append level_file_def Let_def)
  qed simp
  moreover have "sorted_wrt (\<lambda>a b. fst a = 0 \<or> fst a < fst b) (map (Pair (0 :: nat)) fl @ xs)" if "sorted_wrt (\<lambda>a b. fst a = 0 \<or> fst a < fst b) xs" for fl :: "file_ref list" and xs
    using that by (induction fl) simp_all
  ultimately show ?thesis unfolding rising_def overlapping_files_def by blast
qed

definition seek_ok :: "Version \<Rightarrow> GetStats \<Rightarrow> bool" where
  "seek_ok v stats \<longleftrightarrow> (\<forall>f. gs_seek_file stats = Some f \<longrightarrow> (\<exists>l. gs_seek_file_level stats = int l \<and> l + 1 < kNumLevels \<and> f \<in> set (v_files v ! l)))"

definition before_all :: "Version \<Rightarrow> file_ref option \<Rightarrow> int \<Rightarrow> (nat \<times> file_ref) list \<Rightarrow> bool" where
  "before_all v p level fls \<longleftrightarrow> (\<forall>f. p = Some f \<longrightarrow> (\<exists>l. level = int l \<and> f \<in> set (v_files v ! l) \<and> (\<forall>b\<in>set fls. l = 0 \<or> l < fst b)))"

lemma Match_stats:
  "st_stats (snd (Match tc_get c k st level f)) = st_stats (charge_seek level f st)"
  "st_last_file_read (snd (Match tc_get c k st level f)) = Some f" "st_last_file_read_level (snd (Match tc_get c k st level f)) = int level"
  by (auto simp: Match_def Let_def charge_seek_def split: prod.split SaverState.split)

lemma visit_seek_ok:
  assumes "rising fls" "\<forall>(l, f)\<in>set fls. l < kNumLevels \<and> f \<in> set (v_files v ! l)" "seek_ok v (st_stats st)"
    "before_all v (st_last_file_read st) (st_last_file_read_level st) fls"
  shows "seek_ok v (st_stats (visit_files (Match tc_get c k) fls st))"
  using assms
proof (induction fls arbitrary: st)
  case (Cons lf fls)
  obtain level f where lf: "lf = (level, f)" by (cases lf)
  obtain b st' where m: "Match tc_get c k st level f = (b, st')" by (cases "Match tc_get c k st level f")
  have stats: "st_stats st' = st_stats (charge_seek level f st)" "st_last_file_read st' = Some f" "st_last_file_read_level st' = int level"
    using Match_stats [of tc_get c k st level f] m by simp_all
  have "seek_ok v (st_stats (charge_seek level f st))"
    using Cons.prems(2-4) lf by (fastforce simp: charge_seek_def seek_ok_def before_all_def Let_def kNumLevels_def)
  moreover have "before_all v (Some f) (int level) fls" using Cons.prems(1,2) lf by (auto simp: before_all_def rising_def)
  ultimately have "seek_ok v (st_stats st')" "seek_ok v (st_stats (visit_files (Match tc_get c k) fls st'))"
    using Cons.IH [of st'] Cons.prems(1,2) stats by (simp_all add: rising_def)
  then show ?case using lf m by (cases b) simp_all
qed simp

lemma Version_Get_seek:
  assumes "Version_Get tc_get c k val fs tc v = (s, x, stats, fs', tc')"
  shows "seek_ok v stats"
proof -
  let ?fls = "overlapping_files c fs v (user_key k) (internal_key k)"
  let ?st = "\<lparr>st_saver = \<lparr>sv_state = kNotFoundState, sv_user_key = user_key k, sv_value = val\<rparr>,
                st_stats = \<lparr>gs_seek_file = None, gs_seek_file_level = -1\<rparr>, st_last_file_read = None,
                st_last_file_read_level = -1, st_status = OK, st_found = False, st_files = fs, st_table_cache = tc\<rparr>"
  have "\<forall>(l, f)\<in>set ?fls. l < kNumLevels \<and> f \<in> set (v_files v ! l)" using overlapping_files_member by blast
  then have "seek_ok v (st_stats (visit_files (Match tc_get c (internal_key k)) ?fls ?st))"
    by (intro visit_seek_ok overlapping_files_rising) (simp_all add: seek_ok_def before_all_def)
  moreover have "stats = st_stats (visit_files (Match tc_get c (internal_key k)) ?fls ?st)"
    using assms unfolding Version_Get_def ForEachOverlapping_def Let_def prod.inject by blast
  ultimately show ?thesis by simp
qed

lemma visit_sample:
  assumes "rising fls" "\<forall>(l, f)\<in>set fls. l < kNumLevels \<and> f \<in> set (v_files v ! l)"
    "visit_files sample_match fls (\<lparr>gs_seek_file = None, gs_seek_file_level = -1\<rparr>, 0) = (stats, n)" "2 \<le> n"
  shows "seek_ok v stats"
proof -
  obtain l f fls' where f: "fls = (l, f) # fls'" using assms(3,4) by (cases fls) auto
  then obtain l' f' fls'' where "fls' = (l', f') # fls''" using assms(3,4) by (cases fls') (auto simp: sample_match_def)
  then show ?thesis using assms f by (auto simp: sample_match_def seek_ok_def rising_def kNumLevels_def)
qed

text \<open>
  The life of a version: it is finalized, then lookups and read samples update its statistics. A lookup runs without
  the lock, so its statistics may be recorded after others; the counters of the files and the reference count change at any time.
\<close>

inductive version_use :: "Comparator \<Rightarrow> file_store \<Rightarrow> Version \<Rightarrow> file_store \<Rightarrow> Version \<Rightarrow> bool" for c fs0 v0 where
  finalized: "version_use c fs0 v0 fs0 (Finalize fs0 v0)"
| got: "version_use c fs0 v0 fs v \<Longrightarrow> Version_Get tc_get c k val fs1 (tc :: TableCache) v1 = (s, x, stats, fs2, tc2) \<Longrightarrow> v_files v1 = v_files v \<Longrightarrow>
    UpdateStats stats fs v = (b, fs', v') \<Longrightarrow> version_use c fs0 v0 fs' v'"
| sampled: "version_use c fs0 v0 fs v \<Longrightarrow> RecordReadSample c key fs v = (b, fs', v') \<Longrightarrow> version_use c fs0 v0 fs' v'"
| counted: "version_use c fs0 v0 fs v \<Longrightarrow> version_use c fs0 v0 (fs(f := (fs f)\<lparr>fm_refs := i, fm_point_query_time := j, fm_point_query_time_all := k\<rparr>)) v"
| referenced: "version_use c fs0 v0 fs v \<Longrightarrow> version_use c fs0 v0 fs (v\<lparr>v_refs := n\<rparr>)"

lemma UpdateStats_ok:
  assumes "compaction_ok v" "seek_ok v stats" "UpdateStats stats fs v = (b, fs', v')"
  shows "compaction_ok v'" "v_compaction_score v' = v_compaction_score v"
proof -
  have "compaction_ok v' \<and> v_compaction_score v' = v_compaction_score v"
    using assms by (auto simp: UpdateStats_def compaction_ok_def seek_ok_def Let_def split: option.splits if_splits)
  then show "compaction_ok v'" "v_compaction_score v' = v_compaction_score v" by simp_all
qed

lemma version_use_ok:
  assumes "version_use c fs0 v0 fs v" "v_file_to_compact v0 = None"
  shows "compaction_ok v \<and> v_compaction_score v = v_compaction_score (Finalize fs0 v0)"
  using assms(1)
proof induction
  case finalized
  then show ?case using Finalize_ok [OF assms(2)] by simp
next
  case (got fs v tc_get k val fs1 tc v1 s x stats fs2 tc2 b fs' v')
  then have "seek_ok v stats" using Version_Get_seek [OF got.hyps(2)] by (simp add: seek_ok_def)
  then show ?case using UpdateStats_ok [OF _ _ got.hyps(4)] got.IH by simp
next
  case (sampled fs v key b fs' v')
  show ?case
  proof (cases "(fs', v') = (fs, v)")
    case False
    then obtain k stats n where k: "ParseInternalKey key = Some k" "2 \<le> n" "UpdateStats stats fs v = (b, fs', v')"
      "visit_files sample_match (overlapping_files c fs v (ik_user_key k) key) (\<lparr>gs_seek_file = None, gs_seek_file_level = -1\<rparr>, 0) = (stats, n)"
      using sampled.hyps(2) by (auto simp: RecordReadSample_def ForEachOverlapping_def split: option.splits prod.splits if_splits)
    have "\<forall>(l, f)\<in>set (overlapping_files c fs v (ik_user_key k) key). l < kNumLevels \<and> f \<in> set (v_files v ! l)" using overlapping_files_member by blast
    from visit_sample [OF overlapping_files_rising this k(4,2)] show ?thesis using UpdateStats_ok [OF _ _ k(3)] sampled.IH by simp
  qed (use sampled.IH in simp)
qed (simp_all add: compaction_ok_def)

lemma Finalize_score:
  assumes "l < kNumLevels - 1"
  shows "level_score fs v l \<le> v_compaction_score (Finalize fs v)"
proof -
  let ?step = "\<lambda>level (best_level, best_score). let score = level_score fs v level
      in if score > best_score then (int level, score) else (best_level, best_score)"
  have "\<forall>l<n. level_score fs v l \<le> snd (fold ?step [0..<n] (-1, -1))" for n
    by (induction n) (auto simp: Let_def less_Suc_eq split_beta)
  then show ?thesis using assms by (simp add: Finalize_def split_beta)
qed

context separating_comparator
begin

lemma gapless_single:
  assumes "levels_ok c fs v" "1 \<le> level" "level < kNumLevels" "f \<in> set (v_files v ! level)"
  shows "gapless fs v level [f]"
proof -
  have s: "files_sorted c fs (v_files v ! level)" using levels_okD(3) assms(1-3) .
  have ok: "Compare (InternalKeyComparator c) (fm_smallest (fs g)) (fm_largest (fs g)) \<le> 0" if "g \<in> set (v_files v ! level)" for g
    using s that by (simp add: files_sorted_def file_ok_def)
  have "g = f" if g: "g \<in> set (v_files v ! level)" "Compare (InternalKeyComparator c) (fm_smallest (fs f)) (fm_smallest (fs g)) \<le> 0"
    "Compare (InternalKeyComparator c) (fm_smallest (fs g)) (fm_smallest (fs f)) \<le> 0" for g
    using sorted_files_cases [OF s g(1) assms(4)] g ok [OF g(1)] ok [OF assms(4)] ik.compare_le_less_trans ik.compare_not_less by metis
  then show ?thesis using assms(2,4) by (auto simp: gapless_def convex_def)
qed

lemma current_version_Ref:
  "v_files (current_version (Version_Ref r vs)) = v_files (current_version vs)" "vs_files (Version_Ref r vs) = vs_files vs" "vs_ucmp (Version_Ref r vs) = vs_ucmp vs"
  "vs_current (Version_Ref r vs) = vs_current vs" "v_refs (vs_version (Version_Ref r vs) r) = v_refs (vs_version vs r) + 1"
  by (simp_all add: Version_Ref_def current_version_def)

lemma inputs_same_files:
  assumes "v_files v = v_files v'"
  shows "levels_ok c fs v = levels_ok c fs v'" "gapless fs v level X = gapless fs v' level X" "inputs_ok c fs v level X Y = inputs_ok c fs v' level X Y"
    "GetOverlappingInputs c fs v level lo hi = GetOverlappingInputs c fs v' level lo hi"
  by (simp_all add: levels_ok_def gapless_def inputs_ok_def GetOverlappingInputs_def assms)

text \<open>A compaction that is started with files without a gap gets its other inputs.\<close>

lemma started_ok:
  assumes vs: "vs_ucmp vs = c" "vs_current vs = Some r" "levels_ok c (vs_files vs) (current_version vs)" and level: "level + 1 < kNumLevels"
    and X: "X \<noteq> []" "gapless (vs_files vs) (current_version vs) level X" and start: "start_compaction level X0 vs = (co, vs1)"
  shows "\<exists>co' vs'. SetupOtherInputs (co\<lparr>c_inputs0 := X\<rparr>) vs1 = Some (co', vs') \<and> c_level co' = level \<and> set X \<subseteq> set (c_inputs0 co') \<and>
    inputs_ok c (vs_files vs) (current_version vs) level (c_inputs0 co') (c_inputs1 co') \<and> c_input_version co' = Some r \<and>
    v_refs (vs_version vs' r) = v_refs (vs_version vs r) + 1"
proof -
  have vs1: "vs1 = Version_Ref r vs" "c_level co = level" "c_input_version co = Some r"
    using start vs(2) by (auto simp: start_compaction_def Compaction_new_def)
  note same = inputs_same_files [OF current_version_Ref(1) [of r vs]]
  let ?co = "co\<lparr>c_inputs0 := X\<rparr>"
  have "\<exists>co' vs'. SetupOtherInputs ?co vs1 = Some (co', vs') \<and> c_level co' = c_level ?co \<and> set (c_inputs0 ?co) \<subseteq> set (c_inputs0 co') \<and>
    inputs_ok c (vs_files vs1) (current_version vs1) (c_level ?co) (c_inputs0 co') (c_inputs1 co') \<and> c_input_version co' = c_input_version ?co \<and>
    vs_version vs' = vs_version vs1 \<and> vs_current vs' = vs_current vs1 \<and> vs_files vs' = vs_files vs1"
    using vs level X by (intro SetupOtherInputs_ok) (simp_all add: vs1 current_version_Ref same)
  then show ?thesis by (auto simp: vs1 current_version_Ref same)
qed

lemma PickCompaction_ok:
  assumes vs: "vs_ucmp vs = c" "vs_current vs = Some r" "levels_ok c (vs_files vs) (current_version vs)" and ok: "compaction_ok (current_version vs)"
    and need: "NeedsCompaction (current_version vs)"
  shows "\<exists>co vs'. PickCompaction vs = Some (Some co, vs') \<and> c_level co + 1 < kNumLevels \<and>
    inputs_ok c (vs_files vs) (current_version vs) (c_level co) (c_inputs0 co) (c_inputs1 co) \<and>
    (v_compaction_score (current_version vs) < 1 \<longrightarrow> the (v_file_to_compact (current_version vs)) \<in> set (c_inputs0 co)) \<and>
    c_input_version co = Some r \<and> v_refs (vs_version vs' r) = v_refs (vs_version vs r) + 1"
proof -
  let ?v = "current_version vs" and ?fs = "vs_files vs"
  let ?size = "v_compaction_score ?v \<ge> 1"
  define level where "level = nat (if ?size then v_compaction_level ?v else v_file_to_compact_level ?v)"
  define p where "p = (if ?size then pick_file c ?fs (v_files ?v ! level) (vs_compact_pointer vs ! level) else v_file_to_compact ?v)"
  have lv: "level + 1 < kNumLevels" using ok need by (auto simp: level_def compaction_ok_def NeedsCompaction_def not_le)
  have "\<exists>f. p = Some f \<and> f \<in> set (v_files ?v ! level)"
  proof (cases ?size)
    case True
    then have "v_files ?v ! level \<noteq> []" using ok by (auto simp: level_def compaction_ok_def)
    moreover have "g \<in> set files" if "find P files = Some g" for P g and files :: "file_ref list" using that by (auto simp: find_Some_iff)
    ultimately show ?thesis using True by (auto simp: p_def pick_file_def split: option.split list.split)
  next
    case False
    then show ?thesis using ok need by (auto simp: p_def level_def compaction_ok_def NeedsCompaction_def)
  qed
  then obtain f where f: "p = Some f" "f \<in> set (v_files ?v ! level)" by blast
  obtain co vs1 where start: "start_compaction level [f] vs = (co, vs1)" by (cases "start_compaction level [f] vs")
  define q where "q = (if level = 0 then let (smallest, largest) = GetRange (InternalKeyComparator c) ?fs [f]
      in GetOverlappingInputs c ?fs ?v 0 (Some smallest) (Some largest) else Some [f])"
  have "\<exists>X. q = Some X \<and> f \<in> set X \<and> gapless ?fs ?v level X"
  proof (cases "level = 0")
    case True
    have "file_ok c (?fs f)" using levels_okD(2) [OF vs(3)] f(2) True by simp
    then have "user_overlap c (Some (start_key (?fs f))) (Some (limit_key (?fs f))) (?fs f)" using file_ok_user by (simp add: user_overlap_iff)
    then show ?thesis using GetOverlappingInputs_gapless [OF vs(3), of 0 "Some (fm_smallest (?fs f))" "Some (fm_largest (?fs f))"] f(2) True
      by (auto simp: q_def GetRange_def kNumLevels_def)
  next
    case False
    then show ?thesis using gapless_single [OF vs(3) _ _ f(2)] lv by (simp add: q_def)
  qed
  then obtain X where X: "q = Some X" "f \<in> set X" "gapless ?fs ?v level X" by blast
  then have "X \<noteq> []" by auto
  from started_ok [OF vs lv this X(3) start] obtain co' vs' where
    r: "SetupOtherInputs (co\<lparr>c_inputs0 := X\<rparr>) vs1 = Some (co', vs')" "c_level co' = level" "set X \<subseteq> set (c_inputs0 co')"
    "inputs_ok c ?fs ?v level (c_inputs0 co') (c_inputs1 co')" "c_input_version co' = Some r" "v_refs (vs_version vs' r) = v_refs (vs_version vs r) + 1"
    by - (elim exE conjE, rule that)
  have "PickCompaction vs = Some (Some co', vs')"
    using need f(1) start X(1) [unfolded q_def Let_def] r(1) unfolding PickCompaction_def Let_def vs(1) level_def [symmetric] p_def [symmetric]
    by (cases "level = 0") (simp_all add: NeedsCompaction_def)
  moreover have "the (v_file_to_compact ?v) \<in> set (c_inputs0 co')" if "v_compaction_score ?v < 1" using that f(1) X(2) r(3) by (auto simp: p_def)
  ultimately show ?thesis using r lv by blast
qed

lemma limit_inputs_take: "\<exists>n. limit_inputs fs limit acc X = take n X \<and> (X \<noteq> [] \<longrightarrow> 0 < n)"
proof (induction X arbitrary: acc)
  case (Cons f X)
  from Cons [of "acc + fm_file_size (fs f)"] obtain n where "limit_inputs fs limit (acc + fm_file_size (fs f)) X = take n X" by blast
  then have "limit_inputs fs limit acc (f # X) = take (if acc + fm_file_size (fs f) \<ge> limit then 1 else Suc n) (f # X)" by (simp add: Let_def)
  then show ?case by (intro exI [of _ "if acc + fm_file_size (fs f) \<ge> limit then 1 else Suc n"]) simp
qed simp

lemma gapless_take:
  assumes v: "levels_ok c fs v" "1 \<le> level" "level < kNumLevels" and X: "gapless fs v level X" "X = filter P (v_files v ! level)"
  shows "gapless fs v level (take n X)"
proof -
  let ?icmp = "Compare (InternalKeyComparator c)"
  have s: "files_sorted c fs (v_files v ! level)" using levels_okD(3) v .
  have sub: "set (take n X) \<subseteq> set X" by (rule set_take_subset)
  have X': "set X \<subseteq> set (v_files v ! level)" "convex c fs (v_files v ! level) (set X)" using X(1) v(2) by (simp_all add: gapless_def)
  let ?R = "\<lambda>f g. ?icmp (fm_largest (fs f)) (fm_smallest (fs g)) < 0"
  have "sorted_wrt ?R X" using s unfolding X(2) files_sorted_def by (simp add: sorted_wrt_filter)
  then have "sorted_wrt ?R (take n X @ drop n X)" by (simp only: append_take_drop_id)
  then have split: "\<forall>h\<in>set (take n X). \<forall>g\<in>set (drop n X). ?R h g" unfolding sorted_wrt_append by blast
  have "convex c fs (v_files v ! level) (set (take n X))"
    unfolding convex_def
  proof (intro ballI impI)
    fix f h g assume a: "f \<in> set (take n X)" "h \<in> set (take n X)" "g \<in> set (v_files v ! level)"
      "?icmp (fm_smallest (fs f)) (fm_smallest (fs g)) \<le> 0" "?icmp (fm_smallest (fs g)) (fm_smallest (fs h)) \<le> 0"
    then have "g \<in> set X" using X'(2) sub unfolding convex_def by blast
    moreover have "?icmp (fm_smallest (fs h)) (fm_largest (fs h)) \<le> 0" using s a(2) sub X'(1) by (auto simp: files_sorted_def file_ok_def)
    then have "g \<notin> set (drop n X)" using split a(2,5) ik.compare_trans ik.compare_not_less by blast
    ultimately show "g \<in> set (take n X)" by (metis Un_iff append_take_drop_id set_append)
  qed
  then show ?thesis using sub X'(1) v(2) by (auto simp: gapless_def)
qed

lemma CompactRange_ok:
  assumes vs: "vs_ucmp vs = c" "vs_current vs = Some r" "levels_ok c (vs_files vs) (current_version vs)" and level: "level + 1 < kNumLevels"
  shows "\<exists>p vs'. CompactRange level lo hi vs = Some (p, vs') \<and>
    (case p of
       None \<Rightarrow> (\<forall>f\<in>set (v_files (current_version vs) ! level). \<not> user_overlap c (map_option ExtractUserKey lo) (map_option ExtractUserKey hi) (vs_files vs f))
     | Some co \<Rightarrow> c_level co = level \<and> inputs_ok c (vs_files vs) (current_version vs) level (c_inputs0 co) (c_inputs1 co))"
proof -
  let ?v = "current_version vs" and ?fs = "vs_files vs"
  have lv: "level < kNumLevels" using level by simp
  from GetOverlappingInputs_gapless [OF vs(3) lv, of lo hi] obtain X P where X: "GetOverlappingInputs c ?fs ?v level lo hi = Some X" "gapless ?fs ?v level X"
    "X = filter P (v_files ?v ! level)" "\<forall>g\<in>set (v_files ?v ! level). user_overlap c (map_option ExtractUserKey lo) (map_option ExtractUserKey hi) (?fs g) \<longrightarrow> g \<in> set X" by blast
  show ?thesis
  proof (cases "X = []")
    case True
    then show ?thesis using X(1,4) vs(1) by (auto simp: CompactRange_def)
  next
    case False
    define Y where "Y = (if level > 0 then limit_inputs ?fs (MaxFileSizeForLevel (vs_max_file_size vs) level) 0 X else X)"
    have "\<exists>n>0. Y = take n X \<and> (level = 0 \<longrightarrow> Y = X)" using False limit_inputs_take [of ?fs "MaxFileSizeForLevel (vs_max_file_size vs) level" 0 X]
      by (cases "level = 0") (auto simp: Y_def intro: exI [of _ "Suc (length X)"])
    then have Y: "Y \<noteq> []" "gapless ?fs ?v level Y"
      using False X(2) gapless_take [OF vs(3) _ lv X(2,3)] by (cases "level = 0"; auto)+
    obtain co vs1 where start: "start_compaction level Y vs = (co, vs1)" by (cases "start_compaction level Y vs")
    have "co\<lparr>c_inputs0 := Y\<rparr> = co" using start by (auto simp: start_compaction_def)
    with started_ok [OF vs level Y start] show ?thesis
      using X(1) False vs(1) start by (auto simp: CompactRange_def Let_def Y_def [symmetric])
  qed
qed

end

section \<open>Keys with nothing below\<close>

text \<open>What the search of a level assumes of its position: the files before it end before the key.\<close>

definition position_ok :: "Comparator \<Rightarrow> file_store \<Rightarrow> file_ref list \<Rightarrow> bytes \<Rightarrow> nat \<Rightarrow> bool" where
  "position_ok c fs files u ptr \<longleftrightarrow> (\<forall>i<ptr. i < length files \<longrightarrow> Compare c (limit_key (fs (files ! i))) u < 0)"

definition in_level :: "Comparator \<Rightarrow> file_store \<Rightarrow> file_ref list \<Rightarrow> bytes \<Rightarrow> bool" where
  "in_level c fs files u \<longleftrightarrow> (\<exists>f\<in>set files. Compare c (start_key (fs f)) u \<le> 0 \<and> Compare c u (limit_key (fs f)) \<le> 0)"

fun base_level_run :: "Comparator \<Rightarrow> file_store \<Rightarrow> Version \<Rightarrow> bytes list \<Rightarrow> Compaction \<Rightarrow> bool list \<times> Compaction" where
  "base_level_run c fs v [] co = ([], co)"
| "base_level_run c fs v (u # us) co =
     (let (b, co) = IsBaseLevelForKey c fs v u co; (bs, co) = base_level_run c fs v us co in (b # bs, co))"

context separating_comparator
begin

lemma base_level_ok:
  assumes s: "files_sorted c fs files"
  shows "position_ok c fs files u ptr \<Longrightarrow> \<exists>ptr'. base_level c fs files u ptr = (\<not> in_level c fs files u, ptr') \<and> position_ok c fs files u ptr'"
proof (induction "length files - ptr" arbitrary: ptr rule: less_induct)
  case less
  show ?case
  proof (cases "ptr < length files")
    case False
    have "\<not> in_level c fs files u"
    proof
      assume "in_level c fs files u"
      then obtain i where "i < length files" "Compare c u (limit_key (fs (files ! i))) \<le> 0" by (auto simp: in_level_def in_set_conv_nth)
      moreover from this have "Compare c (limit_key (fs (files ! i))) u < 0" using less.prems False by (simp add: position_ok_def)
      ultimately show False using compare_not_less by blast
    qed
    then show ?thesis using less.prems False by (subst base_level.simps) simp
  next
    case True
    let ?f = "fs (files ! ptr)"
    show ?thesis
    proof (cases "Compare c u (limit_key ?f) \<le> 0")
      case le: True
      have "in_level c fs files u \<longleftrightarrow> Compare c (start_key ?f) u \<le> 0"
      proof
        assume "in_level c fs files u"
        then obtain i where i: "i < length files" "Compare c (start_key (fs (files ! i))) u \<le> 0" "Compare c u (limit_key (fs (files ! i))) \<le> 0"
          by (auto simp: in_level_def in_set_conv_nth)
        then have "\<not> i < ptr" using less.prems compare_not_less unfolding position_ok_def by blast
        then have "Compare c (start_key ?f) (start_key (fs (files ! i))) \<le> 0" using files_sortedD(1) [OF s _ i(1), of ptr] icmp_user by simp
        then show "Compare c (start_key ?f) u \<le> 0" using i(2) compare_trans by blast
      qed (use True le in \<open>auto simp: in_level_def\<close>)
      then show ?thesis using less.prems True le compare_ge_iff by (subst base_level.simps) (simp add: Let_def)
    next
      case gt: False
      then have "position_ok c fs files u (ptr + 1)" using less.prems compare_not_less [of "limit_key ?f" u] by (auto simp: position_ok_def less_Suc_eq)
      from less.hyps [OF _ this] show ?thesis using True gt by (subst base_level.simps) (simp add: Let_def)
    qed
  qed
qed

lemma base_levels_ok:
  assumes v: "\<And>l. l \<in> set ls \<Longrightarrow> l < length ptrs \<and> files_sorted c fs (v_files v ! l)"
  shows "\<forall>l<length ptrs. position_ok c fs (v_files v ! l) u (ptrs ! l) \<Longrightarrow>
    \<exists>ptrs'. base_levels c fs v u ls ptrs = (\<forall>l\<in>set ls. \<not> in_level c fs (v_files v ! l) u, ptrs') \<and> length ptrs' = length ptrs \<and>
      (\<forall>l<length ptrs'. position_ok c fs (v_files v ! l) u (ptrs' ! l))"
  using v
proof (induction ls arbitrary: ptrs)
  case (Cons l ls)
  from base_level_ok [of fs "v_files v ! l" u "ptrs ! l"] Cons.prems obtain ptr where
    b: "base_level c fs (v_files v ! l) u (ptrs ! l) = (\<not> in_level c fs (v_files v ! l) u, ptr)" "position_ok c fs (v_files v ! l) u ptr" by auto
  then have pos: "\<forall>k<length (ptrs[l := ptr]). position_ok c fs (v_files v ! k) u (ptrs[l := ptr] ! k)" using Cons.prems by (auto simp: nth_list_update)
  show ?case
  proof (cases "in_level c fs (v_files v ! l) u")
    case True
    then show ?thesis using b(1) pos by simp
  next
    case False
    then show ?thesis using b(1) Cons.IH [OF pos] Cons.prems(2) by simp
  qed
qed simp

lemma base_level_run_ok:
  assumes v: "levels_ok c fs v"
  shows "sorted_wrt (\<lambda>a b. Compare c a b \<le> 0) us \<Longrightarrow> length (c_level_ptrs co) = kNumLevels \<Longrightarrow>
    \<forall>u\<in>set us. \<forall>l<kNumLevels. position_ok c fs (v_files v ! l) u (c_level_ptrs co ! l) \<Longrightarrow>
    fst (base_level_run c fs v us co) = map (\<lambda>u. \<forall>l\<in>{c_level co + 2..<kNumLevels}. \<not> in_level c fs (v_files v ! l) u) us"
proof (induction us arbitrary: co)
  case (Cons u us)
  have "\<exists>ptrs. base_levels c fs v u [c_level co + 2..<kNumLevels] (c_level_ptrs co) =
      (\<forall>l\<in>set [c_level co + 2..<kNumLevels]. \<not> in_level c fs (v_files v ! l) u, ptrs) \<and> length ptrs = length (c_level_ptrs co) \<and>
      (\<forall>l<length ptrs. position_ok c fs (v_files v ! l) u (ptrs ! l))"
    using Cons.prems(2,3) levels_okD(3) [OF v] by (intro base_levels_ok) auto
  then obtain ptrs where p: "base_levels c fs v u [c_level co + 2..<kNumLevels] (c_level_ptrs co) =
      (\<forall>l\<in>{c_level co + 2..<kNumLevels}. \<not> in_level c fs (v_files v ! l) u, ptrs)" "length ptrs = kNumLevels"
    "\<forall>l<kNumLevels. position_ok c fs (v_files v ! l) u (ptrs ! l)" using Cons.prems(2) by auto
  have "position_ok c fs (v_files v ! l) u' (ptrs ! l)" if "u' \<in> set us" "l < kNumLevels" for u' l
    using p(3) that Cons.prems(1) compare_less_le_trans by (fastforce simp: position_ok_def)
  then show ?case using Cons.IH [of "co\<lparr>c_level_ptrs := ptrs\<rparr>"] Cons.prems(1) p(1,2)
    by (simp add: IsBaseLevelForKey_def split_beta)
qed simp

end

section \<open>Properties\<close>

text \<open>
  C6. A compaction that is due is started. Consider a version that was finalized when some level had its share of files
  or bytes or that has since got a file to compact, through any sequence of lookups and read samples; its levels are well formed.
  Then the version set reports that it needs a compaction, and picking one always returns: a compaction of a level that is not the last one, with at least one
  input file; its inputs are files of that level and of the next, and if no level is due the file that the lookups chose is among them. The version is
  held by a new reference. So the search for further inputs ends, and no vector is read outside its bounds.
\<close>

theorem compaction_picked:
  assumes "separating_comparator (vs_ucmp vs)" "vs_current vs = Some r" "levels_ok (vs_ucmp vs) (vs_files vs) (current_version vs)"
    "version_use (vs_ucmp vs) fs0 v0 (vs_files vs) (current_version vs)" "v_file_to_compact v0 = None"
    "(\<exists>l<kNumLevels - 1. 1 \<le> level_score fs0 v0 l) \<or> v_file_to_compact (current_version vs) \<noteq> None"
  shows "NeedsCompaction (current_version vs) \<and>
    (\<exists>co vs'. PickCompaction vs = Some (Some co, vs') \<and> c_level co + 1 < kNumLevels \<and> c_inputs0 co \<noteq> [] \<and>
      set (c_inputs0 co) \<subseteq> set (v_files (current_version vs) ! c_level co) \<and> set (c_inputs1 co) \<subseteq> set (v_files (current_version vs) ! (c_level co + 1)) \<and>
      (v_compaction_score (current_version vs) < 1 \<longrightarrow> the (v_file_to_compact (current_version vs)) \<in> set (c_inputs0 co)) \<and>
      c_input_version co = Some r \<and> v_refs (vs_version vs' r) = v_refs (vs_version vs r) + 1)"
proof -
  have ok: "compaction_ok (current_version vs)" "v_compaction_score (current_version vs) = v_compaction_score (Finalize fs0 v0)"
    using version_use_ok [OF assms(4,5)] by simp_all
  have need: "NeedsCompaction (current_version vs)"
    using assms(6) ok(2) Finalize_score [of _ fs0 v0] unfolding NeedsCompaction_def by (metis order_trans)
  from separating_comparator.PickCompaction_ok [OF assms(1) refl assms(2,3) ok(1) need] show ?thesis using need unfolding inputs_ok_def by blast
qed

definition sample_compaction :: "VersionSet" where
  "sample_compaction = (VersionSet_new ''db'' BytewiseComparator [] 1000 False)\<lparr>vs_files := sample_files,
     vs_version := (\<lambda>_. Finalize sample_files (sample_version\<lparr>v_files := [[0, 1, 2, 3], [], [], [], [], [], []]\<rparr>))\<rparr>"

lemma sample_compaction_ok:
  "vs_current sample_compaction = Some 0" "vs_ucmp sample_compaction = BytewiseComparator" "vs_files sample_compaction = sample_files"
  "current_version sample_compaction = Finalize sample_files (sample_version\<lparr>v_files := [[0, 1, 2, 3], [], [], [], [], [], []]\<rparr>)"
  "v_files (current_version sample_compaction) = [[0, 1, 2, 3], [], [], [], [], [], []]"
  "levels_ok BytewiseComparator sample_files (current_version sample_compaction)"
proof -
  show "vs_current sample_compaction = Some 0" "vs_ucmp sample_compaction = BytewiseComparator" "vs_files sample_compaction = sample_files"
    "current_version sample_compaction = Finalize sample_files (sample_version\<lparr>v_files := [[0, 1, 2, 3], [], [], [], [], [], []]\<rparr>)"
    by (simp_all add: sample_compaction_def current_version_def VersionSet_new_def new_version_def AppendVersion_def Version_Ref_def Let_def)
  then show f: "v_files (current_version sample_compaction) = [[0, 1, 2, 3], [], [], [], [], [], []]" by (simp add: Finalize_def split_beta)
  have "\<forall>f\<in>set [0, 1, 2, 3]. file_ok BytewiseComparator (sample_files f)" by code_simp
  moreover have "\<forall>files\<in>set [[], [], [], [], [], []]. files_sorted BytewiseComparator sample_files files" by (simp add: files_sorted_def)
  ultimately show "levels_ok BytewiseComparator sample_files (current_version sample_compaction)"
    unfolding levels_ok_def f by (simp only: list.sel nth_Cons_0) (simp add: kNumLevels_def)
qed

theorem compaction_picked_witness:
  "\<exists>co vs'. PickCompaction sample_compaction = Some (Some co, vs') \<and> c_inputs0 co \<noteq> [] \<and> c_input_version co = Some 0"
proof -
  let ?v = "sample_version\<lparr>v_files := [[0, 1, 2, 3], [], [], [], [], [], []]\<rparr>"
  have "1 \<le> level_score sample_files ?v 0" by (simp add: level_score_def kL0_CompactionTrigger_def)
  then have "\<exists>l<kNumLevels - 1. 1 \<le> level_score sample_files ?v l" by (intro exI [of _ 0]) (simp add: kNumLevels_def)
  moreover have "version_use BytewiseComparator sample_files ?v sample_files (current_version sample_compaction)"
    unfolding sample_compaction_ok(4) by (rule version_use.finalized)
  ultimately show ?thesis
    using compaction_picked [of sample_compaction 0 sample_files ?v] sample_compaction_ok(1-3,6) bytewise.separating_comparator_axioms
    by (auto simp: sample_version_def Version_new_def)
qed

text \<open>
  C4. A compaction leaves no older version of a key above a newer one. Whatever is compacted, a level that is due, a file with too many seeks or a range that
  was asked for: if a file is an input, then so is every file of its level in which its last user key goes on, at its level as at the next;
  in level 0 every file that overlaps it; and in the next level every file that overlaps an input of the upper level. And a request to compact a range always
  returns; it starts nothing only if no file of the level overlaps the range.
\<close>

theorem compaction_inputs_closed:
  assumes "separating_comparator (vs_ucmp vs)" "vs_current vs = Some r" "levels_ok (vs_ucmp vs) (vs_files vs) (current_version vs)"
    "compaction_ok (current_version vs)"
  shows "(\<forall>co vs'. PickCompaction vs = Some (Some co, vs') \<longrightarrow>
      inputs_ok (vs_ucmp vs) (vs_files vs) (current_version vs) (c_level co) (c_inputs0 co) (c_inputs1 co)) \<and>
    (\<forall>level lo hi. level + 1 < kNumLevels \<longrightarrow> (\<exists>p vs'. CompactRange level lo hi vs = Some (p, vs') \<and>
      (case p of
         None \<Rightarrow> (\<forall>f\<in>set (v_files (current_version vs) ! level).
           \<not> user_overlap (vs_ucmp vs) (map_option ExtractUserKey lo) (map_option ExtractUserKey hi) (vs_files vs f))
       | Some co \<Rightarrow> inputs_ok (vs_ucmp vs) (vs_files vs) (current_version vs) level (c_inputs0 co) (c_inputs1 co))))"
proof (intro conjI allI impI)
  fix co vs' assume p: "PickCompaction vs = Some (Some co, vs')"
  then have "NeedsCompaction (current_version vs)" by (auto simp: PickCompaction_def NeedsCompaction_def Let_def split: if_splits)
  from separating_comparator.PickCompaction_ok [OF assms(1) refl assms(2-4) this] p
  show "inputs_ok (vs_ucmp vs) (vs_files vs) (current_version vs) (c_level co) (c_inputs0 co) (c_inputs1 co)" by auto
next
  fix level lo hi assume "level + 1 < kNumLevels"
  from separating_comparator.CompactRange_ok [OF assms(1) refl assms(2,3) this, of lo hi]
  show "\<exists>p vs'. CompactRange level lo hi vs = Some (p, vs') \<and>
      (case p of
         None \<Rightarrow> (\<forall>f\<in>set (v_files (current_version vs) ! level).
           \<not> user_overlap (vs_ucmp vs) (map_option ExtractUserKey lo) (map_option ExtractUserKey hi) (vs_files vs f))
       | Some co \<Rightarrow> inputs_ok (vs_ucmp vs) (vs_files vs) (current_version vs) level (c_inputs0 co) (c_inputs1 co))"
    by (elim exE conjE) (intro exI conjI, assumption, simp split: option.splits)
qed

theorem compaction_inputs_closed_witness:
  "\<exists>co vs'. CompactRange 0 None None sample_compaction = Some (Some co, vs') \<and>
    inputs_ok BytewiseComparator sample_files (current_version sample_compaction) 0 (c_inputs0 co) (c_inputs1 co)"
proof -
  have ok: "compaction_ok (current_version sample_compaction)"
    unfolding sample_compaction_ok(4) by (rule Finalize_ok) (simp add: sample_version_def Version_new_def)
  have "(0 :: nat) + 1 < kNumLevels" by (simp add: kNumLevels_def)
  note t = compaction_inputs_closed [of sample_compaction 0, unfolded sample_compaction_ok(2,3), OF bytewise.separating_comparator_axioms
      sample_compaction_ok(1,6) ok, THEN conjunct2, rule_format, OF this, of None None]
  obtain p vs' where p: "CompactRange 0 None None sample_compaction = Some (p, vs')" "case p of
         None \<Rightarrow> (\<forall>f\<in>set (v_files (current_version sample_compaction) ! 0). \<not> user_overlap BytewiseComparator None None (sample_files f))
       | Some co \<Rightarrow> inputs_ok BytewiseComparator sample_files (current_version sample_compaction) 0 (c_inputs0 co) (c_inputs1 co)"
    using t unfolding option.map by - (elim exE conjE, rule that)
  show ?thesis
  proof (cases p)
    case None
    then have "\<not> user_overlap BytewiseComparator None None (sample_files 0)" using p(2) by (simp add: sample_compaction_ok(5))
    then show ?thesis by (simp add: user_overlap_def AfterFile_def BeforeFile_def)
  qed (use p in simp)
qed

text \<open>
  C23. A compaction knows the keys that have nothing below. It asks for one user key after the other, in order, and moves its position in every level forward only.
  Every answer is right: it is true exactly if no file of a level below the output has the key in its range. So a deletion that is dropped hides nothing.
\<close>

theorem base_level_exact:
  assumes "separating_comparator c" "levels_ok c fs v" "sorted_wrt (\<lambda>a b. Compare c a b \<le> 0) us"
  shows "fst (base_level_run c fs v us (Compaction_new max_file_size level)) =
    map (\<lambda>u. \<forall>l. level + 2 \<le> l \<and> l < kNumLevels \<longrightarrow>
      (\<forall>f\<in>set (v_files v ! l). Compare c u (start_key (fs f)) < 0 \<or> Compare c (limit_key (fs f)) u < 0)) us"
proof -
  note not_less = key_order.compare_not_less [OF separating_comparator.axioms(1) [OF assms(1), unfolded comparator_def]]
  have "(\<forall>l\<in>{level + 2..<kNumLevels}. \<not> in_level c fs (v_files v ! l) u) \<longleftrightarrow> (\<forall>l. level + 2 \<le> l \<and> l < kNumLevels \<longrightarrow>
      (\<forall>f\<in>set (v_files v ! l). Compare c u (start_key (fs f)) < 0 \<or> Compare c (limit_key (fs f)) u < 0))" for u
    by (auto simp: in_level_def not_less [symmetric])
  then show ?thesis using separating_comparator.base_level_run_ok [OF assms, of "Compaction_new max_file_size level"]
    by (simp add: Compaction_new_def position_ok_def)
qed

theorem base_level_exact_witness:
  "fst (base_level_run BytewiseComparator sample_files (sample_version\<lparr>v_files := [[], [], [0, 1], [], [], [], []]\<rparr>) [[96], [98], [100], [102], [104]]
     (Compaction_new 1000 0)) = [True, False, True, False, True]"
proof -
  let ?v = "sample_version\<lparr>v_files := [[], [], [0, 1], [], [], [], []]\<rparr>"
  have "files_sorted BytewiseComparator sample_files [0, 1]" by code_simp
  then have v: "levels_ok BytewiseComparator sample_files ?v" by (simp add: levels_ok_def kNumLevels_def) (simp add: files_sorted_def)
  have "sorted_wrt (\<lambda>a b. Compare BytewiseComparator a b \<le> 0) [[96], [98], [100], [102], [104 :: 8 word]]" by code_simp
  note e = base_level_exact [OF bytewise.separating_comparator_axioms v this, of 1000 0]
  have "(\<forall>l. 0 + 2 \<le> l \<and> l < kNumLevels \<longrightarrow> P (v_files ?v ! l)) \<longleftrightarrow> P [0, 1]" if "P []" for P
    using that by (auto simp: kNumLevels_def numeral_eq_Suc less_Suc_eq)
  note level = this [of "\<lambda>files. \<forall>f\<in>set files. Compare BytewiseComparator u (start_key (sample_files f)) < 0 \<or> Compare BytewiseComparator (limit_key (sample_files f)) u < 0" for u]
  have "map (\<lambda>u. \<forall>f\<in>set [0, 1]. Compare BytewiseComparator u (start_key (sample_files f)) < 0 \<or> Compare BytewiseComparator (limit_key (sample_files f)) u < 0)
      [[96], [98], [100], [102], [104]] = [True, False, True, False, True]" by code_simp
  then show ?thesis using e level by (simp only: list.set(1) ball_simps simp_thms)
qed

end
