(* ===== verification/DbWrite.thy ===== *)
theory DbWrite
  imports Log WriteBatch VersionSet
begin

text \<open>
  Writes to the database (\<open>DBImpl::Write\<close> of \<open>db/db_impl.cc\<close>). Threads queue up; the first one writes the batches of
  several for them, to the log and then to the memtable, with the mutex released. A call is cut into steps where the
  mutex is taken, so that steps of other threads come between them. The environment of the log is a parameter, and any of its operations may fail;
  so is the memory use of a memtable.
\<close>

section \<open>The state\<close>

definition kL0_SlowdownWritesTrigger :: nat where "kL0_SlowdownWritesTrigger = 8"
definition kL0_StopWritesTrigger :: nat where "kL0_StopWritesTrigger = 12"

type_synonym writer_ref = nat

text \<open>\<open>Writer\<close>; its condition variable is in the phase of its thread. \<open>None\<close> is the null batch of a forced compaction.\<close>

record DBWriter =
  wr_status :: Status
  wr_batch :: "WriteBatch option"
  wr_sync :: bool
  wr_done :: bool

text \<open>
  Where the thread of a writer is: in \<open>w.cv.Wait()\<close>; woken up there; in the loop of \<open>MakeRoomForWrite\<close> with \<open>force\<close> and \<open>allow_delay\<close>, running or
  waiting for the background thread; before its write to the log, with the batch, whether it is \<open>tmp_batch_\<close>, the new last sequence number and the last writer of
  the group; after it, with the status too and whether it is an error of \<open>Sync\<close>; back from the call.
\<close>

datatype phase =
    Waiting
  | Woken
  | MakingRoom bool bool
  | RoomWaiting bool bool
  | Writing WriteBatch bool SequenceNumber writer_ref
  | Written WriteBatch bool SequenceNumber writer_ref Status bool
  | Returned Status

record 'f DBImpl =
  db_writer :: "writer_ref \<Rightarrow> DBWriter"
  db_phase :: "writer_ref \<Rightarrow> phase option"
  db_writers :: "writer_ref list"
  db_tmp_batch :: WriteBatch
  db_mem :: MemTable
  db_imm :: "MemTable option"
  db_log :: "'f Writer"
  db_logfile_number :: u64
  db_versions :: VersionSet
  db_bg_error :: Status
  db_bg_scheduled :: bool
  db_shutting_down :: bool
  db_manual_compaction :: bool
  db_number :: u64
  db_write_buffer_size :: nat

text \<open>The operations on log files: those of \<open>WritableFile\<close> that the log does not use itself, and \<open>NewWritableFile\<close>.\<close>

record 'f LogEnv =
  le_file :: "'f WritableFile"
  le_Sync :: "'f \<Rightarrow> Status \<times> 'f"
  le_Close :: "'f \<Rightarrow> Status"
  le_New :: "string \<Rightarrow> Status + 'f"

definition set_phase :: "writer_ref \<Rightarrow> phase \<Rightarrow> 'f DBImpl \<Rightarrow> 'f DBImpl" where
  "set_phase w p db = db\<lparr>db_phase := (db_phase db)(w \<mapsto> p)\<rparr>"

text \<open>\<open>Signal\<close> of the condition variable of a writer.\<close>

definition Signal :: "writer_ref \<Rightarrow> 'f DBImpl \<Rightarrow> 'f DBImpl" where
  "Signal w db = (if db_phase db w = Some Waiting then set_phase w Woken db else db)"

text \<open>\<open>background_work_finished_signal_.SignalAll()\<close>.\<close>

definition SignalAll :: "'f DBImpl \<Rightarrow> 'f DBImpl" where
  "SignalAll db = db\<lparr>db_phase := (\<lambda>w. case db_phase db w of Some (RoomWaiting force allow_delay) \<Rightarrow> Some (MakingRoom force allow_delay) | p \<Rightarrow> p)\<rparr>"

definition RecordBackgroundError :: "Status \<Rightarrow> 'f DBImpl \<Rightarrow> 'f DBImpl" where
  "RecordBackgroundError s db = (if ok (db_bg_error db) then SignalAll (db\<lparr>db_bg_error := s\<rparr>) else db)"

definition MaybeScheduleCompaction :: "'f DBImpl \<Rightarrow> 'f DBImpl" where
  "MaybeScheduleCompaction db =
     (if db_bg_scheduled db then db
      else if db_shutting_down db then db
      else if \<not> ok (db_bg_error db) then db
      else if db_imm db = None \<and> \<not> db_manual_compaction db \<and> \<not> NeedsCompaction (current_version (db_versions db)) then db
      else db\<lparr>db_bg_scheduled := True\<rparr>)"

section \<open>The group of a write\<close>

text \<open>\<open>BuildBatchGroup\<close>: the loop over the writers after the leader, with the size so far, the batch made of more than one, and the last writer.\<close>

fun batch_group ::
  "(writer_ref \<Rightarrow> DBWriter) \<Rightarrow> DBWriter \<Rightarrow> WriteBatch \<Rightarrow> nat \<Rightarrow> writer_ref list \<Rightarrow> nat \<Rightarrow> WriteBatch option \<Rightarrow> writer_ref \<Rightarrow> WriteBatch option \<times> writer_ref" where
  "batch_group ws leader tmp max_size [] sz result last_writer = (result, last_writer)"
| "batch_group ws leader tmp max_size (w # rest) sz result last_writer =
     (if wr_sync (ws w) \<and> \<not> wr_sync leader then (result, last_writer)
      else
        case wr_batch (ws w) of
          None \<Rightarrow> batch_group ws leader tmp max_size rest sz result w
        | Some b \<Rightarrow>
            let sz = sz + ApproximateSize b
            in if sz > max_size then (result, last_writer)
               else
                 let r = (case result of None \<Rightarrow> Batch_Append tmp (the (wr_batch leader)) | Some r \<Rightarrow> r)
                 in batch_group ws leader tmp max_size rest sz (Some (Batch_Append r b)) w)"

definition max_group_size :: "nat \<Rightarrow> nat" where
  "max_group_size sz = (if sz \<le> 128 * 1024 then sz + 128 * 1024 else 1024 * 1024)"

text \<open>The batch, whether it is \<open>tmp_batch_\<close>, and the last writer of the group.\<close>

definition BuildBatchGroup :: "'f DBImpl \<Rightarrow> WriteBatch \<times> bool \<times> writer_ref" where
  "BuildBatchGroup db =
     (let leader = db_writer db (hd (db_writers db));
          sz = ApproximateSize (the (wr_batch leader));
          (result, last_writer) =
            batch_group (db_writer db) leader (db_tmp_batch db) (max_group_size sz) (tl (db_writers db)) sz None (hd (db_writers db))
      in (case result of None \<Rightarrow> (the (wr_batch leader), False, last_writer) | Some r \<Rightarrow> (r, True, last_writer)))"

section \<open>The steps of a write\<close>

text \<open>The end: the writers of the group are taken out of the queue and woken up, and then the new first one. Taking from the empty queue has no result.\<close>

fun pop_writers :: "writer_ref \<Rightarrow> Status \<Rightarrow> writer_ref \<Rightarrow> writer_ref list \<Rightarrow> 'f DBImpl \<Rightarrow> 'f DBImpl option" where
  "pop_writers w status last_writer [] db = None"
| "pop_writers w status last_writer (ready # rest) db =
     (let db = db\<lparr>db_writers := rest\<rparr>;
          db = (if ready \<noteq> w
                then Signal ready (db\<lparr>db_writer := (db_writer db)(ready := (db_writer db ready)\<lparr>wr_status := status, wr_done := True\<rparr>)\<rparr>)
                else db)
      in if ready = last_writer then Some db else pop_writers w status last_writer rest db)"

definition leave :: "writer_ref \<Rightarrow> Status \<Rightarrow> writer_ref \<Rightarrow> 'f DBImpl \<Rightarrow> 'f DBImpl option" where
  "leave w status last_writer db = do {
     db \<leftarrow> pop_writers w status last_writer (db_writers db) db;
     let db = (if db_writers db \<noteq> [] then Signal (hd (db_writers db)) db else db);
     Some (set_phase w (Returned status) db)
   }"

text \<open>The wait for being first.\<close>

definition wait_turn :: "writer_ref \<Rightarrow> 'f DBImpl \<Rightarrow> 'f DBImpl" where
  "wait_turn w db =
     (if \<not> wr_done (db_writer db w) \<and> w \<noteq> hd (db_writers db) then set_phase w Waiting db
      else if wr_done (db_writer db w) then set_phase w (Returned (wr_status (db_writer db w))) db
      else let force = (wr_batch (db_writer db w) = None) in set_phase w (MakingRoom force (\<not> force)) db)"

definition Write_enter :: "writer_ref \<Rightarrow> WriteBatch option \<Rightarrow> bool \<Rightarrow> 'f DBImpl \<Rightarrow> 'f DBImpl" where
  "Write_enter w updates sync db =
     wait_turn w (db\<lparr>db_writer := (db_writer db)(w := \<lparr>wr_status = OK, wr_batch = updates, wr_sync = sync, wr_done = False\<rparr>),
                     db_writers := db_writers db @ [w]\<rparr>)"

text \<open>After \<open>MakeRoomForWrite\<close>: the group is built and numbered, or the call ends.\<close>

definition start_write :: "writer_ref \<Rightarrow> Status \<Rightarrow> 'f DBImpl \<Rightarrow> 'f DBImpl option" where
  "start_write w status db =
     (let last_sequence = vs_last_sequence (db_versions db)
      in if ok status \<and> wr_batch (db_writer db w) \<noteq> None then
           let (write_batch, is_tmp, last_writer) = BuildBatchGroup db;
               write_batch = SetSequence (last_sequence + 1) write_batch;
               last_sequence = last_sequence + scast (Count write_batch);
               db = (if is_tmp then db\<lparr>db_tmp_batch := write_batch\<rparr>
                     else db\<lparr>db_writer := (db_writer db)(w := (db_writer db w)\<lparr>wr_batch := Some write_batch\<rparr>)\<rparr>)
           in Some (set_phase w (Writing write_batch is_tmp last_sequence last_writer) db)
         else leave w status w db)"

text \<open>The switch to a new memtable and a new log.\<close>

definition switch_memtable :: "'f LogEnv \<Rightarrow> writer_ref \<Rightarrow> bool \<Rightarrow> 'f DBImpl \<Rightarrow> 'f DBImpl option" where
  "switch_memtable env w allow_delay db =
     (let (new_log_number, vs) = NewFileNumber (db_versions db)
      in case le_New env (LogFileName (vs_dbname vs) new_log_number) of
           Inl s \<Rightarrow> start_write w s (db\<lparr>db_versions := ReuseFileNumber new_log_number vs\<rparr>)
         | Inr lfile \<Rightarrow>
             let s = le_Close env (lw_dest (db_log db));
                 db = db\<lparr>db_versions := vs\<rparr>;
                 db = (if \<not> ok s then RecordBackgroundError s db else db);
                 db = db\<lparr>db_logfile_number := new_log_number, db_log := Writer_new lfile 0, db_imm := Some (db_mem db),
                         db_mem := MemTable_Ref (MemTable_new (mt_comparator (db_mem db)))\<rparr>
             in Some (set_phase w (MakingRoom False allow_delay) (MaybeScheduleCompaction db)))"

text \<open>One round of the loop of \<open>MakeRoomForWrite\<close>. The delay of a millisecond is the step itself.\<close>

definition MakeRoomForWrite :: "'f LogEnv \<Rightarrow> (MemTable \<Rightarrow> nat) \<Rightarrow> writer_ref \<Rightarrow> bool \<Rightarrow> bool \<Rightarrow> 'f DBImpl \<Rightarrow> 'f DBImpl option" where
  "MakeRoomForWrite env usage w force allow_delay db =
     (if \<not> ok (db_bg_error db) then start_write w (db_bg_error db) db
      else if allow_delay \<and> NumLevelFiles 0 (db_versions db) \<ge> kL0_SlowdownWritesTrigger then Some (set_phase w (MakingRoom force False) db)
      else if \<not> force \<and> usage (db_mem db) \<le> db_write_buffer_size db then start_write w OK db
      else if db_imm db \<noteq> None then Some (set_phase w (RoomWaiting force allow_delay) db)
      else if NumLevelFiles 0 (db_versions db) \<ge> kL0_StopWritesTrigger then Some (set_phase w (RoomWaiting force allow_delay) db)
      else switch_memtable env w allow_delay db)"

text \<open>The part without the mutex.\<close>

definition write_log :: "'f LogEnv \<Rightarrow> writer_ref \<Rightarrow> WriteBatch \<Rightarrow> bool \<Rightarrow> SequenceNumber \<Rightarrow> writer_ref \<Rightarrow> 'f DBImpl \<Rightarrow> 'f DBImpl option" where
  "write_log env w write_batch is_tmp last_sequence last_writer db = do {
     let (status, log) = AddRecord (le_file env) write_batch (db_log db);
     let (status, sync_error, log) =
       (if ok status \<and> wr_sync (db_writer db w) then
          let (status, dest) = le_Sync env (lw_dest log) in (status, \<not> ok status, log\<lparr>lw_dest := dest\<rparr>)
        else (status, False, log));
     (status, mem) \<leftarrow> (if ok status then (case InsertInto write_batch (db_mem db) of (s, m) \<Rightarrow> map_option (Pair s) m)
                      else Some (status, db_mem db));
     Some (set_phase w (Written write_batch is_tmp last_sequence last_writer status sync_error) (db\<lparr>db_log := log, db_mem := mem\<rparr>))
   }"

definition finish_write :: "writer_ref \<Rightarrow> WriteBatch \<Rightarrow> bool \<Rightarrow> SequenceNumber \<Rightarrow> writer_ref \<Rightarrow> Status \<Rightarrow> bool \<Rightarrow> 'f DBImpl \<Rightarrow> 'f DBImpl option" where
  "finish_write w write_batch is_tmp last_sequence last_writer status sync_error db =
     (let db = (if sync_error then RecordBackgroundError status db else db);
          db = db\<lparr>db_number := db_number db + scast (Count write_batch)\<rparr>;
          db = (if is_tmp then db\<lparr>db_tmp_batch := Clear\<rparr> else db)
      in leave w status last_writer (db\<lparr>db_versions := (db_versions db)\<lparr>vs_last_sequence := last_sequence\<rparr>\<rparr>))"

text \<open>The next step of the thread of a writer, if it can make one.\<close>

definition writer_step :: "'f LogEnv \<Rightarrow> (MemTable \<Rightarrow> nat) \<Rightarrow> writer_ref \<Rightarrow> 'f DBImpl \<Rightarrow> 'f DBImpl option" where
  "writer_step env usage w db =
     (case db_phase db w of
        Some Woken \<Rightarrow> Some (wait_turn w db)
      | Some (MakingRoom force allow_delay) \<Rightarrow> MakeRoomForWrite env usage w force allow_delay db
      | Some (Writing write_batch is_tmp last_sequence last_writer) \<Rightarrow> write_log env w write_batch is_tmp last_sequence last_writer db
      | Some (Written write_batch is_tmp last_sequence last_writer status sync_error) \<Rightarrow>
          finish_write w write_batch is_tmp last_sequence last_writer status sync_error db
      | _ \<Rightarrow> None)"

section \<open>Popping the queue\<close>

text \<open>What is done to the writers of a group other than its leader.\<close>

definition mark_done :: "Status \<Rightarrow> writer_ref list \<Rightarrow> (writer_ref \<Rightarrow> DBWriter) \<Rightarrow> writer_ref \<Rightarrow> DBWriter" where
  "mark_done status g ws v = (if v \<in> set g then (ws v)\<lparr>wr_status := status, wr_done := True\<rparr> else ws v)"

definition wake :: "writer_ref set \<Rightarrow> (writer_ref \<Rightarrow> phase option) \<Rightarrow> writer_ref \<Rightarrow> phase option" where
  "wake V ps v = (if v \<in> V \<and> ps v = Some Waiting then Some Woken else ps v)"

lemma Signal_eq: "Signal w db = db\<lparr>db_phase := wake {w} (db_phase db)\<rparr>"
  by (auto simp: Signal_def set_phase_def wake_def fun_eq_iff intro!: DBImpl.equality)

lemma wake_wake: "wake V (wake U ps) = wake (U \<union> V) ps"
  by (auto simp: wake_def fun_eq_iff)

lemma pop_followers:
  "w \<notin> set g \<Longrightarrow> distinct g \<Longrightarrow> g \<noteq> [] \<Longrightarrow> pop_writers w status (last g) (g @ rest) db =
   Some (db\<lparr>db_writers := rest, db_writer := mark_done status g (db_writer db), db_phase := wake (set g) (db_phase db)\<rparr>)"
proof (induction g arbitrary: db)
  case (Cons v g)
  show ?case
  proof (cases "g = []")
    case True
    then show ?thesis using Cons.prems by (auto simp: Signal_eq mark_done_def fun_eq_iff intro!: DBImpl.equality)
  next
    case False
    have "mark_done status g ((db_writer db)(v := (db_writer db v)\<lparr>wr_status := status, wr_done := True\<rparr>)) = mark_done status (v # g) (db_writer db)"
      using Cons.prems by (auto simp: mark_done_def fun_eq_iff)
    then show ?thesis using Cons False by (auto simp: Signal_eq Let_def wake_wake insert_commute)
  qed
qed simp

lemma leave_eq:
  assumes "db_writers db = w # g @ rest" "distinct (w # g)"
  shows "leave w status (last (w # g)) db = Some (db\<lparr>db_writers := rest, db_writer := mark_done status g (db_writer db),
    db_phase := (wake (set g \<union> set (take 1 rest)) (db_phase db))(w \<mapsto> Returned status)\<rparr>)"
proof -
  have "pop_writers w status (last (w # g)) (w # g @ rest) db =
    Some (db\<lparr>db_writers := rest, db_writer := mark_done status g (db_writer db), db_phase := wake (set g) (db_phase db)\<rparr>)"
  proof (cases "g = []")
    case True
    then show ?thesis by (auto simp: mark_done_def wake_def fun_eq_iff intro!: DBImpl.equality)
  next
    case False
    then show ?thesis using assms(2) pop_followers [of w g status rest "db\<lparr>db_writers := g @ rest\<rparr>"] last_in_set [OF False] by (auto simp: Let_def)
  qed
  then show ?thesis unfolding leave_def assms(1)
    by (cases rest) (simp_all add: Signal_eq wake_wake set_phase_def)
qed

section \<open>What a group is\<close>

text \<open>The batch of a list of operations, with any sequence number.\<close>

definition batch_rep :: "batch_op list \<Rightarrow> WriteBatch \<Rightarrow> bool" where
  "batch_rep xs b \<longleftrightarrow> (\<exists>seq. b = batch seq (of_nat (length xs)) (concat (map op_bytes xs)))"

text \<open>The operations of a list of writers; \<open>ops\<close> has what each writer was called with.\<close>

definition ops_of :: "(writer_ref \<Rightarrow> batch_op list option) \<Rightarrow> writer_ref \<Rightarrow> batch_op list" where
  "ops_of ops w = (case ops w of None \<Rightarrow> [] | Some xs \<Rightarrow> xs)"

definition all_ops :: "(writer_ref \<Rightarrow> batch_op list option) \<Rightarrow> writer_ref list \<Rightarrow> batch_op list" where
  "all_ops ops ws = concat (map (ops_of ops) ws)"

definition writer_rep :: "(writer_ref \<Rightarrow> batch_op list option) \<Rightarrow> (writer_ref \<Rightarrow> DBWriter) \<Rightarrow> writer_ref \<Rightarrow> bool" where
  "writer_rep ops ws w \<longleftrightarrow> (case ops w of None \<Rightarrow> wr_batch (ws w) = None | Some xs \<Rightarrow> \<exists>b. wr_batch (ws w) = Some b \<and> batch_rep xs b)"

lemma all_ops_simps [simp]: "all_ops ops [] = []" "all_ops ops (w # ws) = ops_of ops w @ all_ops ops ws"
  "all_ops ops (ws @ ws') = all_ops ops ws @ all_ops ops ws'"
  by (simp_all add: all_ops_def)

lemma batch_rep_new: "batch_rep xs (fold apply_op xs Clear)"
  by (auto simp: batch_rep_def Clear_batch apply_ops_batch)

lemma batch_rep_Clear: "batch_rep [] Clear"
  by (auto simp: batch_rep_def Clear_batch)

lemma batch_rep_append: "batch_rep xs a \<Longrightarrow> batch_rep ys b \<Longrightarrow> batch_rep (xs @ ys) (Batch_Append a b)"
  by (auto simp: batch_rep_def Batch_Append_batch)

lemma batch_rep_sequence: "batch_rep xs b \<Longrightarrow> SetSequence seq b = batch seq (of_nat (length xs)) (concat (map op_bytes xs))"
  by (auto simp: batch_rep_def batch_facts)

lemma batch_rep_length: "batch_rep xs b \<Longrightarrow> length xs \<le> ApproximateSize b"
proof -
  have "1 \<le> length (op_bytes x)" for x by (cases x) simp_all
  then have "length xs \<le> length (concat (map op_bytes xs))" for xs
  proof (induction xs)
    case (Cons x xs)
    from Cons.prems [of x] Cons.IH [OF Cons.prems] show ?case by simp
  qed simp
  then show "batch_rep xs b \<Longrightarrow> length xs \<le> ApproximateSize b"
    using trans_le_add2 [of "length xs" "length (concat (map op_bytes xs))" 12] by (auto simp: batch_rep_def batch_facts ApproximateSize_def simp del: length_concat)
qed

text \<open>The writers of the group follow the leader, none of them needs a sync that the leader does not, and the batch has their operations in order.\<close>

lemma batch_group_ok:
  assumes "\<forall>v\<in>set (w # h @ rest). writer_rep ops ws v" "ops w \<noteq> None" "leader = ws w" "tmp = Clear"
    and "case result of None \<Rightarrow> all_ops ops h = [] \<and> sz = ApproximateSize (the (wr_batch (ws w)))
       | Some r \<Rightarrow> batch_rep (all_ops ops (w # h)) r \<and> length (all_ops ops (w # h)) \<le> sz \<and> sz \<le> max_sz"
    and "sz \<ge> length (all_ops ops (w # h))" "\<forall>v\<in>set h. wr_sync (ws v) \<longrightarrow> wr_sync leader"
    and "batch_group ws leader tmp max_sz rest sz result (last (w # h)) = (result', last_writer)"
  shows "\<exists>g rest'. h @ rest = g @ rest' \<and> last_writer = last (w # g) \<and> (\<forall>v\<in>set g. wr_sync (ws v) \<longrightarrow> wr_sync leader) \<and>
    (case result' of None \<Rightarrow> all_ops ops g = []
     | Some r \<Rightarrow> batch_rep (all_ops ops (w # g)) r \<and> length (all_ops ops (w # g)) \<le> max_sz)"
  using assms
proof (induction rest arbitrary: h sz result)
  case Nil
  then show ?case by (intro exI [of _ h] exI [of _ "[]"]) (auto split: option.splits)
next
  case (Cons v rest)
  have stop: ?case if "(result', last_writer) = (result, last (w # h))"
    using that Cons.prems(5,7) by (intro exI [of _ h] exI [of _ "v # rest"]) (auto split: option.splits)
  show ?case
  proof (cases "wr_sync (ws v) \<and> \<not> wr_sync leader")
    case True
    then show ?thesis using stop Cons.prems(8) by simp
  next
    case sync: False
    have reps: "\<forall>x\<in>set (w # (h @ [v]) @ rest). writer_rep ops ws x" using Cons.prems(1) by simp
    have h': "\<forall>x\<in>set (h @ [v]). wr_sync (ws x) \<longrightarrow> wr_sync leader" using sync Cons.prems(7) by auto
    show ?thesis
    proof (cases "wr_batch (ws v)")
      case None
      then have "ops_of ops v = []" using Cons.prems(1) by (auto simp: writer_rep_def ops_of_def split: option.splits)
      then have same: "all_ops ops (h @ [v]) = all_ops ops h" "all_ops ops (w # h @ [v]) = all_ops ops (w # h)" by simp_all
      have step: "batch_group ws leader tmp max_sz rest sz result (last (w # h @ [v])) = (result', last_writer)"
        using Cons.prems(8) sync None by simp
      show ?thesis
        using Cons.IH [where h = "h @ [v]" and sz = sz and result = result, OF reps Cons.prems(2-4) _ _ h' step, unfolded same, OF Cons.prems(5,6)]
        unfolding append_assoc append.simps .
    next
      case (Some b)
      then have b: "batch_rep (ops_of ops v) b" using Cons.prems(1) by (auto simp: writer_rep_def ops_of_def split: option.splits)
      let ?sz = "sz + ApproximateSize b"
      show ?thesis
      proof (cases "?sz > max_sz")
        case True
        then show ?thesis using stop Cons.prems(8) sync Some by simp
      next
        case False
        have lead: "batch_rep (ops_of ops w) (the (wr_batch (ws w)))" using Cons.prems(1,2) by (auto simp: writer_rep_def ops_of_def split: option.splits)
        define r where "r = (case result of None \<Rightarrow> Batch_Append tmp (the (wr_batch leader)) | Some r \<Rightarrow> r)"
        have "batch_rep (all_ops ops (w # h)) r"
          using Cons.prems(3,4,5) batch_rep_append [OF batch_rep_Clear lead] by (auto simp: r_def split: option.splits)
        then have r: "batch_rep (all_ops ops (w # h @ [v])) (Batch_Append r b)" using batch_rep_append [OF _ b] by fastforce
        have len: "length (all_ops ops (w # h @ [v])) \<le> ?sz" using Cons.prems(6) batch_rep_length [OF b] by simp
        have step: "batch_group ws leader tmp max_sz rest ?sz (Some (Batch_Append r b)) (last (w # h @ [v])) = (result', last_writer)"
          using Cons.prems(8) sync Some False by (simp add: r_def)
        show ?thesis using Cons.IH [where h = "h @ [v]" and sz = ?sz and result = "Some (Batch_Append r b)", OF reps Cons.prems(2-4) _ _ h' step] r len False by simp
      qed
    qed
  qed
qed

lemma BuildBatchGroup_ok:
  assumes "db_writers db = w # rest" "\<forall>v\<in>set (w # rest). writer_rep ops (db_writer db) v" "ops w = Some xs" "length xs < 2 ^ 31"
    "db_tmp_batch db = Clear" "BuildBatchGroup db = (b, is_tmp, last_writer)"
  shows "\<exists>g rest'. rest = g @ rest' \<and> last_writer = last (w # g) \<and> (\<forall>v\<in>set g. wr_sync (db_writer db v) \<longrightarrow> wr_sync (db_writer db w)) \<and>
    batch_rep (all_ops ops (w # g)) b \<and> length (all_ops ops (w # g)) < 2 ^ 31 \<and> (\<not> is_tmp \<longrightarrow> b = the (wr_batch (db_writer db w)) \<and> all_ops ops g = [])"
proof -
  let ?ws = "db_writer db" let ?b = "the (wr_batch (?ws w))"
  have lead: "batch_rep (ops_of ops w) ?b" using assms(2,3) by (auto simp: writer_rep_def ops_of_def)
  obtain result where r: "batch_group ?ws (?ws w) Clear (max_group_size (ApproximateSize ?b)) rest (ApproximateSize ?b) None w = (result, last_writer)"
    and b: "b = (case result of None \<Rightarrow> ?b | Some r \<Rightarrow> r)" "is_tmp = (result \<noteq> None)"
    using assms(1,5,6) by (cases "batch_group ?ws (?ws w) Clear (max_group_size (ApproximateSize ?b)) rest (ApproximateSize ?b) None w")
      (auto simp: BuildBatchGroup_def Let_def split: option.splits)
  obtain g rest' where g: "rest = g @ rest'" "last_writer = last (w # g)" "\<forall>v\<in>set g. wr_sync (?ws v) \<longrightarrow> wr_sync (?ws w)"
    "case result of None \<Rightarrow> all_ops ops g = []
     | Some r \<Rightarrow> batch_rep (all_ops ops (w # g)) r \<and> length (all_ops ops (w # g)) \<le> max_group_size (ApproximateSize ?b)"
  proof -
    have "\<exists>g rest'. [] @ rest = g @ rest' \<and> last_writer = last (w # g) \<and> (\<forall>v\<in>set g. wr_sync (?ws v) \<longrightarrow> wr_sync (?ws w)) \<and>
      (case result of None \<Rightarrow> all_ops ops g = []
       | Some r \<Rightarrow> batch_rep (all_ops ops (w # g)) r \<and> length (all_ops ops (w # g)) \<le> max_group_size (ApproximateSize ?b))"
      by (rule batch_group_ok [where result = None and sz = "ApproximateSize ?b", OF _ _ refl refl])
        (use assms(2,3) r batch_rep_length [OF lead] in simp_all)
    then show thesis using that by auto
  qed
  have max: "max_group_size n < 2 ^ 31" for n by (simp add: max_group_size_def)
  have "batch_rep (all_ops ops (w # g)) b \<and> length (all_ops ops (w # g)) < 2 ^ 31 \<and> (\<not> is_tmp \<longrightarrow> b = ?b \<and> all_ops ops g = [])"
  proof (cases result)
    case None
    then show ?thesis using g(4) lead assms(3,4) b by (simp add: ops_of_def)
  next
    case (Some r)
    then show ?thesis using g(4) b max [of "ApproximateSize ?b"] by simp
  qed
  then show ?thesis using g(1-3) by blast
qed

end
