(* ===== verification/GroupCommit.thy ===== *)
theory GroupCommit
  imports DbWrite
begin

text \<open>
  Any interleaving of the steps of \<open>DBImpl::Write\<close> (\<open>db/db_impl.cc\<close>), failures of the log included: the calls take effect whole, in the order in
  which they came and exactly if they return without an error; and no call waits for a wake-up that was lost.
\<close>

section \<open>Interleavings\<close>

definition db_start :: "Comparator \<Rightarrow> u64 \<Rightarrow> 'f DBImpl \<Rightarrow> bool" where
  "db_start c n db \<longleftrightarrow> db_writers db = [] \<and> db_phase db = (\<lambda>_. None) \<and> db_tmp_batch db = Clear \<and> mt_rep (db_mem db) [] \<and>
     mt_comparator (db_mem db) = c \<and> db_imm db = None \<and> vs_last_sequence (db_versions db) = n"

text \<open>
  The states that calls get the database into: with the calls so far, in order, and the memtables that the background thread has
  written to tables, newest first. Any number of calls run at the same time. A thread may wake up without a signal. The background thread changes the
  versions, but not the last sequence number; its work ends with \<open>SignalAll\<close>.
\<close>

inductive db_run ::
  "'f LogEnv \<Rightarrow> (MemTable \<Rightarrow> nat) \<Rightarrow> Comparator \<Rightarrow> u64 \<Rightarrow> (writer_ref \<Rightarrow> batch_op list option) \<Rightarrow> writer_ref list \<Rightarrow> MemTable list \<Rightarrow> 'f DBImpl \<Rightarrow> bool"
  for env usage c n ops where
  start: "db_start c n db \<Longrightarrow> db_run env usage c n ops [] [] db"
| enter: "db_run env usage c n ops A F db \<Longrightarrow> w \<notin> set A \<Longrightarrow>
    db_run env usage c n ops (A @ [w]) F (Write_enter w (map_option (\<lambda>xs. fold apply_op xs Clear) (ops w)) sync db)"
| step: "db_run env usage c n ops A F db \<Longrightarrow> writer_step env usage w db = Some db' \<Longrightarrow> db_run env usage c n ops A F db'"
| spurious: "db_run env usage c n ops A F db \<Longrightarrow> db_phase db w = Some Waiting \<Longrightarrow> db_run env usage c n ops A F (set_phase w Woken db)"
| background: "db_run env usage c n ops A F db \<Longrightarrow> vs_last_sequence vs = vs_last_sequence (db_versions db) \<Longrightarrow>
    db_run env usage c n ops A F (SignalAll (db\<lparr>db_versions := vs, db_bg_error := s, db_bg_scheduled := b, db_manual_compaction := mc, db_shutting_down := sd\<rparr>))"
| flush: "db_run env usage c n ops A F db \<Longrightarrow> db_imm db = Some m \<Longrightarrow> vs_last_sequence vs = vs_last_sequence (db_versions db) \<Longrightarrow>
    db_run env usage c n ops A (m # F) (SignalAll (db\<lparr>db_imm := None, db_versions := vs, db_bg_error := s, db_bg_scheduled := b\<rparr>))"

text \<open>The status that a writer that has left the queue returns or has returned.\<close>

fun phase_result :: "DBWriter \<Rightarrow> phase option \<Rightarrow> Status option" where
  "phase_result w (Some (Returned s)) = Some s"
| "phase_result w (Some Woken) = (if wr_done w then Some (wr_status w) else None)"
| "phase_result w _ = None"

definition result :: "'f DBImpl \<Rightarrow> writer_ref \<Rightarrow> Status option" where
  "result db w = phase_result (db_writer db w) (db_phase db w)"

definition leading :: "phase option \<Rightarrow> bool" where
  "leading p \<longleftrightarrow> p \<noteq> None \<and> p \<noteq> Some Waiting \<and> (\<forall>s. p \<noteq> Some (Returned s))"

definition queue_ok :: "writer_ref list \<Rightarrow> 'f DBImpl \<Rightarrow> bool" where
  "queue_ok P db \<longleftrightarrow> distinct (P @ db_writers db) \<and> (\<forall>w. w \<notin> set (P @ db_writers db) \<longrightarrow> db_phase db w = None) \<and>
     (\<forall>w\<in>set P. result db w \<noteq> None) \<and> (\<forall>w\<in>set (db_writers db). \<not> wr_done (db_writer db w)) \<and>
     (\<forall>w\<in>set (tl (db_writers db)). db_phase db w = Some Waiting \<or> db_phase db w = Some Woken) \<and>
     (db_writers db \<noteq> [] \<longrightarrow> leading (db_phase db (hd (db_writers db))))"

definition group_ok :: "(writer_ref \<Rightarrow> batch_op list option) \<Rightarrow> 'f DBImpl \<Rightarrow> writer_ref list \<Rightarrow> WriteBatch \<Rightarrow> bool \<Rightarrow> SequenceNumber \<Rightarrow> writer_ref \<Rightarrow> bool" where
  "group_ok ops db G b is_tmp ls l \<longleftrightarrow> G \<noteq> [] \<and> (\<exists>rest. db_writers db = G @ rest) \<and> l = last G \<and>
     b = batch (vs_last_sequence (db_versions db) + 1) (of_nat (length (all_ops ops G))) (concat (map op_bytes (all_ops ops G))) \<and>
     length (all_ops ops G) < 2 ^ 31 \<and> ls = vs_last_sequence (db_versions db) + of_nat (length (all_ops ops G)) \<and>
     (\<not> is_tmp \<longrightarrow> db_tmp_batch db = Clear)"

text \<open>Why the first writer waits for the background thread.\<close>

definition blocked :: "'f DBImpl \<Rightarrow> bool" where
  "blocked db \<longleftrightarrow> ok (db_bg_error db) \<and> (db_imm db \<noteq> None \<or> NumLevelFiles 0 (db_versions db) \<ge> kL0_StopWritesTrigger)"

text \<open>The phase of the first writer, and the group it is writing.\<close>

definition front :: "'f DBImpl \<Rightarrow> phase option" where
  "front db = (case db_writers db of [] \<Rightarrow> None | w # _ \<Rightarrow> db_phase db w)"

fun front_phase_ok :: "(writer_ref \<Rightarrow> batch_op list option) \<Rightarrow> 'f DBImpl \<Rightarrow> writer_ref list \<Rightarrow> phase option \<Rightarrow> bool" where
  "front_phase_ok ops db G (Some (Writing b is_tmp ls l)) \<longleftrightarrow> group_ok ops db G b is_tmp ls l"
| "front_phase_ok ops db G (Some (Written b is_tmp ls l s e)) \<longleftrightarrow> group_ok ops db G b is_tmp ls l"
| "front_phase_ok ops db G (Some (RoomWaiting force delay)) \<longleftrightarrow> G = [] \<and> db_tmp_batch db = Clear \<and> blocked db"
| "front_phase_ok ops db G _ \<longleftrightarrow> G = [] \<and> db_tmp_batch db = Clear"

definition front_ok :: "(writer_ref \<Rightarrow> batch_op list option) \<Rightarrow> 'f DBImpl \<Rightarrow> writer_ref list \<Rightarrow> bool" where
  "front_ok ops db G \<longleftrightarrow> front_phase_ok ops db G (front db)"

text \<open>The writers that are in the memtable already, and the last sequence number there.\<close>

fun written_group :: "writer_ref list \<Rightarrow> phase option \<Rightarrow> writer_ref list" where
  "written_group G (Some (Written b is_tmp ls l s e)) = (if ok s then G else [])"
| "written_group G _ = []"

fun written_sequence :: "u64 \<Rightarrow> phase option \<Rightarrow> u64" where
  "written_sequence ls0 (Some (Written b is_tmp ls l s e)) = ls"
| "written_sequence ls0 _ = ls0"

definition committed_group :: "'f DBImpl \<Rightarrow> writer_ref list \<Rightarrow> writer_ref list" where
  "committed_group db G = written_group G (front db)"

definition top_sequence :: "'f DBImpl \<Rightarrow> u64" where
  "top_sequence db = written_sequence (vs_last_sequence (db_versions db)) (front db)"

text \<open>Writers with their first sequence numbers: their entries, newest first, and that their numbers do not overlap.\<close>

definition commit_entries :: "(writer_ref \<Rightarrow> batch_op list option) \<Rightarrow> (writer_ref \<times> SequenceNumber) list \<Rightarrow> Entry list" where
  "commit_entries ops C = rev (concat (map (\<lambda>(w, s). batch_entries s (ops_of ops w)) C))"

definition commits_ordered :: "(writer_ref \<Rightarrow> batch_op list option) \<Rightarrow> u64 \<Rightarrow> (writer_ref \<times> SequenceNumber) list \<Rightarrow> u64 \<Rightarrow> bool" where
  "commits_ordered ops n C hi \<longleftrightarrow> sorted_wrt (\<lambda>(w, s) (w', s'). unat s + length (ops_of ops w) \<le> unat s') C \<and>
     (\<forall>(w, s)\<in>set C. unat n < unat s \<and> unat s + length (ops_of ops w) \<le> unat hi + 1)"

definition data_ok ::
  "Comparator \<Rightarrow> u64 \<Rightarrow> (writer_ref \<Rightarrow> batch_op list option) \<Rightarrow> writer_ref list \<Rightarrow> writer_ref list \<Rightarrow> MemTable list \<Rightarrow> (writer_ref \<times> SequenceNumber) list \<Rightarrow>
   Entry list \<Rightarrow> Entry list \<Rightarrow> Entry list list \<Rightarrow> 'f DBImpl \<Rightarrow> bool" where
  "data_ok c n ops P G F C M I Is db \<longleftrightarrow> mt_rep (db_mem db) M \<and> mt_comparator (db_mem db) = c \<and>
     (case db_imm db of None \<Rightarrow> I = [] | Some m \<Rightarrow> mt_rep m I \<and> mt_comparator m = c) \<and> list_all2 (\<lambda>m es. mt_rep m es \<and> mt_comparator m = c) F Is \<and>
     M @ I @ concat Is = commit_entries ops C \<and>
     map fst C = filter (\<lambda>w. ops w \<noteq> None \<and> result db w = Some OK) P @ filter (\<lambda>w. ops w \<noteq> None) (committed_group db G) \<and>
     commits_ordered ops n C (top_sequence db) \<and> n \<le> vs_last_sequence (db_versions db) \<and> unat (vs_last_sequence (db_versions db)) \<le> unat n + length (all_ops ops P)"

definition db_inv :: "Comparator \<Rightarrow> u64 \<Rightarrow> (writer_ref \<Rightarrow> batch_op list option) \<Rightarrow> writer_ref list \<Rightarrow> MemTable list \<Rightarrow> 'f DBImpl \<Rightarrow> bool" where
  "db_inv c n ops A F db \<longleftrightarrow> (\<exists>P G C M I Is. A = P @ db_writers db \<and> queue_ok P db \<and> (\<forall>w\<in>set (db_writers db). writer_rep ops (db_writer db) w) \<and>
     front_ok ops db G \<and> data_ok c n ops P G F C M I Is db)"

lemma db_invI:
  "A = P @ db_writers db \<Longrightarrow> queue_ok P db \<Longrightarrow> \<forall>w\<in>set (db_writers db). writer_rep ops (db_writer db) w \<Longrightarrow> front_ok ops db G \<Longrightarrow>
   data_ok c n ops P G F C M I Is db \<Longrightarrow> db_inv c n ops A F db"
  unfolding db_inv_def by blast

lemma db_invE:
  assumes "db_inv c n ops A F db"
  obtains P G C M I Is where "A = P @ db_writers db" "queue_ok P db" "\<forall>w\<in>set (db_writers db). writer_rep ops (db_writer db) w" "front_ok ops db G"
    "data_ok c n ops P G F C M I Is db"
  using assms unfolding db_inv_def by - (elim exE conjE, rule that)

lemma data_ok_cong:
  assumes "data_ok c n ops P G F C M I Is db" "db_mem db' = db_mem db" "db_imm db' = db_imm db"
    "vs_last_sequence (db_versions db') = vs_last_sequence (db_versions db)" "\<And>w. w \<in> set P \<Longrightarrow> result db' w = result db w"
    "committed_group db' G' = committed_group db G" "top_sequence db' = top_sequence db"
  shows "data_ok c n ops P G' F C M I Is db'"
proof -
  have "filter (\<lambda>w. ops w \<noteq> None \<and> result db' w = Some OK) P = filter (\<lambda>w. ops w \<noteq> None \<and> result db w = Some OK) P"
    using assms(5) by (intro filter_cong) auto
  then show ?thesis using assms unfolding data_ok_def by simp
qed

section \<open>Steps that change phases only\<close>

lemma result_simps [simp]:
  "result (db\<lparr>db_mem := m\<rparr>) = result db" "result (db\<lparr>db_imm := i\<rparr>) = result db" "result (db\<lparr>db_log := lg\<rparr>) = result db"
  "result (db\<lparr>db_versions := vs\<rparr>) = result db" "result (db\<lparr>db_tmp_batch := t\<rparr>) = result db" "result (db\<lparr>db_bg_error := s\<rparr>) = result db"
  "result (db\<lparr>db_bg_scheduled := b\<rparr>) = result db" "result (db\<lparr>db_number := k\<rparr>) = result db" "result (db\<lparr>db_logfile_number := k\<rparr>) = result db"
  "result (db\<lparr>db_writers := q\<rparr>) = result db" "result (db\<lparr>db_manual_compaction := b\<rparr>) = result db" "result (db\<lparr>db_shutting_down := b\<rparr>) = result db"
  by (auto simp: result_def fun_eq_iff)

text \<open>The thread of the first writer is the only one that makes room and writes.\<close>

lemma leader_first:
  assumes "queue_ok P db" "db_phase db w \<notin> {None, Some Waiting, Some Woken}" "\<forall>s. db_phase db w \<noteq> Some (Returned s)"
  shows "\<exists>rest. db_writers db = w # rest"
proof -
  have "w \<in> set (P @ db_writers db)" using assms(1,2) unfolding queue_ok_def by blast
  moreover obtain p where p: "db_phase db w = Some p" using assms(2) by (cases "db_phase db w") auto
  then have "result db w = None" using assms(2,3) by (cases p) (simp_all add: result_def)
  then have "w \<notin> set P" using assms(1) unfolding queue_ok_def by blast
  moreover have "w \<notin> set (tl (db_writers db))" using assms(1,2) unfolding queue_ok_def by blast
  ultimately show ?thesis by (cases "db_writers db") auto
qed

lemma set_phase_simps [simp]:
  "db_writers (set_phase w p db) = db_writers db" "db_writer (set_phase w p db) = db_writer db" "db_phase (set_phase w p db) v = (if v = w then Some p else db_phase db v)"
  "db_tmp_batch (set_phase w p db) = db_tmp_batch db" "db_mem (set_phase w p db) = db_mem db" "db_imm (set_phase w p db) = db_imm db"
  "db_versions (set_phase w p db) = db_versions db" "db_bg_error (set_phase w p db) = db_bg_error db" "db_log (set_phase w p db) = db_log db"
  "db_write_buffer_size (set_phase w p db) = db_write_buffer_size db"
  by (simp_all add: set_phase_def)

lemma SignalAll_simps [simp]:
  "db_writers (SignalAll db) = db_writers db" "db_writer (SignalAll db) = db_writer db"
  "db_tmp_batch (SignalAll db) = db_tmp_batch db" "db_mem (SignalAll db) = db_mem db" "db_imm (SignalAll db) = db_imm db"
  "db_versions (SignalAll db) = db_versions db" "db_bg_error (SignalAll db) = db_bg_error db" "db_log (SignalAll db) = db_log db"
  by (simp_all add: SignalAll_def)

lemma SignalAll_phase:
  "db_phase (SignalAll db) w = (case db_phase db w of Some (RoomWaiting force delay) \<Rightarrow> Some (MakingRoom force delay) | p \<Rightarrow> p)"
  by (simp add: SignalAll_def)

lemma SignalAll_result [simp]: "result (SignalAll db) = result db"
  by (auto simp: SignalAll_phase result_def fun_eq_iff split: option.split phase.split)

lemma front_set_phase: "front (set_phase w p db) = (if db_writers db \<noteq> [] \<and> hd (db_writers db) = w then Some p else front db)"
  by (cases "db_writers db") (auto simp: front_def)

lemma queue_ok_leading:
  assumes "queue_ok P db" "db_writers db = w # rest" "leading (Some p)"
  shows "queue_ok P (set_phase w p db)"
  using assms by (auto simp: queue_ok_def result_def)

lemma queue_ok_cong:
  assumes "queue_ok P db" "db_writers db' = db_writers db" "db_phase db' = db_phase db" "\<And>v. wr_done (db_writer db' v) = wr_done (db_writer db v)"
    "\<And>v. v \<in> set P \<Longrightarrow> result db' v = result db v"
  shows "queue_ok P db'"
  using assms unfolding queue_ok_def by simp

lemma queue_ok_SignalAll: "queue_ok P db \<Longrightarrow> queue_ok P (SignalAll db)"
  unfolding queue_ok_def SignalAll_simps by (fastforce simp: SignalAll_phase leading_def split: option.splits phase.splits)

lemma front_SignalAll: "front (SignalAll db) = (case front db of Some (RoomWaiting force delay) \<Rightarrow> Some (MakingRoom force delay) | p \<Rightarrow> p)"
  by (simp add: front_def SignalAll_phase split: list.split)

lemma group_ok_cong:
  "group_ok ops db G b is_tmp ls l \<Longrightarrow> db_writers db' = db_writers db @ ws \<Longrightarrow> vs_last_sequence (db_versions db') = vs_last_sequence (db_versions db) \<Longrightarrow>
   db_tmp_batch db' = db_tmp_batch db \<Longrightarrow> group_ok ops db' G b is_tmp ls l"
  by (auto simp: group_ok_def)

lemma front_phase_ok_cong:
  assumes "front_phase_ok ops db G p" "db_writers db' = db_writers db @ ws" "vs_last_sequence (db_versions db') = vs_last_sequence (db_versions db)"
    "db_tmp_batch db' = db_tmp_batch db" "blocked db \<longrightarrow> blocked db'"
  shows "front_phase_ok ops db' G p"
  using assms group_ok_cong [OF _ assms(2-4)] by (cases "(ops, db, G, p)" rule: front_phase_ok.cases) auto

lemma front_ok_SignalAll:
  assumes "front_ok ops db G" shows "front_ok ops (SignalAll db) G"
proof -
  have "front_phase_ok ops (SignalAll db) G (front db)"
    by (rule front_phase_ok_cong [where ws = "[]", OF assms [unfolded front_ok_def]]) (simp_all add: blocked_def)
  then show ?thesis unfolding front_ok_def front_SignalAll by (auto split: option.split phase.split)
qed

lemma group_SignalAll [simp]: "committed_group (SignalAll db) G = committed_group db G" "top_sequence (SignalAll db) = top_sequence db"
  by (simp_all add: committed_group_def top_sequence_def front_SignalAll split: option.split phase.split)

lemma data_ok_SignalAll: "data_ok c n ops P G F C M I Is db \<Longrightarrow> data_ok c n ops P G F C M I Is (SignalAll db)"
  by (rule data_ok_cong) simp_all

text \<open>The first writer goes to a phase in which it has no group.\<close>

definition no_group :: "phase \<Rightarrow> bool" where
  "no_group p \<longleftrightarrow> (case p of Woken \<Rightarrow> True | MakingRoom _ _ \<Rightarrow> True | RoomWaiting _ _ \<Rightarrow> True | _ \<Rightarrow> False)"

lemma set_front:
  assumes inv: "db_inv c n ops A F db" and q: "db_writers db = w # rest" and p: "no_group (the (db_phase db w))" "no_group p"
    and b: "\<And>force delay. p = RoomWaiting force delay \<Longrightarrow> blocked db"
  shows "db_inv c n ops A F (set_phase w p db)"
proof -
  obtain P G C M I Is where i: "A = P @ db_writers db" "queue_ok P db" "\<forall>w\<in>set (db_writers db). writer_rep ops (db_writer db) w" "front_ok ops db G"
    "data_ok c n ops P G F C M I Is db" using inv by (rule db_invE)
  have w: "w \<notin> set P" "leading (db_phase db w)" using i(2) q by (auto simp: queue_ok_def)
  then obtain p' where p': "db_phase db w = Some p'" "no_group p'" using p(1) by (cases "db_phase db w") (auto simp: leading_def)
  have "queue_ok P (set_phase w p db)"
    by (rule queue_ok_leading [OF i(2) q]) (use p(2) in \<open>auto simp: no_group_def leading_def\<close>)
  have f: "front db = Some p'" "front (set_phase w p db) = Some p" using q p' by (simp_all add: front_def)
  have "front_phase_ok ops (set_phase w p db) G (Some p)"
    using i(4) p'(2) p(2) b unfolding front_ok_def f by (cases p; cases p') (auto simp: no_group_def blocked_def)
  moreover have "data_ok c n ops P G F C M I Is (set_phase w p db)"
  proof (rule data_ok_cong [OF i(5)])
    show "committed_group (set_phase w p db) G = committed_group db G" "top_sequence (set_phase w p db) = top_sequence db"
      using p'(2) p(2) unfolding committed_group_def top_sequence_def f by (cases p; cases p'; simp add: no_group_def)+
    show "\<And>v. v \<in> set P \<Longrightarrow> result (set_phase w p db) v = result db v" using w(1) by (auto simp: result_def)
  qed simp_all
  ultimately show ?thesis using i(1,3) \<open>queue_ok P (set_phase w p db)\<close> by (intro db_invI [of A P _ ops G]) (simp_all add: front_ok_def f)
qed

lemma enter_ok:
  assumes inv: "db_inv c n ops A F db" and w: "w \<notin> set A"
  shows "db_inv c n ops (A @ [w]) F (Write_enter w (map_option (\<lambda>xs. fold apply_op xs Clear) (ops w)) sync db)"
proof -
  obtain P G C M I Is where i: "A = P @ db_writers db" "queue_ok P db" "\<forall>w\<in>set (db_writers db). writer_rep ops (db_writer db) w" "front_ok ops db G"
    "data_ok c n ops P G F C M I Is db" using inv by (rule db_invE)
  let ?u = "map_option (\<lambda>xs. fold apply_op xs Clear) (ops w)"
  let ?db = "db\<lparr>db_writer := (db_writer db)(w := \<lparr>wr_status = OK, wr_batch = ?u, wr_sync = sync, wr_done = False\<rparr>), db_writers := db_writers db @ [w]\<rparr>"
  let ?p = "if db_writers db = [] then MakingRoom (?u = None) (?u \<noteq> None) else Waiting"
  have eq: "Write_enter w ?u sync db = set_phase w ?p ?db"
    using w i(1) by (cases "db_writers db") (auto simp: Write_enter_def wait_turn_def Let_def)
  have other: "v \<noteq> w" if "v \<in> set P \<or> v \<in> set (db_writers db)" for v using that w i(1) by auto
  have "queue_ok P (set_phase w ?p ?db)"
    using i(2) w i(1) other by (cases "db_writers db") (auto simp: queue_ok_def result_def leading_def)
  moreover have "\<forall>v\<in>set (db_writers db @ [w]). writer_rep ops (db_writer ?db) v"
    using i(3) other batch_rep_new by (auto simp: writer_rep_def split: option.splits)
  moreover have f: "front (set_phase w ?p ?db) = (if db_writers db = [] then Some ?p else front db)"
    using other by (cases "db_writers db") (auto simp: front_def)
  have "front_phase_ok ops (set_phase w ?p ?db) G (front db)"
    by (rule front_phase_ok_cong [where ws = "[w]", OF i(4) [unfolded front_ok_def]]) (simp_all add: blocked_def)
  then have "front_ok ops (set_phase w ?p ?db) G" unfolding front_ok_def f by (cases "db_writers db") (simp_all add: front_def)
  moreover have "data_ok c n ops P G F C M I Is (set_phase w ?p ?db)"
  proof (rule data_ok_cong [OF i(5)])
    show "committed_group (set_phase w ?p ?db) G = committed_group db G" "top_sequence (set_phase w ?p ?db) = top_sequence db"
      unfolding committed_group_def top_sequence_def f by (cases "db_writers db"; simp add: front_def)+
    show "\<And>v. v \<in> set P \<Longrightarrow> result (set_phase w ?p ?db) v = result db v" using other by (auto simp: result_def)
  qed simp_all
  ultimately show ?thesis using i(1) unfolding eq by (intro db_invI [of _ P _ ops G]) simp_all
qed

text \<open>A thread that waits, or has left the queue, changes its phase.\<close>

lemma set_follower:
  assumes inv: "db_inv c n ops A F db" and q: "db_writers db = [] \<or> w \<noteq> hd (db_writers db)"
    and p: "w \<in> set (db_writers db) \<Longrightarrow> p = Waiting \<or> p = Woken" "w \<notin> set (db_writers db) \<Longrightarrow> phase_result (db_writer db w) (Some p) = result db w" "db_phase db w \<noteq> None"
  shows "db_inv c n ops A F (set_phase w p db)"
proof -
  obtain P G C M I Is where i: "A = P @ db_writers db" "queue_ok P db" "\<forall>w\<in>set (db_writers db). writer_rep ops (db_writer db) w" "front_ok ops db G"
    "data_ok c n ops P G F C M I Is db" using inv by (rule db_invE)
  have res: "result (set_phase w p db) v = result db v" if "v \<in> set P" for v
    using that p(2) i(2) by (auto simp: result_def queue_ok_def)
  have "queue_ok P (set_phase w p db)"
    using i(2) q p(1,3) res by (cases "db_writers db") (auto simp: queue_ok_def)
  moreover have f: "front (set_phase w p db) = front db" using q by (auto simp: front_set_phase)
  have "front_ok ops (set_phase w p db) G" unfolding front_ok_def f
    by (rule front_phase_ok_cong [where ws = "[]", OF i(4) [unfolded front_ok_def]]) (simp_all add: blocked_def)
  moreover have "data_ok c n ops P G F C M I Is (set_phase w p db)"
  proof (rule data_ok_cong [OF i(5)])
    show "committed_group (set_phase w p db) G = committed_group db G" "top_sequence (set_phase w p db) = top_sequence db"
      by (simp_all add: committed_group_def top_sequence_def f)
    show "\<And>v. v \<in> set P \<Longrightarrow> result (set_phase w p db) v = result db v" by (rule res)
  qed simp_all
  ultimately show ?thesis using i(1,3) by (intro db_invI [of A P _ ops G]) simp_all
qed

lemma wait_turn_ok:
  assumes inv: "db_inv c n ops A F db" and w: "db_phase db w = Some Woken"
  shows "db_inv c n ops A F (wait_turn w db)"
proof -
  obtain P where P: "queue_ok P db" using inv unfolding db_inv_def by blast
  have mem: "w \<in> set P \<or> w \<in> set (db_writers db)" using P w unfolding queue_ok_def by force
  show ?thesis
  proof (cases "w \<in> set (db_writers db)")
    case False
    then have "result db w \<noteq> None" using P mem unfolding queue_ok_def by blast
    then have "wr_done (db_writer db w)" using w by (simp add: result_def split: if_splits)
    then show ?thesis using False w set_follower [OF inv, of w] by (cases "db_writers db") (auto simp: wait_turn_def result_def)
  next
    case True
    then have nd: "\<not> wr_done (db_writer db w)" using P unfolding queue_ok_def by blast
    show ?thesis
    proof (cases "w = hd (db_writers db)")
      case True
      then obtain rest where "db_writers db = w # rest" using \<open>w \<in> set (db_writers db)\<close> by (cases "db_writers db") auto
      then have "db_inv c n ops A F (set_phase w (MakingRoom force delay) db)" for force delay
        by (rule set_front [OF inv]) (use w in \<open>simp_all add: no_group_def\<close>)
      then show ?thesis using nd True by (simp add: wait_turn_def Let_def)
    next
      case False
      then show ?thesis using nd w True set_follower [OF inv, of w Waiting] by (simp add: wait_turn_def)
    qed
  qed
qed

lemma spurious_ok:
  assumes inv: "db_inv c n ops A F db" and w: "db_phase db w = Some Waiting"
  shows "db_inv c n ops A F (set_phase w Woken db)"
proof (rule set_follower [OF inv])
  obtain P where P: "queue_ok P db" using inv unfolding db_inv_def by blast
  then show "db_writers db = [] \<or> w \<noteq> hd (db_writers db)" using w unfolding queue_ok_def leading_def by blast
  have "result db w = None" using w by (simp add: result_def)
  then have "w \<notin> set P" using P unfolding queue_ok_def by blast
  moreover have "w \<in> set (P @ db_writers db)" using P w unfolding queue_ok_def by (metis option.distinct(1))
  ultimately have "w \<in> set (db_writers db)" by simp
  then show "w \<notin> set (db_writers db) \<Longrightarrow> phase_result (db_writer db w) (Some Woken) = result db w" by simp
qed (use w in simp_all)

section \<open>Leaving the queue\<close>

lemma leave_ok:
  assumes queue: "queue_ok P db" and q: "db_writers db = w # g @ rest" and rep: "\<forall>v\<in>set (db_writers db). writer_rep ops (db_writer db) v"
    and tmp: "db_tmp_batch db = Clear"
  shows "\<exists>db'. leave w status (last (w # g)) db = Some db' \<and> queue_ok (P @ w # g) db' \<and> db_writers db' = rest \<and>
    (\<forall>v\<in>set rest. writer_rep ops (db_writer db') v) \<and> front_ok ops db' [] \<and> committed_group db' [] = [] \<and>
    top_sequence db' = vs_last_sequence (db_versions db) \<and> db_mem db' = db_mem db \<and> db_imm db' = db_imm db \<and> db_versions db' = db_versions db \<and>
    (\<forall>v\<in>set P. result db' v = result db v) \<and> (\<forall>v\<in>set (w # g). result db' v = Some status)"
proof -
  have d: "distinct (P @ w # g @ rest)" using queue q by (simp add: queue_ok_def)
  define db' where "db' = db\<lparr>db_writers := rest, db_writer := mark_done status g (db_writer db),
    db_phase := (wake (set g \<union> set (take 1 rest)) (db_phase db))(w \<mapsto> Returned status)\<rparr>"
  have leave: "leave w status (last (w # g)) db = Some db'"
    unfolding db'_def using d by (intro leave_eq [OF q]) simp
  have follow: "db_phase db v = Some Waiting \<or> db_phase db v = Some Woken" if "v \<in> set (g @ rest)" for v
    using queue q that by (auto simp: queue_ok_def)
  have res: "result db' v = result db v" if "v \<in> set P" for v
  proof -
    have "result db v \<noteq> None" using queue that unfolding queue_ok_def by blast
    then have "db_phase db v \<noteq> Some Waiting" by (auto simp: result_def)
    then show ?thesis using that d by (auto simp: result_def db'_def mark_done_def wake_def)
  qed
  have new: "result db' v = Some status" if "v \<in> set (w # g)" for v
    using that d follow [of v] by (auto simp: result_def db'_def mark_done_def wake_def)
  have head: "db_phase db' (hd rest) = Some Woken" if "rest \<noteq> []"
    using that d follow [of "hd rest"] by (cases rest) (auto simp: db'_def wake_def)
  have tl: "db_phase db' v = Some Waiting \<or> db_phase db' v = Some Woken" if "v \<in> set rest" for v
    using that d follow [of v] by (auto simp: db'_def wake_def)
  have "db_phase db' v = None" if "v \<notin> set (P @ w # g @ rest)" for v
    using that queue q by (auto simp: queue_ok_def db'_def wake_def)
  moreover have "\<forall>v\<in>set rest. \<not> wr_done (db_writer db' v)" using queue q d by (auto simp: queue_ok_def db'_def mark_done_def)
  moreover have rest: "db_writers db' = rest" by (simp add: db'_def)
  moreover have "result db' v \<noteq> None" if "v \<in> set (P @ w # g)" for v
    using that res [of v] new [of v] queue unfolding queue_ok_def by (cases "v \<in> set P") auto
  moreover have "db_phase db' v = Some Waiting \<or> db_phase db' v = Some Woken" if "v \<in> set (tl rest)" for v
    using that tl [of v] by (cases rest) auto
  ultimately have "queue_ok (P @ w # g) db'"
    using d head unfolding queue_ok_def leading_def by simp
  moreover have "writer_rep ops (db_writer db') v" if "v \<in> set rest" for v
  proof -
    have "db_writer db' v = db_writer db v" using that d by (auto simp: db'_def mark_done_def)
    then have "writer_rep ops (db_writer db') v \<longleftrightarrow> writer_rep ops (db_writer db) v" by (simp only: writer_rep_def)
    then show ?thesis using rep q that by simp
  qed
  then have "\<forall>v\<in>set rest. writer_rep ops (db_writer db') v" by blast
  moreover have f: "front db' = (if rest = [] then None else Some Woken)" using head by (cases rest) (simp_all add: front_def db'_def)
  then have "front_ok ops db' []" using tmp by (simp add: front_ok_def db'_def)
  moreover have "committed_group db' [] = []" "top_sequence db' = vs_last_sequence (db_versions db)"
    using f by (auto simp: committed_group_def top_sequence_def db'_def)
  moreover have "db_writers db' = rest" "db_mem db' = db_mem db" "db_imm db' = db_imm db" "db_versions db' = db_versions db" by (simp_all add: db'_def)
  ultimately show ?thesis using leave res new by blast
qed

text \<open>The queue is left with an error, or by a call without a batch, before anything is written.\<close>

lemma leave_early:
  assumes inv: "db_inv c n ops A F db" and q: "db_writers db = w # rest" and p: "no_group (the (db_phase db w))"
    and s: "ops w = None \<or> status \<noteq> OK" and l: "leave w status w db = Some db'"
  shows "db_inv c n ops A F db'"
proof -
  obtain P G C M I Is where i: "A = P @ db_writers db" "queue_ok P db" "\<forall>w\<in>set (db_writers db). writer_rep ops (db_writer db) w" "front_ok ops db G"
    "data_ok c n ops P G F C M I Is db" using inv by (rule db_invE)
  obtain p' where p': "front db = Some p'" "no_group p'"
    using i(2) q p by (cases "db_phase db w") (auto simp: front_def queue_ok_def leading_def)
  then have "db_tmp_batch db = Clear" and g: "committed_group db G = []" "top_sequence db = vs_last_sequence (db_versions db)"
    using i(4) by (cases p'; simp add: front_ok_def no_group_def committed_group_def top_sequence_def)+
  from leave_ok [OF i(2) _ i(3) this(1), of w "[]" rest status] q l obtain db'' where
    d: "db'' = db'" "queue_ok (P @ [w]) db''" "db_writers db'' = rest" "\<forall>v\<in>set rest. writer_rep ops (db_writer db'') v" "front_ok ops db'' []"
    "committed_group db'' [] = []" "top_sequence db'' = vs_last_sequence (db_versions db)" "db_mem db'' = db_mem db" "db_imm db'' = db_imm db"
    "db_versions db'' = db_versions db" "\<forall>v\<in>set P. result db'' v = result db v" "result db'' w = Some status" by auto
  have "data_ok c n ops P [] F C M I Is db'"
    by (rule data_ok_cong [OF i(5)]) (use d g in simp_all)
  then have "data_ok c n ops (P @ [w]) [] F C M I Is db'" using s d(1,12) by (auto simp: data_ok_def)
  then show ?thesis using i(1) d q by (intro db_invI [of A "P @ [w]" _ ops "[]"]) simp_all
qed

section \<open>Making room\<close>

lemma scast_count:
  assumes "k < 2 ^ 31"
  shows "(scast (of_nat k :: u32) :: u64) = of_nat k"
proof -
  have "sint (of_nat k :: u32) = int k" using assms by (simp add: signed_of_nat signed_take_bit_int_eq_self)
  then have "(of_int (sint (of_nat k :: u32)) :: u64) = of_nat k" by (simp only: of_int_of_nat_eq)
  then show ?thesis by (simp only: of_int_sint)
qed

lemma start_write_ok:
  assumes inv: "db_inv c n ops A F db" and q: "db_writers db = w # rest" and p: "no_group (the (db_phase db w))"
    and ops: "\<And>xs. ops w = Some xs \<Longrightarrow> length xs < 2 ^ 31" and step: "start_write w status db = Some db'"
  shows "db_inv c n ops A F db'"
proof -
  obtain P G C M I Is where i: "A = P @ db_writers db" "queue_ok P db" "\<forall>w\<in>set (db_writers db). writer_rep ops (db_writer db) w" "front_ok ops db G"
    "data_ok c n ops P G F C M I Is db" using inv by (rule db_invE)
  have none: "wr_batch (db_writer db w) = None \<longleftrightarrow> ops w = None" using i(3) q by (auto simp: writer_rep_def split: option.splits)
  show ?thesis
  proof (cases "ok status \<and> wr_batch (db_writer db w) \<noteq> None")
    case False
    then have "leave w status w db = Some db'" using step by (auto simp: start_write_def Let_def)
    then show ?thesis using leave_early [OF inv q p] False none by auto
  next
    case True
    then obtain xs where xs: "ops w = Some xs" using none by auto
    obtain p' where p': "front db = Some p'" "no_group p'"
      using i(2) q p by (cases "db_phase db w") (auto simp: front_def queue_ok_def leading_def)
    then have tmp: "db_tmp_batch db = Clear" and g: "committed_group db G = []" "top_sequence db = vs_last_sequence (db_versions db)"
      using i(4) by (cases p'; simp add: front_ok_def no_group_def committed_group_def top_sequence_def)+
    obtain b is_tmp l where build: "BuildBatchGroup db = (b, is_tmp, l)" by (cases "BuildBatchGroup db")
    have reps: "\<forall>v\<in>set (w # rest). writer_rep ops (db_writer db) v" using i(3) q by simp
    obtain h rest' where h: "rest = h @ rest'" "l = last (w # h)" "batch_rep (all_ops ops (w # h)) b" "length (all_ops ops (w # h)) < 2 ^ 31"
      "\<not> is_tmp \<longrightarrow> b = the (wr_batch (db_writer db w)) \<and> all_ops ops h = []"
      using BuildBatchGroup_ok [OF q reps xs ops [OF xs] tmp build] by - (elim exE conjE, rule that)
    let ?G = "w # h" and ?ls = "vs_last_sequence (db_versions db)"
    define os where "os = all_ops ops ?G"
    define b' where "b' = batch (?ls + 1) (of_nat (length os)) (concat (map op_bytes os))"
    have b': "SetSequence (?ls + 1) b = b'" unfolding b'_def os_def by (rule batch_rep_sequence [OF h(3)])
    have count: "(scast (Count b') :: u64) = of_nat (length os)"
      using scast_count [OF h(4)] by (simp only: b'_def batch_facts os_def)
    define db1 where "db1 = (if is_tmp then db\<lparr>db_tmp_batch := b'\<rparr> else db\<lparr>db_writer := (db_writer db)(w := (db_writer db w)\<lparr>wr_batch := Some b'\<rparr>)\<rparr>)"
    let ?p = "Writing b' is_tmp (?ls + of_nat (length os)) l"
    have "start_write w status db = Some (set_phase w ?p db1)"
      unfolding start_write_def Let_def build prod.case b' count db1_def if_P [OF True] ..
    then have db': "db' = set_phase w ?p db1" using step by simp
    have same: "db_writers db1 = db_writers db" "db_phase db1 = db_phase db" "db_versions db1 = db_versions db" "db_mem db1 = db_mem db" "db_imm db1 = db_imm db"
      "\<And>v. v \<noteq> w \<Longrightarrow> db_writer db1 v = db_writer db v" "\<And>v. wr_done (db_writer db1 v) = wr_done (db_writer db v)" by (simp_all add: db1_def)
    have w: "w \<notin> set P" using i(2) q by (auto simp: queue_ok_def)
    have res1: "result db1 v = result db v" if "v \<in> set P" for v
    proof -
      have "v \<noteq> w" using that w by blast
      then show ?thesis using same(6) by (simp add: result_def same(2))
    qed
    have res: "result db' v = result db v" if "v \<in> set P" for v
      using res1 [OF that] that w by (auto simp: db' result_def)
    have "queue_ok P db1" by (rule queue_ok_cong [OF i(2) same(1,2,7) res1])
    then have "queue_ok P db'" unfolding db' by (rule queue_ok_leading) (use q in \<open>simp_all add: same(1) leading_def\<close>)
    moreover have "writer_rep ops (db_writer db') v" if "v \<in> set (db_writers db)" for v
    proof (cases "v = w \<and> \<not> is_tmp")
      case True
      then have "batch_rep xs b'" using h(5) xs True by (auto simp: batch_rep_def b'_def os_def ops_of_def)
      then show ?thesis using True xs by (simp add: db' db1_def writer_rep_def)
    next
      case False
      then have "db_writer db' v = db_writer db v" by (auto simp: db' db1_def)
      then have "writer_rep ops (db_writer db') v \<longleftrightarrow> writer_rep ops (db_writer db) v" by (simp only: writer_rep_def)
      then show ?thesis using i(3) that by simp
    qed
    moreover have f: "front db' = Some ?p" using q by (simp add: db' front_def same(1))
    moreover have "group_ok ops db' ?G b' is_tmp (?ls + of_nat (length os)) l"
      using q h(1,2,4) tmp unfolding group_ok_def os_def [symmetric] by (simp add: db' db1_def b'_def)
    moreover have "data_ok c n ops P ?G F C M I Is db'"
    proof (rule data_ok_cong [OF i(5)])
      show "committed_group db' ?G = committed_group db G" "top_sequence db' = top_sequence db"
        unfolding g committed_group_def [of db'] top_sequence_def [of db'] f by (simp_all add: db' same)
    qed (use res in \<open>simp_all add: db' same\<close>)
    ultimately show ?thesis using i(1) by (intro db_invI [of A P db' ops ?G]) (simp_all add: front_ok_def db' same(1))
  qed
qed

lemma inv_fields:
  assumes inv: "db_inv c n ops A F db" and f: "\<And>force delay. front db \<noteq> Some (RoomWaiting force delay)"
    and same: "db_writers db' = db_writers db" "db_writer db' = db_writer db" "db_phase db' = db_phase db" "db_tmp_batch db' = db_tmp_batch db"
      "db_mem db' = db_mem db" "db_imm db' = db_imm db" "vs_last_sequence (db_versions db') = vs_last_sequence (db_versions db)"
  shows "db_inv c n ops A F db'"
proof -
  obtain P G C M I Is where i: "A = P @ db_writers db" "queue_ok P db" "\<forall>w\<in>set (db_writers db). writer_rep ops (db_writer db) w" "front_ok ops db G"
    "data_ok c n ops P G F C M I Is db" using inv by (rule db_invE)
  have f': "front db' = front db" unfolding front_def same ..
  have "group_ok ops db' G b t ls l \<longleftrightarrow> group_ok ops db G b t ls l" for b t ls l by (simp add: group_ok_def same)
  then have "front_ok ops db' G" using i(4) f unfolding front_ok_def f' by (cases "(ops, db, G, front db)" rule: front_phase_ok.cases) (auto simp: same)
  moreover have "queue_ok P db'" using i(2) by (rule queue_ok_cong) (simp_all add: same result_def)
  moreover have "data_ok c n ops P G F C M I Is db'"
    by (rule data_ok_cong [OF i(5)]) (simp_all add: same f' result_def committed_group_def top_sequence_def)
  ultimately show ?thesis using i(1,3) by (intro db_invI [of A P db' ops G]) (simp_all add: same)
qed

lemma inv_SignalAll:
  assumes "db_inv c n ops A F db"
  shows "db_inv c n ops A F (SignalAll db)"
proof -
  obtain P G C M I Is where i: "A = P @ db_writers db" "queue_ok P db" "\<forall>w\<in>set (db_writers db). writer_rep ops (db_writer db) w" "front_ok ops db G"
    "data_ok c n ops P G F C M I Is db" using assms by (rule db_invE)
  then show ?thesis using queue_ok_SignalAll front_ok_SignalAll data_ok_SignalAll by (intro db_invI [of A P _ ops G]) simp_all
qed

lemma front_not_waiting: "front (SignalAll db) \<noteq> Some (RoomWaiting force delay)"
  by (simp add: front_SignalAll split: option.split phase.split)

lemma background_ok:
  assumes "db_inv c n ops A F db" "vs_last_sequence vs = vs_last_sequence (db_versions db)"
  shows "db_inv c n ops A F (SignalAll (db\<lparr>db_versions := vs, db_bg_error := s, db_bg_scheduled := b, db_manual_compaction := mc, db_shutting_down := sd\<rparr>))"
  by (rule inv_fields [OF inv_SignalAll [OF assms(1)] front_not_waiting]) (simp_all add: assms(2), simp add: SignalAll_def)

text \<open>The immutable memtable is written to a table.\<close>

lemma inv_imm:
  assumes inv: "db_inv c n ops A F db" and f: "\<And>force delay. front db \<noteq> Some (RoomWaiting force delay)" and imm: "db_imm db = Some m"
  shows "db_inv c n ops A (m # F) (db\<lparr>db_imm := None\<rparr>)"
proof -
  let ?db = "db\<lparr>db_imm := None\<rparr>"
  obtain P G C M I Is where i: "A = P @ db_writers db" "queue_ok P db" "\<forall>w\<in>set (db_writers db). writer_rep ops (db_writer db) w" "front_ok ops db G"
    "data_ok c n ops P G F C M I Is db" using inv by (rule db_invE)
  have f': "front ?db = front db" by (simp add: front_def cong: list.case_cong)
  have "group_ok ops ?db G b t ls l \<longleftrightarrow> group_ok ops db G b t ls l" for b t ls l by (simp add: group_ok_def)
  then have "front_ok ops ?db G" using i(4) f unfolding front_ok_def f'
    by (cases "(ops, db, G, front db)" rule: front_phase_ok.cases) auto
  moreover have "queue_ok P ?db" using i(2) by (rule queue_ok_cong) simp_all
  moreover have "data_ok c n ops P G (m # F) C M [] (I # Is) ?db"
    using i(5) imm unfolding data_ok_def committed_group_def top_sequence_def f' by simp
  ultimately show ?thesis using i(1,3) by (intro db_invI [of A P _ ops G]) simp_all
qed

lemma flush_ok:
  assumes "db_inv c n ops A F db" "db_imm db = Some m" "vs_last_sequence vs = vs_last_sequence (db_versions db)"
  shows "db_inv c n ops A (m # F) (SignalAll (db\<lparr>db_imm := None, db_versions := vs, db_bg_error := s, db_bg_scheduled := b\<rparr>))"
proof -
  have "db_inv c n ops A (m # F) ((SignalAll db)\<lparr>db_imm := None\<rparr>)"
    by (rule inv_imm [OF inv_SignalAll [OF assms(1)] front_not_waiting]) (simp add: assms(2))
  moreover have "front ((SignalAll db)\<lparr>db_imm := None\<rparr>) = front (SignalAll db)" by (simp add: front_def cong: list.case_cong)
  ultimately show ?thesis
    by - (rule inv_fields, assumption, simp add: front_not_waiting, simp_all add: assms(3), simp add: SignalAll_def)
qed

text \<open>The memtable becomes the immutable one.\<close>

lemma inv_switch:
  assumes inv: "db_inv c n ops A F db" and f: "\<And>force delay. front db \<noteq> Some (RoomWaiting force delay)" and imm: "db_imm db = None"
    and m: "mt_rep m []" "mt_comparator m = c"
  shows "db_inv c n ops A F (db\<lparr>db_imm := Some (db_mem db), db_mem := m\<rparr>)"
proof -
  let ?db = "db\<lparr>db_imm := Some (db_mem db), db_mem := m\<rparr>"
  obtain P G C M I Is where i: "A = P @ db_writers db" "queue_ok P db" "\<forall>w\<in>set (db_writers db). writer_rep ops (db_writer db) w" "front_ok ops db G"
    "data_ok c n ops P G F C M I Is db" using inv by (rule db_invE)
  have f': "front ?db = front db" by (simp add: front_def cong: list.case_cong)
  have "group_ok ops ?db G b t ls l \<longleftrightarrow> group_ok ops db G b t ls l" for b t ls l by (simp add: group_ok_def)
  then have "front_ok ops ?db G" using i(4) f unfolding front_ok_def f'
    by (cases "(ops, db, G, front db)" rule: front_phase_ok.cases) auto
  moreover have "queue_ok P ?db" using i(2) by (rule queue_ok_cong) simp_all
  moreover have "data_ok c n ops P G F C [] M Is ?db"
    using i(5) imm m unfolding data_ok_def committed_group_def top_sequence_def f' by clarsimp
  ultimately show ?thesis using i(1,3) by (intro db_invI [of A P _ ops G]) simp_all
qed

lemma switch_memtable_ok:
  assumes inv: "db_inv c n ops A F db" and q: "db_writers db = w # rest" and p: "no_group (the (db_phase db w))"
    and ops: "\<And>xs. ops w = Some xs \<Longrightarrow> length xs < 2 ^ 31" and imm: "db_imm db = None" and front: "db_phase db w = Some (MakingRoom force delay)"
    and step: "switch_memtable env w allow_delay db = Some db'"
  shows "db_inv c n ops A F db'"
proof -
  obtain num vs where vs: "NewFileNumber (db_versions db) = (num, vs)" "vs_last_sequence vs = vs_last_sequence (db_versions db)" by (simp add: NewFileNumber_def)
  have f: "front db = Some (MakingRoom force delay)" using q front by (simp add: front_def)
  show ?thesis
  proof (cases "le_New env (LogFileName (vs_dbname vs) num)")
    case (Inl s)
    have "db_inv c n ops A F (db\<lparr>db_versions := ReuseFileNumber num vs\<rparr>)"
      by (rule inv_fields [OF inv]) (simp_all add: f vs(2) ReuseFileNumber_def)
    from start_write_ok [OF this _ _ ops, of w rest s db'] show ?thesis using step q p Inl vs(1) by (simp add: switch_memtable_def)
  next
    case (Inr lfile)
    let ?db1 = "if \<not> ok (le_Close env (lw_dest (db_log db))) then RecordBackgroundError (le_Close env (lw_dest (db_log db))) (db\<lparr>db_versions := vs\<rparr>) else db\<lparr>db_versions := vs\<rparr>"
    have db1: "db_inv c n ops A F ?db1 \<and> db_imm ?db1 = None \<and> db_phase ?db1 = db_phase db \<and> db_writers ?db1 = db_writers db \<and> db_mem ?db1 = db_mem db"
    proof -
      have v: "db_inv c n ops A F (db\<lparr>db_versions := vs\<rparr>)" by (rule inv_fields [OF inv]) (simp_all add: f vs(2))
      have phase: "db_phase (SignalAll (db\<lparr>db_versions := vs, db_bg_error := s\<rparr>)) = db_phase db" for s
      proof -
        obtain P where P: "queue_ok P db" using inv by (rule db_invE)
        have "\<forall>v force delay. db_phase db v \<noteq> Some (RoomWaiting force delay)"
          using leader_first [OF P] q front by fastforce
        then show ?thesis by (auto simp: SignalAll_def fun_eq_iff split: option.split phase.split)
      qed
      have "db_inv c n ops A F (SignalAll (db\<lparr>db_versions := vs, db_bg_error := s\<rparr>))" for s
        by (rule inv_fields [OF inv]) (simp_all add: f vs(2) phase)
      then show ?thesis using v imm by (simp add: RecordBackgroundError_def phase)
    qed
    let ?m = "MemTable_Ref (MemTable_new (mt_comparator (db_mem db)))"
    have "mt_comparator (db_mem db) = c" using inv by (rule db_invE) (simp add: data_ok_def)
    then have m: "mt_rep ?m []" "mt_comparator ?m = c" using MemTable_new_rep by (simp_all add: MemTable_Ref_def mt_rep_def MemTable_new_def)
    define d1 where "d1 = ?db1\<lparr>db_logfile_number := num, db_log := Writer_new lfile 0\<rparr>"
    have f0: "front ?db1 = front db" using db1 by (simp add: front_def cong: list.case_cong)
    have f1: "front d1 = front db" using f0 by (simp add: d1_def front_def cong: list.case_cong)
    have d1: "db_inv c n ops A F d1" unfolding d1_def by (rule inv_fields) (use db1 f0 f in simp_all)
    define d2 where "d2 = d1\<lparr>db_imm := Some (db_mem d1), db_mem := ?m\<rparr>"
    have d2: "db_inv c n ops A F d2" unfolding d2_def by (rule inv_switch [OF d1 _ _ m]) (use db1 f1 f in \<open>simp_all add: d1_def\<close>)
    have f2: "front d2 = front db" using f1 by (simp add: front_def d2_def cong: list.case_cong)
    define d3 where "d3 = MaybeScheduleCompaction d2"
    have sched: "MaybeScheduleCompaction d = d\<lparr>db_bg_scheduled := db_bg_scheduled (MaybeScheduleCompaction d)\<rparr>" for d :: "'f DBImpl"
      by (simp add: MaybeScheduleCompaction_def)
    have d3: "db_inv c n ops A F d3" unfolding d3_def by (subst sched, rule inv_fields [OF d2]) (simp_all add: f2 f)
    have w3: "db_writers d3 = w # rest" "db_phase d3 w = Some (MakingRoom force delay)"
      using db1 q front unfolding d3_def by (subst sched, simp add: d2_def d1_def)+
    have "switch_memtable env w allow_delay db = Some (set_phase w (MakingRoom False allow_delay) d3)"
      unfolding switch_memtable_def vs(1) Inr prod.case sum.case Let_def d3_def d2_def d1_def using db1 by simp
    then have "db' = set_phase w (MakingRoom False allow_delay) d3" using step by simp
    then show ?thesis using w3(2) by (auto intro!: set_front [OF d3 w3(1)] simp: no_group_def)
  qed
qed

lemma MakeRoomForWrite_ok:
  assumes inv: "db_inv c n ops A F db" and w: "db_phase db w = Some (MakingRoom force delay)"
    and ops: "\<And>xs. ops w = Some xs \<Longrightarrow> length xs < 2 ^ 31" and step: "MakeRoomForWrite env usage w force delay db = Some db'"
  shows "db_inv c n ops A F db'"
proof -
  obtain P where "queue_ok P db" using inv by (rule db_invE)
  from leader_first [OF this, of w] w obtain rest where q: "db_writers db = w # rest" by auto
  have p: "no_group (the (db_phase db w))" using w by (simp add: no_group_def)
  have set: "db_inv c n ops A F (set_phase w (MakingRoom force False) db)" "blocked db \<Longrightarrow> db_inv c n ops A F (set_phase w (RoomWaiting force delay) db)"
    by (rule set_front [OF inv q p]; simp add: no_group_def)+
  show ?thesis
    using step start_write_ok [OF inv q p ops] switch_memtable_ok [OF inv q p ops _ w] set
    unfolding MakeRoomForWrite_def by (auto simp: blocked_def split: if_splits)
qed

section \<open>Writing a group\<close>

text \<open>The writers of a group with their sequence numbers.\<close>

fun group_commits :: "(writer_ref \<Rightarrow> batch_op list option) \<Rightarrow> SequenceNumber \<Rightarrow> writer_ref list \<Rightarrow> (writer_ref \<times> SequenceNumber) list" where
  "group_commits ops s [] = []"
| "group_commits ops s (w # ws) = (case ops w of None \<Rightarrow> group_commits ops s ws | Some xs \<Rightarrow> (w, s) # group_commits ops (s + of_nat (length xs)) ws)"

lemma batch_entries_append: "batch_entries s (xs @ ys) = batch_entries s xs @ batch_entries (s + of_nat (length xs)) ys"
  by (induction xs arbitrary: s) (simp_all add: ac_simps)

lemma commit_entries_append: "commit_entries ops (C @ C') = commit_entries ops C' @ commit_entries ops C"
  by (simp add: commit_entries_def)

lemma group_commits_entries: "commit_entries ops (group_commits ops s G) = rev (batch_entries s (all_ops ops G))"
  by (induction G arbitrary: s) (auto simp: commit_entries_def batch_entries_append ops_of_def split: option.split)

lemma group_commits_writers: "map fst (group_commits ops s G) = filter (\<lambda>w. ops w \<noteq> None) G"
  by (induction G arbitrary: s) (auto split: option.split)

lemma group_commits_ordered:
  "unat s + length (all_ops ops G) \<le> 2 ^ 56 \<Longrightarrow>
   sorted_wrt (\<lambda>(w, s) (w', s'). unat s + length (ops_of ops w) \<le> unat s') (group_commits ops s G) \<and>
   (\<forall>(w, s')\<in>set (group_commits ops s G). unat s \<le> unat s' \<and> unat s' + length (ops_of ops w) \<le> unat s + length (all_ops ops G))"
proof (induction G arbitrary: s)
  case (Cons w G)
  show ?case
  proof (cases "ops w")
    case None
    then show ?thesis using Cons by (simp add: ops_of_def)
  next
    case (Some xs)
    then have "unat s + length xs + length (all_ops ops G) \<le> 2 ^ 56" using Cons.prems by (simp add: ops_of_def)
    moreover from this have "unat (s + of_nat (length xs)) = unat s + length xs" by (simp add: unat_word_ariths unat_of_nat)
    ultimately show ?thesis using Cons.IH [of "s + of_nat (length xs)"] Some by (fastforce simp: ops_of_def)
  qed
qed simp

lemma commits_ordered_append:
  assumes "commits_ordered ops n C hi" "n \<le> hi" "unat hi + 1 + length (all_ops ops G) \<le> 2 ^ 56"
  shows "commits_ordered ops n (C @ group_commits ops (hi + 1) G) (hi + of_nat (length (all_ops ops G)))"
proof -
  have hi: "unat (hi + 1) = unat hi + 1" "unat (hi + of_nat (length (all_ops ops G))) = unat hi + length (all_ops ops G)"
    using assms(3) by (simp_all add: unat_word_ariths unat_of_nat)
  have "unat n \<le> unat hi" using assms(2) by (simp add: word_le_nat_alt)
  then show ?thesis using assms(1) group_commits_ordered [of "hi + 1" ops G] assms(3) hi
    unfolding commits_ordered_def sorted_wrt_append by (fastforce simp: )
qed

lemma commits_ordered_mono: "commits_ordered ops n C hi \<Longrightarrow> hi \<le> hi' \<Longrightarrow> commits_ordered ops n C hi'"
  unfolding commits_ordered_def word_le_nat_alt by fastforce

text \<open>The entries of the commits are not above the last sequence number.\<close>

lemma commit_entries_seq:
  assumes "commits_ordered ops n C hi" "unat hi < 2 ^ 56" "e \<in> set (commit_entries ops C)"
  shows "n < e_seq e \<and> e_seq e \<le> hi"
proof -
  obtain w s where ws: "(w, s) \<in> set C" "e \<in> set (batch_entries s (ops_of ops w))" using assms(3) by (auto simp: commit_entries_def)
  then have "unat n < unat s" "unat s + length (ops_of ops w) \<le> unat hi + 1" using assms(1) by (auto simp: commits_ordered_def)
  then show ?thesis using batch_entries_seq [OF ws(2)] assms(2) by (simp add: word_less_nat_alt word_le_nat_alt)
qed

lemma InsertInto_batch:
  assumes "separating_comparator c" "mt_rep m M" "mt_comparator m = c" "\<forall>x\<in>set xs. op_fits x" "length xs < 2 ^ 31" "unat seq + length xs \<le> 2 ^ 56"
    "\<forall>e\<in>set M. e_seq e < seq"
  shows "\<exists>m'. InsertInto (batch seq (of_nat (length xs)) (concat (map op_bytes xs))) m = (OK, Some m') \<and>
    mt_rep m' (rev (batch_entries seq xs) @ M) \<and> mt_comparator m' = c"
proof -
  let ?new = "batch_entries seq xs"
  have newer: "e_seq e < e_seq e'" if "e \<in> set M" "e' \<in> set ?new" for e e'
    using assms(7) that batch_entries_seq [OF that(2) assms(6)] by (force simp: word_less_nat_alt)
  have "versions_distinct c ?new" unfolding versions_distinct_def
    by (rule sorted_wrt_mono_rel [OF _ batch_entries_distinct [OF assms(6)]]) auto
  moreover have "\<forall>e\<in>set M. \<forall>e'\<in>set ?new. \<not> (Compare c (e_key e) (e_key e') = 0 \<and> e_seq e = e_seq e')" using newer by force
  ultimately obtain m' where m': "MemTable_adds ?new m = Some m'" "mt_rep m' (rev ?new @ M)" "mt_comparator m' = c"
    using separating_comparator.MemTable_adds_rep [OF assms(1-3) batch_entries_ok [OF assms(4,6)]] by auto
  have "\<forall>x\<in>set xs. op_ok x" using assms(4) op_fits_ok by blast
  from iterate_batch [OF this assms(5), of MemTableInserter seq] show ?thesis
    using m' by (simp add: InsertInto_def inserter_ops batch_facts)
qed

lemma write_log_ok:
  assumes inv: "db_inv c n ops A F db" and w: "db_phase db w = Some (Writing b is_tmp ls l)" and c: "separating_comparator c"
    and fits: "\<And>w xs. ops w = Some xs \<Longrightarrow> \<forall>x\<in>set xs. op_fits x" and bound: "unat n + length (all_ops ops A) < 2 ^ 56"
  shows "\<exists>db'. write_log env w b is_tmp ls l db = Some db' \<and> db_inv c n ops A F db'"
proof -
  obtain P G C M I Is where i: "A = P @ db_writers db" "queue_ok P db" "\<forall>w\<in>set (db_writers db). writer_rep ops (db_writer db) w" "front_ok ops db G"
    "data_ok c n ops P G F C M I Is db" using inv by (rule db_invE)
  from leader_first [OF i(2), of w] w obtain rest where q: "db_writers db = w # rest" by auto
  let ?ls = "vs_last_sequence (db_versions db)" and ?os = "all_ops ops G"
  have front: "front db = Some (Writing b is_tmp ls l)" using q w by (simp add: front_def)
  then have g: "group_ok ops db G b is_tmp ls l" using i(4) by (simp add: front_ok_def)
  have d: "mt_rep (db_mem db) M" "mt_comparator (db_mem db) = c" "M @ I @ concat Is = commit_entries ops C"
    "map fst C = filter (\<lambda>w. ops w \<noteq> None \<and> result db w = Some OK) P" "commits_ordered ops n C ?ls" "n \<le> ?ls" "unat ?ls \<le> unat n + length (all_ops ops P)"
    using i(5) by (simp_all add: data_ok_def committed_group_def top_sequence_def front)
  have len: "unat ?ls + length ?os < 2 ^ 56" using g bound d(7) i(1) by (auto simp: group_ok_def)
  then have ls: "unat (?ls + 1) = unat ?ls + 1" "unat (?ls + of_nat (length ?os)) = unat ?ls + length ?os" "ls = ?ls + of_nat (length ?os)"
    using g by (simp_all add: unat_word_ariths unat_of_nat group_ok_def)
  have "e_seq e < ?ls + 1" if "e \<in> set M" for e
  proof -
    have "e \<in> set (commit_entries ops C)" unfolding d(3) [symmetric] using that by simp
    from commit_entries_seq [OF d(5) _ this] len ls(1) show ?thesis by (simp add: word_less_nat_alt word_le_nat_alt)
  qed
  moreover have "op_fits x" if x: "x \<in> set ?os" for x
  proof -
    obtain v where "x \<in> set (ops_of ops v)" using x by (auto simp: all_ops_def)
    then show ?thesis using fits [of v] by (cases "ops v") (auto simp: ops_of_def)
  qed
  then have "\<forall>x\<in>set ?os. op_fits x" by blast
  moreover have "length ?os < 2 ^ 31" "b = batch (?ls + 1) (of_nat (length ?os)) (concat (map op_bytes ?os))" using g by (simp_all add: group_ok_def)
  ultimately obtain m' where m': "InsertInto b (db_mem db) = (OK, Some m')" "mt_rep m' (rev (batch_entries (?ls + 1) ?os) @ M)" "mt_comparator m' = c"
    using InsertInto_batch [OF c d(1,2), of ?os "?ls + 1"] len ls(1) by auto
  obtain status sync_error lg mem where step: "write_log env w b is_tmp ls l db =
      Some (set_phase w (Written b is_tmp ls l status sync_error) (db\<lparr>db_log := lg, db_mem := mem\<rparr>))"
      "if status = OK then mem = m' else mem = db_mem db"
  proof -
    obtain s0 lg0 where add: "AddRecord (le_file env) b (db_log db) = (s0, lg0)" by fastforce
    obtain s1 e1 lg where sync: "(if ok s0 \<and> wr_sync (db_writer db w) then
        let (status, dest) = le_Sync env (lw_dest lg0) in (status, \<not> ok status, lg0\<lparr>lw_dest := dest\<rparr>) else (s0, False, lg0)) = (s1, e1, lg)" by (rule prod_cases3)
    have "write_log env w b is_tmp ls l db =
        Some (set_phase w (Written b is_tmp ls l s1 e1) (db\<lparr>db_log := lg, db_mem := if s1 = OK then m' else db_mem db\<rparr>))"
      unfolding write_log_def add Let_def prod.case sync [unfolded Let_def] m'(1) by (cases s1) simp_all
    then show thesis by (rule that) simp
  qed
  let ?p = "Written b is_tmp ls l status sync_error"
  let ?db1 = "db\<lparr>db_log := lg, db_mem := mem\<rparr>"
  let ?db = "set_phase w ?p ?db1"
  have f: "front ?db = Some ?p" using q by (simp add: front_def)
  have res: "result ?db v = result db v" if "v \<in> set P" for v
  proof -
    have "v \<noteq> w" using i(2) q that by (auto simp: queue_ok_def)
    then show ?thesis by (simp add: result_def)
  qed
  have fil: "filter (\<lambda>w. ops w \<noteq> None \<and> result ?db w = Some OK) P = filter (\<lambda>w. ops w \<noteq> None \<and> result db w = Some OK) P"
    using res by (intro filter_cong) auto
  have rest: "(case db_imm db of None \<Rightarrow> I = [] | Some m \<Rightarrow> mt_rep m I \<and> mt_comparator m = c)" "list_all2 (\<lambda>m es. mt_rep m es \<and> mt_comparator m = c) F Is"
    using i(5) by (simp_all add: data_ok_def)
  have "\<exists>C M. data_ok c n ops P G F C M I Is ?db"
  proof (cases "status = OK")
    case True
    have "data_ok c n ops P G F (C @ group_commits ops (?ls + 1) G) (rev (batch_entries (?ls + 1) ?os) @ M) I Is ?db"
      using True step(2) m' rest d commits_ordered_append [OF d(5,6), of G] len ls(3)
      unfolding data_ok_def committed_group_def top_sequence_def f fil
      by (simp add: commit_entries_append group_commits_entries group_commits_writers)
    then show ?thesis by blast
  next
    case False
    have "?ls \<le> ls" using ls by (simp add: word_le_nat_alt)
    then have "data_ok c n ops P G F C M I Is ?db"
      using False step(2) rest d commits_ordered_mono [OF d(5), of ls] unfolding data_ok_def committed_group_def top_sequence_def f fil by simp
    then show ?thesis by blast
  qed
  then obtain C' M' where "data_ok c n ops P G F C' M' I Is ?db" by blast
  moreover have "queue_ok P ?db1" using i(2) by (rule queue_ok_cong) simp_all
  then have "queue_ok P ?db" by (rule queue_ok_leading) (use q in \<open>simp_all add: leading_def\<close>)
  moreover have "front_ok ops ?db G" using g unfolding front_ok_def f front_phase_ok.simps group_ok_def by simp
  ultimately have "db_inv c n ops A F ?db" using i(1,3) by (intro db_invI [of A P _ ops G]) simp_all
  then show ?thesis using step(1) by blast
qed

lemma finish_write_ok:
  assumes inv: "db_inv c n ops A F db" and w: "db_phase db w = Some (Written b is_tmp ls l status e)" and bound: "unat n + length (all_ops ops A) < 2 ^ 56"
  shows "\<exists>db'. finish_write w b is_tmp ls l status e db = Some db' \<and> db_inv c n ops A F db'"
proof -
  obtain P G C M I Is where i: "A = P @ db_writers db" "queue_ok P db" "\<forall>w\<in>set (db_writers db). writer_rep ops (db_writer db) w" "front_ok ops db G"
    "data_ok c n ops P G F C M I Is db" using inv by (rule db_invE)
  from leader_first [OF i(2), of w] w obtain rest where q: "db_writers db = w # rest" by auto
  have front: "front db = Some (Written b is_tmp ls l status e)" using q w by (simp add: front_def)
  then have g: "group_ok ops db G b is_tmp ls l" using i(4) by (simp add: front_ok_def)
  then obtain h rest' where h: "G = w # h" "db_writers db = w # h @ rest'" "l = last (w # h)"
    using q by (cases G) (auto simp: group_ok_def)
  define d1 where "d1 = (if e then RecordBackgroundError status db else db)"
  have d1: "queue_ok P d1" "result d1 = result db" "db_writers d1 = db_writers db" "db_writer d1 = db_writer db" "db_mem d1 = db_mem db" "db_imm d1 = db_imm db"
    "db_versions d1 = db_versions db" "db_tmp_batch d1 = db_tmp_batch db"
  proof -
    have "queue_ok P (db\<lparr>db_bg_error := status\<rparr>)" using i(2) by (rule queue_ok_cong) simp_all
    then show "queue_ok P d1" using i(2) queue_ok_SignalAll by (auto simp: d1_def RecordBackgroundError_def)
  qed (simp_all add: d1_def RecordBackgroundError_def)
  define d2 where "d2 = (if is_tmp then d1\<lparr>db_number := db_number d1 + scast (Count b), db_tmp_batch := Clear\<rparr> else d1\<lparr>db_number := db_number d1 + scast (Count b)\<rparr>)"
  define d3 where "d3 = d2\<lparr>db_versions := (db_versions d2)\<lparr>vs_last_sequence := ls\<rparr>\<rparr>"
  have d3: "queue_ok P d3" using d1(1) by (rule queue_ok_cong) (simp_all add: d3_def d2_def)
  have same: "result d3 = result db" "db_writers d3 = w # h @ rest'" "db_writer d3 = db_writer db" "db_mem d3 = db_mem db" "db_imm d3 = db_imm db"
    "vs_last_sequence (db_versions d3) = ls" "db_tmp_batch d3 = Clear"
    using d1 h(2) g by (simp_all add: d3_def d2_def group_ok_def)
  have "\<forall>v\<in>set (db_writers d3). writer_rep ops (db_writer d3) v" using i(3) h(2) unfolding same by simp
  from leave_ok [OF d3 same(2) this same(7), of status] obtain d4 where d4: "leave w status (last (w # h)) d3 = Some d4" "queue_ok (P @ w # h) d4" "db_writers d4 = rest'"
    "\<forall>v\<in>set rest'. writer_rep ops (db_writer d4) v" "front_ok ops d4 []" "committed_group d4 [] = []" "top_sequence d4 = vs_last_sequence (db_versions d3)"
    "db_mem d4 = db_mem d3" "db_imm d4 = db_imm d3" "db_versions d4 = db_versions d3" "\<forall>v\<in>set P. result d4 v = result d3 v" "\<forall>v\<in>set (w # h). result d4 v = Some status"
    by - (elim exE conjE, rule that)
  have step: "finish_write w b is_tmp ls l status e db = Some d4"
    using d4(1) unfolding finish_write_def Let_def d1_def [symmetric] d3_def h(3) by (simp only: d2_def)
  have fil: "filter (\<lambda>v. ops v \<noteq> None \<and> result d4 v = Some OK) (P @ w # h) =
      filter (\<lambda>v. ops v \<noteq> None \<and> result db v = Some OK) P @ filter (\<lambda>v. ops v \<noteq> None) (written_group G (front db))"
  proof -
    have "filter (\<lambda>v. ops v \<noteq> None \<and> result d4 v = Some OK) P = filter (\<lambda>v. ops v \<noteq> None \<and> result db v = Some OK) P"
      using d4(11) same(1) by (intro filter_cong) auto
    moreover have "filter (\<lambda>v. ops v \<noteq> None \<and> result d4 v = Some OK) (w # h) = (if status = OK then filter (\<lambda>v. ops v \<noteq> None) (w # h) else [])"
      using d4(12) by (simp add: filter_empty_conv cong: filter_cong)
    ultimately show ?thesis unfolding filter_append by (simp add: front h(1))
  qed
  have len: "unat (vs_last_sequence (db_versions db)) + length (all_ops ops G) < 2 ^ 56" "n \<le> vs_last_sequence (db_versions db)"
    using g bound i(1,5) by (auto simp: group_ok_def data_ok_def)
  then have ls: "unat ls = unat (vs_last_sequence (db_versions db)) + length (all_ops ops G)" using g by (simp add: group_ok_def unat_word_ariths unat_of_nat)
  then have "n \<le> ls" using len(2) by (simp add: word_le_nat_alt)
  then have "data_ok c n ops (P @ w # h) [] F C M I Is d4"
    using i(5) ls fil d4(6-10) unfolding data_ok_def committed_group_def [of db] top_sequence_def [of db] front
    by (simp add: same h(1) del: filter_append)
  then have "db_inv c n ops A F d4" using d4(2-5) i(1) h(2) by (intro db_invI [of A "P @ w # h" _ ops "[]"]) simp_all
  then show ?thesis using step by blast
qed

section \<open>Every run\<close>

text \<open>What a call may be made with.\<close>

definition calls_ok :: "(writer_ref \<Rightarrow> batch_op list option) \<Rightarrow> bool" where
  "calls_ok ops \<longleftrightarrow> (\<forall>w xs. ops w = Some xs \<longrightarrow> (\<forall>x\<in>set xs. op_fits x) \<and> length xs < 2 ^ 31)"

lemma start_ok:
  assumes "db_start c n db"
  shows "db_inv c n ops [] [] db"
proof -
  have "front db = None" using assms by (simp add: front_def db_start_def)
  then have "data_ok c n ops [] [] [] [] [] [] [] db" "front_ok ops db []"
    using assms by (simp_all add: data_ok_def db_start_def committed_group_def top_sequence_def commits_ordered_def commit_entries_def front_ok_def)
  then show ?thesis using assms by (intro db_invI [of "[]" "[]" db ops "[]"]) (simp_all add: db_start_def queue_ok_def)
qed

lemma writer_step_ok:
  assumes inv: "db_inv c n ops A F db" and c: "separating_comparator c" and calls: "calls_ok ops" and bound: "unat n + length (all_ops ops A) < 2 ^ 56"
    and step: "writer_step env usage w db = Some db'"
  shows "db_inv c n ops A F db'"
proof (cases "db_phase db w")
  case (Some p)
  have fits: "\<And>w xs. ops w = Some xs \<Longrightarrow> \<forall>x\<in>set xs. op_fits x" and len: "\<And>xs. ops w = Some xs \<Longrightarrow> length xs < 2 ^ 31" using calls by (auto simp: calls_ok_def)
  show ?thesis
  proof (cases p)
    case Woken
    then show ?thesis using step Some wait_turn_ok [OF inv] by (auto simp: writer_step_def)
  next
    case (MakingRoom force delay)
    with Some have "db_phase db w = Some (MakingRoom force delay)" by simp
    from MakeRoomForWrite_ok [OF inv this len] show ?thesis using step Some MakingRoom by (auto simp: writer_step_def)
  next
    case (Writing b is_tmp ls l)
    with Some have "db_phase db w = Some (Writing b is_tmp ls l)" by simp
    from write_log_ok [where env = env, OF inv this c fits bound] show ?thesis using step Some Writing by (auto simp: writer_step_def)
  next
    case (Written b is_tmp ls l s e)
    with Some have "db_phase db w = Some (Written b is_tmp ls l s e)" by simp
    from finish_write_ok [OF inv this bound] show ?thesis using step Some Written by (auto simp: writer_step_def)
  qed (use step Some in \<open>simp_all add: writer_step_def\<close>)
qed (use step in \<open>simp add: writer_step_def\<close>)

lemma db_run_inv:
  assumes "db_run env usage c n ops A F db" "separating_comparator c" "calls_ok ops" "unat n + length (all_ops ops A) < 2 ^ 56"
  shows "db_inv c n ops A F db"
  using assms(1,4)
proof (induction rule: db_run.induct)
  case (start db)
  then show ?case by (intro start_ok)
next
  case (enter A F db w sync)
  then show ?case by (intro enter_ok) simp_all
next
  case (step A F db w db')
  then show ?case using writer_step_ok [OF _ assms(2,3)] by blast
next
  case (spurious A F db w)
  then show ?case by (intro spurious_ok) simp_all
next
  case (background A F db vs s b mc sd)
  then show ?case by (intro background_ok) simp_all
next
  case (flush A F db m vs s b)
  then show ?case by (intro flush_ok) simp_all
qed

section \<open>Progress\<close>

text \<open>A thread that does not wait can make its next step.\<close>

lemma leave_Some:
  assumes "db_writers db = w # rest"
  shows "\<exists>db'. leave w s w db = Some db' \<and> length (db_writers db') < length (db_writers db)"
  using leave_eq [of db w "[]" rest s] assms by simp

lemma start_write_Some:
  assumes "db_writers db = w # rest"
  shows "\<exists>db'. start_write w s db = Some db'"
proof (cases "ok s \<and> wr_batch (db_writer db w) \<noteq> None")
  case True
  then show ?thesis unfolding start_write_def Let_def if_P [OF True] by (simp split: prod.split)
next
  case False
  then show ?thesis using leave_Some [OF assms, of s] unfolding start_write_def Let_def if_not_P [OF False] by blast
qed

lemma MakeRoomForWrite_Some:
  assumes "db_writers db = w # rest"
  shows "\<exists>db'. MakeRoomForWrite env usage w force delay db = Some db'"
  using start_write_Some [OF assms] start_write_Some [of "db\<lparr>db_versions := vs\<rparr>" w rest for vs] assms
  by (auto simp: MakeRoomForWrite_def switch_memtable_def Let_def NewFileNumber_def split: sum.split)

lemma step_enabled:
  assumes inv: "db_inv c n ops A F db" and c: "separating_comparator c" and calls: "calls_ok ops" and bound: "unat n + length (all_ops ops A) < 2 ^ 56"
    and none: "writer_step env usage w db = None"
  shows "db_phase db w = None \<or> db_phase db w = Some Waiting \<or> (\<exists>s. db_phase db w = Some (Returned s)) \<or> (\<exists>force delay. db_phase db w = Some (RoomWaiting force delay))"
proof (cases "db_phase db w")
  case (Some p)
  obtain P where P: "queue_ok P db" using inv by (rule db_invE)
  have fits: "\<And>w xs. ops w = Some xs \<Longrightarrow> \<forall>x\<in>set xs. op_fits x" using calls by (auto simp: calls_ok_def)
  show ?thesis
  proof (cases p)
    case (MakingRoom force delay)
    with Some leader_first [OF P, of w] obtain rest where "db_writers db = w # rest" by auto
    from MakeRoomForWrite_Some [OF this, of env usage force delay] show ?thesis using none Some MakingRoom by (auto simp: writer_step_def)
  next
    case (Writing b is_tmp ls l)
    with Some have "db_phase db w = Some (Writing b is_tmp ls l)" by simp
    from write_log_ok [where env = env, OF inv this c fits bound] show ?thesis using none Some Writing by (auto simp: writer_step_def)
  next
    case (Written b is_tmp ls l s e)
    with Some have "db_phase db w = Some (Written b is_tmp ls l s e)" by simp
    from finish_write_ok [OF inv this bound] show ?thesis using none Some Written by (auto simp: writer_step_def)
  qed (use none Some in \<open>simp_all add: writer_step_def\<close>)
qed simp

text \<open>Every step of a writer makes the queue shorter, or it keeps it and brings the writers nearer to their ends.\<close>

fun weight :: "phase option \<Rightarrow> nat" where
  "weight (Some Woken) = 8"
| "weight (Some (MakingRoom force delay)) = (if delay then 4 else 3)"
| "weight (Some (Writing b is_tmp ls l)) = 2"
| "weight (Some (Written b is_tmp ls l s e)) = 1"
| "weight _ = 0"

definition work :: "writer_ref list \<Rightarrow> 'f DBImpl \<Rightarrow> nat" where
  "work A db = (\<Sum>w\<in>set A. weight (db_phase db w)) + (if db_imm db = None then 1 else 0)"

definition nearer :: "writer_ref list \<Rightarrow> 'f DBImpl \<Rightarrow> 'f DBImpl \<Rightarrow> bool" where
  "nearer A db' db \<longleftrightarrow> length (db_writers db') < length (db_writers db) \<or> length (db_writers db') = length (db_writers db) \<and> work A db' < work A db"

lemma nearer_phase:
  assumes "w \<in> set A" "db_phase db' = (db_phase db)(w \<mapsto> p)" "weight (Some p) < weight (db_phase db w)" "db_writers db' = db_writers db" "db_imm db' = db_imm db"
  shows "nearer A db' db"
proof -
  have "(\<Sum>v\<in>set A. weight (db_phase db' v)) < (\<Sum>v\<in>set A. weight (db_phase db v))"
    by (rule sum_strict_mono_ex1) (use assms(1-3) in \<open>auto intro: less_imp_le\<close>)
  then show ?thesis using assms(4,5) by (simp add: nearer_def work_def)
qed

lemma start_write_nearer:
  assumes "db_writers db = w # rest" "w \<in> set A" "db_phase db w = Some (MakingRoom force delay)" "start_write w s db = Some db'"
  shows "nearer A db' db"
proof (cases "ok s \<and> wr_batch (db_writer db w) \<noteq> None")
  case True
  then obtain b is_tmp ls l db1 where "db' = set_phase w (Writing b is_tmp ls l) db1" "db_phase db1 = db_phase db" "db_writers db1 = db_writers db" "db_imm db1 = db_imm db"
    using assms(4) unfolding start_write_def Let_def if_P [OF True] by (auto split: prod.splits if_splits)
  then show ?thesis using assms(2,3) by (intro nearer_phase [of w]) (auto simp: set_phase_def)
next
  case False
  then show ?thesis using leave_Some [OF assms(1), of s] assms(4) unfolding start_write_def Let_def if_not_P [OF False] by (auto simp: nearer_def)
qed

lemma MakeRoomForWrite_nearer:
  assumes P: "queue_ok P db" and q: "db_writers db = w # rest" and w: "w \<in> set A" "db_phase db w = Some (MakingRoom force delay)"
    and step: "MakeRoomForWrite env usage w force delay db = Some db'"
  shows "nearer A db' db"
proof -
  have phases: "\<forall>v force delay. db_phase db v \<noteq> Some (RoomWaiting force delay)"
    using leader_first [OF P] q w by fastforce
  have switch: "nearer A db' db" if s: "switch_memtable env w delay db = Some db'" "db_imm db = None"
  proof (cases "\<exists>s num vs. start_write w s (db\<lparr>db_versions := ReuseFileNumber num vs\<rparr>) = Some db'")
    case True
    then obtain s vs where "start_write w s (db\<lparr>db_versions := vs\<rparr>) = Some db'" by blast
    then have "nearer A db' (db\<lparr>db_versions := vs\<rparr>)" using q w by (intro start_write_nearer) simp_all
    then show ?thesis by (simp add: nearer_def work_def)
  next
    case False
    then obtain db1 where db1: "db' = set_phase w (MakingRoom False delay) db1" "db_phase db1 = db_phase db \<or> db_phase db1 = db_phase (SignalAll db)"
      "db_writers db1 = db_writers db" "db_imm db1 \<noteq> None"
      using s(1) unfolding switch_memtable_def Let_def NewFileNumber_def
      by (auto simp: RecordBackgroundError_def MaybeScheduleCompaction_def SignalAll_def split: sum.splits if_splits)
    have "db_phase (SignalAll db) = db_phase db" using phases by (auto simp: SignalAll_def fun_eq_iff split: option.split phase.split)
    then have "weight (db_phase db' v) \<le> weight (db_phase db v)" for v using db1(1,2) w(2) by auto
    then have "(\<Sum>v\<in>set A. weight (db_phase db' v)) \<le> (\<Sum>v\<in>set A. weight (db_phase db v))" by (intro sum_mono)
    then show ?thesis using db1 s(2) by (auto simp: nearer_def work_def)
  qed
  have set: "nearer A (set_phase w p db) db" if "weight (Some p) < weight (db_phase db w)" for p
    by (rule nearer_phase [OF w(1)]) (use that in \<open>simp_all add: set_phase_def\<close>)
  show ?thesis
    using step start_write_nearer [OF q w] switch set w(2) unfolding MakeRoomForWrite_def by (auto split: if_splits)
qed

lemma writer_step_nearer:
  assumes inv: "db_inv c n ops A F db" and c: "separating_comparator c" and calls: "calls_ok ops" and bound: "unat n + length (all_ops ops A) < 2 ^ 56"
    and step: "writer_step env usage w db = Some db'"
  shows "nearer A db' db"
proof -
  obtain P G C M I Is where i: "A = P @ db_writers db" "queue_ok P db" "\<forall>w\<in>set (db_writers db). writer_rep ops (db_writer db) w" "front_ok ops db G"
    "data_ok c n ops P G F C M I Is db" using inv by (rule db_invE)
  obtain p where p: "db_phase db w = Some p" using step by (cases "db_phase db w") (auto simp: writer_step_def)
  then have w: "w \<in> set A" using i(1,2) unfolding queue_ok_def by (metis option.distinct(1))
  have set: "nearer A (set_phase w p' d) db" if "weight (Some p') < weight (Some p)" "db_phase d = db_phase db" "db_writers d = db_writers db" "db_imm d = db_imm db" for p' d
    by (rule nearer_phase [OF w]) (use that p in \<open>simp_all add: set_phase_def\<close>)
  show ?thesis
  proof (cases p)
    case Woken
    then have "db' = wait_turn w db" using step p by (simp add: writer_step_def)
    moreover have "nearer A (set_phase w Waiting db) db" "nearer A (set_phase w (Returned s) db) db" "nearer A (set_phase w (MakingRoom force delay) db) db" for s force delay
      using Woken by (intro set; simp)+
    ultimately show ?thesis by (auto simp: wait_turn_def Let_def)
  next
    case (MakingRoom force delay)
    with p leader_first [OF i(2), of w] obtain rest where "db_writers db = w # rest" by auto
    from MakeRoomForWrite_nearer [OF i(2) this w] show ?thesis using step p MakingRoom by (auto simp: writer_step_def)
  next
    case (Writing b is_tmp ls l)
    then have "write_log env w b is_tmp ls l db = Some db'" using step p by (simp add: writer_step_def)
    then obtain s e lg m where "db' = set_phase w (Written b is_tmp ls l s e) (db\<lparr>db_log := lg, db_mem := m\<rparr>)"
      unfolding write_log_def Let_def by (auto split: prod.splits bind_splits)
    then show ?thesis using Writing set by simp
  next
    case (Written b is_tmp ls l s e)
    with p leader_first [OF i(2), of w] obtain rest where q: "db_writers db = w # rest" by auto
    have "group_ok ops db G b is_tmp ls l" using i(4) q p Written by (simp add: front_ok_def front_def)
    then obtain h rest' where h: "db_writers db = w # h @ rest'" "l = last (w # h)" using q by (cases G) (auto simp: group_ok_def)
    have d: "distinct (w # h)" using i(2) h(1) by (auto simp: queue_ok_def)
    obtain d3 where d3: "leave w s l d3 = Some db'" "db_writers d3 = w # h @ rest'"
      using step p Written h(1) unfolding writer_step_def finish_write_def Let_def
      by (simp add: RecordBackgroundError_def split: if_splits)
    from leave_eq [OF d3(2) d, of s] show ?thesis using d3(1) h by (auto simp: nearer_def)
  qed (use step p in \<open>simp_all add: writer_step_def\<close>)
qed

section \<open>A write alone\<close>

text \<open>Log files in memory.\<close>

definition mem_log_env :: "FileState LogEnv" where
  "mem_log_env = \<lparr>le_file = WritableFileImpl, le_Sync = (\<lambda>f. (OK, f)), le_Close = (\<lambda>_. OK), le_New = (\<lambda>_. Inr FileState_new)\<rparr>"

lemma AddRecord_mem:
  assumes "file_state_ok (lw_dest lg)" "lw_type_crc lg = InitTypeCrc" "lw_block_offset lg \<le> kBlockSize"
  shows "\<exists>lg'. AddRecord WritableFileImpl b lg = (OK, lg') \<and> file_state_ok (lw_dest lg') \<and> lw_type_crc lg' = InitTypeCrc \<and> lw_block_offset lg' \<le> kBlockSize"
  using mem_write.AddRecord_loop_frames [OF refl assms, of b True] frames_offset unfolding AddRecord_def by blast

lemma write_alone:
  assumes "separating_comparator c" "calls_ok ops" "ops w = Some xs" "unat n + length xs < 2 ^ 56"
    and db: "db_start c n db" "ok (db_bg_error db)" "NumLevelFiles 0 (db_versions db) < kL0_SlowdownWritesTrigger" "usage (db_mem db) \<le> db_write_buffer_size db"
    and lg: "file_state_ok (lw_dest (db_log db))" "lw_type_crc (db_log db) = InitTypeCrc" "lw_block_offset (db_log db) \<le> kBlockSize"
  shows "\<exists>db'. db_run mem_log_env usage c n ops [w] [] db' \<and> db_phase db' w = Some (Returned OK)"
proof -
  let ?run = "db_run mem_log_env usage c n ops [w] []" and ?b = "fold apply_op xs Clear"
  have bound: "unat n + length (all_ops ops [w]) < 2 ^ 56" using assms(3,4) by (simp add: ops_of_def)
  define d1 where "d1 = Write_enter w (Some ?b) False db"
  have run1: "?run d1" using db_run.enter [OF db_run.start [OF db(1)], of w mem_log_env usage ops False] assms(3) by (simp add: d1_def)
  have d1: "d1 = set_phase w (MakingRoom False True) (db\<lparr>db_writer := (db_writer db)(w := \<lparr>wr_status = OK, wr_batch = Some ?b, wr_sync = False, wr_done = False\<rparr>), db_writers := [w]\<rparr>)"
    using db(1) by (simp add: d1_def Write_enter_def wait_turn_def db_start_def)
  define b where "b = batch (n + 1) (of_nat (length xs)) (concat (map op_bytes xs))"
  have b: "SetSequence (n + 1) ?b = b" by (simp add: b_def Clear_batch apply_ops_batch batch_facts)
  define d2 where "d2 = set_phase w (Writing b False (n + scast (Count b)) w) (d1\<lparr>db_writer := (db_writer d1)(w := (db_writer d1 w)\<lparr>wr_batch := Some b\<rparr>)\<rparr>)"
  have "writer_step mem_log_env usage w d1 = Some d2"
    using db(1-4) unfolding writer_step_def d2_def d1
    by (simp add: MakeRoomForWrite_def start_write_def BuildBatchGroup_def Let_def b db_start_def)
  with run1 have run2: "?run d2" by (rule db_run.step)
  have d2: "db_log d2 = db_log db" "db_mem d2 = db_mem db" "\<not> wr_sync (db_writer d2 w)" "db_writers d2 = [w]" "db_phase d2 w = Some (Writing b False (n + scast (Count b)) w)"
    by (simp_all add: d2_def d1)
  obtain lg' where lg': "AddRecord WritableFileImpl b (db_log db) = (OK, lg')" using AddRecord_mem [OF lg] by blast
  have "unat (n + 1) + length xs \<le> 2 ^ 56" using assms(4) by (simp add: unat_word_ariths)
  with InsertInto_batch [OF assms(1), of "db_mem db" "[]" xs "n + 1"] obtain m' where m': "InsertInto b (db_mem db) = (OK, Some m')"
    using db(1) assms(2,3) by (auto simp: db_start_def calls_ok_def b_def)
  define d3 where "d3 = set_phase w (Written b False (n + scast (Count b)) w OK False) (d2\<lparr>db_log := lg', db_mem := m'\<rparr>)"
  have "writer_step mem_log_env usage w d2 = Some d3"
    using d2 lg' m' by (simp add: writer_step_def write_log_def mem_log_env_def d3_def)
  with run2 have run3: "?run d3" by (rule db_run.step)
  obtain d4 where d4: "writer_step mem_log_env usage w d3 = Some d4" "db_phase d4 w = Some (Returned OK)"
    using leave_eq [of "d3\<lparr>db_number := k, db_versions := vs\<rparr>" w "[]" "[]" OK for k vs] d2(4) by (simp add: writer_step_def finish_write_def Let_def d3_def)
  then show ?thesis using db_run.step [OF run3] by blast
qed

text \<open>A new database with one call, and with two whose first one has not yet begun to write.\<close>

definition sample_db :: "FileState DBImpl" where
  "sample_db = \<lparr>db_writer = (\<lambda>_. \<lparr>wr_status = OK, wr_batch = None, wr_sync = False, wr_done = False\<rparr>), db_phase = (\<lambda>_. None), db_writers = [],
     db_tmp_batch = Clear, db_mem = MemTable_new BytewiseComparator, db_imm = None, db_log = Writer_new FileState_new 0, db_logfile_number = 0,
     db_versions = VersionSet_new ''db'' BytewiseComparator [] 0 False, db_bg_error = OK, db_bg_scheduled = False, db_shutting_down = False,
     db_manual_compaction = False, db_number = 0, db_write_buffer_size = 4096\<rparr>"

lemma sample_db: "db_start BytewiseComparator 0 sample_db" "NumLevelFiles 0 (db_versions sample_db) = 0"
  using MemTable_new_rep [of BytewiseComparator]
  by (simp_all add: db_start_def sample_db_def MemTable_new_def VersionSet_new_def new_version_def AppendVersion_def Version_Ref_def NumLevelFiles_def current_version_def
      Version_new_def kNumLevels_def Let_def)

lemma sample_calls: "calls_ok (\<lambda>w. Some [OpPut [1] [of_nat w]])"
  by (simp add: calls_ok_def)

lemma sample_bound: "unat (0 :: u64) + length (all_ops (\<lambda>w. Some [OpPut [1] [of_nat w]]) [5]) < 2 ^ 56"
  by (simp add: ops_of_def)

lemma sample_run:
  "\<exists>db. db_run mem_log_env (\<lambda>_. 0) BytewiseComparator 0 (\<lambda>w. Some [OpPut [1] [of_nat w]]) [5] [] db \<and> db_phase db 5 = Some (Returned OK)"
  by (rule write_alone [OF bytewise.separating_comparator_axioms sample_calls refl _ sample_db(1)])
    (simp_all add: sample_db(2), simp_all add: sample_db_def kL0_SlowdownWritesTrigger_def Writer_new_def file_state_ok_new)

section \<open>Properties\<close>

text \<open>
  C9. Writes are atomic, ordered and exactly the successful ones. Let any number of threads call \<open>Write\<close>, with any batches and with or without sync, their steps
  interleaved in any way with each other and with the background thread, and let any operation on a log file fail. Then the entries in the memtable, the
  immutable memtable and the memtables already written to tables are, newest first, those of some of the calls, each whole and with consecutive sequence numbers that no other call
  has, in the order in which the calls came. A call that has returned is one of them exactly if it returned \<open>OK\<close>.
\<close>

theorem group_commit:
  assumes "separating_comparator c" "calls_ok ops" "db_run env usage c n ops A F db" "unat n + length (all_ops ops A) < 2 ^ 56"
  shows "\<exists>C M I Is. mt_rep (db_mem db) M \<and> (case db_imm db of None \<Rightarrow> I = [] | Some m \<Rightarrow> mt_rep m I) \<and> list_all2 mt_rep F Is \<and>
    M @ I @ concat Is = commit_entries ops C \<and> sorted_wrt (\<lambda>(w, s) (w', s'). unat s + length (ops_of ops w) \<le> unat s') C \<and>
    (\<forall>(w, s)\<in>set C. n < s) \<and> map fst C = filter (\<lambda>w. w \<in> fst ` set C) A \<and>
    (\<forall>w s. db_phase db w = Some (Returned s) \<longrightarrow> w \<in> set A \<and> (ops w \<noteq> None \<longrightarrow> (w \<in> fst ` set C \<longleftrightarrow> s = OK)))"
proof -
  obtain P G C M I Is where i: "A = P @ db_writers db" "queue_ok P db" "\<forall>w\<in>set (db_writers db). writer_rep ops (db_writer db) w" "front_ok ops db G"
    "data_ok c n ops P G F C M I Is db" using db_run_inv [OF assms(3,1,2,4)] by (rule db_invE)
  let ?G = "committed_group db G" and ?Q = "\<lambda>w. ops w \<noteq> None \<and> result db w = Some OK"
  have fst: "map fst C = filter ?Q P @ filter (\<lambda>w. ops w \<noteq> None) ?G" using i(5) by (simp add: data_ok_def)
  obtain rest where rest: "db_writers db = ?G @ rest"
  proof -
    have "?G = [] \<or> (\<exists>rest. db_writers db = ?G @ rest)"
      using i(4) unfolding front_ok_def committed_group_def by (cases "(ops, db, G, front db)" rule: front_phase_ok.cases) (auto simp: group_ok_def)
    then show thesis using that by auto
  qed
  have d: "distinct (P @ ?G @ rest)" using i(2) rest by (simp add: queue_ok_def)
  have members: "fst ` set C = {w\<in>set P. ?Q w} \<union> {w\<in>set ?G. ops w \<noteq> None}"
    using arg_cong [OF fst, of set] by auto
  have "map fst C = filter (\<lambda>w. w \<in> fst ` set C) A"
  proof -
    have "filter (\<lambda>w. w \<in> fst ` set C) P = filter ?Q P" "filter (\<lambda>w. w \<in> fst ` set C) ?G = filter (\<lambda>w. ops w \<noteq> None) ?G" "filter (\<lambda>w. w \<in> fst ` set C) rest = []"
      unfolding members using d by (auto intro!: filter_cong simp: filter_empty_conv)
    then show ?thesis unfolding i(1) rest filter_append fst by simp
  qed
  moreover have "w \<in> set A \<and> (ops w \<noteq> None \<longrightarrow> (w \<in> fst ` set C \<longleftrightarrow> s = OK))" if w: "db_phase db w = Some (Returned s)" for w s
  proof -
    have "w \<notin> set (db_writers db)" using i(2) w by (cases "db_writers db") (auto simp: queue_ok_def leading_def)
    moreover have "w \<in> set (P @ db_writers db)" using i(2) w unfolding queue_ok_def by (metis option.distinct(1))
    ultimately have "w \<in> set P" "w \<notin> set ?G" using rest by (auto dest: arg_cong [of _ _ set])
    then show ?thesis unfolding members using w i(1) by (auto simp: result_def)
  qed
  moreover have "mt_rep (db_mem db) M" "(case db_imm db of None \<Rightarrow> I = [] | Some m \<Rightarrow> mt_rep m I)" "list_all2 mt_rep F Is" "M @ I @ concat Is = commit_entries ops C"
    using i(5) by (auto simp: data_ok_def split: option.split elim: list_all2_mono)
  moreover have "sorted_wrt (\<lambda>(w, s) (w', s'). unat s + length (ops_of ops w) \<le> unat s') C" "\<forall>(w, s)\<in>set C. n < s"
    using i(5) by (auto simp: data_ok_def commits_ordered_def word_less_nat_alt)
  ultimately show ?thesis by blast
qed

theorem group_commit_witness:
  "\<exists>(db :: FileState DBImpl) C M I s. db_phase db 5 = Some (Returned OK) \<and> mt_rep (db_mem db) M \<and> (case db_imm db of None \<Rightarrow> I = [] | Some m \<Rightarrow> mt_rep m I) \<and>
    M @ I = commit_entries (\<lambda>w. Some [OpPut [1] [of_nat w]]) C \<and> C = [(5, s)] \<and> 0 < s"
proof -
  let ?ops = "\<lambda>w. Some [OpPut [1] [of_nat w]]"
  obtain db where db: "db_run mem_log_env (\<lambda>_. 0) BytewiseComparator 0 ?ops [5] [] db" "db_phase db 5 = Some (Returned OK)" using sample_run by blast
  obtain C M I Is where C: "mt_rep (db_mem db) M" "case db_imm db of None \<Rightarrow> I = [] | Some m \<Rightarrow> mt_rep m I" "list_all2 mt_rep [] Is"
    "M @ I @ concat Is = commit_entries ?ops C" "\<forall>(w, s)\<in>set C. (0 :: u64) < s" "map fst C = filter (\<lambda>w. w \<in> fst ` set C) [5]"
    "\<forall>w s. db_phase db w = Some (Returned s) \<longrightarrow> w \<in> set [5] \<and> (?ops w \<noteq> None \<longrightarrow> (w \<in> fst ` set C \<longleftrightarrow> s = OK))"
    using group_commit [OF bytewise.separating_comparator_axioms sample_calls db(1) sample_bound] by - (elim exE conjE, rule that)
  have "5 \<in> fst ` set C" using C(7) db(2) by blast
  then have "map fst C = [5]" using C(6) by simp
  then obtain s where s: "C = [(5, s)]" by (cases C) auto
  then have "M @ I = commit_entries ?ops C" "0 < s" using C(3-5) by simp_all
  with C(1,2) db(2) s show ?thesis by - (rule exI [of _ db], rule exI [of _ C], rule exI [of _ M], rule exI [of _ I], rule exI [of _ s], intro conjI)
qed

text \<open>
  C25. No write is forgotten. For every interleaving as above: the threads of the writers cannot make steps for ever, whatever the order in which they are scheduled, as long
  as no new calls come and the background thread does nothing. And when none of them can make a step, then every call has returned; or the first in the queue waits for the background thread, because the
  immutable memtable is not yet written or level 0 has too many files. So no wake-up of a waiting writer is lost, and no thread is stuck in an operation on the queue or the memtable.
\<close>

theorem writers_progress:
  assumes "separating_comparator c" "calls_ok ops" "unat n + length (all_ops ops A) < 2 ^ 56"
  shows "wf {(db', db). db_run env usage c n ops A F db \<and> (\<exists>w. writer_step env usage w db = Some db')} \<and>
    (\<forall>db. db_run env usage c n ops A F db \<and> (\<forall>w. writer_step env usage w db = None) \<longrightarrow>
       (\<forall>w\<in>set A. \<exists>s. db_phase db w = Some (Returned s)) \<or>
       (db_writers db \<noteq> [] \<and> (\<exists>force delay. db_phase db (hd (db_writers db)) = Some (RoomWaiting force delay)) \<and>
        ok (db_bg_error db) \<and> (db_imm db \<noteq> None \<or> NumLevelFiles 0 (db_versions db) \<ge> kL0_StopWritesTrigger)))"
proof (intro conjI allI impI)
  have "{(db', db). db_run env usage c n ops A F db \<and> (\<exists>w. writer_step env usage w db = Some db')} \<subseteq>
      inv_image (less_than <*lex*> less_than) (\<lambda>db. (length (db_writers db), work A db))"
    using writer_step_nearer [OF db_run_inv [OF _ assms] assms] by (fastforce simp: nearer_def)
  then show "wf {(db', db). db_run env usage c n ops A F db \<and> (\<exists>w. writer_step env usage w db = Some db')}"
    by (rule wf_subset [rotated]) (intro wf_inv_image wf_lex_prod wf_less_than)
next
  fix db
  assume db: "db_run env usage c n ops A F db \<and> (\<forall>w. writer_step env usage w db = None)"
  then have inv: "db_inv c n ops A F db" using db_run_inv [OF _ assms] by blast
  then obtain P G C M I Is where i: "A = P @ db_writers db" "queue_ok P db" "\<forall>w\<in>set (db_writers db). writer_rep ops (db_writer db) w" "front_ok ops db G"
    "data_ok c n ops P G F C M I Is db" by (rule db_invE)
  have stuck: "db_phase db w = None \<or> db_phase db w = Some Waiting \<or> (\<exists>s. db_phase db w = Some (Returned s)) \<or> (\<exists>force delay. db_phase db w = Some (RoomWaiting force delay))" for w
    using step_enabled [OF inv assms] db by blast
  show "(\<forall>w\<in>set A. \<exists>s. db_phase db w = Some (Returned s)) \<or>
       (db_writers db \<noteq> [] \<and> (\<exists>force delay. db_phase db (hd (db_writers db)) = Some (RoomWaiting force delay)) \<and>
        ok (db_bg_error db) \<and> (db_imm db \<noteq> None \<or> NumLevelFiles 0 (db_versions db) \<ge> kL0_StopWritesTrigger))"
  proof (cases "db_writers db")
    case Nil
    have "\<exists>s. db_phase db w = Some (Returned s)" if "w \<in> set P" for w
    proof -
      have "result db w \<noteq> None" using i(2) that unfolding queue_ok_def by blast
      then show ?thesis using stuck [of w] by (auto simp: result_def)
    qed
    then show ?thesis using i(1) Nil by simp
  next
    case (Cons w rest)
    then have "leading (db_phase db w)" using i(2) by (simp add: queue_ok_def)
    then obtain force delay where w: "db_phase db w = Some (RoomWaiting force delay)" using stuck [of w] by (auto simp: leading_def)
    then have "blocked db" using i(4) Cons by (simp add: front_ok_def front_def)
    then show ?thesis using Cons w by (simp add: blocked_def)
  qed
qed

theorem writers_progress_witness:
  "\<exists>db. db_run mem_log_env (\<lambda>_. 0) BytewiseComparator 0 (\<lambda>w. Some [OpPut [1] [of_nat w]]) [5] [] db \<and> (\<forall>w. writer_step mem_log_env (\<lambda>_. 0) w db = None) \<and>
    ((\<exists>s. db_phase db 5 = Some (Returned s)) \<or> (\<exists>force delay. db_phase db (hd (db_writers db)) = Some (RoomWaiting force delay)))"
proof -
  let ?run = "db_run mem_log_env (\<lambda>_. 0) BytewiseComparator 0 (\<lambda>w. Some [OpPut [1] [of_nat w]]) [5] []" and ?step = "writer_step mem_log_env (\<lambda>_. 0)"
  note progress = writers_progress [OF bytewise.separating_comparator_axioms sample_calls sample_bound, of mem_log_env "\<lambda>_. 0" "[]"]
  obtain db0 where "db0 \<in> {db. ?run db}" using sample_run by blast
  then have "\<exists>db\<in>{db. ?run db}. \<forall>db'. (db', db) \<in> {(db', db). ?run db \<and> (\<exists>w. ?step w db = Some db')} \<longrightarrow> db' \<notin> {db. ?run db}"
    by (rule conjunct1 [OF progress, unfolded wf_eq_minimal, rule_format])
  then obtain db where db: "db \<in> {db. ?run db}" "\<forall>db'. (db', db) \<in> {(db', db). ?run db \<and> (\<exists>w. ?step w db = Some db')} \<longrightarrow> db' \<notin> {db. ?run db}" by (rule bexE)
  then have run: "?run db" by simp
  have "?step w db = None" for w
  proof (cases "?step w db")
    case (Some db')
    then have "?run db'" by (rule db_run.step [OF run])
    then show ?thesis using db(2) run Some by blast
  qed
  moreover from this run have "(\<exists>s. db_phase db 5 = Some (Returned s)) \<or> (\<exists>force delay. db_phase db (hd (db_writers db)) = Some (RoomWaiting force delay))"
    using conjunct2 [OF progress] by auto
  ultimately show ?thesis using run by blast
qed

end
