(* ===== verification/Spec2Isabelle.thy ===== *)
theory Spec2Isabelle
  imports Crc32c DbFormat Log Filename WriteBatch Arena VersionEdit Table Recovery Compaction GroupCommit
begin

text \<open>
  \<^bold>\<open>The program.\<close> The repository is a key-value store on a log-structured merge tree, derived from LevelDB, in
  which the Bloom filters of a table are split into units that are loaded and evicted one by one (\<open>ElasticBF.md\<close>). A write
  goes into the write-ahead log and the memtable, a skip list of encoded entries. A full memtable becomes a table
  file: sorted, prefix-compressed blocks, filter units, an index and a footer. The table files are kept in seven
  levels; which files are in which level is a version, and changes of it are logged as version edits in a manifest. Compactions merge files of one
  level into the next. A lookup goes through the files of the current version that can have the key; open tables are
  kept in a cache with containers ordered by level and loaded filter units, and blocks in another cache of the same kind.

  \<^bold>\<open>How the code is translated.\<close> Bytes are words of 8 bits, \<open>Slice\<close> and \<open>std::string\<close> are lists of them; \<open>uint32_t\<close> and \<open>uint64_t\<close> are words,
  so that they wrap; sizes and positions inside one buffer are natural numbers where no difference is formed that may wrap. Where the code adds lengths that it
  has read or been given, the sum is taken modulo the width (\<open>DecodeEntry\<close>, \<open>AllocateAligned\<close>). Counts that grow by one in each call are unbounded: the reference counts
  and charges of \<open>LRUHandle\<close>, the sizes of \<open>HandleTable\<close>, the reference counts of files, of versions and of files in memory, the seek and query counters of
  \<open>FileMetaData\<close>; so is \<open>bits_per_key\<close> of the Bloom policy, which is not negative. A class is
  a record, its methods are functions that return the changed record. Where the code shares objects through pointers (files of the in-memory
  environment, nodes of the skip list, handles of the caches, the multi-queue and the containers, open tables, versions and the metadata of
  files) there is an explicit store from references to objects; reading a reference that is not in the store has
  no result. Errors are values of \<open>Status\<close>. A function with result type \<open>option\<close> gives \<open>None\<close> where the code would use memory that
  it must not use, fail an assertion or not return. A loop that is not obviously finite is a \<open>partial_function\<close>, so that not returning
  is \<open>None\<close>, and the theorems show a result; there is no fuel (k-means is the exception: its rounds have no bound that the code states, and what is said about clustering is said
  for calls that return). Mutexes, atomics and memory orders are left out: each call is one step, except for \<open>DBImpl::Write\<close>, which is cut where it releases the mutex. Floating-point numbers
  are real numbers. Assertions are hypotheses of the theorems where the code relies on its callers.

  \<^bold>\<open>Ground.\<close>
  \<^item> \<open>Prelude\<close>: names of the machine types, collections of theorems, facts on words and lists.
  \<^item> \<open>Coding\<close> (\<open>util/coding.cc\<close>): fixed-width integers, varints and length-prefixed slices; round trips, exactly when a decoder fails, and what it leaves.
  \<^item> \<open>Crc32c\<close> (\<open>util/crc32c.cc\<close>): the table-driven, strided and aligned checksum equals the bit-serial one at every address of the buffer; checksums of
    concatenations, detection of a changed byte.
  \<^item> \<open>Status\<close> (\<open>util/status.cc\<close>, file interfaces of \<open>include/leveldb/env.h\<close>): statuses, and the locales \<open>writable_file\<close> and \<open>sequential_file\<close>, which are what logs and tables rely on.
  \<^item> \<open>Comparator\<close> (\<open>util/comparator.cc\<close>, \<open>include/leveldb/slice.h\<close>): the comparator as a record; the locales \<open>key_order\<close>, \<open>comparator\<close> and
    \<open>separating_comparator\<close>, with the bytewise comparator as an instance.
  \<^item> \<open>Logging\<close> (\<open>util/logging.cc\<close>): decimal numbers with the overflow test, escaping.
  \<^item> \<open>Arena\<close> (\<open>util/arena.cc\<close>): the bump allocator, over any allocator of blocks, which may fail; the regions are disjoint for all sizes for which the
    size of an aligned request does not wrap, and \<open>arena_aligned_wraps\<close> shows what happens for the others.
  \<^item> \<open>MemEnv\<close> (\<open>helpers/memenv/memenv.cc\<close>): the in-memory environment on a store of reference-counted files; it provides the file interfaces for
    everything above it.
  \<^item> \<open>Filename\<close> (\<open>db/filename.cc\<close>, \<open>util/env.cc\<close>): names of files and their parser, whole-file reading and writing, \<open>SetCurrentFile\<close>.

  \<^bold>\<open>Writes in memory.\<close>
  \<^item> \<open>DbFormat\<close> (\<open>db/dbformat.cc\<close>): internal keys, their order, lookup keys, the filter policy on user keys.
  \<^item> \<open>Log\<close> (\<open>db/log_writer.cc\<close>, \<open>db/log_reader.cc\<close>): what is read after a crash at any byte, that reading returns on every file, and that a changed
    byte costs no more than the block it is in.
  \<^item> \<open>SkipList\<close> (\<open>db/skiplist.h\<close>, \<open>util/random.h\<close>): nodes with arrays of next pointers refine a sorted list, for every sequence of random heights.
  \<^item> \<open>MemTable\<close> (\<open>db/memtable.cc\<close>) and \<open>WriteBatch\<close> (\<open>db/write_batch.cc\<close>): lookups give the newest visible version; a batch is replayed as
    it was built, and of arbitrary bytes exactly the records up to the first error, with the status for that error.
  \<^item> \<open>DbWrite\<close> (\<open>DBImpl::Write\<close>, \<open>BuildBatchGroup\<close> and \<open>MakeRoomForWrite\<close> of \<open>db/db_impl.cc\<close>): the queue of writers, cut into the steps between which other threads run; the log environment may
    fail at any operation, and the background thread may change versions and flush the immutable memtable at any time. \<open>GroupCommit\<close> shows for every interleaving that writes are atomic and ordered,
    that exactly those which return \<open>OK\<close> are in the memtables, and that no wake-up is lost.

  \<^bold>\<open>Tables.\<close>
  \<^item> \<open>Bloom\<close> (\<open>util/hash.cc\<close>, \<open>util/bloom.cc\<close>): filters with a unit number; no false negatives; the locale \<open>filter_policy\<close>.
  \<^item> \<open>Format\<close>, \<open>Block\<close>, \<open>FilterBlock\<close>, \<open>TableBuilder\<close>, \<open>Table\<close> (\<open>table/\<close>): stored blocks with checksums, the block builder and the block iterator, which refines
    a cursor over the entries, and which reads only inside the block on any contents in which the length test of \<open>DecodeEntry\<close> does not wrap (\<open>decode_entry_wraps\<close> has one in which it does), the filter units with loading, eviction, release and reload, the builder of a table and the reader. The locales \<open>random_access_file\<close>,
    \<open>unit_policy\<close>, \<open>filter_file\<close>, \<open>table_order\<close>, \<open>table_format\<close>, \<open>table_writer\<close> and \<open>table_reader\<close> are the interfaces between them; they are interpreted
    on internal keys, Bloom filters and in-memory files. What is built is found again, through any history of
    lookups, filter loads and cache contents.
  \<^item> \<open>MultiQueue\<close> (\<open>util/multi_queue.cc\<close>): the queues of filter readers by loaded units. The reachable states carry the set of readers that were ever
    released or sent back and the error of the recorded usage: the others are in the queue of their units, and only reloads make an error.

  \<^bold>\<open>Levels.\<close>
  \<^item> \<open>VersionEdit\<close> (\<open>db/version_edit.cc\<close>): edits, their encoding and decoding.
  \<^item> \<open>Version\<close> (\<open>db/version_set.cc\<close>, lines 26 to 629): the searches for files, the walk of a lookup over the levels, seek statistics, read samples, the level of a new table. \<open>VersionGet\<close>
    has the specification of a lookup, the newest visible entry of all tables, and the proof over any provider of tables (locale \<open>table_provider\<close>).
  \<^item> \<open>VersionSet\<close> (lines 630 to 1250): reference counts of versions and files, the builder that applies edits, scores, \<open>LogAndApply\<close>, \<open>Recover\<close>.
    \<open>Manifest\<close> shows what logging leaves in the manifest, \<open>Recovery\<close> that a manifest cut anywhere is recovered up to its last complete edit.
  \<^item> \<open>Compaction\<close> (lines 1250 to 1687): ranges, boundary files, picking and expanding of inputs, the questions a running compaction asks. Compactions that are due are
    started; their inputs are closed under overlaps and shared user keys; \<open>IsBaseLevelForKey\<close> is exact.

  \<^bold>\<open>Caches.\<close>
  \<^item> \<open>Cache\<close> (\<open>util/cache.cc\<close>): the chained hash table, the shards with both lists and reference counts; safe for every sequence of
    client calls (\<open>cache_run\<close>).
  \<^item> \<open>SSTableWorth\<close> (\<open>util/sstable_worth.cc\<close>, \<open>util/lr.cc\<close>): the test whether a filter unit is worth its memory, and that it never says no; \<open>KMeans\<close> (\<open>util/k_means.h\<close>): the clustering
    that it uses, with the random numbers as an argument. Clustering a single table reads a row that is not there, and a table far from all centres gets the index -1.
  \<^item> \<open>MultiContainer\<close> (\<open>util/container.cc\<close>, \<open>util/multi_container.cc\<close>): the containers of open tables.
  \<^item> \<open>TableCache\<close> (\<open>util/table_cache_lru.cc\<close>, \<open>db/table_cache.cc\<close>): opening tables through the cache. It interprets \<open>table_provider\<close>, which gives the correctness of
    \<open>Version::Get\<close> down to the bytes of the table files; and it shows that an evicted table is freed while the containers still use it.

  \<^bold>\<open>Parameters.\<close> The compression libraries (hypothesis \<open>compression_ok\<close>: what is compressed is decompressed again), the allocator of memory blocks (locale
  \<open>block_allocator\<close>), what a block cache keeps (it never returns anything that was not put in), the random numbers of the skip list and of k-means, the operations on log files in \<open>DbWrite\<close>.

  \<^bold>\<open>Not modelled.\<close> The rest of the database implementation (\<open>db/db_impl.cc\<close>): opening, the work of the background thread, which needs the iterators, snapshots and properties. The iterators over a whole
  table and over all tables (\<open>table/two_level_iterator.cc\<close>, \<open>table/merger.cc\<close>, \<open>db/db_iter.cc\<close>) and what is built on them (\<open>TableCache::NewIterator\<close>, \<open>Version::AddIterators\<close>,
  \<open>VersionSet::MakeInputIterator\<close>, \<open>db/builder.cc\<close>, \<open>db/repair.cc\<close>): lookups, logs and the choice of compactions do not use them. \<open>Version::AdjustBloomFilter\<close>: floating-point logarithms. The operating
  system environments, loggers and read buffers: system calls. The learned models (\<open>util/module.cc\<close>), measurement and scheduling (\<open>util/timer.cc\<close>, \<open>util/histogram.cc\<close>,
  \<open>util/mq_schedule.cc\<close>), dump tools and C bindings: statistics for reports, external libraries, forwarders.
\<close>

end
